(* ===== verification/Prelude.thy ===== *)
theory Prelude
  imports
    Main
    "HOL-Library.Word"
    "HOL-Library.Multiset"
    "HOL-Library.Monad_Syntax"
begin

text \<open>
  Shared vocabulary of the development: names for the machine types, the value of a
  kernel assertion, and the generic list and word lemmas the components use.

  Conventions. A C routine that can stop at an \<^verbatim>\<open>ASSERT\<close> or a \<^verbatim>\<open>PANIC\<close>, or whose
  loop may run for ever, is a function into \<open>option\<close>: \<open>None\<close> means that the call does
  not return to its caller. Each theorem that such a routine works says that the value
  is \<open>Some\<close>, so it contains the fact that the routine returns.
\<close>

unbundle bit_operations_syntax

section \<open>Machine types\<close>

type_synonym byte = "8 word"
type_synonym u32 = "32 word"
type_synonym u64 = "64 word"

text \<open>Addresses are numbers; the null pointer is address 0.\<close>

type_synonym addr = nat

abbreviation (input) NULL :: addr where
  "NULL \<equiv> 0"

section \<open>Assertions\<close>

text \<open>The kernel's \<^verbatim>\<open>ASSERT (b)\<close>: the machine stops unless the condition holds.\<close>

definition kassert :: "bool \<Rightarrow> unit option" where
  "kassert b = (if b then Some () else None)"

lemma kassert_True [simp]: "kassert True = Some ()"
  by (simp add: kassert_def)

lemma kassert_False [simp]: "kassert False = None"
  by (simp add: kassert_def)

lemma kassert_eq_Some [simp]: "kassert b = Some u \<longleftrightarrow> b"
  by (simp add: kassert_def)

lemma kassert_bind [simp]: "b \<Longrightarrow> kassert b \<bind> f = f ()"
  by (simp add: kassert_def)

lemma kassert_bind_Some_iff: "kassert b \<bind> f = Some y \<longleftrightarrow> b \<and> f () = Some y"
  by (simp add: kassert_def)

section \<open>Collections of rules\<close>

text \<open>
  \<open>rep_intros\<close> collects the preservation rules of the representation invariants,
  \<open>exec_simps\<close> the equations that run a model on concrete values.
\<close>

named_theorems rep_intros "preservation of representation invariants"
named_theorems exec_simps "equations for symbolic execution of the models"

section \<open>Lists\<close>

lemma hd_append_single [simp]: "hd (xs @ [y]) = (if xs = [] then y else hd xs)"
  by (cases xs) auto

lemma last_Cons_append [simp]: "ys \<noteq> [] \<Longrightarrow> last (x # xs @ ys) = last ys"
  by simp

lemma butlast_subset: "x \<in> set (butlast xs) \<Longrightarrow> x \<in> set xs"
  by (rule in_set_butlastD)

lemma tl_subset: "x \<in> set (tl xs) \<Longrightarrow> x \<in> set xs"
  by (cases xs) auto

lemma distinct_last_notin_butlast: "distinct xs \<Longrightarrow> xs \<noteq> [] \<Longrightarrow> last xs \<notin> set (butlast xs)"
  by (induction xs) auto

lemma distinct_hd_notin_tl: "distinct xs \<Longrightarrow> xs \<noteq> [] \<Longrightarrow> hd xs \<notin> set (tl xs)"
  by (cases xs) auto

lemma hd_pos [simp]: "0 \<notin> set xs \<Longrightarrow> xs \<noteq> [] \<Longrightarrow> 0 < (hd xs :: nat)"
  by (cases xs) auto

lemma last_pos [simp]: "0 \<notin> set xs \<Longrightarrow> xs \<noteq> [] \<Longrightarrow> 0 < (last xs :: nat)"
  by (metis last_in_set neq0_conv)

lemma mem_pos: "0 \<notin> set xs \<Longrightarrow> x \<in> set xs \<Longrightarrow> 0 < (x :: nat)"
  by (metis neq0_conv)

lemma nth_list_update_if:
  "i < length xs \<Longrightarrow> xs[i := x] ! j = (if i = j then x else xs ! j)"
  by simp

lemma take_Suc_snoc: "n < length xs \<Longrightarrow> take (Suc n) xs = take n xs @ [xs ! n]"
  by (rule take_Suc_conv_app_nth)

section \<open>Words\<close>

lemma unat_add_of_nat:
  "unat (a :: u32) + n < 2 ^ 32 \<Longrightarrow> unat (a + of_nat n) = unat a + n"
  by (simp add: unat_plus_if' unat_of_nat)

lemma mod_zero_obtain:
  assumes "n mod m = (0::nat)"
  obtains q where "n = m * q"
  using assms by (metis mod_0_imp_dvd dvdE)

text \<open>Words in memory: four bytes, the lowest one first.\<close>

definition encode32 :: "u32 \<Rightarrow> byte list" where
  "encode32 w = [ucast w, ucast (drop_bit 8 w), ucast (drop_bit 16 w), ucast (drop_bit 24 w)]"

definition decode32 :: "byte list \<Rightarrow> u32" where
  "decode32 bs = ucast (bs ! 0) OR push_bit 8 (ucast (bs ! 1)) OR push_bit 16 (ucast (bs ! 2)) OR push_bit 24 (ucast (bs ! 3))"

lemma length_encode32 [simp]: "length (encode32 w) = 4"
  by (simp add: encode32_def)

lemma decode32_encode32 [simp]: "decode32 (encode32 w) = w"
proof (rule bit_word_eqI)
  fix n assume "n < LENGTH(32)"
  then have n: "n < 32" by simp
  have e: "encode32 w ! 0 = ucast w" "encode32 w ! 1 = ucast (drop_bit 8 w)" "encode32 w ! 2 = ucast (drop_bit 16 w)"
    "encode32 w ! 3 = ucast (drop_bit 24 w)" by (simp_all add: encode32_def)
  have eq: "bit (decode32 (encode32 w)) n \<longleftrightarrow>
      n < 8 \<and> bit w n \<or> (8 \<le> n \<and> n - 8 < 8 \<and> bit w (8 + (n - 8))) \<or>
      (16 \<le> n \<and> n - 16 < 8 \<and> bit w (16 + (n - 16))) \<or> (24 \<le> n \<and> n - 24 < 8 \<and> bit w (24 + (n - 24)))"
    unfolding decode32_def e using n
    by (simp only: bit_or_iff bit_push_bit_iff bit_ucast_iff bit_drop_bit_eq o_apply possible_bit_def len_num0 len_bit0 len_bit1 len_num1) auto
  consider "n < 8" | "8 \<le> n" "n < 16" | "16 \<le> n" "n < 24" | "24 \<le> n" by linarith
  then show "bit (decode32 (encode32 w)) n \<longleftrightarrow> bit w n"
  proof cases
    case 1 then show ?thesis unfolding eq by simp
  next
    case 2
    then have f: "n - 8 < 8" "8 + (n - 8) = n" "\<not> n < 8" "\<not> 16 \<le> n" "\<not> 24 \<le> n" "8 \<le> n" by arith+
    show ?thesis unfolding eq by (simp only: f simp_thms)
  next
    case 3
    then have f: "n - 16 < 8" "16 + (n - 16) = n" "\<not> n < 8" "\<not> n - 8 < 8" "16 \<le> n" "\<not> 24 \<le> n" by arith+
    show ?thesis unfolding eq by (simp only: f simp_thms)
  next
    case 4
    then have f: "n - 24 < 8" "24 + (n - 24) = n" "\<not> n < 8" "\<not> n - 8 < 8" "\<not> n - 16 < 8" "24 \<le> n" using n by arith+
    show ?thesis unfolding eq by (simp only: f simp_thms)
  qed
qed

lemma u32_bound: "unat (x :: u32) < 2 ^ 32"
  using unsigned_less [of x] by simp

lemma unat_plus_small: "unat (a :: u32) + unat b < 2 ^ 32 \<Longrightarrow> unat (a + b) = unat a + unat b"
  by (simp add: unat_plus_if')

lemma sint_small: "unat (w :: u32) < 2 ^ 31 \<Longrightarrow> sint w = int (unat w)"
proof -
  assume "unat w < 2 ^ 31"
  then have "int (unat w) < int (2 ^ 31)" by (simp only: of_nat_less_iff)
  then have b: "uint w < 2 ^ 31" by simp
  have "(0 :: int) \<le> uint w" by (rule unsigned_greater_eq)
  then have "- (2 ^ 31) \<le> uint w" by (rule order_trans [rotated]) simp
  then have "signed_take_bit 31 (uint w) = uint w" using b by (rule signed_take_bit_int_eq_self)
  then show ?thesis by (simp add: sint_uint)
qed

lemma unat_sub_of_nat: "n \<le> unat (a :: u32) \<Longrightarrow> unat (a - of_nat n) = unat a - n"
proof -
  assume n: "n \<le> unat a"
  then have "n < 2 ^ 32" using u32_bound [of a] by simp
  then have "unat (of_nat n :: u32) = n" by (simp add: unat_of_nat take_bit_nat_eq_self)
  then show ?thesis using n by (simp add: unat_sub word_le_nat_alt)
qed

lemma u64_bound: "unat (x :: u64) < 2 ^ 64"
  using unsigned_less [of x] by simp

end
