(* ===== verification/KList.thy ===== *)
theory KList
  imports Prelude
begin

text \<open>
  The kernel's intrusive doubly linked lists, \<^verbatim>\<open>lib/kernel/list.c\<close> and
  \<^verbatim>\<open>lib/kernel/list.h\<close>, on an explicit heap: the \<^verbatim>\<open>next\<close> and \<^verbatim>\<open>prev\<close> members of every
  \<^verbatim>\<open>struct list_elem\<close> as two functions from addresses, updated by the same pointer
  assignments in the same order as the C code. The relation \<open>list_rep h l xs\<close> says that
  list \<open>l\<close> holds exactly the elements \<open>xs\<close> in order; each operation is shown to act on
  \<open>xs\<close> as its comment promises and to leave every element outside the list alone.
\<close>

section \<open>The heap and the list objects\<close>

record links =
  nextp :: "addr \<Rightarrow> addr"
  prevp :: "addr \<Rightarrow> addr"

text \<open>A \<^verbatim>\<open>struct list *\<close>, by the addresses of its two header elements. A value of this
  type stands for a non-null pointer, so \<^verbatim>\<open>ASSERT (list != NULL)\<close> holds.\<close>

record klist =
  head :: addr
  tail :: addr

definition set_next :: "addr \<Rightarrow> addr \<Rightarrow> links \<Rightarrow> links" where
  "set_next a v h = h\<lparr>nextp := (nextp h)(a := v)\<rparr>"

definition set_prev :: "addr \<Rightarrow> addr \<Rightarrow> links \<Rightarrow> links" where
  "set_prev a v h = h\<lparr>prevp := (prevp h)(a := v)\<rparr>"

lemma links_upd [simp]:
  "nextp (set_next a v h) = (nextp h)(a := v)"
  "prevp (set_next a v h) = prevp h"
  "prevp (set_prev a v h) = (prevp h)(a := v)"
  "nextp (set_prev a v h) = nextp h"
  by (simp_all add: set_next_def set_prev_def)

definition is_head :: "links \<Rightarrow> addr \<Rightarrow> bool" where
  "is_head h e \<longleftrightarrow> e \<noteq> NULL \<and> prevp h e = NULL \<and> nextp h e \<noteq> NULL"

definition is_interior :: "links \<Rightarrow> addr \<Rightarrow> bool" where
  "is_interior h e \<longleftrightarrow> e \<noteq> NULL \<and> prevp h e \<noteq> NULL \<and> nextp h e \<noteq> NULL"

definition is_tail :: "links \<Rightarrow> addr \<Rightarrow> bool" where
  "is_tail h e \<longleftrightarrow> e \<noteq> NULL \<and> prevp h e \<noteq> NULL \<and> nextp h e = NULL"

section \<open>Operations\<close>

subsection \<open>Traversal\<close>

definition list_init :: "klist \<Rightarrow> links \<Rightarrow> links" where
  "list_init l h =
     (let h = set_prev (head l) NULL h;
          h = set_next (head l) (tail l) h;
          h = set_prev (tail l) (head l) h
      in set_next (tail l) NULL h)"

definition list_begin :: "links \<Rightarrow> klist \<Rightarrow> addr" where
  "list_begin h l = nextp h (head l)"

definition list_next :: "links \<Rightarrow> addr \<Rightarrow> addr option" where
  "list_next h e = do { kassert (is_head h e \<or> is_interior h e); Some (nextp h e) }"

definition list_end :: "klist \<Rightarrow> addr" where
  "list_end l = tail l"

definition list_rbegin :: "links \<Rightarrow> klist \<Rightarrow> addr" where
  "list_rbegin h l = prevp h (tail l)"

definition list_prev :: "links \<Rightarrow> addr \<Rightarrow> addr option" where
  "list_prev h e = do { kassert (is_interior h e \<or> is_tail h e); Some (prevp h e) }"

definition list_rend :: "klist \<Rightarrow> addr" where
  "list_rend l = head l"

definition list_head :: "klist \<Rightarrow> addr" where
  "list_head l = head l"

definition list_tail :: "klist \<Rightarrow> addr" where
  "list_tail l = tail l"

definition list_empty :: "links \<Rightarrow> klist \<Rightarrow> bool" where
  "list_empty h l \<longleftrightarrow> list_begin h l = list_end l"

subsection \<open>Insertion and removal\<close>

definition list_insert :: "addr \<Rightarrow> addr \<Rightarrow> links \<Rightarrow> links option" where
  "list_insert before e h = do {
     kassert (is_interior h before \<or> is_tail h before);
     kassert (e \<noteq> NULL);
     let h = set_prev e (prevp h before) h;
     let h = set_next e before h;
     let h = set_next (prevp h before) e h;
     let h = set_prev before e h;
     Some h }"

definition list_splice :: "addr \<Rightarrow> addr \<Rightarrow> addr \<Rightarrow> links \<Rightarrow> links option" where
  "list_splice before first stop h = do {
     kassert (is_interior h before \<or> is_tail h before);
     if first = stop then Some h
     else do {
       last \<leftarrow> list_prev h stop;
       kassert (is_interior h first);
       kassert (is_interior h last);
       let h = set_next (prevp h first) (nextp h last) h;
       let h = set_prev (nextp h last) (prevp h first) h;
       let h = set_prev first (prevp h before) h;
       let h = set_next last before h;
       let h = set_next (prevp h before) first h;
       let h = set_prev before last h;
       Some h } }"

definition list_push_front :: "klist \<Rightarrow> addr \<Rightarrow> links \<Rightarrow> links option" where
  "list_push_front l e h = list_insert (list_begin h l) e h"

definition list_push_back :: "klist \<Rightarrow> addr \<Rightarrow> links \<Rightarrow> links option" where
  "list_push_back l e h = list_insert (list_end l) e h"

definition list_remove :: "addr \<Rightarrow> links \<Rightarrow> (addr \<times> links) option" where
  "list_remove e h = do {
     kassert (is_interior h e);
     let h = set_next (prevp h e) (nextp h e) h;
     let h = set_prev (nextp h e) (prevp h e) h;
     Some (nextp h e, h) }"

definition list_front :: "links \<Rightarrow> klist \<Rightarrow> addr option" where
  "list_front h l = do { kassert (\<not> list_empty h l); Some (nextp h (head l)) }"

definition list_back :: "links \<Rightarrow> klist \<Rightarrow> addr option" where
  "list_back h l = do { kassert (\<not> list_empty h l); Some (prevp h (tail l)) }"

definition list_pop_front :: "klist \<Rightarrow> links \<Rightarrow> (addr \<times> links) option" where
  "list_pop_front l h = do {
     front \<leftarrow> list_front h l;
     (_, h) \<leftarrow> list_remove front h;
     Some (front, h) }"

definition list_pop_back :: "klist \<Rightarrow> links \<Rightarrow> (addr \<times> links) option" where
  "list_pop_back l h = do {
     back \<leftarrow> list_back h l;
     (_, h) \<leftarrow> list_remove back h;
     Some (back, h) }"

subsection \<open>Size and reversal\<close>

partial_function (option) list_size_loop :: "links \<Rightarrow> addr \<Rightarrow> addr \<Rightarrow> nat \<Rightarrow> nat option" where
  "list_size_loop h e stop cnt =
     (if e = stop then Some cnt
      else do { e \<leftarrow> list_next h e; list_size_loop h e stop (cnt + 1) })"

definition list_size :: "links \<Rightarrow> klist \<Rightarrow> nat option" where
  "list_size h l = list_size_loop h (list_begin h l) (list_end l) 0"

text \<open>Exchange of the two pointers of one element, \<^verbatim>\<open>swap (&e->prev, &e->next)\<close>.\<close>

definition swap_links :: "addr \<Rightarrow> links \<Rightarrow> links" where
  "swap_links e h = (let t = prevp h e in set_next e t (set_prev e (nextp h e) h))"

partial_function (option) list_reverse_loop :: "addr \<Rightarrow> addr \<Rightarrow> links \<Rightarrow> links option" where
  "list_reverse_loop e stop h =
     (if e = stop then Some h
      else (let h = swap_links e h in list_reverse_loop (prevp h e) stop h))"

definition list_reverse :: "klist \<Rightarrow> links \<Rightarrow> links option" where
  "list_reverse l h =
     (if list_empty h l then Some h
      else do {
        h \<leftarrow> list_reverse_loop (list_begin h l) (list_end l) h;
        let t = nextp h (head l);
        let h = set_next (head l) (prevp h (tail l)) h;
        let h = set_prev (tail l) t h;
        let a = nextp h (head l);
        let b = prevp h (tail l);
        let t = prevp h a;
        let h = set_prev a (nextp h b) h;
        let h = set_next b t h;
        Some h })"

section \<open>What the heap represents\<close>

text \<open>Consecutive elements of a path point at each other.\<close>

fun linked :: "links \<Rightarrow> addr list \<Rightarrow> bool" where
  "linked h (x # y # ps) \<longleftrightarrow> nextp h x = y \<and> prevp h y = x \<and> linked h (y # ps)"
| "linked h _ \<longleftrightarrow> True"

definition cells :: "klist \<Rightarrow> addr list \<Rightarrow> addr list" where
  "cells l xs = head l # xs @ [tail l]"

definition list_rep :: "links \<Rightarrow> klist \<Rightarrow> addr list \<Rightarrow> bool" where
  "list_rep h l xs \<longleftrightarrow>
     distinct (cells l xs) \<and> NULL \<notin> set (cells l xs) \<and>
     prevp h (head l) = NULL \<and> nextp h (tail l) = NULL \<and> linked h (cells l xs)"

text \<open>Two heaps agree on the links of the elements outside a set.\<close>

definition same_outside :: "addr set \<Rightarrow> links \<Rightarrow> links \<Rightarrow> bool" where
  "same_outside A h h' \<longleftrightarrow> (\<forall>a. a \<notin> A \<longrightarrow> nextp h' a = nextp h a \<and> prevp h' a = prevp h a)"

lemma cells_simps [simp]:
  "set (cells l xs) = insert (head l) (insert (tail l) (set xs))"
  "distinct (cells l xs) \<longleftrightarrow>
     head l \<noteq> tail l \<and> head l \<notin> set xs \<and> tail l \<notin> set xs \<and> distinct xs"
  by (auto simp: cells_def)

lemma linked_Cons:
  "ps \<noteq> [] \<Longrightarrow> linked h (x # ps) \<longleftrightarrow> nextp h x = hd ps \<and> prevp h (hd ps) = x \<and> linked h ps"
  by (cases ps) auto

lemma linked_append:
  "xs \<noteq> [] \<Longrightarrow> ys \<noteq> [] \<Longrightarrow>
   linked h (xs @ ys) \<longleftrightarrow>
     linked h xs \<and> linked h ys \<and> nextp h (last xs) = hd ys \<and> prevp h (hd ys) = last xs"
proof (induction xs)
  case Nil
  then show ?case by simp
next
  case (Cons x xs)
  then show ?case by (cases "xs = []") (auto simp: linked_Cons)
qed

lemma linked_cong:
  assumes "linked h ps"
    and "\<forall>a \<in> set (butlast ps). nextp h' a = nextp h a"
    and "\<forall>a \<in> set (tl ps). prevp h' a = prevp h a"
  shows "linked h' ps"
  using assms
proof (induction h ps rule: linked.induct)
  case (1 h x y ps)
  then show ?case by (cases ps) auto
qed auto

lemma linked_upd_next_last [simp]:
  "distinct ps \<Longrightarrow> ps \<noteq> [] \<Longrightarrow> last ps = a \<Longrightarrow> linked (set_next a v h) ps = linked h ps"
  using distinct_last_notin_butlast [of ps] linked_cong [of h ps "set_next a v h"]
    linked_cong [of "set_next a v h" ps h] by auto

lemma linked_upd_prev_hd [simp]:
  "distinct ps \<Longrightarrow> ps \<noteq> [] \<Longrightarrow> hd ps = a \<Longrightarrow> linked (set_prev a v h) ps = linked h ps"
  using distinct_hd_notin_tl [of ps] linked_cong [of h ps "set_prev a v h"]
    linked_cong [of "set_prev a v h" ps h] by auto

lemma linked_upd_next_out [simp]:
  "a \<notin> set ps \<Longrightarrow> linked (set_next a v h) ps = linked h ps"
proof -
  assume "a \<notin> set ps"
  then have "\<forall>b \<in> set (butlast ps). nextp (set_next a v h) b = nextp h b"
    by (auto dest: butlast_subset)
  then show ?thesis
    using linked_cong [of h ps "set_next a v h"] linked_cong [of "set_next a v h" ps h] by auto
qed

lemma linked_upd_prev_out [simp]:
  "a \<notin> set ps \<Longrightarrow> linked (set_prev a v h) ps = linked h ps"
proof -
  assume "a \<notin> set ps"
  then have "\<forall>b \<in> set (tl ps). prevp (set_prev a v h) b = prevp h b"
    by (auto dest: tl_subset)
  then show ?thesis
    using linked_cong [of h ps "set_prev a v h"] linked_cong [of "set_prev a v h" ps h] by auto
qed

text \<open>A list can be cut at any element; the pieces meet in the pointers on both sides.\<close>

lemma list_rep_split:
  "list_rep h l (xs @ ys) \<longleftrightarrow>
     distinct (cells l (xs @ ys)) \<and> NULL \<notin> set (cells l (xs @ ys)) \<and>
     prevp h (head l) = NULL \<and> nextp h (tail l) = NULL \<and>
     linked h (head l # xs) \<and> linked h (ys @ [tail l]) \<and>
     nextp h (last (head l # xs)) = hd (ys @ [tail l]) \<and>
     prevp h (hd (ys @ [tail l])) = last (head l # xs)"
proof -
  have "linked h (cells l (xs @ ys)) \<longleftrightarrow>
      linked h (head l # xs) \<and> linked h (ys @ [tail l]) \<and>
      nextp h (last (head l # xs)) = hd (ys @ [tail l]) \<and>
      prevp h (hd (ys @ [tail l])) = last (head l # xs)"
    using linked_append [of "head l # xs" "ys @ [tail l]" h] by (simp add: cells_def)
  then show ?thesis by (auto simp: list_rep_def)
qed

lemma list_rep_distinct: "list_rep h l xs \<Longrightarrow> distinct xs"
  by (simp add: list_rep_def)

lemma list_rep_not_hdr:
  "list_rep h l xs \<Longrightarrow> x \<in> set xs \<Longrightarrow> x \<noteq> head l \<and> x \<noteq> tail l \<and> x \<noteq> NULL"
  by (auto simp: list_rep_def mem_pos)

lemma list_rep_begin: "list_rep h l xs \<Longrightarrow> list_begin h l = hd (xs @ [tail l])"
  using list_rep_split [of h l "[]" xs] by (simp add: list_begin_def)

lemma list_rep_end: "list_rep h l xs \<Longrightarrow> prevp h (tail l) = last (head l # xs)"
  using list_rep_split [of h l xs "[]"] by simp

lemma list_rep_rbegin: "list_rep h l xs \<Longrightarrow> list_rbegin h l = last (head l # xs)"
  using list_rep_end by (simp add: list_rbegin_def)

lemma list_rep_next:
  assumes "list_rep h l (xs @ x # ys)"
  shows "list_next h x = Some (hd (ys @ [tail l]))"
    and "is_interior h x"
    and "list_prev h x = Some (last (head l # xs))"
proof -
  have *: "nextp h x = hd (ys @ [tail l])" "prevp h x = last (head l # xs)"
    using list_rep_split [of h l "xs @ [x]" ys] list_rep_split [of h l xs "x # ys"] assms
    by simp_all
  have "hd (ys @ [tail l]) \<noteq> NULL" "last (head l # xs) \<noteq> NULL" "x \<noteq> NULL"
    using assms by (auto simp: list_rep_def)
  then show "list_next h x = Some (hd (ys @ [tail l]))" "is_interior h x"
    "list_prev h x = Some (last (head l # xs))"
    using * by (auto simp: list_next_def list_prev_def is_interior_def)
qed

lemma list_rep_interior: "list_rep h l xs \<Longrightarrow> x \<in> set xs \<Longrightarrow> is_interior h x"
  by (auto simp: in_set_conv_decomp dest: list_rep_next(2))

lemma list_rep_next_head: "list_rep h l xs \<Longrightarrow> list_next h (head l) = Some (hd (xs @ [tail l]))"
  using list_rep_begin [of h l xs]
  by (cases xs) (auto simp: list_next_def is_head_def list_begin_def list_rep_def)

lemma list_rep_tail:
  assumes "list_rep h l xs"
  shows "is_tail h (tail l)" and "list_prev h (tail l) = Some (last (head l # xs))"
proof -
  have "last (head l # xs) \<noteq> NULL"
    using assms by (auto simp: list_rep_def)
  then show "is_tail h (tail l)" "list_prev h (tail l) = Some (last (head l # xs))"
    using assms list_rep_end [OF assms] by (auto simp: list_prev_def is_tail_def list_rep_def)
qed

lemma list_rep_empty: "list_rep h l xs \<Longrightarrow> list_empty h l \<longleftrightarrow> xs = []"
  using list_rep_begin [of h l xs]
  by (cases xs) (auto simp: list_empty_def list_end_def list_rep_def)

section \<open>Each operation acts on the represented list\<close>

lemma list_init_rep:
  "head l \<noteq> tail l \<Longrightarrow> head l \<noteq> NULL \<Longrightarrow> tail l \<noteq> NULL \<Longrightarrow>
   list_rep (list_init l h) l [] \<and> same_outside {head l, tail l} h (list_init l h)"
  by (auto simp: list_rep_def list_init_def cells_def Let_def same_outside_def)

lemma list_rep_cut:
  assumes "list_rep h l (xs @ ys)"
  obtains b p where "b = hd (ys @ [tail l])" and "p = last (head l # xs)"
    and "is_interior h b \<or> is_tail h b" and "nextp h p = b" and "prevp h b = p"
    and "p \<in> insert (head l) (set xs)" and "b \<in> insert (tail l) (set ys)"
    and "p \<noteq> NULL" and "b \<noteq> NULL" and "p \<noteq> b"
proof -
  define b p where bp: "b = hd (ys @ [tail l])" "p = last (head l # xs)"
  have pin: "p \<in> insert (head l) (set xs)"
    using bp by (auto simp: last_in_set)
  have bin: "b \<in> insert (tail l) (set ys)"
    using bp by (cases ys) auto
  have "is_interior h b \<or> is_tail h b"
    using assms bp list_rep_tail [of h l "xs @ ys"] list_rep_next [of h l xs b "tl ys"]
    by (cases ys) auto
  moreover have "nextp h p = b" "prevp h b = p"
    using assms bp by (simp_all add: list_rep_split)
  moreover have "p \<noteq> NULL" "b \<noteq> NULL" "p \<noteq> b"
    using assms pin bin by (auto simp: list_rep_def)
  ultimately show thesis using that bp pin bin by blast
qed

lemma list_insert_rep:
  assumes "list_rep h l (xs @ ys)" and "e \<noteq> NULL" and "e \<notin> set (cells l (xs @ ys))"
  shows "\<exists>h'. list_insert (hd (ys @ [tail l])) e h = Some h' \<and> list_rep h' l (xs @ e # ys) \<and>
    same_outside (insert e (set (cells l (xs @ ys)))) h h'"
proof -
  obtain b p where bp: "b = hd (ys @ [tail l])" "p = last (head l # xs)"
    and b: "is_interior h b \<or> is_tail h b" and np: "nextp h p = b" and pb: "prevp h b = p"
    and pin: "p \<in> insert (head l) (set xs)" and bin: "b \<in> insert (tail l) (set ys)"
    and "p \<noteq> b"
    using list_rep_cut [OF assms(1)] by metis
  define h' where "h' = set_prev b e (set_next p e (set_next e b (set_prev e p h)))"
  have ne: "e \<noteq> p" "e \<noteq> b" using assms(3) pin bin by auto
  have "list_insert b e h = Some h'"
    using b assms(2) ne pb by (simp add: list_insert_def h'_def Let_def)
  moreover have "list_rep h' l (xs @ e # ys)"
  proof -
    have d: "distinct (head l # xs)" "distinct (ys @ [tail l])" "b \<notin> set (head l # xs)"
      "p \<notin> set (ys @ [tail l])" "e \<notin> set (head l # xs)" "e \<notin> set (ys @ [tail l])"
      using assms pin bin by (auto simp: list_rep_def)
    have lk: "linked h (head l # xs)" "linked h (ys @ [tail l])"
      using assms(1) by (simp_all add: list_rep_split)
    then have "linked h' (head l # xs)" "linked h' (ys @ [tail l])"
      using d bp by (simp_all add: h'_def)
    then have "linked h' ((head l # xs) @ (e # ys @ [tail l]))"
      using bp ne \<open>p \<noteq> b\<close> by (subst linked_append) (auto simp: linked_Cons h'_def)
    then have "linked h' (cells l (xs @ e # ys))" by (simp add: cells_def)
    moreover have "head l \<noteq> b" "head l \<noteq> e" "tail l \<noteq> p" "tail l \<noteq> e"
      using assms pin bin by (auto simp: list_rep_def)
    ultimately show ?thesis
      using assms by (auto simp: list_rep_def h'_def)
  qed
  moreover have "same_outside (insert e (set (cells l (xs @ ys)))) h h'"
    using pin bin by (auto simp: same_outside_def h'_def)
  ultimately show ?thesis using bp by blast
qed

lemma list_push_front_rep:
  assumes "list_rep h l xs" and "e \<noteq> NULL" and "e \<notin> set (cells l xs)"
  shows "\<exists>h'. list_push_front l e h = Some h' \<and> list_rep h' l (e # xs) \<and>
    same_outside (insert e (set (cells l xs))) h h'"
  using list_insert_rep [of h l "[]" xs e] assms list_rep_begin [OF assms(1)]
  by (simp add: list_push_front_def)

lemma list_push_back_rep:
  assumes "list_rep h l xs" and "e \<noteq> NULL" and "e \<notin> set (cells l xs)"
  shows "\<exists>h'. list_push_back l e h = Some h' \<and> list_rep h' l (xs @ [e]) \<and>
    same_outside (insert e (set (cells l xs))) h h'"
  using list_insert_rep [of h l xs "[]" e] assms
  by (simp add: list_push_back_def list_end_def)

lemma list_remove_rep:
  assumes "list_rep h l (xs @ e # ys)"
  shows "\<exists>h'. list_remove e h = Some (hd (ys @ [tail l]), h') \<and> list_rep h' l (xs @ ys) \<and>
    same_outside (set (cells l (xs @ e # ys))) h h'"
proof -
  define b p where bp: "b = hd (ys @ [tail l])" "p = last (head l # xs)"
  have in': "is_interior h e" and ne: "nextp h e = b" and pe: "prevp h e = p"
    using list_rep_next [OF assms] bp
    by (auto simp: list_next_def list_prev_def kassert_bind_Some_iff)
  define h' where "h' = set_prev b p (set_next p b h)"
  have pin: "p \<in> insert (head l) (set xs)" and bin: "b \<in> insert (tail l) (set ys)"
    using bp by (auto simp: last_in_set)
  have neq: "e \<noteq> p" "e \<noteq> b" "p \<noteq> b"
    using assms pin bin by (auto simp: list_rep_def)
  have "list_remove e h = Some (b, h')"
    using in' ne pe neq by (simp add: list_remove_def h'_def Let_def)
  moreover have "list_rep h' l (xs @ ys)"
  proof -
    have d: "distinct (head l # xs)" "distinct (ys @ [tail l])" "b \<notin> set (head l # xs)"
      "p \<notin> set (ys @ [tail l])"
      using assms pin bin by (auto simp: list_rep_def)
    have "linked h (head l # xs)" "linked h (ys @ [tail l])"
      using assms list_rep_split [of h l "xs @ [e]" ys] list_rep_split [of h l xs "e # ys"]
      by simp_all
    then have "linked h' (head l # xs)" "linked h' (ys @ [tail l])"
      using d bp by (simp_all add: h'_def)
    then have "linked h' ((head l # xs) @ (ys @ [tail l]))"
      using bp neq by (subst linked_append) (auto simp: h'_def)
    then have "linked h' (cells l (xs @ ys))" by (simp add: cells_def)
    moreover have "head l \<noteq> b" "tail l \<noteq> p"
      using assms pin bin by (auto simp: list_rep_def)
    ultimately show ?thesis
      using assms by (auto simp: list_rep_def h'_def)
  qed
  moreover have "same_outside (set (cells l (xs @ e # ys))) h h'"
    using pin bin by (auto simp: same_outside_def h'_def)
  ultimately show ?thesis using bp by blast
qed

lemma list_pop_front_rep:
  assumes "list_rep h l (x # xs)"
  shows "\<exists>h'. list_pop_front l h = Some (x, h') \<and> list_rep h' l xs \<and>
    same_outside (set (cells l (x # xs))) h h'"
  using list_remove_rep [of h l "[]" x xs] assms list_rep_begin [OF assms] list_rep_empty [OF assms]
  by (auto simp: list_pop_front_def list_front_def list_begin_def)

lemma list_pop_back_rep:
  assumes "list_rep h l (xs @ [x])"
  shows "\<exists>h'. list_pop_back l h = Some (x, h') \<and> list_rep h' l xs \<and>
    same_outside (set (cells l (xs @ [x]))) h h'"
  using list_remove_rep [of h l xs x "[]"] assms list_rep_end [OF assms] list_rep_empty [OF assms]
  by (auto simp: list_pop_back_def list_back_def)

lemma list_pop_front_empty: "list_rep h l [] \<Longrightarrow> list_pop_front l h = None"
  using list_rep_empty [of h l "[]"] by (simp add: list_pop_front_def list_front_def)

lemma list_size_loop_rep:
  "list_rep h l (xs @ ys) \<Longrightarrow>
   list_size_loop h (hd (ys @ [tail l])) (tail l) n = Some (n + length ys)"
proof (induction ys arbitrary: xs n)
  case Nil
  then show ?case by (simp add: list_size_loop.simps)
next
  case (Cons y ys)
  then have "y \<noteq> tail l" by (auto simp: list_rep_def)
  then show ?case
    using Cons.IH [of "xs @ [y]" "n + 1"] Cons.prems list_rep_next(1) [OF Cons.prems]
    by (simp add: list_size_loop.simps [of h y])
qed

lemma list_size_rep: "list_rep h l xs \<Longrightarrow> list_size h l = Some (length xs)"
  using list_size_loop_rep [of h l "[]" xs 0] list_rep_begin [of h l xs]
  by (simp add: list_size_def list_end_def)

section \<open>Reversal\<close>

lemma swap_links_sel [simp]:
  "nextp (swap_links e h) = (nextp h)(e := prevp h e)"
  "prevp (swap_links e h) = (prevp h)(e := nextp h e)"
  by (simp_all add: swap_links_def Let_def)

text \<open>After the loop exactly the elements it visited have their pointers exchanged.\<close>

lemma list_reverse_loop_swaps:
  assumes "list_rep h0 l (xs @ ys)"
    and "\<forall>a. a \<notin> set xs \<longrightarrow> nextp h a = nextp h0 a \<and> prevp h a = prevp h0 a"
    and "\<forall>a \<in> set xs. nextp h a = prevp h0 a \<and> prevp h a = nextp h0 a"
  shows "\<exists>h'. list_reverse_loop (hd (ys @ [tail l])) (tail l) h = Some h' \<and>
    (\<forall>a \<in> set (xs @ ys). nextp h' a = prevp h0 a \<and> prevp h' a = nextp h0 a) \<and>
    (\<forall>a. a \<notin> set (xs @ ys) \<longrightarrow> nextp h' a = nextp h0 a \<and> prevp h' a = prevp h0 a)"
  using assms
proof (induction ys arbitrary: xs h)
  case Nil
  then show ?case by (simp add: list_reverse_loop.simps)
next
  case (Cons y ys)
  have y: "y \<noteq> tail l" "y \<notin> set xs" using Cons.prems(1) by (auto simp: list_rep_def)
  then have ny: "nextp h y = nextp h0 y" "prevp h y = prevp h0 y" using Cons.prems(2) by auto
  have "nextp h0 y = hd (ys @ [tail l])"
    using list_rep_next(1) [OF Cons.prems(1)] by (auto simp: list_next_def kassert_bind_Some_iff)
  then have "list_reverse_loop y (tail l) h =
      list_reverse_loop (hd (ys @ [tail l])) (tail l) (swap_links y h)"
    using y ny by (subst list_reverse_loop.simps) (simp add: Let_def)
  moreover have "\<exists>h'. list_reverse_loop (hd (ys @ [tail l])) (tail l) (swap_links y h) = Some h' \<and>
    (\<forall>a \<in> set ((xs @ [y]) @ ys). nextp h' a = prevp h0 a \<and> prevp h' a = nextp h0 a) \<and>
    (\<forall>a. a \<notin> set ((xs @ [y]) @ ys) \<longrightarrow> nextp h' a = nextp h0 a \<and> prevp h' a = prevp h0 a)"
    by (rule Cons.IH) (use Cons.prems y ny in auto)
  ultimately show ?case by simp
qed

lemma linked_rev:
  "linked h ps \<Longrightarrow> \<forall>a \<in> set ps. nextp h' a = prevp h a \<and> prevp h' a = nextp h a \<Longrightarrow>
   linked h' (rev ps)"
proof (induction ps)
  case Nil
  then show ?case by simp
next
  case (Cons x ps)
  then show ?case
    by (cases "ps = []") (auto simp: linked_Cons linked_append last_rev)
qed

lemma list_reverse_rep:
  assumes "list_rep h l xs"
  shows "\<exists>h'. list_reverse l h = Some h' \<and> list_rep h' l (rev xs) \<and>
    same_outside (set (cells l xs)) h h'"
proof (cases "xs = []")
  case True
  then show ?thesis
    using assms list_rep_empty [OF assms] by (simp add: list_reverse_def same_outside_def)
next
  case False
  obtain h1 where h1: "list_reverse_loop (list_begin h l) (list_end l) h = Some h1"
    and sw: "\<forall>a \<in> set xs. nextp h1 a = prevp h a \<and> prevp h1 a = nextp h a"
    and out: "\<forall>a. a \<notin> set xs \<longrightarrow> nextp h1 a = nextp h a \<and> prevp h1 a = prevp h a"
    using list_reverse_loop_swaps [of h l "[]" xs h] assms list_rep_begin [OF assms]
    by (auto simp: list_end_def)
  have hd: "nextp h (head l) = hd xs" "prevp h (tail l) = last xs"
    using False list_rep_begin [OF assms] list_rep_end [OF assms] by (simp_all add: list_begin_def)
  have notin: "head l \<notin> set xs" "tail l \<notin> set xs" "head l \<noteq> tail l" "distinct xs"
    "head l \<noteq> NULL" "tail l \<noteq> NULL"
    using assms by (auto simp: list_rep_def)
  define h2 where "h2 = set_prev (tail l) (hd xs) (set_next (head l) (last xs) h1)"
  define h3 where "h3 = set_next (hd xs) (tail l) (set_prev (last xs) (head l) h2)"
  have x: "prevp h (hd xs) = head l" "nextp h (last xs) = tail l"
    using False list_rep_split [of h l "[]" xs] list_rep_split [of h l xs "[]"] assms by simp_all
  have mem: "hd xs \<in> set xs" "last xs \<in> set xs" using False by simp_all
  have neq: "hd xs \<noteq> head l" "hd xs \<noteq> tail l" "last xs \<noteq> head l" "last xs \<noteq> tail l"
    using mem notin by auto
  have rev: "list_reverse l h = Some h3"
    using False h1 hd out sw x mem neq notin list_rep_empty [OF assms]
    by (simp add: list_reverse_def Let_def h3_def h2_def)
  have "linked h xs"
    using assms False notin by (auto simp: list_rep_def cells_def linked_Cons linked_append)
  then have "linked h1 (rev xs)" using sw by (rule linked_rev)
  then have "linked h3 (rev xs)"
    using notin False neq by (simp add: h3_def h2_def hd_rev last_rev)
  then have "linked h3 (head l # rev xs @ [tail l])"
    using False neq notin mem by (auto simp: linked_Cons linked_append hd_rev last_rev h3_def h2_def)
  then have "list_rep h3 l (rev xs)"
    using assms out neq notin by (auto simp: list_rep_def cells_def h3_def h2_def)
  moreover have "same_outside (set (cells l xs)) h h3"
    using out mem by (auto simp: same_outside_def h3_def h2_def)
  ultimately show ?thesis using rev by blast
qed

section \<open>Splicing\<close>

text \<open>The six assignments, on a path cut into four non-empty segments.\<close>

lemma splice_segments:
  assumes "linked h (as @ bs @ fs @ cs)" and "distinct (as @ bs @ fs @ cs)"
    and ne: "as \<noteq> []" "bs \<noteq> []" "fs \<noteq> []" "cs \<noteq> []"
  shows "linked (set_prev (hd bs) (last fs) (set_next (last as) (hd fs) (set_next (last fs) (hd bs)
      (set_prev (hd fs) (last as) (set_prev (hd cs) (last bs) (set_next (last bs) (hd cs) h))))))
    (as @ fs @ bs @ cs)" (is "linked ?h _")
proof -
  have d: "distinct as" "distinct bs" "distinct fs" "distinct cs"
    and mem: "last as \<in> set as" "last bs \<in> set bs" "last fs \<in> set fs"
      "hd bs \<in> set bs" "hd fs \<in> set fs" "hd cs \<in> set cs"
    and disj: "set as \<inter> set bs = {}" "set as \<inter> set fs = {}" "set as \<inter> set cs = {}"
      "set bs \<inter> set fs = {}" "set bs \<inter> set cs = {}" "set fs \<inter> set cs = {}"
    using assms by auto
  have out: "last as \<notin> set bs" "last as \<notin> set fs" "last as \<notin> set cs"
    "last bs \<notin> set as" "last bs \<notin> set fs" "last bs \<notin> set cs" "hd bs \<notin> set as" "hd bs \<notin> set fs"
    "hd bs \<notin> set cs" "last fs \<notin> set as" "last fs \<notin> set bs" "last fs \<notin> set cs" "hd fs \<notin> set as"
    "hd fs \<notin> set bs" "hd fs \<notin> set cs" "hd cs \<notin> set as" "hd cs \<notin> set bs" "hd cs \<notin> set fs"
    using mem disj by blast+
  have neq: "last as \<noteq> last bs" "last as \<noteq> last fs" "last bs \<noteq> last fs" "last bs \<noteq> last as"
    "last fs \<noteq> last as" "last fs \<noteq> last bs" "hd bs \<noteq> hd fs" "hd bs \<noteq> hd cs" "hd fs \<noteq> hd cs"
    "hd fs \<noteq> hd bs" "hd cs \<noteq> hd bs" "hd cs \<noteq> hd fs"
    using mem out by metis+
  have "linked h as" "linked h bs" "linked h fs" "linked h cs"
    using assms(1) ne by (simp_all add: linked_append)
  then have segs: "linked ?h as" "linked ?h bs" "linked ?h fs" "linked ?h cs"
    using d out ne by simp_all
  show ?thesis
    using segs ne neq by (simp add: linked_append)
qed

text \<open>Moving a run of elements towards the front of their own list.\<close>

lemma list_splice_rep:
  assumes rep: "list_rep h l (xs @ b # ms @ fs @ ys)" and "fs \<noteq> []"
  shows "\<exists>h'. list_splice b (hd fs) (hd (ys @ [tail l])) h = Some h' \<and>
    list_rep h' l (xs @ fs @ b # ms @ ys) \<and>
    same_outside (set (cells l (xs @ b # ms @ fs @ ys))) h h'"
proof -
  define as bs cs where segs: "as = head l # xs" "bs = b # ms" "cs = ys @ [tail l]"
  have ne: "as \<noteq> []" "bs \<noteq> []" "fs \<noteq> []" "cs \<noteq> []" "hd bs = b" using assms(2) segs by auto
  have L: "linked h (as @ bs @ fs @ cs)" and D: "distinct (as @ bs @ fs @ cs)"
    and Z: "NULL \<notin> set (as @ bs @ fs @ cs)"
    using rep by (simp_all add: list_rep_def cells_def segs)
  have mem: "last as \<in> set as" "last bs \<in> set bs" "last fs \<in> set fs" "hd bs \<in> set bs"
    "hd fs \<in> set fs" "hd cs \<in> set cs"
    using ne by auto
  have j: "nextp h (last as) = b" "prevp h b = last as" "nextp h (last bs) = hd fs"
    "prevp h (hd fs) = last bs" "nextp h (last fs) = hd cs" "prevp h (hd cs) = last fs"
    using L ne by (simp_all add: linked_append)
  define h' where "h' = set_prev b (last fs) (set_next (last as) (hd fs) (set_next (last fs) b
      (set_prev (hd fs) (last as) (set_prev (hd cs) (last bs) (set_next (last bs) (hd cs) h)))))"
  have int: "is_interior h b" "is_interior h (hd fs)" "is_interior h (last fs)"
    using list_rep_interior [OF rep] mem by simp_all
  have "hd cs \<in> insert (tail l) (set ys)" using mem segs by auto
  then have "is_interior h (hd cs) \<or> is_tail h (hd cs)"
    using list_rep_interior [OF rep, of "hd cs"] list_rep_tail(1) [OF rep] by auto
  then have prev: "list_prev h (hd cs) = Some (last fs)" using j by (simp add: list_prev_def)
  have neq: "hd fs \<noteq> hd cs" "b \<noteq> hd cs" "b \<noteq> hd fs" "last as \<noteq> last bs" "last as \<noteq> last fs"
    "last bs \<noteq> last fs"
    using D mem ne(5) by auto
  have run: "list_splice b (hd fs) (hd cs) h = Some h'"
    using int prev j neq by (simp add: list_splice_def h'_def Let_def)
  have "linked h' (as @ fs @ bs @ cs)"
    using splice_segments [OF L D ne(1-4)] ne(5) by (simp add: h'_def)
  then have "linked h' (cells l (xs @ fs @ b # ms @ ys))" by (simp add: cells_def segs)
  moreover have "head l \<noteq> b" "head l \<noteq> hd fs" "head l \<noteq> hd cs" "tail l \<noteq> last as"
    "tail l \<noteq> last bs" "tail l \<noteq> last fs"
  proof -
    have "head l \<in> set as" "tail l \<in> set cs" by (simp_all add: segs)
    then show "head l \<noteq> b" "head l \<noteq> hd fs" "head l \<noteq> hd cs" "tail l \<noteq> last as"
      "tail l \<noteq> last bs" "tail l \<noteq> last fs"
      using D mem ne(5) by auto
  qed
  ultimately have "list_rep h' l (xs @ fs @ b # ms @ ys)"
    using rep by (auto simp: list_rep_def h'_def)
  moreover have "set as \<union> set bs \<union> set fs \<union> set cs = set (cells l (xs @ b # ms @ fs @ ys))"
    by (auto simp: segs)
  then have "same_outside (set (cells l (xs @ b # ms @ fs @ ys))) h h'"
    using mem ne(5) unfolding same_outside_def h'_def by (metis Un_iff fun_upd_other links_upd)
  ultimately show ?thesis using run segs by blast
qed

end
