(* ===== verification/KListSort.thy ===== *)
theory KListSort
  imports KList "HOL-Library.Sublist"
begin

text \<open>
  The operations of \<^verbatim>\<open>lib/kernel/list.c\<close> that order elements by a client's
  \<^verbatim>\<open>list_less_func\<close>: the natural merge sort \<^verbatim>\<open>list_sort\<close> with its helpers, ordered
  insertion, \<^verbatim>\<open>list_unique\<close>, \<^verbatim>\<open>list_max\<close> and \<^verbatim>\<open>list_min\<close>. The pointer programs are first shown
  to compute the list functions \<open>after_run\<close>, \<open>mrg\<close>, \<open>pass_list\<close>; the locale
  \<open>less_func\<close> states what a client's comparison must promise and derives from it that
  the result is sorted and that equal elements keep their order.
\<close>

type_synonym less_fun = "addr \<Rightarrow> addr \<Rightarrow> bool"

section \<open>The pointer programs\<close>

partial_function (option) is_sorted_loop :: "less_fun \<Rightarrow> links \<Rightarrow> addr \<Rightarrow> addr \<Rightarrow> bool option" where
  "is_sorted_loop lt h a b = do {
     a \<leftarrow> list_next h a;
     if a = b then Some True
     else do {
       p \<leftarrow> list_prev h a;
       if lt a p then Some False else is_sorted_loop lt h a b } }"

definition is_sorted :: "less_fun \<Rightarrow> links \<Rightarrow> addr \<Rightarrow> addr \<Rightarrow> bool option" where
  "is_sorted lt h a b = (if a \<noteq> b then is_sorted_loop lt h a b else Some True)"

partial_function (option) find_end_loop :: "less_fun \<Rightarrow> links \<Rightarrow> addr \<Rightarrow> addr \<Rightarrow> addr option" where
  "find_end_loop lt h a b = do {
     a \<leftarrow> list_next h a;
     if a = b then Some a
     else do {
       p \<leftarrow> list_prev h a;
       if lt a p then Some a else find_end_loop lt h a b } }"

definition find_end_of_run :: "less_fun \<Rightarrow> links \<Rightarrow> addr \<Rightarrow> addr \<Rightarrow> addr option" where
  "find_end_of_run lt h a b = do {
     kassert (a \<noteq> NULL);
     kassert (b \<noteq> NULL);
     kassert (a \<noteq> b);
     find_end_loop lt h a b }"

partial_function (option) inplace_merge_loop ::
  "less_fun \<Rightarrow> addr \<Rightarrow> addr \<Rightarrow> addr \<Rightarrow> links \<Rightarrow> links option" where
  "inplace_merge_loop lt a0 a1b0 b1 h =
     (if a0 \<noteq> a1b0 \<and> a1b0 \<noteq> b1
      then if \<not> lt a1b0 a0
           then do { a0 \<leftarrow> list_next h a0; inplace_merge_loop lt a0 a1b0 b1 h }
           else do {
             a1b0 \<leftarrow> list_next h a1b0;
             p \<leftarrow> list_prev h a1b0;
             h \<leftarrow> list_splice a0 p a1b0 h;
             inplace_merge_loop lt a0 a1b0 b1 h }
      else Some h)"

definition inplace_merge ::
  "less_fun \<Rightarrow> addr \<Rightarrow> addr \<Rightarrow> addr \<Rightarrow> links \<Rightarrow> links option" where
  "inplace_merge lt a0 a1b0 b1 h = do {
     kassert (a0 \<noteq> NULL);
     kassert (a1b0 \<noteq> NULL);
     kassert (b1 \<noteq> NULL);
     s0 \<leftarrow> is_sorted lt h a0 a1b0;
     kassert s0;
     s1 \<leftarrow> is_sorted lt h a1b0 b1;
     kassert s1;
     inplace_merge_loop lt a0 a1b0 b1 h }"

text \<open>One pass of \<^verbatim>\<open>list_sort\<close> over the list, with the number of runs it put out.\<close>

partial_function (option) sort_pass ::
  "less_fun \<Rightarrow> klist \<Rightarrow> addr \<Rightarrow> nat \<Rightarrow> links \<Rightarrow> (nat \<times> links) option" where
  "sort_pass lt l a0 cnt h =
     (if a0 = list_end l then Some (cnt, h)
      else do {
        a1b0 \<leftarrow> find_end_of_run lt h a0 (list_end l);
        if a1b0 = list_end l then Some (cnt + 1, h)
        else do {
          b1 \<leftarrow> find_end_of_run lt h a1b0 (list_end l);
          h \<leftarrow> inplace_merge lt a0 a1b0 b1 h;
          sort_pass lt l b1 (cnt + 1) h } })"

partial_function (option) list_sort_loop :: "less_fun \<Rightarrow> klist \<Rightarrow> links \<Rightarrow> links option" where
  "list_sort_loop lt l h = do {
     (output_run_cnt, h) \<leftarrow> sort_pass lt l (list_begin h l) 0 h;
     if output_run_cnt > 1 then list_sort_loop lt l h else Some h }"

definition list_sort :: "less_fun \<Rightarrow> klist \<Rightarrow> links \<Rightarrow> links option" where
  "list_sort lt l h = do {
     h \<leftarrow> list_sort_loop lt l h;
     s \<leftarrow> is_sorted lt h (list_begin h l) (list_end l);
     kassert s;
     Some h }"

partial_function (option) insert_ordered_loop ::
  "less_fun \<Rightarrow> links \<Rightarrow> addr \<Rightarrow> addr \<Rightarrow> addr \<Rightarrow> addr option" where
  "insert_ordered_loop lt h x e stop =
     (if e = stop then Some e
      else if lt x e then Some e
      else do { e \<leftarrow> list_next h e; insert_ordered_loop lt h x e stop })"

definition list_insert_ordered :: "less_fun \<Rightarrow> klist \<Rightarrow> addr \<Rightarrow> links \<Rightarrow> links option" where
  "list_insert_ordered lt l x h = do {
     kassert (x \<noteq> NULL);
     e \<leftarrow> insert_ordered_loop lt h x (list_begin h l) (list_end l);
     list_insert e x h }"

partial_function (option) list_unique_loop ::
  "less_fun \<Rightarrow> klist \<Rightarrow> klist option \<Rightarrow> addr \<Rightarrow> links \<Rightarrow> links option" where
  "list_unique_loop lt l duplicates e h = do {
     n \<leftarrow> list_next h e;
     if n = list_end l then Some h
     else if \<not> lt e n \<and> \<not> lt n e then do {
       (_, h) \<leftarrow> list_remove n h;
       h \<leftarrow> (case duplicates of None \<Rightarrow> Some h | Some d \<Rightarrow> list_push_back d n h);
       list_unique_loop lt l duplicates e h }
     else list_unique_loop lt l duplicates n h }"

definition list_unique :: "less_fun \<Rightarrow> klist \<Rightarrow> klist option \<Rightarrow> links \<Rightarrow> links option" where
  "list_unique lt l duplicates h =
     (if list_empty h l then Some h
      else list_unique_loop lt l duplicates (list_begin h l) h)"

partial_function (option) list_max_loop ::
  "less_fun \<Rightarrow> links \<Rightarrow> addr \<Rightarrow> addr \<Rightarrow> addr \<Rightarrow> addr option" where
  "list_max_loop lt h m e stop =
     (if e = stop then Some m
      else do {
        n \<leftarrow> list_next h e;
        list_max_loop lt h (if lt m e then e else m) n stop })"

definition list_max :: "less_fun \<Rightarrow> klist \<Rightarrow> links \<Rightarrow> addr option" where
  "list_max lt l h = (let m = list_begin h l in
     if m \<noteq> list_end l
     then do { e \<leftarrow> list_next h m; list_max_loop lt h m e (list_end l) }
     else Some m)"

partial_function (option) list_min_loop ::
  "less_fun \<Rightarrow> links \<Rightarrow> addr \<Rightarrow> addr \<Rightarrow> addr \<Rightarrow> addr option" where
  "list_min_loop lt h m e stop =
     (if e = stop then Some m
      else do {
        n \<leftarrow> list_next h e;
        list_min_loop lt h (if lt e m then e else m) n stop })"

definition list_min :: "less_fun \<Rightarrow> klist \<Rightarrow> links \<Rightarrow> addr option" where
  "list_min lt l h = (let m = list_begin h l in
     if m \<noteq> list_end l
     then do { e \<leftarrow> list_next h m; list_min_loop lt h m e (list_end l) }
     else Some m)"

section \<open>The same algorithms on lists\<close>

fun adj_sorted :: "less_fun \<Rightarrow> addr list \<Rightarrow> bool" where
  "adj_sorted lt (x # y # zs) \<longleftrightarrow> \<not> lt y x \<and> adj_sorted lt (y # zs)"
| "adj_sorted lt _ \<longleftrightarrow> True"

text \<open>The run that starts with \<open>x\<close>, without \<open>x\<close>, and what follows it.\<close>

fun run_of :: "less_fun \<Rightarrow> addr \<Rightarrow> addr list \<Rightarrow> addr list" where
  "run_of lt x [] = []"
| "run_of lt x (y # ys) = (if lt y x then [] else y # run_of lt y ys)"

fun after_run :: "less_fun \<Rightarrow> addr \<Rightarrow> addr list \<Rightarrow> addr list" where
  "after_run lt x [] = []"
| "after_run lt x (y # ys) = (if lt y x then y # ys else after_run lt y ys)"

fun mrg :: "less_fun \<Rightarrow> addr list \<Rightarrow> addr list \<Rightarrow> addr list" where
  "mrg lt [] ys = ys"
| "mrg lt (x # xs) [] = x # xs"
| "mrg lt (x # xs) (y # ys) =
     (if \<not> lt y x then x # mrg lt xs (y # ys) else y # mrg lt (x # xs) ys)"

lemma run_of_append: "run_of lt x ys @ after_run lt x ys = ys"
  by (induction lt x ys rule: run_of.induct) auto

lemma length_after_run: "length (after_run lt x ys) \<le> length ys"
  by (induction lt x ys rule: after_run.induct) auto

function pass_list :: "less_fun \<Rightarrow> addr list \<Rightarrow> nat \<times> addr list" where
  "pass_list lt [] = (0, [])"
| "pass_list lt (x # xs) =
     (case after_run lt x xs of
        [] \<Rightarrow> (1, x # xs)
      | y # ys \<Rightarrow>
          (let (n, zs) = pass_list lt (after_run lt y ys)
           in (Suc n, mrg lt (x # run_of lt x xs) (y # run_of lt y ys) @ zs)))"
  by pat_completeness auto
termination
proof (relation "measure (\<lambda>(lt, xs). length xs)")
  fix lt x xs y ys
  assume "after_run lt x xs = y # ys"
  then show "((lt, after_run lt y ys), lt, x # xs) \<in> measure (\<lambda>(lt, xs). length xs)"
    using length_after_run [of lt x xs] length_after_run [of lt y ys] by simp
qed simp

function runs :: "less_fun \<Rightarrow> addr list \<Rightarrow> nat" where
  "runs lt [] = 0"
| "runs lt (x # xs) = Suc (runs lt (after_run lt x xs))"
  by pat_completeness auto
termination
  by (relation "measure (\<lambda>(lt, xs). length xs)") (auto simp: le_imp_less_Suc length_after_run)

lemma adj_sorted_Cons_run: "adj_sorted lt (x # run_of lt x ys)"
  by (induction lt x ys rule: run_of.induct) auto

lemma mset_mrg: "mset (mrg lt xs ys) = mset xs + mset ys"
  by (induction lt xs ys rule: mrg.induct) auto

lemma mrg_Nil_right [simp]: "mrg lt xs [] = xs"
  by (cases xs) auto

lemma adj_sorted_Cons:
  "adj_sorted lt (x # xs) \<longleftrightarrow> (xs = [] \<or> \<not> lt (hd xs) x) \<and> adj_sorted lt xs"
  by (cases xs) auto

lemma adj_sorted_mrg_hd:
  "\<forall>a b. lt a b \<longrightarrow> \<not> lt b a \<Longrightarrow> adj_sorted lt xs \<Longrightarrow> adj_sorted lt ys \<Longrightarrow>
   adj_sorted lt (mrg lt xs ys) \<and>
    (xs \<noteq> [] \<or> ys \<noteq> [] \<longrightarrow> hd (mrg lt xs ys) = hd xs \<and> xs \<noteq> [] \<or>
      hd (mrg lt xs ys) = hd ys \<and> ys \<noteq> [])"
proof (induction lt xs ys rule: mrg.induct)
  case (3 lt x xs y ys)
  then show ?case by (auto simp: adj_sorted_Cons)
qed auto

lemma adj_sorted_mrg:
  "\<forall>a b. lt a b \<longrightarrow> \<not> lt b a \<Longrightarrow> adj_sorted lt xs \<Longrightarrow> adj_sorted lt ys \<Longrightarrow>
   adj_sorted lt (mrg lt xs ys)"
  using adj_sorted_mrg_hd by blast

lemma mset_run_of: "mset ys = mset (run_of lt x ys) + mset (after_run lt x ys)"
  by (metis mset_append run_of_append)

lemma mset_pass_list: "mset (snd (pass_list lt xs)) = mset xs"
proof (induction lt xs rule: pass_list.induct)
  case (2 lt x xs)
  show ?case
  proof (cases "after_run lt x xs")
    case Nil
    then show ?thesis by simp
  next
    case (Cons y ys)
    obtain n zs where p: "pass_list lt (after_run lt y ys) = (n, zs)" by fastforce
    have "mset zs = mset (after_run lt y ys)" using "2.IH" [OF Cons] p by simp
    moreover have "mset xs = mset (run_of lt x xs) + mset (y # ys)"
      using mset_run_of [of xs lt x] Cons by simp
    ultimately show ?thesis
      using Cons p mset_run_of [of ys lt y] by (simp add: mset_mrg del: run_of.simps)
  qed
qed simp

lemma runs_append_sorted: "adj_sorted lt xs \<Longrightarrow> runs lt (xs @ ys) \<le> Suc (runs lt ys)"
proof (cases xs)
  case (Cons x xs')
  assume "adj_sorted lt xs"
  then have s: "adj_sorted lt (x # xs')" using Cons by simp
  have "runs lt (after_run lt x (xs' @ ys)) \<le> runs lt ys"
    using s
  proof (induction xs' arbitrary: x)
    case Nil
    show ?case
    proof (induction lt x ys rule: after_run.induct)
      case (2 lt x y ys)
      then show ?case by simp
    qed simp
  next
    case (Cons y xs')
    then show ?case by simp
  qed
  then show ?thesis using Cons by simp
qed simp

text \<open>A pass halves the number of runs, so a pass that puts out more than one run leaves
  strictly fewer runs than it found: the outer loop of \<^verbatim>\<open>list_sort\<close> stops.\<close>

lemma fst_pass_list: "fst (pass_list lt xs) = (runs lt xs + 1) div 2"
proof (induction lt xs rule: pass_list.induct)
  case (2 lt x xs)
  then show ?case by (auto split: list.split prod.split)
qed simp

lemma runs_pass_list:
  "\<forall>a b. lt a b \<longrightarrow> \<not> lt b a \<Longrightarrow> runs lt (snd (pass_list lt xs)) \<le> fst (pass_list lt xs)"
proof (induction lt xs rule: pass_list.induct)
  case (2 lt x xs)
  show ?case
  proof (cases "after_run lt x xs")
    case Nil
    then show ?thesis by simp
  next
    case (Cons y ys)
    obtain n zs where p: "pass_list lt (after_run lt y ys) = (n, zs)" by fastforce
    have "runs lt zs \<le> n" using "2.IH" [OF Cons "2.prems"] p by simp
    moreover have "adj_sorted lt (mrg lt (x # run_of lt x xs) (y # run_of lt y ys))"
      by (rule adj_sorted_mrg [OF "2.prems" adj_sorted_Cons_run adj_sorted_Cons_run])
    ultimately show ?thesis
      using Cons p runs_append_sorted [of lt "mrg lt (x # run_of lt x xs) (y # run_of lt y ys)" zs]
      by (simp del: run_of.simps mrg.simps)
  qed
qed simp

lemma runs_le_1_sorted: "runs lt xs \<le> 1 \<Longrightarrow> adj_sorted lt xs"
proof (cases xs)
  case (Cons x ys)
  assume "runs lt xs \<le> 1"
  then have "after_run lt x ys = []" using Cons by (cases "after_run lt x ys") auto
  then have "run_of lt x ys = ys" using run_of_append [of lt x ys] by simp
  then show ?thesis using Cons adj_sorted_Cons_run [of lt x ys] by simp
qed simp

section \<open>The pointer programs compute the list functions\<close>

lemma same_outside_refl: "same_outside A h h"
  by (simp add: same_outside_def)

lemma same_outside_trans:
  "same_outside A h h' \<Longrightarrow> same_outside A h' h'' \<Longrightarrow> same_outside A h h''"
  by (simp add: same_outside_def)

lemma is_sorted_loop_rep:
  "list_rep h l (xs @ x # ys @ zs) \<Longrightarrow>
   is_sorted_loop lt h x (hd (zs @ [tail l])) = Some (adj_sorted lt (x # ys))"
proof (induction ys arbitrary: xs x)
  case Nil
  then show ?case
    using list_rep_next(1) [of h l xs x zs] by (simp add: is_sorted_loop.simps)
next
  case (Cons y ys)
  then have "y \<noteq> hd (zs @ [tail l])" by (cases zs) (auto simp: list_rep_def)
  moreover have "list_prev h y = Some x"
    using list_rep_next(3) [of h l "xs @ [x]" y "ys @ zs"] Cons.prems by simp
  ultimately show ?case
    using Cons.IH [of "xs @ [x]" y] Cons.prems list_rep_next(1) [of h l xs x "y # ys @ zs"]
    by (subst is_sorted_loop.simps) simp
qed

lemma is_sorted_rep:
  "list_rep h l (xs @ ys @ zs) \<Longrightarrow>
   is_sorted lt h (hd (ys @ zs @ [tail l])) (hd (zs @ [tail l])) = Some (adj_sorted lt ys)"
proof (cases ys)
  case (Cons y ys')
  assume rep: "list_rep h l (xs @ ys @ zs)"
  then have "y \<noteq> hd (zs @ [tail l])" using Cons by (cases zs) (auto simp: list_rep_def)
  then show ?thesis
    using rep Cons is_sorted_loop_rep [of h l xs y ys' zs] by (simp add: is_sorted_def)
qed (simp add: is_sorted_def)

lemma find_end_loop_rep:
  "list_rep h l (xs @ x # ys) \<Longrightarrow>
   find_end_loop lt h x (tail l) = Some (hd (after_run lt x ys @ [tail l]))"
proof (induction ys arbitrary: xs x)
  case Nil
  then show ?case
    using list_rep_next(1) [of h l xs x "[]"] by (simp add: find_end_loop.simps)
next
  case (Cons y ys)
  then have "y \<noteq> tail l" by (auto simp: list_rep_def)
  moreover have "list_prev h y = Some x"
    using list_rep_next(3) [of h l "xs @ [x]" y ys] Cons.prems by simp
  ultimately show ?case
    using Cons.IH [of "xs @ [x]" y] Cons.prems list_rep_next(1) [of h l xs x "y # ys"]
    by (subst find_end_loop.simps) simp
qed

lemma find_end_of_run_rep:
  assumes "list_rep h l (xs @ x # ys)"
  shows "find_end_of_run lt h x (tail l) = Some (hd (after_run lt x ys @ [tail l]))"
proof -
  have "x \<noteq> NULL" "tail l \<noteq> NULL" "x \<noteq> tail l" using assms by (auto simp: list_rep_def)
  then show ?thesis using find_end_loop_rep [OF assms] by (simp add: find_end_of_run_def)
qed

lemma inplace_merge_loop_rep:
  "list_rep h l (ps @ xs @ ys @ zs) \<Longrightarrow>
   \<exists>h'. inplace_merge_loop lt (hd (xs @ ys @ zs @ [tail l])) (hd (ys @ zs @ [tail l]))
          (hd (zs @ [tail l])) h = Some h' \<and>
        list_rep h' l (ps @ mrg lt xs ys @ zs) \<and>
        same_outside (set (cells l (ps @ xs @ ys @ zs))) h h'"
proof (induction lt xs ys arbitrary: ps h rule: mrg.induct)
  case (1 lt ys)
  then show ?case by (auto simp: inplace_merge_loop.simps same_outside_refl)
next
  case (2 lt x xs)
  then show ?case by (auto simp: inplace_merge_loop.simps same_outside_refl)
next
  case (3 lt x xs y ys)
  have neq: "x \<noteq> y" "y \<noteq> hd (zs @ [tail l])"
    using "3.prems" by (auto simp: list_rep_def)
  show ?case
  proof (cases "lt y x")
    case False
    have "list_next h x = Some (hd (xs @ y # ys @ zs @ [tail l]))"
      using list_rep_next(1) [of h l ps x "xs @ y # ys @ zs"] "3.prems" by simp
    then have "inplace_merge_loop lt x y (hd (zs @ [tail l])) h =
        inplace_merge_loop lt (hd (xs @ y # ys @ zs @ [tail l])) y (hd (zs @ [tail l])) h"
      using False neq by (subst inplace_merge_loop.simps) simp
    then show ?thesis
      using "3.IH"(1) [OF False, of h "ps @ [x]"] "3.prems" False by simp
  next
    case True
    have "list_next h y = Some (hd (ys @ zs @ [tail l]))"
      using list_rep_next(1) [of h l "ps @ x # xs" y "ys @ zs"] "3.prems" by simp
    moreover have "list_prev h (hd (ys @ zs @ [tail l])) = Some y"
      using list_rep_cut [of h l "ps @ x # xs @ [y]" "ys @ zs"] "3.prems"
      by (metis (no_types, lifting) append.assoc append_Cons append_Nil kassert_bind last_Cons_append
          last_snoc list.distinct(1) list_prev_def)
    moreover obtain h1 where h1: "list_splice x y (hd (ys @ zs @ [tail l])) h = Some h1"
      "list_rep h1 l (ps @ [y] @ x # xs @ ys @ zs)"
      "same_outside (set (cells l (ps @ x # xs @ [y] @ ys @ zs))) h h1"
      using list_splice_rep [of h l ps x xs "[y]" "ys @ zs"] "3.prems" by auto
    ultimately have "inplace_merge_loop lt x y (hd (zs @ [tail l])) h =
        inplace_merge_loop lt x (hd (ys @ zs @ [tail l])) (hd (zs @ [tail l])) h1"
      using True neq by (subst inplace_merge_loop.simps) simp
    moreover obtain h' where "inplace_merge_loop lt x (hd (ys @ zs @ [tail l]))
        (hd (zs @ [tail l])) h1 = Some h'"
      "list_rep h' l ((ps @ [y]) @ mrg lt (x # xs) ys @ zs)"
      "same_outside (set (cells l ((ps @ [y]) @ (x # xs) @ ys @ zs))) h1 h'"
      using "3.IH"(2) [of h1 "ps @ [y]"] True h1(2) by auto
    moreover have "set (cells l ((ps @ [y]) @ (x # xs) @ ys @ zs)) =
        set (cells l (ps @ (x # xs) @ (y # ys) @ zs))"
      "set (cells l (ps @ x # xs @ [y] @ ys @ zs)) = set (cells l (ps @ (x # xs) @ (y # ys) @ zs))"
      by auto
    ultimately show ?thesis
      using True h1(3) by (auto intro: same_outside_trans)
  qed
qed

lemma inplace_merge_rep:
  assumes rep: "list_rep h l (ps @ xs @ ys @ zs)" and "xs \<noteq> []" "ys \<noteq> []"
    and "adj_sorted lt xs" "adj_sorted lt ys"
  shows "\<exists>h'. inplace_merge lt (hd xs) (hd ys) (hd (zs @ [tail l])) h = Some h' \<and>
    list_rep h' l (ps @ mrg lt xs ys @ zs) \<and>
    same_outside (set (cells l (ps @ xs @ ys @ zs))) h h'"
proof -
  have "hd xs \<noteq> NULL" "hd ys \<noteq> NULL" "hd (zs @ [tail l]) \<noteq> NULL"
    using rep assms(2,3) by (auto simp: list_rep_def)
  moreover have "is_sorted lt h (hd xs) (hd ys) = Some True"
    using is_sorted_rep [of h l ps xs "ys @ zs"] assms by simp
  moreover have "is_sorted lt h (hd ys) (hd (zs @ [tail l])) = Some True"
    using is_sorted_rep [of h l "ps @ xs" ys zs] assms by simp
  ultimately have "inplace_merge lt (hd xs) (hd ys) (hd (zs @ [tail l])) h =
      inplace_merge_loop lt (hd xs) (hd ys) (hd (zs @ [tail l])) h"
    by (simp add: inplace_merge_def)
  then show ?thesis using inplace_merge_loop_rep [OF rep, of lt] assms(2,3) by simp
qed

lemma adj_sorted_pass_runs: "adj_sorted lt (y # run_of lt y ys)"
  by (rule adj_sorted_Cons_run)

lemma sort_pass_rep:
  "\<forall>a b. lt a b \<longrightarrow> \<not> lt b a \<Longrightarrow> list_rep h l (ps @ xs) \<Longrightarrow>
   \<exists>h'. sort_pass lt l (hd (xs @ [tail l])) n h = Some (n + fst (pass_list lt xs), h') \<and>
        list_rep h' l (ps @ snd (pass_list lt xs)) \<and>
        same_outside (set (cells l (ps @ xs))) h h'"
proof (induction lt xs arbitrary: ps n h rule: pass_list.induct)
  case (1 lt)
  then show ?case by (simp add: sort_pass.simps list_end_def same_outside_refl)
next
  case (2 lt x xs)
  have x: "x \<noteq> tail l" using "2.prems" by (auto simp: list_rep_def)
  have end1: "find_end_of_run lt h x (tail l) = Some (hd (after_run lt x xs @ [tail l]))"
    using find_end_of_run_rep "2.prems"(2) .
  show ?case
  proof (cases "after_run lt x xs")
    case Nil
    then show ?thesis
      using x end1 "2.prems" by (simp add: sort_pass.simps [of lt l x] list_end_def same_outside_refl)
  next
    case (Cons y ys)
    define r1 r2 rest where r: "r1 = x # run_of lt x xs" "r2 = y # run_of lt y ys"
      "rest = after_run lt y ys"
    obtain m zs where p: "pass_list lt rest = (m, zs)" by fastforce
    have split: "x # xs = r1 @ r2 @ rest"
      using run_of_append [of lt x xs] run_of_append [of lt y ys] Cons r by simp
    have "list_rep h l ((ps @ r1) @ y # ys)"
      using "2.prems"(2) run_of_append [of lt x xs] Cons r by simp
    then have y: "y \<noteq> tail l" and end2:
      "find_end_of_run lt h y (tail l) = Some (hd (rest @ [tail l]))"
      using find_end_of_run_rep [of h l "ps @ r1" y ys lt] r by (auto simp: list_rep_def)
    have rep0: "list_rep h l (ps @ r1 @ r2 @ rest)" using "2.prems"(2) split by simp
    have "r1 \<noteq> []" "r2 \<noteq> []" "hd r1 = x" "hd r2 = y" "adj_sorted lt r1" "adj_sorted lt r2"
      using r adj_sorted_pass_runs by (auto simp del: run_of.simps)
    then obtain h1 where h1: "inplace_merge lt x y (hd (rest @ [tail l])) h = Some h1"
      and rep1: "list_rep h1 l ((ps @ mrg lt r1 r2) @ rest)"
      and out1: "same_outside (set (cells l (ps @ r1 @ r2 @ rest))) h h1"
      using inplace_merge_rep [OF rep0] by auto
    obtain h2 where h2: "sort_pass lt l (hd (rest @ [tail l])) (n + 1) h1 = Some (n + 1 + m, h2)"
      and rep2: "list_rep h2 l ((ps @ mrg lt r1 r2) @ zs)"
      and out2: "same_outside (set (cells l ((ps @ mrg lt r1 r2) @ rest))) h1 h2"
      using "2.IH" [OF Cons "2.prems"(1), of h1 "ps @ mrg lt r1 r2" "n + 1"] rep1 p r by auto
    have "set (mrg lt r1 r2) = set r1 \<union> set r2"
      by (metis mset_mrg set_mset_mset set_mset_union)
    then have "same_outside (set (cells l (ps @ x # xs))) h h2"
      using out1 out2 unfolding split by (auto simp: Un_assoc intro: same_outside_trans)
    moreover have "sort_pass lt l x n h = Some (n + 1 + m, h2)"
      using x y end1 end2 h1 h2 Cons
      by (subst sort_pass.simps) (simp add: list_end_def del: run_of.simps)
    ultimately show ?thesis
      using Cons p rep2 r by (simp del: run_of.simps mrg.simps)
  qed
qed

lemma list_sort_loop_rep:
  assumes "\<forall>a b. lt a b \<longrightarrow> \<not> lt b a"
  shows "list_rep h l xs \<Longrightarrow>
    \<exists>h' ys. list_sort_loop lt l h = Some h' \<and> list_rep h' l ys \<and> mset ys = mset xs \<and>
      adj_sorted lt ys \<and> (\<exists>k. ys = ((\<lambda>zs. snd (pass_list lt zs)) ^^ k) xs) \<and>
      same_outside (set (cells l xs)) h h'"
proof (induction "runs lt xs" arbitrary: xs h rule: less_induct)
  case less
  obtain n zs where p: "pass_list lt xs = (n, zs)" by fastforce
  obtain h1 where h1: "sort_pass lt l (list_begin h l) 0 h = Some (n, h1)"
    and rep1: "list_rep h1 l zs" and out1: "same_outside (set (cells l xs)) h h1"
    using sort_pass_rep [OF assms, of h l "[]" xs 0] less.prems list_rep_begin [OF less.prems] p
    by auto
  have n: "n = (runs lt xs + 1) div 2" and r: "runs lt zs \<le> n" and m: "mset zs = mset xs"
    using fst_pass_list [of lt xs] runs_pass_list [OF assms, of xs] mset_pass_list [of lt xs] p
    by simp_all
  have c: "set (cells l zs) = set (cells l xs)"
    using m by (metis cells_simps(1) set_mset_mset)
  show ?case
  proof (cases "n > 1")
    case True
    then have "runs lt zs < runs lt xs" using n r by simp
    then obtain h' ys k where *: "list_sort_loop lt l h1 = Some h'" "list_rep h' l ys"
      "mset ys = mset zs" "adj_sorted lt ys" "same_outside (set (cells l zs)) h1 h'"
      "ys = ((\<lambda>zs. snd (pass_list lt zs)) ^^ k) zs"
      using less.hyps rep1 by blast
    have "ys = ((\<lambda>zs. snd (pass_list lt zs)) ^^ Suc k) xs"
      using *(6) p by (simp add: funpow_Suc_right del: funpow.simps)
    moreover have "same_outside (set (cells l xs)) h h'"
      using *(5) c out1 by (metis same_outside_trans)
    moreover have "list_sort_loop lt l h = Some h'"
      using True h1 *(1) by (subst list_sort_loop.simps) simp
    ultimately show ?thesis using * m by metis
  next
    case False
    then have "adj_sorted lt zs" using r by (simp add: runs_le_1_sorted)
    moreover have "zs = ((\<lambda>zs. snd (pass_list lt zs)) ^^ 1) xs" using p by simp
    moreover have "list_sort_loop lt l h = Some h1"
      using False h1 by (subst list_sort_loop.simps) simp
    ultimately show ?thesis using rep1 m out1 by metis
  qed
qed

lemma list_sort_rep:
  assumes asym: "\<forall>a b. lt a b \<longrightarrow> \<not> lt b a" and "list_rep h l xs"
  shows "\<exists>h' ys. list_sort lt l h = Some h' \<and> list_rep h' l ys \<and> mset ys = mset xs \<and>
    adj_sorted lt ys \<and> (\<exists>k. ys = ((\<lambda>zs. snd (pass_list lt zs)) ^^ k) xs) \<and>
    same_outside (set (cells l xs)) h h'"
proof -
  obtain h' ys k where *: "list_sort_loop lt l h = Some h'" "list_rep h' l ys"
    "mset ys = mset xs" "adj_sorted lt ys" "same_outside (set (cells l xs)) h h'"
    "ys = ((\<lambda>zs. snd (pass_list lt zs)) ^^ k) xs"
    using list_sort_loop_rep [OF assms] by blast
  then have "is_sorted lt h' (list_begin h' l) (list_end l) = Some True"
    using is_sorted_rep [of h' l "[]" ys "[]" lt] list_rep_begin [of h' l ys]
    by (simp add: list_end_def)
  then have "list_sort lt l h = Some h'" using *(1) by (simp add: list_sort_def)
  then show ?thesis using * by metis
qed

lemma insert_ordered_loop_rep:
  "list_rep h l (xs @ ys) \<Longrightarrow>
   insert_ordered_loop lt h x (hd (ys @ [tail l])) (tail l) =
     Some (hd (dropWhile (\<lambda>e. \<not> lt x e) ys @ [tail l]))"
proof (induction ys arbitrary: xs)
  case Nil
  then show ?case by (simp add: insert_ordered_loop.simps)
next
  case (Cons y ys)
  then have "y \<noteq> tail l" by (auto simp: list_rep_def)
  then show ?case
    using Cons.IH [of "xs @ [y]"] Cons.prems list_rep_next(1) [OF Cons.prems]
    by (subst insert_ordered_loop.simps) simp
qed

lemma list_insert_ordered_rep:
  assumes "list_rep h l xs" and "x \<noteq> NULL" and "x \<notin> set (cells l xs)"
  shows "\<exists>h'. list_insert_ordered lt l x h = Some h' \<and>
    list_rep h' l (takeWhile (\<lambda>e. \<not> lt x e) xs @ x # dropWhile (\<lambda>e. \<not> lt x e) xs) \<and>
    same_outside (insert x (set (cells l xs))) h h'"
  using list_insert_rep [of h l "takeWhile (\<lambda>e. \<not> lt x e) xs" "dropWhile (\<lambda>e. \<not> lt x e) xs" x]
    insert_ordered_loop_rep [of h l "[]" xs lt x] list_rep_begin [OF assms(1)] assms
  by (simp add: list_insert_ordered_def list_end_def)

text \<open>What \<^verbatim>\<open>list_unique\<close> keeps, and what it moves away, of the elements after \<open>x\<close>.\<close>

fun uniq_rest :: "less_fun \<Rightarrow> addr \<Rightarrow> addr list \<Rightarrow> addr list" where
  "uniq_rest lt x [] = []"
| "uniq_rest lt x (y # ys) =
     (if \<not> lt x y \<and> \<not> lt y x then uniq_rest lt x ys else y # uniq_rest lt y ys)"

fun dup_rest :: "less_fun \<Rightarrow> addr \<Rightarrow> addr list \<Rightarrow> addr list" where
  "dup_rest lt x [] = []"
| "dup_rest lt x (y # ys) =
     (if \<not> lt x y \<and> \<not> lt y x then y # dup_rest lt x ys else dup_rest lt y ys)"

lemma list_rep_same_outside:
  assumes "list_rep h l xs" and "same_outside A h h'" and "A \<inter> set (cells l xs) = {}"
  shows "list_rep h' l xs"
proof -
  have out: "nextp h' a = nextp h a \<and> prevp h' a = prevp h a" if "a \<in> set (cells l xs)" for a
    using assms(2,3) that by (auto simp: same_outside_def)
  have "linked h' (cells l xs)"
  proof (rule linked_cong)
    show "linked h (cells l xs)" using assms(1) by (simp add: list_rep_def)
    show "\<forall>a \<in> set (butlast (cells l xs)). nextp h' a = nextp h a"
      using out butlast_subset by metis
    show "\<forall>a \<in> set (tl (cells l xs)). prevp h' a = prevp h a"
      using out tl_subset by metis
  qed
  then show ?thesis using assms(1) out by (auto simp: list_rep_def)
qed

lemma same_outside_mono: "same_outside A h h' \<Longrightarrow> A \<subseteq> B \<Longrightarrow> same_outside B h h'"
  by (auto simp: same_outside_def)

lemma list_unique_loop_rep:
  "list_rep h l (ps @ x # ys) \<Longrightarrow> list_rep h d ds \<Longrightarrow>
   set (cells l (ps @ x # ys)) \<inter> set (cells d ds) = {} \<Longrightarrow>
   \<exists>h'. list_unique_loop lt l (Some d) x h = Some h' \<and>
     list_rep h' l (ps @ x # uniq_rest lt x ys) \<and> list_rep h' d (ds @ dup_rest lt x ys)"
proof (induction lt x ys arbitrary: ps h ds rule: uniq_rest.induct)
  case (1 lt x)
  then show ?case
    using list_rep_next(1) [of h l ps x "[]"] by (subst list_unique_loop.simps) (simp add: list_end_def)
next
  case (2 lt x y ys)
  have nx: "list_next h x = Some y" using list_rep_next(1) [of h l ps x "y # ys"] "2.prems"(1) by simp
  have y: "y \<noteq> tail l" using "2.prems"(1) by (auto simp: list_rep_def)
  show ?case
  proof (cases "\<not> lt x y \<and> \<not> lt y x")
    case True
    obtain h1 where h1: "list_remove y h = Some (hd (ys @ [tail l]), h1)"
      "list_rep h1 l ((ps @ [x]) @ ys)" "same_outside (set (cells l ((ps @ [x]) @ y # ys))) h h1"
      using list_remove_rep [of h l "ps @ [x]" y ys] "2.prems"(1) by auto
    have d1: "list_rep h1 d ds"
      using list_rep_same_outside [OF "2.prems"(2) h1(3)] "2.prems"(3) by auto
    have yd: "y \<noteq> NULL" "y \<notin> set (cells d ds)"
      using "2.prems" by (auto simp: list_rep_def)
    obtain h2 where h2: "list_push_back d y h1 = Some h2" "list_rep h2 d (ds @ [y])"
      "same_outside (insert y (set (cells d ds))) h1 h2"
      using list_push_back_rep [OF d1 yd] by blast
    have fresh: "y \<notin> set (cells l ((ps @ [x]) @ ys))"
      using "2.prems"(1) by (auto simp: list_rep_def)
    have "insert y (set (cells d ds)) \<inter> set (cells l ((ps @ [x]) @ ys)) = {}"
      using fresh "2.prems"(3) by auto
    then have l2: "list_rep h2 l (ps @ x # ys)"
      using list_rep_same_outside [OF h1(2) h2(3)] by simp
    have disj: "set (cells l (ps @ x # ys)) \<inter> set (cells d (ds @ [y])) = {}"
      using "2.prems"(3) fresh by auto
    have "list_unique_loop lt l (Some d) x h = list_unique_loop lt l (Some d) x h2"
      using True nx y h1(1) h2(1) by (subst list_unique_loop.simps) (simp add: list_end_def)
    then show ?thesis
      using "2.IH"(1) [OF True l2 h2(2) disj] True by simp
  next
    case False
    have "list_unique_loop lt l (Some d) x h = list_unique_loop lt l (Some d) y h"
      using False nx y by (subst list_unique_loop.simps) (auto simp: list_end_def)
    moreover have "uniq_rest lt x (y # ys) = y # uniq_rest lt y ys"
      "dup_rest lt x (y # ys) = dup_rest lt y ys" using False by auto
    ultimately show ?thesis
      using "2.IH"(2) [OF False, of h "ps @ [x]" ds] "2.prems"
      by (simp del: uniq_rest.simps dup_rest.simps)
  qed
qed

lemma list_unique_rep:
  assumes "list_rep h l (x # ys)" and "list_rep h d ds"
    and "set (cells l (x # ys)) \<inter> set (cells d ds) = {}"
  shows "\<exists>h'. list_unique lt l (Some d) h = Some h' \<and>
    list_rep h' l (x # uniq_rest lt x ys) \<and> list_rep h' d (ds @ dup_rest lt x ys)"
  using list_unique_loop_rep [of h l "[]" x ys d ds lt] assms list_rep_begin [OF assms(1)]
    list_rep_empty [OF assms(1)]
  by (simp add: list_unique_def)

lemma list_max_loop_rep:
  "list_rep h l (xs @ ys) \<Longrightarrow>
   list_max_loop lt h m (hd (ys @ [tail l])) (tail l) =
     Some (foldl (\<lambda>m e. if lt m e then e else m) m ys)"
proof (induction ys arbitrary: xs m)
  case Nil
  then show ?case by (simp add: list_max_loop.simps)
next
  case (Cons y ys)
  then have "y \<noteq> tail l" by (auto simp: list_rep_def)
  then show ?case
    using Cons.IH [of "xs @ [y]" "if lt m y then y else m"] Cons.prems
      list_rep_next(1) [OF Cons.prems]
    by (subst list_max_loop.simps) (cases "ys = []"; cases "lt m y"; simp)
qed

lemma list_min_loop_rep:
  "list_rep h l (xs @ ys) \<Longrightarrow>
   list_min_loop lt h m (hd (ys @ [tail l])) (tail l) =
     Some (foldl (\<lambda>m e. if lt e m then e else m) m ys)"
proof (induction ys arbitrary: xs m)
  case Nil
  then show ?case by (simp add: list_min_loop.simps)
next
  case (Cons y ys)
  then have "y \<noteq> tail l" by (auto simp: list_rep_def)
  then show ?case
    using Cons.IH [of "xs @ [y]" "if lt y m then y else m"] Cons.prems
      list_rep_next(1) [OF Cons.prems]
    by (subst list_min_loop.simps) (cases "ys = []"; cases "lt y m"; simp)
qed

lemma list_max_rep:
  assumes "list_rep h l (x # xs)"
  shows "list_max lt l h = Some (foldl (\<lambda>m e. if lt m e then e else m) x xs)"
proof -
  have "x \<noteq> tail l" using assms by (auto simp: list_rep_def)
  then show ?thesis
    using list_max_loop_rep [of h l "[x]" xs lt x] list_rep_next(1) [of h l "[]" x xs] assms
      list_rep_begin [OF assms]
    by (simp add: list_max_def Let_def list_end_def)
qed

lemma list_min_rep:
  assumes "list_rep h l (x # xs)"
  shows "list_min lt l h = Some (foldl (\<lambda>m e. if lt e m then e else m) x xs)"
proof -
  have "x \<noteq> tail l" using assms by (auto simp: list_rep_def)
  then show ?thesis
    using list_min_loop_rep [of h l "[x]" xs lt x] list_rep_next(1) [of h l "[]" x xs] assms
      list_rep_begin [OF assms]
    by (simp add: list_min_def Let_def list_end_def)
qed

section \<open>What a client's comparison must promise\<close>

text \<open>
  A \<^verbatim>\<open>list_less_func\<close> must be a strict weak order: asymmetric, and with incomparability
  transitive (stated here as transitivity of "not less"). This is the interface between
  the list library and its clients; they interpret the locale for their own comparisons.
\<close>

locale less_func =
  fixes lt :: "addr \<Rightarrow> addr \<Rightarrow> bool"
  assumes asym: "lt a b \<Longrightarrow> \<not> lt b a"
    and neg_trans: "\<not> lt a b \<Longrightarrow> \<not> lt b c \<Longrightarrow> \<not> lt a c"
begin

lemma lt_trans: "lt a b \<Longrightarrow> lt b c \<Longrightarrow> lt a c"
  using asym neg_trans by blast

lemma sorted_of_adj: "adj_sorted lt xs \<Longrightarrow> sorted_wrt (\<lambda>a b. \<not> lt b a) xs"
proof (induction xs rule: induct_list012)
  case (3 x y zs)
  then have "\<not> lt y x" "sorted_wrt (\<lambda>a b. \<not> lt b a) (y # zs)" by simp_all
  then show ?case using neg_trans by auto
qed auto

text \<open>Elements the comparison does not tell apart from \<open>k\<close>.\<close>

definition eqv :: "addr \<Rightarrow> addr \<Rightarrow> bool" where
  "eqv k x \<longleftrightarrow> \<not> lt k x \<and> \<not> lt x k"

lemma lt_not_eqv: "lt y x \<Longrightarrow> \<not> lt z x \<Longrightarrow> eqv k y \<Longrightarrow> \<not> eqv k z"
  unfolding eqv_def using neg_trans by metis

lemma filter_mrg:
  "sorted_wrt (\<lambda>a b. \<not> lt b a) xs \<Longrightarrow>
   filter (eqv k) (mrg lt xs ys) = filter (eqv k) xs @ filter (eqv k) ys"
proof (induction xs arbitrary: ys)
  case (Cons x xs)
  note outer_prems = Cons.prems and outer_IH = Cons.IH
  show ?case
  proof (induction ys)
    case (Cons y ys)
    show ?case
    proof (cases "lt y x")
      case True
      have "\<not> lt x x" using asym by blast
      then have "filter (eqv k) (x # xs) = []" if "eqv k y"
        using lt_not_eqv [OF True _ that] outer_prems by (auto simp: filter_empty_conv)
      then show ?thesis using Cons.IH True by auto
    next
      case False
      then show ?thesis using outer_IH [of "y # ys"] outer_prems by simp
    qed
  qed simp
qed simp

lemma filter_pass_list: "filter (eqv k) (snd (pass_list lt xs)) = filter (eqv k) xs"
proof (induction "length xs" arbitrary: xs rule: less_induct)
  case less
  show ?case
  proof (cases xs)
    case (Cons x xs')
    show ?thesis
    proof (cases "after_run lt x xs'")
      case Nil
      then show ?thesis using Cons by simp
    next
      case (Cons y ys)
      obtain n zs where p: "pass_list lt (after_run lt y ys) = (n, zs)" by fastforce
      have "length (after_run lt y ys) < length xs"
        using length_after_run [of lt x xs'] length_after_run [of lt y ys] Cons \<open>xs = x # xs'\<close>
        by simp
      then have zs: "filter (eqv k) zs = filter (eqv k) (after_run lt y ys)"
        using less p by fastforce
      have "sorted_wrt (\<lambda>a b. \<not> lt b a) (x # run_of lt x xs')"
        by (rule sorted_of_adj [OF adj_sorted_Cons_run])
      then have "filter (eqv k) (snd (pass_list lt xs)) = filter (eqv k) (x # run_of lt x xs') @
          filter (eqv k) (y # run_of lt y ys) @ filter (eqv k) zs"
        using Cons p \<open>xs = x # xs'\<close> by (simp add: filter_mrg del: filter.simps mrg.simps run_of.simps)
      also have "\<dots> = filter (eqv k) ((x # run_of lt x xs') @ (y # run_of lt y ys) @ after_run lt y ys)"
        using zs by (simp only: filter_append)
      also have "(x # run_of lt x xs') @ (y # run_of lt y ys) @ after_run lt y ys = xs"
        using run_of_append [of lt x xs'] run_of_append [of lt y ys] Cons \<open>xs = x # xs'\<close> by simp
      finally show ?thesis .
    qed
  qed simp
qed

lemma filter_passes: "filter (eqv k) (((\<lambda>zs. snd (pass_list lt zs)) ^^ n) xs) = filter (eqv k) xs"
  by (induction n) (simp_all add: filter_pass_list)

lemma list_sort_correct:
  assumes "list_rep h l xs"
  shows "\<exists>h' ys. list_sort lt l h = Some h' \<and> list_rep h' l ys \<and> mset ys = mset xs \<and>
    sorted_wrt (\<lambda>a b. \<not> lt b a) ys \<and>
    (\<forall>k. filter (\<lambda>x. \<not> lt k x \<and> \<not> lt x k) ys = filter (\<lambda>x. \<not> lt k x \<and> \<not> lt x k) xs) \<and>
    same_outside (set (cells l xs)) h h'"
proof -
  have "\<forall>a b. lt a b \<longrightarrow> \<not> lt b a" using asym by blast
  then obtain h' ys n where *: "list_sort lt l h = Some h'" "list_rep h' l ys" "mset ys = mset xs"
    "adj_sorted lt ys" "ys = ((\<lambda>zs. snd (pass_list lt zs)) ^^ n) xs"
    "same_outside (set (cells l xs)) h h'"
    using list_sort_rep [OF _ assms] by blast
  have "(\<lambda>x. \<not> lt k x \<and> \<not> lt x k) = eqv k" for k
    by (simp add: eqv_def fun_eq_iff)
  then have "\<forall>k. filter (\<lambda>x. \<not> lt k x \<and> \<not> lt x k) ys = filter (\<lambda>x. \<not> lt k x \<and> \<not> lt x k) xs"
    using filter_passes *(5) by simp
  then show ?thesis using * sorted_of_adj by blast
qed

lemma sorted_insert_ordered:
  assumes "sorted_wrt (\<lambda>a b. \<not> lt b a) xs"
  shows "sorted_wrt (\<lambda>a b. \<not> lt b a)
    (takeWhile (\<lambda>e. \<not> lt x e) xs @ x # dropWhile (\<lambda>e. \<not> lt x e) xs)"
  using assms
proof (induction xs)
  case (Cons y ys)
  show ?case
  proof (cases "lt x y")
    case True
    have "\<not> lt z x" if "z \<in> set ys" for z
      using Cons.prems that neg_trans [of z y x] asym [OF True] by auto
    then show ?thesis using Cons.prems True asym [OF True] by simp
  next
    case False
    have "\<forall>z \<in> set (takeWhile (\<lambda>e. \<not> lt x e) ys @ x # dropWhile (\<lambda>e. \<not> lt x e) ys). \<not> lt z y"
      using Cons.prems False by (auto dest: set_takeWhileD set_dropWhileD)
    then show ?thesis using Cons False by simp
  qed
qed simp

lemma foldl_max:
  "(\<forall>a \<in> set ps. lt a m) \<Longrightarrow> (\<forall>b \<in> set qs. \<not> lt m b) \<Longrightarrow>
   \<exists>as n bs. ps @ m # qs @ xs = as @ n # bs \<and> foldl (\<lambda>m e. if lt m e then e else m) m xs = n \<and>
     (\<forall>a \<in> set as. lt a n) \<and> (\<forall>b \<in> set bs. \<not> lt n b)"
proof (induction xs arbitrary: ps m qs)
  case Nil
  then show ?case by auto
next
  case (Cons x xs)
  show ?case
  proof (cases "lt m x")
    case True
    have "lt a x" if "a \<in> set qs" for a
      using Cons.prems(2) that True neg_trans [of m a x] by blast
    then have "\<forall>a \<in> set (ps @ m # qs). lt a x"
      using Cons.prems(1) True lt_trans [OF _ True] by auto
    then show ?thesis using Cons.IH [of "ps @ m # qs" x "[]"] True by simp
  next
    case False
    then show ?thesis using Cons.IH [of ps m "qs @ [x]"] Cons.prems by simp
  qed
qed

lemma list_max_correct:
  assumes "list_rep h l (x # xs)"
  shows "\<exists>m as bs. list_max lt l h = Some m \<and> x # xs = as @ m # bs \<and>
    (\<forall>a \<in> set as. lt a m) \<and> (\<forall>b \<in> set bs. \<not> lt m b)"
  using list_max_rep [OF assms, of lt] foldl_max [of "[]" x "[]" xs] by auto

end

text \<open>The mirror image of a comparison is a comparison, so \<^verbatim>\<open>list_min\<close> follows from
  \<^verbatim>\<open>list_max\<close>.\<close>

sublocale less_func \<subseteq> rev: less_func "\<lambda>a b. lt b a"
  by unfold_locales (use asym neg_trans in blast)+

context less_func
begin

lemma list_min_correct:
  assumes "list_rep h l (x # xs)"
  shows "\<exists>m as bs. list_min lt l h = Some m \<and> x # xs = as @ m # bs \<and>
    (\<forall>a \<in> set as. lt m a) \<and> (\<forall>b \<in> set bs. \<not> lt b m)"
  using list_min_rep [OF assms, of lt] rev.foldl_max [of "[]" x "[]" xs] by auto

end

section \<open>Properties of the list library\<close>

text \<open>C1: \<^verbatim>\<open>list_sort\<close> returns, for every strict weak order and every well-formed list,
  and leaves in the list a permutation of its elements that is sorted and keeps the order
  of elements that compare equal; no link outside the list is written. In particular the
  loop ends and the final assertion \<^verbatim>\<open>is_sorted\<close> holds.\<close>

theorem list_sort_stable:
  assumes "\<And>a b. lt a b \<Longrightarrow> \<not> lt b a" and "\<And>a b c. \<not> lt a b \<Longrightarrow> \<not> lt b c \<Longrightarrow> \<not> lt a c"
    and "list_rep h l xs"
  shows "\<exists>h' ys. list_sort lt l h = Some h' \<and> list_rep h' l ys \<and> mset ys = mset xs \<and>
    sorted_wrt (\<lambda>a b. \<not> lt b a) ys \<and>
    (\<forall>k. filter (\<lambda>x. \<not> lt k x \<and> \<not> lt x k) ys = filter (\<lambda>x. \<not> lt k x \<and> \<not> lt x k) xs) \<and>
    same_outside (set (cells l xs)) h h'"
  by (rule less_func.list_sort_correct [OF less_func.intro]) (use assms in blast)+


text \<open>A list with elements 10, 20, 30 between the headers 1 and 2.\<close>

definition sample_links :: links where
  "sample_links = \<lparr>nextp = (\<lambda>_. 0)(1 := 30, 30 := 10, 10 := 20, 20 := 2),
     prevp = (\<lambda>_. 0)(30 := 1, 10 := 30, 20 := 10, 2 := 20)\<rparr>"

lemma sample_links_rep: "list_rep sample_links \<lparr>head = 1, tail = 2\<rparr> [30, 10, 20]"
  by (simp add: list_rep_def cells_def sample_links_def)

theorem list_sort_stable_witness:
  "\<exists>h' ys. list_sort (\<lambda>a b. a div 20 < b div 20) \<lparr>head = 1, tail = 2\<rparr> sample_links = Some h' \<and>
     list_rep h' \<lparr>head = 1, tail = 2\<rparr> ys \<and> mset ys = {#10, 20, 30#}"
  using list_sort_stable [of "\<lambda>a b. a div 20 < b div 20", OF _ _ sample_links_rep]
  by (fastforce simp: add_mset_commute)

text \<open>Inserting a fresh element with \<^verbatim>\<open>list_insert_ordered\<close> into a sorted list keeps it
  sorted, with the new element after every element it does not precede.\<close>

theorem list_insert_ordered_sorted:
  assumes "\<And>a b. lt a b \<Longrightarrow> \<not> lt b a" and "\<And>a b c. \<not> lt a b \<Longrightarrow> \<not> lt b c \<Longrightarrow> \<not> lt a c"
    and "list_rep h l xs" and "sorted_wrt (\<lambda>a b. \<not> lt b a) xs"
    and "x \<noteq> NULL" and "x \<notin> set (cells l xs)"
  shows "\<exists>h' as bs. list_insert_ordered lt l x h = Some h' \<and> xs = as @ bs \<and>
    list_rep h' l (as @ x # bs) \<and> sorted_wrt (\<lambda>a b. \<not> lt b a) (as @ x # bs) \<and>
    (\<forall>a \<in> set as. \<not> lt x a)"
proof -
  have "less_func lt" by (rule less_func.intro) (use assms in blast)+
  then have "sorted_wrt (\<lambda>a b. \<not> lt b a)
      (takeWhile (\<lambda>e. \<not> lt x e) xs @ x # dropWhile (\<lambda>e. \<not> lt x e) xs)"
    using less_func.sorted_insert_ordered assms(4) by metis
  then show ?thesis
    using list_insert_ordered_rep [OF assms(3,5,6), of lt]
    by (metis takeWhile_dropWhile_id set_takeWhileD)
qed

theorem list_insert_ordered_sorted_witness:
  "\<exists>h' as bs. list_insert_ordered (\<lambda>a b. a div 100 < b div 100) \<lparr>head = 1, tail = 2\<rparr> 40 sample_links
     = Some h' \<and> [30, 10, 20] = as @ bs \<and> list_rep h' \<lparr>head = 1, tail = 2\<rparr> (as @ 40 # bs) \<and>
     sorted_wrt (\<lambda>a b. \<not> b div 100 < a div 100) (as @ 40 # bs) \<and>
    (\<forall>a \<in> set as. \<not> 40 div 100 < a div (100::nat))"
  by (rule list_insert_ordered_sorted [OF _ _ sample_links_rep]) auto

lemma uniq_rest_mset: "mset (uniq_rest lt x ys) + mset (dup_rest lt x ys) = mset ys"
  by (induction lt x ys rule: uniq_rest.induct) auto

lemma uniq_rest_adj: "successively (\<lambda>a b. lt a b \<or> lt b a) (x # uniq_rest lt x ys)"
  by (induction lt x ys rule: uniq_rest.induct) auto

lemma uniq_rest_subseq: "subseq (uniq_rest lt x ys) ys \<and> subseq (dup_rest lt x ys) ys"
  by (induction lt x ys rule: uniq_rest.induct) auto

text \<open>\<^verbatim>\<open>list_unique\<close> keeps the first element of every group of neighbours that compare
  equal and appends the others to the second list, both in their old order. It loses no
  element, and no two neighbours that remain compare equal.\<close>

theorem list_unique_splits:
  assumes "list_rep h l (x # xs)" and "list_rep h d ds"
    and "set (cells l (x # xs)) \<inter> set (cells d ds) = {}"
  shows "\<exists>h' us vs. list_unique lt l (Some d) h = Some h' \<and> list_rep h' l (x # us) \<and>
    list_rep h' d (ds @ vs) \<and> mset us + mset vs = mset xs \<and> subseq us xs \<and> subseq vs xs \<and>
    successively (\<lambda>a b. lt a b \<or> lt b a) (x # us)"
  using list_unique_rep [OF assms, of lt] uniq_rest_mset [of lt x xs] uniq_rest_adj [of lt x xs]
    uniq_rest_subseq [of lt x xs] by blast

definition sample_two :: links where
  "sample_two = \<lparr>nextp = (\<lambda>_. 0)(1 := 30, 30 := 10, 10 := 20, 20 := 2, 3 := 4),
     prevp = (\<lambda>_. 0)(30 := 1, 10 := 30, 20 := 10, 2 := 20, 4 := 3)\<rparr>"

theorem list_unique_splits_witness:
  "\<exists>h' us vs. list_unique (\<lambda>a b. a div 25 < b div 25) \<lparr>head = 1, tail = 2\<rparr>
      (Some \<lparr>head = 3, tail = 4\<rparr>) sample_two = Some h' \<and>
    list_rep h' \<lparr>head = 1, tail = 2\<rparr> (30 # us) \<and> list_rep h' \<lparr>head = 3, tail = 4\<rparr> ([] @ vs) \<and>
    mset us + mset vs = mset [10, 20] \<and> subseq us [10, 20] \<and> subseq vs [10, 20] \<and>
    successively (\<lambda>a b. a div 25 < b div 25 \<or> b div 25 < a div 25) (30 # us)"
  by (rule list_unique_splits)
    (simp_all add: list_rep_def cells_def sample_two_def)

text \<open>\<^verbatim>\<open>list_reverse\<close> returns and leaves the same elements in the opposite order, with
  both header elements and every link outside the list as they must be.\<close>

theorem list_reverse_reverses:
  assumes "list_rep h l xs"
  shows "\<exists>h'. list_reverse l h = Some h' \<and> list_rep h' l (rev xs) \<and>
    same_outside (set (cells l xs)) h h'"
  by (rule list_reverse_rep [OF assms])

theorem list_reverse_reverses_witness:
  "\<exists>h'. list_reverse \<lparr>head = 1, tail = 2\<rparr> sample_links = Some h' \<and>
     list_rep h' \<lparr>head = 1, tail = 2\<rparr> [20, 10, 30]"
  using list_reverse_reverses [OF sample_links_rep] by auto

end
