(* ===== verification/Bitmap.thy ===== *)
theory Bitmap
  imports Prelude
begin

text \<open>
  The kernel's bitmaps, \<^verbatim>\<open>lib/kernel/bitmap.c\<close>: an array of 32-bit elements that
  simulates an array of bits. The relation \<open>bitmap_rep b bs\<close> says that \<open>b\<close> stands for the
  list of booleans \<open>bs\<close>; every operation is shown to act on \<open>bs\<close> as an array of bits
  would. The end of the theory states what an allocator of numbered slots promises and
  shows that \<^verbatim>\<open>bitmap_scan_and_flip\<close> with \<^verbatim>\<open>bitmap_set_multiple\<close> is one.

  \<^verbatim>\<open>size_t\<close> has 32 bits: sums the code compares are reduced with \<open>size_add\<close>. \<open>None\<close> is a
  failed assertion or an access outside the element array.
\<close>

section \<open>Representation\<close>

record bitmap =
  bit_cnt :: nat
  bits :: "u32 list"

abbreviation (input) ELEM_BITS :: nat where
  "ELEM_BITS \<equiv> 32"

definition BITMAP_ERROR :: nat where
  "BITMAP_ERROR = 2 ^ 32 - 1"

definition size_add :: "nat \<Rightarrow> nat \<Rightarrow> nat" where
  "size_add a b = (a + b) mod 2 ^ 32"

definition elem_idx :: "nat \<Rightarrow> nat" where
  "elem_idx bit_idx = bit_idx div ELEM_BITS"

definition bit_mask :: "nat \<Rightarrow> u32" where
  "bit_mask bit_idx = push_bit (bit_idx mod ELEM_BITS) 1"

text \<open>\<^verbatim>\<open>DIV_ROUND_UP (bit_cnt, ELEM_BITS)\<close>, which is \<^verbatim>\<open>(X + STEP - 1) / STEP\<close>.\<close>

definition elem_cnt :: "nat \<Rightarrow> nat" where
  "elem_cnt n = (n + ELEM_BITS - 1) div ELEM_BITS"

definition byte_cnt :: "nat \<Rightarrow> nat" where
  "byte_cnt n = 4 * elem_cnt n"

definition last_mask :: "bitmap \<Rightarrow> u32" where
  "last_mask b = (let last_bits = bit_cnt b mod ELEM_BITS in
     if last_bits \<noteq> 0 then push_bit last_bits 1 - 1 else - 1)"

definition bitmap_size :: "bitmap \<Rightarrow> nat" where
  "bitmap_size b = bit_cnt b"

section \<open>Single bits\<close>

text \<open>Reading an element, and replacing it by a function of its value.\<close>

definition elem_at :: "bitmap \<Rightarrow> nat \<Rightarrow> u32 option" where
  "elem_at b i = (if i < length (bits b) then Some (bits b ! i) else None)"

definition elem_upd :: "bitmap \<Rightarrow> nat \<Rightarrow> (u32 \<Rightarrow> u32) \<Rightarrow> bitmap option" where
  "elem_upd b i f = do { w \<leftarrow> elem_at b i; Some (b\<lparr>bits := (bits b)[i := f w]\<rparr>) }"

definition bitmap_mark :: "bitmap \<Rightarrow> nat \<Rightarrow> bitmap option" where
  "bitmap_mark b bit_idx = elem_upd b (elem_idx bit_idx) (\<lambda>w. w OR bit_mask bit_idx)"

definition bitmap_reset :: "bitmap \<Rightarrow> nat \<Rightarrow> bitmap option" where
  "bitmap_reset b bit_idx = elem_upd b (elem_idx bit_idx) (\<lambda>w. w AND NOT (bit_mask bit_idx))"

definition bitmap_flip :: "bitmap \<Rightarrow> nat \<Rightarrow> bitmap option" where
  "bitmap_flip b bit_idx = elem_upd b (elem_idx bit_idx) (\<lambda>w. w XOR bit_mask bit_idx)"

definition bitmap_set :: "bitmap \<Rightarrow> nat \<Rightarrow> bool \<Rightarrow> bitmap option" where
  "bitmap_set b idx value = do {
     kassert (idx < bit_cnt b);
     if value then bitmap_mark b idx else bitmap_reset b idx }"

definition bitmap_test :: "bitmap \<Rightarrow> nat \<Rightarrow> bool option" where
  "bitmap_test b idx = do {
     kassert (idx < bit_cnt b);
     w \<leftarrow> elem_at b (elem_idx idx);
     Some (w AND bit_mask idx \<noteq> 0) }"

section \<open>Ranges of bits\<close>

text \<open>The loops run over the \<open>n\<close> bits from \<open>i\<close> on.\<close>

fun set_range :: "bitmap \<Rightarrow> nat \<Rightarrow> nat \<Rightarrow> bool \<Rightarrow> bitmap option" where
  "set_range b i 0 value = Some b"
| "set_range b i (Suc n) value = do { b \<leftarrow> bitmap_set b i value; set_range b (i + 1) n value }"

definition bitmap_set_multiple :: "bitmap \<Rightarrow> nat \<Rightarrow> nat \<Rightarrow> bool \<Rightarrow> bitmap option" where
  "bitmap_set_multiple b start cnt value = do {
     kassert (start \<le> bit_cnt b);
     kassert (size_add start cnt \<le> bit_cnt b);
     set_range b start cnt value }"

definition bitmap_set_all :: "bitmap \<Rightarrow> bool \<Rightarrow> bitmap option" where
  "bitmap_set_all b value = bitmap_set_multiple b 0 (bitmap_size b) value"

fun count_range :: "bitmap \<Rightarrow> nat \<Rightarrow> nat \<Rightarrow> bool \<Rightarrow> nat \<Rightarrow> nat option" where
  "count_range b i 0 value acc = Some acc"
| "count_range b i (Suc n) value acc = do {
     t \<leftarrow> bitmap_test b i;
     count_range b (i + 1) n value (if t = value then acc + 1 else acc) }"

definition bitmap_count :: "bitmap \<Rightarrow> nat \<Rightarrow> nat \<Rightarrow> bool \<Rightarrow> nat option" where
  "bitmap_count b start cnt value = do {
     kassert (start \<le> bit_cnt b);
     kassert (size_add start cnt \<le> bit_cnt b);
     count_range b start cnt value 0 }"

fun contains_range :: "bitmap \<Rightarrow> nat \<Rightarrow> nat \<Rightarrow> bool \<Rightarrow> bool option" where
  "contains_range b i 0 value = Some False"
| "contains_range b i (Suc n) value = do {
     t \<leftarrow> bitmap_test b i;
     if t = value then Some True else contains_range b (i + 1) n value }"

definition bitmap_contains :: "bitmap \<Rightarrow> nat \<Rightarrow> nat \<Rightarrow> bool \<Rightarrow> bool option" where
  "bitmap_contains b start cnt value = do {
     kassert (start \<le> bit_cnt b);
     kassert (size_add start cnt \<le> bit_cnt b);
     contains_range b start cnt value }"

definition bitmap_any :: "bitmap \<Rightarrow> nat \<Rightarrow> nat \<Rightarrow> bool option" where
  "bitmap_any b start cnt = bitmap_contains b start cnt True"

definition bitmap_none :: "bitmap \<Rightarrow> nat \<Rightarrow> nat \<Rightarrow> bool option" where
  "bitmap_none b start cnt = do { c \<leftarrow> bitmap_contains b start cnt True; Some (\<not> c) }"

definition bitmap_all :: "bitmap \<Rightarrow> nat \<Rightarrow> nat \<Rightarrow> bool option" where
  "bitmap_all b start cnt = do { c \<leftarrow> bitmap_contains b start cnt False; Some (\<not> c) }"

section \<open>Finding bits\<close>

text \<open>The loop of \<^verbatim>\<open>bitmap_scan\<close> over the \<open>n\<close> start positions from \<open>i\<close> on.\<close>

fun scan_range :: "bitmap \<Rightarrow> nat \<Rightarrow> nat \<Rightarrow> nat \<Rightarrow> bool \<Rightarrow> nat option" where
  "scan_range b i 0 cnt value = Some BITMAP_ERROR"
| "scan_range b i (Suc n) cnt value = do {
     c \<leftarrow> bitmap_contains b i cnt (\<not> value);
     if \<not> c then Some i else scan_range b (i + 1) n cnt value }"

definition bitmap_scan :: "bitmap \<Rightarrow> nat \<Rightarrow> nat \<Rightarrow> bool \<Rightarrow> nat option" where
  "bitmap_scan b start cnt value = do {
     kassert (start \<le> bit_cnt b);
     if cnt \<le> bit_cnt b
     then let stop = bit_cnt b - cnt in scan_range b start (stop + 1 - start) cnt value
     else Some BITMAP_ERROR }"

definition bitmap_scan_and_flip :: "bitmap \<Rightarrow> nat \<Rightarrow> nat \<Rightarrow> bool \<Rightarrow> (nat \<times> bitmap) option" where
  "bitmap_scan_and_flip b start cnt value = do {
     idx \<leftarrow> bitmap_scan b start cnt value;
     if idx \<noteq> BITMAP_ERROR
     then do { b \<leftarrow> bitmap_set_multiple b idx cnt (\<not> value); Some (idx, b) }
     else Some (idx, b) }"

section \<open>Creation\<close>

text \<open>\<^verbatim>\<open>malloc\<close> is given by its two results: whether the structure could be allocated, and
  the element array with whatever its memory held. The inner \<open>None\<close> is a null pointer.\<close>

definition bitmap_create :: "bool \<Rightarrow> (nat \<Rightarrow> u32 list option) \<Rightarrow> nat \<Rightarrow> bitmap option option" where
  "bitmap_create struct_ok malloc_elems n =
     (if struct_ok then
        (case malloc_elems (elem_cnt n) of
           Some junk \<Rightarrow> do { b \<leftarrow> bitmap_set_all \<lparr>bit_cnt = n, bits = junk\<rparr> False; Some (Some b) }
         | None \<Rightarrow>
             if n = 0
             then do { b \<leftarrow> bitmap_set_all \<lparr>bit_cnt = n, bits = []\<rparr> False; Some (Some b) }
             else Some None)
      else Some None)"

definition bitmap_buf_size :: "nat \<Rightarrow> nat" where
  "bitmap_buf_size n = 8 + byte_cnt n"

definition bitmap_create_in_buf :: "nat \<Rightarrow> u32 list \<Rightarrow> nat \<Rightarrow> bitmap option" where
  "bitmap_create_in_buf n block block_size = do {
     kassert (block_size \<ge> bitmap_buf_size n);
     bitmap_set_all \<lparr>bit_cnt = n, bits = drop 2 block\<rparr> False }"

section \<open>What a bitmap stands for\<close>

definition bitmap_rep :: "bitmap \<Rightarrow> bool list \<Rightarrow> bool" where
  "bitmap_rep b bs \<longleftrightarrow>
     length bs = bit_cnt b \<and> bit_cnt b < BITMAP_ERROR \<and> elem_cnt (bit_cnt b) \<le> length (bits b) \<and>
     (\<forall>i < bit_cnt b. bit (bits b ! (i div ELEM_BITS)) (i mod ELEM_BITS) = bs ! i)"

lemma elem_idx_bound: "i < n \<Longrightarrow> elem_cnt n \<le> k \<Longrightarrow> i div ELEM_BITS < k"
  unfolding elem_cnt_def by linarith

lemma bit_mask_bit [simp]: "bit (bit_mask i) j \<longleftrightarrow> j = i mod ELEM_BITS"
  by (auto simp: bit_mask_def bit_exp_iff)

lemma and_bit_mask: "w AND bit_mask i \<noteq> 0 \<longleftrightarrow> bit w (i mod ELEM_BITS)"
  by (auto simp: bit_eq_iff [of "w AND bit_mask i"] bit_and_iff)

lemma same_elem_bit:
  "(i::nat) div ELEM_BITS = j div ELEM_BITS \<Longrightarrow> i mod ELEM_BITS = j mod ELEM_BITS \<Longrightarrow> i = j"
  by (metis div_mult_mod_eq)

text \<open>An update of the element of bit \<open>i\<close> that changes only that bit.\<close>

lemma elem_upd_rep:
  assumes "bitmap_rep b bs" and i: "i < length bs"
    and f: "\<And>w j. j < ELEM_BITS \<Longrightarrow>
      bit (f w) j = (if j = i mod ELEM_BITS then g (bit w j) else bit w j)"
  shows "\<exists>b'. elem_upd b (elem_idx i) f = Some b' \<and> bitmap_rep b' (bs[i := g (bs ! i)])"
proof -
  let ?k = "i div ELEM_BITS"
  let ?b = "b\<lparr>bits := (bits b)[?k := f (bits b ! ?k)]\<rparr>"
  have rep: "length bs = bit_cnt b" "elem_cnt (bit_cnt b) \<le> length (bits b)"
    "\<And>j. j < bit_cnt b \<Longrightarrow> bit (bits b ! (j div ELEM_BITS)) (j mod ELEM_BITS) = bs ! j"
    using assms(1) by (auto simp: bitmap_rep_def)
  have k: "?k < length (bits b)" using elem_idx_bound rep i by simp
  have "bit (bits ?b ! (j div ELEM_BITS)) (j mod ELEM_BITS) = bs[i := g (bs ! i)] ! j"
    if j: "j < bit_cnt b" for j
  proof (cases "j div ELEM_BITS = ?k")
    case True
    then show ?thesis
    proof (cases "j = i")
      case False
      then have "j mod ELEM_BITS \<noteq> i mod ELEM_BITS" using same_elem_bit True by blast
      then show ?thesis
        using rep(3) [OF j] k True False f [of "j mod ELEM_BITS" "bits b ! ?k"] by simp
    qed (use rep(3) [OF j] i k f [of "j mod ELEM_BITS" "bits b ! ?k"] in simp)
  next
    case False
    then have "i \<noteq> j" by blast
    then show ?thesis using False rep(3) [OF j] by simp
  qed
  then have "bitmap_rep ?b (bs[i := g (bs ! i)])"
    using assms(1) by (simp add: bitmap_rep_def)
  then show ?thesis using k by (simp add: elem_upd_def elem_at_def elem_idx_def)
qed

lemma bitmap_set_rep [rep_intros]:
  assumes "bitmap_rep b bs" and "i < length bs"
  shows "\<exists>b'. bitmap_set b i v = Some b' \<and> bitmap_rep b' (bs[i := v])"
  using elem_upd_rep [OF assms, of "\<lambda>w. w OR bit_mask i" "\<lambda>_. True"]
    elem_upd_rep [OF assms, of "\<lambda>w. w AND NOT (bit_mask i)" "\<lambda>_. False"] assms
  by (cases v) (auto simp: bitmap_set_def bitmap_mark_def bitmap_reset_def bitmap_rep_def
      bit_or_iff bit_and_iff bit_not_iff)

lemma bitmap_flip_rep:
  assumes "bitmap_rep b bs" and "i < length bs"
  shows "\<exists>b'. bitmap_flip b i = Some b' \<and> bitmap_rep b' (bs[i := \<not> bs ! i])"
  using elem_upd_rep [OF assms, of "\<lambda>w. w XOR bit_mask i" Not]
  by (auto simp: bitmap_flip_def bit_xor_iff)

lemma bitmap_test_rep:
  assumes "bitmap_rep b bs" and "i < length bs"
  shows "bitmap_test b i = Some (bs ! i)"
proof -
  have "i div ELEM_BITS < length (bits b)"
    using elem_idx_bound assms by (auto simp: bitmap_rep_def)
  then show ?thesis
    using assms
    by (auto simp: bitmap_test_def elem_at_def elem_idx_def bitmap_rep_def and_bit_mask)
qed

lemma set_range_rep:
  "bitmap_rep b bs \<Longrightarrow> i + n \<le> length bs \<Longrightarrow>
   \<exists>b'. set_range b i n v = Some b' \<and> bitmap_rep b' (take i bs @ replicate n v @ drop (i + n) bs)"
proof (induction n arbitrary: b bs i)
  case 0
  then show ?case by simp
next
  case (Suc n)
  obtain b1 where b1: "bitmap_set b i v = Some b1" "bitmap_rep b1 (bs[i := v])"
    using bitmap_set_rep [OF Suc.prems(1), of i v] Suc.prems(2) by auto
  have "take (i + 1) (bs[i := v]) @ replicate n v @ drop (i + 1 + n) (bs[i := v]) =
      take i bs @ replicate (Suc n) v @ drop (i + Suc n) bs"
    using Suc.prems(2) by (simp add: take_Suc_conv_app_nth)
  then show ?case
    using Suc.IH [OF b1(2), of "i + 1"] Suc.prems(2) b1(1) by simp
qed

lemma size_add_le:
  "bitmap_rep b bs \<Longrightarrow> i + n \<le> length bs \<Longrightarrow> size_add i n = i + n"
  by (simp add: bitmap_rep_def size_add_def BITMAP_ERROR_def)

lemma bitmap_set_multiple_rep:
  assumes "bitmap_rep b bs" and "i + n \<le> length bs"
  shows "\<exists>b'. bitmap_set_multiple b i n v = Some b' \<and>
    bitmap_rep b' (take i bs @ replicate n v @ drop (i + n) bs)"
  using set_range_rep [OF assms] size_add_le [OF assms] assms
  by (simp add: bitmap_set_multiple_def bitmap_rep_def)

lemma drop_take_Suc:
  "i < length bs \<Longrightarrow> take (Suc n) (drop i bs) = bs ! i # take n (drop (Suc i) bs)"
  by (simp add: Cons_nth_drop_Suc [symmetric])

lemma count_range_rep:
  "bitmap_rep b bs \<Longrightarrow> i + n \<le> length bs \<Longrightarrow>
   count_range b i n v acc = Some (acc + count_list (take n (drop i bs)) v)"
  by (induction n arbitrary: i acc) (auto simp: bitmap_test_rep drop_take_Suc)

lemma bitmap_count_rep:
  assumes "bitmap_rep b bs" and "i + n \<le> length bs"
  shows "bitmap_count b i n v = Some (count_list (take n (drop i bs)) v)"
  using count_range_rep [OF assms] size_add_le [OF assms] assms
  by (simp add: bitmap_count_def bitmap_rep_def)

lemma contains_range_rep:
  "bitmap_rep b bs \<Longrightarrow> i + n \<le> length bs \<Longrightarrow>
   contains_range b i n v = Some (v \<in> set (take n (drop i bs)))"
  by (induction n arbitrary: i) (auto simp: bitmap_test_rep drop_take_Suc)

lemma bitmap_contains_rep:
  assumes "bitmap_rep b bs" and "i + n \<le> length bs"
  shows "bitmap_contains b i n v = Some (v \<in> set (take n (drop i bs)))"
  using contains_range_rep [OF assms] size_add_le [OF assms] assms
  by (simp add: bitmap_contains_def bitmap_rep_def)

section \<open>Searching\<close>

text \<open>\<open>n\<close> consecutive bits from \<open>i\<close> on, all equal to \<open>v\<close>.\<close>

definition group :: "bool list \<Rightarrow> nat \<Rightarrow> nat \<Rightarrow> bool \<Rightarrow> bool" where
  "group bs i n v \<longleftrightarrow> i + n \<le> length bs \<and> (\<forall>k \<in> {i..<i + n}. bs ! k = v)"

lemma group_iff_take:
  "i + n \<le> length bs \<Longrightarrow> group bs i n v \<longleftrightarrow> (\<not> v) \<notin> set (take n (drop i bs))"
proof -
  assume len: "i + n \<le> length bs"
  have "(\<not> v) \<in> set (take n (drop i bs)) \<longleftrightarrow> (\<exists>k < n. bs ! (i + k) = (\<not> v))"
    using len by (auto simp: in_set_conv_nth)
  also have "\<dots> \<longleftrightarrow> (\<exists>k \<in> {i..<i + n}. bs ! k = (\<not> v))"
    by (metis atLeastLessThan_iff le_add1 le_add_diff_inverse nat_add_left_cancel_less)
  finally show ?thesis using len by (auto simp: group_def)
qed

lemma scan_range_rep:
  "bitmap_rep b bs \<Longrightarrow> i + m + n \<le> length bs + 1 \<Longrightarrow>
   (\<exists>k. scan_range b i m n v = Some k \<and> i \<le> k \<and> k < i + m \<and> group bs k n v \<and>
      (\<forall>j \<in> {i..<k}. \<not> group bs j n v)) \<or>
   scan_range b i m n v = Some BITMAP_ERROR \<and> (\<forall>j \<in> {i..<i + m}. \<not> group bs j n v)"
proof (induction m arbitrary: i)
  case 0
  then show ?case by simp
next
  case (Suc m)
  then have c: "bitmap_contains b i n (\<not> v) = Some (\<not> group bs i n v)"
    by (simp add: bitmap_contains_rep group_iff_take)
  show ?case
  proof (cases "group bs i n v")
    case True
    then show ?thesis using c by auto
  next
    case False
    then have eq: "scan_range b i (Suc m) n v = scan_range b (i + 1) m n v" using c by simp
    have ext: "\<forall>j \<in> {i..<k}. \<not> group bs j n v" if "\<forall>j \<in> {i + 1..<k}. \<not> group bs j n v" for k
    proof
      fix j assume "j \<in> {i..<k}"
      then show "\<not> group bs j n v" using that False by (cases "j = i") auto
    qed
    show ?thesis
      using Suc.IH [of "i + 1"] Suc.prems(1,2)
    proof (elim meta_impE disjE exE conjE)
      fix k
      assume "scan_range b (i + 1) m n v = Some k" "i + 1 \<le> k" "k < i + 1 + m" "group bs k n v"
        "\<forall>j \<in> {i + 1..<k}. \<not> group bs j n v"
      then show ?thesis using ext eq by auto
    next
      assume "scan_range b (i + 1) m n v = Some BITMAP_ERROR"
        "\<forall>j \<in> {i + 1..<i + 1 + m}. \<not> group bs j n v"
      then show ?thesis using ext [of "i + Suc m"] eq by simp
    qed simp_all
  qed
qed

lemma bitmap_scan_rep:
  assumes "bitmap_rep b bs" and "start \<le> length bs"
  shows "(\<exists>k. bitmap_scan b start n v = Some k \<and> k \<noteq> BITMAP_ERROR \<and> start \<le> k \<and> group bs k n v \<and>
      (\<forall>j \<in> {start..<k}. \<not> group bs j n v)) \<or>
    bitmap_scan b start n v = Some BITMAP_ERROR \<and> (\<forall>j \<ge> start. \<not> group bs j n v)"
proof (cases "start + n \<le> length bs")
  case True
  let ?m = "length bs - n + 1 - start"
  have eq: "bitmap_scan b start n v = scan_range b start ?m n v"
    using assms True by (simp add: bitmap_scan_def bitmap_rep_def)
  have far: "j \<in> {start..<start + (length bs - n + 1 - start)}" if "j \<ge> start" "group bs j n v" for j
    using that True by (auto simp: group_def)
  have err: "k \<noteq> BITMAP_ERROR" if "group bs k n v" for k
    using that assms(1) by (auto simp: group_def bitmap_rep_def)
  have "start + ?m + n \<le> length bs + 1" using True by simp
  from scan_range_rep [OF assms(1) this, of v] show ?thesis
    unfolding eq using far err by blast
next
  case False
  then have "\<not> group bs j n v" if "j \<ge> start" for j using that by (auto simp: group_def)
  moreover have "bitmap_scan b start n v = Some BITMAP_ERROR"
    using assms False by (auto simp: bitmap_scan_def bitmap_rep_def)
  ultimately show ?thesis by blast
qed

lemma bitmap_scan_and_flip_rep:
  assumes "bitmap_rep b bs" and "start \<le> length bs"
  shows "(\<exists>k b'. bitmap_scan_and_flip b start n v = Some (k, b') \<and> k \<noteq> BITMAP_ERROR \<and> start \<le> k \<and>
      group bs k n v \<and> (\<forall>j \<in> {start..<k}. \<not> group bs j n v) \<and>
      bitmap_rep b' (take k bs @ replicate n (\<not> v) @ drop (k + n) bs)) \<or>
    bitmap_scan_and_flip b start n v = Some (BITMAP_ERROR, b) \<and> (\<forall>j \<ge> start. \<not> group bs j n v)"
  using bitmap_scan_rep [OF assms, of n v]
proof
  assume "\<exists>k. bitmap_scan b start n v = Some k \<and> k \<noteq> BITMAP_ERROR \<and> start \<le> k \<and> group bs k n v \<and>
      (\<forall>j \<in> {start..<k}. \<not> group bs j n v)"
  then obtain k where k: "bitmap_scan b start n v = Some k" "k \<noteq> BITMAP_ERROR" "start \<le> k"
    "group bs k n v" "\<forall>j \<in> {start..<k}. \<not> group bs j n v" by blast
  obtain b' where "bitmap_set_multiple b k n (\<not> v) = Some b'"
    "bitmap_rep b' (take k bs @ replicate n (\<not> v) @ drop (k + n) bs)"
    using bitmap_set_multiple_rep [OF assms(1), of k n "\<not> v"] k(4) by (auto simp: group_def)
  then have "bitmap_scan_and_flip b start n v = Some (k, b')"
    using k by (simp add: bitmap_scan_and_flip_def)
  then show ?thesis using k \<open>bitmap_rep b' _\<close> by blast
qed (simp add: bitmap_scan_and_flip_def)

section \<open>Fresh bitmaps\<close>

lemma bitmap_rep_ex:
  assumes "n < BITMAP_ERROR" and "elem_cnt n \<le> length ws"
  shows "\<exists>bs. bitmap_rep \<lparr>bit_cnt = n, bits = ws\<rparr> bs \<and> length bs = n"
  by (rule exI [of _ "map (\<lambda>i. bit (ws ! (i div ELEM_BITS)) (i mod ELEM_BITS)) [0..<n]"])
    (use assms in \<open>simp add: bitmap_rep_def\<close>)

lemma bitmap_set_all_rep:
  assumes "bitmap_rep b bs"
  shows "\<exists>b'. bitmap_set_all b v = Some b' \<and> bitmap_rep b' (replicate (length bs) v)"
proof -
  have "bit_cnt b = length bs" using assms by (simp add: bitmap_rep_def)
  then show ?thesis
    using bitmap_set_multiple_rep [OF assms, of 0 "length bs" v]
    by (simp add: bitmap_set_all_def bitmap_size_def)
qed

lemma bitmap_create_rep:
  assumes "n < BITMAP_ERROR" and "\<And>k ws. malloc_elems k = Some ws \<Longrightarrow> length ws = k"
  shows "\<exists>r. bitmap_create ok malloc_elems n = Some r \<and>
    (case r of None \<Rightarrow> \<not> ok \<or> n > 0 \<and> malloc_elems (elem_cnt n) = None
     | Some b \<Rightarrow> bitmap_rep b (replicate n False))"
proof -
  have fresh: "\<exists>b. bitmap_set_all \<lparr>bit_cnt = n, bits = ws\<rparr> False = Some b \<and> bitmap_rep b (replicate n False)"
    if "elem_cnt n \<le> length ws" for ws
    using bitmap_rep_ex [OF assms(1) that] bitmap_set_all_rep by metis
  show ?thesis
  proof (cases "malloc_elems (elem_cnt n)")
    case None
    then show ?thesis using fresh [of "[]"]
      by (cases "n = 0") (auto simp: bitmap_create_def elem_cnt_def)
  next
    case (Some ws)
    then show ?thesis using fresh [of ws] assms(2) by (auto simp: bitmap_create_def)
  qed
qed

section \<open>The allocation contract\<close>

text \<open>
  What the page allocator, the free map and the swap table rely on: an allocator hands out
  a run of slots that were free, changes nothing else, fails only when there is no such
  run, and takes back a run that is in use.
\<close>

locale slot_alloc =
  fixes good :: "'s \<Rightarrow> bool" and used :: "'s \<Rightarrow> nat set" and capacity :: "'s \<Rightarrow> nat"
    and alloc :: "nat \<Rightarrow> 's \<Rightarrow> (nat option \<times> 's) option"
    and release :: "nat \<Rightarrow> nat \<Rightarrow> 's \<Rightarrow> 's option"
  assumes alloc_law: "good s \<Longrightarrow> \<exists>r s'. alloc n s = Some (r, s') \<and> good s' \<and> capacity s' = capacity s \<and>
      (case r of
         None \<Rightarrow> used s' = used s \<and> (\<forall>i. i + n \<le> capacity s \<longrightarrow> {i..<i + n} \<inter> used s \<noteq> {})
       | Some i \<Rightarrow> i + n \<le> capacity s \<and> {i..<i + n} \<inter> used s = {} \<and>
           used s' = used s \<union> {i..<i + n} \<and> (\<forall>j < i. {j..<j + n} \<inter> used s \<noteq> {}))"
    and release_law: "good s \<Longrightarrow> i + n \<le> capacity s \<Longrightarrow>
      \<exists>s'. release i n s = Some s' \<and> good s' \<and> capacity s' = capacity s \<and> used s' = used s - {i..<i + n}"
begin

lemma alloc_SomeD:
  assumes "good s" and "alloc n s = Some (Some i, s')"
  shows "good s'" "capacity s' = capacity s" "i + n \<le> capacity s" "{i..<i + n} \<inter> used s = {}"
    "used s' = used s \<union> {i..<i + n}" "j < i \<Longrightarrow> {j..<j + n} \<inter> used s \<noteq> {}"
  using alloc_law [OF assms(1), of n] assms(2) by auto

lemma alloc_NoneD:
  assumes "good s" and "alloc n s = Some (None, s')"
  shows "good s'" "capacity s' = capacity s" "used s' = used s"
    "i + n \<le> capacity s \<Longrightarrow> {i..<i + n} \<inter> used s \<noteq> {}"
  using alloc_law [OF assms(1), of n] assms(2) by auto

lemma alloc_not_stuck: "good s \<Longrightarrow> \<exists>r s'. alloc n s = Some (r, s')"
  using alloc_law by blast

lemma alloc_release:
  assumes "good s" and "alloc n s = Some (Some i, s1)"
  shows "\<exists>s2. release i n s1 = Some s2 \<and> good s2 \<and> used s2 = used s \<and> capacity s2 = capacity s"
  using alloc_SomeD [OF assms] release_law [of s1 i n] by auto

lemma alloc_alloc_disjoint:
  assumes "good s" and "alloc n s = Some (Some i, s1)" and "alloc m s1 = Some (Some j, s2)"
  shows "{i..<i + n} \<inter> {j..<j + m} = {}" "used s2 = used s \<union> {i..<i + n} \<union> {j..<j + m}"
proof -
  note a = alloc_SomeD [OF assms(1,2)] and b = alloc_SomeD [OF alloc_SomeD(1) [OF assms(1,2)] assms(3)]
  show "{i..<i + n} \<inter> {j..<j + m} = {}" using a(5) b(4) by blast
  show "used s2 = used s \<union> {i..<i + n} \<union> {j..<j + m}" using a(5) b(5) by blast
qed

text \<open>Slots that have been released can be handed out again: no slot is lost.\<close>

lemma release_alloc:
  assumes "good s" and "i + n \<le> capacity s" and "release i n s = Some s1"
  shows "\<exists>j s2. alloc n s1 = Some (Some j, s2) \<and> j \<le> i"
proof -
  have s1: "good s1" "capacity s1 = capacity s" "used s1 = used s - {i..<i + n}"
    using release_law [OF assms(1,2)] assms(3) by auto
  obtain r s2 where r: "alloc n s1 = Some (r, s2)" using alloc_not_stuck [OF s1(1)] by blast
  have free: "{i..<i + n} \<inter> used s1 = {}" using s1(3) by auto
  show ?thesis
  proof (cases r)
    case None
    then show ?thesis using alloc_NoneD(4) [OF s1(1)] r free s1(2) assms(2) by auto
  next
    case (Some j)
    then have "\<not> i < j" using alloc_SomeD(6) [OF s1(1)] r free by blast
    then show ?thesis using Some r by (auto simp: not_less)
  qed
qed

end

text \<open>The bitmap operations behind the allocators.\<close>

definition bitmap_good :: "bitmap \<Rightarrow> bool" where
  "bitmap_good b \<longleftrightarrow> (\<exists>bs. bitmap_rep b bs)"

definition marked :: "bitmap \<Rightarrow> nat set" where
  "marked b = {i. bitmap_test b i = Some True}"

definition bitmap_alloc :: "nat \<Rightarrow> bitmap \<Rightarrow> (nat option \<times> bitmap) option" where
  "bitmap_alloc cnt b = do {
     (idx, b) \<leftarrow> bitmap_scan_and_flip b 0 cnt False;
     Some (if idx \<noteq> BITMAP_ERROR then Some idx else None, b) }"

definition bitmap_release :: "nat \<Rightarrow> nat \<Rightarrow> bitmap \<Rightarrow> bitmap option" where
  "bitmap_release idx cnt b = bitmap_set_multiple b idx cnt False"

lemma marked_rep: "bitmap_rep b bs \<Longrightarrow> marked b = {i. i < length bs \<and> bs ! i}"
proof -
  assume rep: "bitmap_rep b bs"
  have "bitmap_test b i = None" if "\<not> i < length bs" for i
    using rep that by (simp add: bitmap_test_def bitmap_rep_def)
  then have "bitmap_test b i = Some True \<longleftrightarrow> i < length bs \<and> bs ! i" for i
    using bitmap_test_rep [OF rep, of i] by (cases "i < length bs") auto
  then show ?thesis by (simp add: marked_def)
qed

lemma group_marked:
  "bitmap_rep b bs \<Longrightarrow> group bs i n False \<longleftrightarrow> i + n \<le> bit_cnt b \<and> {i..<i + n} \<inter> marked b = {}"
proof -
  assume rep: "bitmap_rep b bs"
  then have "length bs = bit_cnt b" by (simp add: bitmap_rep_def)
  then show ?thesis by (auto simp: group_def marked_rep [OF rep])
qed

lemma set_marked:
  assumes "bitmap_rep b bs" and "i + n \<le> length bs"
    and "bitmap_rep b' (take i bs @ replicate n v @ drop (i + n) bs)"
  shows "marked b' = (if v then marked b \<union> {i..<i + n} else marked b - {i..<i + n})"
  using assms(2) by (auto simp: marked_rep [OF assms(1)] marked_rep [OF assms(3)] nth_append)

interpretation bm: slot_alloc bitmap_good marked bit_cnt bitmap_alloc bitmap_release
proof
  fix b n
  assume "bitmap_good b"
  then obtain bs where rep: "bitmap_rep b bs" by (auto simp: bitmap_good_def)
  note len = rep [unfolded bitmap_rep_def, THEN conjunct1]
  show "\<exists>r s'. bitmap_alloc n b = Some (r, s') \<and> bitmap_good s' \<and> bit_cnt s' = bit_cnt b \<and>
      (case r of
         None \<Rightarrow> marked s' = marked b \<and> (\<forall>i. i + n \<le> bit_cnt b \<longrightarrow> {i..<i + n} \<inter> marked b \<noteq> {})
       | Some i \<Rightarrow> i + n \<le> bit_cnt b \<and> {i..<i + n} \<inter> marked b = {} \<and>
           marked s' = marked b \<union> {i..<i + n} \<and> (\<forall>j < i. {j..<j + n} \<inter> marked b \<noteq> {}))"
    using bitmap_scan_and_flip_rep [OF rep le0, of n False]
  proof (elim disjE exE conjE)
    fix k b'
    assume k: "bitmap_scan_and_flip b 0 n False = Some (k, b')" "k \<noteq> BITMAP_ERROR" "group bs k n False"
      "\<forall>j \<in> {0..<k}. \<not> group bs j n False"
      "bitmap_rep b' (take k bs @ replicate n (\<not> False) @ drop (k + n) bs)"
    have kn: "k + n \<le> length bs" using k(3) by (simp add: group_def)
    have "bit_cnt b' = bit_cnt b" using k(5) kn len by (simp add: bitmap_rep_def)
    moreover have "marked b' = marked b \<union> {k..<k + n}" using set_marked [OF rep kn k(5)] by simp
    moreover have "{j..<j + n} \<inter> marked b \<noteq> {}" if "j < k" for j
      using k(4) that kn len group_marked [OF rep, of j n] by auto
    ultimately show ?thesis
      using k kn len group_marked [OF rep, of k n] by (auto simp: bitmap_alloc_def bitmap_good_def)
  next
    assume "bitmap_scan_and_flip b 0 n False = Some (BITMAP_ERROR, b)"
      "\<forall>j \<ge> 0. \<not> group bs j n False"
    then show ?thesis
      using rep group_marked [OF rep] by (auto simp: bitmap_alloc_def bitmap_good_def)
  qed
next
  fix b i n
  assume "bitmap_good b" and bound: "i + n \<le> bit_cnt b"
  then obtain bs where rep: "bitmap_rep b bs" by (auto simp: bitmap_good_def)
  then have n: "i + n \<le> length bs" using bound by (simp add: bitmap_rep_def)
  obtain b' where b': "bitmap_set_multiple b i n False = Some b'"
    "bitmap_rep b' (take i bs @ replicate n False @ drop (i + n) bs)"
    using bitmap_set_multiple_rep [OF rep n] by blast
  have "bit_cnt b' = bit_cnt b" using b'(2) n rep by (simp add: bitmap_rep_def)
  then show "\<exists>s'. bitmap_release i n b = Some s' \<and> bitmap_good s' \<and> bit_cnt s' = bit_cnt b \<and>
      marked s' = marked b - {i..<i + n}"
    using b' set_marked [OF rep n b'(2)] by (auto simp: bitmap_release_def bitmap_good_def)
qed

section \<open>Properties of bitmaps\<close>

text \<open>The comment above \<^verbatim>\<open>bitmap_scan_and_flip\<close> says that a search for zero bits returns 0;
  it returns the start position.\<close>

lemma bitmap_scan_zero:
  assumes "bitmap_rep b bs" and "start \<le> length bs"
  shows "bitmap_scan b start 0 v = Some start"
proof -
  have here: "group bs start 0 v" using assms(2) by (simp add: group_def)
  show ?thesis
    using bitmap_scan_rep [OF assms, of 0 v]
  proof (elim disjE exE conjE)
    fix k
    assume k: "bitmap_scan b start 0 v = Some k" "start \<le> k" "\<forall>j \<in> {start..<k}. \<not> group bs j 0 v"
    from k(3) here have "start \<notin> {start..<k}" by blast
    then show ?thesis using k(1,2) by simp
  next
    assume "\<forall>j \<ge> start. \<not> group bs j 0 v"
    then show ?thesis using here by (meson order_refl)
  qed
qed

lemma all_less_5: "(\<forall>i < 5. P i) \<longleftrightarrow> P 0 \<and> P 1 \<and> P 2 \<and> P 3 \<and> P (4::nat)"
  by (auto simp: eval_nat_numeral less_Suc_eq)

definition sample_bitmap :: bitmap where
  "sample_bitmap = \<lparr>bit_cnt = 5, bits = [0x13]\<rparr>"

lemma sample_bitmap_rep: "bitmap_rep sample_bitmap [True, True, False, False, True]"
  by (simp add: bitmap_rep_def sample_bitmap_def BITMAP_ERROR_def elem_cnt_def all_less_5)



text \<open>\<^verbatim>\<open>bitmap_set_multiple\<close> writes exactly the bits of the range, and a following
  \<^verbatim>\<open>bitmap_count\<close> and \<^verbatim>\<open>bitmap_contains\<close> of the range read them back.\<close>

theorem bitmap_set_multiple_reads_back:
  assumes "bitmap_rep b bs" and "i + n \<le> length bs"
  shows "\<exists>b'. bitmap_set_multiple b i n v = Some b' \<and>
    bitmap_rep b' (take i bs @ replicate n v @ drop (i + n) bs) \<and>
    bitmap_count b' i n v = Some n \<and> bitmap_contains b' i n (\<not> v) = Some False \<and>
    (\<forall>j < length bs. \<not> (i \<le> j \<and> j < i + n) \<longrightarrow> bitmap_test b' j = bitmap_test b j)"
proof -
  let ?bs = "take i bs @ replicate n v @ drop (i + n) bs"
  obtain b' where b': "bitmap_set_multiple b i n v = Some b'" "bitmap_rep b' ?bs"
    using bitmap_set_multiple_rep [OF assms] by blast
  have len: "length ?bs = length bs" "i + n \<le> length ?bs" using assms(2) by auto
  have mid: "take n (drop i ?bs) = replicate n v" using assms(2) by simp
  have "bitmap_test b' j = bitmap_test b j" if "j < length bs" "\<not> (i \<le> j \<and> j < i + n)" for j
    using bitmap_test_rep [OF b'(2), of j] bitmap_test_rep [OF assms(1), of j] that len(1) assms(2)
    by (auto simp: nth_append)
  then show ?thesis
    using b' bitmap_count_rep [OF b'(2) len(2), of v] bitmap_contains_rep [OF b'(2) len(2)]
    unfolding mid by (auto simp: count_list_eq_length_filter)
qed

theorem bitmap_set_multiple_reads_back_witness:
  "\<exists>b'. bitmap_set_multiple sample_bitmap 1 3 True = Some b' \<and> bitmap_count b' 1 3 True = Some 3"
  using bitmap_set_multiple_reads_back [OF sample_bitmap_rep, of 1 3 True] by auto

end
