(* ===== verification/Hash.thy ===== *)
theory Hash
  imports KListSort
begin

text \<open>
  The kernel's hash tables, \<^verbatim>\<open>lib/kernel/hash.c\<close>, on the pointer heap of the list library:
  a table is an array of list headers, and every operation calls the list operations the C
  code calls. Abstractly a table is a set of elements no two of which are equal by the
  client's comparison; the theorems say what each operation does to that set and that
  rehashing moves elements between buckets without changing it.

  \<^verbatim>\<open>struct hash_elem\<close> has the list element as its only member, so the conversion between
  the two is the identity on addresses. \<^verbatim>\<open>malloc\<close> of a bucket array is a parameter that
  gives the headers of the new buckets, or \<open>None\<close>. The \<^verbatim>\<open>aux\<close> argument is part of the
  functions stored in the table. Element counts are natural numbers.
\<close>

section \<open>Hash functions\<close>

definition FNV_32_PRIME :: u32 where
  "FNV_32_PRIME = 16777619"

definition FNV_32_BASIS :: u32 where
  "FNV_32_BASIS = 2166136261"

definition fnv_step :: "u32 \<Rightarrow> byte \<Rightarrow> u32" where
  "fnv_step h c = (h * FNV_32_PRIME) XOR ucast c"

definition hash_bytes :: "byte list \<Rightarrow> u32" where
  "hash_bytes buf = foldl fnv_step FNV_32_BASIS buf"

text \<open>The loop of \<^verbatim>\<open>hash_string\<close> ends at the null byte; a buffer without one is read past
  its end (\<open>None\<close>).\<close>

fun hash_string_loop :: "u32 \<Rightarrow> byte list \<Rightarrow> u32 option" where
  "hash_string_loop h [] = None"
| "hash_string_loop h (c # cs) = (if c \<noteq> 0 then hash_string_loop (fnv_step h c) cs else Some h)"

definition hash_string :: "byte list \<Rightarrow> u32 option" where
  "hash_string s = hash_string_loop FNV_32_BASIS s"

text \<open>The four bytes of an \<^verbatim>\<open>int\<close>, in memory order (little endian).\<close>

definition int_bytes :: "u32 \<Rightarrow> byte list" where
  "int_bytes i = map (\<lambda>k. ucast (drop_bit (8 * k) i)) [0..<4]"

definition hash_int :: "u32 \<Rightarrow> u32" where
  "hash_int i = hash_bytes (int_bytes i)"

section \<open>The table\<close>

record hash =
  elem_cnt_of :: nat
  bucket_cnt :: nat
  buckets :: "klist list"
  hash_fn :: "addr \<Rightarrow> u32"
  less_fn :: "addr \<Rightarrow> addr \<Rightarrow> bool"

type_synonym malloc_buckets = "nat \<Rightarrow> klist list option"

definition find_bucket :: "hash \<Rightarrow> addr \<Rightarrow> klist" where
  "find_bucket t e = (let bucket_idx = unat (hash_fn t e) AND (bucket_cnt t - 1)
     in buckets t ! bucket_idx)"

partial_function (option) find_elem_loop :: "hash \<Rightarrow> links \<Rightarrow> addr \<Rightarrow> addr \<Rightarrow> addr \<Rightarrow> addr option" where
  "find_elem_loop t lk i stop e =
     (if i = stop then Some NULL
      else if \<not> less_fn t i e \<and> \<not> less_fn t e i then Some i
      else do { i \<leftarrow> list_next lk i; find_elem_loop t lk i stop e })"

definition find_elem :: "hash \<Rightarrow> links \<Rightarrow> klist \<Rightarrow> addr \<Rightarrow> addr option" where
  "find_elem t lk bucket e = find_elem_loop t lk (list_begin lk bucket) (list_end bucket) e"

definition insert_elem :: "hash \<Rightarrow> klist \<Rightarrow> addr \<Rightarrow> links \<Rightarrow> (hash \<times> links) option" where
  "insert_elem t bucket e lk = do {
     let t = t\<lparr>elem_cnt_of := elem_cnt_of t + 1\<rparr>;
     lk \<leftarrow> list_push_front bucket e lk;
     Some (t, lk) }"

definition remove_elem :: "hash \<Rightarrow> addr \<Rightarrow> links \<Rightarrow> (hash \<times> links) option" where
  "remove_elem t e lk = do {
     let t = t\<lparr>elem_cnt_of := elem_cnt_of t - 1\<rparr>;
     (_, lk) \<leftarrow> list_remove e lk;
     Some (t, lk) }"

subsection \<open>Rehashing\<close>

definition turn_off_least_1bit :: "nat \<Rightarrow> nat" where
  "turn_off_least_1bit x = x AND (x - 1)"

definition is_power_of_2 :: "nat \<Rightarrow> bool" where
  "is_power_of_2 x \<longleftrightarrow> x \<noteq> 0 \<and> turn_off_least_1bit x = 0"

abbreviation (input) BEST_ELEMS_PER_BUCKET :: nat where
  "BEST_ELEMS_PER_BUCKET \<equiv> 2"

partial_function (option) round_loop :: "nat \<Rightarrow> nat option" where
  "round_loop n = (if \<not> is_power_of_2 n then round_loop (turn_off_least_1bit n) else Some n)"

definition ideal_bucket_cnt :: "nat \<Rightarrow> nat option" where
  "ideal_bucket_cnt n = (let k = n div BEST_ELEMS_PER_BUCKET in round_loop (if k < 4 then 4 else k))"

text \<open>The inner loop moves the elements of one old bucket, the outer one runs over the old
  buckets.\<close>

partial_function (option) move_bucket :: "hash \<Rightarrow> addr \<Rightarrow> addr \<Rightarrow> links \<Rightarrow> links option" where
  "move_bucket t elem stop lk =
     (if elem = stop then Some lk
      else do {
        let new_bucket = find_bucket t elem;
        nxt \<leftarrow> list_next lk elem;
        (_, lk) \<leftarrow> list_remove elem lk;
        lk \<leftarrow> list_push_front new_bucket elem lk;
        move_bucket t nxt stop lk })"

fun move_buckets :: "hash \<Rightarrow> klist list \<Rightarrow> links \<Rightarrow> links option" where
  "move_buckets t [] lk = Some lk"
| "move_buckets t (old_bucket # rest) lk = do {
     lk \<leftarrow> move_bucket t (list_begin lk old_bucket) (list_end old_bucket) lk;
     move_buckets t rest lk }"

definition rehash :: "malloc_buckets \<Rightarrow> hash \<Rightarrow> links \<Rightarrow> (hash \<times> links) option" where
  "rehash mal t lk = do {
     let old_buckets = buckets t;
     let old_bucket_cnt = bucket_cnt t;
     new_bucket_cnt \<leftarrow> ideal_bucket_cnt (elem_cnt_of t);
     if new_bucket_cnt = old_bucket_cnt then Some (t, lk)
     else case mal new_bucket_cnt of
       None \<Rightarrow> Some (t, lk)
     | Some new_buckets \<Rightarrow> do {
         let lk = fold list_init new_buckets lk;
         let t = t\<lparr>buckets := new_buckets, bucket_cnt := new_bucket_cnt\<rparr>;
         lk \<leftarrow> move_buckets t (take old_bucket_cnt old_buckets) lk;
         Some (t, lk) } }"

subsection \<open>The operations of the interface\<close>

definition hash_insert :: "malloc_buckets \<Rightarrow> hash \<Rightarrow> addr \<Rightarrow> links \<Rightarrow> (addr \<times> hash \<times> links) option" where
  "hash_insert mal t new lk = do {
     let bucket = find_bucket t new;
     old \<leftarrow> find_elem t lk bucket new;
     (t, lk) \<leftarrow> (if old = NULL then insert_elem t bucket new lk else Some (t, lk));
     (t, lk) \<leftarrow> rehash mal t lk;
     Some (old, t, lk) }"

definition hash_replace :: "malloc_buckets \<Rightarrow> hash \<Rightarrow> addr \<Rightarrow> links \<Rightarrow> (addr \<times> hash \<times> links) option" where
  "hash_replace mal t new lk = do {
     let bucket = find_bucket t new;
     old \<leftarrow> find_elem t lk bucket new;
     (t, lk) \<leftarrow> (if old \<noteq> NULL then remove_elem t old lk else Some (t, lk));
     (t, lk) \<leftarrow> insert_elem t bucket new lk;
     (t, lk) \<leftarrow> rehash mal t lk;
     Some (old, t, lk) }"

definition hash_find :: "hash \<Rightarrow> addr \<Rightarrow> links \<Rightarrow> addr option" where
  "hash_find t e lk = find_elem t lk (find_bucket t e) e"

definition hash_delete :: "malloc_buckets \<Rightarrow> hash \<Rightarrow> addr \<Rightarrow> links \<Rightarrow> (addr \<times> hash \<times> links) option" where
  "hash_delete mal t e lk = do {
     found \<leftarrow> find_elem t lk (find_bucket t e) e;
     if found \<noteq> NULL
     then do {
       (t, lk) \<leftarrow> remove_elem t found lk;
       (t, lk) \<leftarrow> rehash mal t lk;
       Some (found, t, lk) }
     else Some (found, t, lk) }"

definition hash_size :: "hash \<Rightarrow> nat" where
  "hash_size t = elem_cnt_of t"

definition hash_empty :: "hash \<Rightarrow> bool" where
  "hash_empty t \<longleftrightarrow> elem_cnt_of t = 0"

subsection \<open>Clearing, applying and iterating\<close>

text \<open>A destructor or action changes a state of its own.\<close>

partial_function (option) drain ::
  "(addr \<Rightarrow> 's \<Rightarrow> 's) \<Rightarrow> klist \<Rightarrow> links \<Rightarrow> 's \<Rightarrow> (links \<times> 's) option" where
  "drain destructor bucket lk s =
     (if list_empty lk bucket then Some (lk, s)
      else do {
        (e, lk) \<leftarrow> list_pop_front bucket lk;
        drain destructor bucket lk (destructor e s) })"

fun clear_buckets ::
  "(addr \<Rightarrow> 's \<Rightarrow> 's) option \<Rightarrow> klist list \<Rightarrow> links \<Rightarrow> 's \<Rightarrow> (links \<times> 's) option" where
  "clear_buckets destructor [] lk s = Some (lk, s)"
| "clear_buckets destructor (bucket # rest) lk s = do {
     (lk, s) \<leftarrow> (case destructor of None \<Rightarrow> Some (lk, s) | Some d \<Rightarrow> drain d bucket lk s);
     clear_buckets destructor rest (list_init bucket lk) s }"

definition hash_clear ::
  "(addr \<Rightarrow> 's \<Rightarrow> 's) option \<Rightarrow> hash \<Rightarrow> links \<Rightarrow> 's \<Rightarrow> (hash \<times> links \<times> 's) option" where
  "hash_clear destructor t lk s = do {
     (lk, s) \<leftarrow> clear_buckets destructor (take (bucket_cnt t) (buckets t)) lk s;
     Some (t\<lparr>elem_cnt_of := 0\<rparr>, lk, s) }"

definition hash_init ::
  "malloc_buckets \<Rightarrow> (addr \<Rightarrow> u32) \<Rightarrow> (addr \<Rightarrow> addr \<Rightarrow> bool) \<Rightarrow> links \<Rightarrow> (hash option \<times> links) option" where
  "hash_init mal hf lt lk =
     (case mal 4 of
        None \<Rightarrow> Some (None, lk)
      | Some bs \<Rightarrow> do {
          (t, lk, _) \<leftarrow> hash_clear None
            \<lparr>elem_cnt_of = 0, bucket_cnt = 4, buckets = bs, hash_fn = hf, less_fn = lt\<rparr> lk ();
          Some (Some t, lk) })"

definition hash_destroy :: "(addr \<Rightarrow> 's \<Rightarrow> 's) option \<Rightarrow> hash \<Rightarrow> links \<Rightarrow> 's \<Rightarrow> (links \<times> 's) option" where
  "hash_destroy destructor t lk s =
     (if destructor \<noteq> None
      then do { (_, lk, s) \<leftarrow> hash_clear destructor t lk s; Some (lk, s) }
      else Some (lk, s))"

partial_function (option) apply_bucket ::
  "(addr \<Rightarrow> 's \<Rightarrow> 's) \<Rightarrow> addr \<Rightarrow> addr \<Rightarrow> links \<Rightarrow> 's \<Rightarrow> 's option" where
  "apply_bucket action elem stop lk s =
     (if elem = stop then Some s
      else do { nxt \<leftarrow> list_next lk elem; apply_bucket action nxt stop lk (action elem s) })"

fun apply_buckets :: "(addr \<Rightarrow> 's \<Rightarrow> 's) \<Rightarrow> klist list \<Rightarrow> links \<Rightarrow> 's \<Rightarrow> 's option" where
  "apply_buckets action [] lk s = Some s"
| "apply_buckets action (bucket # rest) lk s = do {
     s \<leftarrow> apply_bucket action (list_begin lk bucket) (list_end bucket) lk s;
     apply_buckets action rest lk s }"

definition hash_apply :: "(addr \<Rightarrow> 's \<Rightarrow> 's) \<Rightarrow> hash \<Rightarrow> links \<Rightarrow> 's \<Rightarrow> 's option" where
  "hash_apply action t lk s = apply_buckets action (take (bucket_cnt t) (buckets t)) lk s"

text \<open>An iterator holds the index of its bucket in the table's array and its element.\<close>

record hash_iterator =
  it_bucket :: nat
  it_elem :: addr

definition hash_first :: "hash \<Rightarrow> hash_iterator" where
  "hash_first t = \<lparr>it_bucket = 0, it_elem = list_head (buckets t ! 0)\<rparr>"

partial_function (option) next_bucket :: "hash \<Rightarrow> links \<Rightarrow> hash_iterator \<Rightarrow> hash_iterator option" where
  "next_bucket t lk i =
     (if it_elem i = list_end (buckets t ! it_bucket i) then
        (let i = i\<lparr>it_bucket := it_bucket i + 1\<rparr> in
         if it_bucket i \<ge> bucket_cnt t then Some (i\<lparr>it_elem := NULL\<rparr>)
         else next_bucket t lk (i\<lparr>it_elem := list_begin lk (buckets t ! it_bucket i)\<rparr>))
      else Some i)"

definition hash_next :: "hash \<Rightarrow> links \<Rightarrow> hash_iterator \<Rightarrow> hash_iterator option" where
  "hash_next t lk i = do {
     e \<leftarrow> list_next lk (it_elem i);
     next_bucket t lk (i\<lparr>it_elem := e\<rparr>) }"

definition hash_cur :: "hash_iterator \<Rightarrow> addr" where
  "hash_cur i = it_elem i"

section \<open>Several lists on one heap\<close>

text \<open>A family of lists with their elements: each is well formed and no two share a cell.\<close>

type_synonym family = "(klist \<times> addr list) list"

definition cells_of :: "family \<Rightarrow> addr list" where
  "cells_of ps = concat (map (\<lambda>p. cells (fst p) (snd p)) ps)"

definition elems :: "family \<Rightarrow> addr list" where
  "elems ps = concat (map snd ps)"

definition bucks :: "links \<Rightarrow> family \<Rightarrow> bool" where
  "bucks lk ps \<longleftrightarrow> (\<forall>p \<in> set ps. list_rep lk (fst p) (snd p)) \<and> distinct (cells_of ps)"

lemma cells_of_simps [simp]:
  "cells_of [] = []"
  "cells_of (p # ps) = cells (fst p) (snd p) @ cells_of ps"
  "cells_of (ps @ qs) = cells_of ps @ cells_of qs"
  by (simp_all add: cells_of_def)

lemma elems_simps [simp]:
  "elems [] = []" "elems (p # ps) = snd p @ elems ps" "elems (ps @ qs) = elems ps @ elems qs"
  by (simp_all add: elems_def)

lemma elems_cells: "set (elems ps) \<subseteq> set (cells_of ps)"
  by (induction ps) auto

lemma bucks_elems_distinct: "bucks lk ps \<Longrightarrow> distinct (elems ps)"
proof (induction ps)
  case (Cons p ps)
  then show ?case using elems_cells [of ps] by (auto simp: bucks_def)
qed simp

lemma bucks_rep: "bucks lk (as @ (l, xs) # bs) \<Longrightarrow> list_rep lk l xs"
  by (auto simp: bucks_def)

lemma bucks_drop: "bucks lk (as @ p # bs) \<Longrightarrow> bucks lk (as @ bs)"
  by (auto simp: bucks_def)

text \<open>An operation on one list of the family that writes only its cells and fresh ones.\<close>

lemma bucks_update:
  assumes "bucks lk (as @ (l, xs) # bs)" and "list_rep lk' l ys" and "same_outside A lk lk'"
    and "A \<inter> set (cells_of (as @ bs)) = {}" and "set ys \<inter> set (cells_of (as @ bs)) = {}"
  shows "bucks lk' (as @ (l, ys) # bs)"
proof -
  have "list_rep lk' (fst p) (snd p)" if "p \<in> set (as @ bs)" for p
  proof (rule list_rep_same_outside [OF _ assms(3)])
    show "list_rep lk (fst p) (snd p)" using assms(1) that by (auto simp: bucks_def)
    have "set (cells (fst p) (snd p)) \<subseteq> set (cells_of (as @ bs))" using that by (auto simp: cells_of_def)
    then show "A \<inter> set (cells (fst p) (snd p)) = {}" using assms(4) by blast
  qed
  moreover have "distinct (cells_of (as @ (l, ys) # bs))"
    using assms(1,2,5) by (auto simp: bucks_def list_rep_def)
  ultimately show ?thesis using assms(2) by (auto simp: bucks_def)
qed

lemma bucks_disjoint:
  "bucks lk (as @ (l, xs) # bs) \<Longrightarrow> set (cells l xs) \<inter> set (cells_of (as @ bs)) = {}"
  unfolding bucks_def by (auto simp del: cells_simps)

lemma bucks_push_front:
  assumes "bucks lk (as @ (l, xs) # bs)" and "e \<noteq> NULL" and "e \<notin> set (cells_of (as @ (l, xs) # bs))"
  shows "\<exists>lk'. list_push_front l e lk = Some lk' \<and> bucks lk' (as @ (l, e # xs) # bs)"
proof -
  obtain lk' where lk': "list_push_front l e lk = Some lk'" "list_rep lk' l (e # xs)"
    "same_outside (insert e (set (cells l xs))) lk lk'"
    using list_push_front_rep [OF bucks_rep [OF assms(1)] assms(2)] assms(3) by auto
  have "bucks lk' (as @ (l, e # xs) # bs)"
    by (rule bucks_update [OF assms(1) lk'(2,3)])
      (use bucks_disjoint [OF assms(1)] assms(3) in auto)
  then show ?thesis using lk' by blast
qed

lemma bucks_remove:
  assumes "bucks lk (as @ (l, xs @ e # ys) # bs)"
  shows "\<exists>n lk'. list_remove e lk = Some (n, lk') \<and> bucks lk' (as @ (l, xs @ ys) # bs) \<and>
    e \<noteq> NULL \<and> e \<notin> set (cells_of (as @ (l, xs @ ys) # bs))"
proof -
  obtain lk' where lk': "list_remove e lk = Some (hd (ys @ [tail l]), lk')" "list_rep lk' l (xs @ ys)"
    "same_outside (set (cells l (xs @ e # ys))) lk lk'"
    using list_remove_rep [OF bucks_rep [OF assms]] by auto
  have "bucks lk' (as @ (l, xs @ ys) # bs)"
    by (rule bucks_update [OF assms lk'(2,3)])
      (use bucks_disjoint [OF assms] in auto)
  moreover have "e \<noteq> NULL" using bucks_rep [OF assms] by (auto simp: list_rep_def)
  moreover have "e \<notin> set (cells_of (as @ (l, xs @ ys) # bs))"
    using assms by (auto simp: bucks_def)
  ultimately show ?thesis using lk' by blast
qed

text \<open>Fresh list headers: distinct, not null, and apart from a set of cells in use.\<close>

definition fresh_headers :: "klist list \<Rightarrow> addr set \<Rightarrow> bool" where
  "fresh_headers ls used \<longleftrightarrow> distinct (cells_of (map (\<lambda>l. (l, [])) ls)) \<and>
     set (cells_of (map (\<lambda>l. (l, [])) ls)) \<inter> insert NULL used = {}"

lemma list_init_same_outside: "same_outside {head l, tail l} lk (list_init l lk)"
  by (auto simp: list_init_def same_outside_def)

lemma bucks_init:
  "bucks lk ps \<Longrightarrow> fresh_headers ls (set (cells_of ps)) \<Longrightarrow>
   bucks (fold list_init ls lk) (ps @ map (\<lambda>l. (l, [])) ls)"
proof (induction ls arbitrary: lk ps)
  case (Cons l ls)
  have rep: "list_rep (list_init l lk) l []"
    using Cons.prems(2) list_init_rep [of l lk] by (auto simp: fresh_headers_def cells_def)
  have "list_rep (list_init l lk) (fst p) (snd p)" if "p \<in> set ps" for p
  proof (rule list_rep_same_outside [OF _ list_init_same_outside])
    show "list_rep lk (fst p) (snd p)" using Cons.prems(1) that by (auto simp: bucks_def)
    have "set (cells (fst p) (snd p)) \<subseteq> set (cells_of ps)" using that by (auto simp: cells_of_def)
    then show "{head l, tail l} \<inter> set (cells (fst p) (snd p)) = {}"
      using Cons.prems(2) by (auto simp: fresh_headers_def)
  qed
  then have "bucks (list_init l lk) (ps @ [(l, [])])"
    using Cons.prems rep by (auto simp: bucks_def fresh_headers_def)
  then show ?case
    using Cons.IH [of "list_init l lk" "ps @ [(l, [])]"] Cons.prems(2)
    by (auto simp: fresh_headers_def)
qed simp

section \<open>Bucket counts\<close>

lemma turn_off_less: "0 < x \<Longrightarrow> turn_off_least_1bit x < x"
  by (metis turn_off_least_1bit_def and_nat_def AND_upper2 diff_less le_less_trans less_one
      nat_int nat_le_iff of_nat_0_le_iff)

lemma bit_top: "2 ^ k \<le> n \<Longrightarrow> n < 2 ^ Suc k \<Longrightarrow> bit (n :: nat) k"
proof -
  assume "2 ^ k \<le> n" "n < 2 ^ Suc k"
  then have "n div 2 ^ k = 1" by (simp add: div_nat_eqI)
  then show ?thesis by (simp add: bit_iff_odd)
qed

lemma turn_off_ge: "2 ^ k < n \<Longrightarrow> n < 2 ^ Suc k \<Longrightarrow> 2 ^ k \<le> turn_off_least_1bit n"
proof -
  assume "2 ^ k < n" "n < 2 ^ Suc k"
  then have "bit n k" "bit (n - 1) k" using bit_top [of k n] bit_top [of k "n - 1"] by auto
  then have "bit (turn_off_least_1bit n) k" by (simp add: turn_off_least_1bit_def bit_and_iff)
  then have "odd (turn_off_least_1bit n div 2 ^ k)" by (simp add: bit_iff_odd)
  then show ?thesis by (metis div_less even_zero not_le)
qed

lemma turn_off_pow2: "turn_off_least_1bit (2 ^ k) = 0"
proof -
  have "(2::nat) ^ k AND (2 ^ k - 1) = take_bit k (2 ^ k)"
    by (simp add: take_bit_eq_mask mask_eq_exp_minus_1)
  then show ?thesis by (simp add: turn_off_least_1bit_def)
qed

lemma round_loop_pow2:
  "2 ^ k \<le> n \<Longrightarrow> n < 2 ^ Suc k \<Longrightarrow> round_loop n = Some (2 ^ k)"
proof (induction n rule: less_induct)
  case (less n)
  have pos: "0 < n" using less.prems(1) by (metis less_le_trans zero_less_numeral zero_less_power)
  show ?case
  proof (cases "n = 2 ^ k")
    case True
    then show ?thesis
      using turn_off_pow2 [of k] by (subst round_loop.simps) (simp add: is_power_of_2_def)
  next
    case False
    then have ge: "2 ^ k \<le> turn_off_least_1bit n" using turn_off_ge less.prems by simp
    then have "turn_off_least_1bit n \<noteq> 0" by (metis le_zero_eq power_not_zero zero_neq_numeral)
    then have "round_loop n = round_loop (turn_off_least_1bit n)"
      by (subst round_loop.simps) (simp add: is_power_of_2_def)
    then show ?thesis
      using less.IH [OF turn_off_less [OF pos] ge] turn_off_less [OF pos] less.prems(2) by simp
  qed
qed

lemma pow2_bracket: "0 < n \<Longrightarrow> \<exists>k. 2 ^ k \<le> (n::nat) \<and> n < 2 ^ Suc k"
proof (induction n rule: less_induct)
  case (less n)
  show ?case
  proof (cases "n = 1")
    case True
    then show ?thesis by (intro exI [of _ 0]) simp
  next
    case False
    then obtain k where "2 ^ k \<le> n div 2" "n div 2 < 2 ^ Suc k"
      using less.IH [of "n div 2"] less.prems by auto
    then show ?thesis by (intro exI [of _ "Suc k"]) auto
  qed
qed

text \<open>The bucket count is the largest power of two that is at most half the element count,
  and at least 4.\<close>

lemma ideal_bucket_cnt_spec:
  "\<exists>k. ideal_bucket_cnt n = Some (2 ^ k) \<and> 4 \<le> (2::nat) ^ k \<and> (2::nat) ^ k \<le> max 4 (n div 2) \<and>
     n div 2 < 2 ^ Suc k"
proof -
  define m where "m = (if n div 2 < 4 then 4 else n div 2)"
  have m: "4 \<le> m" by (simp add: m_def)
  then obtain k where k: "2 ^ k \<le> m" "m < 2 ^ Suc k" using pow2_bracket [of m] by auto
  have "(4::nat) \<le> 2 ^ k"
  proof (rule ccontr)
    assume "\<not> (4::nat) \<le> 2 ^ k"
    then have "(2::nat) ^ k < 2 ^ 2" by simp
    then have "k < 2" by (rule power_less_imp_less_exp [rotated]) simp
    then have "(2::nat) ^ Suc k \<le> 2 ^ 2" by (intro power_increasing) auto
    then show False using k(2) m by simp
  qed
  then show ?thesis
    using round_loop_pow2 [OF k] k by (intro exI [of _ k]) (auto simp: ideal_bucket_cnt_def m_def split: if_splits)
qed

lemma mask_index_bound: "x AND (2 ^ k - 1) < (2 ^ k :: nat)"
  by (metis mask_eq_exp_minus_1 take_bit_eq_mask take_bit_nat_less_exp)

section \<open>Well-formed tables\<close>

definition bidx :: "hash \<Rightarrow> addr \<Rightarrow> nat" where
  "bidx t e = unat (hash_fn t e) AND (bucket_cnt t - 1)"

definition placed :: "hash \<Rightarrow> family \<Rightarrow> bool" where
  "placed t ps \<longleftrightarrow> map fst ps = buckets t \<and> length ps = bucket_cnt t \<and>
     (\<exists>k. bucket_cnt t = 2 ^ k) \<and> (\<forall>i < length ps. \<forall>x \<in> set (snd (ps ! i)). bidx t x = i)"

definition hash_rep :: "hash \<Rightarrow> links \<Rightarrow> family \<Rightarrow> bool" where
  "hash_rep t lk ps \<longleftrightarrow> placed t ps \<and> bucks lk ps \<and> elem_cnt_of t = length (elems ps) \<and>
     (\<forall>x \<in> set (elems ps). \<forall>y \<in> set (elems ps). x \<noteq> y \<longrightarrow> less_fn t x y \<or> less_fn t y x)"

lemma bidx_bound: "placed t ps \<Longrightarrow> bidx t e < length ps"
  using mask_index_bound by (auto simp: placed_def bidx_def)

text \<open>A table, cut open at the bucket of an element.\<close>

lemma placed_cut:
  assumes "placed t ps"
  obtains as l xs bs where "ps = as @ (l, xs) # bs" and "find_bucket t e = l" and "length as = bidx t e"
proof -
  have b: "bidx t e < length ps" using bidx_bound [OF assms] .
  then have "ps = take (bidx t e) ps @ ps ! bidx t e # drop (Suc (bidx t e)) ps"
    by (simp add: id_take_nth_drop)
  moreover have "find_bucket t e = fst (ps ! bidx t e)"
    using assms b by (simp add: find_bucket_def bidx_def placed_def flip: nth_map)
  ultimately show thesis
    using that [of "take (bidx t e) ps" "fst (ps ! bidx t e)" "snd (ps ! bidx t e)"] b by simp
qed

lemma placed_change:
  assumes "placed t (as @ (l, xs) # bs)" and "\<And>y. y \<in> set ys \<Longrightarrow> y \<notin> set xs \<Longrightarrow> bidx t y = length as"
  shows "placed t (as @ (l, ys) # bs)"
proof -
  have "bidx t x = i" if i: "i < length (as @ (l, ys) # bs)" and x: "x \<in> set (snd ((as @ (l, ys) # bs) ! i))"
    for i x
  proof (cases "i = length as \<and> x \<notin> set xs")
    case True
    then show ?thesis using assms(2) x by simp
  next
    case False
    then have "x \<in> set (snd ((as @ (l, xs) # bs) ! i))"
      using x by (auto simp: nth_append nth_Cons split: if_splits nat.splits)
    then show ?thesis using assms(1) i by (auto simp: placed_def)
  qed
  then show ?thesis using assms(1) by (auto simp: placed_def)
qed

lemma placed_more [simp]: "placed (t\<lparr>elem_cnt_of := n\<rparr>) ps = placed t ps"
  by (simp add: placed_def bidx_def)

lemma elems_nth: "x \<in> set (elems ps) \<Longrightarrow> \<exists>i < length ps. x \<in> set (snd (ps ! i))"
  by (fastforce simp: elems_def in_set_conv_nth [of _ ps])

lemma placed_in_bucket:
  assumes "placed t ps" and "ps = as @ (l, xs) # bs" and "length as = bidx t e"
    and "x \<in> set (elems ps)" and "bidx t x = bidx t e"
  shows "x \<in> set xs"
proof -
  obtain i where i: "i < length ps" "x \<in> set (snd (ps ! i))" using elems_nth [OF assms(4)] by blast
  then have "i = length as" using assms(1,3,5) by (simp add: placed_def)
  then show ?thesis using i assms(2) by simp
qed

section \<open>Rehashing moves the elements\<close>

lemma move_bucket_rep:
  "placed t ps \<Longrightarrow> bucks lk (ps @ (o', xs) # rs) \<Longrightarrow>
   \<exists>lk' ps'. move_bucket t (hd (xs @ [tail o'])) (tail o') lk = Some lk' \<and> placed t ps' \<and>
     bucks lk' (ps' @ (o', []) # rs) \<and> mset (elems ps') = mset (elems ps) + mset xs"
proof (induction xs arbitrary: lk ps)
  case Nil
  then show ?case by (auto simp: move_bucket.simps)
next
  case (Cons x xs)
  have rep: "list_rep lk o' (x # xs)" using bucks_rep Cons.prems(2) by blast
  have x: "x \<noteq> tail o'" using rep by (auto simp: list_rep_def)
  have nx: "list_next lk x = Some (hd (xs @ [tail o']))" using list_rep_next(1) [of lk o' "[]"] rep by simp
  obtain n lk1 where r: "list_remove x lk = Some (n, lk1)" "bucks lk1 (ps @ (o', xs) # rs)"
    "x \<noteq> NULL" "x \<notin> set (cells_of (ps @ (o', xs) # rs))"
    using bucks_remove [of lk ps o' "[]" x xs rs] Cons.prems(2) by auto
  obtain as l ys bs where cut: "ps = as @ (l, ys) # bs" "find_bucket t x = l" "length as = bidx t x"
    using placed_cut [OF Cons.prems(1)] .
  have "bucks lk1 (as @ (l, ys) # (bs @ (o', xs) # rs))" using r(2) cut(1) by simp
  then obtain lk2 where p: "list_push_front l x lk1 = Some lk2"
    "bucks lk2 (as @ (l, x # ys) # (bs @ (o', xs) # rs))"
    using bucks_push_front [of lk1 as l ys "bs @ (o', xs) # rs" x] r(3,4) cut(1) by auto
  have pl: "placed t (as @ (l, x # ys) # bs)"
    by (rule placed_change [of t as l ys]) (use Cons.prems(1) cut in auto)
  have "move_bucket t (hd ((x # xs) @ [tail o'])) (tail o') lk = move_bucket t (hd (xs @ [tail o'])) (tail o') lk2"
    using x nx r(1) p(1) cut(2) by (subst move_bucket.simps) simp
  then show ?case using Cons.IH [OF pl, of lk2] p(2) cut(1) by (auto simp del: hd_append_single)
qed

lemma move_buckets_rep:
  "placed t ps \<Longrightarrow> bucks lk (ps @ rs) \<Longrightarrow>
   \<exists>lk' ps'. move_buckets t (map fst rs) lk = Some lk' \<and> placed t ps' \<and> bucks lk' ps' \<and>
     mset (elems ps') = mset (elems ps) + mset (elems rs)"
proof (induction rs arbitrary: lk ps)
  case (Cons r rs)
  obtain o' xs where r: "r = (o', xs)" by fastforce
  obtain lk1 ps1 where 1: "move_bucket t (hd (xs @ [tail o'])) (tail o') lk = Some lk1" "placed t ps1"
    "bucks lk1 (ps1 @ (o', []) # rs)" "mset (elems ps1) = mset (elems ps) + mset xs"
    using move_bucket_rep [OF Cons.prems(1)] Cons.prems(2) r by blast
  have "list_begin lk o' = hd (xs @ [tail o'])"
    using list_rep_begin bucks_rep Cons.prems(2) r by blast
  then show ?case
    using Cons.IH [OF 1(2) bucks_drop [OF 1(3)]] 1 r
    by (auto simp: list_end_def add.assoc simp del: hd_append_single)
qed auto

text \<open>What the memory allocator promises for a bucket array.\<close>

definition mal_ok :: "malloc_buckets \<Rightarrow> addr set \<Rightarrow> bool" where
  "mal_ok mal used \<longleftrightarrow> (\<forall>n ls. mal n = Some ls \<longrightarrow> length ls = n \<and> fresh_headers ls used)"

lemma mal_ok_mono: "mal_ok mal B \<Longrightarrow> A \<subseteq> B \<Longrightarrow> mal_ok mal A"
  unfolding mal_ok_def fresh_headers_def by blast

lemma elems_headers [simp]: "elems (map (\<lambda>l. (l, [])) ls) = []"
  by (induction ls) auto

lemma rehash_rep:
  assumes rep: "hash_rep t lk ps" and mal: "mal_ok mal (set (cells_of ps))"
  shows "\<exists>t' lk' ps'. rehash mal t lk = Some (t', lk') \<and> hash_rep t' lk' ps' \<and>
    mset (elems ps') = mset (elems ps) \<and> hash_fn t' = hash_fn t \<and> less_fn t' = less_fn t"
proof -
  obtain k where k: "ideal_bucket_cnt (elem_cnt_of t) = Some (2 ^ k)"
    using ideal_bucket_cnt_spec by blast
  have pl: "placed t ps" and bk: "bucks lk ps" using rep by (auto simp: hash_rep_def)
  show ?thesis
  proof (cases "2 ^ k = bucket_cnt t \<or> mal (2 ^ k) = None")
    case True
    then show ?thesis using rep k by (intro exI [of _ t] exI [of _ lk] exI [of _ ps]) (auto simp: rehash_def Let_def)
  next
    case False
    then obtain ls where ls: "mal (2 ^ k) = Some ls" "length ls = 2 ^ k" "fresh_headers ls (set (cells_of ps))"
      using mal by (auto simp: mal_ok_def)
    define ns where "ns = map (\<lambda>l. (l, [] :: addr list)) ls"
    define t1 where "t1 = t\<lparr>buckets := ls, bucket_cnt := 2 ^ k\<rparr>"
    have "placed t1 ns" using ls(2) by (auto simp: placed_def ns_def t1_def comp_def)
    moreover have "bucks (fold list_init ls lk) (ns @ ps)"
      using bucks_init [OF bk ls(3)] by (auto simp: bucks_def ns_def)
    ultimately obtain lk' ps' where m: "move_buckets t1 (map fst ps) (fold list_init ls lk) = Some lk'"
      "placed t1 ps'" "bucks lk' ps'" "mset (elems ps') = mset (elems ns) + mset (elems ps)"
      using move_buckets_rep by blast
    have same: "mset (elems ps') = mset (elems ps)" using m(4) by (simp add: ns_def)
    then have "set (elems ps') = set (elems ps)" "length (elems ps') = length (elems ps)"
      by (metis set_mset_mset, metis size_mset)
    then have "hash_rep t1 lk' ps'"
      using rep m(2,3) by (auto simp: hash_rep_def t1_def)
    moreover have "take (bucket_cnt t) (buckets t) = map fst ps"
      using pl by (metis length_map order_refl placed_def take_all)
    then have "rehash mal t lk = Some (t1, lk')"
      using False k ls(1) m(1) by (simp add: rehash_def t1_def)
    ultimately show ?thesis using same by (auto simp: t1_def)
  qed
qed

section \<open>Each operation on the set of elements\<close>

lemma find_elem_loop_rep:
  "list_rep lk l (as @ xs) \<Longrightarrow>
   find_elem_loop t lk (hd (xs @ [tail l])) (tail l) e =
     Some (case find (\<lambda>i. \<not> less_fn t i e \<and> \<not> less_fn t e i) xs of None \<Rightarrow> NULL | Some i \<Rightarrow> i)"
proof (induction xs arbitrary: as)
  case Nil
  then show ?case by (simp add: find_elem_loop.simps)
next
  case (Cons x xs)
  then have "x \<noteq> tail l" by (auto simp: list_rep_def)
  then show ?case
    using Cons.IH [of "as @ [x]"] Cons.prems list_rep_next(1) [OF Cons.prems]
    by (subst find_elem_loop.simps) simp
qed

text \<open>The search through the bucket of \<open>e\<close> decides the question for the whole table when
  equal elements have equal hash values.\<close>

lemma find_elem_rep:
  assumes "hash_rep t lk ps"
    and hf: "\<And>a b. \<not> less_fn t a b \<Longrightarrow> \<not> less_fn t b a \<Longrightarrow> hash_fn t a = hash_fn t b"
  shows "\<exists>r. find_elem t lk (find_bucket t e) e = Some r \<and>
    (r = NULL \<and> (\<forall>x \<in> set (elems ps). less_fn t x e \<or> less_fn t e x) \<or>
     r \<noteq> NULL \<and> r \<in> set (elems ps) \<and> \<not> less_fn t r e \<and> \<not> less_fn t e r)"
proof -
  have pl: "placed t ps" and bk: "bucks lk ps" using assms(1) by (auto simp: hash_rep_def)
  obtain as l xs bs where cut: "ps = as @ (l, xs) # bs" "find_bucket t e = l" "length as = bidx t e"
    using placed_cut [OF pl] .
  have rep: "list_rep lk l xs" using bk bucks_rep cut(1) by blast
  let ?r = "find (\<lambda>i. \<not> less_fn t i e \<and> \<not> less_fn t e i) xs"
  have eq: "find_elem t lk (find_bucket t e) e = Some (case ?r of None \<Rightarrow> NULL | Some i \<Rightarrow> i)"
    using find_elem_loop_rep [of lk l "[]" xs t e] rep list_rep_begin [OF rep] cut(2)
    by (simp add: find_elem_def list_end_def)
  show ?thesis
  proof (cases ?r)
    case None
    have "less_fn t x e \<or> less_fn t e x" if x: "x \<in> set (elems ps)" for x
    proof (rule ccontr)
      assume n: "\<not> (less_fn t x e \<or> less_fn t e x)"
      then have "hash_fn t x = hash_fn t e" using hf by blast
      then have "bidx t x = bidx t e" by (simp add: bidx_def)
      then have "x \<in> set xs" using placed_in_bucket [OF pl cut(1,3) x] by blast
      then show False using None n by (auto simp: find_None_iff)
    qed
    then show ?thesis using None eq by simp
  next
    case (Some i)
    then have "i \<in> set xs" "\<not> less_fn t i e" "\<not> less_fn t e i" by (auto simp: find_Some_iff)
    moreover have "i \<noteq> NULL" using rep \<open>i \<in> set xs\<close> by (auto simp: list_rep_def mem_pos)
    ultimately show ?thesis using Some eq cut(1) by auto
  qed
qed

lemma insert_elem_rep:
  assumes "hash_rep t lk ps" and "e \<noteq> NULL" and "e \<notin> set (cells_of ps)"
    and "\<forall>x \<in> set (elems ps). less_fn t x e \<or> less_fn t e x"
  shows "\<exists>lk' ps'. insert_elem t (find_bucket t e) e lk = Some (t\<lparr>elem_cnt_of := elem_cnt_of t + 1\<rparr>, lk') \<and>
    hash_rep (t\<lparr>elem_cnt_of := elem_cnt_of t + 1\<rparr>) lk' ps' \<and> set (elems ps') = insert e (set (elems ps)) \<and>
    set (cells_of ps') = insert e (set (cells_of ps))"
proof -
  have pl: "placed t ps" and bk: "bucks lk ps" using assms(1) by (auto simp: hash_rep_def)
  obtain as l xs bs where cut: "ps = as @ (l, xs) # bs" "find_bucket t e = l" "length as = bidx t e"
    using placed_cut [OF pl] .
  obtain lk' where lk': "list_push_front l e lk = Some lk'" "bucks lk' (as @ (l, e # xs) # bs)"
    using bucks_push_front [of lk as l xs bs e] bk cut(1) assms(2,3) by auto
  have "placed t (as @ (l, e # xs) # bs)"
    by (rule placed_change [of t as l xs]) (use pl cut in auto)
  then have "hash_rep (t\<lparr>elem_cnt_of := elem_cnt_of t + 1\<rparr>) lk' (as @ (l, e # xs) # bs)"
    using assms(1,4) lk'(2) cut(1) by (auto simp: hash_rep_def)
  then show ?thesis
    using lk'(1) cut by (intro exI [of _ lk'] exI [of _ "as @ (l, e # xs) # bs"]) (auto simp: insert_elem_def)
qed

lemma remove_elem_rep:
  assumes "hash_rep t lk ps" and "e \<in> set (elems ps)"
  shows "\<exists>lk' ps'. remove_elem t e lk = Some (t\<lparr>elem_cnt_of := elem_cnt_of t - 1\<rparr>, lk') \<and>
    hash_rep (t\<lparr>elem_cnt_of := elem_cnt_of t - 1\<rparr>) lk' ps' \<and> set (elems ps') = set (elems ps) - {e} \<and>
    set (cells_of ps') = set (cells_of ps) - {e}"
proof -
  have pl: "placed t ps" and bk: "bucks lk ps" using assms(1) by (auto simp: hash_rep_def)
  obtain p where "p \<in> set ps" "e \<in> set (snd p)" using assms(2) by (auto simp: elems_def)
  then obtain as l xs ys bs where cut: "ps = as @ (l, xs @ e # ys) # bs"
    by (metis split_list prod.collapse)
  obtain n lk' where lk': "list_remove e lk = Some (n, lk')" "bucks lk' (as @ (l, xs @ ys) # bs)"
    "e \<notin> set (cells_of (as @ (l, xs @ ys) # bs))"
    using bucks_remove bk cut by blast
  have "placed t (as @ (l, xs @ ys) # bs)"
    by (rule placed_change [of t as l "xs @ e # ys"]) (use pl cut in auto)
  then have "hash_rep (t\<lparr>elem_cnt_of := elem_cnt_of t - 1\<rparr>) lk' (as @ (l, xs @ ys) # bs)"
    using assms(1) lk'(2) cut by (auto simp: hash_rep_def)
  moreover have "e \<notin> set (elems (as @ (l, xs @ ys) # bs))" using lk'(3) elems_cells by blast
  ultimately show ?thesis
    using lk' cut by (intro exI [of _ lk'] exI [of _ "as @ (l, xs @ ys) # bs"]) (auto simp: remove_elem_def)
qed

text \<open>What the operations promise of a table that represents the set \<open>E\<close> before and \<open>E'\<close> after.
  Two elements are the same key when neither is less than the other.\<close>

definition same_key :: "hash \<Rightarrow> addr \<Rightarrow> addr \<Rightarrow> bool" where
  "same_key t a b \<longleftrightarrow> \<not> less_fn t a b \<and> \<not> less_fn t b a"

definition hash_respects :: "hash \<Rightarrow> bool" where
  "hash_respects t \<longleftrightarrow> (\<forall>a b. same_key t a b \<longrightarrow> hash_fn t a = hash_fn t b)"

lemma hash_find_rep:
  assumes "hash_rep t lk ps" and "hash_respects t"
  shows "\<exists>r. hash_find t e lk = Some r \<and>
    (r = NULL \<and> (\<forall>x \<in> set (elems ps). \<not> same_key t x e) \<or>
     r \<noteq> NULL \<and> r \<in> set (elems ps) \<and> same_key t r e)"
  using find_elem_rep [OF assms(1), of e] assms(2)
  unfolding hash_find_def hash_respects_def same_key_def by blast

lemma hash_size_rep: "hash_rep t lk ps \<Longrightarrow> hash_size t = card (set (elems ps))"
  using bucks_elems_distinct by (auto simp: hash_rep_def hash_size_def distinct_card)

lemma hash_empty_rep: "hash_rep t lk ps \<Longrightarrow> hash_empty t \<longleftrightarrow> set (elems ps) = {}"
  by (auto simp: hash_rep_def hash_empty_def)

lemma rehash_set_rep:
  assumes "hash_rep t lk ps" and "mal_ok mal used" and "set (cells_of ps) \<subseteq> used"
  shows "\<exists>t' lk' ps'. rehash mal t lk = Some (t', lk') \<and> hash_rep t' lk' ps' \<and>
    set (elems ps') = set (elems ps) \<and> hash_fn t' = hash_fn t \<and> less_fn t' = less_fn t"
  using rehash_rep [OF assms(1) mal_ok_mono [OF assms(2,3)]] by (metis set_mset_mset)

lemma hash_insert_rep:
  assumes rep: "hash_rep t lk ps" and hr: "hash_respects t" and e: "e \<noteq> NULL" "e \<notin> set (cells_of ps)"
    and mal: "mal_ok mal (insert e (set (cells_of ps)))"
  shows "\<exists>old t' lk' ps'. hash_insert mal t e lk = Some (old, t', lk') \<and> hash_rep t' lk' ps' \<and>
    hash_fn t' = hash_fn t \<and> less_fn t' = less_fn t \<and>
    (old = NULL \<and> (\<forall>x \<in> set (elems ps). \<not> same_key t x e) \<and> set (elems ps') = insert e (set (elems ps)) \<or>
     old \<in> set (elems ps) \<and> same_key t old e \<and> set (elems ps') = set (elems ps))"
proof -
  obtain r where r: "find_elem t lk (find_bucket t e) e = Some r"
    "r = NULL \<and> (\<forall>x \<in> set (elems ps). \<not> same_key t x e) \<or>
     r \<noteq> NULL \<and> r \<in> set (elems ps) \<and> same_key t r e"
    using hash_find_rep [OF rep hr, of e] by (auto simp: hash_find_def)
  show ?thesis
  proof (cases "r = NULL")
    case True
    then have none: "\<forall>x \<in> set (elems ps). \<not> same_key t x e" using r(2) by blast
    obtain t1 lk1 ps1 where i: "insert_elem t (find_bucket t e) e lk = Some (t1, lk1)" "hash_rep t1 lk1 ps1"
      "set (elems ps1) = insert e (set (elems ps))" "set (cells_of ps1) = insert e (set (cells_of ps))"
      "hash_fn t1 = hash_fn t" "less_fn t1 = less_fn t"
      using insert_elem_rep [OF rep e] none by (auto simp: same_key_def)
    obtain t2 lk2 ps2 where h: "rehash mal t1 lk1 = Some (t2, lk2)" "hash_rep t2 lk2 ps2"
      "set (elems ps2) = set (elems ps1)" "hash_fn t2 = hash_fn t1" "less_fn t2 = less_fn t1"
      using rehash_set_rep [OF i(2) mal] i(4) by auto
    have "hash_insert mal t e lk = Some (r, t2, lk2)"
      using r(1) i(1) h(1) True by (simp add: hash_insert_def)
    then show ?thesis using h i none True by (intro exI [of _ r] exI [of _ t2] exI [of _ lk2] exI [of _ ps2]) simp
  next
    case False
    obtain t2 lk2 ps2 where h: "rehash mal t lk = Some (t2, lk2)" "hash_rep t2 lk2 ps2"
      "set (elems ps2) = set (elems ps)" "hash_fn t2 = hash_fn t" "less_fn t2 = less_fn t"
      using rehash_set_rep [OF rep mal] by auto
    have "hash_insert mal t e lk = Some (r, t2, lk2)"
      using r(1) h(1) False by (simp add: hash_insert_def)
    then show ?thesis using h r(2) False by (intro exI [of _ r] exI [of _ t2] exI [of _ lk2] exI [of _ ps2]) simp
  qed
qed

lemma hash_delete_rep:
  assumes rep: "hash_rep t lk ps" and hr: "hash_respects t" and mal: "mal_ok mal (set (cells_of ps))"
  shows "\<exists>r t' lk' ps'. hash_delete mal t e lk = Some (r, t', lk') \<and> hash_rep t' lk' ps' \<and>
    hash_fn t' = hash_fn t \<and> less_fn t' = less_fn t \<and>
    (r = NULL \<and> (\<forall>x \<in> set (elems ps). \<not> same_key t x e) \<and> set (elems ps') = set (elems ps) \<or>
     r \<in> set (elems ps) \<and> same_key t r e \<and> set (elems ps') = set (elems ps) - {r})"
proof -
  obtain r where r: "find_elem t lk (find_bucket t e) e = Some r"
    "r = NULL \<and> (\<forall>x \<in> set (elems ps). \<not> same_key t x e) \<or>
     r \<noteq> NULL \<and> r \<in> set (elems ps) \<and> same_key t r e"
    using hash_find_rep [OF rep hr, of e] by (auto simp: hash_find_def)
  show ?thesis
  proof (cases "r = NULL")
    case True
    then have "hash_delete mal t e lk = Some (r, t, lk)" using r(1) by (simp add: hash_delete_def)
    then show ?thesis using rep r(2) True by (intro exI [of _ r] exI [of _ t] exI [of _ lk] exI [of _ ps]) simp
  next
    case False
    then have in_e: "r \<in> set (elems ps)" using r(2) by blast
    obtain t1 lk1 ps1 where i: "remove_elem t r lk = Some (t1, lk1)" "hash_rep t1 lk1 ps1"
      "set (elems ps1) = set (elems ps) - {r}" "set (cells_of ps1) \<subseteq> set (cells_of ps)"
      "hash_fn t1 = hash_fn t" "less_fn t1 = less_fn t"
      using remove_elem_rep [OF rep in_e] by auto
    obtain t2 lk2 ps2 where h: "rehash mal t1 lk1 = Some (t2, lk2)" "hash_rep t2 lk2 ps2"
      "set (elems ps2) = set (elems ps1)" "hash_fn t2 = hash_fn t1" "less_fn t2 = less_fn t1"
      using rehash_set_rep [OF i(2) mal i(4)] by auto
    have "hash_delete mal t e lk = Some (r, t2, lk2)"
      using r(1) i(1) h(1) False by (simp add: hash_delete_def)
    then show ?thesis using h i r(2) False by (intro exI [of _ r] exI [of _ t2] exI [of _ lk2] exI [of _ ps2]) simp
  qed
qed

lemma hash_rep_null: "hash_rep t lk ps \<Longrightarrow> NULL \<notin> set (elems ps)"
  by (auto simp: hash_rep_def bucks_def list_rep_def elems_def)

lemma hash_replace_rep:
  assumes rep: "hash_rep t lk ps" and hr: "hash_respects t" and e: "e \<noteq> NULL" "e \<notin> set (cells_of ps)"
    and mal: "mal_ok mal (insert e (set (cells_of ps)))"
    and trans: "\<And>a b c. same_key t a b \<Longrightarrow> same_key t b c \<Longrightarrow> same_key t a c"
  shows "\<exists>old t' lk' ps'. hash_replace mal t e lk = Some (old, t', lk') \<and> hash_rep t' lk' ps' \<and>
    hash_fn t' = hash_fn t \<and> less_fn t' = less_fn t \<and>
    (old = NULL \<and> (\<forall>x \<in> set (elems ps). \<not> same_key t x e) \<and> set (elems ps') = insert e (set (elems ps)) \<or>
     old \<in> set (elems ps) \<and> same_key t old e \<and> set (elems ps') = insert e (set (elems ps) - {old}))"
proof -
  obtain r where r: "find_elem t lk (find_bucket t e) e = Some r"
    "r = NULL \<and> (\<forall>x \<in> set (elems ps). \<not> same_key t x e) \<or>
     r \<noteq> NULL \<and> r \<in> set (elems ps) \<and> same_key t r e"
    using hash_find_rep [OF rep hr, of e] by (auto simp: hash_find_def)
  have "\<exists>t1 lk1 ps1. (if r \<noteq> NULL then remove_elem t r lk else Some (t, lk)) = Some (t1, lk1) \<and>
      hash_rep t1 lk1 ps1 \<and> set (elems ps1) = set (elems ps) - {r} \<and>
      set (cells_of ps1) \<subseteq> set (cells_of ps) \<and> hash_fn t1 = hash_fn t \<and> less_fn t1 = less_fn t \<and>
      find_bucket t1 e = find_bucket t e"
  proof (cases "r = NULL")
    case True
    then have "set (elems ps) - {r} = set (elems ps)" using hash_rep_null [OF rep] by simp
    then show ?thesis using rep True by (intro exI [of _ t] exI [of _ lk] exI [of _ ps]) simp
  next
    case False
    then have "r \<in> set (elems ps)" using r(2) by blast
    then obtain lk' ps' where "remove_elem t r lk = Some (t\<lparr>elem_cnt_of := elem_cnt_of t - 1\<rparr>, lk')"
      "hash_rep (t\<lparr>elem_cnt_of := elem_cnt_of t - 1\<rparr>) lk' ps'" "set (elems ps') = set (elems ps) - {r}"
      "set (cells_of ps') = set (cells_of ps) - {r}" using remove_elem_rep [OF rep] by blast
    then show ?thesis using False
      by (intro exI [of _ "t\<lparr>elem_cnt_of := elem_cnt_of t - 1\<rparr>"] exI [of _ lk'] exI [of _ ps'])
        (auto simp: find_bucket_def)
  qed
  then obtain t1 lk1 ps1 where 1: "(if r \<noteq> NULL then remove_elem t r lk else Some (t, lk)) = Some (t1, lk1)"
    "hash_rep t1 lk1 ps1" "set (elems ps1) = set (elems ps) - {r}" "set (cells_of ps1) \<subseteq> set (cells_of ps)"
    "hash_fn t1 = hash_fn t" "less_fn t1 = less_fn t" "find_bucket t1 e = find_bucket t e" by blast
  have none: "\<forall>x \<in> set (elems ps1). less_fn t1 x e \<or> less_fn t1 e x"
  proof
    fix x
    assume "x \<in> set (elems ps1)"
    then have x: "x \<in> set (elems ps)" "x \<noteq> r" using 1(3) by auto
    have "\<not> same_key t x e"
    proof
      assume k: "same_key t x e"
      then have "r \<in> set (elems ps)" "same_key t r e" using r(2) x(1) by auto
      then have "same_key t x r" using trans [OF k] by (auto simp: same_key_def)
      then show False using rep x \<open>r \<in> set (elems ps)\<close> by (auto simp: hash_rep_def same_key_def)
    qed
    then show "less_fn t1 x e \<or> less_fn t1 e x" using 1(6) by (auto simp: same_key_def)
  qed
  have "e \<notin> set (cells_of ps1)" using e(2) 1(4) by blast
  then obtain t2 lk2 ps2 where i: "insert_elem t1 (find_bucket t e) e lk1 = Some (t2, lk2)" "hash_rep t2 lk2 ps2"
    "set (elems ps2) = insert e (set (elems ps1))" "set (cells_of ps2) = insert e (set (cells_of ps1))"
    "hash_fn t2 = hash_fn t1" "less_fn t2 = less_fn t1"
    using insert_elem_rep [OF 1(2) e(1) _ none] 1(7) by auto
  obtain t3 lk3 ps3 where h: "rehash mal t2 lk2 = Some (t3, lk3)" "hash_rep t3 lk3 ps3"
    "set (elems ps3) = set (elems ps2)" "hash_fn t3 = hash_fn t2" "less_fn t3 = less_fn t2"
    using rehash_set_rep [OF i(2) mal] i(4) 1(4) by (metis insert_mono)
  have run: "hash_replace mal t e lk = Some (r, t3, lk3)"
    unfolding hash_replace_def Let_def r(1) bind.bind_lunit 1(1) using i(1) h(1) by simp
  have "r = NULL \<Longrightarrow> set (elems ps) - {r} = set (elems ps)"
    using hash_rep_null [OF rep] by simp
  then show ?thesis using run h i 1 r(2)
    by (intro exI [of _ r] exI [of _ t3] exI [of _ lk3] exI [of _ ps3]) auto
qed

section \<open>Clearing, applying and iterating visit every element once\<close>

lemma apply_bucket_rep:
  "list_rep lk l (as @ xs) \<Longrightarrow> apply_bucket f (hd (xs @ [tail l])) (tail l) lk s = Some (fold f xs s)"
proof (induction xs arbitrary: as s)
  case Nil
  then show ?case by (simp add: apply_bucket.simps)
next
  case (Cons x xs)
  then have "x \<noteq> tail l" by (auto simp: list_rep_def)
  then show ?case
    using Cons.IH [of "as @ [x]"] Cons.prems list_rep_next(1) [OF Cons.prems]
    by (subst apply_bucket.simps) simp
qed

lemma apply_buckets_rep:
  "bucks lk ps \<Longrightarrow> apply_buckets f (map fst ps) lk s = Some (fold f (elems ps) s)"
proof (induction ps arbitrary: s)
  case (Cons p ps)
  have rep: "list_rep lk (fst p) (snd p)" using Cons.prems by (simp add: bucks_def)
  then have "apply_bucket f (list_begin lk (fst p)) (list_end (fst p)) lk s = Some (fold f (snd p) s)"
    using apply_bucket_rep [of lk "fst p" "[]" "snd p"] list_rep_begin [OF rep]
    by (simp add: list_end_def del: hd_append_single)
  moreover have "bucks lk ps" using Cons.prems by (simp add: bucks_def)
  ultimately show ?case using Cons.IH by simp
qed simp

lemma table_buckets: "hash_rep t lk ps \<Longrightarrow> take (bucket_cnt t) (buckets t) = map fst ps"
  by (metis hash_rep_def length_map order_refl placed_def take_all)

lemma hash_apply_rep: "hash_rep t lk ps \<Longrightarrow> hash_apply f t lk s = Some (fold f (elems ps) s)"
  using apply_buckets_rep [of lk ps] table_buckets [of t lk ps]
  by (simp add: hash_apply_def) (simp add: hash_rep_def)

lemma drain_rep:
  "list_rep lk l xs \<Longrightarrow> \<exists>lk'. drain d l lk s = Some (lk', fold d xs s) \<and>
     same_outside (set (cells l xs)) lk lk'"
proof (induction xs arbitrary: lk s)
  case Nil
  then show ?case using list_rep_empty [OF Nil] by (subst drain.simps) (simp add: same_outside_def)
next
  case (Cons x xs)
  obtain lk1 where 1: "list_pop_front l lk = Some (x, lk1)" "list_rep lk1 l xs"
    "same_outside (set (cells l (x # xs))) lk lk1"
    using list_pop_front_rep [OF Cons.prems] by blast
  obtain lk2 where "drain d l lk1 (d x s) = Some (lk2, fold d xs (d x s))"
    "same_outside (set (cells l xs)) lk1 lk2" using Cons.IH [OF 1(2)] by blast
  then show ?case
    using 1 list_rep_empty [OF Cons.prems] by (subst drain.simps) (auto simp: same_outside_def)
qed

lemma clear_buckets_rep:
  "(\<forall>p \<in> set qs. list_rep lk (fst p) []) \<Longrightarrow> bucks lk ps \<Longrightarrow>
   set (cells_of qs) \<inter> set (cells_of ps) = {} \<Longrightarrow> distinct (cells_of qs) \<Longrightarrow> (\<forall>q \<in> set qs. snd q = []) \<Longrightarrow>
   \<exists>lk'. clear_buckets dst (map fst ps) lk s =
       Some (lk', case dst of None \<Rightarrow> s | Some d \<Rightarrow> fold d (elems ps) s) \<and>
     bucks lk' (qs @ map (\<lambda>p. (fst p, [])) ps)"
proof (induction ps arbitrary: lk s qs)
  case Nil
  have "s = (case dst of None \<Rightarrow> s | Some d \<Rightarrow> fold d (elems []) s)" by (cases dst) auto
  then show ?case using Nil by (auto simp: bucks_def)
next
  case (Cons p ps)
  obtain l xs where p: "p = (l, xs)" by fastforce
  have rep: "list_rep lk l xs" using Cons.prems(2) p by (simp add: bucks_def)
  have "\<exists>lk1. (case dst of None \<Rightarrow> Some (lk, s) | Some d \<Rightarrow> drain d l lk s) =
      Some (lk1, case dst of None \<Rightarrow> s | Some d \<Rightarrow> fold d xs s) \<and>
    same_outside (set (cells l xs)) lk lk1"
  proof (cases dst)
    case None
    then show ?thesis by (auto simp: same_outside_def)
  next
    case (Some d)
    then show ?thesis using drain_rep [OF rep, of d s] by simp
  qed
  then obtain lk1 where 1: "(case dst of None \<Rightarrow> Some (lk, s) | Some d \<Rightarrow> drain d l lk s) =
      Some (lk1, case dst of None \<Rightarrow> s | Some d \<Rightarrow> fold d xs s)"
    "same_outside (set (cells l xs)) lk lk1" by blast
  let ?lk = "list_init l lk1"
  have out: "same_outside (set (cells l xs)) lk ?lk"
    using 1(2) list_init_same_outside [of l lk1] by (auto simp: same_outside_def)
  have l: "list_rep ?lk l []" using rep list_init_rep [of l lk1] by (auto simp: list_rep_def)
  have keep: "list_rep ?lk (fst q) (snd q)"
    if "list_rep lk (fst q) (snd q)" "set (cells (fst q) (snd q)) \<inter> set (cells l xs) = {}" for q
    using list_rep_same_outside [OF that(1) out] that(2) by blast
  have "list_rep ?lk (fst q) (snd q)" if "q \<in> set qs" for q
  proof (rule keep)
    show "list_rep lk (fst q) (snd q)" using Cons.prems(1,5) that by auto
    have "set (cells (fst q) (snd q)) \<subseteq> set (cells_of qs)" using that by (auto simp: cells_of_def)
    then show "set (cells (fst q) (snd q)) \<inter> set (cells l xs) = {}" using Cons.prems(3) p by fastforce
  qed
  moreover have "list_rep ?lk (fst q) (snd q)" if "q \<in> set ps" for q
  proof (rule keep)
    show "list_rep lk (fst q) (snd q)" using Cons.prems(2) that by (auto simp: bucks_def)
    have "set (cells (fst q) (snd q)) \<subseteq> set (cells_of ps)" using that by (auto simp: cells_of_def)
    then show "set (cells (fst q) (snd q)) \<inter> set (cells l xs) = {}"
      using Cons.prems(2) p by (auto simp: bucks_def)
  qed
  ultimately have "\<exists>lk'. clear_buckets dst (map fst ps) ?lk (case dst of None \<Rightarrow> s | Some d \<Rightarrow> fold d xs s) =
       Some (lk', case dst of None \<Rightarrow> (case dst of None \<Rightarrow> s | Some d \<Rightarrow> fold d xs s)
         | Some d \<Rightarrow> fold d (elems ps) (case dst of None \<Rightarrow> s | Some d \<Rightarrow> fold d xs s)) \<and>
     bucks lk' ((qs @ [(l, [])]) @ map (\<lambda>p. (fst p, [])) ps)"
    using Cons.prems p l by (intro Cons.IH) (auto simp: bucks_def)
  then show ?case using 1(1) p by (cases dst) auto
qed

lemma hash_clear_rep:
  assumes "hash_rep t lk ps"
  shows "\<exists>lk'. hash_clear dst t lk s = Some (t\<lparr>elem_cnt_of := 0\<rparr>, lk',
      case dst of None \<Rightarrow> s | Some d \<Rightarrow> fold d (elems ps) s) \<and>
    hash_rep (t\<lparr>elem_cnt_of := 0\<rparr>) lk' (map (\<lambda>p. (fst p, [])) ps)"
proof -
  have el: "elems (map (\<lambda>p. (fst p, [])) ps) = []" by (induction ps) auto
  have "placed t (map (\<lambda>p. (fst p, [])) ps)"
    using assms by (auto simp: hash_rep_def placed_def comp_def)
  then show ?thesis
    using clear_buckets_rep [of "[]" lk ps dst s] assms el table_buckets [OF assms]
    by (auto simp: hash_clear_def hash_rep_def)
qed

lemma hash_init_rep:
  assumes "mal_ok mal {}"
  shows "\<exists>r lk'. hash_init mal hf lt lk = Some (r, lk') \<and>
    (case r of None \<Rightarrow> mal 4 = None
     | Some t \<Rightarrow> \<exists>ps. hash_rep t lk' ps \<and> elems ps = [] \<and> hash_fn t = hf \<and> less_fn t = lt)"
proof (cases "mal 4")
  case None
  then show ?thesis by (simp add: hash_init_def)
next
  case (Some bs)
  then have bs: "length bs = 4" "fresh_headers bs {}" using assms by (auto simp: mal_ok_def)
  let ?t = "\<lparr>elem_cnt_of = 0, bucket_cnt = 4, buckets = bs, hash_fn = hf, less_fn = lt\<rparr>"
  have clear: "clear_buckets None ls lk s = Some (fold list_init ls lk, s)" for ls and lk :: links and s :: unit
    by (induction ls arbitrary: lk) auto
  have "bucks (fold list_init bs lk) (map (\<lambda>l. (l, [])) bs)"
    using bucks_init [of lk "[]" bs] bs(2) by (simp add: bucks_def)
  moreover have "placed ?t (map (\<lambda>l. (l, [])) bs)"
    using bs(1) by (auto simp: placed_def comp_def intro: exI [of _ 2])
  ultimately have "hash_rep ?t (fold list_init bs lk) (map (\<lambda>l. (l, [])) bs)"
    by (simp add: hash_rep_def)
  moreover have "hash_init mal hf lt lk = Some (Some ?t, fold list_init bs lk)"
    using Some bs(1) by (simp add: hash_init_def hash_clear_def clear)
  ultimately show ?thesis by (auto intro: exI [of _ "map (\<lambda>l. (l, [])) bs"])
qed

text \<open>An iterator before its next step: the elements \<open>rem\<close> are still to come.\<close>

definition it_rem :: "family \<Rightarrow> hash_iterator \<Rightarrow> addr list \<Rightarrow> bool" where
  "it_rem ps i rem \<longleftrightarrow> (\<exists>as l xs ys bs. ps = as @ (l, xs @ ys) # bs \<and> it_bucket i = length as \<and>
     it_elem i = last (head l # xs) \<and> rem = ys @ elems bs)"

lemma it_rem_intro:
  "ps = as @ (l, xs @ y # ys) # bs \<Longrightarrow> it_rem ps \<lparr>it_bucket = length as, it_elem = y\<rparr> (ys @ elems bs)"
  unfolding it_rem_def
  by (intro exI [of _ as] exI [of _ l] exI [of _ "xs @ [y]"] exI [of _ ys] exI [of _ bs]) simp

lemma placed_nth: "placed t (as @ (l, xs) # bs) \<Longrightarrow> buckets t ! length as = l"
proof -
  assume "placed t (as @ (l, xs) # bs)"
  then have "buckets t = map fst as @ l # map fst bs" by (simp add: placed_def)
  then show ?thesis using nth_append_length [of "map fst as" l "map fst bs"] by simp
qed

text \<open>From a position in a bucket the search stops at the next element of the table.\<close>

lemma next_bucket_steps:
  assumes "hash_rep t lk ps"
  shows "ps = as @ (l, xs @ ys) # bs \<Longrightarrow>
   \<exists>i. next_bucket t lk \<lparr>it_bucket = length as, it_elem = hd (ys @ [tail l])\<rparr> = Some i \<and>
     (case ys @ elems bs of [] \<Rightarrow> it_elem i = NULL | x # rem \<Rightarrow> it_elem i = x \<and> it_rem ps i rem)"
proof (induction bs arbitrary: as l xs ys)
  case (Nil as l xs ys)
  have pl: "placed t ps" using assms by (simp add: hash_rep_def)
  have bk: "buckets t ! length as = l" using placed_nth pl Nil by blast
  have cnt: "bucket_cnt t = length as + 1" using pl Nil by (simp add: placed_def)
  show ?case
  proof (cases ys)
    case Nil
    then show ?thesis using bk cnt by (subst next_bucket.simps) (simp add: list_end_def)
  next
    case (Cons y ys')
    then have "y \<noteq> tail l" using assms Nil by (auto simp: hash_rep_def bucks_def list_rep_def)
    then show ?thesis using bk Cons it_rem_intro [of ps as l xs y ys' "[]"] Nil
      by (subst next_bucket.simps) (simp add: list_end_def)
  qed
next
  case (Cons b bs as l xs ys)
  have pl: "placed t ps" using assms by (simp add: hash_rep_def)
  have bk: "buckets t ! length as = l" using placed_nth pl Cons.prems by blast
  obtain l' zs where b: "b = (l', zs)" by fastforce
  have cnt: "length as + 1 < bucket_cnt t" using pl Cons.prems by (simp add: placed_def)
  have next_l: "buckets t ! (length as + 1) = l'"
    using placed_nth [of t "as @ [(l, xs @ ys)]" l' zs bs] pl Cons.prems b by simp
  have "list_rep lk l' zs" using assms Cons.prems b by (auto simp: hash_rep_def bucks_def)
  then have lb: "list_begin lk l' = hd (zs @ [tail l'])" by (rule list_rep_begin)
  show ?case
  proof (cases ys)
    case Nil
    then have "next_bucket t lk \<lparr>it_bucket = length as, it_elem = hd (ys @ [tail l])\<rparr> =
        next_bucket t lk \<lparr>it_bucket = length (as @ [(l, xs @ ys)]), it_elem = hd (zs @ [tail l'])\<rparr>"
      using bk cnt next_l lb by (subst next_bucket.simps) (simp add: list_end_def)
    then show ?thesis
      using Cons.IH [of "as @ [(l, xs @ ys)]" l' "[]" zs] Cons.prems b Nil by simp
  next
    case (Cons y ys')
    then have "y \<noteq> tail l" using assms Cons.prems by (auto simp: hash_rep_def bucks_def list_rep_def)
    then show ?thesis using bk Cons it_rem_intro [of ps as l xs y ys' "b # bs"] Cons.prems
      by (subst next_bucket.simps) (simp add: list_end_def)
  qed
qed

lemma hash_cur_fun: "hash_cur = it_elem"
  by (simp add: fun_eq_iff hash_cur_def)

lemma hash_next_rep:
  assumes rep: "hash_rep t lk ps" and it: "it_rem ps i rem"
  shows "\<exists>i'. hash_next t lk i = Some i' \<and>
    (case rem of [] \<Rightarrow> hash_cur i' = NULL | x # rem' \<Rightarrow> hash_cur i' = x \<and> it_rem ps i' rem')"
proof -
  obtain as l xs ys bs where c: "ps = as @ (l, xs @ ys) # bs" "it_bucket i = length as"
    "it_elem i = last (head l # xs)" "rem = ys @ elems bs" using it by (auto simp: it_rem_def)
  have lrep: "list_rep lk l (xs @ ys)" using rep c(1) by (auto simp: hash_rep_def bucks_def)
  have nx: "list_next lk (it_elem i) = Some (hd (ys @ [tail l]))"
  proof (cases xs rule: rev_cases)
    case Nil
    then show ?thesis using list_rep_next_head lrep c(3) by simp
  next
    case (snoc xs' x)
    then show ?thesis using list_rep_next(1) [of lk l xs' x ys] lrep c(3) by simp
  qed
  have "i\<lparr>it_elem := hd (ys @ [tail l])\<rparr> = \<lparr>it_bucket = length as, it_elem = hd (ys @ [tail l])\<rparr>"
    using c(2) by simp
  then show ?thesis
    using next_bucket_steps [OF rep c(1)] nx c(4) unfolding hash_cur_fun
    by (simp add: hash_next_def del: hd_append_single)
qed

lemma hash_first_rep: "hash_rep t lk ps \<Longrightarrow> it_rem ps (hash_first t) (elems ps)"
proof -
  assume rep: "hash_rep t lk ps"
  then have "ps \<noteq> []" by (auto simp: hash_rep_def placed_def)
  then obtain l xs bs where ps: "ps = (l, xs) # bs" by (metis list.exhaust prod.exhaust)
  have "buckets t ! 0 = l"
    using placed_nth [of t "[]" l xs bs] rep ps by (simp add: hash_rep_def)
  then show ?thesis using ps
    by (auto simp: it_rem_def hash_first_def list_head_def intro!: exI [of _ "[]"] exI [of _ l] exI [of _ xs] exI [of _ bs])
qed

text \<open>The iteration idiom of the comment: the elements seen until \<^verbatim>\<open>hash_next\<close> returns null.\<close>

partial_function (option) hash_iterate :: "hash \<Rightarrow> links \<Rightarrow> hash_iterator \<Rightarrow> addr list \<Rightarrow> addr list option" where
  "hash_iterate t lk i seen = do {
     i \<leftarrow> hash_next t lk i;
     if hash_cur i = NULL then Some seen else hash_iterate t lk i (seen @ [hash_cur i]) }"

lemma hash_iterate_rep:
  "hash_rep t lk ps \<Longrightarrow> it_rem ps i rem \<Longrightarrow> NULL \<notin> set rem \<Longrightarrow> hash_iterate t lk i seen = Some (seen @ rem)"
proof (induction rem arbitrary: i seen)
  case Nil
  then show ?case using hash_next_rep [OF Nil(1,2)] by (subst hash_iterate.simps) auto
next
  case (Cons x rem)
  then show ?case
    using hash_next_rep [OF Cons.prems(1,2)] by (subst hash_iterate.simps) auto
qed

section \<open>The client's contract\<close>

text \<open>
  A client supplies a comparison that is a strict weak order and a hash function that gives
  equal elements equal values. For such a client the table is a finite map from keys to
  elements: the laws of lookup, insertion and deletion follow.
\<close>

locale hash_client = less_func +
  fixes hf :: "addr \<Rightarrow> u32"
  assumes hf_eqv: "\<not> lt a b \<Longrightarrow> \<not> lt b a \<Longrightarrow> hf a = hf b"
begin

lemma respects: "hash_fn t = hf \<Longrightarrow> less_fn t = lt \<Longrightarrow> hash_respects t"
  using hf_eqv by (auto simp: hash_respects_def same_key_def)

lemma same_key_trans: "less_fn t = lt \<Longrightarrow> same_key t a b \<Longrightarrow> same_key t b c \<Longrightarrow> same_key t a c"
  unfolding same_key_def using neg_trans by metis

lemma same_key_sym: "same_key t a b \<Longrightarrow> same_key t b a"
  by (auto simp: same_key_def)

text \<open>What is found is the only element with the key.\<close>

lemma find_unique:
  assumes "hash_rep t lk ps" and "less_fn t = lt" and "same_key t x e" and "same_key t y e"
    and "x \<in> set (elems ps)" and "y \<in> set (elems ps)"
  shows "x = y"
proof (rule ccontr)
  assume "x \<noteq> y"
  then have "\<not> same_key t x y" using assms(1,5,6) by (auto simp: hash_rep_def same_key_def)
  then show False using same_key_trans [OF assms(2,3) same_key_sym [OF assms(4)]] by blast
qed

lemma find_present:
  assumes "hash_rep t lk ps" and "hash_fn t = hf" and "less_fn t = lt"
    and "x \<in> set (elems ps)" and "same_key t x e"
  shows "hash_find t e lk = Some x"
proof -
  obtain r where "hash_find t e lk = Some r" "r \<noteq> NULL" "r \<in> set (elems ps)" "same_key t r e"
    using hash_find_rep [OF assms(1) respects [OF assms(2,3)], of e] assms(4,5) by auto
  then show ?thesis using find_unique [OF assms(1,3) _ assms(5)] assms(4) by simp
qed

lemma find_absent:
  assumes "hash_rep t lk ps" and "hash_fn t = hf" and "less_fn t = lt"
    and "\<forall>x \<in> set (elems ps). \<not> same_key t x e"
  shows "hash_find t e lk = Some NULL"
  using hash_find_rep [OF assms(1) respects [OF assms(2,3)], of e] assms(4) by auto

text \<open>Two tables with the same elements answer every lookup alike.\<close>

lemma find_cong:
  assumes "hash_rep t lk ps" "hash_fn t = hf" "less_fn t = lt"
    and "hash_rep t' lk' ps'" "hash_fn t' = hf" "less_fn t' = lt"
    and "\<And>x. same_key t x e \<Longrightarrow> x \<in> set (elems ps) \<longleftrightarrow> x \<in> set (elems ps')"
  shows "hash_find t' e lk' = hash_find t e lk"
proof (cases "\<exists>x \<in> set (elems ps). same_key t x e")
  case True
  then obtain x where x: "x \<in> set (elems ps)" "same_key t x e" by blast
  then have "x \<in> set (elems ps')" "same_key t' x e" using assms(3,6,7) by (auto simp: same_key_def)
  then show ?thesis using find_present [OF assms(1-3)] find_present [OF assms(4-6)] x by simp
next
  case False
  then have "\<forall>x \<in> set (elems ps'). \<not> same_key t' x e" using assms(3,6,7) by (auto simp: same_key_def)
  then show ?thesis using find_absent [OF assms(1-3)] find_absent [OF assms(4-6)] False by simp
qed

lemma find_after_insert:
  assumes rep: "hash_rep t lk ps" "hash_fn t = hf" "less_fn t = lt"
    and e: "e \<noteq> NULL" "e \<notin> set (cells_of ps)" "mal_ok mal (insert e (set (cells_of ps)))"
  shows "\<exists>old t' lk' ps'. hash_insert mal t e lk = Some (old, t', lk') \<and> hash_rep t' lk' ps' \<and>
    hash_fn t' = hf \<and> less_fn t' = lt \<and> hash_find t e lk = Some old \<and>
    (\<forall>k. hash_find t' k lk' = (if same_key t e k \<and> old = NULL then Some e else hash_find t k lk))"
proof -
  obtain old t' lk' ps' where i: "hash_insert mal t e lk = Some (old, t', lk')" "hash_rep t' lk' ps'"
    "hash_fn t' = hf" "less_fn t' = lt" and cases:
    "old = NULL \<and> (\<forall>x \<in> set (elems ps). \<not> same_key t x e) \<and> set (elems ps') = insert e (set (elems ps)) \<or>
     old \<in> set (elems ps) \<and> same_key t old e \<and> set (elems ps') = set (elems ps)"
    using hash_insert_rep [OF rep(1) respects [OF rep(2,3)] e] unfolding rep(2,3) by blast
  have old: "hash_find t e lk = Some old"
    using cases find_absent [OF rep, of e] find_present [OF rep, of old e] by blast
  have "hash_find t' k lk' = (if same_key t e k \<and> old = NULL then Some e else hash_find t k lk)" for k
  proof (cases "same_key t e k \<and> old = NULL")
    case True
    then have "e \<in> set (elems ps')" using cases hash_rep_null [OF rep(1)] by auto
    moreover have "same_key t' e k" using True rep(3) i(4) by (simp add: same_key_def)
    ultimately show ?thesis using True find_present [OF i(2-4)] by simp
  next
    case False
    have "x \<in> set (elems ps) \<longleftrightarrow> x \<in> set (elems ps')" if "same_key t x k" for x
      using cases False that hash_rep_null [OF rep(1)] by auto
    then have "hash_find t' k lk' = hash_find t k lk" using find_cong [OF rep i(2-4)] by blast
    then show ?thesis using False by (simp only: if_not_P if_False)
  qed
  then show ?thesis using i old by blast
qed

lemma find_after_delete:
  assumes rep: "hash_rep t lk ps" "hash_fn t = hf" "less_fn t = lt" and mal: "mal_ok mal (set (cells_of ps))"
  shows "\<exists>r t' lk' ps'. hash_delete mal t e lk = Some (r, t', lk') \<and> hash_rep t' lk' ps' \<and>
    hash_fn t' = hf \<and> less_fn t' = lt \<and> hash_find t e lk = Some r \<and>
    (\<forall>k. hash_find t' k lk' = (if same_key t e k then Some NULL else hash_find t k lk))"
proof -
  obtain r t' lk' ps' where i: "hash_delete mal t e lk = Some (r, t', lk')" "hash_rep t' lk' ps'"
    "hash_fn t' = hf" "less_fn t' = lt" and cases:
    "r = NULL \<and> (\<forall>x \<in> set (elems ps). \<not> same_key t x e) \<and> set (elems ps') = set (elems ps) \<or>
     r \<in> set (elems ps) \<and> same_key t r e \<and> set (elems ps') = set (elems ps) - {r}"
    using hash_delete_rep [OF rep(1) respects [OF rep(2,3)] mal, of e] unfolding rep(2,3) by blast
  have r: "hash_find t e lk = Some r"
    using cases find_absent [OF rep, of e] find_present [OF rep, of r e] by blast
  have "hash_find t' k lk' = (if same_key t e k then Some NULL else hash_find t k lk)" for k
  proof (cases "same_key t e k")
    case True
    have "\<not> same_key t' x k" if "x \<in> set (elems ps')" for x
    proof
      assume "same_key t' x k"
      then have x: "same_key t x k" using rep(3) i(4) by (simp add: same_key_def)
      then have xe: "same_key t x e" using same_key_trans [OF rep(3)] same_key_sym True by blast
      then show False using cases that find_unique [OF rep(1,3) xe] by auto
    qed
    then show ?thesis using True find_absent [OF i(2-4)] by auto
  next
    case False
    have "x \<in> set (elems ps) \<longleftrightarrow> x \<in> set (elems ps')" if "same_key t x k" for x
    proof -
      have "r \<in> set (elems ps) \<Longrightarrow> same_key t r e \<Longrightarrow> x \<noteq> r"
        using that False same_key_trans [OF rep(3)] same_key_sym by blast
      then show ?thesis using cases by auto
    qed
    then have "hash_find t' k lk' = hash_find t k lk" using find_cong [OF rep i(2-4)] by blast
    then show ?thesis using False by (simp only: if_not_P if_False)
  qed
  then show ?thesis using i r by blast
qed

end

text \<open>A client whose elements carry a key word: the comparison is that of the keys.\<close>

locale keyed_client =
  fixes key :: "addr \<Rightarrow> u32" and klt :: "addr \<Rightarrow> addr \<Rightarrow> bool" and khf :: "addr \<Rightarrow> u32"
  assumes klt: "klt a b \<longleftrightarrow> key a < key b" and khf: "key a = key b \<Longrightarrow> khf a = khf b"

sublocale keyed_client \<subseteq> hc: hash_client klt khf
proof unfold_locales
  show "klt a b \<Longrightarrow> \<not> klt b a" for a b by (simp add: klt)
  show "\<not> klt a b \<Longrightarrow> \<not> klt b c \<Longrightarrow> \<not> klt a c" for a b c by (simp add: klt)
  show "\<not> klt a b \<Longrightarrow> \<not> klt b a \<Longrightarrow> khf a = khf b" for a b by (rule khf) (simp add: klt)
qed

section \<open>Properties of hash tables\<close>

text \<open>A bucket allocator and an empty table for the witnesses.\<close>

definition sample_mal :: malloc_buckets where
  "sample_mal n = Some (map (\<lambda>i. \<lparr>head = 100 + 2 * i, tail = 101 + 2 * i\<rparr>) [0..<n])"

lemma sample_mal_cells:
  "cells_of (map (\<lambda>l. (l, [])) (map (\<lambda>i. \<lparr>head = 100 + 2 * i, tail = 101 + 2 * i\<rparr>) [0..<n])) = [100..<100 + 2 * n]"
proof (induction n)
  case (Suc n)
  have "100 + 2 * Suc n = Suc (Suc (100 + 2 * n))" by simp
  then have "[100..<100 + 2 * Suc n] = [100..<100 + 2 * n] @ [100 + 2 * n, 101 + 2 * n]"
    by (simp only: upt_Suc) simp
  then show ?case using Suc by (simp add: cells_def)
qed simp

lemma sample_mal_ok: "(\<forall>a \<in> used. a < 100) \<Longrightarrow> mal_ok sample_mal used"
  unfolding mal_ok_def fresh_headers_def
  by (auto simp: sample_mal_def sample_mal_cells simp del: map_map)

definition sample_table :: "(addr \<Rightarrow> u32) \<Rightarrow> (addr \<Rightarrow> addr \<Rightarrow> bool) \<Rightarrow> hash" where
  "sample_table hf lt = \<lparr>elem_cnt_of = 0, bucket_cnt = 4, buckets = map (\<lambda>i. \<lparr>head = 10 + 2 * i, tail = 11 + 2 * i\<rparr>) [0..<4],
     hash_fn = hf, less_fn = lt\<rparr>"

definition sample_fam :: family where
  "sample_fam = [(\<lparr>head = 10, tail = 11\<rparr>, []), (\<lparr>head = 12, tail = 13\<rparr>, []),
     (\<lparr>head = 14, tail = 15\<rparr>, []), (\<lparr>head = 16, tail = 17\<rparr>, [])]"

definition sample_heap :: links where
  "sample_heap = \<lparr>nextp = (\<lambda>_. 0)(10 := 11, 12 := 13, 14 := 15, 16 := 17),
     prevp = (\<lambda>_. 0)(11 := 10, 13 := 12, 15 := 14, 17 := 16)\<rparr>"

lemma sample_fam_cells: "cells_of sample_fam = [10, 11, 12, 13, 14, 15, 16, 17]"
  by (simp add: sample_fam_def cells_def)

lemma sample_table_rep: "hash_rep (sample_table hf lt) sample_heap sample_fam"
proof -
  have "(\<exists>k. (4::nat) = 2 ^ k)" by (intro exI [of _ 2]) simp
  moreover have "map (\<lambda>i. \<lparr>head = 10 + 2 * i, tail = 11 + 2 * i\<rparr>) [0..<4] = map fst sample_fam"
    by (simp add: sample_fam_def upt_rec)
  moreover have "snd (sample_fam ! i) = []" if "i < 4" for i
    using that by (auto simp: sample_fam_def nth_Cons')
  ultimately have "placed (sample_table hf lt) sample_fam"
    by (auto simp: placed_def sample_table_def sample_fam_def)
  moreover have "bucks sample_heap sample_fam"
    unfolding bucks_def sample_fam_cells
    by (simp add: sample_fam_def list_rep_def cells_def sample_heap_def)
  ultimately show ?thesis by (simp add: hash_rep_def sample_table_def) (simp add: sample_fam_def)
qed

text \<open>C6: \<^verbatim>\<open>rehash\<close> returns a well-formed table with the same elements in which the number of
  buckets is the ideal one or, when memory is short, the old one. The ideal number is a
  power of two, at least 4, and gives at most four elements per bucket.\<close>

theorem rehash_keeps_elements:
  assumes "hash_rep t lk ps" and "mal_ok mal (set (cells_of ps))"
  shows "\<exists>t' lk' ps'. rehash mal t lk = Some (t', lk') \<and> hash_rep t' lk' ps' \<and>
    mset (elems ps') = mset (elems ps) \<and>
    (\<exists>k. ideal_bucket_cnt (elem_cnt_of t) = Some (2 ^ k) \<and> 4 \<le> (2::nat) ^ k \<and> elem_cnt_of t < 4 * 2 ^ k \<and>
      bucket_cnt t' \<in> {2 ^ k, bucket_cnt t} \<and> (mal (2 ^ k) \<noteq> None \<longrightarrow> bucket_cnt t' = 2 ^ k))"
proof -
  obtain t' lk' ps' where r: "rehash mal t lk = Some (t', lk')" "hash_rep t' lk' ps'"
    "mset (elems ps') = mset (elems ps)" using rehash_rep [OF assms] by blast
  obtain k where k: "ideal_bucket_cnt (elem_cnt_of t) = Some (2 ^ k)" "4 \<le> (2::nat) ^ k"
    "elem_cnt_of t div 2 < 2 ^ Suc k" using ideal_bucket_cnt_spec by blast
  have "elem_cnt_of t < 4 * 2 ^ k" using k(3) by simp
  moreover have "bucket_cnt t' \<in> {2 ^ k, bucket_cnt t} \<and> (mal (2 ^ k) \<noteq> None \<longrightarrow> bucket_cnt t' = 2 ^ k)"
    using r(1) k(1) by (auto simp: rehash_def Let_def split: if_splits option.splits bind_splits)
  ultimately show ?thesis using r k(1,2) by blast
qed

theorem rehash_keeps_elements_witness:
  "\<exists>t' lk' ps'. rehash sample_mal (sample_table (\<lambda>_. 0) (<)) sample_heap = Some (t', lk') \<and> hash_rep t' lk' ps' \<and>
    mset (elems ps') = {#}"
  using rehash_keeps_elements [OF sample_table_rep [of "\<lambda>_. 0" "(<)"], of sample_mal] sample_mal_ok [of "set (cells_of sample_fam)"]
  by (auto simp: sample_fam_cells) (auto simp: sample_fam_def)

text \<open>Iterating with \<^verbatim>\<open>hash_first\<close> and \<^verbatim>\<open>hash_next\<close> until a null pointer comes back, and
  \<^verbatim>\<open>hash_apply\<close>, visit every element of the table exactly once, in the same order.\<close>

theorem hash_iteration_complete:
  assumes "hash_rep t lk ps"
  shows "hash_iterate t lk (hash_first t) [] = Some (elems ps) \<and> distinct (elems ps) \<and>
    length (elems ps) = hash_size t \<and> hash_apply f t lk s = Some (fold f (elems ps) s)"
  using hash_iterate_rep [OF assms hash_first_rep [OF assms] hash_rep_null [OF assms], of "[]"]
    hash_apply_rep [OF assms, of f s] bucks_elems_distinct [of lk ps] assms
  by (simp add: hash_rep_def hash_size_def)

theorem hash_iteration_complete_witness:
  "hash_iterate (sample_table (\<lambda>_. 0) (<)) sample_heap (hash_first (sample_table (\<lambda>_. 0) (<))) [] = Some []"
  using hash_iteration_complete [OF sample_table_rep [of "\<lambda>_. 0" "(<)"], of "\<lambda>_ x. x" "()"]
  by (simp add: sample_fam_def)

end
