(* ===== verification/Palloc.thy ===== *)
theory Palloc
  imports Bitmap
begin

text \<open>
  Virtual addresses, \<^verbatim>\<open>threads/vaddr.h\<close>, and the page allocator, \<^verbatim>\<open>threads/palloc.c\<close>.
  Addresses are 32-bit words. Each pool has a bitmap with a bit per page, set when the page
  is in use. The pool's lock is not modelled: a call runs without another one in between.
  Memory is a function from addresses to bytes, written by the \<^verbatim>\<open>memset\<close> calls only.
\<close>

section \<open>Virtual addresses\<close>

definition PGSIZE :: nat where
  "PGSIZE = 4096"

definition PGMASK :: u32 where
  "PGMASK = 0xFFF"

definition PHYS_BASE :: u32 where
  "PHYS_BASE = 0xC0000000"

definition pg_ofs :: "u32 \<Rightarrow> u32" where
  "pg_ofs va = va AND PGMASK"

definition pg_no :: "u32 \<Rightarrow> u32" where
  "pg_no va = drop_bit 12 va"

definition pg_round_up :: "u32 \<Rightarrow> u32" where
  "pg_round_up va = (va + 4096 - 1) AND NOT PGMASK"

definition pg_round_down :: "u32 \<Rightarrow> u32" where
  "pg_round_down va = va AND NOT PGMASK"

definition is_user_vaddr :: "u32 \<Rightarrow> bool" where
  "is_user_vaddr vaddr \<longleftrightarrow> vaddr < PHYS_BASE"

definition is_kernel_vaddr :: "u32 \<Rightarrow> bool" where
  "is_kernel_vaddr vaddr \<longleftrightarrow> vaddr \<ge> PHYS_BASE"

definition ptov :: "u32 \<Rightarrow> u32 option" where
  "ptov paddr = do { kassert (paddr < PHYS_BASE); Some (paddr + PHYS_BASE) }"

definition vtop :: "u32 \<Rightarrow> u32 option" where
  "vtop vaddr = do { kassert (is_kernel_vaddr vaddr); Some (vaddr - PHYS_BASE) }"

lemma pg_ofs_mod: "unat (pg_ofs va) = unat va mod 4096"
proof -
  have "pg_ofs va = take_bit 12 va"
    by (simp add: pg_ofs_def PGMASK_def take_bit_eq_mask mask_eq_exp_minus_1)
  then show ?thesis by (simp add: take_bit_eq_mod unat_mod)
qed

lemma pg_no_div: "unat (pg_no va) = unat va div 4096"
  unfolding pg_no_def unat_drop_bit_eq by (simp add: drop_bit_eq_div)

lemma pg_round_down_mod: "pg_round_down va = va - pg_ofs va"
proof -
  have "(va AND NOT PGMASK) + (va AND PGMASK) = va"
    by (subst disjunctive_add) (auto simp: bit_simps bit_eq_iff)
  then show ?thesis by (simp add: pg_round_down_def pg_ofs_def algebra_simps)
qed

lemma unat_pg_round_down: "unat (pg_round_down va) = unat va div 4096 * 4096"
proof -
  have "pg_ofs va \<le> va" by (metis pg_ofs_mod mod_less_eq_dividend word_le_nat_alt)
  then have "unat (pg_round_down va) = unat va - unat va mod 4096"
    by (simp add: pg_round_down_mod unat_sub pg_ofs_mod)
  then show ?thesis by (simp add: minus_mod_eq_div_mult)
qed

lemma ptov_vtop: "paddr < 0x40000000 \<Longrightarrow> \<exists>v. ptov paddr = Some v \<and> vtop v = Some paddr"
proof -
  assume p: "paddr < 0x40000000"
  then have "unat paddr < 0x40000000" by (simp add: word_less_nat_alt)
  then have "unat (paddr + PHYS_BASE) = unat paddr + 0xC0000000"
    by (simp add: PHYS_BASE_def unat_plus_if')
  then have "PHYS_BASE \<le> paddr + PHYS_BASE" by (simp add: word_le_nat_alt PHYS_BASE_def)
  moreover have "paddr < PHYS_BASE" using p by (simp add: PHYS_BASE_def word_less_nat_alt)
  ultimately show ?thesis by (simp add: ptov_def vtop_def is_kernel_vaddr_def)
qed

section \<open>Pools\<close>

definition PAL_ASSERT :: u32 where "PAL_ASSERT = 1"
definition PAL_ZERO :: u32 where "PAL_ZERO = 2"
definition PAL_USER :: u32 where "PAL_USER = 4"

record pool =
  used_map :: bitmap
  pool_base :: u32

record phys =
  kernel_pool :: pool
  user_pool :: pool
  phys_mem :: "u32 \<Rightarrow> byte"

definition memset :: "(u32 \<Rightarrow> byte) \<Rightarrow> u32 \<Rightarrow> byte \<Rightarrow> nat \<Rightarrow> (u32 \<Rightarrow> byte)" where
  "memset mem dst value n = (\<lambda>a. if unat (a - dst) < n then value else mem a)"

definition copy_block :: "u32 \<Rightarrow> u32 \<Rightarrow> nat \<Rightarrow> (u32 \<Rightarrow> byte) \<Rightarrow> u32 \<Rightarrow> byte" where
  "copy_block dst src n mem = (\<lambda>a. if unat (a - dst) < n then mem (src + (a - dst)) else mem a)"

definition page_from_pool :: "pool \<Rightarrow> u32 \<Rightarrow> bool" where
  "page_from_pool p page = (let page_no = pg_no page; start_page = pg_no (pool_base p);
     end_page = start_page + of_nat (bitmap_size (used_map p))
     in page_no \<ge> start_page \<and> page_no < end_page)"

definition init_pool :: "u32 \<Rightarrow> nat \<Rightarrow> u32 list \<Rightarrow> pool option" where
  "init_pool base page_cnt block = do {
     let bm_pages = (bitmap_buf_size page_cnt + PGSIZE - 1) div PGSIZE;
     kassert (\<not> bm_pages > page_cnt);
     let page_cnt = page_cnt - bm_pages;
     b \<leftarrow> bitmap_create_in_buf page_cnt block (bm_pages * PGSIZE);
     Some \<lparr>used_map = b, pool_base = base + of_nat (bm_pages * PGSIZE)\<rparr> }"

text \<open>\<^verbatim>\<open>palloc_init\<close> with the number of pages of RAM; the words found in the memory that
  becomes the two bitmaps are \<open>kblock\<close> and \<open>ublock\<close>.\<close>

definition palloc_init :: "nat \<Rightarrow> nat \<Rightarrow> u32 list \<Rightarrow> u32 list \<Rightarrow> (u32 \<Rightarrow> byte) \<Rightarrow> phys option" where
  "palloc_init init_ram_pages user_page_limit kblock ublock mem = do {
     free_start \<leftarrow> ptov (1024 * 1024);
     free_end \<leftarrow> ptov (of_nat (init_ram_pages * PGSIZE));
     let free_pages = unat (free_end - free_start) div PGSIZE;
     let user_pages = free_pages div 2;
     let user_pages = (if user_pages > user_page_limit then user_page_limit else user_pages);
     let kernel_pages = free_pages - user_pages;
     k \<leftarrow> init_pool free_start kernel_pages kblock;
     u \<leftarrow> init_pool (free_start + of_nat (kernel_pages * PGSIZE)) user_pages ublock;
     Some \<lparr>kernel_pool = k, user_pool = u, phys_mem = mem\<rparr> }"

text \<open>The pool a request or a page belongs to, selected by whether it is the user pool.\<close>

definition get_pool :: "bool \<Rightarrow> phys \<Rightarrow> pool" where
  "get_pool user s = (if user then user_pool s else kernel_pool s)"

definition put_pool :: "bool \<Rightarrow> pool \<Rightarrow> phys \<Rightarrow> phys" where
  "put_pool user p s = (if user then s\<lparr>user_pool := p\<rparr> else s\<lparr>kernel_pool := p\<rparr>)"

definition palloc_get_multiple :: "u32 \<Rightarrow> nat \<Rightarrow> phys \<Rightarrow> (u32 \<times> phys) option" where
  "palloc_get_multiple flags page_cnt s = do {
     let user = (flags AND PAL_USER \<noteq> 0);
     let pool = get_pool user s;
     if page_cnt = 0 then Some (0, s)
     else do {
       (page_idx, map) \<leftarrow> bitmap_scan_and_flip (used_map pool) 0 page_cnt False;
       let s = put_pool user (pool\<lparr>used_map := map\<rparr>) s;
       let pages = (if page_idx \<noteq> BITMAP_ERROR
                    then pool_base pool + of_nat (PGSIZE * page_idx) else 0);
       if pages \<noteq> 0
       then Some (pages, if flags AND PAL_ZERO \<noteq> 0
                         then s\<lparr>phys_mem := memset (phys_mem s) pages 0 (PGSIZE * page_cnt)\<rparr> else s)
       else do { kassert (flags AND PAL_ASSERT = 0); Some (pages, s) } } }"

definition palloc_get_page :: "u32 \<Rightarrow> phys \<Rightarrow> (u32 \<times> phys) option" where
  "palloc_get_page flags s = palloc_get_multiple flags 1 s"

definition palloc_free_multiple :: "u32 \<Rightarrow> nat \<Rightarrow> phys \<Rightarrow> phys option" where
  "palloc_free_multiple pages page_cnt s = do {
     kassert (pg_ofs pages = 0);
     if pages = 0 \<or> page_cnt = 0 then Some s
     else do {
       let kernel = page_from_pool (kernel_pool s) pages;
       kassert (kernel \<or> page_from_pool (user_pool s) pages);
       let pool = get_pool (\<not> kernel) s;
       let page_idx = unat (pg_no pages - pg_no (pool_base pool));
       let s = s\<lparr>phys_mem := memset (phys_mem s) pages 0xCC (PGSIZE * page_cnt)\<rparr>;
       used \<leftarrow> bitmap_all (used_map pool) page_idx page_cnt;
       kassert used;
       map \<leftarrow> bitmap_set_multiple (used_map pool) page_idx page_cnt False;
       Some (put_pool (\<not> kernel) (pool\<lparr>used_map := map\<rparr>) s) } }"

definition palloc_free_page :: "u32 \<Rightarrow> phys \<Rightarrow> phys option" where
  "palloc_free_page page s = palloc_free_multiple page 1 s"

section \<open>Pages of a pool\<close>

definition pool_ok :: "pool \<Rightarrow> bool" where
  "pool_ok p \<longleftrightarrow> bitmap_good (used_map p) \<and> pg_ofs (pool_base p) = 0 \<and> 0 < unat (pool_base p) \<and>
     unat (pool_base p) + PGSIZE * bit_cnt (used_map p) < 2 ^ 32"

definition page_addr :: "pool \<Rightarrow> nat \<Rightarrow> u32" where
  "page_addr p i = pool_base p + of_nat (PGSIZE * i)"

lemma unat_page_addr:
  assumes "pool_ok p" and "i \<le> bit_cnt (used_map p)"
  shows "unat (page_addr p i) = unat (pool_base p) + PGSIZE * i"
proof -
  have "PGSIZE * i \<le> PGSIZE * bit_cnt (used_map p)" using assms(2) by simp
  then have "unat (pool_base p) + PGSIZE * i < 2 ^ 32" using assms(1) unfolding pool_ok_def by linarith
  then show ?thesis unfolding page_addr_def by (rule unat_add_of_nat)
qed

lemma base_aligned: "pool_ok p \<Longrightarrow> unat (pool_base p) mod 4096 = 0"
  using pg_ofs_mod [of "pool_base p"] by (simp add: pool_ok_def)

lemma page_addr_aligned:
  assumes "pool_ok p" and "i \<le> bit_cnt (used_map p)"
  shows "pg_ofs (page_addr p i) = 0" and "page_addr p i \<noteq> 0"
    and "unat (pg_no (page_addr p i)) = unat (pg_no (pool_base p)) + i"
proof -
  note a = unat_page_addr [OF assms] and b = base_aligned [OF assms(1)]
  have "unat (pg_ofs (page_addr p i)) = 0" using a b by (simp add: pg_ofs_mod PGSIZE_def mod_add_eq)
  then show "pg_ofs (page_addr p i) = 0" by (simp add: unat_eq_0)
  show "page_addr p i \<noteq> 0" using a assms(1) by (auto simp: pool_ok_def)
  show "unat (pg_no (page_addr p i)) = unat (pg_no (pool_base p)) + i"
    using a b by (simp add: pg_no_div PGSIZE_def)
qed

lemma page_from_pool_iff:
  assumes "pool_ok p"
  shows "page_from_pool p va \<longleftrightarrow>
    unat (pool_base p) \<le> unat va \<and> unat va < unat (pool_base p) + PGSIZE * bit_cnt (used_map p)"
proof -
  let ?b = "unat (pool_base p)" and ?n = "bit_cnt (used_map p)"
  obtain q where q: "?b = 4096 * q" using base_aligned [OF assms] by (rule mod_zero_obtain)
  have n: "?n < 2 ^ 32" "q + ?n < 2 ^ 32" using assms q by (auto simp: pool_ok_def PGSIZE_def)
  have nb: "unat (pg_no (pool_base p)) = q" using q by (simp add: pg_no_div)
  have ne: "unat (pg_no (pool_base p) + of_nat ?n) = q + ?n"
    using n nb unat_add_of_nat [of "pg_no (pool_base p)" ?n] by simp
  have "unat va div 4096 < q + ?n \<longleftrightarrow> unat va < 4096 * (q + ?n)"
    by (simp add: div_less_iff_less_mult mult.commute)
  moreover have "q \<le> unat va div 4096 \<longleftrightarrow> 4096 * q \<le> unat va"
    by (simp add: less_eq_div_iff_mult_less_eq mult.commute)
  ultimately show ?thesis
    unfolding page_from_pool_def Let_def bitmap_size_def word_le_nat_alt word_less_nat_alt ne nb
    by (simp add: pg_no_div q PGSIZE_def)
qed

text \<open>Both pools are well formed and do not overlap.\<close>

definition phys_ok :: "phys \<Rightarrow> bool" where
  "phys_ok s \<longleftrightarrow> pool_ok (kernel_pool s) \<and> pool_ok (user_pool s) \<and>
     (unat (pool_base (kernel_pool s)) + PGSIZE * bit_cnt (used_map (kernel_pool s)) \<le> unat (pool_base (user_pool s)) \<or>
      unat (pool_base (user_pool s)) + PGSIZE * bit_cnt (used_map (user_pool s)) \<le> unat (pool_base (kernel_pool s)))"

lemma get_put_pool [simp]:
  "get_pool u (put_pool v p s) = (if u = v then p else get_pool u s)"
  "phys_mem (put_pool v p s) = phys_mem s"
  "get_pool u (s\<lparr>phys_mem := m\<rparr>) = get_pool u s"
  by (auto simp: get_pool_def put_pool_def)

lemma phys_ok_pool: "phys_ok s \<Longrightarrow> pool_ok (get_pool u s)"
  by (simp add: phys_ok_def get_pool_def)

lemma phys_ok_put:
  "phys_ok s \<Longrightarrow> bitmap_good m \<Longrightarrow> bit_cnt m = bit_cnt (used_map (get_pool u s)) \<Longrightarrow>
   phys_ok (put_pool u ((get_pool u s)\<lparr>used_map := m\<rparr>) s)"
  by (cases u) (auto simp: phys_ok_def get_pool_def put_pool_def pool_ok_def)

lemma phys_ok_mem [simp]: "phys_ok (s\<lparr>phys_mem := m\<rparr>) = phys_ok s"
  by (simp add: phys_ok_def)

text \<open>The allocation of a page group is the bitmap allocation of its page numbers.\<close>

lemma palloc_get_alloc:
  assumes ok: "pool_ok (get_pool u s)" and u: "u = (flags AND PAL_USER \<noteq> 0)" and n: "0 < n"
    and al: "bitmap_alloc n (used_map (get_pool u s)) = Some (r, m)"
  shows "palloc_get_multiple flags n s =
    (let s' = put_pool u ((get_pool u s)\<lparr>used_map := m\<rparr>) s in
     case r of
       Some i \<Rightarrow> (let pages = page_addr (get_pool u s) i in Some (pages,
          if flags AND PAL_ZERO \<noteq> 0 then s'\<lparr>phys_mem := memset (phys_mem s) pages 0 (PGSIZE * n)\<rparr> else s'))
     | None \<Rightarrow> if flags AND PAL_ASSERT = 0 then Some (0, s') else None)"
proof -
  have good: "bitmap_good (used_map (get_pool u s))" using ok by (simp add: pool_ok_def)
  obtain idx where idx: "bitmap_scan_and_flip (used_map (get_pool u s)) 0 n False = Some (idx, m)"
    "r = (if idx \<noteq> BITMAP_ERROR then Some idx else None)"
    using al by (auto simp: bitmap_alloc_def split: bind_splits)
  show ?thesis
  proof (cases r)
    case None
    then have "idx = BITMAP_ERROR" using idx(2) by (auto split: if_splits)
    then show ?thesis using n None idx(1) u by (simp add: palloc_get_multiple_def Let_def)
  next
    case (Some i)
    then have i: "idx = i" "i \<noteq> BITMAP_ERROR" using idx(2) by (auto split: if_splits)
    have "i + n \<le> bit_cnt (used_map (get_pool u s))"
      using bm.alloc_SomeD(3) [OF good] al Some by blast
    then have "page_addr (get_pool u s) i \<noteq> 0"
      using page_addr_aligned(2) [OF ok, of i] by simp
    then show ?thesis using n Some idx(1) i u
      by (simp add: palloc_get_multiple_def Let_def page_addr_def)
  qed
qed

lemma palloc_free_release:
  assumes ok: "phys_ok s" and n: "0 < n" and bound: "i + n \<le> bit_cnt (used_map (get_pool u s))"
    and used: "{i..<i + n} \<subseteq> marked (used_map (get_pool u s))"
  shows "\<exists>m. palloc_free_multiple (page_addr (get_pool u s) i) n s =
      Some (put_pool u ((get_pool u s)\<lparr>used_map := m\<rparr>)
        (s\<lparr>phys_mem := memset (phys_mem s) (page_addr (get_pool u s) i) 0xCC (PGSIZE * n)\<rparr>)) \<and>
    bitmap_good m \<and> bit_cnt m = bit_cnt (used_map (get_pool u s)) \<and>
    marked m = marked (used_map (get_pool u s)) - {i..<i + n}"
proof -
  let ?p = "get_pool u s"
  let ?a = "page_addr ?p i"
  have pok: "pool_ok ?p" using phys_ok_pool ok by blast
  have good: "bitmap_good (used_map ?p)" using pok by (simp add: pool_ok_def)
  have i: "i < bit_cnt (used_map ?p)" using bound n by simp
  note addr = page_addr_aligned [OF pok less_imp_le [OF i]]
  have a: "unat ?a = unat (pool_base ?p) + PGSIZE * i" using unat_page_addr [OF pok] i by simp
  have lt: "PGSIZE * i < PGSIZE * bit_cnt (used_map ?p)" using i by (simp add: PGSIZE_def)
  have frm: "page_from_pool ?p ?a" using page_from_pool_iff [OF pok, of ?a] a lt by simp
  have kernel: "page_from_pool (kernel_pool s) ?a \<longleftrightarrow> \<not> u"
  proof (cases u)
    case False
    then show ?thesis using frm by (simp add: get_pool_def)
  next
    case True
    then have "unat (pool_base (user_pool s)) \<le> unat ?a"
      "unat ?a < unat (pool_base (user_pool s)) + PGSIZE * bit_cnt (used_map (user_pool s))"
      using a lt by (simp_all add: get_pool_def)
    moreover have "pool_ok (kernel_pool s)" using ok by (simp add: phys_ok_def)
    ultimately show ?thesis
      using True ok page_from_pool_iff [of "kernel_pool s" ?a] by (auto simp: phys_ok_def)
  qed
  have "pg_no (pool_base ?p) \<le> pg_no ?a" using addr(3) by (simp add: word_le_nat_alt)
  then have idx: "unat (pg_no ?a - pg_no (pool_base ?p)) = i" using addr(3) by (simp add: unat_sub)
  obtain bs where rep: "bitmap_rep (used_map ?p) bs" using good by (auto simp: bitmap_good_def)
  then have len: "i + n \<le> length bs" using bound by (simp add: bitmap_rep_def)
  have "False \<notin> set (take n (drop i bs))"
  proof
    assume "False \<in> set (take n (drop i bs))"
    then obtain k where "k < n" "\<not> bs ! (i + k)" using len by (auto simp: in_set_conv_nth)
    moreover have "i + k \<in> marked (used_map ?p)" using used \<open>k < n\<close> by auto
    ultimately show False by (simp add: marked_rep [OF rep])
  qed
  then have all: "bitmap_all (used_map ?p) i n = Some True"
    using bitmap_contains_rep [OF rep len] by (simp add: bitmap_all_def)
  obtain m where m: "bitmap_set_multiple (used_map ?p) i n False = Some m" "bitmap_good m"
    "bit_cnt m = bit_cnt (used_map ?p)" "marked m = marked (used_map ?p) - {i..<i + n}"
    using bm.release_law [OF good bound] by (auto simp: bitmap_release_def)
  have sel: "page_from_pool (user_pool s) ?a \<or> \<not> u"
    using frm by (cases u) (auto simp: get_pool_def)
  have "palloc_free_multiple ?a n s =
      Some (put_pool u (?p\<lparr>used_map := m\<rparr>) (s\<lparr>phys_mem := memset (phys_mem s) ?a 0xCC (PGSIZE * n)\<rparr>))"
    using addr(1,2) n kernel sel idx all m(1)
    by (cases u) (simp_all add: palloc_free_multiple_def Let_def)
  then show ?thesis using m by blast
qed

section \<open>Properties of the page allocator\<close>

text \<open>C21: \<^verbatim>\<open>palloc_get_multiple\<close> returns the lowest run of pages of the chosen pool that are
  all free, page-aligned and not null, marks exactly those pages, and writes only their
  bytes (zeros, if \<^verbatim>\<open>PAL_ZERO\<close> is given). When there is no such run it returns null and
  changes nothing the allocator tracks, or panics if \<^verbatim>\<open>PAL_ASSERT\<close> is given.\<close>

theorem palloc_get_multiple_fresh:
  fixes flags :: u32 and s :: phys and n :: nat
  assumes ok: "phys_ok s" and n: "0 < n"
  defines "u \<equiv> flags AND PAL_USER \<noteq> 0"
  defines "p \<equiv> get_pool u s"
  shows "(\<exists>i s'. palloc_get_multiple flags n s = Some (page_addr p i, s') \<and>
       pg_ofs (page_addr p i) = 0 \<and> page_addr p i \<noteq> 0 \<and>
       i + n \<le> bit_cnt (used_map p) \<and> {i..<i + n} \<inter> marked (used_map p) = {} \<and>
       (\<forall>j < i. {j..<j + n} \<inter> marked (used_map p) \<noteq> {}) \<and>
       marked (used_map (get_pool u s')) = marked (used_map p) \<union> {i..<i + n} \<and>
       get_pool (\<not> u) s' = get_pool (\<not> u) s \<and> phys_ok s' \<and>
       phys_mem s' = (if flags AND PAL_ZERO \<noteq> 0 then memset (phys_mem s) (page_addr p i) 0 (PGSIZE * n)
                      else phys_mem s)) \<or>
    (\<forall>i. i + n \<le> bit_cnt (used_map p) \<longrightarrow> {i..<i + n} \<inter> marked (used_map p) \<noteq> {}) \<and>
    (if flags AND PAL_ASSERT = 0
     then \<exists>s'. palloc_get_multiple flags n s = Some (0, s') \<and> phys_ok s' \<and> phys_mem s' = phys_mem s \<and>
       marked (used_map (get_pool u s')) = marked (used_map p) \<and> get_pool (\<not> u) s' = get_pool (\<not> u) s
     else palloc_get_multiple flags n s = None)"
proof -
  have pok: "pool_ok p" using phys_ok_pool ok by (simp add: p_def)
  have good: "bitmap_good (used_map p)" using pok by (simp add: pool_ok_def)
  obtain r m where al: "bitmap_alloc n (used_map p) = Some (r, m)" using bm.alloc_not_stuck [OF good] by blast
  note run = palloc_get_alloc [OF pok [unfolded p_def] u_def [THEN meta_eq_to_obj_eq] n al [unfolded p_def]]
  let ?s' = "put_pool u (p\<lparr>used_map := m\<rparr>) s"
  show ?thesis
  proof (cases r)
    case None
    note m = bm.alloc_NoneD [OF good al [unfolded None]]
    have "phys_ok ?s'" using phys_ok_put [OF ok m(1), of u] m(2) by (simp add: p_def)
    then show ?thesis using run None m by (auto simp: p_def Let_def)
  next
    case (Some i)
    note m = bm.alloc_SomeD [OF good al [unfolded Some]]
    have "phys_ok ?s'" using phys_ok_put [OF ok m(1), of u] m(2) by (simp add: p_def)
    moreover have "pg_ofs (page_addr p i) = 0" "page_addr p i \<noteq> 0"
      using page_addr_aligned(1,2) [OF pok, of i] m(3) by auto
    ultimately show ?thesis using run Some m
      by (intro disjI1 exI [of _ i] exI [of _ "if flags AND PAL_ZERO \<noteq> 0
            then ?s'\<lparr>phys_mem := memset (phys_mem s) (page_addr p i) 0 (PGSIZE * n)\<rparr> else ?s'"])
        (auto simp: p_def Let_def)
  qed
qed

definition sample_pool :: "u32 \<Rightarrow> pool" where
  "sample_pool base = \<lparr>used_map = sample_bitmap, pool_base = base\<rparr>"

definition sample_phys :: phys where
  "sample_phys = \<lparr>kernel_pool = sample_pool 0xC0100000, user_pool = sample_pool 0xC0200000, phys_mem = (\<lambda>_. 7)\<rparr>"

lemma sample_bitmap_good: "bitmap_good sample_bitmap"
  using sample_bitmap_rep by (auto simp: bitmap_good_def)

lemma sample_phys_ok: "phys_ok sample_phys"
  using sample_bitmap_good
  by (simp add: phys_ok_def pool_ok_def sample_phys_def sample_pool_def pg_ofs_def PGMASK_def PGSIZE_def
      sample_bitmap_def)

theorem palloc_get_multiple_fresh_witness:
  "\<exists>a s'. palloc_get_multiple 0 2 sample_phys = Some (a, s') \<and> pg_ofs a = 0"
  using palloc_get_multiple_fresh [OF sample_phys_ok, of 2 0]
  by (auto simp: pg_ofs_def)

text \<open>\<^verbatim>\<open>palloc_free_multiple\<close> of pages obtained from \<^verbatim>\<open>palloc_get_multiple\<close> returns, and
  makes the set of pages in use what it was before, in both pools: no page leaks. The
  freed bytes read \<^verbatim>\<open>0xcc\<close>, and no other byte changes.\<close>

theorem palloc_free_undoes_get:
  assumes ok: "phys_ok s" and n: "0 < n"
    and get: "palloc_get_multiple flags n s = Some (a, s1)" and a: "a \<noteq> 0"
  shows "\<exists>s2. palloc_free_multiple a n s1 = Some s2 \<and> phys_ok s2 \<and>
    (\<forall>u. marked (used_map (get_pool u s2)) = marked (used_map (get_pool u s))) \<and>
    phys_mem s2 = memset (phys_mem s1) a 0xCC (PGSIZE * n)"
proof -
  define u where "u = (flags AND PAL_USER \<noteq> 0)"
  let ?p = "get_pool u s"
  have pok: "pool_ok ?p" using phys_ok_pool ok by blast
  have good: "bitmap_good (used_map ?p)" using pok by (simp add: pool_ok_def)
  obtain r m where al: "bitmap_alloc n (used_map ?p) = Some (r, m)" using bm.alloc_not_stuck [OF good] by blast
  note run = palloc_get_alloc [OF pok u_def n al]
  obtain i where i: "r = Some i" using run get a by (cases r) (auto simp: Let_def split: if_splits)
  note m = bm.alloc_SomeD [OF good al [unfolded i]]
  have s1: "get_pool u s1 = ?p\<lparr>used_map := m\<rparr>" "get_pool (\<not> u) s1 = get_pool (\<not> u) s"
    "a = page_addr ?p i" "phys_ok s1"
    using run get i phys_ok_put [OF ok m(1), of u] m(2) by (auto simp: Let_def split: if_splits)
  have pa: "page_addr (get_pool u s1) i = a" using s1(1,3) by (simp add: page_addr_def)
  obtain m2 where m2: "palloc_free_multiple a n s1 = Some (put_pool u ((get_pool u s1)\<lparr>used_map := m2\<rparr>)
        (s1\<lparr>phys_mem := memset (phys_mem s1) a 0xCC (PGSIZE * n)\<rparr>))"
    "bitmap_good m2" "bit_cnt m2 = bit_cnt (used_map (get_pool u s1))"
    "marked m2 = marked (used_map (get_pool u s1)) - {i..<i + n}"
    using palloc_free_release [OF s1(4) n, of i u] s1(1) m pa by auto
  have same: "marked m2 = marked (used_map ?p)" using m2(4) s1(1) m(4,5) by auto
  let ?s2 = "put_pool u ((get_pool u s1)\<lparr>used_map := m2\<rparr>)
        (s1\<lparr>phys_mem := memset (phys_mem s1) a 0xCC (PGSIZE * n)\<rparr>)"
  have "marked (used_map (get_pool v ?s2)) = marked (used_map (get_pool v s))" for v
  proof (cases "v = u")
    case True
    then show ?thesis using same by simp
  next
    case False
    then have "v = (\<not> u)" by blast
    then show ?thesis using s1(2) by simp
  qed
  then show ?thesis
    using m2(1) phys_ok_put [of "s1\<lparr>phys_mem := memset (phys_mem s1) a 0xCC (PGSIZE * n)\<rparr>" m2 u] s1(4) m2(2,3)
    by simp
qed

theorem palloc_free_undoes_get_witness:
  "\<exists>a s1 s2. palloc_get_multiple 0 2 sample_phys = Some (a, s1) \<and> palloc_free_multiple a 2 s1 = Some s2 \<and>
     phys_ok s2"
proof -
  have good: "bitmap_good (used_map (get_pool False sample_phys))"
    using sample_bitmap_good by (simp add: get_pool_def sample_phys_def sample_pool_def)
  obtain r m where al: "bitmap_alloc 2 (used_map (get_pool False sample_phys)) = Some (r, m)"
    using bm.alloc_not_stuck [OF good] by blast
  have "{2..<2 + 2} = {2, 3 :: nat}" by auto
  then have free: "{2..<2 + 2} \<inter> marked (used_map (get_pool False sample_phys)) = {}"
    by (simp add: get_pool_def sample_phys_def sample_pool_def marked_rep [OF sample_bitmap_rep])
  then obtain i where r: "r = Some i"
    using bm.alloc_NoneD(4) [OF good, of 2 m 2] al
    by (cases r) (auto simp: get_pool_def sample_phys_def sample_pool_def sample_bitmap_def)
  have pok: "pool_ok (get_pool False sample_phys)" using phys_ok_pool sample_phys_ok by blast
  have "i + 2 \<le> bit_cnt (used_map (get_pool False sample_phys))"
    using bm.alloc_SomeD(3) [OF good] al r by blast
  then have nz: "page_addr (get_pool False sample_phys) i \<noteq> 0"
    using page_addr_aligned(2) [OF pok, of i] by simp
  obtain s1 where get: "palloc_get_multiple 0 2 sample_phys = Some (page_addr (get_pool False sample_phys) i, s1)"
    using palloc_get_alloc [OF pok, of 0 2 r m] al r by (simp add: Let_def)
  show ?thesis
    using palloc_free_undoes_get [OF sample_phys_ok _ get nz] get by auto
qed

end
