(* ===== verification/Block.thy ===== *)
theory Block
  imports Prelude
begin

text \<open>
  Block devices, \<^verbatim>\<open>devices/block.c\<close>, and what their users rely on. A device holds the
  contents of its sectors; the driver behind \<^verbatim>\<open>ops\<close> (the IDE driver or a partition) is
  represented by this store. The type of a sector's contents is left open. The locale
  \<open>sector_store\<close> states the contract of anything that stores sectors; block devices are
  the first instance, the buffer cache is another one.
\<close>

section \<open>The contract of a sector store\<close>

locale sector_store =
  fixes ok :: "'s \<Rightarrow> bool" and valid :: "'s \<Rightarrow> nat \<Rightarrow> bool" and content :: "'s \<Rightarrow> nat \<Rightarrow> 'c"
    and rd :: "nat \<Rightarrow> 's \<Rightarrow> ('c \<times> 's) option" and wr :: "nat \<Rightarrow> 'c \<Rightarrow> 's \<Rightarrow> 's option"
  assumes rd_law: "ok s \<Longrightarrow> valid s k \<Longrightarrow>
      \<exists>s'. rd k s = Some (content s k, s') \<and> ok s' \<and> content s' = content s \<and> valid s' = valid s"
    and wr_law: "ok s \<Longrightarrow> valid s k \<Longrightarrow>
      \<exists>s'. wr k c s = Some s' \<and> ok s' \<and> content s' = (content s)(k := c) \<and> valid s' = valid s"
begin

lemma read_after_write:
  assumes "ok s" and "valid s k"
  shows "\<exists>s1 s2. wr k c s = Some s1 \<and> rd k s1 = Some (c, s2)"
  using wr_law [OF assms, of c] rd_law assms(2) by (metis fun_upd_same)

text \<open>Runs of sectors: a loop that writes, or reads, consecutive sectors.\<close>

fun wr_run :: "nat \<Rightarrow> 'c list \<Rightarrow> 's \<Rightarrow> 's option" where
  "wr_run k [] s = Some s"
| "wr_run k (c # cs) s = do { s \<leftarrow> wr k c s; wr_run (k + 1) cs s }"

fun rd_run :: "nat \<Rightarrow> nat \<Rightarrow> 's \<Rightarrow> ('c list \<times> 's) option" where
  "rd_run k 0 s = Some ([], s)"
| "rd_run k (Suc n) s = do {
     (c, s) \<leftarrow> rd k s;
     (cs, s) \<leftarrow> rd_run (k + 1) n s;
     Some (c # cs, s) }"

lemma rd_run_law:
  "ok s \<Longrightarrow> (\<forall>i \<in> {k..<k + n}. valid s i) \<Longrightarrow>
   \<exists>s'. rd_run k n s = Some (map (content s) [k..<k + n], s') \<and> ok s' \<and> content s' = content s \<and>
     valid s' = valid s"
proof (induction n arbitrary: k s)
  case (Suc n)
  obtain s1 where 1: "rd k s = Some (content s k, s1)" "ok s1" "content s1 = content s" "valid s1 = valid s"
    using rd_law [OF Suc.prems(1), of k] Suc.prems(2) by auto
  have "\<forall>i \<in> {Suc k..<Suc k + n}. valid s1 i" using Suc.prems(2) 1(4) by auto
  then obtain s2 where "rd_run (Suc k) n s1 = Some (map (content s) [Suc k..<Suc k + n], s2)" "ok s2"
    "content s2 = content s" "valid s2 = valid s"
    using Suc.IH [OF 1(2), of "Suc k"] 1(3,4) by auto
  moreover have "[k..<k + Suc n] = k # [Suc k..<Suc k + n]" by (simp add: upt_conv_Cons del: upt_Suc)
  ultimately show ?case using 1 by (simp del: upt_Suc)
qed simp

lemma wr_run_law:
  "ok s \<Longrightarrow> (\<forall>i \<in> {k..<k + length cs}. valid s i) \<Longrightarrow>
   \<exists>s'. wr_run k cs s = Some s' \<and> ok s' \<and> valid s' = valid s \<and>
     content s' = (\<lambda>i. if k \<le> i \<and> i < k + length cs then cs ! (i - k) else content s i)"
proof (induction cs arbitrary: k s)
  case Nil
  then show ?case by (auto simp: fun_eq_iff)
next
  case (Cons c cs)
  obtain s1 where 1: "wr k c s = Some s1" "ok s1" "content s1 = (content s)(k := c)" "valid s1 = valid s"
    using wr_law [OF Cons.prems(1), of k c] Cons.prems(2) by auto
  have "\<forall>i \<in> {Suc k..<Suc k + length cs}. valid s1 i" using Cons.prems(2) 1(4) by auto
  then obtain s2 where 2: "wr_run (Suc k) cs s1 = Some s2" "ok s2" "valid s2 = valid s"
    "content s2 = (\<lambda>i. if Suc k \<le> i \<and> i < Suc k + length cs then cs ! (i - Suc k) else content s1 i)"
    using Cons.IH [OF 1(2), of "Suc k"] 1(4) by auto
  have "content s2 = (\<lambda>i. if k \<le> i \<and> i < k + length (c # cs) then (c # cs) ! (i - k) else content s i)"
    unfolding 2(4) 1(3) by (rule ext) (auto simp: nth_Cons' Suc_diff_le)
  then show ?case using 1(1) 2(1-3) by simp
qed

lemma run_roundtrip:
  assumes "ok s" and "\<forall>i \<in> {k..<k + length cs}. valid s i"
  shows "\<exists>s1 s2. wr_run k cs s = Some s1 \<and> rd_run k (length cs) s1 = Some (cs, s2) \<and>
    ok s2 \<and> content s2 = content s1 \<and> valid s2 = valid s"
proof -
  obtain s1 where 1: "wr_run k cs s = Some s1" "ok s1" "valid s1 = valid s"
    "content s1 = (\<lambda>i. if k \<le> i \<and> i < k + length cs then cs ! (i - k) else content s i)"
    using wr_run_law [OF assms] by blast
  have "map (content s1) [k..<k + length cs] = cs" unfolding 1(4) by (rule nth_equalityI) auto
  then show ?thesis using rd_run_law [OF 1(2), of k "length cs"] assms(2) 1 by auto
qed

end

section \<open>Block devices\<close>

datatype block_type = BLOCK_KERNEL | BLOCK_FILESYS | BLOCK_SCRATCH | BLOCK_SWAP | BLOCK_RAW | BLOCK_FOREIGN

record 'c block =
  block_kind :: block_type
  block_sectors :: nat
  block_data :: "nat \<Rightarrow> 'c"
  read_cnt :: nat
  write_cnt :: nat

definition check_sector :: "'c block \<Rightarrow> nat \<Rightarrow> unit option" where
  "check_sector b sector = kassert (\<not> sector \<ge> block_sectors b)"

definition block_read :: "nat \<Rightarrow> 'c block \<Rightarrow> ('c \<times> 'c block) option" where
  "block_read sector b = do {
     check_sector b sector;
     Some (block_data b sector, b\<lparr>read_cnt := read_cnt b + 1\<rparr>) }"

definition block_write :: "nat \<Rightarrow> 'c \<Rightarrow> 'c block \<Rightarrow> 'c block option" where
  "block_write sector buffer b = do {
     check_sector b sector;
     kassert (block_kind b \<noteq> BLOCK_FOREIGN);
     Some (b\<lparr>block_data := (block_data b)(sector := buffer), write_cnt := write_cnt b + 1\<rparr>) }"

definition block_size :: "'c block \<Rightarrow> nat" where
  "block_size b = block_sectors b"

text \<open>The table of roles; only the first four types are roles.\<close>

fun is_role :: "block_type \<Rightarrow> bool" where
  "is_role BLOCK_RAW = False"
| "is_role BLOCK_FOREIGN = False"
| "is_role _ = True"

definition block_get_role :: "(block_type \<Rightarrow> 'd option) \<Rightarrow> block_type \<Rightarrow> 'd option option" where
  "block_get_role by_role role = do { kassert (is_role role); Some (by_role role) }"

definition block_set_role ::
  "block_type \<Rightarrow> 'd option \<Rightarrow> (block_type \<Rightarrow> 'd option) \<Rightarrow> (block_type \<Rightarrow> 'd option) option" where
  "block_set_role role d by_role = do { kassert (is_role role); Some (by_role(role := d)) }"

definition block_ok :: "'c block \<Rightarrow> bool" where
  "block_ok b \<longleftrightarrow> block_kind b \<noteq> BLOCK_FOREIGN"

definition block_valid :: "'c block \<Rightarrow> nat \<Rightarrow> bool" where
  "block_valid b k \<longleftrightarrow> k < block_sectors b"

interpretation blk: sector_store block_ok block_valid block_data block_read block_write
  by unfold_locales
    (auto simp: block_ok_def block_valid_def block_read_def block_write_def check_sector_def fun_eq_iff)

lemma block_run_keeps:
  "blk.wr_run k cs b = Some b' \<Longrightarrow> block_kind b' = block_kind b \<and> block_sectors b' = block_sectors b"
proof (induction cs arbitrary: k b)
  case (Cons c cs)
  then obtain b1 where b1: "block_write k c b = Some b1" "blk.wr_run (k + 1) cs b1 = Some b'"
    by (auto split: bind_splits)
  then have "block_kind b1 = block_kind b" "block_sectors b1 = block_sectors b"
    by (auto simp: block_write_def kassert_bind_Some_iff check_sector_def)
  then show ?case using Cons.IH [OF b1(2)] by simp
qed simp

lemma block_rd_run_keeps:
  "blk.rd_run k n b = Some (cs, b') \<Longrightarrow> block_kind b' = block_kind b \<and> block_sectors b' = block_sectors b"
proof (induction n arbitrary: k b cs)
  case (Suc n)
  then obtain c b1 cs' where b1: "block_read k b = Some (c, b1)" "blk.rd_run (k + 1) n b1 = Some (cs', b')"
    by (auto split: bind_splits)
  then have "block_kind b1 = block_kind b" "block_sectors b1 = block_sectors b"
    by (auto simp: block_read_def kassert_bind_Some_iff check_sector_def)
  then show ?case using Suc.IH [OF b1(2)] by simp
qed simp

end
