(* ===== verification/Swap.thy ===== *)
theory Swap
  imports Bitmap Block Palloc
begin

text \<open>
  The swap table, \<^verbatim>\<open>vm/swap.c\<close>: the swap device is divided into slots of
  \<^verbatim>\<open>SECTORS_PER_PAGE\<close> sectors, and a bitmap says which slots are available. A page is given
  by its kernel address, which the code checks, and by its contents, one value per sector.
\<close>

definition SECTORS_PER_PAGE :: nat where
  "SECTORS_PER_PAGE = 8"

record 'c swap =
  swap_block :: "'c block"
  swap_available :: bitmap
  swap_size :: nat

text \<open>\<^verbatim>\<open>vm_swap_init\<close> with the result of \<^verbatim>\<open>block_get_role (BLOCK_SWAP)\<close> and the memory
  allocator of the bitmap. A null bitmap fails the assertion in \<^verbatim>\<open>bitmap_set_all\<close>.\<close>

definition vm_swap_init :: "bool \<Rightarrow> (nat \<Rightarrow> u32 list option) \<Rightarrow> 'c block option \<Rightarrow> 'c swap option" where
  "vm_swap_init struct_ok malloc_elems dev = do {
     kassert (SECTORS_PER_PAGE > 0);
     b \<leftarrow> dev;
     let n = block_size b div SECTORS_PER_PAGE;
     m \<leftarrow> bitmap_create struct_ok malloc_elems n;
     m \<leftarrow> m;
     m \<leftarrow> bitmap_set_all m True;
     Some \<lparr>swap_block = b, swap_available = m, swap_size = n\<rparr> }"

text \<open>The sector number is computed in 32 bits.\<close>

definition slot_sector :: "nat \<Rightarrow> nat \<Rightarrow> nat" where
  "slot_sector idx i = (idx * SECTORS_PER_PAGE + i) mod 2 ^ 32"

text \<open>The loops over the sectors of a slot, from the \<open>i\<close>-th on.\<close>

fun write_slot :: "nat \<Rightarrow> nat \<Rightarrow> 'c list \<Rightarrow> 'c block \<Rightarrow> 'c block option" where
  "write_slot idx i [] b = Some b"
| "write_slot idx i (c # cs) b = do {
     b \<leftarrow> block_write (slot_sector idx i) c b;
     write_slot idx (i + 1) cs b }"

fun read_slot :: "nat \<Rightarrow> nat \<Rightarrow> nat \<Rightarrow> 'c block \<Rightarrow> ('c list \<times> 'c block) option" where
  "read_slot idx i 0 b = Some ([], b)"
| "read_slot idx i (Suc n) b = do {
     (c, b) \<leftarrow> block_read (slot_sector idx i) b;
     (cs, b) \<leftarrow> read_slot idx (i + 1) n b;
     Some (c # cs, b) }"

definition vm_swap_out :: "u32 \<Rightarrow> 'c list \<Rightarrow> 'c swap \<Rightarrow> (nat \<times> 'c swap) option" where
  "vm_swap_out page contents s = do {
     kassert (page \<ge> PHYS_BASE);
     swap_index \<leftarrow> bitmap_scan (swap_available s) 0 1 True;
     b \<leftarrow> write_slot swap_index 0 (take SECTORS_PER_PAGE contents) (swap_block s);
     m \<leftarrow> bitmap_set (swap_available s) swap_index False;
     Some (swap_index, s\<lparr>swap_block := b, swap_available := m\<rparr>) }"

definition vm_swap_in :: "nat \<Rightarrow> u32 \<Rightarrow> 'c swap \<Rightarrow> ('c list \<times> 'c swap) option" where
  "vm_swap_in swap_index page s = do {
     kassert (page \<ge> PHYS_BASE);
     kassert (swap_index < swap_size s);
     free \<leftarrow> bitmap_test (swap_available s) swap_index;
     kassert (\<not> free);
     (contents, b) \<leftarrow> read_slot swap_index 0 SECTORS_PER_PAGE (swap_block s);
     m \<leftarrow> bitmap_set (swap_available s) swap_index True;
     Some (contents, s\<lparr>swap_block := b, swap_available := m\<rparr>) }"

definition vm_swap_free :: "nat \<Rightarrow> 'c swap \<Rightarrow> 'c swap option" where
  "vm_swap_free swap_index s = do {
     kassert (swap_index < swap_size s);
     free \<leftarrow> bitmap_test (swap_available s) swap_index;
     kassert (\<not> free);
     m \<leftarrow> bitmap_set (swap_available s) swap_index True;
     Some (s\<lparr>swap_available := m\<rparr>) }"

section \<open>The slots of a well-formed swap table\<close>

definition swap_ok :: "'c swap \<Rightarrow> bool" where
  "swap_ok s \<longleftrightarrow> block_ok (swap_block s) \<and> bitmap_good (swap_available s) \<and>
     bit_cnt (swap_available s) = swap_size s \<and>
     swap_size s * SECTORS_PER_PAGE \<le> block_sectors (swap_block s) \<and>
     block_sectors (swap_block s) \<le> 2 ^ 32 - SECTORS_PER_PAGE"

definition slot_data :: "'c swap \<Rightarrow> nat \<Rightarrow> 'c list" where
  "slot_data s k = map (block_data (swap_block s)) [k * SECTORS_PER_PAGE..<k * SECTORS_PER_PAGE + SECTORS_PER_PAGE]"

text \<open>The slots in use.\<close>

definition slots :: "'c swap \<Rightarrow> nat set" where
  "slots s = {k. k < swap_size s \<and> k \<notin> marked (swap_available s)}"

lemma write_slot_run:
  "idx * 8 + i + length cs \<le> 2 ^ 32 \<Longrightarrow> write_slot idx i cs b = blk.wr_run (idx * 8 + i) cs b"
proof (induction cs arbitrary: i b)
  case (Cons c cs)
  have "slot_sector idx i = idx * 8 + i" using Cons.prems by (simp add: slot_sector_def SECTORS_PER_PAGE_def)
  moreover have "write_slot idx (i + 1) cs = blk.wr_run (idx * 8 + i + 1) cs"
    using Cons.IH [of "i + 1"] Cons.prems by (simp add: fun_eq_iff add.assoc)
  ultimately show ?case by simp
qed simp

lemma read_slot_run:
  fixes b :: "'c block"
  shows "idx * 8 + i + n \<le> 2 ^ 32 \<Longrightarrow> read_slot idx i n b = blk.rd_run (idx * 8 + i) n b"
proof (induction n arbitrary: i b)
  case (Suc n)
  have "slot_sector idx i = idx * 8 + i" using Suc.prems by (simp add: slot_sector_def SECTORS_PER_PAGE_def)
  moreover have "(read_slot idx (i + 1) n :: 'c block \<Rightarrow> _) = blk.rd_run (idx * 8 + i + 1) n"
    using Suc.IH [of "i + 1"] Suc.prems by (simp add: fun_eq_iff add.assoc)
  ultimately show ?case by simp
qed simp

lemma bitmap_set_marked:
  assumes "bitmap_good b" and "i < bit_cnt b"
  shows "\<exists>b'. bitmap_set b i v = Some b' \<and> bitmap_good b' \<and> bit_cnt b' = bit_cnt b \<and>
    marked b' = (if v then insert i (marked b) else marked b - {i})"
proof -
  obtain bs where rep: "bitmap_rep b bs" using assms(1) by (auto simp: bitmap_good_def)
  then have len: "i < length bs" using assms(2) by (simp add: bitmap_rep_def)
  obtain b' where b': "bitmap_set b i v = Some b'" "bitmap_rep b' (bs[i := v])"
    using bitmap_set_rep [OF rep len] by blast
  have "marked b' = (if v then insert i (marked b) else marked b - {i})"
    using len by (auto simp: marked_rep [OF rep] marked_rep [OF b'(2)] nth_list_update)
  moreover have "bit_cnt b' = bit_cnt b" using b'(2) rep by (simp add: bitmap_rep_def)
  ultimately show ?thesis using b' unfolding bitmap_good_def by blast
qed

lemma bitmap_test_marked:
  assumes "bitmap_good b" and "i < bit_cnt b"
  shows "bitmap_test b i = Some (i \<in> marked b)"
proof -
  obtain bs where rep: "bitmap_rep b bs" using assms(1) by (auto simp: bitmap_good_def)
  then show ?thesis using assms(2) bitmap_test_rep [OF rep, of i]
    by (simp add: marked_rep [OF rep]) (simp add: bitmap_rep_def)
qed

lemma slot_bound: "swap_ok s \<Longrightarrow> k < swap_size s \<Longrightarrow> k * 8 + 8 \<le> block_sectors (swap_block s)"
  by (simp add: swap_ok_def SECTORS_PER_PAGE_def)

lemma slot_apart:
  assumes "a \<noteq> (b :: nat)" and "i < 8"
  shows "\<not> (b * 8 \<le> a * 8 + i \<and> a * 8 + i < b * 8 + 8)"
  using assms by linarith

text \<open>Swapping out: the lowest available slot is taken, or, with none left, the write past
  the end of the device stops the kernel.\<close>

lemma vm_swap_out_spec:
  assumes ok: "swap_ok s" and page: "page \<ge> PHYS_BASE" and len: "length c = SECTORS_PER_PAGE"
  shows "(\<exists>k s'. vm_swap_out page c s = Some (k, s') \<and> k < swap_size s \<and> k \<notin> slots s \<and>
      (\<forall>j < k. j \<in> slots s) \<and> slots s' = insert k (slots s) \<and> swap_ok s' \<and> swap_size s' = swap_size s \<and>
      slot_data s' k = c \<and> (\<forall>j. j \<noteq> k \<longrightarrow> slot_data s' j = slot_data s j)) \<or>
    slots s = {..<swap_size s} \<and> vm_swap_out page c s = None"
proof -
  let ?m = "swap_available s"
  have good: "bitmap_good ?m" and cnt: "bit_cnt ?m = swap_size s" using ok by (auto simp: swap_ok_def)
  obtain bs where rep: "bitmap_rep ?m bs" using good by (auto simp: bitmap_good_def)
  have blen: "length bs = swap_size s" using rep cnt by (simp add: bitmap_rep_def)
  have grp: "group bs j 1 True \<longleftrightarrow> j < swap_size s \<and> j \<notin> slots s" for j
    by (auto simp: group_def slots_def marked_rep [OF rep] blen)
  show ?thesis
    using bitmap_scan_rep [OF rep le0, of 1 True]
  proof (elim disjE exE conjE)
    fix k
    assume k: "bitmap_scan ?m 0 1 True = Some k" "group bs k 1 True" "\<forall>j \<in> {0..<k}. \<not> group bs j 1 True"
    then have kb: "k < swap_size s" "k \<notin> slots s" using grp by auto
    have "\<forall>i \<in> {k * 8..<k * 8 + length c}. block_valid (swap_block s) i"
      using slot_bound [OF ok kb(1)] len by (auto simp: block_valid_def SECTORS_PER_PAGE_def)
    then obtain b where b: "blk.wr_run (k * 8) c (swap_block s) = Some b" "block_ok b"
      "block_data b = (\<lambda>i. if k * 8 \<le> i \<and> i < k * 8 + length c then c ! (i - k * 8) else block_data (swap_block s) i)"
      using blk.wr_run_law [of "swap_block s" "k * 8" c] ok by (auto simp: swap_ok_def)
    have fits: "k * 8 + 0 + length c \<le> 2 ^ 32"
      using slot_bound [OF ok kb(1)] ok len by (simp add: swap_ok_def SECTORS_PER_PAGE_def)
    obtain m where m: "bitmap_set ?m k False = Some m" "bitmap_good m" "bit_cnt m = bit_cnt ?m"
      "marked m = marked ?m - {k}"
      using bitmap_set_marked [OF good, of k False] kb(1) cnt by auto
    let ?s = "s\<lparr>swap_block := b, swap_available := m\<rparr>"
    have run: "vm_swap_out page c s = Some (k, ?s)"
      using page k(1) m(1) b(1) len write_slot_run [OF fits, of "swap_block s"]
      by (simp add: vm_swap_out_def)
    have "slots ?s = insert k (slots s)" using m(4) kb by (auto simp: slots_def)
    moreover have "swap_ok ?s"
      using ok b(2) m(2,3) block_run_keeps [OF b(1)] by (simp add: swap_ok_def)
    moreover have "slot_data ?s k = c"
      using len unfolding slot_data_def by (intro nth_equalityI) (auto simp: b(3) SECTORS_PER_PAGE_def)
    moreover have "slot_data ?s j = slot_data s j" if "j \<noteq> k" for j
      using slot_apart [OF that] len unfolding slot_data_def
      by (intro nth_equalityI) (auto simp: b(3) SECTORS_PER_PAGE_def)
    moreover have "\<forall>j < k. j \<in> slots s" using k(3) grp kb(1) by (metis atLeastLessThan_iff le0 less_trans)
    ultimately show ?thesis using run kb by (intro disjI1 exI [of _ k] exI [of _ ?s]) simp
  next
    assume err: "bitmap_scan ?m 0 1 True = Some BITMAP_ERROR" "\<forall>j \<ge> 0. \<not> group bs j 1 True"
    obtain x xs where c: "c = x # xs" using len by (cases c) (auto simp: SECTORS_PER_PAGE_def)
    have "slot_sector BITMAP_ERROR 0 = 2 ^ 32 - 8"
      by (simp add: slot_sector_def BITMAP_ERROR_def SECTORS_PER_PAGE_def)
    then have "check_sector (swap_block s) (slot_sector BITMAP_ERROR 0) = None"
      using ok by (simp add: check_sector_def swap_ok_def SECTORS_PER_PAGE_def)
    then have "vm_swap_out page c s = None"
      using page err(1) c by (simp add: vm_swap_out_def SECTORS_PER_PAGE_def block_write_def)
    moreover have "slots s = {..<swap_size s}" using err(2) grp by (auto simp: slots_def)
    ultimately show ?thesis by blast
  qed
qed

lemma vm_swap_in_spec:
  assumes ok: "swap_ok s" and page: "page \<ge> PHYS_BASE" and k: "k \<in> slots s"
  shows "\<exists>s'. vm_swap_in k page s = Some (slot_data s k, s') \<and> swap_ok s' \<and> swap_size s' = swap_size s \<and>
    slots s' = slots s - {k} \<and> (\<forall>j. slot_data s' j = slot_data s j)"
proof -
  let ?m = "swap_available s"
  have good: "bitmap_good ?m" and cnt: "bit_cnt ?m = swap_size s" using ok by (auto simp: swap_ok_def)
  have kb: "k < swap_size s" "k \<notin> marked ?m" using k by (auto simp: slots_def)
  have "\<forall>i \<in> {k * 8..<k * 8 + 8}. block_valid (swap_block s) i"
    using slot_bound [OF ok kb(1)] by (auto simp: block_valid_def)
  then obtain b where b: "blk.rd_run (k * 8) 8 (swap_block s) =
      Some (map (block_data (swap_block s)) [k * 8..<k * 8 + 8], b)" "block_ok b"
    "block_data b = block_data (swap_block s)"
    using blk.rd_run_law [of "swap_block s" "k * 8" 8] ok unfolding swap_ok_def by blast
  have fits: "k * 8 + 0 + 8 \<le> 2 ^ 32"
    using slot_bound [OF ok kb(1)] ok by (simp add: swap_ok_def SECTORS_PER_PAGE_def)
  obtain m where m: "bitmap_set ?m k True = Some m" "bitmap_good m" "bit_cnt m = bit_cnt ?m"
    "marked m = insert k (marked ?m)"
    using bitmap_set_marked [OF good, of k True] kb(1) cnt by auto
  let ?s = "s\<lparr>swap_block := b, swap_available := m\<rparr>"
  have "bitmap_test ?m k = Some False" using bitmap_test_marked [OF good, of k] kb cnt by simp
  then have run: "vm_swap_in k page s = Some (slot_data s k, ?s)"
    using page kb(1) m(1) b(1) read_slot_run [OF fits, of "swap_block s"]
    by (simp add: vm_swap_in_def SECTORS_PER_PAGE_def slot_data_def)
  have "swap_ok ?s" using ok b(2) m(2,3) block_rd_run_keeps [OF b(1)] by (simp add: swap_ok_def)
  moreover have "slots ?s = slots s - {k}" using m(4) by (auto simp: slots_def)
  ultimately show ?thesis using run b(3) by (intro exI [of _ ?s]) (simp add: slot_data_def)
qed

lemma vm_swap_free_spec:
  assumes ok: "swap_ok s" and k: "k \<in> slots s"
  shows "\<exists>s'. vm_swap_free k s = Some s' \<and> swap_ok s' \<and> slots s' = slots s - {k} \<and>
    (\<forall>j. slot_data s' j = slot_data s j)"
proof -
  let ?m = "swap_available s"
  have good: "bitmap_good ?m" and cnt: "bit_cnt ?m = swap_size s" using ok by (auto simp: swap_ok_def)
  have kb: "k < swap_size s" "k \<notin> marked ?m" using k by (auto simp: slots_def)
  obtain m where m: "bitmap_set ?m k True = Some m" "bitmap_good m" "bit_cnt m = bit_cnt ?m"
    "marked m = insert k (marked ?m)"
    using bitmap_set_marked [OF good, of k True] kb(1) cnt by auto
  have "bitmap_test ?m k = Some False" using bitmap_test_marked [OF good, of k] kb cnt by simp
  then have "vm_swap_free k s = Some (s\<lparr>swap_available := m\<rparr>)"
    using kb(1) m(1) by (simp add: vm_swap_free_def)
  then show ?thesis using ok m by (auto simp: swap_ok_def slots_def slot_data_def)
qed

section \<open>Properties of the swap table\<close>

text \<open>C25: Two pages swapped out one after the other get different slots and each is read back
  unchanged, in either order, after which both slots are available again and every other
  slot is as it was.\<close>

theorem swap_roundtrip:
  assumes "swap_ok s" and "pa \<ge> PHYS_BASE" and "pb \<ge> PHYS_BASE"
    and "length a = SECTORS_PER_PAGE" and "length b = SECTORS_PER_PAGE"
    and "vm_swap_out pa a s = Some (i, s1)" and "vm_swap_out pb b s1 = Some (j, s2)"
  shows "i \<noteq> j \<and> (\<exists>s3 s4. vm_swap_in i pa s2 = Some (a, s3) \<and> vm_swap_in j pb s3 = Some (b, s4) \<and>
    swap_ok s4 \<and> slots s4 = slots s \<and> (\<forall>k. k \<noteq> i \<longrightarrow> k \<noteq> j \<longrightarrow> slot_data s4 k = slot_data s k))"
proof -
  have 1: "i \<notin> slots s" "slots s1 = insert i (slots s)" "swap_ok s1" "slot_data s1 i = a"
    "\<forall>k. k \<noteq> i \<longrightarrow> slot_data s1 k = slot_data s k"
    using vm_swap_out_spec [OF assms(1,2,4)] assms(6) by auto
  have 2: "j \<notin> slots s1" "slots s2 = insert j (slots s1)" "swap_ok s2" "slot_data s2 j = b"
    "\<forall>k. k \<noteq> j \<longrightarrow> slot_data s2 k = slot_data s1 k"
    using vm_swap_out_spec [OF 1(3) assms(3,5)] assms(7) by auto
  have ij: "i \<noteq> j" using 1(2) 2(1) by auto
  obtain s3 where 3: "vm_swap_in i pa s2 = Some (slot_data s2 i, s3)" "swap_ok s3" "slots s3 = slots s2 - {i}"
    "\<forall>k. slot_data s3 k = slot_data s2 k"
    using vm_swap_in_spec [OF 2(3) assms(2), of i] 1(2) 2(2) by auto
  obtain s4 where 4: "vm_swap_in j pb s3 = Some (slot_data s3 j, s4)" "swap_ok s4" "slots s4 = slots s3 - {j}"
    "\<forall>k. slot_data s4 k = slot_data s3 k"
    using vm_swap_in_spec [OF 3(2) assms(3), of j] 2(2) 3(3) ij by auto
  have "slot_data s2 i = a" "slot_data s3 j = b" using 1(4) 2(4,5) 3(4) ij by auto
  moreover have "slots s4 = slots s" using 1(1,2) 2(1,2) 3(3) 4(3) by auto
  ultimately show ?thesis using 1(5) 2(5) 3 4 ij by auto
qed

definition sample_swap :: "nat swap" where
  "sample_swap = \<lparr>swap_block = \<lparr>block_kind = BLOCK_SWAP, block_sectors = 40, block_data = (\<lambda>_. 0),
      read_cnt = 0, write_cnt = 0\<rparr>, swap_available = sample_bitmap, swap_size = 5\<rparr>"

lemma sample_swap_ok: "swap_ok sample_swap"
  using sample_bitmap_good
  by (simp add: swap_ok_def sample_swap_def block_ok_def sample_bitmap_def SECTORS_PER_PAGE_def)

lemma sample_slots: "slots sample_swap = {2, 3}"
proof -
  let ?bs = "[True, True, False, False, True]"
  have at: "\<forall>k < 5. ?bs ! k \<longleftrightarrow> k \<noteq> 2 \<and> k \<noteq> 3" by (subst all_less_5) simp
  have "slots sample_swap = {k. k < 5 \<and> \<not> (k < length ?bs \<and> ?bs ! k)}"
    unfolding slots_def sample_swap_def swap.simps marked_rep [OF sample_bitmap_rep] mem_Collect_eq ..
  also have "\<dots> = {2, 3}" using at by (intro set_eqI) (simp, linarith)
  finally show ?thesis .
qed

theorem swap_roundtrip_witness:
  "\<exists>i j s1 s2 s3. vm_swap_out PHYS_BASE [1..<9] sample_swap = Some (i, s1) \<and>
     vm_swap_out PHYS_BASE [2..<10] s1 = Some (j, s2) \<and> vm_swap_in i PHYS_BASE s2 = Some ([1..<9], s3)"
proof -
  have len: "length [1..<9] = SECTORS_PER_PAGE" "length [2..<10] = SECTORS_PER_PAGE"
    by (simp_all add: SECTORS_PER_PAGE_def)
  have size: "swap_size sample_swap = 5" by (simp add: sample_swap_def)
  have "(4 :: nat) \<in> {..<5}" "(4 :: nat) \<notin> {2, 3}" by auto
  then have "slots sample_swap \<noteq> {..<swap_size sample_swap}" unfolding sample_slots size by blast
  then obtain i s1 where 1: "vm_swap_out PHYS_BASE [1..<9] sample_swap = Some (i, s1)" "swap_ok s1"
    "slots s1 = insert i (slots sample_swap)" "swap_size s1 = swap_size sample_swap"
    using vm_swap_out_spec [OF sample_swap_ok order_refl len(1)] by blast
  have "0 \<notin> slots s1 \<or> 4 \<notin> slots s1" unfolding 1(3) sample_slots by (cases "i = 0") simp_all
  moreover have "0 \<in> {..<swap_size s1}" "4 \<in> {..<swap_size s1}" unfolding 1(4) size by simp_all
  ultimately have "slots s1 \<noteq> {..<swap_size s1}" by metis
  then obtain j s2 where 2: "vm_swap_out PHYS_BASE [2..<10] s1 = Some (j, s2)"
    using vm_swap_out_spec [OF 1(2) order_refl len(2)] by blast
  obtain s3 where "vm_swap_in i PHYS_BASE s2 = Some ([1..<9], s3)"
    using swap_roundtrip [OF sample_swap_ok order_refl order_refl len 1(1) 2] by (elim conjE exE)
  then show ?thesis using 1(1) 2 by (intro exI conjI)
qed

end
