(* ===== verification/Vm.thy ===== *)
theory Vm
  imports Hash
begin

text \<open>
  The tables of the virtual memory system: the comparison and hash functions of the frame
  table (\<^verbatim>\<open>vm/frame.c\<close>) and of the supplemental page table (\<^verbatim>\<open>vm/page.c\<close>), which make the
  kernel's hash tables finite maps keyed by a page address, and the clock that picks the
  frame to evict. The members of an entry are functions of the entry's address.
\<close>

section \<open>The tables as clients of the hash table\<close>

definition frame_hash_func :: "(addr \<Rightarrow> u32) \<Rightarrow> addr \<Rightarrow> u32" where
  "frame_hash_func kpage elem = hash_bytes (int_bytes (kpage elem))"

definition frame_less_func :: "(addr \<Rightarrow> u32) \<Rightarrow> addr \<Rightarrow> addr \<Rightarrow> bool" where
  "frame_less_func kpage a b \<longleftrightarrow> kpage a < kpage b"

definition spte_hash_func :: "(addr \<Rightarrow> u32) \<Rightarrow> addr \<Rightarrow> u32" where
  "spte_hash_func upage elem = hash_int (upage elem)"

definition spte_less_func :: "(addr \<Rightarrow> u32) \<Rightarrow> addr \<Rightarrow> addr \<Rightarrow> bool" where
  "spte_less_func upage a b \<longleftrightarrow> upage a < upage b"

interpretation frame_map: keyed_client kpage "frame_less_func kpage" "frame_hash_func kpage" for kpage
  by unfold_locales (simp_all add: frame_less_func_def frame_hash_func_def)

interpretation page_map: keyed_client upage "spte_less_func upage" "spte_hash_func upage" for upage
  by unfold_locales (simp_all add: spte_less_func_def spte_hash_func_def)

lemma page_same_key: "less_fn t = spte_less_func up \<Longrightarrow> same_key t a b \<longleftrightarrow> up a = up b"
  by (auto simp: same_key_def spte_less_func_def)

lemma frame_same_key: "less_fn t = frame_less_func kp \<Longrightarrow> same_key t a b \<longleftrightarrow> kp a = kp b"
  by (auto simp: same_key_def frame_less_func_def)

text \<open>C10: The supplemental page table is a finite map from user pages to entries: after
  \<^verbatim>\<open>hash_insert\<close> of an entry a lookup of its page finds it, unless an entry for the page was
  there before, which is then returned and kept; lookups of other pages are unchanged.\<close>

theorem supt_insert_lookup:
  assumes "hash_rep t lk ps" and "hash_fn t = spte_hash_func up" and "less_fn t = spte_less_func up"
    and "e \<noteq> NULL" and "e \<notin> set (cells_of ps)" and "mal_ok mal (insert e (set (cells_of ps)))"
  shows "\<exists>old t' lk' ps'. hash_insert mal t e lk = Some (old, t', lk') \<and> hash_rep t' lk' ps' \<and>
    hash_fn t' = spte_hash_func up \<and> less_fn t' = spte_less_func up \<and> hash_find t e lk = Some old \<and>
    (\<forall>k. hash_find t' k lk' = (if up e = up k \<and> old = NULL then Some e else hash_find t k lk))"
  using page_map.hc.find_after_insert [OF assms] unfolding page_same_key [OF assms(3)] .

theorem supt_insert_lookup_witness:
  "\<exists>old t' lk'. hash_insert sample_mal (sample_table (spte_hash_func of_nat) (spte_less_func of_nat)) 5 sample_heap =
     Some (old, t', lk')"
proof -
  let ?t = "sample_table (spte_hash_func of_nat) (spte_less_func of_nat)"
  have "mal_ok sample_mal (insert 5 (set (cells_of sample_fam)))"
    by (rule sample_mal_ok) (simp add: sample_fam_cells)
  then show ?thesis
    using supt_insert_lookup [of ?t sample_heap sample_fam of_nat 5 sample_mal] sample_table_rep
    by (simp add: sample_fam_cells) (simp add: sample_table_def, blast)
qed

text \<open>Deleting the entry of a frame from the frame table makes the lookup of its kernel
  page fail and leaves every other lookup as it was; the element returned is the one a
  lookup found.\<close>

theorem frame_delete_lookup:
  assumes "hash_rep t lk ps" and "hash_fn t = frame_hash_func kp" and "less_fn t = frame_less_func kp"
    and "mal_ok mal (set (cells_of ps))"
  shows "\<exists>r t' lk' ps'. hash_delete mal t e lk = Some (r, t', lk') \<and> hash_rep t' lk' ps' \<and>
    hash_fn t' = frame_hash_func kp \<and> less_fn t' = frame_less_func kp \<and> hash_find t e lk = Some r \<and>
    (\<forall>k. hash_find t' k lk' = (if kp e = kp k then Some NULL else hash_find t k lk))"
  using frame_map.hc.find_after_delete [OF assms] unfolding frame_same_key [OF assms(3)] .

theorem frame_delete_lookup_witness:
  "\<exists>r t' lk'. hash_delete sample_mal (sample_table (frame_hash_func of_nat) (frame_less_func of_nat)) 5 sample_heap =
     Some (r, t', lk')"
proof -
  have "mal_ok sample_mal (set (cells_of sample_fam))"
    by (rule sample_mal_ok) (simp add: sample_fam_cells)
  then show ?thesis
    using frame_delete_lookup [of "sample_table (frame_hash_func of_nat) (frame_less_func of_nat)"
        sample_heap sample_fam of_nat sample_mal 5] sample_table_rep
    by (simp add: sample_table_def) blast
qed

section \<open>The clock\<close>

text \<open>The frame list with the clock's hand, and the members of the frame entries that the
  clock reads. Reading a member at the address of the list's tail element is what the code
  does when the hand points there; the model gives the members some value at every address.\<close>

record frames =
  fr_links :: links
  frame_list :: klist
  clock_ptr :: addr
  fr_upage :: "addr \<Rightarrow> u32"
  fr_pinned :: "addr \<Rightarrow> bool"

definition clock_frame_next :: "'z frames_scheme \<Rightarrow> (addr \<times> 'z frames_scheme) option" where
  "clock_frame_next s = do {
     kassert (\<not> list_empty (fr_links s) (frame_list s));
     p \<leftarrow> (if clock_ptr s = NULL \<or> clock_ptr s = list_end (frame_list s)
          then Some (list_begin (fr_links s) (frame_list s))
          else list_next (fr_links s) (clock_ptr s));
     Some (p, s\<lparr>clock_ptr := p\<rparr>) }"

text \<open>The loop of \<^verbatim>\<open>pick_frame_to_evict\<close> with the number of rounds left; \<open>acc\<close> holds the
  accessed bits of the page directory that is passed in.\<close>

fun evict_loop :: "nat \<Rightarrow> 'z frames_scheme \<Rightarrow> (u32 \<Rightarrow> bool) \<Rightarrow> (addr \<times> 'z frames_scheme \<times> (u32 \<Rightarrow> bool)) option" where
  "evict_loop 0 s acc = None"
| "evict_loop (Suc k) s acc = do {
     (e, s) \<leftarrow> clock_frame_next s;
     if fr_pinned s e then evict_loop k s acc
     else if acc (fr_upage s e) then evict_loop k s (acc(fr_upage s e := False))
     else Some (e, s, acc) }"

definition pick_frame_to_evict :: "nat \<Rightarrow> 'z frames_scheme \<Rightarrow> (u32 \<Rightarrow> bool) \<Rightarrow> (addr \<times> 'z frames_scheme \<times> (u32 \<Rightarrow> bool)) option" where
  "pick_frame_to_evict n s acc = do { kassert (n \<noteq> 0); evict_loop (n + n + 1) s acc }"

definition vm_frame_set_pinned :: "(u32 \<Rightarrow> addr option) \<Rightarrow> u32 \<Rightarrow> bool \<Rightarrow> 'z frames_scheme \<Rightarrow> 'z frames_scheme option" where
  "vm_frame_set_pinned frame_of kpage new_value s = do {
     f \<leftarrow> frame_of kpage;
     Some (s\<lparr>fr_pinned := (fr_pinned s)(f := new_value)\<rparr>) }"

text \<open>The hand is null, at the tail, or at a frame of the list.\<close>

definition clock_ok :: "'z frames_scheme \<Rightarrow> addr list \<Rightarrow> bool" where
  "clock_ok s fs \<longleftrightarrow> list_rep (fr_links s) (frame_list s) fs \<and>
     (clock_ptr s = NULL \<or> clock_ptr s = tail (frame_list s) \<or> clock_ptr s \<in> set fs)"

lemma clock_frame_next_step:
  assumes "clock_ok s fs" and "fs \<noteq> []"
  shows "\<exists>p. clock_frame_next s = Some (p, s\<lparr>clock_ptr := p\<rparr>) \<and> p \<in> insert (tail (frame_list s)) (set fs) \<and>
    clock_ok (s\<lparr>clock_ptr := p\<rparr>) fs"
proof -
  have rep: "list_rep (fr_links s) (frame_list s) fs" using assms(1) by (simp add: clock_ok_def)
  have ne: "\<not> list_empty (fr_links s) (frame_list s)" using list_rep_empty [OF rep] assms(2) by simp
  show ?thesis
  proof (cases "clock_ptr s = NULL \<or> clock_ptr s = tail (frame_list s)")
    case True
    then have "clock_frame_next s = Some (hd fs, s\<lparr>clock_ptr := hd fs\<rparr>)"
      using ne list_rep_begin [OF rep] assms(2) by (simp add: clock_frame_next_def list_end_def)
    then show ?thesis using assms(2) rep by (intro exI [of _ "hd fs"]) (auto simp: clock_ok_def)
  next
    case False
    then have "clock_ptr s \<in> set fs" using assms(1) by (auto simp: clock_ok_def)
    then obtain as bs where fs: "fs = as @ clock_ptr s # bs" by (meson split_list)
    let ?p = "hd (bs @ [tail (frame_list s)])"
    have "list_next (fr_links s) (clock_ptr s) = Some ?p" using list_rep_next(1) rep fs by metis
    then have "clock_frame_next s = Some (?p, s\<lparr>clock_ptr := ?p\<rparr>)"
      using ne False by (simp add: clock_frame_next_def list_end_def)
    moreover have "?p \<in> insert (tail (frame_list s)) (set fs)" using fs by (cases bs) auto
    ultimately show ?thesis using rep by (intro exI [of _ ?p]) (auto simp: clock_ok_def)
  qed
qed

lemma evict_loop_victim:
  "clock_ok s fs \<Longrightarrow> fs \<noteq> [] \<Longrightarrow> evict_loop k s acc = Some (e, s', acc') \<Longrightarrow>
   \<not> fr_pinned s' e \<and> \<not> acc' (fr_upage s' e) \<and> e \<in> insert (tail (frame_list s)) (set fs) \<and>
   s' = s\<lparr>clock_ptr := e\<rparr> \<and> clock_ok s' fs \<and> (\<forall>u. acc' u \<longrightarrow> acc u)"
proof (induction k arbitrary: s acc)
  case (Suc k)
  obtain p where p: "clock_frame_next s = Some (p, s\<lparr>clock_ptr := p\<rparr>)"
    "p \<in> insert (tail (frame_list s)) (set fs)" "clock_ok (s\<lparr>clock_ptr := p\<rparr>) fs"
    using clock_frame_next_step [OF Suc.prems(1,2)] by blast
  let ?s = "s\<lparr>clock_ptr := p\<rparr>"
  consider "fr_pinned s p" | "\<not> fr_pinned s p" "acc (fr_upage s p)" | "\<not> fr_pinned s p" "\<not> acc (fr_upage s p)"
    by blast
  then show ?case
  proof cases
    case 1
    then show ?thesis using Suc.IH [OF p(3) Suc.prems(2), of acc] Suc.prems(3) p(1) by auto
  next
    case 2
    then have "evict_loop k ?s (acc(fr_upage s p := False)) = Some (e, s', acc')"
      using Suc.prems(3) p(1) by simp
    from Suc.IH [OF p(3) Suc.prems(2) this] show ?thesis by (auto split: if_splits)
  next
    case 3
    then show ?thesis using Suc.prems(3) p by auto
  qed
qed simp

definition sample_frames :: "addr \<Rightarrow> frames" where
  "sample_frames hand = \<lparr>fr_links = sample_links, frame_list = \<lparr>head = 1, tail = 2\<rparr>, clock_ptr = hand,
     fr_upage = of_nat, fr_pinned = (\<lambda>a. a = 2)\<rparr>"

lemma sample_frames_ok: "hand \<in> {0, 2, 30, 10, 20} \<Longrightarrow> clock_ok (sample_frames hand) [30, 10, 20]"
  using sample_links_rep by (auto simp: clock_ok_def sample_frames_def)

text \<open>Every entry that \<^verbatim>\<open>pick_frame_to_evict\<close> returns is unpinned and unreferenced when it
  is returned, the search only clears accessed bits and moves the hand, and the hand stays
  within the frame list and its tail element.\<close>

theorem pick_frame_to_evict_victim:
  assumes "clock_ok s fs" and "fs \<noteq> []" and "pick_frame_to_evict n s acc = Some (e, s', acc')"
  shows "\<not> fr_pinned s' e \<and> \<not> acc' (fr_upage s' e) \<and> e \<in> insert (tail (frame_list s)) (set fs) \<and>
   s' = s\<lparr>clock_ptr := e\<rparr> \<and> clock_ok s' fs \<and> (\<forall>u. acc' u \<longrightarrow> acc u)"
  using evict_loop_victim [OF assms(1,2)] assms(3)
  unfolding pick_frame_to_evict_def kassert_bind_Some_iff by blast

lemma sample_step: "clock_frame_next (sample_frames 10) = Some (20, sample_frames 20)"
  by (simp add: clock_frame_next_def sample_frames_def sample_links_def list_empty_def
      list_begin_def list_end_def list_next_def is_head_def is_interior_def)

lemma sample_pick: "pick_frame_to_evict 3 (sample_frames 10) (\<lambda>_. False) = Some (20, sample_frames 20, \<lambda>_. False)"
proof -
  have "(3::nat) + 3 + 1 = Suc 6" by simp
  moreover have "\<not> fr_pinned (sample_frames 20) 20" by (simp add: sample_frames_def)
  ultimately show ?thesis by (simp only: pick_frame_to_evict_def evict_loop.simps sample_step) simp
qed

theorem pick_frame_to_evict_victim_witness:
  "\<exists>s'. pick_frame_to_evict 3 (sample_frames 10) (\<lambda>_. False) = Some (20, s', \<lambda>_. False) \<and> \<not> fr_pinned s' 20"
proof -
  have "clock_ok (sample_frames 10) [30, 10, 20]" by (rule sample_frames_ok) simp
  from pick_frame_to_evict_victim [OF this _ sample_pick] show ?thesis using sample_pick by blast
qed

text \<open>The hand is not advanced circularly: when it points to the last frame, the next call
  of \<^verbatim>\<open>clock_frame_next\<close> returns the tail element of the list, which is no frame, and the
  search reads an entry there. With one frame, evictable but referenced, and the hand on
  it, the search never returns the frame: it returns the tail element, or panics.\<close>

theorem clock_hand_leaves_the_frames:
  assumes "clock_ok s (fs @ [x])" and "clock_ptr s = x"
  shows "clock_frame_next s = Some (tail (frame_list s), s\<lparr>clock_ptr := tail (frame_list s)\<rparr>) \<and>
    tail (frame_list s) \<notin> set (fs @ [x]) \<and>
    (fs = [] \<longrightarrow> acc (fr_upage s x) \<longrightarrow> fr_upage s (tail (frame_list s)) \<noteq> fr_upage s x \<longrightarrow>
      (\<forall>s' acc'. pick_frame_to_evict 1 s acc \<noteq> Some (x, s', acc')))"
proof -
  let ?t = "tail (frame_list s)"
  have rep: "list_rep (fr_links s) (frame_list s) (fs @ [x])" using assms(1) by (simp add: clock_ok_def)
  have x: "x \<noteq> NULL" "x \<noteq> ?t" "?t \<noteq> NULL" "?t \<notin> set (fs @ [x])" using rep by (auto simp: list_rep_def)
  have ne: "\<not> list_empty (fr_links s) (frame_list s)" using list_rep_empty [OF rep] by simp
  have "list_next (fr_links s) x = Some ?t" using list_rep_next(1) [of _ _ fs x "[]"] rep by simp
  then have 1: "clock_frame_next s = Some (?t, s\<lparr>clock_ptr := ?t\<rparr>)"
    using assms(2) x ne by (simp add: clock_frame_next_def list_end_def)
  have "pick_frame_to_evict 1 s acc \<noteq> Some (x, s', acc')"
    if one: "fs = []" "acc (fr_upage s x)" "fr_upage s ?t \<noteq> fr_upage s x" for s' acc'
  proof -
    have 2: "clock_frame_next (s\<lparr>clock_ptr := ?t\<rparr>) = Some (x, s\<lparr>clock_ptr := x\<rparr>)"
      using list_rep_begin [OF rep] one(1) ne by (simp add: clock_frame_next_def list_end_def)
    have 3: "clock_frame_next (s\<lparr>clock_ptr := x\<rparr>) = Some (?t, s\<lparr>clock_ptr := ?t\<rparr>)"
      using 1 assms(2) by (cases s) simp
    have "1 + 1 + 1 = Suc (Suc (Suc 0))" by simp
    then show ?thesis using 1 2 3 one(2,3) x(2) by (auto simp: pick_frame_to_evict_def split: if_splits)
  qed
  then show ?thesis using 1 x(4) by blast
qed

theorem clock_hand_leaves_the_frames_witness:
  "\<exists>s'. clock_frame_next (sample_frames 20) = Some (2, s') \<and> 2 \<notin> set [30, 10, 20 :: addr]"
proof -
  have "clock_ok (sample_frames 20) ([30, 10] @ [20])" using sample_frames_ok [of 20] by simp
  from clock_hand_leaves_the_frames [OF this, of "\<lambda>_. True"] show ?thesis
    by (simp add: sample_frames_def)
qed

end
