(* ===== verification/Sched.thy ===== *)
theory Sched
  imports KListSort
begin

text \<open>
  Threads and their scheduler, \<^verbatim>\<open>Lab2/pintos/src/threads/thread.c\<close>, and the sleep list of
  \<^verbatim>\<open>Lab2/pintos/src/devices/timer.c\<close>.

  A thread is the address of its page. The members of \<^verbatim>\<open>struct thread\<close> are functions from
  that address; the lists are sequences of threads, which \<open>insert_ordered_thread_priority\<close>
  justifies by running on the pointer heap of the list library. The state has one running
  thread: a function that calls \<^verbatim>\<open>schedule\<close> returns the state in which the next thread runs,
  and what the C function does after the call is done when its thread is chosen again.
  Interrupts are off inside every primitive, so each one is a single step; \<open>intr_ctx\<close> says
  whether the step runs inside an external interrupt handler. \<open>None\<close> is a failed assertion.
\<close>

section \<open>State\<close>

type_synonym tid = addr

datatype thread_status = THREAD_RUNNING | THREAD_READY | THREAD_BLOCKED | THREAD_DYING

record kernel =
  is_thread :: "tid \<Rightarrow> bool"
  t_status :: "tid \<Rightarrow> thread_status"
  t_priority :: "tid \<Rightarrow> int"
  wake_up_tick :: "tid \<Rightarrow> int"
  ready_list :: "tid list"
  all_list :: "tid list"
  timer_list :: "tid list"
  running :: tid
  idle_thread :: tid
  initial_thread :: tid
  ticks :: int
  thread_ticks :: nat
  idle_ticks :: int
  kernel_ticks :: int
  intr_ctx :: bool
  yield_on_return :: bool

definition PRI_MIN :: int where "PRI_MIN = 0"
definition PRI_MAX :: int where "PRI_MAX = 63"

definition TIME_SLICE :: nat where "TIME_SLICE = 4"

abbreviation set_status :: "tid \<Rightarrow> thread_status \<Rightarrow> 'a kernel_scheme \<Rightarrow> 'a kernel_scheme" where
  "set_status t st k \<equiv> k\<lparr>t_status := (t_status k)(t := st)\<rparr>"

section \<open>Insertion by priority\<close>

text \<open>On the pointer heap: walk to the first element with a smaller priority.\<close>

partial_function (option) find_lower :: "(tid \<Rightarrow> int) \<Rightarrow> links \<Rightarrow> tid \<Rightarrow> addr \<Rightarrow> addr \<Rightarrow> addr option" where
  "find_lower pri h t x insert_elem =
     (if x = insert_elem then Some insert_elem
      else if pri x < pri t then Some x
      else do { x \<leftarrow> list_next h x; find_lower pri h t x insert_elem })"

definition insert_ordered_thread_priority :: "(tid \<Rightarrow> int) \<Rightarrow> klist \<Rightarrow> tid \<Rightarrow> links \<Rightarrow> links option" where
  "insert_ordered_thread_priority pri ls t h = do {
     insert_elem \<leftarrow> find_lower pri h t (list_begin h ls) (list_end ls);
     list_insert insert_elem t h }"

text \<open>The same on sequences.\<close>

fun prio_insert :: "(tid \<Rightarrow> int) \<Rightarrow> tid \<Rightarrow> tid list \<Rightarrow> tid list" where
  "prio_insert pri t [] = [t]"
| "prio_insert pri t (x # xs) = (if pri x < pri t then t # x # xs else x # prio_insert pri t xs)"

lemma find_lower_rep:
  "list_rep h ls (as @ xs) \<Longrightarrow>
   \<exists>bs cs. xs = bs @ cs \<and> find_lower pri h t (hd (xs @ [tail ls])) (tail ls) = Some (hd (cs @ [tail ls])) \<and>
     prio_insert pri t xs = bs @ t # cs"
proof (induction xs arbitrary: as)
  case Nil
  then show ?case by (auto simp: find_lower.simps)
next
  case (Cons x xs)
  have x: "x \<noteq> tail ls" using Cons.prems by (auto simp: list_rep_def)
  show ?case
  proof (cases "pri x < pri t")
    case True
    then show ?thesis using x by (intro exI [of _ "[]"] exI [of _ "x # xs"]) (simp add: find_lower.simps)
  next
    case False
    obtain bs cs where r: "xs = bs @ cs"
      "find_lower pri h t (hd (xs @ [tail ls])) (tail ls) = Some (hd (cs @ [tail ls]))"
      "prio_insert pri t xs = bs @ t # cs"
    proof -
      have "list_rep h ls ((as @ [x]) @ xs)" using Cons.prems by simp
      then show thesis using Cons.IH that by blast
    qed
    have "find_lower pri h t (hd ((x # xs) @ [tail ls])) (tail ls) = find_lower pri h t (hd (xs @ [tail ls])) (tail ls)"
      using x False list_rep_next(1) [OF Cons.prems] by (subst find_lower.simps) simp
    then show ?thesis using r False by (intro exI [of _ "x # bs"] exI [of _ cs]) simp
  qed
qed

lemma insert_ordered_thread_priority_rep:
  assumes "list_rep h ls xs" and "t \<noteq> NULL" and "t \<notin> set (cells ls xs)"
  shows "\<exists>h'. insert_ordered_thread_priority pri ls t h = Some h' \<and> list_rep h' ls (prio_insert pri t xs) \<and>
    same_outside (insert t (set (cells ls xs))) h h'"
proof -
  obtain bs cs where r: "xs = bs @ cs"
    "find_lower pri h t (hd (xs @ [tail ls])) (tail ls) = Some (hd (cs @ [tail ls]))"
    "prio_insert pri t xs = bs @ t # cs"
    using find_lower_rep [of h ls "[]" xs pri t] assms(1) unfolding append_Nil by blast
  then show ?thesis
    using list_insert_rep [of h ls bs cs t] assms list_rep_begin [OF assms(1)]
    by (simp add: insert_ordered_thread_priority_def list_end_def del: hd_append_single)
qed

lemma set_prio_insert [simp]: "set (prio_insert pri t xs) = insert t (set xs)"
  by (induction xs) auto

lemma distinct_prio_insert [simp]: "distinct (prio_insert pri t xs) \<longleftrightarrow> t \<notin> set xs \<and> distinct xs"
  by (induction xs) auto

definition prio_sorted :: "(tid \<Rightarrow> int) \<Rightarrow> tid list \<Rightarrow> bool" where
  "prio_sorted pri xs \<longleftrightarrow> sorted_wrt (\<lambda>a b. pri a \<ge> pri b) xs"

lemma prio_sorted_insert: "prio_sorted pri xs \<Longrightarrow> prio_sorted pri (prio_insert pri t xs)"
  unfolding prio_sorted_def by (induction xs) auto

lemma prio_sorted_cong: "(\<And>t. t \<in> set xs \<Longrightarrow> p t = q t) \<Longrightarrow> prio_sorted p xs = prio_sorted q xs"
  unfolding prio_sorted_def by (induction xs) auto

lemma prio_insert_cong:
  "(\<And>x. x \<in> insert t (set xs) \<Longrightarrow> p x = q x) \<Longrightarrow> prio_insert p t xs = prio_insert q t xs"
  by (induction xs) auto

text \<open>Threads of one priority keep their order of arrival.\<close>

lemma prio_insert_fifo:
  "prio_sorted pri xs \<Longrightarrow>
   filter (\<lambda>x. pri x = p) (prio_insert pri t xs) = filter (\<lambda>x. pri x = p) (xs @ [t])"
proof (induction xs)
  case (Cons x xs)
  show ?case
  proof (cases "pri x < pri t")
    case True
    have "\<forall>y \<in> set xs. pri y < pri t" using Cons.prems True by (auto simp: prio_sorted_def)
    then have "pri t = p \<Longrightarrow> filter (\<lambda>x. pri x = p) (x # xs) = []" using True by (auto simp: filter_empty_conv)
    then show ?thesis using True by auto
  next
    case False
    then show ?thesis using Cons by (simp add: prio_sorted_def)
  qed
qed simp

section \<open>The scheduler\<close>

definition thread_current :: "kernel \<Rightarrow> tid option" where
  "thread_current k = do {
     kassert (is_thread k (running k));
     kassert (t_status k (running k) = THREAD_RUNNING);
     Some (running k) }"

definition next_thread_to_run :: "kernel \<Rightarrow> tid \<times> kernel" where
  "next_thread_to_run k =
     (case ready_list k of
        [] \<Rightarrow> (idle_thread k, k)
      | t # ts \<Rightarrow> (t, k\<lparr>ready_list := ts\<rparr>))"

definition thread_schedule_tail :: "tid \<Rightarrow> kernel \<Rightarrow> kernel option" where
  "thread_schedule_tail prev k = do {
     let k = set_status (running k) THREAD_RUNNING k;
     let k = k\<lparr>thread_ticks := 0\<rparr>;
     if prev \<noteq> NULL \<and> t_status k prev = THREAD_DYING \<and> prev \<noteq> initial_thread k
     then do {
       kassert (prev \<noteq> running k);
       Some (k\<lparr>is_thread := (is_thread k)(prev := False)\<rparr>) }
     else Some k }"

definition schedule :: "kernel \<Rightarrow> kernel option" where
  "schedule k = do {
     let cur = running k;
     let (nxt, k) = next_thread_to_run k;
     kassert (t_status k cur \<noteq> THREAD_RUNNING);
     kassert (is_thread k nxt);
     let prev = (if cur \<noteq> nxt then cur else NULL);
     thread_schedule_tail prev (k\<lparr>running := nxt\<rparr>) }"

definition thread_block :: "kernel \<Rightarrow> kernel option" where
  "thread_block k = do {
     kassert (\<not> intr_ctx k);
     cur \<leftarrow> thread_current k;
     schedule (set_status cur THREAD_BLOCKED k) }"

definition thread_yield :: "kernel \<Rightarrow> kernel option" where
  "thread_yield k = do {
     cur \<leftarrow> thread_current k;
     kassert (\<not> intr_ctx k);
     let k = (if cur \<noteq> idle_thread k
              then k\<lparr>ready_list := prio_insert (t_priority k) cur (ready_list k)\<rparr> else k);
     schedule (set_status cur THREAD_READY k) }"

definition thread_unblock :: "tid \<Rightarrow> kernel \<Rightarrow> kernel option" where
  "thread_unblock t k = do {
     kassert (is_thread k t);
     kassert (t_status k t = THREAD_BLOCKED);
     let k = k\<lparr>ready_list := prio_insert (t_priority k) t (ready_list k)\<rparr>;
     let k = set_status t THREAD_READY k;
     cur \<leftarrow> thread_current k;
     if t_priority k t > t_priority k cur \<and> cur \<noteq> idle_thread k then thread_yield k else Some k }"

text \<open>\<^verbatim>\<open>init_thread\<close> writes the new thread's page, which \<^verbatim>\<open>palloc_get_page\<close> found at \<open>t\<close>.\<close>

definition init_thread :: "tid \<Rightarrow> int \<Rightarrow> kernel \<Rightarrow> kernel option" where
  "init_thread t pri k = do {
     kassert (t \<noteq> NULL);
     kassert (PRI_MIN \<le> pri \<and> pri \<le> PRI_MAX);
     let k = set_status t THREAD_BLOCKED k;
     let k = k\<lparr>t_priority := (t_priority k)(t := pri), wake_up_tick := (wake_up_tick k)(t := 0)\<rparr>;
     let k = k\<lparr>is_thread := (is_thread k)(t := True)\<rparr>;
     Some (k\<lparr>all_list := all_list k @ [t]\<rparr>) }"

text \<open>\<^verbatim>\<open>thread_create\<close> returns null for \<^verbatim>\<open>TID_ERROR\<close>, else the new thread, whose entry point
  and number are not part of the state.\<close>

definition thread_create :: "tid \<Rightarrow> int \<Rightarrow> kernel \<Rightarrow> (tid \<times> kernel) option" where
  "thread_create page pri k =
     (if page = NULL then Some (NULL, k)
      else do {
        k \<leftarrow> init_thread page pri k;
        k \<leftarrow> thread_unblock page k;
        Some (page, k) })"

definition thread_exit :: "kernel \<Rightarrow> kernel option" where
  "thread_exit k = do {
     kassert (\<not> intr_ctx k);
     cur \<leftarrow> thread_current k;
     let k = k\<lparr>all_list := remove1 cur (all_list k)\<rparr>;
     schedule (set_status cur THREAD_DYING k) }"

definition thread_set_priority :: "int \<Rightarrow> kernel \<Rightarrow> kernel option" where
  "thread_set_priority new_priority k = do {
     cur \<leftarrow> thread_current k;
     thread_yield (k\<lparr>t_priority := (t_priority k)(cur := new_priority)\<rparr>) }"

definition thread_get_priority :: "kernel \<Rightarrow> int option" where
  "thread_get_priority k = do { cur \<leftarrow> thread_current k; Some (t_priority k cur) }"

definition thread_foreach :: "(tid \<Rightarrow> 's \<Rightarrow> 's) \<Rightarrow> kernel \<Rightarrow> 's \<Rightarrow> 's" where
  "thread_foreach func k = fold func (all_list k)"

definition thread_tick :: "kernel \<Rightarrow> kernel option" where
  "thread_tick k = do {
     t \<leftarrow> thread_current k;
     let k = (if t = idle_thread k then k\<lparr>idle_ticks := idle_ticks k + 1\<rparr>
              else k\<lparr>kernel_ticks := kernel_ticks k + 1\<rparr>);
     let k = k\<lparr>thread_ticks := thread_ticks k + 1\<rparr>;
     if thread_ticks k \<ge> TIME_SLICE
     then do { kassert (intr_ctx k); Some (k\<lparr>yield_on_return := True\<rparr>) }
     else Some k }"

section \<open>Sleeping\<close>

text \<open>The two nested loops of \<^verbatim>\<open>timer_sleep\<close> that find the place of the current thread \<open>c\<close>,
  which is to wake at \<open>total_ticks\<close>.\<close>

fun timer_insert_same :: "(tid \<Rightarrow> int) \<Rightarrow> tid \<Rightarrow> tid list \<Rightarrow> tid list" where
  "timer_insert_same pri c [] = [c]"
| "timer_insert_same pri c (x # xs) =
     (if pri x \<le> pri c then c # x # xs else x # timer_insert_same pri c xs)"

fun timer_insert :: "(tid \<Rightarrow> int) \<Rightarrow> (tid \<Rightarrow> int) \<Rightarrow> tid \<Rightarrow> int \<Rightarrow> tid list \<Rightarrow> tid list" where
  "timer_insert wake pri c total_ticks [] = [c]"
| "timer_insert wake pri c total_ticks (x # xs) =
     (if wake x = total_ticks then timer_insert_same pri c (x # xs)
      else if wake x \<ge> total_ticks then c # x # xs
      else x # timer_insert wake pri c total_ticks xs)"

definition timer_sleep :: "int \<Rightarrow> kernel \<Rightarrow> kernel option" where
  "timer_sleep n k = do {
     cur \<leftarrow> thread_current k;
     let total_ticks = ticks k + n;
     if n \<le> 0 then Some k
     else do {
       let k = k\<lparr>wake_up_tick := (wake_up_tick k)(cur := total_ticks)\<rparr>;
       let k = k\<lparr>timer_list := timer_insert (wake_up_tick k) (t_priority k) cur total_ticks (timer_list k)\<rparr>;
       thread_block k } }"

text \<open>The loop of the interrupt handler over the sleep list; the thread is unblocked first and
  then the list's first element, which it is, is removed.\<close>

fun wake_loop :: "tid list \<Rightarrow> kernel \<Rightarrow> kernel option" where
  "wake_loop [] k = Some k"
| "wake_loop (h # rest) k =
     (if ticks k < wake_up_tick k h then Some k
      else do {
        k \<leftarrow> thread_unblock h k;
        wake_loop rest (k\<lparr>timer_list := tl (timer_list k)\<rparr>) })"

definition timer_interrupt :: "kernel \<Rightarrow> kernel option" where
  "timer_interrupt k = do {
     k \<leftarrow> thread_tick (k\<lparr>ticks := ticks k + 1\<rparr>);
     wake_loop (timer_list k) k }"

text \<open>One timer interrupt as \<^verbatim>\<open>intr_handler\<close> delivers it.\<close>

definition timer_event :: "kernel \<Rightarrow> kernel option" where
  "timer_event k = do {
     kassert (\<not> intr_ctx k);
     k \<leftarrow> timer_interrupt (k\<lparr>intr_ctx := True, yield_on_return := False\<rparr>);
     let k = k\<lparr>intr_ctx := False\<rparr>;
     if yield_on_return k then thread_yield k else Some k }"

section \<open>The scheduler's invariant\<close>

text \<open>The ready list holds exactly the ready threads other than the idle thread, once each,
  by falling priority; the list of all threads holds exactly the live ones.\<close>

definition lists_ok :: "kernel \<Rightarrow> bool" where
  "lists_ok k \<longleftrightarrow> \<not> is_thread k NULL \<and>
     (\<forall>t. t \<in> set (ready_list k) \<longleftrightarrow> is_thread k t \<and> t_status k t = THREAD_READY \<and> t \<noteq> idle_thread k) \<and>
     distinct (ready_list k) \<and> prio_sorted (t_priority k) (ready_list k) \<and>
     (idle_thread k \<noteq> NULL \<longrightarrow> is_thread k (idle_thread k)) \<and>
     distinct (all_list k) \<and> (\<forall>t. t \<in> set (all_list k) \<longleftrightarrow> is_thread k t \<and> t_status k t \<noteq> THREAD_DYING)"

definition sched_ok :: "kernel \<Rightarrow> bool" where
  "sched_ok k \<longleftrightarrow> lists_ok k \<and>
     (\<forall>t. is_thread k t \<and> t_status k t = THREAD_RUNNING \<longleftrightarrow> t = running k)"

text \<open>No ready thread has a higher priority than the running one, unless the idle thread runs.\<close>

definition prio_ok :: "kernel \<Rightarrow> bool" where
  "prio_ok k \<longleftrightarrow> running k = idle_thread k \<or> (\<forall>t \<in> set (ready_list k). t_priority k t \<le> t_priority k (running k))"

text \<open>Before \<^verbatim>\<open>schedule\<close> nobody runs: the thread that calls it has given up the processor.\<close>

definition handover_ok :: "kernel \<Rightarrow> bool" where
  "handover_ok k \<longleftrightarrow> lists_ok k \<and> is_thread k (running k) \<and>
     (\<forall>t. is_thread k t \<longrightarrow> t_status k t \<noteq> THREAD_RUNNING) \<and>
     (t_status k (running k) = THREAD_DYING \<longrightarrow> running k \<noteq> idle_thread k) \<and>
     (ready_list k = [] \<longrightarrow> idle_thread k \<noteq> NULL \<and> t_status k (idle_thread k) \<noteq> THREAD_DYING)"

lemma lists_ok_ready:
  "lists_ok k \<Longrightarrow> t \<in> set (ready_list k) \<longleftrightarrow> is_thread k t \<and> t_status k t = THREAD_READY \<and> t \<noteq> idle_thread k"
  by (simp add: lists_ok_def)

lemma lists_okD:
  assumes "lists_ok k"
  shows "\<not> is_thread k NULL" "distinct (ready_list k)" "prio_sorted (t_priority k) (ready_list k)"
    "idle_thread k \<noteq> NULL \<Longrightarrow> is_thread k (idle_thread k)" "distinct (all_list k)"
    "t \<in> set (all_list k) \<longleftrightarrow> is_thread k t \<and> t_status k t \<noteq> THREAD_DYING"
    "t \<in> set (ready_list k) \<longleftrightarrow> is_thread k t \<and> t_status k t = THREAD_READY \<and> t \<noteq> idle_thread k"
  using assms by (simp_all add: lists_ok_def)

lemma schedule_spec:
  assumes ok: "handover_ok k"
  shows "\<exists>k'. schedule k = Some k' \<and> sched_ok k' \<and> prio_ok k' \<and>
    running k' = (if ready_list k = [] then idle_thread k else hd (ready_list k)) \<and>
    ready_list k' = tl (ready_list k) \<and> t_priority k' = t_priority k \<and>
    t_status k' = (t_status k)(running k' := THREAD_RUNNING) \<and>
    is_thread k' = (is_thread k)(running k :=
      (t_status k (running k) \<noteq> THREAD_DYING \<or> running k = initial_thread k)) \<and>
    all_list k' = all_list k \<and> timer_list k' = timer_list k \<and> wake_up_tick k' = wake_up_tick k \<and>
    ticks k' = ticks k \<and> intr_ctx k' = intr_ctx k \<and> idle_thread k' = idle_thread k \<and>
    initial_thread k' = initial_thread k"
proof -
  let ?cur = "running k"
  define nxt where "nxt = (if ready_list k = [] then idle_thread k else hd (ready_list k))"
  have lk: "lists_ok k" and cur: "is_thread k ?cur" "t_status k ?cur \<noteq> THREAD_RUNNING"
    using ok by (auto simp: handover_ok_def)
  have nx: "is_thread k nxt" "t_status k nxt \<noteq> THREAD_DYING" "nxt \<noteq> NULL"
  proof -
    have "is_thread k nxt \<and> t_status k nxt \<noteq> THREAD_DYING"
    proof (cases "ready_list k")
      case Nil
      then show ?thesis using ok by (simp add: nxt_def handover_ok_def lists_ok_def)
    next
      case (Cons t ts)
      then have "t \<in> set (ready_list k)" by simp
      then have "is_thread k t \<and> t_status k t = THREAD_READY" using lists_ok_ready [OF lk] by blast
      then show ?thesis using Cons by (simp add: nxt_def)
    qed
    moreover have "\<not> is_thread k NULL" using lk by (simp add: lists_ok_def)
    ultimately show "is_thread k nxt" "t_status k nxt \<noteq> THREAD_DYING" "nxt \<noteq> NULL"
      by (blast, blast, metis)
  qed
  let ?dead = "t_status k ?cur = THREAD_DYING \<and> ?cur \<noteq> initial_thread k"
  define k' where "k' = k\<lparr>ready_list := tl (ready_list k), running := nxt,
     t_status := (t_status k)(nxt := THREAD_RUNNING), thread_ticks := 0,
     is_thread := (is_thread k)(?cur := \<not> ?dead)\<rparr>"
  have ntr: "next_thread_to_run k = (nxt, k\<lparr>ready_list := tl (ready_list k)\<rparr>)"
    by (cases "ready_list k") (simp_all add: next_thread_to_run_def nxt_def)
  have curnull: "?cur \<noteq> NULL" using cur(1) lists_okD(1) [OF lk] by metis
  have "schedule k = Some k'"
  proof (cases "?dead")
    case True
    then have "?cur \<noteq> nxt" using nx by auto
    then show ?thesis using True ntr cur(2) nx(1) curnull
      by (simp add: schedule_def thread_schedule_tail_def k'_def Let_def)
  next
    case False
    then have "(is_thread k)(?cur := \<not> ?dead) = is_thread k" using cur(1) by (intro fun_upd_idem) auto
    then have "k' = k\<lparr>ready_list := tl (ready_list k), running := nxt,
     t_status := (t_status k)(nxt := THREAD_RUNNING), thread_ticks := 0\<rparr>" by (simp add: k'_def)
    then show ?thesis using False ntr cur(2) nx(1)
      by (auto simp: schedule_def thread_schedule_tail_def Let_def)
  qed
  moreover have "sched_ok k'"
  proof -
    have ready: "t \<in> set (tl (ready_list k)) \<longleftrightarrow> t \<in> set (ready_list k) \<and> t \<noteq> nxt" for t
    proof (cases "ready_list k")
      case (Cons x xs)
      then have "x \<notin> set xs" using lists_okD(2) [OF lk] by simp
      then show ?thesis using Cons by (auto simp: nxt_def)
    qed simp
    have idle: "nxt \<noteq> idle_thread k \<Longrightarrow> ready_list k \<noteq> []" by (auto simp: nxt_def)
    have dead: "?dead \<Longrightarrow> ?cur \<noteq> nxt \<and> ?cur \<noteq> idle_thread k \<and> ?cur \<notin> set (ready_list k) \<and> ?cur \<notin> set (all_list k)"
      using nx(2) ok by (auto simp: handover_ok_def lists_okD(6,7) [OF lk])
    have "prio_sorted (t_priority k) (tl (ready_list k))"
      using lists_okD(3) [OF lk] by (cases "ready_list k") (auto simp: prio_sorted_def)
    moreover have "distinct (tl (ready_list k))" using lists_okD(2) [OF lk] by (simp add: distinct_tl)
    moreover have "t \<in> set (tl (ready_list k)) \<longleftrightarrow>
        is_thread k' t \<and> t_status k' t = THREAD_READY \<and> t \<noteq> idle_thread k'" for t
      using dead cur(1) unfolding ready lists_okD(7) [OF lk] by (cases "t = nxt") (auto simp: k'_def)
    moreover have "t \<in> set (all_list k) \<longleftrightarrow> is_thread k' t \<and> t_status k' t \<noteq> THREAD_DYING" for t
      using dead nx cur(1) unfolding lists_okD(6) [OF lk] by (cases "t = nxt") (auto simp: k'_def)
    moreover have "\<not> is_thread k' NULL"
      using curnull lists_okD(1) [OF lk] by (simp add: k'_def)
    moreover have "idle_thread k' \<noteq> NULL \<longrightarrow> is_thread k' (idle_thread k')"
      using dead lists_okD(4) [OF lk] by (cases "idle_thread k = ?cur") (simp_all add: k'_def, metis)
    ultimately have "lists_ok k'"
      using lists_okD(5) [OF lk] by (simp add: lists_ok_def) (simp add: k'_def)
    moreover have "is_thread k' t \<and> t_status k' t = THREAD_RUNNING \<longleftrightarrow> t = running k'" for t
      using ok dead nx(1) by (auto simp: k'_def handover_ok_def)
    ultimately show ?thesis by (simp add: sched_ok_def)
  qed
  moreover have "prio_ok k'"
    using lists_okD(3) [OF lk] by (cases "ready_list k") (auto simp: prio_ok_def k'_def nxt_def prio_sorted_def)
  ultimately show ?thesis using cur(1) by (intro exI [of _ k']) (auto simp: k'_def nxt_def)
qed

section \<open>What each operation does\<close>

lemma sched_okD:
  assumes "sched_ok k"
  shows "lists_ok k" "is_thread k (running k)" "t_status k (running k) = THREAD_RUNNING"
    "is_thread k t \<Longrightarrow> t_status k t = THREAD_RUNNING \<Longrightarrow> t = running k"
    "running k \<notin> set (ready_list k)"
proof -
  have all: "lists_ok k" "is_thread k t \<and> t_status k t = THREAD_RUNNING \<longleftrightarrow> t = running k" for t
    using assms unfolding sched_ok_def by blast+
  show 1: "lists_ok k" "is_thread k (running k)" "t_status k (running k) = THREAD_RUNNING"
    "is_thread k t \<Longrightarrow> t_status k t = THREAD_RUNNING \<Longrightarrow> t = running k"
    using all(1) all(2) [of "running k"] all(2) [of t] by blast+
  show "running k \<notin> set (ready_list k)" using 1 lists_okD(7) by simp
qed

lemma sched_ok_running: "sched_ok k \<Longrightarrow> thread_current k = Some (running k)"
  by (simp add: thread_current_def sched_okD(2,3))

text \<open>There is a thread to run when the running one stops.\<close>

definition has_next :: "kernel \<Rightarrow> bool" where
  "has_next k \<longleftrightarrow> ready_list k \<noteq> [] \<or> idle_thread k \<noteq> NULL \<and> t_status k (idle_thread k) \<noteq> THREAD_DYING"

lemma handover_status:
  assumes ok: "sched_ok k" and st: "st \<noteq> THREAD_RUNNING"
    and r: "r = (if st = THREAD_READY \<and> running k \<noteq> idle_thread k
                 then prio_insert (t_priority k) (running k) (ready_list k) else ready_list k)"
    and a: "a = (if st = THREAD_DYING then remove1 (running k) (all_list k) else all_list k)"
    and n: "r \<noteq> [] \<or> idle_thread k \<noteq> NULL \<and> t_status k (idle_thread k) \<noteq> THREAD_DYING"
    and d: "st = THREAD_DYING \<Longrightarrow> running k \<noteq> idle_thread k"
  shows "handover_ok (set_status (running k) st (k\<lparr>ready_list := r, all_list := a\<rparr>))"
proof -
  note L = lists_okD [OF sched_okD(1) [OF ok]] and R = sched_okD [OF ok]
  let ?k = "set_status (running k) st (k\<lparr>ready_list := r, all_list := a\<rparr>)"
  have "t \<in> set r \<longleftrightarrow> is_thread ?k t \<and> t_status ?k t = THREAD_READY \<and> t \<noteq> idle_thread ?k" for t
    using L(7) [of t] R(2,3) st by (auto simp: r)
  moreover have "t \<in> set a \<longleftrightarrow> is_thread ?k t \<and> t_status ?k t \<noteq> THREAD_DYING" for t
    using L(5) L(6) [of t] R(2,3) by (auto simp: a)
  moreover have "distinct r" "prio_sorted (t_priority k) r" "distinct a"
    using L(2,3,5) R(5) prio_sorted_insert by (auto simp: r a)
  ultimately have "lists_ok ?k" using L(1,4) by (simp add: lists_ok_def)
  moreover have "is_thread k t \<Longrightarrow> t_status ?k t \<noteq> THREAD_RUNNING" for t
    using R(4) [of t] st by auto
  moreover have "idle_thread k = running k \<Longrightarrow> st \<noteq> THREAD_DYING" using d by metis
  ultimately show ?thesis using R(2) st n d by (auto simp: handover_ok_def)
qed

text \<open>What a step leaves as it was.\<close>

definition same_frame :: "kernel \<Rightarrow> kernel \<Rightarrow> bool" where
  "same_frame k k' \<longleftrightarrow> timer_list k' = timer_list k \<and> wake_up_tick k' = wake_up_tick k \<and> ticks k' = ticks k \<and>
     intr_ctx k' = intr_ctx k \<and> idle_thread k' = idle_thread k \<and> initial_thread k' = initial_thread k"

lemma thread_block_spec:
  assumes ok: "sched_ok k" and "\<not> intr_ctx k" and n: "has_next k"
  shows "\<exists>k'. thread_block k = Some k' \<and> sched_ok k' \<and> prio_ok k' \<and> same_frame k k' \<and>
    running k' = (if ready_list k = [] then idle_thread k else hd (ready_list k)) \<and>
    ready_list k' = tl (ready_list k) \<and> t_priority k' = t_priority k \<and> is_thread k' = is_thread k \<and>
    t_status k' = (t_status k)(running k := THREAD_BLOCKED, running k' := THREAD_RUNNING) \<and>
    all_list k' = all_list k"
proof -
  have h: "handover_ok (set_status (running k) THREAD_BLOCKED k)"
    using handover_status [OF ok, of THREAD_BLOCKED "ready_list k" "all_list k"] n by (simp add: has_next_def)
  have keep: "(is_thread k)(running k := True) = is_thread k"
    using sched_okD(2) [OF ok] by (intro fun_upd_idem) simp
  have run: "thread_block k = schedule (set_status (running k) THREAD_BLOCKED k)"
    using sched_ok_running [OF ok] assms(2) by (simp add: thread_block_def)
  from schedule_spec [OF h] show ?thesis unfolding same_frame_def run
    by (elim exE conjE) (intro exI conjI, assumption, simp_all add: keep)
qed

lemma thread_yield_spec:
  assumes ok: "sched_ok k" and "\<not> intr_ctx k"
  shows "\<exists>k'. thread_yield k = Some k' \<and> sched_ok k' \<and> prio_ok k' \<and> same_frame k k' \<and>
    t_priority k' = t_priority k \<and> is_thread k' = is_thread k \<and> all_list k' = all_list k \<and>
    (let r = (if running k = idle_thread k then ready_list k
              else prio_insert (t_priority k) (running k) (ready_list k)) in
     running k' = (if r = [] then idle_thread k else hd r) \<and> ready_list k' = tl r \<and>
     t_status k' = (t_status k)(running k := THREAD_READY, running k' := THREAD_RUNNING))"
proof -
  let ?r = "if running k = idle_thread k then ready_list k
            else prio_insert (t_priority k) (running k) (ready_list k)"
  have "?r \<noteq> [] \<or> idle_thread k \<noteq> NULL \<and> t_status k (idle_thread k) \<noteq> THREAD_DYING"
  proof (cases "running k = idle_thread k")
    case True
    then have "is_thread k (idle_thread k)" "t_status k (idle_thread k) = THREAD_RUNNING"
      using sched_okD(2,3) [OF ok] by simp_all
    then show ?thesis using lists_okD(1) [OF sched_okD(1) [OF ok]] by (metis thread_status.distinct(5))
  next
    case False
    then have "set ?r \<noteq> {}" by simp
    then show ?thesis by (metis set_empty)
  qed
  then have h: "handover_ok (set_status (running k) THREAD_READY (k\<lparr>ready_list := ?r\<rparr>))"
    using handover_status [OF ok, of THREAD_READY ?r "all_list k"] by (auto split: if_splits)
  have keep: "(is_thread k)(running k := True) = is_thread k"
    using sched_okD(2) [OF ok] by (intro fun_upd_idem) simp
  have run: "thread_yield k = schedule (set_status (running k) THREAD_READY (k\<lparr>ready_list := ?r\<rparr>))"
    using sched_ok_running [OF ok] assms(2) by (auto simp: thread_yield_def Let_def)
  from schedule_spec [OF h] show ?thesis unfolding same_frame_def Let_def run
    by (elim exE conjE) (intro exI conjI, assumption, simp_all add: keep)
qed

text \<open>The first half of \<^verbatim>\<open>thread_unblock\<close>: the thread becomes ready.\<close>

definition make_ready :: "tid \<Rightarrow> kernel \<Rightarrow> kernel" where
  "make_ready t k = set_status t THREAD_READY
     (k\<lparr>ready_list := prio_insert (t_priority k) t (ready_list k)\<rparr>)"

lemma make_ready_ok:
  assumes ok: "sched_ok k" and t: "is_thread k t" "t_status k t = THREAD_BLOCKED" "t \<noteq> idle_thread k"
  shows "sched_ok (make_ready t k)"
proof -
  note L = lists_okD [OF sched_okD(1) [OF ok]] and R = sched_okD [OF ok]
  let ?k = "make_ready t k"
  have new: "t \<notin> set (ready_list k)" "t \<noteq> running k" using L(7) [of t] R(3) t(2) by auto
  have "x \<in> set (ready_list ?k) \<longleftrightarrow> is_thread ?k x \<and> t_status ?k x = THREAD_READY \<and> x \<noteq> idle_thread ?k" for x
    using L(7) [of x] t by (auto simp: make_ready_def)
  moreover have "x \<in> set (all_list ?k) \<longleftrightarrow> is_thread ?k x \<and> t_status ?k x \<noteq> THREAD_DYING" for x
    using L(6) [of x] t by (auto simp: make_ready_def)
  moreover have "distinct (ready_list ?k)" "prio_sorted (t_priority ?k) (ready_list ?k)" "distinct (all_list ?k)"
    using L(2,3,5) new prio_sorted_insert by (auto simp: make_ready_def)
  ultimately have "lists_ok ?k" using L(1,4) by (simp add: lists_ok_def) (simp add: make_ready_def)
  moreover have "is_thread ?k x \<and> t_status ?k x = THREAD_RUNNING \<longleftrightarrow> x = running ?k" for x
    using R(2,3) R(4) [of x] new(2) by (auto simp: make_ready_def)
  ultimately show ?thesis by (simp add: sched_ok_def)
qed

text \<open>Waking a thread of higher priority than the running one yields to it, which an
  interrupt handler must not do.\<close>

definition preempts :: "tid \<Rightarrow> kernel \<Rightarrow> bool" where
  "preempts t k \<longleftrightarrow> t_priority k t > t_priority k (running k) \<and> running k \<noteq> idle_thread k"

lemma thread_unblock_run:
  assumes ok: "sched_ok k" and t: "is_thread k t" "t_status k t = THREAD_BLOCKED"
  shows "thread_unblock t k = (if preempts t k then thread_yield (make_ready t k) else Some (make_ready t k))"
proof -
  have "t \<noteq> running k" using sched_okD(3) [OF ok] t(2) by auto
  then show ?thesis
    using t sched_okD(2,3) [OF ok]
    by (simp add: thread_unblock_def make_ready_def preempts_def thread_current_def Let_def)
qed

lemma thread_unblock_spec:
  assumes ok: "sched_ok k" and pr: "prio_ok k"
    and t: "is_thread k t" "t_status k t = THREAD_BLOCKED" "t \<noteq> idle_thread k"
    and ctx: "intr_ctx k \<longrightarrow> \<not> preempts t k"
  shows "\<exists>k'. thread_unblock t k = Some k' \<and> sched_ok k' \<and> prio_ok k' \<and> same_frame k k' \<and>
    t_priority k' = t_priority k \<and> is_thread k' = is_thread k \<and> all_list k' = all_list k \<and>
    running k' = (if preempts t k then t else running k) \<and>
    t_status k' = (if preempts t k then (t_status k)(running k := THREAD_READY, t := THREAD_RUNNING)
                   else (t_status k)(t := THREAD_READY))"
proof -
  have mk: "sched_ok (make_ready t k)" by (rule make_ready_ok [OF ok t])
  have tr: "t \<noteq> running k" using sched_okD(3) [OF ok] t(2) by auto
  show ?thesis
  proof (cases "preempts t k")
    case False
    have "prio_ok (make_ready t k)"
      using pr False by (auto simp: prio_ok_def preempts_def make_ready_def)
    then show ?thesis
      using thread_unblock_run [OF ok t(1,2)] False mk
      by (intro exI [of _ "make_ready t k"]) (simp add: make_ready_def same_frame_def)
  next
    case True
    let ?m = "make_ready t k"
    have ctx': "\<not> intr_ctx ?m" using ctx True by (auto simp: make_ready_def)
    have higher: "\<forall>x \<in> insert (running k) (set (ready_list k)). t_priority k x < t_priority k t"
      using pr True by (auto simp: prio_ok_def preempts_def intro: le_less_trans)
    have ins: "prio_insert (t_priority k) t (ready_list k) = t # ready_list k"
      using higher by (cases "ready_list k") auto
    have nl: "\<not> t_priority k t < t_priority k (running k)" using higher by auto
    have hd: "prio_insert (t_priority k) (running k) (t # ready_list k) = t # prio_insert (t_priority k) (running k) (ready_list k)"
      using higher by auto
    have ni: "running k \<noteq> idle_thread k" using True by (simp add: preempts_def)
    have f: "running ?m = running k" "ready_list ?m = t # ready_list k" "t_priority ?m = t_priority k"
      "idle_thread ?m = idle_thread k" by (simp_all add: make_ready_def ins)
    have r: "(if running k = idle_thread k then t # ready_list k
        else prio_insert (t_priority k) (running k) (t # ready_list k)) =
        t # prio_insert (t_priority k) (running k) (ready_list k)" using ni nl by simp
    obtain k' where k': "thread_yield ?m = Some k'" "sched_ok k'" "prio_ok k'" "same_frame ?m k'"
      "t_priority k' = t_priority k" "is_thread k' = is_thread ?m" "all_list k' = all_list ?m"
      "running k' = t" "t_status k' = (t_status ?m)(running k := THREAD_READY, t := THREAD_RUNNING)"
      using thread_yield_spec [OF mk ctx'] unfolding f r Let_def by (elim exE conjE) simp
    then show ?thesis
      using thread_unblock_run [OF ok t(1,2)] True tr
      by (intro exI [of _ k']) (auto simp: make_ready_def same_frame_def fun_upd_twist)
  qed
qed

lemma init_thread_ok:
  assumes ok: "sched_ok k" and pr: "prio_ok k" and t: "t \<noteq> NULL" "\<not> is_thread k t" and p: "PRI_MIN \<le> p" "p \<le> PRI_MAX"
  shows "\<exists>k'. init_thread t p k = Some k' \<and> sched_ok k' \<and> prio_ok k' \<and> is_thread k' = (is_thread k)(t := True) \<and>
    t_status k' t = THREAD_BLOCKED \<and> t_priority k' = (t_priority k)(t := p) \<and> running k' = running k \<and>
    idle_thread k' = idle_thread k \<and> intr_ctx k' = intr_ctx k \<and> ready_list k' = ready_list k"
proof -
  note L = lists_okD [OF sched_okD(1) [OF ok]] and R = sched_okD [OF ok]
  obtain k' where k': "init_thread t p k = Some k'" "k' = set_status t THREAD_BLOCKED k\<lparr>
      t_priority := (t_priority k)(t := p), wake_up_tick := (wake_up_tick k)(t := 0),
      is_thread := (is_thread k)(t := True), all_list := all_list k @ [t]\<rparr>"
    using t(1) p by (simp add: init_thread_def Let_def)
  have new: "t \<notin> set (ready_list k)" "t \<notin> set (all_list k)" "t \<noteq> running k" "t \<noteq> idle_thread k"
    using L(7) [of t] L(6) [of t] R(2) L(4) t by auto
  have "x \<in> set (ready_list k') \<longleftrightarrow> is_thread k' x \<and> t_status k' x = THREAD_READY \<and> x \<noteq> idle_thread k'" for x
    using L(7) [of x] new by (auto simp: k'(2))
  moreover have "x \<in> set (all_list k') \<longleftrightarrow> is_thread k' x \<and> t_status k' x \<noteq> THREAD_DYING" for x
    using L(6) [of x] new t by (auto simp: k'(2))
  moreover have "prio_sorted (t_priority k') (ready_list k')"
  proof -
    have "t_priority k' x = t_priority k x" if "x \<in> set (ready_list k)" for x
      using new(1) that by (auto simp: k'(2))
    then have "prio_sorted (t_priority k') (ready_list k) = prio_sorted (t_priority k) (ready_list k)"
      by (rule prio_sorted_cong)
    moreover have "ready_list k' = ready_list k" by (simp add: k'(2))
    ultimately show ?thesis using L(3) by simp
  qed
  moreover have "distinct (ready_list k')" "distinct (all_list k')" "\<not> is_thread k' NULL"
    "idle_thread k' \<noteq> NULL \<longrightarrow> is_thread k' (idle_thread k')"
    using L(1,2,4,5) new(2) t(1) by (auto simp: k'(2))
  ultimately have "lists_ok k'" by (simp add: lists_ok_def)
  moreover have "is_thread k' x \<and> t_status k' x = THREAD_RUNNING \<longleftrightarrow> x = running k'" for x
    using R(2,3) R(4) [of x] new(3) by (auto simp: k'(2))
  ultimately have "sched_ok k'" by (simp add: sched_ok_def)
  moreover have "prio_ok k'" using pr new by (auto simp: prio_ok_def k'(2))
  ultimately show ?thesis using k' by simp
qed

lemma thread_create_spec:
  assumes ok: "sched_ok k" and pr: "prio_ok k" and t: "t \<noteq> NULL" "\<not> is_thread k t"
    and p: "PRI_MIN \<le> p" "p \<le> PRI_MAX" and ctx: "\<not> intr_ctx k"
  shows "\<exists>k'. thread_create t p k = Some (t, k') \<and> sched_ok k' \<and> prio_ok k' \<and> is_thread k' t \<and>
    t_priority k' t = p \<and> idle_thread k' = idle_thread k \<and>
    running k' = (if p > t_priority k (running k) \<and> running k \<noteq> idle_thread k then t else running k)"
proof -
  note L = lists_okD [OF sched_okD(1) [OF ok]] and R = sched_okD [OF ok]
  obtain k1 where k1: "init_thread t p k = Some k1" "sched_ok k1" "prio_ok k1" "is_thread k1 = (is_thread k)(t := True)"
    "t_status k1 t = THREAD_BLOCKED" "t_priority k1 = (t_priority k)(t := p)" "running k1 = running k"
    "idle_thread k1 = idle_thread k" "intr_ctx k1 = intr_ctx k"
    using init_thread_ok [OF ok pr t p] by blast
  have ni: "t \<noteq> idle_thread k1" "t \<noteq> running k" using t L(4) R(2) k1(8) by metis+
  have "is_thread k1 t" using k1(4) by simp
  then obtain k' where "thread_unblock t k1 = Some k'" "sched_ok k'" "prio_ok k'" "same_frame k1 k'"
    "t_priority k' = t_priority k1" "is_thread k' = is_thread k1" "running k' = (if preempts t k1 then t else running k1)"
    using thread_unblock_spec [OF k1(2,3) _ k1(5) ni(1)] ctx k1(9) by metis
  then show ?thesis using k1 t(1) ni(2) by (auto simp: thread_create_def preempts_def same_frame_def)
qed

lemma thread_exit_spec:
  assumes ok: "sched_ok k" and "\<not> intr_ctx k" and n: "has_next k" and d: "running k \<noteq> idle_thread k"
  shows "\<exists>k'. thread_exit k = Some k' \<and> sched_ok k' \<and> prio_ok k' \<and> same_frame k k' \<and>
    running k' = (if ready_list k = [] then idle_thread k else hd (ready_list k)) \<and>
    t_priority k' = t_priority k \<and>
    t_status k' = (t_status k)(running k := THREAD_DYING, running k' := THREAD_RUNNING) \<and>
    is_thread k' = (is_thread k)(running k := (running k = initial_thread k)) \<and>
    all_list k' = remove1 (running k) (all_list k)"
proof -
  have h: "handover_ok (set_status (running k) THREAD_DYING (k\<lparr>all_list := remove1 (running k) (all_list k)\<rparr>))"
    using handover_status [OF ok, of THREAD_DYING "ready_list k" "remove1 (running k) (all_list k)"] n d
    by (simp add: has_next_def)
  have run: "thread_exit k = schedule (set_status (running k) THREAD_DYING (k\<lparr>all_list := remove1 (running k) (all_list k)\<rparr>))"
    using sched_ok_running [OF ok] assms(2) by (simp add: thread_exit_def Let_def)
  from schedule_spec [OF h] show ?thesis unfolding same_frame_def run
    by (elim exE conjE) (intro exI conjI, assumption, simp_all)
qed

lemma running_priority_ok:
  assumes ok: "sched_ok k"
  shows "sched_ok (k\<lparr>t_priority := (t_priority k)(running k := p)\<rparr>)"
proof -
  note L = lists_okD [OF sched_okD(1) [OF ok]] and R = sched_okD [OF ok]
  have "prio_sorted ((t_priority k)(running k := p)) (ready_list k) = prio_sorted (t_priority k) (ready_list k)"
    using R(5) by (intro prio_sorted_cong) auto
  then show ?thesis using ok by (simp add: sched_ok_def lists_ok_def)
qed

lemma thread_set_priority_spec:
  assumes ok: "sched_ok k" and ctx: "\<not> intr_ctx k"
  shows "\<exists>k'. thread_set_priority p k = Some k' \<and> sched_ok k' \<and> prio_ok k' \<and> same_frame k k' \<and>
    t_priority k' = (t_priority k)(running k := p) \<and> is_thread k' = is_thread k \<and>
    t_status k' = (t_status k)(running k := THREAD_READY, running k' := THREAD_RUNNING)"
proof -
  let ?k = "k\<lparr>t_priority := (t_priority k)(running k := p)\<rparr>"
  have run: "thread_set_priority p k = thread_yield ?k"
    using sched_ok_running [OF ok] by (simp add: thread_set_priority_def)
  have "\<not> intr_ctx ?k" using ctx by simp
  from thread_yield_spec [OF running_priority_ok [OF ok] this] show ?thesis
    unfolding run same_frame_def Let_def
    by (elim exE conjE) (intro exI conjI, assumption, simp_all)
qed

section \<open>The sleep list\<close>

lemma set_timer_insert_same [simp]: "set (timer_insert_same pri c xs) = insert c (set xs)"
  by (induction xs) auto

lemma set_timer_insert [simp]: "set (timer_insert wake pri c n xs) = insert c (set xs)"
  by (induction xs) auto

lemma distinct_timer_insert_same [simp]:
  "distinct (timer_insert_same pri c xs) \<longleftrightarrow> c \<notin> set xs \<and> distinct xs"
  by (induction xs) auto

lemma distinct_timer_insert [simp]: "distinct (timer_insert wake pri c n xs) \<longleftrightarrow> c \<notin> set xs \<and> distinct xs"
  by (induction xs) auto

text \<open>The insertion keeps the list sorted by wake-up tick when no sleeper has the same tick.\<close>

lemma timer_insert_sorted:
  "sorted (map wake xs) \<Longrightarrow> wake c = n \<Longrightarrow> n \<notin> wake ` set xs \<Longrightarrow> sorted (map wake (timer_insert wake pri c n xs))"
proof (induction xs)
  case (Cons x xs)
  then show ?case by (auto simp: less_imp_le)
qed simp

definition timer_ok :: "kernel \<Rightarrow> bool" where
  "timer_ok k \<longleftrightarrow> distinct (timer_list k) \<and> (\<forall>t \<in> set (timer_list k).
     is_thread k t \<and> t_status k t = THREAD_BLOCKED \<and> t \<noteq> idle_thread k)"

text \<open>Inside the interrupt handler: a woken thread that would preempt stops the kernel.\<close>

lemma thread_unblock_in_interrupt:
  assumes ok: "sched_ok k" and t: "is_thread k t" "t_status k t = THREAD_BLOCKED" and ctx: "intr_ctx k"
  shows "thread_unblock t k = (if preempts t k then None else Some (make_ready t k))"
proof -
  have "t \<noteq> running k" using sched_okD(3) [OF ok] t(2) by auto
  then have "thread_yield (make_ready t k) = None"
    using ctx sched_okD(2,3) [OF ok] by (simp add: thread_yield_def make_ready_def thread_current_def)
  then show ?thesis using thread_unblock_run [OF ok t] by simp
qed

lemma wake_loop_spec:
  "sched_ok k \<Longrightarrow> prio_ok k \<Longrightarrow> timer_ok k \<Longrightarrow> intr_ctx k \<Longrightarrow> timer_list k = ls \<Longrightarrow> wake_loop ls k = Some k' \<Longrightarrow>
   sched_ok k' \<and> prio_ok k' \<and> timer_ok k' \<and> running k' = running k \<and>
   timer_list k' = dropWhile (\<lambda>t. wake_up_tick k t \<le> ticks k) ls \<and>
   t_status k' = (\<lambda>t. if t \<in> set (takeWhile (\<lambda>t. wake_up_tick k t \<le> ticks k) ls) then THREAD_READY else t_status k t) \<and>
   is_thread k' = is_thread k \<and> t_priority k' = t_priority k \<and> intr_ctx k' = intr_ctx k \<and>
   idle_thread k' = idle_thread k \<and> all_list k' = all_list k \<and> ticks k' = ticks k \<and>
   wake_up_tick k' = wake_up_tick k \<and> yield_on_return k' = yield_on_return k"
proof (induction ls arbitrary: k)
  case Nil
  then show ?case by simp
next
  case (Cons h ls)
  show ?case
  proof (cases "ticks k < wake_up_tick k h")
    case True
    then show ?thesis using Cons.prems by auto
  next
    case False
    have h: "is_thread k h" "t_status k h = THREAD_BLOCKED" "h \<noteq> idle_thread k" "h \<notin> set ls" "distinct ls"
      using Cons.prems(3,5) by (auto simp: timer_ok_def)
    have np: "\<not> preempts h k"
      using Cons.prems(6) False thread_unblock_in_interrupt [OF Cons.prems(1) h(1,2) Cons.prems(4)] by auto
    let ?m = "make_ready h k\<lparr>timer_list := ls\<rparr>"
    have ub: "thread_unblock h k = Some (make_ready h k)"
      using np thread_unblock_run [OF Cons.prems(1) h(1,2)] by simp
    have tl: "tl (timer_list (make_ready h k)) = ls" using Cons.prems(5) by (simp add: make_ready_def)
    have "wake_loop ls ?m = Some k'" using Cons.prems(6) False ub tl by simp
    moreover have "sched_ok ?m"
      using make_ready_ok [OF Cons.prems(1) h(1-3)] by (simp add: sched_ok_def lists_ok_def)
    moreover have "prio_ok ?m" using Cons.prems(2) np by (auto simp: prio_ok_def preempts_def make_ready_def)
    moreover have "timer_ok ?m" using Cons.prems(3,5) h(4,5) by (auto simp: timer_ok_def make_ready_def)
    moreover have "intr_ctx ?m" using Cons.prems(4) by (simp add: make_ready_def)
    ultimately show ?thesis using Cons.IH [of ?m] False
      by (auto simp: make_ready_def fun_eq_iff)
  qed
qed

section \<open>Every reachable state\<close>

definition thread_init :: "tid \<Rightarrow> int \<Rightarrow> kernel" where
  "thread_init t pri = \<lparr>is_thread = (\<lambda>x. x = t), t_status = (\<lambda>_. THREAD_BLOCKED)(t := THREAD_RUNNING),
     t_priority = (\<lambda>_. 0)(t := pri), wake_up_tick = (\<lambda>_. 0), ready_list = [], all_list = [t], timer_list = [],
     running = t, idle_thread = NULL, initial_thread = t, ticks = 0, thread_ticks = 0, idle_ticks = 0,
     kernel_ticks = 0, intr_ctx = False, yield_on_return = False\<rparr>"

text \<open>The idle thread, when it first runs, records itself.\<close>

definition idle_start :: "kernel \<Rightarrow> kernel" where
  "idle_start k = k\<lparr>idle_thread := running k\<rparr>"

text \<open>One operation. A caller of \<^verbatim>\<open>thread_unblock\<close> hands over a thread it blocked itself, so
  neither the idle thread nor a sleeping one; the idle thread neither exits nor sleeps.\<close>

inductive sched_step :: "kernel \<Rightarrow> kernel \<Rightarrow> bool" where
  block: "thread_block k = Some k' \<Longrightarrow> sched_step k k'"
| yield: "thread_yield k = Some k' \<Longrightarrow> sched_step k k'"
| unblock: "thread_unblock t k = Some k' \<Longrightarrow> t \<noteq> idle_thread k \<Longrightarrow> t \<notin> set (timer_list k) \<Longrightarrow> sched_step k k'"
| create: "thread_create t p k = Some (r, k') \<Longrightarrow> \<not> is_thread k t \<Longrightarrow> sched_step k k'"
| exit: "thread_exit k = Some k' \<Longrightarrow> running k \<noteq> idle_thread k \<Longrightarrow> sched_step k k'"
| set_priority: "thread_set_priority p k = Some k' \<Longrightarrow> sched_step k k'"
| sleep: "timer_sleep n k = Some k' \<Longrightarrow> running k \<noteq> idle_thread k \<Longrightarrow> sched_step k k'"
| timer: "timer_event k = Some k' \<Longrightarrow> sched_step k k'"
| idle: "idle_thread k = NULL \<Longrightarrow> sched_step k (idle_start k)"

inductive_cases sched_stepE: "sched_step k k'"

definition kernel_ok :: "kernel \<Rightarrow> bool" where
  "kernel_ok k \<longleftrightarrow> sched_ok k \<and> prio_ok k \<and> timer_ok k \<and> \<not> intr_ctx k \<and>
     (idle_thread k \<noteq> NULL \<longrightarrow> t_status k (idle_thread k) \<noteq> THREAD_DYING)"

text \<open>The invariant looks at the threads and lists only.\<close>

definition same_threads :: "kernel \<Rightarrow> kernel \<Rightarrow> bool" where
  "same_threads k k' \<longleftrightarrow> is_thread k' = is_thread k \<and> t_status k' = t_status k \<and> t_priority k' = t_priority k \<and>
     ready_list k' = ready_list k \<and> all_list k' = all_list k \<and> timer_list k' = timer_list k \<and>
     running k' = running k \<and> idle_thread k' = idle_thread k"

lemma same_threads_ok:
  "same_threads k k' \<Longrightarrow> sched_ok k' = sched_ok k \<and> prio_ok k' = prio_ok k \<and> timer_ok k' = timer_ok k"
  by (simp add: same_threads_def sched_ok_def lists_ok_def prio_ok_def timer_ok_def)

lemma hd_or_in: "(if r = [] then i else hd r) \<in> insert i (set r)"
  by (cases r) auto

lemma handover_needs_next:
  assumes ok: "kernel_ok k" and run: "schedule (set_status (running k) st (k\<lparr>all_list := a\<rparr>)) = Some k'"
  shows "has_next k"
proof -
  have "\<not> is_thread k NULL" using ok lists_okD(1) sched_okD(1) by (auto simp: kernel_ok_def)
  then have "ready_list k \<noteq> [] \<or> idle_thread k \<noteq> NULL"
    using run by (cases "ready_list k")
      (auto simp: schedule_def next_thread_to_run_def kassert_bind_Some_iff Let_def intro: gr0I)
  then show ?thesis using ok by (auto simp: kernel_ok_def has_next_def)
qed

lemma timer_ok_sleepers:
  assumes "sched_ok k" and "timer_ok k" and "t \<in> set (timer_list k)"
  shows "t \<noteq> running k" "t \<notin> set (ready_list k)" "t \<noteq> idle_thread k" "is_thread k t" "t_status k t = THREAD_BLOCKED"
proof -
  show 1: "is_thread k t" "t_status k t = THREAD_BLOCKED" "t \<noteq> idle_thread k" using assms(2,3) by (auto simp: timer_ok_def)
  show "t \<noteq> running k" "t \<notin> set (ready_list k)"
    using 1 sched_okD(3) [OF assms(1)] lists_okD(7) [OF sched_okD(1) [OF assms(1)], of t] by auto
qed

lemma idle_alive:
  assumes "kernel_ok k" and "idle_thread k' = idle_thread k"
    and "\<And>t. t \<noteq> NULL \<Longrightarrow> t = idle_thread k \<Longrightarrow> t_status k' t = THREAD_DYING \<Longrightarrow> t_status k t = THREAD_DYING"
  shows "idle_thread k' \<noteq> NULL \<longrightarrow> t_status k' (idle_thread k') \<noteq> THREAD_DYING"
  using assms by (auto simp: kernel_ok_def)

lemma yield_keeps:
  assumes ok: "kernel_ok k" and run: "thread_yield k = Some k'"
  shows "kernel_ok k'"
proof -
  have s: "sched_ok k" "timer_ok k" "\<not> intr_ctx k" using ok by (auto simp: kernel_ok_def)
  let ?r = "if running k = idle_thread k then ready_list k else prio_insert (t_priority k) (running k) (ready_list k)"
  have 1: "sched_ok k'" "prio_ok k'" "same_frame k k'" "is_thread k' = is_thread k"
    "running k' = (if ?r = [] then idle_thread k else hd ?r)"
    "t_status k' = (t_status k)(running k := THREAD_READY, running k' := THREAD_RUNNING)"
    using thread_yield_spec [OF s(1,3)] run by (auto simp: Let_def)
  have "running k' \<in> insert (idle_thread k) (set ?r)" unfolding 1(5) by (rule hd_or_in)
  moreover have "set ?r \<subseteq> insert (running k) (set (ready_list k))" by auto
  ultimately have "running k' \<in> insert (idle_thread k) (insert (running k) (set (ready_list k)))" by blast
  then have "running k' \<notin> set (timer_list k)"
    using timer_ok_sleepers(1-3) [OF s(1,2)] by blast
  then have "timer_ok k'"
    using s(2) 1(3,4,6) timer_ok_sleepers [OF s(1,2)] by (auto simp: timer_ok_def same_frame_def)
  moreover have "idle_thread k' \<noteq> NULL \<longrightarrow> t_status k' (idle_thread k') \<noteq> THREAD_DYING"
    by (rule idle_alive [OF ok]) (use 1(3,6) in \<open>auto simp: same_frame_def split: if_splits\<close>)
  ultimately show ?thesis using 1(1-3) s(3) by (simp add: kernel_ok_def same_frame_def)
qed

lemma block_keeps:
  assumes ok: "kernel_ok k" and run: "thread_block k = Some k'"
  shows "kernel_ok k'"
proof -
  have s: "sched_ok k" "timer_ok k" "\<not> intr_ctx k" using ok by (auto simp: kernel_ok_def)
  have "schedule (set_status (running k) THREAD_BLOCKED (k\<lparr>all_list := all_list k\<rparr>)) = Some k'"
    using run sched_ok_running [OF s(1)] s(3) by (simp add: thread_block_def)
  then have n: "has_next k" by (rule handover_needs_next [OF ok])
  have 1: "sched_ok k'" "prio_ok k'" "same_frame k k'" "is_thread k' = is_thread k"
    "running k' = (if ready_list k = [] then idle_thread k else hd (ready_list k))"
    "t_status k' = (t_status k)(running k := THREAD_BLOCKED, running k' := THREAD_RUNNING)"
    using thread_block_spec [OF s(1,3) n] run by auto
  have "running k' \<in> insert (idle_thread k) (set (ready_list k))" unfolding 1(5) by (rule hd_or_in)
  then have "running k' \<notin> set (timer_list k)"
    using timer_ok_sleepers(1-3) [OF s(1,2)] by blast
  then have "timer_ok k'"
    using s(2) 1(3,4,6) timer_ok_sleepers [OF s(1,2)] by (auto simp: timer_ok_def same_frame_def)
  moreover have "idle_thread k' \<noteq> NULL \<longrightarrow> t_status k' (idle_thread k') \<noteq> THREAD_DYING"
    by (rule idle_alive [OF ok]) (use 1(3,6) in \<open>auto simp: same_frame_def split: if_splits\<close>)
  ultimately show ?thesis using 1(1-3) s(3) by (simp add: kernel_ok_def same_frame_def)
qed

lemma exit_keeps:
  assumes ok: "kernel_ok k" and run: "thread_exit k = Some k'" and d: "running k \<noteq> idle_thread k"
  shows "kernel_ok k'"
proof -
  have s: "sched_ok k" "timer_ok k" "\<not> intr_ctx k" using ok by (auto simp: kernel_ok_def)
  have "schedule (set_status (running k) THREAD_DYING (k\<lparr>all_list := remove1 (running k) (all_list k)\<rparr>)) = Some k'"
    using run sched_ok_running [OF s(1)] s(3) by (simp add: thread_exit_def Let_def)
  then have n: "has_next k" by (rule handover_needs_next [OF ok])
  have 1: "sched_ok k'" "prio_ok k'" "same_frame k k'"
    "running k' = (if ready_list k = [] then idle_thread k else hd (ready_list k))"
    "t_status k' = (t_status k)(running k := THREAD_DYING, running k' := THREAD_RUNNING)"
    "is_thread k' = (is_thread k)(running k := (running k = initial_thread k))"
    using thread_exit_spec [OF s(1,3) n d] run by auto
  have "running k' \<in> insert (idle_thread k) (set (ready_list k))" unfolding 1(4) by (rule hd_or_in)
  then have "running k' \<notin> set (timer_list k)"
    using timer_ok_sleepers(1-3) [OF s(1,2)] by blast
  then have "timer_ok k'"
    using s(2) 1(3,5,6) timer_ok_sleepers [OF s(1,2)] by (auto simp: timer_ok_def same_frame_def)
  moreover have "idle_thread k' \<noteq> NULL \<longrightarrow> t_status k' (idle_thread k') \<noteq> THREAD_DYING"
    by (rule idle_alive [OF ok]) (use 1(3,5) d in \<open>auto simp: same_frame_def split: if_splits\<close>)
  ultimately show ?thesis using 1(1-3) s(3) by (simp add: kernel_ok_def same_frame_def)
qed

lemma unblock_needs:
  "thread_unblock t k = Some k' \<Longrightarrow> is_thread k t \<and> t_status k t = THREAD_BLOCKED"
  by (simp add: thread_unblock_def kassert_bind_Some_iff)

lemma unblock_keeps:
  assumes ok: "kernel_ok k" and run: "thread_unblock t k = Some k'" and t: "t \<noteq> idle_thread k" "t \<notin> set (timer_list k)"
  shows "kernel_ok k'"
proof -
  have s: "sched_ok k" "prio_ok k" "timer_ok k" "\<not> intr_ctx k" using ok by (auto simp: kernel_ok_def)
  have 1: "sched_ok k'" "prio_ok k'" "same_frame k k'" "is_thread k' = is_thread k"
    "t_status k' = (if preempts t k then (t_status k)(running k := THREAD_READY, t := THREAD_RUNNING)
                   else (t_status k)(t := THREAD_READY))"
    using thread_unblock_spec [OF s(1,2) _ _ t(1)] unblock_needs [OF run] s(4) run by auto
  have "timer_ok k'"
    using s(3) 1(3,4,5) t(2) timer_ok_sleepers [OF s(1,3)] by (auto simp: timer_ok_def same_frame_def)
  moreover have "idle_thread k' \<noteq> NULL \<longrightarrow> t_status k' (idle_thread k') \<noteq> THREAD_DYING"
    by (rule idle_alive [OF ok]) (use 1(3,5) in \<open>auto simp: same_frame_def split: if_splits\<close>)
  ultimately show ?thesis using 1(1-3) s(4) by (simp add: kernel_ok_def same_frame_def)
qed

lemma init_thread_keeps:
  assumes ok: "kernel_ok k" and run: "init_thread t p k = Some k'" and new: "\<not> is_thread k t"
  shows "kernel_ok k'" "t \<noteq> idle_thread k'" "t \<notin> set (timer_list k')"
proof -
  have s: "sched_ok k" "prio_ok k" "timer_ok k" "\<not> intr_ctx k" using ok by (auto simp: kernel_ok_def)
  have a: "t \<noteq> NULL" "PRI_MIN \<le> p" "p \<le> PRI_MAX" and eq: "k' = set_status t THREAD_BLOCKED k\<lparr>
      t_priority := (t_priority k)(t := p), wake_up_tick := (wake_up_tick k)(t := 0),
      is_thread := (is_thread k)(t := True), all_list := all_list k @ [t]\<rparr>"
    using run by (auto simp: init_thread_def kassert_bind_Some_iff Let_def)
  have so: "sched_ok k'" "prio_ok k'" using init_thread_ok [OF s(1,2) a(1) new a(2,3)] run by auto
  show ni: "t \<noteq> idle_thread k'" using eq new a(1) lists_okD(4) [OF sched_okD(1) [OF s(1)]] by auto
  show "t \<notin> set (timer_list k')" using eq new timer_ok_sleepers(4) [OF s(1,3)] by auto
  have "timer_ok k'" using s(3) new by (auto simp: timer_ok_def eq)
  then show "kernel_ok k'" using ok so ni by (simp add: kernel_ok_def) (simp add: eq)
qed

lemma running_priority_keeps:
  assumes ok: "kernel_ok k" and run: "thread_set_priority p k = Some k'"
  shows "kernel_ok k'"
proof -
  have s: "sched_ok k" "timer_ok k" "\<not> intr_ctx k" using ok by (auto simp: kernel_ok_def)
  let ?k = "k\<lparr>t_priority := (t_priority k)(running k := p)\<rparr>"
  have y: "thread_yield ?k = Some k'"
    using run sched_ok_running [OF s(1)] by (simp add: thread_set_priority_def)
  have 1: "sched_ok k'" "prio_ok k'" "same_frame k k'" "is_thread k' = is_thread k"
    "t_status k' = (t_status k)(running k := THREAD_READY, running k' := THREAD_RUNNING)"
    using thread_set_priority_spec [OF s(1,3), of p] run by auto
  have "running k' \<notin> set (timer_list k)"
  proof
    assume "running k' \<in> set (timer_list k)"
    moreover have "timer_ok ?k" using s(2) by (simp add: timer_ok_def)
    moreover have "\<not> intr_ctx ?k" using s(3) by simp
    ultimately show False
      using timer_ok_sleepers(1-3) [OF running_priority_ok [OF s(1), of p], of "running k'"]
        thread_yield_spec [OF running_priority_ok [OF s(1), of p]] y
        hd_or_in [of "if running k = idle_thread k then ready_list k
          else prio_insert (t_priority ?k) (running k) (ready_list k)" "idle_thread k"]
      by (auto simp: Let_def split: if_splits)
  qed
  then have "timer_ok k'"
    using s(2) 1(3,4,5) timer_ok_sleepers [OF s(1,2)] by (auto simp: timer_ok_def same_frame_def)
  moreover have "idle_thread k' \<noteq> NULL \<longrightarrow> t_status k' (idle_thread k') \<noteq> THREAD_DYING"
    by (rule idle_alive [OF ok]) (use 1(3,5) in \<open>auto simp: same_frame_def split: if_splits\<close>)
  ultimately show ?thesis using 1(1-3) s(3) by (simp add: kernel_ok_def same_frame_def)
qed

lemma sleep_spec:
  assumes ok: "kernel_ok k" and run: "timer_sleep n k = Some k'" and ni: "running k \<noteq> idle_thread k" and n: "0 < n"
  shows "kernel_ok k' \<and> t_status k' (running k) = THREAD_BLOCKED \<and> wake_up_tick k' (running k) = ticks k + n \<and>
    timer_list k' = timer_insert ((wake_up_tick k)(running k := ticks k + n)) (t_priority k) (running k) (ticks k + n) (timer_list k) \<and>
    ticks k' = ticks k"
proof -
  have s: "sched_ok k" "prio_ok k" "timer_ok k" "\<not> intr_ctx k" using ok by (auto simp: kernel_ok_def)
  define w where "w = (wake_up_tick k)(running k := ticks k + n)"
  define k1 where "k1 = k\<lparr>wake_up_tick := w, timer_list := timer_insert w (t_priority k) (running k) (ticks k + n) (timer_list k)\<rparr>"
  have blk: "thread_block k1 = Some k'"
    using run n sched_ok_running [OF s(1)] by (simp add: timer_sleep_def k1_def w_def Let_def)
  have s1: "sched_ok k1" "\<not> intr_ctx k1" using s by (simp_all add: k1_def sched_ok_def lists_ok_def)
  have "schedule (set_status (running k) THREAD_BLOCKED (k1\<lparr>all_list := all_list k1\<rparr>)) = Some k'"
    using blk sched_ok_running [OF s1(1)] s1(2) by (simp add: thread_block_def) (simp add: k1_def)
  then have "ready_list k \<noteq> [] \<or> idle_thread k \<noteq> NULL"
    using lists_okD(1) [OF sched_okD(1) [OF s(1)]]
    by (cases "ready_list k") (auto simp: k1_def schedule_def next_thread_to_run_def kassert_bind_Some_iff Let_def intro: gr0I)
  then have nx: "has_next k1" using ok by (auto simp: kernel_ok_def has_next_def k1_def)
  have 1: "sched_ok k'" "prio_ok k'" "same_frame k1 k'" "is_thread k' = is_thread k"
    "running k' = (if ready_list k = [] then idle_thread k else hd (ready_list k))"
    "t_status k' = (t_status k)(running k := THREAD_BLOCKED, running k' := THREAD_RUNNING)"
    using thread_block_spec [OF s1 nx] blk by (auto simp: k1_def)
  have "running k' \<in> insert (idle_thread k) (set (ready_list k))" unfolding 1(5) by (rule hd_or_in)
  then have r: "running k' \<notin> set (timer_list k)" "running k' \<noteq> running k"
    using timer_ok_sleepers(1-3) [OF s(1,3)] ni sched_okD(5) [OF s(1)] by (blast, metis insert_iff)
  have "running k \<notin> set (timer_list k)" using timer_ok_sleepers(1) [OF s(1,3)] by blast
  then have "timer_ok k'"
    using s(3) 1(3,4,6) r ni sched_okD(2) [OF s(1)] by (auto simp: timer_ok_def same_frame_def k1_def)
  moreover have "idle_thread k' \<noteq> NULL \<longrightarrow> t_status k' (idle_thread k') \<noteq> THREAD_DYING"
    by (rule idle_alive [OF ok]) (use 1(3,6) in \<open>auto simp: same_frame_def k1_def split: if_splits\<close>)
  moreover have "\<not> intr_ctx k'" using 1(3) s(4) by (simp add: same_frame_def k1_def)
  ultimately have "kernel_ok k'" using 1(1,2) unfolding kernel_ok_def by blast
  then show ?thesis using 1(3,6) r(2) by (simp add: same_frame_def k1_def w_def)
qed

text \<open>The part of a timer interrupt before the wake-up loop.\<close>

lemma thread_tick_spec:
  assumes "sched_ok k" and "thread_tick k = Some k'"
  shows "same_threads k k' \<and> ticks k' = ticks k \<and> wake_up_tick k' = wake_up_tick k \<and> intr_ctx k' = intr_ctx k"
  using assms(2) sched_ok_running [OF assms(1)]
  by (auto simp: thread_tick_def same_threads_def Let_def kassert_bind_Some_iff split: if_splits)

lemma timer_interrupt_spec:
  assumes ok: "kernel_ok k" and run: "timer_interrupt (k\<lparr>intr_ctx := True, yield_on_return := False\<rparr>) = Some k'"
  shows "kernel_ok (k'\<lparr>intr_ctx := False\<rparr>)"
    and "timer_list k' = dropWhile (\<lambda>t. wake_up_tick k t \<le> ticks k + 1) (timer_list k)"
    and "t_status k' = (\<lambda>t. if t \<in> set (takeWhile (\<lambda>t. wake_up_tick k t \<le> ticks k + 1) (timer_list k))
           then THREAD_READY else t_status k t)"
    and "running k' = running k" and "ticks k' = ticks k + 1"
    and "idle_thread k' = idle_thread k \<and> is_thread k' = is_thread k \<and> t_priority k' = t_priority k"
proof -
  have s: "sched_ok k" "prio_ok k" "timer_ok k" "\<not> intr_ctx k" using ok by (auto simp: kernel_ok_def)
  define k0 where "k0 = k\<lparr>intr_ctx := True, yield_on_return := False, ticks := ticks k + 1\<rparr>"
  have st: "same_threads k k0" by (simp add: same_threads_def k0_def)
  then have ok0: "sched_ok k0" using same_threads_ok s(1) by blast
  obtain k1 where k1: "thread_tick k0 = Some k1" "wake_loop (timer_list k1) k1 = Some k'"
    using run by (auto simp: timer_interrupt_def k0_def split: bind_splits)
  have t: "same_threads k0 k1" "ticks k1 = ticks k + 1" "wake_up_tick k1 = wake_up_tick k" "intr_ctx k1"
    using thread_tick_spec [OF ok0 k1(1)] by (auto simp: k0_def)
  have st1: "same_threads k k1" using st t(1) by (simp add: same_threads_def)
  have ok1: "sched_ok k1" "prio_ok k1" "timer_ok k1" using same_threads_ok [OF st1] s by auto
  note w = wake_loop_spec [OF ok1 t(4) refl k1(2)]
  have eq: "timer_list k1 = timer_list k" "t_status k1 = t_status k" "running k1 = running k" "idle_thread k1 = idle_thread k"
    "is_thread k1 = is_thread k" "t_priority k1 = t_priority k"
    using st1 by (auto simp: same_threads_def)
  show "idle_thread k' = idle_thread k \<and> is_thread k' = is_thread k \<and> t_priority k' = t_priority k"
    using w eq by simp
  show "timer_list k' = dropWhile (\<lambda>t. wake_up_tick k t \<le> ticks k + 1) (timer_list k)"
    "running k' = running k" "ticks k' = ticks k + 1"
    using w eq t by auto
  show status: "t_status k' = (\<lambda>t. if t \<in> set (takeWhile (\<lambda>t. wake_up_tick k t \<le> ticks k + 1) (timer_list k))
           then THREAD_READY else t_status k t)" using w eq t by auto
  have "idle_thread k' = idle_thread k" using w eq by simp
  moreover have "sched_ok k'" "prio_ok k'" "timer_ok k'" using w by auto
  moreover have "same_threads k' (k'\<lparr>intr_ctx := False\<rparr>)" by (simp add: same_threads_def)
  ultimately show "kernel_ok (k'\<lparr>intr_ctx := False\<rparr>)"
    using same_threads_ok status ok by (auto simp: kernel_ok_def)
qed

lemma timer_event_keeps:
  assumes ok: "kernel_ok k" and run: "timer_event k = Some k'"
  shows "kernel_ok k'"
proof -
  obtain k1 where k1: "timer_interrupt (k\<lparr>intr_ctx := True, yield_on_return := False\<rparr>) = Some k1"
    "(if yield_on_return k1 then thread_yield (k1\<lparr>intr_ctx := False\<rparr>) else Some (k1\<lparr>intr_ctx := False\<rparr>)) = Some k'"
    using run by (auto simp: timer_event_def kassert_bind_Some_iff Let_def split: bind_splits)
  have "kernel_ok (k1\<lparr>intr_ctx := False\<rparr>)" by (rule timer_interrupt_spec(1) [OF ok k1(1)])
  then show ?thesis using k1(2) yield_keeps by (auto split: if_splits)
qed

lemma idle_start_keeps: "kernel_ok k \<Longrightarrow> idle_thread k = NULL \<Longrightarrow> kernel_ok (idle_start k)"
proof -
  assume ok: "kernel_ok k" and n: "idle_thread k = NULL"
  then have s: "sched_ok k" "timer_ok k" "\<not> intr_ctx k" by (auto simp: kernel_ok_def)
  note L = lists_okD [OF sched_okD(1) [OF s(1)]] and R = sched_okD [OF s(1)]
  have "t \<in> set (ready_list k) \<longleftrightarrow> is_thread k t \<and> t_status k t = THREAD_READY \<and> t \<noteq> running k" for t
    using L(1) L(7) [of t] R(3) n by auto
  then have "lists_ok (idle_start k)" using L(1-3,5,6) R(2) by (simp add: lists_ok_def idle_start_def)
  then have "sched_ok (idle_start k)" using s(1) by (simp add: sched_ok_def idle_start_def)
  moreover have "timer_ok (idle_start k)"
    using s(2) timer_ok_sleepers(1) [OF s(1,2)] by (auto simp: timer_ok_def idle_start_def)
  ultimately show ?thesis using s(3) R(3) by (simp add: kernel_ok_def prio_ok_def idle_start_def)
qed

lemma sched_step_keeps: "sched_step k k' \<Longrightarrow> kernel_ok k \<Longrightarrow> kernel_ok k'"
proof (induction rule: sched_step.induct)
  case (create t p k r k')
  show ?case
  proof (cases "t = NULL")
    case True
    then show ?thesis using create by (simp add: thread_create_def)
  next
    case False
    then obtain k1 where k1: "init_thread t p k = Some k1" "thread_unblock t k1 = Some k'"
      using create(1) by (auto simp: thread_create_def split: bind_splits)
    then show ?thesis using init_thread_keeps [OF create(3) k1(1) create(2)] unblock_keeps by blast
  qed
next
  case (sleep n k k')
  then show ?case
    using sleep_spec [OF sleep(3,1,2)] sched_ok_running
    by (cases "0 < n") (auto simp: timer_sleep_def kernel_ok_def)
qed (use block_keeps yield_keeps unblock_keeps exit_keeps running_priority_keeps timer_event_keeps
      idle_start_keeps in blast)+

lemma thread_init_ok: "t \<noteq> NULL \<Longrightarrow> kernel_ok (thread_init t p)"
  by (auto simp: kernel_ok_def sched_ok_def lists_ok_def prio_ok_def timer_ok_def thread_init_def prio_sorted_def)

lemma reachable_ok: "sched_step\<^sup>*\<^sup>* k k' \<Longrightarrow> kernel_ok k \<Longrightarrow> kernel_ok k'"
  by (induction rule: rtranclp_induct) (auto intro: sched_step_keeps)

lemma takeWhile_filter_sorted:
  "sorted (map f xs) \<Longrightarrow> takeWhile (\<lambda>t. f t \<le> n) xs = filter (\<lambda>t. f t \<le> n) xs" for f :: "'a \<Rightarrow> int"
proof (induction xs)
  case (Cons a xs)
  have "\<forall>x \<in> set xs. f a \<le> f x" using Cons.prems by simp
  then have "\<not> f a \<le> n \<Longrightarrow> filter (\<lambda>t. f t \<le> n) xs = []" by (auto simp: filter_empty_conv)
  then show ?case using Cons by simp
qed simp

section \<open>Properties of the scheduler\<close>



text \<open>A timer interrupt, when it returns, has advanced the clock by one tick and made
  exactly the threads ready that form the longest prefix of the sleep list whose wake-up
  tick has come; no other thread's status changes before the final yield. So when the list
  is sorted by wake-up tick, every thread whose time has come is woken, and no thread ever
  earlier.\<close>

theorem timer_interrupt_wakes_expired:
  assumes "kernel_ok k" and "timer_interrupt (k\<lparr>intr_ctx := True, yield_on_return := False\<rparr>) = Some k'"
  shows "ticks k' = ticks k + 1 \<and>
    timer_list k' = dropWhile (\<lambda>t. wake_up_tick k t \<le> ticks k + 1) (timer_list k) \<and>
    (\<forall>t. t_status k' t \<noteq> t_status k t \<longrightarrow> wake_up_tick k t \<le> ticks k') \<and>
    (sorted (map (wake_up_tick k) (timer_list k)) \<longrightarrow>
      (\<forall>t \<in> set (timer_list k). t_status k' t = (if wake_up_tick k t \<le> ticks k' then THREAD_READY else THREAD_BLOCKED)))"
proof -
  note s = timer_interrupt_spec [OF assms]
  let ?P = "\<lambda>t. wake_up_tick k t \<le> ticks k + 1"
  have b: "\<forall>t \<in> set (timer_list k). t_status k t = THREAD_BLOCKED" using assms(1) by (auto simp: kernel_ok_def timer_ok_def)
  have "\<forall>t. t_status k' t \<noteq> t_status k t \<longrightarrow> ?P t"
    using s(3) by (auto dest: set_takeWhileD split: if_splits)
  moreover have "t_status k' t = (if ?P t then THREAD_READY else THREAD_BLOCKED)"
    if "sorted (map (wake_up_tick k) (timer_list k))" "t \<in> set (timer_list k)" for t
  proof -
    have "t \<in> set (takeWhile ?P (timer_list k)) \<longleftrightarrow> ?P t" 
      using that(2) takeWhile_filter_sorted [OF that(1), of "ticks k + 1"] by simp
    then show ?thesis using s(3) b that(2) by simp
  qed
  ultimately show ?thesis unfolding s(5) using s(2) by blast
qed

text \<open>A sleeper of low priority, the running thread having number 10.\<close>

definition sample_sleep :: "int \<Rightarrow> kernel" where
  "sample_sleep p = (thread_init 10 31)\<lparr>is_thread := (\<lambda>x. x = 10 \<or> x = 20), all_list := [10, 20],
     t_priority := (\<lambda>_. 0)(10 := 31, 20 := p), wake_up_tick := (\<lambda>_. 0)(20 := 1), timer_list := [20]\<rparr>"

lemma sample_sleep_ok: "kernel_ok (sample_sleep p)"
proof -
  have "lists_ok (sample_sleep p)"
    by (auto simp: lists_ok_def sample_sleep_def thread_init_def prio_sorted_def)
  then show ?thesis
    by (auto simp: kernel_ok_def sched_ok_def prio_ok_def timer_ok_def sample_sleep_def thread_init_def)
qed

theorem timer_interrupt_wakes_expired_witness:
  "\<exists>k'. timer_interrupt ((sample_sleep 5)\<lparr>intr_ctx := True, yield_on_return := False\<rparr>) = Some k' \<and>
     timer_list k' = [] \<and> ticks k' = 1 \<and> t_status k' 20 = THREAD_READY \<and> ready_list k' = [20]"
proof -
  let ?k = "sample_sleep 5"
  have run: "\<exists>k'. timer_interrupt (?k\<lparr>intr_ctx := True, yield_on_return := False\<rparr>) = Some k' \<and> ready_list k' = [20]"
    by (simp add: timer_interrupt_def sample_sleep_def thread_init_def thread_tick_def thread_current_def TIME_SLICE_def
        thread_unblock_def)
  then obtain k' where k': "timer_interrupt (?k\<lparr>intr_ctx := True, yield_on_return := False\<rparr>) = Some k'"
    "ready_list k' = [20]" by blast
  have e: "timer_list ?k = [20]" "wake_up_tick ?k 20 = 1" "ticks ?k = 0" by (simp_all add: sample_sleep_def thread_init_def)
  show ?thesis
    using timer_interrupt_wakes_expired [OF sample_sleep_ok k'(1)] k'
    by (intro exI [of _ k']) (simp add: e)
qed

text \<open>A timer interrupt that finds the first sleeping thread due, of a higher priority than
  the running thread, stops the kernel, unless the idle thread runs: \<^verbatim>\<open>thread_unblock\<close> yields
  at once, and \<^verbatim>\<open>thread_yield\<close> asserts that it is not called from an interrupt handler.\<close>

theorem timer_interrupt_preemption_panics:
  assumes "kernel_ok k" and "timer_list k = t # ts" and "wake_up_tick k t \<le> ticks k + 1"
    and "t_priority k t > t_priority k (running k)" and "running k \<noteq> idle_thread k"
  shows "timer_event k = None"
proof -
  define k0 where "k0 = k\<lparr>intr_ctx := True, yield_on_return := False, ticks := ticks k + 1\<rparr>"
  have st: "same_threads k k0" by (simp add: same_threads_def k0_def)
  have s: "sched_ok k" "timer_ok k" using assms(1) by (auto simp: kernel_ok_def)
  have ok0: "sched_ok k0" using same_threads_ok [OF st] s by blast
  have "wake_loop (timer_list k1) k1 = None" if k1: "thread_tick k0 = Some k1" for k1
  proof -
    have t: "same_threads k0 k1" "ticks k1 = ticks k + 1" "wake_up_tick k1 = wake_up_tick k" "intr_ctx k1"
      using thread_tick_spec [OF ok0 k1] by (auto simp: k0_def)
    have st1: "same_threads k k1" using st t(1) by (simp add: same_threads_def)
    have ok1: "sched_ok k1" "timer_ok k1" using same_threads_ok [OF st1] s by auto
    have e: "timer_list k1 = t # ts" "t_priority k1 = t_priority k" "running k1 = running k"
      "idle_thread k1 = idle_thread k" using st1 assms(2) by (auto simp: same_threads_def)
    have h: "is_thread k1 t" "t_status k1 t = THREAD_BLOCKED" using ok1(2) e(1) by (auto simp: timer_ok_def)
    have "thread_unblock t k1 = None"
      using thread_unblock_in_interrupt [OF ok1(1) h t(4)] assms(4,5) e by (simp add: preempts_def)
    then show ?thesis using assms(3) t(2,3) e(1) by simp
  qed
  then have "timer_interrupt (k\<lparr>intr_ctx := True, yield_on_return := False\<rparr>) = None"
    by (cases "thread_tick k0") (auto simp: timer_interrupt_def k0_def)
  then show ?thesis by (simp add: timer_event_def)
qed

theorem timer_interrupt_preemption_panics_witness:
  "kernel_ok (sample_sleep 40) \<and> timer_event (sample_sleep 40) = None"
  using timer_interrupt_preemption_panics [OF sample_sleep_ok, of 40 20 "[]"] sample_sleep_ok [of 40]
  by (simp add: sample_sleep_def thread_init_def)

lemma timer_insert_same_at_end:
  "\<forall>z \<in> set zs. pri z > pri c \<Longrightarrow> timer_insert_same pri c zs = zs @ [c]"
  by (induction zs) auto

lemma timer_insert_at_end:
  "zs \<noteq> [] \<Longrightarrow> wake (hd zs) = n \<Longrightarrow> \<forall>z \<in> set zs. pri z > pri c \<Longrightarrow> \<forall>a \<in> set as. wake a < n \<Longrightarrow>
   timer_insert wake pri c n (as @ zs) = as @ zs @ [c]"
proof (induction as)
  case Nil
  then obtain z zs' where "zs = z # zs'" by (cases zs) auto
  then show ?case using Nil timer_insert_same_at_end [of zs pri c] by simp
qed auto

text \<open>\<^verbatim>\<open>timer_sleep\<close> inserts into a sorted sleep list so that it stays sorted when no other
  thread wakes at the same tick. When one does, and it and all threads after it have a higher
  priority, the sleeper goes to the end of the list, behind threads that wake later: the inner
  loop compares priorities only.\<close>

theorem timer_sleep_order:
  assumes "sorted (map wake (as @ zs))" and "\<forall>a \<in> set as. wake a < n" and "wake c = n"
  shows "((\<forall>z \<in> set zs. n < wake z) \<longrightarrow> sorted (map wake (timer_insert wake pri c n (as @ zs)))) \<and>
    (zs \<noteq> [] \<and> wake (hd zs) = n \<and> (\<forall>z \<in> set zs. pri z > pri c) \<longrightarrow>
      timer_insert wake pri c n (as @ zs) = as @ zs @ [c] \<and>
      ((\<exists>z \<in> set zs. n < wake z) \<longrightarrow> \<not> sorted (map wake (timer_insert wake pri c n (as @ zs)))))"
proof -
  have "n \<notin> wake ` set (as @ zs)" if "\<forall>z \<in> set zs. n < wake z" using that assms(2) by force
  moreover have "timer_insert wake pri c n (as @ zs) = as @ zs @ [c]"
    if "zs \<noteq> []" "wake (hd zs) = n" "\<forall>z \<in> set zs. pri z > pri c"
    using that assms(2) timer_insert_at_end [of zs wake n pri c as] by blast
  moreover have "\<not> sorted (map wake (as @ zs @ [c]))" if "\<exists>z \<in> set zs. n < wake z"
    using that assms(3) by (force simp: sorted_append)
  ultimately show ?thesis using timer_insert_sorted [OF assms(1,3), of pri] by (metis (no_types, lifting))
qed

theorem timer_sleep_order_witness:
  "let wake = (\<lambda>_. 0)(1 := 10, 2 := 20, 3 := 10); pri = (\<lambda>_. 0)(1 := 5, 2 := 9, 3 := 3) in
   timer_insert wake pri 3 10 [1, 2] = [1, 2, 3] \<and> \<not> sorted (map wake (timer_insert wake pri 3 10 [1, 2]))"
  using timer_sleep_order [of "(\<lambda>_. 0)(1 := 10, 2 := 20, 3 := 10)" "[]" "[1, 2]" 10 3 "(\<lambda>_. 0)(1 := 5, 2 := 9, 3 := 3)"]
  by (simp add: Let_def)

text \<open>The insertion of a thread into a priority list, as the pointer code does it, succeeds
  on any list, keeps a list of falling priorities sorted, and puts the thread behind all
  threads of its own priority, so that equal priorities take turns.\<close>

theorem insert_ordered_thread_priority_fifo:
  assumes "list_rep h ls xs" and "t \<noteq> NULL" and "t \<notin> set (cells ls xs)"
    and "sorted_wrt (\<lambda>a b. pri a \<ge> pri b) xs"
  shows "\<exists>h' ys. insert_ordered_thread_priority pri ls t h = Some h' \<and> list_rep h' ls ys \<and>
    mset ys = add_mset t (mset xs) \<and> sorted_wrt (\<lambda>a b. pri a \<ge> pri b) ys \<and>
    (\<forall>p. filter (\<lambda>x. pri x = p) ys = filter (\<lambda>x. pri x = p) (xs @ [t]))"
proof -
  have "mset (prio_insert pri t xs) = add_mset t (mset xs)" by (induction xs) auto
  then show ?thesis
    using insert_ordered_thread_priority_rep [OF assms(1-3), of pri] prio_sorted_insert [of pri xs t]
      prio_insert_fifo [of pri xs _ t] assms(4) unfolding prio_sorted_def by blast
qed

theorem insert_ordered_thread_priority_fifo_witness:
  "\<exists>h' ys. insert_ordered_thread_priority (\<lambda>_. 7) \<lparr>head = 1, tail = 2\<rparr> 40 sample_links = Some h' \<and>
     list_rep h' \<lparr>head = 1, tail = 2\<rparr> ys \<and> ys = [30, 10, 20, 40]"
proof -
  have c: "(40::addr) \<noteq> NULL" "40 \<notin> set (cells \<lparr>head = 1, tail = 2\<rparr> [30, 10, 20])"
    "sorted_wrt (\<lambda>a b. (7::int) \<ge> 7) [30, 10, 20::addr]" by (simp_all add: cells_def)
  obtain h' ys where r: "insert_ordered_thread_priority (\<lambda>_. 7) \<lparr>head = 1, tail = 2\<rparr> 40 sample_links = Some h'"
    "list_rep h' \<lparr>head = 1, tail = 2\<rparr> ys" "filter (\<lambda>x. (7::int) = 7) ys = filter (\<lambda>x. (7::int) = 7) ([30, 10, 20] @ [40])"
    using insert_ordered_thread_priority_fifo [OF sample_links_rep c] by blast
  then show ?thesis by (intro exI [of _ h'] exI [of _ ys]) simp
qed

end
