(* ===== verification/Sync.thy ===== *)
theory Sync
  imports Sched
begin

text \<open>
  Semaphores, locks and condition variables, \<^verbatim>\<open>Lab2/pintos/src/threads/semaphore.c\<close>,
  \<^verbatim>\<open>lock.c\<close> and \<^verbatim>\<open>condvar.c\<close>, on the scheduler of theory Sched.

  The loop of \<^verbatim>\<open>semaphore_down\<close> is cut at \<^verbatim>\<open>thread_block\<close>: \<open>semaphore_down_round\<close> runs from
  the loop test to the decrement or to the switch to another thread. A step relation lets
  each thread run its operations in program order and interleaves them with every step of
  the scheduler, timer interrupts included.
\<close>

section \<open>What the steps of the scheduler leave alone\<close>

text \<open>The blocked threads that only \<^verbatim>\<open>thread_unblock\<close> wakes, and the threads that can run.\<close>

definition parked :: "kernel \<Rightarrow> tid set" where
  "parked k = {t. is_thread k t \<and> t_status k t = THREAD_BLOCKED \<and> t \<noteq> idle_thread k \<and> t \<notin> set (timer_list k)}"

definition runnable :: "kernel \<Rightarrow> tid set" where
  "runnable k = {t. is_thread k t \<and> (t_status k t = THREAD_READY \<or> t_status k t = THREAD_RUNNING)}"

definition undisturbed :: "tid set \<Rightarrow> kernel \<Rightarrow> kernel \<Rightarrow> bool" where
  "undisturbed P k k' \<longleftrightarrow> (\<forall>u \<in> P. u \<in> parked k' \<and> t_priority k' u = t_priority k u) \<and>
     runnable k - {running k} \<subseteq> runnable k'"

lemma kernel_okD:
  assumes "kernel_ok k"
  shows "sched_ok k" "prio_ok k" "timer_ok k" "\<not> intr_ctx k"
  using assms by (auto simp: kernel_ok_def)

lemma running_runnable: "kernel_ok k \<Longrightarrow> running k \<in> runnable k"
  using sched_okD(2,3) [OF kernel_okD(1)] by (simp add: runnable_def)

lemma runnable_not_parked: "t \<in> runnable k \<Longrightarrow> t \<notin> parked k"
  by (auto simp: runnable_def parked_def)

lemma ready_runnable: "kernel_ok k \<Longrightarrow> set (ready_list k) \<subseteq> runnable k"
  using lists_okD(7) [OF sched_okD(1) [OF kernel_okD(1)]] by (auto simp: runnable_def)

lemma switch_effect:
  assumes ok: "kernel_ok k"
    and nx: "running k' \<in> insert (idle_thread k) (insert (running k) (set (ready_list k)))"
    and st: "t_status k' = (t_status k)(running k := st, running k' := THREAD_RUNNING)"
    and th: "\<And>u. u \<noteq> running k \<Longrightarrow> is_thread k u \<Longrightarrow> is_thread k' u"
    and pr: "\<And>u. u \<noteq> running k \<Longrightarrow> t_priority k' u = t_priority k u"
    and fr: "idle_thread k' = idle_thread k" "set (timer_list k') \<subseteq> insert (running k) (set (timer_list k))"
  shows "undisturbed (parked k) k k'"
proof -
  have "u \<in> parked k' \<and> t_priority k' u = t_priority k u" if u: "u \<in> parked k" for u
  proof -
    have n: "u \<noteq> running k" "u \<notin> set (ready_list k)" "u \<noteq> idle_thread k"
      using u running_runnable [OF ok] ready_runnable [OF ok] runnable_not_parked by (auto simp: parked_def)
    then have "u \<noteq> running k'" using nx by auto
    then show ?thesis using u n th pr fr st by (auto simp: parked_def)
  qed
  moreover have "runnable k - {running k} \<subseteq> runnable k'" using st th by (auto simp: runnable_def)
  ultimately show ?thesis by (simp add: undisturbed_def)
qed

lemma yield_effect:
  assumes ok: "kernel_ok k" and run: "thread_yield k = Some k'"
  shows "undisturbed (parked k) k k'" "runnable k \<subseteq> runnable k'"
proof -
  let ?r = "if running k = idle_thread k then ready_list k else prio_insert (t_priority k) (running k) (ready_list k)"
  have 1: "same_frame k k'" "is_thread k' = is_thread k" "t_priority k' = t_priority k"
    "running k' = (if ?r = [] then idle_thread k else hd ?r)"
    "t_status k' = (t_status k)(running k := THREAD_READY, running k' := THREAD_RUNNING)"
    using thread_yield_spec [OF kernel_okD(1,4) [OF ok]] run by (auto simp: Let_def)
  have "running k' \<in> insert (idle_thread k) (set ?r)" unfolding 1(4) by (rule hd_or_in)
  moreover have "set ?r \<subseteq> insert (running k) (set (ready_list k))" by auto
  ultimately have nx: "running k' \<in> insert (idle_thread k) (insert (running k) (set (ready_list k)))" by blast
  show "undisturbed (parked k) k k'"
    by (rule switch_effect [OF ok nx 1(5)]) (use 1 in \<open>auto simp: same_frame_def\<close>)
  show "runnable k \<subseteq> runnable k'" using 1(2,5) by (auto simp: runnable_def)
qed

lemma block_effect:
  assumes ok: "kernel_ok k" and run: "thread_block k = Some k'"
  shows "undisturbed (parked k) k k'" "running k \<noteq> idle_thread k \<Longrightarrow> running k \<in> parked k'"
    "t_priority k' = t_priority k"
proof -
  note s = kernel_okD [OF ok]
  have "schedule (set_status (running k) THREAD_BLOCKED (k\<lparr>all_list := all_list k\<rparr>)) = Some k'"
    using run sched_ok_running [OF s(1)] s(4) by (simp add: thread_block_def)
  then have n: "has_next k" by (rule handover_needs_next [OF ok])
  have 1: "same_frame k k'" "is_thread k' = is_thread k" "t_priority k' = t_priority k"
    "running k' = (if ready_list k = [] then idle_thread k else hd (ready_list k))"
    "t_status k' = (t_status k)(running k := THREAD_BLOCKED, running k' := THREAD_RUNNING)"
    using thread_block_spec [OF s(1,4) n] run by auto
  have nx: "running k' \<in> insert (idle_thread k) (set (ready_list k))" unfolding 1(4) by (rule hd_or_in)
  then have nx': "running k' \<in> insert (idle_thread k) (insert (running k) (set (ready_list k)))" by blast
  show "undisturbed (parked k) k k'"
    by (rule switch_effect [OF ok nx' 1(5)]) (use 1 in \<open>auto simp: same_frame_def\<close>)
  show "t_priority k' = t_priority k" by (rule 1(3))
  show "running k \<in> parked k'" if "running k \<noteq> idle_thread k"
  proof -
    have "running k' \<noteq> running k" using nx that sched_okD(5) [OF s(1)] by auto
    then show ?thesis
      using that 1 sched_okD(2) [OF s(1)] timer_ok_sleepers(1) [OF s(1,3), of "running k"]
      by (auto simp: parked_def same_frame_def)
  qed
qed

lemma exit_effect:
  assumes ok: "kernel_ok k" and run: "thread_exit k = Some k'" and d: "running k \<noteq> idle_thread k"
  shows "undisturbed (parked k) k k'"
proof -
  note s = kernel_okD [OF ok]
  have "schedule (set_status (running k) THREAD_DYING (k\<lparr>all_list := remove1 (running k) (all_list k)\<rparr>)) = Some k'"
    using run sched_ok_running [OF s(1)] s(4) by (simp add: thread_exit_def Let_def)
  then have n: "has_next k" by (rule handover_needs_next [OF ok])
  have 1: "same_frame k k'" "is_thread k' = (is_thread k)(running k := (running k = initial_thread k))"
    "t_priority k' = t_priority k"
    "running k' = (if ready_list k = [] then idle_thread k else hd (ready_list k))"
    "t_status k' = (t_status k)(running k := THREAD_DYING, running k' := THREAD_RUNNING)"
    using thread_exit_spec [OF s(1,4) n d] run by auto
  have "running k' \<in> insert (idle_thread k) (set (ready_list k))" unfolding 1(4) by (rule hd_or_in)
  then have nx: "running k' \<in> insert (idle_thread k) (insert (running k) (set (ready_list k)))" by blast
  show ?thesis by (rule switch_effect [OF ok nx 1(5)]) (use 1 in \<open>auto simp: same_frame_def\<close>)
qed

lemma unblock_effect:
  assumes ok: "kernel_ok k" and run: "thread_unblock t k = Some k'" and t: "t \<noteq> idle_thread k"
  shows "undisturbed (parked k - {t}) k k'" "insert t (runnable k) \<subseteq> runnable k'" "t_priority k' = t_priority k"
proof -
  note s = kernel_okD [OF ok]
  have 1: "same_frame k k'" "is_thread k' = is_thread k" "t_priority k' = t_priority k"
    "t_status k' = (if preempts t k then (t_status k)(running k := THREAD_READY, t := THREAD_RUNNING)
                   else (t_status k)(t := THREAD_READY))"
    using thread_unblock_spec [OF s(1,2) _ _ t] unblock_needs [OF run] s(4) run by auto
  have b: "is_thread k t" using unblock_needs [OF run] by blast
  show r: "insert t (runnable k) \<subseteq> runnable k'" using 1(2,4) b by (auto simp: runnable_def)
  have "u \<in> parked k'" if "u \<in> parked k" "u \<noteq> t" for u
    using that 1 running_runnable [OF ok] runnable_not_parked by (auto simp: parked_def same_frame_def)
  then show "undisturbed (parked k - {t}) k k'" using r 1(3) by (auto simp: undisturbed_def)
  show "t_priority k' = t_priority k" by (rule 1(3))
qed

lemma create_effect:
  assumes ok: "kernel_ok k" and run: "thread_create t p k = Some (r, k')" and new: "\<not> is_thread k t"
  shows "undisturbed (parked k) k k'"
proof (cases "t = NULL")
  case True
  then show ?thesis using run by (auto simp: thread_create_def undisturbed_def)
next
  case False
  then obtain k1 where k1: "init_thread t p k = Some k1" "thread_unblock t k1 = Some k'"
    using run by (auto simp: thread_create_def split: bind_splits)
  note i = init_thread_keeps [OF ok k1(1) new]
  have eq: "k1 = set_status t THREAD_BLOCKED k\<lparr>t_priority := (t_priority k)(t := p),
      wake_up_tick := (wake_up_tick k)(t := 0), is_thread := (is_thread k)(t := True), all_list := all_list k @ [t]\<rparr>"
    using k1(1) by (auto simp: init_thread_def kassert_bind_Some_iff Let_def)
  have nt: "u \<noteq> t" if "u \<in> parked k \<union> runnable k" for u using new that by (auto simp: parked_def runnable_def)
  have 1: "u \<in> parked k1 - {t}" "t_priority k1 u = t_priority k u" if "u \<in> parked k" for u
    using nt [of u] that by (auto simp: eq parked_def)
  have 2: "runnable k \<subseteq> runnable k1" using nt by (auto simp: eq runnable_def)
  note e = unblock_effect [OF i(1) k1(2) i(2)]
  show ?thesis using 1 2 e unfolding undisturbed_def by fastforce
qed

lemma set_priority_effect:
  assumes ok: "kernel_ok k" and run: "thread_set_priority p k = Some k'"
  shows "undisturbed (parked k) k k'"
proof -
  note s = kernel_okD [OF ok]
  have 1: "same_frame k k'" "is_thread k' = is_thread k" "t_priority k' = (t_priority k)(running k := p)"
    "t_status k' = (t_status k)(running k := THREAD_READY, running k' := THREAD_RUNNING)" "sched_ok k'"
    using thread_set_priority_spec [OF s(1,4), of p] run by auto
  have "thread_yield (k\<lparr>t_priority := (t_priority k)(running k := p)\<rparr>) = Some k'"
    using run sched_ok_running [OF s(1)] by (simp add: thread_set_priority_def)
  then have "running k' = (if r = [] then idle_thread k else hd r)"
    if "r = (if running k = idle_thread k then ready_list k
       else prio_insert ((t_priority k)(running k := p)) (running k) (ready_list k))" for r
    using thread_yield_spec [OF running_priority_ok [OF s(1), of p]] s(4) that by (auto simp: Let_def)
  then have "running k' \<in> insert (idle_thread k) (insert (running k) (set (ready_list k)))"
    by (metis hd_or_in insert_iff set_prio_insert)
  then show ?thesis by (rule switch_effect [OF ok _ 1(4)]) (use 1 in \<open>auto simp: same_frame_def\<close>)
qed

lemma sleep_effect:
  assumes ok: "kernel_ok k" and run: "timer_sleep n k = Some k'" and ni: "running k \<noteq> idle_thread k"
  shows "undisturbed (parked k) k k'"
proof (cases "0 < n")
  case False
  then show ?thesis using run sched_ok_running [OF kernel_okD(1) [OF ok]] by (auto simp: timer_sleep_def undisturbed_def)
next
  case True
  define w where "w = (wake_up_tick k)(running k := ticks k + n)"
  define k1 where "k1 = k\<lparr>wake_up_tick := w, timer_list := timer_insert w (t_priority k) (running k) (ticks k + n) (timer_list k)\<rparr>"
  note s = kernel_okD [OF ok]
  have blk: "thread_block k1 = Some k'"
    using run True sched_ok_running [OF s(1)] by (simp add: timer_sleep_def k1_def w_def Let_def)
  have s1: "sched_ok k1" "\<not> intr_ctx k1" using s by (simp_all add: k1_def sched_ok_def lists_ok_def)
  have "ready_list k \<noteq> [] \<or> idle_thread k \<noteq> NULL"
    using blk s1 sched_ok_running [OF s1(1)] lists_okD(1) [OF sched_okD(1) [OF s(1)]]
    by (cases "ready_list k") (auto simp: thread_block_def k1_def schedule_def next_thread_to_run_def kassert_bind_Some_iff Let_def intro: gr0I)
  then have nx: "has_next k1" using ok by (auto simp: kernel_ok_def has_next_def k1_def)
  have 1: "same_frame k1 k'" "is_thread k' = is_thread k" "t_priority k' = t_priority k"
    "running k' = (if ready_list k = [] then idle_thread k else hd (ready_list k))"
    "t_status k' = (t_status k)(running k := THREAD_BLOCKED, running k' := THREAD_RUNNING)"
    using thread_block_spec [OF s1 nx] blk by (auto simp: k1_def)
  have "running k' \<in> insert (idle_thread k) (set (ready_list k))" unfolding 1(4) by (rule hd_or_in)
  then have r: "running k' \<in> insert (idle_thread k) (insert (running k) (set (ready_list k)))" by blast
  show ?thesis by (rule switch_effect [OF ok r 1(5)]) (use 1 in \<open>auto simp: same_frame_def k1_def\<close>)
qed

lemma timer_event_effect:
  assumes ok: "kernel_ok k" and run: "timer_event k = Some k'"
  shows "undisturbed (parked k) k k'" "runnable k \<subseteq> runnable k'"
proof -
  obtain k1 where k1: "timer_interrupt (k\<lparr>intr_ctx := True, yield_on_return := False\<rparr>) = Some k1"
    "(if yield_on_return k1 then thread_yield (k1\<lparr>intr_ctx := False\<rparr>) else Some (k1\<lparr>intr_ctx := False\<rparr>)) = Some k'"
    using run by (auto simp: timer_event_def kassert_bind_Some_iff Let_def split: bind_splits)
  let ?k = "k1\<lparr>intr_ctx := False\<rparr>"
  note t = timer_interrupt_spec [OF ok k1(1)]
  have 1: "u \<in> parked ?k" "t_priority ?k u = t_priority k u" if "u \<in> parked k" for u
    using that t(2,3,6) by (auto simp: parked_def dest: set_takeWhileD set_dropWhileD)
  have 2: "runnable k \<subseteq> runnable ?k" using t(3,6) by (auto simp: runnable_def)
  have 3: "undisturbed (parked ?k) ?k k' \<and> runnable ?k \<subseteq> runnable k'"
  proof (cases "yield_on_return k1")
    case True
    then show ?thesis using yield_effect [OF t(1)] k1(2) by simp
  next
    case False
    then show ?thesis using k1(2) by (auto simp: undisturbed_def)
  qed
  then show "runnable k \<subseteq> runnable k'" using 2 by blast
  then show "undisturbed (parked k) k k'" using 1 3 unfolding undisturbed_def by (metis Diff_subset subset_trans)
qed

lemma idle_start_effect:
  assumes "kernel_ok k" and "idle_thread k = NULL"
  shows "undisturbed (parked k) k (idle_start k)"
  using running_runnable [OF assms(1)] runnable_not_parked
  by (auto simp: undisturbed_def idle_start_def parked_def runnable_def)

lemma sched_step_effect:
  assumes "sched_step k k'" and "kernel_ok k"
  shows "undisturbed (parked k) k k' \<or>
    (\<exists>t. thread_unblock t k = Some k' \<and> undisturbed (parked k - {t}) k k')"
  using assms
proof (induction rule: sched_step.induct)
  case (unblock t k k')
  then show ?case using unblock_effect(1) by blast
next
  case (create t p k r k')
  then show ?case using create_effect by blast
qed (use block_effect(1) yield_effect(1) exit_effect set_priority_effect sleep_effect timer_event_effect(1)
      idle_start_effect in blast)+

section \<open>Semaphores\<close>

record semaphore =
  sem_value :: u32
  waiters :: "tid list"

definition semaphore_init :: "u32 \<Rightarrow> semaphore" where
  "semaphore_init v = \<lparr>sem_value = v, waiters = []\<rparr>"

text \<open>One round of the loop of \<^verbatim>\<open>semaphore_down\<close>: either the value is decremented and the
  function returns, or the thread waits and another one runs.\<close>

definition semaphore_down_round :: "semaphore \<Rightarrow> kernel \<Rightarrow> (bool \<times> semaphore \<times> kernel) option" where
  "semaphore_down_round s k =
     (if sem_value s = 0
      then do {
        cur \<leftarrow> thread_current k;
        let s = s\<lparr>waiters := prio_insert (t_priority k) cur (waiters s)\<rparr>;
        k \<leftarrow> thread_block k;
        Some (False, s, k) }
      else Some (True, s\<lparr>sem_value := sem_value s - 1\<rparr>, k))"

definition semaphore_down :: "semaphore \<Rightarrow> kernel \<Rightarrow> (bool \<times> semaphore \<times> kernel) option" where
  "semaphore_down s k = do {
     kassert (\<not> intr_ctx k);
     semaphore_down_round s k }"

definition semaphore_up :: "semaphore \<Rightarrow> kernel \<Rightarrow> (semaphore \<times> kernel) option" where
  "semaphore_up s k =
     (let s = s\<lparr>sem_value := sem_value s + 1\<rparr> in
      case waiters s of
        [] \<Rightarrow> Some (s, k)
      | t # ts \<Rightarrow> do {
          k \<leftarrow> thread_unblock t k;
          Some (s\<lparr>waiters := ts\<rparr>, k) })"

text \<open>The invariant of a semaphore. \<open>W\<close> holds the threads inside \<^verbatim>\<open>semaphore_down\<close> that have
  not decremented yet: they wait in the list, parked and by falling priority, or they have been
  woken and can run. While threads wait, at least as many have been woken as the value could
  let through, so no wake-up is lost.\<close>

definition sema_ok :: "tid set \<Rightarrow> semaphore \<Rightarrow> kernel \<Rightarrow> bool" where
  "sema_ok W s k \<longleftrightarrow> finite W \<and> set (waiters s) \<subseteq> W \<inter> parked k \<and> distinct (waiters s) \<and>
     prio_sorted (t_priority k) (waiters s) \<and> W - set (waiters s) \<subseteq> runnable k \<and>
     (waiters s \<noteq> [] \<longrightarrow> unat (sem_value s) \<le> card (W - set (waiters s)))"

lemma sema_okD:
  assumes "sema_ok W s k"
  shows "finite W" "set (waiters s) \<subseteq> W" "set (waiters s) \<subseteq> parked k" "distinct (waiters s)"
    "prio_sorted (t_priority k) (waiters s)" "W - set (waiters s) \<subseteq> runnable k"
    "waiters s \<noteq> [] \<Longrightarrow> unat (sem_value s) \<le> card (W - set (waiters s))"
  using assms by (auto simp: sema_ok_def)

lemma sema_ok_init: "sema_ok {} (semaphore_init v) k"
  by (simp add: sema_ok_def semaphore_init_def prio_sorted_def)

text \<open>A step that does not wake a waiter, and that no woken waiter makes, keeps it.\<close>

lemma sema_ok_undisturbed:
  assumes s: "sema_ok W s k" and u: "undisturbed (parked k - P) k k'" and p: "P \<inter> set (waiters s) = {}"
    and c: "running k \<notin> W \<or> runnable k \<subseteq> runnable k'"
  shows "sema_ok W s k'"
proof -
  note D = sema_okD [OF s]
  have w: "t \<in> parked k' \<and> t_priority k' t = t_priority k t" if "t \<in> set (waiters s)" for t
    using u D(3) p that unfolding undisturbed_def by blast
  have "prio_sorted (t_priority k') (waiters s)"
    using D(5) prio_sorted_cong [of "waiters s" "t_priority k'" "t_priority k"] w by blast
  moreover have "W - set (waiters s) \<subseteq> runnable k'" using D(6) u c unfolding undisturbed_def by blast
  ultimately show ?thesis using D(1,2,4,7) w by (auto simp: sema_ok_def)
qed

lemma sub_one_unat: "(v::u32) \<noteq> 0 \<Longrightarrow> unat (v - 1) = unat v - 1"
  by (simp add: unat_minus_one)

lemma add_one_unat: "unat ((v::u32) + 1) \<le> unat v + 1"
proof -
  have "unat (v + 1) = (unat v + 1) mod 2 ^ 32" by (simp add: unat_word_ariths)
  then show ?thesis by (metis mod_less_eq_dividend)
qed

text \<open>A round of \<^verbatim>\<open>semaphore_down\<close> by the running thread, the first one or a later one.\<close>

lemma down_round_ok:
  assumes ok: "kernel_ok k" and s: "sema_ok W s k" and ni: "running k \<noteq> idle_thread k"
    and run: "semaphore_down_round s k = Some (d, s', k')"
  shows "kernel_ok k'" "sema_ok (if d then W - {running k} else insert (running k) W) s' k'"
    "d \<Longrightarrow> sem_value s \<noteq> 0 \<and> sem_value s' = sem_value s - 1 \<and> k' = k \<and> waiters s' = waiters s"
    "\<not> d \<Longrightarrow> sem_value s = 0 \<and> sem_value s' = 0 \<and> undisturbed (parked k) k k'"
proof -
  note D = sema_okD [OF s]
  let ?c = "running k"
  have nw: "?c \<notin> set (waiters s)" using D(3) running_runnable [OF ok] runnable_not_parked by blast
  show "d \<Longrightarrow> sem_value s \<noteq> 0 \<and> sem_value s' = sem_value s - 1 \<and> k' = k \<and> waiters s' = waiters s"
    using run by (auto simp: semaphore_down_round_def split: if_splits bind_splits)
  have "kernel_ok k' \<and> sema_ok (if d then W - {?c} else insert ?c W) s' k' \<and>
    (\<not> d \<longrightarrow> sem_value s = 0 \<and> sem_value s' = 0 \<and> undisturbed (parked k) k k')"
  proof (cases "sem_value s = 0")
    case False
    then have e: "d" "s' = s\<lparr>sem_value := sem_value s - 1\<rparr>" "k' = k" using run by (auto simp: semaphore_down_round_def)
    have "unat (sem_value s - 1) \<le> card (W - {?c} - set (waiters s))" if "waiters s \<noteq> []"
    proof -
      have "card (W - set (waiters s)) - 1 \<le> card (W - set (waiters s) - {?c})"
        using D(1) by (metis card_Diff_singleton_if diff_le_self finite_Diff le_refl)
      moreover have "W - set (waiters s) - {?c} = W - {?c} - set (waiters s)" by blast
      ultimately show ?thesis using D(7) [OF that] sub_one_unat [OF False] by simp
    qed
    then have "sema_ok (W - {?c}) s' k'" using D(1-6) nw by (auto simp: sema_ok_def e)
    then show ?thesis using e ok by simp
  next
    case True
    then obtain k1 where e: "\<not> d" "thread_block k = Some k1" "k' = k1"
      "s' = s\<lparr>waiters := prio_insert (t_priority k) ?c (waiters s)\<rparr>"
      using run sched_ok_running [OF kernel_okD(1) [OF ok]]
      by (auto simp: semaphore_down_round_def Let_def split: bind_splits)
    note b = block_effect [OF ok e(2)]
    have w: "t \<in> parked k1" if "t \<in> set (waiters s)" for t
      using b(1) D(3) that unfolding undisturbed_def by blast
    have "prio_sorted (t_priority k1) (waiters s')" using prio_sorted_insert [OF D(5)] b(3) by (simp add: e)
    moreover have "insert ?c W - set (waiters s') \<subseteq> runnable k1"
      using D(6) b(1) unfolding undisturbed_def by (auto simp: e)
    ultimately have "sema_ok (insert ?c W) s' k1"
      using D(1,2,4) nw w b(2) [OF ni] True by (auto simp: sema_ok_def e)
    then show ?thesis using e block_keeps [OF ok e(2)] b(1) True by simp
  qed
  then show "kernel_ok k'" "sema_ok (if d then W - {?c} else insert ?c W) s' k'"
    "\<not> d \<Longrightarrow> sem_value s = 0 \<and> sem_value s' = 0 \<and> undisturbed (parked k) k k'" by auto
qed

text \<open>\<^verbatim>\<open>semaphore_up\<close> never fails, and wakes the longest waiting thread among those of the
  highest priority.\<close>

lemma semaphore_up_ok:
  assumes ok: "kernel_ok k" and s: "sema_ok W s k"
  shows "\<exists>s' k'. semaphore_up s k = Some (s', k') \<and> kernel_ok k' \<and> sema_ok W s' k' \<and>
    sem_value s' = sem_value s + 1 \<and> waiters s' = tl (waiters s) \<and> t_priority k' = t_priority k \<and>
    (waiters s \<noteq> [] \<longrightarrow> hd (waiters s) \<in> runnable k')"
proof (cases "waiters s")
  case Nil
  then show ?thesis using s ok by (simp add: semaphore_up_def Let_def sema_ok_def)
next
  case (Cons t ts)
  note D = sema_okD [OF s] and K = kernel_okD [OF ok]
  have t: "t \<in> parked k" "t \<in> W" "t \<notin> set ts" using D(2,3,4) Cons by auto
  then have b: "is_thread k t" "t_status k t = THREAD_BLOCKED" "t \<noteq> idle_thread k" "t \<notin> set (timer_list k)"
    by (auto simp: parked_def)
  obtain k' where k': "thread_unblock t k = Some k'"
    using thread_unblock_spec [OF K(1,2) b(1,2,3)] K(4) by blast
  note e = unblock_effect [OF ok k' b(3)]
  define s' where "s' = s\<lparr>sem_value := sem_value s + 1, waiters := ts\<rparr>"
  have run: "semaphore_up s k = Some (s', k')" using k' Cons by (simp add: semaphore_up_def s'_def Let_def)
  have "sema_ok W s' k'"
  proof -
    have p: "u \<in> parked k'" if "u \<in> set ts" for u
      using e(1) D(3) t(3) that Cons unfolding undisturbed_def by (metis Diff_iff empty_iff insertE list.set_intros(2) subsetD)
    have w: "W - set ts = insert t (W - set (waiters s))" using t Cons by auto
    have c: "unat (sem_value s + 1) \<le> card (insert t (W - set (waiters s)))"
    proof -
      have "card (insert t (W - set (waiters s))) = Suc (card (W - set (waiters s)))"
        using D(1) Cons by (simp add: card_insert_if)
      then show ?thesis using D(7) Cons add_one_unat [of "sem_value s"] by simp
    qed
    have "prio_sorted (t_priority k') ts" using D(5) Cons e(3) by (simp add: prio_sorted_def)
    moreover have "W - set ts \<subseteq> runnable k'" using D(6) e(2) unfolding w by blast
    moreover have "set ts \<subseteq> W" "distinct ts" using D(2,4) Cons by auto
    ultimately show ?thesis using D(1) p c w unfolding sema_ok_def by (simp add: s'_def subset_iff)
  qed
  then show ?thesis
    using run e(2,3) unblock_keeps [OF ok k' b(3,4)] Cons by (auto simp: s'_def)
qed

section \<open>Locks\<close>

record lock =
  holder :: tid
  lock_sema :: semaphore

definition lock_init :: lock where
  "lock_init = \<lparr>holder = NULL, lock_sema = semaphore_init 1\<rparr>"

definition lock_held_by_current_thread :: "lock \<Rightarrow> kernel \<Rightarrow> bool option" where
  "lock_held_by_current_thread l k = do { cur \<leftarrow> thread_current k; Some (holder l = cur) }"

text \<open>\<^verbatim>\<open>lock_acquire\<close> up to the first switch, and the assignment that ends it.\<close>

definition lock_acquire :: "lock \<Rightarrow> kernel \<Rightarrow> (bool \<times> lock \<times> kernel) option" where
  "lock_acquire l k = do {
     kassert (\<not> intr_ctx k);
     held \<leftarrow> lock_held_by_current_thread l k;
     kassert (\<not> held);
     (d, s, k) \<leftarrow> semaphore_down (lock_sema l) k;
     Some (d, l\<lparr>lock_sema := s\<rparr>, k) }"

definition lock_acquire_done :: "lock \<Rightarrow> kernel \<Rightarrow> lock option" where
  "lock_acquire_done l k = do { cur \<leftarrow> thread_current k; Some (l\<lparr>holder := cur\<rparr>) }"

text \<open>\<^verbatim>\<open>lock_release\<close>: the holder is cleared, and then the semaphore is raised.\<close>

definition lock_release_begin :: "lock \<Rightarrow> kernel \<Rightarrow> lock option" where
  "lock_release_begin l k = do {
     held \<leftarrow> lock_held_by_current_thread l k;
     kassert held;
     Some (l\<lparr>holder := NULL\<rparr>) }"

definition lock_release_up :: "lock \<Rightarrow> kernel \<Rightarrow> (lock \<times> kernel) option" where
  "lock_release_up l k = do {
     (s, k) \<leftarrow> semaphore_up (lock_sema l) k;
     Some (l\<lparr>lock_sema := s\<rparr>, k) }"

definition lock_release :: "lock \<Rightarrow> kernel \<Rightarrow> (lock \<times> kernel) option" where
  "lock_release l k = do { l \<leftarrow> lock_release_begin l k; lock_release_up l k }"

text \<open>Where a thread is in its use of the lock: outside; inside \<^verbatim>\<open>semaphore_down\<close> after it has
  waited; past the decrement, but not yet the holder; the holder; past the reset of the holder
  but not yet the increment.\<close>

datatype lock_pc = Outside | Waiting | Downed | Holding | Releasing

record lock_system =
  the_lock :: lock
  kern :: kernel
  pc :: "tid \<Rightarrow> lock_pc"

text \<open>All interleavings. Any thread can be interrupted anywhere by the timer; in its own code,
  outside the lock's operations, a thread can take any scheduler step except waking a thread
  that waits for this lock.\<close>

inductive lock_step :: "lock_system \<Rightarrow> lock_system \<Rightarrow> bool" where
  acquire: "pc s (running (kern s)) = Outside \<Longrightarrow> running (kern s) \<noteq> idle_thread (kern s) \<Longrightarrow>
    lock_acquire (the_lock s) (kern s) = Some (d, l, k) \<Longrightarrow>
    lock_step s \<lparr>the_lock = l, kern = k, pc = (pc s)(running (kern s) := if d then Downed else Waiting)\<rparr>"
| retry: "pc s (running (kern s)) = Waiting \<Longrightarrow> running (kern s) \<noteq> idle_thread (kern s) \<Longrightarrow>
    semaphore_down_round (lock_sema (the_lock s)) (kern s) = Some (d, sm, k) \<Longrightarrow>
    lock_step s \<lparr>the_lock = (the_lock s)\<lparr>lock_sema := sm\<rparr>, kern = k,
      pc = (pc s)(running (kern s) := if d then Downed else Waiting)\<rparr>"
| own: "pc s (running (kern s)) = Downed \<Longrightarrow> lock_acquire_done (the_lock s) (kern s) = Some l \<Longrightarrow>
    lock_step s \<lparr>the_lock = l, kern = kern s, pc = (pc s)(running (kern s) := Holding)\<rparr>"
| release: "pc s (running (kern s)) = Holding \<Longrightarrow> lock_release_begin (the_lock s) (kern s) = Some l \<Longrightarrow>
    lock_step s \<lparr>the_lock = l, kern = kern s, pc = (pc s)(running (kern s) := Releasing)\<rparr>"
| up: "pc s (running (kern s)) = Releasing \<Longrightarrow> lock_release_up (the_lock s) (kern s) = Some (l, k) \<Longrightarrow>
    lock_step s \<lparr>the_lock = l, kern = k, pc = (pc s)(running (kern s) := Outside)\<rparr>"
| work: "pc s (running (kern s)) \<in> {Outside, Holding} \<Longrightarrow> sched_step (kern s) k \<Longrightarrow>
    \<forall>t \<in> set (waiters (lock_sema (the_lock s))). thread_unblock t (kern s) \<noteq> Some k \<Longrightarrow>
    lock_step s (s\<lparr>kern := k\<rparr>)"
| preempt: "timer_event (kern s) = Some k \<Longrightarrow> lock_step s (s\<lparr>kern := k\<rparr>)"

inductive_cases lock_stepE: "lock_step s s'"

text \<open>The threads that count against the semaphore.\<close>

definition inside :: "lock_system \<Rightarrow> tid set" where
  "inside s = {t. pc s t \<in> {Downed, Holding, Releasing}}"

definition lock_ok :: "lock_system \<Rightarrow> bool" where
  "lock_ok s \<longleftrightarrow> kernel_ok (kern s) \<and> sema_ok {t. pc s t = Waiting} (lock_sema (the_lock s)) (kern s) \<and>
     finite (inside s) \<and> unat (sem_value (lock_sema (the_lock s))) + card (inside s) = 1 \<and>
     (\<forall>t. t \<noteq> NULL \<longrightarrow> (holder (the_lock s) = t \<longleftrightarrow> pc s t = Holding)) \<and> pc s NULL = Outside"

lemma lock_okD:
  assumes "lock_ok s"
  shows "kernel_ok (kern s)" "sema_ok {t. pc s t = Waiting} (lock_sema (the_lock s)) (kern s)" "finite (inside s)"
    "unat (sem_value (lock_sema (the_lock s))) + card (inside s) = 1"
    "t \<noteq> NULL \<Longrightarrow> holder (the_lock s) = t \<longleftrightarrow> pc s t = Holding" "pc s NULL = Outside"
    "running (kern s) \<noteq> NULL" "thread_current (kern s) = Some (running (kern s))"
proof -
  show 1: "kernel_ok (kern s)" "sema_ok {t. pc s t = Waiting} (lock_sema (the_lock s)) (kern s)" "finite (inside s)"
    "unat (sem_value (lock_sema (the_lock s))) + card (inside s) = 1"
    "t \<noteq> NULL \<Longrightarrow> holder (the_lock s) = t \<longleftrightarrow> pc s t = Holding" "pc s NULL = Outside"
    using assms by (auto simp: lock_ok_def)
  have o: "sched_ok (kern s)" using 1(1) by (rule kernel_okD)
  show "thread_current (kern s) = Some (running (kern s))" by (rule sched_ok_running [OF o])
  show "running (kern s) \<noteq> NULL" using sched_okD(2) [OF o] lists_okD(1) [OF sched_okD(1) [OF o]] by metis
qed

text \<open>Only one thread is inside.\<close>

lemma inside_single: "lock_ok s \<Longrightarrow> t \<in> inside s \<Longrightarrow> inside s = {t} \<and> sem_value (lock_sema (the_lock s)) = 0"
proof -
  assume ok: "lock_ok s" and t: "t \<in> inside s"
  have "card (inside s) \<noteq> 0" using t lock_okD(3) [OF ok] by auto
  then have "card (inside s) = 1" "unat (sem_value (lock_sema (the_lock s))) = 0" using lock_okD(4) [OF ok] by auto
  then show ?thesis using t by (metis card_1_singletonE singletonD unat_eq_zero)
qed

lemma down_round_lock_ok:
  assumes ok: "lock_ok s" and pc: "pc s (running (kern s)) = Outside \<or> pc s (running (kern s)) = Waiting"
    and ni: "running (kern s) \<noteq> idle_thread (kern s)"
    and run: "semaphore_down_round (lock_sema (the_lock s)) (kern s) = Some (d, sm, k)"
  shows "lock_ok \<lparr>the_lock = (the_lock s)\<lparr>lock_sema := sm\<rparr>, kern = k,
      pc = (pc s)(running (kern s) := if d then Downed else Waiting)\<rparr>" (is "lock_ok ?s")
proof -
  let ?c = "running (kern s)"
  note D = lock_okD [OF ok]
  note r = down_round_ok [OF D(1,2) ni run]
  have w: "{t. pc ?s t = Waiting} = (if d then {t. pc s t = Waiting} - {?c} else insert ?c {t. pc s t = Waiting})"
    by auto
  have "finite (inside ?s) \<and> unat (sem_value sm) + card (inside ?s) = 1"
  proof (cases d)
    case True
    have v: "sem_value (lock_sema (the_lock s)) \<noteq> 0" using r(3) True by blast
    then have "unat (sem_value (lock_sema (the_lock s))) \<noteq> 0" by (simp add: unat_eq_zero)
    then have "card (inside s) = 0" using D(4) by linarith
    then have i: "inside s = {}" using D(3) by simp
    then have "inside ?s = {?c}" using True by (auto simp: inside_def)
    moreover have "unat (sem_value (lock_sema (the_lock s))) = 1" using D(4) i by simp
    ultimately show ?thesis using r(3) True sub_one_unat [OF v] by simp
  next
    case False
    have "inside ?s = inside s" using pc False by (auto simp: inside_def)
    then show ?thesis using r(4) False D(3,4) by simp
  qed
  moreover have "\<forall>t. t \<noteq> NULL \<longrightarrow> (holder (the_lock s) = t \<longleftrightarrow> pc ?s t = Holding)"
    using D(5) pc by auto
  ultimately show ?thesis
    using r(1,2) D(6,7) unfolding lock_ok_def w by simp
qed

lemma pc_only_lock_ok:
  assumes ok: "lock_ok s" and c: "t \<in> inside s" "p = Holding \<or> p = Releasing" "t \<noteq> NULL"
    and h: "h = (if p = Holding then t else NULL)"
  shows "lock_ok \<lparr>the_lock = (the_lock s)\<lparr>holder := h\<rparr>, kern = kern s, pc = (pc s)(t := p)\<rparr>" (is "lock_ok ?s")
proof -
  note D = lock_okD [OF ok]
  have one: "inside s = {t}" using inside_single [OF ok c(1)] by simp
  have i: "inside ?s = inside s" using c by (auto simp: inside_def)
  have w: "{u. pc ?s u = Waiting} = {u. pc s u = Waiting}" using c by (auto simp: inside_def)
  have "pc s u \<noteq> Holding" if "u \<noteq> t" for u using one that by (auto simp: inside_def)
  then have "\<forall>u. u \<noteq> NULL \<longrightarrow> (h = u \<longleftrightarrow> pc ?s u = Holding)" using c h by auto
  then show ?thesis using D(1-4,6) c(3) i w unfolding lock_ok_def by simp
qed

lemma release_up_lock_ok:
  assumes ok: "lock_ok s" and c: "pc s (running (kern s)) = Releasing"
    and run: "lock_release_up (the_lock s) (kern s) = Some (l, k)"
  shows "lock_ok \<lparr>the_lock = l, kern = k, pc = (pc s)(running (kern s) := Outside)\<rparr>" (is "lock_ok ?s")
proof -
  let ?c = "running (kern s)"
  note D = lock_okD [OF ok]
  obtain sm where e: "semaphore_up (lock_sema (the_lock s)) (kern s) = Some (sm, k)" "l = (the_lock s)\<lparr>lock_sema := sm\<rparr>"
    using run by (auto simp: lock_release_up_def split: bind_splits)
  have u: "kernel_ok k" "sema_ok {t. pc s t = Waiting} sm k" "sem_value sm = sem_value (lock_sema (the_lock s)) + 1"
    using semaphore_up_ok [OF D(1,2)] e(1) by auto
  have one: "inside s = {?c}" "sem_value (lock_sema (the_lock s)) = 0"
    using inside_single [OF ok, of ?c] c by (auto simp: inside_def)
  then have i: "inside ?s = {}" by (auto simp: inside_def)
  have w: "{u. pc ?s u = Waiting} = {u. pc s u = Waiting}" using c by auto
  have "\<forall>u. u \<noteq> NULL \<longrightarrow> (holder l = u \<longleftrightarrow> pc ?s u = Holding)" using D(5) c e(2) by auto
  then show ?thesis using u D(6) i w one(2) e(2) unfolding lock_ok_def by simp
qed

lemma sched_step_lock_ok:
  assumes ok: "lock_ok s" and k: "kernel_ok k" and u: "undisturbed (parked (kern s) - P) (kern s) k"
    and p: "P \<inter> set (waiters (lock_sema (the_lock s))) = {}"
    and c: "pc s (running (kern s)) \<noteq> Waiting \<or> runnable (kern s) \<subseteq> runnable k"
  shows "lock_ok (s\<lparr>kern := k\<rparr>)"
proof -
  note D = lock_okD [OF ok]
  have "sema_ok {t. pc s t = Waiting} (lock_sema (the_lock s)) k"
    by (rule sema_ok_undisturbed [OF D(2) u p]) (use c in auto)
  moreover have "inside (s\<lparr>kern := k\<rparr>) = inside s" by (simp add: inside_def)
  ultimately show ?thesis using D(3-6) k unfolding lock_ok_def by simp
qed

lemma lock_step_keeps: "lock_step s s' \<Longrightarrow> lock_ok s \<Longrightarrow> lock_ok s'"
proof (induction rule: lock_step.induct)
  case (acquire s d l k)
  obtain sm where "semaphore_down_round (lock_sema (the_lock s)) (kern s) = Some (d, sm, k)"
    "l = (the_lock s)\<lparr>lock_sema := sm\<rparr>"
    using acquire(3) by (auto simp: lock_acquire_def semaphore_down_def kassert_bind_Some_iff split: bind_splits)
  then show ?case using down_round_lock_ok [OF acquire(4) _ acquire(2)] acquire(1) by blast
next
  case (retry s d sm k)
  then show ?case using down_round_lock_ok [OF retry(4) _ retry(2,3)] by blast
next
  case (own s l)
  note D = lock_okD [OF own(3)]
  have "l = (the_lock s)\<lparr>holder := running (kern s)\<rparr>" using own(2) D(8) by (simp add: lock_acquire_done_def)
  then show ?case using pc_only_lock_ok [OF own(3), of "running (kern s)" Holding] own(1) D(7) by (simp add: inside_def)
next
  case (release s l)
  note D = lock_okD [OF release(3)]
  have "l = (the_lock s)\<lparr>holder := NULL\<rparr>"
    using release(2) by (auto simp: lock_release_begin_def kassert_bind_Some_iff split: bind_splits)
  then show ?case using pc_only_lock_ok [OF release(3), of "running (kern s)" Releasing] release(1) D(7) by (simp add: inside_def)
next
  case (up s l k)
  then show ?case using release_up_lock_ok by blast
next
  case (work s k)
  note D = lock_okD [OF work(4)]
  have k: "kernel_ok k" by (rule sched_step_keeps [OF work(2) D(1)])
  have c: "pc s (running (kern s)) \<noteq> Waiting" using work(1) by auto
  from sched_step_effect [OF work(2) D(1)] show ?case
  proof
    assume "undisturbed (parked (kern s)) (kern s) k"
    then show ?thesis using sched_step_lock_ok [OF work(4) k, of "{}"] c by simp
  next
    assume "\<exists>t. thread_unblock t (kern s) = Some k \<and> undisturbed (parked (kern s) - {t}) (kern s) k"
    then obtain t where t: "thread_unblock t (kern s) = Some k" "undisturbed (parked (kern s) - {t}) (kern s) k" by blast
    then have "t \<notin> set (waiters (lock_sema (the_lock s)))" using work(3) by blast
    then show ?thesis using sched_step_lock_ok [OF work(4) k t(2)] c by simp
  qed
next
  case (preempt s k)
  note D = lock_okD [OF preempt(2)]
  show ?case
    using sched_step_lock_ok [OF preempt(2) timer_event_keeps [OF D(1) preempt(1)], of "{}"]
      timer_event_effect [OF D(1) preempt(1)] by simp
qed

definition lock_system_init :: "kernel \<Rightarrow> lock_system" where
  "lock_system_init k = \<lparr>the_lock = lock_init, kern = k, pc = (\<lambda>_. Outside)\<rparr>"

lemma lock_system_init_ok: "kernel_ok k \<Longrightarrow> lock_ok (lock_system_init k)"
  using sema_ok_init [of 1 k] by (simp add: lock_ok_def lock_system_init_def lock_init_def inside_def semaphore_init_def)

lemma lock_reachable_ok: "lock_step\<^sup>*\<^sup>* s s' \<Longrightarrow> lock_ok s \<Longrightarrow> lock_ok s'"
  by (induction rule: rtranclp_induct) (auto intro: lock_step_keeps)

section \<open>Properties of locks\<close>

lemma lock_ok_exclusive:
  assumes ok: "lock_ok s"
  shows "(\<forall>t u. pc s t \<in> {Downed, Holding, Releasing} \<and> pc s u \<in> {Downed, Holding, Releasing} \<longrightarrow> t = u) \<and>
    (\<forall>t. t \<noteq> NULL \<longrightarrow> (holder (the_lock s) = t \<longleftrightarrow> pc s t = Holding)) \<and>
    ((\<forall>t. pc s t \<in> {Outside, Waiting}) \<and> waiters (lock_sema (the_lock s)) \<noteq> [] \<longrightarrow>
      (\<exists>t. pc s t = Waiting \<and> t \<notin> set (waiters (lock_sema (the_lock s))) \<and>
         (t_status (kern s) t = THREAD_READY \<or> t_status (kern s) t = THREAD_RUNNING)))"
proof -
  note D = lock_okD [OF ok] and S = sema_okD [OF lock_okD(2) [OF ok]]
  have "t = u" if "t \<in> inside s" "u \<in> inside s" for t u using that inside_single [OF ok] by blast
  moreover have "\<exists>t. pc s t = Waiting \<and> t \<notin> set (waiters (lock_sema (the_lock s))) \<and> t \<in> runnable (kern s)"
    if "\<forall>t. pc s t \<in> {Outside, Waiting}" "waiters (lock_sema (the_lock s)) \<noteq> []"
  proof -
    have "t \<notin> inside s" for t using spec [OF that(1), of t] by (auto simp: inside_def)
    then have "inside s = {}" by blast
    then have "unat (sem_value (lock_sema (the_lock s))) = 1" using D(4) by simp
    then have "card ({t. pc s t = Waiting} - set (waiters (lock_sema (the_lock s)))) \<noteq> 0" using S(7) that(2) by simp
    then have "{t. pc s t = Waiting} - set (waiters (lock_sema (the_lock s))) \<noteq> {}" by (metis card.empty)
    then show ?thesis using S(6) by blast
  qed
  ultimately show ?thesis using D(5) unfolding inside_def runnable_def by blast
qed

text \<open>C3: In every interleaving of the threads' lock operations with each other, with their
  other work and with timer interrupts, at most one thread is between the decrement of the
  lock's semaphore and its increment; the holder field names the thread that holds the lock;
  and when nobody is inside while threads wait, one of them has been woken and can run.\<close>

theorem lock_mutual_exclusion:
  assumes "kernel_ok k" and "lock_step\<^sup>*\<^sup>* (lock_system_init k) s"
  shows "(\<forall>t u. pc s t \<in> {Downed, Holding, Releasing} \<and> pc s u \<in> {Downed, Holding, Releasing} \<longrightarrow> t = u) \<and>
    (\<forall>t. t \<noteq> NULL \<longrightarrow> (holder (the_lock s) = t \<longleftrightarrow> pc s t = Holding)) \<and>
    ((\<forall>t. pc s t \<in> {Outside, Waiting}) \<and> waiters (lock_sema (the_lock s)) \<noteq> [] \<longrightarrow>
      (\<exists>t. pc s t = Waiting \<and> t \<notin> set (waiters (lock_sema (the_lock s))) \<and>
         (t_status (kern s) t = THREAD_READY \<or> t_status (kern s) t = THREAD_RUNNING)))"
  by (rule lock_ok_exclusive [OF lock_reachable_ok [OF assms(2) lock_system_init_ok [OF assms(1)]]])

theorem lock_mutual_exclusion_witness:
  "\<exists>s. lock_step\<^sup>*\<^sup>* (lock_system_init (thread_init 10 31)) s \<and> pc s 10 = Holding \<and> holder (the_lock s) = 10"
proof -
  let ?k = "thread_init 10 31"
  let ?l = "\<lparr>holder = 0, lock_sema = \<lparr>sem_value = 0, waiters = []\<rparr>\<rparr>"
  have r: "running ?k = 10" "idle_thread ?k = 0" "thread_current ?k = Some 10" "\<not> intr_ctx ?k"
    by (simp_all add: thread_init_def thread_current_def)
  have "lock_acquire lock_init ?k = Some (True, ?l, ?k)"
    using r by (simp add: lock_acquire_def lock_init_def semaphore_init_def lock_held_by_current_thread_def
        semaphore_down_def semaphore_down_round_def)
  then have 1: "lock_step (lock_system_init ?k) \<lparr>the_lock = ?l, kern = ?k, pc = (\<lambda>_. Outside)(10 := Downed)\<rparr>"
    using lock_step.acquire [of "lock_system_init ?k" True ?l ?k] r by (simp add: lock_system_init_def)
  have 2: "lock_step \<lparr>the_lock = ?l, kern = ?k, pc = (\<lambda>_. Outside)(10 := Downed)\<rparr>
      \<lparr>the_lock = ?l\<lparr>holder := 10\<rparr>, kern = ?k, pc = (\<lambda>_. Outside)(10 := Holding)\<rparr>"
    using lock_step.own [of "\<lparr>the_lock = ?l, kern = ?k, pc = (\<lambda>_. Outside)(10 := Downed)\<rparr>" "?l\<lparr>holder := 10\<rparr>"] r
    by (simp add: lock_acquire_done_def)
  let ?s = "\<lparr>the_lock = ?l\<lparr>holder := 10\<rparr>, kern = ?k, pc = (\<lambda>_. Outside)(10 := Holding)\<rparr>"
  have "lock_step\<^sup>*\<^sup>* (lock_system_init ?k) ?s" using 1 2 by (meson converse_rtranclp_into_rtranclp rtranclp.rtrancl_refl)
  then show ?thesis
    using lock_mutual_exclusion [OF thread_init_ok, of 10 31 ?s] by (intro exI [of _ ?s]) simp
qed

text \<open>\<^verbatim>\<open>semaphore_up\<close> never fails: it adds one to the value and makes runnable the first
  waiting thread, which no other waiter exceeds in priority; and a later round of
  \<^verbatim>\<open>semaphore_down\<close> decrements exactly when the value is not zero.\<close>

theorem semaphore_up_wakes_highest:
  assumes "kernel_ok k" and "sema_ok W s k"
  shows "\<exists>s' k'. semaphore_up s k = Some (s', k') \<and> kernel_ok k' \<and> sema_ok W s' k' \<and>
    sem_value s' = sem_value s + 1 \<and>
    (waiters s \<noteq> [] \<longrightarrow> waiters s = hd (waiters s) # waiters s' \<and>
       (t_status k' (hd (waiters s)) = THREAD_READY \<or> t_status k' (hd (waiters s)) = THREAD_RUNNING) \<and>
       (\<forall>t \<in> set (waiters s). t_priority k t \<le> t_priority k (hd (waiters s)))) \<and>
    (\<forall>d s2 k2. semaphore_down_round s' k' = Some (d, s2, k2) \<longrightarrow> (d \<longleftrightarrow> sem_value s' \<noteq> 0))"
proof -
  obtain s' k' where u: "semaphore_up s k = Some (s', k')" "kernel_ok k'" "sema_ok W s' k'"
    "sem_value s' = sem_value s + 1" "waiters s' = tl (waiters s)" "waiters s \<noteq> [] \<longrightarrow> hd (waiters s) \<in> runnable k'"
    using semaphore_up_ok [OF assms] by blast
  have "\<forall>t \<in> set (waiters s). t_priority k t \<le> t_priority k (hd (waiters s))"
    using sema_okD(5) [OF assms(2)] by (cases "waiters s") (auto simp: prio_sorted_def)
  moreover have "d \<longleftrightarrow> sem_value s' \<noteq> 0" if "semaphore_down_round s' k' = Some (d, s2, k2)" for d s2 k2
    using that by (auto simp: semaphore_down_round_def split: if_splits bind_splits)
  ultimately show ?thesis
    using u by (intro exI [of _ s'] exI [of _ k']) (auto simp: runnable_def)
qed

text \<open>A semaphore with two waiters.\<close>

definition sample_kernel :: kernel where
  "sample_kernel = (thread_init 10 31)\<lparr>is_thread := (\<lambda>x. x = 10 \<or> x = 20 \<or> x = 30), all_list := [10, 20, 30],
     t_priority := (\<lambda>_. 0)(10 := 31, 20 := 40, 30 := 7)\<rparr>"

lemma sample_kernel_ok: "kernel_ok sample_kernel"
proof -
  have "lists_ok sample_kernel"
    by (auto simp: lists_ok_def sample_kernel_def thread_init_def prio_sorted_def)
  then show ?thesis
    by (auto simp: kernel_ok_def sched_ok_def prio_ok_def timer_ok_def sample_kernel_def thread_init_def)
qed

lemma sample_waiters_ok: "sema_ok {20, 30} \<lparr>sem_value = 0, waiters = [20, 30]\<rparr> sample_kernel"
  by (auto simp: sema_ok_def prio_sorted_def parked_def sample_kernel_def thread_init_def)

theorem semaphore_up_wakes_highest_witness:
  "\<exists>s' k'. semaphore_up \<lparr>sem_value = 0, waiters = [20, 30]\<rparr> sample_kernel = Some (s', k') \<and>
     waiters s' = [30] \<and> sem_value s' = 1 \<and> t_status k' 20 \<in> {THREAD_READY, THREAD_RUNNING}"
  using semaphore_up_wakes_highest [OF sample_kernel_ok sample_waiters_ok] by auto

section \<open>Condition variables\<close>

text \<open>A waiter is a semaphore on the stack of the thread that waits, so it is named by that
  thread.\<close>

record condvar =
  cond_waiters :: "tid list"
  cond_sema :: "tid \<Rightarrow> semaphore"

definition condvar_init :: "(tid \<Rightarrow> semaphore) \<Rightarrow> condvar" where
  "condvar_init stacks = \<lparr>cond_waiters = [], cond_sema = stacks\<rparr>"

text \<open>The place of a new waiter of priority \<open>p\<close>: before the first waiter whose semaphore's first
  waiting thread has a lower priority. \<^verbatim>\<open>list_front\<close> stops the kernel on an empty list.\<close>

fun condvar_place :: "(tid \<Rightarrow> int) \<Rightarrow> (tid \<Rightarrow> semaphore) \<Rightarrow> tid \<Rightarrow> tid list \<Rightarrow> tid list option" where
  "condvar_place pri sm c [] = Some [c]"
| "condvar_place pri sm c (x # xs) =
     (case waiters (sm x) of
        [] \<Rightarrow> None
      | w # ws \<Rightarrow> if pri c > pri w then Some (c # x # xs) else do { ys \<leftarrow> condvar_place pri sm c xs; Some (x # ys) })"

text \<open>\<^verbatim>\<open>condvar_wait\<close> up to its call of \<^verbatim>\<open>semaphore_down\<close>, that call, and the rest.\<close>

definition condvar_wait_enter :: "condvar \<Rightarrow> lock \<Rightarrow> kernel \<Rightarrow> (condvar \<times> lock \<times> kernel) option" where
  "condvar_wait_enter c l k = do {
     kassert (\<not> intr_ctx k);
     held \<leftarrow> lock_held_by_current_thread l k;
     kassert held;
     cur \<leftarrow> thread_current k;
     let sm = (cond_sema c)(cur := semaphore_init 0);
     ws \<leftarrow> condvar_place (t_priority k) sm cur (cond_waiters c);
     (l, k) \<leftarrow> lock_release l k;
     Some (\<lparr>cond_waiters = ws, cond_sema = sm\<rparr>, l, k) }"

definition condvar_wait_down :: "condvar \<Rightarrow> kernel \<Rightarrow> (bool \<times> condvar \<times> kernel) option" where
  "condvar_wait_down c k = do {
     cur \<leftarrow> thread_current k;
     (d, s, k) \<leftarrow> semaphore_down (cond_sema c cur) k;
     Some (d, c\<lparr>cond_sema := (cond_sema c)(cur := s)\<rparr>, k) }"

definition condvar_wait_reacquire :: "lock \<Rightarrow> kernel \<Rightarrow> (bool \<times> lock \<times> kernel) option" where
  "condvar_wait_reacquire l k = lock_acquire l k"

definition condvar_signal :: "condvar \<Rightarrow> lock \<Rightarrow> kernel \<Rightarrow> (condvar \<times> kernel) option" where
  "condvar_signal c l k = do {
     kassert (\<not> intr_ctx k);
     held \<leftarrow> lock_held_by_current_thread l k;
     kassert held;
     case cond_waiters c of
       [] \<Rightarrow> Some (c, k)
     | t # ts \<Rightarrow> do {
         (s, k) \<leftarrow> semaphore_up (cond_sema c t) k;
         Some (\<lparr>cond_waiters = ts, cond_sema = (cond_sema c)(t := s)\<rparr>, k) } }"

text \<open>One round of the loop of \<^verbatim>\<open>condvar_broadcast\<close>; the caller may be preempted after it.\<close>

definition condvar_broadcast :: "condvar \<Rightarrow> lock \<Rightarrow> kernel \<Rightarrow> (bool \<times> condvar \<times> kernel) option" where
  "condvar_broadcast c l k =
     (if cond_waiters c = [] then Some (True, c, k)
      else do { (c, k) \<leftarrow> condvar_signal c l k; Some (False, c, k) })"

text \<open>While every waiter sleeps in its own semaphore, the waiters stay sorted by priority.\<close>

lemma condvar_place_sorted:
  assumes "\<forall>x \<in> set xs. waiters (sm x) = [x]" and "prio_sorted pri xs"
  shows "condvar_place pri sm c xs = Some (prio_insert pri c xs)"
  using assms by (induction xs) (auto simp: prio_sorted_def)

lemma condvar_place_fails:
  "waiters (sm x) = [] \<Longrightarrow> condvar_place pri sm c (x # xs) = None"
  by simp

text \<open>Among waiters that all sleep in their own semaphores, by falling priority,
  \<^verbatim>\<open>condvar_wait\<close> puts a new one behind all of at least its priority; a signal by the holder of
  the lock never fails and makes the first of them runnable.\<close>

theorem condvar_signal_wakes_highest:
  assumes ok: "kernel_ok k" and h: "holder l = running k"
    and w: "\<forall>x \<in> set (cond_waiters c). waiters (cond_sema c x) = [x] \<and> sema_ok {x} (cond_sema c x) k"
    and s: "sorted_wrt (\<lambda>a b. t_priority k a \<ge> t_priority k b) (cond_waiters c)"
  shows "(\<exists>ys. condvar_place (t_priority k) (cond_sema c) t (cond_waiters c) = Some ys \<and>
       mset ys = add_mset t (mset (cond_waiters c)) \<and> sorted_wrt (\<lambda>a b. t_priority k a \<ge> t_priority k b) ys) \<and>
    (\<exists>c' k'. condvar_signal c l k = Some (c', k') \<and> kernel_ok k' \<and> cond_waiters c' = tl (cond_waiters c) \<and>
       (cond_waiters c \<noteq> [] \<longrightarrow>
          (t_status k' (hd (cond_waiters c)) = THREAD_READY \<or> t_status k' (hd (cond_waiters c)) = THREAD_RUNNING)))"
proof -
  have m: "mset (prio_insert p t xs) = add_mset t (mset xs)" for p xs by (induction xs) auto
  have p: "condvar_place (t_priority k) (cond_sema c) t (cond_waiters c) = Some (prio_insert (t_priority k) t (cond_waiters c))"
    using w s by (intro condvar_place_sorted) (auto simp: prio_sorted_def)
  have cur: "thread_current k = Some (running k)" by (rule sched_ok_running [OF kernel_okD(1) [OF ok]])
  have "\<exists>c' k'. condvar_signal c l k = Some (c', k') \<and> kernel_ok k' \<and> cond_waiters c' = tl (cond_waiters c) \<and>
       (cond_waiters c \<noteq> [] \<longrightarrow> hd (cond_waiters c) \<in> runnable k')"
  proof (cases "cond_waiters c")
    case Nil
    then show ?thesis using ok h cur kernel_okD(4) [OF ok] by (simp add: condvar_signal_def lock_held_by_current_thread_def)
  next
    case (Cons x xs)
    then have x: "waiters (cond_sema c x) = [x]" "sema_ok {x} (cond_sema c x) k" using w by auto
    obtain s' k' where "semaphore_up (cond_sema c x) k = Some (s', k')" "kernel_ok k'" "x \<in> runnable k'"
      using semaphore_up_ok [OF ok x(2)] x(1) by auto
    then show ?thesis using Cons h cur kernel_okD(4) [OF ok]
      by (simp add: condvar_signal_def lock_held_by_current_thread_def)
  qed
  moreover have "sorted_wrt (\<lambda>a b. t_priority k a \<ge> t_priority k b) (prio_insert (t_priority k) t (cond_waiters c))"
    using prio_sorted_insert [of "t_priority k"] s by (simp add: prio_sorted_def)
  ultimately show ?thesis using p m by (auto simp: runnable_def)
qed

theorem condvar_signal_wakes_highest_witness:
  "let c = \<lparr>cond_waiters = [20, 30], cond_sema = (\<lambda>x. \<lparr>sem_value = 0, waiters = [x]\<rparr>)\<rparr>;
       l = \<lparr>holder = 10, lock_sema = semaphore_init 0\<rparr> in
   \<exists>c' k'. condvar_signal c l sample_kernel = Some (c', k') \<and> cond_waiters c' = [30] \<and>
     t_status k' 20 \<in> {THREAD_READY, THREAD_RUNNING}"
proof -
  let ?c = "\<lparr>cond_waiters = [20, 30], cond_sema = (\<lambda>x. \<lparr>sem_value = 0, waiters = [x]\<rparr>)\<rparr>"
  let ?l = "\<lparr>holder = 10, lock_sema = semaphore_init 0\<rparr>"
  have h: "holder ?l = running sample_kernel" by (simp add: sample_kernel_def thread_init_def)
  have w: "\<forall>x \<in> set (cond_waiters ?c). waiters (cond_sema ?c x) = [x] \<and> sema_ok {x} (cond_sema ?c x) sample_kernel"
    by (auto simp: sema_ok_def prio_sorted_def parked_def sample_kernel_def thread_init_def)
  have s: "sorted_wrt (\<lambda>a b. t_priority sample_kernel a \<ge> t_priority sample_kernel b) (cond_waiters ?c)"
    by (simp add: sample_kernel_def)
  show ?thesis using condvar_signal_wakes_highest [OF sample_kernel_ok h w s, of 40] by (auto simp: Let_def)
qed

text \<open>\<^verbatim>\<open>condvar_wait\<close> stops the kernel when the release of the lock, between the insertion
  of the waiter and its sleep, hands the processor to a thread of higher priority that waits
  for the lock and then waits on the same condition variable: that thread asks for the first
  sleeper of a semaphore in which nobody sleeps yet.\<close>

theorem condvar_wait_race:
  assumes ok: "kernel_ok k" and l: "holder l = running k" "sem_value (lock_sema l) = 0" "waiters (lock_sema l) = t # ts"
    and s: "sema_ok W (lock_sema l) k" and c: "cond_waiters c = []" and i: "running k \<noteq> idle_thread k"
    and p: "t_priority k t > t_priority k (running k)"
  shows "\<exists>c' l' k' l2. condvar_wait_enter c l k = Some (c', l', k') \<and> kernel_ok k' \<and> running k' = t \<and>
    semaphore_down_round (lock_sema l') k' = Some (True, l2, k') \<and>
    condvar_wait_enter c' \<lparr>holder = t, lock_sema = l2\<rparr> k' = None"
proof -
  have cur: "thread_current k = Some (running k)" by (rule sched_ok_running [OF kernel_okD(1) [OF ok]])
  have t: "t \<in> parked k" using sema_okD(3) [OF s] l(3) by simp
  then have b: "is_thread k t" "t_status k t = THREAD_BLOCKED" "t \<noteq> idle_thread k" by (auto simp: parked_def)
  then have nt: "t \<noteq> running k" using sched_okD(3) [OF kernel_okD(1) [OF ok]] by auto
  obtain k' where k': "thread_unblock t k = Some k'" "running k' = t" "sched_ok k'"
    using thread_unblock_spec [OF kernel_okD(1) [OF ok] kernel_okD(2) [OF ok] b] kernel_okD(4) [OF ok] p i by (auto simp: preempts_def)
  have ko: "kernel_ok k'" using unblock_keeps [OF ok k'(1) b(3)] t by (simp add: parked_def)
  let ?c = "\<lparr>cond_waiters = [running k], cond_sema = (cond_sema c)(running k := semaphore_init 0)\<rparr>"
  let ?l = "\<lparr>holder = NULL, lock_sema = \<lparr>sem_value = 1, waiters = ts\<rparr>\<rparr>"
  let ?s = "\<lparr>sem_value = 0, waiters = ts\<rparr>"
  have "lock_sema l = \<lparr>sem_value = 0, waiters = t # ts\<rparr>" using l(2,3) by simp
  then have "condvar_wait_enter c l k = Some (?c, ?l, k')"
    using k' l(1) cur c kernel_okD(4) [OF ok]
    by (cases l) (simp add: condvar_wait_enter_def lock_held_by_current_thread_def lock_release_def
        lock_release_begin_def lock_release_up_def semaphore_up_def Let_def)
  moreover have "semaphore_down_round (lock_sema ?l) k' = Some (True, ?s, k')" by (simp add: semaphore_down_round_def)
  moreover have "condvar_wait_enter ?c \<lparr>holder = t, lock_sema = ?s\<rparr> k' = None"
    using nt k' sched_ok_running [OF k'(3)] kernel_okD(4) [OF ko]
    by (simp add: condvar_wait_enter_def lock_held_by_current_thread_def semaphore_init_def Let_def)
  ultimately show ?thesis using k'(2) ko by blast
qed

theorem condvar_wait_race_witness:
  "let c = condvar_init (\<lambda>_. semaphore_init 0); l = \<lparr>holder = 10, lock_sema = \<lparr>sem_value = 0, waiters = [20]\<rparr>\<rparr> in
   \<exists>c' l' k' l2. condvar_wait_enter c l sample_kernel = Some (c', l', k') \<and> running k' = 20 \<and>
     condvar_wait_enter c' \<lparr>holder = 20, lock_sema = l2\<rparr> k' = None"
proof -
  let ?c = "condvar_init (\<lambda>_. semaphore_init 0)"
  let ?l = "\<lparr>holder = 10, lock_sema = \<lparr>sem_value = 0, waiters = [20]\<rparr>\<rparr>"
  have "sema_ok {20} (lock_sema ?l) sample_kernel"
    by (auto simp: sema_ok_def prio_sorted_def parked_def sample_kernel_def thread_init_def)
  then show ?thesis
    using condvar_wait_race [OF sample_kernel_ok, of ?l 20 "[]" "{20}" ?c]
    by (auto simp: Let_def condvar_init_def sample_kernel_def thread_init_def)
qed

end
