(* ===== verification/Cache.thy ===== *)
theory Cache
  imports Block
begin

text \<open>
  The buffer cache of the file system, \<^verbatim>\<open>filesys/cache.c\<close>: 64 entries over the file system
  device, replaced by the clock algorithm and written back when they are evicted or when the
  cache is closed. Every operation runs under the cache's lock, so each one is one step.

  The cache is the second instance of the contract \<open>sector_store\<close>: its contents are those
  of the cached entries, and of the device elsewhere.
\<close>

definition BUFFER_CACHE_SIZE :: nat where
  "BUFFER_CACHE_SIZE = 64"

record 'c buffer_cache_entry =
  occupied :: bool
  disk_sector :: nat
  buffer :: 'c
  dirty :: bool
  accessed :: bool

record 'c buffer_cache =
  entries :: "'c buffer_cache_entry list"
  clock :: nat
  fs_device :: "'c block"

definition buffer_cache_init :: "'c buffer_cache \<Rightarrow> 'c buffer_cache" where
  "buffer_cache_init s = s\<lparr>entries := map (\<lambda>e. e\<lparr>occupied := False\<rparr>) (entries s)\<rparr>"

definition buffer_cache_flush :: "nat \<Rightarrow> 'c buffer_cache \<Rightarrow> 'c buffer_cache option" where
  "buffer_cache_flush i s = do {
     let e = entries s ! i;
     kassert (occupied e);
     if dirty e
     then do {
       d \<leftarrow> block_write (disk_sector e) (buffer e) (fs_device s);
       Some (s\<lparr>fs_device := d, entries := (entries s)[i := e\<lparr>dirty := False\<rparr>]\<rparr>) }
     else Some s }"

fun flush_all :: "nat list \<Rightarrow> 'c buffer_cache \<Rightarrow> 'c buffer_cache option" where
  "flush_all [] s = Some s"
| "flush_all (i # is) s =
     (if \<not> occupied (entries s ! i) then flush_all is s
      else do { s \<leftarrow> buffer_cache_flush i s; flush_all is s })"

definition buffer_cache_close :: "'c buffer_cache \<Rightarrow> 'c buffer_cache option" where
  "buffer_cache_close s = flush_all [0..<BUFFER_CACHE_SIZE] s"

text \<open>The loop of \<^verbatim>\<open>buffer_cache_lookup\<close> from the \<open>i\<close>-th entry on.\<close>

fun lookup_from :: "nat \<Rightarrow> 'c buffer_cache_entry list \<Rightarrow> nat \<Rightarrow> nat option" where
  "lookup_from i [] sector = None"
| "lookup_from i (e # es) sector =
     (if occupied e \<and> disk_sector e = sector then Some i else lookup_from (i + 1) es sector)"

definition buffer_cache_lookup :: "nat \<Rightarrow> 'c buffer_cache \<Rightarrow> nat option" where
  "buffer_cache_lookup sector s = lookup_from 0 (entries s) sector"

lemma accessed_cleared:
  "c < length es \<Longrightarrow> accessed (es ! c) \<Longrightarrow>
   length (filter accessed (es[c := (es ! c)\<lparr>accessed := False\<rparr>])) < length (filter accessed es)"
proof (induction es arbitrary: c)
  case (Cons e es)
  then show ?case by (cases c) auto
qed simp

text \<open>The clock: every round clears a reference bit or ends. An index outside the array has no
  value.\<close>

function clock_loop :: "'c buffer_cache_entry list \<Rightarrow> nat \<Rightarrow> ('c buffer_cache_entry list \<times> nat) option" where
  "clock_loop es c =
     (if c \<ge> length es then None
      else if \<not> occupied (es ! c) then Some (es, c)
      else if accessed (es ! c)
      then clock_loop (es[c := (es ! c)\<lparr>accessed := False\<rparr>]) ((c + 1) mod BUFFER_CACHE_SIZE)
      else Some (es, c))"
  by pat_completeness auto
termination
  by (relation "measure (\<lambda>(es, c). length (filter accessed es))") (auto simp: accessed_cleared)

declare clock_loop.simps [simp del]

definition buffer_cache_evict :: "'c buffer_cache \<Rightarrow> (nat \<times> 'c buffer_cache) option" where
  "buffer_cache_evict s = do {
     (es, c) \<leftarrow> clock_loop (entries s) (clock s);
     let s = s\<lparr>entries := es, clock := c\<rparr>;
     if \<not> occupied (es ! c) then Some (c, s)
     else do {
       s \<leftarrow> (if dirty (es ! c) then buffer_cache_flush c s else Some s);
       Some (c, s\<lparr>entries := (entries s)[c := (entries s ! c)\<lparr>occupied := False\<rparr>]\<rparr>) } }"

text \<open>The slot that holds a sector, after a miss has filled it: the first half of
  \<^verbatim>\<open>buffer_cache_read\<close> and of \<^verbatim>\<open>buffer_cache_write\<close>.\<close>

definition buffer_cache_fetch :: "nat \<Rightarrow> 'c buffer_cache \<Rightarrow> (nat \<times> 'c buffer_cache) option" where
  "buffer_cache_fetch sector s =
     (case buffer_cache_lookup sector s of
        Some i \<Rightarrow> Some (i, s)
      | None \<Rightarrow> do {
          (i, s) \<leftarrow> buffer_cache_evict s;
          kassert (\<not> occupied (entries s ! i));
          (c, d) \<leftarrow> block_read sector (fs_device s);
          Some (i, s\<lparr>fs_device := d, entries := (entries s)[i := (entries s ! i)
            \<lparr>occupied := True, disk_sector := sector, dirty := False, buffer := c\<rparr>]\<rparr>) })"

definition buffer_cache_read :: "nat \<Rightarrow> 'c buffer_cache \<Rightarrow> ('c \<times> 'c buffer_cache) option" where
  "buffer_cache_read sector s = do {
     (i, s) \<leftarrow> buffer_cache_fetch sector s;
     let s = s\<lparr>entries := (entries s)[i := (entries s ! i)\<lparr>accessed := True\<rparr>]\<rparr>;
     Some (buffer (entries s ! i), s) }"

definition buffer_cache_write :: "nat \<Rightarrow> 'c \<Rightarrow> 'c buffer_cache \<Rightarrow> 'c buffer_cache option" where
  "buffer_cache_write sector source s = do {
     (i, s) \<leftarrow> buffer_cache_fetch sector s;
     Some (s\<lparr>entries := (entries s)[i := (entries s ! i)\<lparr>accessed := True, dirty := True, buffer := source\<rparr>]\<rparr>) }"

section \<open>The invariant and the contents\<close>

definition cache_ok :: "'c buffer_cache \<Rightarrow> bool" where
  "cache_ok s \<longleftrightarrow> length (entries s) = BUFFER_CACHE_SIZE \<and> clock s < BUFFER_CACHE_SIZE \<and> block_ok (fs_device s) \<and>
     (\<forall>i < BUFFER_CACHE_SIZE. occupied (entries s ! i) \<longrightarrow>
        disk_sector (entries s ! i) < block_sectors (fs_device s) \<and>
        (\<not> dirty (entries s ! i) \<longrightarrow> buffer (entries s ! i) = block_data (fs_device s) (disk_sector (entries s ! i))) \<and>
        (\<forall>j < BUFFER_CACHE_SIZE. occupied (entries s ! j) \<and> disk_sector (entries s ! j) = disk_sector (entries s ! i) \<longrightarrow> j = i))"

definition cache_content :: "'c buffer_cache \<Rightarrow> nat \<Rightarrow> 'c" where
  "cache_content s k = (case buffer_cache_lookup k s of Some i \<Rightarrow> buffer (entries s ! i) | None \<Rightarrow> block_data (fs_device s) k)"

definition cache_valid :: "'c buffer_cache \<Rightarrow> nat \<Rightarrow> bool" where
  "cache_valid s k \<longleftrightarrow> k < block_sectors (fs_device s)"

lemma lookup_from_Some:
  "lookup_from n es k = Some i \<Longrightarrow> n \<le> i \<and> i < n + length es \<and> occupied (es ! (i - n)) \<and> disk_sector (es ! (i - n)) = k"
proof (induction es arbitrary: n)
  case (Cons e es)
  show ?case
  proof (cases "occupied e \<and> disk_sector e = k")
    case False
    then have "lookup_from (n + 1) es k = Some i" using Cons.prems by (auto split: if_splits)
    then have h: "n + 1 \<le> i" "i < n + 1 + length es" "occupied (es ! (i - (n + 1)))" "disk_sector (es ! (i - (n + 1))) = k"
      using Cons.IH by blast+
    then have "i - n = Suc (i - (n + 1))" by simp
    then show ?thesis using h by simp
  qed (use Cons.prems in auto)
qed simp

lemma lookup_from_None:
  "lookup_from n es k = None \<Longrightarrow> e \<in> set es \<Longrightarrow> \<not> (occupied e \<and> disk_sector e = k)"
  by (induction es arbitrary: n) (auto split: if_splits)

lemma lookup_Some:
  "buffer_cache_lookup k s = Some i \<Longrightarrow> i < length (entries s) \<and> occupied (entries s ! i) \<and> disk_sector (entries s ! i) = k"
  using lookup_from_Some [of 0 "entries s" k i] by (auto simp: buffer_cache_lookup_def)

lemma lookup_None:
  "buffer_cache_lookup k s = None \<Longrightarrow> i < length (entries s) \<Longrightarrow> \<not> (occupied (entries s ! i) \<and> disk_sector (entries s ! i) = k)"
  using lookup_from_None [of 0 "entries s" k] by (auto simp: buffer_cache_lookup_def)

lemma cache_okD:
  assumes "cache_ok s"
  shows "length (entries s) = BUFFER_CACHE_SIZE" "clock s < BUFFER_CACHE_SIZE" "block_ok (fs_device s)"
    "i < BUFFER_CACHE_SIZE \<Longrightarrow> occupied (entries s ! i) \<Longrightarrow> disk_sector (entries s ! i) < block_sectors (fs_device s)"
    "i < BUFFER_CACHE_SIZE \<Longrightarrow> occupied (entries s ! i) \<Longrightarrow> \<not> dirty (entries s ! i) \<Longrightarrow>
       buffer (entries s ! i) = block_data (fs_device s) (disk_sector (entries s ! i))"
    "i < BUFFER_CACHE_SIZE \<Longrightarrow> occupied (entries s ! i) \<Longrightarrow> j < BUFFER_CACHE_SIZE \<Longrightarrow> occupied (entries s ! j) \<Longrightarrow>
       disk_sector (entries s ! j) = disk_sector (entries s ! i) \<Longrightarrow> j = i"
  using assms unfolding cache_ok_def by blast+

text \<open>What the cache holds, as a relation, for proofs.\<close>

lemma cache_content_cached:
  assumes ok: "cache_ok s" and i: "i < BUFFER_CACHE_SIZE" "occupied (entries s ! i)" "disk_sector (entries s ! i) = k"
  shows "cache_content s k = buffer (entries s ! i)" "buffer_cache_lookup k s = Some i"
proof -
  show 1: "buffer_cache_lookup k s = Some i"
  proof (cases "buffer_cache_lookup k s")
    case None
    then show ?thesis using lookup_None [OF None, of i] i cache_okD(1) [OF ok] by simp
  next
    case (Some j)
    then have "j < BUFFER_CACHE_SIZE" "occupied (entries s ! j)" "disk_sector (entries s ! j) = k"
      using lookup_Some [OF Some] cache_okD(1) [OF ok] by auto
    then have "j = i" using cache_okD(6) [OF ok i(1,2), of j] i(3) by simp
    then show ?thesis using Some by simp
  qed
  then show "cache_content s k = buffer (entries s ! i)" by (simp add: cache_content_def)
qed

lemma cache_content_uncached:
  assumes "\<And>i. i < length (entries s) \<Longrightarrow> occupied (entries s ! i) \<Longrightarrow> disk_sector (entries s ! i) \<noteq> k"
  shows "cache_content s k = block_data (fs_device s) k"
proof (cases "buffer_cache_lookup k s")
  case (Some i)
  then show ?thesis using lookup_Some [OF Some] assms [of i] by blast
qed (simp add: cache_content_def)

text \<open>Two states with the same contents in both senses.\<close>

lemma cache_contentI:
  assumes "cache_ok s"
    and "\<And>i. i < BUFFER_CACHE_SIZE \<Longrightarrow> occupied (entries s ! i) \<Longrightarrow> buffer (entries s ! i) = f (disk_sector (entries s ! i))"
    and "\<And>k. (\<forall>i < BUFFER_CACHE_SIZE. occupied (entries s ! i) \<longrightarrow> disk_sector (entries s ! i) \<noteq> k) \<Longrightarrow>
      block_data (fs_device s) k = f k"
  shows "cache_content s = f"
proof (rule ext)
  fix k
  show "cache_content s k = f k"
  proof (cases "\<exists>i < BUFFER_CACHE_SIZE. occupied (entries s ! i) \<and> disk_sector (entries s ! i) = k")
    case True
    then show ?thesis using cache_content_cached(1) [OF assms(1)] assms(2) by auto
  next
    case False
    then show ?thesis using cache_content_uncached [of s k] assms(3) [of k] cache_okD(1) [OF assms(1)] by auto
  qed
qed

lemma cache_content_entry:
  "cache_ok s \<Longrightarrow> i < BUFFER_CACHE_SIZE \<Longrightarrow> occupied (entries s ! i) \<Longrightarrow>
   cache_content s (disk_sector (entries s ! i)) = buffer (entries s ! i)"
  using cache_content_cached(1) by blast

lemma cache_content_device:
  "cache_ok s \<Longrightarrow> (\<forall>i < BUFFER_CACHE_SIZE. occupied (entries s ! i) \<longrightarrow> disk_sector (entries s ! i) \<noteq> k) \<Longrightarrow>
   cache_content s k = block_data (fs_device s) k"
  using cache_content_uncached [of s k] cache_okD(1) by metis

text \<open>Writing back an entry.\<close>

lemma flush_ok:
  assumes ok: "cache_ok s" and i: "i < BUFFER_CACHE_SIZE" "occupied (entries s ! i)"
  shows "\<exists>s'. buffer_cache_flush i s = Some s' \<and> cache_ok s' \<and> cache_content s' = cache_content s \<and>
    cache_valid s' = cache_valid s \<and> clock s' = clock s \<and>
    entries s' = (entries s)[i := (entries s ! i)\<lparr>dirty := False\<rparr>] \<and>
    block_data (fs_device s') = (block_data (fs_device s))(disk_sector (entries s ! i) := buffer (entries s ! i))"
proof -
  let ?e = "entries s ! i"
  note C = cache_okD [OF ok]
  have len: "i < length (entries s)" using C(1) i(1) by simp
  define s' where "s' = s\<lparr>fs_device := (fs_device s)\<lparr>block_data := (block_data (fs_device s))(disk_sector ?e := buffer ?e),
     write_cnt := (if dirty ?e then write_cnt (fs_device s) + 1 else write_cnt (fs_device s))\<rparr>,
     entries := (entries s)[i := ?e\<lparr>dirty := False\<rparr>]\<rparr>"
  have run: "buffer_cache_flush i s = Some s'"
  proof (cases "dirty ?e")
    case True
    then show ?thesis using i C(3) C(4) [OF i]
      by (simp add: buffer_cache_flush_def s'_def block_write_def check_sector_def block_ok_def Let_def)
  next
    case False
    then have "?e\<lparr>dirty := False\<rparr> = ?e" by simp
    then have "(entries s)[i := ?e\<lparr>dirty := False\<rparr>] = entries s" "(block_data (fs_device s))(disk_sector ?e := buffer ?e) = block_data (fs_device s)"
      using C(5) [OF i] False by (metis list_update_id, auto)
    then show ?thesis using False i by (simp add: buffer_cache_flush_def s'_def Let_def)
  qed
  have e': "entries s' ! j = (if j = i then ?e\<lparr>dirty := False\<rparr> else entries s ! j)" for j
    using len by (simp add: s'_def)
  have od: "occupied (entries s' ! j) = occupied (entries s ! j)" "disk_sector (entries s' ! j) = disk_sector (entries s ! j)" for j
    by (simp_all add: e')
  have uniq: "disk_sector (entries s ! j) \<noteq> disk_sector ?e" if "j < BUFFER_CACHE_SIZE" "occupied (entries s ! j)" "j \<noteq> i" for j
    using C(6) [OF i, of j] that by auto
  have ok': "cache_ok s'"
    unfolding cache_ok_def
  proof (intro conjI allI impI)
    fix j assume j: "j < BUFFER_CACHE_SIZE" "occupied (entries s' ! j)"
    then have oj: "occupied (entries s ! j)" using i(2) by (simp add: e' split: if_splits)
    show "disk_sector (entries s' ! j) < block_sectors (fs_device s')"
      using C(4) [OF j(1) oj] by (cases "j = i") (simp_all add: e', simp_all add: s'_def)
    show "buffer (entries s' ! j) = block_data (fs_device s') (disk_sector (entries s' ! j))" if "\<not> dirty (entries s' ! j)"
      using C(5) [OF j(1) oj] uniq [OF j(1) oj] that by (cases "j = i") (simp_all add: e', simp_all add: s'_def)
    show "l = j" if "l < BUFFER_CACHE_SIZE" "occupied (entries s' ! l) \<and> disk_sector (entries s' ! l) = disk_sector (entries s' ! j)" for l
      using C(6) [OF j(1) oj that(1)] that(2) unfolding od by blast
  qed (use C in \<open>auto simp: s'_def block_ok_def\<close>)
  have "cache_content s' = cache_content s"
  proof (rule cache_contentI [OF ok'])
    fix j assume "j < BUFFER_CACHE_SIZE" "occupied (entries s' ! j)"
    then show "buffer (entries s' ! j) = cache_content s (disk_sector (entries s' ! j))"
      using cache_content_entry [OF ok, of j] i(2) by (simp add: e' split: if_splits)
  next
    fix k assume k: "\<forall>j < BUFFER_CACHE_SIZE. occupied (entries s' ! j) \<longrightarrow> disk_sector (entries s' ! j) \<noteq> k"
    then have "\<forall>j < BUFFER_CACHE_SIZE. occupied (entries s ! j) \<longrightarrow> disk_sector (entries s ! j) \<noteq> k"
      by (auto simp: e' split: if_splits)
    then show "block_data (fs_device s') k = cache_content s k"
      using cache_content_device [OF ok, of k] i by (auto simp: s'_def)
  qed
  then show ?thesis using run ok' by (intro exI [of _ s']) (simp add: s'_def cache_valid_def fun_eq_iff)
qed

lemma flush_all_ok:
  "cache_ok s \<Longrightarrow> (\<forall>i \<in> set is. i < BUFFER_CACHE_SIZE) \<Longrightarrow>
   \<exists>s'. flush_all is s = Some s' \<and> cache_ok s' \<and> cache_content s' = cache_content s \<and> cache_valid s' = cache_valid s \<and>
     (\<forall>i < BUFFER_CACHE_SIZE. occupied (entries s' ! i) = occupied (entries s ! i) \<and>
        (dirty (entries s' ! i) \<and> occupied (entries s ! i) \<longrightarrow> dirty (entries s ! i) \<and> i \<notin> set is))"
proof (induction "is" arbitrary: s)
  case (Cons i "is")
  show ?case
  proof (cases "occupied (entries s ! i)")
    case False
    then show ?thesis using Cons.IH [OF Cons.prems(1)] Cons.prems(2) by fastforce
  next
    case True
    have i: "i < BUFFER_CACHE_SIZE" "i < length (entries s)" using Cons.prems cache_okD(1) [OF Cons.prems(1)] by auto
    obtain s1 where s1: "buffer_cache_flush i s = Some s1" "cache_ok s1" "cache_content s1 = cache_content s"
      "cache_valid s1 = cache_valid s" "entries s1 = (entries s)[i := (entries s ! i)\<lparr>dirty := False\<rparr>]"
      using flush_ok [OF Cons.prems(1) i(1) True] by blast
    have e: "occupied (entries s1 ! j) = occupied (entries s ! j)" "dirty (entries s1 ! j) \<longleftrightarrow> j \<noteq> i \<and> dirty (entries s ! j)" for j
      using i(2) by (auto simp: s1(5) nth_list_update)
    obtain s2 where s2: "flush_all is s1 = Some s2" "cache_ok s2" "cache_content s2 = cache_content s1" "cache_valid s2 = cache_valid s1"
      "\<forall>j < BUFFER_CACHE_SIZE. occupied (entries s2 ! j) = occupied (entries s1 ! j) \<and>
        (dirty (entries s2 ! j) \<and> occupied (entries s1 ! j) \<longrightarrow> dirty (entries s1 ! j) \<and> j \<notin> set is)"
      using Cons.IH [OF s1(2)] Cons.prems(2) by auto
    show ?thesis using s1 s2 True unfolding e by (intro exI [of _ s2]) simp
  qed
qed simp

text \<open>The clock stops at an entry, and changes nothing but reference bits.\<close>

definition strip :: "'c buffer_cache_entry \<Rightarrow> 'c buffer_cache_entry" where
  "strip e = e\<lparr>accessed := False\<rparr>"

lemma strip_fields: "strip e = strip e' \<Longrightarrow>
  occupied e = occupied e' \<and> disk_sector e = disk_sector e' \<and> buffer e = buffer e' \<and> dirty e = dirty e'"
  by (cases e, cases e') (simp add: strip_def)

lemma clock_loop_ok:
  "length es = BUFFER_CACHE_SIZE \<Longrightarrow> c < BUFFER_CACHE_SIZE \<Longrightarrow>
   \<exists>es' c'. clock_loop es c = Some (es', c') \<and> c' < BUFFER_CACHE_SIZE \<and> length es' = BUFFER_CACHE_SIZE \<and>
     map strip es' = map strip es \<and> (occupied (es' ! c') \<longrightarrow> \<not> accessed (es' ! c'))"
proof (induction es c rule: clock_loop.induct)
  case (1 es c)
  have c: "\<not> c \<ge> length es" using 1 by simp
  show ?case
  proof (cases "occupied (es ! c) \<and> accessed (es ! c)")
    case True
    let ?es = "es[c := (es ! c)\<lparr>accessed := False\<rparr>]"
    have "map strip ?es = map strip es"
      by (simp add: map_update strip_def) (metis list_update_id map_update strip_def)
    moreover have "(c + 1) mod BUFFER_CACHE_SIZE < BUFFER_CACHE_SIZE" by (simp add: BUFFER_CACHE_SIZE_def)
    ultimately show ?thesis using 1(1) [OF c] 1(2,3) True c by (subst clock_loop.simps) auto
  next
    case False
    then show ?thesis using c 1(2,3) by (subst clock_loop.simps) auto
  qed
qed

lemma map_strip_nth: "map strip es' = map strip es \<Longrightarrow> i < length es \<Longrightarrow>
  occupied (es' ! i) = occupied (es ! i) \<and> disk_sector (es' ! i) = disk_sector (es ! i) \<and>
  buffer (es' ! i) = buffer (es ! i) \<and> dirty (es' ! i) = dirty (es ! i)"
  by (rule strip_fields) (metis length_map nth_map)

text \<open>Changing reference bits, and moving the hand, changes no contents.\<close>

lemma strip_ok:
  assumes ok: "cache_ok s" and e: "map strip es = map strip (entries s)" and c: "c < BUFFER_CACHE_SIZE"
  shows "cache_ok (s\<lparr>entries := es, clock := c\<rparr>)" "cache_content (s\<lparr>entries := es, clock := c\<rparr>) = cache_content s"
proof -
  let ?s = "s\<lparr>entries := es, clock := c\<rparr>"
  note C = cache_okD [OF ok]
  have l: "length es = BUFFER_CACHE_SIZE" using C(1) e by (metis length_map)
  have f: "occupied (es ! i) = occupied (entries s ! i)" "disk_sector (es ! i) = disk_sector (entries s ! i)"
    "buffer (es ! i) = buffer (entries s ! i)" "dirty (es ! i) = dirty (entries s ! i)" if "i < BUFFER_CACHE_SIZE" for i
    using map_strip_nth [OF e, of i] that C(1) by auto
  show 1: "cache_ok ?s" using ok f l c unfolding cache_ok_def by simp
  show "cache_content ?s = cache_content s"
    by (rule cache_contentI [OF 1]) (use f cache_content_entry [OF ok] cache_content_device [OF ok] in auto)
qed

section \<open>Reading and writing\<close>

text \<open>Dropping a clean entry.\<close>

lemma drop_ok:
  assumes ok: "cache_ok s" and i: "i < BUFFER_CACHE_SIZE" "\<not> dirty (entries s ! i)"
  shows "cache_ok (s\<lparr>entries := (entries s)[i := (entries s ! i)\<lparr>occupied := False\<rparr>]\<rparr>)" (is "cache_ok ?s")
    "cache_content (s\<lparr>entries := (entries s)[i := (entries s ! i)\<lparr>occupied := False\<rparr>]\<rparr>) = cache_content s"
proof -
  note C = cache_okD [OF ok]
  have e: "entries ?s ! j = (if j = i then (entries s ! i)\<lparr>occupied := False\<rparr> else entries s ! j)" for j
    using C(1) i by simp
  have o: "occupied (entries ?s ! j) \<Longrightarrow> j \<noteq> i \<and> occupied (entries s ! j) \<and> entries ?s ! j = entries s ! j" for j
    unfolding e by (simp split: if_splits)
  show 1: "cache_ok ?s"
    unfolding cache_ok_def
  proof (intro conjI allI impI)
    fix j assume j: "j < BUFFER_CACHE_SIZE" "occupied (entries ?s ! j)"
    note oj = o [OF j(2)]
    show "disk_sector (entries ?s ! j) < block_sectors (fs_device ?s)" using C(4) [OF j(1)] oj by simp
    show "buffer (entries ?s ! j) = block_data (fs_device ?s) (disk_sector (entries ?s ! j))" if "\<not> dirty (entries ?s ! j)"
      using C(5) [OF j(1)] oj that by simp
    show "l = j" if "l < BUFFER_CACHE_SIZE" "occupied (entries ?s ! l) \<and> disk_sector (entries ?s ! l) = disk_sector (entries ?s ! j)" for l
      using C(6) [OF j(1) _ that(1)] oj o [of l] that(2) by auto
  qed (use C in auto)
  show "cache_content ?s = cache_content s"
  proof (rule cache_contentI [OF 1])
    fix j assume "j < BUFFER_CACHE_SIZE" "occupied (entries ?s ! j)"
    then show "buffer (entries ?s ! j) = cache_content s (disk_sector (entries ?s ! j))"
      using o cache_content_entry [OF ok, of j] by auto
  next
    fix k assume k: "\<forall>j < BUFFER_CACHE_SIZE. occupied (entries ?s ! j) \<longrightarrow> disk_sector (entries ?s ! j) \<noteq> k"
    show "block_data (fs_device ?s) k = cache_content s k"
    proof (cases "occupied (entries s ! i) \<and> disk_sector (entries s ! i) = k")
      case True
      then show ?thesis using cache_content_entry [OF ok i(1)] C(5) [OF i(1) _ i(2)] by auto
    next
      case False
      then have "\<forall>j < BUFFER_CACHE_SIZE. occupied (entries s ! j) \<longrightarrow> disk_sector (entries s ! j) \<noteq> k"
        using k e by (metis (no_types, lifting))
      then show ?thesis using cache_content_device [OF ok] by simp
    qed
  qed
qed

lemma evict_ok:
  assumes ok: "cache_ok s"
  shows "\<exists>i s'. buffer_cache_evict s = Some (i, s') \<and> cache_ok s' \<and> cache_content s' = cache_content s \<and>
    cache_valid s' = cache_valid s \<and> i < BUFFER_CACHE_SIZE \<and> \<not> occupied (entries s' ! i) \<and>
    (\<forall>j < BUFFER_CACHE_SIZE. occupied (entries s' ! j) \<longrightarrow> occupied (entries s ! j) \<and> disk_sector (entries s' ! j) = disk_sector (entries s ! j))"
proof -
  note C = cache_okD [OF ok]
  obtain es c where cl: "clock_loop (entries s) (clock s) = Some (es, c)" "c < BUFFER_CACHE_SIZE"
    "length es = BUFFER_CACHE_SIZE" "map strip es = map strip (entries s)" "occupied (es ! c) \<longrightarrow> \<not> accessed (es ! c)"
    using clock_loop_ok [OF C(1,2)] by blast
  let ?s = "s\<lparr>entries := es, clock := c\<rparr>"
  note S = strip_ok [OF ok cl(4,2)]
  have f: "occupied (es ! j) = occupied (entries s ! j)" "disk_sector (es ! j) = disk_sector (entries s ! j)"
    if "j < BUFFER_CACHE_SIZE" for j using map_strip_nth [OF cl(4), of j] that C(1) by auto
  show ?thesis
  proof (cases "occupied (es ! c)")
    case False
    then show ?thesis using cl S f
      by (intro exI [of _ c] exI [of _ ?s]) (simp add: buffer_cache_evict_def cache_valid_def fun_eq_iff)
  next
    case True
    obtain s1 where s1: "(if dirty (es ! c) then buffer_cache_flush c ?s else Some ?s) = Some s1" "cache_ok s1"
      "cache_content s1 = cache_content s" "cache_valid s1 = cache_valid ?s" "\<not> dirty (entries s1 ! c)"
      "\<forall>j < BUFFER_CACHE_SIZE. occupied (entries s1 ! j) = occupied (es ! j) \<and> disk_sector (entries s1 ! j) = disk_sector (es ! j)"
    proof (cases "dirty (es ! c)")
      case d: True
      have "c < BUFFER_CACHE_SIZE" "occupied (entries ?s ! c)" using cl(2) True by auto
      from flush_ok [OF S(1) this] show thesis
        using that d S(2) cl(2,3) by (auto simp: nth_list_update)
    next
      case False
      then show thesis using that [of ?s] S by simp
    qed
    let ?s' = "s1\<lparr>entries := (entries s1)[c := (entries s1 ! c)\<lparr>occupied := False\<rparr>]\<rparr>"
    note D = drop_ok [OF s1(2) cl(2) s1(5)]
    have "length (entries s1) = BUFFER_CACHE_SIZE" using cache_okD(1) [OF s1(2)] .
    then have "occupied (entries ?s' ! j) \<longrightarrow> occupied (entries s ! j) \<and> disk_sector (entries ?s' ! j) = disk_sector (entries s ! j)"
      if "j < BUFFER_CACHE_SIZE" for j using s1(6) f that by (cases "j = c") auto
    moreover have "buffer_cache_evict s = Some (c, ?s')" using cl(1) True s1(1) by (simp add: buffer_cache_evict_def Let_def)
    moreover have "cache_valid ?s' = cache_valid s" using s1(4) by (simp add: cache_valid_def fun_eq_iff)
    moreover have "\<not> occupied (entries ?s' ! c)" using cl(2) cache_okD(1) [OF s1(2)] by simp
    ultimately show ?thesis using D s1(3) cl(2) by (intro exI [of _ c] exI [of _ ?s']) simp
  qed
qed

lemma fetch_ok:
  assumes ok: "cache_ok s" and k: "cache_valid s k"
  shows "\<exists>i s'. buffer_cache_fetch k s = Some (i, s') \<and> cache_ok s' \<and> cache_content s' = cache_content s \<and>
    cache_valid s' = cache_valid s \<and> i < BUFFER_CACHE_SIZE \<and> occupied (entries s' ! i) \<and> disk_sector (entries s' ! i) = k"
proof (cases "buffer_cache_lookup k s")
  case (Some i)
  then show ?thesis using lookup_Some [OF Some] cache_okD(1) [OF ok] ok by (auto simp: buffer_cache_fetch_def)
next
  case None
  obtain i s1 where s1: "buffer_cache_evict s = Some (i, s1)" "cache_ok s1" "cache_content s1 = cache_content s"
    "cache_valid s1 = cache_valid s" "i < BUFFER_CACHE_SIZE" "\<not> occupied (entries s1 ! i)"
    "\<forall>j < BUFFER_CACHE_SIZE. occupied (entries s1 ! j) \<longrightarrow> occupied (entries s ! j) \<and> disk_sector (entries s1 ! j) = disk_sector (entries s ! j)"
    using evict_ok [OF ok] by blast
  note C = cache_okD [OF s1(2)]
  have nk: "disk_sector (entries s1 ! j) \<noteq> k" if "j < BUFFER_CACHE_SIZE" "occupied (entries s1 ! j)" for j
    using s1(7) lookup_None [OF None, of j] that cache_okD(1) [OF ok] by auto
  have kv: "k < block_sectors (fs_device s1)" using k s1(4) by (metis cache_valid_def)
  let ?e = "(entries s1 ! i)\<lparr>occupied := True, disk_sector := k, dirty := False, buffer := block_data (fs_device s1) k\<rparr>"
  define s' where "s' = s1\<lparr>fs_device := (fs_device s1)\<lparr>read_cnt := read_cnt (fs_device s1) + 1\<rparr>, entries := (entries s1)[i := ?e]\<rparr>"
  have run: "buffer_cache_fetch k s = Some (i, s')"
    using None s1(1,6) kv by (simp add: buffer_cache_fetch_def block_read_def check_sector_def s'_def)
  have e: "entries s' ! j = (if j = i then ?e else entries s1 ! j)" for j
    using C(1) s1(5) by (simp add: s'_def)
  have d: "block_data (fs_device s') = block_data (fs_device s1)" "block_sectors (fs_device s') = block_sectors (fs_device s1)"
    by (simp_all add: s'_def)
  have ok': "cache_ok s'"
    unfolding cache_ok_def
  proof (intro conjI allI impI)
    fix j assume j: "j < BUFFER_CACHE_SIZE" "occupied (entries s' ! j)"
    then have oj: "j \<noteq> i \<Longrightarrow> occupied (entries s1 ! j)" by (simp add: e)
    show "disk_sector (entries s' ! j) < block_sectors (fs_device s')"
      using C(4) [OF j(1)] oj kv by (cases "j = i") (simp_all add: e d)
    show "buffer (entries s' ! j) = block_data (fs_device s') (disk_sector (entries s' ! j))" if "\<not> dirty (entries s' ! j)"
      using C(5) [OF j(1)] oj that by (cases "j = i") (simp_all add: e d)
    show "l = j" if "l < BUFFER_CACHE_SIZE" "occupied (entries s' ! l) \<and> disk_sector (entries s' ! l) = disk_sector (entries s' ! j)" for l
      using C(6) [OF j(1) _ that(1)] nk [OF j(1)] nk [OF that(1)] oj that(2)
      by (cases "j = i"; cases "l = i") (simp_all add: e)
  qed (use C in \<open>simp_all add: s'_def block_ok_def\<close>)
  have "cache_content s' = cache_content s1"
  proof (rule cache_contentI [OF ok'])
    fix j assume j: "j < BUFFER_CACHE_SIZE" "occupied (entries s' ! j)"
    show "buffer (entries s' ! j) = cache_content s1 (disk_sector (entries s' ! j))"
    proof (cases "j = i")
      case True
      then show ?thesis using cache_content_device [OF s1(2), of k] nk by (simp add: e)
    next
      case False
      then show ?thesis using cache_content_entry [OF s1(2) j(1)] j(2) by (simp add: e)
    qed
  next
    fix l assume l: "\<forall>j < BUFFER_CACHE_SIZE. occupied (entries s' ! j) \<longrightarrow> disk_sector (entries s' ! j) \<noteq> l"
    have "\<forall>j < BUFFER_CACHE_SIZE. occupied (entries s1 ! j) \<longrightarrow> disk_sector (entries s1 ! j) \<noteq> l"
      using l s1(6) e by (metis (no_types, lifting))
    then show "block_data (fs_device s') l = cache_content s1 l"
      using cache_content_device [OF s1(2)] d(1) by simp
  qed
  moreover have "cache_valid s' = cache_valid s" using s1(4) by (simp add: cache_valid_def fun_eq_iff d)
  ultimately show ?thesis using run ok' s1(3,5) by (intro exI [of _ i] exI [of _ s']) (simp add: e)
qed

text \<open>Setting the reference bit of an entry, and its contents when it is marked dirty.\<close>

lemma touch_ok:
  assumes ok: "cache_ok s" and i: "i < BUFFER_CACHE_SIZE" "occupied (entries s ! i)" "disk_sector (entries s ! i) = k"
    and c: "c = buffer (entries s ! i) \<and> dt = dirty (entries s ! i) \<or> dt"
    and s': "s' = s\<lparr>entries := (entries s)[i := (entries s ! i)\<lparr>accessed := True, dirty := dt, buffer := c\<rparr>]\<rparr>"
  shows "cache_ok s'" "cache_content s' = (cache_content s)(k := c)" "cache_valid s' = cache_valid s"
proof -
  note C = cache_okD [OF ok]
  let ?e = "(entries s ! i)\<lparr>accessed := True, dirty := dt, buffer := c\<rparr>"
  have e: "entries s' ! j = (if j = i then ?e else entries s ! j)" for j using C(1) i by (simp add: s')
  have od: "occupied (entries s' ! j) = occupied (entries s ! j)" "disk_sector (entries s' ! j) = disk_sector (entries s ! j)" for j
    by (simp_all add: e)
  have d: "fs_device s' = fs_device s" by (simp add: s')
  show 1: "cache_ok s'"
    unfolding cache_ok_def od d
  proof (intro conjI allI impI)
    fix j assume j: "j < BUFFER_CACHE_SIZE" "occupied (entries s ! j)"
    show "disk_sector (entries s ! j) < block_sectors (fs_device s)" using C(4) [OF j] .
    show "buffer (entries s' ! j) = block_data (fs_device s) (disk_sector (entries s ! j))" if "\<not> dirty (entries s' ! j)"
      using C(5) [OF j] that c by (cases "j = i") (auto simp: e)
    show "l = j" if "l < BUFFER_CACHE_SIZE" "occupied (entries s ! l) \<and> disk_sector (entries s ! l) = disk_sector (entries s ! j)" for l
      using C(6) [OF j that(1)] that(2) by blast
  qed (use C in \<open>simp_all add: s'\<close>)
  show "cache_content s' = (cache_content s)(k := c)"
  proof (rule cache_contentI [OF 1])
    fix j assume j: "j < BUFFER_CACHE_SIZE" "occupied (entries s' ! j)"
    then have "j \<noteq> i \<Longrightarrow> disk_sector (entries s ! j) \<noteq> k" using C(6) [OF i(1,2) j(1)] i(3) j(2) unfolding od by metis
    then show "buffer (entries s' ! j) = ((cache_content s)(k := c)) (disk_sector (entries s' ! j))"
      using cache_content_entry [OF ok j(1)] j(2) i(3) by (cases "j = i") (simp_all add: e)
  next
    fix l assume l: "\<forall>j < BUFFER_CACHE_SIZE. occupied (entries s' ! j) \<longrightarrow> disk_sector (entries s' ! j) \<noteq> l"
    then have "l \<noteq> k" using i od by metis
    then show "block_data (fs_device s') l = ((cache_content s)(k := c)) l"
      using cache_content_device [OF ok] l unfolding od d by simp
  qed
  show "cache_valid s' = cache_valid s" by (simp add: cache_valid_def s' fun_eq_iff)
qed

lemma cache_read_law:
  assumes "cache_ok s" and "cache_valid s k"
  shows "\<exists>s'. buffer_cache_read k s = Some (cache_content s k, s') \<and> cache_ok s' \<and>
    cache_content s' = cache_content s \<and> cache_valid s' = cache_valid s"
proof -
  obtain i s1 where f: "buffer_cache_fetch k s = Some (i, s1)" "cache_ok s1" "cache_content s1 = cache_content s"
    "cache_valid s1 = cache_valid s" "i < BUFFER_CACHE_SIZE" "occupied (entries s1 ! i)" "disk_sector (entries s1 ! i) = k"
    using fetch_ok [OF assms] by blast
  let ?s = "s1\<lparr>entries := (entries s1)[i := (entries s1 ! i)\<lparr>accessed := True\<rparr>]\<rparr>"
  have e: "(entries s1 ! i)\<lparr>accessed := True\<rparr> = (entries s1 ! i)\<lparr>accessed := True, dirty := dirty (entries s1 ! i), buffer := buffer (entries s1 ! i)\<rparr>"
    by simp
  have t: "cache_ok ?s" "cache_content ?s = (cache_content s1)(k := buffer (entries s1 ! i))" "cache_valid ?s = cache_valid s1"
    using touch_ok [OF f(2,5-7), of "buffer (entries s1 ! i)" "dirty (entries s1 ! i)" ?s] e by simp_all
  have b: "buffer (entries s1 ! i) = cache_content s k" using cache_content_entry [OF f(2,5,6)] f(3,7) by simp
  have "buffer (entries ?s ! i) = buffer (entries s1 ! i)" using f(5) cache_okD(1) [OF f(2)] by simp
  then show ?thesis using f(1,3,4) t b by (simp add: buffer_cache_read_def Let_def)
qed

lemma cache_write_law:
  assumes "cache_ok s" and "cache_valid s k"
  shows "\<exists>s'. buffer_cache_write k c s = Some s' \<and> cache_ok s' \<and>
    cache_content s' = (cache_content s)(k := c) \<and> cache_valid s' = cache_valid s"
proof -
  obtain i s1 where f: "buffer_cache_fetch k s = Some (i, s1)" "cache_ok s1" "cache_content s1 = cache_content s"
    "cache_valid s1 = cache_valid s" "i < BUFFER_CACHE_SIZE" "occupied (entries s1 ! i)" "disk_sector (entries s1 ! i) = k"
    using fetch_ok [OF assms] by blast
  show ?thesis
    using touch_ok [OF f(2,5-7), of c True, OF _ refl] f(1,3,4) by (simp add: buffer_cache_write_def)
qed

interpretation bc: sector_store cache_ok cache_valid cache_content buffer_cache_read buffer_cache_write
  by unfold_locales (auto intro: cache_read_law cache_write_law)

section \<open>The cache against a plain store\<close>

datatype 'c sector_op = Read nat | Write nat 'c

fun run_cache :: "'c sector_op list \<Rightarrow> 'c buffer_cache \<Rightarrow> ('c list \<times> 'c buffer_cache) option" where
  "run_cache [] s = Some ([], s)"
| "run_cache (Read k # ops) s = do {
     (c, s) \<leftarrow> buffer_cache_read k s;
     (cs, s) \<leftarrow> run_cache ops s;
     Some (c # cs, s) }"
| "run_cache (Write k c # ops) s = do {
     s \<leftarrow> buffer_cache_write k c s;
     run_cache ops s }"

fun run_store :: "'c sector_op list \<Rightarrow> (nat \<Rightarrow> 'c) \<Rightarrow> 'c list \<times> (nat \<Rightarrow> 'c)" where
  "run_store [] m = ([], m)"
| "run_store (Read k # ops) m = (let (cs, m') = run_store ops m in (m k # cs, m'))"
| "run_store (Write k c # ops) m = run_store ops (m(k := c))"

fun op_sector :: "'c sector_op \<Rightarrow> nat" where
  "op_sector (Read k) = k"
| "op_sector (Write k c) = k"

lemma run_cache_refines:
  "cache_ok s \<Longrightarrow> \<forall>op \<in> set ops. cache_valid s (op_sector op) \<Longrightarrow>
   \<exists>s'. run_cache ops s = Some (fst (run_store ops (cache_content s)), s') \<and> cache_ok s' \<and>
     cache_content s' = snd (run_store ops (cache_content s)) \<and> cache_valid s' = cache_valid s"
proof (induction ops arbitrary: s)
  case (Cons op ops)
  show ?case
  proof (cases op)
    case (Read k)
    then obtain s1 where s1: "buffer_cache_read k s = Some (cache_content s k, s1)" "cache_ok s1"
      "cache_content s1 = cache_content s" "cache_valid s1 = cache_valid s"
      using bc.rd_law [of s k] Cons.prems by auto
    then show ?thesis using Cons.IH [OF s1(2)] Cons.prems(2) Read by (auto simp: case_prod_unfold Let_def)
  next
    case (Write k c)
    then obtain s1 where s1: "buffer_cache_write k c s = Some s1" "cache_ok s1"
      "cache_content s1 = (cache_content s)(k := c)" "cache_valid s1 = cache_valid s"
      using bc.wr_law [of s k c] Cons.prems by auto
    have "\<forall>op \<in> set ops. cache_valid s1 (op_sector op)" using Cons.prems(2) s1(4) by simp
    then show ?thesis using Cons.IH [OF s1(2)] s1(1) unfolding s1(3,4) Write by (simp del: fun_upd_apply)
  qed
qed simp

lemma close_ok:
  assumes "cache_ok s"
  shows "\<exists>s'. buffer_cache_close s = Some s' \<and> cache_ok s' \<and> block_data (fs_device s') = cache_content s"
proof -
  obtain s' where s': "buffer_cache_close s = Some s'" "cache_ok s'" "cache_content s' = cache_content s"
    "\<forall>i < BUFFER_CACHE_SIZE. occupied (entries s' ! i) = occupied (entries s ! i) \<and>
        (dirty (entries s' ! i) \<and> occupied (entries s ! i) \<longrightarrow> dirty (entries s ! i) \<and> i \<notin> set [0..<BUFFER_CACHE_SIZE])"
    using flush_all_ok [OF assms, of "[0..<BUFFER_CACHE_SIZE]"] unfolding buffer_cache_close_def by auto
  have "block_data (fs_device s') k = cache_content s' k" for k
  proof (cases "\<exists>i < BUFFER_CACHE_SIZE. occupied (entries s' ! i) \<and> disk_sector (entries s' ! i) = k")
    case True
    then obtain i where i: "i < BUFFER_CACHE_SIZE" "occupied (entries s' ! i)" "disk_sector (entries s' ! i) = k" by blast
    then have "\<not> dirty (entries s' ! i)" using s'(4) by auto
    then show ?thesis using cache_okD(5) [OF s'(2) i(1,2)] cache_content_entry [OF s'(2) i(1,2)] i(3) by simp
  next
    case False
    then show ?thesis using cache_content_device [OF s'(2), of k] by simp
  qed
  then show ?thesis using s' by auto
qed

text \<open>C29: Any sequence of reads and writes of sectors through the buffer cache returns what the
  same sequence returns on a plain array of sectors, whatever the cache evicts on the way;
  closing the cache then leaves exactly that array on the device.\<close>

theorem buffer_cache_transparent:
  assumes "cache_ok s" and "\<forall>op \<in> set ops. op_sector op < block_sectors (fs_device s)"
  shows "\<exists>s' s2. run_cache ops s = Some (fst (run_store ops (cache_content s)), s') \<and>
    buffer_cache_close s' = Some s2 \<and> block_data (fs_device s2) = snd (run_store ops (cache_content s))"
  using run_cache_refines [OF assms(1), of ops] close_ok assms(2) unfolding cache_valid_def by (metis (no_types))

text \<open>A fresh cache over a device of 100 sectors.\<close>

definition sample_cache :: "nat buffer_cache" where
  "sample_cache = buffer_cache_init \<lparr>entries = replicate 64 \<lparr>occupied = True, disk_sector = 0, buffer = 0, dirty = False, accessed = False\<rparr>,
     clock = 0, fs_device = \<lparr>block_kind = BLOCK_FILESYS, block_sectors = 100, block_data = (\<lambda>_. 0), read_cnt = 0, write_cnt = 0\<rparr>\<rparr>"

lemma sample_cache_ok: "cache_ok sample_cache"
  by (simp add: cache_ok_def sample_cache_def buffer_cache_init_def BUFFER_CACHE_SIZE_def block_ok_def)

lemma sample_cache_content: "cache_content sample_cache = (\<lambda>_. 0)"
  by (rule cache_contentI [OF sample_cache_ok]) (simp_all add: sample_cache_def buffer_cache_init_def BUFFER_CACHE_SIZE_def)

theorem buffer_cache_transparent_witness:
  "\<exists>s' s2. run_cache [Write 3 7, Read 3, Write 5 8, Read 9] sample_cache = Some ([7, 0], s') \<and>
    buffer_cache_close s' = Some s2 \<and> block_data (fs_device s2) = (\<lambda>_. 0)(3 := 7, 5 := 8)"
  using buffer_cache_transparent [OF sample_cache_ok, of "[Write 3 7, Read 3, Write 5 8, Read 9]"]
  unfolding sample_cache_content by (simp add: sample_cache_def buffer_cache_init_def)

end
