(* ===== verification/MergeSort.thy ===== *)
theory MergeSort
  imports Prelude
begin

text \<open>
  The parallel merge sorts of the first two assignments: \<^verbatim>\<open>Assignment1/psort.c\<close> and
  \<^verbatim>\<open>usort.c\<close>, where a forked child sorts the left half in shared memory, and
  \<^verbatim>\<open>Assignment2/sort.c\<close>, where four threads sort the quarters of one array.

  \<^verbatim>\<open>merge\<close> comes as an object file. It is the argument \<open>mrg\<close> of the definitions, and
  \<open>merge_ok\<close> states what \<^verbatim>\<open>merge.h\<close> documents. An array is the list of its elements; an
  index out of its bounds and a signed overflow have no value (\<open>None\<close>).
\<close>

section \<open>Ranges of an array\<close>

definition slice :: "'a list \<Rightarrow> nat \<Rightarrow> nat \<Rightarrow> 'a list" where
  "slice arr l r = take (Suc r - l) (drop l arr)"

definition sort_range :: "nat \<Rightarrow> nat \<Rightarrow> int list \<Rightarrow> int list" where
  "sort_range l r arr = take l arr @ sort (slice arr l r) @ drop (Suc r) arr"

type_synonym merge_fun = "int list \<Rightarrow> nat \<Rightarrow> nat \<Rightarrow> nat \<Rightarrow> int list"

text \<open>The contract of \<^verbatim>\<open>merge\<close>: two sorted neighbouring sub-arrays become one. The second one,
  \<^verbatim>\<open>ARR[MIDDLE+1..RIGHT]\<close>, may be empty.\<close>

definition merge_ok :: "merge_fun \<Rightarrow> bool" where
  "merge_ok mrg \<longleftrightarrow> (\<forall>arr l m r. l \<le> m \<and> m \<le> r \<and> r < length arr \<and> sorted (slice arr l m) \<and> sorted (slice arr (Suc m) r) \<longrightarrow>
     mrg arr l m r = sort_range l r arr)"

lemma length_slice [simp]: "length (slice arr l r) = min (Suc r - l) (length arr - l)"
  by (simp add: slice_def)

lemma length_sort_range [simp]: "l \<le> Suc r \<Longrightarrow> r < length arr \<Longrightarrow> length (sort_range l r arr) = length arr"
  by (simp add: sort_range_def)

lemma slice_split: "l \<le> Suc m \<Longrightarrow> m \<le> r \<Longrightarrow> slice arr l r = slice arr l m @ slice arr (Suc m) r"
proof -
  assume a: "l \<le> Suc m" "m \<le> r"
  have "Suc r - l = (Suc m - l) + (r - m)" using a by simp
  moreover have "take (r - m) (drop (Suc m - l) (drop l arr)) = take (r - m) (drop (Suc m) arr)" using a by simp
  ultimately show ?thesis by (simp add: slice_def take_add)
qed

lemma array_split: "l \<le> Suc r \<Longrightarrow> arr = take l arr @ slice arr l r @ drop (Suc r) arr"
proof -
  assume "l \<le> Suc r"
  then have "drop (Suc r) arr = drop (Suc r - l) (drop l arr)" by simp
  then show ?thesis unfolding slice_def by (metis append_take_drop_id)
qed

lemma slice_sort_range: "l \<le> Suc r \<Longrightarrow> r < length arr \<Longrightarrow> slice (sort_range l r arr) l r = sort (slice arr l r)"
  by (simp add: slice_def sort_range_def)

lemma slice_sort_range_before: "b < l \<Longrightarrow> l \<le> length arr \<Longrightarrow> slice (sort_range l r arr) a b = slice arr a b"
  by (simp add: slice_def sort_range_def drop_take)

lemma slice_sort_range_after:
  assumes "r < a" "r < length arr" "l \<le> Suc r"
  shows "slice (sort_range l r arr) a b = slice arr a b"
proof -
  have "drop a (sort_range l r arr) = drop a arr"
    using assms by (simp add: sort_range_def)
  then show ?thesis by (simp add: slice_def)
qed

lemma sort_mset: "mset xs = mset ys \<Longrightarrow> sort xs = sort (ys :: int list)"
  by (metis sorted_list_of_multiset_mset)

lemma drop_sort_range: "l \<le> Suc r \<Longrightarrow> r < length arr \<Longrightarrow> r \<le> n \<Longrightarrow> drop (Suc n) (sort_range l r arr) = drop (Suc n) arr"
  by (simp add: sort_range_def Suc_diff_le)

lemma take_sort_range: "n \<le> l \<Longrightarrow> l \<le> length arr \<Longrightarrow> take n (sort_range l r arr) = take n arr"
  by (simp add: sort_range_def)

text \<open>Sorting a range after sorting parts of it.\<close>

lemma sort_range_inner:
  assumes "l \<le> a" "a \<le> Suc b" "b \<le> r" "r < length arr"
  shows "sort_range l r (sort_range a b arr) = sort_range l r arr"
proof -
  let ?s = "sort_range a b arr"
  have "mset ?s = mset arr"
    using array_split [OF assms(2), of arr] by (simp add: sort_range_def) (metis mset_append)
  moreover have "arr = take l arr @ slice arr l r @ drop (Suc r) arr" "?s = take l ?s @ slice ?s l r @ drop (Suc r) ?s"
    using array_split [of l r] assms by auto
  moreover have t: "take l ?s = take l arr" "drop (Suc r) ?s = drop (Suc r) arr"
    using take_sort_range drop_sort_range assms by auto
  ultimately have "mset (slice ?s l r) = mset (slice arr l r)"
    by (metis (no_types, lifting) add_left_cancel add_right_cancel mset_append)
  then have "sort (slice ?s l r) = sort (slice arr l r)" by (rule sort_mset)
  then show ?thesis using t by (simp add: sort_range_def)
qed

lemma sort_range_single: "l < length arr \<Longrightarrow> sort_range l l arr = arr"
  using array_split [of l l arr] by (simp add: sort_range_def slice_def take_Suc_conv_app_nth take_Suc hd_drop_conv_nth Cons_nth_drop_Suc)

lemma merge_halves:
  assumes m: "merge_ok mrg" and i: "l \<le> m" "m < r" "r < length arr"
  shows "mrg (sort_range (Suc m) r (sort_range l m arr)) l m r = sort_range l r arr"
proof -
  let ?a = "sort_range (Suc m) r (sort_range l m arr)"
  have len: "length ?a = length arr" using i by simp
  have "slice ?a l m = sort (slice arr l m)"
    using slice_sort_range_before [of m "Suc m" "sort_range l m arr" r l] slice_sort_range [of l m arr] i by simp
  moreover have "slice ?a (Suc m) r = sort (slice (sort_range l m arr) (Suc m) r)"
    using slice_sort_range [of "Suc m" r "sort_range l m arr"] i by simp
  ultimately have "mrg ?a l m r = sort_range l r ?a" using m i len unfolding merge_ok_def by simp
  then show ?thesis using sort_range_inner [of l "Suc m" r r "sort_range l m arr"] sort_range_inner [of l l m r arr] i by simp
qed

section \<open>The sequential merge sort\<close>

text \<open>\<^verbatim>\<open>singleProcessMergeSort\<close> of both files of the first assignment, and
  \<^verbatim>\<open>singleThreadedMergeSort\<close> of the second one.\<close>

function singleProcessMergeSort :: "merge_fun \<Rightarrow> int list \<Rightarrow> int \<Rightarrow> int \<Rightarrow> int list option" where
  "singleProcessMergeSort mrg arr left right =
     (if left < right
      then do {
        kassert (0 \<le> left \<and> left + right < 2 ^ 31);
        let middle = (left + right) div 2;
        arr \<leftarrow> singleProcessMergeSort mrg arr left middle;
        arr \<leftarrow> singleProcessMergeSort mrg arr (middle + 1) right;
        kassert (right < int (length arr));
        Some (mrg arr (nat left) (nat middle) (nat right)) }
      else Some arr)"
  by pat_completeness auto
termination by (relation "measure (\<lambda>(mrg, arr, left, right). nat (right - left))") auto

declare singleProcessMergeSort.simps [simp del]

lemma singleProcessMergeSort_sorts:
  assumes m: "merge_ok mrg"
  shows "l \<le> r \<Longrightarrow> r < length arr \<Longrightarrow> r < 2 ^ 30 \<Longrightarrow>
    singleProcessMergeSort mrg arr (int l) (int r) = Some (sort_range l r arr)"
proof (induction "r - l" arbitrary: l r arr rule: less_induct)
  case less
  show ?case
  proof (cases "l < r")
    case False
    then have "l = r" using less.prems by simp
    then show ?thesis using sort_range_single less.prems by (subst singleProcessMergeSort.simps) simp
  next
    case True
    define mid where "mid = (l + r) div 2"
    have mid: "l \<le> mid" "mid < r" "(int l + int r) div 2 = int mid" "int mid + 1 = int (Suc mid)"
      using True by (auto simp: mid_def zdiv_int)
    have 1: "singleProcessMergeSort mrg arr (int l) (int mid) = Some (sort_range l mid arr)"
      using less.hyps [of mid l arr] less.prems mid by simp
    have 2: "singleProcessMergeSort mrg (sort_range l mid arr) (int mid + 1) (int r) =
        Some (sort_range (Suc mid) r (sort_range l mid arr))"
      using less.hyps [of r "Suc mid" "sort_range l mid arr"] less.prems mid unfolding mid(4) by simp
    have "length (sort_range (Suc mid) r (sort_range l mid arr)) = length arr" using mid less.prems by simp
    then show ?thesis
      using True less.prems 1 2 merge_halves [OF m mid(1,2) less.prems(2)] mid(1-3)
      by (subst singleProcessMergeSort.simps) (simp add: Let_def del: of_nat_Suc)
  qed
qed

section \<open>Two processes\<close>

text \<open>The shared memory: the kernel rounds the request up to whole pages, and refuses an empty
  one.\<close>

definition shared_ints :: "int \<Rightarrow> int" where
  "shared_ints bytes = (bytes + 4095) div 4096 * 4096 div 4"

text \<open>The body of \<^verbatim>\<open>multiProcessMergeSort\<close>. The child sorts the copy of the left half in the
  shared memory and exits; the parent, on its own array, sorts the right half, waits, copies the
  left half back and merges. The two processes share only the memory that the parent does not
  touch before it has waited.\<close>

definition two_process_sort :: "merge_fun \<Rightarrow> int list \<Rightarrow> int \<Rightarrow> int \<Rightarrow> int list option" where
  "two_process_sort mrg arr left right = do {
     let bytes = 4 * (1 + (right - left)) div 2;
     kassert (0 < bytes);
     kassert (0 \<le> left \<and> left + right < 2 ^ 31);
     let rel_left = 0;
     let rel_mid = (left + right) div 2 - left + 1;
     let rel_right = 1 + (right - left);
     kassert (rel_mid \<le> shared_ints bytes \<and> left + rel_mid \<le> int (length arr));
     let shmem = take (nat rel_mid) (drop (nat left) arr);
     shmem \<leftarrow> singleProcessMergeSort mrg shmem rel_left (rel_mid - 1);
     arr \<leftarrow> singleProcessMergeSort mrg arr (left + rel_mid) (left + rel_right - 1);
     let arr = take (nat left) arr @ take (nat rel_mid) shmem @ drop (nat (left + rel_mid)) arr;
     let mid = (left + right) div 2;
     kassert (right < int (length arr));
     Some (mrg arr (nat left) (nat mid) (nat right)) }"

definition psort_multiProcessMergeSort :: "merge_fun \<Rightarrow> int list \<Rightarrow> int \<Rightarrow> int \<Rightarrow> int list option" where
  "psort_multiProcessMergeSort mrg arr left right = two_process_sort mrg arr left right"

definition usort_multiProcessMergeSort :: "merge_fun \<Rightarrow> int list \<Rightarrow> int \<Rightarrow> int \<Rightarrow> int list option" where
  "usort_multiProcessMergeSort mrg arr left right =
     (if right - left \<le> 0 then Some arr else two_process_sort mrg arr left right)"

lemma two_process_sorts:
  assumes m: "merge_ok mrg" and i: "l < r" "r < length arr" "r < 2 ^ 29"
  shows "two_process_sort mrg arr (int l) (int r) = Some (sort_range l r arr)"
proof -
  define mid where "mid = (l + r) div 2"
  have mid: "l \<le> mid" "mid < r" "(int l + int r) div 2 = int mid" using i by (auto simp: mid_def zdiv_int)
  have n: "(int l + int r) div 2 - int l + 1 = int (Suc mid - l)" using mid by simp
  have cap: "int (Suc mid - l) \<le> shared_ints (4 * (1 + (int r - int l)) div 2)"
  proof -
    define n where "n = 1 + (int r - int l)"
    define q where "q = (2 * n + 4095) div 4096"
    have "2 * int (Suc mid - l) \<le> n + 1" using mid i by (simp add: mid_def n_def of_nat_diff zdiv_int)
    moreover have "2 * n \<le> 4096 * q" unfolding q_def by linarith
    ultimately have "int (Suc mid - l) \<le> 1024 * q" by linarith
    moreover have "4 * n div 2 = 2 * n" "q * 4096 div 4 = 1024 * q" by simp_all
    ultimately show ?thesis unfolding shared_ints_def n_def [symmetric] by (simp add: q_def)
  qed
  let ?sh = "slice arr l mid"
  have sh: "take (nat (int (Suc mid - l))) (drop (nat (int l)) arr) = ?sh" by (simp add: slice_def)
  have lsh: "length ?sh = Suc mid - l" using mid i by simp
  have "singleProcessMergeSort mrg ?sh (int 0) (int (mid - l)) = Some (sort_range 0 (mid - l) ?sh)"
    using singleProcessMergeSort_sorts [OF m, of 0 "mid - l" ?sh] lsh mid i by simp
  moreover have "sort_range 0 (mid - l) ?sh = sort ?sh"
    using lsh mid by (simp add: sort_range_def slice_def [of ?sh] Suc_diff_le)
  ultimately have child: "singleProcessMergeSort mrg ?sh 0 (int (Suc mid - l) - 1) = Some (sort ?sh)"
    using mid by (simp add: Suc_diff_le)
  have e: "int l + int (Suc mid - l) = int (Suc mid)" using mid by simp
  have right: "int l + (1 + (int r - int l)) - 1 = int r" by simp
  have parent: "singleProcessMergeSort mrg arr (int (Suc mid)) (int r) = Some (sort_range (Suc mid) r arr)"
    using singleProcessMergeSort_sorts [OF m, of "Suc mid" r arr] mid i by simp
  let ?b = "sort_range (Suc mid) r arr"
  have bk: "take l ?b @ sort ?sh @ drop (Suc mid) ?b = sort_range l mid ?b"
  proof -
    have "slice ?b l mid = ?sh" using slice_sort_range_before [of mid "Suc mid" arr r l] mid i by simp
    then show ?thesis by (simp add: sort_range_def)
  qed
  let ?a = "sort_range l mid ?b"
  have "slice ?a l mid = sort (slice ?b l mid)" using slice_sort_range [of l mid ?b] mid i by simp
  moreover have "slice ?a (Suc mid) r = sort (slice arr (Suc mid) r)"
    using slice_sort_range_after [of mid "Suc mid" ?b l r] slice_sort_range [of "Suc mid" r arr] mid i by simp
  ultimately have "mrg ?a l mid r = sort_range l r ?a" using m mid i unfolding merge_ok_def by simp
  then have merged: "mrg ?a l mid r = sort_range l r arr"
    using sort_range_inner [of l l mid r ?b] sort_range_inner [of l "Suc mid" r r arr] mid i by simp
  have len: "length ?b = length arr" "length ?a = length arr" using mid i by simp_all
  have "take (Suc mid - l) (sort ?sh) = sort ?sh" using lsh by simp
  then show ?thesis
    using child parent bk merged cap mid(1,2) i len
    unfolding two_process_sort_def Let_def n right e sh by (simp add: mid(3) del: of_nat_Suc)
qed

text \<open>Given a correct \<^verbatim>\<open>merge\<close>, the two-process sorts of both files return, with exactly
  the requested range of the array sorted, for every range with at least two elements; the
  memory that is shared is large enough, although half the size of the range in bytes is less
  than the left half when the number of elements is odd. For an empty range the version in
  \<^verbatim>\<open>usort.c\<close> returns at once, and the one in \<^verbatim>\<open>psort.c\<close> fails.\<close>

theorem two_process_sorts_range:
  assumes "merge_ok mrg" and "l < r" and "r < length arr" and "r < 2 ^ 29"
  shows "\<exists>arr'. psort_multiProcessMergeSort mrg arr (int l) (int r) = Some arr' \<and>
    usort_multiProcessMergeSort mrg arr (int l) (int r) = Some arr' \<and>
    length arr' = length arr \<and> take l arr' = take l arr \<and> drop (Suc r) arr' = drop (Suc r) arr \<and>
    sorted (slice arr' l r) \<and> mset (slice arr' l r) = mset (slice arr l r) \<and>
    usort_multiProcessMergeSort mrg [] 0 (-1) = Some [] \<and> psort_multiProcessMergeSort mrg [] 0 (-1) = None"
  using two_process_sorts [OF assms] assms(2,3)
  by (auto simp: psort_multiProcessMergeSort_def usort_multiProcessMergeSort_def slice_sort_range
      take_sort_range drop_sort_range two_process_sort_def)

text \<open>A merge function: the loop that takes the smaller of the two heads.\<close>

fun merge_lists :: "int list \<Rightarrow> int list \<Rightarrow> int list" where
  "merge_lists [] ys = ys"
| "merge_lists xs [] = xs"
| "merge_lists (x # xs) (y # ys) = (if x \<le> y then x # merge_lists xs (y # ys) else y # merge_lists (x # xs) ys)"

definition sample_merge :: merge_fun where
  "sample_merge arr l m r = take l arr @ merge_lists (slice arr l m) (slice arr (Suc m) r) @ drop (Suc r) arr"

lemma merge_lists_sort: "sorted xs \<Longrightarrow> sorted ys \<Longrightarrow> merge_lists xs ys = sort (xs @ ys)"
proof -
  assume "sorted xs" "sorted ys"
  have m: "mset (merge_lists xs ys) = mset (xs @ ys)"
    by (induction xs ys rule: merge_lists.induct) auto
  have "set (merge_lists xs ys) = set xs \<union> set ys" using arg_cong [OF m, of set_mset] by simp
  moreover have "sorted (merge_lists xs ys)" using \<open>sorted xs\<close> \<open>sorted ys\<close>
  proof (induction xs ys rule: merge_lists.induct)
    case (3 x xs y ys)
    have s: "set (merge_lists as bs) = set as \<union> set bs" for as bs
      by (induction as bs rule: merge_lists.induct) auto
    show ?case using 3 by (cases "x \<le> y") (auto simp: s)
  qed auto
  ultimately show ?thesis using m by (metis properties_for_sort)
qed

lemma sample_merge_ok: "merge_ok sample_merge"
  unfolding merge_ok_def
proof (intro allI impI)
  fix arr :: "int list" and l m r
  assume a: "l \<le> m \<and> m \<le> r \<and> r < length arr \<and> sorted (slice arr l m) \<and> sorted (slice arr (Suc m) r)"
  then have "slice arr l r = slice arr l m @ slice arr (Suc m) r" by (intro slice_split) auto
  then show "sample_merge arr l m r = sort_range l r arr"
    using a by (simp add: sample_merge_def sort_range_def merge_lists_sort)
qed

theorem two_process_sorts_range_witness:
  "\<exists>arr'. psort_multiProcessMergeSort sample_merge [9, 5, 3, 4, 1, 0] 1 4 = Some arr' \<and> sorted (slice arr' 1 4) \<and>
    mset (slice arr' 1 4) = {#1, 3, 4, 5#} \<and> take 1 arr' = [9]"
  using two_process_sorts_range [OF sample_merge_ok, of 1 4 "[9, 5, 3, 4, 1, 0]"]
  by (auto simp: slice_def)

section \<open>Four threads\<close>

text \<open>The calls of \<^verbatim>\<open>merge\<close> that \<^verbatim>\<open>singleThreadedMergeSort\<close> makes, in order. A thread is the
  queue of the calls it has still to make; a schedule names the thread that makes the next call.
  Indices are natural numbers below \<open>2 ^ 30\<close> here, so that the sums do not overflow.\<close>

type_synonym merge_call = "nat \<times> nat \<times> nat"

definition singleThreadedMergeSort :: "merge_fun \<Rightarrow> int list \<Rightarrow> int \<Rightarrow> int \<Rightarrow> int list option" where
  "singleThreadedMergeSort mrg arr left right = singleProcessMergeSort mrg arr left right"

function merge_calls :: "nat \<Rightarrow> nat \<Rightarrow> merge_call list" where
  "merge_calls l r =
     (if l < r
      then (let m = (l + r) div 2 in merge_calls l m @ merge_calls (m + 1) r @ [(l, m, r)])
      else [])"
  by pat_completeness auto
termination by (relation "measure (\<lambda>(l, r). r - l)") auto

declare merge_calls.simps [simp del]

fun run_schedule :: "merge_fun \<Rightarrow> nat list \<Rightarrow> merge_call list list \<Rightarrow> int list \<Rightarrow> merge_call list list \<times> int list" where
  "run_schedule mrg [] qs arr = (qs, arr)"
| "run_schedule mrg (i # sched) qs arr =
     (case (if i < length qs then qs ! i else []) of
        [] \<Rightarrow> run_schedule mrg sched qs arr
      | (l, m, r) # calls \<Rightarrow> run_schedule mrg sched (qs[i := calls]) (mrg arr l m r))"

definition run_threads :: "merge_fun \<Rightarrow> nat list \<Rightarrow> merge_call list list \<Rightarrow> int list \<Rightarrow> int list option" where
  "run_threads mrg sched qs arr =
     (case run_schedule mrg sched qs arr of
        (qs', arr') \<Rightarrow> if \<forall>q \<in> set qs'. q = [] then Some arr' else None)"

text \<open>The calls of the three threads and of the main thread, and those of the second phase.\<close>

definition sort_queues :: "nat \<Rightarrow> nat \<Rightarrow> nat \<Rightarrow> merge_call list list" where
  "sort_queues left right base_num =
     map (\<lambda>i. merge_calls (left + i * base_num + i) (left + (i + 1) * base_num + i)) [0, 1, 2]
     @ [merge_calls (left + 3 * base_num + 3) right]"

definition merge_queues :: "nat \<Rightarrow> nat \<Rightarrow> nat \<Rightarrow> merge_call list list" where
  "merge_queues left right base_num =
     [[(left, (left + (left + 2 * base_num + 1)) div 2, left + 2 * base_num + 1)],
      [(left + base_num * 2 + 2, left + base_num * 3 + 2, right)]]"

text \<open>\<^verbatim>\<open>multiThreadedMergeSort\<close> under a schedule for the four sorting threads and one for the
  two merging ones; with a schedule that does not let every thread finish, the joins do not
  return.\<close>

definition multiThreadedMergeSort ::
  "merge_fun \<Rightarrow> nat list \<Rightarrow> nat list \<Rightarrow> int list \<Rightarrow> nat \<Rightarrow> nat \<Rightarrow> int list option" where
  "multiThreadedMergeSort mrg sched1 sched2 arr left right =
     (if right - left \<le> 4 then singleThreadedMergeSort mrg arr (int left) (int right)
      else do {
        let base_num = (right - left) div 4;
        arr \<leftarrow> run_threads mrg sched1 (sort_queues left right base_num) arr;
        arr \<leftarrow> run_threads mrg sched2 (merge_queues left right base_num) arr;
        Some (mrg arr left (left + 2 * base_num + 1) right) })"

text \<open>A thread can make its calls on its range, which is sorted in the end.\<close>

fun safe :: "merge_call list \<Rightarrow> int list \<Rightarrow> nat \<Rightarrow> nat \<Rightarrow> bool" where
  "safe [] arr l r \<longleftrightarrow> sorted (slice arr l r)"
| "safe ((a, m, b) # calls) arr l r \<longleftrightarrow> l \<le> a \<and> a \<le> m \<and> m \<le> b \<and> b \<le> r \<and>
     sorted (slice arr a m) \<and> sorted (slice arr (Suc m) b) \<and> safe calls (sort_range a b arr) l r"

lemma sub_slice: "l \<le> a \<Longrightarrow> a \<le> b \<Longrightarrow> b \<le> r \<Longrightarrow> slice arr a b = slice (slice arr l r) (a - l) (b - l)"
  by (simp add: slice_def drop_take Suc_diff_le min_def)

lemma slice_of_sort_range:
  assumes "l \<le> a" "a \<le> b" "b \<le> r" "r < length arr"
  shows "slice (sort_range a b arr) l r = sort_range (a - l) (b - l) (slice arr l r)"
proof -
  let ?s = "slice arr a b"
  have s: "length ?s = Suc b - a" using assms by simp
  have "drop l (sort_range a b arr) = take (a - l) (drop l arr) @ sort ?s @ drop (Suc b) arr"
    using assms by (simp add: sort_range_def drop_take)
  moreover have "take (Suc r - l) (take (a - l) (drop l arr) @ sort ?s @ drop (Suc b) arr) =
      take (a - l) (drop l arr) @ sort ?s @ take (r - b) (drop (Suc b) arr)"
    using assms s by simp
  ultimately have 1: "slice (sort_range a b arr) l r = take (a - l) (drop l arr) @ sort ?s @ take (r - b) (drop (Suc b) arr)"
    by (simp add: slice_def [of "sort_range a b arr"])
  have "take (a - l) (slice arr l r) = take (a - l) (drop l arr)" using assms by (simp add: slice_def min_def)
  moreover have "drop (Suc (b - l)) (slice arr l r) = take (r - b) (drop (Suc b) arr)"
    using assms by (simp add: slice_def drop_take Suc_diff_le)
  ultimately show ?thesis using 1 sub_slice [OF assms(1-3), of arr] by (simp add: sort_range_def)
qed

lemma safe_local:
  "slice arr l r = slice arr' l r \<Longrightarrow> r < length arr \<Longrightarrow> length arr' = length arr \<Longrightarrow> safe calls arr l r = safe calls arr' l r"
proof (induction calls arr l r arbitrary: arr' rule: safe.induct)
  case (2 a m b calls arr l r)
  show ?case
  proof (cases "l \<le> a \<and> a \<le> m \<and> m \<le> b \<and> b \<le> r")
    case True
    then have "slice arr a m = slice arr' a m" using sub_slice [of l a m r arr] sub_slice [of l a m r arr'] 2(2) by simp
    moreover have "slice arr (Suc m) b = slice arr' (Suc m) b"
      using sub_slice [of l "Suc m" b r arr] sub_slice [of l "Suc m" b r arr'] 2(2) True
      by (cases "m = b") (simp_all add: slice_def [of _ "Suc b"])
    moreover have "safe calls (sort_range a b arr) l r = safe calls (sort_range a b arr') l r"
      using 2(1) [of "sort_range a b arr'"] slice_of_sort_range [of l a b r] True 2(2-4) by simp
    ultimately show ?thesis by simp
  qed auto
qed simp

lemma merge_calls_safe:
  "l \<le> r \<Longrightarrow> r < length arr \<Longrightarrow> L \<le> l \<Longrightarrow> r \<le> R \<Longrightarrow> safe calls (sort_range l r arr) L R \<Longrightarrow>
   safe (merge_calls l r @ calls) arr L R"
proof (induction "r - l" arbitrary: l r arr calls rule: less_induct)
  case less
  show ?case
  proof (cases "l < r")
    case False
    then have "l = r" using less.prems(1) by simp
    then show ?thesis using less.prems(2,5) sort_range_single by (simp add: merge_calls.simps)
  next
    case True
    define m where "m = (l + r) div 2"
    have m: "l \<le> m" "m < r" using True by (auto simp: m_def)
    let ?a = "sort_range (Suc m) r (sort_range l m arr)"
    have len: "length ?a = length arr" using m less.prems(2) by simp
    have s: "sorted (slice ?a l m)" "sorted (slice ?a (Suc m) r)"
      using slice_sort_range_before [of m "Suc m" "sort_range l m arr" r l] slice_sort_range [of l m arr]
        slice_sort_range [of "Suc m" r "sort_range l m arr"] m less.prems(2) by simp_all
    have "sort_range l r ?a = sort_range l r arr"
      using sort_range_inner [of l "Suc m" r r "sort_range l m arr"] sort_range_inner [of l l m r arr] m less.prems(2) by simp
    then have "safe ((l, m, r) # calls) ?a L R" using s m less.prems by simp
    then have "safe (merge_calls (Suc m) r @ (l, m, r) # calls) (sort_range l m arr) L R"
      using less.hyps [of r "Suc m" "sort_range l m arr" "(l, m, r) # calls"] m less.prems by simp
    then have "safe (merge_calls l m @ merge_calls (Suc m) r @ (l, m, r) # calls) arr L R"
      using less.hyps [of m l arr] m less.prems by simp
    then show ?thesis using True by (subst merge_calls.simps) (simp add: m_def Let_def)
  qed
qed

lemma mset_sort_range: "l \<le> Suc r \<Longrightarrow> mset (sort_range l r arr) = mset arr"
  using array_split [of l r arr] by (simp add: sort_range_def) (metis mset_append)

text \<open>Threads on disjoint ranges do not disturb each other.\<close>

definition ranges_ok :: "(nat \<times> nat) list \<Rightarrow> nat \<Rightarrow> nat \<Rightarrow> bool" where
  "ranges_ok rs L R \<longleftrightarrow> (\<forall>p \<in> set rs. L \<le> fst p \<and> snd p \<le> R) \<and> sorted_wrt (\<lambda>p q. snd p < fst q) rs"

definition threads_ok :: "merge_call list list \<Rightarrow> (nat \<times> nat) list \<Rightarrow> int list \<Rightarrow> bool" where
  "threads_ok qs rs arr \<longleftrightarrow> list_all2 (\<lambda>q p. safe q arr (fst p) (snd p)) qs rs"

lemma threads_ok_nth: "threads_ok qs rs arr \<longleftrightarrow>
    length qs = length rs \<and> (\<forall>i < length rs. safe (qs ! i) arr (fst (rs ! i)) (snd (rs ! i)))"
  by (auto simp: threads_ok_def list_all2_conv_all_nth)

lemma ranges_ok_nth: "ranges_ok rs L R \<Longrightarrow> i < length rs \<Longrightarrow> L \<le> fst (rs ! i) \<and> snd (rs ! i) \<le> R"
  by (simp add: ranges_ok_def)

lemma ranges_disjoint:
  "ranges_ok rs L R \<Longrightarrow> i < length rs \<Longrightarrow> j < length rs \<Longrightarrow> i \<noteq> j \<Longrightarrow> snd (rs ! i) < fst (rs ! j) \<or> snd (rs ! j) < fst (rs ! i)"
  unfolding ranges_ok_def by (metis linorder_neqE_nat sorted_wrt_iff_nth_less)

lemma thread_step:
  assumes m: "merge_ok mrg" and r: "ranges_ok rs L R" "R < length arr" and t: "threads_ok qs rs arr"
    and i: "i < length rs" "qs ! i = (a, mid, b) # calls"
  shows "mrg arr a mid b = sort_range a b arr" "threads_ok (qs[i := calls]) rs (sort_range a b arr)" "L \<le> a" "a \<le> b" "b \<le> R"
proof -
  let ?l = "fst (rs ! i)" and ?r = "snd (rs ! i)"
  have s: "safe ((a, mid, b) # calls) arr ?l ?r" using t i unfolding threads_ok_nth by metis
  have b: "L \<le> ?l" "?r \<le> R" using ranges_ok_nth [OF r(1) i(1)] by auto
  show "L \<le> a" "a \<le> b" "b \<le> R" using s b by auto
  show "mrg arr a mid b = sort_range a b arr" using s b r(2) m unfolding merge_ok_def by auto
  have "safe (qs[i := calls] ! j) (sort_range a b arr) (fst (rs ! j)) (snd (rs ! j))" if j: "j < length rs" for j
  proof (cases "j = i")
    case True
    then show ?thesis using s t i(1) by (simp add: threads_ok_nth)
  next
    case False
    have o: "safe (qs ! j) arr (fst (rs ! j)) (snd (rs ! j))" using t j by (simp add: threads_ok_nth)
    have "snd (rs ! j) \<le> R" using ranges_ok_nth [OF r(1) j] by simp
    moreover have "slice (sort_range a b arr) (fst (rs ! j)) (snd (rs ! j)) = slice arr (fst (rs ! j)) (snd (rs ! j))"
    proof -
      have "?r < fst (rs ! j) \<or> snd (rs ! j) < ?l" using ranges_disjoint [OF r(1) i(1) j] False by simp
      then show ?thesis
      proof
      assume "?r < fst (rs ! j)"
      then show ?thesis using slice_sort_range_after [of b "fst (rs ! j)" arr a] s b r(2) by simp
    next
      assume "snd (rs ! j) < ?l"
      then show ?thesis using slice_sort_range_before [of "snd (rs ! j)" a arr b] s b r(2) by simp
      qed
    qed
    moreover have "length (sort_range a b arr) = length arr" using s b r(2) by simp
    ultimately show ?thesis using safe_local [of arr _ _ "sort_range a b arr" "qs ! j"] o False r(2) by simp
  qed
  then show "threads_ok (qs[i := calls]) rs (sort_range a b arr)" using t by (simp add: threads_ok_nth)
qed

lemma run_schedule_ok:
  assumes m: "merge_ok mrg" and r: "ranges_ok rs L R"
  shows "threads_ok qs rs arr \<Longrightarrow> R < length arr \<Longrightarrow> run_schedule mrg sched qs arr = (qs', arr') \<Longrightarrow>
    threads_ok qs' rs arr' \<and> length arr' = length arr \<and> mset arr' = mset arr \<and>
    take L arr' = take L arr \<and> drop (Suc R) arr' = drop (Suc R) arr"
proof (induction sched arbitrary: qs arr)
  case (Cons i sched)
  show ?case
  proof (cases "if i < length qs then qs ! i else []")
    case Nil
    then show ?thesis using Cons by simp
  next
    case (Cons call calls)
    then obtain a mid b where c: "i < length rs" "qs ! i = (a, mid, b) # calls" "call = (a, mid, b)"
      using Cons.prems(1) by (cases call) (auto simp: threads_ok_nth split: if_splits)
    note s = thread_step [OF m r Cons.prems(2,1) c(1,2)]
    have run: "run_schedule mrg sched (qs[i := calls]) (sort_range a b arr) = (qs', arr')"
      using Cons.prems(3) Cons c s(1) by simp
    have len: "length (sort_range a b arr) = length arr" using s(4,5) Cons.prems(2) by simp
    show ?thesis
      using Cons.IH [OF s(2) _ run] len Cons.prems(2) s(3-5)
      by (simp add: mset_sort_range take_sort_range drop_sort_range)
  qed
qed simp

lemma run_threads_ok:
  assumes m: "merge_ok mrg" and r: "ranges_ok rs L R" and t: "threads_ok qs rs arr" "R < length arr"
    and run: "run_threads mrg sched qs arr = Some arr'"
  shows "\<forall>p \<in> set rs. sorted (slice arr' (fst p) (snd p))" "length arr' = length arr" "mset arr' = mset arr"
    "take L arr' = take L arr" "drop (Suc R) arr' = drop (Suc R) arr"
proof -
  obtain qs' where q: "run_schedule mrg sched qs arr = (qs', arr')" "\<forall>q \<in> set qs'. q = []"
    using run by (auto simp: run_threads_def split: prod.splits if_splits)
  note s = run_schedule_ok [OF m r t(1,2) q(1)]
  then have l: "length qs' = length rs" by (simp add: threads_ok_nth)
  have "safe (qs' ! i) arr' (fst (rs ! i)) (snd (rs ! i)) \<and> qs' ! i = []" if "i < length rs" for i
    using s q(2) that l by (simp add: threads_ok_nth)
  then show "\<forall>p \<in> set rs. sorted (slice arr' (fst p) (snd p))" by (metis in_set_conv_nth safe.simps(1))
  show "length arr' = length arr" "mset arr' = mset arr" "take L arr' = take L arr" "drop (Suc R) arr' = drop (Suc R) arr"
    using s by auto
qed

text \<open>A schedule that runs the threads one after the other finishes them.\<close>

lemma run_schedule_append:
  "run_schedule mrg (s1 @ s2) qs arr = (case run_schedule mrg s1 qs arr of (qs', arr') \<Rightarrow> run_schedule mrg s2 qs' arr')"
  by (induction mrg s1 qs arr rule: run_schedule.induct) (auto split: list.splits)

section \<open>The sort with four threads\<close>

definition quarters :: "nat \<Rightarrow> nat \<Rightarrow> (nat \<times> nat) list" where
  "quarters l r = (let b = (r - l) div 4 in
     [(l, l + b), (l + b + 1, l + 2 * b + 1), (l + 2 * b + 2, l + 3 * b + 2), (l + 3 * b + 3, r)])"

lemma quarters_ok: "r - l > 4 \<Longrightarrow> ranges_ok (quarters l r) l r"
proof -
  assume a: "r - l > 4"
  define b where "b = (r - l) div 4"
  have b: "l + 3 * b + 2 \<le> r" using a unfolding b_def by linarith
  then show ?thesis by (simp add: ranges_ok_def quarters_def Let_def flip: b_def)
qed

lemma split_sorted: "l \<le> m \<Longrightarrow> m \<le> r \<Longrightarrow> r < length arr \<Longrightarrow> sorted (slice arr l m) \<Longrightarrow> sorted (slice arr (Suc m) r) \<Longrightarrow>
    safe [(l, m, r)] arr l r"
  by (simp add: slice_sort_range)

lemma sort_range_determined:
  assumes "take l xs = take l ys" "drop (Suc r) xs = drop (Suc r) ys" "mset xs = mset ys" "l \<le> Suc r"
  shows "sort_range l r xs = sort_range l r ys"
proof -
  have "xs = take l xs @ slice xs l r @ drop (Suc r) xs" "ys = take l ys @ slice ys l r @ drop (Suc r) ys"
    using array_split assms(4) by auto
  then have "mset (slice xs l r) = mset (slice ys l r)"
    using assms(1-3) by (metis (no_types, lifting) add_left_cancel add_right_cancel mset_append)
  then have "sort (slice xs l r) = sort (slice ys l r)" by (rule sort_mset)
  then show ?thesis using assms(1,2) by (simp add: sort_range_def)
qed

lemma multiThreaded_sorts:
  assumes m: "merge_ok mrg" and i: "l \<le> r" "r < length arr" "r < 2 ^ 30"
    and run: "multiThreadedMergeSort mrg sched1 sched2 arr l r = Some arr'"
  shows "arr' = sort_range l r arr"
proof (cases "r - l \<le> 4")
  case True
  then show ?thesis using singleProcessMergeSort_sorts [OF m i] run
    by (simp add: multiThreadedMergeSort_def singleThreadedMergeSort_def)
next
  case False
  define b where "b = (r - l) div 4"
  have b: "l + 3 * b + 2 \<le> r" "l + 2 * b + 1 < r" using False unfolding b_def by linarith+
  let ?qs = "[merge_calls l (l + b), merge_calls (l + b + 1) (l + 2 * b + 1), merge_calls (l + 2 * b + 2) (l + 3 * b + 2),
      merge_calls (l + 3 * b + 3) r]"
  let ?qs2 = "[[(l, l + b, l + 2 * b + 1)], [(l + 2 * b + 2, l + 3 * b + 2, r)]]"
  have "l + 0 * b + 0 = l" "l + (0 + 1) * b + 0 = l + b" "l + 1 * b + 1 = l + b + 1" "l + (1 + 1) * b + 1 = l + 2 * b + 1"
    "l + (2 + 1) * b + 2 = l + 3 * b + 2" "l + b * 2 + 2 = l + 2 * b + 2" "l + b * 3 + 2 = l + 3 * b + 2"
    "(l + (l + 2 * b + 1)) div 2 = l + b" by simp_all
  then have qs: "sort_queues l r b = ?qs" "merge_queues l r b = ?qs2"
    by (simp_all only: sort_queues_def merge_queues_def list.map append.simps)
  obtain a1 a2 where a: "run_threads mrg sched1 ?qs arr = Some a1" "run_threads mrg sched2 ?qs2 a1 = Some a2"
    "arr' = mrg a2 l (l + 2 * b + 1) r"
    using run False unfolding multiThreadedMergeSort_def qs [symmetric] by (auto simp: Let_def b_def split: bind_splits)
  have c: "safe (merge_calls x y) arr x y" if "x \<le> y" "y < length arr" for x y
    using merge_calls_safe [of x y arr x y "[]"] that slice_sort_range [of x y arr] by simp
  have "safe (merge_calls (l + 3 * b + 3) r) arr (l + 3 * b + 3) r"
  proof (cases "l + 3 * b + 3 \<le> r")
    case False
    then show ?thesis by (simp add: merge_calls.simps slice_def)
  qed (use c i in blast)
  then have t: "threads_ok ?qs (quarters l r) arr"
    using c b i by (simp add: threads_ok_def quarters_def Let_def flip: b_def)
  have rq: "ranges_ok (quarters l r) l r" using quarters_ok False by simp
  note s = run_threads_ok [OF m rq t i(2) a(1)]
  have q: "sorted (slice a1 l (l + b))" "sorted (slice a1 (l + b + 1) (l + 2 * b + 1))"
    "sorted (slice a1 (l + 2 * b + 2) (l + 3 * b + 2))" "sorted (slice a1 (l + 3 * b + 3) r)"
    using s(1) by (simp_all add: quarters_def Let_def flip: b_def)
  let ?rs = "[(l, l + 2 * b + 1), (l + 2 * b + 2, r)]"
  have rs: "ranges_ok ?rs l r" using b by (simp add: ranges_ok_def)
  have e: "Suc (l + b) = l + b + 1" "Suc (l + 3 * b + 2) = l + 3 * b + 3" by simp_all
  have "safe [(l, l + b, l + 2 * b + 1)] a1 l (l + 2 * b + 1)"
    by (rule split_sorted) (use q(1,2) b i(2) s(2) in \<open>unfold e, linarith+\<close>)
  moreover have "safe [(l + 2 * b + 2, l + 3 * b + 2, r)] a1 (l + 2 * b + 2) r"
    by (rule split_sorted) (use q(3,4) b i(2) s(2) in \<open>unfold e, linarith+\<close>)
  ultimately have "threads_ok ?qs2 ?rs a1" by (simp only: threads_ok_def list_all2_Cons list.rel_inject fst_conv snd_conv)
  note s2 = run_threads_ok [OF m rs this _ a(2)]
  have r2: "r < length a2" "sorted (slice a2 l (l + 2 * b + 1))" "sorted (slice a2 (Suc (l + 2 * b + 1)) r)"
    using s2(1,2) s(2) i(2) by simp_all
  have "arr' = sort_range l r a2" using m a(3) r2 b unfolding merge_ok_def by simp
  moreover have "sort_range l r a2 = sort_range l r arr"
    using sort_range_determined [of l a2 arr r] s(2-5) s2(2-5) i by simp
  ultimately show ?thesis by simp
qed

text \<open>A schedule lets every thread finish when it names each one often enough.\<close>

lemma queues_after:
  "fst (run_schedule mrg sched qs arr) = map (\<lambda>i. drop (count_list sched i) (qs ! i)) [0..<length qs]"
proof (induction sched arbitrary: qs arr)
  case Nil
  then show ?case by (simp add: map_nth)
next
  case (Cons j sched)
  show ?case
  proof (cases "if j < length qs then qs ! j else []")
    case Nil
    have "drop (count_list (j # sched) i) (qs ! i) = drop (count_list sched i) (qs ! i)" if "i < length qs" for i
      using Nil that by (auto split: if_splits)
    then show ?thesis using Nil Cons.IH [of qs arr] by (simp cong: map_cong)
  next
    case (Cons call calls)
    obtain a m b where "call = (a, m, b)" by (cases call)
    moreover have "drop (count_list sched i) (qs[j := calls] ! i) = drop (count_list (j # sched) i) (qs ! i)" if "i < length qs" for i
      using Cons that by (cases "i = j") (auto split: if_splits)
    ultimately show ?thesis using Cons Cons.IH [of "qs[j := calls]" "mrg arr a m b"] by (simp cong: map_cong)
  qed
qed

lemma run_threads_fair:
  assumes "\<forall>i < length qs. length (qs ! i) \<le> count_list sched i"
  shows "\<exists>arr'. run_threads mrg sched qs arr = Some arr'"
proof -
  have "\<forall>q \<in> set (fst (run_schedule mrg sched qs arr)). q = []" using assms by (auto simp: queues_after)
  then show ?thesis by (auto simp: run_threads_def split: prod.splits)
qed

lemma count_rounds: "count_list (concat (replicate n [0..<k])) i = (if i < k then n else 0)"
proof (induction n)
  case (Suc n)
  have "count_list [0..<k] i = (if i < k then 1 else 0)" by (induction k) auto
  then show ?case using Suc by (simp add: count_list_append)
qed simp

text \<open>C32: With four threads, whatever the order in which they make their calls of \<^verbatim>\<open>merge\<close>, the
  result is the array with exactly the requested range sorted, and the same one for every
  order; round-robin orders, among others, let all threads finish.\<close>

theorem multiThreaded_sorts_every_schedule:
  assumes "merge_ok mrg" and "l \<le> r" and "r < length arr" and "r < 2 ^ 30"
  shows "(\<forall>s1 s2 arr'. multiThreadedMergeSort mrg s1 s2 arr l r = Some arr' \<longrightarrow>
      arr' = take l arr @ sort (slice arr l r) @ drop (Suc r) arr) \<and>
    (\<exists>n. \<forall>m \<ge> n. multiThreadedMergeSort mrg (concat (replicate m [0..<4])) (concat (replicate m [0..<2])) arr l r \<noteq> None)"
proof
  show "\<forall>s1 s2 arr'. multiThreadedMergeSort mrg s1 s2 arr l r = Some arr' \<longrightarrow>
      arr' = take l arr @ sort (slice arr l r) @ drop (Suc r) arr"
    using multiThreaded_sorts [OF assms] by (simp add: sort_range_def)
  let ?qs = "sort_queues l r ((r - l) div 4)" and ?qs2 = "merge_queues l r ((r - l) div 4)"
  let ?n = "Suc (Max (length ` set ?qs))"
  have n: "length q < ?n" if "q \<in> set ?qs" for q using that by (simp add: le_imp_less_Suc)
  have "multiThreadedMergeSort mrg (concat (replicate m [0..<4])) (concat (replicate m [0..<2])) arr l r \<noteq> None" if "m \<ge> ?n" for m
  proof (cases "r - l \<le> 4")
    case True
    then show ?thesis using singleProcessMergeSort_sorts [OF assms] by (simp add: multiThreadedMergeSort_def singleThreadedMergeSort_def)
  next
    case False
    have len: "length ?qs = 4" "length ?qs2 = 2" by (simp_all add: sort_queues_def merge_queues_def)
    have "\<forall>i < length ?qs. length (?qs ! i) \<le> count_list (concat (replicate m [0..<4])) i"
      using n that len by (fastforce simp: count_rounds dest: nth_mem)
    then obtain a1 where a1: "run_threads mrg (concat (replicate m [0..<4])) ?qs arr = Some a1" using run_threads_fair by blast
    have "\<forall>i < length ?qs2. length (?qs2 ! i) \<le> count_list (concat (replicate m [0..<2])) i"
      using that by (auto simp: count_rounds merge_queues_def nth_Cons')
    then obtain a2 where "run_threads mrg (concat (replicate m [0..<2])) ?qs2 a1 = Some a2" using run_threads_fair by blast
    then show ?thesis using a1 False by (simp add: multiThreadedMergeSort_def Let_def)
  qed
  then show "\<exists>n. \<forall>m \<ge> n. multiThreadedMergeSort mrg (concat (replicate m [0..<4])) (concat (replicate m [0..<2])) arr l r \<noteq> None"
    by blast
qed

theorem multiThreaded_sorts_every_schedule_witness:
  "\<exists>s1 s2. multiThreadedMergeSort sample_merge s1 s2 [8, 7, 6, 5, 4, 3, 2, 1] 0 7 = Some [1, 2, 3, 4, 5, 6, 7, 8]"
proof -
  have t: "(\<forall>s1 s2 arr'. multiThreadedMergeSort sample_merge s1 s2 [8, 7, 6, 5, 4, 3, 2, 1] 0 7 = Some arr' \<longrightarrow>
      arr' = [1, 2, 3, 4, 5, 6, 7, 8]) \<and>
    (\<exists>n. \<forall>m \<ge> n. multiThreadedMergeSort sample_merge (concat (replicate m [0..<4])) (concat (replicate m [0..<2])) [8, 7, 6, 5, 4, 3, 2, 1] 0 7 \<noteq> None)"
    using multiThreaded_sorts_every_schedule [OF sample_merge_ok, of 0 7 "[8, 7, 6, 5, 4, 3, 2, 1]"] by (simp add: slice_def)
  then show ?thesis by blast
qed

end
