(* ===== verification/Monitors.thy ===== *)
theory Monitors
  imports Prelude
begin

text \<open>
  The two monitors of the third assignment, \<^verbatim>\<open>Assignment3/cartman.c\<close> and \<^verbatim>\<open>manpage.c\<close>: threads
  that wait in a loop on one condition variable under one mutex.

  What runs under the mutex is one step. A waiting thread sleeps until a broadcast, and may wake
  without one. The calls into the supplied simulators are recorded in a log; \<open>replay\<close> checks a
  log of \<^verbatim>\<open>cartman.c\<close> against the rules that \<^verbatim>\<open>cartman.h\<close> states for \<^verbatim>\<open>reserve\<close>, \<^verbatim>\<open>cross\<close> and
  \<^verbatim>\<open>release\<close>.
\<close>

section \<open>Carts\<close>

type_synonym cart_id = nat

datatype call = Reserve cart_id nat | Cross cart_id nat nat | Release cart_id nat

record cart_move =
  track_num :: nat
  junc_num :: nat

datatype cart_pc = Away | Arrived | Asleep | Reserved | Crossed | Released | Gone

record carts =
  locks :: "nat \<Rightarrow> int"
  c_moves :: "cart_id \<Rightarrow> cart_move"
  cart_pc :: "cart_id \<Rightarrow> cart_pc"
  calls :: "call list"

text \<open>The subtraction of one from an enumeration value, which is unsigned.\<close>

definition dec :: "nat \<Rightarrow> nat" where
  "dec x = (x + (2 ^ 32 - 1)) mod 2 ^ 32"

text \<open>The two junctions that \<^verbatim>\<open>cart_start\<close> reserves, if any, when there are \<open>n\<close> tracks.\<close>

definition cart_junctions :: "nat \<Rightarrow> cart_move \<Rightarrow> (nat \<times> nat) option" where
  "cart_junctions n c_move =
     (let track = track_num c_move; junction = junc_num c_move in
      if track = junction
      then if junction + 1 = n then Some (junction, 0) else Some (junction, junction + 1)
      else if dec junction = track \<or> (junction = 0 \<and> track = n - 1)
      then if dec junction = 2 ^ 32 - 1 then Some (junction, n - 1) else Some (junction, dec junction)
      else None)"

definition cartman :: "carts \<Rightarrow> carts" where
  "cartman s = s\<lparr>locks := (\<lambda>_. 0), cart_pc := (\<lambda>_. Away), calls := []\<rparr>"

definition arrive :: "cart_id \<Rightarrow> nat \<Rightarrow> nat \<Rightarrow> carts \<Rightarrow> carts" where
  "arrive cart track junction s =
     s\<lparr>c_moves := (c_moves s)(cart := \<lparr>track_num = track, junc_num = junction\<rparr>),
       cart_pc := (cart_pc s)(cart := Arrived)\<rparr>"

text \<open>One round of the loop in \<^verbatim>\<open>reserve2\<close>: the cart sleeps or has both junctions.\<close>

definition reserve2 :: "cart_id \<Rightarrow> nat \<Rightarrow> nat \<Rightarrow> carts \<Rightarrow> carts" where
  "reserve2 cart junc1 junc2 s =
     (if locks s junc1 \<noteq> 0 \<or> locks s junc2 \<noteq> 0
      then s\<lparr>cart_pc := (cart_pc s)(cart := Asleep)\<rparr>
      else s\<lparr>locks := (locks s)(junc1 := 1, junc2 := 1), calls := calls s @ [Reserve cart junc1, Reserve cart junc2],
             cart_pc := (cart_pc s)(cart := Reserved)\<rparr>)"

text \<open>\<^verbatim>\<open>release2\<close> up to the unlocking of the mutex, and the broadcast that follows.\<close>

definition release2 :: "cart_id \<Rightarrow> nat \<Rightarrow> nat \<Rightarrow> carts \<Rightarrow> carts" where
  "release2 cart junc1 junc2 s =
     s\<lparr>locks := (locks s)(junc1 := 0, junc2 := 0), calls := calls s @ [Release cart junc1, Release cart junc2],
       cart_pc := (cart_pc s)(cart := Released)\<rparr>"

definition release2_broadcast :: "cart_id \<Rightarrow> carts \<Rightarrow> carts" where
  "release2_broadcast cart s =
     s\<lparr>cart_pc := (\<lambda>c. if cart_pc s c = Asleep then Arrived else if c = cart then Gone else cart_pc s c)\<rparr>"

text \<open>The threads of all carts, in any order. The simulator lets a cart arrive at either end of
  its track, and does not let it arrive again while it is under way.\<close>

inductive cart_step :: "nat \<Rightarrow> carts \<Rightarrow> carts \<Rightarrow> bool" for n :: nat where
  arrives: "cart_pc s c \<in> {Away, Gone} \<Longrightarrow> t < n \<Longrightarrow> j = t \<or> j = (t + 1) mod n \<Longrightarrow> cart_step n s (arrive c t j s)"
| reserves: "cart_pc s c = Arrived \<Longrightarrow> cart_junctions n (c_moves s c) = Some (j1, j2) \<Longrightarrow> cart_step n s (reserve2 c j1 j2 s)"
| ignores: "cart_pc s c = Arrived \<Longrightarrow> cart_junctions n (c_moves s c) = None \<Longrightarrow>
    cart_step n s (s\<lparr>cart_pc := (cart_pc s)(c := Gone)\<rparr>)"
| crosses: "cart_pc s c = Reserved \<Longrightarrow>
    cart_step n s (s\<lparr>calls := calls s @ [Cross c (track_num (c_moves s c)) (junc_num (c_moves s c))], cart_pc := (cart_pc s)(c := Crossed)\<rparr>)"
| releases: "cart_pc s c = Crossed \<Longrightarrow> cart_junctions n (c_moves s c) = Some (j1, j2) \<Longrightarrow> cart_step n s (release2 c j1 j2 s)"
| broadcasts: "cart_pc s c = Released \<Longrightarrow> cart_step n s (release2_broadcast c s)"
| spurious: "cart_pc s c = Asleep \<Longrightarrow> cart_step n s (s\<lparr>cart_pc := (cart_pc s)(c := Arrived)\<rparr>)"

inductive_cases cart_stepE: "cart_step n s s'"

text \<open>The rules of the simulator, on the map from junctions to the carts that hold them.\<close>

fun legal_call :: "nat \<Rightarrow> call \<Rightarrow> (nat \<Rightarrow> cart_id option) \<Rightarrow> (nat \<Rightarrow> cart_id option) option" where
  "legal_call n (Reserve c j) h = (if h j = None then Some (h(j := Some c)) else None)"
| "legal_call n (Cross c t j) h =
     (if h j = Some c \<and> h (if j = t then (t + 1) mod n else t) = Some c then Some h else None)"
| "legal_call n (Release c j) h = (if h j = Some c then Some (h(j := None)) else None)"

fun replay :: "nat \<Rightarrow> call list \<Rightarrow> (nat \<Rightarrow> cart_id option) \<Rightarrow> (nat \<Rightarrow> cart_id option) option" where
  "replay n [] h = Some h"
| "replay n (x # xs) h = do { h \<leftarrow> legal_call n x h; replay n xs h }"

lemma replay_append: "replay n (xs @ ys) h = do { h \<leftarrow> replay n xs h; replay n ys h }"
  by (induction n xs h rule: replay.induct) (auto split: bind_splits)

text \<open>The ends of a track.\<close>

definition ends :: "nat \<Rightarrow> cart_move \<Rightarrow> nat set" where
  "ends n c_move = {track_num c_move, (track_num c_move + 1) mod n}"

definition legal_move :: "nat \<Rightarrow> cart_move \<Rightarrow> bool" where
  "legal_move n c_move \<longleftrightarrow> track_num c_move < n \<and> junc_num c_move \<in> ends n c_move"

lemma dec_simps: "x < 2 ^ 32 \<Longrightarrow> dec x = (if x = 0 then 2 ^ 32 - 1 else x - 1)"
proof (cases x)
  case (Suc y)
  moreover assume "x < 2 ^ 32"
  ultimately have "x + (2 ^ 32 - 1) = y + 2 ^ 32" "y < 2 ^ 32" by simp_all
  then show ?thesis using Suc by (simp add: dec_def)
qed (simp add: dec_def)

lemma cart_junctions_ends:
  assumes "2 \<le> n" "n < 2 ^ 31" "legal_move n m"
  shows "\<exists>j1 j2. cart_junctions n m = Some (j1, j2) \<and> {j1, j2} = ends n m \<and> j1 \<noteq> j2 \<and> j1 = junc_num m"
proof -
  have t: "track_num m < n" "junc_num m = track_num m \<or> junc_num m = (track_num m + 1) mod n"
    using assms(3) by (auto simp: legal_move_def ends_def)
  show ?thesis
  proof (cases "junc_num m = track_num m")
    case True
    show ?thesis
    proof (cases "track_num m + 1 = n")
      case True
      then show ?thesis using \<open>junc_num m = track_num m\<close> assms(1) by (auto simp: cart_junctions_def ends_def Let_def)
    next
      case False
      then have "track_num m + 1 < n" using t(1) by simp
      then show ?thesis using \<open>junc_num m = track_num m\<close> by (auto simp: cart_junctions_def ends_def Let_def)
    qed
  next
    case False
    then have j: "junc_num m = (track_num m + 1) mod n" using t(2) by simp
    show ?thesis
    proof (cases "track_num m + 1 = n")
      case True
      then have "junc_num m = 0" "track_num m = n - 1" using j by auto
      then show ?thesis using False True assms(1) dec_simps [of 0] by (auto simp: cart_junctions_def ends_def Let_def)
    next
      case f: False
      then have s: "track_num m + 1 < n" "junc_num m = track_num m + 1" using t(1) j by simp_all
      have "dec (junc_num m) = track_num m" using s assms(2) dec_simps [of "junc_num m"] by simp
      moreover have "track_num m \<noteq> 2 ^ 32 - 1" using t(1) assms(2) by simp
      ultimately show ?thesis using False s by (auto simp: cart_junctions_def ends_def Let_def)
    qed
  qed
qed

definition cart_ok :: "nat \<Rightarrow> carts \<Rightarrow> (nat \<Rightarrow> cart_id option) \<Rightarrow> bool" where
  "cart_ok n s h \<longleftrightarrow> (\<forall>c. cart_pc s c \<notin> {Away, Gone} \<longrightarrow> legal_move n (c_moves s c)) \<and>
     replay n (calls s) (\<lambda>_. None) = Some h \<and>
     (\<forall>j c. h j = Some c \<longleftrightarrow> cart_pc s c \<in> {Reserved, Crossed} \<and> j \<in> ends n (c_moves s c)) \<and>
     (\<forall>j. locks s j = (if h j = None then 0 else 1)) \<and>
     (\<forall>c. cart_pc s c = Asleep \<longrightarrow> (\<exists>j \<in> ends n (c_moves s c). h j \<noteq> None) \<or> (\<exists>d. cart_pc s d = Released))"

lemma cart_okD:
  assumes "cart_ok n s h"
  shows "cart_pc s c \<notin> {Away, Gone} \<Longrightarrow> legal_move n (c_moves s c)" "replay n (calls s) (\<lambda>_. None) = Some h"
    "h j = Some c \<longleftrightarrow> cart_pc s c \<in> {Reserved, Crossed} \<and> j \<in> ends n (c_moves s c)"
    "locks s j = (if h j = None then 0 else 1)"
    "cart_pc s c = Asleep \<Longrightarrow> (\<exists>j \<in> ends n (c_moves s c). h j \<noteq> None) \<or> (\<exists>d. cart_pc s d = Released)"
  using assms unfolding cart_ok_def by blast+

lemma cart_okI:
  assumes "\<And>c. cart_pc s c \<notin> {Away, Gone} \<Longrightarrow> legal_move n (c_moves s c)" "replay n (calls s) (\<lambda>_. None) = Some h"
    "\<And>j c. h j = Some c \<longleftrightarrow> cart_pc s c \<in> {Reserved, Crossed} \<and> j \<in> ends n (c_moves s c)"
    "\<And>j. locks s j = (if h j = None then 0 else 1)"
    "\<And>c. cart_pc s c = Asleep \<Longrightarrow> (\<exists>j \<in> ends n (c_moves s c). h j \<noteq> None) \<or> (\<exists>d. cart_pc s d = Released)"
  shows "cart_ok n s h"
  using assms unfolding cart_ok_def by blast

lemma asleep_mono:
  assumes "cart_ok n s h" and "cart_pc s d = Asleep" and "\<And>x. cart_pc s x = Released \<Longrightarrow> cart_pc s' x = Released"
    and "\<And>j. h j \<noteq> None \<Longrightarrow> h' j \<noteq> None" and "c_moves s' d = c_moves s d"
  shows "(\<exists>j \<in> ends n (c_moves s' d). h' j \<noteq> None) \<or> (\<exists>x. cart_pc s' x = Released)"
  using cart_okD(5) [OF assms(1,2)] assms(3-5) by metis

text \<open>A step of one cart that neither takes nor frees junctions, and does not use up a broadcast.\<close>

lemma cart_ok_pc:
  assumes ok: "cart_ok n s h" and p: "cart_pc s c \<notin> {Reserved, Crossed, Released}" "p \<notin> {Reserved, Crossed, Released}"
    and m: "p \<notin> {Away, Gone} \<Longrightarrow> legal_move n m" "cart_pc s c \<noteq> Asleep \<or> m = c_moves s c"
    and a: "p = Asleep \<Longrightarrow> \<exists>j \<in> ends n m. h j \<noteq> None"
    and s': "s' = s\<lparr>c_moves := (c_moves s)(c := m), cart_pc := (cart_pc s)(c := p)\<rparr>"
  shows "cart_ok n s' h"
proof (rule cart_okI)
  note D = cart_okD [OF ok]
  show "legal_move n (c_moves s' d)" if "cart_pc s' d \<notin> {Away, Gone}" for d
    using that D(1) [of d] m(1) by (auto simp: s')
  show "replay n (calls s') (\<lambda>_. None) = Some h" using D(2) by (simp add: s')
  show "h j = Some d \<longleftrightarrow> cart_pc s' d \<in> {Reserved, Crossed} \<and> j \<in> ends n (c_moves s' d)" for j d
    using D(3) [of j d] p by (auto simp: s')
  show "locks s' j = (if h j = None then 0 else 1)" for j using D(4) [of j] by (simp add: s')
  show "(\<exists>j \<in> ends n (c_moves s' d). h j \<noteq> None) \<or> (\<exists>d. cart_pc s' d = Released)" if "cart_pc s' d = Asleep" for d
  proof (cases "d = c")
    case True
    then show ?thesis using a that by (simp add: s')
  next
    case False
    then have "(\<exists>j \<in> ends n (c_moves s d). h j \<noteq> None) \<or> (\<exists>e. cart_pc s e = Released)" using D(5) [of d] that by (simp add: s')
    moreover have "cart_pc s' e = Released" if "cart_pc s e = Released" for e using that p by (auto simp: s')
    moreover have "c_moves s' d = c_moves s d" using False by (simp add: s')
    moreover have "cart_pc s d = Asleep" using False that by (simp add: s')
    ultimately show ?thesis using asleep_mono [OF ok, of d s' h] by blast
  qed
qed

lemma reserve2_ok:
  assumes ok: "cart_ok n s h" and p: "cart_pc s c = Arrived" and e: "ends n (c_moves s c) = {j1, j2}" "j1 \<noteq> j2"
    and f: "h j1 = None" "h j2 = None"
  shows "cart_ok n (reserve2 c j1 j2 s) (h(j1 := Some c, j2 := Some c))" (is "cart_ok n ?s ?h")
proof (rule cart_okI)
  note D = cart_okD [OF ok]
  have s: "?s = s\<lparr>locks := (locks s)(j1 := 1, j2 := 1), calls := calls s @ [Reserve c j1, Reserve c j2],
      cart_pc := (cart_pc s)(c := Reserved)\<rparr>" using D(4) f by (simp add: reserve2_def)
  show "legal_move n (c_moves ?s d)" if "cart_pc ?s d \<notin> {Away, Gone}" for d
    using that D(1) [of d] D(1) [of c] p unfolding s by (auto split: if_splits)
  show "replay n (calls ?s) (\<lambda>_. None) = Some ?h" using D(2) e f by (simp add: s replay_append)
  show "?h j = Some d \<longleftrightarrow> cart_pc ?s d \<in> {Reserved, Crossed} \<and> j \<in> ends n (c_moves ?s d)" for j d
  proof (cases "j = j1 \<or> j = j2")
    case True
    then have "\<not> (cart_pc s d \<in> {Reserved, Crossed} \<and> j \<in> ends n (c_moves s d))" using D(3) [of j d] f by auto
    then show ?thesis using True e by (auto simp: s)
  next
    case False
    then have "?h j = h j" by simp
    then show ?thesis using D(3) [of j d] p e False by (auto simp: s)
  qed
  show "locks ?s j = (if ?h j = None then 0 else 1)" for j using D(4) [of j] by (simp add: s)
  show "(\<exists>j \<in> ends n (c_moves ?s d). ?h j \<noteq> None) \<or> (\<exists>d. cart_pc ?s d = Released)" if "cart_pc ?s d = Asleep" for d
  proof -
    have d: "d \<noteq> c" "cart_pc s d = Asleep" using that by (auto simp: s split: if_splits)
    have "cart_pc ?s x = Released" if "cart_pc s x = Released" for x using that p by (auto simp: s)
    moreover have "?h j \<noteq> None" if "h j \<noteq> None" for j using that by simp
    moreover have "c_moves ?s d = c_moves s d" by (simp add: s)
    ultimately show ?thesis by (rule asleep_mono [OF ok d(2)])
  qed
qed

lemma release2_ok:
  assumes ok: "cart_ok n s h" and p: "cart_pc s c = Crossed" and e: "ends n (c_moves s c) = {j1, j2}" "j1 \<noteq> j2"
  shows "cart_ok n (release2 c j1 j2 s) (h(j1 := None, j2 := None))" (is "cart_ok n ?s ?h")
proof (rule cart_okI)
  note D = cart_okD [OF ok]
  have h: "h j1 = Some c" "h j2 = Some c" using D(3) p e by auto
  show "legal_move n (c_moves ?s d)" if "cart_pc ?s d \<notin> {Away, Gone}" for d
    using that D(1) [of d] D(1) [of c] p by (auto simp: release2_def split: if_splits)
  show "replay n (calls ?s) (\<lambda>_. None) = Some ?h" using D(2) e h by (simp add: release2_def replay_append)
  show "?h j = Some d \<longleftrightarrow> cart_pc ?s d \<in> {Reserved, Crossed} \<and> j \<in> ends n (c_moves ?s d)" for j d
  proof (cases "j = j1 \<or> j = j2")
    case True
    then have "\<not> (cart_pc s d \<in> {Reserved, Crossed} \<and> j \<in> ends n (c_moves s d))" if "d \<noteq> c"
      using D(3) [of j d] h that by auto
    moreover have "?h j = None" using True by auto
    ultimately show ?thesis by (cases "d = c") (simp_all add: release2_def)
  next
    case False
    then have "?h j = h j" by simp
    then show ?thesis using D(3) [of j d] p e False by (auto simp: release2_def)
  qed
  show "locks ?s j = (if ?h j = None then 0 else 1)" for j using D(4) [of j] by (simp add: release2_def)
  show "(\<exists>j \<in> ends n (c_moves ?s d). ?h j \<noteq> None) \<or> (\<exists>d. cart_pc ?s d = Released)" for d
    by (rule disjI2) (rule exI [of _ c], simp add: release2_def)
qed

lemma cart_step_keeps:
  assumes n: "2 \<le> n" "n < 2 ^ 31"
  shows "cart_step n s s' \<Longrightarrow> cart_ok n s h \<Longrightarrow> \<exists>h'. cart_ok n s' h'"
proof (induction rule: cart_step.induct)
  case (arrives s c t j)
  have m: "legal_move n \<lparr>track_num = t, junc_num = j\<rparr>" using arrives by (auto simp: legal_move_def ends_def)
  have "cart_ok n (arrive c t j s) h"
    by (rule cart_ok_pc [OF arrives(4), of c Arrived "\<lparr>track_num = t, junc_num = j\<rparr>"]) (use arrives(1) m in \<open>auto simp: arrive_def\<close>)
  then show ?case by blast
next
  case (reserves s c j1 j2)
  note D = cart_okD [OF reserves(3)]
  have m: "legal_move n (c_moves s c)" using D(1) [of c] reserves(1) by simp
  then have e: "ends n (c_moves s c) = {j1, j2}" "j1 \<noteq> j2" using cart_junctions_ends [OF n m] reserves(2) by auto
  show ?case
  proof (cases "h j1 = None \<and> h j2 = None")
    case True
    then show ?thesis using reserve2_ok [OF reserves(3,1) e] by blast
  next
    case False
    then have "reserve2 c j1 j2 s = s\<lparr>c_moves := (c_moves s)(c := c_moves s c), cart_pc := (cart_pc s)(c := Asleep)\<rparr>"
      using D(4) [of j1] D(4) [of j2] by (auto simp: reserve2_def)
    then have "cart_ok n (reserve2 c j1 j2 s) h"
      using cart_ok_pc [OF reserves(3), of c Asleep "c_moves s c"] reserves(1) m e False by auto
    then show ?thesis by blast
  qed
next
  case (ignores s c)
  then show ?case using cart_junctions_ends [OF n, of "c_moves s c"] cart_okD(1) [OF ignores(3), of c] by auto
next
  case (crosses s c)
  note D = cart_okD [OF crosses(2)]
  have m: "legal_move n (c_moves s c)" using D(1) [of c] crosses(1) by simp
  let ?m = "c_moves s c"
  have "h (junc_num ?m) = Some c" "h (if junc_num ?m = track_num ?m then (track_num ?m + 1) mod n else track_num ?m) = Some c"
    using D(3) crosses(1) m by (auto simp: legal_move_def ends_def)
  then have "replay n (calls s @ [Cross c (track_num ?m) (junc_num ?m)]) (\<lambda>_. None) = Some h"
    using D(2) by (simp add: replay_append)
  moreover define s' where "s' = s\<lparr>calls := calls s @ [Cross c (track_num ?m) (junc_num ?m)], cart_pc := (cart_pc s)(c := Crossed)\<rparr>"
  ultimately have r: "replay n (calls s') (\<lambda>_. None) = Some h" by simp
  have "cart_ok n s' h"
  proof (rule cart_okI [OF _ r])
    show "legal_move n (c_moves s' d)" if "cart_pc s' d \<notin> {Away, Gone}" for d
      using that D(1) [of d] m by (auto simp: s'_def split: if_splits)
    show "h j = Some d \<longleftrightarrow> cart_pc s' d \<in> {Reserved, Crossed} \<and> j \<in> ends n (c_moves s' d)" for j d
      using D(3) [of j d] crosses(1) by (auto simp: s'_def)
    show "locks s' j = (if h j = None then 0 else 1)" for j using D(4) [of j] by (simp add: s'_def)
    show "(\<exists>j \<in> ends n (c_moves s' d). h j \<noteq> None) \<or> (\<exists>d. cart_pc s' d = Released)" if "cart_pc s' d = Asleep" for d
      by (rule asleep_mono [OF crosses(2), of d]) (use that crosses(1) in \<open>auto simp: s'_def split: if_splits\<close>)
  qed
  then show ?case unfolding s'_def by blast
next
  case (releases s c j1 j2)
  note D = cart_okD [OF releases(3)]
  have m: "legal_move n (c_moves s c)" using D(1) [of c] releases(1) by simp
  then have e: "ends n (c_moves s c) = {j1, j2}" "j1 \<noteq> j2" using cart_junctions_ends [OF n m] releases(2) by auto
  show ?case using release2_ok [OF releases(3,1) e] by blast
next
  case (broadcasts s c)
  note D = cart_okD [OF broadcasts(2)]
  have "cart_ok n (release2_broadcast c s) h"
    using D(1-4) broadcasts(1) by (intro cart_okI) (auto simp: release2_broadcast_def split: if_splits)
  then show ?case by blast
next
  case (spurious s c)
  have "cart_ok n (s\<lparr>cart_pc := (cart_pc s)(c := Arrived)\<rparr>) h"
    using cart_ok_pc [OF spurious(2), of c Arrived "c_moves s c"] cart_okD(1) [OF spurious(2), of c] spurious(1) by simp
  then show ?case by blast
qed

lemma cartman_ok: "cart_ok n (cartman s) (\<lambda>_. None)"
  by (simp add: cart_ok_def cartman_def)

lemma cart_reachable_ok:
  "(cart_step n)\<^sup>*\<^sup>* s s' \<Longrightarrow> 2 \<le> n \<Longrightarrow> n < 2 ^ 31 \<Longrightarrow> \<exists>h. cart_ok n s h \<Longrightarrow> \<exists>h. cart_ok n s' h"
  by (induction rule: rtranclp_induct) (auto dest: cart_step_keeps)



section \<open>The manual page\<close>

datatype page_pc = Started | Page_Asleep | Shown | Page_Done

record manpage =
  cur_page :: nat
  page_pc :: "nat \<Rightarrow> page_pc"
  shown :: "nat list"

text \<open>\<^verbatim>\<open>manpage\<close> starts the seven threads \<open>0\<close> to \<open>6\<close>; \<^verbatim>\<open>cur_page\<close> is a global variable.\<close>

definition manpage_init :: manpage where
  "manpage_init = \<lparr>cur_page = 0, page_pc = (\<lambda>_. Started), shown = []\<rparr>"

text \<open>One round of the loop of \<^verbatim>\<open>print_page\<close> in the thread \<open>t\<close> of paragraph \<open>pid\<close>, up to the
  unlocking, and the broadcast.\<close>

definition print_page :: "nat \<Rightarrow> nat \<Rightarrow> manpage \<Rightarrow> manpage" where
  "print_page t pid s =
     (if pid \<noteq> cur_page s then s\<lparr>page_pc := (page_pc s)(t := Page_Asleep)\<rparr>
      else s\<lparr>shown := shown s @ [pid], cur_page := cur_page s + 1, page_pc := (page_pc s)(t := Shown)\<rparr>)"

definition print_page_broadcast :: "nat \<Rightarrow> manpage \<Rightarrow> manpage" where
  "print_page_broadcast t s =
     s\<lparr>page_pc := (\<lambda>u. if page_pc s u = Page_Asleep then Started else if u = t then Page_Done else page_pc s u)\<rparr>"

inductive page_step :: "(nat \<Rightarrow> nat) \<Rightarrow> manpage \<Rightarrow> manpage \<Rightarrow> bool" for getParagraphId :: "nat \<Rightarrow> nat" where
  prints: "t < 7 \<Longrightarrow> page_pc s t = Started \<Longrightarrow> page_step getParagraphId s (print_page t (getParagraphId t) s)"
| broadcast: "t < 7 \<Longrightarrow> page_pc s t = Shown \<Longrightarrow> page_step getParagraphId s (print_page_broadcast t s)"
| wakes: "t < 7 \<Longrightarrow> page_pc s t = Page_Asleep \<Longrightarrow> page_step getParagraphId s (s\<lparr>page_pc := (page_pc s)(t := Started)\<rparr>)"

definition page_ok :: "(nat \<Rightarrow> nat) \<Rightarrow> manpage \<Rightarrow> bool" where
  "page_ok pid s \<longleftrightarrow> shown s = [0..<cur_page s] \<and> cur_page s \<le> 7 \<and>
     (\<forall>t < 7. (page_pc s t = Shown \<or> page_pc s t = Page_Done \<longleftrightarrow> pid t < cur_page s) \<and>
        (page_pc s t = Page_Asleep \<longrightarrow> pid t \<noteq> cur_page s \<or> (\<exists>u < 7. page_pc s u = Shown)))"

lemma page_ok_pc:
  assumes ok: "page_ok pid s" and t: "page_pc s t \<noteq> Shown" "page_pc s t \<noteq> Page_Done" "p \<noteq> Shown" "p \<noteq> Page_Done"
    and a: "p = Page_Asleep \<Longrightarrow> pid t \<noteq> cur_page s"
  shows "page_ok pid (s\<lparr>page_pc := (page_pc s)(t := p)\<rparr>)" (is "page_ok pid ?s")
  unfolding page_ok_def
proof (intro conjI allI impI)
  show "shown ?s = [0..<cur_page ?s]" "cur_page ?s \<le> 7" using ok by (auto simp: page_ok_def)
  fix u :: nat assume u: "u < 7"
  have o: "page_pc s u = Shown \<or> page_pc s u = Page_Done \<longleftrightarrow> pid u < cur_page s"
    "page_pc s u = Page_Asleep \<longrightarrow> pid u \<noteq> cur_page s \<or> (\<exists>v < 7. page_pc s v = Shown)"
    using ok u unfolding page_ok_def by blast+
  show "page_pc ?s u = Shown \<or> page_pc ?s u = Page_Done \<longleftrightarrow> pid u < cur_page ?s" using o(1) t by auto
  have "\<exists>v < 7. page_pc ?s v = Shown" if "\<exists>v < 7. page_pc s v = Shown" using that t(1) by auto
  then show "pid u \<noteq> cur_page ?s \<or> (\<exists>v < 7. page_pc ?s v = Shown)" if "page_pc ?s u = Page_Asleep"
    using that o(2) a by (cases "u = t") auto
qed

lemma page_step_keeps:
  "page_step pid s s' \<Longrightarrow> bij_betw pid {..<7} {..<7} \<Longrightarrow> page_ok pid s \<Longrightarrow> page_ok pid s'"
proof (induction rule: page_step.induct)
  case (prints t s)
  have inj: "pid u = pid t \<longleftrightarrow> u = t" if "u < 7" for u
    using prints(1,3) that by (auto simp: bij_betw_def inj_on_def)
  show ?case
  proof (cases "pid t = cur_page s")
    case True
    moreover have "pid t < 7" using prints(1,3) by (auto simp: bij_betw_def)
    ultimately show ?thesis using prints(1,2,4) inj
      by (auto simp: page_ok_def print_page_def less_Suc_eq)
  next
    case False
    then show ?thesis using page_ok_pc [OF prints(4), of t Page_Asleep] prints(2) by (simp add: print_page_def)
  qed
next
  case (broadcast t s)
  then show ?case by (auto simp: page_ok_def print_page_broadcast_def)
next
  case (wakes t s)
  then show ?case using page_ok_pc [OF wakes(4), of t Started] by simp
qed

text \<open>When the seven threads have the paragraphs 0 to 6, in some order, every schedule shows
  the paragraphs in ascending order, each at most once; and when every thread sleeps or has
  ended, all have ended and the whole page has been shown.\<close>

theorem manpage_in_order:
  assumes "bij_betw getParagraphId {..<7} {..<7}" and "(page_step getParagraphId)\<^sup>*\<^sup>* manpage_init s"
  shows "shown s = [0..<cur_page s] \<and>
    ((\<forall>t < 7. page_pc s t = Page_Asleep \<or> page_pc s t = Page_Done) \<longrightarrow>
      (\<forall>t < 7. page_pc s t = Page_Done) \<and> shown s = [0, 1, 2, 3, 4, 5, 6])"
proof -
  have "page_ok getParagraphId manpage_init" by (simp add: page_ok_def manpage_init_def)
  moreover have "page_ok getParagraphId s" if "page_ok getParagraphId manpage_init"
    using assms(2) by (induction rule: rtranclp_induct) (use that assms(1) page_step_keeps in auto)
  ultimately have ok: "page_ok getParagraphId s" by blast
  have "(\<forall>t < 7. page_pc s t = Page_Done) \<and> cur_page s = 7"
    if a: "\<forall>t < 7. page_pc s t = Page_Asleep \<or> page_pc s t = Page_Done"
  proof -
    have ns: "page_pc s t \<noteq> Shown" if "t < 7" for t using spec [OF a, of t] that by auto
    have d: "page_pc s t = Page_Done \<longleftrightarrow> getParagraphId t < cur_page s" if "t < 7" for t
      using ok ns that unfolding page_ok_def by metis
    have "7 \<le> cur_page s"
    proof (rule ccontr)
      assume "\<not> 7 \<le> cur_page s"
      then obtain t where t: "t < 7" "getParagraphId t = cur_page s"
        using assms(1) unfolding bij_betw_def by (metis imageE lessThan_iff not_le_imp_less)
      then have "page_pc s t = Page_Asleep" using a d by auto
      then show False using ok t ns unfolding page_ok_def by blast
    qed
    moreover have "cur_page s \<le> 7" using ok by (simp add: page_ok_def)
    moreover have "getParagraphId t < 7" if "t < 7" for t using assms(1) that by (auto simp: bij_betw_def)
    ultimately have "cur_page s = 7" "\<And>t. t < 7 \<Longrightarrow> getParagraphId t < cur_page s" by auto
    then show ?thesis using d by blast
  qed
  moreover have "[0..<7] = [0, 1, 2, 3, 4, 5, 6 :: nat]" by (simp add: upt_rec)
  moreover have "shown s = [0..<cur_page s]" using ok by (simp add: page_ok_def)
  ultimately show ?thesis by metis
qed

theorem manpage_in_order_witness:
  "\<exists>s. (page_step (\<lambda>t. 6 - t))\<^sup>*\<^sup>* manpage_init s \<and> page_pc s 0 = Page_Asleep \<and> page_pc s 6 = Shown \<and> shown s = [0]"
proof -
  let ?s1 = "print_page 0 6 manpage_init" and ?s2 = "print_page 6 0 (print_page 0 6 manpage_init)"
  have 1: "page_step (\<lambda>t. 6 - t) manpage_init ?s1"
    using page_step.prints [of 0 manpage_init "\<lambda>t. 6 - t"] by (simp add: manpage_init_def)
  have 2: "page_step (\<lambda>t. 6 - t) ?s1 ?s2"
    using page_step.prints [of 6 ?s1 "\<lambda>t. 6 - t"] by (simp add: manpage_init_def print_page_def)
  have r: "(page_step (\<lambda>t. 6 - t))\<^sup>*\<^sup>* manpage_init ?s2" using 1 2 by (meson converse_rtranclp_into_rtranclp rtranclp.rtrancl_refl)
  have "bij_betw (\<lambda>t::nat. 6 - t) {..<7} {..<7}" by (rule bij_betw_byWitness [where f' = "\<lambda>t. 6 - t"]) auto
  then show ?thesis
    using manpage_in_order [OF _ r] r by (intro exI [of _ ?s2]) (simp add: manpage_init_def print_page_def)
qed

end
