(* ===== verification/Queue.thy ===== *)
theory Queue
  imports Prelude
begin

text \<open>
  The queue library of the fourth and fifth assignments. It comes as an object file, so its
  operations are the fields of a record that the definitions take as an argument. \<open>queue_ok\<close>
  states what \<^verbatim>\<open>queue.h\<close> documents, by the sequence of items \<open>items q\<close> that a queue holds:
  first in, first out; a head, or a null pointer (\<open>None\<close>), from an empty queue; a sort into an
  order in which the comparator is never positive on two items in sequence.
\<close>

record ('q, 'd) queue_lib =
  queue_create :: 'q
  queue_enqueue :: "'q \<Rightarrow> 'd \<Rightarrow> 'q"
  queue_dequeue :: "'q \<Rightarrow> 'd option \<times> 'q"
  queue_head :: "'q \<Rightarrow> 'd option"
  queue_size :: "'q \<Rightarrow> nat"
  queue_sort :: "('d \<Rightarrow> 'd \<Rightarrow> int) \<Rightarrow> 'q \<Rightarrow> 'q"

text \<open>A comparator that orders the items of a set.\<close>

definition comparator_on :: "'d set \<Rightarrow> ('d \<Rightarrow> 'd \<Rightarrow> int) \<Rightarrow> bool" where
  "comparator_on A cmp \<longleftrightarrow> (\<forall>a \<in> A. \<forall>b \<in> A. cmp a b \<le> 0 \<or> cmp b a \<le> 0) \<and>
     (\<forall>a \<in> A. \<forall>b \<in> A. \<forall>c \<in> A. cmp a b \<le> 0 \<and> cmp b c \<le> 0 \<longrightarrow> cmp a c \<le> 0)"

definition queue_ok :: "('q, 'd) queue_lib \<Rightarrow> ('q \<Rightarrow> 'd list) \<Rightarrow> bool" where
  "queue_ok ql items \<longleftrightarrow> items (queue_create ql) = [] \<and>
     (\<forall>q d. items (queue_enqueue ql q d) = items q @ [d]) \<and>
     (\<forall>q. fst (queue_dequeue ql q) = (case items q of [] \<Rightarrow> None | d # ds \<Rightarrow> Some d) \<and>
          items (snd (queue_dequeue ql q)) = tl (items q)) \<and>
     (\<forall>q. queue_head ql q = (case items q of [] \<Rightarrow> None | d # ds \<Rightarrow> Some d)) \<and>
     (\<forall>q. queue_size ql q = length (items q)) \<and>
     (\<forall>cmp q. mset (items (queue_sort ql cmp q)) = mset (items q) \<and>
        (comparator_on (set (items q)) cmp \<longrightarrow> sorted_wrt (\<lambda>a b. cmp a b \<le> 0) (items (queue_sort ql cmp q))))"

lemma queue_okD:
  assumes "queue_ok ql items"
  shows "items (queue_create ql) = []" "items (queue_enqueue ql q d) = items q @ [d]"
    "fst (queue_dequeue ql q) = (case items q of [] \<Rightarrow> None | d # ds \<Rightarrow> Some d)" "items (snd (queue_dequeue ql q)) = tl (items q)"
    "queue_head ql q = (case items q of [] \<Rightarrow> None | d # ds \<Rightarrow> Some d)" "queue_size ql q = length (items q)"
    "mset (items (queue_sort ql cmp q)) = mset (items q)"
    "comparator_on (set (items q)) cmp \<Longrightarrow> sorted_wrt (\<lambda>a b. cmp a b \<le> 0) (items (queue_sort ql cmp q))"
  using assms by (simp_all add: queue_ok_def)

text \<open>A queue as a list, with insertion sort.\<close>

fun insert_cmp :: "('d \<Rightarrow> 'd \<Rightarrow> int) \<Rightarrow> 'd \<Rightarrow> 'd list \<Rightarrow> 'd list" where
  "insert_cmp cmp x [] = [x]"
| "insert_cmp cmp x (y # ys) = (if cmp x y \<le> 0 then x # y # ys else y # insert_cmp cmp x ys)"

definition list_queue :: "('d list, 'd) queue_lib" where
  "list_queue = \<lparr>queue_create = [], queue_enqueue = (\<lambda>q d. q @ [d]),
     queue_dequeue = (\<lambda>q. (case q of [] \<Rightarrow> (None, []) | d # ds \<Rightarrow> (Some d, ds))),
     queue_head = (\<lambda>q. case q of [] \<Rightarrow> None | d # ds \<Rightarrow> Some d), queue_size = length,
     queue_sort = (\<lambda>cmp q. foldr (insert_cmp cmp) q [])\<rparr>"

lemma mset_insert_cmp [simp]: "mset (insert_cmp cmp x ys) = add_mset x (mset ys)"
  by (induction ys) auto

lemma set_insert_cmp [simp]: "set (insert_cmp cmp x ys) = insert x (set ys)"
  by (induction ys) auto

lemma sorted_insert_cmp:
  assumes "comparator_on A cmp"
  shows "x \<in> A \<Longrightarrow> set ys \<subseteq> A \<Longrightarrow> sorted_wrt (\<lambda>a b. cmp a b \<le> 0) ys \<Longrightarrow> sorted_wrt (\<lambda>a b. cmp a b \<le> 0) (insert_cmp cmp x ys)"
proof (induction ys)
  case (Cons y ys)
  show ?case
  proof (cases "cmp x y \<le> 0")
    case True
    have "cmp x z \<le> 0" if "z \<in> set ys" for z
      using True Cons.prems that assms unfolding comparator_on_def by (metis in_mono list.set_intros sorted_wrt.simps(2))
    then show ?thesis using True Cons.prems by simp
  next
    case False
    then have "cmp y x \<le> 0" using Cons.prems assms unfolding comparator_on_def by (meson in_mono list.set_intros(1))
    then show ?thesis using False Cons by auto
  qed
qed simp

lemma list_queue_ok: "queue_ok list_queue (\<lambda>q. q)"
proof -
  have m: "mset (foldr (insert_cmp cmp) q []) = mset q" for cmp and q :: "'a list" by (induction q) auto
  have s: "sorted_wrt (\<lambda>a b. cmp a b \<le> 0) (foldr (insert_cmp cmp) q [])" if "comparator_on (set q) cmp"
    for cmp and q :: "'a list"
  proof -
    have "set r \<subseteq> set q \<Longrightarrow> set (foldr (insert_cmp cmp) r []) \<subseteq> set q \<and> sorted_wrt (\<lambda>a b. cmp a b \<le> 0) (foldr (insert_cmp cmp) r [])" for r
      by (induction r) (auto intro: sorted_insert_cmp [OF that])
    then show ?thesis by blast
  qed
  show ?thesis using m s by (auto simp: queue_ok_def list_queue_def split: list.splits)
qed

text \<open>Taking the head of a queue that is not empty.\<close>

lemma dequeue_Cons:
  "queue_ok ql items \<Longrightarrow> items q = d # ds \<Longrightarrow> \<exists>q'. queue_dequeue ql q = (Some d, q') \<and> items q' = ds"
  using queue_okD(3,4) [of ql items q] by (cases "queue_dequeue ql q") auto

lemma dequeue_Nil:
  "queue_ok ql items \<Longrightarrow> items q = [] \<Longrightarrow> \<exists>q'. queue_dequeue ql q = (None, q') \<and> items q' = []"
  using queue_okD(3,4) [of ql items q] by (cases "queue_dequeue ql q") auto

text \<open>Comparators of the clients return the difference of two unsigned numbers as an \<^verbatim>\<open>int\<close>.\<close>

lemma sint_diff:
  fixes a b :: u32
  assumes "a < 2 ^ 31" and "b < 2 ^ 31"
  shows "sint (a - b) = uint a - uint b"
proof -
  have u: "uint a < 2 ^ 31" "uint b < 2 ^ 31" "0 \<le> uint a" "0 \<le> uint b" using assms by (simp_all add: word_less_def)
  have "sint (a - b) = signed_take_bit 31 (uint (a - b))" by (simp add: sint_uint)
  also have "\<dots> = signed_take_bit 31 (take_bit 32 (uint a - uint b))" by (simp add: uint_word_ariths take_bit_eq_mod)
  also have "\<dots> = signed_take_bit 31 (uint a - uint b)" by (simp only: signed_take_bit_take_bit) simp
  also have "\<dots> = uint a - uint b" using u by (intro signed_take_bit_int_eq_self; linarith)
  finally show ?thesis .
qed

text \<open>The pointer that a queue operation returns.\<close>

definition ptr :: "addr option \<Rightarrow> addr" where
  "ptr x = (case x of None \<Rightarrow> NULL | Some p \<Rightarrow> p)"

lemma ptr_simps [simp]: "ptr None = 0" "ptr (Some p) = p"
  by (simp_all add: ptr_def)

end
