(* ===== verification/CpuSched.thy ===== *)
theory CpuSched
  imports Queue
begin

text \<open>
  The CPU scheduler of the fourth assignment, \<^verbatim>\<open>Assignment4/scheduler.c\<close>: the callbacks that
  the supplied simulator makes, and the global variables they work on. The queues hold the
  addresses of \<^verbatim>\<open>struct times\<close> cells; \<open>ql\<close> is the queue library. The calls of
  \<^verbatim>\<open>sim_dispatch\<close> are recorded. Times are unbounded integers. \<open>None\<close> is a null pointer that
  is followed, or a division by zero.
\<close>

section \<open>State\<close>

record thread =
  tid :: u32
  priority :: u32
  thread_length :: u32

record times =
  thr :: thread
  running_time :: int
  waiting_time :: int
  last_on :: int
  beg_time :: int

record 'q sim =
  heap :: "addr \<Rightarrow> times"
  ready_queue :: 'q
  io_queue :: 'q
  done_queue :: 'q
  cur_t :: addr
  io_t :: addr
  ticks :: int
  last_on_total :: int
  alg :: nat
  quant :: int
  dispatched :: "thread list"

text \<open>\<^verbatim>\<open>enum algorithm\<close>; the last four are not implemented.\<close>

definition FIRST_COME_FIRST_SERVED :: nat where "FIRST_COME_FIRST_SERVED = 0"
definition ROUND_ROBIN :: nat where "ROUND_ROBIN = 1"
definition NON_PREEMPTIVE_PRIORITY :: nat where "NON_PREEMPTIVE_PRIORITY = 2"
definition PREEMPTIVE_PRIORITY :: nat where "PREEMPTIVE_PRIORITY = 3"

definition upd :: "addr \<Rightarrow> (times \<Rightarrow> times) \<Rightarrow> 'q sim \<Rightarrow> 'q sim" where
  "upd p f s = s\<lparr>heap := (heap s)(p := f (heap s p))\<rparr>"

section \<open>Callbacks\<close>

text \<open>The difference of two unsigned priorities, as an \<^verbatim>\<open>int\<close>.\<close>

definition sort_priority :: "(addr \<Rightarrow> times) \<Rightarrow> addr \<Rightarrow> addr \<Rightarrow> int" where
  "sort_priority h a b = sint (priority (thr (h a)) - priority (thr (h b)))"

definition scheduler :: "('q, addr) queue_lib \<Rightarrow> nat \<Rightarrow> int \<Rightarrow> 'q sim \<Rightarrow> 'q sim" where
  "scheduler ql algorithm quantum s =
     s\<lparr>alg := algorithm, ready_queue := queue_create ql, io_queue := queue_create ql, done_queue := queue_create ql,
       quant := quantum\<rparr>"

text \<open>What is done with a thread that gets the processor: its wait ends now.\<close>

definition run_now :: "addr \<Rightarrow> 'q sim \<Rightarrow> 'q sim" where
  "run_now p s = upd p (\<lambda>t. t\<lparr>waiting_time := waiting_time t + (ticks s - last_on t), last_on := ticks s\<rparr>) s"

definition sim_dispatch :: "addr \<Rightarrow> 'q sim \<Rightarrow> 'q sim" where
  "sim_dispatch p s = s\<lparr>dispatched := dispatched s @ [thr (heap s p)]\<rparr>"

definition priority_sort :: "('q, addr) queue_lib \<Rightarrow> 'q sim \<Rightarrow> 'q sim" where
  "priority_sort ql s =
     (let s = s\<lparr>ready_queue := queue_sort ql (sort_priority (heap s)) (ready_queue s)\<rparr> in
      if alg s = PREEMPTIVE_PRIORITY
      then (let h = ptr (queue_head ql (ready_queue s)) in
        if cur_t s \<noteq> NULL \<and> h \<noteq> NULL \<and> priority (thr (heap s h)) < priority (thr (heap s (cur_t s)))
        then (let
            (h, q) = queue_dequeue ql (ready_queue s);
            s = s\<lparr>ready_queue := queue_enqueue ql q (cur_t s)\<rparr>;
            s = upd (cur_t s) (\<lambda>t. t\<lparr>last_on := ticks s\<rparr>) s;
            s = s\<lparr>cur_t := ptr h\<rparr>
          in sim_dispatch (cur_t s) (run_now (cur_t s) s))
        else s)
      else s)"

definition sys_exec :: "('q, addr) queue_lib \<Rightarrow> addr \<Rightarrow> thread \<Rightarrow> 'q sim \<Rightarrow> 'q sim" where
  "sys_exec ql p t s =
     (let ti = \<lparr>thr = t, running_time = 0, waiting_time = 0, last_on = ticks s, beg_time = ticks s\<rparr>;
          s' = s\<lparr>heap := (heap s)(p := ti)\<rparr> in
      if queue_size ql (ready_queue s) = 0 \<and> cur_t s = NULL \<and> alg s \<noteq> 2 \<and> alg s \<noteq> 3
      then sim_dispatch p (s'\<lparr>cur_t := p\<rparr>)
      else s'\<lparr>ready_queue := queue_enqueue ql (ready_queue s) p\<rparr>)"

text \<open>The two ways to choose a thread in \<^verbatim>\<open>tick\<close>: on an idle processor, and at the end of a
  quantum.\<close>

definition tick_idle :: "('q, addr) queue_lib \<Rightarrow> 'q sim \<Rightarrow> 'q sim" where
  "tick_idle ql s =
     (let s = (if alg s = NON_PREEMPTIVE_PRIORITY then priority_sort ql s else s);
          (p, q) = queue_dequeue ql (ready_queue s);
          s = s\<lparr>ready_queue := q, cur_t := ptr p\<rparr> in
      if cur_t s \<noteq> NULL
      then sim_dispatch (cur_t s) (run_now (cur_t s) (s\<lparr>last_on_total := 0\<rparr>))
      else s)"

definition tick_quantum :: "('q, addr) queue_lib \<Rightarrow> 'q sim \<Rightarrow> 'q sim" where
  "tick_quantum ql s =
     (let s = upd (cur_t s) (\<lambda>t. t\<lparr>last_on := ticks s\<rparr>) s;
          (p, q) = queue_dequeue ql (queue_enqueue ql (ready_queue s) (cur_t s));
          s = s\<lparr>ready_queue := q, cur_t := ptr p\<rparr> in
      (sim_dispatch (cur_t s) (run_now (cur_t s) s))\<lparr>last_on_total := 0\<rparr>)"

definition tick :: "('q, addr) queue_lib \<Rightarrow> 'q sim \<Rightarrow> 'q sim" where
  "tick ql s =
     (let s = (if alg s = PREEMPTIVE_PRIORITY then priority_sort ql s else s);
          s = (if cur_t s = NULL then tick_idle ql s
               else if alg s = ROUND_ROBIN \<and> last_on_total s \<ge> quant s \<and> queue_size ql (ready_queue s) \<noteq> 0
               then tick_quantum ql s else s);
          s = (if cur_t s \<noteq> NULL then s\<lparr>last_on_total := last_on_total s + 1\<rparr>
               else if last_on_total s = quant s then s\<lparr>last_on_total := 0\<rparr> else s) in
      s\<lparr>ticks := ticks s + 1\<rparr>)"

definition sys_exit :: "('q, addr) queue_lib \<Rightarrow> 'q sim \<Rightarrow> 'q sim option" where
  "sys_exit ql s = do {
     kassert (cur_t s \<noteq> NULL);
     let s = upd (cur_t s) (\<lambda>t. t\<lparr>running_time := ticks s - beg_time t\<rparr>) s;
     let s = s\<lparr>done_queue := queue_enqueue ql (done_queue s) (cur_t s)\<rparr>;
     Some (s\<lparr>cur_t := NULL\<rparr>) }"

definition sys_read :: "('q, addr) queue_lib \<Rightarrow> 'q sim \<Rightarrow> 'q sim option" where
  "sys_read ql s = do {
     kassert (cur_t s \<noteq> NULL);
     let s = (if queue_size ql (io_queue s) = 0 \<and> io_t s = NULL
       then upd (cur_t s) (\<lambda>t. t\<lparr>last_on := ticks s\<rparr>) (s\<lparr>io_t := cur_t s\<rparr>)
       else (upd (cur_t s) (\<lambda>t. t\<lparr>last_on := ticks s\<rparr>) s)\<lparr>io_queue := queue_enqueue ql (io_queue s) (cur_t s)\<rparr>);
     Some (s\<lparr>cur_t := NULL\<rparr>) }"

text \<open>\<^verbatim>\<open>sys_write\<close> does the same, with two independent statements in the other order.\<close>

definition sys_write :: "('q, addr) queue_lib \<Rightarrow> 'q sim \<Rightarrow> 'q sim option" where
  "sys_write ql s = do {
     kassert (cur_t s \<noteq> NULL);
     let s = (if queue_size ql (io_queue s) = 0 \<and> io_t s = NULL
       then upd (cur_t s) (\<lambda>t. t\<lparr>last_on := ticks s\<rparr>) (s\<lparr>io_t := cur_t s\<rparr>)
       else upd (cur_t s) (\<lambda>t. t\<lparr>last_on := ticks s\<rparr>) (s\<lparr>io_queue := queue_enqueue ql (io_queue s) (cur_t s)\<rparr>));
     Some (s\<lparr>cur_t := NULL\<rparr>) }"

definition io_complete :: "('q, addr) queue_lib \<Rightarrow> 'q sim \<Rightarrow> 'q sim option" where
  "io_complete ql s = do {
     kassert (io_t s \<noteq> NULL);
     let s = upd (io_t s) (\<lambda>t. t\<lparr>last_on := ticks s\<rparr>) s;
     let s = s\<lparr>ready_queue := queue_enqueue ql (ready_queue s) (io_t s)\<rparr>;
     let (p, q) = queue_dequeue ql (io_queue s);
     let s = s\<lparr>io_queue := q, io_t := ptr p\<rparr>;
     if cur_t s = NULL
     then (let (p, q) = queue_dequeue ql (ready_queue s);
               s = s\<lparr>ready_queue := q, cur_t := ptr p\<rparr> in
           if cur_t s \<noteq> NULL then Some (sim_dispatch (cur_t s) (run_now (cur_t s) s)) else Some s)
     else Some s }"

definition io_starting :: "'q sim \<Rightarrow> 'q sim option" where
  "io_starting s = do {
     kassert (io_t s \<noteq> NULL);
     let s = upd (io_t s) (\<lambda>t. t\<lparr>waiting_time := waiting_time t + (ticks s - 1 - last_on t)\<rparr>) s;
     let s = upd (io_t s) (\<lambda>t. t\<lparr>last_on := ticks s\<rparr>) s;
     let s = upd (io_t s) (\<lambda>t. t\<lparr>waiting_time := waiting_time t + (ticks s - last_on t)\<rparr>) s;
     Some (upd (io_t s) (\<lambda>t. t\<lparr>last_on := ticks s\<rparr>) s) }"

text \<open>The statistics: the identifiers and times of the threads that have ended, in the order in
  which they ended, and the mean times, which are quotients of unsigned numbers.\<close>

record tstats =
  st_tid :: u32
  st_waiting :: int
  st_turnaround :: int
  st_thread_count :: nat

fun drain_done :: "nat \<Rightarrow> ('q, addr) queue_lib \<Rightarrow> (addr \<Rightarrow> times) \<Rightarrow> nat \<Rightarrow> 'q \<Rightarrow> tstats list option" where
  "drain_done thread_count ql h 0 q = Some []"
| "drain_done thread_count ql h (Suc n) q =
     (case queue_dequeue ql q of
        (None, q) \<Rightarrow> None
      | (Some p, q) \<Rightarrow> do {
          ts \<leftarrow> drain_done thread_count ql h n q;
          Some (\<lparr>st_tid = tid (thr (h p)), st_waiting = waiting_time (h p), st_turnaround = running_time (h p),
              st_thread_count = thread_count\<rparr> # ts) })"

definition stats :: "('q, addr) queue_lib \<Rightarrow> 'q sim \<Rightarrow> (int \<times> int \<times> tstats list) option" where
  "stats ql s = do {
     let thread_count = queue_size ql (done_queue s);
     ts \<leftarrow> drain_done thread_count ql (heap s) thread_count (done_queue s);
     kassert (thread_count \<noteq> 0);
     let mean_turn = sum_list (map st_turnaround ts);
     let mean_wait = sum_list (map st_waiting ts);
     Some (mean_turn mod 2 ^ 32 div int thread_count, mean_wait mod 2 ^ 32 div int thread_count, ts) }"

section \<open>Every thread is in one place\<close>

definition one :: "addr \<Rightarrow> addr multiset" where
  "one p = (if p = NULL then {#} else {#p#})"

lemma one_simps [simp]: "one 0 = {#}" "p \<noteq> 0 \<Longrightarrow> one p = {#p#}" "0 < p \<Longrightarrow> one p = {#p#}"
  by (simp_all add: one_def)

definition places :: "('q \<Rightarrow> addr list) \<Rightarrow> 'q sim \<Rightarrow> addr multiset" where
  "places items s = mset (items (ready_queue s)) + mset (items (io_queue s)) + mset (items (done_queue s)) +
     one (cur_t s) + one (io_t s)"

definition sim_ok :: "('q \<Rightarrow> addr list) \<Rightarrow> addr list \<Rightarrow> 'q sim \<Rightarrow> bool" where
  "sim_ok items ts s \<longleftrightarrow> places items s = mset ts \<and> distinct ts \<and> NULL \<notin> set ts"

lemma upd_simps [simp]:
  "ready_queue (upd p f s) = ready_queue s" "io_queue (upd p f s) = io_queue s" "done_queue (upd p f s) = done_queue s"
  "cur_t (upd p f s) = cur_t s" "io_t (upd p f s) = io_t s" "ticks (upd p f s) = ticks s" "alg (upd p f s) = alg s"
  "last_on_total (upd p f s) = last_on_total s" "quant (upd p f s) = quant s" "dispatched (upd p f s) = dispatched s"
  "heap (upd p f s) = (heap s)(p := f (heap s p))"
  by (simp_all add: upd_def)

lemma run_now_simps [simp]:
  "ready_queue (run_now p s) = ready_queue s" "io_queue (run_now p s) = io_queue s" "done_queue (run_now p s) = done_queue s"
  "cur_t (run_now p s) = cur_t s" "io_t (run_now p s) = io_t s" "ticks (run_now p s) = ticks s" "alg (run_now p s) = alg s"
  "last_on_total (run_now p s) = last_on_total s" "quant (run_now p s) = quant s" "dispatched (run_now p s) = dispatched s"
  "thr (heap (run_now p s) x) = thr (heap s x)"
  by (simp_all add: run_now_def)

lemma sim_dispatch_simps [simp]:
  "ready_queue (sim_dispatch p s) = ready_queue s" "io_queue (sim_dispatch p s) = io_queue s" "done_queue (sim_dispatch p s) = done_queue s"
  "cur_t (sim_dispatch p s) = cur_t s" "io_t (sim_dispatch p s) = io_t s" "ticks (sim_dispatch p s) = ticks s" "alg (sim_dispatch p s) = alg s"
  "last_on_total (sim_dispatch p s) = last_on_total s" "quant (sim_dispatch p s) = quant s" "heap (sim_dispatch p s) = heap s"
  by (simp_all add: sim_dispatch_def)

lemma sim_ok_nonnull:
  assumes "sim_ok items ts s" and "p \<in> set (items (ready_queue s)) \<or> p \<in> set (items (io_queue s))"
  shows "0 < p"
proof -
  have "p \<in># places items s" using assms(2) by (auto simp: places_def)
  then show ?thesis using assms(1) unfolding sim_ok_def by (metis gr0I set_mset_mset)
qed

text \<open>The queue of a dequeue, by its first item.\<close>

lemma dequeue_places:
  assumes q: "queue_ok ql items" and nz: "\<And>x. x \<in> set (items rq) \<Longrightarrow> 0 < x" and d: "queue_dequeue ql rq = (p, rq')"
  shows "mset (items rq) = one (ptr p) + mset (items rq')" "items rq \<noteq> [] \<Longrightarrow> ptr p = hd (items rq) \<and> 0 < ptr p"
    "items rq' = tl (items rq)" "items rq = [] \<Longrightarrow> ptr p = 0"
  using queue_okD(3,4) [OF q, of rq] d nz by (cases "items rq"; simp)+

lemma priority_sort_ok:
  assumes q: "queue_ok ql items" and ok: "sim_ok items ts s"
  shows "sim_ok items ts (priority_sort ql s)" "(cur_t (priority_sort ql s) = 0) = (cur_t s = 0)"
    "io_t (priority_sort ql s) = io_t s" "alg (priority_sort ql s) = alg s" "ticks (priority_sort ql s) = ticks s"
    "cur_t s = 0 \<Longrightarrow> mset (items (ready_queue (priority_sort ql s))) = mset (items (ready_queue s))"
    "thr (heap (priority_sort ql s) x) = thr (heap s x)"
proof -
  let ?s = "s\<lparr>ready_queue := queue_sort ql (sort_priority (heap s)) (ready_queue s)\<rparr>"
  have m: "mset (items (ready_queue ?s)) = mset (items (ready_queue s))" using queue_okD(7) [OF q] by simp
  have ok': "sim_ok items ts ?s" using ok m by (simp add: sim_ok_def places_def)
  have "sim_ok items ts (priority_sort ql s) \<and> (cur_t (priority_sort ql s) = 0) = (cur_t s = 0) \<and>
    io_t (priority_sort ql s) = io_t s \<and> alg (priority_sort ql s) = alg s \<and> ticks (priority_sort ql s) = ticks s \<and>
    (cur_t s = 0 \<longrightarrow> mset (items (ready_queue (priority_sort ql s))) = mset (items (ready_queue s))) \<and>
    thr (heap (priority_sort ql s) x) = thr (heap s x)"
  proof (cases "alg s = PREEMPTIVE_PRIORITY \<and> cur_t s \<noteq> NULL \<and> ptr (queue_head ql (ready_queue ?s)) \<noteq> NULL \<and>
      priority (thr (heap s (ptr (queue_head ql (ready_queue ?s))))) < priority (thr (heap s (cur_t s)))")
    case False
    then have "priority_sort ql s = ?s" by (auto simp: priority_sort_def Let_def)
    then show ?thesis using ok' m by simp
  next
    case True
    obtain p rq where d: "queue_dequeue ql (ready_queue ?s) = (p, rq)" by (cases "queue_dequeue ql (ready_queue ?s)")
    have nz: "0 < x" if "x \<in> set (items (ready_queue ?s))" for x using sim_ok_nonnull [OF ok'] that by blast
    have ne: "items (ready_queue ?s) \<noteq> []" using True queue_okD(5) [OF q, of "ready_queue ?s"] by (auto split: list.splits)
    note e = dequeue_places [OF q nz d]
    have "places items (priority_sort ql s) = places items ?s"
      using True d e(1,2) ne queue_okD(2) [OF q] by (simp add: priority_sort_def Let_def places_def ac_simps)
    then show ?thesis using ok' True d e(2) ne by (simp add: sim_ok_def priority_sort_def Let_def)
  qed
  then show "sim_ok items ts (priority_sort ql s)" "(cur_t (priority_sort ql s) = 0) = (cur_t s = 0)"
    "io_t (priority_sort ql s) = io_t s" "alg (priority_sort ql s) = alg s" "ticks (priority_sort ql s) = ticks s"
    "cur_t s = 0 \<Longrightarrow> mset (items (ready_queue (priority_sort ql s))) = mset (items (ready_queue s))"
    "thr (heap (priority_sort ql s) x) = thr (heap s x)" by blast+
qed

lemma choose_ok:
  assumes q: "queue_ok ql items" and ok: "sim_ok items ts s" and c: "cur_t s = 0"
    and d: "queue_dequeue ql (ready_queue s) = (p, rq)"
  shows "sim_ok items ts (s\<lparr>ready_queue := rq, cur_t := ptr p\<rparr>)"
    "items (ready_queue s) \<noteq> [] \<Longrightarrow> ptr p = hd (items (ready_queue s)) \<and> 0 < ptr p"
    "items rq = tl (items (ready_queue s))"
proof -
  have nz: "0 < x" if "x \<in> set (items (ready_queue s))" for x using sim_ok_nonnull [OF ok] that by blast
  note e = dequeue_places [OF q nz d]
  show "sim_ok items ts (s\<lparr>ready_queue := rq, cur_t := ptr p\<rparr>)" using ok c e(1) by (simp add: sim_ok_def places_def ac_simps)
  show "items (ready_queue s) \<noteq> [] \<Longrightarrow> ptr p = hd (items (ready_queue s)) \<and> 0 < ptr p" "items rq = tl (items (ready_queue s))"
    using e(2,3) by blast+
qed

lemma tick_idle_ok:
  assumes q: "queue_ok ql items" and ok: "sim_ok items ts s" and c: "cur_t s = 0"
  shows "sim_ok items ts (tick_idle ql s)"
proof -
  let ?s = "if alg s = NON_PREEMPTIVE_PRIORITY then priority_sort ql s else s"
  have ok': "sim_ok items ts ?s" and c': "cur_t ?s = 0" using priority_sort_ok(1,2) [OF q ok] ok c by auto
  obtain p rq where d: "queue_dequeue ql (ready_queue ?s) = (p, rq)" by (cases "queue_dequeue ql (ready_queue ?s)")
  have "places items (tick_idle ql s) = places items (?s\<lparr>ready_queue := rq, cur_t := ptr p\<rparr>)"
    using d by (simp add: tick_idle_def Let_def places_def)
  then show ?thesis using choose_ok(1) [OF q ok' c' d] by (simp add: sim_ok_def)
qed

lemma tick_quantum_ok:
  assumes q: "queue_ok ql items" and ok: "sim_ok items ts s" and c: "cur_t s \<noteq> 0"
  shows "sim_ok items ts (tick_quantum ql s)"
proof -
  let ?rq = "queue_enqueue ql (ready_queue s) (cur_t s)"
  obtain p rq where d: "queue_dequeue ql ?rq = (p, rq)" by (cases "queue_dequeue ql ?rq")
  have nz: "0 < x" if "x \<in> set (items ?rq)" for x
    using sim_ok_nonnull [OF ok, of x] that c queue_okD(2) [OF q, of "ready_queue s" "cur_t s"] by auto
  have "places items (tick_quantum ql s) = places items s"
    using d dequeue_places(1) [OF q nz d] queue_okD(2) [OF q] c
    by (simp add: tick_quantum_def Let_def places_def ac_simps)
  then show ?thesis using ok by (simp add: sim_ok_def)
qed

lemma tick_ok:
  assumes q: "queue_ok ql items" and ok: "sim_ok items ts s"
  shows "sim_ok items ts (tick ql s)"
proof -
  define s1 where "s1 = (if alg s = PREEMPTIVE_PRIORITY then priority_sort ql s else s)"
  have ok': "sim_ok items ts s1" using priority_sort_ok(1) [OF q ok] ok by (simp add: s1_def)
  define t where "t = (if cur_t s1 = NULL then tick_idle ql s1
     else if alg s1 = ROUND_ROBIN \<and> last_on_total s1 \<ge> quant s1 \<and> queue_size ql (ready_queue s1) \<noteq> 0
     then tick_quantum ql s1 else s1)"
  have ok2: "sim_ok items ts t" using tick_idle_ok [OF q ok'] tick_quantum_ok [OF q ok'] ok' by (auto simp: t_def)
  have "tick ql s = (let s = (if cur_t t \<noteq> NULL then t\<lparr>last_on_total := last_on_total t + 1\<rparr>
               else if last_on_total t = quant t then t\<lparr>last_on_total := 0\<rparr> else t) in s\<lparr>ticks := ticks s + 1\<rparr>)"
    unfolding tick_def Let_def s1_def [symmetric] t_def [symmetric] ..
  then have "places items (tick ql s) = places items t" by (simp add: Let_def places_def del: one_simps)
  then show ?thesis using ok2 by (simp add: sim_ok_def)
qed

lemma exec_ok:
  assumes q: "queue_ok ql items" and ok: "sim_ok items ts s" and p: "p \<noteq> 0" "p \<notin> set ts"
  shows "sim_ok items (p # ts) (sys_exec ql p t s)"
proof -
  have "places items (sys_exec ql p t s) = {#p#} + places items s"
    using p queue_okD(2) [OF q] by (simp add: places_def sys_exec_def Let_def)
  then show ?thesis using ok p by (simp add: sim_ok_def)
qed

lemma exit_ok:
  assumes q: "queue_ok ql items" and ok: "sim_ok items ts s" and c: "cur_t s \<noteq> 0"
  shows "\<exists>s'. sys_exit ql s = Some s' \<and> sim_ok items ts s'"
proof -
  obtain s' where s': "sys_exit ql s = Some s'" using c by (simp add: sys_exit_def Let_def)
  then have "places items s' = places items s"
    using c queue_okD(2) [OF q] by (auto simp: sys_exit_def Let_def places_def)
  then show ?thesis using s' ok by (simp add: sim_ok_def)
qed

lemma read_ok:
  assumes q: "queue_ok ql items" and ok: "sim_ok items ts s" and c: "cur_t s \<noteq> 0"
  shows "\<exists>s'. sys_read ql s = Some s' \<and> sim_ok items ts s'" "sys_write ql s = sys_read ql s"
proof -
  show "\<exists>s'. sys_read ql s = Some s' \<and> sim_ok items ts s'"
  proof -
    obtain s' where s': "sys_read ql s = Some s'" using c by (simp add: sys_read_def Let_def)
    then have "places items s' = places items s"
      using c queue_okD(2) [OF q] by (auto simp: sys_read_def Let_def places_def split: if_splits)
    then show ?thesis using s' ok by (simp add: sim_ok_def)
  qed
  show "sys_write ql s = sys_read ql s" by (cases s) (simp add: sys_read_def sys_write_def upd_def)
qed

lemma complete_ok:
  assumes q: "queue_ok ql items" and ok: "sim_ok items ts s" and c: "io_t s \<noteq> 0"
  shows "\<exists>s'. io_complete ql s = Some s' \<and> sim_ok items ts s'"
    "io_complete ql s = Some s' \<Longrightarrow> cur_t s = 0 \<Longrightarrow> cur_t s' = hd (items (ready_queue s) @ [io_t s]) \<and> last_on_total s' = last_on_total s"
proof -
  obtain p iq where d: "queue_dequeue ql (io_queue s) = (p, iq)" by (cases "queue_dequeue ql (io_queue s)")
  define s1 where "s1 = upd (io_t s) (\<lambda>t. t\<lparr>last_on := ticks s\<rparr>) s
    \<lparr>ready_queue := queue_enqueue ql (ready_queue s) (io_t s), io_queue := iq, io_t := ptr p\<rparr>"
  have r1: "items (ready_queue s1) = items (ready_queue s) @ [io_t s]" using queue_okD(2) [OF q] by (simp add: s1_def)
  have nz: "0 < x" if "x \<in> set (items (io_queue s))" for x using sim_ok_nonnull [OF ok] that by blast
  have ok1: "sim_ok items ts s1"
    using ok dequeue_places(1) [OF q nz d] c r1 by (simp add: sim_ok_def places_def s1_def ac_simps)
  have f: "cur_t s1 = cur_t s" "last_on_total s1 = last_on_total s" by (simp_all add: s1_def)
  have *: "\<exists>s'. io_complete ql s = Some s' \<and> sim_ok items ts s' \<and>
    (cur_t s = 0 \<longrightarrow> cur_t s' = hd (items (ready_queue s) @ [io_t s]) \<and> last_on_total s' = last_on_total s)"
  proof (cases "cur_t s = 0")
    case False
    then have "io_complete ql s = Some s1" using c d by (simp add: io_complete_def s1_def Let_def)
    then show ?thesis using ok1 False by simp
  next
    case True
    obtain r rq where e: "queue_dequeue ql (ready_queue s1) = (r, rq)" by (cases "queue_dequeue ql (ready_queue s1)")
    have c1: "cur_t s1 = 0" using True f by simp
    note ch = choose_ok [OF q ok1 c1 e]
    let ?s = "s1\<lparr>ready_queue := rq, cur_t := ptr r\<rparr>"
    have r: "ptr r = hd (items (ready_queue s) @ [io_t s])" "0 < ptr r" using ch(2) r1 by (simp_all del: hd_append_single)
    have "io_complete ql s = Some (sim_dispatch (ptr r) (run_now (ptr r) ?s))"
      using c d e True r(2) by (simp add: io_complete_def s1_def Let_def)
    moreover have "sim_ok items ts (sim_dispatch (ptr r) (run_now (ptr r) ?s))" using ch(1) by (simp add: sim_ok_def places_def)
    ultimately show ?thesis using r f by simp
  qed
  then show "\<exists>s'. io_complete ql s = Some s' \<and> sim_ok items ts s'" by blast
  show "io_complete ql s = Some s' \<Longrightarrow> cur_t s = 0 \<Longrightarrow> cur_t s' = hd (items (ready_queue s) @ [io_t s]) \<and> last_on_total s' = last_on_total s"
    using * by auto
qed

lemma starting_ok: "sim_ok items ts s \<Longrightarrow> io_t s \<noteq> 0 \<Longrightarrow> \<exists>s'. io_starting s = Some s' \<and> sim_ok items ts s'"
  by (simp add: io_starting_def Let_def sim_ok_def places_def)

section \<open>Runs of the simulator\<close>

datatype event = Exec addr thread | Tick | Exit | Read | Write | Io_complete | Io_starting

fun apply_event :: "('q, addr) queue_lib \<Rightarrow> event \<Rightarrow> 'q sim \<Rightarrow> 'q sim option" where
  "apply_event ql (Exec p t) s = Some (sys_exec ql p t s)"
| "apply_event ql Tick s = Some (tick ql s)"
| "apply_event ql Exit s = sys_exit ql s"
| "apply_event ql Read s = sys_read ql s"
| "apply_event ql Write s = sys_write ql s"
| "apply_event ql Io_complete s = io_complete ql s"
| "apply_event ql Io_starting s = io_starting s"

text \<open>The simulator reports an exit or a request only of the running thread, and the start or end
  of an operation only of the thread that waits for it; memory comes from fresh cells.\<close>

fun may_happen :: "addr list \<Rightarrow> event \<Rightarrow> 'q sim \<Rightarrow> bool" where
  "may_happen ts (Exec p t) s \<longleftrightarrow> p \<noteq> NULL \<and> p \<notin> set ts"
| "may_happen ts Tick s \<longleftrightarrow> True"
| "may_happen ts Io_complete s \<longleftrightarrow> io_t s \<noteq> NULL"
| "may_happen ts Io_starting s \<longleftrightarrow> io_t s \<noteq> NULL"
| "may_happen ts _ s \<longleftrightarrow> cur_t s \<noteq> NULL"

fun new_threads :: "event \<Rightarrow> addr list" where
  "new_threads (Exec p t) = [p]"
| "new_threads _ = []"

fun run_events :: "('q, addr) queue_lib \<Rightarrow> event list \<Rightarrow> 'q sim \<Rightarrow> 'q sim option" where
  "run_events ql [] s = Some s"
| "run_events ql (e # es) s = do { s \<leftarrow> apply_event ql e s; run_events ql es s }"

fun may_run :: "('q, addr) queue_lib \<Rightarrow> addr list \<Rightarrow> event list \<Rightarrow> 'q sim \<Rightarrow> bool" where
  "may_run ql ts [] s \<longleftrightarrow> True"
| "may_run ql ts (e # es) s \<longleftrightarrow> may_happen ts e s \<and>
     (case apply_event ql e s of None \<Rightarrow> True | Some s' \<Rightarrow> may_run ql (new_threads e @ ts) es s')"

lemma apply_event_ok:
  assumes q: "queue_ok ql items" and ok: "sim_ok items ts s" and m: "may_happen ts e s"
  shows "\<exists>s'. apply_event ql e s = Some s' \<and> sim_ok items (new_threads e @ ts) s'"
  using m tick_ok [OF q ok] exec_ok [OF q ok] exit_ok [OF q ok] read_ok [OF q ok] complete_ok(1) [OF q ok] starting_ok [OF ok]
  by (cases e) simp_all

lemma run_events_ok:
  "queue_ok ql items \<Longrightarrow> sim_ok items ts s \<Longrightarrow> may_run ql ts es s \<Longrightarrow>
   \<exists>s'. run_events ql es s = Some s' \<and> sim_ok items (concat (map new_threads (rev es)) @ ts) s'"
proof (induction es arbitrary: ts s)
  case (Cons e es)
  obtain s1 where s1: "apply_event ql e s = Some s1" "sim_ok items (new_threads e @ ts) s1"
    using apply_event_ok [OF Cons.prems(1,2), of e] Cons.prems(3) by auto
  then show ?case using Cons.IH [OF Cons.prems(1) s1(2)] Cons.prems(3) by auto
qed simp

lemma scheduler_starts: "queue_ok ql items \<Longrightarrow> cur_t s = 0 \<Longrightarrow> io_t s = 0 \<Longrightarrow> sim_ok items [] (scheduler ql a n s)"
  using queue_okD(1) by (auto simp: sim_ok_def places_def scheduler_def)


definition sample_sim :: "addr list sim" where
  "sample_sim = \<lparr>heap = (\<lambda>_. \<lparr>thr = \<lparr>tid = 0, priority = 0, thread_length = 0\<rparr>, running_time = 0, waiting_time = 0, last_on = 0, beg_time = 0\<rparr>),
     ready_queue = [], io_queue = [], done_queue = [], cur_t = 0, io_t = 0, ticks = 0, last_on_total = 0, alg = 0, quant = 0,
     dispatched = []\<rparr>"

lemmas sim_exec_simps = scheduler_def sys_exec_def tick_def tick_idle_def sys_exit_def sys_read_def io_complete_def Let_def
  sample_sim_def list_queue_def NON_PREEMPTIVE_PRIORITY_def PREEMPTIVE_PRIORITY_def ROUND_ROBIN_def


section \<open>Priorities\<close>

section \<open>Priorities\<close>

lemma sort_priority_le:
  assumes "priority (thr (h a)) < 2 ^ 31" and "priority (thr (h b)) < 2 ^ 31"
  shows "sort_priority h a b \<le> 0 \<longleftrightarrow> priority (thr (h a)) \<le> priority (thr (h b))"
  using sint_diff [OF assms] by (simp add: sort_priority_def word_le_def)

abbreviation prio :: "'q sim \<Rightarrow> addr \<Rightarrow> u32" where
  "prio s p \<equiv> priority (thr (heap s p))"

lemma ready_sorted:
  assumes q: "queue_ok ql items" and small: "\<forall>p \<in> set (items (ready_queue s)). prio s p < 2 ^ 31"
  shows "sorted_wrt (\<lambda>a b. prio s a \<le> prio s b) (items (queue_sort ql (sort_priority (heap s)) (ready_queue s)))"
    (is "sorted_wrt _ (items ?q)")
proof -
  have m: "set (items ?q) = set (items (ready_queue s))" using queue_okD(7) [OF q] by (metis set_mset_mset)
  have le: "sort_priority (heap s) a b \<le> 0 \<longleftrightarrow> prio s a \<le> prio s b"
    if "a \<in> set (items (ready_queue s))" "b \<in> set (items (ready_queue s))" for a b
    using sort_priority_le small that by blast
  then have "comparator_on (set (items (ready_queue s))) (sort_priority (heap s))"
    unfolding comparator_on_def using order_trans [of "prio s _"] by (simp add: linear) blast
  then have "sorted_wrt (\<lambda>a b. sort_priority (heap s) a b \<le> 0) (items ?q)" by (rule queue_okD(8) [OF q])
  then show ?thesis by (rule sorted_wrt_mono_rel [rotated]) (use le m in blast)
qed

lemma sorted_hd: "sorted_wrt (\<lambda>a b. (f a :: u32) \<le> f b) xs \<Longrightarrow> x \<in> set xs \<Longrightarrow> f (hd xs) \<le> f x"
  by (cases xs) auto

lemma priority_sort_idle:
  "cur_t s = 0 \<Longrightarrow> priority_sort ql s = s\<lparr>ready_queue := queue_sort ql (sort_priority (heap s)) (ready_queue s)\<rparr>"
  by (simp add: priority_sort_def Let_def)

text \<open>The dispatch of the head of a sorted queue on an idle processor.\<close>

lemma tick_idle_highest:
  assumes q: "queue_ok ql items" and ok: "sim_ok items ts s" and c: "cur_t s = 0"
    and sorted: "sorted_wrt (\<lambda>a b. prio s a \<le> prio s b) (items (ready_queue (if alg s = NON_PREEMPTIVE_PRIORITY then priority_sort ql s else s)))"
  shows "(cur_t (tick_idle ql s) = 0 \<longrightarrow> items (ready_queue (tick_idle ql s)) = []) \<and>
    (\<forall>p \<in> set (items (ready_queue (tick_idle ql s))). prio s (cur_t (tick_idle ql s)) \<le> prio s p)"
proof -
  define s1 where "s1 = (if alg s = NON_PREEMPTIVE_PRIORITY then priority_sort ql s else s)"
  have ok1: "sim_ok items ts s1" "cur_t s1 = 0" using priority_sort_ok(1,2) [OF q ok] ok c by (auto simp: s1_def)
  obtain p rq where d: "queue_dequeue ql (ready_queue s1) = (p, rq)" by (cases "queue_dequeue ql (ready_queue s1)")
  have e: "ready_queue (tick_idle ql s) = rq" "cur_t (tick_idle ql s) = ptr p"
    using d by (simp_all add: tick_idle_def Let_def s1_def [symmetric])
  note ch = choose_ok [OF q ok1 d]
  have so: "sorted_wrt (\<lambda>a b. prio s a \<le> prio s b) (items (ready_queue s1))" using sorted by (simp add: s1_def)
  show ?thesis
  proof (cases "items (ready_queue s1) = []")
    case True then show ?thesis using ch(3) e by simp
  next
    case False
    then show ?thesis using ch(2,3) e sorted_hd [OF so] tl_subset [of _ "items (ready_queue s1)"] by auto
  qed
qed

lemma priority_sort_highest:
  assumes q: "queue_ok ql items" and ok: "sim_ok items ts s" and c: "cur_t s \<noteq> 0" and a: "alg s = PREEMPTIVE_PRIORITY"
    and small: "\<forall>p \<in> set ts. prio s p < 2 ^ 31"
  shows "\<forall>p \<in> set (items (ready_queue (priority_sort ql s))). prio s (cur_t (priority_sort ql s)) \<le> prio s p"
proof -
  let ?s = "s\<lparr>ready_queue := queue_sort ql (sort_priority (heap s)) (ready_queue s)\<rparr>"
  have "set (items (ready_queue s)) \<subseteq> set ts"
    using ok unfolding sim_ok_def places_def by (metis (no_types, lifting) Un_iff set_mset_mset set_mset_union subsetI)
  then have so: "sorted_wrt (\<lambda>a b. prio s a \<le> prio s b) (items (ready_queue ?s))"
    using ready_sorted [OF q, of s] small by auto
  have ok': "sim_ok items ts ?s" using ok queue_okD(7) [OF q] by (simp add: sim_ok_def places_def)
  have hd: "ptr (queue_head ql (ready_queue ?s)) = (if items (ready_queue ?s) = [] then 0 else hd (items (ready_queue ?s)))"
    using queue_okD(5) [OF q, of "ready_queue ?s"] by (cases "items (ready_queue ?s)") auto
  show ?thesis
  proof (cases "alg s = PREEMPTIVE_PRIORITY \<and> cur_t s \<noteq> NULL \<and> ptr (queue_head ql (ready_queue ?s)) \<noteq> NULL \<and>
      prio s (ptr (queue_head ql (ready_queue ?s))) < prio s (cur_t s)")
    case False
    then have e: "priority_sort ql s = ?s" by (auto simp: priority_sort_def Let_def)
    have "prio s (cur_t s) \<le> prio s p" if p: "p \<in> set (items (ready_queue ?s))" for p
    proof -
      have "0 < hd (items (ready_queue ?s))" using p sim_ok_nonnull [OF ok'] by (metis hd_in_set list.set_cases list.distinct(1))
      moreover have "items (ready_queue ?s) \<noteq> []" using p by auto
      ultimately have "prio s (cur_t s) \<le> prio s (hd (items (ready_queue ?s)))" using False a c hd by (simp add: not_less)
      then show ?thesis using sorted_hd [OF so p] by simp
    qed
    then show ?thesis using e by simp
  next
    case True
    obtain p rq where d: "queue_dequeue ql (ready_queue ?s) = (p, rq)" by (cases "queue_dequeue ql (ready_queue ?s)")
    have nz: "0 < x" if "x \<in> set (items (ready_queue ?s))" for x using sim_ok_nonnull [OF ok'] that by blast
    have ne: "items (ready_queue ?s) \<noteq> []" using True hd by auto
    note e = dequeue_places [OF q nz d]
    have r: "cur_t (priority_sort ql s) = hd (items (ready_queue ?s))"
      "items (ready_queue (priority_sort ql s)) = tl (items (ready_queue ?s)) @ [cur_t s]"
      using True d e(2,3) ne queue_okD(2) [OF q] by (simp_all add: priority_sort_def Let_def)
    have "prio s (hd (items (ready_queue ?s))) \<le> prio s x" if "x \<in> set (tl (items (ready_queue ?s)) @ [cur_t s])" for x
      using that sorted_hd [OF so] True hd ne tl_subset by fastforce
    then show ?thesis using r by simp
  qed
qed

text \<open>With preemptive priorities every tick, and with non-preemptive ones each tick that finds
  the processor idle, leaves a thread running whose priority no ready thread beats, unless no
  thread is ready. The end of an operation on an idle processor, in contrast, dispatches the head
  of the unsorted queue under every algorithm, and does not start a new quantum.\<close>

theorem tick_runs_highest:
  assumes "queue_ok ql items" and "sim_ok items ts s"
    and "\<forall>p \<in> set ts. priority (thr (heap s p)) < 2 ^ 31"
  shows "(alg s = PREEMPTIVE_PRIORITY \<or> alg s = NON_PREEMPTIVE_PRIORITY \<and> cur_t s = NULL \<longrightarrow> (let s' = tick ql s in
      if cur_t s' = NULL then items (ready_queue s') = []
      else \<forall>p \<in> set (items (ready_queue s')). priority (thr (heap s (cur_t s'))) \<le> priority (thr (heap s p)))) \<and>
    (io_t s \<noteq> NULL \<and> cur_t s = NULL \<longrightarrow> (\<exists>s'. io_complete ql s = Some s' \<and>
      cur_t s' = hd (items (ready_queue s) @ [io_t s]) \<and> last_on_total s' = last_on_total s))"
proof (intro conjI impI)
  show "\<exists>s'. io_complete ql s = Some s' \<and> cur_t s' = hd (items (ready_queue s) @ [io_t s]) \<and> last_on_total s' = last_on_total s"
    if "io_t s \<noteq> NULL \<and> cur_t s = NULL" using complete_ok [OF assms(1,2)] that by blast
  define s' where "s' = tick ql s"
  assume a: "alg s = PREEMPTIVE_PRIORITY \<or> alg s = NON_PREEMPTIVE_PRIORITY \<and> cur_t s = NULL"
  define s1 where "s1 = (if alg s = PREEMPTIVE_PRIORITY then priority_sort ql s else s)"
  define t where "t = (if cur_t s1 = 0 then tick_idle ql s1 else s1)"
  have ps: "\<forall>p. prio s1 p = prio s p" "alg s1 = alg s" "(cur_t s1 = 0) = (cur_t s = 0)" "sim_ok items ts s1"
    using priority_sort_ok [OF assms(1,2)] assms(2) by (auto simp: s1_def)
  have sub: "set (items (ready_queue s)) \<subseteq> set ts"
    using assms(2) unfolding sim_ok_def places_def by (metis (no_types, lifting) Un_iff set_mset_mset set_mset_union subsetI)
  have e: "cur_t s' = cur_t t" "ready_queue s' = ready_queue t"
    using a ps(2) unfolding s'_def tick_def Let_def s1_def [symmetric] t_def
    by (auto simp: ROUND_ROBIN_def PREEMPTIVE_PRIORITY_def NON_PREEMPTIVE_PRIORITY_def)
  have "(cur_t t = 0 \<longrightarrow> items (ready_queue t) = []) \<and> (\<forall>p \<in> set (items (ready_queue t)). prio s (cur_t t) \<le> prio s p)"
  proof (cases "cur_t s1 = 0")
    case True
    then have "sorted_wrt (\<lambda>a b. prio s a \<le> prio s b)
        (items (ready_queue (if alg s1 = NON_PREEMPTIVE_PRIORITY then priority_sort ql s1 else s1)))"
      using a ps(2,3) sub ready_sorted [OF assms(1), of s] assms(3)
      by (auto simp: s1_def priority_sort_idle PREEMPTIVE_PRIORITY_def NON_PREEMPTIVE_PRIORITY_def)
    then show ?thesis using tick_idle_highest [OF assms(1) ps(4) True] True ps(1) by (simp add: t_def)
  next
    case False
    then show ?thesis using priority_sort_highest [OF assms(1,2)] assms(3) a ps(3) by (auto simp: t_def s1_def)
  qed
  then have "if cur_t s' = NULL then items (ready_queue s') = []
      else \<forall>p \<in> set (items (ready_queue s')). prio s (cur_t s') \<le> prio s p" using e by simp
  then show "let s' = tick ql s in if cur_t s' = NULL then items (ready_queue s') = []
      else \<forall>p \<in> set (items (ready_queue s')). prio s (cur_t s') \<le> prio s p" unfolding Let_def s'_def .
qed

definition priority_sim :: "addr list sim" where
  "priority_sim = sys_exec list_queue 20 \<lparr>tid = 2, priority = 1, thread_length = 0\<rparr> (sys_exec list_queue 10 \<lparr>tid = 1, priority = 5, thread_length = 0\<rparr>
     (scheduler list_queue PREEMPTIVE_PRIORITY 0 sample_sim))"

theorem tick_runs_highest_witness:
  "sim_ok (\<lambda>q. q) [10, 20] priority_sim \<and> (let s' = tick list_queue priority_sim in
     if cur_t s' = 0 then ready_queue s' = []
     else \<forall>p \<in> set (ready_queue s'). priority (thr (heap priority_sim (cur_t s'))) \<le> priority (thr (heap priority_sim p)))"
proof -
  have ok: "sim_ok (\<lambda>q. q) [10, 20] priority_sim"
    by (simp add: sim_ok_def places_def priority_sim_def sim_exec_simps add_mset_commute)
  have small: "\<forall>p \<in> set [10, 20]. priority (thr (heap priority_sim p)) < 2 ^ 31"
    by (simp add: priority_sim_def sim_exec_simps)
  have a: "alg priority_sim = PREEMPTIVE_PRIORITY" by (simp add: priority_sim_def sim_exec_simps)
  show ?thesis using tick_runs_highest [OF list_queue_ok ok small] ok a by blast
qed

end
