(* ===== verification/Pager.thy ===== *)
theory Pager
  imports Queue
begin

text \<open>
  The page replacement of the fifth assignment, \<^verbatim>\<open>Assignment5/pager.c\<close>. The queue holds
  page numbers, cast to pointers, or for the frequency algorithm pointers to
  \<^verbatim>\<open>struct freq_page\<close> cells; \<open>ql\<close> is the queue library. The pages that the pager asks the
  simulator for are recorded in \<open>got\<close>. \<open>None\<close> is an access outside of one of the arrays
  \<^verbatim>\<open>bit_refs\<close> and \<^verbatim>\<open>freq_list\<close>, which have a million elements, a null pointer that is
  followed, or a loop that does not end. The two arrays come from \<^verbatim>\<open>malloc\<close>, so what they
  hold at first is an argument of \<open>pager_init\<close>.
\<close>

section \<open>State\<close>

definition FIRST_IN_FIRST_OUT :: nat where "FIRST_IN_FIRST_OUT = 0"
definition LEAST_RECENTLY_USED :: nat where "LEAST_RECENTLY_USED = 1"
definition LEAST_FREQUENTLY_USED :: nat where "LEAST_FREQUENTLY_USED = 2"
definition SECOND_CHANCE :: nat where "SECOND_CHANCE = 3"
definition CIRCULAR_QUEUE :: nat where "CIRCULAR_QUEUE = 4"

record freq_page =
  uses :: u32
  page_no :: u32
  last_use :: u32

record 'q pager =
  max_size :: int
  alg :: nat
  queue :: 'q
  freq_list :: "nat \<Rightarrow> int"
  step :: int
  bit_refs :: "nat \<Rightarrow> int"
  freq_heap :: "addr \<Rightarrow> freq_page"
  got :: "u32 list"
  printed :: "freq_page list"

definition ARRAY_SIZE :: nat where "ARRAY_SIZE = 1000000"

definition in_array :: "u32 \<Rightarrow> bool" where
  "in_array p \<longleftrightarrow> unat p < ARRAY_SIZE"

text \<open>\<^verbatim>\<open>(char *) ((long) v)\<close> and back.\<close>

definition to_ptr :: "u32 \<Rightarrow> addr" where "to_ptr v = unat v"
definition of_ptr :: "addr \<Rightarrow> u32" where "of_ptr p = of_nat p"

definition pager_init :: "('q, addr) queue_lib \<Rightarrow> nat \<Rightarrow> u32 \<Rightarrow> (nat \<Rightarrow> int) \<Rightarrow> 'q pager \<Rightarrow> 'q pager" where
  "pager_init ql algorithm frames memory s =
     (let s = s\<lparr>max_size := sint frames, alg := algorithm, queue := queue_create ql\<rparr>;
          s = (if algorithm = 4 \<or> algorithm = 3 then s\<lparr>bit_refs := memory\<rparr> else s) in
      if algorithm = 2 then s\<lparr>freq_list := memory\<rparr> else s)"

section \<open>Looking for a page\<close>

text \<open>The second loop of each search moves the items back.\<close>

partial_function (option) move_back :: "('q, addr) queue_lib \<Rightarrow> 'q \<Rightarrow> 'q \<Rightarrow> 'q option" where
  "move_back ql temp_queue q =
     (if queue_size ql temp_queue > 0
      then (let (v, temp_queue) = queue_dequeue ql temp_queue in move_back ql temp_queue (queue_enqueue ql q (ptr v)))
      else Some q)"

partial_function (option) find_loop ::
    "('q, addr) queue_lib \<Rightarrow> u32 \<Rightarrow> 'q \<Rightarrow> 'q \<Rightarrow> bool \<Rightarrow> 'q pager \<Rightarrow> ('q \<times> 'q \<times> bool \<times> 'q pager) option" where
  "find_loop ql val q temp_queue flag s =
     (if queue_size ql q > 0
      then (let (v, q) = queue_dequeue ql q; v = of_ptr (ptr v) in
        if v \<noteq> val then find_loop ql val q (queue_enqueue ql temp_queue (to_ptr v)) flag s
        else do {
          let temp_queue = (if alg s \<noteq> 1 then queue_enqueue ql temp_queue (to_ptr v) else temp_queue);
          kassert (alg s = 3 \<or> alg s = 4 \<longrightarrow> in_array val);
          let s = (if alg s = 3 then s\<lparr>bit_refs := (bit_refs s)(unat val := 1)\<rparr> else s);
          let s = (if alg s = 4 then s\<lparr>bit_refs := (bit_refs s)(unat val := 0)\<rparr> else s);
          find_loop ql val q temp_queue True s })
      else Some (q, temp_queue, flag, s))"

definition pager_find_elem :: "('q, addr) queue_lib \<Rightarrow> u32 \<Rightarrow> 'q pager \<Rightarrow> (bool \<times> 'q pager) option" where
  "pager_find_elem ql val s = do {
     (q, temp_queue, flag, s) \<leftarrow> find_loop ql val (queue s) (queue_create ql) False s;
     q \<leftarrow> move_back ql temp_queue q;
     Some (flag, s\<lparr>queue := q\<rparr>) }"

partial_function (option) find_freq_loop ::
    "('q, addr) queue_lib \<Rightarrow> u32 \<Rightarrow> 'q \<Rightarrow> 'q \<Rightarrow> bool \<Rightarrow> 'q pager \<Rightarrow> ('q \<times> 'q \<times> bool \<times> 'q pager) option" where
  "find_freq_loop ql val q temp_queue flag s =
     (if queue_size ql q > 0
      then (let (v, q) = queue_dequeue ql q; v = ptr v in
        if page_no (freq_heap s v) \<noteq> val then find_freq_loop ql val q (queue_enqueue ql temp_queue v) flag s
        else (let s = s\<lparr>freq_heap := (freq_heap s)(v := (freq_heap s v)\<lparr>uses := uses (freq_heap s v) + 1, last_use := of_int (step s)\<rparr>)\<rparr>
          in find_freq_loop ql val q (queue_enqueue ql temp_queue v) True s))
      else Some (q, temp_queue, flag, s))"

definition find_elem_freq :: "('q, addr) queue_lib \<Rightarrow> u32 \<Rightarrow> 'q pager \<Rightarrow> (bool \<times> 'q pager) option" where
  "find_elem_freq ql val s = do {
     (q, temp_queue, flag, s) \<leftarrow> find_freq_loop ql val (queue s) (queue_create ql) False s;
     q \<leftarrow> move_back ql temp_queue q;
     Some (flag, s\<lparr>queue := q\<rparr>) }"

section \<open>A request\<close>

definition sim_get_page :: "u32 \<Rightarrow> 'q pager \<Rightarrow> 'q pager" where
  "sim_get_page p s = s\<lparr>got := got s @ [p]\<rparr>"

text \<open>The loops that pass over pages with a second chance: those whose bit is \<open>keep\<close>.\<close>

partial_function (option) chance_loop :: "('q, addr) queue_lib \<Rightarrow> int \<Rightarrow> int \<Rightarrow> u32 \<Rightarrow> 'q pager \<Rightarrow> 'q pager option" where
  "chance_loop ql keep new temp s = do {
     kassert (in_array temp);
     if bit_refs s (unat temp) = keep
     then (let s = s\<lparr>bit_refs := (bit_refs s)(unat temp := new), queue := queue_enqueue ql (queue s) (to_ptr temp)\<rparr>;
               (t, q) = queue_dequeue ql (queue s) in
           chance_loop ql keep new (of_ptr (ptr t)) (s\<lparr>queue := q\<rparr>))
     else Some s }"

definition evict_chance :: "('q, addr) queue_lib \<Rightarrow> int \<Rightarrow> int \<Rightarrow> 'q pager \<Rightarrow> 'q pager option" where
  "evict_chance ql keep new s =
     (let (t, q) = queue_dequeue ql (queue s) in chance_loop ql keep new (of_ptr (ptr t)) (s\<lparr>queue := q\<rparr>))"

text \<open>The comparator of the frequency queue.\<close>

definition sort_freq :: "(addr \<Rightarrow> freq_page) \<Rightarrow> addr \<Rightarrow> addr \<Rightarrow> int" where
  "sort_freq h a b =
     (let x = sint (uses (h a) - uses (h b)) in
      if x = 0 then sint (last_use (h a) - last_use (h b)) else x)"

partial_function (option) print_loop :: "('q, addr) queue_lib \<Rightarrow> 'q \<Rightarrow> 'q \<Rightarrow> 'q pager \<Rightarrow> ('q \<times> 'q \<times> 'q pager) option" where
  "print_loop ql q temp s =
     (if queue_size ql q > 0
      then (let (v, q) = queue_dequeue ql q; s = s\<lparr>printed := printed s @ [freq_heap s (ptr v)]\<rparr> in
        print_loop ql q (queue_enqueue ql temp (ptr v)) s)
      else Some (q, temp, s))"

definition print_sorted :: "('q, addr) queue_lib \<Rightarrow> 'q pager \<Rightarrow> 'q pager option" where
  "print_sorted ql s = do {
     (q, temp, s) \<leftarrow> print_loop ql (queue s) (queue_create ql) s;
     q \<leftarrow> move_back ql temp q;
     Some (s\<lparr>queue := q\<rparr>) }"

text \<open>The queue algorithms: 0, 1, 3 and 4.\<close>

definition request_queue :: "('q, addr) queue_lib \<Rightarrow> u32 \<Rightarrow> 'q pager \<Rightarrow> 'q pager option" where
  "request_queue ql page s = do {
     (found, s) \<leftarrow> pager_find_elem ql page s;
     if found
     then Some (if alg s = 1 then s\<lparr>queue := queue_enqueue ql (queue s) (to_ptr page)\<rparr> else s)
     else do {
       let s = sim_get_page page s;
       s \<leftarrow> (if int (queue_size ql (queue s)) = max_size s
            then (if alg s = 3 then evict_chance ql 1 0 s
                  else if alg s = 4 then evict_chance ql 0 1 s
                  else Some (s\<lparr>queue := snd (queue_dequeue ql (queue s))\<rparr>))
            else Some s);
       Some (s\<lparr>queue := queue_enqueue ql (queue s) (to_ptr page)\<rparr>) } }"

text \<open>The frequency algorithm; \<open>p\<close> is what \<^verbatim>\<open>malloc\<close> returns.\<close>

definition request_freq :: "('q, addr) queue_lib \<Rightarrow> addr \<Rightarrow> u32 \<Rightarrow> 'q pager \<Rightarrow> 'q pager option" where
  "request_freq ql p page s = do {
     kassert (in_array page);
     let s = s\<lparr>freq_list := (freq_list s)(unat page := freq_list s (unat page) + 1)\<rparr>;
     (found, s) \<leftarrow> find_elem_freq ql page s;
     s \<leftarrow> (if found then Some s
          else do {
            let s = sim_get_page page s;
            kassert (p \<noteq> NULL);
            let s = s\<lparr>freq_heap := (freq_heap s)(p := \<lparr>uses = of_int (freq_list s (unat page)), page_no = page, last_use = of_int (step s)\<rparr>)\<rparr>;
            if int (queue_size ql (queue s)) = max_size s
            then do {
              let t = ptr (queue_head ql (queue s));
              let s = s\<lparr>queue := snd (queue_dequeue ql (queue s))\<rparr>;
              kassert (t \<noteq> NULL \<and> in_array (page_no (freq_heap s t)));
              let s = s\<lparr>freq_list := (freq_list s)(unat (page_no (freq_heap s t)) := 0)\<rparr>;
              Some (s\<lparr>queue := queue_enqueue ql (queue s) p\<rparr>) }
            else Some (s\<lparr>queue := queue_enqueue ql (queue s) p\<rparr>) });
     let s = s\<lparr>queue := queue_sort ql (sort_freq (freq_heap s)) (queue s)\<rparr>;
     print_sorted ql s }"

definition pager_request :: "('q, addr) queue_lib \<Rightarrow> addr \<Rightarrow> u32 \<Rightarrow> 'q pager \<Rightarrow> 'q pager option" where
  "pager_request ql p page s = do {
     kassert (alg s = 4 \<longrightarrow> in_array page);
     let s = (if alg s = 4 then s\<lparr>bit_refs := (bit_refs s)(unat page := 0)\<rparr> else s);
     s \<leftarrow> (if alg s \<noteq> 2 then request_queue ql page s else request_freq ql p page s);
     Some (s\<lparr>step := step s + 1\<rparr>) }"

text \<open>\<^verbatim>\<open>pager_destroy\<close>, by the cells of the frequency queue that it frees.\<close>

partial_function (option) free_loop :: "('q, addr) queue_lib \<Rightarrow> 'q \<Rightarrow> addr list option" where
  "free_loop ql q =
     (if queue_size ql q > 0
      then (let (t, q) = queue_dequeue ql q in do { ts \<leftarrow> free_loop ql q; Some (ptr t # ts) })
      else Some [])"

definition pager_destroy :: "('q, addr) queue_lib \<Rightarrow> 'q pager \<Rightarrow> addr list option" where
  "pager_destroy ql s = (if alg s = 2 then free_loop ql (queue s) else Some [])"

text \<open>A run of requests, each with the address of a fresh cell.\<close>

fun requests :: "('q, addr) queue_lib \<Rightarrow> (addr \<times> u32) list \<Rightarrow> 'q pager \<Rightarrow> 'q pager option" where
  "requests ql [] s = Some s"
| "requests ql ((p, page) # rs) s = do { s \<leftarrow> pager_request ql p page s; requests ql rs s }"

section \<open>The loops end\<close>

lemma queue_Cons:
  assumes "queue_ok ql items" and "items q = x # xs"
  obtains q' where "queue_dequeue ql q = (Some x, q')" "items q' = xs" "0 < queue_size ql q"
  using dequeue_Cons [OF assms] queue_okD(6) [OF assms(1), of q] assms(2) that by auto

lemma of_ptr_to_ptr [simp]: "of_ptr (to_ptr v) = v"
  by (simp add: of_ptr_def to_ptr_def)

lemma queue_Nil: "queue_ok ql items \<Longrightarrow> items q = [] \<Longrightarrow> queue_size ql q = 0"
  using queue_okD(6) [of ql items q] by simp

lemma move_back_ok:
  assumes q: "queue_ok ql items"
  shows "items t = xs \<Longrightarrow> \<exists>r'. move_back ql t r = Some r' \<and> items r' = items r @ xs"
proof (induction xs arbitrary: t r)
  case Nil
  then show ?case using queue_Nil [OF q] by (subst move_back.simps) auto
next
  case (Cons x xs)
  obtain t' where t': "queue_dequeue ql t = (Some x, t')" "items t' = xs" "0 < queue_size ql t" by (rule queue_Cons [OF q Cons.prems])
  from Cons.IH [OF t'(2), of "queue_enqueue ql r x"] show ?case
    using t' queue_okD(2) [OF q] by (subst move_back.simps) simp
qed

text \<open>What a search does to the reference bit of the page it finds.\<close>

definition touch :: "nat \<Rightarrow> u32 \<Rightarrow> (nat \<Rightarrow> int) \<Rightarrow> nat \<Rightarrow> int" where
  "touch a val refs = (if a = 3 then refs(unat val := 1) else if a = 4 then refs(unat val := 0) else refs)"

lemma touch_touch [simp]: "touch a val (touch a val refs) = touch a val refs"
  by (simp add: touch_def)

lemma find_loop_ok:
  assumes q: "queue_ok ql items"
  shows "items r = map to_ptr ps \<Longrightarrow> alg s = 3 \<or> alg s = 4 \<longrightarrow> in_array val \<Longrightarrow>
    \<exists>r' t'. find_loop ql val r t flag s = Some (r', t', flag \<or> val \<in> set ps,
        if val \<in> set ps then s\<lparr>bit_refs := touch (alg s) val (bit_refs s)\<rparr> else s) \<and>
      items r' = [] \<and> items t' = items t @ map to_ptr (if alg s = 1 then filter (\<lambda>v. v \<noteq> val) ps else ps)"
proof (induction ps arbitrary: r t flag s)
  case Nil
  then show ?case using queue_Nil [OF q] by (subst find_loop.simps) auto
next
  case (Cons v ps)
  obtain r' where r': "queue_dequeue ql r = (Some (to_ptr v), r')" "items r' = map to_ptr ps" "0 < queue_size ql r"
    using queue_Cons [OF q] Cons.prems(1) by (metis list.simps(9))
  show ?case
  proof (cases "v = val")
    case False
    then show ?thesis using Cons.IH [OF r'(2) Cons.prems(2), of "queue_enqueue ql t (to_ptr v)" flag] r' queue_okD(2) [OF q]
      by (subst find_loop.simps) auto
  next
    case True
    let ?s = "s\<lparr>bit_refs := touch (alg s) val (bit_refs s)\<rparr>"
    let ?t = "if alg s \<noteq> 1 then queue_enqueue ql t (to_ptr v) else t"
    have "find_loop ql val r t flag s = find_loop ql val r' ?t True ?s"
      using True r' Cons.prems(2) by (subst find_loop.simps) (simp add: touch_def)
    moreover have "alg ?s = alg s" by simp
    ultimately show ?thesis using Cons.IH [OF r'(2), of ?s ?t True] Cons.prems(2) True queue_okD(2) [OF q] by auto
  qed
qed

lemma pager_find_elem_ok:
  assumes q: "queue_ok ql items" and "items (queue s) = map to_ptr ps" and "alg s = 3 \<or> alg s = 4 \<longrightarrow> in_array val"
  shows "\<exists>r. pager_find_elem ql val s = Some (val \<in> set ps,
      (if val \<in> set ps then s\<lparr>bit_refs := touch (alg s) val (bit_refs s)\<rparr> else s)\<lparr>queue := r\<rparr>) \<and>
    items r = map to_ptr (if alg s = 1 then filter (\<lambda>v. v \<noteq> val) ps else ps)"
proof -
  obtain r' t' where l: "find_loop ql val (queue s) (queue_create ql) False s = Some (r', t', val \<in> set ps,
        if val \<in> set ps then s\<lparr>bit_refs := touch (alg s) val (bit_refs s)\<rparr> else s)"
      "items r' = []" "items t' = map to_ptr (if alg s = 1 then filter (\<lambda>v. v \<noteq> val) ps else ps)"
    using find_loop_ok [OF q assms(2,3), of "queue_create ql" False] queue_okD(1) [OF q] by auto
  obtain r where r: "move_back ql t' r' = Some r" "items r = items t'"
    using move_back_ok [OF q l(3), of r'] l(2,3) by auto
  show ?thesis using l r by (intro exI [of _ r]) (simp add: pager_find_elem_def)
qed

lemma chance_loop_found:
  assumes q: "queue_ok ql items" and kn: "keep \<noteq> new"
  shows "t # ps = xs @ e # ys \<Longrightarrow> items (queue s) = map to_ptr ps \<Longrightarrow> distinct (t # ps) \<Longrightarrow> \<forall>x \<in> set (t # ps). in_array x \<Longrightarrow>
    \<forall>x \<in> set xs. bit_refs s (unat x) = keep \<Longrightarrow> bit_refs s (unat e) \<noteq> keep \<Longrightarrow>
    \<exists>r. chance_loop ql keep new t s =
        Some (s\<lparr>bit_refs := (\<lambda>n. if n \<in> unat ` set xs then new else bit_refs s n), queue := r\<rparr>) \<and> items r = map to_ptr (ys @ xs)"
proof (induction xs arbitrary: t ps ys s)
  case Nil
  then show ?case by (subst chance_loop.simps) (auto intro!: exI [of _ "queue s"])
next
  case (Cons x xs)
  have t: "t = x" "ps = xs @ e # ys" using Cons.prems(1) by auto
  obtain t' ps' where n: "ps @ [x] = t' # ps'" by (cases "ps @ [x]") auto
  let ?q = "queue_enqueue ql (queue s) (to_ptr x)"
  have "items ?q = to_ptr t' # map to_ptr ps'"
    using queue_okD(2) [OF q] Cons.prems(2) n by (metis list.simps(8,9) map_append)
  then obtain r' where r': "queue_dequeue ql ?q = (Some (to_ptr t'), r')" "items r' = map to_ptr ps'" by (rule queue_Cons [OF q])
  define s' where "s' = s\<lparr>bit_refs := (bit_refs s)(unat x := new), queue := r'\<rparr>"
  have step: "chance_loop ql keep new t s = chance_loop ql keep new t' s'"
    using t r' Cons.prems(4,5) by (subst chance_loop.simps) (simp add: s'_def)
  have nx: "x \<notin> set xs" "x \<noteq> e" using Cons.prems(1,3) t by auto
  have "\<exists>r. chance_loop ql keep new t' s' =
      Some (s'\<lparr>bit_refs := (\<lambda>n. if n \<in> unat ` set xs then new else bit_refs s' n), queue := r\<rparr>) \<and> items r = map to_ptr ((ys @ [x]) @ xs)" (is "\<exists>r. ?P r")
  proof (rule Cons.IH)
    show "t' # ps' = xs @ e # ys @ [x]" using n t by simp
    show "items (queue s') = map to_ptr ps'" using r' by (simp add: s'_def)
    have "mset (t' # ps') = mset (t # ps)" using n t by (metis mset.simps(2) mset_append union_mset_add_mset_right add.right_neutral mset.simps(1))
    then show "distinct (t' # ps')" "\<forall>x \<in> set (t' # ps'). in_array x"
      using Cons.prems(3,4) by (metis mset_eq_imp_distinct_iff, metis mset_eq_setD)
    show "\<forall>x \<in> set xs. bit_refs s' (unat x) = keep" "bit_refs s' (unat e) \<noteq> keep"
      using Cons.prems(5,6) nx by (auto simp: s'_def simp flip: word_unat_eq_iff)
  qed
  then obtain r where r: "?P r" by blast
  have "(\<lambda>n. if n \<in> unat ` set xs then new else bit_refs s' n) = (\<lambda>n. if n \<in> unat ` set (x # xs) then new else bit_refs s n)"
    by (auto simp: s'_def fun_eq_iff)
  then show ?case unfolding step using r by (intro exI [of _ r]) (simp add: s'_def)
qed

text \<open>The policy of the two algorithms: the first page in queue order whose bit is not \<open>keep\<close>
  goes, or the oldest if there is none; the pages passed over move behind the others.\<close>

definition second_chance :: "(u32 \<Rightarrow> bool) \<Rightarrow> u32 list \<Rightarrow> u32 list" where
  "second_chance kept ps = (case dropWhile kept ps of [] \<Rightarrow> tl ps | e # ys \<Rightarrow> ys @ takeWhile kept ps)"

lemma evict_chance_ok:
  assumes q: "queue_ok ql items" and kn: "keep \<noteq> new" and i: "items (queue s) = map to_ptr ps" and ne: "ps \<noteq> []"
    and d: "distinct ps" and a: "\<forall>x \<in> set ps. in_array x"
  shows "\<exists>r refs. evict_chance ql keep new s = Some (s\<lparr>bit_refs := refs, queue := r\<rparr>) \<and>
      items r = map to_ptr (second_chance (\<lambda>x. bit_refs s (unat x) = keep) ps)"
proof -
  let ?kept = "\<lambda>x. bit_refs s (unat x) = keep"
  obtain t ps' where ps: "ps = t # ps'" using ne by (cases ps) auto
  obtain r where r: "queue_dequeue ql (queue s) = (Some (to_ptr t), r)" "items r = map to_ptr ps'"
    using queue_Cons [OF q] i ps by (metis list.simps(9))
  have e: "evict_chance ql keep new s = chance_loop ql keep new t (s\<lparr>queue := r\<rparr>)" using r by (simp add: evict_chance_def)
  show ?thesis
  proof (cases "dropWhile ?kept ps")
    case (Cons v ys)
    have sp: "t # ps' = takeWhile ?kept ps @ v # ys" using Cons ps by (metis takeWhile_dropWhile_id)
    have k: "\<forall>x \<in> set (takeWhile ?kept ps). bit_refs (s\<lparr>queue := r\<rparr>) (unat x) = keep"
      using set_takeWhileD [of _ ?kept ps] by simp
    have nk: "bit_refs (s\<lparr>queue := r\<rparr>) (unat v) \<noteq> keep" using hd_dropWhile [of ?kept ps] unfolding Cons by simp
    have "items (queue (s\<lparr>queue := r\<rparr>)) = map to_ptr ps'" using r by simp
    from chance_loop_found [OF q kn sp this d [unfolded ps] a [unfolded ps] k nk] show ?thesis
      unfolding e second_chance_def Cons by auto
  next
    case Nil
    then have all: "\<forall>x \<in> set ps. ?kept x" by simp
    obtain t' ps2 where n: "ps' @ [t] = t' # ps2" by (cases "ps' @ [t]") auto
    let ?q = "queue_enqueue ql r (to_ptr t)"
    have "items ?q = to_ptr t' # map to_ptr ps2"
      using queue_okD(2) [OF q] r n by (metis list.simps(8,9) map_append)
    then obtain r' where r': "queue_dequeue ql ?q = (Some (to_ptr t'), r')" "items r' = map to_ptr ps2" by (rule queue_Cons [OF q])
    define s' where "s' = s\<lparr>bit_refs := (bit_refs s)(unat t := new), queue := r'\<rparr>"
    have step: "evict_chance ql keep new s = chance_loop ql keep new t' s'"
      using all ps a r' e by (subst (asm) chance_loop.simps) (simp add: s'_def)
    have "mset (t' # ps2) = mset ps" using n ps by (metis add_mset_add_single mset.simps(2) mset_append mset_single_iff_right mset.simps(1))
    then have "distinct (t' # ps2)" "\<forall>x \<in> set (t' # ps2). in_array x"
      using d a by (metis mset_eq_imp_distinct_iff, metis mset_eq_setD)
    moreover have "\<forall>x \<in> set ps'. bit_refs s' (unat x) = keep" "bit_refs s' (unat t) \<noteq> keep"
      using all d ps kn by (auto simp: s'_def simp flip: word_unat_eq_iff)
    moreover have "t' # ps2 = ps' @ t # []" using n by simp
    moreover have "items (queue s') = map to_ptr ps2" using r' by (simp add: s'_def)
    ultimately have "\<exists>r. chance_loop ql keep new t' s' =
        Some (s'\<lparr>bit_refs := (\<lambda>n. if n \<in> unat ` set ps' then new else bit_refs s' n), queue := r\<rparr>) \<and> items r = map to_ptr ([] @ ps')"
      by (intro chance_loop_found [OF q kn])
    then show ?thesis using step Nil ps by (auto simp: second_chance_def s'_def)
  qed
qed

section \<open>The policies\<close>

text \<open>The pages in memory after a request, in the order of the queue.\<close>

definition next_pages :: "nat \<Rightarrow> nat \<Rightarrow> (nat \<Rightarrow> int) \<Rightarrow> u32 \<Rightarrow> u32 list \<Rightarrow> u32 list" where
  "next_pages a n refs page ps =
     (if page \<in> set ps then (if a = LEAST_RECENTLY_USED then filter (\<lambda>v. v \<noteq> page) ps @ [page] else ps)
      else if length ps < n then ps @ [page]
      else if a = SECOND_CHANCE then second_chance (\<lambda>x. refs (unat x) = 1) ps @ [page]
      else if a = CIRCULAR_QUEUE then second_chance (\<lambda>x. refs (unat x) = 0) ps @ [page]
      else tl ps @ [page])"

definition pages_ok :: "('q \<Rightarrow> addr list) \<Rightarrow> nat \<Rightarrow> 'q pager \<Rightarrow> u32 list \<Rightarrow> bool" where
  "pages_ok items n s ps \<longleftrightarrow> items (queue s) = map to_ptr ps \<and> distinct ps \<and> length ps \<le> n \<and> 1 \<le> n \<and> max_size s = int n \<and>
     (alg s = 3 \<or> alg s = 4 \<longrightarrow> (\<forall>x \<in> set ps. in_array x))"

lemma second_chance_split:
  assumes "ps \<noteq> []"
  obtains e where "mset ps = add_mset e (mset (second_chance kept ps))"
proof (cases "dropWhile kept ps")
  case Nil
  then show thesis using that [of "hd ps"] assms by (cases ps) (auto simp: second_chance_def)
next
  case (Cons e ys)
  then have "ps = takeWhile kept ps @ e # ys" by (metis takeWhile_dropWhile_id)
  then have "mset ps = mset (takeWhile kept ps @ e # ys)" by (rule arg_cong)
  then show thesis using that [of e] Cons by (simp add: second_chance_def ac_simps)
qed

text \<open>A request of a page that is not there costs at most one page; one that is there costs none.\<close>

lemma next_pages_mset:
  assumes "length ps \<le> n" and "1 \<le> n"
  shows "page \<in> set ps \<Longrightarrow> distinct ps \<Longrightarrow> mset (next_pages a n refs page ps) = mset ps"
    "page \<notin> set ps \<Longrightarrow> length ps < n \<Longrightarrow> next_pages a n refs page ps = ps @ [page]"
    "page \<notin> set ps \<Longrightarrow> length ps = n \<Longrightarrow> \<exists>e. add_mset e (mset (next_pages a n refs page ps)) = add_mset page (mset ps)"
proof -
  assume p: "page \<in> set ps" "distinct ps"
  have "mset (filter (\<lambda>v. v \<noteq> page) ps @ [page]) = mset ps"
    using p by (intro set_eq_iff_mset_eq_distinct [THEN iffD1]) auto
  then show "mset (next_pages a n refs page ps) = mset ps" using p by (simp add: next_pages_def)
next
  assume p: "page \<notin> set ps" "length ps = n"
  then have ne: "ps \<noteq> []" using assms by auto
  have "\<exists>e. add_mset e (mset (second_chance kept ps @ [page])) = add_mset page (mset ps)" for kept
    by (rule second_chance_split [OF ne, of kept]) (auto simp: add_mset_commute)
  moreover have "\<exists>e. add_mset e (mset (tl ps @ [page])) = add_mset page (mset ps)"
    using ne by (cases ps) (auto simp: add_mset_commute)
  ultimately show "\<exists>e. add_mset e (mset (next_pages a n refs page ps)) = add_mset page (mset ps)"
    using p unfolding next_pages_def by presburger
qed (simp add: next_pages_def)

lemma next_pages_set:
  assumes "length ps \<le> n" and "1 \<le> n" and d: "distinct ps"
  shows "distinct (next_pages a n refs page ps)" "length (next_pages a n refs page ps) \<le> n"
    "page \<in> set (next_pages a n refs page ps)" "set (next_pages a n refs page ps) \<subseteq> insert page (set ps)"
    "length ps \<le> length (next_pages a n refs page ps)"
proof -
  let ?ps = "next_pages a n refs page ps"
  have page: "page \<in> set ?ps" by (auto simp: next_pages_def)
  note nm = next_pages_mset [OF assms(1,2), of page a refs]
  have "distinct ?ps \<and> length ?ps \<le> n \<and> set ?ps \<subseteq> insert page (set ps) \<and> length ps \<le> length ?ps"
  proof (cases "page \<in> set ps")
    case True
    then have m: "mset ?ps = mset ps" using nm(1) d by blast
    then show ?thesis using d assms(1) by (metis mset_eq_imp_distinct_iff mset_eq_length mset_eq_setD subset_insertI order_refl)
  next
    case False
    show ?thesis
    proof (cases "length ps < n")
      case True
      then show ?thesis using nm(2) [OF False True] False d by auto
    next
      case full: False
      then obtain e where e: "add_mset e (mset ?ps) = add_mset page (mset ps)" using nm(3) [OF False] assms(1) by auto
      then have "mset (e # ?ps) = mset (page # ps)" by simp
      then have "distinct (e # ?ps)" "length (e # ?ps) = length (page # ps)" "set (e # ?ps) = set (page # ps)"
        using False d by (metis distinct.simps(2) mset_eq_imp_distinct_iff, metis mset_eq_length, metis mset_eq_setD)
      then show ?thesis using assms(1) by auto
    qed
  qed
  then show "distinct ?ps" "length ?ps \<le> n" "page \<in> set ?ps" "set ?ps \<subseteq> insert page (set ps)" "length ps \<le> length ?ps"
    using page by blast+
qed

text \<open>The bits that the eviction of a request sees.\<close>

definition request_refs :: "nat \<Rightarrow> u32 \<Rightarrow> (nat \<Rightarrow> int) \<Rightarrow> nat \<Rightarrow> int" where
  "request_refs a page refs = (if a = CIRCULAR_QUEUE then refs(unat page := 0) else refs)"

lemmas algorithm_defs = FIRST_IN_FIRST_OUT_def LEAST_RECENTLY_USED_def LEAST_FREQUENTLY_USED_def SECOND_CHANCE_def CIRCULAR_QUEUE_def

lemma request_queue_ok:
  assumes q: "queue_ok ql items" and ok: "pages_ok items n s ps" and ia: "alg s = 3 \<or> alg s = 4 \<longrightarrow> in_array page"
  shows "\<exists>r refs. request_queue ql page s =
      Some (s\<lparr>queue := r, bit_refs := refs, got := got s @ (if page \<in> set ps then [] else [page])\<rparr>) \<and>
    items r = map to_ptr (next_pages (alg s) n (bit_refs s) page ps) \<and>
    (page \<in> set ps \<longrightarrow> refs = touch (alg s) page (bit_refs s))"
proof -
  have i: "items (queue s) = map to_ptr ps" and l: "length ps \<le> n" "1 \<le> n" "max_size s = int n" and d: "distinct ps"
    and ps_in: "alg s = 3 \<or> alg s = 4 \<longrightarrow> (\<forall>x \<in> set ps. in_array x)" using ok by (auto simp: pages_ok_def)
  obtain r where f: "pager_find_elem ql page s = Some (page \<in> set ps,
        (if page \<in> set ps then s\<lparr>bit_refs := touch (alg s) page (bit_refs s)\<rparr> else s)\<lparr>queue := r\<rparr>)"
      "items r = map to_ptr (if alg s = 1 then filter (\<lambda>v. v \<noteq> page) ps else ps)"
    using pager_find_elem_ok [OF q i ia] by blast
  have fresh: "filter (\<lambda>v. v \<noteq> page) ps = ps" if "page \<notin> set ps" using that by (auto simp: filter_id_conv)
  show ?thesis
  proof (cases "page \<in> set ps")
    case True
    let ?r = "if alg s = 1 then queue_enqueue ql r (to_ptr page) else r"
    have "items ?r = map to_ptr (next_pages (alg s) n (bit_refs s) page ps)"
      using f(2) True queue_okD(2) [OF q] by (simp add: next_pages_def algorithm_defs)
    then show ?thesis using f(1) True
      by (intro exI [of _ ?r] exI [of _ "touch (alg s) page (bit_refs s)"]) (cases s, simp add: request_queue_def)
  next
    case False
    have ir: "items r = map to_ptr ps" using f(2) fresh [OF False] by simp
    let ?s = "s\<lparr>queue := r, got := got s @ [page]\<rparr>"
    have sz: "int (queue_size ql r) = int (length ps)" using queue_okD(6) [OF q, of r] ir by simp
    define ev where "ev = (if int (length ps) = int n
       then (if alg s = 3 then evict_chance ql 1 0 ?s
             else if alg s = 4 then evict_chance ql 0 1 ?s
             else Some (?s\<lparr>queue := snd (queue_dequeue ql r)\<rparr>))
       else Some ?s)"
    have e: "request_queue ql page s = do { s \<leftarrow> ev; Some (s\<lparr>queue := queue_enqueue ql (queue s) (to_ptr page)\<rparr>) }"
      using f(1) False sz l(3) by (simp add: request_queue_def sim_get_page_def ev_def)
    have ne: "ps \<noteq> []" if "length ps = n" using that l(2) by auto
    have "\<exists>r' refs. ev = Some (?s\<lparr>bit_refs := refs, queue := r'\<rparr>) \<and>
        map to_ptr (next_pages (alg s) n (bit_refs s) page ps) = items r' @ [to_ptr page]"
    proof (cases "length ps = n")
      case ln: False
      then show ?thesis using ir False l(1)
        by (intro exI [of _ r] exI [of _ "bit_refs s"]) (simp add: ev_def next_pages_def)
    next
      case full: True
      consider (sc) "alg s = 3" | (cq) "alg s = 4" | (other) "alg s \<noteq> 3" "alg s \<noteq> 4" by blast
      then show ?thesis
      proof cases
        case sc
        obtain r' refs where "evict_chance ql 1 0 ?s = Some (?s\<lparr>bit_refs := refs, queue := r'\<rparr>)"
            "items r' = map to_ptr (second_chance (\<lambda>x. bit_refs s (unat x) = 1) ps)"
          using evict_chance_ok [OF q _ _ ne [OF full] d, of 1 0 ?s] ir ps_in sc by auto
        then show ?thesis using sc full False by (auto simp: ev_def next_pages_def algorithm_defs)
      next
        case cq
        obtain r' refs where "evict_chance ql 0 1 ?s = Some (?s\<lparr>bit_refs := refs, queue := r'\<rparr>)"
            "items r' = map to_ptr (second_chance (\<lambda>x. bit_refs s (unat x) = 0) ps)"
          using evict_chance_ok [OF q _ _ ne [OF full] d, of 0 1 ?s] ir ps_in cq by auto
        then show ?thesis using cq full False by (auto simp: ev_def next_pages_def algorithm_defs)
      next
        case other
        then show ?thesis using full False queue_okD(4) [OF q, of r] ir
          by (intro exI [of _ "snd (queue_dequeue ql r)"] exI [of _ "bit_refs s"])
            (simp add: ev_def next_pages_def algorithm_defs map_tl)
      qed
    qed
    then obtain r' refs where "ev = Some (?s\<lparr>bit_refs := refs, queue := r'\<rparr>)"
      "map to_ptr (next_pages (alg s) n (bit_refs s) page ps) = items r' @ [to_ptr page]" by blast
    then show ?thesis using e False queue_okD(2) [OF q, of r']
      by (intro exI [of _ "queue_enqueue ql r' (to_ptr page)"] exI [of _ refs]) (cases s, simp)
  qed
qed

lemma request_ok:
  assumes q: "queue_ok ql items" and ok: "pages_ok items n s ps" and ia: "alg s = 3 \<or> alg s = 4 \<longrightarrow> in_array page" and a: "alg s \<noteq> 2"
  shows "\<exists>s'. pager_request ql p page s = Some s' \<and>
    pages_ok items n s' (next_pages (alg s) n (request_refs (alg s) page (bit_refs s)) page ps) \<and>
    got s' = got s @ (if page \<in> set ps then [] else [page]) \<and> alg s' = alg s \<and>
    (page \<in> set ps \<longrightarrow> bit_refs s' = touch (alg s) page (bit_refs s))"
proof -
  define s1 where "s1 = (if alg s = 4 then s\<lparr>bit_refs := (bit_refs s)(unat page := 0)\<rparr> else s)"
  have s1: "alg s1 = alg s" "got s1 = got s" "bit_refs s1 = request_refs (alg s) page (bit_refs s)"
    by (simp_all add: s1_def request_refs_def algorithm_defs)
  have ok1: "pages_ok items n s1 ps" using ok by (auto simp: pages_ok_def s1_def)
  have ps: "distinct ps" "length ps \<le> n" "1 \<le> n" "max_size s = int n" and ins: "alg s = 3 \<or> alg s = 4 \<longrightarrow> (\<forall>x \<in> set ps. in_array x)"
    using ok by (auto simp: pages_ok_def)
  let ?ps = "next_pages (alg s) n (bit_refs s1) page ps"
  obtain r refs where r: "request_queue ql page s1 =
      Some (s1\<lparr>queue := r, bit_refs := refs, got := got s @ (if page \<in> set ps then [] else [page])\<rparr>)"
    "items r = map to_ptr ?ps" "page \<in> set ps \<longrightarrow> refs = touch (alg s) page (bit_refs s1)"
    using request_queue_ok [OF q ok1, where page = page] ia s1 by auto
  let ?s = "s1\<lparr>queue := r, bit_refs := refs, got := got s @ (if page \<in> set ps then [] else [page]), step := step s1 + 1\<rparr>"
  have "pager_request ql p page s = Some ?s"
    using r(1) a ia s1(1) unfolding pager_request_def Let_def s1_def [symmetric] by simp
  moreover have "pages_ok items n ?s ?ps"
    using r(2) next_pages_set [OF ps(2,3,1), where a = "alg s" and refs = "bit_refs s1" and page = page] ps(3,4) ins ia s1(1)
    unfolding pages_ok_def by (auto simp: s1_def)
  moreover have "touch (alg s) page (bit_refs s1) = touch (alg s) page (bit_refs s)"
    by (auto simp: s1(3) touch_def request_refs_def algorithm_defs)
  ultimately show ?thesis using r(3) s1 by simp
qed

lemma init_ok:
  assumes "queue_ok ql items" and "0 < frames" and "frames < 2 ^ 31"
  shows "pages_ok items (unat frames) (pager_init ql a frames memory s) []" "alg (pager_init ql a frames memory s) = a"
    "got (pager_init ql a frames memory s) = got s" "step (pager_init ql a frames memory s) = step s"
proof -
  have "sint frames = uint frames" using sint_diff [of frames 0] assms(3) by simp
  moreover have "1 \<le> unat frames" using assms(2) by (simp add: word_less_nat_alt)
  ultimately show "pages_ok items (unat frames) (pager_init ql a frames memory s) []"
    using queue_okD(1) [OF assms(1)] by (simp add: pages_ok_def pager_init_def Let_def)
qed (simp_all add: pager_init_def Let_def)


section \<open>Least recently used\<close>

definition lastn :: "nat \<Rightarrow> 'a list \<Rightarrow> 'a list" where
  "lastn n xs = drop (length xs - n) xs"

lemma lastn_snoc: "1 \<le> n \<Longrightarrow> lastn n (xs @ [x]) = lastn (n - 1) xs @ [x]"
  by (auto simp: lastn_def)

lemma remdups_snoc: "remdups (xs @ [x]) = filter (\<lambda>y. y \<noteq> x) (remdups xs) @ [x]"
  by (induction xs) auto

lemma lastn_append: "n \<le> length ys \<Longrightarrow> lastn n (xs @ ys) = lastn n ys"
  by (simp add: lastn_def)

lemma lastn_all: "length xs \<le> n \<Longrightarrow> lastn n xs = xs"
  by (simp add: lastn_def)

lemma filter_lastn:
  assumes d: "distinct xs"
  shows "lastn n (filter (\<lambda>y. y \<noteq> x) xs) = (if x \<in> set (lastn (Suc n) xs) then filter (\<lambda>y. y \<noteq> x) (lastn (Suc n) xs) else lastn n xs)"
proof -
  define as bs where "as = take (length xs - Suc n) xs" and "bs = lastn (Suc n) xs"
  have xs: "xs = as @ bs" by (simp add: as_def bs_def lastn_def)
  have len: "length bs = min (Suc n) (length xs)" by (simp add: bs_def lastn_def)
  have dis: "distinct as" "distinct bs" "set as \<inter> set bs = {}" using d xs by auto
  show ?thesis
  proof (cases "x \<in> set bs")
    case True
    have x: "filter (\<lambda>y. y \<noteq> x) as = as" using True dis by (auto simp: filter_id_conv)
    have "filter (\<lambda>y. y \<noteq> x) bs = remove1 x bs" using distinct_remove1_removeAll [OF dis(2), of x]
      by (simp add: removeAll_filter_not_eq eq_commute [of x])
    then have l: "length (filter (\<lambda>y. y \<noteq> x) bs) = length bs - 1" using True by (simp add: length_remove1)
    show ?thesis
    proof (cases "length xs \<le> n")
      case small: True
      then have "as = []" by (simp add: as_def)
      then have "lastn n (filter (\<lambda>y. y \<noteq> x) xs) = filter (\<lambda>y. y \<noteq> x) bs" using xs small l by (simp add: lastn_all)
      then show ?thesis using True by (simp add: bs_def)
    next
      case big: False
      then have "length (filter (\<lambda>y. y \<noteq> x) bs) = n" using l len by simp
      then have "lastn n (filter (\<lambda>y. y \<noteq> x) as @ filter (\<lambda>y. y \<noteq> x) bs) = filter (\<lambda>y. y \<noteq> x) bs"
        by (simp add: lastn_append lastn_all)
      then have "lastn n (filter (\<lambda>y. y \<noteq> x) xs) = filter (\<lambda>y. y \<noteq> x) bs" unfolding xs filter_append .
      then show ?thesis using True by (simp add: bs_def)
    qed
  next
    case False
    have x: "filter (\<lambda>y. y \<noteq> x) bs = bs" using False by (auto simp: filter_id_conv)
    have "lastn n (filter (\<lambda>y. y \<noteq> x) as @ filter (\<lambda>y. y \<noteq> x) bs) = lastn n (as @ bs)"
    proof (cases "length xs \<le> n")
      case True
      then show ?thesis using x by (simp add: as_def)
    next
      case big: False
      then have "n \<le> length bs" using len by simp
      then show ?thesis using x by (simp add: lastn_append)
    qed
    then have "lastn n (filter (\<lambda>y. y \<noteq> x) xs) = lastn n xs" unfolding xs filter_append .
    then show ?thesis using False by (simp add: bs_def)
  qed
qed

text \<open>The pages in memory under this policy: the last ones of the requests, without repetition.\<close>

lemma next_pages_lru:
  assumes "1 \<le> n" and "algorithm = LEAST_RECENTLY_USED"
  shows "next_pages algorithm n refs page (lastn n (remdups ps)) = lastn n (remdups (ps @ [page]))"
proof -
  let ?d = "remdups ps" and ?f = "filter (\<lambda>y. y \<noteq> page)"
  have n: "Suc (n - 1) = n" using assms by simp
  have e: "lastn n (remdups (ps @ [page])) = lastn (n - 1) (?f ?d) @ [page]"
    using assms(1) by (simp only: remdups_snoc lastn_snoc)
  have f: "lastn (n - 1) (?f ?d) = (if page \<in> set (lastn n ?d) then ?f (lastn n ?d) else lastn (n - 1) ?d)"
    using filter_lastn [of ?d "n - 1" page] n by simp
  show ?thesis
  proof (cases "page \<in> set (lastn n ?d)")
    case True
    then show ?thesis using e f assms(2) by (simp add: next_pages_def)
  next
    case False
    have "(if length (lastn n ?d) < n then lastn n ?d else tl (lastn n ?d)) = lastn (n - 1) ?d"
    proof (cases "length ?d < n")
      case False
      then have "Suc (length ?d - n) = length ?d - (n - 1)" using assms(1) by simp
      then show ?thesis using False unfolding lastn_def by (simp add: tl_drop drop_Suc [symmetric])
    qed (simp add: lastn_all)
    then show ?thesis using e f False assms(2) by (auto simp: next_pages_def algorithm_defs)
  qed
qed

fun lru_faults :: "nat \<Rightarrow> u32 list \<Rightarrow> u32 list \<Rightarrow> u32 list" where
  "lru_faults n past [] = []"
| "lru_faults n past (page # pages) =
     (if page \<in> set (lastn n (remdups past)) then [] else [page]) @ lru_faults n (past @ [page]) pages"

lemma lru_run:
  assumes q: "queue_ok ql items" and n: "1 \<le> n"
  shows "pages_ok items n s (lastn n (remdups ps)) \<Longrightarrow> alg s = LEAST_RECENTLY_USED \<Longrightarrow>
    \<exists>s'. requests ql rs s = Some s' \<and> pages_ok items n s' (lastn n (remdups (ps @ map snd rs))) \<and>
      got s' = got s @ lru_faults n ps (map snd rs)"
proof (induction rs arbitrary: s ps)
  case (Cons r rs)
  obtain p page where r: "r = (p, page)" by (cases r)
  obtain s1 where s1: "pager_request ql p page s = Some s1"
      "pages_ok items n s1 (lastn n (remdups (ps @ [page])))" "alg s1 = LEAST_RECENTLY_USED"
      "got s1 = got s @ (if page \<in> set (lastn n (remdups ps)) then [] else [page])"
    using request_ok [OF q Cons.prems(1), where page = page and p = p] Cons.prems(2) next_pages_lru [OF n]
    by (auto simp: algorithm_defs)
  obtain s' where s': "requests ql rs s1 = Some s'" "pages_ok items n s' (lastn n (remdups ((ps @ [page]) @ map snd rs)))"
      "got s' = got s1 @ lru_faults n (ps @ [page]) (map snd rs)"
    using Cons.IH [OF s1(2,3)] by blast
  show ?case using s1 s' r by simp
qed simp

lemma lru_faults_mono:
  "n \<le> m \<Longrightarrow> length (lru_faults m past pages) \<le> length (lru_faults n past pages)"
proof (induction pages arbitrary: past)
  case (Cons page pages)
  have "set (lastn n (remdups past)) \<subseteq> set (lastn m (remdups past))"
    unfolding lastn_def using Cons.prems by (intro set_drop_subset_set_drop) simp
  then show ?case using Cons.IH [OF Cons.prems, of "past @ [page]"] by auto
qed simp

text \<open>C40: Under the least recently used policy, after any run of requests the queue holds the pages
  that were used last, as many as there are frames, in the order of their last use, and the page
  faults are those of this reference definition. More frames never cause more faults.\<close>

theorem lru_keeps_most_recent:
  assumes "queue_ok ql items" and "0 < frames" and "frames \<le> frames'" and "frames' < 2 ^ 31"
  shows "\<exists>s s'. requests ql rs (pager_init ql LEAST_RECENTLY_USED frames memory s0) = Some s \<and>
    requests ql rs (pager_init ql LEAST_RECENTLY_USED frames' memory s0) = Some s' \<and>
    items (queue s) = map unat (lastn (unat frames) (remdups (map snd rs))) \<and>
    got s = got s0 @ lru_faults (unat frames) [] (map snd rs) \<and>
    length (got s') \<le> length (got s)"
proof -
  have run: "\<exists>s. requests ql rs (pager_init ql LEAST_RECENTLY_USED n memory s0) = Some s \<and>
      items (queue s) = map unat (lastn (unat n) (remdups (map snd rs))) \<and> got s = got s0 @ lru_faults (unat n) [] (map snd rs)"
    if "0 < n" "n < 2 ^ 31" for n
  proof -
    note i = init_ok [OF assms(1) that, where a = LEAST_RECENTLY_USED and memory = memory and s = s0]
    have "pages_ok items (unat n) (pager_init ql LEAST_RECENTLY_USED n memory s0) (lastn (unat n) (remdups []))"
      using i(1) by (simp add: lastn_def)
    moreover have "1 \<le> unat n" using that(1) by (simp add: word_less_nat_alt)
    ultimately show ?thesis using lru_run [OF assms(1), of "unat n" "pager_init ql LEAST_RECENTLY_USED n memory s0" "[]" rs] i(2,3)
      by (auto simp: pages_ok_def to_ptr_def [abs_def])
  qed
  have f: "0 < frames'" "frames < 2 ^ 31" using assms(2-4) by auto
  have "unat frames \<le> unat frames'" using assms(3) by (simp add: word_le_nat_alt)
  then show ?thesis using run [OF assms(2) f(2)] run [OF f(1) assms(4)] lru_faults_mono [of "unat frames" "unat frames'" "[]" "map snd rs"]
    by fastforce
qed

section \<open>Least frequently used\<close>

text \<open>The order of the queue: by the number of uses, then by the last use.\<close>

definition lfu_le :: "freq_page \<Rightarrow> freq_page \<Rightarrow> bool" where
  "lfu_le a b \<longleftrightarrow> uses a < uses b \<or> uses a = uses b \<and> last_use a \<le> last_use b"

text \<open>What holds of the cells of the queue, with the counts \<open>fl\<close> at time \<open>now\<close>.\<close>

definition lfu_cells :: "addr list \<Rightarrow> (addr \<Rightarrow> freq_page) \<Rightarrow> (nat \<Rightarrow> int) \<Rightarrow> int \<Rightarrow> bool" where
  "lfu_cells ptrs h fl now \<longleftrightarrow> distinct ptrs \<and> NULL \<notin> set ptrs \<and> distinct (map (\<lambda>q. page_no (h q)) ptrs) \<and>
     (\<forall>q \<in> set ptrs. in_array (page_no (h q)) \<and> uses (h q) = of_int (fl (unat (page_no (h q)))) \<and> last_use (h q) < 2 ^ 31) \<and>
     (\<forall>i. 0 \<le> fl i \<and> fl i \<le> now) \<and> now < 2 ^ 31"

definition lfu_ok :: "('q \<Rightarrow> addr list) \<Rightarrow> nat \<Rightarrow> 'q pager \<Rightarrow> bool" where
  "lfu_ok items n s \<longleftrightarrow> lfu_cells (items (queue s)) (freq_heap s) (freq_list s) (step s) \<and>
     sorted_wrt (\<lambda>a b. lfu_le (freq_heap s a) (freq_heap s b)) (items (queue s)) \<and>
     length (items (queue s)) \<le> n \<and> 1 \<le> n \<and> max_size s = int n \<and> alg s = LEAST_FREQUENTLY_USED"

lemma of_int_small:
  assumes "0 \<le> i" and "i < 2 ^ 31"
  shows "(of_int i :: u32) < 2 ^ 31"
proof -
  have "uint (of_int i :: u32) = i" using assms by (simp add: uint_word_of_int take_bit_int_eq_self)
  then show ?thesis using assms by (simp add: word_less_def)
qed

lemma lfu_cells_small: "lfu_cells ptrs h fl now \<Longrightarrow> q \<in> set ptrs \<Longrightarrow> uses (h q) < 2 ^ 31 \<and> last_use (h q) < 2 ^ 31"
proof -
  assume c: "lfu_cells ptrs h fl now" and q: "q \<in> set ptrs"
  let ?i = "fl (unat (page_no (h q)))"
  have "0 \<le> ?i" "?i \<le> now" "now < 2 ^ 31" using c by (simp_all add: lfu_cells_def)
  then have "(of_int ?i :: u32) < 2 ^ 31" by (intro of_int_small) simp_all
  then show ?thesis using c q by (simp add: lfu_cells_def)
qed

lemma lfu_cells_perm:
  assumes m: "mset ptrs' = mset ptrs" and c: "lfu_cells ptrs h fl now"
  shows "lfu_cells ptrs' h fl now"
proof -
  have s: "set ptrs' = set ptrs" using m by (metis mset_eq_setD)
  have "distinct ptrs'" using m c unfolding lfu_cells_def by (metis mset_eq_imp_distinct_iff)
  moreover have "mset (map (\<lambda>q. page_no (h q)) ptrs') = mset (map (\<lambda>q. page_no (h q)) ptrs)" using m by simp
  then have "distinct (map (\<lambda>q. page_no (h q)) ptrs')" using c unfolding lfu_cells_def by (metis mset_eq_imp_distinct_iff)
  ultimately show ?thesis using c s unfolding lfu_cells_def by simp
qed

lemma sort_freq_le:
  assumes "uses (h a) < 2 ^ 31" "last_use (h a) < 2 ^ 31" "uses (h b) < 2 ^ 31" "last_use (h b) < 2 ^ 31"
  shows "sort_freq h a b \<le> 0 \<longleftrightarrow> lfu_le (h a) (h b)"
  using sint_diff [OF assms(1,3)] sint_diff [OF assms(2,4)]
  by (auto simp: sort_freq_def Let_def lfu_le_def word_less_def word_le_def word_uint_eq_iff)

lemma lfu_le_total: "lfu_le a b \<or> lfu_le b a" and lfu_le_trans: "lfu_le a b \<Longrightarrow> lfu_le b c \<Longrightarrow> lfu_le a c"
  by (auto simp: lfu_le_def)

lemma cells_sorted:
  assumes q: "queue_ok ql items" and c: "lfu_cells (items r) h fl now"
  shows "sorted_wrt (\<lambda>a b. lfu_le (h a) (h b)) (items (queue_sort ql (sort_freq h) r))"
proof -
  let ?q = "queue_sort ql (sort_freq h) r"
  have m: "set (items ?q) = set (items r)" using queue_okD(7) [OF q] by (metis set_mset_mset)
  have le: "sort_freq h a b \<le> 0 \<longleftrightarrow> lfu_le (h a) (h b)" if "a \<in> set (items r)" "b \<in> set (items r)" for a b
    using sort_freq_le lfu_cells_small [OF c] that by blast
  then have "comparator_on (set (items r)) (sort_freq h)"
    unfolding comparator_on_def by (simp add: lfu_le_total) (meson lfu_le_trans)
  then have "sorted_wrt (\<lambda>a b. sort_freq h a b \<le> 0) (items ?q)" by (rule queue_okD(8) [OF q])
  then show ?thesis by (rule sorted_wrt_mono_rel [rotated]) (use le m in blast)
qed

text \<open>The search of the frequency queue, and the two printing loops.\<close>

definition count_use :: "u32 \<Rightarrow> addr set \<Rightarrow> int \<Rightarrow> (addr \<Rightarrow> freq_page) \<Rightarrow> addr \<Rightarrow> freq_page" where
  "count_use val A now h = (\<lambda>q. if q \<in> A \<and> page_no (h q) = val then (h q)\<lparr>uses := uses (h q) + 1, last_use := of_int now\<rparr> else h q)"

lemma page_no_count_use [simp]: "page_no (count_use val A now h q) = page_no (h q)"
  by (simp add: count_use_def)

lemma count_use_in:
  "q \<in> A \<Longrightarrow> uses (count_use val A now h q) = (if page_no (h q) = val then uses (h q) + 1 else uses (h q))"
  "q \<in> A \<Longrightarrow> last_use (count_use val A now h q) = (if page_no (h q) = val then of_int now else last_use (h q))"
  by (simp_all add: count_use_def)

lemma find_freq_loop_ok:
  assumes q: "queue_ok ql items"
  shows "items r = xs \<Longrightarrow> distinct xs \<Longrightarrow>
    \<exists>r' t'. find_freq_loop ql val r t flag s = Some (r', t', flag \<or> (\<exists>q \<in> set xs. page_no (freq_heap s q) = val),
        s\<lparr>freq_heap := count_use val (set xs) (step s) (freq_heap s)\<rparr>) \<and> items r' = [] \<and> items t' = items t @ xs"
proof (induction xs arbitrary: r t flag s)
  case Nil
  have "count_use val {} (step s) (freq_heap s) = freq_heap s" by (simp add: count_use_def)
  then show ?case using queue_Nil [OF q] Nil by (subst find_freq_loop.simps) auto
next
  case (Cons x xs)
  obtain r' where r': "queue_dequeue ql r = (Some x, r')" "items r' = xs" "0 < queue_size ql r" by (rule queue_Cons [OF q Cons.prems(1)])
  have d: "distinct xs" "x \<notin> set xs" using Cons.prems(2) by auto
  show ?case
  proof (cases "page_no (freq_heap s x) = val")
    case False
    then have "count_use val (set (x # xs)) (step s) (freq_heap s) = count_use val (set xs) (step s) (freq_heap s)"
      by (auto simp: count_use_def fun_eq_iff)
    then show ?thesis using Cons.IH [OF r'(2) d(1), of "queue_enqueue ql t x" flag s] False r' queue_okD(2) [OF q]
      by (subst find_freq_loop.simps) auto
  next
    case True
    let ?s = "s\<lparr>freq_heap := (freq_heap s)(x := (freq_heap s x)\<lparr>uses := uses (freq_heap s x) + 1, last_use := of_int (step s)\<rparr>)\<rparr>"
    have "find_freq_loop ql val r t flag s = find_freq_loop ql val r' (queue_enqueue ql t x) True ?s"
      using True r' by (subst find_freq_loop.simps) simp
    moreover have "count_use val (set xs) (step s) (freq_heap ?s) = count_use val (set (x # xs)) (step s) (freq_heap s)"
      using True d(2) by (auto simp: count_use_def fun_eq_iff)
    ultimately show ?thesis using Cons.IH [OF r'(2) d(1), of "queue_enqueue ql t x" True ?s] True queue_okD(2) [OF q] by (auto simp del: fun_upd_apply)
  qed
qed

lemma find_elem_freq_ok:
  assumes q: "queue_ok ql items" and d: "distinct (items (queue s))"
  shows "\<exists>r. find_elem_freq ql val s = Some (\<exists>q \<in> set (items (queue s)). page_no (freq_heap s q) = val,
      s\<lparr>freq_heap := count_use val (set (items (queue s))) (step s) (freq_heap s), queue := r\<rparr>) \<and> items r = items (queue s)"
proof -
  obtain r' t' where l: "find_freq_loop ql val (queue s) (queue_create ql) False s = Some (r', t', \<exists>q \<in> set (items (queue s)). page_no (freq_heap s q) = val,
        s\<lparr>freq_heap := count_use val (set (items (queue s))) (step s) (freq_heap s)\<rparr>)" "items r' = []" "items t' = items (queue s)"
    using find_freq_loop_ok [OF q refl d, of val "queue_create ql" False s] queue_okD(1) [OF q] by auto
  obtain r where "move_back ql t' r' = Some r" "items r = items (queue s)"
    using move_back_ok [OF q l(3), of r'] l(2,3) by auto
  then show ?thesis using l by (intro exI [of _ r]) (simp add: find_elem_freq_def)
qed

lemma print_loop_ok:
  assumes q: "queue_ok ql items"
  shows "items r = xs \<Longrightarrow> \<exists>r' t' out. print_loop ql r t s = Some (r', t', s\<lparr>printed := out\<rparr>) \<and> items r' = [] \<and> items t' = items t @ xs"
proof (induction xs arbitrary: r t s)
  case Nil
  then show ?case using queue_Nil [OF q] by (subst print_loop.simps) (auto intro: exI [of _ "printed s"])
next
  case (Cons x xs)
  obtain r' where r': "queue_dequeue ql r = (Some x, r')" "items r' = xs" "0 < queue_size ql r" by (rule queue_Cons [OF q Cons.prems])
  from Cons.IH [OF r'(2), of "queue_enqueue ql t x" "s\<lparr>printed := printed s @ [freq_heap s x]\<rparr>"] show ?case
    using r' queue_okD(2) [OF q] by (subst print_loop.simps) auto
qed

lemma print_sorted_ok:
  assumes q: "queue_ok ql items"
  shows "\<exists>r out. print_sorted ql s = Some (s\<lparr>printed := out, queue := r\<rparr>) \<and> items r = items (queue s)"
proof -
  obtain r' t' out where l: "print_loop ql (queue s) (queue_create ql) s = Some (r', t', s\<lparr>printed := out\<rparr>)"
      "items r' = []" "items t' = items (queue s)"
    using print_loop_ok [OF q refl, of "queue s" "queue_create ql" s] queue_okD(1) [OF q] by auto
  obtain r where "move_back ql t' r' = Some r" "items r = items (queue s)"
    using move_back_ok [OF q l(3), of r'] l(2,3) by auto
  then show ?thesis using l by (intro exI [of _ r] exI [of _ out]) (simp add: print_sorted_def)
qed

text \<open>What a request does to the cells, before the queue is sorted.\<close>

lemma cells_found:
  assumes c: "lfu_cells ptrs h fl now" and m: "\<exists>q \<in> set ptrs. page_no (h q) = page" and n: "0 \<le> now" "now + 1 < 2 ^ 31"
  shows "lfu_cells ptrs (count_use page (set ptrs) now h) (fl(unat page := fl (unat page) + 1)) (now + 1)"
proof -
  have "\<forall>i. 0 \<le> (fl(unat page := fl (unat page) + 1)) i \<and> (fl(unat page := fl (unat page) + 1)) i \<le> now + 1"
    using c by (auto simp: lfu_cells_def intro: add_increasing2 order_trans)
  moreover have "(of_int now :: u32) < 2 ^ 31" using n by (intro of_int_small) auto
  ultimately show ?thesis using c n unfolding lfu_cells_def by (auto simp: count_use_in simp flip: word_unat_eq_iff)
qed

lemma cells_added:
  assumes c: "lfu_cells ptrs h fl now" and m: "\<forall>q \<in> set ptrs. page_no (h q) \<noteq> page" and n: "0 \<le> now" "now + 1 < 2 ^ 31"
    and p: "p \<noteq> 0" "p \<notin> set ptrs" and i: "in_array page"
    and fl': "fl' = fl(unat page := fl (unat page) + 1)"
  shows "lfu_cells (ptrs @ [p]) (h(p := \<lparr>uses = of_int (fl' (unat page)), page_no = page, last_use = of_int now\<rparr>)) fl' (now + 1)"
proof -
  define h' where "h' = h(p := \<lparr>uses = of_int (fl' (unat page)), page_no = page, last_use = of_int now\<rparr>)"
  have "\<forall>i. 0 \<le> fl' i \<and> fl' i \<le> now + 1"
    using c unfolding fl' by (auto simp: lfu_cells_def intro: add_increasing2 order_trans)
  moreover have "(of_int now :: u32) < 2 ^ 31" using n by (intro of_int_small) auto
  moreover have h: "h' q = h q" "fl' (unat (page_no (h q))) = fl (unat (page_no (h q)))" if "q \<in> set ptrs" for q
    using that p m by (auto simp: fl' h'_def simp flip: word_unat_eq_iff)
  moreover have "uses (h' p) = of_int (fl' (unat page))" "page_no (h' p) = page" "last_use (h' p) = of_int now" by (simp_all add: h'_def)
  moreover have "distinct (map (\<lambda>q. page_no (h' q)) ptrs)"
    using c h by (simp add: lfu_cells_def cong: map_cong)
  moreover have "page \<notin> (\<lambda>q. page_no (h q)) ` set ptrs" using m by auto
  moreover have "(\<lambda>q. page_no (h' q)) ` set ptrs = (\<lambda>q. page_no (h q)) ` set ptrs" using h by auto
  ultimately have "lfu_cells (ptrs @ [p]) h' fl' (now + 1)" using c n p i unfolding lfu_cells_def by auto
  then show ?thesis by (simp only: h'_def)
qed

lemma cells_dropped:
  assumes c: "lfu_cells (t # ptrs) h fl now"
  shows "lfu_cells ptrs h (fl(unat (page_no (h t)) := 0)) now"
proof -
  have "0 \<le> now" using c unfolding lfu_cells_def by (meson order_trans)
  moreover have "page_no (h q) \<noteq> page_no (h t)" if "q \<in> set ptrs" for q
  proof -
    have "page_no (h t) \<notin> (\<lambda>q. page_no (h q)) ` set ptrs" using c by (simp add: lfu_cells_def)
    then show ?thesis using that by (metis imageI)
  qed
  ultimately show ?thesis using c unfolding lfu_cells_def by (auto simp flip: word_unat_eq_iff)
qed

definition lfu_pages :: "('q \<Rightarrow> addr list) \<Rightarrow> 'q pager \<Rightarrow> u32 set" where
  "lfu_pages items s = (\<lambda>q. page_no (freq_heap s q)) ` set (items (queue s))"

text \<open>The end of a request: the queue is sorted and printed, and time goes on.\<close>

lemma lfu_finish:
  assumes q: "queue_ok ql items" and c: "lfu_cells (items (queue s)) (freq_heap s) (freq_list s) (step s + 1)"
    and l: "length (items (queue s)) \<le> n" "1 \<le> n" "max_size s = int n" "alg s = LEAST_FREQUENTLY_USED"
  shows "\<exists>s'. print_sorted ql (s\<lparr>queue := queue_sort ql (sort_freq (freq_heap s)) (queue s)\<rparr>) = Some s' \<and>
    lfu_ok items n (s'\<lparr>step := step s' + 1\<rparr>) \<and> lfu_pages items s' = lfu_pages items s \<and> got s' = got s \<and> freq_list s' = freq_list s"
proof -
  let ?q = "queue_sort ql (sort_freq (freq_heap s)) (queue s)"
  obtain r out where r: "print_sorted ql (s\<lparr>queue := ?q\<rparr>) = Some (s\<lparr>queue := ?q\<rparr>\<lparr>printed := out, queue := r\<rparr>)" "items r = items ?q"
    using print_sorted_ok [OF q, of "s\<lparr>queue := ?q\<rparr>"] by auto
  have m: "mset (items ?q) = mset (items (queue s))" by (rule queue_okD(7) [OF q])
  then have "set (items ?q) = set (items (queue s))" "length (items ?q) = length (items (queue s))"
    by (metis mset_eq_setD, metis mset_eq_length)
  then show ?thesis using r lfu_cells_perm [OF m c] cells_sorted [OF q c] l by (simp add: lfu_ok_def lfu_pages_def)
qed

lemma lfu_request:
  assumes q: "queue_ok ql items" and ok: "lfu_ok items n s" and i: "in_array page"
    and p: "p \<noteq> 0" "p \<notin> set (items (queue s))" and now: "step s + 1 < 2 ^ 31"
  shows "\<exists>s'. pager_request ql p page s = Some s' \<and> lfu_ok items n s' \<and>
    got s' = got s @ (if page \<in> lfu_pages items s then [] else [page]) \<and>
    (if page \<in> lfu_pages items s then lfu_pages items s' = lfu_pages items s
     else if length (items (queue s)) < n then lfu_pages items s' = insert page (lfu_pages items s)
     else \<exists>e \<in> set (items (queue s)). (\<forall>q \<in> set (items (queue s)). lfu_le (freq_heap s e) (freq_heap s q)) \<and>
       lfu_pages items s' = insert page (lfu_pages items s - {page_no (freq_heap s e)}) \<and>
       freq_list s' (unat (page_no (freq_heap s e))) = 0)"
proof -
  let ?ptrs = "items (queue s)"
  define s1 where "s1 = s\<lparr>freq_list := (freq_list s)(unat page := freq_list s (unat page) + 1)\<rparr>"
  have c: "lfu_cells ?ptrs (freq_heap s) (freq_list s) (step s)" and l: "length ?ptrs \<le> n" "1 \<le> n" "max_size s = int n"
    and a: "alg s = LEAST_FREQUENTLY_USED" and so: "sorted_wrt (\<lambda>a b. lfu_le (freq_heap s a) (freq_heap s b)) ?ptrs"
    using ok by (auto simp: lfu_ok_def)
  have d: "distinct ?ptrs" and zero: "0 \<notin> set ?ptrs" using c by (auto simp: lfu_cells_def)
  have z: "0 \<le> step s" using c unfolding lfu_cells_def by (meson order_trans)
  have a2: "alg s = 2" using a by (simp add: algorithm_defs)
  have s1: "queue s1 = queue s" "freq_heap s1 = freq_heap s" "step s1 = step s" "max_size s1 = max_size s" "alg s1 = alg s"
    "got s1 = got s" "freq_list s1 = (freq_list s)(unat page := freq_list s (unat page) + 1)"
    by (simp_all add: s1_def)
  obtain r where r: "find_elem_freq ql page s1 = Some (\<exists>q \<in> set ?ptrs. page_no (freq_heap s q) = page,
      s1\<lparr>freq_heap := count_use page (set ?ptrs) (step s) (freq_heap s), queue := r\<rparr>)" "items r = ?ptrs"
    using find_elem_freq_ok [OF q, of s1 page] d s1 by auto
  define h where "h = count_use page (set ?ptrs) (step s) (freq_heap s)"
  let ?fin = "\<lambda>s. do { s \<leftarrow> print_sorted ql (s\<lparr>queue := queue_sort ql (sort_freq (freq_heap s)) (queue s)\<rparr>); Some (s\<lparr>step := step s + 1\<rparr>) }"
  show ?thesis
  proof (cases "\<exists>q \<in> set ?ptrs. page_no (freq_heap s q) = page")
    case True
    let ?s = "s1\<lparr>freq_heap := h, queue := r\<rparr>"
    have e: "pager_request ql p page s = ?fin ?s"
      using r(1) True a2 i unfolding h_def [symmetric] by (simp add: pager_request_def request_freq_def s1_def)
    have "lfu_cells (items (queue ?s)) (freq_heap ?s) (freq_list ?s) (step ?s + 1)"
      using cells_found [OF c True z now] r(2) s1 by (simp add: h_def)
    from lfu_finish [OF q this] r(2) l a s1 obtain s' where s': "print_sorted ql (?s\<lparr>queue := queue_sort ql (sort_freq (freq_heap ?s)) (queue ?s)\<rparr>) = Some s'"
      "lfu_ok items n (s'\<lparr>step := step s' + 1\<rparr>)" "lfu_pages items s' = lfu_pages items ?s" "got s' = got s" by auto
    have "lfu_pages items ?s = lfu_pages items s" using r(2) by (simp add: lfu_pages_def h_def)
    then show ?thesis using e s' True by (auto simp: lfu_pages_def)
  next
    case False
    have h: "h = freq_heap s" using False by (auto simp: h_def count_use_def fun_eq_iff)
    let ?h = "(freq_heap s)(p := \<lparr>uses = of_int (freq_list s1 (unat page)), page_no = page, last_use = of_int (step s)\<rparr>)"
    let ?s = "s1\<lparr>queue := r, got := got s @ [page], freq_heap := ?h\<rparr>"
    have np: "page \<notin> lfu_pages items s" using False by (auto simp: lfu_pages_def)
    have hq: "?h q = freq_heap s q" if "q \<in> set ?ptrs" for q using that p by auto
    have added: "lfu_cells (?ptrs @ [p]) ?h (freq_list s1) (step s + 1)"
      using cells_added [OF c _ z now p i s1(7)] False by blast
    show ?thesis
    proof (cases "length ?ptrs < n")
      case True
      let ?s' = "?s\<lparr>queue := queue_enqueue ql r p\<rparr>"
      have it: "items (queue ?s') = ?ptrs @ [p]" using queue_okD(2) [OF q] r(2) by simp
      have e: "pager_request ql p page s = ?fin ?s'"
        using r False a2 i p True l(3) queue_okD(6) [OF q, of r] s1(6,4,3) unfolding h_def [symmetric] h
        by (simp add: pager_request_def request_freq_def sim_get_page_def s1_def)
      have "lfu_cells (items (queue ?s')) (freq_heap ?s') (freq_list ?s') (step ?s' + 1)" using added it s1 by simp
      from lfu_finish [OF q this, of n] it l a s1 True obtain s' where s': "print_sorted ql (?s'\<lparr>queue := queue_sort ql (sort_freq (freq_heap ?s')) (queue ?s')\<rparr>) = Some s'"
        "lfu_ok items n (s'\<lparr>step := step s' + 1\<rparr>)" "lfu_pages items s' = lfu_pages items ?s'" "got s' = got s @ [page]" by auto
      have "lfu_pages items ?s' = insert page (lfu_pages items s)" using it hq by (auto simp: lfu_pages_def image_iff)
      then show ?thesis using e s' np True by (auto simp: lfu_pages_def)
    next
      case full: False
      then obtain t ps where t: "?ptrs = t # ps" using l by (cases ?ptrs) auto
      obtain r' where r': "queue_dequeue ql r = (Some t, r')" "items r' = ps" using queue_Cons [OF q] r(2) t by metis
      have hd: "queue_head ql r = Some t" using queue_okD(5) [OF q, of r] r(2) t by simp
      have tin: "t \<in> set ?ptrs" using t by simp
      have ht: "?h t = freq_heap s t" by (rule hq [OF tin])
      have it_t: "t \<noteq> 0" "in_array (page_no (freq_heap s t))"
        using tin zero c by (metis, simp add: lfu_cells_def)
      let ?fl = "(freq_list s1)(unat (page_no (freq_heap s t)) := 0)"
      let ?s' = "?s\<lparr>queue := queue_enqueue ql r' p, freq_list := ?fl\<rparr>"
      have it: "items (queue ?s') = ps @ [p]" using queue_okD(2) [OF q] r'(2) by simp
      have sz: "int (queue_size ql r) = int n" using queue_okD(6) [OF q, of r] r(2) l(1) full by simp
      have tp: "t \<noteq> p" using p(2) tin by auto
      have e: "pager_request ql p page s = ?fin ?s'"
        using r(1) False a2 i p(1) l(3) sz hd r'(1) it_t s1(6,4,3) tp unfolding h_def [symmetric] h
        by (simp add: pager_request_def request_freq_def sim_get_page_def s1_def)
      have "lfu_cells (items (queue ?s')) (freq_heap ?s') (freq_list ?s') (step ?s' + 1)"
        using cells_dropped [of t "ps @ [p]" ?h "freq_list s1" "step s + 1"] added t it ht s1(3) by simp
      from lfu_finish [OF q this, of n] it l a s1 t obtain s' where s': "print_sorted ql (?s'\<lparr>queue := queue_sort ql (sort_freq (freq_heap ?s')) (queue ?s')\<rparr>) = Some s'"
        "lfu_ok items n (s'\<lparr>step := step s' + 1\<rparr>)" "lfu_pages items s' = lfu_pages items ?s'" "got s' = got s @ [page]" "freq_list s' = ?fl" by auto
      have ps: "\<forall>q \<in> set ps. ?h q = freq_heap s q" using hq t by simp
      have "page_no (freq_heap s t) \<notin> (\<lambda>q. page_no (freq_heap s q)) ` set ps" using c t by (simp add: lfu_cells_def)
      then have "lfu_pages items s - {page_no (freq_heap s t)} = (\<lambda>q. page_no (freq_heap s q)) ` set ps" using t by (auto simp: lfu_pages_def)
      moreover have "(\<lambda>q. page_no (?h q)) ` set ps = (\<lambda>q. page_no (freq_heap s q)) ` set ps" using ps by (intro image_cong) auto
      then have "lfu_pages items ?s' = insert page ((\<lambda>q. page_no (freq_heap s q)) ` set ps)"
        using it unfolding lfu_pages_def by simp
      ultimately have "lfu_pages items s' = insert page (lfu_pages items s - {page_no (freq_heap s t)})" using s'(3) by simp
      moreover have "\<forall>q \<in> set ?ptrs. lfu_le (freq_heap s t) (freq_heap s q)" using so t lfu_le_total by auto
      moreover have "freq_list s' (unat (page_no (freq_heap s t))) = 0" using s'(5) by simp
      moreover have "lfu_pages items (s'\<lparr>step := step s' + 1\<rparr>) = lfu_pages items s'" by (simp add: lfu_pages_def)
      moreover have "pager_request ql p page s = Some (s'\<lparr>step := step s' + 1\<rparr>)" using e s'(1) by simp
      ultimately show ?thesis using s'(2,4) np full tin by (intro exI [of _ "s'\<lparr>step := step s' + 1\<rparr>"]) auto
    qed
  qed
qed

lemma lfu_init:
  assumes "queue_ok ql items" and "0 < frames" and "frames < 2 ^ 31" and "step s0 = 0"
  shows "lfu_ok items (unat frames) (pager_init ql LEAST_FREQUENTLY_USED frames (\<lambda>_. 0) s0)"
  using init_ok(1) [OF assms(1-3), of LEAST_FREQUENTLY_USED "\<lambda>_. 0" s0] queue_okD(1) [OF assms(1)] assms(4)
  by (simp add: pages_ok_def lfu_ok_def lfu_cells_def pager_init_def Let_def algorithm_defs)

text \<open>Under the least frequently used policy a request returns, asks the simulator for the page
  exactly when it is not in memory, and then has it in memory. A page is lost only when no frame is
  free; it is one that has been used least since it came into memory, and among those the one
  whose last use is oldest. Its count starts again at zero, although the algorithm is described as
  one with infinite history. Pages are below a million, and the counts start at zero.\<close>

theorem lfu_evicts_least_used:
  assumes "queue_ok ql items" and "lfu_ok items n s" and "unat page < 1000000"
    and "p \<noteq> NULL" "p \<notin> set (items (queue s))" and "step s + 1 < 2 ^ 31"
  shows "\<exists>s'. pager_request ql p page s = Some s' \<and> lfu_ok items n s' \<and>
    got s' = got s @ (if page \<in> lfu_pages items s then [] else [page]) \<and>
    (if page \<in> lfu_pages items s then lfu_pages items s' = lfu_pages items s
     else if length (items (queue s)) < n then lfu_pages items s' = insert page (lfu_pages items s)
     else \<exists>e \<in> set (items (queue s)). (\<forall>q \<in> set (items (queue s)). lfu_le (freq_heap s e) (freq_heap s q)) \<and>
       lfu_pages items s' = insert page (lfu_pages items s - {page_no (freq_heap s e)}) \<and>
       freq_list s' (unat (page_no (freq_heap s e))) = 0)"
  using lfu_request [OF assms(1,2) _ assms(4-6), of page] assms(3) by (simp add: in_array_def ARRAY_SIZE_def)

definition sample_pager :: "addr list pager" where
  "sample_pager = \<lparr>max_size = 0, alg = 0, queue = [], freq_list = (\<lambda>_. 0), step = 0, bit_refs = (\<lambda>_. 0),
     freq_heap = (\<lambda>_. \<lparr>uses = 0, page_no = 0, last_use = 0\<rparr>), got = [], printed = []\<rparr>"

theorem lfu_evicts_least_used_witness:
  "\<exists>s'. pager_request list_queue 8 50 (pager_init list_queue LEAST_FREQUENTLY_USED 2 (\<lambda>_. 0) sample_pager) = Some s' \<and>
     got s' = [50] \<and> lfu_pages (\<lambda>q. q) s' = {50}"
proof -
  let ?s = "pager_init list_queue LEAST_FREQUENTLY_USED 2 (\<lambda>_. 0) sample_pager"
  have ok: "lfu_ok (\<lambda>q. q) (unat (2 :: u32)) ?s" by (rule lfu_init [OF list_queue_ok]) (simp_all add: sample_pager_def)
  have f: "queue ?s = []" "got ?s = []" "step ?s = 0" "lfu_pages (\<lambda>q. q) ?s = {}"
    by (simp_all add: pager_init_def Let_def sample_pager_def list_queue_def algorithm_defs lfu_pages_def)
  show ?thesis using lfu_evicts_least_used [OF list_queue_ok ok, of 50 8] f by auto
qed


theorem lru_keeps_most_recent_witness:
  "\<exists>s. requests list_queue [(0, 10), (0, 20), (0, 10), (0, 30)] (pager_init list_queue LEAST_RECENTLY_USED 2 (\<lambda>_. 0) sample_pager) = Some s \<and>
     queue s = [10, 30] \<and> got s = [10, 20, 30]"
  using lru_keeps_most_recent [OF list_queue_ok, of 2 3 "[(0, 10), (0, 20), (0, 10), (0, 30)]" "\<lambda>_. 0" sample_pager]
  by (auto simp: lastn_def sample_pager_def)

end
