(* ===== verification/Stdlib.thy ===== *)
theory Stdlib
  imports Prelude
begin

text \<open>
  The sorting, searching and number parsing routines of \<^verbatim>\<open>lib/stdlib.c\<close>. An array is the list of
  its elements; a comparator returns an integer whose sign is the result. \<open>None\<close> stands for an
  access outside of the array, and in \<open>atoi\<close> for an \<^verbatim>\<open>int\<close> that overflows.
\<close>

section \<open>Heap sort\<close>

type_synonym 'a compare_func = "'a \<Rightarrow> 'a \<Rightarrow> int"

text \<open>Elements are counted from 1.\<close>

definition elem_at :: "'a list \<Rightarrow> nat \<Rightarrow> 'a" where
  "elem_at xs i = xs ! (i - 1)"

definition do_swap :: "'a list \<Rightarrow> nat \<Rightarrow> nat \<Rightarrow> 'a list" where
  "do_swap xs a_idx b_idx = xs[a_idx - 1 := elem_at xs b_idx, b_idx - 1 := elem_at xs a_idx]"

definition do_compare :: "'a list \<Rightarrow> nat \<Rightarrow> nat \<Rightarrow> 'a compare_func \<Rightarrow> int" where
  "do_compare xs a_idx b_idx compare = compare (elem_at xs a_idx) (elem_at xs b_idx)"

text \<open>The index of the largest element among \<open>i\<close> and its children.\<close>

definition max_child :: "'a list \<Rightarrow> nat \<Rightarrow> nat \<Rightarrow> 'a compare_func \<Rightarrow> nat" where
  "max_child xs i cnt compare =
     (let left = 2 * i; right = 2 * i + 1; m = i;
          m = (if left \<le> cnt \<and> do_compare xs left m compare > 0 then left else m);
          m = (if right \<le> cnt \<and> do_compare xs right m compare > 0 then right else m) in m)"

function heapify :: "'a list \<Rightarrow> nat \<Rightarrow> nat \<Rightarrow> 'a compare_func \<Rightarrow> 'a list option" where
  "heapify xs i cnt compare =
     (if i = 0 \<or> cnt < i \<or> length xs < cnt then None
      else let m = max_child xs i cnt compare in
        if m = i then Some xs else heapify (do_swap xs i m) m cnt compare)"
  by pat_completeness auto
termination
  by (relation "measure (\<lambda>(xs, i, cnt, compare). cnt - i)") (auto simp: max_child_def Let_def split: if_splits)

declare heapify.simps [simp del]

fun build_heap :: "nat \<Rightarrow> 'a list \<Rightarrow> nat \<Rightarrow> 'a compare_func \<Rightarrow> 'a list option" where
  "build_heap 0 xs cnt compare = Some xs"
| "build_heap (Suc i) xs cnt compare = do { xs \<leftarrow> heapify xs (Suc i) cnt compare; build_heap i xs cnt compare }"

fun sort_heap :: "nat \<Rightarrow> 'a list \<Rightarrow> 'a compare_func \<Rightarrow> 'a list option" where
  "sort_heap i xs compare =
     (if i > 1 then do { xs \<leftarrow> heapify (do_swap xs 1 i) 1 (i - 1) compare; sort_heap (i - 1) xs compare } else Some xs)"

declare sort_heap.simps [simp del]

text \<open>\<^verbatim>\<open>sort\<close>, and \<^verbatim>\<open>qsort\<close>, whose comparator has no auxiliary data.\<close>

definition sort_array :: "'a list \<Rightarrow> nat \<Rightarrow> 'a compare_func \<Rightarrow> 'a list option" where
  "sort_array xs cnt compare = do { xs \<leftarrow> build_heap (cnt div 2) xs cnt compare; sort_heap cnt xs compare }"

definition qsort :: "'a list \<Rightarrow> nat \<Rightarrow> 'a compare_func \<Rightarrow> 'a list option" where
  "qsort xs cnt compare = sort_array xs cnt (\<lambda>a b. compare a b)"

section \<open>Binary search\<close>

text \<open>The loop of \<^verbatim>\<open>binary_search\<close>, from index \<open>first\<close> to before \<open>past\<close>.\<close>

function search_loop :: "'k \<Rightarrow> 'a list \<Rightarrow> nat \<Rightarrow> nat \<Rightarrow> ('k \<Rightarrow> 'a \<Rightarrow> int) \<Rightarrow> nat option option" where
  "search_loop key xs first past compare =
     (if first < past
      then let range = past - first; middle = first + range div 2 in
        if middle \<ge> length xs then None
        else let cmp = compare key (xs ! middle) in
          if cmp < 0 then search_loop key xs first middle compare
          else if cmp > 0 then search_loop key xs (middle + 1) past compare
          else Some (Some middle)
      else Some None)"
  by pat_completeness auto
termination
  by (relation "measure (\<lambda>(key, xs, first, past, compare). past - first)") auto

declare search_loop.simps [simp del]

definition binary_search :: "'k \<Rightarrow> 'a list \<Rightarrow> nat \<Rightarrow> ('k \<Rightarrow> 'a \<Rightarrow> int) \<Rightarrow> nat option option" where
  "binary_search key xs cnt compare = search_loop key xs 0 cnt compare"

definition bsearch :: "'k \<Rightarrow> 'a list \<Rightarrow> nat \<Rightarrow> ('k \<Rightarrow> 'a \<Rightarrow> int) \<Rightarrow> nat option option" where
  "bsearch key xs cnt compare = binary_search key xs cnt (\<lambda>a b. compare a b)"

section \<open>Parsing numbers\<close>

definition isspace :: "char \<Rightarrow> bool" where
  "isspace c \<longleftrightarrow> c = CHR '' '' \<or> of_char c \<in> {12, 10, 13, 9, 11 :: nat}"

definition isdigit :: "char \<Rightarrow> bool" where
  "isdigit c \<longleftrightarrow> (48 :: nat) \<le> of_char c \<and> of_char c \<le> (57 :: nat)"

definition int_ok :: "int \<Rightarrow> bool" where
  "int_ok v \<longleftrightarrow> - (2 ^ 31) \<le> v \<and> v < 2 ^ 31"

text \<open>The digits are parsed as a negative value. The string ends where the list does.\<close>

fun parse_digits :: "string \<Rightarrow> int \<Rightarrow> int option" where
  "parse_digits [] v = Some v"
| "parse_digits (c # cs) v =
     (if isdigit c
      then do {
        kassert (int_ok (v * 10));
        let v = v * 10 - (int (of_char c) - 48);
        kassert (int_ok v);
        parse_digits cs v }
      else Some v)"

definition atoi :: "string \<Rightarrow> int option" where
  "atoi s = do {
     let s = dropWhile isspace s;
     let (negative, s) = (case s of
        [] \<Rightarrow> (False, [])
      | c # cs \<Rightarrow> if c = CHR ''+'' then (False, cs) else if c = CHR ''-'' then (True, cs) else (False, c # cs));
     v \<leftarrow> parse_digits s 0;
     if \<not> negative then do { kassert (int_ok (- v)); Some (- v) } else Some v }"

section \<open>The heap\<close>

text \<open>The sign of a comparator is that of a total order on a set of elements.\<close>

definition cmp_order :: "'a set \<Rightarrow> 'a compare_func \<Rightarrow> bool" where
  "cmp_order A compare \<longleftrightarrow> (\<forall>a \<in> A. \<forall>b \<in> A. compare a b \<le> 0 \<or> compare b a \<le> 0) \<and>
     (\<forall>a \<in> A. \<forall>b \<in> A. compare a b > 0 \<longrightarrow> compare b a \<le> 0) \<and>
     (\<forall>a \<in> A. \<forall>b \<in> A. \<forall>c \<in> A. compare a b \<le> 0 \<and> compare b c \<le> 0 \<longrightarrow> compare a c \<le> 0)"

lemma cmp_orderD:
  assumes "cmp_order A compare" and "a \<in> A" "b \<in> A" "c \<in> A"
  shows "compare a a \<le> 0" "\<not> compare a b \<le> 0 \<Longrightarrow> compare b a \<le> 0"
    "compare a b \<le> 0 \<Longrightarrow> compare b c \<le> 0 \<Longrightarrow> compare a c \<le> 0"
  using assms unfolding cmp_order_def by (meson linorder_not_less)+

text \<open>Every element from \<open>lo\<close> on is at least as large as its children; \<open>heap_but\<close> allows one exception.\<close>

definition heap_from :: "'a compare_func \<Rightarrow> nat \<Rightarrow> nat \<Rightarrow> 'a list \<Rightarrow> bool" where
  "heap_from compare lo cnt xs \<longleftrightarrow>
     (\<forall>j. 2 \<le> j \<and> j \<le> cnt \<and> lo \<le> j div 2 \<longrightarrow> compare (elem_at xs j) (elem_at xs (j div 2)) \<le> 0)"

definition heap_but :: "'a compare_func \<Rightarrow> nat \<Rightarrow> nat \<Rightarrow> nat \<Rightarrow> 'a list \<Rightarrow> bool" where
  "heap_but compare i lo cnt xs \<longleftrightarrow>
     (\<forall>j. 2 \<le> j \<and> j \<le> cnt \<and> lo \<le> j div 2 \<and> j div 2 \<noteq> i \<longrightarrow> compare (elem_at xs j) (elem_at xs (j div 2)) \<le> 0) \<and>
     (\<forall>j. 2 \<le> j \<and> j \<le> cnt \<and> j div 2 = i \<and> 2 \<le> i \<and> lo \<le> i div 2 \<longrightarrow> compare (elem_at xs j) (elem_at xs (i div 2)) \<le> 0)"

lemma elem_at_in: "1 \<le> i \<Longrightarrow> i \<le> length xs \<Longrightarrow> elem_at xs i \<in> set xs"
  by (simp add: elem_at_def)

lemma elem_at_swap:
  assumes "1 \<le> i" "i \<le> length xs" "1 \<le> j" "j \<le> length xs" "1 \<le> k"
  shows "elem_at (do_swap xs i j) k = (if k = i then elem_at xs j else if k = j then elem_at xs i else elem_at xs k)"
  using assms by (auto simp: elem_at_def do_swap_def nth_list_update)

lemma do_swap_facts:
  assumes "1 \<le> i" "i \<le> n" "1 \<le> j" "j \<le> n" "n \<le> length xs"
  shows "length (do_swap xs i j) = length xs" "mset (do_swap xs i j) = mset xs" "set (do_swap xs i j) = set xs"
    "drop n (do_swap xs i j) = drop n xs" "mset (take n (do_swap xs i j)) = mset (take n xs)"
proof -
  have sw: "do_swap ys i j = ys[i - 1 := ys ! (j - 1), j - 1 := ys ! (i - 1)]" for ys :: "'a list" by (simp add: do_swap_def elem_at_def)
  show "length (do_swap xs i j) = length xs" by (simp add: do_swap_def)
  show m: "mset (do_swap xs i j) = mset xs" unfolding sw using assms by (intro mset_swap) auto
  then show "set (do_swap xs i j) = set xs" by (metis mset_eq_setD)
  show "drop n (do_swap xs i j) = drop n xs" using assms by (simp add: do_swap_def)
  have "take n (do_swap xs i j) = (take n xs)[i - 1 := take n xs ! (j - 1), j - 1 := take n xs ! (i - 1)]"
    using assms by (simp add: sw take_update_swap)
  then show "mset (take n (do_swap xs i j)) = mset (take n xs)" using assms by (simp only:) (intro mset_swap, auto)
qed

lemma max_child_ok:
  assumes o: "cmp_order (set xs) compare" and i: "1 \<le> i" "i \<le> cnt" "cnt \<le> length xs"
  defines "m \<equiv> max_child xs i cnt compare"
  shows "m = i \<or> (i < m \<and> m \<le> cnt \<and> m div 2 = i)" "compare (elem_at xs i) (elem_at xs m) \<le> 0"
    "j div 2 = i \<Longrightarrow> 2 \<le> j \<Longrightarrow> j \<le> cnt \<Longrightarrow> compare (elem_at xs j) (elem_at xs m) \<le> 0"
proof -
  have mem: "elem_at xs k \<in> set xs" if "1 \<le> k" "k \<le> cnt" for k using elem_at_in that i by (metis order_trans)
  show "m = i \<or> (i < m \<and> m \<le> cnt \<and> m div 2 = i)" unfolding m_def max_child_def using i by (auto simp: Let_def)
  have r: "compare (elem_at xs k) (elem_at xs k) \<le> 0" if "1 \<le> k" "k \<le> cnt" for k
    using cmp_orderD(1) [OF o mem mem mem] that by blast
  have nle: "compare (elem_at xs l) (elem_at xs k) \<le> 0" if "compare (elem_at xs k) (elem_at xs l) > 0" "1 \<le> k" "k \<le> cnt" "1 \<le> l" "l \<le> cnt" for k l
    using cmp_orderD(2) [OF o mem mem mem] that by (meson linorder_not_less)
  have tr: "compare (elem_at xs k) (elem_at xs n) \<le> 0"
    if "compare (elem_at xs k) (elem_at xs l) \<le> 0" "compare (elem_at xs l) (elem_at xs n) \<le> 0" "1 \<le> k" "k \<le> cnt" "1 \<le> l" "l \<le> cnt" "1 \<le> n" "n \<le> cnt" for k l n
    using cmp_orderD(3) [OF o mem mem mem] that by blast
  define l where "l = (if 2 * i \<le> cnt \<and> do_compare xs (2 * i) i compare > 0 then 2 * i else i)"
  have l: "1 \<le> l" "l \<le> cnt" using i by (auto simp: l_def)
  have le_l: "compare (elem_at xs i) (elem_at xs l) \<le> 0" using nle r i by (auto simp: l_def do_compare_def)
  have left_l: "compare (elem_at xs (2 * i)) (elem_at xs l) \<le> 0" if "2 * i \<le> cnt"
    using that r i by (auto simp: l_def do_compare_def)
  have m: "m = (if 2 * i + 1 \<le> cnt \<and> do_compare xs (2 * i + 1) l compare > 0 then 2 * i + 1 else l)"
    by (simp only: m_def max_child_def l_def Let_def)
  have mb: "1 \<le> m" "m \<le> cnt" using l by (auto simp: m)
  have l_m: "compare (elem_at xs l) (elem_at xs m) \<le> 0" using nle r l by (auto simp: m do_compare_def)
  have right_m: "compare (elem_at xs (2 * i + 1)) (elem_at xs m) \<le> 0" if "2 * i + 1 \<le> cnt"
    using that r l by (auto simp: m do_compare_def)
  show "compare (elem_at xs i) (elem_at xs m) \<le> 0" using tr [OF le_l l_m] i l mb by blast
  show "compare (elem_at xs j) (elem_at xs m) \<le> 0" if j: "j div 2 = i" "2 \<le> j" "j \<le> cnt"
  proof -
    have "j = 2 * i \<or> j = 2 * i + 1" using j(1) by presburger
    then show ?thesis using right_m tr [OF left_l l_m] j i l mb by auto
  qed
qed

lemma heap_but_swap:
  assumes o: "cmp_order (set xs) compare" and i: "1 \<le> i" "cnt \<le> length xs" and h: "heap_but compare i lo cnt xs"
    and m: "i < m" "m \<le> cnt" "m div 2 = i" and le: "compare (elem_at xs i) (elem_at xs m) \<le> 0"
    and sib: "\<And>j. j div 2 = i \<Longrightarrow> 2 \<le> j \<Longrightarrow> j \<le> cnt \<Longrightarrow> compare (elem_at xs j) (elem_at xs m) \<le> 0" and lo: "lo \<le> i"
  shows "heap_but compare m lo cnt (do_swap xs i m)"
proof -
  have e: "elem_at (do_swap xs i m) k = (if k = i then elem_at xs m else if k = m then elem_at xs i else elem_at xs k)"
    if "1 \<le> k" for k using elem_at_swap i m that by (metis order_trans less_imp_le)
  have h1: "compare (elem_at xs j) (elem_at xs (j div 2)) \<le> 0" if "2 \<le> j" "j \<le> cnt" "lo \<le> j div 2" "j div 2 \<noteq> i" for j
    using h that unfolding heap_but_def by blast
  have h2: "compare (elem_at xs j) (elem_at xs (i div 2)) \<le> 0" if "2 \<le> j" "j \<le> cnt" "j div 2 = i" "2 \<le> i" "lo \<le> i div 2" for j
    using h that unfolding heap_but_def by blast
  show ?thesis unfolding heap_but_def
  proof (intro conjI allI impI)
    fix j assume j: "2 \<le> j \<and> j \<le> cnt \<and> lo \<le> j div 2 \<and> j div 2 \<noteq> m"
    have p: "1 \<le> j div 2" "1 \<le> j" using j by auto
    consider "j = i" | "j = m" | "j \<noteq> i" "j \<noteq> m" "j div 2 = i" | "j \<noteq> i" "j \<noteq> m" "j div 2 \<noteq> i" by blast
    then show "compare (elem_at (do_swap xs i m) j) (elem_at (do_swap xs i m) (j div 2)) \<le> 0"
    proof cases
      case 1
      then have "compare (elem_at xs m) (elem_at xs (i div 2)) \<le> 0" using h2 [of m] j m i by auto
      moreover have "i div 2 \<noteq> i" using 1 j by auto
      ultimately show ?thesis using 1 j p by (simp add: e)
    next
      case 2 then show ?thesis using le j p m by (simp add: e)
    next
      case 3 then show ?thesis using sib [of j] j p by (simp add: e)
    next
      case 4 then show ?thesis using h1 [of j] j p by (simp add: e)
    qed
  next
    fix j assume j: "2 \<le> j \<and> j \<le> cnt \<and> j div 2 = m \<and> 2 \<le> m \<and> lo \<le> m div 2"
    then have "j div 2 \<noteq> i" "j \<noteq> m" "j \<noteq> i" using m by auto
    then show "compare (elem_at (do_swap xs i m) j) (elem_at (do_swap xs i m) (m div 2)) \<le> 0"
      using h1 [of j] j m lo i by (simp add: e)
  qed
qed

lemma heapify_ok:
  "cmp_order (set xs) compare \<Longrightarrow> 1 \<le> i \<Longrightarrow> i \<le> cnt \<Longrightarrow> cnt \<le> length xs \<Longrightarrow> heap_but compare i lo cnt xs \<Longrightarrow> lo \<le> i \<Longrightarrow>
   \<exists>ys. heapify xs i cnt compare = Some ys \<and> heap_from compare lo cnt ys \<and> length ys = length xs \<and>
     mset (take cnt ys) = mset (take cnt xs) \<and> drop cnt ys = drop cnt xs \<and> set ys = set xs"
proof (induction xs i cnt compare rule: heapify.induct)
  case (1 xs i cnt compare)
  note pr = "1.prems"
  define m where "m = max_child xs i cnt compare"
  note mc = max_child_ok [OF pr(1-4), folded m_def]
  show ?case
  proof (cases "m = i")
    case True
    have "heap_from compare lo cnt xs" unfolding heap_from_def
    proof (intro allI impI)
      fix j assume j: "2 \<le> j \<and> j \<le> cnt \<and> lo \<le> j div 2"
      show "compare (elem_at xs j) (elem_at xs (j div 2)) \<le> 0"
      proof (cases "j div 2 = i")
        case t: True then show ?thesis using mc(3) [of j] j True by simp
      next
        case False then show ?thesis using pr(5) j unfolding heap_but_def by blast
      qed
    qed
    moreover have "heapify xs i cnt compare = Some xs" using True pr unfolding m_def by (subst heapify.simps) simp
    ultimately show ?thesis by simp
  next
    case False
    then have m: "i < m" "m \<le> cnt" "m div 2 = i" using mc(1) by auto
    let ?xs = "do_swap xs i m"
    have i1: "1 \<le> m" using m by simp
    note f = do_swap_facts [OF pr(2,3) i1 m(2) pr(4)]
    have h: "heap_but compare m lo cnt ?xs"
      by (rule heap_but_swap [OF pr(1,2,4,5) m mc(2) mc(3) pr(6)])
    have "\<exists>ys. heapify ?xs m cnt compare = Some ys \<and> heap_from compare lo cnt ys \<and> length ys = length ?xs \<and>
      mset (take cnt ys) = mset (take cnt ?xs) \<and> drop cnt ys = drop cnt ?xs \<and> set ys = set ?xs"
      using "1.IH" [OF _ m_def] False pr h f m by simp
    moreover have "heapify xs i cnt compare = heapify ?xs m cnt compare"
      using False pr unfolding m_def by (subst heapify.simps) (simp add: Let_def)
    ultimately show ?thesis using f by simp
  qed
qed

lemma build_heap_ok:
  "cmp_order (set xs) compare \<Longrightarrow> i \<le> cnt \<Longrightarrow> cnt \<le> length xs \<Longrightarrow> heap_from compare (Suc i) cnt xs \<Longrightarrow>
   \<exists>ys. build_heap i xs cnt compare = Some ys \<and> heap_from compare 1 cnt ys \<and> length ys = length xs \<and>
     mset (take cnt ys) = mset (take cnt xs) \<and> drop cnt ys = drop cnt xs \<and> set ys = set xs"
proof (induction i arbitrary: xs)
  case (Suc i)
  have "heap_but compare (Suc i) (Suc i) cnt xs"
    using Suc.prems(4) by (auto simp: heap_but_def heap_from_def)
  then obtain ys where ys: "heapify xs (Suc i) cnt compare = Some ys" "heap_from compare (Suc i) cnt ys" "length ys = length xs"
    "mset (take cnt ys) = mset (take cnt xs)" "drop cnt ys = drop cnt xs" "set ys = set xs"
    using heapify_ok [of xs compare "Suc i" cnt "Suc i"] Suc.prems by auto
  show ?case using Suc.IH [of ys] ys Suc.prems by auto
qed simp

lemma heap_root:
  assumes o: "cmp_order (set xs) compare" and h: "heap_from compare 1 cnt xs" and l: "cnt \<le> length xs"
  shows "1 \<le> j \<Longrightarrow> j \<le> cnt \<Longrightarrow> compare (elem_at xs j) (elem_at xs 1) \<le> 0"
proof (induction j rule: less_induct)
  case (less j)
  have mem: "elem_at xs k \<in> set xs" if "1 \<le> k" "k \<le> j" for k using elem_at_in that less.prems l by (metis order_trans)
  show ?case
  proof (cases "j = 1")
    case True then show ?thesis using cmp_orderD(1) [OF o mem mem mem] less.prems by simp
  next
    case False
    then have j: "2 \<le> j" "1 \<le> j div 2" "j div 2 < j" "j div 2 \<le> j" using less.prems by auto
    have "compare (elem_at xs j) (elem_at xs (j div 2)) \<le> 0" using h j less.prems unfolding heap_from_def by simp
    moreover have "compare (elem_at xs (j div 2)) (elem_at xs 1) \<le> 0" using less.IH [OF j(3,2)] less.prems by simp
    ultimately show ?thesis using cmp_orderD(3) [OF o mem [of j] mem [of "j div 2"] mem [of 1]] j by auto
  qed
qed

text \<open>The second phase: a heap of \<open>i\<close> elements, before a sorted part that is not smaller.\<close>

lemma sort_heap_ok:
  "cmp_order (set xs) compare \<Longrightarrow> i \<le> length xs \<Longrightarrow> heap_from compare 1 i xs \<Longrightarrow>
   \<exists>ys. sort_heap i xs compare = Some ys \<and> mset (take i ys) = mset (take i xs) \<and> drop i ys = drop i xs \<and>
     sorted_wrt (\<lambda>a b. compare a b \<le> 0) (take i ys)"
proof (induction i arbitrary: xs)
  case 0 then show ?case by (subst sort_heap.simps) simp
next
  case (Suc i)
  show ?case
  proof (cases "i = 0")
    case True
    then have "sorted_wrt (\<lambda>a b. compare a b \<le> 0) (take (Suc i) xs)" by (cases xs) auto
    then show ?thesis using True by (subst sort_heap.simps) simp
  next
    case False
    let ?n = "Suc i" and ?xs = "do_swap xs 1 (Suc i)"
    have n: "1 \<le> ?n" "(1::nat) \<le> 1" by auto
    note f = do_swap_facts [OF n(2) n(1) n(1) le_refl Suc.prems(2)]
    have e: "elem_at ?xs k = (if k = 1 then elem_at xs ?n else if k = ?n then elem_at xs 1 else elem_at xs k)" if "1 \<le> k" for k
      using elem_at_swap [of 1 xs ?n k] that Suc.prems(2) by auto
    have "heap_but compare 1 1 i ?xs"
      using Suc.prems(3) unfolding heap_but_def heap_from_def by (auto simp: e [unfolded One_nat_def])
    then obtain ys where ys: "heapify ?xs 1 i compare = Some ys" "heap_from compare 1 i ys" "length ys = length xs"
        "mset (take i ys) = mset (take i ?xs)" "drop i ys = drop i ?xs" "set ys = set xs"
      using heapify_ok [of ?xs compare 1 i 1] False Suc.prems f by auto
    obtain zs where zs: "sort_heap i ys compare = Some zs" "mset (take i zs) = mset (take i ys)" "drop i zs = drop i ys"
        "sorted_wrt (\<lambda>a b. compare a b \<le> 0) (take i zs)"
      using Suc.IH [of ys] ys Suc.prems by auto
    have len: "length zs = length xs" using zs(2,3) ys(3) by (metis append_take_drop_id length_append mset_eq_length)
    have top: "zs ! i = elem_at xs 1"
    proof -
      have "zs ! i = ?xs ! i" using zs(3) ys(5) len Suc.prems(2) f(1) by (metis Cons_nth_drop_Suc Suc_le_lessD nth_via_drop)
      then show ?thesis using e [of ?n] False by (simp add: elem_at_def)
    qed
    have "mset (take ?n zs) = add_mset (zs ! i) (mset (take i zs))" using len Suc.prems(2) by (simp add: take_Suc_snoc)
    also have "\<dots> = add_mset (?xs ! i) (mset (take i ?xs))" using zs(2) ys(4) top e [of ?n] False by (simp add: elem_at_def)
    also have "\<dots> = mset (take ?n ?xs)" using f(1) Suc.prems(2) by (simp add: take_Suc_snoc)
    finally have m: "mset (take ?n zs) = mset (take ?n xs)" using f(5) by simp
    have "drop ?n zs = drop ?n xs" using zs(3) ys(5) f(4) by (metis drop_Suc drop_tl)
    moreover have "compare z (zs ! i) \<le> 0" if "z \<in> set (take i zs)" for z
    proof -
      have "z \<in> set (take ?n xs)" using that m by (metis in_mono le_SucI le_refl mset_eq_setD set_take_subset_set_take)
      then obtain k where "k < ?n" "k < length xs" "z = xs ! k" by (auto simp: in_set_conv_nth)
      then have "z = elem_at xs (Suc k)" "1 \<le> Suc k" "Suc k \<le> ?n" by (auto simp: elem_at_def)
      then show ?thesis using heap_root [OF Suc.prems(1,3,2)] top by metis
    qed
    then have "sorted_wrt (\<lambda>a b. compare a b \<le> 0) (take ?n zs)"
      using zs(4) len Suc.prems(2) by (simp add: take_Suc_snoc sorted_wrt_append)
    moreover have "sort_heap ?n xs compare = Some zs" using False ys(1) zs(1) by (subst sort_heap.simps) simp
    ultimately show ?thesis using m by blast
  qed
qed

text \<open>C23: The heap sort of the library returns, never touching an element outside of the first
  \<open>cnt\<close> ones, and leaves these sorted for every comparator that is a total order on the elements
  (equal elements may be exchanged).\<close>

theorem sort_array_sorts:
  assumes "cmp_order (set xs) compare" and "cnt \<le> length xs"
  shows "\<exists>ys. sort_array xs cnt compare = Some ys \<and> mset (take cnt ys) = mset (take cnt xs) \<and>
    sorted_wrt (\<lambda>a b. compare a b \<le> 0) (take cnt ys) \<and> drop cnt ys = drop cnt xs \<and> qsort xs cnt compare = Some ys"
proof -
  have "heap_from compare (Suc (cnt div 2)) cnt xs" by (auto simp: heap_from_def)
  then obtain ys where ys: "build_heap (cnt div 2) xs cnt compare = Some ys" "heap_from compare 1 cnt ys" "length ys = length xs"
     "mset (take cnt ys) = mset (take cnt xs)" "drop cnt ys = drop cnt xs" "set ys = set xs"
    using build_heap_ok [OF assms(1), of "cnt div 2" cnt] assms(2) by auto
  obtain zs where "sort_heap cnt ys compare = Some zs" "mset (take cnt zs) = mset (take cnt ys)" "drop cnt zs = drop cnt ys"
    "sorted_wrt (\<lambda>a b. compare a b \<le> 0) (take cnt zs)"
    using sort_heap_ok [of ys compare cnt] ys assms by auto
  then show ?thesis using ys by (simp add: sort_array_def qsort_def)
qed

theorem sort_array_sorts_witness:
  "\<exists>ys. sort_array [30, 10, 20, 5 :: int] 3 (\<lambda>a b. a - b) = Some ys \<and> mset (take 3 ys) = {#10, 20, 30#} \<and>
     sorted_wrt (\<lambda>a b. a - b \<le> 0) (take 3 ys) \<and> drop 3 ys = [5]"
proof -
  have "cmp_order (set [30, 10, 20, 5 :: int]) (\<lambda>a b. a - b)" by (simp add: cmp_order_def)
  from sort_array_sorts [OF this, of 3] show ?thesis by (auto simp: add_mset_commute)
qed

section \<open>Searching\<close>

text \<open>The array is in order for a key: what the key is less than stays on the right.\<close>

definition ordered_for :: "'k \<Rightarrow> 'a list \<Rightarrow> nat \<Rightarrow> ('k \<Rightarrow> 'a \<Rightarrow> int) \<Rightarrow> bool" where
  "ordered_for key xs cnt compare \<longleftrightarrow>
     (\<forall>j < cnt. \<forall>i < j. (compare key (xs ! i) < 0 \<longrightarrow> compare key (xs ! j) < 0) \<and> (compare key (xs ! j) > 0 \<longrightarrow> compare key (xs ! i) > 0))"

lemma ordered_forD:
  assumes "ordered_for key xs cnt compare" and "i < j" "j < cnt"
  shows "compare key (xs ! i) < 0 \<Longrightarrow> compare key (xs ! j) < 0" "compare key (xs ! j) > 0 \<Longrightarrow> compare key (xs ! i) > 0"
  using assms by (simp_all add: ordered_for_def)

lemma ordered_for_less: "ordered_for key xs cnt compare \<Longrightarrow> n \<le> cnt \<Longrightarrow> ordered_for key xs n compare"
  unfolding ordered_for_def by (meson less_le_trans)

lemma search_loop_ok:
  "past \<le> length xs \<Longrightarrow> ordered_for key xs past compare \<Longrightarrow>
   \<exists>r. search_loop key xs first past compare = Some r \<and>
     (case r of Some i \<Rightarrow> first \<le> i \<and> i < past \<and> compare key (xs ! i) = 0
      | None \<Rightarrow> (\<forall>i. first \<le> i \<and> i < past \<longrightarrow> compare key (xs ! i) \<noteq> 0))"
proof (induction key xs first past compare rule: search_loop.induct)
  case (1 key xs first past compare)
  let ?m = "first + (past - first) div 2" and ?P = "\<lambda>first past r. (case r of Some i \<Rightarrow> first \<le> i \<and> i < past \<and> compare key (xs ! i) = 0
      | None \<Rightarrow> (\<forall>i. first \<le> i \<and> i < past \<longrightarrow> compare key (xs ! i) \<noteq> 0))"
  show ?case
  proof (cases "first < past")
    case False then show ?thesis by (subst search_loop.simps) simp
  next
    case True
    then have m: "first \<le> ?m" "?m < past" "?m < length xs" using "1.prems"(1) by auto
    note mono = ordered_forD [OF "1.prems"(2)]
    consider (lt) "compare key (xs ! ?m) < 0" | (gt) "compare key (xs ! ?m) > 0" | (eq) "compare key (xs ! ?m) = 0" by linarith
    then show ?thesis
    proof cases
      case lt
      obtain r where r: "search_loop key xs first ?m compare = Some r" "?P first ?m r"
        using "1.IH"(1) [OF True refl refl _ refl lt] m ordered_for_less [OF "1.prems"(2), of ?m] by (meson less_imp_le not_le)
      have "compare key (xs ! i) \<noteq> 0" if "?m \<le> i" "i < past" for i
        using mono(1) [of ?m i] lt that by (cases "i = ?m") auto
      then have "?P first past r" using r(2) m by (auto split: option.splits simp: not_less) (metis not_le)
      moreover have "search_loop key xs first past compare = Some r"
        using True m lt r(1) by (subst search_loop.simps) (simp add: Let_def)
      ultimately show ?thesis by blast
    next
      case gt
      obtain r where r: "search_loop key xs (?m + 1) past compare = Some r" "?P (?m + 1) past r"
        using "1.IH"(2) [OF True refl refl _ refl _ gt] m gt "1.prems" by (meson less_asym not_le)
      have "compare key (xs ! i) \<noteq> 0" if "i \<le> ?m" for i
        using mono(2) [of i ?m] gt that m by (cases "i = ?m") auto
      then have "?P first past r" using r(2) m by (auto split: option.splits) (metis Suc_leI not_le)
      moreover have "search_loop key xs first past compare = Some r"
        using True m gt r(1) by (subst search_loop.simps) (simp add: Let_def)
      ultimately show ?thesis by blast
    next
      case eq
      then have "search_loop key xs first past compare = Some (Some ?m)"
        using True m by (subst search_loop.simps) (simp add: Let_def)
      then show ?thesis using eq m by auto
    qed
  qed
qed

text \<open>Binary search ends, never looks outside of the array, finds an equal element whenever the
  array has one, and says that there is none otherwise, provided that the elements less than the key
  come first and those greater come last.\<close>

theorem binary_search_finds:
  assumes "cnt \<le> length xs"
    and "ordered_for key xs cnt compare"
  shows "\<exists>r. binary_search key xs cnt compare = Some r \<and> bsearch key xs cnt compare = Some r \<and>
    (case r of Some i \<Rightarrow> i < cnt \<and> compare key (xs ! i) = 0 | None \<Rightarrow> (\<forall>i < cnt. compare key (xs ! i) \<noteq> 0))"
  using search_loop_ok [OF assms, of 0] by (auto simp: binary_search_def bsearch_def split: option.splits)

theorem binary_search_finds_witness:
  "\<exists>r. binary_search (20 :: int) [10, 20, 30] 3 (\<lambda>a b. a - b) = Some r \<and>
    (case r of Some i \<Rightarrow> i < 3 \<and> 20 - [10, 20, 30 :: int] ! i = 0 | None \<Rightarrow> (\<forall>i < 3. 20 - [10, 20, 30 :: int] ! i \<noteq> 0))"
proof -
  have "ordered_for (20 :: int) [10, 20, 30] 3 (\<lambda>a b. a - b)"
    by (simp add: ordered_for_def numeral_3_eq_3 All_less_Suc)
  from binary_search_finds [OF _ this] show ?thesis by auto
qed

section \<open>Numbers\<close>

text \<open>The decimal notation of a number.\<close>

fun show_nat :: "nat \<Rightarrow> string" where
  "show_nat n = (if n < 10 then [char_of (48 + n)] else show_nat (n div 10) @ [char_of (48 + n mod 10)])"

declare show_nat.simps [simp del]

definition show_int :: "int \<Rightarrow> string" where
  "show_int v = (if v < 0 then CHR ''-'' # show_nat (nat (- v)) else show_nat (nat v))"

lemma digit_char_nat: "d < 10 \<Longrightarrow> (of_char (char_of (48 + d :: nat)) :: nat) = 48 + d"
  by simp

lemma digit_char: "d < 10 \<Longrightarrow> isdigit (char_of (48 + d :: nat))"
  unfolding isdigit_def by (subst digit_char_nat, assumption)+ simp

lemma parse_digit:
  assumes d: "(d :: nat) < 10"
  shows "parse_digits (char_of (48 + d) # cs) (- int m) =
    (if 10 * m + d \<le> 2 ^ 31 then parse_digits cs (- int (10 * m + d)) else None)"
proof -
  have e: "- int m * 10 - (int (48 + d) - 48) = - int (10 * m + d)" by simp
  have ok: "int_ok (- int (10 * m + d)) \<longleftrightarrow> 10 * m + d \<le> 2 ^ 31" by (auto simp: int_ok_def)
  have ok10: "int_ok (- int m * 10)" if "10 * m + d \<le> 2 ^ 31" using that by (auto simp: int_ok_def)
  show ?thesis
  proof (cases "10 * m + d \<le> 2 ^ 31")
    case True
    then show ?thesis unfolding parse_digits.simps Let_def digit_char_nat [OF d] e ok using digit_char [OF d] ok10 by simp
  next
    case False
    then show ?thesis unfolding parse_digits.simps Let_def digit_char_nat [OF d] e ok
      using digit_char [OF d] by (cases "int_ok (- int m * 10)") simp_all
  qed
qed

lemma parse_show_nat:
  "parse_digits (show_nat n @ cs) 0 = (if n \<le> 2 ^ 31 then parse_digits cs (- int n) else None)"
proof (induction n arbitrary: cs rule: show_nat.induct)
  case (1 n)
  show ?case
  proof (cases "n < 10")
    case True
    then show ?thesis using parse_digit [of n cs 0] by (subst show_nat.simps) simp
  next
    case False
    have e: "10 * (n div 10) + n mod 10 = n" by simp
    have "parse_digits (show_nat n @ cs) 0 = parse_digits (show_nat (n div 10) @ char_of (48 + n mod 10) # cs) 0"
      using False by (subst show_nat.simps) simp
    also have "\<dots> = (if n div 10 \<le> 2 ^ 31 then parse_digits (char_of (48 + n mod 10) # cs) (- int (n div 10)) else None)"
      by (rule "1.IH" [OF False])
    also have "\<dots> = (if n div 10 \<le> 2 ^ 31 then (if n \<le> 2 ^ 31 then parse_digits cs (- int n) else None) else None)"
      using parse_digit [of "n mod 10" cs "n div 10"] e by simp
    finally show ?thesis using div_le_dividend [of n 10] by auto
  qed
qed

lemma show_nat_start: "\<exists>d cs. (d :: nat) < 10 \<and> show_nat n = char_of (48 + d) # cs"
proof (induction n rule: show_nat.induct)
  case (1 n)
  show ?case
  proof (cases "n < 10")
    case True then show ?thesis by (subst show_nat.simps) auto
  next
    case False
    then obtain d cs where "(d :: nat) < 10" "show_nat (n div 10) = char_of (48 + d) # cs" using "1.IH" by blast
    then show ?thesis using False by (subst show_nat.simps) (intro exI [of _ d], simp)
  qed
qed

lemma digit_not_space: "(d :: nat) < 10 \<Longrightarrow> \<not> isspace (char_of (48 + d)) \<and> char_of (48 + d) \<noteq> CHR ''+'' \<and> char_of (48 + d) \<noteq> CHR ''-''"
  using digit_char_nat [of d] by (auto simp: isspace_def dest!: arg_cong [where f = "of_char :: char \<Rightarrow> nat"])

lemma parse_stops: "cs = [] \<or> \<not> isdigit (hd cs) \<Longrightarrow> parse_digits cs v = Some v"
  by (cases cs) auto

text \<open>The library's \<^verbatim>\<open>atoi\<close> reads back every \<^verbatim>\<open>int\<close> from its decimal notation, with white
  space before it and any text after it, the least and the greatest included. A number that is too
  large makes an \<^verbatim>\<open>int\<close> overflow.\<close>

theorem atoi_reads_decimal:
  assumes "\<forall>c \<in> set spaces. isspace c" and "rest = [] \<or> \<not> isdigit (hd rest)"
  shows "atoi (spaces @ show_int v @ rest) = (if - (2 ^ 31) \<le> v \<and> v < 2 ^ 31 then Some v else None)"
proof (cases "v < 0")
  case True
  have "dropWhile isspace (spaces @ show_int v @ rest) = CHR ''-'' # show_nat (nat (- v)) @ rest"
    using assms(1) True by (simp add: show_int_def isspace_def)
  then have "atoi (spaces @ show_int v @ rest) = parse_digits (show_nat (nat (- v)) @ rest) 0"
    by (simp add: atoi_def)
  then show ?thesis using True parse_stops [OF assms(2)] by (auto simp: parse_show_nat nat_le_iff)
next
  case False
  obtain d cs where d: "(d :: nat) < 10" "show_nat (nat v) = char_of (48 + d) # cs" using show_nat_start by blast
  have "dropWhile isspace (spaces @ show_int v @ rest) = char_of (48 + d) # cs @ rest"
    using assms(1) False d digit_not_space [OF d(1)] by (simp add: show_int_def)
  then have "atoi (spaces @ show_int v @ rest) =
      do { w \<leftarrow> parse_digits (show_nat (nat v) @ rest) 0; kassert (int_ok (- w)); Some (- w) }"
    using d digit_not_space [OF d(1)] by (simp add: atoi_def)
  then show ?thesis using False parse_stops [OF assms(2)]
    by (auto simp: parse_show_nat nat_le_iff int_ok_def)
qed

theorem atoi_reads_decimal_witness:
  "atoi (''  '' @ show_int (- 2147483648) @ ''x'') = Some (- 2147483648) \<and> atoi ('' '' @ show_int 2147483648 @ ''x'') = None"
proof -
  have s: "\<forall>c \<in> set ''  ''. isspace c" "\<forall>c \<in> set '' ''. isspace c" "''x'' = [] \<or> \<not> isdigit (hd ''x'')"
    by (simp_all add: isspace_def isdigit_def)
  show ?thesis using atoi_reads_decimal [OF s(1,3), of "- 2147483648"] atoi_reads_decimal [OF s(2,3), of 2147483648] by simp
qed

end
