(* ===== verification/Inode.thy ===== *)
theory Inode
  imports Bitmap
begin

text \<open>
  Files on the disk: \<^verbatim>\<open>filesys/inode.c\<close>, \<^verbatim>\<open>filesys/free-map.c\<close> and \<^verbatim>\<open>filesys/file.c\<close>. The
  state \<open>fs\<close> has the sectors as the buffer cache shows them (theory Cache proves that reads and
  writes through the cache are those of an array of sectors), the free map, and the heaps of the
  open inodes and files. A sector is a list of 512 bytes; the inodes and the index blocks are
  encoded in it as the structures of the code are, with the least significant byte first.

  \<open>None\<close> is a kernel panic: a failed assertion, or an access to a sector past the end of the
  device. Where the code asks for memory and goes on without it, the result of the allocation is
  an argument. Offsets are integers; where the code adds two of them, a sum that is no \<^verbatim>\<open>off_t\<close> is
  \<open>None\<close>. The list of open inodes is the list of their addresses; \<open>freed\<close> has the addresses of the
  inodes that have been given back to \<^verbatim>\<open>free\<close>, and an operation on one of them is \<open>None\<close>.
\<close>

section \<open>Disk structures\<close>

definition BLOCK_SECTOR_SIZE :: nat where "BLOCK_SECTOR_SIZE = 512"
definition INODE_MAGIC :: u32 where "INODE_MAGIC = 0x494e4f44"
definition DIRECT_BLOCKS_COUNT :: nat where "DIRECT_BLOCKS_COUNT = 123"
definition INDIRECT_BLOCKS_PER_SECTOR :: nat where "INDIRECT_BLOCKS_PER_SECTOR = 128"
definition FREE_MAP_SECTOR :: u32 where "FREE_MAP_SECTOR = 0"
definition ROOT_DIR_SECTOR :: u32 where "ROOT_DIR_SECTOR = 1"

record inode_disk =
  direct_blocks :: "u32 list"
  indirect_block :: u32
  doubly_indirect_block :: u32
  is_dir :: bool
  file_len :: int
  magic :: u32

record inode =
  sector :: u32
  open_cnt :: int
  removed :: bool
  deny_write_cnt :: int
  data :: inode_disk

record file_t =
  file_inode :: addr
  pos :: int
  deny_write :: bool

record fs =
  fs_size :: nat
  disk :: "u32 \<Rightarrow> byte list"
  free_map :: bitmap
  free_map_file :: addr
  open_inodes :: "addr list"
  inodes :: "addr \<Rightarrow> inode"
  files :: "addr \<Rightarrow> file_t"
  freed :: "addr set"

definition word_at :: "byte list \<Rightarrow> nat \<Rightarrow> u32" where
  "word_at bs i = decode32 (take 4 (drop (4 * i) bs))"

definition encode_index :: "u32 list \<Rightarrow> byte list" where
  "encode_index ws = concat (map encode32 ws)"

definition decode_index :: "byte list \<Rightarrow> u32 list" where
  "decode_index bs = map (word_at bs) [0..<INDIRECT_BLOCKS_PER_SECTOR]"

definition encode_inode :: "inode_disk \<Rightarrow> byte list" where
  "encode_inode d = encode_index (direct_blocks d @ [indirect_block d, doubly_indirect_block d]) @
     [if is_dir d then 1 else 0, 0, 0, 0] @ encode32 (of_int (file_len d)) @ encode32 (magic d)"

definition decode_inode :: "byte list \<Rightarrow> inode_disk" where
  "decode_inode bs = \<lparr>direct_blocks = map (word_at bs) [0..<DIRECT_BLOCKS_COUNT], indirect_block = word_at bs 123,
     doubly_indirect_block = word_at bs 124, is_dir = (bs ! 500 \<noteq> 0), file_len = sint (word_at bs 126), magic = word_at bs 127\<rparr>"

definition zeros :: "byte list" where
  "zeros = replicate BLOCK_SECTOR_SIZE 0"

definition cache_read :: "u32 \<Rightarrow> fs \<Rightarrow> byte list option" where
  "cache_read sec s = (if unat sec < fs_size s then Some (disk s sec) else None)"

definition cache_write :: "u32 \<Rightarrow> byte list \<Rightarrow> fs \<Rightarrow> fs option" where
  "cache_write sec bs s = (if unat sec < fs_size s then Some (s\<lparr>disk := (disk s)(sec := bs)\<rparr>) else None)"

definition off_ok :: "int \<Rightarrow> bool" where
  "off_ok i \<longleftrightarrow> - (2 ^ 31) \<le> i \<and> i < 2 ^ 31"

section \<open>The sectors of a file\<close>

definition bytes_to_sectors :: "int \<Rightarrow> nat" where
  "bytes_to_sectors sz = nat ((sz + int BLOCK_SECTOR_SIZE - 1) div int BLOCK_SECTOR_SIZE)"

definition index_to_sector :: "inode_disk \<Rightarrow> nat \<Rightarrow> fs \<Rightarrow> u32 option" where
  "index_to_sector idisk index s =
     (let index_limit = DIRECT_BLOCKS_COUNT in
      if index < index_limit then Some (direct_blocks idisk ! index)
      else let index_base = index_limit; index_limit = index_limit + INDIRECT_BLOCKS_PER_SECTOR in
      if index < index_limit
      then do {
        b \<leftarrow> cache_read (indirect_block idisk) s;
        Some (decode_index b ! (index - index_base)) }
      else let index_base = index_limit;
               index_limit = index_limit + INDIRECT_BLOCKS_PER_SECTOR * INDIRECT_BLOCKS_PER_SECTOR in
      if index < index_limit
      then do {
        let index_first = (index - index_base) div INDIRECT_BLOCKS_PER_SECTOR;
        let index_second = (index - index_base) mod INDIRECT_BLOCKS_PER_SECTOR;
        b \<leftarrow> cache_read (doubly_indirect_block idisk) s;
        b \<leftarrow> cache_read (decode_index b ! index_first) s;
        Some (decode_index b ! index_second) }
      else Some (- 1))"

definition byte_to_sector :: "inode_disk \<Rightarrow> int \<Rightarrow> fs \<Rightarrow> u32 option" where
  "byte_to_sector d p s =
     (if 0 \<le> p \<and> p < file_len d then index_to_sector d (nat p div BLOCK_SECTOR_SIZE) s else Some (- 1))"

section \<open>Reading\<close>

text \<open>The size of the next chunk: at most \<open>sz\<close>, the rest of the file and the rest of the sector.\<close>

definition chunk_size :: "inode_disk \<Rightarrow> nat \<Rightarrow> nat \<Rightarrow> nat" where
  "chunk_size d sz offset =
     (let inode_left = nat (file_len d) - offset;
          sector_left = BLOCK_SECTOR_SIZE - offset mod BLOCK_SECTOR_SIZE;
          min_left = (if inode_left < sector_left then inode_left else sector_left) in
      if sz < min_left then sz else min_left)"

text \<open>The bytes that the loop copies to the buffer of the caller; \<open>mem\<close> says whether the bounce
  buffer can be allocated.\<close>

function read_loop :: "bool \<Rightarrow> inode_disk \<Rightarrow> nat \<Rightarrow> nat \<Rightarrow> fs \<Rightarrow> byte list option" where
  "read_loop mem d sz offset s =
     (if sz > 0
      then do {
        sector_idx \<leftarrow> byte_to_sector d (int offset) s;
        let sector_ofs = offset mod BLOCK_SECTOR_SIZE;
        let chunk = chunk_size d sz offset;
        if chunk = 0 then Some []
        else if sector_ofs = 0 \<and> chunk = BLOCK_SECTOR_SIZE
        then do {
          b \<leftarrow> cache_read sector_idx s;
          r \<leftarrow> read_loop mem d (sz - chunk) (offset + chunk) s;
          Some (b @ r) }
        else if \<not> mem then Some []
        else do {
          b \<leftarrow> cache_read sector_idx s;
          r \<leftarrow> read_loop mem d (sz - chunk) (offset + chunk) s;
          Some (take chunk (drop sector_ofs b) @ r) } }
      else Some [])"
  by pat_completeness auto
termination
  by (relation "measure (\<lambda>(mem, d, sz, offset, s). sz)") auto

declare read_loop.simps [simp del]

text \<open>The bytes read. With a negative offset the code asks the cache for sector -1.\<close>

definition inode_read_at :: "bool \<Rightarrow> addr \<Rightarrow> int \<Rightarrow> int \<Rightarrow> fs \<Rightarrow> byte list option" where
  "inode_read_at mem i sz offset s =
     (if sz \<le> 0 then Some []
      else do { kassert (i \<notin> freed s); kassert (0 \<le> offset); read_loop mem (data (inodes s i)) (nat sz) (nat offset) s })"

section \<open>Writing inside a file\<close>

function write_loop :: "bool \<Rightarrow> inode_disk \<Rightarrow> byte list \<Rightarrow> nat \<Rightarrow> nat \<Rightarrow> fs \<Rightarrow> (nat \<times> fs) option" where
  "write_loop mem d buffer sz offset s =
     (if sz > 0
      then do {
        sector_idx \<leftarrow> byte_to_sector d (int offset) s;
        let sector_ofs = offset mod BLOCK_SECTOR_SIZE;
        let sector_left = BLOCK_SECTOR_SIZE - sector_ofs;
        let chunk = chunk_size d sz offset;
        if chunk = 0 then Some (0, s)
        else if sector_ofs = 0 \<and> chunk = BLOCK_SECTOR_SIZE
        then do {
          s \<leftarrow> cache_write sector_idx (take BLOCK_SECTOR_SIZE buffer) s;
          (n, s) \<leftarrow> write_loop mem d (drop chunk buffer) (sz - chunk) (offset + chunk) s;
          Some (chunk + n, s) }
        else if \<not> mem then Some (0, s)
        else do {
          bounce \<leftarrow> (if sector_ofs > 0 \<or> chunk < sector_left then cache_read sector_idx s else Some zeros);
          let bounce = take sector_ofs bounce @ take chunk buffer @ drop (sector_ofs + chunk) bounce;
          s \<leftarrow> cache_write sector_idx bounce s;
          (n, s) \<leftarrow> write_loop mem d (drop chunk buffer) (sz - chunk) (offset + chunk) s;
          Some (chunk + n, s) } }
      else Some (0, s))"
  by pat_completeness auto
termination
  by (relation "measure (\<lambda>(mem, d, buffer, sz, offset, s). sz)") auto

declare write_loop.simps [simp del]

section \<open>The free map\<close>

text \<open>The bytes of the elements of a bitmap, and \<^verbatim>\<open>bitmap_write\<close> of the free map, which is
  \<^verbatim>\<open>file_write_at\<close> at offset 0. The file of the free map has had its final size since
  \<^verbatim>\<open>free_map_create\<close>, so the write does not extend it: that is an assertion here.\<close>

definition bitmap_bytes :: "bitmap \<Rightarrow> byte list" where
  "bitmap_bytes b = encode_index (bits b)"

definition free_map_write :: "bool \<Rightarrow> fs \<Rightarrow> (bool \<times> fs) option" where
  "free_map_write mem s =
     (let i = file_inode (files s (free_map_file s)); sz = byte_cnt (bit_cnt (free_map s)) in
      if i \<in> freed s then None
      else if deny_write_cnt (inodes s i) \<noteq> 0 then Some (sz = 0, s)
      else do {
        last_sector \<leftarrow> byte_to_sector (data (inodes s i)) (int sz - 1) s;
        kassert (last_sector \<noteq> - 1);
        (n, s) \<leftarrow> write_loop mem (data (inodes s i)) (bitmap_bytes (free_map s)) sz 0 s;
        Some (n = sz, s) })"

definition free_map_init :: "bitmap option \<Rightarrow> fs \<Rightarrow> fs option" where
  "free_map_init created s = do {
     b \<leftarrow> created;
     b \<leftarrow> bitmap_mark b (unat FREE_MAP_SECTOR);
     b \<leftarrow> bitmap_mark b (unat ROOT_DIR_SECTOR);
     Some (s\<lparr>free_map := b\<rparr>) }"

text \<open>The first of the sectors found, if there are any; the caller's variable changes only then.\<close>

definition free_map_allocate :: "bool \<Rightarrow> nat \<Rightarrow> fs \<Rightarrow> (u32 option \<times> fs) option" where
  "free_map_allocate mem cnt s = do {
     (sec, b) \<leftarrow> bitmap_scan_and_flip (free_map s) 0 cnt False;
     let s = s\<lparr>free_map := b\<rparr>;
     (sec, s) \<leftarrow> (if sec \<noteq> BITMAP_ERROR \<and> free_map_file s \<noteq> NULL
        then do {
          (ok, s) \<leftarrow> free_map_write mem s;
          if ok then Some (sec, s)
          else do { b \<leftarrow> bitmap_set_multiple (free_map s) sec cnt False; Some (BITMAP_ERROR, s\<lparr>free_map := b\<rparr>) } }
        else Some (sec, s));
     Some (if sec \<noteq> BITMAP_ERROR then Some (of_nat sec) else None, s) }"

text \<open>The result of \<^verbatim>\<open>bitmap_write\<close> is not used, and the file must be open.\<close>

definition free_map_release :: "bool \<Rightarrow> u32 \<Rightarrow> nat \<Rightarrow> fs \<Rightarrow> fs option" where
  "free_map_release mem sec cnt s = do {
     used \<leftarrow> bitmap_all (free_map s) (unat sec) cnt;
     kassert used;
     b \<leftarrow> bitmap_set_multiple (free_map s) (unat sec) cnt False;
     let s = s\<lparr>free_map := b\<rparr>;
     kassert (free_map_file s \<noteq> NULL);
     (ok, s) \<leftarrow> free_map_write mem s;
     Some s }"

section \<open>Extending a file\<close>

text \<open>The loop over the entries of an index block: \<open>reserve\<close> is the recursive call, \<open>unit\<close> the
  number of sectors under an entry, \<open>l\<close> the number of entries left, \<open>i\<close> the next one.\<close>

fun reserve_entries :: "(u32 \<Rightarrow> nat \<Rightarrow> fs \<Rightarrow> (bool \<times> u32 \<times> fs) option) \<Rightarrow> nat \<Rightarrow> nat \<Rightarrow> nat \<Rightarrow> nat \<Rightarrow> u32 list \<Rightarrow> fs
    \<Rightarrow> (bool \<times> nat \<times> u32 list \<times> fs) option" where
  "reserve_entries reserve unit 0 i num_sectors blocks s = Some (True, num_sectors, blocks, s)"
| "reserve_entries reserve unit (Suc l) i num_sectors blocks s = do {
     let subsize = min num_sectors unit;
     kassert (i < length blocks);
     (ok, e, s) \<leftarrow> reserve (blocks ! i) subsize s;
     let blocks = blocks[i := e];
     if \<not> ok then Some (False, num_sectors, blocks, s)
     else reserve_entries reserve unit l (i + 1) (num_sectors - subsize) blocks s }"

text \<open>\<^verbatim>\<open>inode_reserve_indirect\<close>: whether it succeeds, and the entry \<^verbatim>\<open>*p_entry\<close> that it leaves. The
  result of the allocation of the index block is not tested.\<close>

primrec inode_reserve_indirect :: "nat \<Rightarrow> bool \<Rightarrow> u32 \<Rightarrow> nat \<Rightarrow> fs \<Rightarrow> (bool \<times> u32 \<times> fs) option" where
  "inode_reserve_indirect 0 mem entry num_sectors s =
     (if entry = 0
      then do {
        (a, s) \<leftarrow> free_map_allocate mem 1 s;
        (case a of
           None \<Rightarrow> Some (False, entry, s)
         | Some entry \<Rightarrow> do { s \<leftarrow> cache_write entry zeros s; Some (True, entry, s) }) }
      else Some (True, entry, s))"
| "inode_reserve_indirect (Suc level) mem entry num_sectors s = do {
     kassert (Suc level \<le> 2);
     (entry, s) \<leftarrow> (if entry = 0
        then do {
          (a, s) \<leftarrow> free_map_allocate mem 1 s;
          let entry = (case a of None \<Rightarrow> entry | Some e \<Rightarrow> e);
          s \<leftarrow> cache_write entry zeros s;
          Some (entry, s) }
        else Some (entry, s));
     b \<leftarrow> cache_read entry s;
     let unit = (if Suc level = 1 then 1 else INDIRECT_BLOCKS_PER_SECTOR);
     let l = (num_sectors + unit - 1) div unit;
     (ok, n, blocks, s) \<leftarrow> reserve_entries (inode_reserve_indirect level mem) unit l 0 num_sectors (decode_index b) s;
     if \<not> ok then Some (False, entry, s)
     else do {
       kassert (n = 0);
       s \<leftarrow> cache_write entry (encode_index blocks) s;
       Some (True, entry, s) } }"

text \<open>The loop over the direct blocks, and the whole of \<^verbatim>\<open>inode_reserve\<close>. The inode's fields change
  even when it fails.\<close>

fun reserve_direct :: "bool \<Rightarrow> nat \<Rightarrow> nat \<Rightarrow> u32 list \<Rightarrow> fs \<Rightarrow> (bool \<times> u32 list \<times> fs) option" where
  "reserve_direct mem 0 i blocks s = Some (True, blocks, s)"
| "reserve_direct mem (Suc l) i blocks s =
     (if blocks ! i = 0
      then do {
        (a, s) \<leftarrow> free_map_allocate mem 1 s;
        (case a of
           None \<Rightarrow> Some (False, blocks, s)
         | Some e \<Rightarrow> do { s \<leftarrow> cache_write e zeros s; reserve_direct mem l (i + 1) (blocks[i := e]) s }) }
      else reserve_direct mem l (i + 1) blocks s)"

definition inode_reserve :: "bool \<Rightarrow> inode_disk \<Rightarrow> int \<Rightarrow> fs \<Rightarrow> (bool \<times> inode_disk \<times> fs) option" where
  "inode_reserve mem d len s =
     (if len < 0 then Some (False, d, s)
      else do {
        let num_sectors = bytes_to_sectors len;
        let l = min num_sectors DIRECT_BLOCKS_COUNT;
        (ok, blocks, s) \<leftarrow> reserve_direct mem l 0 (direct_blocks d) s;
        let d = d\<lparr>direct_blocks := blocks\<rparr>;
        let num_sectors = num_sectors - l;
        if \<not> ok then Some (False, d, s)
        else if num_sectors = 0 then Some (True, d, s)
        else do {
          let l = min num_sectors INDIRECT_BLOCKS_PER_SECTOR;
          (ok, e, s) \<leftarrow> inode_reserve_indirect 1 mem (indirect_block d) l s;
          let d = d\<lparr>indirect_block := e\<rparr>;
          let num_sectors = num_sectors - l;
          if \<not> ok then Some (False, d, s)
          else if num_sectors = 0 then Some (True, d, s)
          else do {
            let l = min num_sectors (INDIRECT_BLOCKS_PER_SECTOR * INDIRECT_BLOCKS_PER_SECTOR);
            (ok, e, s) \<leftarrow> inode_reserve_indirect 2 mem (doubly_indirect_block d) l s;
            let d = d\<lparr>doubly_indirect_block := e\<rparr>;
            let num_sectors = num_sectors - l;
            if \<not> ok then Some (False, d, s)
            else if num_sectors = 0 then Some (True, d, s)
            else do { kassert (num_sectors = 0); Some (False, d, s) } } } })"

definition upd_inode :: "addr \<Rightarrow> (inode \<Rightarrow> inode) \<Rightarrow> fs \<Rightarrow> fs" where
  "upd_inode i f s = s\<lparr>inodes := (inodes s)(i := f (inodes s i))\<rparr>"

text \<open>The number of bytes written.\<close>

definition inode_write_at :: "bool \<Rightarrow> addr \<Rightarrow> byte list \<Rightarrow> int \<Rightarrow> int \<Rightarrow> fs \<Rightarrow> (nat \<times> fs) option" where
  "inode_write_at mem i buffer sz offset s =
     (if i \<in> freed s then None
      else if deny_write_cnt (inodes s i) \<noteq> 0 then Some (0, s)
      else do {
        kassert (off_ok (offset + sz) \<and> off_ok (offset + sz - 1));
        last_sector \<leftarrow> byte_to_sector (data (inodes s i)) (offset + sz - 1) s;
        (ok, s) \<leftarrow> (if last_sector = - 1
           then do {
             (success, d, s) \<leftarrow> inode_reserve mem (data (inodes s i)) (offset + sz) s;
             let s = upd_inode i (\<lambda>ino. ino\<lparr>data := d\<rparr>) s;
             if \<not> success then Some (False, s)
             else do {
               let s = upd_inode i (\<lambda>ino. ino\<lparr>data := (data ino)\<lparr>file_len := offset + sz\<rparr>\<rparr>) s;
               s \<leftarrow> cache_write (sector (inodes s i)) (encode_inode (data (inodes s i))) s;
               Some (True, s) } }
           else Some (True, s));
        if \<not> ok \<or> sz \<le> 0 then Some (0, s)
        else do { kassert (0 \<le> offset); write_loop mem (data (inodes s i)) buffer (nat sz) (nat offset) s } })"

section \<open>Inodes\<close>

definition inode_init :: "fs \<Rightarrow> fs" where
  "inode_init s = s\<lparr>open_inodes := []\<rparr>"

text \<open>\<open>cal\<close> says whether \<^verbatim>\<open>calloc\<close> succeeds.\<close>

definition inode_create :: "bool \<Rightarrow> bool \<Rightarrow> u32 \<Rightarrow> int \<Rightarrow> bool \<Rightarrow> fs \<Rightarrow> (bool \<times> fs) option" where
  "inode_create cal mem sec len dir s = do {
     kassert (len \<ge> 0);
     if \<not> cal then Some (False, s)
     else do {
       let d = \<lparr>direct_blocks = replicate DIRECT_BLOCKS_COUNT 0, indirect_block = 0, doubly_indirect_block = 0,
         is_dir = dir, file_len = len, magic = INODE_MAGIC\<rparr>;
       (ok, d, s) \<leftarrow> inode_reserve mem d (file_len d) s;
       if ok then do { s \<leftarrow> cache_write sec (encode_inode d) s; Some (True, s) } else Some (False, s) } }"

text \<open>Null pointers are ignored.\<close>

definition inode_reopen :: "addr \<Rightarrow> fs \<Rightarrow> fs" where
  "inode_reopen i s = (if i \<noteq> NULL then upd_inode i (\<lambda>ino. ino\<lparr>open_cnt := open_cnt ino + 1\<rparr>) s else s)"

text \<open>\<open>p\<close> is what \<^verbatim>\<open>malloc\<close> returns.\<close>

definition inode_open :: "addr \<Rightarrow> u32 \<Rightarrow> fs \<Rightarrow> (addr \<times> fs) option" where
  "inode_open p sec s =
     (case find (\<lambda>i. sector (inodes s i) = sec) (open_inodes s) of
        Some i \<Rightarrow> Some (i, inode_reopen i s)
      | None \<Rightarrow>
          if p = NULL then Some (NULL, s)
          else do {
            let s = s\<lparr>open_inodes := p # open_inodes s\<rparr>;
            b \<leftarrow> cache_read sec s;
            Some (p, s\<lparr>freed := freed s - {p}, inodes := (inodes s)(p := \<lparr>sector = sec, open_cnt = 1, removed = False, deny_write_cnt = 0,
              data = decode_inode b\<rparr>)\<rparr>) })"

definition inode_get_inumber :: "addr \<Rightarrow> fs \<Rightarrow> u32" where
  "inode_get_inumber i s = sector (inodes s i)"

text \<open>The loop over the entries of an index block.\<close>

fun release_entries :: "(u32 \<Rightarrow> nat \<Rightarrow> fs \<Rightarrow> fs option) \<Rightarrow> nat \<Rightarrow> nat \<Rightarrow> nat \<Rightarrow> nat \<Rightarrow> u32 list \<Rightarrow> fs \<Rightarrow> (nat \<times> fs) option" where
  "release_entries release unit 0 i num_sectors blocks s = Some (num_sectors, s)"
| "release_entries release unit (Suc l) i num_sectors blocks s = do {
     let subsize = min num_sectors unit;
     kassert (i < length blocks);
     s \<leftarrow> release (blocks ! i) subsize s;
     release_entries release unit l (i + 1) (num_sectors - subsize) blocks s }"

primrec inode_deallocate_indirect :: "nat \<Rightarrow> bool \<Rightarrow> u32 \<Rightarrow> nat \<Rightarrow> fs \<Rightarrow> fs option" where
  "inode_deallocate_indirect 0 mem entry num_sectors s = free_map_release mem entry 1 s"
| "inode_deallocate_indirect (Suc level) mem entry num_sectors s = do {
     kassert (Suc level \<le> 2);
     b \<leftarrow> cache_read entry s;
     let unit = (if Suc level = 1 then 1 else INDIRECT_BLOCKS_PER_SECTOR);
     let l = (num_sectors + unit - 1) div unit;
     (n, s) \<leftarrow> release_entries (inode_deallocate_indirect level mem) unit l 0 num_sectors (decode_index b) s;
     kassert (n = 0);
     free_map_release mem entry 1 s }"

fun release_direct :: "bool \<Rightarrow> u32 list \<Rightarrow> fs \<Rightarrow> fs option" where
  "release_direct mem [] s = Some s"
| "release_direct mem (e # es) s = do { s \<leftarrow> free_map_release mem e 1 s; release_direct mem es s }"

definition inode_deallocate :: "bool \<Rightarrow> addr \<Rightarrow> fs \<Rightarrow> (bool \<times> fs) option" where
  "inode_deallocate mem i s =
     (let d = data (inodes s i) in
      if file_len d < 0 then Some (False, s)
      else do {
        let num_sectors = bytes_to_sectors (file_len d);
        let l = min num_sectors DIRECT_BLOCKS_COUNT;
        s \<leftarrow> release_direct mem (take l (direct_blocks d)) s;
        let num_sectors = num_sectors - l;
        let l = min num_sectors INDIRECT_BLOCKS_PER_SECTOR;
        s \<leftarrow> (if l > 0 then inode_deallocate_indirect 1 mem (indirect_block d) l s else Some s);
        let num_sectors = num_sectors - l;
        let l = min num_sectors (INDIRECT_BLOCKS_PER_SECTOR * INDIRECT_BLOCKS_PER_SECTOR);
        s \<leftarrow> (if l > 0 then inode_deallocate_indirect 2 mem (doubly_indirect_block d) l s else Some s);
        let num_sectors = num_sectors - l;
        kassert (num_sectors = 0);
        Some (True, s) })"

definition inode_close :: "bool \<Rightarrow> addr \<Rightarrow> fs \<Rightarrow> fs option" where
  "inode_close mem i s =
     (if i = NULL then Some s
      else do {
        kassert (i \<notin> freed s);
        let s = upd_inode i (\<lambda>ino. ino\<lparr>open_cnt := open_cnt ino - 1\<rparr>) s;
        if open_cnt (inodes s i) = 0
        then do {
          let s = s\<lparr>open_inodes := remove1 i (open_inodes s)\<rparr>;
          if removed (inodes s i)
          then do {
            s \<leftarrow> free_map_release mem (sector (inodes s i)) 1 s;
            (ok, s) \<leftarrow> inode_deallocate mem i s;
            Some (s\<lparr>freed := insert i (freed s)\<rparr>) }
          else Some (s\<lparr>freed := insert i (freed s)\<rparr>) }
        else Some s })"

definition inode_remove :: "addr \<Rightarrow> fs \<Rightarrow> fs option" where
  "inode_remove i s = do { kassert (i \<noteq> NULL \<and> i \<notin> freed s); Some (upd_inode i (\<lambda>ino. ino\<lparr>removed := True\<rparr>) s) }"

definition inode_deny_write :: "addr \<Rightarrow> fs \<Rightarrow> fs option" where
  "inode_deny_write i s = do {
     kassert (i \<notin> freed s);
     let s = upd_inode i (\<lambda>ino. ino\<lparr>deny_write_cnt := deny_write_cnt ino + 1\<rparr>) s;
     kassert (deny_write_cnt (inodes s i) \<le> open_cnt (inodes s i));
     Some s }"

definition inode_allow_write :: "addr \<Rightarrow> fs \<Rightarrow> fs option" where
  "inode_allow_write i s = do {
     kassert (i \<notin> freed s);
     kassert (deny_write_cnt (inodes s i) > 0);
     kassert (deny_write_cnt (inodes s i) \<le> open_cnt (inodes s i));
     Some (upd_inode i (\<lambda>ino. ino\<lparr>deny_write_cnt := deny_write_cnt ino - 1\<rparr>) s) }"

definition inode_length :: "addr \<Rightarrow> fs \<Rightarrow> int" where
  "inode_length i s = file_len (data (inodes s i))"

definition inode_is_directory :: "addr \<Rightarrow> fs \<Rightarrow> bool" where
  "inode_is_directory i s = is_dir (data (inodes s i))"

definition inode_is_removed :: "addr \<Rightarrow> fs \<Rightarrow> bool" where
  "inode_is_removed i s = removed (inodes s i)"

section \<open>Open files\<close>

text \<open>\<open>p\<close> is what \<^verbatim>\<open>calloc\<close> returns.\<close>

definition file_open :: "bool \<Rightarrow> addr \<Rightarrow> addr \<Rightarrow> fs \<Rightarrow> (addr \<times> fs) option" where
  "file_open mem p i s =
     (if i \<noteq> NULL \<and> p \<noteq> NULL
      then Some (p, s\<lparr>files := (files s)(p := \<lparr>file_inode = i, pos = 0, deny_write = False\<rparr>)\<rparr>)
      else do { s \<leftarrow> inode_close mem i s; Some (NULL, s) })"

definition file_reopen :: "bool \<Rightarrow> addr \<Rightarrow> addr \<Rightarrow> fs \<Rightarrow> (addr \<times> fs) option" where
  "file_reopen mem p f s =
     (let i = file_inode (files s f) in file_open mem p i (inode_reopen i s))"

definition upd_file :: "addr \<Rightarrow> (file_t \<Rightarrow> file_t) \<Rightarrow> fs \<Rightarrow> fs" where
  "upd_file f g s = s\<lparr>files := (files s)(f := g (files s f))\<rparr>"

definition file_deny_write :: "addr \<Rightarrow> fs \<Rightarrow> fs option" where
  "file_deny_write f s = do {
     kassert (f \<noteq> NULL);
     if \<not> deny_write (files s f)
     then inode_deny_write (file_inode (files s f)) (upd_file f (\<lambda>x. x\<lparr>deny_write := True\<rparr>) s)
     else Some s }"

definition file_allow_write :: "addr \<Rightarrow> fs \<Rightarrow> fs option" where
  "file_allow_write f s = do {
     kassert (f \<noteq> NULL);
     if deny_write (files s f)
     then inode_allow_write (file_inode (files s f)) (upd_file f (\<lambda>x. x\<lparr>deny_write := False\<rparr>) s)
     else Some s }"

definition file_close :: "bool \<Rightarrow> addr \<Rightarrow> fs \<Rightarrow> fs option" where
  "file_close mem f s =
     (if f \<noteq> NULL then do { s \<leftarrow> file_allow_write f s; inode_close mem (file_inode (files s f)) s } else Some s)"

definition file_get_inode :: "addr \<Rightarrow> fs \<Rightarrow> addr" where
  "file_get_inode f s = file_inode (files s f)"

definition file_read_at :: "bool \<Rightarrow> addr \<Rightarrow> int \<Rightarrow> int \<Rightarrow> fs \<Rightarrow> byte list option" where
  "file_read_at mem f sz file_ofs s = inode_read_at mem (file_inode (files s f)) sz file_ofs s"

definition file_read :: "bool \<Rightarrow> addr \<Rightarrow> int \<Rightarrow> fs \<Rightarrow> (byte list \<times> fs) option" where
  "file_read mem f sz s = do {
     bs \<leftarrow> inode_read_at mem (file_inode (files s f)) sz (pos (files s f)) s;
     Some (bs, upd_file f (\<lambda>x. x\<lparr>pos := pos x + int (length bs)\<rparr>) s) }"

definition file_write_at :: "bool \<Rightarrow> addr \<Rightarrow> byte list \<Rightarrow> int \<Rightarrow> int \<Rightarrow> fs \<Rightarrow> (nat \<times> fs) option" where
  "file_write_at mem f buffer sz file_ofs s = inode_write_at mem (file_inode (files s f)) buffer sz file_ofs s"

definition file_write :: "bool \<Rightarrow> addr \<Rightarrow> byte list \<Rightarrow> int \<Rightarrow> fs \<Rightarrow> (nat \<times> fs) option" where
  "file_write mem f buffer sz s = do {
     (n, s) \<leftarrow> inode_write_at mem (file_inode (files s f)) buffer sz (pos (files s f)) s;
     Some (n, upd_file f (\<lambda>x. x\<lparr>pos := pos x + int n\<rparr>) s) }"

definition file_length :: "addr \<Rightarrow> fs \<Rightarrow> int option" where
  "file_length f s = do { kassert (f \<noteq> NULL); Some (inode_length (file_inode (files s f)) s) }"

definition file_seek :: "addr \<Rightarrow> int \<Rightarrow> fs \<Rightarrow> fs option" where
  "file_seek f new_pos s = do {
     kassert (f \<noteq> NULL);
     kassert (new_pos \<ge> 0);
     Some (upd_file f (\<lambda>x. x\<lparr>pos := new_pos\<rparr>) s) }"

definition file_tell :: "addr \<Rightarrow> fs \<Rightarrow> int option" where
  "file_tell f s = do { kassert (f \<noteq> NULL); Some (pos (files s f)) }"

section \<open>The free map on the disk\<close>

text \<open>\<open>p\<close> and \<open>f\<close> are the allocations of the inode and of the file.\<close>

definition open_free_map_file :: "bool \<Rightarrow> addr \<Rightarrow> addr \<Rightarrow> fs \<Rightarrow> fs option" where
  "open_free_map_file mem p f s = do {
     (i, s) \<leftarrow> inode_open p FREE_MAP_SECTOR s;
     (f, s) \<leftarrow> file_open mem f i s;
     let s = s\<lparr>free_map_file := f\<rparr>;
     kassert (free_map_file s \<noteq> NULL);
     Some s }"

text \<open>\<^verbatim>\<open>bitmap_read\<close> into the free map.\<close>

definition free_map_read :: "bool \<Rightarrow> fs \<Rightarrow> (bool \<times> fs) option" where
  "free_map_read mem s =
     (let b = free_map s in
      if bit_cnt b > 0
      then do {
        let sz = byte_cnt (bit_cnt b);
        bs \<leftarrow> file_read_at mem (free_map_file s) (int sz) 0 s;
        let old = bitmap_bytes b;
        let new = bs @ drop (length bs) old;
        let ws = map (word_at new) [0..<elem_cnt (bit_cnt b)];
        let ws = ws[elem_cnt (bit_cnt b) - 1 := ws ! (elem_cnt (bit_cnt b) - 1) AND last_mask b];
        Some (length bs = sz, s\<lparr>free_map := b\<lparr>bits := ws\<rparr>\<rparr>) }
      else Some (True, s))"

definition free_map_open :: "bool \<Rightarrow> addr \<Rightarrow> addr \<Rightarrow> fs \<Rightarrow> fs option" where
  "free_map_open mem p f s = do {
     s \<leftarrow> open_free_map_file mem p f s;
     (ok, s) \<leftarrow> free_map_read mem s;
     kassert ok;
     Some s }"

definition free_map_close :: "bool \<Rightarrow> fs \<Rightarrow> fs option" where
  "free_map_close mem s = file_close mem (free_map_file s) s"

definition free_map_create :: "bool \<Rightarrow> bool \<Rightarrow> addr \<Rightarrow> addr \<Rightarrow> fs \<Rightarrow> fs option" where
  "free_map_create cal mem p f s = do {
     (ok, s) \<leftarrow> inode_create cal mem FREE_MAP_SECTOR (int (byte_cnt (bit_cnt (free_map s)))) False s;
     kassert ok;
     s \<leftarrow> open_free_map_file mem p f s;
     (ok, s) \<leftarrow> free_map_write mem s;
     kassert ok;
     Some s }"

end
