(* ===== verification/InodeData.thy ===== *)
theory InodeData
  imports Inode
begin

text \<open>
  The contents of files: the encodings of the disk structures are undone by their decodings, and
  on a well-formed file \<^verbatim>\<open>inode_read_at\<close> and \<^verbatim>\<open>inode_write_at\<close> act as on an array of bytes. Two
  theorems state what the code does on two inputs that its authors did not mean: a write of no
  bytes at offset 0, and the extension of a file on a full disk.
\<close>

lemmas block_sizes = BLOCK_SECTOR_SIZE_def DIRECT_BLOCKS_COUNT_def INDIRECT_BLOCKS_PER_SECTOR_def

section \<open>Encodings\<close>

lemma length_encode_index [simp]: "length (encode_index ws) = 4 * length ws"
  by (induction ws) (simp_all add: encode_index_def)

lemma drop_encode_index: "i \<le> length ws \<Longrightarrow> drop (4 * i) (encode_index ws @ bs) = encode_index (drop i ws) @ bs"
proof (induction ws arbitrary: i)
  case (Cons w ws)
  show ?case
  proof (cases i)
    case (Suc j)
    then have "drop (4 * i) (encode_index (w # ws) @ bs) = drop (4 * j) (encode_index ws @ bs)"
      by (simp add: encode_index_def)
    then show ?thesis using Cons Suc by simp
  qed simp
qed (simp add: encode_index_def)

lemma word_at_encode_index: "i < length ws \<Longrightarrow> word_at (encode_index ws @ bs) i = ws ! i"
proof -
  assume i: "i < length ws"
  then have "drop i ws = ws ! i # drop (Suc i) ws" by (simp add: Cons_nth_drop_Suc)
  then have "take 4 (drop (4 * i) (encode_index ws @ bs)) = encode32 (ws ! i)"
    using drop_encode_index [of i ws bs] i by (simp add: encode_index_def)
  then show ?thesis by (simp add: word_at_def)
qed

lemma decode_encode_index: "length ws = INDIRECT_BLOCKS_PER_SECTOR \<Longrightarrow> decode_index (encode_index ws) = ws"
  using word_at_encode_index [of _ ws "[]"] by (intro nth_equalityI) (simp_all add: decode_index_def)

lemma encode_inode_index:
  "encode_inode d = encode_index (direct_blocks d @ [indirect_block d, doubly_indirect_block d]) @
     ([if is_dir d then 1 else 0, 0, 0, 0] @ encode_index [of_int (file_len d), magic d])"
  by (simp add: encode_inode_def encode_index_def)

lemma sint_of_int: "off_ok i \<Longrightarrow> sint (of_int i :: u32) = i"
proof -
  assume o: "off_ok i"
  have "sint (of_int i :: u32) = signed_take_bit 31 i" by (simp add: sint_sbintrunc')
  also have "\<dots> = i" using o by (intro signed_take_bit_int_eq_self) (auto simp: off_ok_def)
  finally show ?thesis .
qed

lemma decode_encode_inode:
  assumes "length (direct_blocks d) = DIRECT_BLOCKS_COUNT" and "- (2 ^ 31) \<le> file_len d" "file_len d < 2 ^ 31"
  shows "decode_inode (encode_inode d) = d" "length (encode_inode d) = BLOCK_SECTOR_SIZE"
proof -
  let ?ws = "direct_blocks d @ [indirect_block d, doubly_indirect_block d]"
  let ?e = "encode_inode d" and ?t = "[if is_dir d then 1 else 0, 0, 0, 0] :: byte list"
  have l: "length ?ws = 125" using assms(1) by (simp add: DIRECT_BLOCKS_COUNT_def)
  have e: "?e = encode_index ?ws @ (?t @ encode_index [of_int (file_len d), magic d])" by (rule encode_inode_index)
  have len: "length ?e = 512" unfolding e using l by simp
  have w: "word_at ?e i = ?ws ! i" if "i < 125" for i unfolding e using word_at_encode_index that l by metis
  have direct: "map (word_at ?e) [0..<DIRECT_BLOCKS_COUNT] = direct_blocks d"
    using assms(1) w by (intro nth_equalityI) (simp_all add: DIRECT_BLOCKS_COUNT_def nth_append)
  have ind: "word_at ?e 123 = indirect_block d" "word_at ?e 124 = doubly_indirect_block d"
    using w [of 123] w [of 124] assms(1) by (simp_all add: nth_append DIRECT_BLOCKS_COUNT_def)
  have dir: "?e ! 500 = (if is_dir d then 1 else 0)" unfolding e using l by (simp add: nth_append)
  have tl: "drop 504 ?e = encode_index [of_int (file_len d), magic d]" unfolding e using l by simp
  have shift: "word_at ?e (126 + j) = word_at (encode_index [of_int (file_len d), magic d]) j" for j
    unfolding tl [symmetric] by (simp add: word_at_def algebra_simps)
  have tail: "word_at ?e 126 = of_int (file_len d)" "word_at ?e 127 = magic d"
    using shift [of 0] shift [of 1] word_at_encode_index [of _ "[of_int (file_len d), magic d]" "[]"] by simp_all
  show "decode_inode ?e = d"
    using direct ind dir tail sint_of_int [of "file_len d"] assms(2,3) by (cases d) (simp add: decode_inode_def off_ok_def)
  show "length ?e = BLOCK_SECTOR_SIZE" using len by (simp add: block_sizes)
qed

text \<open>The inode on the disk fills a sector exactly and reads back as it was written, and so does
  a block of indirect entries.\<close>

theorem inode_disk_roundtrip:
  assumes "length (direct_blocks d) = DIRECT_BLOCKS_COUNT" and "- (2 ^ 31) \<le> file_len d" "file_len d < 2 ^ 31"
    and "length ws = INDIRECT_BLOCKS_PER_SECTOR"
  shows "length (encode_inode d) = BLOCK_SECTOR_SIZE \<and> decode_inode (encode_inode d) = d \<and>
    length (encode_index ws) = BLOCK_SECTOR_SIZE \<and> decode_index (encode_index ws) = ws"
  using decode_encode_inode [OF assms(1-3)] decode_encode_index [OF assms(4)] assms(4) by (simp add: block_sizes)

theorem inode_disk_roundtrip_witness:
  "decode_inode (encode_inode \<lparr>direct_blocks = replicate 123 9, indirect_block = 7, doubly_indirect_block = 0,
     is_dir = True, file_len = 600, magic = INODE_MAGIC\<rparr>) =
   \<lparr>direct_blocks = replicate 123 9, indirect_block = 7, doubly_indirect_block = 0, is_dir = True, file_len = 600, magic = INODE_MAGIC\<rparr>"
  using inode_disk_roundtrip [of "\<lparr>direct_blocks = replicate 123 9, indirect_block = 7, doubly_indirect_block = 0,
     is_dir = True, file_len = 600, magic = INODE_MAGIC\<rparr>" "replicate 128 0"] by (simp add: block_sizes)

section \<open>Well-formed files\<close>

text \<open>The sector of the \<open>i\<close>-th block of a file, and the sectors of the index blocks that the first
  \<open>n\<close> blocks need.\<close>

definition sec :: "fs \<Rightarrow> inode_disk \<Rightarrow> nat \<Rightarrow> u32" where
  "sec s d i = (case index_to_sector d i s of Some x \<Rightarrow> x | None \<Rightarrow> - 1)"

definition index_sectors :: "fs \<Rightarrow> inode_disk \<Rightarrow> nat \<Rightarrow> u32 set" where
  "index_sectors s d n = (if 123 < n then {indirect_block d} else {}) \<union>
     (if 251 < n then insert (doubly_indirect_block d) (set (take ((n - 124) div 128) (decode_index (disk s (doubly_indirect_block d))))) else {})"

text \<open>Every block has a sector of its own on the device, apart from the index blocks.\<close>

definition file_ok :: "fs \<Rightarrow> inode_disk \<Rightarrow> bool" where
  "file_ok s d \<longleftrightarrow> (let n = bytes_to_sectors (file_len d) in
     0 \<le> file_len d \<and> n \<le> 123 + 128 + 128 * 128 \<and> length (direct_blocks d) = 123 \<and> fs_size s < 2 ^ 32 \<and>
     (\<forall>x \<in> index_sectors s d n. unat x < fs_size s) \<and>
     (\<forall>i < n. unat (sec s d i) < fs_size s \<and> sec s d i \<noteq> - 1 \<and> sec s d i \<notin> index_sectors s d n \<and> length (disk s (sec s d i)) = 512) \<and>
     inj_on (sec s d) {..<n})"

text \<open>Byte \<open>k\<close> of a file, and all of its bytes.\<close>

definition file_byte :: "fs \<Rightarrow> inode_disk \<Rightarrow> nat \<Rightarrow> byte" where
  "file_byte s d k = disk s (sec s d (k div 512)) ! (k mod 512)"

definition contents :: "fs \<Rightarrow> inode_disk \<Rightarrow> byte list" where
  "contents s d = map (file_byte s d) [0..<nat (file_len d)]"

lemma file_okD:
  assumes "file_ok s d"
  shows "0 \<le> file_len d" "bytes_to_sectors (file_len d) \<le> 16635" "length (direct_blocks d) = 123" "fs_size s < 2 ^ 32"
    "x \<in> index_sectors s d (bytes_to_sectors (file_len d)) \<Longrightarrow> unat x < fs_size s"
    "i < bytes_to_sectors (file_len d) \<Longrightarrow> unat (sec s d i) < fs_size s \<and> sec s d i \<noteq> - 1 \<and>
       sec s d i \<notin> index_sectors s d (bytes_to_sectors (file_len d)) \<and> length (disk s (sec s d i)) = 512"
    "inj_on (sec s d) {..<bytes_to_sectors (file_len d)}"
  using assms unfolding file_ok_def Let_def by auto

lemma bytes_to_sectors_nat: "0 \<le> len \<Longrightarrow> bytes_to_sectors len = (nat len + 511) div 512"
proof -
  assume "0 \<le> len"
  then obtain m where m: "len = int m" by (metis nonneg_int_cases)
  have "(int m + 511) div 512 = int ((m + 511) div 512)" by (simp add: zdiv_int)
  then show ?thesis by (simp add: bytes_to_sectors_def BLOCK_SECTOR_SIZE_def m)
qed

lemma nth_in_take: "j < m \<Longrightarrow> j < length xs \<Longrightarrow> xs ! j \<in> set (take m xs)"
  by (metis length_take min_less_iff_conj nth_mem nth_take)

lemma entry_bound:
  assumes "(251 :: nat) \<le> i" "i < n" "n \<le> 16635"
  shows "(i - 251) div 128 < (n - 124) div 128" "(i - 251) div 128 < 128"
proof -
  have "(i - 251 + 128) div 128 \<le> (n - 124) div 128" using assms by (intro div_le_mono) simp
  then show "(i - 251) div 128 < (n - 124) div 128" by simp
  show "(i - 251) div 128 < 128" using assms by (intro less_mult_imp_div_less) simp
qed

lemma block_index:
  "0 \<le> len \<Longrightarrow> k < nat len \<Longrightarrow> k div 512 < bytes_to_sectors len"
  using div_le_mono [of "k + 512" "nat len + 511" 512] by (simp add: bytes_to_sectors_nat)

lemma index_defined:
  assumes ok: "file_ok s d" and i: "i < bytes_to_sectors (file_len d)"
  shows "index_to_sector d i s = Some (sec s d i)"
proof -
  let ?n = "bytes_to_sectors (file_len d)"
  note x = file_okD(5) [OF ok]
  consider "i < 123" | "123 \<le> i" "i < 251" | "251 \<le> i" by linarith
  then have "index_to_sector d i s \<noteq> None"
  proof cases
    case 1 then show ?thesis by (simp add: index_to_sector_def block_sizes)
  next
    case 2
    then have "unat (indirect_block d) < fs_size s" using x i by (simp add: index_sectors_def)
    then show ?thesis using 2 by (simp add: index_to_sector_def block_sizes cache_read_def Let_def)
  next
    case 3
    let ?b = "decode_index (disk s (doubly_indirect_block d))"
    have l: "length ?b = 128" by (simp add: decode_index_def block_sizes)
    have f: "(i - 251) div 128 < (?n - 124) div 128" "(i - 251) div 128 < 128"
      using entry_bound [OF 3 i file_okD(2) [OF ok]] by auto
    then have "?b ! ((i - 251) div 128) \<in> set (take ((?n - 124) div 128) ?b)"
      using l by (intro nth_in_take) auto
    then have "unat (?b ! ((i - 251) div 128)) < fs_size s" "unat (doubly_indirect_block d) < fs_size s"
      using x 3 i by (auto simp: index_sectors_def)
    then show ?thesis using 3 i file_okD(2) [OF ok] by (simp add: index_to_sector_def block_sizes cache_read_def Let_def)
  qed
  then show ?thesis by (auto simp: sec_def)
qed

text \<open>Only the index blocks matter for the place of a block.\<close>

lemma sec_frame:
  assumes ok: "file_ok s d" and same: "\<And>x. x \<in> index_sectors s d (bytes_to_sectors (file_len d)) \<Longrightarrow> disk s' x = disk s x"
    and fs: "fs_size s' = fs_size s"
  shows "index_sectors s' d (bytes_to_sectors (file_len d)) = index_sectors s d (bytes_to_sectors (file_len d))"
    "i < bytes_to_sectors (file_len d) \<Longrightarrow> sec s' d i = sec s d i"
proof -
  let ?n = "bytes_to_sectors (file_len d)"
  have dbl: "disk s' (doubly_indirect_block d) = disk s (doubly_indirect_block d)" if "251 < ?n" using same that by (simp add: index_sectors_def)
  then show "index_sectors s' d ?n = index_sectors s d ?n" by (simp add: index_sectors_def)
  assume i: "i < ?n"
  consider "i < 123" | "123 \<le> i" "i < 251" | "251 \<le> i" by linarith
  then have "index_to_sector d i s' = index_to_sector d i s"
  proof cases
    case 1 then show ?thesis by (simp add: index_to_sector_def block_sizes)
  next
    case 2
    then have "disk s' (indirect_block d) = disk s (indirect_block d)" using same i by (simp add: index_sectors_def)
    then show ?thesis using 2 fs by (simp add: index_to_sector_def block_sizes cache_read_def Let_def)
  next
    case 3
    let ?b = "decode_index (disk s (doubly_indirect_block d))"
    have l: "length ?b = 128" by (simp add: decode_index_def block_sizes)
    have f: "(i - 251) div 128 < (?n - 124) div 128" "(i - 251) div 128 < 128"
      using entry_bound [OF 3 i file_okD(2) [OF ok]] by auto
    then have "?b ! ((i - 251) div 128) \<in> set (take ((?n - 124) div 128) ?b)"
      using l by (intro nth_in_take) auto
    then have "disk s' (?b ! ((i - 251) div 128)) = disk s (?b ! ((i - 251) div 128))" using same 3 i by (simp add: index_sectors_def)
    moreover have "disk s' (doubly_indirect_block d) = disk s (doubly_indirect_block d)" using dbl 3 i by simp
    ultimately show ?thesis using 3 fs by (simp add: index_to_sector_def block_sizes cache_read_def Let_def)
  qed
  then show "sec s' d i = sec s d i" by (simp add: sec_def)
qed

section \<open>Reading\<close>

text \<open>The blocks and offsets inside a chunk.\<close>

lemma chunk_size_le:
  assumes "chunk_size d sz off = c"
  shows "c \<le> sz" "c \<le> nat (file_len d) - off" "off mod 512 + c \<le> 512"
    "c = 0 \<longleftrightarrow> sz = 0 \<or> nat (file_len d) \<le> off"
proof -
  have m: "off mod 512 < 512" by simp
  show "c \<le> sz" "c \<le> nat (file_len d) - off" "off mod 512 + c \<le> 512" "c = 0 \<longleftrightarrow> sz = 0 \<or> nat (file_len d) \<le> off"
    using m unfolding assms [symmetric] by (auto simp: chunk_size_def Let_def block_sizes)
qed

lemma div_mod_add:
  assumes "off mod 512 + j < (512 :: nat)"
  shows "(off + j) div 512 = off div 512" "(off + j) mod 512 = off mod 512 + j"
proof -
  have "off + j = off div 512 * 512 + (off mod 512 + j)" by (simp add: algebra_simps)
  then show "(off + j) div 512 = off div 512" "(off + j) mod 512 = off mod 512 + j"
    using assms by (metis add.right_neutral div_less div_mult_self3 zero_neq_numeral add.commute, metis mod_less mod_mult_self3)
qed

lemma upt_add_map: "map f [a..<a + n] = map (\<lambda>j. f (a + j)) [0..<n]"
  by (intro nth_equalityI) simp_all

lemma chunk_bytes:
  assumes len: "length (disk s (sec s d (off div 512))) = 512" and c: "off mod 512 + c \<le> 512"
  shows "take c (drop (off mod 512) (disk s (sec s d (off div 512)))) = map (file_byte s d) [off..<off + c]"
  unfolding upt_add_map
proof (rule nth_equalityI)
  fix j assume "j < length (take c (drop (off mod 512) (disk s (sec s d (off div 512)))))"
  then have j: "j < c" by simp
  then have o: "off mod 512 + j < 512" using c by simp
  show "take c (drop (off mod 512) (disk s (sec s d (off div 512)))) ! j = map (\<lambda>j. file_byte s d (off + j)) [0..<c] ! j"
    using j len c div_mod_add [OF o] by (simp add: file_byte_def)
qed (use len c in simp)

lemma read_loop_ok:
  "file_ok s d \<Longrightarrow> read_loop True d sz off s = Some (map (file_byte s d) [off..<min (off + sz) (nat (file_len d))])"
proof (induction "True" d sz off s rule: read_loop.induct)
  case (1 d sz off s)
  note ok = "1.prems"
  let ?len = "nat (file_len d)"
  show ?case
  proof (cases "sz = 0 \<or> ?len \<le> off")
    case True
    then have "byte_to_sector d (int off) s = Some (- 1)" if "sz \<noteq> 0" using that by (auto simp: byte_to_sector_def)
    then show ?thesis using True chunk_size_le(4) [OF refl, of d sz off]
      by (cases "sz = 0"; subst read_loop.simps) (simp_all add: Let_def)
  next
    case False
    define c where "c = chunk_size d sz off"
    note c = chunk_size_le [OF c_def [symmetric]]
    have pos: "0 < sz" "c \<noteq> 0" using False c(4) by auto
    have inside: "int off < file_len d" using False by linarith
    then have b: "byte_to_sector d (int off) s = Some (sec s d (off div 512))"
      using index_defined [OF ok block_index [OF file_okD(1) [OF ok], of off]] False
      by (simp add: byte_to_sector_def block_sizes)
    note sec = file_okD(6) [OF ok block_index [OF file_okD(1) [OF ok], of off]]
    have len: "length (disk s (sec s d (off div 512))) = 512" and in_dev: "unat (sec s d (off div 512)) < fs_size s"
      using sec False by auto
    have r: "cache_read (sec s d (off div 512)) s = Some (disk s (sec s d (off div 512)))" using in_dev by (simp add: cache_read_def)
    have IH: "read_loop True d (sz - c) (off + c) s = Some (map (file_byte s d) [off + c..<min (off + c + (sz - c)) ?len])"
      using "1.hyps" [OF pos(1) b refl c_def pos(2)] r ok c_def by (cases "off mod BLOCK_SECTOR_SIZE = 0 \<and> c = BLOCK_SECTOR_SIZE") auto
    have bytes: "take c (drop (off mod 512) (disk s (sec s d (off div 512)))) = map (file_byte s d) [off..<off + c]"
      using chunk_bytes [OF len] c(3) by simp
    have full: "disk s (sec s d (off div 512)) = map (file_byte s d) [off..<off + c]" if "off mod 512 = 0" "c = 512"
      using bytes that len by simp
    have split: "[off..<min (off + sz) ?len] = [off..<off + c] @ [off + c..<min (off + c + (sz - c)) ?len]"
      using c(1,2) False by (simp add: upt_add_eq_append [symmetric]) (metis le_add1 le_add_diff_inverse min.boundedI nat_add_left_cancel_le not_le less_imp_le upt_add_eq_append)
    show ?thesis
    proof (cases "off mod 512 = 0 \<and> c = 512")
      case True
      then show ?thesis using pos b r IH full unfolding split map_append
        by (subst read_loop.simps) (simp add: c_def [symmetric] Let_def BLOCK_SECTOR_SIZE_def)
    next
      case False
      then show ?thesis using pos b r IH bytes unfolding split map_append
        by (subst read_loop.simps) (auto simp: c_def [symmetric] Let_def BLOCK_SECTOR_SIZE_def)
    qed
  qed
qed

section \<open>Writing\<close>

text \<open>What a write of one block leaves: the same file, with the bytes of the chunk.\<close>

lemma write_block:
  assumes ok: "file_ok s d" and k: "off < nat (file_len d)" and c: "off mod 512 + c \<le> 512"
    and b: "b = take (off mod 512) old @ bytes @ drop (off mod 512 + c) old" "length bytes = c" "length old = 512"
    and old: "c < 512 \<longrightarrow> old = disk s (sec s d (off div 512))"
    and s': "s' = s\<lparr>disk := (disk s)(sec s d (off div 512) := b)\<rparr>"
  shows "cache_write (sec s d (off div 512)) b s = Some s'" "file_ok s' d"
    "i < bytes_to_sectors (file_len d) \<Longrightarrow> sec s' d i = sec s d i"
    "x < nat (file_len d) \<Longrightarrow> file_byte s' d x = (if off \<le> x \<and> x < off + c then bytes ! (x - off) else file_byte s d x)"
    "y \<notin> sec s d ` {..<bytes_to_sectors (file_len d)} \<Longrightarrow> disk s' y = disk s y"
proof -
  let ?n = "bytes_to_sectors (file_len d)" and ?i = "off div 512"
  have len0: "0 \<le> file_len d" by (rule file_okD(1) [OF ok])
  have i: "?i < ?n" by (rule block_index [OF len0 k])
  note si = file_okD(6) [OF ok i]
  show "cache_write (sec s d ?i) b s = Some s'" using si s' by (simp add: cache_write_def)
  have lb: "length b = 512" using b c by simp
  have same: "disk s' x = disk s x" if "x \<in> index_sectors s d ?n" for x using that si s' by auto
  have fs: "fs_size s' = fs_size s" using s' by simp
  note frame = sec_frame [OF ok same fs]
  show sec: "sec s' d i = sec s d i" if "i < ?n" for i using frame(2) that by blast
  have "length (disk s' (sec s d i)) = 512" if "i < ?n" for i using file_okD(6) [OF ok that] lb s' by simp
  moreover have "inj_on (sec s' d) {..<?n} = inj_on (sec s d) {..<?n}" by (intro inj_on_cong) (simp add: sec)
  ultimately show "file_ok s' d"
    using ok frame(1) fs sec unfolding file_ok_def Let_def by simp
  show "disk s' y = disk s y" if "y \<notin> sec s d ` {..<?n}" using that i s' by auto
  show "file_byte s' d x = (if off \<le> x \<and> x < off + c then bytes ! (x - off) else file_byte s d x)" if x: "x < nat (file_len d)"
  proof (cases "x div 512 = ?i")
    case False
    have xi: "x div 512 < ?n" by (rule block_index [OF len0 x])
    have "sec s d (x div 512) \<noteq> sec s d ?i" using file_okD(7) [OF ok] xi i False by (auto simp: inj_on_def)
    moreover have "\<not> (off \<le> x \<and> x < off + c)"
    proof
      assume a: "off \<le> x \<and> x < off + c"
      then have "x - off < c" by linarith
      then have "off mod 512 + (x - off) < 512" using c by linarith
      from div_mod_add(1) [OF this] a False show False by simp
    qed
    ultimately show ?thesis using sec [OF xi] s' by (auto simp: file_byte_def)
  next
    case True
    have xs: "file_byte s' d x = b ! (x mod 512)" using sec [OF i] s' True by (simp add: file_byte_def)
    have xo: "x = 512 * ?i + x mod 512" "off = 512 * ?i + off mod 512" using True by (metis mult_div_mod_eq)+
    show ?thesis
    proof (cases "off \<le> x \<and> x < off + c")
      case in_c: True
      then have "off mod 512 \<le> x mod 512" "x mod 512 < off mod 512 + c" "x mod 512 - off mod 512 = x - off" "x - off < c"
        using xo by linarith+
      then show ?thesis using xs in_c b c by (simp add: nth_append)
    next
      case out: False
      then have o: "x mod 512 < off mod 512 \<or> off mod 512 + c \<le> x mod 512" using xo by linarith
      have m: "x mod 512 < 512" by simp
      then have "c < 512" using o c by auto
      then have "old = disk s (sec s d ?i)" by (rule old [rule_format])
      then show ?thesis using xs out o b c m True by (auto simp: nth_append file_byte_def)
    qed
  qed
qed

lemma write_loop_ok:
  "file_ok s d \<Longrightarrow> off + sz \<le> nat (file_len d) \<Longrightarrow> sz \<le> length buffer \<Longrightarrow>
   \<exists>s'. write_loop True d buffer sz off s = Some (sz, s') \<and> file_ok s' d \<and> s' = s\<lparr>disk := disk s'\<rparr> \<and>
     (\<forall>k < nat (file_len d). file_byte s' d k = (if off \<le> k \<and> k < off + sz then buffer ! (k - off) else file_byte s d k)) \<and>
     (\<forall>i < bytes_to_sectors (file_len d). sec s' d i = sec s d i) \<and>
     (\<forall>x. x \<notin> sec s d ` {..<bytes_to_sectors (file_len d)} \<longrightarrow> disk s' x = disk s x)"
proof (induction sz arbitrary: off buffer s rule: less_induct)
  case (less sz)
  note ok = less.prems(1)
  let ?n = "bytes_to_sectors (file_len d)"
  show ?case
  proof (cases "sz = 0")
    case True then show ?thesis using ok by (subst write_loop.simps) simp
  next
    case False
    define c where "c = chunk_size d sz off"
    note c = chunk_size_le [OF c_def [symmetric]]
    have k: "off < nat (file_len d)" using less.prems(2) False by simp
    have pos: "0 < sz" "c \<noteq> 0" using False c(4) k by auto
    have inside: "int off < file_len d" using k by linarith
    have len0: "0 \<le> file_len d" by (rule file_okD(1) [OF ok])
    have i: "off div 512 < ?n" by (rule block_index [OF len0 k])
    note si = file_okD(6) [OF ok i]
    have b: "byte_to_sector d (int off) s = Some (sec s d (off div 512))"
      using index_defined [OF ok i] inside by (simp add: byte_to_sector_def block_sizes)
    have lb: "length (take c buffer) = c" using c(1) less.prems(3) by simp
    define old where "old = (if off mod 512 > 0 \<or> c < 512 - off mod 512 then disk s (sec s d (off div 512)) else zeros)"
    have old: "length old = 512" using si by (auto simp: old_def zeros_def block_sizes)
    have old2: "c < 512 \<longrightarrow> old = disk s (sec s d (off div 512))" by (cases "off mod 512 = 0") (auto simp: old_def)
    define b1 where "b1 = take (off mod 512) old @ take c buffer @ drop (off mod 512 + c) old"
    define s1 where "s1 = s\<lparr>disk := (disk s)(sec s d (off div 512) := b1)\<rparr>"
    note wb = write_block [OF ok k c(3) b1_def lb old old2 s1_def]
    have step: "write_loop True d buffer sz off s = do { (n, s') \<leftarrow> write_loop True d (drop c buffer) (sz - c) (off + c) s1; Some (c + n, s') }"
    proof (cases "off mod 512 = 0 \<and> c = 512")
      case True
      then have "b1 = take 512 buffer" using lb old by (simp add: b1_def)
      then show ?thesis using True pos b wb(1) by (subst write_loop.simps) (simp add: c_def [symmetric] Let_def BLOCK_SECTOR_SIZE_def)
    next
      case False
      have r: "(if off mod 512 > 0 \<or> c < 512 - off mod 512 then cache_read (sec s d (off div 512)) s else Some zeros) = Some old"
        by (cases "off mod 512 > 0 \<or> c < 512 - off mod 512")
          (simp_all only: old_def cache_read_def if_True if_False si simp_thms)
      have nf: "(off mod 512 = 0 \<and> c = 512) = False" using False by simp
      show ?thesis using pos b wb(1) r unfolding b1_def
        by (subst write_loop.simps) (simp add: c_def [symmetric] Let_def BLOCK_SECTOR_SIZE_def nf)
    qed
    have "sz - c < sz" "off + c + (sz - c) \<le> nat (file_len d)" "sz - c \<le> length (drop c buffer)"
      using pos c(1) less.prems(2,3) by auto
    from less.IH [OF this(1) wb(2) this(2,3)] obtain s2 where s2:
      "write_loop True d (drop c buffer) (sz - c) (off + c) s1 = Some (sz - c, s2)" "file_ok s2 d" "s2 = s1\<lparr>disk := disk s2\<rparr>"
      "\<forall>k < nat (file_len d). file_byte s2 d k = (if off + c \<le> k \<and> k < off + c + (sz - c) then drop c buffer ! (k - (off + c)) else file_byte s1 d k)"
      "\<forall>i < ?n. sec s2 d i = sec s1 d i" "\<forall>x. x \<notin> sec s1 d ` {..<?n} \<longrightarrow> disk s2 x = disk s1 x" by blast
    have img: "sec s1 d ` {..<?n} = sec s d ` {..<?n}" by (intro image_cong) (simp_all add: wb(3))
    have bytes: "file_byte s2 d k = (if off \<le> k \<and> k < off + sz then buffer ! (k - off) else file_byte s d k)" if "k < nat (file_len d)" for k
    proof -
      have e2: "file_byte s2 d k = (if off + c \<le> k \<and> k < off + sz then drop c buffer ! (k - (off + c)) else file_byte s1 d k)"
        using s2(4) that c(1) by simp
      consider "k < off" | "off \<le> k" "k < off + c" | "off + c \<le> k" by linarith
      then show ?thesis
      proof cases
        case 1 then show ?thesis using e2 wb(4) [OF that] by simp
      next
        case 2 then show ?thesis using e2 wb(4) [OF that] c(1) by simp
      next
        case 3
        then have "c + (k - (off + c)) = k - off" by simp
        then show ?thesis using 3 e2 wb(4) [OF that] less.prems(3) c(1) by (simp add: nth_drop)
      qed
    qed
    have "write_loop True d buffer sz off s = Some (sz, s2)" using step s2(1) c(1) by simp
    moreover have "s2 = s\<lparr>disk := disk s2\<rparr>" by (subst s2(3)) (simp add: s1_def)
    ultimately show ?thesis using s2(2,5,6) wb(3,5) img bytes by simp
  qed
qed

section \<open>Files as arrays of bytes\<close>

lemma length_contents [simp]: "length (contents s d) = nat (file_len d)"
  by (simp add: contents_def)

lemma read_contents:
  assumes "file_ok s d"
  shows "read_loop True d sz off s = Some (take sz (drop off (contents s d)))"
proof -
  have "take sz (drop off (contents s d)) = map (file_byte s d) [off..<min (off + sz) (nat (file_len d))]"
    by (simp add: contents_def drop_map take_map min_def take_upt split: if_splits)
  then show ?thesis using read_loop_ok [OF assms] by simp
qed

lemma write_contents:
  assumes "file_ok s d" and "off + sz \<le> nat (file_len d)" and "sz \<le> length buffer"
  shows "\<exists>s'. write_loop True d buffer sz off s = Some (sz, s') \<and> file_ok s' d \<and> s' = s\<lparr>disk := disk s'\<rparr> \<and>
    contents s' d = take off (contents s d) @ take sz buffer @ drop (off + sz) (contents s d) \<and>
    (\<forall>x. x \<notin> sec s d ` {..<bytes_to_sectors (file_len d)} \<longrightarrow> disk s' x = disk s x)"
proof -
  obtain s' where s': "write_loop True d buffer sz off s = Some (sz, s')" "file_ok s' d" "s' = s\<lparr>disk := disk s'\<rparr>"
     "\<forall>k < nat (file_len d). file_byte s' d k = (if off \<le> k \<and> k < off + sz then buffer ! (k - off) else file_byte s d k)"
     "\<forall>x. x \<notin> sec s d ` {..<bytes_to_sectors (file_len d)} \<longrightarrow> disk s' x = disk s x"
    using write_loop_ok [OF assms] by blast
  have "contents s' d = take off (contents s d) @ take sz buffer @ drop (off + sz) (contents s d)" (is "_ = ?r")
  proof (rule nth_equalityI)
    show "length (contents s' d) = length ?r" using assms by simp
    fix k assume "k < length (contents s' d)"
    then have k: "k < nat (file_len d)" by simp
    have l: "length (take off (contents s d)) = off" "length (take sz buffer) = sz" using assms by auto
    consider "k < off" | "off \<le> k" "k < off + sz" | "off + sz \<le> k" by linarith
    then show "contents s' d ! k = ?r ! k"
    proof cases
      case 1 then show ?thesis using s'(4) k l by (simp add: contents_def nth_append)
    next
      case 2
      then have "k - off < sz" by linarith
      then show ?thesis using 2 s'(4) k l assms by (simp add: contents_def nth_append)
    next
      case 3
      then have "\<not> k - off < sz" "off + sz + (k - off - sz) = k" by linarith+
      then show ?thesis using 3 s'(4) k l by (simp add: contents_def nth_append)
    qed
  qed
  then show ?thesis using s'(1,2,3,5) by blast
qed

lemma inode_read_contents:
  assumes "file_ok s (data (inodes s i))" "i \<notin> freed s" "0 \<le> offset" "0 < n"
  shows "inode_read_at True i n offset s = Some (take (nat n) (drop (nat offset) (contents s (data (inodes s i)))))"
  using read_contents [OF assms(1)] assms(2-4) by (simp add: inode_read_at_def)

lemma inode_write_contents:
  assumes ok: "file_ok s (data (inodes s i))" and i: "i \<notin> freed s" "0 \<le> offset" "0 < n" "deny_write_cnt (inodes s i) = 0"
    and le: "offset + n \<le> file_len (data (inodes s i))" "file_len (data (inodes s i)) < 2 ^ 31" "n \<le> int (length buffer)"
  obtains s' where "inode_write_at True i buffer n offset s = Some (nat n, s')" "s' = s\<lparr>disk := disk s'\<rparr>"
    "file_ok s' (data (inodes s i))"
    "contents s' (data (inodes s i)) = take (nat offset) (contents s (data (inodes s i))) @ take (nat n) buffer @
       drop (nat offset + nat n) (contents s (data (inodes s i)))"
    "\<forall>x. x \<notin> sec s (data (inodes s i)) ` {..<bytes_to_sectors (file_len (data (inodes s i)))} \<longrightarrow> disk s' x = disk s x"
proof -
  let ?d = "data (inodes s i)"
  have sz: "nat offset + nat n \<le> nat (file_len ?d)" "nat n \<le> length buffer" using i le by auto
  obtain s' where s': "write_loop True ?d buffer (nat n) (nat offset) s = Some (nat n, s')" "file_ok s' ?d" "s' = s\<lparr>disk := disk s'\<rparr>"
    "contents s' ?d = take (nat offset) (contents s ?d) @ take (nat n) buffer @ drop (nat offset + nat n) (contents s ?d)"
    "\<forall>x. x \<notin> sec s ?d ` {..<bytes_to_sectors (file_len ?d)} \<longrightarrow> disk s' x = disk s x"
    using write_contents [OF ok sz] by blast
  have len0: "0 \<le> file_len ?d" by (rule file_okD(1) [OF ok])
  have "nat (offset + n - 1) < nat (file_len ?d)" using i le by auto
  then have b: "nat (offset + n - 1) div 512 < bytes_to_sectors (file_len ?d)" by (rule block_index [OF len0])
  have "byte_to_sector ?d (offset + n - 1) s = Some (sec s ?d (nat (offset + n - 1) div 512))"
    using index_defined [OF ok b] i le by (simp add: byte_to_sector_def BLOCK_SECTOR_SIZE_def)
  moreover have "sec s ?d (nat (offset + n - 1) div 512) \<noteq> - 1" using file_okD(6) [OF ok b] by blast
  moreover have "off_ok (offset + n)" "off_ok (offset + n - 1)" using i le by (auto simp: off_ok_def)
  ultimately have "inode_write_at True i buffer n offset s = Some (nat n, s')"
    using i s'(1) by (simp add: inode_write_at_def)
  then show ?thesis using that s' by blast
qed

text \<open>C4: On a well-formed file the code reads and writes as on an array of bytes: a read returns
  the bytes from the offset on that the file has; a write inside of the file returns its size,
  replaces exactly these bytes, changes no sector that does not hold data of the file, and keeps
  the file well-formed, so that a read of the same range then returns what was written. The bounce
  buffer is assumed to be available.\<close>

theorem inode_read_write:
  assumes "file_ok s (data (inodes s i))" and "i \<notin> freed s" and "0 \<le> offset" and "0 < n"
  shows "inode_read_at True i n offset s = Some (take (nat n) (drop (nat offset) (contents s (data (inodes s i))))) \<and>
    (deny_write_cnt (inodes s i) = 0 \<and> offset + n \<le> file_len (data (inodes s i)) \<and> file_len (data (inodes s i)) < 2 ^ 31 \<and>
       n \<le> int (length buffer) \<longrightarrow>
     (\<exists>s'. inode_write_at True i buffer n offset s = Some (nat n, s') \<and> s' = s\<lparr>disk := disk s'\<rparr> \<and> file_ok s' (data (inodes s i)) \<and>
       contents s' (data (inodes s i)) = take (nat offset) (contents s (data (inodes s i))) @ take (nat n) buffer @
         drop (nat offset + nat n) (contents s (data (inodes s i))) \<and>
       inode_read_at True i n offset s' = Some (take (nat n) buffer) \<and>
       (\<forall>x. x \<notin> sec s (data (inodes s i)) ` {..<bytes_to_sectors (file_len (data (inodes s i)))} \<longrightarrow> disk s' x = disk s x)))"
proof (intro conjI impI)
  let ?d = "data (inodes s i)"
  show "inode_read_at True i n offset s = Some (take (nat n) (drop (nat offset) (contents s ?d)))"
    by (rule inode_read_contents [OF assms])
  assume a: "deny_write_cnt (inodes s i) = 0 \<and> offset + n \<le> file_len ?d \<and> file_len ?d < 2 ^ 31 \<and> n \<le> int (length buffer)"
  obtain s' where s': "inode_write_at True i buffer n offset s = Some (nat n, s')" "s' = s\<lparr>disk := disk s'\<rparr>" "file_ok s' ?d"
    "contents s' ?d = take (nat offset) (contents s ?d) @ take (nat n) buffer @ drop (nat offset + nat n) (contents s ?d)"
    "\<forall>x. x \<notin> sec s ?d ` {..<bytes_to_sectors (file_len ?d)} \<longrightarrow> disk s' x = disk s x"
    by (rule inode_write_contents [OF assms, of buffer]) (use a in auto)
  have same: "inodes s' = inodes s" "freed s' = freed s" by (subst s'(2), simp)+
  have "nat offset + nat n \<le> nat (file_len ?d)" "nat n \<le> length buffer" using a assms(3,4) by auto
  then have "take (nat n) (drop (nat offset) (contents s' ?d)) = take (nat n) buffer" using s'(4) by simp
  then have "inode_read_at True i n offset s' = Some (take (nat n) buffer)"
    using inode_read_contents [of s' i] s'(3) assms(2-4) same by simp
  then show "\<exists>s'. inode_write_at True i buffer n offset s = Some (nat n, s') \<and> s' = s\<lparr>disk := disk s'\<rparr> \<and> file_ok s' ?d \<and>
       contents s' ?d = take (nat offset) (contents s ?d) @ take (nat n) buffer @ drop (nat offset + nat n) (contents s ?d) \<and>
       inode_read_at True i n offset s' = Some (take (nat n) buffer) \<and>
       (\<forall>x. x \<notin> sec s ?d ` {..<bytes_to_sectors (file_len ?d)} \<longrightarrow> disk s' x = disk s x)"
    using s' by blast
qed

definition sample_inode_disk :: inode_disk where
  "sample_inode_disk = \<lparr>direct_blocks = [50, 60] @ replicate 121 0, indirect_block = 0, doubly_indirect_block = 0,
     is_dir = False, file_len = 600, magic = INODE_MAGIC\<rparr>"

definition sample_fs :: fs where
  "sample_fs = \<lparr>fs_size = 100, disk = (\<lambda>_. replicate 512 0), free_map = \<lparr>bit_cnt = 100, bits = replicate 4 0\<rparr>,
     free_map_file = 0, open_inodes = [10],
     inodes = (\<lambda>_. \<lparr>sector = 40, open_cnt = 1, removed = False, deny_write_cnt = 0, data = sample_inode_disk\<rparr>),
     files = (\<lambda>_. \<lparr>file_inode = 10, pos = 0, deny_write = False\<rparr>), freed = {}\<rparr>"

lemma sample_fs_simps:
  "data (inodes sample_fs i) = sample_inode_disk" "deny_write_cnt (inodes sample_fs i) = 0" "file_len sample_inode_disk = 600"
  "freed sample_fs = {}" "fs_size sample_fs = 100" "disk sample_fs x = replicate 512 0" "sector (inodes sample_fs i) = 40"
  by (simp_all add: sample_fs_def sample_inode_disk_def)

lemma sample_file_ok: "file_ok sample_fs sample_inode_disk"
proof -
  have n: "bytes_to_sectors 600 = 2" by (simp add: bytes_to_sectors_def BLOCK_SECTOR_SIZE_def)
  have i: "index_sectors sample_fs sample_inode_disk 2 = {}" by (simp add: index_sectors_def)
  have s: "sec sample_fs sample_inode_disk 0 = 50" "sec sample_fs sample_inode_disk (Suc 0) = 60"
    by (simp_all add: sec_def index_to_sector_def block_sizes sample_inode_disk_def)
  have "length (direct_blocks sample_inode_disk) = 123" by (simp add: sample_inode_disk_def)
  then show ?thesis
    by (auto simp: file_ok_def sample_fs_simps n i s less_2_cases_iff inj_on_def)
qed

theorem inode_read_write_witness:
  "\<exists>s'. inode_write_at True 10 [7, 8, 9] 3 511 sample_fs = Some (3, s') \<and> inode_read_at True 10 3 511 s' = Some [7, 8, 9]"
proof -
  have ok: "file_ok sample_fs (data (inodes sample_fs 10))" using sample_file_ok by (simp add: sample_fs_simps)
  show ?thesis using inode_read_write [OF ok, of 511 3 "[7, 8, 9]"] by (auto simp: sample_fs_simps numeral_3_eq_3)
qed

section \<open>Two inputs that go wrong\<close>

text \<open>A write of no bytes at offset 0 cuts the file: the code looks for the sector of the byte
  before the first one, takes its absence for a write past the end, and sets the length of the file
  to 0, in memory and on the disk. Nothing is reported: the result is the number of bytes asked for.\<close>

theorem empty_write_truncates:
  assumes "i \<notin> freed s" and "deny_write_cnt (inodes s i) = 0" and "unat (sector (inodes s i)) < fs_size s"
  shows "\<exists>s'. inode_write_at mem i buffer 0 0 s = Some (0, s') \<and> inode_length i s' = 0 \<and>
    (0 \<le> k \<longrightarrow> inode_read_at mem i n k s' = Some []) \<and>
    disk s' (sector (inodes s i)) = encode_inode ((data (inodes s i))\<lparr>file_len := 0\<rparr>)"
proof -
  let ?d = "data (inodes s i)"
  have b: "bytes_to_sectors 0 = 0" by (simp add: bytes_to_sectors_def BLOCK_SECTOR_SIZE_def)
  have r: "inode_reserve mem ?d 0 s = Some (True, ?d, s)" by (simp add: inode_reserve_def b)
  let ?s1 = "upd_inode i (\<lambda>ino. ino\<lparr>data := ?d\<lparr>file_len := 0\<rparr>\<rparr>) s"
  let ?s = "?s1\<lparr>disk := (disk s)(sector (inodes s i) := encode_inode (?d\<lparr>file_len := 0\<rparr>))\<rparr>"
  have "inode_write_at mem i buffer 0 0 s = Some (0, ?s)"
    using assms by (simp add: inode_write_at_def off_ok_def byte_to_sector_def r upd_inode_def cache_write_def Let_def)
  moreover have "inode_read_at mem i n k ?s = Some []" if k: "0 \<le> k"
  proof (cases "0 < n")
    case True
    have "read_loop mem (?d\<lparr>file_len := 0\<rparr>) (nat n) (nat k) ?s = Some []"
      using True by (subst read_loop.simps) (simp add: byte_to_sector_def chunk_size_def Let_def)
    then show ?thesis using True k assms(1) by (simp add: inode_read_at_def upd_inode_def)
  qed (simp add: inode_read_at_def)
  ultimately show ?thesis by (intro exI [of _ ?s]) (simp add: inode_length_def upd_inode_def)
qed

theorem empty_write_truncates_witness:
  "inode_length 10 sample_fs = 600 \<and> (\<exists>s'. inode_write_at True 10 [] 0 0 sample_fs = Some (0, s') \<and> inode_length 10 s' = 0)"
  using empty_write_truncates [of 10 sample_fs True "[]"] by (auto simp: sample_fs_simps inode_length_def)

text \<open>Nothing can be allocated from a full free map.\<close>

lemma allocate_full:
  assumes rep: "bitmap_rep (free_map s) bs" and full: "\<forall>i < length bs. bs ! i"
  shows "free_map_allocate mem 1 s = Some (None, s)"
proof -
  have "\<not> group bs j 1 False" for j using full by (auto simp: group_def)
  then have "bitmap_scan_and_flip (free_map s) 0 1 False = Some (BITMAP_ERROR, free_map s)"
    using bitmap_scan_and_flip_rep [OF rep, of 0 1 False] by blast
  then show ?thesis by (simp add: free_map_allocate_def)
qed

lemma decode_zeros: "decode_index zeros = replicate 128 0"
  by (rule nth_equalityI) (auto simp: decode_index_def word_at_def decode32_def zeros_def block_sizes)

lemma reserve_index_full:
  assumes rep: "bitmap_rep (free_map s) bs" and full: "\<forall>i < length bs. bs ! i" and dev: "0 < fs_size s" and n: "0 < n"
  shows "inode_reserve_indirect 1 mem 0 n s = Some (False, 0, s\<lparr>disk := (disk s)(0 := zeros)\<rparr>)"
proof -
  let ?s = "s\<lparr>disk := (disk s)(0 := zeros)\<rparr>"
  note al = allocate_full [OF rep full]
  have al': "free_map_allocate mem 1 ?s = Some (None, ?s)" using allocate_full [of ?s bs] rep full by simp
  obtain m where m: "n = Suc m" using n by (cases n) auto
  have "reserve_entries (inode_reserve_indirect 0 mem) 1 n 0 n (decode_index zeros) ?s = Some (False, n, decode_index zeros, ?s)"
    unfolding m using al' by (simp add: decode_zeros list_update_same_conv)
  then show ?thesis using al dev by (simp add: cache_write_def cache_read_def Let_def)
qed

text \<open>The allocation of an index block is not checked. When a file grows past its direct blocks
  on a full device, the entry stays 0, and the code fills sector 0 with zeros: the inode of the
  free map. The write then returns 0, as every write on a full device does.\<close>

theorem full_disk_erases_free_map_inode:
  assumes "bitmap_rep (free_map s) bs" and "\<forall>k < length bs. bs ! k" and "0 < fs_size s"
    and "i \<notin> freed s \<and> deny_write_cnt (inodes s i) = 0" and "\<forall>k < 123. direct_blocks (data (inodes s i)) ! k \<noteq> 0"
    and "indirect_block (data (inodes s i)) = 0" and "file_len (data (inodes s i)) < offset + n"
    and "123 * 512 < offset + n" "offset + n \<le> 251 * 512"
  shows "\<exists>s'. inode_write_at mem i buffer n offset s = Some (0, s') \<and> disk s' FREE_MAP_SECTOR = replicate 512 0"
proof -
  let ?d = "data (inodes s i)" and ?m = "bytes_to_sectors (offset + n)"
  have direct: "reserve_direct mem l j (direct_blocks ?d) s = Some (True, direct_blocks ?d, s)" if "j + l \<le> 123" for l j
    using that by (induction l arbitrary: j) (use assms(5) in auto)
  have m: "?m = (nat (offset + n) + 511) div 512" by (rule bytes_to_sectors_nat) (use assms(8) in simp)
  have mb: "123 < ?m" "?m \<le> 251"
  proof -
    have "(123 * 512 + 1 + 511) div 512 \<le> ?m" unfolding m using assms(8) by (intro div_le_mono) linarith
    then show "123 < ?m" by simp
    have "?m \<le> (251 * 512 + 511) div 512" unfolding m using assms(9) by (intro div_le_mono) linarith
    then show "?m \<le> 251" by simp
  qed
  let ?s = "s\<lparr>disk := (disk s)(0 := zeros)\<rparr>"
  have "min ?m 123 = 123" "min (?m - 123) 128 = ?m - 123" "0 < ?m - 123" using mb by auto
  then have "inode_reserve mem ?d (offset + n) s = Some (False, ?d, ?s)"
    using direct [of 0 123] reserve_index_full [OF assms(1-3), of "?m - 123" mem] assms(6,8)
    by (simp add: inode_reserve_def block_sizes Let_def del: inode_reserve_indirect.simps)
  moreover have "byte_to_sector ?d (offset + n - 1) s = Some (- 1)" using assms(7) by (simp add: byte_to_sector_def)
  moreover have "off_ok (offset + n)" "off_ok (offset + n - 1)" using assms(8,9) by (auto simp: off_ok_def)
  ultimately have "inode_write_at mem i buffer n offset s = Some (0, upd_inode i (\<lambda>ino. ino\<lparr>data := ?d\<rparr>) ?s)"
    using assms(4) by (simp add: inode_write_at_def Let_def)
  then show ?thesis by (simp add: upd_inode_def FREE_MAP_SECTOR_def zeros_def block_sizes)
qed

definition full_fs :: fs where
  "full_fs = sample_fs\<lparr>free_map := \<lparr>bit_cnt = 5, bits = [31]\<rparr>, inodes := (\<lambda>_. \<lparr>sector = 40, open_cnt = 1, removed = False,
     deny_write_cnt = 0, data = sample_inode_disk\<lparr>direct_blocks := replicate 123 9, file_len := 62976\<rparr>\<rparr>)\<rparr>"

theorem full_disk_erases_free_map_inode_witness:
  "\<exists>s'. inode_write_at True 10 [7] 1 62976 full_fs = Some (0, s') \<and> disk s' FREE_MAP_SECTOR = replicate 512 0"
proof -
  have rep: "bitmap_rep (free_map full_fs) (replicate 5 True)"
    by (simp add: bitmap_rep_def full_fs_def BITMAP_ERROR_def elem_cnt_def all_less_5)
  show ?thesis
    by (rule full_disk_erases_free_map_inode [OF rep]) (simp_all add: full_fs_def sample_fs_def sample_inode_disk_def)
qed

end
