(* ===== verification/Cstring.thy ===== *)
theory Cstring
  imports Prelude
begin

text \<open>
  The block and string routines of \<^verbatim>\<open>lib/string.c\<close>. Memory is a function from addresses to bytes;
  a routine that writes returns the new memory beside its result. \<open>string_at m p cs\<close> says that the
  string at \<open>p\<close> has the characters \<open>cs\<close>. A loop that looks for the end of a string has no value
  when there is none. Addresses and sizes are natural numbers.
\<close>

type_synonym memory = "addr \<Rightarrow> byte"

section \<open>Blocks of memory\<close>

text \<open>The loops copy upwards and downwards, and return where they stop.\<close>

fun copy_up :: "addr \<Rightarrow> addr \<Rightarrow> nat \<Rightarrow> memory \<Rightarrow> addr \<times> memory" where
  "copy_up dst src 0 m = (dst, m)"
| "copy_up dst src (Suc n) m = copy_up (dst + 1) (src + 1) n (m(dst := m src))"

fun copy_down :: "addr \<Rightarrow> addr \<Rightarrow> nat \<Rightarrow> memory \<Rightarrow> addr \<times> memory" where
  "copy_down dst src 0 m = (dst, m)"
| "copy_down dst src (Suc n) m = copy_down (dst - 1) (src - 1) n (m(dst - 1 := m (src - 1)))"

definition memcpy :: "addr \<Rightarrow> addr \<Rightarrow> nat \<Rightarrow> memory \<Rightarrow> (addr \<times> memory) option" where
  "memcpy dst src n m = do {
     kassert (dst \<noteq> NULL \<or> n = 0);
     kassert (src \<noteq> NULL \<or> n = 0);
     Some (dst, snd (copy_up dst src n m)) }"

definition memmove :: "addr \<Rightarrow> addr \<Rightarrow> nat \<Rightarrow> memory \<Rightarrow> (addr \<times> memory) option" where
  "memmove dst src n m = do {
     kassert (dst \<noteq> NULL \<or> n = 0);
     kassert (src \<noteq> NULL \<or> n = 0);
     Some (if dst < src then copy_up dst src n m else copy_down (dst + n) (src + n) n m) }"

fun memcmp_loop :: "addr \<Rightarrow> addr \<Rightarrow> nat \<Rightarrow> memory \<Rightarrow> int" where
  "memcmp_loop a b 0 m = 0"
| "memcmp_loop a b (Suc n) m =
     (if m a \<noteq> m b then (if m a > m b then 1 else - 1) else memcmp_loop (a + 1) (b + 1) n m)"

definition memcmp :: "addr \<Rightarrow> addr \<Rightarrow> nat \<Rightarrow> memory \<Rightarrow> int option" where
  "memcmp a b n m = do {
     kassert (a \<noteq> NULL \<or> n = 0);
     kassert (b \<noteq> NULL \<or> n = 0);
     Some (memcmp_loop a b n m) }"

fun memchr_loop :: "addr \<Rightarrow> byte \<Rightarrow> nat \<Rightarrow> memory \<Rightarrow> addr" where
  "memchr_loop block ch 0 m = NULL"
| "memchr_loop block ch (Suc n) m = (if m block = ch then block else memchr_loop (block + 1) ch n m)"

definition memchr :: "addr \<Rightarrow> int \<Rightarrow> nat \<Rightarrow> memory \<Rightarrow> addr option" where
  "memchr block ch n m = do { kassert (block \<noteq> NULL \<or> n = 0); Some (memchr_loop block (word_of_int ch) n m) }"

fun set_up :: "addr \<Rightarrow> byte \<Rightarrow> nat \<Rightarrow> memory \<Rightarrow> memory" where
  "set_up dst v 0 m = m"
| "set_up dst v (Suc n) m = set_up (dst + 1) v n (m(dst := v))"

definition memset :: "addr \<Rightarrow> int \<Rightarrow> nat \<Rightarrow> memory \<Rightarrow> (addr \<times> memory) option" where
  "memset dst v n m = do { kassert (dst \<noteq> NULL \<or> n = 0); Some (dst, set_up dst (word_of_int v) n m) }"

section \<open>Strings\<close>

partial_function (option) strlen_loop :: "addr \<Rightarrow> memory \<Rightarrow> addr option" where
  "strlen_loop p m = (if m p \<noteq> 0 then strlen_loop (p + 1) m else Some p)"

definition strlen :: "addr \<Rightarrow> memory \<Rightarrow> nat option" where
  "strlen string m = do { kassert (string \<noteq> NULL); p \<leftarrow> strlen_loop string m; Some (p - string) }"

text \<open>The loop counts down the characters that \<open>maxlen\<close> leaves. The code looks at the character
  before it looks at the count, so it reads one character past \<open>maxlen\<close>, to no effect.\<close>

fun strnlen_loop :: "addr \<Rightarrow> nat \<Rightarrow> nat \<Rightarrow> memory \<Rightarrow> nat" where
  "strnlen_loop string len 0 m = len"
| "strnlen_loop string len (Suc k) m = (if m (string + len) \<noteq> 0 then strnlen_loop string (len + 1) k m else len)"

definition strnlen :: "addr \<Rightarrow> nat \<Rightarrow> memory \<Rightarrow> nat" where
  "strnlen string maxlen m = strnlen_loop string 0 maxlen m"

text \<open>Where the loop stops.\<close>

partial_function (option) strcmp_loop :: "addr \<Rightarrow> addr \<Rightarrow> memory \<Rightarrow> (addr \<times> addr) option" where
  "strcmp_loop a b m = (if m a \<noteq> 0 \<and> m a = m b then strcmp_loop (a + 1) (b + 1) m else Some (a, b))"

definition strcmp :: "addr \<Rightarrow> addr \<Rightarrow> memory \<Rightarrow> int option" where
  "strcmp a b m = do {
     kassert (a \<noteq> NULL);
     kassert (b \<noteq> NULL);
     (a, b) \<leftarrow> strcmp_loop a b m;
     Some (if m a < m b then - 1 else if m a > m b then 1 else 0) }"

partial_function (option) strchr_loop :: "addr \<Rightarrow> byte \<Rightarrow> memory \<Rightarrow> addr option" where
  "strchr_loop string c m =
     (if m string = c then Some string else if m string = 0 then Some NULL else strchr_loop (string + 1) c m)"

definition strchr :: "addr \<Rightarrow> byte \<Rightarrow> memory \<Rightarrow> addr option" where
  "strchr string c m = do { kassert (string \<noteq> NULL); strchr_loop string c m }"

partial_function (option) strcspn_loop :: "addr \<Rightarrow> nat \<Rightarrow> addr \<Rightarrow> memory \<Rightarrow> nat option" where
  "strcspn_loop string len stop m =
     (if m (string + len) \<noteq> 0
      then do { r \<leftarrow> strchr stop (m (string + len)) m; if r \<noteq> NULL then Some len else strcspn_loop string (len + 1) stop m }
      else Some len)"

definition strcspn :: "addr \<Rightarrow> addr \<Rightarrow> memory \<Rightarrow> nat option" where
  "strcspn string stop m = strcspn_loop string 0 stop m"

partial_function (option) strspn_loop :: "addr \<Rightarrow> nat \<Rightarrow> addr \<Rightarrow> memory \<Rightarrow> nat option" where
  "strspn_loop string len skip m =
     (if m (string + len) \<noteq> 0
      then do { r \<leftarrow> strchr skip (m (string + len)) m; if r = NULL then Some len else strspn_loop string (len + 1) skip m }
      else Some len)"

definition strspn :: "addr \<Rightarrow> addr \<Rightarrow> memory \<Rightarrow> nat option" where
  "strspn string skip m = strspn_loop string 0 skip m"

partial_function (option) strpbrk :: "addr \<Rightarrow> addr \<Rightarrow> memory \<Rightarrow> addr option" where
  "strpbrk string stop m =
     (if m string \<noteq> 0
      then do { r \<leftarrow> strchr stop (m string) m; if r \<noteq> NULL then Some string else strpbrk (string + 1) stop m }
      else Some NULL)"

partial_function (option) strrchr_loop :: "addr \<Rightarrow> byte \<Rightarrow> addr \<Rightarrow> memory \<Rightarrow> addr option" where
  "strrchr_loop string c p m =
     (if m string \<noteq> 0 then strrchr_loop (string + 1) c (if m string = c then string else p) m else Some p)"

definition strrchr :: "addr \<Rightarrow> byte \<Rightarrow> memory \<Rightarrow> addr option" where
  "strrchr string c m = strrchr_loop string c NULL m"

text \<open>The loop of \<^verbatim>\<open>strstr\<close>, which has \<open>k\<close> positions left.\<close>

fun strstr_loop :: "addr \<Rightarrow> addr \<Rightarrow> nat \<Rightarrow> nat \<Rightarrow> nat \<Rightarrow> memory \<Rightarrow> addr option" where
  "strstr_loop haystack needle needle_len i 0 m = Some NULL"
| "strstr_loop haystack needle needle_len i (Suc k) m = do {
     r \<leftarrow> memcmp (haystack + i) needle needle_len m;
     if r = 0 then Some (haystack + i) else strstr_loop haystack needle needle_len (i + 1) k m }"

definition strstr :: "addr \<Rightarrow> addr \<Rightarrow> memory \<Rightarrow> addr option" where
  "strstr haystack needle m = do {
     haystack_len \<leftarrow> strlen haystack m;
     needle_len \<leftarrow> strlen needle m;
     if haystack_len \<ge> needle_len
     then strstr_loop haystack needle needle_len 0 (haystack_len - needle_len + 1) m
     else Some NULL }"

text \<open>The two loops of \<^verbatim>\<open>strtok_r\<close>; the first one stops at the end of the string with a null
  pointer.\<close>

partial_function (option) skip_delims :: "addr \<Rightarrow> addr \<Rightarrow> memory \<Rightarrow> (bool \<times> addr) option" where
  "skip_delims s delimiters m = do {
     r \<leftarrow> strchr delimiters (m s) m;
     if r \<noteq> NULL then (if m s = 0 then Some (True, s) else skip_delims (s + 1) delimiters m)
     else Some (False, s) }"

partial_function (option) skip_token :: "addr \<Rightarrow> addr \<Rightarrow> memory \<Rightarrow> addr option" where
  "skip_token s delimiters m = do {
     r \<leftarrow> strchr delimiters (m s) m;
     if r = NULL then skip_token (s + 1) delimiters m else Some s }"

text \<open>The token, the pointer that is saved for the next call, and the memory.\<close>

definition strtok_r :: "addr \<Rightarrow> addr \<Rightarrow> addr \<Rightarrow> memory \<Rightarrow> (addr \<times> addr \<times> memory) option" where
  "strtok_r s delimiters save_ptr m = do {
     kassert (delimiters \<noteq> NULL);
     let s = (if s = NULL then save_ptr else s);
     kassert (s \<noteq> NULL);
     (finished, s) \<leftarrow> skip_delims s delimiters m;
     if finished then Some (NULL, s, m)
     else do {
       let token = s;
       s \<leftarrow> skip_token s delimiters m;
       if m s \<noteq> 0 then Some (token, s + 1, m(s := 0)) else Some (token, s, m) } }"

definition strlcpy :: "addr \<Rightarrow> addr \<Rightarrow> nat \<Rightarrow> memory \<Rightarrow> (nat \<times> memory) option" where
  "strlcpy dst src n m = do {
     kassert (dst \<noteq> NULL);
     kassert (src \<noteq> NULL);
     src_len \<leftarrow> strlen src m;
     m \<leftarrow> (if n > 0
        then do {
          let dst_len = (if src_len < n - 1 then src_len else n - 1);
          (r, m) \<leftarrow> memcpy dst src dst_len m;
          Some (m(dst + dst_len := 0)) }
        else Some m);
     Some (src_len, m) }"

definition strlcat :: "addr \<Rightarrow> addr \<Rightarrow> nat \<Rightarrow> memory \<Rightarrow> (nat \<times> memory) option" where
  "strlcat dst src n m = do {
     kassert (dst \<noteq> NULL);
     kassert (src \<noteq> NULL);
     src_len \<leftarrow> strlen src m;
     dst_len \<leftarrow> strlen dst m;
     m \<leftarrow> (if n > 0 \<and> dst_len < n
        then do {
          let copy_cnt = (if src_len < n - dst_len - 1 then src_len else n - dst_len - 1);
          (r, m) \<leftarrow> memcpy (dst + dst_len) src copy_cnt m;
          Some (m(dst + dst_len + copy_cnt := 0)) }
        else Some m);
     Some (src_len + dst_len, m) }"

section \<open>Blocks: what the routines do\<close>

text \<open>The bytes of a block, and memory with a block put into it.\<close>

definition block :: "memory \<Rightarrow> addr \<Rightarrow> nat \<Rightarrow> byte list" where
  "block m p n = map m [p..<p + n]"

definition put_block :: "addr \<Rightarrow> byte list \<Rightarrow> memory \<Rightarrow> memory" where
  "put_block p bs m = (\<lambda>a. if p \<le> a \<and> a < p + length bs then bs ! (a - p) else m a)"

lemma length_block [simp]: "length (block m p n) = n"
  by (simp add: block_def)

lemma nth_block [simp]: "i < n \<Longrightarrow> block m p n ! i = m (p + i)"
  by (simp add: block_def)

lemma block_put_block [simp]: "block (put_block p bs m) p (length bs) = bs"
  by (rule nth_equalityI) (simp_all add: put_block_def)

lemma put_block_Nil [simp]: "put_block p [] m = m"
  by (rule ext) (auto simp: put_block_def)

lemma block_0 [simp]: "block m p 0 = []"
  by (simp add: block_def)

lemma put_block_apply:
  "put_block p bs m a = (if p \<le> a \<and> a < p + length bs then bs ! (a - p) else m a)"
  by (simp add: put_block_def)

lemma copy_up_eq:
  "dst \<le> src \<or> src + n \<le> dst \<Longrightarrow> copy_up dst src n m = (dst + n, put_block dst (block m src n) m)"
proof (induction n arbitrary: dst src m)
  case 0
  show ?case by simp
next
  case (Suc n)
  have "copy_up (dst + 1) (src + 1) n (m(dst := m src)) =
      (dst + 1 + n, put_block (dst + 1) (block (m(dst := m src)) (src + 1) n) (m(dst := m src)))"
    using Suc.prems by (intro Suc.IH) auto
  moreover have "put_block (dst + 1) (block (m(dst := m src)) (src + 1) n) (m(dst := m src)) =
      put_block dst (block m src (Suc n)) m"
  proof
    fix a
    show "put_block (dst + 1) (block (m(dst := m src)) (src + 1) n) (m(dst := m src)) a =
      put_block dst (block m src (Suc n)) m a"
    proof (cases "dst < a \<and> a < dst + Suc n")
      case True
      then have "a - dst = Suc (a - Suc dst)" "a - Suc dst < n" by auto
      with True show ?thesis
        using Suc.prems by (auto simp: put_block_apply)
    next
      case False
      then show ?thesis by (auto simp: put_block_apply)
    qed
  qed
  ultimately show ?case by simp
qed

lemma copy_down_eq:
  "src \<le> dst \<Longrightarrow> copy_down (dst + n) (src + n) n m = (dst, put_block dst (block m src n) m)"
proof (induction n arbitrary: m)
  case 0
  show ?case by simp
next
  case (Suc n)
  have "copy_down (dst + n) (src + n) n (m(dst + n := m (src + n))) =
      (dst, put_block dst (block (m(dst + n := m (src + n))) src n) (m(dst + n := m (src + n))))"
    using Suc.prems by (rule Suc.IH)
  moreover have "put_block dst (block (m(dst + n := m (src + n))) src n) (m(dst + n := m (src + n))) =
      put_block dst (block m src (Suc n)) m"
  proof
    fix a
    show "put_block dst (block (m(dst + n := m (src + n))) src n) (m(dst + n := m (src + n))) a =
      put_block dst (block m src (Suc n)) m a"
    proof (cases "dst \<le> a \<and> a < dst + n")
      case True
      then have "a - dst < n" by auto
      then have "block (m(dst + n := m (src + n))) src n ! (a - dst) = block m src (Suc n) ! (a - dst)"
        using Suc.prems by simp
      with True show ?thesis by (simp add: put_block_apply)
    next
      case False
      then show ?thesis by (auto simp: put_block_apply)
    qed
  qed
  ultimately show ?case by simp
qed

lemma set_up_eq: "set_up dst v n m = put_block dst (replicate n v) m"
proof (induction n arbitrary: dst m)
  case 0
  show ?case by simp
next
  case (Suc n)
  then show ?case by (auto simp: put_block_apply fun_eq_iff nth_Cons')
qed

section \<open>Strings: what the routines do\<close>

primrec string_at :: "memory \<Rightarrow> addr \<Rightarrow> byte list \<Rightarrow> bool" where
  "string_at m p [] \<longleftrightarrow> m p = 0"
| "string_at m p (c # cs) \<longleftrightarrow> c \<noteq> 0 \<and> m p = c \<and> string_at m (p + 1) cs"

text \<open>Memory that agrees on the string and its terminator.\<close>

lemma string_at_cong:
  "string_at m p cs \<Longrightarrow> (\<And>a. p \<le> a \<Longrightarrow> a \<le> p + length cs \<Longrightarrow> m' a = m a) \<Longrightarrow> string_at m' p cs"
  by (induction cs arbitrary: p) auto

lemma string_at_iff:
  "string_at m p cs \<longleftrightarrow> 0 \<notin> set cs \<and> block m p (length cs) = cs \<and> m (p + length cs) = 0"
proof (induction cs arbitrary: p)
  case (Cons c cs)
  have "block m p (length (c # cs)) = m p # block m (p + 1) (length cs)"
    by (simp add: block_def upt_conv_Cons del: upt_Suc)
  with Cons show ?case by auto
qed simp

lemma string_at_unique: "string_at m p cs \<Longrightarrow> string_at m p ds \<Longrightarrow> cs = ds"
  by (induction cs arbitrary: p ds; case_tac ds) auto

lemma string_at_nonzero: "string_at m p cs \<Longrightarrow> 0 \<notin> set cs"
  by (simp add: string_at_iff)

lemma string_at_drop: "string_at m p (cs @ ds) \<Longrightarrow> string_at m (p + length cs) ds"
  by (induction cs arbitrary: p) (auto simp flip: add_Suc)

lemma strlen_loop_string: "string_at m p cs \<Longrightarrow> strlen_loop p m = Some (p + length cs)"
  by (induction cs arbitrary: p; subst strlen_loop.simps) auto

lemma strlen_string: "string_at m p cs \<Longrightarrow> p \<noteq> NULL \<Longrightarrow> strlen p m = Some (length cs)"
  by (simp add: strlen_def strlen_loop_string)

lemma strchr_loop_string:
  "string_at m p cs \<Longrightarrow> strchr_loop p c m =
     Some (if c \<in> set (cs @ [0]) then p + length (takeWhile (\<lambda>x. x \<noteq> c) (cs @ [0])) else NULL)"
  by (induction cs arbitrary: p; subst strchr_loop.simps) auto

lemma strchr_string:
  "string_at m p cs \<Longrightarrow> p \<noteq> NULL \<Longrightarrow> strchr p c m =
     Some (if c \<in> set (cs @ [0]) then p + length (takeWhile (\<lambda>x. x \<noteq> c) (cs @ [0])) else NULL)"
  by (simp add: strchr_def strchr_loop_string)

text \<open>Whether a character is found.\<close>

lemma strchr_found:
  assumes "string_at m p cs" "p \<noteq> NULL"
  obtains r where "strchr p c m = Some r" "r = NULL \<longleftrightarrow> c \<notin> insert 0 (set cs)"
  using assms strchr_string[OF assms, of c] by (auto split: if_splits)

lemma strcmp_loop_strings:
  "string_at m a cs \<Longrightarrow> string_at m b ds \<Longrightarrow>
     \<exists>k. strcmp_loop a b m = Some (a + k, b + k) \<and> take k cs = take k ds \<and> k \<le> length cs \<and> k \<le> length ds \<and>
       (k < length cs \<longrightarrow> m (a + k) \<noteq> m (b + k))"
proof (induction cs arbitrary: a b ds)
  case Nil
  then show ?case by (subst strcmp_loop.simps) (auto intro: exI [of _ 0])
next
  case (Cons c cs)
  show ?case
  proof (cases "m b = c")
    case True
    then obtain d ds' where ds: "ds = d # ds'" using Cons.prems by (cases ds) auto
    with Cons.prems True have "string_at m (a + 1) cs" "string_at m (b + 1) ds'" "d = c" "m a = m b" "m a \<noteq> 0" by auto
    with Cons.IH[OF this(1,2)] obtain k where k: "strcmp_loop (a + 1) (b + 1) m = Some (a + 1 + k, b + 1 + k)"
      "take k cs = take k ds'" "k \<le> length cs" "k \<le> length ds'" "k < length cs \<longrightarrow> m (a + 1 + k) \<noteq> m (b + 1 + k)" by blast
    with ds \<open>d = c\<close> \<open>m a = m b\<close> \<open>m a \<noteq> 0\<close> show ?thesis
      by (intro exI [of _ "Suc k"]) (subst strcmp_loop.simps, auto)
  next
    case False
    with Cons.prems show ?thesis by (subst strcmp_loop.simps) (auto intro: exI [of _ 0])
  qed
qed


section \<open>Tokens\<close>

text \<open>The maximal runs of characters that are no delimiters.\<close>

function tokens :: "byte list \<Rightarrow> byte list \<Rightarrow> byte list list" where
  "tokens ds cs =
     (let rest = dropWhile (\<lambda>c. c \<in> set ds) cs in
      if rest = [] then [] else takeWhile (\<lambda>c. c \<notin> set ds) rest # tokens ds (dropWhile (\<lambda>c. c \<notin> set ds) rest))"
  by pat_completeness auto
termination
proof (relation "measure (\<lambda>(ds, cs). length cs)", goal_cases)
  case (2 ds cs rest)
  then obtain c rest' where r: "rest = c # rest'" "c \<notin> set ds"
    by (metis (mono_tags, lifting) dropWhile_eq_Cons_conv neq_Nil_conv)
  have "length (dropWhile (\<lambda>c. c \<notin> set ds) rest) \<le> length rest'"
    using r by (simp add: length_dropWhile_le)
  also have "\<dots> < length rest" using r by simp
  also have "\<dots> \<le> length cs" using 2 by (simp add: length_dropWhile_le)
  finally show ?case by simp
qed simp

declare tokens.simps [simp del]

lemma tokens_delim: "c \<in> set ds \<Longrightarrow> tokens ds (c # cs) = tokens ds cs"
  by (subst (1 2) tokens.simps) simp

lemma skip_delims_string:
  assumes "string_at m d ds" "d \<noteq> NULL"
  shows "string_at m s cs \<Longrightarrow>
    skip_delims s d m = Some (dropWhile (\<lambda>c. c \<in> set ds) cs = [], s + length (takeWhile (\<lambda>c. c \<in> set ds) cs))"
proof (induction cs arbitrary: s)
  case Nil
  obtain r where "strchr d 0 m = Some r" "r \<noteq> NULL" using strchr_found[OF assms, of 0] by auto
  with Nil show ?case by (subst skip_delims.simps) simp
next
  case (Cons c cs)
  obtain r where "strchr d c m = Some r" "r = NULL \<longleftrightarrow> c \<notin> insert 0 (set ds)"
    by (rule strchr_found[OF assms])
  with Cons show ?case by (subst skip_delims.simps) auto
qed

lemma skip_token_string:
  assumes "string_at m d ds" "d \<noteq> NULL"
  shows "string_at m s cs \<Longrightarrow> skip_token s d m = Some (s + length (takeWhile (\<lambda>c. c \<notin> set ds) cs))"
proof (induction cs arbitrary: s)
  case Nil
  obtain r where "strchr d 0 m = Some r" "r \<noteq> NULL" using strchr_found[OF assms, of 0] by auto
  with Nil show ?case by (subst skip_token.simps) simp
next
  case (Cons c cs)
  obtain r where "strchr d c m = Some r" "r = NULL \<longleftrightarrow> c \<notin> insert 0 (set ds)"
    by (rule strchr_found[OF assms])
  with Cons show ?case by (subst skip_token.simps) auto
qed

lemma string_at_append:
  "string_at m p (cs @ ds) \<longleftrightarrow> 0 \<notin> set cs \<and> block m p (length cs) = cs \<and> string_at m (p + length cs) ds"
proof (induction cs arbitrary: p)
  case (Cons c cs)
  have "block m p (length (c # cs)) = m p # block m (p + 1) (length cs)"
    by (simp add: block_def upt_conv_Cons del: upt_Suc)
  with Cons show ?case by auto
qed simp

text \<open>One call: there is no token left, or the first one is returned and the rest of the string
  has the others.\<close>

lemma strtok_r_last:
  assumes "string_at m d ds" "d \<noteq> NULL" "string_at m s cs" "s \<noteq> NULL" "s = (if p = NULL then q else p)" "tokens ds cs = []"
  shows "\<exists>q'. strtok_r p d q m = Some (NULL, q', m)"
proof -
  have "dropWhile (\<lambda>c. c \<in> set ds) cs = []"
    using assms(6) by (subst (asm) tokens.simps) (simp add: Let_def split: if_splits)
  with skip_delims_string[OF assms(1-3)] assms(2,4,5) show ?thesis
    by (auto simp: strtok_r_def)
qed

lemma strtok_r_next:
  assumes d: "string_at m d ds" "d \<noteq> NULL" and s: "string_at m s cs" "s \<noteq> NULL" "s = (if p = NULL then q else p)"
    and t: "tokens ds cs = t # ts"
  obtains tok q' m' cs' where "strtok_r p d q m = Some (tok, q', m')" "tok \<noteq> NULL" "string_at m' tok t" "string_at m' q' cs'"
    "tokens ds cs' = ts" "s \<le> tok" "s < q'" "tok + length t < q' \<or> cs' = []" "q' + length cs' = s + length cs"
    "\<And>a. m' a \<noteq> m a \<Longrightarrow> s \<le> a \<and> a < s + length cs"
proof -
  define pre where "pre = takeWhile (\<lambda>c. c \<in> set ds) cs"
  define rest where "rest = dropWhile (\<lambda>c. c \<in> set ds) cs"
  define rest2 where "rest2 = dropWhile (\<lambda>c. c \<notin> set ds) rest"
  have ne: "rest \<noteq> []" and tt: "t = takeWhile (\<lambda>c. c \<notin> set ds) rest" and ts: "ts = tokens ds rest2"
    using t unfolding rest_def rest2_def by (subst (asm) tokens.simps, simp add: Let_def split: if_splits)+
  have cs: "cs = pre @ rest" by (simp add: pre_def rest_def)
  have rest: "rest = t @ rest2" by (simp add: tt rest2_def)
  have "t \<noteq> []"
    using ne unfolding tt rest_def by (metis hd_dropWhile takeWhile_eq_Nil_iff)
  have at: "string_at m (s + length pre) rest" using s(1) unfolding cs by (rule string_at_drop)
  have sd: "skip_delims s d m = Some (False, s + length pre)"
    using skip_delims_string[OF d s(1)] ne by (simp add: pre_def rest_def)
  have st: "skip_token (s + length pre) d m = Some (s + length pre + length t)"
    using skip_token_string[OF d at] by (simp add: tt)
  define e where "e = s + length pre + length t"
  have tat: "0 \<notin> set t" "block m (s + length pre) (length t) = t" "string_at m e rest2"
    using at unfolding rest string_at_append e_def by auto
  show ?thesis
  proof (cases rest2)
    case Nil
    then have "strtok_r p d q m = Some (s + length pre, e, m)"
      using sd st s(2,3) d(2) tat(3) by (simp add: strtok_r_def e_def)
    moreover have "string_at m (s + length pre) t" using at Nil by (simp add: rest)
    ultimately show ?thesis
      using that[of "s + length pre" e m "[]"] Nil tat(3) ts \<open>t \<noteq> []\<close> s(2) by (simp add: cs rest e_def)
  next
    case (Cons c rest3)
    have cd: "c \<in> set ds"
      using Cons unfolding rest2_def by (metis (mono_tags, lifting) dropWhile_eq_Cons_conv)
    define m' where "m' = m(e := 0)"
    have "m e \<noteq> 0" using tat(3) Cons by simp
    then have "strtok_r p d q m = Some (s + length pre, e + 1, m')"
      using sd st s(2,3) d(2) by (simp add: strtok_r_def e_def m'_def)
    moreover have "string_at m' (s + length pre) t"
    proof -
      have "block m' (s + length pre) (length t) = block m (s + length pre) (length t)"
        by (simp add: block_def m'_def e_def)
      then show ?thesis using tat by (simp add: string_at_iff m'_def e_def)
    qed
    moreover have "string_at m' (e + 1) rest3"
      by (rule string_at_cong[of m]) (use tat(3) Cons in \<open>auto simp: m'_def\<close>)
    moreover have "tokens ds rest3 = ts" using ts Cons tokens_delim[OF cd] by simp
    ultimately show ?thesis
      using that[of "s + length pre" "e + 1" m' rest3] Cons s(2) by (simp add: cs rest e_def m'_def split: if_splits)
  qed
qed

text \<open>The loop in which \<^verbatim>\<open>strtok_r\<close> is used: the first call has the string, the others a null
  pointer.\<close>

partial_function (option) strtok_loop :: "addr \<Rightarrow> addr \<Rightarrow> addr \<Rightarrow> memory \<Rightarrow> (addr list \<times> memory) option" where
  "strtok_loop s delimiters save_ptr m = do {
     (token, save_ptr, m) \<leftarrow> strtok_r s delimiters save_ptr m;
     if token = NULL then Some ([], m)
     else do { (ts, m) \<leftarrow> strtok_loop NULL delimiters save_ptr m; Some (token # ts, m) } }"

lemma strtok_loop_tokens:
  assumes "string_at m d ds" "d \<noteq> NULL" "string_at m s cs" "s \<noteq> NULL" "s = (if p = NULL then q else p)"
    "d + length ds < s \<or> s + length cs \<le> d" "tokens ds cs = ts"
  shows "\<exists>ps m'. strtok_loop p d q m = Some (ps, m') \<and> list_all2 (string_at m') ps ts \<and>
    (\<forall>a. m' a \<noteq> m a \<longrightarrow> s \<le> a \<and> a < s + length cs)"
  using assms
proof (induction ts arbitrary: p q s cs m)
  case Nil
  then obtain q' where "strtok_r p d q m = Some (NULL, q', m)"
    using strtok_r_last[OF Nil.prems(1-5)] by auto
  then show ?case by (subst strtok_loop.simps) simp
next
  case (Cons t ts)
  obtain tok q' m' cs' where r: "strtok_r p d q m = Some (tok, q', m')" "tok \<noteq> NULL" "string_at m' tok t" "string_at m' q' cs'"
    "tokens ds cs' = ts" "s \<le> tok" "s < q'" "tok + length t < q' \<or> cs' = []" "q' + length cs' = s + length cs"
    and fr: "\<And>a. m' a \<noteq> m a \<Longrightarrow> s \<le> a \<and> a < s + length cs"
    using strtok_r_next[OF Cons.prems(1-5,7)] by metis
  have dm: "string_at m' d ds"
    by (rule string_at_cong[OF Cons.prems(1)]) (use fr Cons.prems(6) in force)
  have "q' \<noteq> NULL" using r(7) by simp
  moreover have "d + length ds < q' \<or> q' + length cs' \<le> d" using Cons.prems(6) r(7,9) by linarith
  ultimately obtain ps m'' where l: "strtok_loop NULL d q' m' = Some (ps, m'')" "list_all2 (string_at m'') ps ts"
    "\<forall>a. m'' a \<noteq> m' a \<longrightarrow> q' \<le> a \<and> a < q' + length cs'"
    using Cons.IH[of m' q' cs' NULL q'] dm Cons.prems(2) r(4,5) by auto
  have "string_at m'' tok t"
    by (rule string_at_cong[OF r(3)]) (use l(3) r(8) in force)
  moreover have "\<forall>a. m'' a \<noteq> m a \<longrightarrow> s \<le> a \<and> a < s + length cs"
    using l(3) fr r(7,9) by (metis le_trans less_imp_le_nat)
  ultimately show ?case
    using r(1,2) l(1,2) by (subst strtok_loop.simps) simp
qed

section \<open>Reference behaviour of the other routines\<close>

lemma strcmp_loop_result:
  "string_at m a cs \<Longrightarrow> string_at m b ds \<Longrightarrow>
     \<exists>a' b'. strcmp_loop a b m = Some (a', b') \<and>
       (m a' < m b' \<longleftrightarrow> (cs, ds) \<in> lexord {(x, y). x < y}) \<and> (m a' = m b' \<longleftrightarrow> cs = ds)"
proof (induction cs arbitrary: a b ds)
  case Nil
  then show ?case
    by (cases ds; subst strcmp_loop.simps) (auto simp: word_gt_0)
next
  case (Cons c cs)
  show ?case
  proof (cases "m a = m b")
    case True
    with Cons.prems obtain ds' where ds: "ds = c # ds'" "string_at m (b + 1) ds'" "string_at m (a + 1) cs" by (cases ds) auto
    from Cons.IH[OF this(3,2)] True ds(1) Cons.prems show ?thesis
      by (subst strcmp_loop.simps) auto
  next
    case False
    with Cons.prems show ?thesis
      by (cases ds; subst strcmp_loop.simps) auto
  qed
qed

lemma strcmp_strings:
  assumes "string_at m a cs" "string_at m b ds" "a \<noteq> NULL" "b \<noteq> NULL"
  shows "strcmp a b m = Some (if cs = ds then 0 else if (cs, ds) \<in> lexord {(x, y). x < y} then - 1 else 1)"
  using strcmp_loop_result[OF assms(1,2)] assms(3,4) by (auto simp: strcmp_def)

lemma memcmp_blocks:
  assumes "a \<noteq> NULL \<or> n = 0" "b \<noteq> NULL \<or> n = 0"
  shows "memcmp a b n m = Some (if block m a n = block m b n then 0
    else if (block m a n, block m b n) \<in> lexord {(x, y). x < y} then - 1 else 1)"
proof -
  have *: "block m p (Suc k) = m p # block m (p + 1) k" for p k
    by (simp add: block_def upt_conv_Cons del: upt_Suc)
  have "memcmp_loop a b n m = (if block m a n = block m b n then 0
    else if (block m a n, block m b n) \<in> lexord {(x, y). x < y} then - 1 else 1)"
    by (induction n arbitrary: a b) (auto simp: *)
  then show ?thesis using assms by (simp add: memcmp_def)
qed

lemma strnlen_loop_string:
  "string_at m (s + n) cs \<Longrightarrow> strnlen_loop s n k m = n + min (length cs) k"
  by (induction k arbitrary: n cs; case_tac cs) auto

lemma strnlen_string: "string_at m s cs \<Longrightarrow> strnlen s k m = min (length cs) k"
  using strnlen_loop_string[of m s 0 cs k] by (simp add: strnlen_def)

lemma strspn_loop_string:
  assumes "string_at m d ds" "d \<noteq> NULL"
  shows "string_at m (s + n) cs \<Longrightarrow> strspn_loop s n d m = Some (n + length (takeWhile (\<lambda>c. c \<in> set ds) cs))"
proof (induction cs arbitrary: n)
  case Nil
  then show ?case by (subst strspn_loop.simps) simp
next
  case (Cons c cs)
  obtain r where "strchr d c m = Some r" "r = NULL \<longleftrightarrow> c \<notin> insert 0 (set ds)"
    by (rule strchr_found[OF assms])
  with Cons show ?case by (subst strspn_loop.simps) auto
qed

lemma strcspn_loop_string:
  assumes "string_at m d ds" "d \<noteq> NULL"
  shows "string_at m (s + n) cs \<Longrightarrow> strcspn_loop s n d m = Some (n + length (takeWhile (\<lambda>c. c \<notin> set ds) cs))"
proof (induction cs arbitrary: n)
  case Nil
  then show ?case by (subst strcspn_loop.simps) simp
next
  case (Cons c cs)
  obtain r where "strchr d c m = Some r" "r = NULL \<longleftrightarrow> c \<notin> insert 0 (set ds)"
    by (rule strchr_found[OF assms])
  with Cons show ?case by (subst strcspn_loop.simps) auto
qed

lemma strpbrk_string:
  assumes "string_at m d ds" "d \<noteq> NULL"
  shows "string_at m s cs \<Longrightarrow> strpbrk s d m =
    Some (if set cs \<inter> set ds = {} then NULL else s + length (takeWhile (\<lambda>c. c \<notin> set ds) cs))"
proof (induction cs arbitrary: s)
  case Nil
  then show ?case by (subst strpbrk.simps) simp
next
  case (Cons c cs)
  obtain r where "strchr d c m = Some r" "r = NULL \<longleftrightarrow> c \<notin> insert 0 (set ds)"
    by (rule strchr_found[OF assms])
  with Cons show ?case by (subst strpbrk.simps) auto
qed

lemma memchr_block:
  assumes "p \<noteq> NULL \<or> n = 0"
  shows "memchr p ch n m = Some (if word_of_int ch \<in> set (block m p n)
     then p + length (takeWhile (\<lambda>x. x \<noteq> word_of_int ch) (block m p n)) else NULL)"
proof -
  have *: "block m p (Suc k) = m p # block m (p + 1) k" for p k
    by (simp add: block_def upt_conv_Cons del: upt_Suc)
  have "memchr_loop p c n m = (if c \<in> set (block m p n) then p + length (takeWhile (\<lambda>x. x \<noteq> c) (block m p n)) else NULL)" for c
    by (induction n arbitrary: p) (auto simp: *)
  then show ?thesis using assms by (simp add: memchr_def)
qed

text \<open>The last occurrence; unlike \<^verbatim>\<open>strchr\<close>, the routine does not find the terminator.\<close>

lemma strrchr_loop_string:
  "string_at m s cs \<Longrightarrow> strrchr_loop s c p m =
     Some (if c \<in> set cs then s + length (dropWhile (\<lambda>x. x \<noteq> c) (rev cs)) - 1 else p)"
proof (induction cs arbitrary: s p)
  case Nil
  then show ?case by (subst strrchr_loop.simps) simp
next
  case (Cons d cs)
  have *: "c \<in> set cs \<Longrightarrow> length (dropWhile (\<lambda>x. x \<noteq> c) (rev cs)) \<noteq> 0"
    by (simp add: dropWhile_eq_Nil_conv) 
  from Cons show ?case
    by (subst strrchr_loop.simps) (auto simp: dropWhile_append dest: *)
qed

lemma strrchr_string:
  "string_at m s cs \<Longrightarrow> strrchr s c m = Some (if c \<in> set cs then s + length (dropWhile (\<lambda>x. x \<noteq> c) (rev cs)) - 1 else NULL)"
  by (simp add: strrchr_def strrchr_loop_string)

text \<open>The first position at which the needle stands.\<close>

lemma strstr_loop_first:
  assumes "haystack \<noteq> NULL" "needle \<noteq> NULL"
  shows "strstr_loop haystack needle n i k m =
    Some (case find (\<lambda>j. block m (haystack + j) n = block m needle n) [i..<i + k] of Some j \<Rightarrow> haystack + j | None \<Rightarrow> NULL)"
proof (induction k arbitrary: i)
  case (Suc k)
  have "memcmp (haystack + i) needle n m = Some 0 \<longleftrightarrow> block m (haystack + i) n = block m needle n"
    using assms by (simp add: memcmp_blocks)
  moreover obtain r where "memcmp (haystack + i) needle n m = Some r"
    using assms by (simp add: memcmp_blocks)
  ultimately show ?case
    using Suc[of "i + 1"] by (auto simp: upt_conv_Cons simp del: upt_Suc)
qed simp

lemma strstr_strings:
  assumes "string_at m h cs" "string_at m p ds" "h \<noteq> NULL" "p \<noteq> NULL"
  shows "strstr h p m = Some (case find (\<lambda>j. take (length ds) (drop j cs) = ds) [0..<length cs + 1 - length ds] of
    Some j \<Rightarrow> h + j | None \<Rightarrow> NULL)"
proof -
  have blk: "block m (h + j) (length ds) = take (length ds) (drop j cs)" if "j + length ds \<le> length cs" for j
  proof -
    have "block m h (length cs) = cs" using assms(1) by (simp add: string_at_iff)
    then have "take (length ds) (drop j cs) = take (length ds) (drop j (block m h (length cs)))" by simp
    also have "\<dots> = block m (h + j) (length ds)"
      using that by (simp add: block_def take_map drop_map)
    finally show ?thesis ..
  qed
  have nd: "block m p (length ds) = ds" using assms(2) by (simp add: string_at_iff)
  show ?thesis
  proof (cases "length ds \<le> length cs")
    case True
    have "find (\<lambda>j. block m (h + j) (length ds) = block m p (length ds)) [0..<length cs + 1 - length ds] =
        find (\<lambda>j. take (length ds) (drop j cs) = ds) [0..<length cs + 1 - length ds]"
      using True by (intro find_cong) (auto simp: blk nd)
    moreover have "strstr h p m = strstr_loop h p (length ds) 0 (length cs + 1 - length ds) m"
      using True assms by (simp add: strstr_def strlen_string Suc_diff_le del: strstr_loop.simps)
    ultimately show ?thesis
      using strstr_loop_first[OF assms(3,4), of "length ds" 0 "length cs + 1 - length ds" m]
      by (simp only: add_0)
  next
    case False
    with assms show ?thesis by (simp add: strstr_def strlen_string)
  qed
qed

lemma memcpy_eq:
  "dst \<noteq> NULL \<or> n = 0 \<Longrightarrow> src \<noteq> NULL \<or> n = 0 \<Longrightarrow> dst \<le> src \<or> src + n \<le> dst \<Longrightarrow>
    memcpy dst src n m = Some (dst, put_block dst (block m src n) m)"
  by (simp add: memcpy_def copy_up_eq)

lemma string_at_put:
  assumes "0 \<notin> set bs"
  shows "string_at ((put_block p bs m)(p + length bs := 0)) p bs"
proof -
  have "block ((put_block p bs m)(p + length bs := 0)) p (length bs) = block (put_block p bs m) p (length bs)"
    by (simp add: block_def)
  with assms show ?thesis by (simp add: string_at_iff)
qed

lemma block_string_prefix:
  assumes "string_at m p cs" "n \<le> length cs"
  shows "block m p n = take n cs"
proof -
  have "take n cs = take n (block m p (length cs))" using assms(1) by (simp add: string_at_iff)
  also have "\<dots> = block m p n" using assms(2) by (simp add: block_def take_map)
  finally show ?thesis ..
qed

lemma strlcpy_string:
  assumes src: "string_at m p cs" "p \<noteq> NULL" and dst: "dst \<noteq> NULL" "dst + n \<le> p \<or> p + length cs < dst"
  shows "\<exists>m'. strlcpy dst p n m = Some (length cs, m') \<and> (n > 0 \<longrightarrow> string_at m' dst (take (n - 1) cs)) \<and>
    (\<forall>a. m' a \<noteq> m a \<longrightarrow> dst \<le> a \<and> a < dst + n)"
proof (cases "n > 0")
  case True
  define k where "k = min (length cs) (n - 1)"
  define m' where "m' = (put_block dst (take k cs) m)(dst + k := 0)"
  have k: "k \<le> length cs" "k \<le> n - 1" "(if length cs < n - 1 then length cs else n - 1) = k" "length (take k cs) = k"
    by (auto simp: k_def)
  have "memcpy dst p k m = Some (dst, put_block dst (take k cs) m)"
    using src dst k(1,2) True by (subst memcpy_eq) (auto simp: block_string_prefix)
  then have "strlcpy dst p n m = Some (length cs, m')"
    using src dst(1) True k(3) by (simp add: strlcpy_def strlen_string m'_def Let_def)
  moreover have "string_at m' dst (take k cs)"
    using string_at_put[of "take k cs" dst m] string_at_nonzero[OF src(1)] k(4)
    by (auto simp: m'_def dest: in_set_takeD)
  moreover have "take k cs = take (n - 1) cs" by (auto simp: k_def min_def)
  moreover have "\<forall>a. m' a \<noteq> m a \<longrightarrow> dst \<le> a \<and> a < dst + n"
    using k(2,4) True by (auto simp: m'_def put_block_apply split: if_splits)
  ultimately show ?thesis by auto
next
  case False
  with src dst(1) show ?thesis by (simp add: strlcpy_def strlen_string)
qed

lemma strlcat_string:
  assumes src: "string_at m p cs" "p \<noteq> NULL" and dst: "string_at m dst ds" "dst \<noteq> NULL" "dst + n \<le> p \<or> p + length cs < dst"
  shows "\<exists>m'. strlcat dst p n m = Some (length cs + length ds, m') \<and>
    (if length ds < n then string_at m' dst (take (n - 1) (ds @ cs)) else m' = m) \<and>
    (\<forall>a. m' a \<noteq> m a \<longrightarrow> dst + length ds \<le> a \<and> a < dst + n)"
proof (cases "length ds < n")
  case True
  define k where "k = min (length cs) (n - length ds - 1)"
  define e where "e = dst + length ds"
  define m' where "m' = (put_block e (take k cs) m)(e + k := 0)"
  have k: "k \<le> length cs" "k \<le> n - length ds - 1" "length (take k cs) = k"
    "(if length cs < n - length ds - 1 then length cs else n - length ds - 1) = k"
    by (auto simp: k_def)
  have "memcpy e p k m = Some (e, put_block e (take k cs) m)"
    using src dst k(1,2) True by (subst memcpy_eq) (auto simp: block_string_prefix e_def)
  then have "strlcat dst p n m = Some (length cs + length ds, m')"
    using src dst(1,2) True k(4) by (simp add: strlcat_def strlen_string m'_def Let_def e_def)
  moreover have "string_at m' e (take k cs)"
    using string_at_put[of "take k cs" e m] string_at_nonzero[OF src(1)] k(3)
    by (auto simp: m'_def dest: in_set_takeD)
  moreover have "block m' dst (length ds) = ds"
  proof -
    have "block m' dst (length ds) = block m dst (length ds)"
      by (auto simp: block_def m'_def e_def put_block_apply)
    with dst(1) show ?thesis by (simp add: string_at_iff)
  qed
  ultimately have "strlcat dst p n m = Some (length cs + length ds, m')" "string_at m' dst (ds @ take k cs)"
    using string_at_nonzero[OF dst(1)] by (simp_all add: string_at_append e_def)
  moreover have "ds @ take k cs = take (n - 1) (ds @ cs)"
    using True by (auto simp: k_def min_def)
  moreover have "\<forall>a. m' a \<noteq> m a \<longrightarrow> dst + length ds \<le> a \<and> a < dst + n"
    using k(2,3) True by (auto simp: m'_def e_def put_block_apply split: if_splits)
  ultimately show ?thesis using True by auto
next
  case False
  with src dst(1,2) show ?thesis by (simp add: strlcat_def strlen_string)
qed

section \<open>The properties\<close>

text \<open>For any two blocks, overlapping or not, \<^verbatim>\<open>memmove\<close> gives the destination the bytes that
  the source had and changes no other byte. It returns the destination, as its comment says, only
  when it copies downwards: copying upwards it returns the end of the destination.\<close>

theorem memmove_moves_any_block:
  assumes "dst \<noteq> NULL" "src \<noteq> NULL"
  shows "\<exists>m'. memmove dst src n m = Some (if dst < src then dst + n else dst, m') \<and>
    block m' dst n = block m src n \<and> (\<forall>a. a < dst \<or> dst + n \<le> a \<longrightarrow> m' a = m a)"
proof -
  have "memmove dst src n m = Some (if dst < src then dst + n else dst, put_block dst (block m src n) m)"
    using assms by (simp add: memmove_def copy_up_eq copy_down_eq)
  moreover have "block (put_block dst (block m src n) m) dst n = block m src n"
    using block_put_block[of dst "block m src n" m] by simp
  ultimately show ?thesis by (auto simp: put_block_apply)
qed

theorem memmove_moves_any_block_witness:
  "\<exists>m'. memmove 4 5 3 (\<lambda>a. of_nat a) = Some (7, m') \<and> block m' 4 3 = [5, 6, 7]"
  using memmove_moves_any_block[of 4 5 3 "\<lambda>a. of_nat a"] by (auto simp: block_def upt_rec)

text \<open>C22: The loop around \<^verbatim>\<open>strtok_r\<close> ends for every string and every set of delimiters that does not
  overlap it. It returns pointers to the maximal runs of characters that are no delimiters, in
  order, each ended by a null byte, and writes only inside the string.\<close>

theorem strtok_r_enumerates_tokens:
  assumes "string_at m s cs" "s \<noteq> NULL" "string_at m d ds" "d \<noteq> NULL" "d + length ds < s \<or> s + length cs \<le> d"
  shows "\<exists>ps m'. strtok_loop s d q m = Some (ps, m') \<and> list_all2 (string_at m') ps (tokens ds cs) \<and>
    (\<forall>a. m' a \<noteq> m a \<longrightarrow> s \<le> a \<and> a < s + length cs)"
  using assms by (intro strtok_loop_tokens) auto

text \<open>Memory with the path \<^verbatim>\<open>/a//bc\<close> at 10 and the delimiter \<^verbatim>\<open>/\<close> at 30.\<close>

definition sample_memory :: memory where
  "sample_memory = put_block 10 [47, 97, 47, 47, 98, 99, 0] (put_block 30 [47, 0] (\<lambda>a. 0))"

theorem strtok_r_enumerates_tokens_witness:
  "\<exists>ps m'. strtok_loop 10 30 0 sample_memory = Some (ps, m') \<and> list_all2 (string_at m') ps [[97], [98, 99]]"
proof -
  have "string_at sample_memory 10 [47, 97, 47, 47, 98, 99]" "string_at sample_memory 30 [47]"
    by (simp_all add: sample_memory_def put_block_def nth_Cons')
  moreover have "tokens [47] [47, 97, 47, 47, 98, 99] = [[97], [98, 99]]"
    by (simp add: tokens.simps)
  ultimately show ?thesis
    using strtok_r_enumerates_tokens[of sample_memory 10 "[47, 97, 47, 47, 98, 99]" 30 "[47]" 0] by auto
qed

text \<open>\<^verbatim>\<open>strlcpy\<close> and \<^verbatim>\<open>strlcat\<close> with a buffer of \<open>n\<close> bytes leave the copied or concatenated
  string in it, cut to \<open>n - 1\<close> characters, return the length of the string that was asked for,
  and write no byte outside of the buffer.\<close>

theorem strlcpy_strlcat_bounded:
  assumes "string_at m src cs" "src \<noteq> NULL" "dst \<noteq> NULL" "dst + n \<le> src \<or> src + length cs < dst"
  shows "(\<exists>m'. strlcpy dst src n m = Some (length cs, m') \<and> (n > 0 \<longrightarrow> string_at m' dst (take (n - 1) cs)) \<and>
      (\<forall>a. m' a \<noteq> m a \<longrightarrow> dst \<le> a \<and> a < dst + n)) \<and>
    (\<forall>ds. string_at m dst ds \<longrightarrow> (\<exists>m'. strlcat dst src n m = Some (length cs + length ds, m') \<and>
      (if length ds < n then string_at m' dst (take (n - 1) (ds @ cs)) else m' = m) \<and>
      (\<forall>a. m' a \<noteq> m a \<longrightarrow> dst + length ds \<le> a \<and> a < dst + n)))"
  using strlcpy_string[OF assms] strlcat_string[OF assms(1,2) _ assms(3,4)] by blast

theorem strlcpy_strlcat_bounded_witness:
  "\<exists>m'. strlcpy 40 10 4 sample_memory = Some (6, m') \<and> string_at m' 40 [47, 97, 47]"
proof -
  have "string_at sample_memory 10 [47, 97, 47, 47, 98, 99]"
    by (simp add: sample_memory_def put_block_def nth_Cons')
  from strlcpy_strlcat_bounded[OF this, of 40 4] show ?thesis by fastforce
qed

end
