(* ===== verification/Directory.thy ===== *)
theory Directory
  imports Inode Cstring
begin

text \<open>
  Directories and path names: \<^verbatim>\<open>filesys/directory.c\<close> and \<^verbatim>\<open>filesys/filesys.c\<close>, on the inodes of
  theory Inode. The state \<open>dfs\<close> adds to the state of the files the open directories, the working
  directory of the running thread, and \<open>heap\<close>: what the next calls of \<^verbatim>\<open>malloc\<close> and \<^verbatim>\<open>calloc\<close>
  return. When the list is used up they return null pointers.

  A name or a path is the list of its characters without the terminator. Where the code splits a
  path with \<^verbatim>\<open>strtok_r\<close>, the model takes its \<open>tokens\<close>; theory Cstring shows that these are the same.
  \<open>junk\<close> is what an uninitialised \<^verbatim>\<open>struct dir_entry\<close> holds; \<open>mem\<close> says whether the bounce buffers
  of the reads and writes can be allocated. \<open>None\<close> is a kernel panic, the use of an inode after it
  was freed, or an access outside of an array.
\<close>

section \<open>Entries\<close>

definition NAME_MAX :: nat where "NAME_MAX = 14"

record dir =
  dir_inode :: addr
  dir_pos :: int

record dir_entry =
  inode_sector :: u32
  entry_name :: "byte list"
  in_use :: byte

record dfs =
  fsys :: fs
  dirs :: "addr \<Rightarrow> dir"
  cwd :: addr
  heap :: "addr list"

definition sizeof_entry :: nat where
  "sizeof_entry = 4 + (NAME_MAX + 1) + 1"

definition encode_entry :: "dir_entry \<Rightarrow> byte list" where
  "encode_entry e = encode32 (inode_sector e) @ entry_name e @ [in_use e]"

definition decode_entry :: "byte list \<Rightarrow> dir_entry" where
  "decode_entry bs = \<lparr>inode_sector = decode32 (take 4 bs), entry_name = take (NAME_MAX + 1) (drop 4 bs), in_use = bs ! 19\<rparr>"

text \<open>What a read of an entry leaves in the variable: the bytes read, and the old ones behind them.\<close>

definition read_into :: "byte list \<Rightarrow> dir_entry \<Rightarrow> dir_entry" where
  "read_into bs e = decode_entry (bs @ drop (length bs) (encode_entry e))"

text \<open>\<^verbatim>\<open>strcmp (name, e.name) == 0\<close>: the array must have a terminator where the name is over.\<close>

fun same_name :: "byte list \<Rightarrow> byte list \<Rightarrow> bool option" where
  "same_name cs [] = None"
| "same_name [] (b # bs) = Some (b = 0)"
| "same_name (c # cs) (b # bs) = (if c = b then same_name cs bs else Some False)"

text \<open>\<^verbatim>\<open>strlcpy\<close> into an array of \<open>NAME_MAX + 1\<close> characters.\<close>

definition copy_name :: "byte list \<Rightarrow> byte list \<Rightarrow> byte list" where
  "copy_name nm old = take NAME_MAX nm @ [0] @ drop (length (take NAME_MAX nm) + 1) old"

section \<open>Memory\<close>

definition alloc :: "dfs \<Rightarrow> addr \<times> dfs" where
  "alloc st = (case heap st of [] \<Rightarrow> (NULL, st) | p # ps \<Rightarrow> (p, st\<lparr>heap := ps\<rparr>))"

text \<open>\<^verbatim>\<open>inode_open\<close> allocates only when the inode is not open.\<close>

definition open_sector :: "u32 \<Rightarrow> dfs \<Rightarrow> (addr \<times> dfs) option" where
  "open_sector sec st =
     (if \<exists>i \<in> set (open_inodes (fsys st)). sector (inodes (fsys st) i) = sec
      then do { (i, s) \<leftarrow> inode_open NULL sec (fsys st); Some (i, st\<lparr>fsys := s\<rparr>) }
      else do { let (p, st) = alloc st; (i, s) \<leftarrow> inode_open p sec (fsys st); Some (i, st\<lparr>fsys := s\<rparr>) })"

definition close_inode :: "bool \<Rightarrow> addr \<Rightarrow> dfs \<Rightarrow> dfs option" where
  "close_inode mem i st = do { s \<leftarrow> inode_close mem i (fsys st); Some (st\<lparr>fsys := s\<rparr>) }"

definition write_entry :: "bool \<Rightarrow> addr \<Rightarrow> dir_entry \<Rightarrow> int \<Rightarrow> dfs \<Rightarrow> (bool \<times> dfs) option" where
  "write_entry mem i e ofs st = do {
     (n, s) \<leftarrow> inode_write_at mem i (encode_entry e) (int sizeof_entry) ofs (fsys st);
     Some (n = sizeof_entry, st\<lparr>fsys := s\<rparr>) }"

section \<open>Opening and closing directories\<close>

definition dir_open :: "bool \<Rightarrow> addr \<Rightarrow> dfs \<Rightarrow> (addr \<times> dfs) option" where
  "dir_open mem i st = do {
     let (d, st) = alloc st;
     if i \<noteq> NULL \<and> d \<noteq> NULL
     then Some (d, st\<lparr>dirs := (dirs st)(d := \<lparr>dir_inode = i, dir_pos = int sizeof_entry\<rparr>)\<rparr>)
     else do { st \<leftarrow> close_inode mem i st; Some (NULL, st) } }"

definition dir_open_root :: "bool \<Rightarrow> dfs \<Rightarrow> (addr \<times> dfs) option" where
  "dir_open_root mem st = do { (i, st) \<leftarrow> open_sector ROOT_DIR_SECTOR st; dir_open mem i st }"

definition dir_reopen :: "bool \<Rightarrow> addr \<Rightarrow> dfs \<Rightarrow> (addr \<times> dfs) option" where
  "dir_reopen mem d st =
     (let i = dir_inode (dirs st d) in dir_open mem i (st\<lparr>fsys := inode_reopen i (fsys st)\<rparr>))"

definition dir_close :: "bool \<Rightarrow> addr \<Rightarrow> dfs \<Rightarrow> dfs option" where
  "dir_close mem d st = (if d \<noteq> NULL then close_inode mem (dir_inode (dirs st d)) st else Some st)"

definition dir_get_inode :: "addr \<Rightarrow> dfs \<Rightarrow> addr option" where
  "dir_get_inode d st = do { kassert (d \<noteq> NULL); Some (dir_inode (dirs st d)) }"

definition dir_create :: "bool \<Rightarrow> u32 \<Rightarrow> nat \<Rightarrow> dir_entry \<Rightarrow> dfs \<Rightarrow> (bool \<times> dfs) option" where
  "dir_create mem sec entry_cnt junk st = do {
     let (p, st) = alloc st;
     (ok, s) \<leftarrow> inode_create (p \<noteq> NULL) mem sec (int (entry_cnt * sizeof_entry)) True (fsys st);
     let st = st\<lparr>fsys := s\<rparr>;
     if \<not> ok then Some (False, st)
     else do {
       (i, st) \<leftarrow> open_sector sec st;
       (d, st) \<leftarrow> dir_open mem i st;
       kassert (d \<noteq> NULL);
       (success, st) \<leftarrow> write_entry mem (dir_inode (dirs st d)) (junk\<lparr>inode_sector := sec\<rparr>) 0 st;
       st \<leftarrow> dir_close mem d st;
       Some (success, st) } }"

section \<open>Reading directories\<close>

text \<open>The loop of \<^verbatim>\<open>lookup\<close>; it starts after the entry of the parent.\<close>

partial_function (option) lookup_loop :: "bool \<Rightarrow> addr \<Rightarrow> byte list \<Rightarrow> nat \<Rightarrow> fs \<Rightarrow> (dir_entry \<times> nat) option option" where
  "lookup_loop mem i nm ofs s = do {
     bs \<leftarrow> inode_read_at mem i (int sizeof_entry) (int ofs) s;
     if length bs = sizeof_entry
     then do {
       let e = decode_entry bs;
       found \<leftarrow> (if in_use e \<noteq> 0 then same_name nm (entry_name e) else Some False);
       if found then Some (Some (e, ofs)) else lookup_loop mem i nm (ofs + sizeof_entry) s }
     else Some None }"

definition lookup :: "bool \<Rightarrow> addr \<Rightarrow> byte list \<Rightarrow> dfs \<Rightarrow> (dir_entry \<times> nat) option option" where
  "lookup mem d nm st = do { kassert (d \<noteq> NULL); lookup_loop mem (dir_inode (dirs st d)) nm sizeof_entry (fsys st) }"

partial_function (option) is_empty_loop :: "bool \<Rightarrow> addr \<Rightarrow> nat \<Rightarrow> fs \<Rightarrow> bool option" where
  "is_empty_loop mem i ofs s = do {
     bs \<leftarrow> inode_read_at mem i (int sizeof_entry) (int ofs) s;
     if length bs = sizeof_entry
     then (if in_use (decode_entry bs) \<noteq> 0 then Some False else is_empty_loop mem i (ofs + sizeof_entry) s)
     else Some True }"

definition dir_is_empty :: "bool \<Rightarrow> addr \<Rightarrow> dfs \<Rightarrow> bool option" where
  "dir_is_empty mem d st = do {
     kassert (d \<noteq> NULL);
     is_empty_loop mem (dir_inode (dirs st d)) sizeof_entry (fsys st) }"

text \<open>The names \<^verbatim>\<open>.\<close> and \<^verbatim>\<open>..\<close>, and the inode that \<^verbatim>\<open>*inode\<close> gets; the call succeeds if it is not null.\<close>

definition dot :: "byte list" where "dot = [46]"
definition dotdot :: "byte list" where "dotdot = [46, 46]"

definition dir_lookup :: "bool \<Rightarrow> addr \<Rightarrow> byte list \<Rightarrow> dir_entry \<Rightarrow> dfs \<Rightarrow> (addr \<times> dfs) option" where
  "dir_lookup mem d nm junk st = do {
     kassert (d \<noteq> NULL);
     let i = dir_inode (dirs st d);
     if nm = dot then Some (i, st\<lparr>fsys := inode_reopen i (fsys st)\<rparr>)
     else if nm = dotdot
     then do {
       bs \<leftarrow> inode_read_at mem i (int sizeof_entry) 0 (fsys st);
       open_sector (inode_sector (read_into bs junk)) st }
     else do {
       r \<leftarrow> lookup mem d nm st;
       (case r of Some (e, ofs) \<Rightarrow> open_sector (inode_sector e) st | None \<Rightarrow> Some (NULL, st)) } }"

text \<open>The name found, and the new position.\<close>

partial_function (option) readdir_loop :: "bool \<Rightarrow> addr \<Rightarrow> int \<Rightarrow> fs \<Rightarrow> (byte list option \<times> int) option" where
  "readdir_loop mem i p s = do {
     bs \<leftarrow> inode_read_at mem i (int sizeof_entry) p s;
     if length bs = sizeof_entry
     then do {
       let e = decode_entry bs;
       if in_use e \<noteq> 0
       then do { kassert (0 \<in> set (entry_name e)); Some (Some (takeWhile (\<lambda>c. c \<noteq> 0) (entry_name e)), p + int sizeof_entry) }
       else readdir_loop mem i (p + int sizeof_entry) s }
     else Some (None, p) }"

definition dir_readdir :: "bool \<Rightarrow> addr \<Rightarrow> dfs \<Rightarrow> (byte list option \<times> dfs) option" where
  "dir_readdir mem d st = do {
     kassert (d \<noteq> NULL);
     (r, p) \<leftarrow> readdir_loop mem (dir_inode (dirs st d)) (dir_pos (dirs st d)) (fsys st);
     Some (r, st\<lparr>dirs := (dirs st)(d := (dirs st d)\<lparr>dir_pos := p\<rparr>)\<rparr>) }"

section \<open>Changing directories\<close>

text \<open>The loop that looks for a free slot: where it stops, and what the variable then holds.\<close>

partial_function (option) find_slot :: "bool \<Rightarrow> addr \<Rightarrow> dir_entry \<Rightarrow> nat \<Rightarrow> fs \<Rightarrow> (nat \<times> dir_entry) option" where
  "find_slot mem i e ofs s = do {
     bs \<leftarrow> inode_read_at mem i (int sizeof_entry) (int ofs) s;
     let e = read_into bs e;
     if length bs = sizeof_entry \<and> in_use e \<noteq> 0 then find_slot mem i e (ofs + sizeof_entry) s else Some (ofs, e) }"

text \<open>The entry of the parent in a new directory; \<open>None\<close> in the result stops \<^verbatim>\<open>dir_add\<close>.\<close>

definition set_parent :: "bool \<Rightarrow> addr \<Rightarrow> u32 \<Rightarrow> dir_entry \<Rightarrow> dfs \<Rightarrow> (dir_entry option \<times> dfs) option" where
  "set_parent mem d sec junk st = do {
     (i, st) \<leftarrow> open_sector sec st;
     (child, st) \<leftarrow> dir_open mem i st;
     if child = NULL then Some (None, st)
     else do {
       i \<leftarrow> dir_get_inode d st;
       let e = junk\<lparr>inode_sector := inode_get_inumber i (fsys st)\<rparr>;
       (ok, st) \<leftarrow> write_entry mem (dir_inode (dirs st child)) e 0 st;
       st \<leftarrow> dir_close mem child st;
       Some (if ok then Some e else None, st) } }"

definition dir_add :: "bool \<Rightarrow> addr \<Rightarrow> byte list \<Rightarrow> u32 \<Rightarrow> bool \<Rightarrow> dir_entry \<Rightarrow> dfs \<Rightarrow> (bool \<times> dfs) option" where
  "dir_add mem d nm sec child_is_dir junk st = do {
     kassert (d \<noteq> NULL);
     if nm = [] \<or> length nm > NAME_MAX then Some (False, st)
     else do {
       r \<leftarrow> lookup mem d nm st;
       if r \<noteq> None then Some (False, st)
       else do {
         (e, st) \<leftarrow> (if child_is_dir then set_parent mem d sec junk st else Some (Some junk, st));
         (case e of
            None \<Rightarrow> Some (False, st)
          | Some e \<Rightarrow> do {
              (ofs, e) \<leftarrow> find_slot mem (dir_inode (dirs st d)) e 0 (fsys st);
              let e = e\<lparr>in_use := 1, entry_name := copy_name nm (entry_name e), inode_sector := sec\<rparr>;
              write_entry mem (dir_inode (dirs st d)) e (int ofs) st }) } } }"

text \<open>A directory may be removed if it is empty; the directory opened for this test takes over the
  inode, and closes it.\<close>

definition may_remove :: "bool \<Rightarrow> addr \<Rightarrow> dfs \<Rightarrow> (bool \<times> dfs) option" where
  "may_remove mem i st =
     (if inode_is_directory i (fsys st)
      then do {
        (target, st) \<leftarrow> dir_open mem i st;
        empty \<leftarrow> dir_is_empty mem target st;
        st \<leftarrow> dir_close mem target st;
        Some (empty, st) }
      else Some (True, st))"

definition dir_remove :: "bool \<Rightarrow> addr \<Rightarrow> byte list \<Rightarrow> dfs \<Rightarrow> (bool \<times> dfs) option" where
  "dir_remove mem d nm st = do {
     kassert (d \<noteq> NULL);
     r \<leftarrow> lookup mem d nm st;
     (case r of
        None \<Rightarrow> Some (False, st)
      | Some (e, ofs) \<Rightarrow> do {
          (i, st) \<leftarrow> open_sector (inode_sector e) st;
          if i = NULL then Some (False, st)
          else do {
            (ok, st) \<leftarrow> may_remove mem i st;
            (ok, st) \<leftarrow> (if ok then write_entry mem (dir_inode (dirs st d)) (e\<lparr>in_use := 0\<rparr>) (int ofs) st else Some (False, st));
            st \<leftarrow> (if ok then do { s \<leftarrow> inode_remove i (fsys st); Some (st\<lparr>fsys := s\<rparr>) } else Some st);
            st \<leftarrow> close_inode mem i st;
            Some (ok, st) } }) }"

section \<open>Paths\<close>

definition slash :: byte where "slash = 47"

text \<open>The loop of \<^verbatim>\<open>split_path_filename\<close>: each token but the last goes to the directory.\<close>

fun split_loop :: "byte list \<Rightarrow> byte list \<Rightarrow> byte list list \<Rightarrow> byte list \<times> byte list" where
  "split_loop dir last_token [] = (dir, last_token)"
| "split_loop dir last_token (token # ts) =
     split_loop (if length last_token > 0 then dir @ last_token @ [slash] else dir) token ts"

definition split_path_filename :: "byte list \<Rightarrow> byte list \<times> byte list" where
  "split_path_filename path =
     split_loop (if path \<noteq> [] \<and> hd path = slash then [slash] else []) [] (tokens [slash] path)"

text \<open>The loop over the components of a path; no result if it returns a null pointer from inside.\<close>

fun walk :: "bool \<Rightarrow> dir_entry \<Rightarrow> byte list list \<Rightarrow> addr \<Rightarrow> dfs \<Rightarrow> (addr option \<times> dfs) option" where
  "walk mem junk [] d st = Some (Some d, st)"
| "walk mem junk (token # ts) d st = do {
     (i, st) \<leftarrow> dir_lookup mem d token junk st;
     if i = NULL then do { st \<leftarrow> dir_close mem d st; Some (None, st) }
     else do {
       (next, st) \<leftarrow> dir_open mem i st;
       st \<leftarrow> dir_close mem d st;
       if next = NULL then Some (None, st) else walk mem junk ts next st } }"

definition dir_open_path :: "bool \<Rightarrow> dir_entry \<Rightarrow> byte list \<Rightarrow> dfs \<Rightarrow> (addr \<times> dfs) option" where
  "dir_open_path mem junk path st = do {
     (d, st) \<leftarrow> (if path \<noteq> [] \<and> hd path = slash then dir_open_root mem st
        else if cwd st = NULL then dir_open_root mem st else dir_reopen mem (cwd st) st);
     (r, st) \<leftarrow> walk mem junk (tokens [slash] path) d st;
     (case r of
        None \<Rightarrow> Some (NULL, st)
      | Some d \<Rightarrow> do {
          i \<leftarrow> dir_get_inode d st;
          if inode_is_removed i (fsys st) then do { st \<leftarrow> dir_close mem d st; Some (NULL, st) } else Some (d, st) }) }"

section \<open>The file system\<close>

text \<open>The buffers for the directory and the file name have \<open>length path\<close> bytes here, and must hold
  the terminators too.\<close>

definition split_into :: "nat \<Rightarrow> byte list \<Rightarrow> (byte list \<times> byte list) option" where
  "split_into n path = do {
     let (directory, file_name) = split_path_filename path;
     kassert (length directory < n \<and> length file_name < n);
     Some (directory, file_name) }"

definition filesys_create :: "bool \<Rightarrow> dir_entry \<Rightarrow> byte list \<Rightarrow> int \<Rightarrow> bool \<Rightarrow> dfs \<Rightarrow> (bool \<times> dfs) option" where
  "filesys_create mem junk path initial_size child_is_dir st = do {
     (directory, file_name) \<leftarrow> split_into (length path) path;
     (d, st) \<leftarrow> dir_open_path mem junk directory st;
     (sec, success, st) \<leftarrow> (if d = NULL then Some (0, False, st)
        else do {
          (a, s) \<leftarrow> free_map_allocate mem 1 (fsys st);
          let st = st\<lparr>fsys := s\<rparr>;
          (case a of
             None \<Rightarrow> Some (0, False, st)
           | Some sec \<Rightarrow> do {
               let (p, st) = alloc st;
               (ok, s) \<leftarrow> inode_create (p \<noteq> NULL) mem sec initial_size child_is_dir (fsys st);
               let st = st\<lparr>fsys := s\<rparr>;
               if \<not> ok then Some (sec, False, st)
               else do { (ok, st) \<leftarrow> dir_add mem d file_name sec child_is_dir junk st; Some (sec, ok, st) } }) });
     st \<leftarrow> (if \<not> success \<and> sec \<noteq> 0 then do { s \<leftarrow> free_map_release mem sec 1 (fsys st); Some (st\<lparr>fsys := s\<rparr>) } else Some st);
     st \<leftarrow> dir_close mem d st;
     Some (success, st) }"

text \<open>With an empty file name the directory stays open, and its inode goes to the file.\<close>

definition filesys_open :: "bool \<Rightarrow> dir_entry \<Rightarrow> byte list \<Rightarrow> dfs \<Rightarrow> (addr \<times> dfs) option" where
  "filesys_open mem junk path st =
     (if length path = 0 then Some (NULL, st)
      else do {
        (directory, file_name) \<leftarrow> split_into (length path + 1) path;
        (d, st) \<leftarrow> dir_open_path mem junk directory st;
        if d = NULL then Some (NULL, st)
        else do {
          (i, st) \<leftarrow> (if length file_name > 0
             then do { (i, st) \<leftarrow> dir_lookup mem d file_name junk st; st \<leftarrow> dir_close mem d st; Some (i, st) }
             else do { i \<leftarrow> dir_get_inode d st; Some (i, st) });
          if i = NULL \<or> inode_is_removed i (fsys st) then Some (NULL, st)
          else do {
            let (p, st) = alloc st;
            (f, s) \<leftarrow> file_open mem p i (fsys st);
            Some (f, st\<lparr>fsys := s\<rparr>) } } })"

definition filesys_remove :: "bool \<Rightarrow> dir_entry \<Rightarrow> byte list \<Rightarrow> dfs \<Rightarrow> (bool \<times> dfs) option" where
  "filesys_remove mem junk path st = do {
     (directory, file_name) \<leftarrow> split_into (length path) path;
     (d, st) \<leftarrow> dir_open_path mem junk directory st;
     (success, st) \<leftarrow> (if d \<noteq> NULL then dir_remove mem d file_name st else Some (False, st));
     st \<leftarrow> dir_close mem d st;
     Some (success, st) }"

definition filesys_chdir :: "bool \<Rightarrow> dir_entry \<Rightarrow> byte list \<Rightarrow> dfs \<Rightarrow> (bool \<times> dfs) option" where
  "filesys_chdir mem junk path st = do {
     (d, st) \<leftarrow> dir_open_path mem junk path st;
     if d = NULL then Some (False, st)
     else do { st \<leftarrow> dir_close mem (cwd st) st; Some (True, st\<lparr>cwd := d\<rparr>) } }"

definition do_format :: "bool \<Rightarrow> dir_entry \<Rightarrow> dfs \<Rightarrow> dfs option" where
  "do_format mem junk st = do {
     let (p, st) = alloc st;
     let (q, st) = alloc st;
     let (f, st) = alloc st;
     s \<leftarrow> free_map_create (p \<noteq> NULL) mem q f (fsys st);
     (ok, st) \<leftarrow> dir_create mem ROOT_DIR_SECTOR 16 junk (st\<lparr>fsys := s\<rparr>);
     kassert ok;
     s \<leftarrow> free_map_close mem (fsys st);
     Some (st\<lparr>fsys := s\<rparr>) }"

text \<open>The buffer cache is invisible in the sectors of the state, so its start and its end are.
  \<open>found\<close> says whether there is a device for the file system, \<open>created\<close> is the new bitmap.\<close>

definition filesys_init :: "bool \<Rightarrow> bool \<Rightarrow> bitmap option \<Rightarrow> bool \<Rightarrow> dir_entry \<Rightarrow> dfs \<Rightarrow> dfs option" where
  "filesys_init found format created mem junk st = do {
     kassert found;
     s \<leftarrow> free_map_init created (inode_init (fsys st));
     let st = st\<lparr>fsys := s\<rparr>;
     st \<leftarrow> (if format then do_format mem junk st else Some st);
     let (q, st) = alloc st;
     let (f, st) = alloc st;
     s \<leftarrow> free_map_open mem q f (fsys st);
     Some (st\<lparr>fsys := s\<rparr>) }"

definition filesys_done :: "bool \<Rightarrow> dfs \<Rightarrow> dfs option" where
  "filesys_done mem st = do { s \<leftarrow> free_map_close mem (fsys st); Some (st\<lparr>fsys := s\<rparr>) }"

end
