(* ===== verification/InodeGrow.thy ===== *)
theory InodeGrow
  imports InodeData
begin

text \<open>
  Allocation of sectors and growth of files: with a free map that is in order and enough free
  sectors, \<^verbatim>\<open>free_map_allocate\<close>, \<^verbatim>\<open>inode_create\<close> and a write past the end of a file succeed. The
  sectors they take were free, are distinct, and hold zeros or what was written; no other file's
  sector changes. The theory covers files whose blocks are direct.
\<close>

section \<open>The free map\<close>

definition fm_inode :: "fs \<Rightarrow> addr" where
  "fm_inode s = file_inode (files s (free_map_file s))"

abbreviation fm_data :: "fs \<Rightarrow> inode_disk" where
  "fm_data s \<equiv> data (inodes s (fm_inode s))"

text \<open>The sectors that a file takes on the disk, apart from the one of its inode.\<close>

definition file_sectors :: "fs \<Rightarrow> inode_disk \<Rightarrow> u32 set" where
  "file_sectors s d = sec s d ` {..<bytes_to_sectors (file_len d)} \<union> index_sectors s d (bytes_to_sectors (file_len d))"

definition fm_sectors :: "fs \<Rightarrow> u32 set" where
  "fm_sectors s = (if free_map_file s = NULL then {} else file_sectors s (fm_data s))"

definition used_sectors :: "fs \<Rightarrow> u32 set" where
  "used_sectors s = {x. unat x \<in> marked (free_map s)}"

definition free_sectors :: "fs \<Rightarrow> u32 set" where
  "free_sectors s = {x. unat x < bit_cnt (free_map s)} - used_sectors s"

text \<open>The bitmap covers the device and marks sector 0 and the sectors of its own file, which has its
  final size and can be written.\<close>

definition free_map_ok :: "fs \<Rightarrow> bool" where
  "free_map_ok s \<longleftrightarrow> bitmap_good (free_map s) \<and> bit_cnt (free_map s) \<le> fs_size s \<and> fs_size s < 2 ^ 32 \<and>
     0 \<in> used_sectors s \<and> fm_sectors s \<subseteq> used_sectors s \<and>
     (free_map_file s \<noteq> NULL \<longrightarrow> fm_inode s \<notin> freed s \<and> deny_write_cnt (inodes s (fm_inode s)) = 0 \<and> file_ok s (fm_data s) \<and>
       byte_cnt (bit_cnt (free_map s)) \<le> nat (file_len (fm_data s)))"

lemma free_map_okD:
  assumes "free_map_ok s"
  shows "bitmap_good (free_map s)" "bit_cnt (free_map s) \<le> fs_size s" "fs_size s < 2 ^ 32" "0 \<in> used_sectors s"
    "fm_sectors s \<subseteq> used_sectors s"
    "free_map_file s \<noteq> NULL \<Longrightarrow> fm_inode s \<notin> freed s \<and> deny_write_cnt (inodes s (fm_inode s)) = 0 \<and> file_ok s (fm_data s) \<and>
       byte_cnt (bit_cnt (free_map s)) \<le> nat (file_len (fm_data s))"
  using assms unfolding free_map_ok_def by auto

lemma marked_bound: "bitmap_good b \<Longrightarrow> i \<in> marked b \<Longrightarrow> i < bit_cnt b"
proof -
  assume "bitmap_good b" "i \<in> marked b"
  then obtain bs where "bitmap_rep b bs" "i < length bs" by (auto simp: bitmap_good_def marked_rep)
  then show ?thesis by (simp add: bitmap_rep_def)
qed

lemma used_bound: "free_map_ok s \<Longrightarrow> x \<in> used_sectors s \<Longrightarrow> unat x < bit_cnt (free_map s)"
  using marked_bound [of "free_map s"] by (simp add: free_map_ok_def used_sectors_def)

text \<open>What does not matter for the free map: the sectors of other files.\<close>

lemma free_map_ok_frame:
  assumes ok: "free_map_ok s" and s': "s' = s\<lparr>disk := disk s'\<rparr>"
    and same: "\<And>x. x \<in> fm_sectors s \<Longrightarrow> disk s' x = disk s x"
  shows "free_map_ok s'" "fm_sectors s' = fm_sectors s" "used_sectors s' = used_sectors s"
proof -
  have eq: "free_map s' = free_map s" "free_map_file s' = free_map_file s" "files s' = files s" "inodes s' = inodes s"
    "freed s' = freed s" "fs_size s' = fs_size s" by (subst s', simp)+
  show used: "used_sectors s' = used_sectors s" by (simp add: used_sectors_def eq)
  have fm: "fm_inode s' = fm_inode s" by (simp add: fm_inode_def eq)
  have "fm_sectors s' = fm_sectors s \<and> (free_map_file s \<noteq> NULL \<longrightarrow> file_ok s' (fm_data s))"
  proof (cases "free_map_file s = NULL")
    case True
    then show ?thesis by (simp add: fm_sectors_def eq)
  next
    case False
    let ?d = "fm_data s" and ?n = "bytes_to_sectors (file_len (fm_data s))"
    have fok: "file_ok s ?d" using free_map_okD(6) [OF ok False] by blast
    have fs: "fm_sectors s = file_sectors s ?d" using False by (simp add: fm_sectors_def)
    have idx: "\<And>x. x \<in> index_sectors s ?d ?n \<Longrightarrow> disk s' x = disk s x" using same fs by (simp add: file_sectors_def)
    have sec: "sec s' ?d k = sec s ?d k" if "k < ?n" for k
      using sec_frame(2) [OF fok _ eq(6) that] idx by blast
    have idx': "index_sectors s' ?d ?n = index_sectors s ?d ?n"
      using sec_frame(1) [OF fok _ eq(6)] idx by blast
    have img: "sec s' ?d ` {..<?n} = sec s ?d ` {..<?n}" by (intro image_cong) (simp_all add: sec)
    have "inj_on (sec s' ?d) {..<?n} = inj_on (sec s ?d) {..<?n}" by (intro inj_on_cong) (simp add: sec)
    moreover have "disk s' (sec s ?d k) = disk s (sec s ?d k)" if "k < ?n" for k
      using same fs that by (simp add: file_sectors_def)
    ultimately have "file_ok s' ?d" using fok sec idx' eq(6) unfolding file_ok_def Let_def by simp
    then show ?thesis using False img idx' fm by (simp add: fm_sectors_def file_sectors_def eq)
  qed
  then show "fm_sectors s' = fm_sectors s" "free_map_ok s'"
    using ok fm used by (auto simp: free_map_ok_def eq)
qed

text \<open>Files depend on the sectors only.\<close>

lemma same_disk:
  assumes "disk s' = disk s" "fs_size s' = fs_size s"
  shows "sec s' = sec s" "index_sectors s' = index_sectors s" "file_ok s' d = file_ok s d" "contents s' d = contents s d"
proof -
  have "cache_read x s' = cache_read x s" for x using assms by (simp add: cache_read_def)
  then have "index_to_sector d k s' = index_to_sector d k s" for d k by (simp only: index_to_sector_def)
  then show sec: "sec s' = sec s" by (simp add: fun_eq_iff sec_def)
  show idx: "index_sectors s' = index_sectors s" using assms by (simp add: fun_eq_iff index_sectors_def)
  show "file_ok s' d = file_ok s d" using assms by (simp add: file_ok_def sec idx)
  show "contents s' d = contents s d" using assms by (simp add: contents_def file_byte_def sec)
qed

lemma byte_cnt_pos: "0 < n \<Longrightarrow> 0 < byte_cnt n"
  by (simp add: byte_cnt_def elem_cnt_def)

lemma nat_int_minus_one: "nat (int n - 1) = n - 1"
  by linarith

lemma last_byte_inside: "0 < n \<Longrightarrow> n \<le> nat l \<Longrightarrow> 0 \<le> int n - 1 \<and> int n - 1 < l"
  by linarith

lemma length_bitmap_bytes: "bitmap_good b \<Longrightarrow> byte_cnt (bit_cnt b) \<le> length (bitmap_bytes b)"
  by (auto simp: bitmap_good_def bitmap_rep_def bitmap_bytes_def byte_cnt_def)

lemma free_map_write_ok:
  assumes ok: "free_map_ok s" and f: "free_map_file s \<noteq> NULL"
  obtains s' where "free_map_write True s = Some (True, s')" "s' = s\<lparr>disk := disk s'\<rparr>" "free_map_ok s'"
    "fm_sectors s' = fm_sectors s" "used_sectors s' = used_sectors s" "\<And>x. x \<notin> fm_sectors s \<Longrightarrow> disk s' x = disk s x"
proof -
  let ?d = "fm_data s" and ?sz = "byte_cnt (bit_cnt (free_map s))" and ?n = "bytes_to_sectors (file_len (fm_data s))"
  note fm = free_map_okD(6) [OF ok f]
  then have fok: "file_ok s ?d" and le: "0 + ?sz \<le> nat (file_len ?d)" by auto
  have "0 < bit_cnt (free_map s)" using used_bound [OF ok free_map_okD(4) [OF ok]] by simp
  then have pos: "0 < ?sz" by (rule byte_cnt_pos)
  have "?sz \<le> length (bitmap_bytes (free_map s))" by (rule length_bitmap_bytes [OF free_map_okD(1) [OF ok]])
  from write_contents [OF fok le this] obtain s' where s': "write_loop True ?d (bitmap_bytes (free_map s)) ?sz 0 s = Some (?sz, s')"
    "file_ok s' ?d" "s' = s\<lparr>disk := disk s'\<rparr>" "\<forall>x. x \<notin> sec s ?d ` {..<?n} \<longrightarrow> disk s' x = disk s x" by blast
  have b: "(?sz - 1) div 512 < ?n" using block_index [OF file_okD(1) [OF fok], of "?sz - 1"] le pos by simp
  have n1: "nat (int ?sz - 1) = ?sz - 1" by (rule nat_int_minus_one)
  have "0 \<le> int ?sz - 1 \<and> int ?sz - 1 < file_len ?d" using last_byte_inside [OF pos] le by simp
  then have "byte_to_sector ?d (int ?sz - 1) s = Some (sec s ?d ((?sz - 1) div 512))"
    using index_defined [OF fok b] by (simp only: byte_to_sector_def BLOCK_SECTOR_SIZE_def n1 simp_thms if_True)
  moreover have "sec s ?d ((?sz - 1) div 512) \<noteq> - 1" using file_okD(6) [OF fok b] by blast
  ultimately have w: "free_map_write True s = Some (True, s')"
    using s'(1) fm by (simp add: free_map_write_def Let_def fm_inode_def)
  have eq: "free_map s' = free_map s" "free_map_file s' = free_map_file s" "files s' = files s" "inodes s' = inodes s"
    "freed s' = freed s" "fs_size s' = fs_size s" by (subst s'(3), simp)+
  have dis: "disk s' x = disk s x" if "x \<in> index_sectors s ?d ?n" for x
  proof -
    have "x \<noteq> sec s ?d k" if "k < ?n" for k using file_okD(6) [OF fok that] \<open>x \<in> index_sectors s ?d ?n\<close> by auto
    then show ?thesis using s'(4) by auto
  qed
  have "sec s' ?d k = sec s ?d k" if "k < ?n" for k
    using sec_frame(2) [OF fok _ eq(6) that] dis by blast
  then have "sec s' ?d ` {..<?n} = sec s ?d ` {..<?n}" by (intro image_cong) simp_all
  moreover have "index_sectors s' ?d ?n = index_sectors s ?d ?n" using sec_frame(1) [OF fok _ eq(6)] dis by blast
  ultimately have fms: "fm_sectors s' = fm_sectors s" using f eq by (simp add: fm_sectors_def file_sectors_def fm_inode_def)
  have used: "used_sectors s' = used_sectors s" using eq by (simp add: used_sectors_def)
  have "free_map_ok s'" using ok s'(2) fms used eq by (simp add: free_map_ok_def fm_inode_def)
  moreover have "disk s' x = disk s x" if "x \<notin> fm_sectors s" for x
    using s'(4) that f by (simp add: fm_sectors_def file_sectors_def)
  ultimately show ?thesis using that w s'(3) fms used by blast
qed

text \<open>An allocation takes a free sector.\<close>

lemma free_map_allocate_ok:
  assumes ok: "free_map_ok s" and free: "free_sectors s \<noteq> {}"
  obtains e s' where "free_map_allocate True 1 s = Some (Some e, s')" "s' = s\<lparr>free_map := free_map s', disk := disk s'\<rparr>"
    "free_map_ok s'" "fm_sectors s' = fm_sectors s" "e \<in> free_sectors s" "used_sectors s' = insert e (used_sectors s)"
    "bit_cnt (free_map s') = bit_cnt (free_map s)" "\<And>x. x \<notin> fm_sectors s \<Longrightarrow> disk s' x = disk s x"
proof -
  note good = free_map_okD(1) [OF ok]
  obtain r b where a: "bitmap_alloc 1 (free_map s) = Some (r, b)" using bm.alloc_not_stuck [OF good] by blast
  obtain x where x: "unat x < bit_cnt (free_map s)" "x \<notin> used_sectors s" using free by (auto simp: free_sectors_def)
  have "r \<noteq> None"
  proof
    assume "r = None"
    then have "{unat x..<unat x + 1} \<inter> marked (free_map s) \<noteq> {}" using bm.alloc_NoneD(4) [OF good, of 1 b "unat x"] a x(1) by simp
    then show False using x(2) by (auto simp: used_sectors_def)
  qed
  then obtain k where k: "r = Some k" by auto
  note al = bm.alloc_SomeD [OF good, of 1 k b]
  have sc: "bitmap_scan_and_flip (free_map s) 0 1 False = Some (k, b)" "k \<noteq> BITMAP_ERROR"
    using a k by (auto simp: bitmap_alloc_def Option.bind_eq_Some_conv split: if_splits)
  define e where "e = (of_nat k :: u32)"
  have kb: "k < bit_cnt (free_map s)" "k < 2 ^ 32"
    using al(3) a k free_map_okD(2,3) [OF ok] by auto
  then have ke: "unat e = k" by (simp add: e_def unat_of_nat take_bit_nat_eq_self)
  define s1 where "s1 = s\<lparr>free_map := b\<rparr>"
  have mk: "marked b = insert k (marked (free_map s))" "bit_cnt b = bit_cnt (free_map s)" "bitmap_good b" "k \<notin> marked (free_map s)"
    using al a k by auto
  have u1: "used_sectors s1 = insert e (used_sectors s)"
    using mk(1) ke by (auto simp: used_sectors_def s1_def word_unat_eq_iff)
  have dk: "disk s1 = disk s" "fs_size s1 = fs_size s" by (simp_all add: s1_def)
  have fm1: "fm_inode s1 = fm_inode s" "fm_sectors s1 = fm_sectors s"
    using same_disk(1,2) [OF dk] by (simp_all add: fm_sectors_def file_sectors_def) (simp_all add: s1_def fm_inode_def)
  have fo1: "file_ok s1 d = file_ok s d" for d by (rule same_disk(3) [OF dk])
  have "free_map_ok s1"
    using ok mk u1 fm1 fo1 unfolding free_map_ok_def by (auto simp: s1_def)
  note ok1 = this
  have fresh: "e \<in> free_sectors s" using kb mk(4) ke by (simp add: free_sectors_def used_sectors_def)
  show ?thesis
  proof (cases "free_map_file s = NULL")
    case True
    then have "free_map_allocate True 1 s = Some (Some e, s1)"
      using sc by (simp add: free_map_allocate_def s1_def e_def)
    then show ?thesis
      by (rule that) (use ok1 fm1 fresh u1 mk(2) in \<open>simp_all add: s1_def\<close>)
  next
    case False
    then have "free_map_file s1 \<noteq> NULL" by (simp add: s1_def)
    from free_map_write_ok [OF ok1 this] obtain s2 where s2: "free_map_write True s1 = Some (True, s2)" "s2 = s1\<lparr>disk := disk s2\<rparr>"
      "free_map_ok s2" "fm_sectors s2 = fm_sectors s1" "used_sectors s2 = used_sectors s1"
      "\<And>x. x \<notin> fm_sectors s1 \<Longrightarrow> disk s2 x = disk s1 x" by blast
    have fm2: "free_map s2 = b" by (subst s2(2)) (simp add: s1_def)
    have "free_map_allocate True 1 s = Some (Some e, s2)"
      using sc False s2(1) by (simp add: free_map_allocate_def s1_def e_def)
    then show ?thesis
    proof (rule that)
      show "s2 = s\<lparr>free_map := free_map s2, disk := disk s2\<rparr>" using s2(2) fm2 by (simp add: s1_def)
      show "disk s2 x = disk s x" if "x \<notin> fm_sectors s" for x using s2(6) that fm1 by (simp add: s1_def)
    qed (use s2 fm1 fresh u1 mk(2) fm2 in simp_all)
  qed
qed

section \<open>Reserving direct blocks\<close>

text \<open>The blocks of a range that have no sector yet.\<close>

definition holes :: "u32 list \<Rightarrow> nat \<Rightarrow> nat \<Rightarrow> nat set" where
  "holes blocks i l = {k. i \<le> k \<and> k < i + l \<and> blocks ! k = 0}"

lemma finite_holes [simp]: "finite (holes blocks i l)"
  by (rule finite_subset [of _ "{..<i + l}"]) (auto simp: holes_def)

lemma holes_Suc_full: "blocks ! i \<noteq> 0 \<Longrightarrow> holes blocks i (Suc l) = holes blocks (i + 1) l"
  by (auto simp: holes_def not_less_eq_eq) (metis le_antisym not_less_eq_eq)

lemma holes_Suc_zero:
  assumes "blocks ! i = 0" "e \<noteq> 0" "i < length blocks"
  shows "holes blocks i (Suc l) = insert i (holes (blocks[i := e]) (i + 1) l)" "i \<notin> holes (blocks[i := e]) (i + 1) l"
proof -
  have "blocks[i := e] ! k = blocks ! k" if "k \<noteq> i" for k using that by simp
  then show "holes blocks i (Suc l) = insert i (holes (blocks[i := e]) (i + 1) l)"
    using assms by (auto simp: holes_def)
  show "i \<notin> holes (blocks[i := e]) (i + 1) l" by (simp add: holes_def)
qed

text \<open>A sector that was just allocated is filled with zeros.\<close>

lemma allocate_zeroed:
  assumes ok: "free_map_ok s" and free: "free_sectors s \<noteq> {}"
  obtains e s1 s' where "free_map_allocate True 1 s = Some (Some e, s1)" "cache_write e zeros s1 = Some s'"
    "s' = s\<lparr>free_map := free_map s', disk := disk s'\<rparr>"
    "free_map_ok s'" "fm_sectors s' = fm_sectors s" "e \<in> free_sectors s" "e \<notin> fm_sectors s" "e \<noteq> 0"
    "used_sectors s' = insert e (used_sectors s)" "bit_cnt (free_map s') = bit_cnt (free_map s)" "disk s' e = zeros"
    "\<And>x. x \<notin> insert e (fm_sectors s) \<Longrightarrow> disk s' x = disk s x"
proof -
  obtain e s1 where a: "free_map_allocate True 1 s = Some (Some e, s1)" "s1 = s\<lparr>free_map := free_map s1, disk := disk s1\<rparr>"
    "free_map_ok s1" "fm_sectors s1 = fm_sectors s" "e \<in> free_sectors s" "used_sectors s1 = insert e (used_sectors s)"
    "bit_cnt (free_map s1) = bit_cnt (free_map s)" "\<And>x. x \<notin> fm_sectors s \<Longrightarrow> disk s1 x = disk s x"
    using free_map_allocate_ok [OF assms] by metis
  define s' where "s' = s1\<lparr>disk := (disk s1)(e := zeros)\<rparr>"
  have e: "e \<notin> fm_sectors s" "e \<noteq> 0" using a(5) free_map_okD(4,5) [OF ok] by (auto simp: free_sectors_def)
  have "unat e < fs_size s1" using a(5,7) free_map_okD(2) [OF a(3)] by (simp add: free_sectors_def)
  then have w: "cache_write e zeros s1 = Some s'" by (simp add: cache_write_def s'_def)
  have ds: "s' = s1\<lparr>disk := disk s'\<rparr>" by (simp add: s'_def)
  have "disk s' x = disk s1 x" if "x \<in> fm_sectors s1" for x using that e a(4) by (auto simp: s'_def)
  note fr = free_map_ok_frame [OF a(3) ds this]
  have "free_map s' = free_map s1" by (simp add: s'_def)
  moreover have "s' = s\<lparr>free_map := free_map s', disk := disk s'\<rparr>" by (subst ds, subst a(2)) (simp add: s'_def)
  ultimately show ?thesis
    by (intro that [OF a(1) w]) (use fr a e in \<open>auto simp: s'_def\<close>)
qed

lemma reserve_direct_ok:
  assumes "free_map_ok s" "i + l \<le> length blocks" "card (holes blocks i l) \<le> card (free_sectors s)"
  shows "\<exists>blocks' s'. reserve_direct True l i blocks s = Some (True, blocks', s') \<and>
    s' = s\<lparr>free_map := free_map s', disk := disk s'\<rparr> \<and> free_map_ok s' \<and> fm_sectors s' = fm_sectors s \<and>
    length blocks' = length blocks \<and> (\<forall>k. k \<notin> holes blocks i l \<longrightarrow> blocks' ! k = blocks ! k) \<and>
    (\<forall>k \<in> holes blocks i l. blocks' ! k \<in> free_sectors s \<and> disk s' (blocks' ! k) = zeros) \<and>
    inj_on ((!) blocks') (holes blocks i l) \<and> used_sectors s' = used_sectors s \<union> (!) blocks' ` holes blocks i l \<and>
    bit_cnt (free_map s') = bit_cnt (free_map s) \<and>
    (\<forall>x. x \<notin> fm_sectors s \<union> (!) blocks' ` holes blocks i l \<longrightarrow> disk s' x = disk s x)"
  using assms
proof (induction l arbitrary: i blocks s)
  case 0
  have "holes blocks i 0 = {}" by (auto simp: holes_def)
  with 0 show ?case by simp
next
  case (Suc l)
  show ?case
  proof (cases "blocks ! i = 0")
    case False
    then show ?thesis using Suc.IH [of s "i + 1" blocks] Suc.prems by (simp add: holes_Suc_full)
  next
    case True
    have "card (holes blocks i (Suc l)) \<noteq> 0" using True by (auto simp: holes_def card_eq_0_iff intro: exI [of _ i])
    then have "free_sectors s \<noteq> {}" using Suc.prems(3) by auto
    from allocate_zeroed [OF Suc.prems(1) this] obtain e s0 s1 where
      a: "free_map_allocate True 1 s = Some (Some e, s0)" "cache_write e zeros s0 = Some s1"
      "s1 = s\<lparr>free_map := free_map s1, disk := disk s1\<rparr>" "free_map_ok s1" "fm_sectors s1 = fm_sectors s" "e \<in> free_sectors s"
      "e \<notin> fm_sectors s" "e \<noteq> 0" "used_sectors s1 = insert e (used_sectors s)" "bit_cnt (free_map s1) = bit_cnt (free_map s)"
      "disk s1 e = zeros" "\<And>x. x \<notin> insert e (fm_sectors s) \<Longrightarrow> disk s1 x = disk s x" by metis
    have len: "i < length blocks" using Suc.prems(2) by simp
    note h = holes_Suc_zero [OF True a(8) len, of l]
    have fs1: "free_sectors s1 = free_sectors s - {e}" using a(9,10) by (auto simp: free_sectors_def)
    then have "card (free_sectors s1) = card (free_sectors s) - 1" using a(6) by simp
    moreover have "card (holes blocks i (Suc l)) = Suc (card (holes (blocks[i := e]) (i + 1) l))" using h by simp
    ultimately have "card (holes (blocks[i := e]) (i + 1) l) \<le> card (free_sectors s1)" using Suc.prems(3) by simp
    from Suc.IH [OF a(4) _ this] Suc.prems(2) obtain blocks' s' where
      r: "reserve_direct True l (i + 1) (blocks[i := e]) s1 = Some (True, blocks', s')"
      "s' = s1\<lparr>free_map := free_map s', disk := disk s'\<rparr>" "free_map_ok s'" "fm_sectors s' = fm_sectors s1" "length blocks' = length blocks"
      "\<forall>k. k \<notin> holes (blocks[i := e]) (i + 1) l \<longrightarrow> blocks' ! k = blocks[i := e] ! k"
      "\<forall>k \<in> holes (blocks[i := e]) (i + 1) l. blocks' ! k \<in> free_sectors s1 \<and> disk s' (blocks' ! k) = zeros"
      "inj_on ((!) blocks') (holes (blocks[i := e]) (i + 1) l)"
      "used_sectors s' = used_sectors s1 \<union> (!) blocks' ` holes (blocks[i := e]) (i + 1) l"
      "bit_cnt (free_map s') = bit_cnt (free_map s1)"
      "\<forall>x. x \<notin> fm_sectors s1 \<union> (!) blocks' ` holes (blocks[i := e]) (i + 1) l \<longrightarrow> disk s' x = disk s1 x"
      by auto
    have bi: "blocks' ! i = e" using r(6) h(2) len by simp
    have enew: "e \<notin> (!) blocks' ` holes (blocks[i := e]) (i + 1) l" using r(7) fs1 by auto
    have "s' = s\<lparr>free_map := free_map s', disk := disk s'\<rparr>" by (subst r(2), subst a(3)) simp
    moreover have "reserve_direct True (Suc l) i blocks s = Some (True, blocks', s')" using True a(1,2) r(1) by simp
    moreover have "blocks' ! k = blocks ! k" if "k \<notin> holes blocks i (Suc l)" for k
      using r(6) that h(1) by auto
    moreover have "blocks' ! k \<in> free_sectors s \<and> disk s' (blocks' ! k) = zeros" if "k \<in> holes blocks i (Suc l)" for k
    proof (cases "k = i")
      case True
      have "disk s' e = disk s1 e" using r(11) a(5,7) enew by simp
      with True bi a(6,11) show ?thesis by simp
    next
      case False
      then have "k \<in> holes (blocks[i := e]) (i + 1) l" using that h(1) by simp
      with r(7) fs1 show ?thesis by blast
    qed
    moreover have "inj_on ((!) blocks') (holes blocks i (Suc l))"
      unfolding h(1) using r(8) enew bi h(2) by simp
    moreover have "used_sectors s' = used_sectors s \<union> (!) blocks' ` holes blocks i (Suc l)"
      unfolding h(1) r(9) a(9) using bi by auto
    moreover have "disk s' x = disk s x" if "x \<notin> fm_sectors s \<union> (!) blocks' ` holes blocks i (Suc l)" for x
      using r(11) a(5,12) that bi unfolding h(1) by auto
    ultimately show ?thesis using r(3,4,5,10) a(5,10) by (intro exI [of _ blocks'] exI [of _ s']) simp
  qed
qed

section \<open>Files of direct blocks\<close>

text \<open>Every block up to the length has a sector of its own, which is marked and not one of the free
  map's; the others have none.\<close>

definition direct_ok :: "fs \<Rightarrow> inode_disk \<Rightarrow> bool" where
  "direct_ok s d \<longleftrightarrow> (let n = bytes_to_sectors (file_len d) in
     0 \<le> file_len d \<and> n \<le> 123 \<and> length (direct_blocks d) = 123 \<and>
     (\<forall>k < n. direct_blocks d ! k \<in> used_sectors s - fm_sectors s - {0} \<and> length (disk s (direct_blocks d ! k)) = 512) \<and>
     inj_on ((!) (direct_blocks d)) {..<n} \<and> (\<forall>k. n \<le> k \<and> k < 123 \<longrightarrow> direct_blocks d ! k = 0))"

lemma direct_okD:
  assumes "direct_ok s d"
  shows "0 \<le> file_len d" "bytes_to_sectors (file_len d) \<le> 123" "length (direct_blocks d) = 123"
    "k < bytes_to_sectors (file_len d) \<Longrightarrow> direct_blocks d ! k \<in> used_sectors s - fm_sectors s - {0} \<and> length (disk s (direct_blocks d ! k)) = 512"
    "inj_on ((!) (direct_blocks d)) {..<bytes_to_sectors (file_len d)}"
    "bytes_to_sectors (file_len d) \<le> k \<Longrightarrow> k < 123 \<Longrightarrow> direct_blocks d ! k = 0"
  using assms unfolding direct_ok_def Let_def by auto

lemma sec_direct: "k < 123 \<Longrightarrow> sec s d k = direct_blocks d ! k"
  by (simp add: sec_def index_to_sector_def block_sizes)

lemma index_sectors_direct: "n \<le> 123 \<Longrightarrow> index_sectors s d n = {}"
  by (simp add: index_sectors_def)

lemma used_not_max: "free_map_ok s \<Longrightarrow> x \<in> used_sectors s \<Longrightarrow> x \<noteq> - 1"
proof
  assume ok: "free_map_ok s" "x \<in> used_sectors s" and x: "x = - 1"
  have "unat x < bit_cnt (free_map s)" by (rule used_bound [OF ok])
  moreover have "bit_cnt (free_map s) < BITMAP_ERROR"
    using free_map_okD(1) [OF ok(1)] by (auto simp: bitmap_good_def bitmap_rep_def)
  moreover have "unat (- 1 :: u32) = 2 ^ 32 - 1" by (simp add: unsigned_minus_1_eq_mask mask_eq_exp_minus_1)
  ultimately show False using x by (simp add: BITMAP_ERROR_def)
qed

lemma direct_file_ok:
  assumes ok: "free_map_ok s" and d: "direct_ok s d"
  shows "file_ok s d" "sec s d ` {..<bytes_to_sectors (file_len d)} = (!) (direct_blocks d) ` {..<bytes_to_sectors (file_len d)}"
proof -
  let ?n = "bytes_to_sectors (file_len d)"
  have sec: "sec s d k = direct_blocks d ! k" if "k < ?n" for k using that direct_okD(2) [OF d] sec_direct by simp
  then show "sec s d ` {..<?n} = (!) (direct_blocks d) ` {..<?n}" by (intro image_cong) simp_all
  have "unat (sec s d k) < fs_size s \<and> sec s d k \<noteq> - 1 \<and> sec s d k \<notin> {} \<and> length (disk s (sec s d k)) = 512" if "k < ?n" for k
    using direct_okD(4) [OF d that] sec [OF that] used_bound [OF ok, of "direct_blocks d ! k"]
      used_not_max [OF ok, of "direct_blocks d ! k"] free_map_okD(2) [OF ok] by auto
  moreover have "inj_on (sec s d) {..<?n} = inj_on ((!) (direct_blocks d)) {..<?n}" by (intro inj_on_cong) (simp add: sec)
  ultimately show "file_ok s d"
    using direct_okD(1,2,3,5) [OF d] free_map_okD(3) [OF ok]
    unfolding file_ok_def Let_def index_sectors_direct [OF direct_okD(2) [OF d]] by simp
qed

lemma reserve_small:
  assumes ok: "free_map_ok s" and d: "direct_ok s d" and len: "file_len d \<le> len" "bytes_to_sectors len \<le> 123"
    and free: "bytes_to_sectors len - bytes_to_sectors (file_len d) \<le> card (free_sectors s)"
  obtains bs s' where "inode_reserve True d len s = Some (True, d\<lparr>direct_blocks := bs\<rparr>, s')"
    "s' = s\<lparr>free_map := free_map s', disk := disk s'\<rparr>" "free_map_ok s'" "fm_sectors s' = fm_sectors s"
    "direct_ok s' (d\<lparr>direct_blocks := bs, file_len := len\<rparr>)"
    "\<And>k. k < bytes_to_sectors (file_len d) \<Longrightarrow> bs ! k = direct_blocks d ! k"
    "\<And>k. bytes_to_sectors (file_len d) \<le> k \<Longrightarrow> k < bytes_to_sectors len \<Longrightarrow> bs ! k \<in> free_sectors s \<and> disk s' (bs ! k) = zeros"
    "used_sectors s' = used_sectors s \<union> (!) bs ` {bytes_to_sectors (file_len d)..<bytes_to_sectors len}"
    "bit_cnt (free_map s') = bit_cnt (free_map s)"
    "\<And>x. x \<notin> fm_sectors s \<union> (!) bs ` {bytes_to_sectors (file_len d)..<bytes_to_sectors len} \<Longrightarrow> disk s' x = disk s x"
proof -
  let ?n = "bytes_to_sectors (file_len d)" and ?m = "bytes_to_sectors len"
  have len0: "0 \<le> len" using direct_okD(1) [OF d] len(1) by simp
  have nm: "?n \<le> ?m" using direct_okD(1) [OF d] len(1) by (simp add: bytes_to_sectors_nat div_le_mono nat_mono)
  have h: "holes (direct_blocks d) 0 ?m = {?n..<?m}"
  proof (intro set_eqI iffI)
    fix k assume "k \<in> holes (direct_blocks d) 0 ?m"
    then have "k < ?m" "direct_blocks d ! k = 0" by (auto simp: holes_def)
    then show "k \<in> {?n..<?m}" using direct_okD(4) [OF d, of k] by (cases "k < ?n") auto
  next
    fix k assume "k \<in> {?n..<?m}"
    then show "k \<in> holes (direct_blocks d) 0 ?m" using direct_okD(6) [OF d, of k] len(2) by (simp add: holes_def)
  qed
  have "0 + ?m \<le> length (direct_blocks d)" "card (holes (direct_blocks d) 0 ?m) \<le> card (free_sectors s)"
    using direct_okD(3) [OF d] len(2) free h by auto
  from reserve_direct_ok [OF ok this, unfolded h] obtain bs s' where
    r: "reserve_direct True ?m 0 (direct_blocks d) s = Some (True, bs, s')" "s' = s\<lparr>free_map := free_map s', disk := disk s'\<rparr>"
    "free_map_ok s'" "fm_sectors s' = fm_sectors s" "length bs = length (direct_blocks d)"
    "\<forall>k. k \<notin> {?n..<?m} \<longrightarrow> bs ! k = direct_blocks d ! k"
    "\<forall>k \<in> {?n..<?m}. bs ! k \<in> free_sectors s \<and> disk s' (bs ! k) = zeros" "inj_on ((!) bs) {?n..<?m}"
    "used_sectors s' = used_sectors s \<union> (!) bs ` {?n..<?m}" "bit_cnt (free_map s') = bit_cnt (free_map s)"
    "\<forall>x. x \<notin> fm_sectors s \<union> (!) bs ` {?n..<?m} \<longrightarrow> disk s' x = disk s x" by blast
  have old: "bs ! k = direct_blocks d ! k" if "k < ?n" for k using r(6) that by simp
  have new: "bs ! k \<in> free_sectors s \<and> disk s' (bs ! k) = zeros" if "?n \<le> k" "k < ?m" for k using r(7) that by simp
  have "inode_reserve True d len s = Some (True, d\<lparr>direct_blocks := bs\<rparr>, s')"
    using len0 len(2) r(1) by (simp add: inode_reserve_def block_sizes min_absorb1)
  moreover have "direct_ok s' (d\<lparr>direct_blocks := bs, file_len := len\<rparr>)"
  proof -
    have blk: "bs ! k \<in> used_sectors s' - fm_sectors s' - {0} \<and> length (disk s' (bs ! k)) = 512" if "k < ?m" for k
    proof (cases "k < ?n")
      case True
      note o = direct_okD(4) [OF d True]
      have "bs ! k \<notin> (!) bs ` {?n..<?m}" using new o old [OF True] by (auto simp: free_sectors_def)
      then have "disk s' (bs ! k) = disk s (bs ! k)" using r(11) o old [OF True] by auto
      then show ?thesis using o old [OF True] r(4,9) by auto
    next
      case False
      then have "bs ! k \<in> free_sectors s" "disk s' (bs ! k) = zeros" using new that by simp_all
      moreover have "bs ! k \<in> used_sectors s'" using r(9) that False by simp
      ultimately show ?thesis
        using free_map_okD(4,5) [OF ok] r(4) by (auto simp: free_sectors_def zeros_def block_sizes)
    qed
    have "inj_on ((!) bs) {..<?m}"
    proof (rule inj_onI)
      fix j k assume jk: "j \<in> {..<?m}" "k \<in> {..<?m}" "bs ! j = bs ! k"
      consider "j < ?n" "k < ?n" | "?n \<le> j" "?n \<le> k" | "j < ?n" "?n \<le> k" | "?n \<le> j" "k < ?n" by linarith
      then show "j = k"
      proof cases
        case 1 then show ?thesis using direct_okD(5) [OF d] jk old by (auto simp: inj_on_def)
      next
        case 2 then show ?thesis using r(8) jk by (auto simp: inj_on_def)
      next
        case 3 then show ?thesis using direct_okD(4) [OF d, of j] new [of k] jk old by (auto simp: free_sectors_def)
      next
        case 4 then show ?thesis using direct_okD(4) [OF d, of k] new [of j] jk old by (auto simp: free_sectors_def)
      qed
    qed
    moreover have "bs ! k = 0" if "?m \<le> k" "k < 123" for k
      using r(6) direct_okD(6) [OF d, of k] that nm by simp
    ultimately show ?thesis
      using blk len0 len(2) r(5) direct_okD(3) [OF d] unfolding direct_ok_def Let_def by simp
  qed
  ultimately show ?thesis using that [of bs s'] r old new by blast
qed

text \<open>The blocks of a file, which are all of its sectors but that of its inode.\<close>

definition blocks_of :: "inode_disk \<Rightarrow> u32 set" where
  "blocks_of d = (!) (direct_blocks d) ` {..<bytes_to_sectors (file_len d)}"

lemma direct_data_sectors: "free_map_ok s \<Longrightarrow> direct_ok s d \<Longrightarrow> sec s d ` {..<bytes_to_sectors (file_len d)} = blocks_of d"
  using direct_file_ok(2) by (simp add: blocks_of_def)

lemma blocks_used: "direct_ok s d \<Longrightarrow> blocks_of d \<subseteq> used_sectors s - fm_sectors s - {0}"
  using direct_okD(4) by (fastforce simp: blocks_of_def)

lemma file_byte_direct:
  assumes "direct_ok s d" "k < nat (file_len d)"
  shows "file_byte s d k = disk s (direct_blocks d ! (k div 512)) ! (k mod 512)" "direct_blocks d ! (k div 512) \<in> blocks_of d"
proof -
  have "k div 512 < bytes_to_sectors (file_len d)" by (rule block_index [OF direct_okD(1) [OF assms(1)] assms(2)])
  then show "file_byte s d k = disk s (direct_blocks d ! (k div 512)) ! (k mod 512)" "direct_blocks d ! (k div 512) \<in> blocks_of d"
    using sec_direct direct_okD(2) [OF assms(1)] by (simp_all add: file_byte_def blocks_of_def)
qed

text \<open>A file does not change when other sectors do, nor when more sectors are taken.\<close>

lemma direct_ok_frame:
  assumes "direct_ok s d" "used_sectors s \<subseteq> used_sectors s'" "fm_sectors s' = fm_sectors s"
    and same: "\<And>x. x \<in> blocks_of d \<Longrightarrow> disk s' x = disk s x"
  shows "direct_ok s' d" "contents s' d = contents s d"
proof -
  show ok: "direct_ok s' d"
    using assms unfolding direct_ok_def Let_def by (auto simp: blocks_of_def)
  show "contents s' d = contents s d"
    using file_byte_direct [OF ok] file_byte_direct [OF assms(1)] same by (simp add: contents_def)
qed

lemma free_map_ok_disk:
  assumes "free_map_ok s" "x \<notin> fm_sectors s"
  shows "free_map_ok (s\<lparr>disk := (disk s)(x := b)\<rparr>)" "fm_sectors (s\<lparr>disk := (disk s)(x := b)\<rparr>) = fm_sectors s"
    "used_sectors (s\<lparr>disk := (disk s)(x := b)\<rparr>) = used_sectors s"
proof -
  let ?s = "s\<lparr>disk := (disk s)(x := b)\<rparr>"
  have "?s = s\<lparr>disk := disk ?s\<rparr>" by simp
  moreover have "disk ?s y = disk s y" if "y \<in> fm_sectors s" for y using that assms(2) by auto
  ultimately show "free_map_ok ?s" "fm_sectors ?s = fm_sectors s" "used_sectors ?s = used_sectors s"
    using free_map_ok_frame [OF assms(1), of ?s] by blast+
qed

lemma cache_write_used:
  assumes "free_map_ok s" "x \<in> used_sectors s"
  shows "cache_write x b s = Some (s\<lparr>disk := (disk s)(x := b)\<rparr>)"
  using used_bound [OF assms] free_map_okD(2) [OF assms(1)] by (simp add: cache_write_def)

lemma bytes_to_sectors_0 [simp]: "bytes_to_sectors 0 = 0"
  by (simp add: bytes_to_sectors_nat)

text \<open>A new file has the length asked for, and holds zeros.\<close>

lemma inode_create_small:
  assumes ok: "free_map_ok s" and len: "0 \<le> len" "bytes_to_sectors len \<le> 123" "bytes_to_sectors len \<le> card (free_sectors s)"
    and sn: "sn \<in> used_sectors s - fm_sectors s"
  obtains d s' where "inode_create True True sn len dir s = Some (True, s')"
    "s' = s\<lparr>free_map := free_map s', disk := disk s'\<rparr>" "free_map_ok s'" "fm_sectors s' = fm_sectors s"
    "disk s' sn = encode_inode d" "file_len d = len" "is_dir d = dir" "direct_ok s' d" "contents s' d = replicate (nat len) 0"
    "blocks_of d \<subseteq> free_sectors s" "used_sectors s' = used_sectors s \<union> blocks_of d" "bit_cnt (free_map s') = bit_cnt (free_map s)"
    "\<And>x. x \<notin> fm_sectors s \<union> blocks_of d \<union> {sn} \<Longrightarrow> disk s' x = disk s x"
proof -
  define d0 where "d0 = \<lparr>direct_blocks = replicate 123 0, indirect_block = 0, doubly_indirect_block = 0,
    is_dir = dir, file_len = 0, magic = INODE_MAGIC\<rparr>"
  define d1 where "d1 = d0\<lparr>file_len := len\<rparr>"
  have d0: "direct_ok s d0" "file_len d0 = 0" by (simp_all add: direct_ok_def d0_def)
  have "file_len d0 \<le> len" "bytes_to_sectors len - bytes_to_sectors (file_len d0) \<le> card (free_sectors s)" using len d0(2) by auto
  from reserve_small [OF ok d0(1) this(1) len(2) this(2)] obtain bs s1 where r:
    "inode_reserve True d0 len s = Some (True, d0\<lparr>direct_blocks := bs\<rparr>, s1)"
    "s1 = s\<lparr>free_map := free_map s1, disk := disk s1\<rparr>" "free_map_ok s1" "fm_sectors s1 = fm_sectors s"
    "direct_ok s1 (d0\<lparr>direct_blocks := bs, file_len := len\<rparr>)"
    "\<And>k. bytes_to_sectors (file_len d0) \<le> k \<Longrightarrow> k < bytes_to_sectors len \<Longrightarrow> bs ! k \<in> free_sectors s \<and> disk s1 (bs ! k) = zeros"
    "used_sectors s1 = used_sectors s \<union> (!) bs ` {bytes_to_sectors (file_len d0)..<bytes_to_sectors len}"
    "bit_cnt (free_map s1) = bit_cnt (free_map s)"
    "\<And>x. x \<notin> fm_sectors s \<union> (!) bs ` {bytes_to_sectors (file_len d0)..<bytes_to_sectors len} \<Longrightarrow> disk s1 x = disk s x" by metis
  define d where "d = d0\<lparr>direct_blocks := bs, file_len := len\<rparr>"
  have bd: "blocks_of d = (!) bs ` {bytes_to_sectors (file_len d0)..<bytes_to_sectors len}"
    by (simp add: blocks_of_def d_def d0(2) atLeast0LessThan)
  have "inode_reserve True d1 len s = Some (True, d, s1)"
  proof -
    have "inode_reserve True d1 len s = map_option (\<lambda>(ok, e, s). (ok, e\<lparr>file_len := len\<rparr>, s)) (inode_reserve True d0 len s)"
      using len by (simp add: inode_reserve_def block_sizes min_absorb1 d1_def Let_def) (auto split: bind_splits prod.splits if_splits)
    then show ?thesis using r(1) by (simp add: d_def)
  qed
  moreover have sn1: "sn \<in> used_sectors s1" "sn \<notin> fm_sectors s1" using sn r(4,7) by auto
  define s' where "s' = s1\<lparr>disk := (disk s1)(sn := encode_inode d)\<rparr>"
  have "cache_write sn (encode_inode d) s1 = Some s'" using cache_write_used [OF r(3) sn1(1)] by (simp add: s'_def)
  ultimately have c: "inode_create True True sn len dir s = Some (True, s')"
    using len(1) by (simp add: inode_create_def block_sizes d0_def d1_def)
  note fr = free_map_ok_disk [OF r(3) sn1(2), of "encode_inode d", folded s'_def]
  have snb: "sn \<notin> blocks_of d" using r(6) sn unfolding bd by (auto simp: free_sectors_def)
  have dok: "direct_ok s1 d" using r(5) by (simp add: d_def)
  have same: "\<And>x. x \<in> blocks_of d \<Longrightarrow> disk s' x = disk s1 x" using snb by (auto simp: s'_def)
  note dfr = direct_ok_frame [OF dok _ fr(2) same]
  have "file_byte s1 d k = 0" if "k < nat len" for k
  proof -
    have "k < nat (file_len d)" using that by (simp add: d_def)
    note fb = file_byte_direct [OF dok this]
    have "disk s1 (direct_blocks d ! (k div 512)) = zeros" using fb(2) r(6) unfolding bd by auto
    then show ?thesis using fb(1) by (simp add: zeros_def block_sizes)
  qed
  then have z: "contents s1 d = replicate (nat len) 0" by (intro nth_equalityI) (simp_all add: contents_def d_def)
  show ?thesis
  proof (rule that [OF c])
    show "s' = s\<lparr>free_map := free_map s', disk := disk s'\<rparr>"
      by (subst s'_def, subst r(2)) (simp add: s'_def)
    show "contents s' d = replicate (nat len) 0" using dfr(2) fr(3) z by simp
    show "direct_ok s' d" using dfr(1) fr(3) by simp
    show "blocks_of d \<subseteq> free_sectors s" unfolding bd using r(6) by auto
    show "used_sectors s' = used_sectors s \<union> blocks_of d" using r(7) fr(3) bd by simp
    show "disk s' x = disk s x" if "x \<notin> fm_sectors s \<union> blocks_of d \<union> {sn}" for x
      using that r(9) bd by (simp add: s'_def)
  qed (use fr r in \<open>simp_all add: d_def d0_def s'_def\<close>)
qed

section \<open>Writing past the end\<close>

text \<open>The inode of another file does not matter for the free map.\<close>

lemma upd_other_inode:
  assumes "i \<noteq> fm_inode s \<or> free_map_file s = NULL"
  shows "free_map_ok (upd_inode i f s) = free_map_ok s" "fm_sectors (upd_inode i f s) = fm_sectors s"
    "used_sectors (upd_inode i f s) = used_sectors s" "direct_ok (upd_inode i f s) d = direct_ok s d"
proof -
  have fmi: "fm_inode (upd_inode i f s) = fm_inode s" by (simp add: fm_inode_def upd_inode_def)
  have dk: "disk (upd_inode i f s) = disk s" "fs_size (upd_inode i f s) = fs_size s" by (simp_all add: upd_inode_def)
  have ff: "free_map_file (upd_inode i f s) = free_map_file s" "free_map (upd_inode i f s) = free_map s"
    "freed (upd_inode i f s) = freed s" by (simp_all add: upd_inode_def)
  have ino: "inodes (upd_inode i f s) (fm_inode s) = inodes s (fm_inode s)" if "free_map_file s \<noteq> NULL"
    using assms that by (auto simp: upd_inode_def)
  show fms: "fm_sectors (upd_inode i f s) = fm_sectors s"
    using same_disk(1,2) [OF dk] ino by (simp add: fm_sectors_def file_sectors_def fmi ff)
  show us: "used_sectors (upd_inode i f s) = used_sectors s" by (simp add: used_sectors_def ff)
  show "free_map_ok (upd_inode i f s) = free_map_ok s"
    using ino same_disk(3) [OF dk] by (auto simp: free_map_ok_def fms us fmi ff dk)
  show "direct_ok (upd_inode i f s) d = direct_ok s d" by (simp add: direct_ok_def us fms dk)
qed

text \<open>A write that starts inside of a file and ends past its end: the file grows to the end of the
  write, in memory and on the disk.\<close>

lemma inode_write_grows_small:
  assumes ok: "free_map_ok s" and i: "i \<notin> freed s" "deny_write_cnt (inodes s i) = 0" "i \<noteq> fm_inode s \<or> free_map_file s = NULL"
    and d: "direct_ok s (data (inodes s i))" "data (inodes s i) = d" "sector (inodes s i) = sn"
    and off: "0 \<le> off" "off \<le> file_len d" "file_len d < off + sz" "sz \<le> int (length buffer)"
    and len: "bytes_to_sectors (off + sz) \<le> 123" "bytes_to_sectors (off + sz) - bytes_to_sectors (file_len d) \<le> card (free_sectors s)"
    and sn: "sn \<in> used_sectors s - fm_sectors s - blocks_of d"
  obtains bs d' s' where "inode_write_at True i buffer sz off s = Some (nat sz, s')" "d' = d\<lparr>direct_blocks := bs, file_len := off + sz\<rparr>"
    "s' = s\<lparr>free_map := free_map s', disk := disk s', inodes := (inodes s)(i := (inodes s i)\<lparr>data := d'\<rparr>)\<rparr>"
    "free_map_ok s'" "fm_sectors s' = fm_sectors s" "direct_ok s' d'" "disk s' sn = encode_inode d'"
    "contents s' d' = take (nat off) (contents s d) @ take (nat sz) buffer"
    "blocks_of d \<subseteq> blocks_of d'" "blocks_of d' - blocks_of d \<subseteq> free_sectors s" "used_sectors s' = used_sectors s \<union> blocks_of d'"
    "\<And>x. x \<notin> fm_sectors s \<union> blocks_of d' \<union> {sn} \<Longrightarrow> disk s' x = disk s x"
proof -
  let ?n = "bytes_to_sectors (file_len d)" and ?m = "bytes_to_sectors (off + sz)"
  have dok: "direct_ok s d" using d by simp
  from reserve_small [OF ok dok _ len(1,2)] off obtain bs s1 where r:
    "inode_reserve True d (off + sz) s = Some (True, d\<lparr>direct_blocks := bs\<rparr>, s1)"
    "s1 = s\<lparr>free_map := free_map s1, disk := disk s1\<rparr>" "free_map_ok s1" "fm_sectors s1 = fm_sectors s"
    "direct_ok s1 (d\<lparr>direct_blocks := bs, file_len := off + sz\<rparr>)"
    "\<And>k. k < ?n \<Longrightarrow> bs ! k = direct_blocks d ! k"
    "\<And>k. ?n \<le> k \<Longrightarrow> k < ?m \<Longrightarrow> bs ! k \<in> free_sectors s \<and> disk s1 (bs ! k) = zeros"
    "used_sectors s1 = used_sectors s \<union> (!) bs ` {?n..<?m}" "\<And>x. x \<notin> fm_sectors s \<union> (!) bs ` {?n..<?m} \<Longrightarrow> disk s1 x = disk s x"
    by (metis order_less_imp_le)
  define d' where "d' = d\<lparr>direct_blocks := bs, file_len := off + sz\<rparr>"
  have nm: "?n \<le> ?m" using direct_okD(1) [OF dok] off by (simp add: bytes_to_sectors_nat div_le_mono nat_mono)
  have bd: "blocks_of d' = blocks_of d \<union> (!) bs ` {?n..<?m}"
  proof -
    have "{..<?m} = {..<?n} \<union> {?n..<?m}" using nm by auto
    then have "(!) bs ` {..<?m} = (!) bs ` {..<?n} \<union> (!) bs ` {?n..<?m}" by (simp add: image_Un)
    moreover have "(!) bs ` {..<?n} = (!) (direct_blocks d) ` {..<?n}" using r(6) by (intro image_cong) simp_all
    ultimately show ?thesis by (simp add: blocks_of_def d'_def)
  qed
  have new: "(!) bs ` {?n..<?m} \<subseteq> free_sectors s" using r(7) by auto
  have snn: "sn \<notin> (!) bs ` {?n..<?m}" using new sn by (auto simp: free_sectors_def)
  define s2 where "s2 = upd_inode i (\<lambda>ino. ino\<lparr>data := d'\<rparr>) s1"
  have eq1: "inodes s1 = inodes s" "free_map_file s1 = free_map_file s" "fm_inode s1 = fm_inode s"
    unfolding fm_inode_def by (subst r(2), simp)+
  have oth: "i \<noteq> fm_inode s1 \<or> free_map_file s1 = NULL" using i(3) eq1 by simp
  note up = upd_other_inode [OF oth, of "\<lambda>ino. ino\<lparr>data := d'\<rparr>", folded s2_def]
  have ok2: "free_map_ok s2" "fm_sectors s2 = fm_sectors s" "used_sectors s2 = used_sectors s1" "direct_ok s2 d'"
    using up r(3,4,5) by (simp_all add: d'_def)
  have sn2: "sn \<in> used_sectors s2" "sn \<notin> fm_sectors s2" using sn ok2 r(8) by auto
  define s3 where "s3 = s2\<lparr>disk := (disk s2)(sn := encode_inode d')\<rparr>"
  have w3: "cache_write sn (encode_inode d') s2 = Some s3" using cache_write_used [OF ok2(1) sn2(1)] by (simp add: s3_def)
  have ok3: "free_map_ok s3" "fm_sectors s3 = fm_sectors s" "used_sectors s3 = used_sectors s1"
    using free_map_ok_disk [OF ok2(1) sn2(2), of "encode_inode d'"] ok2 by (simp_all add: s3_def)
  have "sn \<notin> blocks_of d'" using bd snn sn by simp
  then have "\<And>x. x \<in> blocks_of d' \<Longrightarrow> disk s3 x = disk s2 x" by (auto simp: s3_def)
  then have d3: "direct_ok s3 d'"
    using direct_ok_frame(1) [OF ok2(4), of s3] ok2 ok3 by simp
  have le: "nat off + nat sz \<le> nat (file_len d')" "nat sz \<le> length buffer" using off by (simp_all add: d'_def)
  obtain s' where s': "write_loop True d' buffer (nat sz) (nat off) s3 = Some (nat sz, s')" "file_ok s' d'" "s' = s3\<lparr>disk := disk s'\<rparr>"
    "contents s' d' = take (nat off) (contents s3 d') @ take (nat sz) buffer @ drop (nat off + nat sz) (contents s3 d')"
    "\<forall>x. x \<notin> blocks_of d' \<longrightarrow> disk s' x = disk s3 x"
    using write_contents [OF direct_file_ok(1) [OF ok3(1) d3] le] direct_data_sectors [OF ok3(1) d3] by auto
  have sz: "0 < sz" using off by simp
  have bnd: "off + sz < 2 ^ 31"
  proof (rule ccontr)
    assume "\<not> off + sz < 2 ^ 31"
    then have "(2 ^ 31 + 511) div 512 \<le> (nat (off + sz) + 511) div 512" by (intro div_le_mono) simp
    then show False using len(1) off by (simp add: bytes_to_sectors_nat)
  qed
  have last: "byte_to_sector (data (inodes s i)) (off + sz - 1) s = Some (- 1)"
    using off d by (simp add: byte_to_sector_def)
  have offk: "off_ok (off + sz)" "off_ok (off + sz - 1)" using off sz bnd by (auto simp: off_ok_def)
  have upd: "upd_inode i (\<lambda>ino. ino\<lparr>data := (data ino)\<lparr>file_len := off + sz\<rparr>\<rparr>) (upd_inode i (\<lambda>ino. ino\<lparr>data := d\<lparr>direct_blocks := bs\<rparr>\<rparr>) s1) = s2"
    by (simp add: upd_inode_def s2_def d'_def)
  have si: "sector (inodes s2 i) = sn" "data (inodes s2 i) = d'" "sector (inodes s3 i) = sn" "data (inodes s3 i) = d'"
    using d eq1 by (simp_all add: s3_def s2_def upd_inode_def)
  have w: "inode_write_at True i buffer sz off s = Some (nat sz, s')"
    using i(1,2) d(2) last offk r(1) upd w3 s'(1) sz off(1) si
    by (simp add: inode_write_at_def Let_def)
  have "take (nat off) (contents s3 d') = take (nat off) (contents s d)"
  proof (rule nth_equalityI)
    show "length (take (nat off) (contents s3 d')) = length (take (nat off) (contents s d))" using off by (simp add: d'_def)
    fix k assume "k < length (take (nat off) (contents s3 d'))"
    then have k: "k < nat off" "k < nat (file_len d)" "k < nat (file_len d')" using off by (auto simp: d'_def)
    note o = file_byte_direct [OF dok k(2)]
    have kd: "direct_blocks d' ! (k div 512) = direct_blocks d ! (k div 512)"
      using r(6) block_index [OF direct_okD(1) [OF dok] k(2)] by (simp add: d'_def)
    have "direct_blocks d ! (k div 512) \<notin> fm_sectors s \<union> (!) bs ` {?n..<?m} \<union> {sn}"
      using o(2) blocks_used [OF dok] new sn by (auto simp: free_sectors_def)
    then have "disk s3 (direct_blocks d ! (k div 512)) = disk s (direct_blocks d ! (k div 512))"
      using r(9) by (simp add: s3_def s2_def upd_inode_def)
    then have "file_byte s3 d' k = file_byte s d k"
      using o(1) file_byte_direct(1) [OF d3 k(3)] kd by simp
    then show "take (nat off) (contents s3 d') ! k = take (nat off) (contents s d) ! k" using k by (simp add: contents_def)
  qed
  then have cont: "contents s' d' = take (nat off) (contents s d) @ take (nat sz) buffer"
    using s'(4) off sz by (simp add: d'_def)
  have fmd: "x \<notin> fm_sectors s3" if "x \<in> blocks_of d'" for x using that blocks_used [OF d3] by auto
  have "\<And>x. x \<in> fm_sectors s3 \<Longrightarrow> disk s' x = disk s3 x" using s'(5) fmd by blast
  note fr = free_map_ok_frame [OF ok3(1) s'(3) this]
  show ?thesis
  proof (rule that [OF w d'_def])
    have "s2 = s\<lparr>free_map := free_map s1, disk := disk s1, inodes := (inodes s)(i := (inodes s i)\<lparr>data := d'\<rparr>)\<rparr>"
      unfolding s2_def upd_inode_def eq1 by (subst r(2)) simp
    then have "s3\<lparr>disk := x\<rparr> = s\<lparr>free_map := free_map s1, disk := x, inodes := (inodes s)(i := (inodes s i)\<lparr>data := d'\<rparr>)\<rparr>" for x
      by (simp add: s3_def)
    with s'(3) have e: "s' = s\<lparr>free_map := free_map s1, disk := disk s', inodes := (inodes s)(i := (inodes s i)\<lparr>data := d'\<rparr>)\<rparr>" by metis
    have fm: "free_map s' = free_map s1" by (subst e) simp
    show "s' = s\<lparr>free_map := free_map s', disk := disk s', inodes := (inodes s)(i := (inodes s i)\<lparr>data := d'\<rparr>)\<rparr>"
      unfolding fm by (rule e)
    show "free_map_ok s'" "fm_sectors s' = fm_sectors s" using fr ok3 by simp_all
    show "direct_ok s' d'"
    proof -
      have "length (disk s' (direct_blocks d' ! k)) = 512" if "k < ?m" for k
        using file_okD(6) [OF s'(2), of k] that sec_direct [of k s' d'] len(1) by (simp add: d'_def)
      then show ?thesis using d3 fr(2,3) unfolding direct_ok_def Let_def by (simp add: d'_def)
    qed
    show "disk s' sn = encode_inode d'" using s'(5) \<open>sn \<notin> blocks_of d'\<close> by (simp add: s3_def)
    show "contents s' d' = take (nat off) (contents s d) @ take (nat sz) buffer" by (rule cont)
    show "blocks_of d \<subseteq> blocks_of d'" "blocks_of d' - blocks_of d \<subseteq> free_sectors s" using bd new by auto
    show "used_sectors s' = used_sectors s \<union> blocks_of d'"
      using fr(3) ok3(3) r(8) bd blocks_used [OF dok] by auto
    show "disk s' x = disk s x" if "x \<notin> fm_sectors s \<union> blocks_of d' \<union> {sn}" for x
      using that s'(5) r(9) bd by (simp add: s3_def s2_def upd_inode_def)
  qed
qed

section \<open>Giving sectors back\<close>

lemma bitmap_all_marked:
  assumes "bitmap_good b" "k \<in> marked b"
  shows "bitmap_all b k 1 = Some True"
proof -
  obtain bs where rep: "bitmap_rep b bs" using assms(1) by (auto simp: bitmap_good_def)
  then have k: "k < length bs" "bs ! k" using assms(2) marked_rep by auto
  then have "take 1 (drop k bs) = [True]" by (simp add: take_Suc_conv_app_nth hd_drop_conv_nth take_Suc)
  then show ?thesis using bitmap_contains_rep [OF rep, of k 1 False] k by (simp add: bitmap_all_def)
qed

lemma free_map_release_ok:
  assumes ok: "free_map_ok s" and f: "free_map_file s \<noteq> NULL" and e: "e \<in> used_sectors s - fm_sectors s - {0}"
  obtains s' where "free_map_release True e 1 s = Some s'" "s' = s\<lparr>free_map := free_map s', disk := disk s'\<rparr>"
    "free_map_ok s'" "fm_sectors s' = fm_sectors s" "used_sectors s' = used_sectors s - {e}" "\<And>x. x \<notin> fm_sectors s \<Longrightarrow> disk s' x = disk s x"
proof -
  note good = free_map_okD(1) [OF ok]
  have mk: "unat e \<in> marked (free_map s)" using e by (simp add: used_sectors_def)
  then have b1: "unat e + 1 \<le> bit_cnt (free_map s)" using marked_bound [OF good] by fastforce
  obtain b where b: "bitmap_set_multiple (free_map s) (unat e) 1 False = Some b" "bitmap_good b" "bit_cnt b = bit_cnt (free_map s)"
    "marked b = marked (free_map s) - {unat e..<unat e + 1}"
    using bm.release_law [OF good b1] unfolding bitmap_release_def by blast
  define s1 where "s1 = s\<lparr>free_map := b\<rparr>"
  have dk: "disk s1 = disk s" "fs_size s1 = fs_size s" by (simp_all add: s1_def)
  have fm1: "fm_inode s1 = fm_inode s" "fm_sectors s1 = fm_sectors s"
    using same_disk(1,2) [OF dk] by (simp_all add: fm_sectors_def file_sectors_def) (simp_all add: s1_def fm_inode_def)
  have "marked b = marked (free_map s) - {unat e}" using b(4) by simp
  moreover have "unat x \<in> A - {unat e} \<longleftrightarrow> x \<in> {x. unat x \<in> A} - {e}" for x A
    unfolding word_unat_eq_iff [of x e, symmetric] Diff_iff singleton_iff mem_Collect_eq ..
  ultimately have u1: "used_sectors s1 = used_sectors s - {e}" by (simp add: used_sectors_def s1_def set_eq_iff)
  have ok1: "free_map_ok s1"
    using ok b u1 fm1 e same_disk(3) [OF dk] unfolding free_map_ok_def by (auto simp: s1_def)
  have f1: "free_map_file s1 \<noteq> NULL" using f by (simp add: s1_def)
  obtain s2 where s2: "free_map_write True s1 = Some (True, s2)" "s2 = s1\<lparr>disk := disk s2\<rparr>"
    "free_map_ok s2" "fm_sectors s2 = fm_sectors s1" "used_sectors s2 = used_sectors s1" "\<And>x. x \<notin> fm_sectors s1 \<Longrightarrow> disk s2 x = disk s1 x"
    by (rule free_map_write_ok [OF ok1 f1]) blast
  have "free_map_release True e 1 s = Some s2"
    using bitmap_all_marked [OF good mk] b(1) f s2(1) by (simp add: free_map_release_def s1_def)
  moreover have "free_map s2 = b" by (subst s2(2)) (simp add: s1_def)
  then have "s2 = s\<lparr>free_map := free_map s2, disk := disk s2\<rparr>" using s2(2) by (simp add: s1_def)
  ultimately show ?thesis
    by (rule that) (use s2 fm1 u1 in \<open>simp_all add: s1_def\<close>)
qed

lemma release_direct_ok:
  "free_map_ok s \<Longrightarrow> free_map_file s \<noteq> NULL \<Longrightarrow> set es \<subseteq> used_sectors s - fm_sectors s - {0} \<Longrightarrow> distinct es \<Longrightarrow>
    \<exists>s'. release_direct True es s = Some s' \<and> s' = s\<lparr>free_map := free_map s', disk := disk s'\<rparr> \<and> free_map_ok s' \<and>
      fm_sectors s' = fm_sectors s \<and> used_sectors s' = used_sectors s - set es \<and> (\<forall>x. x \<notin> fm_sectors s \<longrightarrow> disk s' x = disk s x)"
proof (induction es arbitrary: s)
  case (Cons e es)
  then obtain s1 where s1: "free_map_release True e 1 s = Some s1" "s1 = s\<lparr>free_map := free_map s1, disk := disk s1\<rparr>"
    "free_map_ok s1" "fm_sectors s1 = fm_sectors s" "used_sectors s1 = used_sectors s - {e}" "\<And>x. x \<notin> fm_sectors s \<Longrightarrow> disk s1 x = disk s x"
    using free_map_release_ok [of s e] by (metis insert_subset list.simps(15))
  have "free_map_file s1 = free_map_file s" by (subst s1(2)) simp
  then have "free_map_file s1 \<noteq> NULL" using Cons.prems(2) by simp
  moreover have "set es \<subseteq> used_sectors s1 - fm_sectors s1 - {0}" using Cons.prems(3,4) s1(4,5) by auto
  moreover have "distinct es" using Cons.prems(4) by simp
  ultimately obtain s2 where s2: "release_direct True es s1 = Some s2" "s2 = s1\<lparr>free_map := free_map s2, disk := disk s2\<rparr>"
    "free_map_ok s2" "fm_sectors s2 = fm_sectors s1" "used_sectors s2 = used_sectors s1 - set es" "\<forall>x. x \<notin> fm_sectors s1 \<longrightarrow> disk s2 x = disk s1 x"
    using Cons.IH [OF s1(3)] by blast
  have "s2 = s\<lparr>free_map := free_map s2, disk := disk s2\<rparr>" by (subst s2(2), subst s1(2)) simp
  then show ?case using s1 s2 by (intro exI [of _ s2]) auto
qed simp

text \<open>The last close of a removed file gives all of its sectors back, and the inode to \<^verbatim>\<open>free\<close>.\<close>

lemma inode_close_last_small:
  assumes ok: "free_map_ok s" and f: "free_map_file s \<noteq> NULL" and i: "i \<noteq> NULL" "i \<notin> freed s" "open_cnt (inodes s i) = 1"
    "removed (inodes s i)" "i \<noteq> fm_inode s"
    and d: "data (inodes s i) = d" "direct_ok s d" "sector (inodes s i) = sn" "sn \<in> used_sectors s - fm_sectors s - {0} - blocks_of d"
  obtains s' where "inode_close True i s = Some s'" "free_map_ok s'" "fm_sectors s' = fm_sectors s"
    "used_sectors s' = used_sectors s - insert sn (blocks_of d)" "\<And>x. x \<notin> fm_sectors s \<Longrightarrow> disk s' x = disk s x"
    "open_inodes s' = remove1 i (open_inodes s)" "freed s' = insert i (freed s)" "\<And>j. j \<noteq> i \<Longrightarrow> inodes s' j = inodes s j"
proof -
  let ?n = "bytes_to_sectors (file_len d)" and ?f = "\<lambda>ino. ino\<lparr>open_cnt := open_cnt ino - 1\<rparr>"
  define s1 where "s1 = (upd_inode i ?f s)\<lparr>open_inodes := remove1 i (open_inodes s)\<rparr>"
  have dk: "disk s1 = disk (upd_inode i ?f s)" "fs_size s1 = fs_size (upd_inode i ?f s)" by (simp_all add: s1_def)
  have fmi: "fm_inode s1 = fm_inode (upd_inode i ?f s)" by (simp add: fm_inode_def s1_def)
  have us: "used_sectors s1 = used_sectors (upd_inode i ?f s)" by (simp add: used_sectors_def s1_def)
  have fs: "fm_sectors s1 = fm_sectors (upd_inode i ?f s)"
    using same_disk(1,2) [OF dk] by (simp add: fm_sectors_def file_sectors_def fmi) (simp add: s1_def)
  have up: "free_map_ok (upd_inode i ?f s)" "fm_sectors (upd_inode i ?f s) = fm_sectors s" "used_sectors (upd_inode i ?f s) = used_sectors s"
    using upd_other_inode [of i s] i(5) ok by auto
  have ok1: "free_map_ok s1"
    using up(1) us fs fmi same_disk(3) [OF dk] unfolding free_map_ok_def by (simp add: s1_def)
  have f1: "free_map_file s1 \<noteq> NULL" using f by (simp add: s1_def upd_inode_def)
  have "sn \<in> used_sectors s1 - fm_sectors s1 - {0}" using d(4) us fs up by simp
  then obtain s2 where s2: "free_map_release True sn 1 s1 = Some s2" "s2 = s1\<lparr>free_map := free_map s2, disk := disk s2\<rparr>"
    "free_map_ok s2" "fm_sectors s2 = fm_sectors s1" "used_sectors s2 = used_sectors s1 - {sn}" "\<And>x. x \<notin> fm_sectors s1 \<Longrightarrow> disk s2 x = disk s1 x"
    by (rule free_map_release_ok [OF ok1 f1]) blast
  have f2: "free_map_file s2 \<noteq> NULL" "inodes s2 = inodes s1" "freed s2 = freed s1" "open_inodes s2 = open_inodes s1"
    using f1 by (subst s2(2), simp)+
  have n: "?n \<le> 123" "length (direct_blocks d) = 123" using direct_okD(2,3) [OF d(2)] by auto
  let ?es = "take ?n (direct_blocks d)"
  have es: "set ?es = blocks_of d" "distinct ?es"
  proof -
    show "set ?es = blocks_of d" using n by (simp add: blocks_of_def nth_image [symmetric] atLeast0LessThan)
    show "distinct ?es" using direct_okD(5) [OF d(2)] n by (auto simp: distinct_conv_nth inj_on_def)
  qed
  have "set ?es \<subseteq> used_sectors s2 - fm_sectors s2 - {0}" using blocks_used [OF d(2)] es(1) s2(4,5) us fs up d(4) by auto
  from release_direct_ok [OF s2(3) f2(1) this es(2)] es(1) obtain s3 where s3: "release_direct True ?es s2 = Some s3"
    "s3 = s2\<lparr>free_map := free_map s3, disk := disk s3\<rparr>" "free_map_ok s3" "fm_sectors s3 = fm_sectors s2"
    "used_sectors s3 = used_sectors s2 - blocks_of d" "\<forall>x. x \<notin> fm_sectors s2 \<longrightarrow> disk s3 x = disk s2 x" by auto
  have f3: "inodes s3 = inodes s1" "freed s3 = freed s1" "open_inodes s3 = open_inodes s1"
    using f2 by (subst s3(2), simp)+
  have di: "data (inodes s2 i) = d" using d(1) f2 by (simp add: s1_def upd_inode_def)
  have "inode_deallocate True i s2 = Some (True, s3)"
    using n s3(1) di direct_okD(1) [OF d(2)] by (simp add: inode_deallocate_def block_sizes min_absorb1 Let_def)
  moreover define s' where "s' = s3\<lparr>freed := insert i (freed s3)\<rparr>"
  ultimately have c: "inode_close True i s = Some s'"
    using i(1-4) d(3) s2(1) by (simp add: inode_close_def upd_inode_def s1_def Let_def)
  have dk': "disk s' = disk s3" "fs_size s' = fs_size s3" by (simp_all add: s'_def)
  have fmi': "fm_inode s' = fm_inode s3" by (simp add: fm_inode_def s'_def)
  have us': "used_sectors s' = used_sectors s3" by (simp add: used_sectors_def s'_def)
  have fs': "fm_sectors s' = fm_sectors s3"
    using same_disk(1,2) [OF dk'] by (simp add: fm_sectors_def file_sectors_def fmi') (simp add: s'_def)
  have "files s3 = files s" "free_map_file s3 = free_map_file s"
    by (subst s3(2), simp, subst s2(2), simp add: s1_def upd_inode_def)+
  then have "fm_inode s3 = fm_inode s" by (simp add: fm_inode_def)
  then have "free_map_ok s'"
    using s3(3) us' fs' fmi' same_disk(3) [OF dk'] i(5) unfolding free_map_ok_def by (simp add: s'_def)
  then show ?thesis
    by (rule that [OF c]) (use s2 s3 us fs up us' fs' f3 in \<open>auto simp: s'_def s1_def upd_inode_def\<close>)
qed

section \<open>The properties\<close>

text \<open>A device of 100 sectors with the free map in sector 60 and a file of 500 bytes in sector 50.\<close>

definition small_fs :: "bool \<Rightarrow> fs" where
  "small_fs rm = \<lparr>fs_size = 100, disk = (\<lambda>_. replicate 512 0),
     free_map = \<lparr>bit_cnt = 100, bits = [3, 268697856, 0, 0]\<rparr>, free_map_file = 30, open_inodes = [10, 20],
     inodes = (\<lambda>i. if i = 10
       then \<lparr>sector = 40, open_cnt = 1, removed = rm, deny_write_cnt = 0,
         data = sample_inode_disk\<lparr>direct_blocks := 50 # replicate 122 0, file_len := 500\<rparr>\<rparr>
       else \<lparr>sector = 0, open_cnt = 1, removed = False, deny_write_cnt = 0,
         data = sample_inode_disk\<lparr>direct_blocks := 60 # replicate 122 0, file_len := 16\<rparr>\<rparr>),
     files = (\<lambda>_. \<lparr>file_inode = 20, pos = 0, deny_write = False\<rparr>), freed = {}\<rparr>"

lemma small_fs_rep: "bitmap_rep (free_map (small_fs rm)) (map (\<lambda>i. i \<in> {0, 1, 40, 50, 60}) [0..<100])"
proof -
  have "list_all (\<lambda>i. bit ([3, 268697856, 0, 0 :: u32] ! (i div 32)) (i mod 32) = (i = 0 \<or> i = 1 \<or> i = 40 \<or> i = 50 \<or> i = 60)) [0..<100]"
    by code_simp
  then show ?thesis
    by (simp add: bitmap_rep_def small_fs_def BITMAP_ERROR_def elem_cnt_def list_all_iff del: upt_rec_numeral)
qed

lemma unat_numbers:
  "unat (x :: u32) = 0 \<longleftrightarrow> x = 0" "unat x = 1 \<longleftrightarrow> x = 1" "unat x = Suc 0 \<longleftrightarrow> x = 1" "unat x = 40 \<longleftrightarrow> x = 40"
  "unat x = 50 \<longleftrightarrow> x = 50" "unat x = 60 \<longleftrightarrow> x = 60"
proof -
  have "unat x = k \<longleftrightarrow> x = of_nat k" if "k < 2 ^ 32" for k
    using that by (auto simp: unat_of_nat take_bit_nat_eq_self)
  from this [of 0] this [of 1] this [of "Suc 0"] this [of 40] this [of 50] this [of 60]
  show "unat x = 0 \<longleftrightarrow> x = 0" "unat x = 1 \<longleftrightarrow> x = 1" "unat x = Suc 0 \<longleftrightarrow> x = 1" "unat x = 40 \<longleftrightarrow> x = 40"
    "unat x = 50 \<longleftrightarrow> x = 50" "unat x = 60 \<longleftrightarrow> x = 60" by (simp_all del: unat_eq_0)
qed

lemma small_fs_used: "used_sectors (small_fs rm) = {0, 1, 40, 50, 60}"
proof -
  have "marked (free_map (small_fs rm)) = {0, 1, 40, 50, 60}"
    unfolding marked_rep [OF small_fs_rep] by (auto simp del: upt_rec_numeral)
  then have "x \<in> used_sectors (small_fs rm) \<longleftrightarrow> x \<in> {0, 1, 40, 50, 60}" for x
    using unat_numbers [of x] by (simp add: used_sectors_def)
  then show ?thesis by blast
qed

definition small_disk :: inode_disk where
  "small_disk = sample_inode_disk\<lparr>direct_blocks := 50 # replicate 122 0, file_len := 500\<rparr>"

definition small_fm_disk :: inode_disk where
  "small_fm_disk = sample_inode_disk\<lparr>direct_blocks := 60 # replicate 122 0, file_len := 16\<rparr>"

lemma small_fs_simps:
  "data (inodes (small_fs rm) 10) = small_disk" "data (inodes (small_fs rm) 20) = small_fm_disk" "fm_inode (small_fs rm) = 20"
  "free_map_file (small_fs rm) = 30" "fs_size (small_fs rm) = 100" "disk (small_fs rm) x = replicate 512 0"
  "freed (small_fs rm) = {}" "file_len small_disk = 500" "file_len small_fm_disk = 16" "bit_cnt (free_map (small_fs rm)) = 100"
  "deny_write_cnt (inodes (small_fs rm) i) = 0" "sector (inodes (small_fs rm) 10) = 40" "open_cnt (inodes (small_fs rm) i) = 1"
  "removed (inodes (small_fs rm) 10) = rm"
  by (simp_all add: small_fs_def small_disk_def small_fm_disk_def fm_inode_def)

lemma one_block: "bytes_to_sectors 500 = 1" "bytes_to_sectors 16 = 1" "bytes_to_sectors 520 = 2"
  by (simp_all add: bytes_to_sectors_nat)

lemma small_fm_sectors: "fm_sectors (small_fs rm) = {60}"
proof -
  have "sec (small_fs rm) small_fm_disk 0 = 60" by (subst sec_direct) (simp_all add: small_fm_disk_def)
  then show ?thesis
    by (simp add: fm_sectors_def file_sectors_def small_fs_simps one_block index_sectors_direct lessThan_Suc)
qed

lemma small_free_map_ok: "free_map_ok (small_fs rm)"
proof -
  have s: "sec (small_fs rm) small_fm_disk 0 = 60" by (subst sec_direct) (simp_all add: small_fm_disk_def)
  have "length (direct_blocks small_fm_disk) = 123" by (simp add: small_fm_disk_def)
  then have "file_ok (small_fs rm) small_fm_disk"
    using s by (simp add: file_ok_def small_fs_simps one_block index_sectors_direct Let_def inj_on_def)
  moreover have "bitmap_good (free_map (small_fs rm))" using small_fs_rep by (auto simp: bitmap_good_def)
  moreover have "byte_cnt 100 = 16" by (simp add: byte_cnt_def elem_cnt_def)
  ultimately show ?thesis
    unfolding free_map_ok_def small_fm_sectors small_fs_used by (simp add: small_fs_simps)
qed

lemma small_direct_ok: "direct_ok (small_fs rm) small_disk" "blocks_of small_disk = {50}"
proof -
  have "\<forall>k. 1 \<le> k \<and> k < 123 \<longrightarrow> (50 # replicate 122 0 :: u32 list) ! k = 0" by (auto simp: nth_Cons')
  then show "direct_ok (small_fs rm) small_disk"
    unfolding direct_ok_def small_fm_sectors small_fs_used
    by (simp add: small_fs_simps one_block Let_def) (simp add: small_disk_def lessThan_Suc)
  show "blocks_of small_disk = {50}"
    by (simp add: blocks_of_def small_fs_simps one_block lessThan_Suc) (simp add: small_disk_def)
qed



text \<open>The last close of a removed file returns exactly the sectors of its blocks and of its inode to
  the free map, frees the inode in memory, and changes no sector outside of the free map's own.\<close>

theorem inode_close_returns_sectors:
  assumes "free_map_ok s" and "free_map_file s \<noteq> NULL" and "i \<noteq> NULL" "i \<notin> freed s" "i \<noteq> fm_inode s"
    and "open_cnt (inodes s i) = 1" "inode_is_removed i s" and "direct_ok s (data (inodes s i))"
    and "sector (inodes s i) \<in> used_sectors s - fm_sectors s - {0} - blocks_of (data (inodes s i))"
  shows "\<exists>s'. inode_close True i s = Some s' \<and> free_map_ok s' \<and> freed s' = insert i (freed s) \<and>
    open_inodes s' = remove1 i (open_inodes s) \<and>
    used_sectors s' = used_sectors s - insert (sector (inodes s i)) (blocks_of (data (inodes s i))) \<and>
    (\<forall>x. x \<notin> fm_sectors s \<longrightarrow> disk s' x = disk s x)"
  using inode_close_last_small [OF assms(1-4,6) _ assms(5) refl assms(8) refl assms(9)] assms(7)
  by (metis inode_is_removed_def)

theorem inode_close_returns_sectors_witness:
  "\<exists>s'. inode_close True 10 (small_fs True) = Some s' \<and> used_sectors s' = {0, 1, 60}"
proof -
  have "{0, 1, 40, 50, 60} - {40, 50} = {0, 1, 60 :: u32}" by auto
  then show ?thesis
    using inode_close_returns_sectors [OF small_free_map_ok [of True], of 10] small_direct_ok(1) [of True] small_direct_ok(2)
    by (auto simp: small_fs_simps inode_is_removed_def small_fm_sectors small_fs_used)
qed

end
