(* ===== verification/DirectoryData.thy ===== *)
theory DirectoryData
  imports Directory InodeGrow
begin

text \<open>
  What directories mean: the contents of a directory's file are a list of entries, the first of
  which is for the parent, and the others, as far as they are in use, a finite map from names to
  sectors. The operations of \<^verbatim>\<open>filesys/directory.c\<close> are shown to act on this map.
\<close>

section \<open>Entries of a directory\<close>

lemma sizeof_entry: "sizeof_entry = 20"
  by (simp add: sizeof_entry_def NAME_MAX_def)

definition entry_ok :: "dir_entry \<Rightarrow> bool" where
  "entry_ok e \<longleftrightarrow> length (entry_name e) = 15"

lemma length_encode_entry [simp]: "entry_ok e \<Longrightarrow> length (encode_entry e) = 20"
  by (simp add: encode_entry_def entry_ok_def)

lemma decode_encode_entry [simp]: "entry_ok e \<Longrightarrow> decode_entry (encode_entry e) = e"
  by (cases e) (simp add: encode_entry_def decode_entry_def entry_ok_def NAME_MAX_def nth_append)

lemma decode_entry_ok: "length bs = 20 \<Longrightarrow> entry_ok (decode_entry bs)"
  by (simp add: decode_entry_def entry_ok_def NAME_MAX_def)

lemma read_into_full: "length bs = 20 \<Longrightarrow> entry_ok e \<Longrightarrow> read_into bs e = decode_entry bs"
  by (simp add: read_into_def)

lemma read_into_ok: "length bs \<le> 20 \<Longrightarrow> entry_ok e \<Longrightarrow> entry_ok (read_into bs e)"
  by (simp add: read_into_def decode_entry_ok)

definition entries :: "fs \<Rightarrow> inode_disk \<Rightarrow> dir_entry list" where
  "entries s d = map (\<lambda>k. decode_entry (take 20 (drop (20 * k) (contents s d)))) [0..<nat (file_len d) div 20]"

lemma length_entries [simp]: "length (entries s d) = nat (file_len d) div 20"
  by (simp add: entries_def)

lemma nth_entries: "k < nat (file_len d) div 20 \<Longrightarrow> entries s d ! k = decode_entry (take 20 (drop (20 * k) (contents s d)))"
  by (simp add: entries_def)

lemma entry_fits: "k < n div 20 \<Longrightarrow> 20 * k + 20 \<le> (n :: nat)"
proof -
  assume "k < n div 20"
  then have "20 * Suc k \<le> 20 * (n div 20)" by (intro mult_le_mono2) simp
  also have "\<dots> \<le> n" by simp
  finally show ?thesis by simp
qed

lemma entry_past: "n div 20 \<le> k \<Longrightarrow> n < 20 * k + (20 :: nat)"
proof -
  assume "n div 20 \<le> k"
  then have "20 * (n div 20) + n mod 20 \<le> 20 * k + n mod 20" by (intro add_le_mono1 mult_le_mono2)
  moreover have "n mod 20 < 20" by simp
  ultimately show ?thesis by simp
qed

text \<open>A directory's file can be read and written.\<close>

definition dir_file :: "fs \<Rightarrow> addr \<Rightarrow> bool" where
  "dir_file s i \<longleftrightarrow> file_ok s (data (inodes s i)) \<and> i \<notin> freed s \<and> file_len (data (inodes s i)) < 2 ^ 31"

abbreviation dir_entries :: "fs \<Rightarrow> addr \<Rightarrow> dir_entry list" where
  "dir_entries s i \<equiv> entries s (data (inodes s i))"

abbreviation data_sectors :: "fs \<Rightarrow> addr \<Rightarrow> u32 set" where
  "data_sectors s i \<equiv> sec s (data (inodes s i)) ` {..<bytes_to_sectors (file_len (data (inodes s i)))}"

lemma read_entry:
  assumes "dir_file s i" "k < length (dir_entries s i)"
  obtains bs where "inode_read_at True i (int sizeof_entry) (int (20 * k)) s = Some bs" "length bs = 20"
    "decode_entry bs = dir_entries s i ! k"
proof -
  let ?d = "data (inodes s i)"
  have "20 * k + 20 \<le> nat (file_len ?d)" using entry_fits assms(2) by simp
  then have "length (take 20 (drop (20 * k) (contents s ?d))) = 20" by simp
  then show ?thesis
    using that inode_read_contents [of s i "int (20 * k)" "int sizeof_entry"] assms
    by (simp add: dir_file_def nth_entries sizeof_entry del: of_nat_mult)
qed

lemma read_end:
  assumes "dir_file s i" "length (dir_entries s i) \<le> k"
  obtains bs where "inode_read_at True i (int sizeof_entry) (int (20 * k)) s = Some bs" "length bs < 20"
proof -
  let ?d = "data (inodes s i)"
  have "nat (file_len ?d) < 20 * k + 20" using entry_past assms(2) by simp
  then have "length (take 20 (drop (20 * k) (contents s ?d))) < 20" by simp
  then show ?thesis
    using that inode_read_contents [of s i "int (20 * k)" "int sizeof_entry"] assms
    by (simp add: dir_file_def sizeof_entry del: of_nat_mult)
qed

text \<open>Writing an entry inside of the file.\<close>

lemma entries_write:
  assumes c: "contents s' d = take (20 * k) (contents s d) @ bs @ drop (20 * k + 20) (contents s d)"
    and k: "k < length (entries s d)" and bs: "length bs = 20"
  shows "entries s' d = (entries s d)[k := decode_entry bs]"
proof (rule nth_equalityI)
  have len: "20 * k + 20 \<le> length (contents s d)" using entry_fits k by simp
  fix j assume "j < length (entries s' d)"
  then have j: "j < nat (file_len d) div 20" "20 * j + 20 \<le> nat (file_len d)" using entry_fits by simp_all
  show "entries s' d ! j = (entries s d)[k := decode_entry bs] ! j"
  proof (cases "j = k")
    case True
    have "take 20 (drop (20 * k) (contents s' d)) = bs" using c len bs by simp
    then show ?thesis using True j by (simp add: nth_entries)
  next
    case False
    have "take 20 (drop (20 * j) (contents s' d)) = take 20 (drop (20 * j) (contents s d))"
    proof (rule nth_equalityI)
      fix m assume "m < length (take 20 (drop (20 * j) (contents s' d)))"
      then have m: "m < 20" by simp
      consider "20 * j + m < 20 * k" | "20 * k + 20 \<le> 20 * j + m" using False m by linarith
      then have "contents s' d ! (20 * j + m) = contents s d ! (20 * j + m)"
      proof cases
        case 1 then show ?thesis unfolding c using len by (simp add: nth_append)
      next
        case 2
        have l: "length (take (20 * k) (contents s d)) = 20 * k" using len by simp
        have "(take (20 * k) (contents s d) @ bs @ drop (20 * k + 20) (contents s d)) ! (20 * j + m) =
            drop (20 * k + 20) (contents s d) ! (20 * j + m - 20 * k - 20)"
          using 2 l bs by (simp add: nth_append del: length_take) linarith
        also have "\<dots> = contents s d ! (20 * j + m)" using 2 len by (simp add: nth_drop)
        finally show ?thesis unfolding c .
      qed
      then show "take 20 (drop (20 * j) (contents s' d)) ! m = take 20 (drop (20 * j) (contents s d)) ! m"
        using m j by simp
    qed (use j in simp)
    then show ?thesis using False j by (simp add: nth_entries)
  qed
qed simp

lemma write_entry_inside:
  assumes ok: "dir_file (fsys st) i" and k: "k < length (dir_entries (fsys st) i)" and e: "entry_ok e"
    and w: "deny_write_cnt (inodes (fsys st) i) = 0"
  obtains s' where "write_entry True i e (int (20 * k)) st = Some (True, st\<lparr>fsys := s'\<rparr>)" "s' = (fsys st)\<lparr>disk := disk s'\<rparr>"
    "dir_file s' i" "dir_entries s' i = (dir_entries (fsys st) i)[k := e]"
    "\<forall>x. x \<notin> data_sectors (fsys st) i \<longrightarrow> disk s' x = disk (fsys st) x"
proof -
  let ?s = "fsys st" and ?d = "data (inodes (fsys st) i)"
  have len: "20 * k + 20 \<le> nat (file_len ?d)" using entry_fits k by simp
  have f: "file_ok ?s ?d" "i \<notin> freed ?s" "file_len ?d < 2 ^ 31" using ok by (simp_all add: dir_file_def)
  have le: "int (20 * k) + 20 \<le> file_len ?d" using len by linarith
  have nn: "nat (int (20 * k)) = 20 * k" "nat (20 :: int) = 20" by (rule nat_int) simp
  obtain s' where s': "inode_write_at True i (encode_entry e) 20 (int (20 * k)) ?s = Some (nat 20, s')" "s' = ?s\<lparr>disk := disk s'\<rparr>"
    "file_ok s' ?d" "contents s' ?d = take (nat (int (20 * k))) (contents ?s ?d) @ take (nat 20) (encode_entry e) @
       drop (nat (int (20 * k)) + nat 20) (contents ?s ?d)"
    "\<forall>x. x \<notin> sec ?s ?d ` {..<bytes_to_sectors (file_len ?d)} \<longrightarrow> disk s' x = disk ?s x"
    by (rule inode_write_contents [OF f(1,2) _ _ w le f(3), of "encode_entry e"]) (use e in simp_all)
  have same: "inodes s' = inodes ?s" "freed s' = freed ?s" by (subst s'(2), simp)+
  have "entries s' ?d = (entries ?s ?d)[k := decode_entry (encode_entry e)]"
    by (rule entries_write) (use s'(4) k e in \<open>simp_all add: nn del: of_nat_mult\<close>)
  then have "dir_entries s' i = (dir_entries ?s i)[k := e]" using e same by simp
  moreover have "write_entry True i e (int (20 * k)) st = Some (True, st\<lparr>fsys := s'\<rparr>)"
    using s'(1) by (simp add: write_entry_def sizeof_entry del: of_nat_mult)
  ultimately show ?thesis using that s'(2,3,5) f same by (simp add: dir_file_def)
qed

section \<open>The loops\<close>

definition ename :: "dir_entry \<Rightarrow> byte list" where
  "ename e = takeWhile (\<lambda>c. c \<noteq> 0) (entry_name e)"

definition used :: "dir_entry \<Rightarrow> bool" where
  "used e \<longleftrightarrow> in_use e \<noteq> 0"

lemma same_name_iff: "0 \<notin> set nm \<Longrightarrow> 0 \<in> set bs \<Longrightarrow> same_name nm bs = Some (nm = takeWhile (\<lambda>c. c \<noteq> 0) bs)"
  by (induction nm bs rule: same_name.induct) auto

lemma next_entry: "20 * k + sizeof_entry = 20 * Suc k"
  by (simp add: sizeof_entry)

text \<open>The entry that \<^verbatim>\<open>lookup\<close> finds: the first one in use with the name.\<close>

definition find_entry :: "dir_entry list \<Rightarrow> byte list \<Rightarrow> nat option" where
  "find_entry es nm = find (\<lambda>k. used (es ! k) \<and> ename (es ! k) = nm) [1..<length es]"

text \<open>Induction over the entries that are left.\<close>

lemma entries_induct [consumes 1, case_names past step]:
  assumes "k \<le> n" and "P n" and "\<And>k. k < n \<Longrightarrow> P (Suc k) \<Longrightarrow> P k"
  shows "P (k :: nat)"
  using assms by (rule inc_induct)

lemma nth_in_tl: "1 \<le> k \<Longrightarrow> k < length xs \<Longrightarrow> xs ! k \<in> set (tl xs)"
  by (cases xs) auto

lemma lookup_loop_entries:
  assumes ok: "dir_file s i" and nm: "0 \<notin> set nm"
    and names: "\<And>e. e \<in> set (tl (dir_entries s i)) \<Longrightarrow> used e \<Longrightarrow> 0 \<in> set (entry_name e)"
    and k: "k \<le> length (dir_entries s i)"
  shows "1 \<le> k \<longrightarrow> lookup_loop True i nm (20 * k) s =
    Some (map_option (\<lambda>j. (dir_entries s i ! j, 20 * j))
      (find (\<lambda>j. used (dir_entries s i ! j) \<and> ename (dir_entries s i ! j) = nm) [k..<length (dir_entries s i)]))"
  using k
proof (induction rule: entries_induct)
  case past
  obtain bs where "inode_read_at True i (int sizeof_entry) (int (20 * length (dir_entries s i))) s = Some bs" "length bs < 20"
    by (rule read_end [OF ok le_refl])
  then show ?case by (subst lookup_loop.simps) (simp add: sizeof_entry del: of_nat_mult)
next
  case (step k)
  let ?e = "dir_entries s i ! k"
  obtain bs where r: "inode_read_at True i (int sizeof_entry) (int (20 * k)) s = Some bs" "length bs = 20" "decode_entry bs = ?e"
    by (rule read_entry [OF ok step(1)])
  show ?case
  proof
    assume k1: "1 \<le> k"
    then have "?e \<in> set (tl (dir_entries s i))"
      using step(1) by (rule nth_in_tl)
    then have "(if in_use ?e \<noteq> 0 then same_name nm (entry_name ?e) else Some False) = Some (used ?e \<and> ename ?e = nm)"
      using names same_name_iff [OF nm] by (auto simp: used_def ename_def)
    then have "lookup_loop True i nm (20 * k) s =
        (if used ?e \<and> ename ?e = nm then Some (Some (?e, 20 * k)) else lookup_loop True i nm (20 * k + sizeof_entry) s)"
      using r by (subst lookup_loop.simps) (simp add: sizeof_entry Let_def del: of_nat_mult)
    then show "lookup_loop True i nm (20 * k) s =
      Some (map_option (\<lambda>j. (dir_entries s i ! j, 20 * j))
        (find (\<lambda>j. used (dir_entries s i ! j) \<and> ename (dir_entries s i ! j) = nm) [k..<length (dir_entries s i)]))"
      unfolding next_entry using step by (simp add: upt_conv_Cons del: upt_Suc mult_Suc_right)
  qed
qed

lemma is_empty_loop_entries:
  assumes ok: "dir_file s i" and k: "k \<le> length (dir_entries s i)"
  shows "is_empty_loop True i (20 * k) s = Some (\<forall>e \<in> set (drop k (dir_entries s i)). \<not> used e)"
  using k
proof (induction rule: entries_induct)
  case past
  obtain bs where "inode_read_at True i (int sizeof_entry) (int (20 * length (dir_entries s i))) s = Some bs" "length bs < 20"
    by (rule read_end [OF ok le_refl])
  then show ?case by (subst is_empty_loop.simps) (simp add: sizeof_entry del: of_nat_mult)
next
  case (step k)
  obtain bs where r: "inode_read_at True i (int sizeof_entry) (int (20 * k)) s = Some bs" "length bs = 20"
    "decode_entry bs = dir_entries s i ! k"
    by (rule read_entry [OF ok step(1)])
  then have "is_empty_loop True i (20 * k) s =
      (if used (dir_entries s i ! k) then Some False else is_empty_loop True i (20 * k + sizeof_entry) s)"
    by (subst is_empty_loop.simps) (simp add: sizeof_entry used_def del: of_nat_mult)
  moreover have "drop k (dir_entries s i) = dir_entries s i ! k # drop (Suc k) (dir_entries s i)"
    using step(1) by (rule Cons_nth_drop_Suc [symmetric])
  ultimately show ?case unfolding next_entry using step(2) by simp
qed

text \<open>The first entry from \<open>k\<close> on that is not in use, or the end.\<close>

definition free_slot :: "dir_entry list \<Rightarrow> nat \<Rightarrow> nat" where
  "free_slot es k = (case find (\<lambda>j. \<not> used (es ! j)) [k..<length es] of Some j \<Rightarrow> j | None \<Rightarrow> length es)"

lemma free_slot_unused:
  assumes "\<exists>e \<in> set es. \<not> used e"
  shows "free_slot es 0 < length es \<and> \<not> used (es ! free_slot es 0)"
proof (cases "find (\<lambda>j. \<not> used (es ! j)) [0..<length es]")
  case None
  with assms show ?thesis by (auto simp: find_None_iff in_set_conv_nth)
next
  case (Some j)
  then have "free_slot es 0 = j" by (simp add: free_slot_def)
  moreover from Some have "j < length es" "\<not> used (es ! j)" by (auto simp: find_Some_iff)
  ultimately show ?thesis by simp
qed

lemma find_slot_entries:
  assumes ok: "dir_file s i" and k: "k \<le> length (dir_entries s i)"
  shows "entry_ok e \<longrightarrow> (\<exists>e'. find_slot True i e (20 * k) s = Some (20 * free_slot (dir_entries s i) k, e') \<and> entry_ok e')"
  using k
proof (induction arbitrary: e rule: entries_induct)
  case past
  obtain bs where "inode_read_at True i (int sizeof_entry) (int (20 * length (dir_entries s i))) s = Some bs" "length bs < 20"
    by (rule read_end [OF ok le_refl])
  then show ?case
    by (subst find_slot.simps) (simp add: sizeof_entry Let_def free_slot_def read_into_ok del: of_nat_mult)
next
  case (step k)
  obtain bs where r: "inode_read_at True i (int sizeof_entry) (int (20 * k)) s = Some bs" "length bs = 20"
    "decode_entry bs = dir_entries s i ! k"
    by (rule read_entry [OF ok step(1)])
  let ?e = "dir_entries s i ! k"
  have e: "entry_ok ?e" using r decode_entry_ok by metis
  show ?case
  proof
    assume "entry_ok e"
    then have "find_slot True i e (20 * k) s =
        (if used ?e then find_slot True i ?e (20 * k + sizeof_entry) s else Some (20 * k, ?e))"
      using r by (subst find_slot.simps) (simp add: sizeof_entry used_def read_into_full Let_def del: of_nat_mult)
    moreover have "free_slot (dir_entries s i) k = (if used ?e then free_slot (dir_entries s i) (Suc k) else k)"
      using step(1) by (simp add: free_slot_def upt_conv_Cons del: upt_Suc)
    ultimately show "\<exists>e'. find_slot True i e (20 * k) s = Some (20 * free_slot (dir_entries s i) k, e') \<and> entry_ok e'"
      unfolding next_entry using step(2) [of ?e] e by (auto simp del: mult_Suc_right)
  qed
qed

lemma readdir_loop_entries:
  assumes ok: "dir_file s i" and names: "\<And>e. e \<in> set (tl (dir_entries s i)) \<Longrightarrow> used e \<Longrightarrow> 0 \<in> set (entry_name e)"
    and k: "k \<le> length (dir_entries s i)"
  shows "1 \<le> k \<longrightarrow> readdir_loop True i (int (20 * k)) s =
    Some (case find (\<lambda>j. used (dir_entries s i ! j)) [k..<length (dir_entries s i)] of
      Some j \<Rightarrow> (Some (ename (dir_entries s i ! j)), int (20 * Suc j)) | None \<Rightarrow> (None, int (20 * length (dir_entries s i))))"
  using k
proof (induction rule: entries_induct)
  case past
  obtain bs where "inode_read_at True i (int sizeof_entry) (int (20 * length (dir_entries s i))) s = Some bs" "length bs < 20"
    by (rule read_end [OF ok le_refl])
  then show ?case by (subst readdir_loop.simps) (simp add: sizeof_entry del: of_nat_mult)
next
  case (step k)
  let ?e = "dir_entries s i ! k"
  obtain bs where r: "inode_read_at True i (int sizeof_entry) (int (20 * k)) s = Some bs" "length bs = 20" "decode_entry bs = ?e"
    by (rule read_entry [OF ok step(1)])
  have n: "int (20 * k) + int sizeof_entry = int (20 * Suc k)" by (simp add: sizeof_entry)
  show ?case
  proof
    assume k1: "1 \<le> k"
    then have "?e \<in> set (tl (dir_entries s i))"
      using step(1) by (rule nth_in_tl)
    then have "readdir_loop True i (int (20 * k)) s =
        (if used ?e then Some (Some (ename ?e), int (20 * Suc k)) else readdir_loop True i (int (20 * Suc k)) s)"
      unfolding n [symmetric] using r names
      by (subst readdir_loop.simps) (simp add: sizeof_entry used_def ename_def Let_def del: of_nat_mult)
    then show "readdir_loop True i (int (20 * k)) s =
      Some (case find (\<lambda>j. used (dir_entries s i ! j)) [k..<length (dir_entries s i)] of
        Some j \<Rightarrow> (Some (ename (dir_entries s i ! j)), int (20 * Suc j)) | None \<Rightarrow> (None, int (20 * length (dir_entries s i))))"
      using step by (simp add: upt_conv_Cons del: upt_Suc mult_Suc_right of_nat_mult)
  qed
qed

section \<open>Directories as finite maps\<close>

definition dmap :: "dir_entry list \<Rightarrow> byte list \<Rightarrow> u32 option" where
  "dmap es nm = map_option (\<lambda>k. inode_sector (es ! k)) (find_entry es nm)"

text \<open>The slot of the parent is in use, names are terminated, and no name occurs twice.\<close>

definition dir_wf :: "dir_entry list \<Rightarrow> bool" where
  "dir_wf es \<longleftrightarrow> es \<noteq> [] \<and> used (hd es) \<and> (\<forall>e \<in> set (tl es). used e \<longrightarrow> 0 \<in> set (entry_name e)) \<and>
     (\<forall>j k. 1 \<le> j \<and> j < length es \<and> used (es ! j) \<and> 1 \<le> k \<and> k < length es \<and> used (es ! k) \<and> ename (es ! j) = ename (es ! k)
       \<longrightarrow> j = k)"

lemma dir_wfD:
  assumes "dir_wf es"
  shows "es \<noteq> []" "used (hd es)" "e \<in> set (tl es) \<Longrightarrow> used e \<Longrightarrow> 0 \<in> set (entry_name e)"
    "1 \<le> j \<Longrightarrow> j < length es \<Longrightarrow> used (es ! j) \<Longrightarrow> 1 \<le> k \<Longrightarrow> k < length es \<Longrightarrow> used (es ! k) \<Longrightarrow>
      ename (es ! j) = ename (es ! k) \<Longrightarrow> j = k"
  using assms unfolding dir_wf_def by auto

lemma find_entry_SomeD:
  "find_entry es nm = Some k \<Longrightarrow> 1 \<le> k \<and> k < length es \<and> used (es ! k) \<and> ename (es ! k) = nm"
  by (auto simp: find_entry_def find_Some_iff dest!: nth_mem)

lemma find_entry_None_iff:
  "find_entry es nm = None \<longleftrightarrow> (\<forall>k. 1 \<le> k \<and> k < length es \<and> used (es ! k) \<longrightarrow> ename (es ! k) \<noteq> nm)"
  by (auto simp: find_entry_def find_None_iff)

lemma find_entry_used:
  assumes "dir_wf es" "1 \<le> k" "k < length es" "used (es ! k)"
  shows "find_entry es (ename (es ! k)) = Some k"
proof (cases "find_entry es (ename (es ! k))")
  case None
  then show ?thesis using assms find_entry_None_iff by blast
next
  case (Some j)
  with find_entry_SomeD [OF Some] dir_wfD(4) [OF assms(1)] assms(2-4) show ?thesis by blast
qed

lemma dmap_Some_iff:
  assumes "dir_wf es"
  shows "dmap es nm = Some x \<longleftrightarrow>
    (\<exists>k. 1 \<le> k \<and> k < length es \<and> used (es ! k) \<and> ename (es ! k) = nm \<and> inode_sector (es ! k) = x)"
proof
  assume "dmap es nm = Some x"
  then obtain k where "find_entry es nm = Some k" "inode_sector (es ! k) = x" by (auto simp: dmap_def)
  then show "\<exists>k. 1 \<le> k \<and> k < length es \<and> used (es ! k) \<and> ename (es ! k) = nm \<and> inode_sector (es ! k) = x"
    using find_entry_SomeD by blast
next
  assume "\<exists>k. 1 \<le> k \<and> k < length es \<and> used (es ! k) \<and> ename (es ! k) = nm \<and> inode_sector (es ! k) = x"
  then show "dmap es nm = Some x" using find_entry_used [OF assms] by (auto simp: dmap_def)
qed

lemma dmap_None_iff: "dmap es nm = None \<longleftrightarrow> (\<forall>k. 1 \<le> k \<and> k < length es \<and> used (es ! k) \<longrightarrow> ename (es ! k) \<noteq> nm)"
  by (simp add: dmap_def find_entry_None_iff)

lemma option_eqI: "(\<And>x. a = Some x \<longleftrightarrow> b = Some x) \<Longrightarrow> a = b"
  by (cases a; cases b) auto

lemma hd_update: "1 \<le> k \<Longrightarrow> hd (xs[k := x]) = hd xs"
  by (cases xs; cases k) auto

lemma tl_update_subset: "1 \<le> k \<Longrightarrow> set (tl (xs[k := x])) \<subseteq> insert x (set (tl xs))"
  by (cases xs; cases k) (auto dest: set_update_subset_insert [THEN subsetD])

lemma dmap_add:
  assumes wf: "dir_wf es" and k: "1 \<le> k" "k < length es" "\<not> used (es ! k)" and e: "used e" "0 \<in> set (entry_name e)"
    and new: "dmap es (ename e) = None"
  shows "dir_wf (es[k := e])" "dmap (es[k := e]) = (dmap es)(ename e \<mapsto> inode_sector e)"
proof -
  have other: "ename (es ! j) \<noteq> ename e" if "1 \<le> j" "j < length es" "used (es ! j)" for j
    using new that unfolding dmap_None_iff by blast
  have ename_inj: "i = j" if i: "1 \<le> i" "i < length es" "used (es[k := e] ! i)" and j: "1 \<le> j" "j < length es" "used (es[k := e] ! j)"
    and eq: "ename (es[k := e] ! i) = ename (es[k := e] ! j)" for i j
  proof (cases "i = k \<or> j = k")
    case True
    then show ?thesis using i j eq other [of i] other [of j] by (auto simp: nth_list_update split: if_splits)
  next
    case False
    then show ?thesis using i j eq dir_wfD(4) [OF wf] by simp
  qed
  show wf': "dir_wf (es[k := e])"
    using dir_wfD(1-3) [OF wf] tl_update_subset [OF k(1), of es e] hd_update [OF k(1), of es e] ename_inj e
    unfolding dir_wf_def by auto
  show "dmap (es[k := e]) = (dmap es)(ename e \<mapsto> inode_sector e)"
  proof
    fix nm
    show "dmap (es[k := e]) nm = ((dmap es)(ename e \<mapsto> inode_sector e)) nm"
    proof (cases "nm = ename e")
      case True
      then have "dmap (es[k := e]) nm = Some (inode_sector e)"
        unfolding dmap_Some_iff [OF wf'] using k e by (intro exI [of _ k]) simp
      with True show ?thesis by simp
    next
      case False
      have "dmap (es[k := e]) nm = dmap es nm"
      proof (rule option_eqI)
        fix x
        show "dmap (es[k := e]) nm = Some x \<longleftrightarrow> dmap es nm = Some x"
          unfolding dmap_Some_iff [OF wf'] dmap_Some_iff [OF wf]
          using False k by (metis length_list_update nth_list_update_eq nth_list_update_neq)
      qed
      with False show ?thesis by simp
    qed
  qed
qed

lemma dmap_remove:
  assumes wf: "dir_wf es" and k: "1 \<le> k" "k < length es" "used (es ! k)" and e: "\<not> used e"
  shows "dir_wf (es[k := e])" "dmap (es[k := e]) = (dmap es)(ename (es ! k) := None)"
proof -
  have ename_inj: "i = j" if i: "1 \<le> i" "i < length es" "used (es[k := e] ! i)" and j: "1 \<le> j" "j < length es" "used (es[k := e] ! j)"
    and eq: "ename (es[k := e] ! i) = ename (es[k := e] ! j)" for i j
  proof -
    have "i \<noteq> k" "j \<noteq> k" using i j k e by auto
    then show ?thesis using i j eq dir_wfD(4) [OF wf] by simp
  qed
  show wf': "dir_wf (es[k := e])"
    using dir_wfD(1-3) [OF wf] tl_update_subset [OF k(1), of es e] hd_update [OF k(1), of es e] ename_inj e
    unfolding dir_wf_def by auto
  show "dmap (es[k := e]) = (dmap es)(ename (es ! k) := None)"
  proof
    fix nm
    show "dmap (es[k := e]) nm = ((dmap es)(ename (es ! k) := None)) nm"
    proof (cases "nm = ename (es ! k)")
      case True
      have "dmap (es[k := e]) nm = None"
        unfolding dmap_None_iff using True k e dir_wfD(4) [OF wf] by (metis length_list_update nth_list_update_eq nth_list_update_neq)
      with True show ?thesis by simp
    next
      case False
      have "dmap (es[k := e]) nm = dmap es nm"
      proof (rule option_eqI)
        fix x
        show "dmap (es[k := e]) nm = Some x \<longleftrightarrow> dmap es nm = Some x"
          unfolding dmap_Some_iff [OF wf'] dmap_Some_iff [OF wf]
          using False k e by (metis length_list_update nth_list_update_eq nth_list_update_neq)
      qed
      with False show ?thesis by simp
    qed
  qed
qed

section \<open>Looking up, adding and reading names\<close>

text \<open>An open directory whose entries are well-formed.\<close>

definition directory :: "dfs \<Rightarrow> addr \<Rightarrow> bool" where
  "directory st d \<longleftrightarrow> d \<noteq> NULL \<and> dir_file (fsys st) (dir_inode (dirs st d)) \<and> dir_wf (dir_entries (fsys st) (dir_inode (dirs st d)))"

abbreviation dentries :: "dfs \<Rightarrow> addr \<Rightarrow> dir_entry list" where
  "dentries st d \<equiv> dir_entries (fsys st) (dir_inode (dirs st d))"

lemma directory_len: "directory st d \<Longrightarrow> 1 \<le> length (dentries st d)"
  using dir_wfD(1) [of "dentries st d"] by (cases "dentries st d") (auto simp: directory_def simp del: length_entries)

lemma lookup_directory:
  assumes "directory st d" "0 \<notin> set nm"
  shows "lookup True d nm st = Some (map_option (\<lambda>k. (dentries st d ! k, 20 * k)) (find_entry (dentries st d) nm))"
proof -
  have "lookup_loop True (dir_inode (dirs st d)) nm (20 * 1) (fsys st) =
      Some (map_option (\<lambda>k. (dentries st d ! k, 20 * k)) (find_entry (dentries st d) nm))"
    unfolding find_entry_def
    by (rule lookup_loop_entries [THEN mp])
      (use assms dir_wfD(3) [of "dentries st d"] directory_len [OF assms(1)] in \<open>auto simp: directory_def\<close>)
  then show ?thesis using assms(1) by (simp add: lookup_def sizeof_entry directory_def)
qed

text \<open>The name that an entry gets.\<close>

lemma ename_copy_name:
  assumes "length nm \<le> NAME_MAX" "0 \<notin> set nm" "length old = 15"
  shows "takeWhile (\<lambda>c. c \<noteq> 0) (copy_name nm old) = nm" "length (copy_name nm old) = 15" "0 \<in> set (copy_name nm old)"
proof -
  have "takeWhile (\<lambda>c. c \<noteq> 0) (nm @ [0] @ ys) = nm" for ys
    by (subst takeWhile_append2) (use assms(2) in auto)
  then show "takeWhile (\<lambda>c. c \<noteq> 0) (copy_name nm old) = nm" using assms by (simp add: copy_name_def)
  show "length (copy_name nm old) = 15" "0 \<in> set (copy_name nm old)"
    using assms by (simp_all add: copy_name_def NAME_MAX_def)
qed

text \<open>What \<^verbatim>\<open>dir_add\<close> writes for a file, and where.\<close>

lemma dir_add_writes:
  assumes dir: "directory st d" and nm: "nm \<noteq> []" "length nm \<le> NAME_MAX" "0 \<notin> set nm" and junk: "entry_ok junk"
    and new: "dmap (dentries st d) nm = None"
  obtains e where "entry_ok e" "used e" "ename e = nm" "0 \<in> set (entry_name e)" "inode_sector e = sn"
    "dir_add True d nm sn False junk st = write_entry True (dir_inode (dirs st d)) e (int (20 * free_slot (dentries st d) 0)) st"
proof -
  define i where "i = dir_inode (dirs st d)"
  define k where "k = free_slot (dentries st d) 0"
  have f: "dir_file (fsys st) i" and d: "d \<noteq> NULL" using dir by (simp_all add: directory_def i_def)
  have "find_entry (dentries st d) nm = None" using new by (simp add: dmap_def)
  then have lk: "lookup True d nm st = Some None" using lookup_directory [OF dir nm(3)] by simp
  obtain e' where fs: "find_slot True i junk 0 (fsys st) = Some (20 * k, e')" "entry_ok e'"
    using find_slot_entries [OF f le0, of junk] junk by (auto simp: k_def i_def)
  define e where "e = e'\<lparr>in_use := 1, entry_name := copy_name nm (entry_name e'), inode_sector := sn\<rparr>"
  have "entry_ok e" "used e" "ename e = nm" "0 \<in> set (entry_name e)" "inode_sector e = sn"
    using ename_copy_name [OF nm(2,3), of "entry_name e'"] fs(2) by (simp_all add: e_def entry_ok_def used_def ename_def)
  moreover have "dir_add True d nm sn False junk st = write_entry True i e (int (20 * k)) st"
    using d nm(1,2) lk fs(1) by (simp add: dir_add_def e_def i_def Let_def del: of_nat_mult)
  ultimately show ?thesis using that by (simp add: i_def k_def)
qed

lemma dir_add_free_slot:
  assumes dir: "directory st d" and w: "deny_write_cnt (inodes (fsys st) (dir_inode (dirs st d))) = 0"
    and nm: "nm \<noteq> []" "length nm \<le> NAME_MAX" "0 \<notin> set nm" and junk: "entry_ok junk"
    and new: "dmap (dentries st d) nm = None" and slot: "\<exists>e \<in> set (dentries st d). \<not> used e"
  obtains s' where "dir_add True d nm sn False junk st = Some (True, st\<lparr>fsys := s'\<rparr>)" "s' = (fsys st)\<lparr>disk := disk s'\<rparr>"
    "directory (st\<lparr>fsys := s'\<rparr>) d" "dmap (dentries (st\<lparr>fsys := s'\<rparr>) d) = (dmap (dentries st d))(nm \<mapsto> sn)"
    "\<forall>x. x \<notin> data_sectors (fsys st) (dir_inode (dirs st d)) \<longrightarrow> disk s' x = disk (fsys st) x"
proof -
  define i where "i = dir_inode (dirs st d)"
  define es where "es = dentries st d"
  define k where "k = free_slot es 0"
  have wf: "dir_wf es" and f: "dir_file (fsys st) i" and d: "d \<noteq> NULL" using dir by (simp_all add: directory_def es_def i_def)
  obtain e where e: "entry_ok e" "used e" "ename e = nm" "0 \<in> set (entry_name e)" "inode_sector e = sn"
    "dir_add True d nm sn False junk st = write_entry True i e (int (20 * k)) st"
    using dir_add_writes [OF dir nm junk new, of sn] by (auto simp: i_def k_def es_def)
  have k: "k < length es" "\<not> used (es ! k)"
    using free_slot_unused slot by (auto simp: k_def es_def simp del: length_entries)
  have "hd es = es ! 0" using dir_wfD(1) [OF wf] by (rule hd_conv_nth)
  then have k1: "1 \<le> k" using k(2) dir_wfD(2) [OF wf] by (cases k) auto
  obtain s' where s': "write_entry True i e (int (20 * k)) st = Some (True, st\<lparr>fsys := s'\<rparr>)" "s' = (fsys st)\<lparr>disk := disk s'\<rparr>"
    "dir_file s' i" "dir_entries s' i = es[k := e]"
    "\<forall>x. x \<notin> data_sectors (fsys st) i \<longrightarrow> disk s' x = disk (fsys st) x"
    by (rule write_entry_inside [OF f _ e(1), of k]) (use k w in \<open>simp_all add: es_def i_def\<close>)
  have "dir_wf (es[k := e])" "dmap (es[k := e]) = (dmap es)(nm \<mapsto> sn)"
    using dmap_add [OF wf k1 k e(2,4)] new e(3,5) by (simp_all add: es_def)
  then show ?thesis using that e(6) s' d by (simp add: directory_def es_def i_def)
qed

section \<open>Directories that grow\<close>

text \<open>A file whose growth is possible: the free map is in order, the file's own sectors are marked and
  apart, and \<open>n\<close> more sectors are free.\<close>

definition can_grow :: "fs \<Rightarrow> addr \<Rightarrow> nat \<Rightarrow> bool" where
  "can_grow s i n \<longleftrightarrow> free_map_ok s \<and> i \<noteq> fm_inode s \<and> i \<notin> freed s \<and> deny_write_cnt (inodes s i) = 0 \<and>
     direct_ok s (data (inodes s i)) \<and>
     sector (inodes s i) \<in> used_sectors s - fm_sectors s - blocks_of (data (inodes s i)) \<and> n \<le> card (free_sectors s)"

lemma can_growD:
  assumes "can_grow s i n"
  shows "free_map_ok s" "i \<noteq> fm_inode s" "i \<notin> freed s" "deny_write_cnt (inodes s i) = 0" "direct_ok s (data (inodes s i))"
    "sector (inodes s i) \<in> used_sectors s - fm_sectors s - blocks_of (data (inodes s i))" "n \<le> card (free_sectors s)"
  using assms unfolding can_grow_def by auto

lemma entries_append:
  assumes len: "file_len d = int (20 * k)" "file_len d' = int (20 * Suc k)" and c: "contents s' d' = contents s d @ bs" "length bs = 20"
  shows "entries s' d' = entries s d @ [decode_entry bs]"
proof (rule nth_equalityI)
  have n: "nat (file_len d) = 20 * k" "nat (file_len d') = 20 * Suc k" unfolding len by (rule nat_int)+
  then show "length (entries s' d') = length (entries s d @ [decode_entry bs])" by simp
  fix j assume "j < length (entries s' d')"
  then have j: "j < Suc k" using n by simp
  show "entries s' d' ! j = (entries s d @ [decode_entry bs]) ! j"
  proof (cases "j = k")
    case True
    then have "take 20 (drop (20 * j) (contents s' d')) = bs" using c n by simp
    then show ?thesis using True n c(2) by (simp add: nth_entries nth_append)
  next
    case False
    then have "20 * j + 20 \<le> 20 * k" using j by simp
    then have "take 20 (drop (20 * j) (contents s' d')) = take 20 (drop (20 * j) (contents s d))" using c n by simp
    then show ?thesis using False j n by (simp add: nth_entries nth_append)
  qed
qed

lemma sectors_step: "bytes_to_sectors (int m + 20) - bytes_to_sectors (int m) \<le> 1"
proof -
  have "bytes_to_sectors (int m + 20) = (m + 20 + 511) div 512" using bytes_to_sectors_nat [of "int (m + 20)"] by simp
  moreover have "bytes_to_sectors (int m) = (m + 511) div 512" using bytes_to_sectors_nat [of "int m"] by simp
  moreover have "(m + 20 + 511) div 512 \<le> (m + 511 + 512) div 512" by (intro div_le_mono) simp
  moreover have "(m + 511 + 512) div 512 = (m + 511) div 512 + 1" by simp
  ultimately show ?thesis by linarith
qed

lemma write_entry_past:
  assumes g: "can_grow (fsys st) i 1" and len: "file_len (data (inodes (fsys st) i)) = int (20 * k)" and e: "entry_ok e"
    and max: "bytes_to_sectors (int (20 * Suc k)) \<le> 123"
  obtains s' where "write_entry True i e (int (20 * k)) st = Some (True, st\<lparr>fsys := s'\<rparr>)"
    "dir_file s' i" "dir_entries s' i = dir_entries (fsys st) i @ [e]" "free_map_ok s'" "direct_ok s' (data (inodes s' i))"
    "file_len (data (inodes s' i)) = int (20 * Suc k)" "is_dir (data (inodes s' i)) = is_dir (data (inodes (fsys st) i))"
    "\<And>j. j \<noteq> i \<Longrightarrow> inodes s' j = inodes (fsys st) j" "freed s' = freed (fsys st)" "open_inodes s' = open_inodes (fsys st)"
    "disk s' (sector (inodes (fsys st) i)) = encode_inode (data (inodes s' i))"
    "\<And>x. x \<in> used_sectors (fsys st) - fm_sectors (fsys st) - blocks_of (data (inodes (fsys st) i)) - {sector (inodes (fsys st) i)}
       \<Longrightarrow> disk s' x = disk (fsys st) x"
proof -
  let ?s = "fsys st" and ?d = "data (inodes (fsys st) i)"
  note g = can_growD [OF g]
  have off: "0 \<le> int (20 * k)" "int (20 * k) \<le> file_len ?d" "file_len ?d < int (20 * k) + 20" "20 \<le> int (length (encode_entry e))"
    using len e by simp_all
  have len': "int (20 * k) + 20 = int (20 * Suc k)" by simp
  have "bytes_to_sectors (int (20 * k) + 20) - bytes_to_sectors (file_len ?d) \<le> card (free_sectors ?s)"
    unfolding len using sectors_step [of "20 * k"] g(7) by (rule order_trans)
  then obtain bs d' s' where w: "inode_write_at True i (encode_entry e) 20 (int (20 * k)) ?s = Some (nat 20, s')"
    "d' = ?d\<lparr>direct_blocks := bs, file_len := int (20 * k) + 20\<rparr>"
    "s' = ?s\<lparr>free_map := free_map s', disk := disk s', inodes := (inodes ?s)(i := (inodes ?s i)\<lparr>data := d'\<rparr>)\<rparr>"
    "free_map_ok s'" "direct_ok s' d'" "disk s' (sector (inodes ?s i)) = encode_inode d'"
    "contents s' d' = take (nat (int (20 * k))) (contents ?s ?d) @ take (nat 20) (encode_entry e)"
    "blocks_of d' - blocks_of ?d \<subseteq> free_sectors ?s"
    "\<forall>x. x \<notin> fm_sectors ?s \<union> blocks_of d' \<union> {sector (inodes ?s i)} \<longrightarrow> disk s' x = disk ?s x"
    using inode_write_grows_small [OF g(1,3,4) _ g(5) refl refl off _ _ g(6)] g(2) max unfolding len' by metis
  have eq: "data (inodes s' i) = d'" "freed s' = freed ?s" "open_inodes s' = open_inodes ?s" by (subst w(3), simp)+
  have eqj: "inodes s' j = inodes ?s j" if "j \<noteq> i" for j using that by (subst w(3)) simp
  have n: "nat (file_len ?d) = 20 * k" "nat (int (20 * k)) = 20 * k" unfolding len by (rule nat_int)+
  have "contents s' d' = contents ?s ?d @ encode_entry e" using w(7) n e by simp
  then have "entries s' d' = entries ?s ?d @ [decode_entry (encode_entry e)]"
    by (intro entries_append [OF len]) (use w(2) len' e in simp_all)
  then have "dir_entries s' i = dir_entries ?s i @ [e]" using e eq by simp
  moreover have "file_ok s' d'" by (rule direct_file_ok(1) [OF w(4,5)])
  moreover have "file_len d' < 2 ^ 31"
  proof (rule ccontr)
    assume "\<not> file_len d' < 2 ^ 31"
    then have "(2 ^ 31 + 511) div 512 \<le> (nat (file_len d') + 511) div 512" by (intro div_le_mono) simp
    then show False using direct_okD(1,2) [OF w(5)] by (simp add: bytes_to_sectors_nat)
  qed
  ultimately have f: "dir_file s' i" "dir_entries s' i = dir_entries ?s i @ [e]" using g(3) eq by (simp_all add: dir_file_def)
  have "write_entry True i e (int (20 * k)) st = Some (True, st\<lparr>fsys := s'\<rparr>)"
    using w(1) by (simp add: write_entry_def sizeof_entry del: of_nat_mult)
  then show ?thesis
  proof (rule that)
    show "disk s' x = disk ?s x" if "x \<in> used_sectors ?s - fm_sectors ?s - blocks_of ?d - {sector (inodes ?s i)}" for x
    proof -
      have "x \<notin> blocks_of d'" using that w(8) by (auto simp: free_sectors_def)
      then show ?thesis using that w(9) by blast
    qed
  qed (use f w eq eqj len' in simp_all)
qed

lemma dmap_unused:
  assumes "dir_wf es" "\<not> used u"
  shows "dir_wf (es @ [u])" "dmap (es @ [u]) = dmap es"
proof -
  have n: "(es @ [u]) ! k = es ! k" if "k < length es" for k using that by (simp add: nth_append)
  have u: "used ((es @ [u]) ! k) \<longleftrightarrow> k < length es \<and> used (es ! k)" if "k < length (es @ [u])" for k
    using that assms(2) by (auto simp: nth_append less_Suc_eq)
  have inj: "j = k" if "1 \<le> j" "j < length (es @ [u])" "used ((es @ [u]) ! j)" "1 \<le> k" "k < length (es @ [u])" "used ((es @ [u]) ! k)"
    "ename ((es @ [u]) ! j) = ename ((es @ [u]) ! k)" for j k
    using that u [of j] u [of k] n [of j] n [of k] dir_wfD(4) [OF assms(1), of j k] by simp
  have "tl (es @ [u]) = tl es @ [u]" "hd (es @ [u]) = hd es" using dir_wfD(1) [OF assms(1)] by auto
  then show wf: "dir_wf (es @ [u])"
    using dir_wfD(2,3) [OF assms(1)] inj assms(2) unfolding dir_wf_def by auto
  show "dmap (es @ [u]) = dmap es"
  proof
    fix nm
    show "dmap (es @ [u]) nm = dmap es nm"
      by (rule option_eqI) (use n u in \<open>auto simp: dmap_Some_iff [OF wf] dmap_Some_iff [OF assms(1)]\<close>)
  qed
qed

lemma dmap_append:
  assumes wf: "dir_wf es" and e: "used e" "0 \<in> set (entry_name e)" and new: "dmap es (ename e) = None"
  shows "dir_wf (es @ [e])" "dmap (es @ [e]) = (dmap es)(ename e \<mapsto> inode_sector e)"
proof -
  define u where "u = \<lparr>inode_sector = 0, entry_name = [], in_use = 0\<rparr>"
  have u: "\<not> used u" by (simp add: u_def used_def)
  note un = dmap_unused [OF wf u]
  have "(es @ [u])[length es := e] = es @ [e]" by simp
  moreover have "1 \<le> length es" using dir_wfD(1) [OF wf] by (cases es) auto
  moreover have "\<not> used ((es @ [u]) ! length es)" using u by simp
  ultimately show "dir_wf (es @ [e])" "dmap (es @ [e]) = (dmap es)(ename e \<mapsto> inode_sector e)"
    using dmap_add [OF un(1) _ _ _ e, of "length es"] new un(2) by simp_all
qed

lemma free_slot_full:
  assumes "\<forall>e \<in> set es. used e"
  shows "free_slot es 0 = length es"
proof -
  have "find (\<lambda>j. \<not> used (es ! j)) [0..<length es] = None" using assms by (auto simp: find_None_iff)
  then show ?thesis by (simp add: free_slot_def)
qed

lemma dir_add_full:
  assumes dir: "directory st d" and g: "can_grow (fsys st) (dir_inode (dirs st d)) 1"
    and nm: "nm \<noteq> []" "length nm \<le> NAME_MAX" "0 \<notin> set nm" and junk: "entry_ok junk"
    and new: "dmap (dentries st d) nm = None" and full: "\<forall>e \<in> set (dentries st d). used e"
    and len: "file_len (data (inodes (fsys st) (dir_inode (dirs st d)))) = int (20 * k)" and max: "bytes_to_sectors (int (20 * Suc k)) \<le> 123"
  obtains s' where "dir_add True d nm sn False junk st = Some (True, st\<lparr>fsys := s'\<rparr>)"
    "directory (st\<lparr>fsys := s'\<rparr>) d" "dmap (dentries (st\<lparr>fsys := s'\<rparr>) d) = (dmap (dentries st d))(nm \<mapsto> sn)"
    "free_map_ok s'" "disk s' (sector (inodes (fsys st) (dir_inode (dirs st d)))) = encode_inode (data (inodes s' (dir_inode (dirs st d))))"
proof -
  define i where "i = dir_inode (dirs st d)"
  define es where "es = dentries st d"
  have wf: "dir_wf es" and d: "d \<noteq> NULL" using dir by (simp_all add: directory_def es_def i_def)
  have n: "length es = k" using len unfolding es_def i_def [symmetric] by (simp del: of_nat_mult)
  obtain e where e: "entry_ok e" "used e" "ename e = nm" "0 \<in> set (entry_name e)" "inode_sector e = sn"
    "dir_add True d nm sn False junk st = write_entry True i e (int (20 * free_slot es 0)) st"
    using dir_add_writes [OF dir nm junk new, of sn] by (auto simp: i_def es_def)
  have fs: "free_slot es 0 = k" using free_slot_full [of es] full n by (simp add: es_def)
  obtain s' where s': "write_entry True i e (int (20 * k)) st = Some (True, st\<lparr>fsys := s'\<rparr>)"
    "dir_file s' i" "dir_entries s' i = es @ [e]" "free_map_ok s'" "disk s' (sector (inodes (fsys st) i)) = encode_inode (data (inodes s' i))"
    by (rule write_entry_past [OF g [folded i_def] len [folded i_def] e(1) max]) (simp add: es_def i_def)
  have "dir_wf (es @ [e])" "dmap (es @ [e]) = (dmap es)(nm \<mapsto> sn)"
    using dmap_append [OF wf e(2,4)] new e(3,5) by (simp_all add: es_def)
  then show ?thesis using that e(6) fs s' d by (simp add: directory_def es_def i_def)
qed

lemma lookup_dmap:
  assumes "directory st d" "0 \<notin> set nm" "dmap (dentries st d) nm = Some sn"
  obtains k where "lookup True d nm st = Some (Some (dentries st d ! k, 20 * k))" "inode_sector (dentries st d ! k) = sn"
    "1 \<le> k" "k < length (dentries st d)" "used (dentries st d ! k)" "ename (dentries st d ! k) = nm"
proof -
  obtain k where k: "find_entry (dentries st d) nm = Some k" "inode_sector (dentries st d ! k) = sn"
    using assms(3) by (auto simp: dmap_def)
  then show ?thesis using that lookup_directory [OF assms(1,2)] find_entry_SomeD [OF k(1)] by simp
qed

section \<open>Removing names\<close>

text \<open>Only the sectors of the file and its inode's data matter for a directory.\<close>

lemma contents_frame:
  assumes ok: "file_ok s d" and same: "\<And>x. x \<in> file_sectors s d \<Longrightarrow> disk s' x = disk s x" and fs: "fs_size s' = fs_size s"
  shows "file_ok s' d" "contents s' d = contents s d"
proof -
  let ?n = "bytes_to_sectors (file_len d)"
  have i: "\<And>x. x \<in> index_sectors s d ?n \<Longrightarrow> disk s' x = disk s x" using same by (simp add: file_sectors_def)
  have idx: "index_sectors s' d ?n = index_sectors s d ?n" by (rule sec_frame(1) [OF ok i fs])
  have sec: "sec s' d k = sec s d k" if "k < ?n" for k by (rule sec_frame(2) [OF ok i fs that])
  have dk: "disk s' (sec s d k) = disk s (sec s d k)" if "k < ?n" for k using same that by (simp add: file_sectors_def)
  have "inj_on (sec s' d) {..<?n} = inj_on (sec s d) {..<?n}" by (intro inj_on_cong) (simp add: sec)
  then show "file_ok s' d" using ok sec idx dk fs unfolding file_ok_def Let_def by simp
  have "file_byte s' d k = file_byte s d k" if "k < nat (file_len d)" for k
    using sec dk block_index [OF file_okD(1) [OF ok] that] by (simp add: file_byte_def)
  then show "contents s' d = contents s d" by (simp add: contents_def)
qed

lemma directory_frame:
  assumes dir: "directory st d" and dirs: "dirs st' d = dirs st d" "dir_inode (dirs st d) = i"
    and data: "data (inodes (fsys st') i) = data (inodes (fsys st) i)" and fr: "i \<notin> freed (fsys st')"
    and fs: "fs_size (fsys st') = fs_size (fsys st)"
    and same: "\<And>x. x \<in> file_sectors (fsys st) (data (inodes (fsys st) i)) \<Longrightarrow> disk (fsys st') x = disk (fsys st) x"
  shows "directory st' d" "dentries st' d = dentries st d"
proof -
  have ok: "file_ok (fsys st) (data (inodes (fsys st) i))" using dir dirs(2) by (simp add: directory_def dir_file_def)
  note c = contents_frame [OF ok same fs]
  show e: "dentries st' d = dentries st d" using c(2) dirs data by (simp add: entries_def)
  show "directory st' d" using dir e c(1) dirs data fr by (simp add: directory_def dir_file_def)
qed

lemma dir_remove_open_file:
  assumes dir: "directory st d" and j: "dir_inode (dirs st d) = j" "deny_write_cnt (inodes (fsys st) j) = 0"
    and nm: "0 \<notin> set nm" "dmap (dentries st d) nm = Some sn"
    and i: "find (\<lambda>i. sector (inodes (fsys st) i) = sn) (open_inodes (fsys st)) = Some i" "i \<noteq> NULL" "i \<noteq> j" "i \<notin> freed (fsys st)"
      "\<not> inode_is_directory i (fsys st)" "1 \<le> open_cnt (inodes (fsys st) i)"
  obtains st' where "dir_remove True d nm st = Some (True, st')" "directory st' d" "dmap (dentries st' d) = (dmap (dentries st d))(nm := None)"
    "inodes (fsys st') = (inodes (fsys st))(i := (inodes (fsys st) i)\<lparr>removed := True\<rparr>)" "freed (fsys st') = freed (fsys st)"
    "fs_size (fsys st') = fs_size (fsys st)" "\<forall>x. x \<notin> data_sectors (fsys st) j \<longrightarrow> disk (fsys st') x = disk (fsys st) x"
proof -
  obtain k where k: "lookup True d nm st = Some (Some (dentries st d ! k, 20 * k))" "inode_sector (dentries st d ! k) = sn"
    "1 \<le> k" "k < length (dentries st d)" "used (dentries st d ! k)" "ename (dentries st d ! k) = nm"
    by (rule lookup_dmap [OF dir nm])
  define s1 where "s1 = inode_reopen i (fsys st)"
  define st1 where "st1 = st\<lparr>fsys := s1\<rparr>"
  have op: "open_sector sn st = Some (i, st1)"
  proof -
    have "\<exists>i \<in> set (open_inodes (fsys st)). sector (inodes (fsys st) i) = sn" using i(1) by (auto simp: find_Some_iff)
    then show ?thesis using i(1) by (simp add: open_sector_def inode_open_def st1_def s1_def)
  qed
  have s1: "disk s1 = disk (fsys st)" "freed s1 = freed (fsys st)" "fs_size s1 = fs_size (fsys st)"
    "data (inodes s1 x) = data (inodes (fsys st) x)" "deny_write_cnt (inodes s1 x) = deny_write_cnt (inodes (fsys st) x)" for x
    by (auto simp: s1_def inode_reopen_def upd_inode_def)
  have d0: "d \<noteq> NULL" "j \<notin> freed (fsys st)" using dir j by (auto simp: directory_def dir_file_def)
  have dir1: "directory st1 d" "dentries st1 d = dentries st d"
    using directory_frame [OF dir, of st1 j] j(1) d0(2) s1 by (simp_all add: st1_def)
  have mr: "may_remove True i st1 = Some (True, st1)"
    using i(5) s1(4) by (simp add: may_remove_def inode_is_directory_def st1_def)
  define e where "e = (dentries st d ! k)\<lparr>in_use := 0\<rparr>"
  have e: "entry_ok e" "\<not> used e"
    using decode_entry_ok nth_entries k(4) entry_fits
    by (auto simp: e_def used_def entry_ok_def decode_entry_def NAME_MAX_def nth_entries)
  have f1: "dir_file (fsys st1) j" using dir1 j by (simp add: directory_def st1_def)
  obtain s2 where s2: "write_entry True j e (int (20 * k)) st1 = Some (True, st1\<lparr>fsys := s2\<rparr>)" "s2 = (fsys st1)\<lparr>disk := disk s2\<rparr>"
    "dir_file s2 j" "dir_entries s2 j = (dir_entries (fsys st1) j)[k := e]"
    "\<forall>x. x \<notin> data_sectors (fsys st1) j \<longrightarrow> disk s2 x = disk (fsys st1) x"
    by (rule write_entry_inside [OF f1 _ e(1)]) (use k(4) dir1(2) j s1 in \<open>simp_all add: st1_def\<close>)
  define s3 where "s3 = upd_inode i (\<lambda>ino. ino\<lparr>removed := True\<rparr>) s2"
  define s4 where "s4 = upd_inode i (\<lambda>ino. ino\<lparr>open_cnt := open_cnt ino - 1\<rparr>) s3"
  have eq2: "inodes s2 = inodes s1" "freed s2 = freed (fsys st)" "fs_size s2 = fs_size (fsys st)" by (subst s2(2), simp add: st1_def s1)+
  have i4: "inodes s4 i = (inodes (fsys st) i)\<lparr>removed := True\<rparr>" and o4: "inodes s4 x = inodes (fsys st) x" if "x \<noteq> i" for x
    using that i(2) eq2 by (simp_all add: s4_def s3_def upd_inode_def s1_def inode_reopen_def)
  have ino4: "inodes s4 = (inodes (fsys st))(i := (inodes (fsys st) i)\<lparr>removed := True\<rparr>)"
    using i(2) eq2 by (simp add: s4_def s3_def upd_inode_def s1_def inode_reopen_def fun_eq_iff)
  have rm: "inode_remove i s2 = Some s3" using i(2,4) eq2 by (simp add: inode_remove_def s3_def)
  have cl: "inode_close True i s3 = Some s4"
    using i(2,4,6) eq2 ino4 by (simp add: inode_close_def s4_def s3_def upd_inode_def)
  define st' where "st' = st1\<lparr>fsys := s4\<rparr>"
  have "dir_remove True d nm st = Some (True, st')"
    using d0 k(1,2) op mr s2(1) rm cl i(2) j(1)
    by (simp add: dir_remove_def e_def close_inode_def st1_def st'_def del: of_nat_mult)
  moreover have ent: "dentries st' d = (dentries st d)[k := e]" "directory st' d"
  proof -
    have dk: "disk s4 = disk s2" "fs_size s4 = fs_size s2" "freed s4 = freed s2" by (simp_all add: s4_def s3_def upd_inode_def)
    have dt: "data (inodes s4 j) = data (inodes s2 j)" using i(3) by (simp add: s4_def s3_def upd_inode_def)
    have "dir_entries s4 j = dir_entries s2 j" using same_disk(4) [OF dk(1,2)] dt by (simp add: entries_def)
    then show e4: "dentries st' d = (dentries st d)[k := e]" using s2(4) dir1(2) j by (simp add: st'_def st1_def)
    have "dir_file s4 j" using s2(3) same_disk(3) [OF dk(1,2)] dt dk(3) by (simp add: dir_file_def)
    moreover have "dir_wf ((dentries st d)[k := e])"
      using dmap_remove(1) [OF _ k(3,4,5) e(2)] dir by (simp add: directory_def)
    ultimately show "directory st' d" using e4 d0 j by (simp add: directory_def st'_def st1_def)
  qed
  moreover have "dmap (dentries st' d) = (dmap (dentries st d))(nm := None)"
    using dmap_remove(2) [OF _ k(3,4,5) e(2)] dir ent k(6) by (simp add: directory_def)
  moreover have "freed (fsys st') = freed (fsys st)" "fs_size (fsys st') = fs_size (fsys st)"
    using eq2 by (simp_all add: st'_def s4_def s3_def upd_inode_def)
  moreover have "disk (fsys st') x = disk (fsys st) x" if "x \<notin> data_sectors (fsys st) j" for x
  proof -
    have "sec s1 = sec (fsys st)" by (rule same_disk(1)) (simp_all add: s1)
    then show ?thesis using that s2(5) s1 by (simp add: st'_def s4_def s3_def upd_inode_def st1_def)
  qed
  moreover have "inodes (fsys st') = (inodes (fsys st))(i := (inodes (fsys st) i)\<lparr>removed := True\<rparr>)"
    using ino4 by (simp add: st'_def)
  ultimately show ?thesis using that by blast
qed

section \<open>A sample directory\<close>

text \<open>A file system with a directory of three entries, one of them free, in sector 50, open at 10 as the
  directory 5, and the file \<^verbatim>\<open>ab\<close> of that directory, in sector 70, open at 11. Its free map is in sector 60.
  The argument says whether the slot of the parent is in use.\<close>

definition sample_slot :: "byte \<Rightarrow> dir_entry" where
  "sample_slot u = \<lparr>inode_sector = 1, entry_name = replicate 15 0, in_use = u\<rparr>"

definition sample_entry :: dir_entry where
  "sample_entry = \<lparr>inode_sector = 70, entry_name = [97, 98] @ replicate 13 0, in_use = 1\<rparr>"

definition sample_entries :: "byte \<Rightarrow> dir_entry list" where
  "sample_entries u = [sample_slot u, sample_entry, sample_slot 0]"

definition sample_dir_disk :: inode_disk where
  "sample_dir_disk = sample_inode_disk\<lparr>direct_blocks := 50 # replicate 122 0, is_dir := True, file_len := 60\<rparr>"

definition sample_dfs :: "byte \<Rightarrow> dfs" where
  "sample_dfs u = \<lparr>fsys = (small_fs False)\<lparr>
      disk := (\<lambda>x. if x = 50 then concat (map encode_entry (sample_entries u)) @ replicate 452 0 else replicate 512 0),
      inodes := (inodes (small_fs False))
        (10 := \<lparr>sector = 40, open_cnt = 1, removed = False, deny_write_cnt = 0, data = sample_dir_disk\<rparr>,
         11 := \<lparr>sector = 70, open_cnt = 1, removed = False, deny_write_cnt = 0, data = sample_inode_disk\<rparr>),
      open_inodes := [10, 20, 11]\<rparr>,
     dirs = (\<lambda>_. \<lparr>dir_inode = 10, dir_pos = 20\<rparr>), cwd = 0, heap = [6, 12, 13]\<rparr>"

lemma sample_dfs_simps:
  "data (inodes (fsys (sample_dfs u)) 10) = sample_dir_disk" "file_len sample_dir_disk = 60" "freed (fsys (sample_dfs u)) = {}"
  "dir_inode (dirs (sample_dfs u) d) = 10" "fs_size (fsys (sample_dfs u)) = 100" "bytes_to_sectors 60 = 1"
  "deny_write_cnt (inodes (fsys (sample_dfs u)) 10) = 0" "open_inodes (fsys (sample_dfs u)) = [10, 20, 11]"
  by (simp_all add: sample_dfs_def sample_dir_disk_def small_fs_def bytes_to_sectors_nat)

lemma sample_sec: "sec (fsys (sample_dfs u)) sample_dir_disk 0 = 50"
  by (subst sec_direct) (simp_all add: sample_dir_disk_def)

lemma sample_dir_file: "dir_file (fsys (sample_dfs u)) 10"
proof -
  have "length (direct_blocks sample_dir_disk) = 123" by (simp add: sample_dir_disk_def)
  moreover have "length (disk (fsys (sample_dfs u)) 50) = 512"
    by (simp add: sample_dfs_def sample_entries_def sample_slot_def sample_entry_def encode_entry_def)
  ultimately have "file_ok (fsys (sample_dfs u)) sample_dir_disk"
    using sample_sec by (simp add: file_ok_def sample_dfs_simps index_sectors_direct Let_def inj_on_def)
  then show ?thesis by (simp add: dir_file_def sample_dfs_simps)
qed

lemma sample_entries_eq: "dir_entries (fsys (sample_dfs u)) 10 = sample_entries u"
proof -
  let ?c = "concat (map encode_entry (sample_entries u))" and ?s = "fsys (sample_dfs u)"
  have ok: "\<forall>e \<in> set (sample_entries u). entry_ok e"
    by (simp add: sample_entries_def sample_slot_def sample_entry_def entry_ok_def)
  then have len: "length ?c = 60" by (simp add: sample_entries_def)
  have "contents ?s sample_dir_disk = ?c"
  proof (rule nth_equalityI)
    fix k assume "k < length (contents ?s sample_dir_disk)"
    then have k: "k < 60" by (simp add: sample_dfs_simps)
    then have "k div 512 = 0" "k mod 512 = k" by simp_all
    then have "contents ?s sample_dir_disk ! k = disk ?s 50 ! k"
      using k sample_sec by (simp add: contents_def file_byte_def sample_dfs_simps)
    also have "\<dots> = ?c ! k" using k len by (simp add: sample_dfs_def nth_append)
    finally show "contents ?s sample_dir_disk ! k = ?c ! k" .
  qed (simp add: len sample_dfs_simps)
  then show ?thesis
    using ok by (intro nth_equalityI) (auto simp: sample_dfs_simps nth_entries sample_entries_def less_Suc_eq numeral_3_eq_3)
qed

lemma sample_dentries: "dentries (sample_dfs u) d = sample_entries u"
  by (simp only: sample_dfs_simps(4) sample_entries_eq)

lemma sample_directory:
  assumes "u \<noteq> 0"
  shows "directory (sample_dfs u) 5" "dmap (dentries (sample_dfs u) 5) = [[97, 98] \<mapsto> 70]"
proof -
  have n: "[1..<3] = [1, 2 :: nat]" by (simp add: upt_rec)
  have us: "used sample_entry" "\<not> used (sample_slot 0)" "used (sample_slot u)" "ename sample_entry = [97, 98]"
    using assms by (simp_all add: used_def sample_entry_def sample_slot_def ename_def)
  note e = sample_dentries [of u 5]
  have one: "j = 1" if "1 \<le> j" "j < 3" "used (sample_entries u ! j)" for j
  proof -
    have "j = 1 \<or> j = 2" using that(1,2) by linarith
    then show ?thesis using that(3) us(2) by (elim disjE) (simp_all add: sample_entries_def)
  qed
  have "dir_wf (sample_entries u)"
    unfolding dir_wf_def
  proof (intro conjI allI impI)
    show "sample_entries u \<noteq> []" "used (hd (sample_entries u))" using us by (simp_all add: sample_entries_def)
    show "\<forall>e \<in> set (tl (sample_entries u)). used e \<longrightarrow> 0 \<in> set (entry_name e)"
      by (simp add: sample_entries_def) (simp add: sample_entry_def sample_slot_def)
    fix j k
    assume "1 \<le> j \<and> j < length (sample_entries u) \<and> used (sample_entries u ! j) \<and> 1 \<le> k \<and> k < length (sample_entries u) \<and>
      used (sample_entries u ! k) \<and> ename (sample_entries u ! j) = ename (sample_entries u ! k)"
    moreover have "length (sample_entries u) = 3" by (simp add: sample_entries_def)
    ultimately have "j = 1" "k = 1" using one by (metis, metis)
    then show "j = k" by simp
  qed
  then show "directory (sample_dfs u) 5"
    using sample_dir_file e by (simp add: directory_def sample_dfs_simps)
  show "dmap (dentries (sample_dfs u) 5) = [[97, 98] \<mapsto> 70]"
    unfolding e using us by (auto simp: dmap_def find_entry_def sample_entries_def n fun_eq_iff) (simp add: sample_entry_def)
qed

section \<open>The properties\<close>



text \<open>C26: Removing the name of a file that is open elsewhere succeeds and deletes that name, and no other,
  from the map of the directory. The file is marked as removed but stays open as often as before, no
  sector outside of the directory's file changes, and so the file reads as it did before.\<close>

theorem dir_remove_unlinks_open_file:
  assumes "directory st d" and "dir_inode (dirs st d) = j" "deny_write_cnt (inodes (fsys st) j) = 0"
    and "0 \<notin> set nm" "dmap (dentries st d) nm = Some sn"
    and "find (\<lambda>i. sector (inodes (fsys st) i) = sn) (open_inodes (fsys st)) = Some i" "i \<noteq> NULL" "i \<noteq> j" "i \<notin> freed (fsys st)"
      "\<not> inode_is_directory i (fsys st)" "1 \<le> open_cnt (inodes (fsys st) i)"
  shows "\<exists>st'. dir_remove True d nm st = Some (True, st') \<and> directory st' d \<and>
    dmap (dentries st' d) = (dmap (dentries st d))(nm := None) \<and>
    inode_is_removed i (fsys st') \<and> open_cnt (inodes (fsys st') i) = open_cnt (inodes (fsys st) i) \<and>
    (\<forall>x. x \<notin> data_sectors (fsys st) j \<longrightarrow> disk (fsys st') x = disk (fsys st) x) \<and>
    (file_ok (fsys st) (data (inodes (fsys st) i)) \<and> file_sectors (fsys st) (data (inodes (fsys st) i)) \<inter> data_sectors (fsys st) j = {} \<longrightarrow>
      contents (fsys st') (data (inodes (fsys st') i)) = contents (fsys st) (data (inodes (fsys st) i)))"
proof -
  obtain st' where st': "dir_remove True d nm st = Some (True, st')" "directory st' d" "dmap (dentries st' d) = (dmap (dentries st d))(nm := None)"
    "inodes (fsys st') = (inodes (fsys st))(i := (inodes (fsys st) i)\<lparr>removed := True\<rparr>)"
    "\<forall>x. x \<notin> data_sectors (fsys st) j \<longrightarrow> disk (fsys st') x = disk (fsys st) x" "fs_size (fsys st') = fs_size (fsys st)"
    using dir_remove_open_file [OF assms] by metis
  have a: "data (inodes (fsys st') i) = data (inodes (fsys st) i)" "inode_is_removed i (fsys st')"
    "open_cnt (inodes (fsys st') i) = open_cnt (inodes (fsys st) i)"
    by (simp_all add: st'(4) inode_is_removed_def)
  have "contents (fsys st') (data (inodes (fsys st') i)) = contents (fsys st) (data (inodes (fsys st) i))"
    if "file_ok (fsys st) (data (inodes (fsys st) i))" "file_sectors (fsys st) (data (inodes (fsys st) i)) \<inter> data_sectors (fsys st) j = {}"
    unfolding a(1) by (rule contents_frame(2) [OF that(1) _ st'(6)]) (use st'(5) that(2) in auto)
  then show ?thesis using st'(1-3,5) a(2,3) by blast
qed

theorem dir_remove_unlinks_open_file_witness:
  "\<exists>st'. dir_remove True 5 [97, 98] (sample_dfs 1) = Some (True, st') \<and> dmap (dentries st' 5) = Map.empty"
proof -
  note dir = sample_directory [of 1, simplified]
  have s: "find (\<lambda>i. sector (inodes (fsys (sample_dfs 1)) i) = 70) (open_inodes (fsys (sample_dfs 1))) = Some 11"
    "\<not> inode_is_directory 11 (fsys (sample_dfs 1))" "open_cnt (inodes (fsys (sample_dfs 1)) 11) = 1"
    by (simp_all add: sample_dfs_def small_fs_def inode_is_directory_def sample_inode_disk_def)
  have nm: "0 \<notin> set [97, 98 :: byte]" "dmap (dentries (sample_dfs 1) 5) [97, 98] = Some 70" "11 \<notin> freed (fsys (sample_dfs 1))"
    using dir(2) by (simp_all add: sample_dfs_simps(3))
  have "[[97, 98] \<mapsto> 70 :: u32]([97, 98 :: byte] := None) = Map.empty" by (simp add: fun_eq_iff)
  then show ?thesis
    using dir_remove_unlinks_open_file [OF dir(1) sample_dfs_simps(4) sample_dfs_simps(7) nm(1,2) s(1) _ _ nm(3) s(2)] s(3) dir(2)
    by auto
qed

text \<open>The slot of the parent, which \<^verbatim>\<open>dir_create\<close> and \<^verbatim>\<open>dir_add\<close> write without setting \<^verbatim>\<open>in_use\<close>: if
  the uninitialised byte is 0, the first \<^verbatim>\<open>dir_add\<close> takes this slot for the new name. The call reports
  success, but \<^verbatim>\<open>lookup\<close>, which starts behind it, does not find the name, and the parent that the
  directory then records is the new file.\<close>

theorem parent_slot_loses_name:
  assumes "d \<noteq> NULL" and "dir_inode (dirs st d) = i" and "dir_file (fsys st) i" and "deny_write_cnt (inodes (fsys st) i) = 0"
    and "dir_entries (fsys st) i = e0 # es" and "in_use e0 = 0"
    and "\<forall>e \<in> set es. used e \<longrightarrow> 0 \<in> set (entry_name e) \<and> ename e \<noteq> nm"
    and "nm \<noteq> [] \<and> length nm \<le> NAME_MAX \<and> 0 \<notin> set nm" and "entry_ok junk"
  shows "\<exists>st' bs. dir_add True d nm sn False junk st = Some (True, st') \<and> lookup True d nm st' = Some None \<and>
    inode_read_at True i (int sizeof_entry) 0 (fsys st') = Some bs \<and> inode_sector (read_into bs junk) = sn"
proof -
  let ?s = "fsys st"
  have look: "lookup True d nm st' = Some None" if "dir_file (fsys st') i" "dir_entries (fsys st') i = e # es" "dirs st' = dirs st" for st' e
  proof -
    have "lookup_loop True i nm (20 * 1) (fsys st') = Some None"
    proof -
      have "find (\<lambda>j. used (dir_entries (fsys st') i ! j) \<and> ename (dir_entries (fsys st') i ! j) = nm) [1..<length (dir_entries (fsys st') i)] = None"
        unfolding that(2) using assms(7) by (auto simp: find_None_iff nth_Cons')
      then show ?thesis
        by (subst lookup_loop_entries [THEN mp]) (use that assms(7,8) in auto)
    qed
    then show ?thesis using assms(1,2) that(3) by (simp add: lookup_def sizeof_entry)
  qed
  have len: "0 < length (dir_entries ?s i)" unfolding assms(5) by simp
  obtain bs where bs: "inode_read_at True i (int sizeof_entry) (int (20 * 0)) ?s = Some bs" "length bs = 20" "decode_entry bs = e0"
    using read_entry [OF assms(3) len] unfolding assms(5) by (metis nth_Cons_0)
  have fs: "find_slot True i junk 0 ?s = Some (0, e0)"
    using bs assms(6,9) by (subst find_slot.simps) (simp add: read_into_full Let_def)
  define e where "e = e0\<lparr>in_use := 1, entry_name := copy_name nm (entry_name e0), inode_sector := sn\<rparr>"
  have "entry_ok e0" using bs decode_entry_ok by metis
  then have e: "entry_ok e" using ename_copy_name(2) assms(8) by (simp add: e_def entry_ok_def)
  obtain s' where s': "write_entry True i e (int (20 * 0)) st = Some (True, st\<lparr>fsys := s'\<rparr>)" "dir_file s' i"
    "dir_entries s' i = (dir_entries ?s i)[0 := e]"
    by (rule write_entry_inside [OF assms(3) len e assms(4)])
  have es': "dir_entries s' i = e # es" using s'(3) unfolding assms(5) by simp
  have "dir_add True d nm sn False junk st = Some (True, st\<lparr>fsys := s'\<rparr>)"
    using look [of st e0] assms(1,2,3,5,8) fs s'(1) by (simp add: dir_add_def e_def Let_def)
  moreover have "lookup True d nm (st\<lparr>fsys := s'\<rparr>) = Some None" using look [of "st\<lparr>fsys := s'\<rparr>" e] s'(2) es' by simp
  moreover have "0 < length (dir_entries s' i)" unfolding es' by simp
  then obtain bs' where "inode_read_at True i (int sizeof_entry) (int (20 * 0)) s' = Some bs'" "length bs' = 20" "decode_entry bs' = e"
    using read_entry [OF s'(2)] unfolding es' by (metis nth_Cons_0)
  ultimately show ?thesis using assms(9) by (auto simp: read_into_full e_def)
qed

theorem parent_slot_loses_name_witness:
  "\<exists>st'. dir_add True 5 [99] 80 False (sample_slot 9) (sample_dfs 0) = Some (True, st') \<and> lookup True 5 [99] st' = Some None"
proof -
  have "dir_entries (fsys (sample_dfs 0)) 10 = sample_slot 0 # [sample_entry, sample_slot 0]"
    unfolding sample_entries_eq by (simp add: sample_entries_def)
  moreover have "entry_ok (sample_slot 9)" "in_use (sample_slot 0) = 0" by (simp_all add: entry_ok_def sample_slot_def)
  moreover have "\<forall>e \<in> set [sample_entry, sample_slot 0]. used e \<longrightarrow> 0 \<in> set (entry_name e) \<and> ename e \<noteq> [99]"
    by (simp add: used_def ename_def sample_entry_def sample_slot_def)
  ultimately show ?thesis
    using parent_slot_loses_name [OF _ sample_dfs_simps(4) sample_dir_file sample_dfs_simps(7), of 5 0 _ _ "[99]" "sample_slot 9" 80]
    by (auto simp: NAME_MAX_def simp del: length_entries)
qed

text \<open>\<^verbatim>\<open>dir_remove\<close> of a directory that nobody else has open never comes back well: the directory
  opened for the test of emptiness takes over the only reference to the inode, and closing it frees the
  inode, which the code then marks as removed or closes once more. The model has no value for such a use
  of freed memory. This holds for empty and for full directories.\<close>

theorem dir_remove_directory_uses_freed_inode:
  assumes "directory st d" and "dir_inode (dirs st d) = j" "deny_write_cnt (inodes (fsys st) j) = 0"
    and "0 \<notin> set nm" "dmap (dentries st d) nm = Some sn"
    and "\<forall>i \<in> set (open_inodes (fsys st)). sector (inodes (fsys st) i) \<noteq> sn" and "unat sn < fs_size (fsys st)"
    and "heap st = p # q # ps" "p \<noteq> NULL" "q \<noteq> NULL" "p \<noteq> j" "q \<noteq> d"
    and "is_dir (decode_inode (disk (fsys st) sn))" "file_ok (fsys st) (decode_inode (disk (fsys st) sn))"
    and "file_len (decode_inode (disk (fsys st) sn)) < 2 ^ 31"
  shows "dir_remove True d nm st = None"
proof -
  let ?c = "decode_inode (disk (fsys st) sn)" and ?s = "fsys st"
  obtain k where k: "lookup True d nm st = Some (Some (dentries st d ! k, 20 * k))" "inode_sector (dentries st d ! k) = sn"
    "1 \<le> k" "k < length (dentries st d)"
    by (rule lookup_dmap [OF assms(1,4,5)])
  define s1 where "s1 = ?s\<lparr>open_inodes := p # open_inodes ?s, freed := freed ?s - {p},
    inodes := (inodes ?s)(p := \<lparr>sector = sn, open_cnt = 1, removed = False, deny_write_cnt = 0, data = ?c\<rparr>)\<rparr>"
  define st1 where "st1 = st\<lparr>heap := q # ps, fsys := s1\<rparr>"
  have op: "open_sector sn st = Some (p, st1)"
  proof -
    have "find (\<lambda>i. sector (inodes ?s i) = sn) (open_inodes ?s) = None" using assms(6) by (auto simp: find_None_iff)
    then have "inode_open p sn ?s = Some (p, s1)"
      using assms(7,9) by (simp add: inode_open_def cache_read_def s1_def)
    then show ?thesis using assms(6,8) by (auto simp: open_sector_def alloc_def st1_def)
  qed
  have s1: "disk s1 = disk ?s" "fs_size s1 = fs_size ?s" "data (inodes s1 p) = ?c" "inodes s1 j = inodes ?s j" "p \<notin> freed s1"
    "open_cnt (inodes s1 p) = 1" "removed (inodes s1 p) = False"
    using assms(11) by (simp_all add: s1_def)
  have d0: "d \<noteq> NULL" "j \<notin> freed ?s" using assms(1,2) by (auto simp: directory_def dir_file_def)
  then have j1: "j \<notin> freed s1" by (simp add: s1_def)
  define st2 where "st2 = st1\<lparr>heap := ps, dirs := (dirs st)(q := \<lparr>dir_inode = p, dir_pos = int sizeof_entry\<rparr>)\<rparr>"
  have do: "dir_open True p st1 = Some (q, st2)"
    using assms(9,10) by (simp add: dir_open_def alloc_def st1_def st2_def)
  have "dir_file s1 p" using assms(14,15) s1 same_disk(3) [OF s1(1,2)] by (simp add: dir_file_def)
  moreover have "1 * 20 = (20 :: nat)" by simp
  ultimately obtain b where em: "dir_is_empty True q st2 = Some b"
  proof (cases "1 \<le> length (dir_entries s1 p)")
    case True
    then have "is_empty_loop True p (20 * 1) s1 = Some (\<forall>e \<in> set (drop 1 (dir_entries s1 p)). \<not> used e)"
      by (rule is_empty_loop_entries [OF \<open>dir_file s1 p\<close>])
    then show ?thesis using that assms(10) by (simp add: dir_is_empty_def st2_def st1_def sizeof_entry)
  next
    case False
    then have "length (dir_entries s1 p) \<le> 1" by linarith
    then obtain bs where "inode_read_at True p (int sizeof_entry) (int (20 * 1)) s1 = Some bs" "length bs < 20"
      by (rule read_end [OF \<open>dir_file s1 p\<close>])
    then have "is_empty_loop True p (20 * 1) s1 = Some True"
      by (subst is_empty_loop.simps) (simp add: sizeof_entry)
    then show ?thesis using that assms(10) by (simp add: dir_is_empty_def st2_def st1_def sizeof_entry)
  qed
  define s3 where "s3 = (upd_inode p (\<lambda>ino. ino\<lparr>open_cnt := open_cnt ino - 1\<rparr>) s1)\<lparr>open_inodes := remove1 p (open_inodes s1), freed := insert p (freed s1)\<rparr>"
  define st3 where "st3 = st2\<lparr>fsys := s3\<rparr>"
  have cl: "dir_close True q st2 = Some st3"
    using assms(9,10) s1(5-7)
    by (simp add: dir_close_def close_inode_def inode_close_def st2_def st1_def st3_def s3_def upd_inode_def)
  have mr: "may_remove True p st1 = Some (b, st3)"
    using do em cl s1(3) assms(13) by (simp add: may_remove_def inode_is_directory_def st1_def)
  have s3: "disk s3 = disk ?s" "fs_size s3 = fs_size ?s" "inodes s3 j = inodes ?s j" "j \<notin> freed s3" "p \<in> freed s3"
    using s1(1,2,4) j1 assms(11) by (simp_all add: s3_def upd_inode_def)
  have dd: "dirs st3 d = dirs st d" using assms(12) by (simp add: st3_def st2_def)
  have dir3: "directory st3 d" "dentries st3 d = dentries st d"
    using directory_frame [OF assms(1) dd assms(2)] s3 by (simp_all add: st3_def)
  define e where "e = (dentries st d ! k)\<lparr>in_use := 0\<rparr>"
  have e: "entry_ok e"
    using nth_entries k(4) entry_fits by (auto simp: e_def entry_ok_def decode_entry_def NAME_MAX_def nth_entries)
  have f3: "dir_file (fsys st3) j" using dir3(1) dd assms(2) by (simp add: directory_def)
  have k3: "k < length (dir_entries (fsys st3) j)" using k(4) dir3(2) dd assms(2) by (simp del: length_entries)
  have deny3: "deny_write_cnt (inodes (fsys st3) j) = 0" using s3(3) assms(3) by (simp add: st3_def)
  obtain s4 where s4: "write_entry True j e (int (20 * k)) st3 = Some (True, st3\<lparr>fsys := s4\<rparr>)" "s4 = (fsys st3)\<lparr>disk := disk s4\<rparr>"
    by (rule write_entry_inside [OF f3 k3 e deny3]) blast
  have "freed s4 = freed s3" by (subst s4(2)) (simp add: st3_def)
  then have "inode_remove p s4 = None" "inode_close True p s3 = None"
    using s3(5) assms(9) by (simp_all add: inode_remove_def inode_close_def kassert_def)
  then show ?thesis
    using d0(1) k(1,2) op mr s4(1) assms(2,9) dd
    by (cases b) (simp_all add: dir_remove_def e_def close_inode_def st3_def del: of_nat_mult)
qed

text \<open>The same with the name \<^verbatim>\<open>ab\<close> for a directory that is not open; its block is sector 80.\<close>

definition sample_sub_disk :: inode_disk where
  "sample_sub_disk = sample_dir_disk\<lparr>direct_blocks := 80 # replicate 122 0, file_len := 20\<rparr>"

definition sample_sub_dfs :: dfs where
  "sample_sub_dfs = (sample_dfs 1)\<lparr>fsys := (fsys (sample_dfs 1))\<lparr>
     disk := (disk (fsys (sample_dfs 1)))(70 := encode_inode sample_sub_disk), open_inodes := [10, 20]\<rparr>\<rparr>"

lemma sample_sub_directory: "directory sample_sub_dfs 5" "dmap (dentries sample_sub_dfs 5) = [[97, 98] \<mapsto> 70]"
proof -
  note dir = sample_directory [of 1, simplified]
  have "file_sectors (fsys (sample_dfs 1)) sample_dir_disk = {50}"
    using sample_sec by (simp add: file_sectors_def sample_dfs_simps index_sectors_direct lessThan_Suc)
  then have same: "\<And>x. x \<in> file_sectors (fsys (sample_dfs 1)) (data (inodes (fsys (sample_dfs 1)) 10)) \<Longrightarrow>
      disk (fsys sample_sub_dfs) x = disk (fsys (sample_dfs 1)) x"
    by (simp add: sample_dfs_simps sample_sub_dfs_def)
  have "dirs sample_sub_dfs 5 = dirs (sample_dfs 1) 5" "data (inodes (fsys sample_sub_dfs) 10) = data (inodes (fsys (sample_dfs 1)) 10)"
    "10 \<notin> freed (fsys sample_sub_dfs)" "fs_size (fsys sample_sub_dfs) = fs_size (fsys (sample_dfs 1))"
    by (simp_all add: sample_sub_dfs_def sample_dfs_simps)
  note fr = directory_frame [OF dir(1) this(1) sample_dfs_simps(4) this(2-4) same]
  show "directory sample_sub_dfs 5" by (rule fr(1))
  show "dmap (dentries sample_sub_dfs 5) = [[97, 98] \<mapsto> 70]" using dir(2) by (simp only: fr(2))
qed

theorem dir_remove_directory_uses_freed_inode_witness:
  "dmap (dentries sample_sub_dfs 5) [97, 98] = Some 70 \<and> dir_remove True 5 [97, 98] sample_sub_dfs = None"
proof -
  have l: "length (direct_blocks sample_sub_disk) = 123" "file_len sample_sub_disk = 20" "bytes_to_sectors 20 = 1" "is_dir sample_sub_disk"
    by (simp_all add: sample_sub_disk_def sample_dir_disk_def bytes_to_sectors_nat)
  then have dec: "decode_inode (disk (fsys sample_sub_dfs) 70) = sample_sub_disk"
    using decode_encode_inode [of sample_sub_disk] by (simp add: sample_sub_dfs_def block_sizes)
  have "sec (fsys sample_sub_dfs) sample_sub_disk 0 = 80" by (subst sec_direct) (simp_all add: sample_sub_disk_def)
  then have ok: "file_ok (fsys sample_sub_dfs) sample_sub_disk"
    using l by (simp add: file_ok_def index_sectors_direct Let_def inj_on_def) (simp add: sample_sub_dfs_def sample_dfs_def small_fs_def)
  have s: "heap sample_sub_dfs = [6, 12, 13]" "fs_size (fsys sample_sub_dfs) = 100" "dir_inode (dirs sample_sub_dfs 5) = 10"
    "deny_write_cnt (inodes (fsys sample_sub_dfs) 10) = 0"
    "\<forall>i \<in> set (open_inodes (fsys sample_sub_dfs)). sector (inodes (fsys sample_sub_dfs) i) \<noteq> 70"
    by (simp_all add: sample_sub_dfs_def sample_dfs_def small_fs_def)
  have n: "0 \<notin> set [97, 98 :: byte]" "dmap (dentries sample_sub_dfs 5) [97, 98] = Some 70"
    using sample_sub_directory(2) by simp_all
  have "dir_remove True 5 [97, 98] sample_sub_dfs = None"
    by (rule dir_remove_directory_uses_freed_inode [OF sample_sub_directory(1) s(3,4) n s(5) _ s(1)])
      (use ok dec l s in simp_all)
  with n(2) show ?thesis by simp
qed

text \<open>Repeated calls of \<^verbatim>\<open>dir_readdir\<close>.\<close>

primrec read_names :: "nat \<Rightarrow> addr \<Rightarrow> dfs \<Rightarrow> (byte list option list \<times> dfs) option" where
  "read_names 0 d st = Some ([], st)"
| "read_names (Suc n) d st = do { (r, st) \<leftarrow> dir_readdir True d st; (rs, st) \<leftarrow> read_names n d st; Some (r # rs, st) }"

lemma find_filter:
  "k \<le> length es \<Longrightarrow> (case find (\<lambda>j. P (es ! j)) [k..<length es] of
     None \<Rightarrow> filter P (drop k es) = []
   | Some j \<Rightarrow> k \<le> j \<and> j < length es \<and> filter P (drop k es) = es ! j # filter P (drop (Suc j) es))"
proof (induction rule: entries_induct)
  case past
  show ?case by simp
next
  case (step k)
  have "drop k es = es ! k # drop (Suc k) es" using step(1) by (rule Cons_nth_drop_Suc [symmetric])
  then show ?case using step by (auto simp: upt_conv_Cons simp del: upt_Suc split: option.splits)
qed

lemma read_names_from:
  assumes "directory st d" "dir_pos (dirs st d) = int (20 * k)" "1 \<le> k" "k \<le> length (dentries st d)"
    and "map ename (filter used (drop k (dentries st d))) = ns"
  shows "\<exists>st'. read_names (Suc (length ns)) d st = Some (map Some ns @ [None], st') \<and> st' = st\<lparr>dirs := dirs st'\<rparr>"
  using assms
proof (induction ns arbitrary: st k)
  case Nil
  let ?es = "dentries st d"
  have f: "dir_file (fsys st) (dir_inode (dirs st d))" and wf: "dir_wf ?es" and d: "d \<noteq> NULL"
    using Nil.prems(1) by (simp_all add: directory_def)
  have "find (\<lambda>j. used (?es ! j)) [k..<length ?es] = None"
    using find_filter [OF Nil.prems(4), of used] Nil.prems(5) by (auto split: option.splits)
  then have "readdir_loop True (dir_inode (dirs st d)) (dir_pos (dirs st d)) (fsys st) = Some (None, int (20 * length ?es))"
    using readdir_loop_entries [OF f dir_wfD(3) [OF wf] Nil.prems(4)] Nil.prems(2,3) by (simp only: option.case simp_thms)
  then show ?case using d by (auto simp: dir_readdir_def)
next
  case (Cons nm ns)
  let ?es = "dentries st d" and ?i = "dir_inode (dirs st d)"
  have f: "dir_file (fsys st) ?i" and wf: "dir_wf ?es" and d: "d \<noteq> NULL"
    using Cons.prems(1) by (simp_all add: directory_def)
  obtain j where j: "find (\<lambda>j. used (?es ! j)) [k..<length ?es] = Some j" "k \<le> j" "j < length ?es"
    "filter used (drop k ?es) = ?es ! j # filter used (drop (Suc j) ?es)"
    using find_filter [OF Cons.prems(4), of used] Cons.prems(5) by (auto split: option.splits)
  have nm: "ename (?es ! j) = nm" "map ename (filter used (drop (Suc j) ?es)) = ns" using Cons.prems(5) unfolding j(4) by simp_all
  have r: "readdir_loop True ?i (dir_pos (dirs st d)) (fsys st) = Some (Some nm, int (20 * Suc j))"
    using readdir_loop_entries [OF f dir_wfD(3) [OF wf] Cons.prems(4)] Cons.prems(2,3) j(1) nm(1) by (simp only: option.case simp_thms)
  define st1 where "st1 = st\<lparr>dirs := (dirs st)(d := (dirs st d)\<lparr>dir_pos := int (20 * Suc j)\<rparr>)\<rparr>"
  have rd: "dir_readdir True d st = Some (Some nm, st1)"
    using r d by (simp add: dir_readdir_def st1_def del: of_nat_mult)
  have e1: "dentries st1 d = ?es" by (simp add: st1_def)
  have "directory st1 d" using Cons.prems(1) by (simp add: directory_def st1_def)
  moreover have "dir_pos (dirs st1 d) = int (20 * Suc j)" by (simp add: st1_def)
  moreover have "1 \<le> Suc j" "Suc j \<le> length (dentries st1 d)" using j(3) unfolding e1 by simp_all
  ultimately obtain st' where "read_names (Suc (length ns)) d st1 = Some (map Some ns @ [None], st')" "st' = st1\<lparr>dirs := dirs st'\<rparr>"
    using Cons.IH [of st1 "Suc j"] nm(2) unfolding e1 by blast
  moreover from this(2) have "st' = st\<lparr>dirs := dirs st'\<rparr>" by (simp add: st1_def)
  ultimately show ?case using rd by (intro exI [of _ st']) (simp only: read_names.simps list.map append_Cons length_Cons Option.bind.simps prod.case)
qed

lemma distinct_map_filter:
  "(\<And>i j. i < length xs \<Longrightarrow> j < length xs \<Longrightarrow> P (xs ! i) \<Longrightarrow> P (xs ! j) \<Longrightarrow> f (xs ! i) = f (xs ! j) \<Longrightarrow> i = j) \<Longrightarrow>
    distinct (map f (filter P xs))"
proof (induction xs)
  case (Cons x xs)
  have "i = j" if "i < length xs" "j < length xs" "P (xs ! i)" "P (xs ! j)" "f (xs ! i) = f (xs ! j)" for i j
    using Cons.prems [of "Suc i" "Suc j"] that by simp
  then have "distinct (map f (filter P xs))" by (rule Cons.IH)
  moreover have "f x \<notin> f ` set (filter P xs)" if "P x"
  proof
    assume "f x \<in> f ` set (filter P xs)"
    then obtain j where "j < length xs" "P (xs ! j)" "f x = f (xs ! j)" by (auto simp: in_set_conv_nth)
    then show False using Cons.prems [of 0 "Suc j"] that by simp
  qed
  ultimately show ?case by simp
qed simp

text \<open>Repeated calls of \<^verbatim>\<open>dir_readdir\<close> on a newly opened directory return the names in use, each once
  and in the order of the slots, and then report that there are no more; nothing but the position of
  the directory changes. These are the names of the finite map that \<^verbatim>\<open>lookup\<close> searches.\<close>

theorem dir_readdir_lists_names:
  assumes "directory st d" and "dir_pos (dirs st d) = int sizeof_entry"
    and "ns = map ename (filter used (tl (dentries st d)))"
  shows "(\<exists>st'. read_names (Suc (length ns)) d st = Some (map Some ns @ [None], st') \<and> st' = st\<lparr>dirs := dirs st'\<rparr>) \<and>
    distinct ns \<and> set ns = dom (dmap (dentries st d))"
proof (intro conjI)
  let ?es = "dentries st d"
  have wf: "dir_wf ?es" using assms(1) by (simp add: directory_def)
  have one: "dir_pos (dirs st d) = int (20 * 1)" using assms(2) by (simp add: sizeof_entry)
  show "\<exists>st'. read_names (Suc (length ns)) d st = Some (map Some ns @ [None], st') \<and> st' = st\<lparr>dirs := dirs st'\<rparr>"
    by (rule read_names_from [OF assms(1) one le_refl directory_len [OF assms(1)]]) (simp add: assms(3) drop_Suc)
  obtain e es where es: "?es = e # es" using dir_wfD(1) [OF wf] by (cases ?es) auto
  have inj: "i = j" if "i < length es" "j < length es" "used (es ! i)" "used (es ! j)" "ename (es ! i) = ename (es ! j)" for i j
    using dir_wfD(4) [OF wf, of "Suc i" "Suc j"] that unfolding es by simp
  show "set ns = dom (dmap ?es)"
  proof (intro set_eqI)
    fix nm
    have "nm \<in> set ns \<longleftrightarrow> (\<exists>k < length es. used (es ! k) \<and> ename (es ! k) = nm)"
      unfolding assms(3) es by (auto simp: in_set_conv_nth image_iff) 
    also have "\<dots> \<longleftrightarrow> dmap ?es nm \<noteq> None"
      unfolding dmap_None_iff es by (auto simp: less_Suc_eq_0_disj Suc_le_eq gr0_conv_Suc)
    finally show "nm \<in> set ns \<longleftrightarrow> nm \<in> dom (dmap ?es)" by auto
  qed
  show "distinct ns" unfolding assms(3) es list.sel by (rule distinct_map_filter) (use inj in blast)
qed

theorem dir_readdir_lists_names_witness:
  "\<exists>st'. read_names 2 5 (sample_dfs 1) = Some ([Some [97, 98], None], st')"
proof -
  have "map ename (filter used (tl (dentries (sample_dfs 1) 5))) = [[97, 98]]"
    unfolding sample_dentries by (simp add: sample_entries_def used_def ename_def) (simp add: sample_entry_def sample_slot_def)
  moreover have "dir_pos (dirs (sample_dfs 1) 5) = int sizeof_entry" by (simp add: sample_dfs_def sizeof_entry)
  ultimately show ?thesis
    using dir_readdir_lists_names [OF sample_directory(1) [of 1, simplified], of "[[97, 98]]"] by (auto simp: numeral_2_eq_2)
qed

end
