(* ===== verification/Filesys.thy ===== *)
theory Filesys
  imports DirectoryData
begin

text \<open>
  Path names and the operations of \<^verbatim>\<open>filesys/filesys.c\<close> on them: how a path is split, for which paths
  the buffers of the code are too short, and that a file created in the root directory can be opened
  and read.
\<close>

section \<open>Tokens\<close>

lemma tokens_rest:
  assumes "dropWhile (\<lambda>c. c \<in> set ds) cs = rest" "rest \<noteq> []"
  shows "tokens ds cs = takeWhile (\<lambda>c. c \<notin> set ds) rest # tokens ds (dropWhile (\<lambda>c. c \<notin> set ds) rest)"
  using assms by (subst tokens.simps) simp

lemma tokens_none: "dropWhile (\<lambda>c. c \<in> set ds) cs = [] \<Longrightarrow> tokens ds cs = []"
  by (subst tokens.simps) simp

lemma hd_rest: "dropWhile P cs = rest \<Longrightarrow> rest \<noteq> [] \<Longrightarrow> \<not> P (hd rest)"
  using hd_dropWhile by blast

lemma tokens_member: "t \<in> set (tokens ds cs) \<Longrightarrow> t \<noteq> [] \<and> set t \<inter> set ds = {}"
proof (induction ds cs rule: tokens.induct)
  case (1 ds cs)
  define rest where "rest = dropWhile (\<lambda>c. c \<in> set ds) cs"
  show ?case
  proof (cases "rest = []")
    case True
    then show ?thesis using 1 tokens_none [of ds cs] by (simp add: rest_def)
  next
    case False
    note h = hd_rest [OF rest_def [symmetric] False]
    then have "takeWhile (\<lambda>c. c \<notin> set ds) rest \<noteq> []" using False by (cases rest) auto
    moreover have "set (takeWhile (\<lambda>c. c \<notin> set ds) rest) \<inter> set ds = {}" by (auto dest: set_takeWhileD)
    ultimately show ?thesis
      using 1 False tokens_rest [OF rest_def [symmetric] False] by (auto simp: rest_def)
  qed
qed

text \<open>The tokens have all characters but the delimiters.\<close>

lemma concat_tokens: "concat (tokens ds cs) = filter (\<lambda>c. c \<notin> set ds) cs"
proof (induction ds cs rule: tokens.induct)
  case (1 ds cs)
  define rest where "rest = dropWhile (\<lambda>c. c \<in> set ds) cs"
  have cs: "cs = takeWhile (\<lambda>c. c \<in> set ds) cs @ rest" by (simp add: rest_def)
  have "filter (\<lambda>c. c \<notin> set ds) (takeWhile (\<lambda>c. c \<in> set ds) cs) = []"
    by (auto simp: filter_empty_conv dest: set_takeWhileD)
  then have f: "filter (\<lambda>c. c \<notin> set ds) cs = filter (\<lambda>c. c \<notin> set ds) rest" by (subst cs) simp
  show ?case
  proof (cases "rest = []")
    case True
    then show ?thesis using f tokens_none [of ds cs] by (simp add: rest_def)
  next
    case False
    have "filter (\<lambda>c. c \<notin> set ds) rest =
        takeWhile (\<lambda>c. c \<notin> set ds) rest @ filter (\<lambda>c. c \<notin> set ds) (dropWhile (\<lambda>c. c \<notin> set ds) rest)"
      by (induction rest) auto
    then show ?thesis using 1 False f tokens_rest [OF rest_def [symmetric] False] by (simp add: rest_def)
  qed
qed

text \<open>Between two tokens there is a delimiter.\<close>

lemma length_tokens: "length (concat (tokens ds cs)) + length (tokens ds cs) \<le> length cs + (if cs \<noteq> [] \<and> hd cs \<in> set ds then 0 else 1)"
proof (induction ds cs rule: tokens.induct)
  case (1 ds cs)
  define pre where "pre = takeWhile (\<lambda>c. c \<in> set ds) cs"
  define rest where "rest = dropWhile (\<lambda>c. c \<in> set ds) cs"
  define t where "t = takeWhile (\<lambda>c. c \<notin> set ds) rest"
  define rest2 where "rest2 = dropWhile (\<lambda>c. c \<notin> set ds) rest"
  have cs: "cs = pre @ rest" by (simp add: pre_def rest_def)
  show ?case
  proof (cases "rest = []")
    case True
    then show ?thesis using tokens_none [of ds cs] by (simp add: rest_def)
  next
    case False
    have tk: "tokens ds cs = t # tokens ds rest2" using tokens_rest [OF rest_def [symmetric] False] by (simp add: t_def rest2_def)
    have lr: "length rest = length t + length rest2"
      by (metis length_append t_def rest2_def takeWhile_dropWhile_id)
    have pre: "pre \<noteq> []" if "cs \<noteq> [] \<and> hd cs \<in> set ds" using that unfolding pre_def by (cases cs) auto
    have IH: "length (concat (tokens ds rest2)) + length (tokens ds rest2) \<le> length rest2 + (if rest2 \<noteq> [] \<and> hd rest2 \<in> set ds then 0 else 1)"
      using 1 False by (simp add: rest_def rest2_def)
    have "tokens ds [] = []" by (rule tokens_none) simp
    moreover have "hd rest2 \<in> set ds" if "rest2 \<noteq> []" using hd_rest [OF rest2_def [symmetric] that] by simp
    ultimately have "length (concat (tokens ds rest2)) + length (tokens ds rest2) \<le> length rest2"
      using IH by (cases "rest2 = []") auto
    moreover have "length cs = length pre + length rest" by (simp add: cs)
    moreover have "1 \<le> length pre" if "cs \<noteq> [] \<and> hd cs \<in> set ds" using pre [OF that] by (cases pre) simp_all
    ultimately show ?thesis using lr unfolding tk by (cases "cs \<noteq> [] \<and> hd cs \<in> set ds") auto
  qed
qed

lemma takeWhile_ends: "set t \<inter> set ds = {} \<Longrightarrow> s \<in> set ds \<Longrightarrow> takeWhile (\<lambda>c. c \<notin> set ds) (t @ s # cs) = t"
  by (induction t) auto

lemma dropWhile_ends: "set t \<inter> set ds = {} \<Longrightarrow> s \<in> set ds \<Longrightarrow> dropWhile (\<lambda>c. c \<notin> set ds) (t @ s # cs) = s # cs"
  by (induction t) auto

text \<open>Tokens that are put together again.\<close>

lemma tokens_concat:
  assumes "s \<in> set ds" "\<forall>t \<in> set ts. t \<noteq> [] \<and> set t \<inter> set ds = {}"
  shows "tokens ds (concat (map (\<lambda>t. t @ [s]) ts)) = ts"
  using assms(2)
proof (induction ts)
  case Nil
  show ?case by (simp add: tokens_none)
next
  case (Cons t ts)
  let ?r = "concat (map (\<lambda>t. t @ [s]) ts)"
  have t: "set t \<inter> set ds = {}" "t \<noteq> []" using Cons.prems by auto
  then have "dropWhile (\<lambda>c. c \<in> set ds) (t @ s # ?r) = t @ s # ?r" by (cases t) auto
  then have "tokens ds (t @ s # ?r) = t # tokens ds (s # ?r)"
    using takeWhile_ends [OF t(1) assms(1)] dropWhile_ends [OF t(1) assms(1)] tokens_rest [of ds "t @ s # ?r"] by simp
  then show ?case using Cons tokens_delim [OF assms(1)] by simp
qed

section \<open>Splitting a path\<close>

definition is_absolute :: "byte list \<Rightarrow> bool" where
  "is_absolute path \<longleftrightarrow> path \<noteq> [] \<and> hd path = slash"

lemma split_loop_eq:
  assumes "\<forall>t \<in> set ts. t \<noteq> []"
  shows "split_loop dir l ts = (if ts = [] then (dir, l)
    else (dir @ (if l = [] then [] else l @ [slash]) @ concat (map (\<lambda>t. t @ [slash]) (butlast ts)), last ts))"
  using assms by (induction ts arbitrary: dir l) auto

lemma split_path_eq:
  "split_path_filename path =
    ((if is_absolute path then [slash] else []) @ concat (map (\<lambda>t. t @ [slash]) (butlast (tokens [slash] path))),
     if tokens [slash] path = [] then [] else last (tokens [slash] path))"
  using tokens_member [of _ "[slash]" path] by (simp add: split_path_filename_def split_loop_eq is_absolute_def)

lemma length_concat_slash: "length (concat (map (\<lambda>t. t @ [s]) ts)) = length (concat ts) + length ts"
  by (induction ts) auto

lemma split_lengths:
  assumes "split_path_filename path = (dn, file_name)"
  shows "length dn + length file_name \<le> length path"
    "length file_name < length path \<longleftrightarrow> slash \<in> set path"
    "file_name = [] \<Longrightarrow> length dn = (if is_absolute path then 1 else 0)"
proof -
  let ?ts = "tokens [slash] path"
  have c: "length (concat ?ts) = length (filter (\<lambda>c. c \<noteq> slash) path)" by (simp add: concat_tokens)
  show "file_name = [] \<Longrightarrow> length dn = (if is_absolute path then 1 else 0)"
    using assms tokens_member [of _ "[slash]" path] unfolding split_path_eq by (cases ?ts rule: rev_cases) auto
  show "length dn + length file_name \<le> length path" 
  proof (cases ?ts rule: rev_cases)
    case Nil
    then show ?thesis using assms unfolding split_path_eq by (auto simp: is_absolute_def Suc_le_eq)
  next
    case (snoc ts t)
    then have "dn = (if is_absolute path then [slash] else []) @ concat (map (\<lambda>t. t @ [slash]) ts)" "file_name = t"
      using assms unfolding split_path_eq by auto
    then have "length dn + length file_name + 1 = (if is_absolute path then 1 else 0) + length (concat ?ts) + length ?ts"
      using snoc by (simp add: length_concat_slash)
    then show ?thesis using length_tokens [of "[slash]" path] by (simp add: is_absolute_def split: if_splits)
  qed
  show "length file_name < length path \<longleftrightarrow> slash \<in> set path"
  proof
    assume "slash \<in> set path"
    then have "length (filter (\<lambda>c. c \<noteq> slash) path) < length path" by (intro length_filter_less [of slash]) auto
    moreover have "length file_name \<le> length (concat ?ts)"
      using assms unfolding split_path_eq by (cases ?ts rule: rev_cases) auto
    ultimately show "length file_name < length path" using c by simp
  next
    assume l: "length file_name < length path"
    show "slash \<in> set path"
    proof (rule ccontr)
      assume n: "slash \<notin> set path"
      have "path \<noteq> []" using l by auto
      moreover have "dropWhile (\<lambda>c. c \<in> set [slash]) path = path" using n \<open>path \<noteq> []\<close> by (cases path) auto
      ultimately have "?ts = takeWhile (\<lambda>c. c \<notin> set [slash]) path # tokens [slash] (dropWhile (\<lambda>c. c \<notin> set [slash]) path)"
        by (rule tokens_rest [rotated])
      moreover have "takeWhile (\<lambda>c. c \<notin> set [slash]) path = path" "dropWhile (\<lambda>c. c \<notin> set [slash]) path = []"
        using n by (auto intro: takeWhile_eq_all_conv [THEN iffD2])
      moreover have "tokens [slash] [] = []" by (simp add: tokens_none)
      ultimately have "?ts = [path]" by metis
      then have "file_name = path" using assms unfolding split_path_eq by simp
      with l show False by simp
    qed
  qed
qed

text \<open>\<^verbatim>\<open>split_path_filename\<close> loses no component: the components of a path are those of the directory
  followed by the file name, which has no slash, and the directory is absolute if the path is. Buffers
  of one byte more than the path always hold both results, as in \<^verbatim>\<open>filesys_open\<close>. The buffers of
  \<^verbatim>\<open>filesys_create\<close> and \<^verbatim>\<open>filesys_remove\<close>, which are as long as the path, are written past their end
  exactly for the paths without a slash and for the path of the root directory.\<close>

theorem split_path_filename_correct:
  "\<exists>dn file_name. split_path_filename path = (dn, file_name) \<and>
    tokens [slash] path = tokens [slash] dn @ (if file_name = [] then [] else [file_name]) \<and>
    slash \<notin> set file_name \<and> is_absolute dn = is_absolute path \<and>
    split_into (length path + 1) path = Some (dn, file_name) \<and>
    (split_into (length path) path = None \<longleftrightarrow> slash \<notin> set path \<or> path = [slash]) \<and>
    (slash \<notin> set path \<or> path = [slash] \<longrightarrow>
      filesys_create mem junk path sz isd st = None \<and> filesys_remove mem junk path st = None)"
proof -
  obtain dn file_name where sp: "split_path_filename path = (dn, file_name)" by force
  let ?ts = "tokens [slash] path" and ?p = "if is_absolute path then [slash] else []"
  note m = tokens_member [of _ "[slash]" path]
  note len = split_lengths [OF sp]
  have d: "dn = ?p @ concat (map (\<lambda>t. t @ [slash]) (butlast ?ts))" and f: "file_name = (if ?ts = [] then [] else last ?ts)"
    using sp unfolding split_path_eq by auto
  have tc: "tokens [slash] (concat (map (\<lambda>t. t @ [slash]) (butlast ?ts))) = butlast ?ts"
    by (rule tokens_concat) (use m in \<open>auto dest: in_set_butlastD\<close>)
  then have td: "tokens [slash] dn = butlast ?ts" using d tokens_delim [of slash "[slash]"] by simp
  have fe: "file_name = [] \<longleftrightarrow> ?ts = []" using f m last_in_set by auto
  have "?ts = tokens [slash] dn @ (if file_name = [] then [] else [file_name])"
    using td f fe by (cases ?ts rule: rev_cases) auto
  moreover have "slash \<notin> set file_name" using f m last_in_set by (cases "?ts = []") force+
  moreover have "is_absolute dn = is_absolute path"
  proof (cases "is_absolute path")
    case True
    then show ?thesis using d by (simp add: is_absolute_def)
  next
    case False
    have "hd (concat (map (\<lambda>t. t @ [slash]) ts)) \<noteq> slash" if "\<forall>t \<in> set ts. t \<noteq> [] \<and> slash \<notin> set t" "ts \<noteq> []" for ts
    proof -
      obtain t us where "ts = t # us" using \<open>ts \<noteq> []\<close> by (cases ts) auto
      moreover from this have "slash \<notin> set t" "t \<noteq> []" using that(1) by auto
      moreover from this have "hd t \<noteq> slash" by (metis hd_in_set)
      ultimately show ?thesis by auto
    qed
    moreover have "\<forall>t \<in> set (butlast ?ts). t \<noteq> [] \<and> slash \<notin> set t" using m by (fastforce dest: in_set_butlastD)
    ultimately show ?thesis using False d by (cases "butlast ?ts = []") (auto simp: is_absolute_def)
  qed
  moreover have "split_into (length path + 1) path = Some (dn, file_name)"
    using sp len(1) by (simp add: split_into_def kassert_def)
  moreover have none: "split_into (length path) path = None \<longleftrightarrow> slash \<notin> set path \<or> path = [slash]"
  proof -
    have "length dn < length path \<longleftrightarrow> path \<noteq> [slash]" if s: "slash \<in> set path"
    proof (cases "file_name = []")
      case True
      have "length dn = (if is_absolute path then 1 else 0)" by (rule len(3) [OF True])
      then show ?thesis using s by (cases path) (auto simp: is_absolute_def)
    next
      case False
      have "length dn < length path" using len(1) False by (cases file_name) auto
      moreover have "path \<noteq> [slash]"
      proof
        assume "path = [slash]"
        then have "?ts = []" by (simp add: tokens_none)
        then show False using False fe by simp
      qed
      ultimately show ?thesis by simp
    qed
    then show ?thesis using sp len(2) by (auto simp: split_into_def kassert_def)
  qed
  moreover have "slash \<notin> set path \<or> path = [slash] \<longrightarrow>
      filesys_create mem junk path sz isd st = None \<and> filesys_remove mem junk path st = None"
  proof
    assume "slash \<notin> set path \<or> path = [slash]"
    then have "split_into (length path) path = None" using none by simp
    then show "filesys_create mem junk path sz isd st = None \<and> filesys_remove mem junk path st = None"
      by (simp add: filesys_create_def filesys_remove_def)
  qed
  ultimately show ?thesis using sp by - (rule exI [of _ dn], rule exI [of _ file_name], simp only: simp_thms)
qed

theorem split_path_filename_correct_witness:
  "split_into 1 [97] = None \<and> filesys_create True (sample_slot 0) [97] 0 False (sample_dfs 1) = None"
  using split_path_filename_correct [of "[97]" True "sample_slot 0" 0 False "sample_dfs 1"] by (auto simp: slash_def)

section \<open>The root directory\<close>

text \<open>The root directory is open at \<open>r\<close>, as it is while a thread works in it.\<close>

definition root_open :: "dfs \<Rightarrow> addr \<Rightarrow> bool" where
  "root_open st r \<longleftrightarrow> find (\<lambda>i. sector (inodes (fsys st) i) = ROOT_DIR_SECTOR) (open_inodes (fsys st)) = Some r \<and>
     r \<noteq> NULL \<and> r \<notin> freed (fsys st) \<and> 1 \<le> open_cnt (inodes (fsys st) r) \<and> \<not> removed (inodes (fsys st) r)"

lemma root_openD:
  assumes "root_open st r"
  shows "find (\<lambda>i. sector (inodes (fsys st) i) = ROOT_DIR_SECTOR) (open_inodes (fsys st)) = Some r" "r \<noteq> NULL" "r \<notin> freed (fsys st)"
    "1 \<le> open_cnt (inodes (fsys st) r)" "\<not> removed (inodes (fsys st) r)"
  using assms unfolding root_open_def by auto

definition open_root :: "dfs \<Rightarrow> addr \<Rightarrow> addr \<Rightarrow> addr list \<Rightarrow> dfs" where
  "open_root st r d hs = st\<lparr>fsys := inode_reopen r (fsys st), heap := hs,
     dirs := (dirs st)(d := \<lparr>dir_inode = r, dir_pos = int sizeof_entry\<rparr>)\<rparr>"

lemma dir_open_path_root:
  assumes r: "root_open st r" and h: "heap st = d # hs" "d \<noteq> NULL"
  shows "dir_open_path True junk [slash] st = Some (d, open_root st r d hs)"
proof -
  note r = root_openD [OF r]
  have "\<exists>i \<in> set (open_inodes (fsys st)). sector (inodes (fsys st) i) = ROOT_DIR_SECTOR" using r(1) by (auto simp: find_Some_iff)
  then have "open_sector ROOT_DIR_SECTOR st = Some (r, st\<lparr>fsys := inode_reopen r (fsys st)\<rparr>)"
    using r(1) by (simp add: open_sector_def inode_open_def)
  moreover have "dir_open True r (st\<lparr>fsys := inode_reopen r (fsys st)\<rparr>) = Some (d, open_root st r d hs)"
    using h r(2) by (cases st) (simp add: dir_open_def alloc_def open_root_def)
  ultimately have "dir_open_root True st = Some (d, open_root st r d hs)" by (simp add: dir_open_root_def)
  moreover have "tokens [slash] [slash] = []" by (simp add: tokens_none)
  moreover have "\<not> inode_is_removed r (fsys (open_root st r d hs))"
    using r(2,5) by (simp add: inode_is_removed_def open_root_def inode_reopen_def upd_inode_def)
  ultimately show ?thesis using h(2) by (simp add: dir_open_path_def dir_get_inode_def open_root_def)
qed

lemma inode_reopen_simps:
  "disk (inode_reopen r s) = disk s" "fs_size (inode_reopen r s) = fs_size s" "freed (inode_reopen r s) = freed s"
  "data (inodes (inode_reopen r s) i) = data (inodes s i)" "sector (inodes (inode_reopen r s) i) = sector (inodes s i)"
  "deny_write_cnt (inodes (inode_reopen r s) i) = deny_write_cnt (inodes s i)" "open_inodes (inode_reopen r s) = open_inodes s"
  "removed (inodes (inode_reopen r s) i) = removed (inodes s i)" "free_map_file (inode_reopen r s) = free_map_file s"
  "files (inode_reopen r s) = files s" "free_map (inode_reopen r s) = free_map s"
  by (auto simp: inode_reopen_def upd_inode_def)

lemma split_in_root:
  assumes "nm \<noteq> []" "slash \<notin> set nm"
  shows "split_into (length (slash # nm)) (slash # nm) = Some ([slash], nm)" "split_into (length (slash # nm) + 1) (slash # nm) = Some ([slash], nm)"
proof -
  have d: "dropWhile (\<lambda>c. c \<in> set [slash]) nm = nm" using assms by (cases nm) auto
  have "tokens [slash] nm = takeWhile (\<lambda>c. c \<notin> set [slash]) nm # tokens [slash] (dropWhile (\<lambda>c. c \<notin> set [slash]) nm)"
    by (rule tokens_rest [OF d assms(1)])
  moreover have "takeWhile (\<lambda>c. c \<notin> set [slash]) nm = nm" "dropWhile (\<lambda>c. c \<notin> set [slash]) nm = []"
    using assms by (auto intro: takeWhile_eq_all_conv [THEN iffD2])
  moreover have "tokens [slash] [] = []" by (simp add: tokens_none)
  ultimately have "tokens [slash] nm = [nm]" by metis
  then have "tokens [slash] (slash # nm) = [nm]" using tokens_delim [of slash "[slash]" nm] by simp
  then have "split_path_filename (slash # nm) = ([slash], nm)" by (simp add: split_path_eq is_absolute_def)
  then show "split_into (length (slash # nm)) (slash # nm) = Some ([slash], nm)" "split_into (length (slash # nm) + 1) (slash # nm) = Some ([slash], nm)"
    using assms(1) by (simp_all add: split_into_def)
qed

text \<open>The state in which a file can be created: the free map is in order, the root directory is
  well-formed, its file is one of direct blocks, and every open inode has a marked sector.\<close>

definition root_ok :: "dfs \<Rightarrow> addr \<Rightarrow> bool" where
  "root_ok st r \<longleftrightarrow> root_open st r \<and> free_map_ok (fsys st) \<and> r \<noteq> fm_inode (fsys st) \<and> dir_file (fsys st) r \<and>
     dir_wf (dir_entries (fsys st) r) \<and> direct_ok (fsys st) (data (inodes (fsys st) r)) \<and> deny_write_cnt (inodes (fsys st) r) = 0 \<and>
     (\<forall>i \<in> set (open_inodes (fsys st)). sector (inodes (fsys st) i) \<in> used_sectors (fsys st))"

lemma root_okD:
  assumes "root_ok st r"
  shows "root_open st r" "free_map_ok (fsys st)" "r \<noteq> fm_inode (fsys st)" "dir_file (fsys st) r"
    "dir_wf (dir_entries (fsys st) r)" "direct_ok (fsys st) (data (inodes (fsys st) r))" "deny_write_cnt (inodes (fsys st) r) = 0"
    "i \<in> set (open_inodes (fsys st)) \<Longrightarrow> sector (inodes (fsys st) i) \<in> used_sectors (fsys st)"
  using assms unfolding root_ok_def by auto

lemma directory_blocks: "direct_ok s d \<Longrightarrow> file_sectors s d = blocks_of d"
proof -
  assume d: "direct_ok s d"
  let ?n = "bytes_to_sectors (file_len d)"
  have "sec s d ` {..<?n} = (!) (direct_blocks d) ` {..<?n}"
    by (rule image_cong) (use direct_okD(2) [OF d] sec_direct in auto)
  then show ?thesis using index_sectors_direct [OF direct_okD(2) [OF d]] by (simp add: file_sectors_def blocks_of_def)
qed

lemma filesys_create_in_root:
  assumes ok: "root_ok st r" and h: "heap st = d # c # hs" "d \<noteq> NULL" "c \<noteq> NULL"
    and nm: "nm \<noteq> []" "slash \<notin> set nm" "0 \<notin> set nm" "length nm \<le> NAME_MAX" and junk: "entry_ok junk"
    and new: "dmap (dir_entries (fsys st) r) nm = None" and slot: "\<exists>e \<in> set (dir_entries (fsys st) r). \<not> used e"
    and sz: "0 \<le> sz" "bytes_to_sectors sz \<le> 123" "bytes_to_sectors sz < card (free_sectors (fsys st))"
  obtains e dd s' where "filesys_create True junk (slash # nm) sz False st =
      Some (True, st\<lparr>fsys := s', heap := hs, dirs := (dirs st)(d := \<lparr>dir_inode = r, dir_pos = int sizeof_entry\<rparr>)\<rparr>)"
    "root_ok (st\<lparr>fsys := s', heap := hs, dirs := (dirs st)(d := \<lparr>dir_inode = r, dir_pos = int sizeof_entry\<rparr>)\<rparr>) r"
    "e \<in> free_sectors (fsys st)" "disk s' e = encode_inode dd" "file_len dd = sz" "\<not> is_dir dd" "direct_ok s' dd"
    "contents s' dd = replicate (nat sz) 0" "blocks_of dd \<subseteq> free_sectors (fsys st)"
    "dmap (dir_entries s' r) = (dmap (dir_entries (fsys st) r))(nm \<mapsto> e)"
    "used_sectors s' = insert e (used_sectors (fsys st) \<union> blocks_of dd)" "open_inodes s' = open_inodes (fsys st)"
    "inodes s' = inodes (fsys st)" "freed s' = freed (fsys st)" "fs_size s' = fs_size (fsys st)"
proof -
  let ?s = "fsys st" and ?d = "data (inodes (fsys st) r)"
  note rt = root_okD [OF ok] and ro = root_openD [OF root_okD(1) [OF ok]]
  define st1 where "st1 = open_root st r d (c # hs)"
  define s1 where "s1 = inode_reopen r ?s"
  have op: "dir_open_path True junk [slash] st = Some (d, st1)"
    unfolding st1_def by (rule dir_open_path_root [OF rt(1) h(1,2)])
  have s1u: "s1 = upd_inode r (\<lambda>ino. ino\<lparr>open_cnt := open_cnt ino + 1\<rparr>) ?s" using ro(2) by (simp add: s1_def inode_reopen_def)
  note up = upd_other_inode [OF disjI1 [OF rt(3)], of "\<lambda>ino. ino\<lparr>open_cnt := open_cnt ino + 1\<rparr>", folded s1u]
  have fr1: "free_sectors s1 = free_sectors ?s" by (simp add: free_sectors_def up(3)) (simp add: s1_def inode_reopen_simps)
  have ok1: "free_map_ok s1" using up(1) rt(2) by simp
  have ne: "free_sectors s1 \<noteq> {}" using sz(3) fr1 by auto
  obtain e s2 where a: "free_map_allocate True 1 s1 = Some (Some e, s2)" "s2 = s1\<lparr>free_map := free_map s2, disk := disk s2\<rparr>"
    "free_map_ok s2" "fm_sectors s2 = fm_sectors s1" "e \<in> free_sectors s1" "used_sectors s2 = insert e (used_sectors s1)"
    "bit_cnt (free_map s2) = bit_cnt (free_map s1)" "\<And>x. x \<notin> fm_sectors s1 \<Longrightarrow> disk s2 x = disk s1 x"
    by (rule free_map_allocate_ok [OF ok1 ne]) blast
  have e: "e \<notin> used_sectors ?s" "e \<notin> fm_sectors ?s" "e \<noteq> 0"
    using a(5) up(2,3) free_map_okD(4,5) [OF rt(2)] by (auto simp: free_sectors_def)
  have "free_sectors s2 = free_sectors s1 - {e}" using a(6,7) by (auto simp: free_sectors_def)
  then have "card (free_sectors s2) = card (free_sectors ?s) - 1" "free_sectors s2 \<subseteq> free_sectors ?s - {e}" using a(5) fr1 by auto
  then have "bytes_to_sectors sz \<le> card (free_sectors s2)" using sz(3) by simp
  moreover have "e \<in> used_sectors s2 - fm_sectors s2" using a(4,6) up(2) e(2) by auto
  ultimately obtain dd s3 where c: "inode_create True True e sz False s2 = Some (True, s3)"
    "s3 = s2\<lparr>free_map := free_map s3, disk := disk s3\<rparr>" "free_map_ok s3" "fm_sectors s3 = fm_sectors s2"
    "disk s3 e = encode_inode dd" "file_len dd = sz" "is_dir dd = False" "direct_ok s3 dd" "contents s3 dd = replicate (nat sz) 0"
    "blocks_of dd \<subseteq> free_sectors s2" "used_sectors s3 = used_sectors s2 \<union> blocks_of dd"
    "\<And>x. x \<notin> fm_sectors s2 \<union> blocks_of dd \<union> {e} \<Longrightarrow> disk s3 x = disk s2 x"
    by (rule inode_create_small [OF a(3) sz(1,2)]) blast
  define st3 where "st3 = st1\<lparr>heap := hs, fsys := s3\<rparr>"
  have eq3: "inodes s3 = inodes s1" "freed s3 = freed ?s" "fs_size s3 = fs_size ?s" "open_inodes s3 = open_inodes ?s"
    "free_map_file s3 = free_map_file ?s" "files s3 = files ?s"
    by (subst c(2), simp, subst a(2), simp add: s1_def inode_reopen_simps)+
  have bl: "blocks_of ?d \<subseteq> used_sectors ?s - fm_sectors ?s - {0}" by (rule blocks_used [OF rt(6)])
  have bdd: "blocks_of dd \<subseteq> free_sectors ?s - {e}" using c(10) \<open>free_sectors s2 \<subseteq> free_sectors ?s - {e}\<close> by blast
  have keep: "disk s3 x = disk ?s x" if "x \<in> used_sectors ?s - fm_sectors ?s" for x
  proof -
    have "x \<notin> blocks_of dd \<union> {e}" using that bdd e(1) by (auto simp: free_sectors_def)
    then have "disk s3 x = disk s2 x" using c(12) a(4) up(2) that by auto
    also have "\<dots> = disk s1 x" using a(8) up(2) that by auto
    finally show ?thesis by (simp add: s1_def inode_reopen_simps)
  qed
  have dirs3: "dirs st3 d = \<lparr>dir_inode = r, dir_pos = int sizeof_entry\<rparr>" by (simp add: st3_def st1_def open_root_def)
  have d3: "data (inodes s3 r) = ?d" "deny_write_cnt (inodes s3 r) = 0"
    using eq3(1) rt(7) by (simp_all add: s1_def inode_reopen_simps)
  note cf = contents_frame [of ?s ?d s3, OF _ _ eq3(3)]
  have fok: "file_ok ?s ?d" using rt(4) by (simp add: dir_file_def)
  have same3: "\<And>x. x \<in> file_sectors ?s ?d \<Longrightarrow> disk s3 x = disk ?s x"
    using keep bl directory_blocks [OF rt(6)] by blast
  have ent3: "dir_entries s3 r = dir_entries ?s r" using cf(2) [OF fok same3] d3(1) by (simp add: entries_def)
  have "dir_file s3 r" using cf(1) [OF fok same3] d3(1) rt(4) eq3(2) by (simp add: dir_file_def)
  then have dir3: "directory st3 d" using rt(5) ent3 dirs3 h(2) by (simp add: directory_def st3_def)
  have w3: "deny_write_cnt (inodes (fsys st3) (dir_inode (dirs st3 d))) = 0" using d3 dirs3 by (simp add: st3_def)
  have de3: "dentries st3 d = dir_entries ?s r" using ent3 dirs3 by (simp add: st3_def)
  obtain s4 where s4: "dir_add True d nm e False junk st3 = Some (True, st3\<lparr>fsys := s4\<rparr>)" "s4 = (fsys st3)\<lparr>disk := disk s4\<rparr>"
    "directory (st3\<lparr>fsys := s4\<rparr>) d" "dmap (dentries (st3\<lparr>fsys := s4\<rparr>) d) = (dmap (dentries st3 d))(nm \<mapsto> e)"
    "\<forall>x. x \<notin> data_sectors (fsys st3) (dir_inode (dirs st3 d)) \<longrightarrow> disk s4 x = disk (fsys st3) x"
    by (rule dir_add_free_slot [OF dir3 w3 nm(1,4,3) junk]) (use new slot de3 in auto)
  have dok3: "direct_ok s3 ?d"
    by (rule direct_ok_frame(1) [OF rt(6)]) (use keep bl c(4,11) a(4,6) up(2,3) in auto)
  have ds3: "data_sectors (fsys st3) (dir_inode (dirs st3 d)) = blocks_of ?d"
    using direct_data_sectors [OF c(3) dok3] dirs3 d3(1) by (simp add: st3_def)
  have eq4: "inodes s4 = inodes s1" "freed s4 = freed ?s" "fs_size s4 = fs_size ?s" "open_inodes s4 = open_inodes ?s"
    using eq3 by (subst s4(2), simp add: st3_def)+
  have bl3: "blocks_of ?d \<inter> fm_sectors s3 = {}" using bl c(4) a(4) up(2) by auto
  have dk4: "disk s4 x = disk s3 x" if "x \<notin> blocks_of ?d" for x using s4(5) that ds3 by (simp add: st3_def)
  have s43: "s4 = s3\<lparr>disk := disk s4\<rparr>" using s4(2) by (simp add: st3_def)
  note fr4 = free_map_ok_frame [OF c(3) s43]
  have fm4: "\<And>x. x \<in> fm_sectors s3 \<Longrightarrow> disk s4 x = disk s3 x" using dk4 bl3 by blast
  note fr4 = fr4 [OF fm4]
  define s5 where "s5 = upd_inode r (\<lambda>ino. ino\<lparr>open_cnt := open_cnt ino - 1\<rparr>) s4"
  have ino5: "inodes s5 = inodes ?s"
    using ro(2) eq4(1) by (simp add: s5_def upd_inode_def s1_def inode_reopen_def fun_eq_iff)
  have eq5: "freed s5 = freed ?s" "fs_size s5 = fs_size ?s" "open_inodes s5 = open_inodes ?s" "disk s5 = disk s4"
    using eq4 by (simp_all add: s5_def upd_inode_def)
  have "files s4 = files ?s" "free_map_file s4 = free_map_file ?s" using eq3(5,6) by (subst s43, simp)+
  then have fmi: "fm_inode s4 = fm_inode ?s" "fm_inode s5 = fm_inode ?s" by (simp_all add: fm_inode_def s5_def upd_inode_def)
  have oth: "r \<noteq> fm_inode s4 \<or> free_map_file s4 = NULL" using fmi rt(3) by simp
  note up5 = upd_other_inode [OF oth, of "\<lambda>ino. ino\<lparr>open_cnt := open_cnt ino - 1\<rparr>", folded s5_def]
  have cl: "inode_close True r s4 = Some s5"
    using ro(2,3,4) eq4(1,2) by (simp add: inode_close_def s5_def s1_def inode_reopen_def upd_inode_def)
  have us: "used_sectors s5 = insert e (used_sectors ?s \<union> blocks_of dd)"
    using up5(3) fr4(3) c(11) a(6) up(3) by auto
  have ddis: "blocks_of dd \<inter> blocks_of ?d = {}" "e \<notin> blocks_of ?d" using bdd bl e(1) by (auto simp: free_sectors_def)
  have len4: "length (disk s4 x) = 512" if "x \<in> blocks_of ?d" for x
  proof -
    obtain k where k: "k < bytes_to_sectors (file_len ?d)" "x = direct_blocks ?d ! k" using \<open>x \<in> blocks_of ?d\<close> by (auto simp: blocks_of_def)
    have "file_ok s4 (data (inodes s4 r))" using s4(3) dirs3 by (simp add: directory_def dir_file_def)
    moreover have "data (inodes s4 r) = ?d" using eq4(1) by (simp add: s1_def inode_reopen_simps)
    ultimately show ?thesis using file_okD(6) [of s4 ?d k] k sec_direct direct_okD(2) [OF rt(6)] by simp
  qed
  have dok5: "direct_ok s5 ?d"
    unfolding up5(4) using dok3 len4 fr4(2,3) unfolding direct_ok_def Let_def by (auto simp: blocks_of_def)
  have ddok: "direct_ok s4 dd" "contents s4 dd = contents s3 dd"
    using direct_ok_frame [OF c(8), of s4] fr4(2,3) dk4 ddis(1) by blast+
  have dk5: "disk s5 = disk s4" "fs_size s5 = fs_size s4" by (simp_all add: s5_def upd_inode_def)
  have da5: "data (inodes s5 r) = data (inodes s4 r)" using ino5 eq4(1) by (simp add: s1_def inode_reopen_simps)
  have ent5: "dir_entries s5 r = dir_entries s4 r" using same_disk(4) [OF dk5] da5 by (simp add: entries_def)
  have dir4: "dir_file s4 r" "dir_wf (dir_entries s4 r)" using s4(3) dirs3 by (simp_all add: directory_def)
  have dir5: "dir_file s5 r" using dir4(1) da5 same_disk(3) [OF dk5] eq4(2) eq5(1) by (simp add: dir_file_def)
  define st5 where "st5 = st\<lparr>fsys := s5, heap := hs, dirs := (dirs st)(d := \<lparr>dir_inode = r, dir_pos = int sizeof_entry\<rparr>)\<rparr>"
  have st5: "st3\<lparr>fsys := s5\<rparr> = st5" by (simp add: st5_def st3_def st1_def open_root_def)
  have dc: "dir_close True d (st3\<lparr>fsys := s4\<rparr>) = Some st5"
    using h(2) dirs3 cl st5 by (simp add: dir_close_def close_inode_def)
  have al: "alloc (st1\<lparr>fsys := s2\<rparr>) = (c, st1\<lparr>fsys := s2, heap := hs\<rparr>)" by (simp add: alloc_def st1_def open_root_def)
  have f1: "fsys st1 = s1" by (simp add: st1_def open_root_def s1_def)
  have "filesys_create True junk (slash # nm) sz False st = Some (True, st5)"
    using split_in_root(1) [OF nm(1,2)] op h(2,3) a(1) al c(1) s4(1) dc f1
    by (simp add: filesys_create_def st3_def split: prod.splits)
  moreover have "root_ok st5 r"
  proof -
    have "root_open st5 r" using rt(1) ino5 eq5(1,3) by (simp add: root_open_def st5_def)
    moreover have "free_map_ok s5" using up5(1) fr4(1) by simp
    moreover have "sector (inodes s5 i) \<in> used_sectors s5" if "i \<in> set (open_inodes s5)" for i
      using rt(8) that us ino5 eq5(3) by auto
    ultimately show ?thesis
      using fmi(2) rt(3,7) dir5 dir4(2) ent5 dok5 ino5 by (simp add: root_ok_def st5_def)
  qed
  moreover have "dmap (dir_entries s5 r) = (dmap (dir_entries ?s r))(nm \<mapsto> e)"
    using s4(4) dirs3 ent5 de3 by simp
  moreover have "e \<in> free_sectors ?s" using a(5) fr1 by simp
  moreover have "disk s5 e = encode_inode dd" using c(5) dk4 ddis(2) eq5(4) by simp
  moreover have "direct_ok s5 dd" using ddok(1) up5(4) by simp
  moreover have "contents s5 dd = replicate (nat sz) 0" using ddok(2) c(9) same_disk(4) [OF dk5] by simp
  moreover have "blocks_of dd \<subseteq> free_sectors ?s" using bdd by blast
  ultimately show ?thesis
    using that [of s5 e dd] c(6,7) us eq5(1-3) ino5 unfolding st5_def by simp
qed

lemma filesys_open_in_root:
  assumes ok: "root_ok st r" and h: "heap st = d # p # f # hs" "d \<noteq> NULL" "p \<noteq> NULL" "f \<noteq> NULL" "p \<noteq> r"
    and nm: "nm \<noteq> []" "slash \<notin> set nm" "0 \<notin> set nm" "nm \<noteq> dot" "nm \<noteq> dotdot"
    and e: "dmap (dir_entries (fsys st) r) nm = Some e" "\<forall>i \<in> set (open_inodes (fsys st)). sector (inodes (fsys st) i) \<noteq> e"
      "unat e < fs_size (fsys st)"
  obtains st' where "filesys_open True junk (slash # nm) st = Some (f, st')" "file_inode (files (fsys st') f) = p"
    "data (inodes (fsys st') p) = decode_inode (disk (fsys st) e)" "disk (fsys st') = disk (fsys st)" "fs_size (fsys st') = fs_size (fsys st)"
    "p \<notin> freed (fsys st')" "inodes (fsys st') r = inodes (fsys st) r"
proof -
  let ?s = "fsys st"
  note rt = root_okD [OF ok] and ro = root_openD [OF root_okD(1) [OF ok]]
  define st1 where "st1 = open_root st r d (p # f # hs)"
  define s1 where "s1 = inode_reopen r ?s"
  have f1: "fsys st1 = s1" "dirs st1 d = \<lparr>dir_inode = r, dir_pos = int sizeof_entry\<rparr>" "heap st1 = p # f # hs"
    by (simp_all add: st1_def open_root_def s1_def)
  have op: "dir_open_path True junk [slash] st = Some (d, st1)"
    unfolding st1_def by (rule dir_open_path_root [OF rt(1) h(1,2)])
  have sd: "disk s1 = disk ?s" "fs_size s1 = fs_size ?s" by (simp_all add: s1_def inode_reopen_simps)
  have da: "data (inodes s1 r) = data (inodes ?s r)" by (simp add: s1_def inode_reopen_simps)
  have en: "dentries st1 d = dir_entries ?s r" using same_disk(4) [OF sd] da f1 by (simp add: entries_def)
  have dir: "directory st1 d"
    using rt(4,5) same_disk(3) [OF sd] da f1 en h(2) by (simp add: directory_def dir_file_def) (simp add: s1_def inode_reopen_simps)
  have dm: "dmap (dentries st1 d) nm = Some e" using e(1) en by simp
  obtain k where lk: "lookup True d nm st1 = Some (Some (dentries st1 d ! k, 20 * k))" "inode_sector (dentries st1 d ! k) = e"
    by (rule lookup_dmap [OF dir nm(3) dm])
  define new where "new = \<lparr>sector = e, open_cnt = 1, removed = False, deny_write_cnt = 0, data = decode_inode (disk ?s e)\<rparr>"
  define s2 where "s2 = s1\<lparr>open_inodes := p # open_inodes s1, freed := freed s1 - {p}, inodes := (inodes s1)(p := new)\<rparr>"
  define st2 where "st2 = st1\<lparr>heap := f # hs, fsys := s2\<rparr>"
  have ns: "\<forall>i \<in> set (open_inodes s1). sector (inodes s1 i) \<noteq> e" using e(2) by (simp add: s1_def inode_reopen_simps)
  then have fd: "find (\<lambda>i. sector (inodes s1 i) = e) (open_inodes s1) = None" by (auto simp: find_None_iff)
  have "inode_open p e s1 = Some (p, s2)"
    using fd h(3) e(3) sd by (simp add: inode_open_def cache_read_def s2_def new_def)
  then have os: "open_sector e st1 = Some (p, st2)"
    using ns f1 by (auto simp: open_sector_def alloc_def st2_def)
  have dl: "dir_lookup True d nm junk st1 = Some (p, st2)"
    using h(2) nm(4,5) lk os by (simp add: dir_lookup_def)
  define s3 where "s3 = upd_inode r (\<lambda>ino. ino\<lparr>open_cnt := open_cnt ino - 1\<rparr>) s2"
  define st3 where "st3 = st2\<lparr>fsys := s3\<rparr>"
  have r2: "inodes s2 r = (inodes ?s r)\<lparr>open_cnt := open_cnt (inodes ?s r) + 1\<rparr>" "r \<notin> freed s2"
    using h(5) ro(2,3) by (simp_all add: s2_def s1_def inode_reopen_def upd_inode_def)
  have "inode_close True r s2 = Some s3"
    using r2 ro(2,4) by (simp add: inode_close_def s3_def upd_inode_def)
  then have dc: "dir_close True d st2 = Some st3"
    using h(2) f1 by (simp add: dir_close_def close_inode_def st2_def st3_def)
  have p3: "inodes s3 p = new" "freed s3 = freed ?s - {p}" "disk s3 = disk ?s" "fs_size s3 = fs_size ?s" "inodes s3 r = inodes ?s r"
    using h(5) r2 sd by (simp_all add: s3_def s2_def upd_inode_def) (simp_all add: s1_def inode_reopen_simps)
  define s4 where "s4 = s3\<lparr>files := (files s3)(f := \<lparr>file_inode = p, pos = 0, deny_write = False\<rparr>)\<rparr>"
  define st4 where "st4 = st3\<lparr>heap := hs, fsys := s4\<rparr>"
  have fo: "file_open True f p s3 = Some (f, s4)" using h(3,4) by (simp add: file_open_def s4_def)
  have al: "alloc st3 = (f, st3\<lparr>heap := hs\<rparr>)" by (simp add: alloc_def st3_def st2_def)
  have rm: "\<not> inode_is_removed p (fsys st3)" using p3(1) by (simp add: inode_is_removed_def st3_def new_def)
  have "filesys_open True junk (slash # nm) st = Some (f, st4)"
    using split_in_root(2) [OF nm(1,2)] op h(2,3) nm(1) dl dc rm al fo
    by (simp add: filesys_open_def st4_def) (simp add: st3_def)
  then show ?thesis
    by (rule that) (use p3 in \<open>simp_all add: st4_def s4_def new_def\<close>)
qed


text \<open>The sample directory as the root directory.\<close>

definition sample_root :: dfs where
  "sample_root = (sample_dfs 1)\<lparr>fsys := (fsys (sample_dfs 1))\<lparr>open_inodes := [10, 20], inodes := (inodes (fsys (sample_dfs 1)))
     (10 := (inodes (fsys (sample_dfs 1)) 10)\<lparr>sector := 1\<rparr>)\<rparr>, heap := [6, 7, 8, 12, 13]\<rparr>"

lemma sample_root_simps:
  "free_map (fsys sample_root) = free_map (small_fs False)" "fs_size (fsys sample_root) = 100" "free_map_file (fsys sample_root) = 30"
  "fm_inode (fsys sample_root) = 20" "inodes (fsys sample_root) 20 = inodes (small_fs False) 20" "freed (fsys sample_root) = {}"
  "data (inodes (fsys sample_root) 10) = sample_dir_disk" "sector (inodes (fsys sample_root) 10) = 1"
  "deny_write_cnt (inodes (fsys sample_root) 10) = 0" "open_cnt (inodes (fsys sample_root) 10) = 1" "removed (inodes (fsys sample_root) 10) = False"
  "open_inodes (fsys sample_root) = [10, 20]" "sector (inodes (fsys sample_root) 20) = 0" "disk (fsys sample_root) = disk (fsys (sample_dfs 1))"
  by (simp_all add: sample_root_def sample_dfs_def small_fs_def fm_inode_def)

lemma sample_root_used: "used_sectors (fsys sample_root) = {0, 1, 40, 50, 60}"
  using small_fs_used [of False] by (simp add: used_sectors_def sample_root_simps)

lemma sample_root_ok: "root_ok sample_root 10"
proof -
  let ?s = "fsys sample_root"
  have len: "length (direct_blocks small_fm_disk) = 123" by (simp add: small_fm_disk_def)
  have s60: "sec ?s small_fm_disk 0 = 60" by (subst sec_direct) (simp_all add: small_fm_disk_def)
  have fmd: "fm_data ?s = small_fm_disk" by (simp add: sample_root_simps small_fs_simps)
  have d60: "length (disk ?s 60) = 512" by (simp add: sample_root_simps) (simp add: sample_dfs_def)
  have fms: "fm_sectors ?s = {60}"
    using s60 fmd by (simp add: fm_sectors_def file_sectors_def sample_root_simps small_fs_simps one_block index_sectors_direct lessThan_Suc)
  have "file_ok ?s small_fm_disk"
    using s60 d60 len by (simp add: file_ok_def small_fs_simps sample_root_simps one_block index_sectors_direct Let_def inj_on_def)
  moreover have "bitmap_good (free_map ?s)" using small_fs_rep by (auto simp: bitmap_good_def sample_root_simps)
  moreover have "byte_cnt 100 = 16" by (simp add: byte_cnt_def elem_cnt_def)
  ultimately have fok: "free_map_ok ?s"
    using fmd unfolding free_map_ok_def fms sample_root_used by (simp add: sample_root_simps small_fs_simps)
  have sd: "disk ?s = disk (fsys (sample_dfs 1))" "fs_size ?s = fs_size (fsys (sample_dfs 1))"
    by (simp_all add: sample_root_simps sample_dfs_simps)
  have en: "dir_entries ?s 10 = sample_entries 1"
    using sample_entries_eq [of 1] same_disk(4) [OF sd] by (simp add: entries_def sample_root_simps sample_dfs_simps)
  have df: "dir_file ?s 10"
    using sample_dir_file [of 1] same_disk(3) [OF sd] by (simp add: dir_file_def sample_root_simps sample_dfs_simps)
  have wf: "dir_wf (sample_entries 1)"
    using sample_directory(1) [of 1] sample_dentries [of 1 5] by (simp add: directory_def)
  have "length (disk ?s 50) = 512"
    by (simp add: sample_root_simps) (simp add: sample_dfs_def sample_entries_def sample_slot_def sample_entry_def encode_entry_def)
  then have dok: "direct_ok ?s sample_dir_disk"
    unfolding direct_ok_def fms sample_root_used
    by (simp add: sample_dfs_simps Let_def) (auto simp: sample_dir_disk_def nth_Cons' lessThan_Suc)
  show ?thesis
    using fok df wf dok sample_root_used sample_root_simps(13)
    unfolding root_ok_def root_open_def en by (simp add: sample_root_simps(1-12) ROOT_DIR_SECTOR_def)
qed


end
