(* ===== verification/Pagedir.thy ===== *)
theory Pagedir
  imports Palloc
begin

text \<open>
  Page table entries, \<^verbatim>\<open>threads/pte.h\<close>, and page directories, \<^verbatim>\<open>userprog/pagedir.c\<close>, as words in
  the memory of theory Palloc. \<open>tlb\<close> holds the page table entries that the processor may have cached
  for user pages: loading the register \<open>cr3\<close> empties it, and nothing is assumed of how it is filled.
  A pointer to an entry is the entry's address. \<open>None\<close> is a failed assertion.
\<close>

section \<open>Words in memory\<close>

definition load32 :: "(u32 \<Rightarrow> byte) \<Rightarrow> u32 \<Rightarrow> u32" where
  "load32 mem a = decode32 [mem a, mem (a + 1), mem (a + 2), mem (a + 3)]"

definition store32 :: "u32 \<Rightarrow> u32 \<Rightarrow> (u32 \<Rightarrow> byte) \<Rightarrow> u32 \<Rightarrow> byte" where
  "store32 a w mem = (let bs = encode32 w in
     mem(a := bs ! 0, a + 1 := bs ! 1, a + 2 := bs ! 2, a + 3 := bs ! 3))"

section \<open>Entries\<close>

definition PTSHIFT :: nat where "PTSHIFT = 12"
definition PTBITS :: nat where "PTBITS = 10"
definition PTMASK :: u32 where "PTMASK = 0x3FF000"
definition PDSHIFT :: nat where "PDSHIFT = PTSHIFT + PTBITS"

definition PTE_ADDR :: u32 where "PTE_ADDR = 0xFFFFF000"
definition PTE_P :: u32 where "PTE_P = 1"
definition PTE_W :: u32 where "PTE_W = 2"
definition PTE_U :: u32 where "PTE_U = 4"
definition PTE_A :: u32 where "PTE_A = 0x20"
definition PTE_D :: u32 where "PTE_D = 0x40"

definition pt_no :: "u32 \<Rightarrow> u32" where
  "pt_no va = drop_bit PTSHIFT (va AND PTMASK)"

definition pd_no :: "u32 \<Rightarrow> u32" where
  "pd_no va = drop_bit PDSHIFT va"

definition pde_create :: "u32 \<Rightarrow> u32 option" where
  "pde_create pt = do { kassert (pg_ofs pt = 0); p \<leftarrow> vtop pt; Some (p OR PTE_U OR PTE_P OR PTE_W) }"

definition pde_get_pt :: "u32 \<Rightarrow> u32 option" where
  "pde_get_pt pde = do { kassert (pde AND PTE_P \<noteq> 0); ptov (pde AND PTE_ADDR) }"

definition pte_create_kernel :: "u32 \<Rightarrow> bool \<Rightarrow> u32 option" where
  "pte_create_kernel page writable = do {
     kassert (pg_ofs page = 0);
     p \<leftarrow> vtop page;
     Some (p OR PTE_P OR (if writable then PTE_W else 0)) }"

definition pte_create_user :: "u32 \<Rightarrow> bool \<Rightarrow> u32 option" where
  "pte_create_user page writable = do { e \<leftarrow> pte_create_kernel page writable; Some (e OR PTE_U) }"

definition pte_get_page :: "u32 \<Rightarrow> u32 option" where
  "pte_get_page pte = ptov (pte AND PTE_ADDR)"

section \<open>Page directories\<close>

record mmu =
  ram :: phys
  init_page_dir :: u32
  init_ram_pages :: u32
  cr3 :: u32
  tlb :: "u32 \<Rightarrow> u32 option"

definition load_entry :: "mmu \<Rightarrow> u32 \<Rightarrow> u32" where
  "load_entry st a = load32 (phys_mem (ram st)) a"

definition store_entry :: "u32 \<Rightarrow> u32 \<Rightarrow> mmu \<Rightarrow> mmu" where
  "store_entry a w st = st\<lparr>ram := (ram st)\<lparr>phys_mem := store32 a w (phys_mem (ram st))\<rparr>\<rparr>"

definition pagedir_activate :: "u32 \<Rightarrow> mmu \<Rightarrow> mmu option" where
  "pagedir_activate pd st = do {
     let pd = (if pd = 0 then init_page_dir st else pd);
     p \<leftarrow> vtop pd;
     Some (st\<lparr>cr3 := p, tlb := Map.empty\<rparr>) }"

definition active_pd :: "mmu \<Rightarrow> u32 option" where
  "active_pd st = ptov (cr3 st)"

definition invalidate_pagedir :: "u32 \<Rightarrow> mmu \<Rightarrow> mmu option" where
  "invalidate_pagedir pd st = do {
     a \<leftarrow> active_pd st;
     if a = pd then pagedir_activate pd st else Some st }"

definition pagedir_create :: "mmu \<Rightarrow> (u32 \<times> mmu) option" where
  "pagedir_create st = do {
     (pd, r) \<leftarrow> palloc_get_page 0 (ram st);
     let r = (if pd \<noteq> 0 then r\<lparr>phys_mem := copy_block pd (init_page_dir st) PGSIZE (phys_mem r)\<rparr> else r);
     Some (pd, st\<lparr>ram := r\<rparr>) }"

definition free_page :: "u32 \<Rightarrow> mmu \<Rightarrow> mmu option" where
  "free_page p st = do { r \<leftarrow> palloc_free_page p (ram st); Some (st\<lparr>ram := r\<rparr>) }"

text \<open>The two loops of \<^verbatim>\<open>pagedir_destroy\<close>, over the numbers of the entries that are left.\<close>

fun destroy_pages :: "u32 \<Rightarrow> nat list \<Rightarrow> mmu \<Rightarrow> mmu option" where
  "destroy_pages pt [] st = Some st"
| "destroy_pages pt (i # is) st = do {
     let pte = load_entry st (pt + 4 * of_nat i);
     st \<leftarrow> (if pte AND PTE_P \<noteq> 0 then do { page \<leftarrow> pte_get_page pte; free_page page st } else Some st);
     destroy_pages pt is st }"

fun destroy_tables :: "u32 \<Rightarrow> nat list \<Rightarrow> mmu \<Rightarrow> mmu option" where
  "destroy_tables pd [] st = Some st"
| "destroy_tables pd (i # is) st = do {
     let pde = load_entry st (pd + 4 * of_nat i);
     st \<leftarrow> (if pde AND PTE_P \<noteq> 0
        then do { pt \<leftarrow> pde_get_pt pde; st \<leftarrow> destroy_pages pt [0..<PGSIZE div 4] st; free_page pt st }
        else Some st);
     destroy_tables pd is st }"

definition pagedir_destroy :: "u32 \<Rightarrow> mmu \<Rightarrow> mmu option" where
  "pagedir_destroy pd st =
     (if pd = 0 then Some st
      else do {
        kassert (pd \<noteq> init_page_dir st);
        st \<leftarrow> destroy_tables pd [0..<unat (pd_no PHYS_BASE)] st;
        free_page pd st })"

definition lookup_page :: "u32 \<Rightarrow> u32 \<Rightarrow> bool \<Rightarrow> mmu \<Rightarrow> (u32 \<times> mmu) option" where
  "lookup_page pd vaddr create st = do {
     kassert (pd \<noteq> 0);
     kassert (\<not> create \<or> is_user_vaddr vaddr);
     let pde = pd + 4 * pd_no vaddr;
     (found, st) \<leftarrow> (if load_entry st pde = 0
        then (if create
              then do {
                (pt, r) \<leftarrow> palloc_get_page PAL_ZERO (ram st);
                let st = st\<lparr>ram := r\<rparr>;
                if pt = 0 then Some (False, st)
                else do { e \<leftarrow> pde_create pt; Some (True, store_entry pde e st) } }
              else Some (False, st))
        else Some (True, st));
     if found then do { pt \<leftarrow> pde_get_pt (load_entry st pde); Some (pt + 4 * pt_no vaddr, st) }
     else Some (0, st) }"

definition pagedir_set_page :: "u32 \<Rightarrow> u32 \<Rightarrow> u32 \<Rightarrow> bool \<Rightarrow> mmu \<Rightarrow> (bool \<times> mmu) option" where
  "pagedir_set_page pd upage kpage writable st = do {
     kassert (pg_ofs upage = 0);
     kassert (pg_ofs kpage = 0);
     kassert (is_user_vaddr upage);
     p \<leftarrow> vtop kpage;
     kassert (drop_bit PTSHIFT p < init_ram_pages st);
     kassert (pd \<noteq> init_page_dir st);
     (pte, st) \<leftarrow> lookup_page pd upage True st;
     if pte \<noteq> 0
     then do {
       kassert (load_entry st pte AND PTE_P = 0);
       e \<leftarrow> pte_create_user kpage writable;
       Some (True, store_entry pte e st) }
     else Some (False, st) }"

definition pagedir_get_page :: "u32 \<Rightarrow> u32 \<Rightarrow> mmu \<Rightarrow> u32 option" where
  "pagedir_get_page pd uaddr st = do {
     kassert (is_user_vaddr uaddr);
     (pte, st) \<leftarrow> lookup_page pd uaddr False st;
     if pte \<noteq> 0 \<and> load_entry st pte AND PTE_P \<noteq> 0
     then do { page \<leftarrow> pte_get_page (load_entry st pte); Some (page + pg_ofs uaddr) }
     else Some 0 }"

definition pagedir_clear_page :: "u32 \<Rightarrow> u32 \<Rightarrow> mmu \<Rightarrow> mmu option" where
  "pagedir_clear_page pd upage st = do {
     kassert (pg_ofs upage = 0);
     kassert (is_user_vaddr upage);
     (pte, st) \<leftarrow> lookup_page pd upage False st;
     if pte \<noteq> 0 \<and> load_entry st pte AND PTE_P \<noteq> 0
     then invalidate_pagedir pd (store_entry pte (load_entry st pte AND NOT PTE_P) st)
     else Some st }"

definition pagedir_is_dirty :: "u32 \<Rightarrow> u32 \<Rightarrow> mmu \<Rightarrow> bool option" where
  "pagedir_is_dirty pd vpage st = do {
     (pte, st) \<leftarrow> lookup_page pd vpage False st;
     Some (pte \<noteq> 0 \<and> load_entry st pte AND PTE_D \<noteq> 0) }"

definition pagedir_set_dirty :: "u32 \<Rightarrow> u32 \<Rightarrow> bool \<Rightarrow> mmu \<Rightarrow> mmu option" where
  "pagedir_set_dirty pd vpage dirty st = do {
     (pte, st) \<leftarrow> lookup_page pd vpage False st;
     if pte \<noteq> 0
     then (if dirty then Some (store_entry pte (load_entry st pte OR PTE_D) st)
           else invalidate_pagedir pd (store_entry pte (load_entry st pte AND NOT PTE_D) st))
     else Some st }"

definition pagedir_is_accessed :: "u32 \<Rightarrow> u32 \<Rightarrow> mmu \<Rightarrow> bool option" where
  "pagedir_is_accessed pd vpage st = do {
     (pte, st) \<leftarrow> lookup_page pd vpage False st;
     Some (pte \<noteq> 0 \<and> load_entry st pte AND PTE_A \<noteq> 0) }"

definition pagedir_set_accessed :: "u32 \<Rightarrow> u32 \<Rightarrow> bool \<Rightarrow> mmu \<Rightarrow> mmu option" where
  "pagedir_set_accessed pd vpage accessed st = do {
     (pte, st) \<leftarrow> lookup_page pd vpage False st;
     if pte \<noteq> 0
     then (if accessed then Some (store_entry pte (load_entry st pte OR PTE_A) st)
           else invalidate_pagedir pd (store_entry pte (load_entry st pte AND NOT PTE_A) st))
     else Some st }"

end
