(* ===== verification/PallocPages.thy ===== *)
theory PallocPages
  imports Palloc
begin

text \<open>
  What the clients of the page allocator use of it: the pages in use of each pool, as a set of
  addresses to which \<^verbatim>\<open>palloc_get_multiple\<close> adds a fresh run and from which \<^verbatim>\<open>palloc_free_multiple\<close>
  takes one away.
\<close>

definition run_used :: "bool \<Rightarrow> phys \<Rightarrow> u32 \<Rightarrow> nat \<Rightarrow> bool" where
  "run_used u s p n \<longleftrightarrow> (\<exists>i. p = page_addr (get_pool u s) i \<and> i + n \<le> bit_cnt (used_map (get_pool u s)) \<and>
     {i..<i + n} \<subseteq> marked (used_map (get_pool u s)))"

definition page_used :: "bool \<Rightarrow> phys \<Rightarrow> u32 \<Rightarrow> bool" where
  "page_used u s p \<longleftrightarrow> (\<exists>k. k < bit_cnt (used_map (get_pool u s)) \<and> k \<in> marked (used_map (get_pool u s)) \<and>
     p = page_addr (get_pool u s) k)"

definition pages :: "u32 \<Rightarrow> nat \<Rightarrow> u32 set" where
  "pages p n = (\<lambda>k. p + of_nat (PGSIZE * k)) ` {..<n}"

lemma page_used_mem [simp]:
  "page_used u (s\<lparr>phys_mem := m\<rparr>) p = page_used u s p" "run_used u (s\<lparr>phys_mem := m\<rparr>) p n = run_used u s p n"
  by (simp_all add: page_used_def run_used_def)

lemma page_used_run: "page_used u s p \<longleftrightarrow> run_used u s p 1"
  unfolding page_used_def run_used_def
  by (intro ex_cong1) (auto simp: Suc_le_eq)

lemma pages_1 [simp]: "pages p (Suc 0) = {p}"
  by (simp add: pages_def lessThan_Suc)

lemma pages_page_addr: "pages (page_addr p i) n = page_addr p ` {i..<i + n}"
proof -
  have "page_addr p i + of_nat (PGSIZE * k) = page_addr p (i + k)" for k
    by (simp add: page_addr_def distrib_left)
  then show ?thesis
    by (auto simp: pages_def image_iff) (metis add_less_cancel_left le_add1 le_add_diff_inverse lessThan_iff atLeastLessThan_iff)+
qed

lemma page_addr_inj:
  assumes "pool_ok p" "i \<le> bit_cnt (used_map p)" "j \<le> bit_cnt (used_map p)" "page_addr p i = page_addr p j"
  shows "i = j"
proof -
  have "PGSIZE * i = PGSIZE * j"
    using unat_page_addr [OF assms(1,2)] unat_page_addr [OF assms(1,3)] unfolding assms(4) by linarith
  then show ?thesis by (simp add: PGSIZE_def)
qed

lemma pools_disjoint:
  assumes ok: "phys_ok s" and i: "i < bit_cnt (used_map (get_pool u s))" and j: "j < bit_cnt (used_map (get_pool v s))"
    and e: "page_addr (get_pool u s) i = page_addr (get_pool v s) j"
  shows "u = v \<and> i = j"
proof -
  note a = unat_page_addr [OF phys_ok_pool [OF ok] less_imp_le [OF i]] unat_page_addr [OF phys_ok_pool [OF ok] less_imp_le [OF j]]
  have b: "unat (pool_base (get_pool u s)) + PGSIZE * i = unat (pool_base (get_pool v s)) + PGSIZE * j"
    using a e by simp
  have lt: "PGSIZE * i < PGSIZE * bit_cnt (used_map (get_pool u s))" "PGSIZE * j < PGSIZE * bit_cnt (used_map (get_pool v s))"
    using i j by (simp_all add: PGSIZE_def)
  have "u = v"
  proof (rule ccontr)
    assume "u \<noteq> v"
    then consider "u = True" "v = False" | "u = False" "v = True" by (cases u; cases v) simp_all
    then show False
      using ok b lt unfolding phys_ok_def get_pool_def by cases (simp_all only: if_True if_False, linarith+)
  qed
  then show ?thesis using page_addr_inj [OF phys_ok_pool [OF ok]] i j e by (auto dest: less_imp_le)
qed

lemma page_used_other_pool: "phys_ok s \<Longrightarrow> page_used u s p \<Longrightarrow> page_used v s p \<Longrightarrow> u = v"
  using pools_disjoint unfolding page_used_def by blast

lemma page_usedD:
  assumes "phys_ok s" "page_used u s p"
  shows "pg_ofs p = 0" "p \<noteq> 0" "unat (pool_base (get_pool u s)) \<le> unat p"
proof -
  obtain k where k: "k < bit_cnt (used_map (get_pool u s))" "p = page_addr (get_pool u s) k"
    using assms(2) unfolding page_used_def by blast
  show "pg_ofs p = 0" "p \<noteq> 0" using page_addr_aligned(1,2) [OF phys_ok_pool [OF assms(1)] less_imp_le [OF k(1)]] k(2) by simp_all
  show "unat (pool_base (get_pool u s)) \<le> unat p" using unat_page_addr [OF phys_ok_pool [OF assms(1)] less_imp_le [OF k(1)]] k(2) by simp
qed

lemma run_usedD:
  assumes "phys_ok s" "run_used u s p n" "q \<in> pages p n"
  shows "page_used u s q"
proof -
  obtain i where "p = page_addr (get_pool u s) i" "i + n \<le> bit_cnt (used_map (get_pool u s))"
    "{i..<i + n} \<subseteq> marked (used_map (get_pool u s))" using assms(2) unfolding run_used_def by blast
  moreover from assms(3) obtain k where "k \<in> {i..<i + n}" "q = page_addr (get_pool u s) k"
    unfolding \<open>p = page_addr (get_pool u s) i\<close> pages_page_addr by blast
  ultimately show ?thesis unfolding page_used_def by (intro exI [of _ k]) auto
qed

text \<open>Both operations, in terms of the pages in use.\<close>

lemma palloc_get_pages:
  assumes ok: "phys_ok s" and n: "0 < n" and fl: "flags AND PAL_ASSERT = 0" and u: "u = (flags AND PAL_USER \<noteq> 0)"
  obtains (full) s' where "palloc_get_multiple flags n s = Some (0, s')" "phys_ok s'" "phys_mem s' = phys_mem s"
      "\<forall>v. page_used v s' = page_used v s" "\<forall>v. run_used v s' = run_used v s"
      "\<forall>v. pool_base (get_pool v s') = pool_base (get_pool v s)"
      "\<forall>i. i + n \<le> bit_cnt (used_map (get_pool u s)) \<longrightarrow> {i..<i + n} \<inter> marked (used_map (get_pool u s)) \<noteq> {}"
    | (found) p s' where "palloc_get_multiple flags n s = Some (p, s')" "phys_ok s'" "p \<noteq> 0" "pg_ofs p = 0"
      "phys_mem s' = (if flags AND PAL_ZERO \<noteq> 0 then memset (phys_mem s) p 0 (PGSIZE * n) else phys_mem s)"
      "run_used u s' p n" "\<forall>q \<in> pages p n. \<not> page_used u s q"
      "\<forall>v q. page_used v s' q \<longleftrightarrow> page_used v s q \<or> v = u \<and> q \<in> pages p n"
      "\<forall>v q m. run_used v s q m \<longrightarrow> run_used v s' q m"
      "\<forall>v. pool_base (get_pool v s') = pool_base (get_pool v s)"
proof -
  let ?p = "get_pool u s"
  note pok = phys_ok_pool [OF ok, of u]
  have good: "bitmap_good (used_map ?p)" using pok by (simp add: pool_ok_def)
  obtain x m where al: "bitmap_alloc n (used_map ?p) = Some (x, m)" using bm.alloc_not_stuck [OF good] by blast
  define r where "r = put_pool u (?p\<lparr>used_map := m\<rparr>) s"
  have r: "get_pool v r = (if v = u then ?p\<lparr>used_map := m\<rparr> else get_pool v s)" "phys_mem r = phys_mem s" for v
    by (simp_all add: r_def)
  note run = palloc_get_alloc [OF pok u n al, folded r_def]
  have addr: "page_addr (get_pool v r) k = page_addr (get_pool v s) k" for v k by (simp add: r(1) page_addr_def)
  show thesis
  proof (cases x)
    case None
    note m = bm.alloc_NoneD [OF good al [unfolded None]]
    have "phys_ok r" using phys_ok_put [OF ok m(1), of u] m(2) by (simp add: r_def)
    moreover have "page_used v r = page_used v s" "run_used v r = run_used v s" for v
      unfolding page_used_def run_used_def fun_eq_iff addr using m(2,3) by (auto simp: r(1))
    ultimately show thesis using run None fl m(4) by (intro full [of r]) (auto simp: r Let_def)
  next
    case (Some i)
    note m = bm.alloc_SomeD [OF good al [unfolded Some]]
    let ?a = "page_addr ?p i"
    define t where "t = (if flags AND PAL_ZERO \<noteq> 0 then r\<lparr>phys_mem := memset (phys_mem s) ?a 0 (PGSIZE * n)\<rparr> else r)"
    have i: "i < bit_cnt (used_map ?p)" using m(3) n by simp
    have get: "palloc_get_multiple flags n s = Some (?a, t)" using run Some by (simp add: Let_def t_def)
    have t: "get_pool v t = get_pool v r" "phys_ok t"
      "phys_mem t = (if flags AND PAL_ZERO \<noteq> 0 then memset (phys_mem s) ?a 0 (PGSIZE * n) else phys_mem s)" for v
      using phys_ok_put [OF ok m(1), of u] m(2) by (simp_all add: r_def [symmetric] t_def r(2))
    have used: "page_used v t q \<longleftrightarrow> page_used v s q \<or> v = u \<and> q \<in> pages ?a n" for v q
    proof (cases "v = u")
      case True
      have "page_used v t q \<longleftrightarrow> (\<exists>k < bit_cnt (used_map ?p). (k \<in> marked (used_map ?p) \<or> k \<in> {i..<i + n}) \<and> q = page_addr ?p k)"
        unfolding page_used_def t(1) addr using True m(2,5) by (auto simp: r(1))
      moreover have "q \<in> pages ?a n \<longleftrightarrow> (\<exists>k < bit_cnt (used_map ?p). k \<in> {i..<i + n} \<and> q = page_addr ?p k)"
        unfolding pages_page_addr using m(3) less_le_trans by (auto simp: image_iff) blast
      ultimately show ?thesis using True unfolding page_used_def by blast
    next
      case False
      then show ?thesis by (simp add: page_used_def t(1) r(1))
    qed
    have fresh: "\<not> page_used u s q" if q: "q \<in> pages ?a n" for q
    proof
      assume "page_used u s q"
      then obtain k where k: "k < bit_cnt (used_map ?p)" "k \<in> marked (used_map ?p)" "q = page_addr ?p k"
        unfolding page_used_def by blast
      obtain j where j: "j \<in> {i..<i + n}" "q = page_addr ?p j" using q unfolding pages_page_addr by blast
      have "j \<le> bit_cnt (used_map ?p)" using j(1) m(3) by simp
      from page_addr_inj [OF pok less_imp_le [OF k(1)] this] have "k = j" using k(3) j(2) by simp
      then show False using k(2) j(1) m(4) by blast
    qed
    have "run_used u t ?a n" unfolding run_used_def t(1) addr
      using m(2,3,5) by (intro exI [of _ i]) (simp add: r(1))
    moreover have "run_used v t q k" if "run_used v s q k" for v q k
      using that m(2,5) unfolding run_used_def t(1) addr by (auto simp: r(1))
    ultimately show thesis
      using page_addr_aligned(1,2) [OF pok less_imp_le [OF i]] t(1-3) used fresh r(1)
      by (intro found [OF get]) simp_all
  qed
qed

lemma palloc_free_pages:
  assumes ok: "phys_ok s" and n: "0 < n" and run: "run_used u s p n"
  shows "\<exists>s'. palloc_free_multiple p n s = Some s' \<and> phys_ok s' \<and> phys_mem s' = memset (phys_mem s) p 0xCC (PGSIZE * n) \<and>
    (\<forall>v q. page_used v s' q \<longleftrightarrow> page_used v s q \<and> \<not> (v = u \<and> q \<in> pages p n)) \<and>
    (\<forall>v q m. run_used v s q m \<and> (v \<noteq> u \<or> pages q m \<inter> pages p n = {}) \<longrightarrow> run_used v s' q m) \<and>
    (\<forall>v. pool_base (get_pool v s') = pool_base (get_pool v s))"
proof -
  let ?p = "get_pool u s"
  note pok = phys_ok_pool [OF ok, of u]
  obtain i where i: "p = page_addr ?p i" "i + n \<le> bit_cnt (used_map ?p)" "{i..<i + n} \<subseteq> marked (used_map ?p)"
    using run unfolding run_used_def by blast
  obtain m where m: "palloc_free_multiple p n s =
      Some (put_pool u (?p\<lparr>used_map := m\<rparr>) (s\<lparr>phys_mem := memset (phys_mem s) p 0xCC (PGSIZE * n)\<rparr>))"
    "bitmap_good m" "bit_cnt m = bit_cnt (used_map ?p)" "marked m = marked (used_map ?p) - {i..<i + n}"
    using palloc_free_release [OF ok n i(2,3)] i(1) by auto
  define r where "r = put_pool u (?p\<lparr>used_map := m\<rparr>) (s\<lparr>phys_mem := memset (phys_mem s) p 0xCC (PGSIZE * n)\<rparr>)"
  have r: "get_pool v r = (if v = u then ?p\<lparr>used_map := m\<rparr> else get_pool v s)" "phys_mem r = memset (phys_mem s) p 0xCC (PGSIZE * n)" for v
    by (simp_all add: r_def)
  have addr: "page_addr (get_pool v r) k = page_addr (get_pool v s) k" for v k by (simp add: r(1) page_addr_def)
  have "phys_ok r" using phys_ok_put [of "s\<lparr>phys_mem := memset (phys_mem s) p 0xCC (PGSIZE * n)\<rparr>" m u] ok m(2,3)
    by (simp add: r_def)
  moreover have "page_used v r q \<longleftrightarrow> page_used v s q \<and> \<not> (v = u \<and> q \<in> pages p n)" for v q
  proof (cases "v = u")
    case True
    have "page_addr ?p k \<in> pages p n \<longleftrightarrow> k \<in> {i..<i + n}" if "k < bit_cnt (used_map ?p)" for k
    proof
      assume "page_addr ?p k \<in> pages p n"
      then obtain j where j: "j \<in> {i..<i + n}" "page_addr ?p k = page_addr ?p j" unfolding i(1) pages_page_addr by blast
      then have "j \<le> bit_cnt (used_map ?p)" using i(2) by simp
      then show "k \<in> {i..<i + n}" using page_addr_inj [OF pok less_imp_le [OF that] _ j(2)] j(1) by simp
    qed (auto simp: i(1) pages_page_addr)
    then show ?thesis using True m(3,4) unfolding page_used_def addr by (auto simp: r(1))
  next
    case False
    then show ?thesis by (simp add: page_used_def r(1))
  qed
  moreover have "run_used v r q k" if q: "run_used v s q k" "v \<noteq> u \<or> pages q k \<inter> pages p n = {}" for v q k
  proof (cases "v = u")
    case True
    obtain j where j: "q = page_addr ?p j" "j + k \<le> bit_cnt (used_map ?p)" "{j..<j + k} \<subseteq> marked (used_map ?p)"
      using q(1) True unfolding run_used_def by blast
    have "page_addr ?p ` {j..<j + k} \<inter> page_addr ?p ` {i..<i + n} = {}"
      using q(2) True unfolding i(1) j(1) pages_page_addr by blast
    then have "{j..<j + k} \<inter> {i..<i + n} = {}" by blast
    then have "{j..<j + k} \<subseteq> marked m" using j(3) m(4) by blast
    then show ?thesis using True j(1,2) m(3) unfolding run_used_def addr by (intro exI [of _ j]) (simp add: r(1))
  next
    case False
    then show ?thesis using q(1) by (simp add: run_used_def r(1))
  qed
  ultimately show ?thesis using m(1) r by (intro exI [of _ r]) (simp add: r_def [symmetric])
qed

section \<open>Addresses inside of a page\<close>

lemma page_multiple:
  assumes "pg_ofs p = 0"
  obtains q where "unat p = 4096 * q" "q < 2 ^ 20"
proof -
  have "unat p mod 4096 = 0" by (metis pg_ofs_mod assms unat_0)
  then have p: "unat p = 4096 * (unat p div 4096)" using mult_div_mod_eq [of 4096 "unat p"] by linarith
  have "unat p < 4096 * 2 ^ 20" using u32_bound [of p] by simp
  then have "unat p div 4096 < 2 ^ 20" by (simp add: div_less_iff_less_mult mult.commute)
  with p show thesis by (rule that)
qed

lemma unat_page_plus:
  assumes "pg_ofs p = 0" "unat k < 4096"
  shows "unat (p + k) = unat p + unat k"
proof -
  obtain q where q: "unat p = 4096 * q" "q < 2 ^ 20" by (rule page_multiple [OF assms(1)])
  then have "unat p + unat k < 2 ^ 32" using assms(2) by simp
  then show ?thesis by (simp add: unat_plus_if')
qed

lemma same_page:
  assumes "pg_ofs p = 0" "pg_ofs q = 0" "unat p + i = unat q + j" "i < 4096" "j < 4096"
  shows "p = q \<and> i = j"
proof -
  obtain a b where "unat p = 4096 * a" "unat q = 4096 * b" using page_multiple assms(1,2) by metis
  moreover from this have "(4096 * a + i) div 4096 = (4096 * b + j) div 4096" using assms(3) by simp
  then have "a = b" using assms(4,5) by simp
  ultimately show ?thesis using assms(3) by (simp add: word_unat_eq_iff)
qed

lemma page_plus:
  assumes "pg_ofs p = 0" "unat k < 4096"
  shows "pg_ofs (p + k) = k" "pg_round_down (p + k) = p"
proof -
  obtain q where q: "unat p = 4096 * q" by (rule page_multiple [OF assms(1)])
  note u = unat_page_plus [OF assms]
  have "unat (pg_ofs (p + k)) = unat k" using assms(2) q by (simp add: pg_ofs_mod u)
  moreover have "unat (pg_round_down (p + k)) = unat p" using assms(2) q by (simp add: unat_pg_round_down u)
  ultimately show "pg_ofs (p + k) = k" "pg_round_down (p + k) = p" by (simp_all add: word_unat_eq_iff)
qed

end
