(* ===== verification/PagedirData.thy ===== *)
theory PagedirData
  imports Pagedir PallocPages
begin

text \<open>
  Page directories as maps: the words of a page, the two indices of an address, and the invariant
  \<open>dirs_ok\<close> of a set of directories, under which each operation of theory Pagedir is described by the
  entries \<open>user_pte\<close> that it changes.
\<close>

section \<open>Words and entries of pages\<close>

lemma encode32_nth [simp]:
  "[encode32 w ! 0, encode32 w ! Suc 0, encode32 w ! 2, encode32 w ! 3] = encode32 w"
  by (simp add: encode32_def)

text \<open>The bytes of two different aligned words are different.\<close>

lemma aligned_words:
  fixes a b :: u32
  assumes "unat a mod 4 = 0" "unat b mod 4 = 0" "a + i = b + j" "unat i < 4" "unat j < 4"
  shows "a = b \<and> i = j"
proof -
  have s: "unat (c + k) = unat c + unat k" if "unat c mod 4 = 0" "unat k < 4" for c k :: u32
  proof -
    have "unat c = 4 * (unat c div 4)" using that(1) by presburger
    then obtain q where q: "unat c = 4 * q" by blast
    have "q < 2 ^ 30" using u32_bound [of c] q by simp
    then have "unat c + unat k < 2 ^ 32" using q that(2) by simp
    then show ?thesis by (simp add: unat_plus_if')
  qed
  have e: "unat a + unat i = unat b + unat j" using s [OF assms(1,4)] s [OF assms(2,5)] assms(3) by simp
  then have "unat i = unat j" using assms by presburger
  then show ?thesis using e by (simp add: word_unat_eq_iff)
qed

lemma load32_store32:
  assumes "unat a mod 4 = 0" "unat b mod 4 = 0"
  shows "load32 (store32 a w mem) b = (if a = b then w else load32 mem b)"
proof (cases "a = b")
  case True
  then show ?thesis by (simp add: load32_def store32_def Let_def)
next
  case False
  then have other: "b + j \<noteq> a + i" if "unat i < 4" "unat j < 4" for i j
    using aligned_words [OF assms] that by metis
  have "store32 a w mem (b + j) = mem (b + j)" if "unat j < 4" for j
    using other [OF _ that, of 0] other [OF _ that, of 1] other [OF _ that, of 2] other [OF _ that, of 3]
    by (simp add: store32_def Let_def)
  from this [of 0] this [of 1] this [of 2] this [of 3] show ?thesis using False
    by (simp add: load32_def)
qed

text \<open>The entries of aligned pages.\<close>

lemma unat_times_4: "unat i < 1024 \<Longrightarrow> unat (4 * i :: u32) = 4 * unat i"
  using unat_mult_lem [of "4 :: u32" i] by simp

lemma unat_entry: "pg_ofs p = 0 \<Longrightarrow> unat i < 1024 \<Longrightarrow> unat (p + 4 * i) = unat p + 4 * unat i"
  by (simp add: unat_page_plus unat_times_4)

lemma entry_aligned:
  assumes "pg_ofs p = 0" "unat i < 1024"
  shows "unat (p + 4 * i) mod 4 = 0"
proof -
  obtain q where "unat p = 4096 * q" by (rule page_multiple [OF assms(1)])
  then show ?thesis using assms by (simp add: unat_entry)
qed

lemma entry_inj:
  assumes "pg_ofs p = 0" "pg_ofs q = 0" "unat i < 1024" "unat j < 1024"
  shows "p + 4 * i = q + 4 * j \<longleftrightarrow> p = q \<and> i = j"
proof
  assume "p + 4 * i = q + 4 * j"
  then have "unat p + 4 * unat i = unat q + 4 * unat j" using unat_entry assms by metis
  then show "p = q \<and> i = j" using same_page [OF assms(1,2)] assms(3,4) by (fastforce simp: word_unat_eq_iff)
qed simp

lemma load_store_entry:
  assumes "pg_ofs p = 0" "pg_ofs q = 0" "unat i < 1024" "unat j < 1024"
  shows "load_entry (store_entry (p + 4 * i) w st) (q + 4 * j) = (if p = q \<and> i = j then w else load_entry st (q + 4 * j))"
  using assms by (simp add: load_entry_def store_entry_def load32_store32 entry_aligned entry_inj)

text \<open>Writing a whole page.\<close>

lemma page_offset:
  assumes "pg_ofs p = 0" "pg_ofs q = 0" "unat i < 4096"
  shows "unat (q + i - p) < 4096 \<longleftrightarrow> p = q"
proof
  assume l: "unat (q + i - p) < 4096"
  have "q + i = p + (q + i - p)" by simp
  then have "unat q + unat i = unat p + unat (q + i - p)"
    using unat_page_plus [OF assms(2,3)] unat_page_plus [OF assms(1) l] by metis
  then show "p = q" using same_page [OF assms(1,2)] l assms(3) by metis
qed (use assms(3) in simp)

lemma load32_cong:
  "mem a = mem' b \<Longrightarrow> mem (a + 1) = mem' (b + 1) \<Longrightarrow> mem (a + 2) = mem' (b + 2) \<Longrightarrow> mem (a + 3) = mem' (b + 3) \<Longrightarrow>
   load32 mem a = load32 mem' b"
  by (simp add: load32_def)

lemma entry_bytes: "unat i < 1024 \<Longrightarrow> unat k < 4 \<Longrightarrow> unat (4 * i + k :: u32) < 4096"
  by (simp add: unat_plus_if' unat_times_4)

lemma load_page_cong:
  assumes "\<And>k. unat k < 4096 \<Longrightarrow> mem (p + k) = mem' (q + k)" "unat i < 1024"
  shows "load32 mem (p + 4 * i) = load32 mem' (q + 4 * i)"
proof -
  have "mem (p + 4 * i + k) = mem' (q + 4 * i + k)" if "unat k < 4" for k
    using assms(1) [OF entry_bytes [OF assms(2) that]] by (simp add: add.assoc)
  from this [of 0] this [of 1] this [of 2] this [of 3] show ?thesis by (intro load32_cong) simp_all
qed

lemma load_memset:
  assumes "pg_ofs p = 0" "pg_ofs q = 0" "unat i < 1024"
  shows "load32 (memset mem p v PGSIZE) (q + 4 * i) = (if p = q then decode32 [v, v, v, v] else load32 mem (q + 4 * i))"
proof (cases "p = q")
  case True
  have "load32 (memset mem p v PGSIZE) (q + 4 * i) = load32 (\<lambda>_. v) (q + 4 * i)"
    using page_offset [OF assms(1,2)] True by (intro load_page_cong) (simp_all add: memset_def PGSIZE_def assms(3))
  then show ?thesis using True by (simp add: load32_def)
next
  case False
  then have "load32 (memset mem p v PGSIZE) (q + 4 * i) = load32 mem (q + 4 * i)"
    using page_offset [OF assms(1,2)] by (intro load_page_cong) (simp_all add: memset_def PGSIZE_def assms(3))
  then show ?thesis using False by simp
qed

lemma load_copy_block:
  assumes "pg_ofs p = 0" "pg_ofs q = 0" "pg_ofs r = 0" "unat i < 1024"
  shows "load32 (copy_block p r PGSIZE mem) (q + 4 * i) = load32 mem ((if p = q then r else q) + 4 * i)"
proof (rule load_page_cong [OF _ assms(4)])
  fix k :: u32 assume "unat k < 4096"
  then show "copy_block p r PGSIZE mem (q + k) = mem ((if p = q then r else q) + k)"
    using page_offset [OF assms(1,2), of k] by (auto simp: copy_block_def PGSIZE_def)
qed

text \<open>The two indices of a user address are those of its page.\<close>

lemma unat_pd_no: "unat (pd_no v) = unat v div 4096 div 1024"
  unfolding pd_no_def PDSHIFT_def PTSHIFT_def PTBITS_def
  unfolding unat_drop_bit_eq by (simp add: drop_bit_eq_div div_mult2_eq [symmetric])

lemma unat_pt_no: "unat (pt_no v) = unat v div 4096 mod 1024"
proof -
  have "drop_bit 12 (0x3FF000 :: u32) = mask 10" by (simp add: mask_eq_exp_minus_1)
  then have "pt_no v = take_bit 10 (drop_bit 12 v)"
    by (simp add: pt_no_def PTSHIFT_def PTMASK_def take_bit_eq_mask)
  then have "unat (pt_no v) = take_bit 10 (drop_bit 12 (unat v))" by (simp only: unsigned_take_bit_eq unat_drop_bit_eq)
  then show ?thesis by (simp add: take_bit_eq_mod drop_bit_eq_div)
qed

lemma pt_no_bound [simp]: "unat (pt_no v) < 1024"
  by (simp add: unat_pt_no)

lemma pd_no_bound: "is_user_vaddr v \<Longrightarrow> unat (pd_no v) < 768"
  by (simp add: unat_pd_no is_user_vaddr_def PHYS_BASE_def word_less_nat_alt div_mult2_eq [symmetric] div_less_iff_less_mult)

lemma same_vpage: "pg_round_down v = pg_round_down w \<longleftrightarrow> pd_no v = pd_no w \<and> pt_no v = pt_no w"
proof -
  have "pg_round_down v = pg_round_down w \<longleftrightarrow> unat v div 4096 = unat w div 4096"
    by (simp add: word_unat_eq_iff unat_pg_round_down)
  moreover have "n = m \<longleftrightarrow> n div 1024 = m div 1024 \<and> n mod 1024 = m mod 1024" for n m :: nat
    by (metis mult_div_mod_eq)
  ultimately show ?thesis unfolding word_unat_eq_iff [of "pd_no v"] word_unat_eq_iff [of "pt_no v"] unat_pd_no unat_pt_no
    by blast
qed

lemma pg_round_down_aligned: "pg_ofs v = 0 \<Longrightarrow> pg_round_down v = v"
  by (simp add: pg_round_down_mod)

section \<open>Well-formed directories\<close>

text \<open>\<open>table_page\<close>: a page of the kernel pool that is in use. \<open>dirs_ok R st\<close>: the directories \<open>R\<close>,
  among them the one of the kernel alone, have page tables of their own for the user addresses.\<close>

definition table_page :: "mmu \<Rightarrow> u32 \<Rightarrow> bool" where
  "table_page st p \<longleftrightarrow> page_used False (ram st) p"

definition pde_at :: "mmu \<Rightarrow> u32 \<Rightarrow> u32 \<Rightarrow> u32" where
  "pde_at st pd i = load_entry st (pd + 4 * i)"

definition pt_at :: "mmu \<Rightarrow> u32 \<Rightarrow> u32 \<Rightarrow> u32" where
  "pt_at st pd i = (pde_at st pd i AND PTE_ADDR) + PHYS_BASE"

definition frame_ok :: "u32 \<Rightarrow> bool" where
  "frame_ok e \<longleftrightarrow> (e AND PTE_P \<noteq> 0 \<longrightarrow> e AND PTE_ADDR < 0x40000000)"

definition table_ok :: "mmu \<Rightarrow> u32 set \<Rightarrow> u32 \<Rightarrow> u32 \<Rightarrow> bool" where
  "table_ok st R pd i \<longleftrightarrow> pde_at st pd i AND PTE_P \<noteq> 0 \<and> pde_at st pd i AND PTE_ADDR < 0x40000000 \<and>
     table_page st (pt_at st pd i) \<and> pt_at st pd i \<notin> R \<and> (\<forall>j. unat j < 1024 \<longrightarrow> frame_ok (load_entry st (pt_at st pd i + 4 * j)))"

definition dirs_ok :: "u32 set \<Rightarrow> mmu \<Rightarrow> bool" where
  "dirs_ok R st \<longleftrightarrow> phys_ok (ram st) \<and> PHYS_BASE \<le> pool_base (kernel_pool (ram st)) \<and>
     init_page_dir st \<in> R \<and> (\<forall>i. unat i < 768 \<longrightarrow> pde_at st (init_page_dir st) i = 0) \<and>
     (\<forall>pd \<in> R. table_page st pd) \<and>
     (\<forall>pd \<in> R. \<forall>i. unat i < 768 \<and> pde_at st pd i \<noteq> 0 \<longrightarrow> table_ok st R pd i) \<and>
     (\<forall>pd \<in> R. \<forall>pd' \<in> R. \<forall>i i'. unat i < 768 \<and> unat i' < 768 \<and> pde_at st pd i \<noteq> 0 \<and> pde_at st pd' i' \<noteq> 0 \<and>
        pt_at st pd i = pt_at st pd' i' \<longrightarrow> pd = pd' \<and> i = i')"

text \<open>The page table entry of a user address, 0 if there is no page table.\<close>

definition user_pte :: "mmu \<Rightarrow> u32 \<Rightarrow> u32 \<Rightarrow> u32" where
  "user_pte st pd v = (if pde_at st pd (pd_no v) = 0 then 0
     else load_entry st (pt_at st pd (pd_no v) + 4 * pt_no v))"

lemma dirs_okD:
  assumes "dirs_ok R st"
  shows "phys_ok (ram st)" and "PHYS_BASE \<le> pool_base (kernel_pool (ram st))" and "init_page_dir st \<in> R"
    and "unat i < 768 \<Longrightarrow> pde_at st (init_page_dir st) i = 0" and "pd \<in> R \<Longrightarrow> table_page st pd"
    and "pd \<in> R \<Longrightarrow> unat i < 768 \<Longrightarrow> pde_at st pd i \<noteq> 0 \<Longrightarrow> table_ok st R pd i"
    and "pd \<in> R \<Longrightarrow> pd' \<in> R \<Longrightarrow> unat i < 768 \<Longrightarrow> unat i' < 768 \<Longrightarrow> pde_at st pd i \<noteq> 0 \<Longrightarrow> pde_at st pd' i' \<noteq> 0 \<Longrightarrow>
      pt_at st pd i = pt_at st pd' i' \<Longrightarrow> pd = pd' \<and> i = i'"
  using assms unfolding dirs_ok_def by blast+

lemma dirs_okI:
  assumes "phys_ok (ram st)" "PHYS_BASE \<le> pool_base (kernel_pool (ram st))" "init_page_dir st \<in> R"
    and "\<And>i. unat i < 768 \<Longrightarrow> pde_at st (init_page_dir st) i = 0" and "\<And>pd. pd \<in> R \<Longrightarrow> table_page st pd"
    and "\<And>pd i. pd \<in> R \<Longrightarrow> unat i < 768 \<Longrightarrow> pde_at st pd i \<noteq> 0 \<Longrightarrow> table_ok st R pd i"
    and "\<And>pd pd' i i'. pd \<in> R \<Longrightarrow> pd' \<in> R \<Longrightarrow> unat i < 768 \<Longrightarrow> unat i' < 768 \<Longrightarrow> pde_at st pd i \<noteq> 0 \<Longrightarrow>
      pde_at st pd' i' \<noteq> 0 \<Longrightarrow> pt_at st pd i = pt_at st pd' i' \<Longrightarrow> pd = pd' \<and> i = i'"
  shows "dirs_ok R st"
  unfolding dirs_ok_def using assms by (intro conjI) blast+

lemma table_pageD:
  assumes "dirs_ok R st" "table_page st p"
  shows "pg_ofs p = 0" and "p \<noteq> 0" and "PHYS_BASE \<le> p"
proof -
  have "page_used False (ram st) p" using assms(2) by (simp add: table_page_def)
  note p = page_usedD [OF dirs_okD(1) [OF assms(1)] this]
  then show "pg_ofs p = 0" "p \<noteq> 0" "PHYS_BASE \<le> p"
    using dirs_okD(2) [OF assms(1)] by (simp_all add: get_pool_def word_le_nat_alt)
qed

lemma table_okD:
  assumes "table_ok st R pd i"
  shows "pde_at st pd i AND PTE_P \<noteq> 0" "pde_at st pd i AND PTE_ADDR < 0x40000000" "table_page st (pt_at st pd i)"
    "pt_at st pd i \<notin> R" "unat j < 1024 \<Longrightarrow> frame_ok (load_entry st (pt_at st pd i + 4 * j))"
  using assms by (simp_all add: table_ok_def)

lemma table_page_pt: "dirs_ok R st \<Longrightarrow> q \<in> R \<Longrightarrow> unat k < 768 \<Longrightarrow> pde_at st q k \<noteq> 0 \<Longrightarrow> table_page st (pt_at st q k)"
  by (rule table_okD(3) [OF dirs_okD(6)])

section \<open>Looking up entries\<close>

lemma ptov_low:
  assumes "p < 0x40000000"
  shows "ptov p = Some (p + PHYS_BASE)" and "vtop (p + PHYS_BASE) = Some p" and "p + PHYS_BASE \<noteq> 0"
proof -
  obtain v where v: "ptov p = Some v" "vtop v = Some p" using ptov_vtop [OF assms] by blast
  then have e: "v = p + PHYS_BASE" by (simp add: ptov_def kassert_bind_Some_iff)
  then show "ptov p = Some (p + PHYS_BASE)" "vtop (p + PHYS_BASE) = Some p" using v by simp_all
  then show "p + PHYS_BASE \<noteq> 0" by (auto simp: vtop_def is_kernel_vaddr_def PHYS_BASE_def kassert_bind_Some_iff)
qed

lemma vtop_high:
  assumes "PHYS_BASE \<le> v"
  shows "vtop v = Some (v - PHYS_BASE)" and "v - PHYS_BASE < 0x40000000"
proof -
  show "vtop v = Some (v - PHYS_BASE)" using assms by (simp add: vtop_def is_kernel_vaddr_def)
  have "unat (v - PHYS_BASE) = unat v - 0xC0000000" using assms by (simp add: unat_sub PHYS_BASE_def)
  then show "v - PHYS_BASE < 0x40000000" using u32_bound [of v] by (simp add: word_less_nat_alt)
qed

text \<open>An aligned physical address combined with flags.\<close>

lemma aligned_PTE_ADDR: "pg_ofs p = 0 \<Longrightarrow> p AND PTE_ADDR = p"
proof -
  assume "pg_ofs p = 0"
  then have "pg_round_down p = p" by (rule pg_round_down_aligned)
  moreover have "NOT PGMASK = PTE_ADDR" by (simp add: PGMASK_def PTE_ADDR_def)
  ultimately show ?thesis by (simp add: pg_round_down_def)
qed

lemma phys_aligned:
  assumes "pg_ofs v = 0" "PHYS_BASE \<le> v"
  shows "pg_ofs (v - PHYS_BASE) = 0"
proof -
  obtain q where q: "unat v = 4096 * q" by (rule page_multiple [OF assms(1)])
  have "unat (v - PHYS_BASE) = unat v - 4096 * 0xC0000" using assms(2) by (simp add: unat_sub PHYS_BASE_def)
  then have "unat (v - PHYS_BASE) = 4096 * (q - 0xC0000)" using q by (simp add: diff_mult_distrib2)
  then have "unat (pg_ofs (v - PHYS_BASE)) = 0" by (simp add: pg_ofs_mod)
  then show ?thesis by (simp add: unat_eq_0)
qed

lemma entry_flags:
  assumes "pg_ofs p = 0" "f AND PTE_ADDR = 0"
  shows "(p OR f) AND PTE_ADDR = p" and "f AND PTE_P \<noteq> 0 \<Longrightarrow> (p OR f) AND PTE_P \<noteq> 0"
proof -
  show "(p OR f) AND PTE_ADDR = p"
    by (simp only: bit.conj_disj_distrib2 aligned_PTE_ADDR [OF assms(1)] assms(2) or.right_neutral)
  show "(p OR f) AND PTE_P \<noteq> 0" if "f AND PTE_P \<noteq> 0"
    using that by (simp add: bit.conj_disj_distrib2 or_eq_0_iff)
qed

lemma pde_create_ok:
  assumes "pg_ofs pt = 0" "PHYS_BASE \<le> pt"
  shows "\<exists>e. pde_create pt = Some e \<and> e AND PTE_P \<noteq> 0 \<and> e AND PTE_ADDR < 0x40000000 \<and> (e AND PTE_ADDR) + PHYS_BASE = pt"
proof -
  let ?p = "pt - PHYS_BASE" and ?f = "PTE_U OR PTE_P OR PTE_W"
  have f: "?f AND PTE_ADDR = 0" "?f AND PTE_P \<noteq> 0" by (simp_all add: PTE_U_def PTE_P_def PTE_W_def PTE_ADDR_def)
  note e = entry_flags [OF phys_aligned [OF assms] f(1)]
  show ?thesis using e(1) e(2) [OF f(2)] vtop_high [OF assms(2)] assms(1)
    by (simp add: pde_create_def or.assoc)
qed

lemma pte_create_ok:
  assumes "pg_ofs page = 0" "PHYS_BASE \<le> page"
  shows "\<exists>e. pte_create_user page w = Some e \<and> e AND PTE_P \<noteq> 0 \<and> e AND PTE_ADDR < 0x40000000 \<and> (e AND PTE_ADDR) + PHYS_BASE = page"
proof -
  let ?p = "page - PHYS_BASE" and ?f = "PTE_P OR (if w then PTE_W else 0) OR PTE_U"
  have f: "?f AND PTE_ADDR = 0" "?f AND PTE_P \<noteq> 0" by (simp_all add: PTE_U_def PTE_P_def PTE_W_def PTE_ADDR_def)
  note e = entry_flags [OF phys_aligned [OF assms] f(1)]
  show ?thesis using e(1) e(2) [OF f(2)] vtop_high [OF assms(2)] assms(1)
    by (simp add: pte_create_user_def pte_create_kernel_def or.assoc)
qed

text \<open>Where the entry of a user address is; \<open>pte_addr\<close> is 0 if there is no page table.\<close>

definition pte_addr :: "mmu \<Rightarrow> u32 \<Rightarrow> u32 \<Rightarrow> u32" where
  "pte_addr st pd v = (if pde_at st pd (pd_no v) = 0 then 0 else pt_at st pd (pd_no v) + 4 * pt_no v)"

lemma lookup_page_eq:
  assumes "dirs_ok R st" "pd \<in> R" "is_user_vaddr v"
  shows "lookup_page pd v False st = Some (pte_addr st pd v, st)"
    and "pte_addr st pd v = 0 \<longleftrightarrow> pde_at st pd (pd_no v) = 0"
    and "pte_addr st pd v \<noteq> 0 \<Longrightarrow> load_entry st (pte_addr st pd v) = user_pte st pd v"
proof -
  have pd: "pd \<noteq> 0" using table_pageD(2) dirs_okD(5) assms by blast
  have nz: "pt_at st pd (pd_no v) + 4 * pt_no v \<noteq> 0 \<and> pde_get_pt (pde_at st pd (pd_no v)) = Some (pt_at st pd (pd_no v))"
    if "pde_at st pd (pd_no v) \<noteq> 0"
  proof -
    note t = table_okD [OF dirs_okD(6) [OF assms(1,2) pd_no_bound [OF assms(3)] that]]
    note p = table_pageD [OF assms(1) t(3)]
    have "unat (pt_at st pd (pd_no v) + 4 * pt_no v) = unat (pt_at st pd (pd_no v)) + 4 * unat (pt_no v)"
      by (rule unat_entry [OF p(1)]) simp
    moreover have "unat (pt_at st pd (pd_no v)) \<noteq> 0" using p(2) by (simp add: unat_eq_0)
    ultimately have "pt_at st pd (pd_no v) + 4 * pt_no v \<noteq> 0" by (metis add_is_0 unat_0)
    then show ?thesis using t(1,2) by (simp add: pde_get_pt_def ptov_low pt_at_def)
  qed
  then show "lookup_page pd v False st = Some (pte_addr st pd v, st)"
    using pd by (simp add: lookup_page_def pte_addr_def pde_at_def)
  show "pte_addr st pd v = 0 \<longleftrightarrow> pde_at st pd (pd_no v) = 0" using nz by (simp add: pte_addr_def)
  show "load_entry st (pte_addr st pd v) = user_pte st pd v" if "pte_addr st pd v \<noteq> 0"
    using that by (auto simp: pte_addr_def user_pte_def split: if_splits)
qed

section \<open>Changing entries\<close>

lemma store_entry_simps [simp]:
  "kernel_pool (ram (store_entry a w st)) = kernel_pool (ram st)" "user_pool (ram (store_entry a w st)) = user_pool (ram st)"
  "init_page_dir (store_entry a w st) = init_page_dir st" "init_ram_pages (store_entry a w st) = init_ram_pages st"
  "cr3 (store_entry a w st) = cr3 st" "tlb (store_entry a w st) = tlb st"
  "phys_ok (ram (store_entry a w st)) = phys_ok (ram st)" "table_page (store_entry a w st) = table_page st"
  by (simp_all add: store_entry_def table_page_def fun_eq_iff page_used_def)

lemma dirs_ok_same:
  assumes ok: "dirs_ok R st" and ph: "phys_ok (ram st')" "pool_base (kernel_pool (ram st')) = pool_base (kernel_pool (ram st))"
    and ini: "init_page_dir st' = init_page_dir st"
    and pde: "\<And>q k. q \<in> R \<Longrightarrow> unat k < 768 \<Longrightarrow> pde_at st' q k = pde_at st q k"
    and tp: "\<And>q. q \<in> R \<Longrightarrow> table_page st' q"
    and tt: "\<And>q k. q \<in> R \<Longrightarrow> unat k < 768 \<Longrightarrow> pde_at st q k \<noteq> 0 \<Longrightarrow> table_page st' (pt_at st q k)"
    and fr: "\<And>q k j. q \<in> R \<Longrightarrow> unat k < 768 \<Longrightarrow> pde_at st q k \<noteq> 0 \<Longrightarrow> unat j < 1024 \<Longrightarrow>
      frame_ok (load_entry st' (pt_at st q k + 4 * j))"
  shows "dirs_ok R st'"
proof -
  have pt: "pt_at st' q k = pt_at st q k" if "q \<in> R" "unat k < 768" for q k
    using pde [OF that] by (simp add: pt_at_def)
  have tok: "table_ok st' R q k" if "q \<in> R" "unat k < 768" "pde_at st' q k \<noteq> 0" for q k
  proof -
    have "pde_at st q k \<noteq> 0" using that(3) pde [OF that(1,2)] by simp
    note u = table_okD [OF dirs_okD(6) [OF ok that(1,2) this]] and f = fr [OF that(1,2) this]
    then show ?thesis using pde [OF that(1,2)] pt [OF that(1,2)] tt [OF that(1,2) \<open>pde_at st q k \<noteq> 0\<close>] by (simp add: table_ok_def)
  qed
  have inj: "q = q' \<and> k = k'" if "q \<in> R" "q' \<in> R" "unat k < 768" "unat k' < 768" "pde_at st' q k \<noteq> 0" "pde_at st' q' k' \<noteq> 0"
       "pt_at st' q k = pt_at st' q' k'" for q q' k k'
    using dirs_okD(7) [OF ok that(1-4)] that(5-7) pde [OF that(1,3)] pde [OF that(2,4)] pt [OF that(1,3)] pt [OF that(2,4)]
    by simp
  show ?thesis
    by (rule dirs_okI) (use dirs_okD(1-5) [OF ok] ph ini pde [OF dirs_okD(3) [OF ok]] tp tok inj in \<open>simp_all\<close>)
qed

text \<open>Writing an entry of a page table of \<open>pd\<close>: only that page of that directory is affected.\<close>

lemma store_pte:
  assumes "dirs_ok R st" "pd \<in> R" "is_user_vaddr v" "pde_at st pd (pd_no v) \<noteq> 0" "frame_ok w"
  defines "st' \<equiv> store_entry (pte_addr st pd v) w st"
  shows "dirs_ok R st'"
    and "pd' \<in> R \<Longrightarrow> is_user_vaddr v' \<Longrightarrow>
      user_pte st' pd' v' = (if pd' = pd \<and> pg_round_down v' = pg_round_down v then w else user_pte st pd' v')"
    and "pd' \<in> R \<Longrightarrow> is_user_vaddr v' \<Longrightarrow> pte_addr st' pd' v' = pte_addr st pd' v'"
proof -
  let ?i = "pd_no v" and ?j = "pt_no v"
  let ?T = "pt_at st pd ?i"
  note i = pd_no_bound [OF assms(3)]
  note t = table_okD [OF dirs_okD(6) [OF assms(1,2) i assms(4)]]
  have T: "pg_ofs ?T = 0" using table_pageD(1) [OF assms(1) t(3)] .
  have a: "pte_addr st pd v = ?T + 4 * ?j" using assms(4) by (simp add: pte_addr_def)
  have load: "load_entry st' (q + 4 * k) = (if ?T = q \<and> ?j = k then w else load_entry st (q + 4 * k))"
    if "pg_ofs q = 0" "unat k < 1024" for q k
    unfolding st'_def a by (rule load_store_entry [OF T that(1) _ that(2)]) simp
  have pde: "pde_at st' q k = pde_at st q k" if "q \<in> R" "unat k < 1024" for q k
    using load [OF table_pageD(1) [OF assms(1) dirs_okD(5) [OF assms(1) that(1)]] that(2)] t(4) that(1)
    by (auto simp: pde_at_def)
  then have pt: "pt_at st' q k = pt_at st q k" if "q \<in> R" "unat k < 1024" for q k
    using that by (simp add: pt_at_def)
  show "dirs_ok R st'"
  proof (rule dirs_ok_same [OF assms(1)])
    fix q k j assume q: "q \<in> R" "unat k < 768" "pde_at st q k \<noteq> 0" and j: "unat (j :: u32) < 1024"
    note u = table_okD [OF dirs_okD(6) [OF assms(1) q]]
    show "frame_ok (load_entry st' (pt_at st q k + 4 * j))"
      using load [OF table_pageD(1) [OF assms(1) u(3)] j] u(5) [OF j] assms(5) by simp
  qed (use dirs_okD(1,5) [OF assms(1)] table_page_pt [OF assms(1)] pde in \<open>simp_all add: st'_def\<close>)
  show "pte_addr st' pd' v' = pte_addr st pd' v'" if "pd' \<in> R" "is_user_vaddr v'" for pd' v'
    using pde [OF that(1)] pt [OF that(1)] pd_no_bound [OF that(2)] by (simp add: pte_addr_def)
  show "user_pte st' pd' v' = (if pd' = pd \<and> pg_round_down v' = pg_round_down v then w else user_pte st pd' v')"
    if "pd' \<in> R" "is_user_vaddr v'" for pd' v'
  proof (cases "pde_at st pd' (pd_no v') = 0")
    case True
    then have "\<not> (pd' = pd \<and> pd_no v' = ?i)" using assms(4) by metis
    then show ?thesis using True pde [OF that(1)] pd_no_bound [OF that(2)] by (auto simp: user_pte_def same_vpage)
  next
    case False
    note i' = pd_no_bound [OF that(2)]
    note u = table_okD [OF dirs_okD(6) [OF assms(1) that(1) i' False]]
    have "?T = pt_at st pd' (pd_no v') \<longleftrightarrow> pd' = pd \<and> pd_no v' = ?i"
      using dirs_okD(7) [OF assms(1,2) that(1) i i' assms(4) False] by metis
    then show ?thesis
      using False load [OF table_pageD(1) [OF assms(1) u(3)], of "pt_no v'"] pde [OF that(1)] pt [OF that(1)] i'
      by (auto simp: user_pte_def same_vpage)
  qed
qed

section \<open>New pages for tables\<close>

definition kernel_full :: "mmu \<Rightarrow> bool" where
  "kernel_full st \<longleftrightarrow> {..<bit_cnt (used_map (kernel_pool (ram st)))} \<subseteq> marked (used_map (kernel_pool (ram st)))"

text \<open>A request for a page of the kernel: the page was not in use before, and only its bytes change.\<close>

lemma get_table_page:
  assumes ok: "dirs_ok R st" and fl: "flags AND PAL_USER = 0" "flags AND PAL_ASSERT = 0"
  obtains (full) r where "palloc_get_page flags (ram st) = Some (0, r)" "dirs_ok R (st\<lparr>ram := r\<rparr>)"
      "phys_mem r = phys_mem (ram st)" "table_page (st\<lparr>ram := r\<rparr>) = table_page st" "kernel_full st"
    | (page) p r where "palloc_get_page flags (ram st) = Some (p, r)" "p \<noteq> 0" "pg_ofs p = 0" "PHYS_BASE \<le> p"
      "phys_ok r" "pool_base (kernel_pool r) = pool_base (kernel_pool (ram st))"
      "phys_mem r = (if flags AND PAL_ZERO \<noteq> 0 then memset (phys_mem (ram st)) p 0 PGSIZE else phys_mem (ram st))"
      "\<not> table_page st p" "table_page (st\<lparr>ram := r\<rparr>) = (\<lambda>q. table_page st q \<or> q = p)"
proof -
  have u: "False = (flags AND PAL_USER \<noteq> 0)" using fl(1) by simp
  have kp: "kernel_pool s = get_pool False s" "user_pool s = get_pool True s" for s by (simp_all add: get_pool_def)
  note ph = dirs_okD(1) [OF ok]
  show thesis
  proof (rule palloc_get_pages [OF ph zero_less_one fl(2) u])
    fix r assume r: "palloc_get_multiple flags 1 (ram st) = Some (0, r)" "phys_ok r" "phys_mem r = phys_mem (ram st)"
      "\<forall>v. page_used v r = page_used v (ram st)" "\<forall>v. pool_base (get_pool v r) = pool_base (get_pool v (ram st))"
      "\<forall>i. i + 1 \<le> bit_cnt (used_map (get_pool False (ram st))) \<longrightarrow> {i..<i + 1} \<inter> marked (used_map (get_pool False (ram st))) \<noteq> {}"
    have "k \<in> marked (used_map (kernel_pool (ram st)))" if "k < bit_cnt (used_map (kernel_pool (ram st)))" for k
      using r(6) [THEN spec, of k] that by (simp add: kp)
    then have "kernel_full st" by (auto simp: kernel_full_def)
    moreover have "dirs_ok R (st\<lparr>ram := r\<rparr>)"
    proof (rule dirs_ok_same [OF ok])
      fix q k j assume q: "q \<in> R" "unat k < 768" "pde_at st q k \<noteq> 0" and j: "unat (j :: u32) < 1024"
      show "frame_ok (load_entry (st\<lparr>ram := r\<rparr>) (pt_at st q k + 4 * j))"
        using table_okD(5) [OF dirs_okD(6) [OF ok q] j] by (simp add: load_entry_def r(3))
    qed (use r(2-5) kp dirs_okD(5) [OF ok] table_page_pt [OF ok] in \<open>simp_all add: pde_at_def load_entry_def table_page_def\<close>)
    ultimately show thesis using full [of r] r(1,3,4) by (simp add: palloc_get_page_def table_page_def fun_eq_iff)
  next
    fix p r assume r: "palloc_get_multiple flags 1 (ram st) = Some (p, r)" "phys_ok r" "p \<noteq> 0" "pg_ofs p = 0"
      "phys_mem r = (if flags AND PAL_ZERO \<noteq> 0 then memset (phys_mem (ram st)) p 0 (PGSIZE * 1) else phys_mem (ram st))"
      "run_used False r p 1" "\<forall>q \<in> pages p 1. \<not> page_used False (ram st) q"
      "\<forall>v q. page_used v r q \<longleftrightarrow> page_used v (ram st) q \<or> v = False \<and> q \<in> pages p 1"
      "\<forall>v. pool_base (get_pool v r) = pool_base (get_pool v (ram st))"
    have "page_used False r p" using r(8) by simp
    from page_usedD(3) [OF r(2) this] have "PHYS_BASE \<le> p"
      using r(9) dirs_okD(2) [OF ok] by (simp add: kp word_le_nat_alt)
    then show thesis using r kp by (intro page [of p r]) (simp_all add: palloc_get_page_def table_page_def fun_eq_iff)
  qed
qed

text \<open>Installing a new page table changes no mapping.\<close>

lemma new_table:
  assumes ok: "dirs_ok R st" and pd: "pd \<in> R" and v: "is_user_vaddr v" and no: "pde_at st pd (pd_no v) = 0" and ini: "pd \<noteq> init_page_dir st"
    and r: "pg_ofs pt = 0" "PHYS_BASE \<le> pt" "phys_ok r" "pool_base (kernel_pool r) = pool_base (kernel_pool (ram st))"
      "phys_mem r = memset (phys_mem (ram st)) pt 0 PGSIZE" "\<not> table_page st pt"
      "table_page (st\<lparr>ram := r\<rparr>) = (\<lambda>q. table_page st q \<or> q = pt)"
    and e: "e AND PTE_P \<noteq> 0" "e AND PTE_ADDR < 0x40000000" "(e AND PTE_ADDR) + PHYS_BASE = pt"
  defines "st' \<equiv> store_entry (pd + 4 * pd_no v) e (st\<lparr>ram := r\<rparr>)"
  shows "dirs_ok R st'" and "pde_at st' pd (pd_no v) = e" and "pt_at st' pd (pd_no v) = pt"
    and "q \<in> R \<Longrightarrow> is_user_vaddr v' \<Longrightarrow> user_pte st' q v' = user_pte st q v'"
proof -
  let ?i = "pd_no v"
  have i: "unat ?i < 768" using v by (rule pd_no_bound)
  have tp: "table_page st q" if "q \<in> R" for q using dirs_okD(5) [OF ok that] .
  have al: "pg_ofs q = 0" if "q \<in> R" for q using table_pageD(1) [OF ok tp [OF that]] .
  have ne: "q \<noteq> pt" if "q \<in> R" for q using tp [OF that] r(6) by blast
  have load: "load_entry st' (q + 4 * k) =
      (if pd = q \<and> ?i = k then e else if pt = q then 0 else load_entry st (q + 4 * k))"
    if "pg_ofs q = 0" "unat k < 1024" for q k
  proof -
    have "load_entry st' (q + 4 * k) = (if pd = q \<and> ?i = k then e else load_entry (st\<lparr>ram := r\<rparr>) (q + 4 * k))"
      unfolding st'_def by (rule load_store_entry [OF al [OF pd] that(1) _ that(2)]) (use i in simp)
    moreover have "decode32 [0, 0, 0, 0] = 0" by (simp add: decode32_def)
    ultimately show ?thesis using load_memset [OF r(1) that, of "phys_mem (ram st)" 0]
      by (auto simp: load_entry_def r(5))
  qed
  have pde: "pde_at st' q k = (if pd = q \<and> ?i = k then e else pde_at st q k)" if "q \<in> R" "unat k < 768" for q k
    using load [OF al [OF that(1)], of k] ne [OF that(1)] that(2) by (auto simp: pde_at_def)
  have e0: "e \<noteq> 0" using e(1) by auto
  show pde': "pde_at st' pd ?i = e" using pde [OF pd i] by simp
  show pt': "pt_at st' pd ?i = pt" using pde' e(3) by (simp add: pt_at_def)
  have pt: "pt_at st' q k = pt_at st q k" if "q \<in> R" "unat k < 768" "\<not> (pd = q \<and> ?i = k)" for q k
    using pde [OF that(1,2)] that(3) by (auto simp: pt_at_def)
  have tp': "table_page st' = (\<lambda>q. table_page st q \<or> q = pt)" using r(7) by (simp add: st'_def)
  have old: "table_page st (pt_at st q k) \<and> pt_at st q k \<noteq> pt \<and> pt_at st q k \<notin> R \<and> pg_ofs (pt_at st q k) = 0"
    if "q \<in> R" "unat k < 768" "pde_at st q k \<noteq> 0" for q k
  proof -
    note u = table_okD [OF dirs_okD(6) [OF ok that]]
    then show ?thesis using table_pageD(1) [OF ok u(3)] r(6) by auto
  qed
  have ft: "load_entry st' (pt_at st q k + 4 * j) = load_entry st (pt_at st q k + 4 * j)"
    if "q \<in> R" "unat k < 768" "pde_at st q k \<noteq> 0" "unat j < 1024" for q k j
    using load [of "pt_at st q k" j] old [OF that(1-3)] that(4) pd by auto
  show "dirs_ok R st'"
  proof (rule dirs_okI)
    show "phys_ok (ram st')" "PHYS_BASE \<le> pool_base (kernel_pool (ram st'))" "init_page_dir st' \<in> R"
      using dirs_okD(1-3) [OF ok] r(3,4) by (simp_all add: st'_def)
    show "table_page st' q" if "q \<in> R" for q using tp [OF that] tp' by simp
    show "table_ok st' R q k" if "q \<in> R" "unat k < 768" "pde_at st' q k \<noteq> 0" for q k
    proof (cases "pd = q \<and> ?i = k")
      case True
      have "frame_ok (load_entry st' (pt + 4 * j))" if "unat j < 1024" for j
        using load [OF r(1) that] ne [OF pd] by (simp add: frame_ok_def)
      then show ?thesis using True pde' pt' e tp' ne by (auto simp: table_ok_def)
    next
      case False
      then have z: "pde_at st' q k = pde_at st q k" using pde [OF that(1,2)] by auto
      then have "pde_at st q k \<noteq> 0" using that(3) by simp
      note u = table_okD [OF dirs_okD(6) [OF ok that(1,2) this]] and f = ft [OF that(1,2) this]
      show ?thesis using u(1-4) u(5) f z pt [OF that(1,2) False] tp' by (simp add: table_ok_def)
    qed
    show "q = q' \<and> k = k'" if "q \<in> R" "q' \<in> R" "unat k < 768" "unat k' < 768" "pde_at st' q k \<noteq> 0" "pde_at st' q' k' \<noteq> 0"
      "pt_at st' q k = pt_at st' q' k'" for q q' k k'
    proof -
      have new: False if "q \<in> R" "unat k < 768" "\<not> (pd = q \<and> ?i = k)" "pde_at st' q k \<noteq> 0" "pt_at st' q k = pt" for q k
        using old [OF that(1,2)] pde [OF that(1,2)] pt [OF that(1,2,3)] that(3-5) by auto
      show ?thesis
        using dirs_okD(7) [OF ok that(1-4)] that pde [OF that(1,3)] pde [OF that(2,4)] pt [OF that(1,3)] pt [OF that(2,4)]
          new [OF that(1,3)] new [OF that(2,4)] pt' by metis
    qed
    show "pde_at st' (init_page_dir st') k = 0" if "unat k < 768" for k
      using pde [OF dirs_okD(3) [OF ok] that] dirs_okD(4) [OF ok that] ini by (simp add: st'_def)
  qed
  show "user_pte st' q v' = user_pte st q v'" if "q \<in> R" "is_user_vaddr v'" for q v'
  proof (cases "pd = q \<and> ?i = pd_no v'")
    case True
    then have "user_pte st q v' = 0" using no by (simp add: user_pte_def)
    moreover have "load_entry st' (pt + 4 * pt_no v') = 0" using load [OF r(1), of "pt_no v'"] ne [OF pd] by simp
    then have "user_pte st' q v' = 0" using True pde' pt' by (auto simp: user_pte_def)
    ultimately show ?thesis by simp
  next
    case False
    note b = pd_no_bound [OF that(2)]
    show ?thesis using pde [OF that(1) b] pt [OF that(1) b False] ft [OF that(1) b] False by (auto simp: user_pte_def)
  qed
qed

section \<open>What the operations do\<close>

lemma user_pte_frame_ok:
  assumes "dirs_ok R st" "pd \<in> R" "is_user_vaddr v"
  shows "frame_ok (user_pte st pd v)"
proof (cases "pde_at st pd (pd_no v) = 0")
  case True
  then show ?thesis by (simp add: user_pte_def frame_ok_def)
next
  case False
  then show ?thesis
    using table_okD(5) [OF dirs_okD(6) [OF assms(1,2) pd_no_bound [OF assms(3)] False]] by (simp add: user_pte_def)
qed

lemma get_page_eq:
  assumes "dirs_ok R st" "pd \<in> R" "is_user_vaddr v"
  shows "pagedir_get_page pd v st = Some (if user_pte st pd v AND PTE_P = 0 then 0
    else (user_pte st pd v AND PTE_ADDR) + PHYS_BASE + pg_ofs v)"
proof (cases "pte_addr st pd v = 0")
  case True
  then have "user_pte st pd v = 0" using lookup_page_eq(2) [OF assms] by (simp add: user_pte_def)
  then show ?thesis using assms(3) True by (simp add: pagedir_get_page_def lookup_page_eq(1) [OF assms])
next
  case False
  then show ?thesis using assms(3) lookup_page_eq(3) [OF assms False] user_pte_frame_ok [OF assms]
    by (auto simp: pagedir_get_page_def lookup_page_eq(1) [OF assms] pte_get_page_def ptov_low frame_ok_def)
qed

lemma is_dirty_eq:
  assumes "dirs_ok R st" "pd \<in> R" "is_user_vaddr v"
  shows "pagedir_is_dirty pd v st = Some (user_pte st pd v AND PTE_D \<noteq> 0)"
    and "pagedir_is_accessed pd v st = Some (user_pte st pd v AND PTE_A \<noteq> 0)"
  using lookup_page_eq [OF assms]
  by (auto simp: pagedir_is_dirty_def pagedir_is_accessed_def user_pte_def)

lemma lookup_create:
  assumes ok: "dirs_ok R st" and pd: "pd \<in> R" "pd \<noteq> init_page_dir st" and v: "is_user_vaddr v"
  shows "\<exists>pte st'. lookup_page pd v True st = Some (pte, st') \<and> dirs_ok R st' \<and> st' = st\<lparr>ram := ram st'\<rparr> \<and>
    (\<forall>q \<in> R. \<forall>v'. is_user_vaddr v' \<longrightarrow> user_pte st' q v' = user_pte st q v') \<and>
    (if pte = 0 then kernel_full st else pde_at st' pd (pd_no v) \<noteq> 0 \<and> pte = pte_addr st' pd v)"
proof (cases "pde_at st pd (pd_no v) = 0")
  case False
  then have "lookup_page pd v True st = lookup_page pd v False st"
    using v by (simp add: lookup_page_def pde_at_def)
  then show ?thesis using lookup_page_eq(1,2) [OF ok pd(1) v] False ok by simp
next
  case True
  have pd0: "pd \<noteq> 0" using table_pageD(2) dirs_okD(5) ok pd(1) by blast
  have fl: "PAL_ZERO AND PAL_USER = 0" "PAL_ZERO AND PAL_ASSERT = 0" "PAL_ZERO AND PAL_ZERO \<noteq> 0"
    by (simp_all add: PAL_ZERO_def PAL_USER_def PAL_ASSERT_def)
  show ?thesis
  proof (cases rule: get_table_page [OF ok fl(1,2)])
    case (1 r)
    have "lookup_page pd v True st = Some (0, st\<lparr>ram := r\<rparr>)"
      using True 1(1) pd0 v by (simp add: lookup_page_def pde_at_def)
    moreover have "user_pte (st\<lparr>ram := r\<rparr>) q v' = user_pte st q v'" for q v'
      using 1(3) by (simp add: user_pte_def pde_at_def pt_at_def load_entry_def)
    ultimately show ?thesis using 1(2,5) by (intro exI [of _ 0] exI [of _ "st\<lparr>ram := r\<rparr>"]) simp
  next
    case (2 pt r)
    obtain e where e: "pde_create pt = Some e" "e AND PTE_P \<noteq> 0" "e AND PTE_ADDR < 0x40000000" "(e AND PTE_ADDR) + PHYS_BASE = pt"
      using pde_create_ok [OF 2(3,4)] by blast
    have mem: "phys_mem r = memset (phys_mem (ram st)) pt 0 PGSIZE" using 2(7) fl(3) by simp
    define st' where "st' = store_entry (pd + 4 * pd_no v) e (st\<lparr>ram := r\<rparr>)"
    note n = new_table [OF ok pd(1) v True pd(2) 2(3-6) mem 2(8,9) e(2-4), folded st'_def]
    have nz: "e \<noteq> 0" using e(2) by auto
    have "lookup_page pd v True st = Some (pt + 4 * pt_no v, st')"
      using True 2(1,2) pd0 v e n(2)
      by (simp add: lookup_page_def pde_at_def st'_def [symmetric] pde_get_pt_def ptov_low)
    moreover have "pte_addr st' pd v = pt + 4 * pt_no v" using n(2,3) nz by (simp add: pte_addr_def)
    moreover from this have "pt + 4 * pt_no v \<noteq> 0"
      using lookup_page_eq(2) [OF n(1) pd(1) v] n(2) nz by simp
    moreover have "st' = st\<lparr>ram := ram st'\<rparr>" by (simp add: st'_def store_entry_def)
    ultimately show ?thesis using n(1,2,4) nz by (intro exI [of _ "pt + 4 * pt_no v"] exI [of _ st']) simp
  qed
qed

lemma set_page_eq:
  assumes ok: "dirs_ok R st" and pd: "pd \<in> R" "pd \<noteq> init_page_dir st" and u: "is_user_vaddr upage" "pg_ofs upage = 0"
    and k: "pg_ofs kpage = 0" "PHYS_BASE \<le> kpage" "drop_bit PTSHIFT (kpage - PHYS_BASE) < init_ram_pages st"
    and free: "user_pte st pd upage AND PTE_P = 0"
  shows "\<exists>ok e st'. pagedir_set_page pd upage kpage w st = Some (ok, st') \<and> dirs_ok R st' \<and> st' = st\<lparr>ram := ram st'\<rparr> \<and>
    pte_create_user kpage w = Some e \<and> e AND PTE_P \<noteq> 0 \<and> (e AND PTE_ADDR) + PHYS_BASE = kpage \<and> (\<not> ok \<longrightarrow> kernel_full st) \<and>
    (\<forall>q \<in> R. \<forall>v. is_user_vaddr v \<longrightarrow>
       user_pte st' q v = (if ok \<and> q = pd \<and> pg_round_down v = upage then e else user_pte st q v))"
proof -
  obtain pte s1 where l: "lookup_page pd upage True st = Some (pte, s1)" "dirs_ok R s1" "s1 = st\<lparr>ram := ram s1\<rparr>"
    "\<forall>q \<in> R. \<forall>v'. is_user_vaddr v' \<longrightarrow> user_pte s1 q v' = user_pte st q v'"
    "if pte = 0 then kernel_full st else pde_at s1 pd (pd_no upage) \<noteq> 0 \<and> pte = pte_addr s1 pd upage"
    using lookup_create [OF ok pd u(1)] by blast
  obtain e where e: "pte_create_user kpage w = Some e" "e AND PTE_P \<noteq> 0" "e AND PTE_ADDR < 0x40000000" "(e AND PTE_ADDR) + PHYS_BASE = kpage"
    using pte_create_ok [OF k(1,2)] by blast
  have run: "pagedir_set_page pd upage kpage w st = (if pte = 0 then Some (False, s1)
      else do { kassert (load_entry s1 pte AND PTE_P = 0); Some (True, store_entry pte e s1) })"
    using u k pd(2) l(1) e(1) vtop_high(1) [OF k(2)] by (simp add: pagedir_set_page_def)
  show ?thesis
  proof (cases "pte = 0")
    case True
    then show ?thesis using run l e by (intro exI [of _ False] exI [of _ e] exI [of _ s1]) simp
  next
    case False
    then have a: "pde_at s1 pd (pd_no upage) \<noteq> 0" "pte = pte_addr s1 pd upage" using l(5) by simp_all
    have "load_entry s1 pte AND PTE_P = 0"
      using lookup_page_eq(3) [OF l(2) pd(1) u(1)] a(2) False l(4) pd(1) u(1) free by simp
    then have r: "pagedir_set_page pd upage kpage w st = Some (True, store_entry (pte_addr s1 pd upage) e s1)"
      using run False a(2) by simp
    have fo: "frame_ok e" using e(3) by (simp add: frame_ok_def)
    note s = store_pte [OF l(2) pd(1) u(1) a(1) fo]
    have "store_entry (pte_addr s1 pd upage) e s1 = st\<lparr>ram := ram (store_entry (pte_addr s1 pd upage) e s1)\<rparr>"
      by (subst l(3)) (simp add: store_entry_def)
    then show ?thesis
      using r s(1,2) l(4) e pg_round_down_aligned [OF u(2)]
      by (intro exI [of _ True] exI [of _ e] exI [of _ "store_entry (pte_addr s1 pd upage) e s1"]) simp
  qed
qed

end
