(* ===== verification/AddressSpace.thy ===== *)
theory AddressSpace
  imports PagedirData
begin

text \<open>
  The properties of page directories: the entries that the processor may have cached, every operation
  as a step, the destruction of a directory, and the translations that users of an address space see.
\<close>

section \<open>Cached entries\<close>

text \<open>The processor sets the accessed and dirty bits in memory when its cached entry does not have them;
  so a cached entry must agree with the one in memory but for those bits, and may have only those of
  them that are set in memory.\<close>

definition cached_ok :: "u32 \<Rightarrow> u32 \<Rightarrow> bool" where
  "cached_ok c e \<longleftrightarrow> e AND PTE_P \<noteq> 0 \<and> c AND NOT (PTE_A OR PTE_D) = e AND NOT (PTE_A OR PTE_D) \<and>
     c AND (PTE_A OR PTE_D) AND NOT e = 0"

definition tlb_ok :: "u32 set \<Rightarrow> mmu \<Rightarrow> bool" where
  "tlb_ok R st \<longleftrightarrow> cr3 st < 0x40000000 \<and> cr3 st + PHYS_BASE \<in> R \<and>
     (\<forall>u c. is_user_vaddr u \<and> tlb st u = Some c \<longrightarrow> cached_ok c (user_pte st (cr3 st + PHYS_BASE) u))"

lemma tlb_okD:
  assumes "tlb_ok R st"
  shows "cr3 st < 0x40000000" "cr3 st + PHYS_BASE \<in> R"
    "is_user_vaddr u \<Longrightarrow> tlb st u = Some c \<Longrightarrow> cached_ok c (user_pte st (cr3 st + PHYS_BASE) u)"
  using assms by (auto simp: tlb_ok_def)

lemma cached_ok_set:
  assumes "cached_ok c e" "f = PTE_A \<or> f = PTE_D"
  shows "cached_ok c (e OR f)"
proof -
  let ?m = "PTE_A OR PTE_D"
  have f: "f AND NOT ?m = 0" using assms(2) by (auto simp: PTE_A_def PTE_D_def)
  have c: "e AND PTE_P \<noteq> 0" "c AND NOT ?m = e AND NOT ?m" "c AND ?m AND NOT e = 0"
    using assms(1) unfolding cached_ok_def by blast+
  have "(e OR f) AND PTE_P \<noteq> 0" using c(1) by (simp add: bit.conj_disj_distrib2 or_eq_0_iff)
  moreover have "c AND NOT ?m = (e OR f) AND NOT ?m"
    unfolding c(2) by (simp only: bit.conj_disj_distrib2 f or.right_neutral)
  moreover have "c AND ?m AND NOT (e OR f) = (c AND ?m AND NOT e) AND NOT f"
    by (simp only: bit.de_Morgan_disj and.assoc)
  then have "c AND ?m AND NOT (e OR f) = 0" unfolding c(3) by simp
  ultimately show ?thesis by (simp only: cached_ok_def simp_thms)
qed

lemma invalidate_pagedir_eq:
  assumes "tlb_ok R st" "pd \<noteq> 0"
  shows "invalidate_pagedir pd st = Some (if cr3 st + PHYS_BASE = pd then st\<lparr>tlb := Map.empty\<rparr> else st)"
  using ptov_low [OF tlb_okD(1) [OF assms(1)]] assms(2)
  by (auto simp: invalidate_pagedir_def active_pd_def pagedir_activate_def)

text \<open>An operation that keeps the register and the cache keeps \<open>tlb_ok\<close> if each entry of the active
  directory stays compatible.\<close>

lemma tlb_ok_same:
  assumes "tlb_ok R st" and "cr3 st' = cr3 st" "tlb st' = tlb st" "cr3 st + PHYS_BASE \<in> R'"
    and "\<And>v c. is_user_vaddr v \<Longrightarrow> cached_ok c (user_pte st (cr3 st + PHYS_BASE) v) \<Longrightarrow>
      cached_ok c (user_pte st' (cr3 st + PHYS_BASE) v)"
  shows "tlb_ok R' st'"
  using assms by (simp add: tlb_ok_def)

lemma user_pte_tlb [simp]:
  "user_pte (st\<lparr>tlb := t\<rparr>) pd v = user_pte st pd v" "dirs_ok R (st\<lparr>tlb := t\<rparr>) = dirs_ok R st"
  "user_pte (st\<lparr>cr3 := p\<rparr>) pd v = user_pte st pd v" "dirs_ok R (st\<lparr>cr3 := p\<rparr>) = dirs_ok R st"
  by (simp_all add: user_pte_def pde_at_def pt_at_def load_entry_def dirs_ok_def table_ok_def table_page_def)

text \<open>What clearing a flag and invalidating does.\<close>

lemma store_invalidate:
  assumes ok: "dirs_ok R st" "tlb_ok R st" and pd: "pd \<in> R" and v: "is_user_vaddr v"
    and w: "frame_ok w" and p: "pte_addr st pd v \<noteq> 0"
  shows "\<exists>st'. invalidate_pagedir pd (store_entry (pte_addr st pd v) w st) = Some st' \<and> dirs_ok R st' \<and> tlb_ok R st' \<and>
    cr3 st' = cr3 st \<and>
    (\<forall>q \<in> R. \<forall>v'. is_user_vaddr v' \<longrightarrow>
       user_pte st' q v' = (if q = pd \<and> pg_round_down v' = pg_round_down v then w else user_pte st q v'))"
proof -
  let ?s = "store_entry (pte_addr st pd v) w st"
  have pd0: "pd \<noteq> 0" using table_pageD(2) dirs_okD(5) ok(1) pd by blast
  have nz: "pde_at st pd (pd_no v) \<noteq> 0" using p lookup_page_eq(2) [OF ok(1) pd v] by simp
  note s = store_pte [OF ok(1) pd v nz w]
  have "invalidate_pagedir pd ?s = Some (if cr3 st + PHYS_BASE = pd then ?s\<lparr>tlb := Map.empty\<rparr> else ?s)"
    using ptov_low [OF tlb_okD(1) [OF ok(2)]] pd0
    by (auto simp: invalidate_pagedir_def active_pd_def pagedir_activate_def)
  moreover have "tlb_ok R (if cr3 st + PHYS_BASE = pd then ?s\<lparr>tlb := Map.empty\<rparr> else ?s)"
  proof (cases "cr3 st + PHYS_BASE = pd")
    case True
    then show ?thesis using tlb_okD(1,2) [OF ok(2)] by (simp add: tlb_ok_def)
  next
    case False
    then show ?thesis using tlb_ok_same [OF ok(2)] s(2) tlb_okD(2) [OF ok(2)] by simp
  qed
  ultimately show ?thesis using s(1,2) by simp
qed

lemma clear_page_eq:
  assumes ok: "dirs_ok R st" "tlb_ok R st" and pd: "pd \<in> R" and v: "is_user_vaddr v" "pg_ofs v = 0"
  shows "\<exists>st'. pagedir_clear_page pd v st = Some st' \<and> dirs_ok R st' \<and> tlb_ok R st' \<and> cr3 st' = cr3 st \<and>
    (\<forall>q \<in> R. \<forall>v'. is_user_vaddr v' \<longrightarrow> user_pte st' q v' =
       (if q = pd \<and> pg_round_down v' = v then user_pte st q v' AND NOT PTE_P else user_pte st q v'))"
proof -
  have same: "user_pte st pd v' = user_pte st pd v" if "pg_round_down v' = v" for v'
    using that same_vpage [of v' v] pg_round_down_aligned [OF v(2)] by (simp add: user_pte_def)
  have absent: "e AND NOT PTE_P = e" if "e AND PTE_P = 0" for e
  proof -
    have "e = (e AND PTE_P) OR (e AND NOT PTE_P)" by (simp flip: bit.conj_disj_distrib)
    then show ?thesis using that by simp
  qed
  show ?thesis
  proof (cases "pte_addr st pd v \<noteq> 0 \<and> user_pte st pd v AND PTE_P \<noteq> 0")
    case True
    have "frame_ok (user_pte st pd v AND NOT PTE_P)" by (simp add: frame_ok_def and.assoc)
    note inv = store_invalidate [OF ok pd v(1) this conjunct1 [OF True]]
    have "pagedir_clear_page pd v st =
        invalidate_pagedir pd (store_entry (pte_addr st pd v) (user_pte st pd v AND NOT PTE_P) st)"
      using True lookup_page_eq(1,3) [OF ok(1) pd v(1)] v by (simp add: pagedir_clear_page_def)
    with inv obtain st' where st': "pagedir_clear_page pd v st = Some st'" "dirs_ok R st'" "tlb_ok R st'" "cr3 st' = cr3 st"
      "\<forall>q \<in> R. \<forall>v'. is_user_vaddr v' \<longrightarrow> user_pte st' q v' =
         (if q = pd \<and> pg_round_down v' = pg_round_down v then user_pte st pd v AND NOT PTE_P else user_pte st q v')" by metis
    have "\<forall>q \<in> R. \<forall>v'. is_user_vaddr v' \<longrightarrow> user_pte st' q v' =
       (if q = pd \<and> pg_round_down v' = v then user_pte st q v' AND NOT PTE_P else user_pte st q v')"
    proof (intro ballI allI impI)
      fix q v' assume "q \<in> R" "is_user_vaddr v'"
      with st'(5) same [of v'] pg_round_down_aligned [OF v(2)]
      show "user_pte st' q v' = (if q = pd \<and> pg_round_down v' = v then user_pte st q v' AND NOT PTE_P else user_pte st q v')"
        by (cases "q = pd \<and> pg_round_down v' = v") auto
    qed
    with st'(1-4) show ?thesis by blast
  next
    case False
    moreover have "user_pte st pd v = 0" if "pte_addr st pd v = 0"
      using that lookup_page_eq(2) [OF ok(1) pd v(1)] by (simp add: user_pte_def)
    ultimately have z: "user_pte st pd v AND PTE_P = 0" by auto
    then have "pagedir_clear_page pd v st = Some st"
      using lookup_page_eq(1,3) [OF ok(1) pd v(1)] v by (auto simp: pagedir_clear_page_def)
    moreover have "\<forall>q \<in> R. \<forall>v'. is_user_vaddr v' \<longrightarrow> user_pte st q v' =
       (if q = pd \<and> pg_round_down v' = v then user_pte st q v' AND NOT PTE_P else user_pte st q v')"
    proof (intro ballI allI impI)
      fix q v' assume "q \<in> R" "is_user_vaddr v'"
      with same [of v'] absent [OF z]
      show "user_pte st q v' = (if q = pd \<and> pg_round_down v' = v then user_pte st q v' AND NOT PTE_P else user_pte st q v')"
        by (cases "q = pd \<and> pg_round_down v' = v") auto
    qed
    ultimately show ?thesis using ok by blast
  qed
qed

definition set_flag :: "u32 \<Rightarrow> bool \<Rightarrow> u32 \<Rightarrow> u32" where
  "set_flag f b e = (if b then e OR f else e AND NOT f)"

lemma frame_ok_flag: "frame_ok e \<Longrightarrow> f = PTE_A \<or> f = PTE_D \<Longrightarrow> frame_ok (set_flag f b e)"
proof -
  assume e: "frame_ok e" and f: "f = PTE_A \<or> f = PTE_D"
  have z: "f AND PTE_P = 0" "f AND PTE_ADDR = 0" "NOT f AND PTE_P = PTE_P" "NOT f AND PTE_ADDR = PTE_ADDR"
    using f by (auto simp: PTE_A_def PTE_D_def PTE_P_def PTE_ADDR_def)
  have "set_flag f b e AND PTE_P = e AND PTE_P" "set_flag f b e AND PTE_ADDR = e AND PTE_ADDR"
    using z by (simp_all add: set_flag_def bit.conj_disj_distrib2 and.assoc)
  then show "frame_ok (set_flag f b e)" using e by (simp only: frame_ok_def)
qed

lemma flag_eq:
  fixes b :: bool
  assumes ok: "dirs_ok R st" "tlb_ok R st" and pd: "pd \<in> R" and v: "is_user_vaddr v" and f: "f = PTE_A \<or> f = PTE_D"
  defines "r \<equiv> (if pte_addr st pd v \<noteq> 0
     then (if b then Some (store_entry (pte_addr st pd v) (user_pte st pd v OR f) st)
           else invalidate_pagedir pd (store_entry (pte_addr st pd v) (user_pte st pd v AND NOT f) st))
     else Some st)"
  shows "\<exists>st'. r = Some st' \<and> dirs_ok R st' \<and> tlb_ok R st' \<and> cr3 st' = cr3 st \<and>
    (\<forall>q \<in> R. \<forall>v'. is_user_vaddr v' \<longrightarrow> user_pte st' q v' =
       (if q = pd \<and> pg_round_down v' = pg_round_down v \<and> pte_addr st pd v \<noteq> 0 then set_flag f b (user_pte st pd v) else user_pte st q v'))"
proof (cases "pte_addr st pd v = 0")
  case True
  then show ?thesis using ok by (simp add: r_def)
next
  case False
  have fo: "frame_ok (set_flag f b (user_pte st pd v))"
    using user_pte_frame_ok [OF ok(1) pd v] f by (rule frame_ok_flag)
  have nz: "pde_at st pd (pd_no v) \<noteq> 0" using False lookup_page_eq(2) [OF ok(1) pd v] by simp
  show ?thesis
  proof (cases b)
    case False': False
    have w: "frame_ok (user_pte st pd v AND NOT f)" using fo False' by (simp add: set_flag_def)
    show ?thesis using store_invalidate [OF ok pd v w False]
      by (simp only: r_def set_flag_def False False' not_False_eq_True if_True if_False simp_thms)
  next
    case True
    have w: "frame_ok (user_pte st pd v OR f)" using fo True by (simp add: set_flag_def)
    let ?s = "store_entry (pte_addr st pd v) (user_pte st pd v OR f) st"
    note s = store_pte [OF ok(1) pd v nz w]
    have "tlb_ok R ?s"
    proof (rule tlb_ok_same [OF ok(2) _ _ tlb_okD(2) [OF ok(2)]])
      fix v' c assume v': "is_user_vaddr v'" and c: "cached_ok c (user_pte st (cr3 st + PHYS_BASE) v')"
      show "cached_ok c (user_pte ?s (cr3 st + PHYS_BASE) v')"
      proof (cases "cr3 st + PHYS_BASE = pd \<and> pg_round_down v' = pg_round_down v")
        case True
        then have "user_pte st pd v' = user_pte st pd v" by (simp add: same_vpage user_pte_def)
        then show ?thesis using True c cached_ok_set [OF _ f] s(2) [OF pd v'] by simp
      next
        case False
        then have "user_pte ?s (cr3 st + PHYS_BASE) v' = user_pte st (cr3 st + PHYS_BASE) v'"
          using s(2) [OF tlb_okD(2) [OF ok(2)] v'] by argo
        then show ?thesis using c by (simp only:)
      qed
    qed simp_all
    then show ?thesis using s(1,2) False True by (simp add: r_def set_flag_def)
  qed
qed

lemma set_dirty_eq:
  assumes "dirs_ok R st" "pd \<in> R" "is_user_vaddr v"
  shows "pagedir_set_dirty pd v b st = (if pte_addr st pd v \<noteq> 0
     then (if b then Some (store_entry (pte_addr st pd v) (user_pte st pd v OR PTE_D) st)
           else invalidate_pagedir pd (store_entry (pte_addr st pd v) (user_pte st pd v AND NOT PTE_D) st))
     else Some st)"
    and "pagedir_set_accessed pd v b st = (if pte_addr st pd v \<noteq> 0
     then (if b then Some (store_entry (pte_addr st pd v) (user_pte st pd v OR PTE_A) st)
           else invalidate_pagedir pd (store_entry (pte_addr st pd v) (user_pte st pd v AND NOT PTE_A) st))
     else Some st)"
  using lookup_page_eq(1,3) [OF assms] by (simp_all add: pagedir_set_dirty_def pagedir_set_accessed_def)

lemma set_page_tlb:
  assumes "dirs_ok R st" "tlb_ok R st" "pd \<in> R" "user_pte st pd u AND PTE_P = 0" "is_user_vaddr u" "pg_ofs u = 0"
    and st': "st' = st\<lparr>ram := ram st'\<rparr>"
    and p: "\<forall>q \<in> R. \<forall>v. is_user_vaddr v \<longrightarrow> user_pte st' q v = (if ok \<and> q = pd \<and> pg_round_down v = u then e else user_pte st q v)"
  shows "tlb_ok R st'"
proof (rule tlb_ok_same [OF assms(2) _ _ tlb_okD(2) [OF assms(2)]])
  show "cr3 st' = cr3 st" "tlb st' = tlb st" by (subst st', simp)+
  fix v c assume v: "is_user_vaddr v" and c: "cached_ok c (user_pte st (cr3 st + PHYS_BASE) v)"
  show "cached_ok c (user_pte st' (cr3 st + PHYS_BASE) v)"
  proof (cases "cr3 st + PHYS_BASE = pd \<and> pg_round_down v = u")
    case True
    then have "user_pte st pd v = user_pte st pd u"
      using same_vpage [of v u] pg_round_down_aligned [OF assms(6)] by (simp add: user_pte_def)
    then show ?thesis using True c assms(4) by (simp add: cached_ok_def)
  next
    case False
    then show ?thesis using c p tlb_okD(2) [OF assms(2)] v by auto
  qed
qed

text \<open>A new directory has the kernel's entries and maps no user page.\<close>

lemma pagedir_create_eq:
  assumes ok: "dirs_ok R st"
  shows "\<exists>pd st'. pagedir_create st = Some (pd, st') \<and> st' = st\<lparr>ram := ram st'\<rparr> \<and>
    (\<forall>q \<in> R. \<forall>v. is_user_vaddr v \<longrightarrow> user_pte st' q v = user_pte st q v) \<and>
    (if pd = 0 then kernel_full st \<and> dirs_ok R st'
     else pd \<notin> R \<and> dirs_ok (insert pd R) st' \<and> (\<forall>v. is_user_vaddr v \<longrightarrow> user_pte st' pd v = 0) \<and>
       (\<forall>i. unat i < 1024 \<longrightarrow> pde_at st' pd i = pde_at st (init_page_dir st) i))"
proof -
  have fl: "0 AND PAL_USER = 0" "0 AND PAL_ASSERT = 0" "\<not> (0 AND PAL_ZERO \<noteq> 0)" by simp_all
  show ?thesis
  proof (cases rule: get_table_page [OF ok fl(1,2)])
    case (1 r)
    have "pagedir_create st = Some (0, st\<lparr>ram := r\<rparr>)" using 1(1) by (simp add: pagedir_create_def)
    moreover have "user_pte (st\<lparr>ram := r\<rparr>) q v' = user_pte st q v'" for q v'
      using 1(3) by (simp add: user_pte_def pde_at_def pt_at_def load_entry_def)
    ultimately show ?thesis using 1(2,5) by (intro exI [of _ 0] exI [of _ "st\<lparr>ram := r\<rparr>"]) simp
  next
    case (2 p r)
    let ?i = "init_page_dir st"
    define st' where "st' = st\<lparr>ram := r\<lparr>phys_mem := copy_block p ?i PGSIZE (phys_mem r)\<rparr>\<rparr>"
    have run: "pagedir_create st = Some (p, st')" using 2(1,2) by (simp add: pagedir_create_def st'_def)
    have tp: "table_page st q" if "q \<in> R" for q using dirs_okD(5) [OF ok that] .
    note al = table_pageD(1) [OF ok]
    have i: "?i \<in> R" using dirs_okD(3) [OF ok] .
    have mem: "phys_mem r = phys_mem (ram st)" using 2(7) by simp
    have load: "load_entry st' (q + 4 * k) = load_entry st ((if p = q then ?i else q) + 4 * k)"
      if "pg_ofs q = 0" "unat k < 1024" for q k
      using load_copy_block [OF 2(3) that(1) al [OF tp [OF i]] that(2)] by (simp add: load_entry_def st'_def mem)
    have other: "load_entry st' (q + 4 * k) = load_entry st (q + 4 * k)" if "table_page st q" "unat k < 1024" for q k
      using load [OF al [OF that(1)] that(2)] that(1) 2(8) by auto
    have pde: "pde_at st' q k = pde_at st q k" if "q \<in> R" "unat k < 1024" for q k
      using other [OF tp [OF that(1)] that(2)] by (simp add: pde_at_def)
    have new: "pde_at st' p k = pde_at st ?i k" if "unat k < 1024" for k
      using load [OF 2(3) that] by (simp add: pde_at_def)
    then have new0: "pde_at st' p k = 0" if "unat k < 768" for k using dirs_okD(4) [OF ok that] that by simp
    have tp': "table_page st' q = (table_page st q \<or> q = p)" for q
      using 2(9) by (simp add: table_page_def fun_eq_iff st'_def)
    have ph: "phys_ok (ram st')" "pool_base (kernel_pool (ram st')) = pool_base (kernel_pool (ram st))"
      "init_page_dir st' = ?i" using 2(5,6) by (simp_all add: st'_def)
    have R': "dirs_ok R st'"
    proof (rule dirs_ok_same [OF ok])
      fix q k j assume q: "q \<in> R" "unat k < 768" "pde_at st q k \<noteq> 0" and j: "unat (j :: u32) < 1024"
      show "frame_ok (load_entry st' (pt_at st q k + 4 * j))"
        using other [OF table_page_pt [OF ok q] j] table_okD(5) [OF dirs_okD(6) [OF ok q] j] by simp
    qed (use ph pde tp tp' table_page_pt [OF ok] in simp_all)
    have pt: "pt_at st' q k = pt_at st q k" if "q \<in> R" "unat k < 1024" for q k
      using pde [OF that] by (simp add: pt_at_def)
    have ins: "dirs_ok (insert p R) st'"
    proof (rule dirs_okI)
      show "table_ok st' (insert p R) q k" if "q \<in> insert p R" "unat k < 768" "pde_at st' q k \<noteq> 0" for q k
      proof -
        have q: "q \<in> R" using that new0 by auto
        note t = dirs_okD(6) [OF R' q that(2,3)]
        have "pde_at st q k \<noteq> 0" using pde [OF q, of k] that(2,3) by simp
        from table_page_pt [OF ok q that(2) this] have "pt_at st' q k \<noteq> p" using 2(8) pt [OF q, of k] that(2) by auto
        with t show ?thesis by (simp add: table_ok_def)
      qed
      show "q = q' \<and> k = k'" if "q \<in> insert p R" "q' \<in> insert p R" "unat k < 768" "unat k' < 768" "pde_at st' q k \<noteq> 0" "pde_at st' q' k' \<noteq> 0"
        "pt_at st' q k = pt_at st' q' k'" for q q' k k'
      proof -
        have "q \<in> R" "q' \<in> R" using that new0 by auto
        then show ?thesis using dirs_okD(7) [OF R' _ _ that(3-7)] by blast
      qed
    qed (use dirs_okD(1-5) [OF R'] tp' in auto)
    have same: "user_pte st' q v = user_pte st q v" if "q \<in> R" "is_user_vaddr v" for q v
    proof -
      note b = pd_no_bound [OF that(2)]
      then have b': "unat (pd_no v) < 1024" by simp
      show ?thesis
        using pde [OF that(1) b'] pt [OF that(1) b'] other [OF table_page_pt [OF ok that(1) b], of "pt_no v"]
        by (simp add: user_pte_def)
    qed
    have "p \<notin> R" using tp 2(8) by blast
    moreover have "user_pte st' p v = 0" if "is_user_vaddr v" for v
      using new0 [OF pd_no_bound [OF that]] by (simp add: user_pte_def)
    ultimately show ?thesis
      using run 2(2) ins same new by (intro exI [of _ p] exI [of _ st']) (simp add: st'_def)
  qed
qed

section \<open>Destroying a directory\<close>

text \<open>Pages in use, of the user pool or of the kernel pool.\<close>

definition used_page :: "bool \<Rightarrow> mmu \<Rightarrow> u32 \<Rightarrow> bool" where
  "used_page u st p \<longleftrightarrow> page_used u (ram st) p"

lemma table_page_used: "table_page st p = used_page False st p"
  by (simp add: table_page_def used_page_def)

lemma free_page_ok:
  assumes ok: "phys_ok (ram st)" and p: "used_page u st p"
  shows "\<exists>st'. free_page p st = Some st' \<and> phys_ok (ram st') \<and> st' = st\<lparr>ram := ram st'\<rparr> \<and>
    (\<forall>v q. used_page v st' q \<longleftrightarrow> used_page v st q \<and> q \<noteq> p) \<and>
    (\<forall>v. pool_base (get_pool v (ram st')) = pool_base (get_pool v (ram st))) \<and>
    (\<forall>q i. pg_ofs q = 0 \<and> q \<noteq> p \<and> unat i < 1024 \<longrightarrow> load_entry st' (q + 4 * i) = load_entry st (q + 4 * i))"
proof -
  have p': "page_used u (ram st) p" using p by (simp add: used_page_def)
  obtain r where r: "palloc_free_multiple p 1 (ram st) = Some r" "phys_ok r"
    "phys_mem r = memset (phys_mem (ram st)) p 0xCC (PGSIZE * 1)"
    "\<forall>v q. page_used v r q \<longleftrightarrow> page_used v (ram st) q \<and> \<not> (v = u \<and> q \<in> pages p 1)"
    "\<forall>v. pool_base (get_pool v r) = pool_base (get_pool v (ram st))"
    using palloc_free_pages [OF ok zero_less_one p' [unfolded page_used_run]] by blast
  have run: "free_page p st = Some (st\<lparr>ram := r\<rparr>)" using r(1) by (simp add: free_page_def palloc_free_page_def)
  have "used_page v (st\<lparr>ram := r\<rparr>) q \<longleftrightarrow> used_page v st q \<and> q \<noteq> p" for v q
    using r(4) page_used_other_pool [OF ok p', of v] by (auto simp: used_page_def)
  moreover have "load_entry (st\<lparr>ram := r\<rparr>) (q + 4 * i) = load_entry st (q + 4 * i)"
    if "pg_ofs q = 0" "q \<noteq> p" "unat i < 1024" for q i
    using load_memset [OF page_usedD(1) [OF ok p'] that(1,3)] that(2) r(3) by (simp add: load_entry_def)
  ultimately show ?thesis using run r(2,5) by (intro exI [of _ "st\<lparr>ram := r\<rparr>"]) simp
qed

text \<open>Freeing a list of pages.\<close>

fun free_all :: "u32 list \<Rightarrow> mmu \<Rightarrow> mmu option" where
  "free_all [] st = Some st"
| "free_all (p # ps) st = do { st \<leftarrow> free_page p st; free_all ps st }"

lemma free_all_append: "free_all (ps @ qs) st = do { st \<leftarrow> free_all ps st; free_all qs st }"
proof (induction ps arbitrary: st)
  case (Cons p ps)
  then show ?case by (cases "free_page p st") simp_all
qed simp

lemma free_all_snoc: "free_all (ps @ [p]) st = do { st \<leftarrow> free_all ps st; free_page p st }"
proof -
  have "free_all [p] st = free_page p st" for st by (cases "free_page p st") simp_all
  then show ?thesis unfolding free_all_append by (cases "free_all ps st") simp_all
qed

lemma free_all_ok:
  assumes "phys_ok (ram st)" "distinct ps" "\<forall>p \<in> set ps. \<exists>u. used_page u st p"
  shows "\<exists>st'. free_all ps st = Some st' \<and> phys_ok (ram st') \<and> st' = st\<lparr>ram := ram st'\<rparr> \<and>
    (\<forall>v q. used_page v st' q \<longleftrightarrow> used_page v st q \<and> q \<notin> set ps) \<and>
    (\<forall>v. pool_base (get_pool v (ram st')) = pool_base (get_pool v (ram st))) \<and>
    (\<forall>q i. pg_ofs q = 0 \<and> q \<notin> set ps \<and> unat i < 1024 \<longrightarrow> load_entry st' (q + 4 * i) = load_entry st (q + 4 * i))"
  using assms
proof (induction ps arbitrary: st)
  case Nil
  then show ?case by simp
next
  case (Cons p ps)
  obtain u where u: "used_page u st p" using Cons.prems(3) by auto
  obtain s1 where s1: "free_page p st = Some s1" "phys_ok (ram s1)" "s1 = st\<lparr>ram := ram s1\<rparr>"
    "\<forall>v q. used_page v s1 q \<longleftrightarrow> used_page v st q \<and> q \<noteq> p"
    "\<forall>v. pool_base (get_pool v (ram s1)) = pool_base (get_pool v (ram st))"
    "\<forall>q i. pg_ofs q = 0 \<and> q \<noteq> p \<and> unat i < 1024 \<longrightarrow> load_entry s1 (q + 4 * i) = load_entry st (q + 4 * i)"
    using free_page_ok [OF Cons.prems(1) u] by (elim exE conjE) (rule that)
  have "\<forall>q \<in> set ps. \<exists>u. used_page u s1 q"
  proof
    fix q assume q: "q \<in> set ps"
    then obtain v where "used_page v st q" using Cons.prems(3) by auto
    moreover have "q \<noteq> p" using q Cons.prems(2) by auto
    ultimately show "\<exists>u. used_page u s1 q" using s1(4) by blast
  qed
  then obtain s2 where s2: "free_all ps s1 = Some s2" "phys_ok (ram s2)" "s2 = s1\<lparr>ram := ram s2\<rparr>"
    "\<forall>v q. used_page v s2 q \<longleftrightarrow> used_page v s1 q \<and> q \<notin> set ps"
    "\<forall>v. pool_base (get_pool v (ram s2)) = pool_base (get_pool v (ram s1))"
    "\<forall>q i. pg_ofs q = 0 \<and> q \<notin> set ps \<and> unat i < 1024 \<longrightarrow> load_entry s2 (q + 4 * i) = load_entry s1 (q + 4 * i)"
    using Cons.IH [OF s1(2)] distinct.simps(2) [THEN iffD1, OF Cons.prems(2)] by blast
  have "s2 = st\<lparr>ram := ram s2\<rparr>" by (subst s2(3), subst s1(3)) simp
  moreover have "free_all (p # ps) st = Some s2" using s1(1) s2(1) by simp
  moreover have "\<forall>v q. used_page v s2 q \<longleftrightarrow> used_page v st q \<and> q \<notin> set (p # ps)"
    using s1(4) s2(4) by simp
  moreover have "\<forall>v. pool_base (get_pool v (ram s2)) = pool_base (get_pool v (ram st))" using s1(5) s2(5) by simp
  moreover have "\<forall>q i. pg_ofs q = 0 \<and> q \<notin> set (p # ps) \<and> unat i < 1024 \<longrightarrow> load_entry s2 (q + 4 * i) = load_entry st (q + 4 * i)"
    using s1(6) s2(6) by simp
  ultimately show ?case using s2(2) by blast
qed

text \<open>The two loops free the mapped pages and the page tables, in order.\<close>

definition frames_of :: "mmu \<Rightarrow> u32 \<Rightarrow> nat list \<Rightarrow> u32 list" where
  "frames_of st pt js = map (\<lambda>j. (load_entry st (pt + 4 * of_nat j) AND PTE_ADDR) + PHYS_BASE)
     (filter (\<lambda>j. load_entry st (pt + 4 * of_nat j) AND PTE_P \<noteq> 0) js)"

definition pages_of :: "mmu \<Rightarrow> u32 \<Rightarrow> nat \<Rightarrow> u32 list" where
  "pages_of st pd i = (if pde_at st pd (of_nat i) AND PTE_P = 0 then []
     else frames_of st (pt_at st pd (of_nat i)) [0..<1024] @ [pt_at st pd (of_nat i)])"

lemma unat_small: "j < 1024 \<Longrightarrow> unat (of_nat j :: u32) = j"
  by (simp add: unat_of_nat take_bit_nat_eq_self)

lemma destroy_pages_eq:
  assumes "phys_ok (ram st)" "pg_ofs pt = 0" "\<forall>j \<in> set js. j < 1024 \<and> frame_ok (load_entry st (pt + 4 * of_nat j))"
    and "distinct (frames_of st pt js)" "pt \<notin> set (frames_of st pt js)" "\<forall>p \<in> set (frames_of st pt js). \<exists>u. used_page u st p"
  shows "destroy_pages pt js st = free_all (frames_of st pt js) st"
  using assms
proof (induction js arbitrary: st)
  case Nil
  then show ?case by (simp add: frames_of_def)
next
  case (Cons j js)
  let ?e = "load_entry st (pt + 4 * of_nat j)"
  show ?case
  proof (cases "?e AND PTE_P = 0")
    case True
    then have "frames_of st pt (j # js) = frames_of st pt js" by (simp add: frames_of_def)
    then show ?thesis using True Cons by simp
  next
    case False
    let ?f = "(?e AND PTE_ADDR) + PHYS_BASE"
    have fr: "frames_of st pt (j # js) = ?f # frames_of st pt js" using False by (simp add: frames_of_def)
    have page: "pte_get_page ?e = Some ?f"
      using Cons.prems(3) False by (simp add: pte_get_page_def frame_ok_def ptov_low)
    obtain u where u: "used_page u st ?f" using Cons.prems(6) fr by auto
    obtain s1 where s1: "free_page ?f st = Some s1" "phys_ok (ram s1)" "s1 = st\<lparr>ram := ram s1\<rparr>"
      "\<forall>v q. used_page v s1 q \<longleftrightarrow> used_page v st q \<and> q \<noteq> ?f"
      "\<forall>v. pool_base (get_pool v (ram s1)) = pool_base (get_pool v (ram st))"
      "\<forall>q i. pg_ofs q = 0 \<and> q \<noteq> ?f \<and> unat i < 1024 \<longrightarrow> load_entry s1 (q + 4 * i) = load_entry st (q + 4 * i)"
      using free_page_ok [OF Cons.prems(1) u] by (elim exE conjE) (rule that)
    have ptf: "pt \<noteq> ?f" using Cons.prems(5) fr by auto
    have load: "load_entry s1 (pt + 4 * of_nat k) = load_entry st (pt + 4 * of_nat k)" if "k \<in> set js" for k
      using s1(6) Cons.prems(2,3) ptf that by (simp add: unat_small)
    then have same: "frames_of s1 pt js = frames_of st pt js"
      unfolding frames_of_def by (intro map_cong filter_cong) auto
    have notin: "?f \<notin> set (frames_of st pt js)" "distinct (frames_of st pt js)" "pt \<notin> set (frames_of st pt js)"
      using Cons.prems(4,5) fr by simp_all
    have used: "\<forall>p \<in> set (frames_of st pt js). \<exists>u. used_page u s1 p"
    proof
      fix p assume p: "p \<in> set (frames_of st pt js)"
      then obtain v where "used_page v st p" using Cons.prems(6) fr by auto
      then show "\<exists>u. used_page u s1 p" using s1(4) p notin(1) by blast
    qed
    have "destroy_pages pt js s1 = free_all (frames_of st pt js) s1"
      using Cons.IH [OF s1(2) Cons.prems(2)] Cons.prems(3) load same notin used by simp
    then show ?thesis using False page s1(1) fr by simp
  qed
qed

lemma destroy_tables_eq:
  assumes "phys_ok (ram st)" "pg_ofs pd = 0"
    and "\<forall>i \<in> set is. i < 1024 \<and> frame_ok (pde_at st pd (of_nat i)) \<and> (pde_at st pd (of_nat i) AND PTE_P \<noteq> 0 \<longrightarrow>
      pg_ofs (pt_at st pd (of_nat i)) = 0 \<and> (\<forall>j < 1024. frame_ok (load_entry st (pt_at st pd (of_nat i) + 4 * of_nat j))))"
    and "distinct (concat (map (pages_of st pd) is))" "pd \<notin> set (concat (map (pages_of st pd) is))"
    and "\<forall>p \<in> set (concat (map (pages_of st pd) is)). \<exists>u. used_page u st p"
  shows "destroy_tables pd is st = free_all (concat (map (pages_of st pd) is)) st"
  using assms
proof (induction "is" arbitrary: st)
  case Nil
  then show ?case by simp
next
  case (Cons i "is")
  let ?e = "pde_at st pd (of_nat i)" and ?pt = "pt_at st pd (of_nat i)"
  show ?case
  proof (cases "?e AND PTE_P = 0")
    case True
    then have "pages_of st pd i = []" by (simp add: pages_of_def)
    then show ?thesis using True Cons by (simp add: pde_at_def)
  next
    case False
    let ?fs = "frames_of st ?pt [0..<1024]" and ?rest = "concat (map (pages_of st pd) is)"
    have blk: "pages_of st pd i = ?fs @ [?pt]" using False by (simp add: pages_of_def)
    have d: "distinct (?fs @ [?pt])" "set (?fs @ [?pt]) \<inter> set ?rest = {}" "distinct ?rest" "pd \<notin> set (?fs @ [?pt])" "pd \<notin> set ?rest"
      using Cons.prems(4,5) blk by auto
    have get: "pde_get_pt ?e = Some ?pt"
      using Cons.prems(3) False by (simp add: pde_get_pt_def frame_ok_def ptov_low pt_at_def)
    have used: "\<forall>p \<in> set (?fs @ [?pt]). \<exists>u. used_page u st p" using Cons.prems(6) blk by auto
    have fs: "destroy_pages ?pt [0..<1024] st = free_all ?fs st"
      using Cons.prems(1,3) False d(1) used by (intro destroy_pages_eq) auto
    obtain s1 where s1: "free_all (?fs @ [?pt]) st = Some s1" "phys_ok (ram s1)" "s1 = st\<lparr>ram := ram s1\<rparr>"
      "\<forall>v q. used_page v s1 q \<longleftrightarrow> used_page v st q \<and> q \<notin> set (?fs @ [?pt])"
      "\<forall>v. pool_base (get_pool v (ram s1)) = pool_base (get_pool v (ram st))"
      "\<forall>q i. pg_ofs q = 0 \<and> q \<notin> set (?fs @ [?pt]) \<and> unat i < 1024 \<longrightarrow> load_entry s1 (q + 4 * i) = load_entry st (q + 4 * i)"
      using free_all_ok [OF Cons.prems(1) d(1) used] by (elim exE conjE) (rule that)
    have pde: "pde_at s1 pd (of_nat k) = pde_at st pd (of_nat k)" if "k \<in> set is" for k
      using s1(6) Cons.prems(2,3) d(4) that by (simp add: unat_small pde_at_def)
    have pt: "pt_at s1 pd (of_nat k) = pt_at st pd (of_nat k)" if "k \<in> set is" for k
      using pde [OF that] by (simp add: pt_at_def)
    have load: "load_entry s1 (pt_at st pd (of_nat k) + 4 * of_nat j) = load_entry st (pt_at st pd (of_nat k) + 4 * of_nat j)"
      if "k \<in> set is" "pde_at st pd (of_nat k) AND PTE_P \<noteq> 0" "j < 1024" for k j
    proof -
      have "pt_at st pd (of_nat k) \<in> set ?rest" using that(1,2) by (auto simp: pages_of_def)
      then have "pt_at st pd (of_nat k) \<notin> set (?fs @ [?pt])" using d(2) by blast
      then show ?thesis using s1(6) Cons.prems(3) that by (simp add: unat_small)
    qed
    have "frames_of s1 (pt_at st pd (of_nat k)) [0..<1024] = frames_of st (pt_at st pd (of_nat k)) [0..<1024]"
      if "k \<in> set is" "pde_at st pd (of_nat k) AND PTE_P \<noteq> 0" for k
      unfolding frames_of_def using load [OF that] by (intro map_cong filter_cong) auto
    then have "pages_of s1 pd k = pages_of st pd k" if "k \<in> set is" for k
      using pde [OF that] pt [OF that] that by (simp add: pages_of_def)
    then have same: "map (pages_of s1 pd) is = map (pages_of st pd) is" by simp
    have used': "\<forall>p \<in> set ?rest. \<exists>u. used_page u s1 p"
    proof
      fix p assume p: "p \<in> set ?rest"
      then obtain v where "used_page v st p" using Cons.prems(6) by auto
      then show "\<exists>u. used_page u s1 p" using s1(4) p d(2) by blast
    qed
    have ok: "\<forall>i \<in> set is. i < 1024 \<and> frame_ok (pde_at s1 pd (of_nat i)) \<and> (pde_at s1 pd (of_nat i) AND PTE_P \<noteq> 0 \<longrightarrow>
        pg_ofs (pt_at s1 pd (of_nat i)) = 0 \<and> (\<forall>j < 1024. frame_ok (load_entry s1 (pt_at s1 pd (of_nat i) + 4 * of_nat j))))"
      using Cons.prems(3) pde pt load by simp
    have "destroy_tables pd is s1 = free_all ?rest s1"
      using Cons.IH [OF s1(2) Cons.prems(2) ok] same d(3,5) used' by simp
    moreover obtain s0 where "free_all ?fs st = Some s0" "free_page ?pt s0 = Some s1"
      using s1(1) by (cases "free_all ?fs st") (simp_all add: free_all_snoc)
    ultimately show ?thesis
      using False get fs blk by (simp add: pde_at_def [symmetric] free_all_append PGSIZE_def)
  qed
qed

text \<open>The frames that a directory maps are pages in use of the user pool, each mapped once.\<close>

definition frame_of :: "mmu \<Rightarrow> u32 \<Rightarrow> u32 \<Rightarrow> u32" where
  "frame_of st pd v = (user_pte st pd v AND PTE_ADDR) + PHYS_BASE"

definition mapped :: "mmu \<Rightarrow> u32 \<Rightarrow> u32 \<Rightarrow> bool" where
  "mapped st pd v \<longleftrightarrow> is_user_vaddr v \<and> user_pte st pd v AND PTE_P \<noteq> 0"

definition owns_frames :: "mmu \<Rightarrow> u32 \<Rightarrow> bool" where
  "owns_frames st pd \<longleftrightarrow> (\<forall>v. mapped st pd v \<longrightarrow> used_page True st (frame_of st pd v)) \<and>
     (\<forall>v w. mapped st pd v \<and> mapped st pd w \<and> frame_of st pd v = frame_of st pd w \<longrightarrow> pg_round_down v = pg_round_down w)"

definition tables_of :: "mmu \<Rightarrow> u32 \<Rightarrow> u32 set" where
  "tables_of st pd = {pt_at st pd i | i. unat i < 768 \<and> pde_at st pd i \<noteq> 0}"

text \<open>The address with given indices.\<close>

definition vaddr :: "nat \<Rightarrow> nat \<Rightarrow> u32" where
  "vaddr i j = of_nat ((i * 1024 + j) * 4096)"

lemma vaddr_indices:
  assumes "i < 768" "j < 1024"
  shows "pd_no (vaddr i j) = of_nat i" "pt_no (vaddr i j) = of_nat j" "is_user_vaddr (vaddr i j)"
proof -
  have b: "i * 1024 + j < 786432" using assms by linarith
  then have u: "unat (vaddr i j) = (i * 1024 + j) * 4096"
    unfolding vaddr_def by (subst unat_of_nat) (simp add: take_bit_nat_eq_self)
  have "unat (pd_no (vaddr i j)) = i" "unat (pt_no (vaddr i j)) = j"
    unfolding unat_pd_no unat_pt_no u using assms(2) by simp_all
  moreover have "unat (of_nat i :: u32) = i" "unat (of_nat j :: u32) = j" using assms by (simp_all add: unat_small)
  ultimately show "pd_no (vaddr i j) = of_nat i" "pt_no (vaddr i j) = of_nat j" by (simp_all add: word_unat_eq_iff)
  show "is_user_vaddr (vaddr i j)" using b u by (simp add: is_user_vaddr_def PHYS_BASE_def word_less_nat_alt)
qed

lemma distinct_concat_map:
  "distinct xs \<Longrightarrow> (\<And>x. x \<in> set xs \<Longrightarrow> distinct (f x)) \<Longrightarrow>
   (\<And>x y. x \<in> set xs \<Longrightarrow> y \<in> set xs \<Longrightarrow> x \<noteq> y \<Longrightarrow> set (f x) \<inter> set (f y) = {}) \<Longrightarrow> distinct (concat (map f xs))"
  by (induction xs) (simp, fastforce)

lemma present_nonzero:
  assumes "dirs_ok R st" "pd \<in> R" "unat i < 768"
  shows "pde_at st pd i AND PTE_P \<noteq> 0 \<longleftrightarrow> pde_at st pd i \<noteq> 0"
  using table_okD(1) [OF dirs_okD(6) [OF assms]] by auto

text \<open>The pages freed for the entry \<open>i\<close> of a directory: the frames of its table and the table.\<close>

lemma set_pages_of:
  assumes ok: "dirs_ok R st" and pd: "pd \<in> R" and i: "i < 768"
  shows "p \<in> set (pages_of st pd i) \<longleftrightarrow> pde_at st pd (of_nat i) \<noteq> 0 \<and>
    (p = pt_at st pd (of_nat i) \<or> (\<exists>j < 1024. mapped st pd (vaddr i j) \<and> p = frame_of st pd (vaddr i j)))"
proof -
  have u: "unat (of_nat i :: u32) < 768" using i by (simp add: unat_small)
  show ?thesis
  proof (cases "pde_at st pd (of_nat i) = 0")
    case True
    then show ?thesis by (simp add: pages_of_def)
  next
    case False
    then have "user_pte st pd (vaddr i j) = load_entry st (pt_at st pd (of_nat i) + 4 * of_nat j)" if "j < 1024" for j
      using vaddr_indices [OF i that] by (simp add: user_pte_def)
    then show ?thesis
      using False present_nonzero [OF ok pd u] vaddr_indices(3) [OF i]
      by (auto simp: pages_of_def frames_of_def mapped_def frame_of_def)
  qed
qed

lemma distinct_pages_of:
  assumes ok: "dirs_ok R st" and pd: "pd \<in> R" and own: "owns_frames st pd"
  shows "distinct (concat (map (pages_of st pd) [0..<768]))"
proof (rule distinct_concat_map)
  have no: "\<not> table_page st (frame_of st pd v)" if "mapped st pd v" for v
  proof
    assume "table_page st (frame_of st pd v)"
    then have "used_page False st (frame_of st pd v)" "used_page True st (frame_of st pd v)"
      using own that by (simp_all add: table_page_used owns_frames_def)
    then show False using page_used_other_pool [OF dirs_okD(1) [OF ok], of False _ True] by (auto simp: used_page_def)
  qed
  have inj: "i = i' \<and> j = j'" if "i < 768" "i' < 768" "j < 1024" "j' < 1024" "mapped st pd (vaddr i j)" "mapped st pd (vaddr i' j')"
    "frame_of st pd (vaddr i j) = frame_of st pd (vaddr i' j')" for i i' j j'
  proof -
    have "pd_no (vaddr i j) = pd_no (vaddr i' j')" "pt_no (vaddr i j) = pt_no (vaddr i' j')"
      using own that(5-7) unfolding owns_frames_def by (metis same_vpage)+
    then have "unat (of_nat i :: u32) = unat (of_nat i' :: u32)" "unat (of_nat j :: u32) = unat (of_nat j' :: u32)"
      using vaddr_indices(1,2) [OF that(1,3)] vaddr_indices(1,2) [OF that(2,4)] by simp_all
    then show ?thesis using that(1-4) by (simp add: unat_small)
  qed
  have u: "unat (of_nat i :: u32) < 768" if "i < 768" for i using that by (simp add: unat_small)
  show "distinct (pages_of st pd i)" if "i \<in> set [0..<768]" for i
  proof (cases "pde_at st pd (of_nat i) AND PTE_P = 0")
    case True
    then show ?thesis by (simp add: pages_of_def)
  next
    case False
    have i: "i < 768" using that by simp
    have nz: "pde_at st pd (of_nat i) \<noteq> 0" using False present_nonzero [OF ok pd u [OF i]] by simp
    have e: "load_entry st (pt_at st pd (of_nat i) + 4 * of_nat j) = user_pte st pd (vaddr i j)" if "j < 1024" for j
      using vaddr_indices [OF i that] nz by (simp add: user_pte_def)
    have m: "mapped st pd (vaddr i j)" if "j < 1024" "load_entry st (pt_at st pd (of_nat i) + 4 * of_nat j) AND PTE_P \<noteq> 0" for j
      using that e [OF that(1)] vaddr_indices(3) [OF i that(1)] by (simp add: mapped_def)
    have "distinct (frames_of st (pt_at st pd (of_nat i)) [0..<1024])"
      unfolding frames_of_def distinct_map
      using inj [OF i i] m e by (auto simp: inj_on_def frame_of_def)
    moreover have "pt_at st pd (of_nat i) \<notin> set (frames_of st (pt_at st pd (of_nat i)) [0..<1024])"
    proof
      assume "pt_at st pd (of_nat i) \<in> set (frames_of st (pt_at st pd (of_nat i)) [0..<1024])"
      then obtain j where "j < 1024" "load_entry st (pt_at st pd (of_nat i) + 4 * of_nat j) AND PTE_P \<noteq> 0"
        "pt_at st pd (of_nat i) = (load_entry st (pt_at st pd (of_nat i) + 4 * of_nat j) AND PTE_ADDR) + PHYS_BASE"
        by (auto simp: frames_of_def)
      then have "table_page st (frame_of st pd (vaddr i j))" "mapped st pd (vaddr i j)"
        using table_page_pt [OF ok pd u [OF i] nz] e m by (simp_all add: frame_of_def)
      then show False using no by blast
    qed
    ultimately show ?thesis by (simp add: pages_of_def)
  qed
  show "set (pages_of st pd i) \<inter> set (pages_of st pd i') = {}" if "i \<in> set [0..<768]" "i' \<in> set [0..<768]" "i \<noteq> i'" for i i'
  proof -
    have i: "i < 768" "i' < 768" using that by simp_all
    have ne: "(of_nat i :: u32) \<noteq> of_nat i'" using that(3) i unat_small [of i] unat_small [of i'] by force
    have False if p: "p \<in> set (pages_of st pd i)" "p \<in> set (pages_of st pd i')" for p
    proof -
      note a = set_pages_of [OF ok pd i(1), THEN iffD1, OF p(1)] and b = set_pages_of [OF ok pd i(2), THEN iffD1, OF p(2)]
      have t: "table_page st (pt_at st pd (of_nat i))" "table_page st (pt_at st pd (of_nat i'))"
        using table_page_pt [OF ok pd u] a b i by blast+
      have tt: "pt_at st pd (of_nat i) \<noteq> pt_at st pd (of_nat i')"
        using dirs_okD(7) [OF ok pd pd u [OF i(1)] u [OF i(2)]] a b ne by blast
      from a b show False using t tt no inj i \<open>i \<noteq> i'\<close> by metis
    qed
    then show ?thesis by blast
  qed
qed simp

lemma dirs_ok_subset:
  assumes ok: "dirs_ok R st" and R': "R' \<subseteq> R" "init_page_dir st \<in> R'"
  shows "dirs_ok R' st"
proof (rule dirs_okI)
  show "table_page st pd" if "pd \<in> R'" for pd using dirs_okD(5) [OF ok] R'(1) that by blast
  show "table_ok st R' pd i" if "pd \<in> R'" "unat i < 768" "pde_at st pd i \<noteq> 0" for pd i
    using dirs_okD(6) [OF ok _ that(2,3)] R'(1) that(1) unfolding table_ok_def by blast
  show "q = q' \<and> k = k'" if "q \<in> R'" "q' \<in> R'" "unat k < 768" "unat k' < 768" "pde_at st q k \<noteq> 0" "pde_at st q' k' \<noteq> 0"
    "pt_at st q k = pt_at st q' k'" for q q' k k'
    using dirs_okD(7) [OF ok _ _ that(3-7)] R'(1) that(1,2) by blast
qed (use dirs_okD(1,2,4) [OF ok] R' in simp_all)

lemma pagedir_destroy_eq:
  assumes ok: "dirs_ok R st" and pd: "pd \<in> R" "pd \<noteq> init_page_dir st" and own: "owns_frames st pd"
  shows "\<exists>st'. pagedir_destroy pd st = Some st' \<and> dirs_ok (R - {pd}) st' \<and> st' = st\<lparr>ram := ram st'\<rparr> \<and>
    (\<forall>u q. used_page u st' q \<longleftrightarrow> used_page u st q \<and> q \<notin> {pd} \<union> tables_of st pd \<union> {frame_of st pd v | v. mapped st pd v}) \<and>
    (\<forall>q \<in> R - {pd}. \<forall>v. is_user_vaddr v \<longrightarrow> user_pte st' q v = user_pte st q v)"
proof -
  let ?ps = "concat (map (pages_of st pd) [0..<768])"
  have ph: "phys_ok (ram st)" using dirs_okD(1) [OF ok] .
  have tpd: "table_page st pd" using dirs_okD(5) [OF ok pd(1)] .
  have u: "unat (of_nat i :: u32) < 768" if "i < 768" for i using that by (simp add: unat_small)
  have nat: "\<exists>i' < 768. (of_nat i' :: u32) = i" if "unat i < 768" for i
    using that by (intro exI [of _ "unat i"]) simp
  have set: "set ?ps = tables_of st pd \<union> {frame_of st pd v | v. mapped st pd v}" (is "?l = ?r")
  proof (intro equalityI subsetI)
    fix p assume "p \<in> ?l"
    then obtain i where "i < 768" "p \<in> set (pages_of st pd i)" by auto
    then show "p \<in> ?r" using set_pages_of [OF ok pd(1)] u by (fastforce simp: tables_of_def)
  next
    fix p assume "p \<in> ?r"
    then consider (t) i where "unat i < 768" "pde_at st pd i \<noteq> 0" "p = pt_at st pd i"
      | (f) v where "mapped st pd v" "p = frame_of st pd v" by (auto simp: tables_of_def)
    then show "p \<in> ?l"
    proof cases
      case t
      then obtain i' where "i' < 768" "(of_nat i' :: u32) = i" using nat by blast
      then show ?thesis using set_pages_of [OF ok pd(1), of i' p] t by auto
    next
      case f
      have v: "is_user_vaddr v" using f(1) by (simp add: mapped_def)
      obtain i where i: "i < 768" "(of_nat i :: u32) = pd_no v" using nat pd_no_bound [OF v] by blast
      have j: "unat (pt_no v) < 1024" "(of_nat (unat (pt_no v)) :: u32) = pt_no v" by simp_all
      let ?j = "unat (pt_no v)"
      have "user_pte st pd (vaddr i ?j) = user_pte st pd v"
        using vaddr_indices [OF i(1) j(1)] i(2) j(2) by (simp add: user_pte_def)
      then have "mapped st pd (vaddr i ?j)" "frame_of st pd (vaddr i ?j) = p" "pde_at st pd (of_nat i) \<noteq> 0"
        using f vaddr_indices(3) [OF i(1) j(1)] i(2) by (auto simp: mapped_def frame_of_def user_pte_def split: if_splits)
      then have "p \<in> set (pages_of st pd i)"
        unfolding set_pages_of [OF ok pd(1) i(1)] using j(1) by blast
      then show ?thesis using i(1) by auto
    qed
  qed
  have frame: "used_page True st (frame_of st pd v)" "\<not> table_page st (frame_of st pd v)" if "mapped st pd v" for v
  proof -
    show "used_page True st (frame_of st pd v)" using own that by (simp add: owns_frames_def)
    then show "\<not> table_page st (frame_of st pd v)"
      using page_used_other_pool [OF ph, of False _ True] by (auto simp: table_page_used used_page_def)
  qed
  have used: "\<forall>p \<in> set (?ps @ [pd]). \<exists>u. used_page u st p"
    using set frame(1) table_page_pt [OF ok pd(1)] tpd by (auto simp: tables_of_def table_page_used)
  have notin: "q \<notin> set ?ps" if "q \<in> R" for q
  proof -
    have "q \<notin> tables_of st pd"
      unfolding tables_of_def using table_okD(4) [OF dirs_okD(6) [OF ok pd(1)]] that by blast
    moreover have "q \<notin> {frame_of st pd v | v. mapped st pd v}" using frame(2) dirs_okD(5) [OF ok that] by blast
    ultimately show ?thesis unfolding set by blast
  qed
  note notpd = notin [OF pd(1)]
  have d: "distinct (?ps @ [pd])" using distinct_pages_of [OF ok pd(1) own] notpd by simp
  have "destroy_tables pd [0..<768] st = free_all ?ps st"
  proof (rule destroy_tables_eq [OF ph table_pageD(1) [OF ok tpd]])
    show "\<forall>i \<in> set [0..<768]. i < 1024 \<and> frame_ok (pde_at st pd (of_nat i)) \<and> (pde_at st pd (of_nat i) AND PTE_P \<noteq> 0 \<longrightarrow>
      pg_ofs (pt_at st pd (of_nat i)) = 0 \<and> (\<forall>j < 1024. frame_ok (load_entry st (pt_at st pd (of_nat i) + 4 * of_nat j))))"
    proof
      fix i assume "i \<in> set [0..<768 :: nat]"
      then have i: "i < 768" by simp
      show "i < 1024 \<and> frame_ok (pde_at st pd (of_nat i)) \<and> (pde_at st pd (of_nat i) AND PTE_P \<noteq> 0 \<longrightarrow>
        pg_ofs (pt_at st pd (of_nat i)) = 0 \<and> (\<forall>j < 1024. frame_ok (load_entry st (pt_at st pd (of_nat i) + 4 * of_nat j))))"
      proof (cases "pde_at st pd (of_nat i) = 0")
        case False
        note t = table_okD [OF dirs_okD(6) [OF ok pd(1) u [OF i] False]]
        show ?thesis using i t(2) t(5) table_pageD(1) [OF ok t(3)] by (simp add: frame_ok_def unat_small)
      qed (use i in \<open>simp add: frame_ok_def\<close>)
    qed
  qed (use d notpd used in auto)
  then have run: "pagedir_destroy pd st = free_all (?ps @ [pd]) st"
    using pd(2) table_pageD(2) [OF ok tpd]
    by (simp add: pagedir_destroy_def free_all_snoc unat_pd_no PHYS_BASE_def del: upt_conv_Cons)
  obtain st' where s: "free_all (?ps @ [pd]) st = Some st'" "phys_ok (ram st')" "st' = st\<lparr>ram := ram st'\<rparr>"
      "\<forall>v q. used_page v st' q \<longleftrightarrow> used_page v st q \<and> q \<notin> set (?ps @ [pd])"
      "\<forall>v. pool_base (get_pool v (ram st')) = pool_base (get_pool v (ram st))"
      "\<forall>q i. pg_ofs q = 0 \<and> q \<notin> set (?ps @ [pd]) \<and> unat i < 1024 \<longrightarrow> load_entry st' (q + 4 * i) = load_entry st (q + 4 * i)"
    using free_all_ok [OF ph d used] by (elim exE conjE) (rule that)
  have keep: "q \<notin> set (?ps @ [pd])" if "q \<in> R - {pd}" for q
    using that notin [of q] by simp
  have keep_pt: "pt_at st q k \<notin> set (?ps @ [pd])" if "q \<in> R - {pd}" "unat k < 768" "pde_at st q k \<noteq> 0" for q k
  proof -
    note t = table_okD [OF dirs_okD(6) [OF ok _ that(2,3)]]
    have d: "pt_at st q k \<noteq> pt_at st pd i" if "unat i < 768" "pde_at st pd i \<noteq> 0" for i
      using dirs_okD(7) [OF ok pd(1) _ that(1) \<open>unat k < 768\<close> that(2) \<open>pde_at st q k \<noteq> 0\<close>] \<open>q \<in> R - {pd}\<close> by auto
    have n: "pt_at st q k \<noteq> pd" "table_page st (pt_at st q k)" using t(3,4) that(1) pd(1) by auto
    have "pt_at st q k \<notin> tables_of st pd" using d unfolding tables_of_def by blast
    moreover have "pt_at st q k \<notin> {frame_of st pd v | v. mapped st pd v}" using frame(2) n(2) by (auto; metis)
    ultimately have "pt_at st q k \<notin> set ?ps" unfolding set by blast
    then show ?thesis using n(1) by simp
  qed
  have al: "pg_ofs q = 0" if "q \<in> R" for q using table_pageD(1) [OF ok dirs_okD(5) [OF ok that]] .
  have pde: "pde_at st' q k = pde_at st q k" if "q \<in> R - {pd}" "unat k < 1024" for q k
    using s(6) al [of q] keep [OF that(1)] that by (simp add: pde_at_def)
  have load: "load_entry st' (pt_at st q k + 4 * j) = load_entry st (pt_at st q k + 4 * j)"
    if "q \<in> R - {pd}" "unat k < 768" "pde_at st q k \<noteq> 0" "unat j < 1024" for q k j
  proof -
    have "q \<in> R" using that(1) by simp
    from table_pageD(1) [OF ok table_page_pt [OF ok this that(2,3)]] show ?thesis
      using s(6) keep_pt [OF that(1-3)] that(4) by blast
  qed
  have ini: "init_page_dir st' = init_page_dir st" by (subst s(3)) simp
  have sub: "dirs_ok (R - {pd}) st" using dirs_ok_subset [OF ok, of "R - {pd}"] dirs_okD(3) [OF ok] pd(2) by auto
  have "dirs_ok (R - {pd}) st'"
  proof (rule dirs_ok_same [OF sub s(2)])
    show "pool_base (kernel_pool (ram st')) = pool_base (kernel_pool (ram st))" using s(5) [THEN spec, of False] by (simp add: get_pool_def)
    show "table_page st' q" if "q \<in> R - {pd}" for q
      using s(4) keep [OF that] dirs_okD(5) [OF ok, of q] that by (simp add: table_page_used)
    show "table_page st' (pt_at st q k)" if "q \<in> R - {pd}" "unat k < 768" "pde_at st q k \<noteq> 0" for q k
      using s(4) keep_pt [OF that] table_page_pt [OF ok, of q k] that by (simp add: table_page_used)
    show "frame_ok (load_entry st' (pt_at st q k + 4 * j))" if "q \<in> R - {pd}" "unat k < 768" "pde_at st q k \<noteq> 0" "unat j < 1024" for q k j
      using load [OF that] table_okD(5) [OF dirs_okD(6) [OF ok, of q k]] that by simp
  qed (use ini pde in simp_all)
  moreover have "user_pte st' q v = user_pte st q v" if "q \<in> R - {pd}" "is_user_vaddr v" for q v
  proof -
    note b = pd_no_bound [OF that(2)]
    have e: "pde_at st' q (pd_no v) = pde_at st q (pd_no v)" using pde [OF that(1)] b by simp
    show ?thesis
    proof (cases "pde_at st q (pd_no v) = 0")
      case False
      then show ?thesis using e load [OF that(1) b False, of "pt_no v"] by (simp add: user_pte_def pt_at_def)
    qed (use e in \<open>simp add: user_pte_def\<close>)
  qed
  moreover have "\<forall>u q. used_page u st' q \<longleftrightarrow> used_page u st q \<and> q \<notin> {pd} \<union> tables_of st pd \<union> {frame_of st pd v | v. mapped st pd v}"
    using s(4) set by auto
  ultimately show ?thesis using run s(1,3) by (intro exI [of _ st']) simp
qed

section \<open>The properties\<close>

text \<open>C5: An address space is a map from user pages to frames, and the address spaces are independent:
  \<^verbatim>\<open>pagedir_set_page\<close> of a page that is not mapped succeeds unless the kernel pool is used up, and then
  \<^verbatim>\<open>pagedir_get_page\<close> translates each address of the page to the address with the same offset in the
  frame, while every other translation, in this and in every other directory, is what it was.\<close>

theorem pagedir_set_page_maps:
  assumes "dirs_ok R st" "pd \<in> R" "pd \<noteq> init_page_dir st" and "is_user_vaddr upage" "pg_ofs upage = 0"
    and "pg_ofs kpage = 0" "PHYS_BASE \<le> kpage" "drop_bit PTSHIFT (kpage - PHYS_BASE) < init_ram_pages st"
    and "pagedir_get_page pd upage st = Some 0"
  shows "\<exists>ok st'. pagedir_set_page pd upage kpage writable st = Some (ok, st') \<and> dirs_ok R st' \<and> (\<not> ok \<longrightarrow> kernel_full st) \<and>
    (\<forall>q \<in> R. \<forall>v. is_user_vaddr v \<longrightarrow> pagedir_get_page q v st' =
       (if ok \<and> q = pd \<and> pg_round_down v = upage then Some (kpage + pg_ofs v) else pagedir_get_page q v st))"
proof -
  have free: "user_pte st pd upage AND PTE_P = 0"
  proof (rule ccontr)
    assume p: "user_pte st pd upage AND PTE_P \<noteq> 0"
    then have "user_pte st pd upage AND PTE_ADDR < 0x40000000"
      using user_pte_frame_ok [OF assms(1,2,4)] by (simp add: frame_ok_def)
    then show False using p get_page_eq [OF assms(1,2,4)] assms(5,9) ptov_low(3) by simp
  qed
  obtain ok e st' where r: "pagedir_set_page pd upage kpage writable st = Some (ok, st')" "dirs_ok R st'"
    "e AND PTE_P \<noteq> 0" "(e AND PTE_ADDR) + PHYS_BASE = kpage" "\<not> ok \<longrightarrow> kernel_full st"
    "\<forall>q \<in> R. \<forall>v. is_user_vaddr v \<longrightarrow> user_pte st' q v = (if ok \<and> q = pd \<and> pg_round_down v = upage then e else user_pte st q v)"
    using set_page_eq [OF assms(1-8) free] by blast
  have "pagedir_get_page q v st' =
       (if ok \<and> q = pd \<and> pg_round_down v = upage then Some (kpage + pg_ofs v) else pagedir_get_page q v st)"
    if "q \<in> R" "is_user_vaddr v" for q v
    using get_page_eq [OF r(2) that] get_page_eq [OF assms(1) that] r(3,4,6) that by (cases "ok \<and> q = pd \<and> pg_round_down v = upage") auto
  then show ?thesis using r(1,2,5) by blast
qed

text \<open>A kernel with one directory, in page 1 of its pool, and no user mappings.\<close>

definition sample_mmu :: mmu where
  "sample_mmu = \<lparr>ram = sample_phys\<lparr>phys_mem := \<lambda>_. 0\<rparr>, init_page_dir = page_addr (sample_pool 0xC0100000) 1,
     init_ram_pages = 1024, cr3 = page_addr (sample_pool 0xC0100000) 1 - PHYS_BASE, tlb = Map.empty\<rparr>"

lemma sample_load [simp]: "load_entry sample_mmu a = 0"
  by (simp add: load_entry_def sample_mmu_def load32_def decode32_def)

lemma sample_table_page: "k \<in> {0, 1, 4} \<Longrightarrow> table_page sample_mmu (page_addr (sample_pool 0xC0100000) k)"
  unfolding table_page_def page_used_def
  by (rule exI [of _ k]) (auto simp: sample_mmu_def sample_phys_def sample_pool_def get_pool_def marked_rep [OF sample_bitmap_rep], simp_all add: sample_bitmap_def)

lemma sample_dirs_ok:
  assumes "ks \<subseteq> {0, 1, 4}" "1 \<in> ks"
  shows "dirs_ok (page_addr (sample_pool 0xC0100000) ` ks) sample_mmu"
proof (rule dirs_okI)
  show "phys_ok (ram sample_mmu)" using sample_phys_ok by (simp add: sample_mmu_def)
  show "PHYS_BASE \<le> pool_base (kernel_pool (ram sample_mmu))"
    by (simp add: sample_mmu_def sample_phys_def sample_pool_def PHYS_BASE_def)
  show "init_page_dir sample_mmu \<in> page_addr (sample_pool 0xC0100000) ` ks" using assms(2) by (simp add: sample_mmu_def)
qed (use sample_table_page assms in \<open>auto simp: pde_at_def\<close>)

theorem pagedir_set_page_maps_witness:
  "\<exists>ok st'. pagedir_set_page (page_addr (sample_pool 0xC0100000) 0) 0x8048000 0xC0200000 True sample_mmu = Some (ok, st') \<and>
     (ok \<longrightarrow> pagedir_get_page (page_addr (sample_pool 0xC0100000) 0) 0x8048123 st' = Some 0xC0200123)"
proof -
  let ?pd = "page_addr (sample_pool 0xC0100000) 0" and ?R = "page_addr (sample_pool 0xC0100000) ` {0, 1}"
  have ok: "dirs_ok ?R sample_mmu" by (rule sample_dirs_ok) auto
  have pd: "?pd \<in> ?R" "?pd \<noteq> init_page_dir sample_mmu"
    by (auto simp: sample_mmu_def page_addr_def sample_pool_def PGSIZE_def)
  have u: "is_user_vaddr 0x8048000" "is_user_vaddr 0x8048123" "pg_ofs 0x8048000 = 0" "pg_ofs 0xC0200000 = 0"
    "PHYS_BASE \<le> 0xC0200000" "pg_round_down 0x8048123 = 0x8048000" "pg_ofs 0x8048123 = 0x123"
    by (simp_all add: is_user_vaddr_def PHYS_BASE_def pg_ofs_def PGMASK_def pg_round_down_def)
  have "drop_bit PTSHIFT (0xC0200000 - PHYS_BASE) < init_ram_pages sample_mmu"
    by (simp add: PTSHIFT_def PHYS_BASE_def sample_mmu_def)
  moreover have "pagedir_get_page ?pd 0x8048000 sample_mmu = Some 0"
    using get_page_eq [OF ok pd(1) u(1)] by (simp add: user_pte_def pde_at_def)
  ultimately obtain ok' st' where "pagedir_set_page ?pd 0x8048000 0xC0200000 True sample_mmu = Some (ok', st')"
    "\<forall>q \<in> ?R. \<forall>v. is_user_vaddr v \<longrightarrow> pagedir_get_page q v st' =
       (if ok' \<and> q = ?pd \<and> pg_round_down v = 0x8048000 then Some (0xC0200000 + pg_ofs v) else pagedir_get_page q v sample_mmu)"
    using pagedir_set_page_maps [OF ok pd u(1,3,4,5), of True] by blast
  then show ?thesis using pd(1) u(2,6,7) by (intro exI [of _ ok'] exI [of _ st']) simp
qed

text \<open>The operations on the directories \<open>R\<close>, each as one step. A directory is destroyed when it is
  not the active one and its frames are its own; flags are set for user addresses.\<close>

inductive mmu_step :: "u32 set \<times> mmu \<Rightarrow> u32 set \<times> mmu \<Rightarrow> bool" where
  create: "pagedir_create st = Some (pd, st') \<Longrightarrow> mmu_step (R, st) (if pd = 0 then R else insert pd R, st')"
| set_page: "pd \<in> R \<Longrightarrow> pagedir_set_page pd upage kpage writable st = Some (ok, st') \<Longrightarrow> mmu_step (R, st) (R, st')"
| clear_page: "pd \<in> R \<Longrightarrow> pagedir_clear_page pd upage st = Some st' \<Longrightarrow> mmu_step (R, st) (R, st')"
| set_dirty: "pd \<in> R \<Longrightarrow> is_user_vaddr v \<Longrightarrow> pagedir_set_dirty pd v b st = Some st' \<Longrightarrow> mmu_step (R, st) (R, st')"
| set_accessed: "pd \<in> R \<Longrightarrow> is_user_vaddr v \<Longrightarrow> pagedir_set_accessed pd v b st = Some st' \<Longrightarrow> mmu_step (R, st) (R, st')"
| activate: "pd \<in> insert 0 R \<Longrightarrow> pagedir_activate pd st = Some st' \<Longrightarrow> mmu_step (R, st) (R, st')"
| destroy: "pd \<in> R \<Longrightarrow> pd \<noteq> cr3 st + PHYS_BASE \<Longrightarrow> owns_frames st pd \<Longrightarrow> pagedir_destroy pd st = Some st' \<Longrightarrow>
    mmu_step (R, st) (R - {pd}, st')"

lemma set_page_SomeD:
  assumes ok: "dirs_ok R st" and pd: "pd \<in> R" and run: "pagedir_set_page pd upage kpage w st = Some (r, st')"
  shows "pd \<noteq> init_page_dir st" "is_user_vaddr upage" "pg_ofs upage = 0" "pg_ofs kpage = 0" "PHYS_BASE \<le> kpage"
    "drop_bit PTSHIFT (kpage - PHYS_BASE) < init_ram_pages st" "user_pte st pd upage AND PTE_P = 0"
proof -
  show a: "pd \<noteq> init_page_dir st" "is_user_vaddr upage" "pg_ofs upage = 0" "pg_ofs kpage = 0"
    using run by (auto simp: pagedir_set_page_def kassert_bind_Some_iff split: bind_splits)
  show b: "PHYS_BASE \<le> kpage" "drop_bit PTSHIFT (kpage - PHYS_BASE) < init_ram_pages st"
    using run by (auto simp: pagedir_set_page_def vtop_def is_kernel_vaddr_def kassert_bind_Some_iff split: bind_splits)
  obtain pte s1 where l: "lookup_page pd upage True st = Some (pte, s1)" "dirs_ok R s1" "s1 = st\<lparr>ram := ram s1\<rparr>"
    "\<forall>q \<in> R. \<forall>v'. is_user_vaddr v' \<longrightarrow> user_pte s1 q v' = user_pte st q v'"
    "if pte = 0 then kernel_full st else pde_at s1 pd (pd_no upage) \<noteq> 0 \<and> pte = pte_addr s1 pd upage"
    using lookup_create [OF ok pd a(1,2)] by blast
  show "user_pte st pd upage AND PTE_P = 0"
  proof (rule ccontr)
    assume p: "user_pte st pd upage AND PTE_P \<noteq> 0"
    have "pde_at st pd (pd_no upage) \<noteq> 0" using p by (auto simp: user_pte_def split: if_splits)
    then have "lookup_page pd upage True st = lookup_page pd upage False st" using a(2) by (simp add: lookup_page_def pde_at_def)
    then have "pte = pte_addr st pd upage" "s1 = st" "pte \<noteq> 0"
      using l(1) lookup_page_eq(1,2) [OF ok pd a(2)] \<open>pde_at st pd (pd_no upage) \<noteq> 0\<close> by auto
    then have "load_entry s1 pte AND PTE_P \<noteq> 0" using lookup_page_eq(3) [OF ok pd a(2)] p by simp
    then have "pagedir_set_page pd upage kpage w st = None"
      using l(1) \<open>pte \<noteq> 0\<close> a vtop_high(1) [OF b(1)] b(2) by (simp add: pagedir_set_page_def)
    then show False using run by simp
  qed
qed

lemma mmu_step_ok:
  assumes "mmu_step c c'" and "dirs_ok (fst c) (snd c)" "tlb_ok (fst c) (snd c)"
  shows "dirs_ok (fst c') (snd c') \<and> tlb_ok (fst c') (snd c')"
  using assms
proof (induction rule: mmu_step.induct)
  case c: (create st pd st' R)
  note ok = c.prems [simplified]
  obtain pd' s' where s: "pagedir_create st = Some (pd', s')" "s' = st\<lparr>ram := ram s'\<rparr>"
    "\<forall>q \<in> R. \<forall>v. is_user_vaddr v \<longrightarrow> user_pte s' q v = user_pte st q v"
    "if pd' = 0 then dirs_ok R s' else dirs_ok (insert pd' R) s'"
    using pagedir_create_eq [OF ok(1)] by (auto split: if_splits)
  have e: "pd' = pd" "s' = st'" using s(1) c(1) by simp_all
  have r: "cr3 s' = cr3 st" "tlb s' = tlb st" by (subst s(2), simp)+
  have "tlb_ok (if pd = 0 then R else insert pd R) s'"
  proof (rule tlb_ok_same [OF ok(2) r])
    show "cr3 st + PHYS_BASE \<in> (if pd = 0 then R else insert pd R)" using tlb_okD(2) [OF ok(2)] by auto
  qed (use s(3) tlb_okD(2) [OF ok(2)] in simp)
  then show ?case using s(4) e by (simp split: if_splits)
next
  case c: (set_page pd R upage kpage writable st r st')
  note ok = c.prems [simplified]
  note p = set_page_SomeD [OF ok(1) c(1,2)]
  obtain r' e s' where s: "pagedir_set_page pd upage kpage writable st = Some (r', s')" "dirs_ok R s'" "s' = st\<lparr>ram := ram s'\<rparr>"
    "\<forall>q \<in> R. \<forall>v. is_user_vaddr v \<longrightarrow> user_pte s' q v = (if r' \<and> q = pd \<and> pg_round_down v = upage then e else user_pte st q v)"
    using set_page_eq [OF ok(1) c(1) p, where w = writable] by (elim exE conjE) (rule that)
  have "tlb_ok R s'" by (rule set_page_tlb [OF ok c(1) p(7,2,3) s(3,4)])
  then show ?case using s(1,2) c(2) by simp
next
  case c: (clear_page pd R upage st st')
  note ok = c.prems [simplified]
  have "is_user_vaddr upage" "pg_ofs upage = 0"
    using c(2) by (auto simp: pagedir_clear_page_def kassert_bind_Some_iff)
  then show ?case using clear_page_eq [OF ok c(1), of upage] c(2) by auto
next
  case c: (set_dirty pd R v b st st')
  note ok = c.prems [simplified]
  have f: "PTE_D = PTE_A \<or> PTE_D = PTE_D" by simp
  show ?case using flag_eq [OF ok c(1,2) f, of b] set_dirty_eq(1) [OF ok(1) c(1,2), of b] c(3) by auto
next
  case c: (set_accessed pd R v b st st')
  note ok = c.prems [simplified]
  have f: "PTE_A = PTE_A \<or> PTE_A = PTE_D" by simp
  show ?case using flag_eq [OF ok c(1,2) f, of b] set_dirty_eq(2) [OF ok(1) c(1,2), of b] c(3) by auto
next
  case c: (activate pd R st st')
  note ok = c.prems [simplified]
  let ?pd = "if pd = 0 then init_page_dir st else pd"
  have R: "?pd \<in> R" using c(1) dirs_okD(3) [OF ok(1)] by auto
  note h = vtop_high [OF table_pageD(3) [OF ok(1) dirs_okD(5) [OF ok(1) R]]]
  have "st' = st\<lparr>cr3 := ?pd - PHYS_BASE, tlb := Map.empty\<rparr>" using c(2) h(1) by (auto simp: pagedir_activate_def Let_def)
  moreover have "tlb_ok R (st\<lparr>cr3 := ?pd - PHYS_BASE, tlb := Map.empty\<rparr>)" using R h(2) by (simp add: tlb_ok_def)
  moreover have "dirs_ok R (st\<lparr>cr3 := ?pd - PHYS_BASE, tlb := Map.empty\<rparr>)"
    using ok(1) by simp
  ultimately show ?case by simp
next
  case c: (destroy pd R st st')
  note ok = c.prems [simplified]
  have ne: "pd \<noteq> init_page_dir st"
    using c(4) table_pageD(2) [OF ok(1) dirs_okD(5) [OF ok(1) c(1)]]
    by (auto simp: pagedir_destroy_def kassert_bind_Some_iff)
  obtain s' where s: "pagedir_destroy pd st = Some s'" "dirs_ok (R - {pd}) s'" "s' = st\<lparr>ram := ram s'\<rparr>"
    "\<forall>q \<in> R - {pd}. \<forall>v. is_user_vaddr v \<longrightarrow> user_pte s' q v = user_pte st q v"
    using pagedir_destroy_eq [OF ok(1) c(1) ne c(3)] by blast
  have r: "cr3 s' = cr3 st" "tlb s' = tlb st" by (subst s(3), simp)+
  have a: "cr3 st + PHYS_BASE \<in> R - {pd}" using tlb_okD(2) [OF ok(2)] c(2) by auto
  have "tlb_ok (R - {pd}) s'" by (rule tlb_ok_same [OF ok(2) r a]) (use s(4) a in simp)
  then show ?case using s(1,2) c(4) by simp
qed

text \<open>C8: In every state that the operations on page directories reach, page tables are well formed: each
  present entry for user addresses names a page table in use that no other entry names, and
  each present page table entry a frame in range. And no translation goes stale: the entries that the
  processor may have cached still agree with the tables of the active directory, and none of them has an
  accessed or dirty flag that was cleared in memory since.\<close>

theorem page_tables_well_formed:
  assumes "mmu_step\<^sup>*\<^sup>* (R, st) (R', st')" and "dirs_ok R st" "tlb_ok R st"
  shows "dirs_ok R' st' \<and> tlb_ok R' st'"
proof -
  have "dirs_ok (fst c) (snd c) \<and> tlb_ok (fst c) (snd c)" if "mmu_step\<^sup>*\<^sup>* (R, st) c" for c
    using that by (induction rule: rtranclp_induct) (use assms(2,3) mmu_step_ok in auto)
  from this [OF assms(1)] show ?thesis by simp
qed

theorem page_tables_well_formed_witness:
  "\<exists>st'. pagedir_activate 0 sample_mmu = Some st' \<and> dirs_ok {init_page_dir sample_mmu} st' \<and> tlb_ok {init_page_dir sample_mmu} st'"
proof -
  let ?R = "{init_page_dir sample_mmu}"
  have ok: "dirs_ok ?R sample_mmu" using sample_dirs_ok [of "{1}"] by (simp add: sample_mmu_def)
  have t: "tlb_ok ?R sample_mmu"
    by (simp add: tlb_ok_def sample_mmu_def page_addr_def sample_pool_def PGSIZE_def PHYS_BASE_def)
  have "pagedir_activate 0 sample_mmu = Some (sample_mmu\<lparr>cr3 := init_page_dir sample_mmu - PHYS_BASE, tlb := Map.empty\<rparr>)"
    using vtop_high(1) [OF table_pageD(3) [OF ok dirs_okD(5) [OF ok]]] by (simp add: pagedir_activate_def)
  moreover from this have "mmu_step\<^sup>*\<^sup>* (?R, sample_mmu)
      (?R, sample_mmu\<lparr>cr3 := init_page_dir sample_mmu - PHYS_BASE, tlb := Map.empty\<rparr>)"
    by (intro r_into_rtranclp mmu_step.activate [of 0]) simp_all
  ultimately show ?thesis using page_tables_well_formed [OF _ ok t] by blast
qed

text \<open>C17: \<^verbatim>\<open>pagedir_destroy\<close> of a directory whose frames are its own returns: it frees its frames, its page
  tables and itself, each once, and no other page of either pool, and the other directories keep all
  of their translations.\<close>

theorem pagedir_destroy_frees:
  assumes "dirs_ok R st" "pd \<in> R" "pd \<noteq> init_page_dir st" "owns_frames st pd"
  shows "\<exists>st'. pagedir_destroy pd st = Some st' \<and> dirs_ok (R - {pd}) st' \<and>
    (\<forall>u q. used_page u st' q \<longleftrightarrow> used_page u st q \<and> q \<notin> {pd} \<union> tables_of st pd \<union> {frame_of st pd v | v. mapped st pd v}) \<and>
    (\<forall>q \<in> R - {pd}. \<forall>v. is_user_vaddr v \<longrightarrow> pagedir_get_page q v st' = pagedir_get_page q v st)"
proof -
  obtain s' where s: "pagedir_destroy pd st = Some s'" "dirs_ok (R - {pd}) s'"
    "\<forall>u q. used_page u s' q \<longleftrightarrow> used_page u st q \<and> q \<notin> {pd} \<union> tables_of st pd \<union> {frame_of st pd v | v. mapped st pd v}"
    "\<forall>q \<in> R - {pd}. \<forall>v. is_user_vaddr v \<longrightarrow> user_pte s' q v = user_pte st q v"
    using pagedir_destroy_eq [OF assms] by blast
  have "pagedir_get_page q v s' = pagedir_get_page q v st" if "q \<in> R - {pd}" "is_user_vaddr v" for q v
    using get_page_eq [OF s(2) that] get_page_eq [OF assms(1) _ that(2), of q] that s(4) by simp
  with s(1-3) show ?thesis by blast
qed

theorem pagedir_destroy_frees_witness:
  "\<exists>st'. pagedir_destroy (page_addr (sample_pool 0xC0100000) 0) sample_mmu = Some st' \<and>
     \<not> used_page False st' (page_addr (sample_pool 0xC0100000) 0)"
proof -
  let ?pd = "page_addr (sample_pool 0xC0100000) 0" and ?R = "page_addr (sample_pool 0xC0100000) ` {0, 1}"
  have ok: "dirs_ok ?R sample_mmu" by (rule sample_dirs_ok) auto
  have pd: "?pd \<in> ?R" "?pd \<noteq> init_page_dir sample_mmu"
    by (auto simp: sample_mmu_def page_addr_def sample_pool_def PGSIZE_def)
  have "owns_frames sample_mmu ?pd" by (simp add: owns_frames_def mapped_def user_pte_def pde_at_def)
  from pagedir_destroy_frees [OF ok pd this] show ?thesis by auto
qed

end
