(* ===== verification/Malloc.thy ===== *)
theory Malloc
  imports PallocPages KList
begin

text \<open>
  The memory allocator, \<^verbatim>\<open>threads/malloc.c\<close>: descriptors of the seven block sizes, each with a list of
  its free blocks, and arenas, pages of the kernel pool that are divided into blocks. The headers of
  the arenas and the elements of the free lists are kept beside the bytes of memory; a page that is
  freed has its header overwritten with \<^verbatim>\<open>0xcc\<close>, as its bytes are. A descriptor is known by its
  number. The locks are not modelled: a call runs without another one in between.
\<close>

record desc =
  desc_block_size :: u32
  blocks_per_arena :: u32
  free_list :: klist

definition ARENA_MAGIC :: u32 where "ARENA_MAGIC = 0x9A548EED"

text \<open>\<open>owner\<close> is the pointer to the descriptor, which is null for a big block.\<close>

record arena =
  magic :: u32
  owner :: "nat option"
  free_cnt :: u32

definition sizeof_arena :: u32 where "sizeof_arena = 12"

record mstate =
  mram :: phys
  descs :: "desc list"
  arenas :: "u32 \<Rightarrow> arena"
  elems :: links

text \<open>The loop of \<^verbatim>\<open>malloc_init\<close>; \<open>hdr i\<close> are the elements at the ends of the free list of
  descriptor \<open>i\<close>.\<close>

partial_function (option) init_loop :: "(nat \<Rightarrow> klist) \<Rightarrow> nat \<Rightarrow> desc list \<Rightarrow> links \<Rightarrow> (desc list \<times> links) option" where
  "init_loop hdr bs ds lk =
     (if bs < PGSIZE div 2
      then do {
        kassert (length ds + 1 \<le> 10);
        let d = \<lparr>desc_block_size = of_nat bs, blocks_per_arena = (of_nat PGSIZE - sizeof_arena) div of_nat bs, free_list = hdr (length ds)\<rparr>;
        init_loop hdr (bs * 2) (ds @ [d]) (list_init (hdr (length ds)) lk) }
      else Some (ds, lk))"

definition malloc_init :: "(nat \<Rightarrow> klist) \<Rightarrow> mstate \<Rightarrow> mstate option" where
  "malloc_init hdr s = do {
     (ds, lk) \<leftarrow> init_loop hdr 16 (descs s) (elems s);
     Some (s\<lparr>descs := ds, elems := lk\<rparr>) }"

definition block_to_arena :: "u32 \<Rightarrow> mstate \<Rightarrow> u32 option" where
  "block_to_arena b s = do {
     let a = pg_round_down b;
     kassert (a \<noteq> 0);
     kassert (magic (arenas s a) = ARENA_MAGIC);
     kassert (case owner (arenas s a) of None \<Rightarrow> True
        | Some d \<Rightarrow> (pg_ofs b - sizeof_arena) mod desc_block_size (descs s ! d) = 0);
     kassert (owner (arenas s a) \<noteq> None \<or> pg_ofs b = sizeof_arena);
     Some a }"

definition arena_to_block :: "u32 \<Rightarrow> u32 \<Rightarrow> mstate \<Rightarrow> u32 option" where
  "arena_to_block a idx s = do {
     kassert (a \<noteq> 0);
     kassert (magic (arenas s a) = ARENA_MAGIC);
     d \<leftarrow> owner (arenas s a);
     kassert (idx < blocks_per_arena (descs s ! d));
     Some (a + sizeof_arena + idx * desc_block_size (descs s ! d)) }"

text \<open>The number of the first descriptor whose blocks are big enough.\<close>

fun find_desc :: "desc list \<Rightarrow> u32 \<Rightarrow> nat" where
  "find_desc [] n = 0"
| "find_desc (d # ds) n = (if desc_block_size d \<ge> n then 0 else Suc (find_desc ds n))"

text \<open>The loops over the blocks of an arena, given the numbers that are left.\<close>

fun push_blocks :: "u32 \<Rightarrow> nat \<Rightarrow> nat list \<Rightarrow> mstate \<Rightarrow> mstate option" where
  "push_blocks a d [] s = Some s"
| "push_blocks a d (i # is) s = do {
     b \<leftarrow> arena_to_block a (of_nat i) s;
     lk \<leftarrow> list_push_back (free_list (descs s ! d)) (unat b) (elems s);
     push_blocks a d is (s\<lparr>elems := lk\<rparr>) }"

fun remove_blocks :: "u32 \<Rightarrow> nat list \<Rightarrow> mstate \<Rightarrow> mstate option" where
  "remove_blocks a [] s = Some s"
| "remove_blocks a (i # is) s = do {
     b \<leftarrow> arena_to_block a (of_nat i) s;
     (e, lk) \<leftarrow> list_remove (unat b) (elems s);
     remove_blocks a is (s\<lparr>elems := lk\<rparr>) }"

definition DIV_ROUND_UP :: "u32 \<Rightarrow> u32 \<Rightarrow> u32" where
  "DIV_ROUND_UP x step = (x + step - 1) div step"

definition set_arena :: "u32 \<Rightarrow> arena \<Rightarrow> mstate \<Rightarrow> mstate" where
  "set_arena a h s = s\<lparr>arenas := (arenas s)(a := h)\<rparr>"

definition new_arena :: "nat \<Rightarrow> mstate \<Rightarrow> (bool \<times> mstate) option" where
  "new_arena d s = do {
     (a, r) \<leftarrow> palloc_get_page 0 (mram s);
     let s = s\<lparr>mram := r\<rparr>;
     if a = 0 then Some (False, s)
     else do {
       let n = blocks_per_arena (descs s ! d);
       s \<leftarrow> push_blocks a d [0..<unat n] (set_arena a \<lparr>magic = ARENA_MAGIC, owner = Some d, free_cnt = n\<rparr> s);
       Some (True, s) } }"

text \<open>The end of \<^verbatim>\<open>malloc\<close>: the first block of the list is taken.\<close>

definition pop_block :: "nat \<Rightarrow> mstate \<Rightarrow> (u32 \<times> mstate) option" where
  "pop_block d s = do {
     (e, lk) \<leftarrow> list_pop_front (free_list (descs s ! d)) (elems s);
     let b = of_nat e;
     let s = s\<lparr>elems := lk\<rparr>;
     a \<leftarrow> block_to_arena b s;
     Some (b, set_arena a ((arenas s a)\<lparr>free_cnt := free_cnt (arenas s a) - 1\<rparr>) s) }"

definition malloc :: "u32 \<Rightarrow> mstate \<Rightarrow> (u32 \<times> mstate) option" where
  "malloc n s =
     (if n = 0 then Some (0, s)
      else do {
        let d = find_desc (descs s) n;
        if d = length (descs s)
        then do {
          let page_cnt = DIV_ROUND_UP (n + sizeof_arena) (of_nat PGSIZE);
          (a, r) \<leftarrow> palloc_get_multiple 0 (unat page_cnt) (mram s);
          let s = s\<lparr>mram := r\<rparr>;
          if a = 0 then Some (0, s)
          else Some (a + sizeof_arena, set_arena a \<lparr>magic = ARENA_MAGIC, owner = None, free_cnt = page_cnt\<rparr> s) }
        else do {
          (ok, s) \<leftarrow> (if list_empty (elems s) (free_list (descs s ! d)) then new_arena d s else Some (True, s));
          if \<not> ok then Some (0, s)
          else pop_block d s } })"

definition calloc :: "u32 \<Rightarrow> u32 \<Rightarrow> mstate \<Rightarrow> (u32 \<times> mstate) option" where
  "calloc a b s = do {
     let n = a * b;
     if n < a \<or> n < b then Some (0, s)
     else do {
       (p, s) \<leftarrow> malloc n s;
       Some (p, if p \<noteq> 0 then s\<lparr>mram := (mram s)\<lparr>phys_mem := memset (phys_mem (mram s)) p 0 (unat n)\<rparr>\<rparr> else s) } }"

definition malloc_block_size :: "u32 \<Rightarrow> mstate \<Rightarrow> u32 option" where
  "malloc_block_size b s = do {
     a \<leftarrow> block_to_arena b s;
     Some (case owner (arenas s a) of
        Some d \<Rightarrow> desc_block_size (descs s ! d)
      | None \<Rightarrow> of_nat PGSIZE * free_cnt (arenas s a) - pg_ofs b) }"

text \<open>Giving pages back destroys what was in them.\<close>

definition release_pages :: "u32 \<Rightarrow> u32 \<Rightarrow> mstate \<Rightarrow> mstate option" where
  "release_pages a n s = do {
     r \<leftarrow> palloc_free_multiple a (unat n) (mram s);
     Some (s\<lparr>mram := r, arenas := (\<lambda>p. if p \<in> pages a (unat n)
        then \<lparr>magic = 0xCCCCCCCC, owner = None, free_cnt = 0xCCCCCCCC\<rparr> else arenas s p)\<rparr>) }"

definition free :: "u32 \<Rightarrow> mstate \<Rightarrow> mstate option" where
  "free p s =
     (if p = 0 then Some s
      else do {
        a \<leftarrow> block_to_arena p s;
        (case owner (arenas s a) of
           Some d \<Rightarrow> do {
             let s = s\<lparr>mram := (mram s)\<lparr>phys_mem := memset (phys_mem (mram s)) p 0xCC (unat (desc_block_size (descs s ! d)))\<rparr>\<rparr>;
             lk \<leftarrow> list_push_front (free_list (descs s ! d)) (unat p) (elems s);
             let s = s\<lparr>elems := lk\<rparr>;
             let s = set_arena a ((arenas s a)\<lparr>free_cnt := free_cnt (arenas s a) + 1\<rparr>) s;
             if free_cnt (arenas s a) \<ge> blocks_per_arena (descs s ! d)
             then do {
               kassert (free_cnt (arenas s a) = blocks_per_arena (descs s ! d));
               s \<leftarrow> remove_blocks a [0..<unat (blocks_per_arena (descs s ! d))] s;
               release_pages a 1 s }
             else Some s }
         | None \<Rightarrow> release_pages a (free_cnt (arenas s a)) s) })"

definition realloc :: "u32 \<Rightarrow> u32 \<Rightarrow> mstate \<Rightarrow> (u32 \<times> mstate) option" where
  "realloc old_block new_size s =
     (if new_size = 0 then do { s \<leftarrow> free old_block s; Some (0, s) }
      else do {
        (new_block, s) \<leftarrow> malloc new_size s;
        if old_block \<noteq> 0 \<and> new_block \<noteq> 0
        then do {
          old_size \<leftarrow> malloc_block_size old_block s;
          let min_size = (if new_size < old_size then new_size else old_size);
          let s = s\<lparr>mram := (mram s)\<lparr>phys_mem := copy_block new_block old_block (unat min_size) (phys_mem (mram s))\<rparr>\<rparr>;
          s \<leftarrow> free old_block s;
          Some (new_block, s) }
        else Some (new_block, s) })"

end
