(* ===== verification/MallocData.thy ===== *)
theory MallocData
  imports Malloc KListSort
begin

text \<open>
  The memory allocator as a set of live blocks. \<open>heap_ok A B fl s\<close> is the invariant: \<open>A\<close> are the arenas
  of small blocks, \<open>B\<close> the big blocks with their numbers of pages, and \<open>fl d\<close> the free blocks of
  descriptor \<open>d\<close>. \<open>live\<close> is what the clients hold: the address and the size of every block that
  was handed out and not yet freed.
\<close>

section \<open>Blocks of an arena\<close>

definition bsz :: "nat \<Rightarrow> nat" where "bsz d = 16 * 2 ^ d"
definition bpa :: "nat \<Rightarrow> nat" where "bpa d = 4084 div bsz d"
definition blk :: "u32 \<Rightarrow> nat \<Rightarrow> nat \<Rightarrow> u32" where "blk a d k = a + sizeof_arena + of_nat k * of_nat (bsz d)"

lemma less_7: "d < 7 \<Longrightarrow> d = 0 \<or> d = 1 \<or> d = 2 \<or> d = 3 \<or> d = 4 \<or> d = 5 \<or> d = (6 :: nat)"
  by arith

lemma bsz_bounds:
  assumes "d < 7"
  shows "16 \<le> bsz d" "bsz d \<le> 1024" "3 \<le> bpa d" "bpa d \<le> 255" "12 + bpa d * bsz d \<le> 4096"
  using less_7 [OF assms] by (auto simp: bsz_def bpa_def)

lemma bsz_pos [simp]: "0 < bsz d" "bsz d \<noteq> 0"
  by (simp_all add: bsz_def)

lemma bsz_eq: "bsz d = bsz d' \<longleftrightarrow> d = d'"
  by (simp add: bsz_def)

lemma block_offset:
  assumes "d < 7" "k < bpa d"
  shows "12 + k * bsz d + bsz d \<le> 4096"
    and "unat (sizeof_arena + of_nat k * of_nat (bsz d) :: u32) = 12 + k * bsz d"
proof -
  have "Suc k * bsz d \<le> bpa d * bsz d" using assms(2) by (intro mult_right_mono) simp_all
  then show "12 + k * bsz d + bsz d \<le> 4096" using bsz_bounds(5) [OF assms(1)] by simp
  then have "12 + k * bsz d < 2 ^ 32" by simp
  moreover have "sizeof_arena + of_nat k * of_nat (bsz d) = (of_nat (12 + k * bsz d) :: u32)"
    by (simp add: sizeof_arena_def)
  ultimately show "unat (sizeof_arena + of_nat k * of_nat (bsz d) :: u32) = 12 + k * bsz d"
    by (simp only: unat_of_nat take_bit_nat_eq_self len_num0 len_bit0 len_bit1 len_num1)
      (simp add: take_bit_nat_eq_self)
qed

lemma blk_facts:
  assumes "pg_ofs a = 0" "d < 7" "k < bpa d"
  shows "unat (blk a d k) = unat a + 12 + k * bsz d" "pg_round_down (blk a d k) = a"
    "pg_ofs (blk a d k) = sizeof_arena + of_nat k * of_nat (bsz d)" "blk a d k \<noteq> 0"
proof -
  have b: "unat (sizeof_arena + of_nat k * of_nat (bsz d) :: u32) < 4096"
    using block_offset [OF assms(2,3)] bsz_bounds(1) [OF assms(2)] by simp
  have e: "blk a d k = a + (sizeof_arena + of_nat k * of_nat (bsz d))" by (simp add: blk_def add.assoc)
  show u: "unat (blk a d k) = unat a + 12 + k * bsz d"
    unfolding e using unat_page_plus [OF assms(1) b] block_offset(2) [OF assms(2,3)] by simp
  show "pg_round_down (blk a d k) = a" "pg_ofs (blk a d k) = sizeof_arena + of_nat k * of_nat (bsz d)"
    unfolding e by (rule page_plus [OF assms(1) b])+
  show "blk a d k \<noteq> 0" using u by auto
qed

lemma blk_inj:
  assumes "pg_ofs a = 0" "pg_ofs a' = 0" "d < 7" "k < bpa d" "k' < bpa d" "blk a d k = blk a' d k'"
  shows "a = a' \<and> k = k'"
proof -
  have e: "a = a'" by (metis blk_facts(2) [OF assms(1,3,4)] blk_facts(2) [OF assms(2,3,5)] assms(6))
  have "unat a + 12 + k * bsz d = unat a' + 12 + k' * bsz d"
    by (metis blk_facts(1) [OF assms(1,3,4)] blk_facts(1) [OF assms(2,3,5)] assms(6))
  then have "k * bsz d = k' * bsz d" unfolding e by linarith
  then show ?thesis using e by simp
qed

lemma pages_self: "0 < n \<Longrightarrow> a \<in> pages a n"
  by (auto simp: pages_def intro!: image_eqI [of _ _ 0])

section \<open>The invariant\<close>

definition descs_ok :: "mstate \<Rightarrow> bool" where
  "descs_ok s \<longleftrightarrow> length (descs s) = 7 \<and>
     (\<forall>d < 7. desc_block_size (descs s ! d) = of_nat (bsz d) \<and> blocks_per_arena (descs s ! d) = of_nat (bpa d))"

definition free_idx :: "(nat \<Rightarrow> u32 list) \<Rightarrow> u32 \<Rightarrow> nat \<Rightarrow> nat set" where
  "free_idx fl a d = {k. k < bpa d \<and> blk a d k \<in> set (fl d)}"

definition arena_ok :: "(nat \<Rightarrow> u32 list) \<Rightarrow> mstate \<Rightarrow> u32 \<Rightarrow> nat \<Rightarrow> bool" where
  "arena_ok fl s a d \<longleftrightarrow> d < 7 \<and> magic (arenas s a) = ARENA_MAGIC \<and> owner (arenas s a) = Some d \<and>
     free_cnt (arenas s a) = of_nat (card (free_idx fl a d))"

definition big_ok :: "mstate \<Rightarrow> u32 \<Rightarrow> nat \<Rightarrow> bool" where
  "big_ok s a n \<longleftrightarrow> 0 < n \<and> run_used False (mram s) a n \<and> arenas s a = \<lparr>magic = ARENA_MAGIC, owner = None, free_cnt = of_nat n\<rparr>"

text \<open>The elements at the ends of the lists are not in the kernel pool, and differ between the lists.\<close>

definition headers_ok :: "mstate \<Rightarrow> bool" where
  "headers_ok s \<longleftrightarrow> (\<forall>d < 7. head (free_list (descs s ! d)) < unat (pool_base (kernel_pool (mram s))) \<and>
       tail (free_list (descs s ! d)) < unat (pool_base (kernel_pool (mram s)))) \<and>
     (\<forall>d < 7. \<forall>d' < 7. d \<noteq> d' \<longrightarrow> {head (free_list (descs s ! d)), tail (free_list (descs s ! d))} \<inter>
        {head (free_list (descs s ! d')), tail (free_list (descs s ! d'))} = {})"

definition lists_ok :: "u32 set \<Rightarrow> (nat \<Rightarrow> u32 list) \<Rightarrow> mstate \<Rightarrow> bool" where
  "lists_ok A fl s \<longleftrightarrow> (\<forall>d < 7. list_rep (elems s) (free_list (descs s ! d)) (map unat (fl d)) \<and>
     (\<forall>b \<in> set (fl d). \<exists>a \<in> A. \<exists>k < bpa d. owner (arenas s a) = Some d \<and> b = blk a d k))"

text \<open>In between, the arenas \<open>X\<close> may have no block in use.\<close>

definition heap_inv :: "u32 set \<Rightarrow> u32 set \<Rightarrow> (u32 \<times> nat) set \<Rightarrow> (nat \<Rightarrow> u32 list) \<Rightarrow> mstate \<Rightarrow> bool" where
  "heap_inv X A B fl s \<longleftrightarrow> phys_ok (mram s) \<and> descs_ok s \<and> headers_ok s \<and> lists_ok A fl s \<and>
     (\<forall>a \<in> A. page_used False (mram s) a \<and> (\<exists>d. arena_ok fl s a d \<and> (a \<in> X \<or> card (free_idx fl a d) < bpa d))) \<and>
     (\<forall>(a, n) \<in> B. big_ok s a n \<and> pages a n \<inter> A = {}) \<and>
     (\<forall>(a, n) \<in> B. \<forall>(b, m) \<in> B. pages a n \<inter> pages b m \<noteq> {} \<longrightarrow> (a, n) = (b, m))"

abbreviation heap_ok :: "u32 set \<Rightarrow> (u32 \<times> nat) set \<Rightarrow> (nat \<Rightarrow> u32 list) \<Rightarrow> mstate \<Rightarrow> bool" where
  "heap_ok \<equiv> heap_inv {}"

definition live :: "u32 set \<Rightarrow> (u32 \<times> nat) set \<Rightarrow> (nat \<Rightarrow> u32 list) \<Rightarrow> mstate \<Rightarrow> (u32 \<times> nat) set" where
  "live A B fl s = {(blk a d k, bsz d) | a d k. a \<in> A \<and> owner (arenas s a) = Some d \<and> k < bpa d \<and> blk a d k \<notin> set (fl d)} \<union>
     {(a + sizeof_arena, PGSIZE * n - 12) | a n. (a, n) \<in> B}"

lemma heap_invD:
  assumes "heap_inv X A B fl s"
  shows "phys_ok (mram s)" "descs_ok s" "headers_ok s" "lists_ok A fl s"
    "a \<in> A \<Longrightarrow> page_used False (mram s) a"
    "a \<in> A \<Longrightarrow> \<exists>d. arena_ok fl s a d \<and> (a \<in> X \<or> card (free_idx fl a d) < bpa d)"
    "(a, n) \<in> B \<Longrightarrow> big_ok s a n" "(a, n) \<in> B \<Longrightarrow> pages a n \<inter> A = {}"
    "(a, n) \<in> B \<Longrightarrow> (b, m) \<in> B \<Longrightarrow> pages a n \<inter> pages b m \<noteq> {} \<Longrightarrow> a = b \<and> n = m"
  using assms unfolding heap_inv_def by blast+

lemma heap_invI:
  assumes "phys_ok (mram s)" "descs_ok s" "headers_ok s" "lists_ok A fl s"
    "\<And>a. a \<in> A \<Longrightarrow> page_used False (mram s) a"
    "\<And>a. a \<in> A \<Longrightarrow> \<exists>d. arena_ok fl s a d \<and> (a \<in> X \<or> card (free_idx fl a d) < bpa d)"
    "\<And>a n. (a, n) \<in> B \<Longrightarrow> big_ok s a n" "\<And>a n. (a, n) \<in> B \<Longrightarrow> pages a n \<inter> A = {}"
    "\<And>a n b m. (a, n) \<in> B \<Longrightarrow> (b, m) \<in> B \<Longrightarrow> pages a n \<inter> pages b m \<noteq> {} \<Longrightarrow> a = b \<and> n = m"
  shows "heap_inv X A B fl s"
  unfolding heap_inv_def using assms by (intro conjI) blast+

lemma arena_pageD:
  assumes "heap_inv X A B fl s" "a \<in> A"
  shows "pg_ofs a = 0" "a \<noteq> 0" "unat (pool_base (kernel_pool (mram s))) \<le> unat a"
  using page_usedD [OF heap_invD(1,5) [OF assms(1)]] assms by (auto simp: get_pool_def)

lemma descs_okD:
  assumes "descs_ok s" "d < 7"
  shows "length (descs s) = 7" "desc_block_size (descs s ! d) = of_nat (bsz d)" "blocks_per_arena (descs s ! d) = of_nat (bpa d)"
  using assms by (simp_all add: descs_ok_def)

lemma free_listsD:
  assumes "lists_ok A fl s" "d < 7"
  shows "list_rep (elems s) (free_list (descs s ! d)) (map unat (fl d))"
    and "b \<in> set (fl d) \<Longrightarrow> \<exists>a \<in> A. \<exists>k < bpa d. owner (arenas s a) = Some d \<and> b = blk a d k"
  using assms unfolding lists_ok_def by blast+

lemma small_numbers [simp]:
  "d < 7 \<Longrightarrow> unat (of_nat (bpa d) :: u32) = bpa d" "d < 7 \<Longrightarrow> unat (of_nat (bsz d) :: u32) = bsz d"
  using bsz_bounds [of d] by (simp_all add: unat_of_nat take_bit_nat_eq_self)

section \<open>Blocks and arenas\<close>

lemma block_to_arena_blk:
  assumes "descs_ok s" "arena_ok fl s a d" "pg_ofs a = 0" "a \<noteq> 0" "k < bpa d"
  shows "block_to_arena (blk a d k) s = Some a"
proof -
  have d: "d < 7" using assms(2) by (simp add: arena_ok_def)
  note f = blk_facts [OF assms(3) d assms(5)]
  have "of_nat k * of_nat (bsz d) = (of_nat (k * bsz d) :: u32)" by simp
  moreover have "k * bsz d < 4096" using block_offset(1) [OF d assms(5)] by simp
  ultimately have "unat (of_nat k * of_nat (bsz d) :: u32) = k * bsz d"
    by (simp only: unat_of_nat) (simp add: take_bit_nat_eq_self)
  then have "unat ((of_nat k * of_nat (bsz d)) mod (of_nat (bsz d)) :: u32) = 0"
    unfolding unat_mod using small_numbers(2) [OF d] by (simp only:) simp
  then have "(of_nat k * of_nat (bsz d)) mod (of_nat (bsz d)) = (0 :: u32)" by (simp add: unat_eq_0)
  then show ?thesis
    using assms(2,4) f(2,3) descs_okD(2) [OF assms(1) d] by (simp add: block_to_arena_def arena_ok_def Let_def)
qed

lemma arena_to_block_blk:
  assumes "descs_ok s" "a \<noteq> 0" "magic (arenas s a) = ARENA_MAGIC" "owner (arenas s a) = Some d" "d < 7" "k < bpa d"
  shows "arena_to_block a (of_nat k) s = Some (blk a d k)"
proof -
  have "unat (of_nat k :: u32) = k" using assms(6) bsz_bounds(4) [OF assms(5)] by (simp add: unat_of_nat take_bit_nat_eq_self)
  then have "(of_nat k :: u32) < of_nat (bpa d)" using assms(5,6) by (simp add: word_less_nat_alt)
  then show ?thesis using assms(2-4) descs_okD(2,3) [OF assms(1,5)] by (simp add: arena_to_block_def blk_def)
qed

lemma push_blocks_ok:
  assumes "descs_ok s" "a \<noteq> 0" "pg_ofs a = 0" "magic (arenas s a) = ARENA_MAGIC" "owner (arenas s a) = Some d" "d < 7"
    and "list_rep (elems s) (free_list (descs s ! d)) xs" "distinct is" "\<forall>k \<in> set is. k < bpa d"
    and "\<forall>k \<in> set is. unat (blk a d k) \<notin> set (cells (free_list (descs s ! d)) xs)"
  shows "\<exists>lk. push_blocks a d is s = Some (s\<lparr>elems := lk\<rparr>) \<and>
    list_rep lk (free_list (descs s ! d)) (xs @ map (\<lambda>k. unat (blk a d k)) is) \<and>
    same_outside (set (cells (free_list (descs s ! d)) xs) \<union> (\<lambda>k. unat (blk a d k)) ` set is) (elems s) lk"
  using assms
proof (induction "is" arbitrary: s xs)
  case Nil
  then show ?case by (intro exI [of _ "elems s"]) (simp add: same_outside_refl)
next
  case (Cons k ks)
  let ?l = "free_list (descs s ! d)" and ?b = "unat (blk a d k)"
  have k: "k < bpa d" using Cons.prems(9) by simp
  note f = blk_facts [OF Cons.prems(3,6) k]
  have nz: "?b \<noteq> NULL" using f(4) by (simp add: unat_eq_0)
  obtain lk where lk: "list_push_back ?l ?b (elems s) = Some lk" "list_rep lk ?l (xs @ [?b])"
    "same_outside (insert ?b (set (cells ?l xs))) (elems s) lk"
    using list_push_back_rep [OF Cons.prems(7) nz] Cons.prems(10) by auto
  have ne: "unat (blk a d j) \<noteq> ?b" if "j \<in> set ks" for j
  proof
    assume "unat (blk a d j) = ?b"
    then have "blk a d j = blk a d k" by (simp add: word_unat_eq_iff)
    moreover have "j < bpa d" using that Cons.prems(9) by simp
    ultimately have "j = k" using blk_inj [OF Cons.prems(3,3,6) _ k] by blast
    then show False using that Cons.prems(8) by simp
  qed
  let ?s = "s\<lparr>elems := lk\<rparr>"
  have "\<exists>lk'. push_blocks a d ks ?s = Some (?s\<lparr>elems := lk'\<rparr>) \<and>
    list_rep lk' (free_list (descs ?s ! d)) ((xs @ [?b]) @ map (\<lambda>k. unat (blk a d k)) ks) \<and>
    same_outside (set (cells (free_list (descs ?s ! d)) (xs @ [?b])) \<union> (\<lambda>k. unat (blk a d k)) ` set ks) (elems ?s) lk'"
    by (rule Cons.IH) (use Cons.prems lk(2) ne in \<open>auto simp: descs_ok_def\<close>)
  then obtain lk' where lk': "push_blocks a d ks ?s = Some (s\<lparr>elems := lk'\<rparr>)"
    "list_rep lk' ?l (xs @ map (\<lambda>k. unat (blk a d k)) (k # ks))"
    "same_outside (set (cells ?l (xs @ [?b])) \<union> (\<lambda>k. unat (blk a d k)) ` set ks) lk lk'" by auto
  have run: "push_blocks a d (k # ks) s = Some (s\<lparr>elems := lk'\<rparr>)"
    using arena_to_block_blk [OF Cons.prems(1,2,4,5,6) k] lk(1) lk'(1) by simp
  have "same_outside (set (cells ?l xs) \<union> (\<lambda>k. unat (blk a d k)) ` set (k # ks)) (elems s) lk'"
    by (rule same_outside_trans [OF same_outside_mono [OF lk(3)] same_outside_mono [OF lk'(3)]]) auto
  then show ?case using run lk'(2) by blast
qed

lemma remove_blocks_ok:
  assumes "descs_ok s" "a \<noteq> 0" "pg_ofs a = 0" "magic (arenas s a) = ARENA_MAGIC" "owner (arenas s a) = Some d" "d < 7"
    and "list_rep (elems s) l (map unat bs)" "distinct is" "\<forall>k \<in> set is. k < bpa d \<and> blk a d k \<in> set bs"
  shows "\<exists>lk. remove_blocks a is s = Some (s\<lparr>elems := lk\<rparr>) \<and>
    list_rep lk l (map unat (filter (\<lambda>b. b \<notin> blk a d ` set is) bs)) \<and>
    same_outside (set (cells l (map unat bs))) (elems s) lk"
  using assms
proof (induction "is" arbitrary: s bs)
  case Nil
  then show ?case by (intro exI [of _ "elems s"]) (simp add: same_outside_refl)
next
  case (Cons k ks)
  let ?b = "blk a d k"
  have k: "k < bpa d" "?b \<in> set bs" using Cons.prems(9) by simp_all
  obtain us vs where bs: "bs = us @ ?b # vs" using k(2) by (meson split_list)
  have db: "distinct bs" using list_rep_distinct [OF Cons.prems(7)] by (simp add: distinct_map)
  obtain lk where lk: "list_remove (unat ?b) (elems s) = Some (hd (map unat vs @ [tail l]), lk)"
    "list_rep lk l (map unat us @ map unat vs)" "same_outside (set (cells l (map unat bs))) (elems s) lk"
    using list_remove_rep [of "elems s" l "map unat us" "unat ?b" "map unat vs"] Cons.prems(7) bs by auto
  have f: "filter (\<lambda>b. b \<noteq> ?b) bs = us @ vs"
  proof -
    have "filter (\<lambda>b. b \<noteq> ?b) us = us" "filter (\<lambda>b. b \<noteq> ?b) vs = vs" using db unfolding bs by (auto intro!: filter_True)
    then show ?thesis by (simp add: bs)
  qed
  have "blk a d j \<in> set (us @ vs)" if "j \<in> set ks" for j
  proof -
    have "j < bpa d" "blk a d j \<in> set bs" "j \<noteq> k" using that Cons.prems(8,9) by auto
    moreover have "blk a d j \<noteq> ?b" using blk_inj [OF Cons.prems(3,3,6) \<open>j < bpa d\<close> k(1)] \<open>j \<noteq> k\<close> by blast
    ultimately show ?thesis unfolding f [symmetric] by simp
  qed
  let ?s = "s\<lparr>elems := lk\<rparr>"
  have "\<exists>lk'. remove_blocks a ks ?s = Some (?s\<lparr>elems := lk'\<rparr>) \<and>
    list_rep lk' l (map unat (filter (\<lambda>b. b \<notin> blk a d ` set ks) (us @ vs))) \<and>
    same_outside (set (cells l (map unat (us @ vs)))) (elems ?s) lk'"
    by (rule Cons.IH) (use Cons.prems lk(2) \<open>\<And>j. j \<in> set ks \<Longrightarrow> blk a d j \<in> set (us @ vs)\<close> in \<open>auto simp: descs_ok_def\<close>)
  then obtain lk' where lk': "remove_blocks a ks ?s = Some (s\<lparr>elems := lk'\<rparr>)"
    "list_rep lk' l (map unat (filter (\<lambda>b. b \<notin> blk a d ` set ks) (us @ vs)))"
    "same_outside (set (cells l (map unat (us @ vs)))) lk lk'" by auto
  have run: "remove_blocks a (k # ks) s = Some (s\<lparr>elems := lk'\<rparr>)"
    using arena_to_block_blk [OF Cons.prems(1,2,4,5,6) k(1)] lk(1) lk'(1) by simp
  have "filter (\<lambda>b. b \<notin> blk a d ` set ks) (us @ vs) = filter (\<lambda>b. b \<notin> blk a d ` set (k # ks)) bs"
    unfolding f [symmetric] by (simp add: conj_commute cong: filter_cong)
  moreover have "same_outside (set (cells l (map unat bs))) (elems s) lk'"
    by (rule same_outside_trans [OF lk(3) same_outside_mono [OF lk'(3)]]) (auto simp: bs)
  ultimately show ?case using run lk'(2) by auto
qed

section \<open>The free lists\<close>

text \<open>Blocks are no list ends, and the lists of different descriptors share no element.\<close>

lemma blk_not_end:
  assumes "heap_inv X A B fl s" "page_used False (mram s) a" "d < 7" "d' < 7" "k < bpa d"
  shows "unat (blk a d k) \<noteq> head (free_list (descs s ! d'))" "unat (blk a d k) \<noteq> tail (free_list (descs s ! d'))"
proof -
  note p = page_usedD [OF heap_invD(1) [OF assms(1)] assms(2)]
  have "unat (pool_base (kernel_pool (mram s))) < unat (blk a d k)"
    using blk_facts(1) [OF p(1) assms(3,5)] p(3) by (simp add: get_pool_def)
  moreover have "head (free_list (descs s ! d')) < unat (pool_base (kernel_pool (mram s)))"
    "tail (free_list (descs s ! d')) < unat (pool_base (kernel_pool (mram s)))"
    using heap_invD(3) [OF assms(1)] assms(4) unfolding headers_ok_def by blast+
  ultimately show "unat (blk a d k) \<noteq> head (free_list (descs s ! d'))" "unat (blk a d k) \<noteq> tail (free_list (descs s ! d'))"
    by linarith+
qed

lemma other_arena:
  assumes "heap_inv X A B fl s" "a \<in> A" "owner (arenas s a) = Some d" "k < bpa d"
    and "b \<in> set (fl d')" "d' < 7" "d' \<noteq> d"
  shows "blk a d k \<noteq> b"
proof
  assume e: "blk a d k = b"
  obtain a' k' where b: "a' \<in> A" "k' < bpa d'" "owner (arenas s a') = Some d'" "b = blk a' d' k'"
    using free_listsD(2) [OF heap_invD(4) [OF assms(1)] assms(6,5)] by blast
  have "d < 7" using heap_invD(6) [OF assms(1,2)] assms(3) by (auto simp: arena_ok_def)
  then have "pg_round_down (blk a d k) = a" using blk_facts(2) [OF arena_pageD(1) [OF assms(1,2)] _ assms(4)] by blast
  moreover have "pg_round_down (blk a' d' k') = a'" using blk_facts(2) [OF arena_pageD(1) [OF assms(1) b(1)] assms(6) b(2)] by blast
  ultimately have "a = a'" using e b(4) by simp
  then show False using assms(3,7) b(3) by simp
qed

lemma cells_disjoint:
  assumes inv: "heap_inv X A B fl s" and d: "d < 7" "d' < 7" "d \<noteq> d'"
  shows "set (cells (free_list (descs s ! d)) (map unat (fl d))) \<inter> set (cells (free_list (descs s ! d')) (map unat (fl d'))) = {}"
proof -
  have blk: "\<exists>a \<in> A. \<exists>k < bpa e. owner (arenas s a) = Some e \<and> b = blk a e k" if "e < 7" "b \<in> set (fl e)" for e b
    using free_listsD(2) [OF heap_invD(4) [OF inv] that] .
  have ends: "unat b \<noteq> head (free_list (descs s ! e'))" "unat b \<noteq> tail (free_list (descs s ! e'))"
    if "e < 7" "b \<in> set (fl e)" "e' < 7" for e b e'
    using blk [OF that(1,2)] blk_not_end [OF inv heap_invD(5) [OF inv] that(1,3)] by blast+
  have diff: "unat b \<noteq> unat c" if bc: "b \<in> set (fl d)" "c \<in> set (fl d')" for b c
  proof -
    obtain a k where "a \<in> A" "k < bpa d" "owner (arenas s a) = Some d" "b = blk a d k" using blk [OF d(1) bc(1)] by blast
    then have "b \<noteq> c" using other_arena [OF inv _ _ _ bc(2) d(2) d(3) [symmetric]] by blast
    then show ?thesis by (simp add: word_unat_eq_iff)
  qed
  have hdr: "{head (free_list (descs s ! d)), tail (free_list (descs s ! d))} \<inter>
        {head (free_list (descs s ! d')), tail (free_list (descs s ! d'))} = {}"
    using heap_invD(3) [OF inv] d unfolding headers_ok_def by blast
  show ?thesis
    using hdr ends [OF d(1) _ d(2)] ends [OF d(2) _ d(1)] diff by (auto; metis)
qed

lemma lists_ok_update:
  assumes "lists_ok A fl s" "d < 7" "descs s' = descs s"
    and "list_rep (elems s') (free_list (descs s ! d)) (map unat fd)"
    and "same_outside S (elems s) (elems s')"
    and "\<And>d'. d' < 7 \<Longrightarrow> d' \<noteq> d \<Longrightarrow> S \<inter> set (cells (free_list (descs s ! d')) (map unat (fl d'))) = {}"
    and "\<And>d' b. d' < 7 \<Longrightarrow> d' \<noteq> d \<Longrightarrow> b \<in> set (fl d') \<Longrightarrow> \<exists>a \<in> A'. \<exists>k < bpa d'. owner (arenas s' a) = Some d' \<and> b = blk a d' k"
    and "\<And>b. b \<in> set fd \<Longrightarrow> \<exists>a \<in> A'. \<exists>k < bpa d. owner (arenas s' a) = Some d \<and> b = blk a d k"
  shows "lists_ok A' (fl(d := fd)) s'"
  unfolding lists_ok_def
proof (intro allI impI)
  fix d' :: nat assume d': "d' < 7"
  show "list_rep (elems s') (free_list (descs s' ! d')) (map unat ((fl(d := fd)) d')) \<and>
     (\<forall>b \<in> set ((fl(d := fd)) d'). \<exists>a \<in> A'. \<exists>k < bpa d'. owner (arenas s' a) = Some d' \<and> b = blk a d' k)"
  proof (cases "d' = d")
    case True
    then show ?thesis using assms(3,4,8) by simp
  next
    case False
    have "list_rep (elems s') (free_list (descs s ! d')) (map unat (fl d'))"
      by (rule list_rep_same_outside [OF free_listsD(1) [OF assms(1) d'] assms(5) assms(6) [OF d' False]])
    then show ?thesis using False assms(3) assms(7) [OF d' False] by simp
  qed
qed

section \<open>Taking a block from a list\<close>

text \<open>A state that differs in the lists, the counter of one arena and memory.\<close>

lemma heap_inv_step:
  assumes inv: "heap_inv X A B fl s" and a: "a \<in> A" "owner (arenas s a) = Some d" "d < 7"
    and s': "mram s' = mram s" "descs s' = descs s" "arenas s' = (arenas s)(a := (arenas s a)\<lparr>free_cnt := c\<rparr>)"
    and ls: "lists_ok A (fl(d := fd)) s'"
    and same: "\<And>a' k. a' \<in> A \<Longrightarrow> a' \<noteq> a \<Longrightarrow> owner (arenas s a') = Some d \<Longrightarrow> k < bpa d \<Longrightarrow>
      blk a' d k \<in> set fd \<longleftrightarrow> blk a' d k \<in> set (fl d)"
    and c: "c = of_nat (card (free_idx (fl(d := fd)) a d))"
    and X: "a \<in> X' \<or> card (free_idx (fl(d := fd)) a d) < bpa d" "X - {a} \<subseteq> X'"
  shows "heap_inv X' A B (fl(d := fd)) s'"
proof (rule heap_invI)
  show "phys_ok (mram s')" using heap_invD(1) [OF inv] unfolding s'(1) .
  show "descs_ok s'" using heap_invD(2) [OF inv] unfolding descs_ok_def s'(2) .
  show "headers_ok s'" using heap_invD(3) [OF inv] unfolding headers_ok_def s'(1,2) .
  show "lists_ok A (fl(d := fd)) s'" by (rule ls)
  show "page_used False (mram s') b" if "b \<in> A" for b using heap_invD(5) [OF inv that] s'(1) by simp
  show "\<exists>d'. arena_ok (fl(d := fd)) s' b d' \<and> (b \<in> X' \<or> card (free_idx (fl(d := fd)) b d') < bpa d')" if b: "b \<in> A" for b
  proof -
    obtain d' where d': "arena_ok fl s b d'" "b \<in> X \<or> card (free_idx fl b d') < bpa d'" using heap_invD(6) [OF inv b] by blast
    show ?thesis
    proof (cases "b = a")
      case True
      have "free_cnt (arenas s' a) = c" "magic (arenas s' a) = magic (arenas s a)" "owner (arenas s' a) = owner (arenas s a)"
        unfolding s'(3) by simp_all
      then have "arena_ok (fl(d := fd)) s' b d" using True d'(1) c a(2,3) by (simp add: arena_ok_def)
      then show ?thesis using True X(1) by blast
    next
      case False
      have "free_idx (fl(d := fd)) b d' = free_idx fl b d'"
      proof (cases "d' = d")
        case True
        then have "owner (arenas s b) = Some d" using d'(1) by (simp add: arena_ok_def)
        then show ?thesis using True same [OF b False] by (auto simp: free_idx_def)
      qed (simp add: free_idx_def)
      then show ?thesis using d' False X(2) by (auto simp: arena_ok_def s'(3))
    qed
  qed
  show "big_ok s' b n" if "(b, n) \<in> B" for b n
  proof -
    have "b \<noteq> a"
    proof
      assume "b = a"
      then have "owner (arenas s a) = None" using heap_invD(7) [OF inv that] by (simp add: big_ok_def)
      then show False using a(2) by simp
    qed
    then show ?thesis using heap_invD(7) [OF inv that] s' by (simp add: big_ok_def)
  qed
  show "pages b n \<inter> A = {}" if "(b, n) \<in> B" for b n using heap_invD(8) [OF inv that] .
qed (use heap_invD(9) [OF inv] in blast)

lemma free_idx_finite [simp]: "finite (free_idx fl a d)"
  by (simp add: free_idx_def)

lemma card_free_idx: "card (free_idx fl a d) \<le> bpa d"
proof -
  have "card (free_idx fl a d) \<le> card {..<bpa d}" by (rule card_mono) (auto simp: free_idx_def)
  then show ?thesis by simp
qed

lemma take_block:
  assumes inv: "heap_inv X A B fl s" and X: "X \<subseteq> {a}" and d: "d < 7" and fl: "fl d = b # bs"
    and b: "b = blk a d k" "a \<in> A" "owner (arenas s a) = Some d" "k < bpa d"
  shows "\<exists>lk. list_pop_front (free_list (descs s ! d)) (elems s) = Some (unat b, lk) \<and>
    (let s1 = s\<lparr>elems := lk\<rparr>; s2 = set_arena a ((arenas s1 a)\<lparr>free_cnt := free_cnt (arenas s1 a) - 1\<rparr>) s1 in
      block_to_arena b s1 = Some a \<and> heap_ok A B (fl(d := bs)) s2 \<and>
      live A B (fl(d := bs)) s2 = insert (b, bsz d) (live A B fl s) \<and> (b, bsz d) \<notin> live A B fl s)"
proof -
  note ar = arena_pageD [OF inv b(2)]
  obtain d0 where "arena_ok fl s a d0" using heap_invD(6) [OF inv b(2)] by blast
  then have ao: "arena_ok fl s a d" using b(3) by (simp add: arena_ok_def)
  have rep: "list_rep (elems s) (free_list (descs s ! d)) (unat b # map unat bs)"
    using free_listsD(1) [OF heap_invD(4) [OF inv] d] fl by simp
  obtain lk where lk: "list_pop_front (free_list (descs s ! d)) (elems s) = Some (unat b, lk)"
    "list_rep lk (free_list (descs s ! d)) (map unat bs)"
    "same_outside (set (cells (free_list (descs s ! d)) (unat b # map unat bs))) (elems s) lk"
    using list_pop_front_rep [OF rep] by blast
  define s1 where "s1 = s\<lparr>elems := lk\<rparr>"
  define s2 where "s2 = set_arena a ((arenas s1 a)\<lparr>free_cnt := free_cnt (arenas s1 a) - 1\<rparr>) s1"
  have s2: "mram s2 = mram s" "descs s2 = descs s" "elems s2 = lk"
    "arenas s2 = (arenas s)(a := (arenas s a)\<lparr>free_cnt := free_cnt (arenas s a) - 1\<rparr>)"
    by (simp_all add: s2_def s1_def set_arena_def)
  have own: "owner (arenas s2 x) = owner (arenas s x)" for x by (simp add: s2(4))
  have bta: "block_to_arena b s1 = Some a"
    unfolding b(1) using heap_invD(2) [OF inv] ao ar(1,2) b(4)
    by (intro block_to_arena_blk [where fl = fl]) (simp_all add: s1_def descs_ok_def arena_ok_def)
  have db: "distinct (b # bs)" using list_rep_distinct [OF rep] by (auto simp: distinct_map)
  have idx: "free_idx (fl(d := bs)) a d = free_idx fl a d - {k}" "k \<in> free_idx fl a d"
  proof -
    have "blk a d j \<in> set bs \<longleftrightarrow> blk a d j \<in> set (fl d) \<and> j \<noteq> k" if "j < bpa d" for j
      using blk_inj [OF ar(1,1) d that b(4)] db fl b(1) by auto
    then show "free_idx (fl(d := bs)) a d = free_idx fl a d - {k}" by (auto simp: free_idx_def)
    show "k \<in> free_idx fl a d" using b(1,4) fl by (simp add: free_idx_def)
  qed
  then have card: "card (free_idx fl a d) = Suc (card (free_idx (fl(d := bs)) a d))"
    by (metis card_Suc_Diff1 free_idx_finite)
  have ls: "lists_ok A (fl(d := bs)) s2"
  proof (rule lists_ok_update [OF heap_invD(4) [OF inv] d s2(2)])
    show "list_rep (elems s2) (free_list (descs s ! d)) (map unat bs)" using lk(2) s2(3) by simp
    show "same_outside (set (cells (free_list (descs s ! d)) (map unat (fl d)))) (elems s) (elems s2)"
      using lk(3) s2(3) fl by simp
    show "set (cells (free_list (descs s ! d)) (map unat (fl d))) \<inter> set (cells (free_list (descs s ! d')) (map unat (fl d'))) = {}"
      if "d' < 7" "d' \<noteq> d" for d' using cells_disjoint [OF inv d that(1)] that(2) by blast
    show "\<exists>a \<in> A. \<exists>k < bpa d'. owner (arenas s2 a) = Some d' \<and> c = blk a d' k" if "d' < 7" "d' \<noteq> d" "c \<in> set (fl d')" for d' c
      unfolding own using free_listsD(2) [OF heap_invD(4) [OF inv] that(1,3)] .
    show "\<exists>a \<in> A. \<exists>k < bpa d. owner (arenas s2 a) = Some d \<and> c = blk a d k" if "c \<in> set bs" for c
      unfolding own using free_listsD(2) [OF heap_invD(4) [OF inv] d, of c] that fl by simp
  qed
  have other: "blk a' d j \<noteq> b" if "a' \<in> A" "a' \<noteq> a" "j < bpa d" for a' j
    using blk_inj [OF arena_pageD(1) [OF inv that(1)] ar(1) d that(3) b(4)] that(2) b(1) by blast
  have "heap_ok A B (fl(d := bs)) s2"
  proof (rule heap_inv_step [OF inv b(2,3) d s2(1,2,4) ls])
    show "blk a' d j \<in> set bs \<longleftrightarrow> blk a' d j \<in> set (fl d)" if "a' \<in> A" "a' \<noteq> a" "j < bpa d" for a' j
      using other [OF that] fl by simp
    show "free_cnt (arenas s a) - 1 = of_nat (card (free_idx (fl(d := bs)) a d))"
      using ao card by (simp add: arena_ok_def)
    show "a \<in> {} \<or> card (free_idx (fl(d := bs)) a d) < bpa d" using card card_free_idx [of fl a d] by simp
  qed (use X in auto)
  moreover have "live A B (fl(d := bs)) s2 = insert (b, bsz d) (live A B fl s)"
  proof -
    have "blk a' d' j \<notin> set ((fl(d := bs)) d') \<longleftrightarrow> blk a' d' j \<notin> set (fl d') \<or> d' = d \<and> a' = a \<and> j = k"
      if "a' \<in> A" "owner (arenas s a') = Some d'" "j < bpa d'" for a' d' j
    proof (cases "d' = d")
      case True
      then show ?thesis using other [OF that(1) _ that(3) [unfolded True]] blk_inj [OF ar(1,1) d that(3) [unfolded True] b(4)] db fl b(1) by auto
    qed simp
    then show ?thesis unfolding live_def own using b by blast
  qed
  moreover have "(b, bsz d) \<notin> live A B fl s"
  proof
    assume "(b, bsz d) \<in> live A B fl s"
    then consider (small) a' d' j where "a' \<in> A" "owner (arenas s a') = Some d'" "j < bpa d'" "blk a' d' j \<notin> set (fl d')" "b = blk a' d' j"
      | (big) a' n where "(a', n) \<in> B" "b = a' + sizeof_arena" unfolding live_def by blast
    then show False
    proof cases
      case small
      have "d' < 7" using heap_invD(6) [OF inv small(1)] small(2) by (auto simp: arena_ok_def)
      show False
      proof (cases "d' = d")
        case True
        then show False using small(4,5) fl by simp
      next
        case False
        have "b \<in> set (fl d)" using fl by simp
        from other_arena [OF inv small(1-3) this d] False small(5) show False by blast
      qed
    next
      case big
      note bo = heap_invD(7) [OF inv big(1)]
      have u: "run_used False (mram s) a' n" "0 < n" using bo by (simp_all add: big_ok_def)
      note in' = pages_self [OF u(2), of a']
      note p = page_usedD(1) [OF heap_invD(1) [OF inv] run_usedD [OF heap_invD(1) [OF inv] u(1) in']]
      have "pg_round_down (a' + sizeof_arena) = a'" by (rule page_plus(2) [OF p]) (simp add: sizeof_arena_def)
      moreover have "pg_round_down (blk a d k) = a" by (rule blk_facts(2) [OF ar(1) d b(4)])
      ultimately have "a' = a" using big(2) b(1) by simp
      then show False using heap_invD(8) [OF inv big(1)] in' b(2) by blast
    qed
  qed
  ultimately show ?thesis using lk(1) bta unfolding s2_def s1_def Let_def by blast
qed


section \<open>A new arena\<close>

lemma heap_inv_mram:
  assumes inv: "heap_inv X A B fl s" and r: "phys_ok r" "\<And>q. page_used False (mram s) q \<Longrightarrow> page_used False r q"
    "\<And>q m. run_used False (mram s) q m \<Longrightarrow> run_used False r q m"
    "pool_base (kernel_pool r) = pool_base (kernel_pool (mram s))"
  shows "heap_inv X A B fl (s\<lparr>mram := r\<rparr>)" "live A B fl (s\<lparr>mram := r\<rparr>) = live A B fl s"
proof -
  let ?s = "s\<lparr>mram := r\<rparr>"
  show "heap_inv X A B fl ?s"
  proof (rule heap_invI)
    show "phys_ok (mram ?s)" using r(1) by simp
    show "descs_ok ?s" using heap_invD(2) [OF inv] by (simp add: descs_ok_def)
    show "headers_ok ?s" using heap_invD(3) [OF inv] r(4) by (simp add: headers_ok_def)
    show "lists_ok A fl ?s" using heap_invD(4) [OF inv] by (simp add: lists_ok_def)
    show "page_used False (mram ?s) a" if "a \<in> A" for a using r(2) [OF heap_invD(5) [OF inv that]] by simp
    show "\<exists>d. arena_ok fl ?s a d \<and> (a \<in> X \<or> card (free_idx fl a d) < bpa d)" if "a \<in> A" for a
      using heap_invD(6) [OF inv that] by (simp add: arena_ok_def)
    show "big_ok ?s a n" if "(a, n) \<in> B" for a n using heap_invD(7) [OF inv that] r(3) by (simp add: big_ok_def)
    show "pages a n \<inter> A = {}" if "(a, n) \<in> B" for a n by (rule heap_invD(8) [OF inv that])
    show "a = b \<and> n = m" if "(a, n) \<in> B" "(b, m) \<in> B" "pages a n \<inter> pages b m \<noteq> {}" for a n b m
      by (rule heap_invD(9) [OF inv that])
  qed
  show "live A B fl ?s = live A B fl s" by (simp add: live_def)
qed

text \<open>Headers of pages that were not in use may be overwritten.\<close>

lemma big_pages:
  assumes inv: "heap_inv X A B fl s" and b: "(b, n) \<in> B"
  shows "b \<in> pages b n" "\<And>q. q \<in> pages b n \<Longrightarrow> page_used False (mram s) q" "0 < n" "n < 2 ^ 20"
    "run_used False (mram s) b n" "pg_ofs b = 0"
proof -
  have u: "run_used False (mram s) b n" "0 < n" using heap_invD(7) [OF inv b] by (simp_all add: big_ok_def)
  show "0 < n" "run_used False (mram s) b n" by (rule u)+
  show i: "b \<in> pages b n" by (rule pages_self [OF u(2)])
  show p: "page_used False (mram s) q" if "q \<in> pages b n" for q by (rule run_usedD [OF heap_invD(1) [OF inv] u(1) that])
  show "pg_ofs b = 0" by (rule page_usedD(1) [OF heap_invD(1) [OF inv] p [OF i]])
  have "pool_ok (get_pool False (mram s))" by (rule phys_ok_pool [OF heap_invD(1) [OF inv]])
  then show "n < 2 ^ 20" using u(1) by (auto simp: run_used_def pool_ok_def PGSIZE_def)
qed

lemma set_arena_unused:
  assumes inv: "heap_inv X A B fl s" and a: "\<not> page_used False (mram s) a"
  shows "heap_inv X A B fl (set_arena a h s)" "live A B fl (set_arena a h s) = live A B fl s"
proof -
  let ?s = "set_arena a h s"
  have f: "mram ?s = mram s" "descs ?s = descs s" "elems ?s = elems s" "\<And>x. x \<noteq> a \<Longrightarrow> arenas ?s x = arenas s x"
    by (simp_all add: set_arena_def)
  have nA: "b \<noteq> a" if "b \<in> A" for b using heap_invD(5) [OF inv that] a by blast
  have nB: "b \<noteq> a" if "(b, n) \<in> B" for b n using big_pages(1,2) [OF inv that] a by blast
  show "heap_inv X A B fl ?s"
  proof (rule heap_invI)
    show "phys_ok (mram ?s)" using heap_invD(1) [OF inv] unfolding f(1) .
    show "descs_ok ?s" using heap_invD(2) [OF inv] unfolding descs_ok_def f(2) .
    show "headers_ok ?s" using heap_invD(3) [OF inv] unfolding headers_ok_def f(1,2) .
    show "lists_ok A fl ?s"
      unfolding lists_ok_def f(2,3)
    proof (intro allI impI conjI ballI)
      fix d :: nat assume d: "d < 7"
      show "list_rep (elems s) (free_list (descs s ! d)) (map unat (fl d))" by (rule free_listsD(1) [OF heap_invD(4) [OF inv] d])
      fix b assume "b \<in> set (fl d)"
      from free_listsD(2) [OF heap_invD(4) [OF inv] d this]
      obtain a' k where "a' \<in> A" "k < bpa d" "owner (arenas s a') = Some d" "b = blk a' d k" by blast
      then show "\<exists>a \<in> A. \<exists>k < bpa d. owner (arenas ?s a) = Some d \<and> b = blk a d k" using f(4) [OF nA] by metis
    qed
    show "page_used False (mram ?s) b" if "b \<in> A" for b using heap_invD(5) [OF inv that] unfolding f(1) .
    show "\<exists>d. arena_ok fl ?s b d \<and> (b \<in> X \<or> card (free_idx fl b d) < bpa d)" if "b \<in> A" for b
      using heap_invD(6) [OF inv that] unfolding arena_ok_def f(4) [OF nA [OF that]] .
    show "big_ok ?s b n" if "(b, n) \<in> B" for b n
      using heap_invD(7) [OF inv that] unfolding big_ok_def f(1) f(4) [OF nB [OF that]] .
    show "pages b n \<inter> A = {}" if "(b, n) \<in> B" for b n by (rule heap_invD(8) [OF inv that])
    show "b = c \<and> n = m" if "(b, n) \<in> B" "(c, m) \<in> B" "pages b n \<inter> pages c m \<noteq> {}" for b n c m
      by (rule heap_invD(9) [OF inv that])
  qed
  have "b \<in> A \<and> owner (arenas ?s b) = Some d \<and> P \<longleftrightarrow> b \<in> A \<and> owner (arenas s b) = Some d \<and> P" for b d P
    using f(4) [OF nA, of b] by (cases "b \<in> A") simp_all
  then show "live A B fl ?s = live A B fl s" unfolding live_def by (simp only:)
qed


lemma free_idx_upd:
  "d' \<noteq> d \<Longrightarrow> free_idx (fl(d := fd)) a d' = free_idx fl a d'"
  by (simp add: free_idx_def)

text \<open>All blocks of a new arena are free.\<close>

lemma add_arena:
  assumes inv: "heap_ok A B fl s" and d: "d < 7" and a: "\<not> page_used False (mram s) a" "page_used False r a"
    and r: "phys_ok r" "\<And>q. page_used False (mram s) q \<Longrightarrow> page_used False r q"
    "\<And>q m. run_used False (mram s) q m \<Longrightarrow> run_used False r q m"
    "pool_base (kernel_pool r) = pool_base (kernel_pool (mram s))"
    and h: "magic h = ARENA_MAGIC" "owner h = Some d" "free_cnt h = of_nat (bpa d)"
    and fl': "fl' = fl(d := fl d @ map (blk a d) [0..<bpa d])"
  shows "\<exists>lk. push_blocks a d [0..<bpa d] (set_arena a h (s\<lparr>mram := r\<rparr>)) =
      Some (set_arena a h (s\<lparr>mram := r, elems := lk\<rparr>)) \<and>
    heap_inv {a} (insert a A) B fl' (set_arena a h (s\<lparr>mram := r, elems := lk\<rparr>)) \<and>
    live (insert a A) B fl' (set_arena a h (s\<lparr>mram := r, elems := lk\<rparr>)) = live A B fl s"
proof -
  let ?s0 = "set_arena a h (s\<lparr>mram := r\<rparr>)"
  have "?s0 = (set_arena a h s)\<lparr>mram := r\<rparr>" by (simp add: set_arena_def)
  moreover have "mram (set_arena a h s) = mram s" by (simp add: set_arena_def)
  ultimately have inv0: "heap_ok A B fl ?s0" and live0: "live A B fl ?s0 = live A B fl s"
    using heap_inv_mram [OF set_arena_unused(1) [OF inv a(1)], of r h] r set_arena_unused(2) [OF inv a(1), of h] by simp_all
  have f0: "mram ?s0 = r" "descs ?s0 = descs s" "elems ?s0 = elems s" "arenas ?s0 a = h"
    by (simp_all add: set_arena_def)
  have pa: "pg_ofs a = 0" "a \<noteq> 0" using page_usedD(1,2) [OF r(1) a(2)] by simp_all
  have aA: "a \<notin> A" using heap_invD(5) [OF inv] a(1) by blast
  have ends: "unat (blk a d k) \<noteq> head (free_list (descs s ! d'))" "unat (blk a d k) \<noteq> tail (free_list (descs s ! d'))"
    if "d' < 7" "k < bpa d" for d' k
    using blk_not_end [OF inv0 _ d that, of a] a(2) unfolding f0 by blast+
  have new: "blk a d k \<noteq> b" if kb: "d' < 7" "k < bpa d" "b \<in> set (fl d')" for d' k b
  proof
    assume e: "blk a d k = b"
    obtain a' k' where b: "a' \<in> A" "k' < bpa d'" "b = blk a' d' k'" using free_listsD(2) [OF heap_invD(4) [OF inv] kb(1,3)] by blast
    have "a = a'" using blk_facts(2) [OF pa(1) d kb(2)] blk_facts(2) [OF arena_pageD(1) [OF inv b(1)] kb(1) b(2)] e b(3) by simp
    then show False using b(1) aA by blast
  qed
  have new_cells: "unat (blk a d k) \<notin> set (cells (free_list (descs s ! d')) (map unat (fl d')))" if "d' < 7" "k < bpa d" for d' k
    using ends [OF that] new [OF that] by (auto simp: cells_def word_unat_eq_iff)
  have "\<exists>lk. push_blocks a d [0..<bpa d] ?s0 = Some (?s0\<lparr>elems := lk\<rparr>) \<and>
    list_rep lk (free_list (descs ?s0 ! d)) (map unat (fl d) @ map (\<lambda>k. unat (blk a d k)) [0..<bpa d]) \<and>
    same_outside (set (cells (free_list (descs ?s0 ! d)) (map unat (fl d))) \<union> (\<lambda>k. unat (blk a d k)) ` set [0..<bpa d]) (elems ?s0) lk"
    by (rule push_blocks_ok [OF heap_invD(2) [OF inv0] pa(2,1)])
      (use h(1,2) d new_cells [OF d] free_listsD(1) [OF heap_invD(4) [OF inv] d] in \<open>simp_all add: f0\<close>)
  then obtain lk where lk: "push_blocks a d [0..<bpa d] ?s0 = Some (?s0\<lparr>elems := lk\<rparr>)"
    "list_rep lk (free_list (descs s ! d)) (map unat (fl d @ map (blk a d) [0..<bpa d]))"
    "same_outside (set (cells (free_list (descs s ! d)) (map unat (fl d))) \<union> (\<lambda>k. unat (blk a d k)) ` {..<bpa d}) (elems s) lk"
    unfolding f0(2,3) by (elim exE conjE) (rule that; simp add: comp_def atLeast0LessThan)
  define s2 where "s2 = set_arena a h (s\<lparr>mram := r, elems := lk\<rparr>)"
  have s2: "mram s2 = r" "descs s2 = descs s" "elems s2 = lk" "arenas s2 = arenas ?s0" "arenas ?s0 a = h"
    by (simp_all add: s2_def set_arena_def)
  have run: "push_blocks a d [0..<bpa d] ?s0 = Some s2" using lk(1) by (simp add: s2_def set_arena_def)
  have ls: "lists_ok (insert a A) fl' s2"
    unfolding fl'
  proof (rule lists_ok_update [OF heap_invD(4) [OF inv] d s2(2), unfolded s2(3), OF lk(2,3)])
    show "(set (cells (free_list (descs s ! d)) (map unat (fl d))) \<union> (\<lambda>k. unat (blk a d k)) ` {..<bpa d}) \<inter>
        set (cells (free_list (descs s ! d')) (map unat (fl d'))) = {}" if "d' < 7" "d' \<noteq> d" for d'
      using cells_disjoint [OF inv d that(1)] that(2) new_cells [OF that(1)] by blast
    show "\<exists>a \<in> insert a A. \<exists>k < bpa d'. owner (arenas s2 a) = Some d' \<and> b = blk a d' k" if "d' < 7" "d' \<noteq> d" "b \<in> set (fl d')" for d' b
      unfolding s2(4) using free_listsD(2) [OF heap_invD(4) [OF inv0] that(1,3)] by blast
    show "\<exists>a \<in> insert a A. \<exists>k < bpa d. owner (arenas s2 a) = Some d \<and> b = blk a d k"
      if "b \<in> set (fl d @ map (blk a d) [0..<bpa d])" for b
    proof (cases "b \<in> set (fl d)")
      case True
      then show ?thesis unfolding s2(4) using free_listsD(2) [OF heap_invD(4) [OF inv0] d] by blast
    next
      case False
      with that obtain k where "k < bpa d" "b = blk a d k" by auto
      moreover have "owner (arenas s2 a) = Some d" unfolding s2(4,5) by (rule h(2))
      ultimately show ?thesis by blast
    qed
  qed
  have all: "free_idx fl' a d = {..<bpa d}" unfolding fl' by (auto simp: free_idx_def)
  have same: "blk b d k \<in> set (fl' d) \<longleftrightarrow> blk b d k \<in> set (fl d)" if "b \<in> A" "k < bpa d" for b k
    using blk_inj [OF arena_pageD(1) [OF inv that(1)] pa(1) d that(2)] that(1) aA unfolding fl' by auto
  have "heap_inv {a} (insert a A) B fl' s2"
  proof (rule heap_invI)
    show "phys_ok (mram s2)" using r(1) unfolding s2(1) .
    show "descs_ok s2" using heap_invD(2) [OF inv] unfolding descs_ok_def s2(2) .
    show "headers_ok s2" using heap_invD(3) [OF inv] unfolding headers_ok_def s2(1,2) r(4) .
    show "lists_ok (insert a A) fl' s2" by (rule ls)
    show "page_used False (mram s2) b" if "b \<in> insert a A" for b
      using that a(2) r(2) [OF heap_invD(5) [OF inv]] unfolding s2(1) by blast
    show "\<exists>e. arena_ok fl' s2 b e \<and> (b \<in> {a} \<or> card (free_idx fl' b e) < bpa e)" if b: "b \<in> insert a A" for b
    proof (cases "b = a")
      case True
      have "arena_ok fl' s2 a d" unfolding arena_ok_def all s2(4,5) using h d by simp
      then show ?thesis using True by blast
    next
      case False
      then have bA: "b \<in> A" using b by blast
      obtain e where e: "arena_ok fl ?s0 b e" "card (free_idx fl b e) < bpa e" using heap_invD(6) [OF inv0 bA] by blast
      have "free_idx fl' b e = free_idx fl b e"
      proof (cases "e = d")
        case True
        then show ?thesis using same [OF bA] by (auto simp: free_idx_def)
      qed (simp add: fl' free_idx_upd)
      then show ?thesis using e by (intro exI [of _ e]) (simp add: arena_ok_def s2(4))
    qed
    show "big_ok s2 b n" if "(b, n) \<in> B" for b n
      using heap_invD(7) [OF inv0 that] unfolding big_ok_def f0(1) s2(1,4) .
    show "pages b n \<inter> insert a A = {}" if "(b, n) \<in> B" for b n
      using heap_invD(8) [OF inv that] big_pages(2) [OF inv that] a(1) by blast
    show "b = c \<and> n = m" if "(b, n) \<in> B" "(c, m) \<in> B" "pages b n \<inter> pages c m \<noteq> {}" for b n c m
      by (rule heap_invD(9) [OF inv that])
  qed
  moreover have "live (insert a A) B fl' s2 = live A B fl s"
  proof -
    have "b \<in> insert a A \<and> owner (arenas s2 b) = Some e \<and> k < bpa e \<and> blk b e k \<notin> set (fl' e) \<longleftrightarrow>
        b \<in> A \<and> owner (arenas ?s0 b) = Some e \<and> k < bpa e \<and> blk b e k \<notin> set (fl e)" for b e k
    proof (cases "b = a")
      case True
      moreover have "owner (arenas ?s0 a) = Some d" unfolding f0(4) by (rule h(2))
      ultimately show ?thesis using aA unfolding s2(4) by (auto simp: fl')
    next
      case False
      then show ?thesis unfolding s2(4) using same [of b k] by (cases "e = d") (auto simp: fl')
    qed
    then have "live (insert a A) B fl' s2 = live A B fl ?s0" unfolding live_def by (simp only:)
    then show ?thesis unfolding live0 .
  qed
  ultimately show ?thesis using run s2_def by blast
qed

end
