(* ===== verification/MallocFree.thy ===== *)
theory MallocFree
  imports MallocData
begin

text \<open>
  \<^verbatim>\<open>malloc\<close>, \<^verbatim>\<open>free\<close> and \<^verbatim>\<open>realloc\<close> as operations on the set of live blocks: what each does to the invariant
  of theory MallocData, that live blocks never overlap, and that no operation changes the contents of
  a block that stays live.
\<close>

section \<open>Small blocks\<close>

text \<open>No \<open>k\<close> pages in a row are left in the kernel pool.\<close>

definition no_run :: "nat \<Rightarrow> mstate \<Rightarrow> bool" where
  "no_run k s \<longleftrightarrow> (\<forall>i. i + k \<le> bit_cnt (used_map (kernel_pool (mram s))) \<longrightarrow>
     {i..<i + k} \<inter> marked (used_map (kernel_pool (mram s))) \<noteq> {})"

lemma find_desc_first:
  "find_desc ds n \<le> length ds"
  "find_desc ds n < length ds \<Longrightarrow> n \<le> desc_block_size (ds ! find_desc ds n)"
  "i < find_desc ds n \<Longrightarrow> desc_block_size (ds ! i) < n"
proof (induction ds arbitrary: i)
  case (Cons d ds)
  { case 3 then show ?case using Cons.IH(3) by (cases i) (auto split: if_splits) }
qed (auto split: if_splits)

lemma find_desc_fits:
  assumes "descs_ok s"
  shows "find_desc (descs s) n = length (descs s) \<longleftrightarrow> 1024 < unat n"
    and "find_desc (descs s) n < length (descs s) \<Longrightarrow> find_desc (descs s) n < 7 \<and> unat n \<le> bsz (find_desc (descs s) n)"
    and "i < find_desc (descs s) n \<Longrightarrow> bsz i < unat n"
proof -
  note l = assms [unfolded descs_ok_def]
  note f = find_desc_first [where ds = "descs s" and n = n]
  show b: "find_desc (descs s) n < 7 \<and> unat n \<le> bsz (find_desc (descs s) n)" if "find_desc (descs s) n < length (descs s)"
    using f(2) [OF that] that l by (simp add: word_le_nat_alt)
  show c: "bsz i < unat n" if "i < find_desc (descs s) n" for i
    using f(3) [OF that] that f(1) l by (simp add: word_less_nat_alt)
  show "find_desc (descs s) n = length (descs s) \<longleftrightarrow> 1024 < unat n"
  proof
    assume "find_desc (descs s) n = length (descs s)"
    then show "1024 < unat n" using c [of 6] l by (simp add: bsz_def)
  next
    assume n: "1024 < unat n"
    show "find_desc (descs s) n = length (descs s)"
    proof (rule ccontr)
      assume "find_desc (descs s) n \<noteq> length (descs s)"
      then have "find_desc (descs s) n < length (descs s)" using f(1) by simp
      from b [OF this] bsz_bounds(2) [of "find_desc (descs s) n"] n show False by linarith
    qed
  qed
qed

lemma new_arena_cases:
  assumes inv: "heap_ok A B fl s" and d: "d < 7"
  obtains (full) s' where "new_arena d s = Some (False, s')" "heap_ok A B fl s'" "live A B fl s' = live A B fl s"
      "phys_mem (mram s') = phys_mem (mram s)" "no_run 1 s"
    | (arena) a s' where "new_arena d s = Some (True, s')" "owner (arenas s' a) = Some d" "descs s' = descs s"
      "heap_inv {a} (insert a A) B (fl(d := fl d @ map (blk a d) [0..<bpa d])) s'"
      "live (insert a A) B (fl(d := fl d @ map (blk a d) [0..<bpa d])) s' = live A B fl s"
      "phys_mem (mram s') = phys_mem (mram s)"
proof -
  have cnt: "blocks_per_arena (descs s ! d) = of_nat (bpa d)" by (rule descs_okD(3) [OF heap_invD(2) [OF inv] d])
  have z: "(0 :: u32) AND PAL_ASSERT = 0" "False = ((0 :: u32) AND PAL_USER \<noteq> 0)" by simp_all
  show thesis
  proof (rule palloc_get_pages [OF heap_invD(1) [OF inv] zero_less_one z])
    fix r assume full: "palloc_get_multiple 0 1 (mram s) = Some (0, r)" "phys_ok r"
      and mem: "phys_mem r = phys_mem (mram s)" and full': "\<forall>v. page_used v r = page_used v (mram s)" "\<forall>v. run_used v r = run_used v (mram s)"
      "\<forall>v. pool_base (get_pool v r) = pool_base (get_pool v (mram s))"
      "\<forall>i. i + 1 \<le> bit_cnt (used_map (get_pool False (mram s))) \<longrightarrow> {i..<i + 1} \<inter> marked (used_map (get_pool False (mram s))) \<noteq> {}"
    have "no_run 1 s" using full'(4) by (simp add: no_run_def get_pool_def)
    moreover have "new_arena d s = Some (False, s\<lparr>mram := r\<rparr>)" using full(1) by (simp add: new_arena_def palloc_get_page_def Let_def)
    moreover have "pool_base (kernel_pool r) = pool_base (kernel_pool (mram s))"
      using spec [OF full'(3), of False] by (simp add: get_pool_def)
    ultimately show thesis using that(1) heap_inv_mram [OF inv full(2)] full'(1,2) mem by simp
  next
    fix a r assume mem: "phys_mem r = (if (0 :: u32) AND PAL_ZERO \<noteq> 0 then memset (phys_mem (mram s)) a 0 (PGSIZE * 1) else phys_mem (mram s))"
      and found: "palloc_get_multiple 0 1 (mram s) = Some (a, r)" "phys_ok r" "a \<noteq> 0"
      "\<forall>q \<in> pages a 1. \<not> page_used False (mram s) q"
      "\<forall>v q. page_used v r q \<longleftrightarrow> page_used v (mram s) q \<or> v = False \<and> q \<in> pages a 1"
      "\<forall>v q m. run_used v (mram s) q m \<longrightarrow> run_used v r q m"
      "\<forall>v. pool_base (get_pool v r) = pool_base (get_pool v (mram s))"
    have un: "\<not> page_used False (mram s) a" "page_used False r a" using found(4,5) by simp_all
    have base: "pool_base (kernel_pool r) = pool_base (kernel_pool (mram s))"
      using spec [OF found(7), of False] by (simp add: get_pool_def)
    let ?h = "\<lparr>magic = ARENA_MAGIC, owner = Some d, free_cnt = of_nat (bpa d)\<rparr>"
    obtain lk where lk: "push_blocks a d [0..<bpa d] (set_arena a ?h (s\<lparr>mram := r\<rparr>)) = Some (set_arena a ?h (s\<lparr>mram := r, elems := lk\<rparr>))"
      "heap_inv {a} (insert a A) B (fl(d := fl d @ map (blk a d) [0..<bpa d])) (set_arena a ?h (s\<lparr>mram := r, elems := lk\<rparr>))"
      "live (insert a A) B (fl(d := fl d @ map (blk a d) [0..<bpa d])) (set_arena a ?h (s\<lparr>mram := r, elems := lk\<rparr>)) = live A B fl s"
      using add_arena [OF inv d un found(2) _ _ base, of ?h] found(5,6) by auto
    have "new_arena d s = Some (True, set_arena a ?h (s\<lparr>mram := r, elems := lk\<rparr>))"
      using found(1,3) lk(1) d by (simp add: new_arena_def palloc_get_page_def Let_def cnt)
    then show thesis by (rule that(2)) (use lk(2,3) mem in \<open>simp_all add: set_arena_def\<close>)
  qed
qed

text \<open>The end of \<^verbatim>\<open>malloc\<close>: the first block of the list.\<close>

lemma take_first:
  assumes inv: "heap_inv X A B fl s" and X: "X \<subseteq> {a}" and d: "d < 7" and fl: "fl d = blk a d k # bs"
    and a: "a \<in> A" "owner (arenas s a) = Some d" "k < bpa d"
  shows "\<exists>p s' fl'. pop_block d s = Some (p, s') \<and>
    heap_ok A B fl' s' \<and> p \<noteq> 0 \<and> live A B fl' s' = insert (p, bsz d) (live A B fl s) \<and> (p, bsz d) \<notin> live A B fl s \<and>
    mram s' = mram s"
proof -
  obtain lk where lk: "list_pop_front (free_list (descs s ! d)) (elems s) = Some (unat (blk a d k), lk)"
    "block_to_arena (blk a d k) (s\<lparr>elems := lk\<rparr>) = Some a"
    "heap_ok A B (fl(d := bs)) (set_arena a ((arenas s a)\<lparr>free_cnt := free_cnt (arenas s a) - 1\<rparr>) (s\<lparr>elems := lk\<rparr>))"
    "live A B (fl(d := bs)) (set_arena a ((arenas s a)\<lparr>free_cnt := free_cnt (arenas s a) - 1\<rparr>) (s\<lparr>elems := lk\<rparr>)) =
      insert (blk a d k, bsz d) (live A B fl s)" "(blk a d k, bsz d) \<notin> live A B fl s"
    using take_block [OF inv X d fl refl a] unfolding Let_def by auto
  have "blk a d k \<noteq> 0" by (rule blk_facts(4) [OF arena_pageD(1) [OF inv a(1)] d a(3)])
  moreover let ?s = "set_arena a ((arenas s a)\<lparr>free_cnt := free_cnt (arenas s a) - 1\<rparr>) (s\<lparr>elems := lk\<rparr>)"
  have "pop_block d s = Some (blk a d k, ?s)" by (simp add: pop_block_def lk(1,2) Let_def)
  moreover have "mram ?s = mram s" by (simp add: set_arena_def)
  ultimately show ?thesis using lk(3-5) by blast
qed

lemma malloc_small:
  assumes inv: "heap_ok A B fl s" and n: "n \<noteq> 0" "unat n \<le> 1024"
  shows "\<exists>p s' A' fl'. malloc n s = Some (p, s') \<and> heap_ok A' B fl' s' \<and> phys_mem (mram s') = phys_mem (mram s) \<and>
    (p = 0 \<and> live A' B fl' s' = live A B fl s \<and> no_run 1 s \<or>
     p \<noteq> 0 \<and> live A' B fl' s' = insert (p, bsz (find_desc (descs s) n)) (live A B fl s) \<and>
     (p, bsz (find_desc (descs s) n)) \<notin> live A B fl s)"
proof -
  define d where "d = find_desc (descs s) n"
  have dlt: "d \<noteq> length (descs s)" using find_desc_fits(1) [OF heap_invD(2) [OF inv], of n] n(2) d_def by simp
  then have d: "d < 7" using find_desc_fits(2) [OF heap_invD(2) [OF inv], of n] find_desc_first(1) [where ds = "descs s" and n = n] d_def
    by (simp add: le_neq_implies_less)
  note lr = free_listsD [OF heap_invD(4) [OF inv] d]
  show ?thesis
  proof (cases "fl d")
    case Nil
    then have e: "list_empty (elems s) (free_list (descs s ! d))" using list_rep_empty [OF lr(1)] by simp
    consider (full) s' where "new_arena d s = Some (False, s')" "heap_ok A B fl s'" "live A B fl s' = live A B fl s"
      "phys_mem (mram s') = phys_mem (mram s)" "no_run 1 s"
    | (arena) a s' where "new_arena d s = Some (True, s')" "owner (arenas s' a) = Some d" "descs s' = descs s"
      "heap_inv {a} (insert a A) B (fl(d := fl d @ map (blk a d) [0..<bpa d])) s'"
      "live (insert a A) B (fl(d := fl d @ map (blk a d) [0..<bpa d])) s' = live A B fl s"
      "phys_mem (mram s') = phys_mem (mram s)"
      using new_arena_cases [OF inv d] by metis
    then show ?thesis
    proof cases
      case full
      then have "malloc n s = Some (0, s')" using n(1) dlt e by (simp add: malloc_def Let_def flip: d_def)
      then show ?thesis using full(2-5) by blast
    next
      case (arena a s')
      have pos: "0 < bpa d" using bsz_bounds(3) [OF d] by simp
      let ?fl = "fl(d := fl d @ map (blk a d) [0..<bpa d])"
      have cons: "?fl d = blk a d 0 # map (blk a d) [1..<bpa d]" using Nil pos by (simp add: upt_conv_Cons)
      note t = take_first [OF arena(4) subset_refl d cons insertI1 arena(2) pos, unfolded arena(3,5)]
      have "malloc n s = pop_block d s'"
        using n(1) dlt e arena(1,3) by (simp add: malloc_def Let_def flip: d_def)
      then show ?thesis using t arena(6) unfolding d_def [symmetric] by metis
    qed
  next
    case (Cons b bs)
    then have e: "\<not> list_empty (elems s) (free_list (descs s ! d))" using list_rep_empty [OF lr(1)] by simp
    obtain a k where a: "a \<in> A" "k < bpa d" "owner (arenas s a) = Some d" "b = blk a d k" using lr(2) [of b] Cons by auto
    note t = take_first [OF inv empty_subsetI d Cons [unfolded a(4)] a(1,3,2)]
    have "malloc n s = pop_block d s" using n(1) dlt e by (simp add: malloc_def Let_def flip: d_def)
    then show ?thesis using t unfolding d_def [symmetric] by metis
  qed
qed


section \<open>Live blocks are disjoint\<close>

lemma live_cases:
  assumes inv: "heap_inv X A B fl s" and "(p, m) \<in> live A B fl s"
  obtains (small) a d k where "a \<in> A" "owner (arenas s a) = Some d" "d < 7" "k < bpa d" "blk a d k \<notin> set (fl d)"
      "p = blk a d k" "m = bsz d" "pg_ofs a = 0" "unat p = unat a + 12 + k * bsz d" "unat p + m \<le> unat a + 4096"
    | (big) b n where "(b, n) \<in> B" "p = b + sizeof_arena" "m = PGSIZE * n - 12" "pg_ofs b = 0" "unat p = unat b + 12"
      "unat p + m = unat b + 4096 * n" "unat b + 4096 * n < 2 ^ 32" "0 < n"
proof -
  from assms(2) consider (s) a d k where "a \<in> A" "owner (arenas s a) = Some d" "k < bpa d" "blk a d k \<notin> set (fl d)" "p = blk a d k" "m = bsz d"
    | (b) b n where "(b, n) \<in> B" "p = b + sizeof_arena" "m = PGSIZE * n - 12" unfolding live_def by blast
  then show thesis
  proof cases
    case s
    obtain d' where "arena_ok fl s a d'" using heap_invD(6) [OF inv s(1)] by blast
    then have d: "d < 7" using s(2) by (simp add: arena_ok_def)
    note o = arena_pageD(1) [OF inv s(1)]
    have u: "unat p = unat a + 12 + k * bsz d" using blk_facts(1) [OF o d s(3)] s(5) by simp
    show thesis by (rule small [OF s(1,2) d s(3-6) o u]) (use u s(6) block_offset(1) [OF d s(3)] in simp)
  next
    case b
    note bp = big_pages [OF inv b(1)]
    have u: "unat p = unat b + 12" using unat_page_plus [OF bp(6), of sizeof_arena] b(2) by (simp add: sizeof_arena_def)
    have ok: "pool_ok (get_pool False (mram s))" by (rule phys_ok_pool [OF heap_invD(1) [OF inv]])
    obtain i where i: "b = page_addr (get_pool False (mram s)) i" "i + n \<le> bit_cnt (used_map (get_pool False (mram s)))"
      using bp(5) unfolding run_used_def by blast
    have "unat b = unat (pool_base (get_pool False (mram s))) + PGSIZE * i"
      using unat_page_addr [OF ok, of i] i by simp
    moreover have "PGSIZE * (i + n) \<le> PGSIZE * bit_cnt (used_map (get_pool False (mram s)))" using i(2) by (rule mult_le_mono2)
    ultimately have "unat b + 4096 * n < 2 ^ 32" using ok by (simp add: pool_ok_def PGSIZE_def distrib_left)
    then show thesis using big [OF b bp(6) u] bp(3) b(3) u by (simp add: PGSIZE_def)
  qed
qed

lemma pages_apart:
  assumes "pg_ofs a = 0" "pg_ofs b = 0" "unat b + 4096 * n < 2 ^ 32" "a \<notin> pages b n"
  shows "unat a + 4096 \<le> unat b \<or> unat b + 4096 * n \<le> unat a"
proof (rule ccontr)
  assume c: "\<not> ?thesis"
  obtain i where i: "unat a = 4096 * i" by (rule page_multiple [OF assms(1)])
  obtain j where j: "unat b = 4096 * j" by (rule page_multiple [OF assms(2)])
  have ij: "j \<le> i" "i < j + n" using c unfolding i j by linarith+
  have "a = b + of_nat (4096 * (i - j))"
  proof -
    have e: "unat b + 4096 * (i - j) = unat a" using ij(1) unfolding i j by simp
    have "of_nat (unat b + 4096 * (i - j)) = (of_nat (unat a) :: u32)" unfolding e ..
    then show ?thesis by simp
  qed
  then have "a \<in> pages b n" unfolding pages_def PGSIZE_def using ij by (intro image_eqI [of _ _ "i - j"]) auto
  then show False using assms(4) by blast
qed

lemma live_disjoint:
  assumes inv: "heap_inv X A B fl s" and l: "(p, m) \<in> live A B fl s" "(q, n) \<in> live A B fl s" "(p, m) \<noteq> (q, n)"
  shows "unat p + m \<le> unat q \<or> unat q + n \<le> unat p"
proof -
  have sb: "unat a + 4096 \<le> unat b \<or> unat b + 4096 * k \<le> unat a"
    if "a \<in> A" "(b, k) \<in> B" "pg_ofs a = 0" "pg_ofs b = 0" "unat b + 4096 * k < 2 ^ 32" for a b k
    using pages_apart [OF that(3-5)] heap_invD(8) [OF inv that(2)] that(1) by blast
  show ?thesis
  proof (cases rule: live_cases [OF inv l(1)])
    case p: (1 a d k)
    show ?thesis
    proof (cases rule: live_cases [OF inv l(2)])
      case q: (1 a' d' k')
      show ?thesis
      proof (cases "a = a'")
        case True
        then have d: "d' = d" using p(2) q(2) by simp
        then have "k \<noteq> k'" using True p(6,7) q(6,7) l(3) by auto
        then have "Suc k * bsz d \<le> k' * bsz d \<or> Suc k' * bsz d \<le> k * bsz d"
          by (metis Suc_leI mult_le_mono1 nat_neq_iff)
        then show ?thesis using p(7,9) q(7,9) unfolding d True by simp linarith
      next
        case False
        obtain i where i: "unat a = 4096 * i" by (rule page_multiple [OF p(8)])
        obtain j where j: "unat a' = 4096 * j" by (rule page_multiple [OF q(8)])
        have "i \<noteq> j" using False i j by (simp add: word_unat_eq_iff)
        then have "unat a + 4096 \<le> unat a' \<or> unat a' + 4096 \<le> unat a" unfolding i j by linarith
        then show ?thesis using p(9,10) q(9,10) by linarith
      qed
    next
      case q: (2 b k')
      show ?thesis using sb [OF p(1) q(1) p(8) q(4,7)] p(9,10) q(5,6) by linarith
    qed
  next
    case p: (2 b k)
    show ?thesis
    proof (cases rule: live_cases [OF inv l(2)])
      case q: (1 a' d' k')
      show ?thesis using sb [OF q(1) p(1) q(8) p(4,7)] p(5,6) q(9,10) by linarith
    next
      case q: (2 c k')
      have ne: "(b, k) \<noteq> (c, k')" using l(3) p(2,3) q(2,3) by auto
      then have dis: "pages b k \<inter> pages c k' = {}" using heap_invD(9) [OF inv p(1) q(1)] by blast
      have "b \<notin> pages c k'" "c \<notin> pages b k" using dis big_pages(1) [OF inv p(1)] big_pages(1) [OF inv q(1)] by blast+
      from pages_apart [OF p(4) q(4,7) this(1)] pages_apart [OF q(4) p(4,7) this(2)] show ?thesis
        using p(5,6,8) q(5,6,8) by linarith
    qed
  qed
qed

section \<open>Big blocks\<close>

lemma live_insert_big:
  "live A (insert (a, n) B) fl s = insert (a + sizeof_arena, PGSIZE * n - 12) (live A B fl s)"
  unfolding live_def by blast

lemma add_big:
  assumes inv: "heap_ok A B fl s" and n: "0 < n" "\<forall>q \<in> pages a n. \<not> page_used False (mram s) q" "run_used False r a n"
    and r: "phys_ok r" "\<And>q. page_used False (mram s) q \<Longrightarrow> page_used False r q"
    "\<And>q m. run_used False (mram s) q m \<Longrightarrow> run_used False r q m"
    "pool_base (kernel_pool r) = pool_base (kernel_pool (mram s))"
    and s': "s' = set_arena a \<lparr>magic = ARENA_MAGIC, owner = None, free_cnt = of_nat n\<rparr> (s\<lparr>mram := r\<rparr>)"
  shows "heap_ok A (insert (a, n) B) fl s'" "live A (insert (a, n) B) fl s' = insert (a + sizeof_arena, PGSIZE * n - 12) (live A B fl s)"
    "a + sizeof_arena \<noteq> 0" "(a + sizeof_arena, PGSIZE * n - 12) \<notin> live A B fl s"
proof -
  let ?h = "\<lparr>magic = ARENA_MAGIC, owner = None, free_cnt = of_nat n\<rparr>"
  note a = pages_self [OF n(1), of a]
  have s'2: "s' = (set_arena a ?h s)\<lparr>mram := r\<rparr>" by (simp add: s' set_arena_def)
  have un: "\<not> page_used False (mram s) a" using n(2) a by blast
  have m: "mram (set_arena a ?h s) = mram s" by (simp add: set_arena_def)
  have inv': "heap_ok A B fl s'" and live': "live A B fl s' = live A B fl s"
    unfolding s'2 using heap_inv_mram [OF set_arena_unused(1) [OF inv un, of ?h], of r] r set_arena_unused(2) [OF inv un, of ?h]
    unfolding m by simp_all
  have pa: "pg_ofs a = 0" "a \<noteq> 0" using page_usedD(1,2) [OF r(1) run_usedD [OF r(1) n(3) a]] by simp_all
  have freshB: "pages a n \<inter> pages b m = {}" if "(b, m) \<in> B" for b m using big_pages(2) [OF inv that] n(2) by blast
  have freshA: "pages a n \<inter> A = {}" using heap_invD(5) [OF inv] n(2) by blast
  show "heap_ok A (insert (a, n) B) fl s'"
  proof (rule heap_invI)
    show "phys_ok (mram s')" "descs_ok s'" "headers_ok s'" "lists_ok A fl s'" by (rule heap_invD [OF inv'])+
    show "page_used False (mram s') b" if "b \<in> A" for b by (rule heap_invD(5) [OF inv' that])
    show "\<exists>d. arena_ok fl s' b d \<and> (b \<in> {} \<or> card (free_idx fl b d) < bpa d)" if "b \<in> A" for b by (rule heap_invD(6) [OF inv' that])
    show "big_ok s' b m" if "(b, m) \<in> insert (a, n) B" for b m
    proof (cases "(b, m) = (a, n)")
      case True
      then show ?thesis using n(1,3) by (simp add: big_ok_def s' set_arena_def)
    qed (use that heap_invD(7) [OF inv'] in blast)
    show "pages b m \<inter> A = {}" if "(b, m) \<in> insert (a, n) B" for b m using that freshA heap_invD(8) [OF inv'] by blast
    show "b = c \<and> k = m" if "(b, k) \<in> insert (a, n) B" "(c, m) \<in> insert (a, n) B" "pages b k \<inter> pages c m \<noteq> {}" for b k c m
    proof (cases "(b, k) = (a, n)"; cases "(c, m) = (a, n)")
      assume "(b, k) = (a, n)" "(c, m) \<noteq> (a, n)"
      then show ?thesis using that freshB [of c m] by blast
    next
      assume "(b, k) \<noteq> (a, n)" "(c, m) = (a, n)"
      then show ?thesis using that freshB [of b k] by blast
    next
      assume "(b, k) \<noteq> (a, n)" "(c, m) \<noteq> (a, n)"
      then show ?thesis using that heap_invD(9) [OF inv', of b k c m] by blast
    qed simp
  qed
  show "live A (insert (a, n) B) fl s' = insert (a + sizeof_arena, PGSIZE * n - 12) (live A B fl s)"
    unfolding live_insert_big live' ..
  have f: "pg_round_down (a + sizeof_arena) = a" "unat (a + sizeof_arena) = unat a + 12"
    using page_plus(2) [OF pa(1), of sizeof_arena] unat_page_plus [OF pa(1), of sizeof_arena] by (simp_all add: sizeof_arena_def)
  show "a + sizeof_arena \<noteq> 0" using f(2) by (auto simp: unat_eq_0 [symmetric])
  show "(a + sizeof_arena, PGSIZE * n - 12) \<notin> live A B fl s"
  proof
    assume l: "(a + sizeof_arena, PGSIZE * n - 12) \<in> live A B fl s"
    show False
    proof (cases rule: live_cases [OF inv l])
      case (1 a' d k)
      have "a' = a" using blk_facts(2) [OF 1(8,3,4)] 1(6) f(1) by simp
      then show False using 1(1) freshA a by blast
    next
      case (2 b k)
      then have "b = a" by simp
      then show False using big_pages(1) [OF inv 2(1)] freshB [OF 2(1)] a by blast
    qed
  qed
qed


lemma page_count:
  fixes n :: u32
  assumes "unat n + 4107 < 2 ^ 32"
  shows "unat (DIV_ROUND_UP (n + sizeof_arena) (of_nat PGSIZE)) = (unat n + 4107) div 4096"
    and "unat n + 12 \<le> 4096 * ((unat n + 4107) div 4096)"
proof -
  have "n + sizeof_arena + of_nat PGSIZE - 1 = (of_nat (unat n + 4107) :: u32)"
    by (simp add: sizeof_arena_def PGSIZE_def)
  moreover have "unat (of_nat (unat n + 4107) :: u32) = unat n + 4107"
    using assms by (simp only: unat_of_nat) (simp add: take_bit_nat_eq_self)
  moreover have "unat (of_nat PGSIZE :: u32) = 4096" by (simp add: PGSIZE_def)
  ultimately show "unat (DIV_ROUND_UP (n + sizeof_arena) (of_nat PGSIZE)) = (unat n + 4107) div 4096"
    by (simp only: DIV_ROUND_UP_def unat_div)
  show "unat n + 12 \<le> 4096 * ((unat n + 4107) div 4096)" by linarith
qed

lemma malloc_big:
  assumes inv: "heap_ok A B fl s" and n: "1024 < unat n" "unat n + 4107 < 2 ^ 32"
  defines "k \<equiv> (unat n + 4107) div 4096"
  shows "\<exists>p s' B'. malloc n s = Some (p, s') \<and> heap_ok A B' fl s' \<and> phys_mem (mram s') = phys_mem (mram s) \<and>
    (p = 0 \<and> live A B' fl s' = live A B fl s \<and> no_run k s \<or>
     p \<noteq> 0 \<and> live A B' fl s' = insert (p, PGSIZE * k - 12) (live A B fl s) \<and> (p, PGSIZE * k - 12) \<notin> live A B fl s)"
proof -
  have d: "find_desc (descs s) n = length (descs s)" "n \<noteq> 0" using find_desc_fits(1) [OF heap_invD(2) [OF inv]] n(1) by auto
  have k: "0 < k" "unat (DIV_ROUND_UP (n + sizeof_arena) (of_nat PGSIZE)) = k" using page_count [OF n(2)] by (simp_all add: k_def)
  have ck: "DIV_ROUND_UP (n + sizeof_arena) (of_nat PGSIZE) = of_nat k" by (simp flip: k(2))
  have z: "(0 :: u32) AND PAL_ASSERT = 0" "False = ((0 :: u32) AND PAL_USER \<noteq> 0)" by simp_all
  show ?thesis
  proof (rule palloc_get_pages [OF heap_invD(1) [OF inv] k(1) z])
    fix r assume mem: "phys_mem r = phys_mem (mram s)"
      and full: "palloc_get_multiple 0 k (mram s) = Some (0, r)" "phys_ok r"
      "\<forall>v. page_used v r = page_used v (mram s)" "\<forall>v. run_used v r = run_used v (mram s)"
      "\<forall>v. pool_base (get_pool v r) = pool_base (get_pool v (mram s))"
      "\<forall>i. i + k \<le> bit_cnt (used_map (get_pool False (mram s))) \<longrightarrow> {i..<i + k} \<inter> marked (used_map (get_pool False (mram s))) \<noteq> {}"
    have "no_run k s" using full(6) by (simp add: no_run_def get_pool_def)
    moreover have "malloc n s = Some (0, s\<lparr>mram := r\<rparr>)" using d full(1) k(2) by (simp add: malloc_def Let_def)
    moreover have "phys_mem (mram (s\<lparr>mram := r\<rparr>)) = phys_mem (mram s)" using mem by simp
    moreover have "pool_base (kernel_pool r) = pool_base (kernel_pool (mram s))"
      using spec [OF full(5), of False] by (simp add: get_pool_def)
    then have "heap_ok A B fl (s\<lparr>mram := r\<rparr>)" "live A B fl (s\<lparr>mram := r\<rparr>) = live A B fl s"
      using heap_inv_mram [OF inv full(2)] full(3,4) by simp_all
    ultimately show ?thesis by blast
  next
    fix a r assume mem: "phys_mem r = (if (0 :: u32) AND PAL_ZERO \<noteq> 0 then memset (phys_mem (mram s)) a 0 (PGSIZE * k) else phys_mem (mram s))"
      and found: "palloc_get_multiple 0 k (mram s) = Some (a, r)" "phys_ok r" "a \<noteq> 0"
      "run_used False r a k" "\<forall>q \<in> pages a k. \<not> page_used False (mram s) q"
      "\<forall>v q. page_used v r q \<longleftrightarrow> page_used v (mram s) q \<or> v = False \<and> q \<in> pages a k"
      "\<forall>v q m. run_used v (mram s) q m \<longrightarrow> run_used v r q m"
      "\<forall>v. pool_base (get_pool v r) = pool_base (get_pool v (mram s))"
    let ?s = "set_arena a \<lparr>magic = ARENA_MAGIC, owner = None, free_cnt = of_nat k\<rparr> (s\<lparr>mram := r\<rparr>)"
    have base: "pool_base (kernel_pool r) = pool_base (kernel_pool (mram s))"
      using spec [OF found(8), of False] by (simp add: get_pool_def)
    have "malloc n s = Some (a + sizeof_arena, ?s)"
      using d found(1,3) k(2) ck by (simp add: malloc_def Let_def)
    moreover have "phys_mem (mram ?s) = phys_mem (mram s)" using mem by (simp add: set_arena_def)
    moreover note add_big [OF inv k(1) found(5,4,2) _ _ base refl]
    ultimately show ?thesis using found(6,7) by blast
  qed
qed

text \<open>Both cases.\<close>

definition disjoint_from :: "u32 \<Rightarrow> nat \<Rightarrow> (u32 \<times> nat) set \<Rightarrow> bool" where
  "disjoint_from p m L \<longleftrightarrow> (\<forall>(q, n) \<in> L. unat p + m \<le> unat q \<or> unat q + n \<le> unat p)"

lemma malloc_cases:
  assumes inv: "heap_ok A B fl s" and n: "unat n + 11 < 2 ^ 32"
  shows "\<exists>p s' A' B' fl'. malloc n s = Some (p, s') \<and> heap_ok A' B' fl' s' \<and> phys_mem (mram s') = phys_mem (mram s) \<and>
    (p = 0 \<and> live A' B' fl' s' = live A B fl s \<and> (n = 0 \<or> no_run ((unat n + 4107) div 4096) s) \<or>
     p \<noteq> 0 \<and> (\<exists>m \<ge> unat n. live A' B' fl' s' = insert (p, m) (live A B fl s) \<and> disjoint_from p m (live A B fl s)))"
proof -
  have dis: "disjoint_from p m (live A B fl s)"
    if "heap_ok A' B' fl' s'" "live A' B' fl' s' = insert (p, m) (live A B fl s)" "(p, m) \<notin> live A B fl s" for p m s' A' B' fl'
    unfolding disjoint_from_def
  proof (clarify)
    fix q k assume q: "(q, k) \<in> live A B fl s" and ne: "\<not> unat q + k \<le> unat p"
    have "(p, m) \<noteq> (q, k)" using q that(3) by blast
    then show "unat p + m \<le> unat q" using live_disjoint [OF that(1), of p m q k] q ne unfolding that(2) by blast
  qed
  consider (zero) "n = 0" | (small) "n \<noteq> 0" "unat n \<le> 1024" | (big) "1024 < unat n" "unat n + 4107 < 2 ^ 32" | (huge) "2 ^ 32 \<le> unat n + 4107"
    by linarith
  then show ?thesis
  proof cases
    case zero
    then have "malloc n s = Some (0, s)" by (simp add: malloc_def)
    then show ?thesis using inv zero by blast
  next
    case small
    have ne: "find_desc (descs s) n < length (descs s)"
      using find_desc_fits(1) [OF heap_invD(2) [OF inv], of n] find_desc_first(1) [where ds = "descs s" and n = n] small(2)
      by (simp add: le_neq_implies_less)
    have m: "unat n \<le> bsz (find_desc (descs s) n)" using find_desc_fits(2) [OF heap_invD(2) [OF inv] ne] by blast
    obtain p s' A' fl' where "malloc n s = Some (p, s')" "heap_ok A' B fl' s'" "phys_mem (mram s') = phys_mem (mram s)"
      "p = 0 \<and> live A' B fl' s' = live A B fl s \<and> no_run 1 s \<or>
       p \<noteq> 0 \<and> live A' B fl' s' = insert (p, bsz (find_desc (descs s) n)) (live A B fl s) \<and>
       (p, bsz (find_desc (descs s) n)) \<notin> live A B fl s"
      using malloc_small [OF inv small] by blast
    moreover have "(unat n + 4107) div 4096 = 1" using small(2) by simp
    ultimately show ?thesis using dis m by metis
  next
    case big
    have m: "unat n \<le> PGSIZE * ((unat n + 4107) div 4096) - 12" using page_count(2) [OF big(2)] by (simp add: PGSIZE_def)
    obtain p s' B' where "malloc n s = Some (p, s')" "heap_ok A B' fl s'" "phys_mem (mram s') = phys_mem (mram s)"
      "p = 0 \<and> live A B' fl s' = live A B fl s \<and> no_run ((unat n + 4107) div 4096) s \<or>
       p \<noteq> 0 \<and> live A B' fl s' = insert (p, PGSIZE * ((unat n + 4107) div 4096) - 12) (live A B fl s) \<and>
       (p, PGSIZE * ((unat n + 4107) div 4096) - 12) \<notin> live A B fl s"
      using malloc_big [OF inv big] by auto
    then show ?thesis using dis m by blast
  next
    case huge
    have "malloc n s = Some (0, s)"
    proof -
      have d: "find_desc (descs s) n = length (descs s)" "n \<noteq> 0" using find_desc_fits(1) [OF heap_invD(2) [OF inv], of n] huge by auto
      have "n + sizeof_arena + of_nat PGSIZE - 1 = (of_nat (unat n + 4107) :: u32)" by (simp add: sizeof_arena_def PGSIZE_def)
      also have "\<dots> = of_nat (unat n + 4107 - 2 ^ 32)"
      proof -
        have "(of_nat (unat n + 4107 - 2 ^ 32) :: u32) = of_nat (unat n + 4107) - of_nat (2 ^ 32)" using huge by (rule of_nat_diff)
        then show ?thesis by simp
      qed
      finally have "unat (n + sizeof_arena + of_nat PGSIZE - 1) = unat n + 4107 - 2 ^ 32"
        using n by (simp add: unat_of_nat take_bit_nat_eq_self)
      then have "unat (DIV_ROUND_UP (n + sizeof_arena) (of_nat PGSIZE)) = 0" using n
        by (simp add: DIV_ROUND_UP_def unat_div PGSIZE_def)
      then show ?thesis using d by (simp add: malloc_def Let_def palloc_get_multiple_def)
    qed
    moreover have "no_run ((unat n + 4107) div 4096) s"
    proof -
      have "pool_ok (kernel_pool (mram s))" using heap_invD(1) [OF inv] by (simp add: phys_ok_def)
      then have "bit_cnt (used_map (kernel_pool (mram s))) < 2 ^ 20" by (simp add: pool_ok_def PGSIZE_def)
      moreover have "2 ^ 20 \<le> (unat n + 4107) div 4096" using huge by simp
      ultimately show ?thesis by (auto simp: no_run_def)
    qed
    ultimately show ?thesis using inv by blast
  qed
qed

section \<open>The contents of live blocks\<close>

definition same_contents :: "(u32 \<times> nat) set \<Rightarrow> (u32 \<Rightarrow> byte) \<Rightarrow> (u32 \<Rightarrow> byte) \<Rightarrow> bool" where
  "same_contents L m m' \<longleftrightarrow> (\<forall>(q, n) \<in> L. \<forall>i < n. m' (q + of_nat i) = m (q + of_nat i))"

lemma same_contentsI:
  "(\<And>q n i. (q, n) \<in> L \<Longrightarrow> i < n \<Longrightarrow> m' (q + of_nat i) = m (q + of_nat i)) \<Longrightarrow> same_contents L m m'"
  by (auto simp: same_contents_def)

lemma same_contentsD: "same_contents L m m' \<Longrightarrow> (q, n) \<in> L \<Longrightarrow> i < n \<Longrightarrow> m' (q + of_nat i) = m (q + of_nat i)"
  by (auto simp: same_contents_def)

lemma same_contents_refl: "same_contents L m m"
  by (simp add: same_contents_def)

lemma same_contents_trans: "same_contents L m m' \<Longrightarrow> same_contents L m' m'' \<Longrightarrow> same_contents L m m''"
  by (rule same_contentsI) (simp add: same_contentsD)

lemma same_contents_mono: "same_contents L m m' \<Longrightarrow> L' \<subseteq> L \<Longrightarrow> same_contents L' m m'"
  by (auto simp: same_contents_def)

lemma block_address:
  assumes "unat (q :: u32) + n \<le> 2 ^ 32" "i < n"
  shows "unat (q + of_nat i) = unat q + i"
proof -
  have "unat (of_nat i :: u32) = i" using assms by (simp add: unat_of_nat take_bit_nat_eq_self)
  then show ?thesis using assms by (simp add: unat_plus_if')
qed

lemma outside_offset:
  assumes "unat (dst :: u32) + k \<le> 2 ^ 32" "unat x < unat dst \<or> unat dst + k \<le> unat x"
  shows "\<not> unat (x - dst) < k"
  using assms u32_bound [of dst] u32_bound [of x] by (simp add: unat_sub_if') linarith

lemma memset_keeps:
  assumes "unat dst + k \<le> 2 ^ 32"
    and "\<And>q n. (q, n) \<in> L \<Longrightarrow> unat q + n \<le> 2 ^ 32 \<and> (unat q + n \<le> unat dst \<or> unat dst + k \<le> unat q)"
  shows "same_contents L m (memset m dst v k)"
proof (rule same_contentsI)
  fix q n i assume q: "(q, n) \<in> L" and i: "i < n"
  have "unat (q + of_nat i) = unat q + i" using block_address assms(2) [OF q] i by blast
  then have "unat (q + of_nat i) < unat dst \<or> unat dst + k \<le> unat (q + of_nat i)" using assms(2) [OF q] i by linarith
  from outside_offset [OF assms(1) this] show "memset m dst v k (q + of_nat i) = m (q + of_nat i)" by (simp add: memset_def)
qed

lemma live_range:
  assumes inv: "heap_inv X A B fl s" and l: "(q, m) \<in> live A B fl s"
  shows "unat q + m \<le> 2 ^ 32" "0 < m"
proof -
  show "unat q + m \<le> 2 ^ 32"
  proof (cases rule: live_cases [OF inv l])
    case (1 a d k)
    obtain i where "unat a = 4096 * i" "i < 2 ^ 20" by (rule page_multiple [OF 1(8)])
    then show ?thesis using 1(10) by simp
  qed simp
  show "0 < m" by (cases rule: live_cases [OF inv l]) (simp_all add: PGSIZE_def)
qed

lemma live_outside:
  assumes inv: "heap_inv X A B fl s" and a: "pg_ofs a = 0" "unat a + 4096 * n < 2 ^ 32" "0 < n" "A \<inter> pages a n = {}"
    and B: "\<And>b m. (b, m) \<in> B \<Longrightarrow> pages b m \<inter> pages a n = {}" and l: "(q, m) \<in> live A B fl s"
  shows "unat q + m \<le> unat a \<or> unat a + 4096 * n \<le> unat q"
proof (cases rule: live_cases [OF inv l])
  case (1 a' d k)
  have "a' \<notin> pages a n" using a(4) 1(1) by blast
  from pages_apart [OF 1(8) a(1,2) this] show ?thesis using 1(9,10) by linarith
next
  case (2 b k)
  have "b \<notin> pages a n" "a \<notin> pages b k"
    using B [OF 2(1)] big_pages(1) [OF inv 2(1)] pages_self [OF a(3), of a] by blast+
  from pages_apart [OF 2(4) a(1,2) this(1)] pages_apart [OF a(1) 2(4,7) this(2)] show ?thesis using 2(5,6,8) a(3) by linarith
qed

section \<open>Giving a block back\<close>

lemma free_idx_iff: "k < bpa d \<Longrightarrow> k \<in> free_idx fl a d \<longleftrightarrow> blk a d k \<in> set (fl d)"
  by (simp add: free_idx_def)

lemma put_block:
  assumes inv: "heap_ok A B fl s" and d: "d < 7" and b: "a \<in> A" "owner (arenas s a) = Some d" "k < bpa d" "blk a d k \<notin> set (fl d)"
  defines "b \<equiv> blk a d k"
  shows "\<exists>lk. list_push_front (free_list (descs s ! d)) (unat b) (elems s) = Some lk \<and>
    (let s2 = set_arena a ((arenas s a)\<lparr>free_cnt := free_cnt (arenas s a) + 1\<rparr>) (s\<lparr>elems := lk\<rparr>); fl' = fl(d := b # fl d) in
      heap_inv {a} A B fl' s2 \<and> owner (arenas s2 a) = Some d \<and> free_cnt (arenas s2 a) = of_nat (card (free_idx fl' a d)) \<and>
      live A B fl' s2 = live A B fl s - {(b, bsz d)})"
proof -
  note ar = arena_pageD [OF inv b(1)]
  let ?l = "free_list (descs s ! d)"
  obtain d0 where "arena_ok fl s a d0" using heap_invD(6) [OF inv b(1)] by blast
  then have ao: "arena_ok fl s a d" using b(2) by (simp add: arena_ok_def)
  have rep: "list_rep (elems s) ?l (map unat (fl d))" by (rule free_listsD(1) [OF heap_invD(4) [OF inv] d])
  have ends: "unat b \<noteq> head (free_list (descs s ! d'))" "unat b \<noteq> tail (free_list (descs s ! d'))" if "d' < 7" for d'
    unfolding b_def by (rule blk_not_end [OF inv heap_invD(5) [OF inv b(1)] d that b(3)])+
  have out: "unat b \<notin> set (cells (free_list (descs s ! d')) (map unat (fl d')))" if d': "d' < 7" for d'
  proof -
    have "b \<notin> set (fl d')"
    proof (cases "d' = d")
      case True
      then show ?thesis using b(4) by (simp add: b_def)
    next
      case False
      then show ?thesis using other_arena [OF inv b(1,2,3) _ d'] unfolding b_def by blast
    qed
    then have "unat b \<notin> unat ` set (fl d')" by (metis imageE word_unat_eq_iff)
    then show ?thesis using ends [OF d'] by (simp add: cells_def)
  qed
  have nz: "unat b \<noteq> NULL" using blk_facts(4) [OF ar(1) d b(3)] unfolding b_def by (simp add: unat_eq_0)
  obtain lk where lk: "list_push_front ?l (unat b) (elems s) = Some lk" "list_rep lk ?l (map unat (b # fl d))"
    "same_outside (insert (unat b) (set (cells ?l (map unat (fl d))))) (elems s) lk"
    using list_push_front_rep [OF rep nz out [OF d]] by auto
  define s2 where "s2 = set_arena a ((arenas s a)\<lparr>free_cnt := free_cnt (arenas s a) + 1\<rparr>) (s\<lparr>elems := lk\<rparr>)"
  let ?fl = "fl(d := b # fl d)"
  have s2: "mram s2 = mram s" "descs s2 = descs s" "elems s2 = lk"
    "arenas s2 = (arenas s)(a := (arenas s a)\<lparr>free_cnt := free_cnt (arenas s a) + 1\<rparr>)"
    by (simp_all add: s2_def set_arena_def)
  have own: "owner (arenas s2 x) = owner (arenas s x)" for x by (simp add: s2(4))
  have inj: "blk a' d j = b \<longleftrightarrow> a' = a \<and> j = k" if "a' \<in> A" "j < bpa d" for a' j
    using blk_inj [OF arena_pageD(1) [OF inv that(1)] ar(1) d that(2) b(3)] by (auto simp: b_def)
  have idx: "free_idx ?fl a d = insert k (free_idx fl a d)" "k \<notin> free_idx fl a d"
    using inj [OF b(1)] b(3,4) by (auto simp: free_idx_def b_def)
  then have card: "card (free_idx ?fl a d) = Suc (card (free_idx fl a d))" by simp
  have cnt: "free_cnt (arenas s2 a) = of_nat (card (free_idx ?fl a d))" using ao by (simp add: arena_ok_def s2(4) card)
  have ls: "lists_ok A ?fl s2"
  proof (rule lists_ok_update [OF heap_invD(4) [OF inv] d s2(2), unfolded s2(3), OF lk(2,3)])
    show "insert (unat b) (set (cells ?l (map unat (fl d)))) \<inter> set (cells (free_list (descs s ! d')) (map unat (fl d'))) = {}"
      if "d' < 7" "d' \<noteq> d" for d' using cells_disjoint [OF inv d that(1)] that(2) out [OF that(1)] by blast
    show "\<exists>a \<in> A. \<exists>k < bpa d'. owner (arenas s2 a) = Some d' \<and> c = blk a d' k" if "d' < 7" "d' \<noteq> d" "c \<in> set (fl d')" for d' c
      unfolding own using free_listsD(2) [OF heap_invD(4) [OF inv] that(1,3)] .
    show "\<exists>a \<in> A. \<exists>k < bpa d. owner (arenas s2 a) = Some d \<and> c = blk a d k" if "c \<in> set (b # fl d)" for c
    proof (cases "c = b")
      case True
      then show ?thesis unfolding own using b(1-3) b_def by blast
    next
      case False
      then show ?thesis unfolding own using free_listsD(2) [OF heap_invD(4) [OF inv] d, of c] that by simp
    qed
  qed
  have "heap_inv {a} A B ?fl s2"
  proof (rule heap_inv_step [OF inv b(1,2) d s2(1,2,4) ls])
    show "blk a' d j \<in> set (b # fl d) \<longleftrightarrow> blk a' d j \<in> set (fl d)" if "a' \<in> A" "a' \<noteq> a" "j < bpa d" for a' j
      using inj [OF that(1,3)] that(2) by simp
    show "free_cnt (arenas s a) + 1 = of_nat (card (free_idx ?fl a d))"
      using ao by (simp add: arena_ok_def card)
  qed simp_all
  moreover have "live A B ?fl s2 = live A B fl s - {(b, bsz d)}"
  proof -
    have iff: "a' \<in> A \<and> owner (arenas s2 a') = Some d' \<and> j < bpa d' \<and> blk a' d' j \<notin> set (?fl d') \<longleftrightarrow>
      (a' \<in> A \<and> owner (arenas s a') = Some d' \<and> j < bpa d' \<and> blk a' d' j \<notin> set (fl d')) \<and> \<not> (a' = a \<and> d' = d \<and> j = k)" for a' d' j
      unfolding own using inj [of a' j] b(2) by (cases "d' = d") auto
    have other: "(blk a' d' j, bsz d') \<noteq> (b, bsz d)"
      if "a' \<in> A" "owner (arenas s a') = Some d'" "j < bpa d'" "\<not> (a' = a \<and> d' = d \<and> j = k)" for a' d' j
    proof
      assume e: "(blk a' d' j, bsz d') = (b, bsz d)"
      then have "d' = d" by (simp add: bsz_eq)
      then show False using e inj [OF that(1), of j] that(3,4) by simp
    qed
    have big: "(a' + sizeof_arena, PGSIZE * n - 12) \<noteq> (b, bsz d)" if "(a', n) \<in> B" for a' n
    proof
      assume e: "(a' + sizeof_arena, PGSIZE * n - 12) = (b, bsz d)"
      have "pg_round_down (a' + sizeof_arena) = a'" by (rule page_plus(2) [OF big_pages(6) [OF inv that]]) (simp add: sizeof_arena_def)
      moreover have "pg_round_down b = a" unfolding b_def by (rule blk_facts(2) [OF ar(1) d b(3)])
      ultimately have "a' = a" using e by simp
      then show False using heap_invD(8) [OF inv that] big_pages(1) [OF inv that] b(1) by blast
    qed
    have small: "{(blk a d k, bsz d) | a d k. a \<in> A \<and> owner (arenas s2 a) = Some d \<and> k < bpa d \<and> blk a d k \<notin> set (?fl d)} =
      {(blk a d k, bsz d) | a d k. a \<in> A \<and> owner (arenas s a) = Some d \<and> k < bpa d \<and> blk a d k \<notin> set (fl d)} - {(b, bsz d)}"
      (is "?T2 = ?T1 - _")
    proof (intro equalityI subsetI)
      fix x assume "x \<in> ?T2"
      then obtain a' d' j where x: "x = (blk a' d' j, bsz d')"
        and c: "a' \<in> A \<and> owner (arenas s2 a') = Some d' \<and> j < bpa d' \<and> blk a' d' j \<notin> set (?fl d')" by blast
      note c' = iff [THEN iffD1, OF c]
      have "x \<in> ?T1" using x c' by blast
      moreover have "x \<noteq> (b, bsz d)" unfolding x using c' by (intro other) blast+
      ultimately show "x \<in> ?T1 - {(b, bsz d)}" by blast
    next
      fix x assume x1: "x \<in> ?T1 - {(b, bsz d)}"
      then obtain a' d' j where x: "x = (blk a' d' j, bsz d')"
        and c: "a' \<in> A \<and> owner (arenas s a') = Some d' \<and> j < bpa d' \<and> blk a' d' j \<notin> set (fl d')" by blast
      have "\<not> (a' = a \<and> d' = d \<and> j = k)" using x1 x b_def by auto
      then show "x \<in> ?T2" using iff [THEN iffD2, OF conjI, OF c] x by blast
    qed
    have "{(a + sizeof_arena, PGSIZE * n - 12) | a n. (a, n) \<in> B} - {(b, bsz d)} = {(a + sizeof_arena, PGSIZE * n - 12) | a n. (a, n) \<in> B}"
      by (rule Diff_triv) (use big in blast)
    then show ?thesis unfolding live_def small Un_Diff by (simp only:)
  qed
  moreover have "owner (arenas s2 a) = Some d" using own [of a] b(2) by simp
  ultimately show ?thesis using lk(1) cnt unfolding s2_def Let_def by blast
qed


text \<open>An arena without a block in use is given back.\<close>

lemma heap_inv_all_but:
  assumes inv: "heap_inv {a} A B fl s" and a: "owner (arenas s a) = Some d" "card (free_idx fl a d) < bpa d"
  shows "heap_ok A B fl s"
proof (rule heap_invI)
  show "\<exists>e. arena_ok fl s b e \<and> (b \<in> {} \<or> card (free_idx fl b e) < bpa e)" if b: "b \<in> A" for b
  proof -
    obtain e where e: "arena_ok fl s b e" "b \<in> {a} \<or> card (free_idx fl b e) < bpa e" using heap_invD(6) [OF inv b] by blast
    have "card (free_idx fl b e) < bpa e"
    proof (cases "b = a")
      case True
      then have "e = d" using e(1) a(1) by (simp add: arena_ok_def)
      then show ?thesis using True a(2) by simp
    qed (use e(2) in simp)
    then show ?thesis using e(1) by blast
  qed
qed (use heap_invD [OF inv] in blast)+

lemma drop_arena:
  assumes inv: "heap_inv {a} A B fl s" and a: "a \<in> A" "owner (arenas s a) = Some d" "bpa d \<le> card (free_idx fl a d)"
  shows "\<exists>s1 s' fl'. remove_blocks a [0..<bpa d] s = Some s1 \<and> release_pages a 1 s1 = Some s' \<and>
    heap_ok (A - {a}) B fl' s' \<and> live (A - {a}) B fl' s' = live A B fl s \<and>
    same_contents (live A B fl s) (phys_mem (mram s)) (phys_mem (mram s'))"
proof -
  note ar = arena_pageD [OF inv a(1)]
  obtain d0 where "arena_ok fl s a d0" using heap_invD(6) [OF inv a(1)] by blast
  then have ao: "arena_ok fl s a d" using a(2) by (simp add: arena_ok_def)
  then have d: "d < 7" "magic (arenas s a) = ARENA_MAGIC" by (simp_all add: arena_ok_def)
  have all: "blk a d k \<in> set (fl d)" if "k < bpa d" for k
  proof -
    have "free_idx fl a d = {..<bpa d}" by (rule card_subset_eq) (use a(3) card_free_idx [of fl a d] in \<open>auto simp: free_idx_def\<close>)
    then show ?thesis using that by (auto simp: free_idx_def)
  qed
  let ?l = "free_list (descs s ! d)"
  define fd where "fd = filter (\<lambda>b. b \<notin> blk a d ` {..<bpa d}) (fl d)"
  obtain lk where lk: "remove_blocks a [0..<bpa d] s = Some (s\<lparr>elems := lk\<rparr>)" "list_rep lk ?l (map unat fd)"
    "same_outside (set (cells ?l (map unat (fl d)))) (elems s) lk"
    using remove_blocks_ok [OF heap_invD(2) [OF inv] ar(2,1) d(2) a(2) d(1) free_listsD(1) [OF heap_invD(4) [OF inv] d(1)], of "[0..<bpa d]"] all
    by (auto simp: fd_def atLeast0LessThan)
  have run1: "run_used False (mram s) a 1" using heap_invD(5) [OF inv a(1)] by (simp add: page_used_run)
  obtain r where mem: "phys_mem r = memset (phys_mem (mram s)) a 0xCC (PGSIZE * 1)"
    and r: "palloc_free_multiple a 1 (mram s) = Some r" "phys_ok r"
    "\<forall>v q. page_used v r q \<longleftrightarrow> page_used v (mram s) q \<and> \<not> (v = False \<and> q \<in> pages a 1)"
    "\<forall>v q m. run_used v (mram s) q m \<and> (v \<noteq> False \<or> pages q m \<inter> pages a 1 = {}) \<longrightarrow> run_used v r q m"
    "\<forall>v. pool_base (get_pool v r) = pool_base (get_pool v (mram s))"
    using palloc_free_pages [OF heap_invD(1) [OF inv] zero_less_one run1] by auto
  define s' where "s' = s\<lparr>elems := lk, mram := r, arenas := (\<lambda>p. if p \<in> pages a 1
        then \<lparr>magic = 0xCCCCCCCC, owner = None, free_cnt = 0xCCCCCCCC\<rparr> else arenas s p)\<rparr>"
  let ?fl = "fl(d := fd)"
  have rel: "release_pages a 1 (s\<lparr>elems := lk\<rparr>) = Some s'" using r(1) by (simp add: release_pages_def s'_def cong: if_cong)
  have s': "mram s' = r" "descs s' = descs s" "elems s' = lk" "\<And>x. x \<noteq> a \<Longrightarrow> arenas s' x = arenas s x"
    by (simp_all add: s'_def)
  have fd: "blk b d k \<in> set fd \<longleftrightarrow> blk b d k \<in> set (fl d)" if "b \<in> A" "b \<noteq> a" "k < bpa d" for b k
    using blk_inj [OF arena_pageD(1) [OF inv that(1)] ar(1) d(1) that(3)] that(2) unfolding fd_def by auto
  have ls: "lists_ok (A - {a}) ?fl s'"
  proof (rule lists_ok_update [OF heap_invD(4) [OF inv] d(1) s'(2), unfolded s'(3), OF lk(2,3)])
    show "set (cells ?l (map unat (fl d))) \<inter> set (cells (free_list (descs s ! d')) (map unat (fl d'))) = {}"
      if "d' < 7" "d' \<noteq> d" for d' using cells_disjoint [OF inv d(1) that(1)] that(2) by blast
    show "\<exists>b \<in> A - {a}. \<exists>k < bpa d'. owner (arenas s' b) = Some d' \<and> c = blk b d' k" if c: "d' < 7" "d' \<noteq> d" "c \<in> set (fl d')" for d' c
    proof -
      obtain b k where b: "b \<in> A" "k < bpa d'" "owner (arenas s b) = Some d'" "c = blk b d' k"
        using free_listsD(2) [OF heap_invD(4) [OF inv] c(1,3)] by blast
      then have ne: "b \<noteq> a" using a(2) c(2) by auto
      then have "owner (arenas s' b) = Some d'" using b(3) s'(4) by simp
      then show ?thesis using b(1,2,4) ne by blast
    qed
    show "\<exists>b \<in> A - {a}. \<exists>k < bpa d. owner (arenas s' b) = Some d \<and> c = blk b d k" if c: "c \<in> set fd" for c
    proof -
      have c': "c \<in> set (fl d)" "c \<notin> blk a d ` {..<bpa d}" using c by (simp_all add: fd_def)
      obtain b k where b: "b \<in> A" "k < bpa d" "owner (arenas s b) = Some d" "c = blk b d k"
        using free_listsD(2) [OF heap_invD(4) [OF inv] d(1) c'(1)] by blast
      then have ne: "b \<noteq> a" using c'(2) by auto
      then have "owner (arenas s' b) = Some d" using b(3) s'(4) by simp
      then show ?thesis using b(1,2,4) ne by blast
    qed
  qed
  have nB: "b \<noteq> a" if "(b, n) \<in> B" for b n using heap_invD(8) [OF inv that] big_pages(1) [OF inv that] a(1) by blast
  have "heap_ok (A - {a}) B ?fl s'"
  proof (rule heap_invI)
    show "phys_ok (mram s')" using r(2) unfolding s'(1) .
    show "descs_ok s'" using heap_invD(2) [OF inv] unfolding descs_ok_def s'(2) .
    have "pool_base (kernel_pool r) = pool_base (kernel_pool (mram s))" using spec [OF r(5), of False] by (simp add: get_pool_def)
    then show "headers_ok s'" using heap_invD(3) [OF inv] unfolding headers_ok_def s'(1,2) by (simp only:)
    show "lists_ok (A - {a}) ?fl s'" by (rule ls)
    show "page_used False (mram s') b" if "b \<in> A - {a}" for b
      using that heap_invD(5) [OF inv, of b] r(3) unfolding s'(1) by simp
    show "\<exists>e. arena_ok ?fl s' b e \<and> (b \<in> {} \<or> card (free_idx ?fl b e) < bpa e)" if b: "b \<in> A - {a}" for b
    proof -
      obtain e where e: "arena_ok fl s b e" "card (free_idx fl b e) < bpa e" using heap_invD(6) [OF inv, of b] b by blast
      have "free_idx ?fl b e = free_idx fl b e"
      proof (cases "e = d")
        case True
        then show ?thesis using fd b by (auto simp: free_idx_def)
      qed (simp add: free_idx_upd)
      then show ?thesis using e s'(4) [of b] b by (intro exI [of _ e]) (simp add: arena_ok_def)
    qed
    show "big_ok s' b n" if "(b, n) \<in> B" for b n
    proof -
      have "pages b n \<inter> pages a 1 = {}" using heap_invD(8) [OF inv that] a(1) by auto
      then have "run_used False r b n" using r(4) big_pages(5) [OF inv that] by blast
      then show ?thesis using heap_invD(7) [OF inv that] s'(4) [OF nB [OF that]] by (simp add: big_ok_def s'(1))
    qed
    show "pages b n \<inter> (A - {a}) = {}" if "(b, n) \<in> B" for b n using heap_invD(8) [OF inv that] by blast
    show "b = c \<and> n = m" if "(b, n) \<in> B" "(c, m) \<in> B" "pages b n \<inter> pages c m \<noteq> {}" for b n c m
      by (rule heap_invD(9) [OF inv that])
  qed
  moreover have "live (A - {a}) B ?fl s' = live A B fl s"
  proof -
    have "b \<in> A - {a} \<and> owner (arenas s' b) = Some e \<and> k < bpa e \<and> blk b e k \<notin> set (?fl e) \<longleftrightarrow>
        b \<in> A \<and> owner (arenas s b) = Some e \<and> k < bpa e \<and> blk b e k \<notin> set (fl e)" for b e k
    proof (cases "b = a")
      case True
      then show ?thesis using a(2) all by auto
    next
      case False
      then show ?thesis using s'(4) [OF False] fd [of b k] by (cases "e = d") auto
    qed
    then show ?thesis unfolding live_def by (simp only:)
  qed
  moreover have "same_contents (live (A - {a}) B ?fl s') (phys_mem (mram s)) (phys_mem r)"
    unfolding mem
  proof (rule memset_keeps)
    obtain i where i: "unat a = 4096 * i" "i < 2 ^ 20" by (rule page_multiple [OF ar(1)])
    have ok: "pool_ok (get_pool False (mram s))" by (rule phys_ok_pool [OF heap_invD(1) [OF inv]])
    obtain j where "j < bit_cnt (used_map (get_pool False (mram s)))" "a = page_addr (get_pool False (mram s)) j"
      using heap_invD(5) [OF inv a(1)] unfolding page_used_def by blast
    then have lt: "unat a + 4096 < 2 ^ 32"
      using unat_page_addr [OF ok, of j] ok by (simp add: pool_ok_def PGSIZE_def)
    then show "unat a + PGSIZE * 1 \<le> 2 ^ 32" by (simp add: PGSIZE_def)
    show "unat q + n \<le> 2 ^ 32 \<and> (unat q + n \<le> unat a \<or> unat a + PGSIZE * 1 \<le> unat q)"
      if q: "(q, n) \<in> live (A - {a}) B ?fl s'" for q n
    proof -
      have "unat q + n \<le> unat a \<or> unat a + 4096 * 1 \<le> unat q"
        by (rule live_outside [OF \<open>heap_ok (A - {a}) B ?fl s'\<close> ar(1) _ zero_less_one _ _ q])
          (use lt heap_invD(8) [OF inv] a(1) in auto)
      then show ?thesis using live_range(1) [OF \<open>heap_ok (A - {a}) B ?fl s'\<close> q] by (simp add: PGSIZE_def)
    qed
  qed
  ultimately show ?thesis using lk(1) rel s'(1) by metis
qed


lemma free_small:
  assumes inv: "heap_ok A B fl s" and d: "d < 7" and a: "a \<in> A" "owner (arenas s a) = Some d" "k < bpa d" "blk a d k \<notin> set (fl d)"
  shows "\<exists>s' A' fl'. free (blk a d k) s = Some s' \<and> heap_ok A' B fl' s' \<and> live A' B fl' s' = live A B fl s - {(blk a d k, bsz d)} \<and>
    same_contents (live A B fl s - {(blk a d k, bsz d)}) (phys_mem (mram s)) (phys_mem (mram s'))"
proof -
  note ar = arena_pageD [OF inv a(1)]
  let ?b = "blk a d k"
  define s0 where "s0 = s\<lparr>mram := (mram s)\<lparr>phys_mem := memset (phys_mem (mram s)) ?b 0xCC (bsz d)\<rparr>\<rparr>"
  have inv0: "heap_ok A B fl s0" and live0: "live A B fl s0 = live A B fl s"
    unfolding s0_def using heap_inv_mram [OF inv, of "(mram s)\<lparr>phys_mem := memset (phys_mem (mram s)) ?b 0xCC (bsz d)\<rparr>"] heap_invD(1) [OF inv]
    by simp_all
  have s0: "descs s0 = descs s" "arenas s0 = arenas s" "elems s0 = elems s" by (simp_all add: s0_def)
  have l: "(?b, bsz d) \<in> live A B fl s" unfolding live_def using a by blast
  have mem0: "same_contents (live A B fl s - {(?b, bsz d)}) (phys_mem (mram s)) (phys_mem (mram s0))"
  proof -
    have "unat ?b + bsz d \<le> 2 ^ 32" by (rule live_range(1) [OF inv l])
    then have "same_contents (live A B fl s - {(?b, bsz d)}) (phys_mem (mram s)) (memset (phys_mem (mram s)) ?b 0xCC (bsz d))"
      by (rule memset_keeps) (use live_range(1) [OF inv] live_disjoint [OF inv l] in blast)
    then show ?thesis by (simp add: s0_def)
  qed
  obtain d0 where "arena_ok fl s a d0" using heap_invD(6) [OF inv a(1)] by blast
  then have ao: "arena_ok fl s a d" using a(2) by (simp add: arena_ok_def)
  have bta: "block_to_arena ?b s = Some a" by (rule block_to_arena_blk [OF heap_invD(2) [OF inv] ao ar(1,2) a(3)])
  obtain lk where lk: "list_push_front (free_list (descs s ! d)) (unat ?b) (elems s) = Some lk"
    and pb: "let s2 = set_arena a ((arenas s0 a)\<lparr>free_cnt := free_cnt (arenas s0 a) + 1\<rparr>) (s0\<lparr>elems := lk\<rparr>); fl' = fl(d := ?b # fl d) in
      heap_inv {a} A B fl' s2 \<and> owner (arenas s2 a) = Some d \<and> free_cnt (arenas s2 a) = of_nat (card (free_idx fl' a d)) \<and>
      live A B fl' s2 = live A B fl s0 - {(?b, bsz d)}"
    using put_block [OF inv0 d a(1) _ a(3,4)] a(2) unfolding s0 by blast
  define s2 where "s2 = set_arena a ((arenas s0 a)\<lparr>free_cnt := free_cnt (arenas s0 a) + 1\<rparr>) (s0\<lparr>elems := lk\<rparr>)"
  let ?fl = "fl(d := ?b # fl d)"
  have s2: "heap_inv {a} A B ?fl s2" "owner (arenas s2 a) = Some d" "free_cnt (arenas s2 a) = of_nat (card (free_idx ?fl a d))"
    "live A B ?fl s2 = live A B fl s - {(?b, bsz d)}" "descs s2 = descs s" "mram s2 = mram s0"
    using pb unfolding Let_def s2_def [symmetric] live0 by (blast, blast, blast, blast) (simp_all add: s2_def set_arena_def s0)
  have sizes: "unat (desc_block_size (descs s ! d)) = bsz d" "unat (blocks_per_arena (descs s ! d)) = bpa d"
    using descs_okD [OF heap_invD(2) [OF inv] d] d by simp_all
  have b0: "?b \<noteq> 0" by (rule blk_facts(4) [OF ar(1) d a(3)])
  have cnt: "unat (free_cnt (arenas s2 a)) = card (free_idx ?fl a d)"
  proof -
    have "card (free_idx ?fl a d) < 2 ^ 32" using card_free_idx [of ?fl a d] bsz_bounds(4) [OF d] by simp
    then show ?thesis unfolding s2(3) by (simp add: unat_of_nat take_bit_nat_eq_self)
  qed
  have run: "free ?b s = (if blocks_per_arena (descs s ! d) \<le> free_cnt (arenas s2 a)
      then do {
        kassert (free_cnt (arenas s2 a) = blocks_per_arena (descs s ! d));
        s \<leftarrow> remove_blocks a [0..<bpa d] s2;
        release_pages a 1 s }
      else Some s2)"
    using b0 bta a(2) lk
    by (simp add: free_def Let_def sizes s2_def s0_def set_arena_def)
  show ?thesis
  proof (cases "bpa d \<le> card (free_idx ?fl a d)")
    case True
    obtain s1 s' fl' where f: "remove_blocks a [0..<bpa d] s2 = Some s1" "release_pages a 1 s1 = Some s'"
      "heap_ok (A - {a}) B fl' s'" "live (A - {a}) B fl' s' = live A B ?fl s2"
      "same_contents (live A B ?fl s2) (phys_mem (mram s2)) (phys_mem (mram s'))"
      using drop_arena [OF s2(1) a(1) s2(2) True] by blast
    have "unat (free_cnt (arenas s2 a)) = unat (blocks_per_arena (descs s ! d))"
      using True card_free_idx [of ?fl a d] unfolding cnt sizes(2) by simp
    then have "free_cnt (arenas s2 a) = blocks_per_arena (descs s ! d)" by (simp add: word_unat_eq_iff)
    then have "free ?b s = Some s'" unfolding run using f(1,2) by simp
    then show ?thesis using f(3) f(4) [unfolded s2(4)] same_contents_trans [OF mem0 f(5) [unfolded s2(4,6)]] by blast
  next
    case False
    then have "free ?b s = Some s2" unfolding run by (simp add: word_le_nat_alt cnt sizes)
    moreover have "heap_ok A B ?fl s2" using heap_inv_all_but [OF s2(1,2)] False by simp
    ultimately show ?thesis using s2(4) mem0 [folded s2(6)] by blast
  qed
qed

lemma free_big:
  assumes inv: "heap_ok A B fl s" and b: "(a, n) \<in> B"
  shows "\<exists>s'. free (a + sizeof_arena) s = Some s' \<and> heap_ok A (B - {(a, n)}) fl s' \<and>
    live A (B - {(a, n)}) fl s' = live A B fl s - {(a + sizeof_arena, PGSIZE * n - 12)} \<and>
    same_contents (live A B fl s - {(a + sizeof_arena, PGSIZE * n - 12)}) (phys_mem (mram s)) (phys_mem (mram s'))"
proof -
  note bp = big_pages [OF inv b]
  have pa: "a \<noteq> 0" by (rule page_usedD(2) [OF heap_invD(1) [OF inv] bp(2) [OF bp(1)]])
  have h: "arenas s a = \<lparr>magic = ARENA_MAGIC, owner = None, free_cnt = of_nat n\<rparr>" using heap_invD(7) [OF inv b] by (simp add: big_ok_def)
  have pg: "pg_ofs (a + sizeof_arena) = sizeof_arena" "pg_round_down (a + sizeof_arena) = a" "a + sizeof_arena \<noteq> 0"
  proof -
    have "unat sizeof_arena < 4096" by (simp add: sizeof_arena_def)
    note f = page_plus [OF bp(6) this] unat_page_plus [OF bp(6) this]
    show "pg_ofs (a + sizeof_arena) = sizeof_arena" "pg_round_down (a + sizeof_arena) = a" by (rule f)+
    show "a + sizeof_arena \<noteq> 0" using f(3) by (auto simp: sizeof_arena_def unat_eq_0 [symmetric])
  qed
  have cnt: "unat (of_nat n :: u32) = n" using bp(4) by (simp add: unat_of_nat take_bit_nat_eq_self)
  obtain r where mem: "phys_mem r = memset (phys_mem (mram s)) a 0xCC (PGSIZE * n)"
    and r: "palloc_free_multiple a n (mram s) = Some r" "phys_ok r"
    "\<forall>v q. page_used v r q \<longleftrightarrow> page_used v (mram s) q \<and> \<not> (v = False \<and> q \<in> pages a n)"
    "\<forall>v q m. run_used v (mram s) q m \<and> (v \<noteq> False \<or> pages q m \<inter> pages a n = {}) \<longrightarrow> run_used v r q m"
    "\<forall>v. pool_base (get_pool v r) = pool_base (get_pool v (mram s))"
    using palloc_free_pages [OF heap_invD(1) [OF inv] bp(3,5)] by auto
  define s' where "s' = s\<lparr>mram := r, arenas := (\<lambda>p. if p \<in> pages a n
        then \<lparr>magic = 0xCCCCCCCC, owner = None, free_cnt = 0xCCCCCCCC\<rparr> else arenas s p)\<rparr>"
  have run: "free (a + sizeof_arena) s = Some s'"
    using pg pa h r(1) by (simp add: free_def block_to_arena_def Let_def release_pages_def cnt s'_def)
  have s': "mram s' = r" "descs s' = descs s" "elems s' = elems s" "\<And>x. x \<notin> pages a n \<Longrightarrow> arenas s' x = arenas s x"
    by (simp_all add: s'_def)
  have A: "x \<notin> pages a n" if "x \<in> A" for x using heap_invD(8) [OF inv b] that by blast
  have B: "pages c m \<inter> pages a n = {}" if "(c, m) \<in> B - {(a, n)}" for c m using heap_invD(9) [OF inv b, of c m] that by blast
  have "heap_ok A (B - {(a, n)}) fl s'"
  proof (rule heap_invI)
    show "phys_ok (mram s')" using r(2) unfolding s'(1) .
    show "descs_ok s'" using heap_invD(2) [OF inv] unfolding descs_ok_def s'(2) .
    have "pool_base (kernel_pool r) = pool_base (kernel_pool (mram s))" using spec [OF r(5), of False] by (simp add: get_pool_def)
    then show "headers_ok s'" using heap_invD(3) [OF inv] unfolding headers_ok_def s'(1,2) by (simp only:)
    show "lists_ok A fl s'"
      unfolding lists_ok_def s'(2,3)
    proof (intro allI impI conjI ballI)
      fix d :: nat assume d: "d < 7"
      show "list_rep (elems s) (free_list (descs s ! d)) (map unat (fl d))" by (rule free_listsD(1) [OF heap_invD(4) [OF inv] d])
      fix c assume "c \<in> set (fl d)"
      from free_listsD(2) [OF heap_invD(4) [OF inv] d this]
      obtain a' k where x: "a' \<in> A" "k < bpa d" "owner (arenas s a') = Some d" "c = blk a' d k" by blast
      have "owner (arenas s' a') = Some d" using s'(4) [OF A [OF x(1)]] x(3) by simp
      then show "\<exists>a \<in> A. \<exists>k < bpa d. owner (arenas s' a) = Some d \<and> c = blk a d k" using x by blast
    qed
    show "page_used False (mram s') x" if "x \<in> A" for x
      using heap_invD(5) [OF inv that] r(3) A [OF that] unfolding s'(1) by blast
    show "\<exists>d. arena_ok fl s' x d \<and> (x \<in> {} \<or> card (free_idx fl x d) < bpa d)" if "x \<in> A" for x
      using heap_invD(6) [OF inv that] unfolding arena_ok_def s'(4) [OF A [OF that]] .
    show "big_ok s' c m" if "(c, m) \<in> B - {(a, n)}" for c m
    proof -
      have c: "(c, m) \<in> B" using that by blast
      have "run_used False r c m" using r(4) big_pages(5) [OF inv c] B [OF that] by blast
      moreover have "c \<notin> pages a n" using B [OF that] big_pages(1) [OF inv c] by blast
      ultimately show ?thesis using heap_invD(7) [OF inv c] s'(4) [of c] by (simp add: big_ok_def s'(1))
    qed
    show "pages c m \<inter> A = {}" if "(c, m) \<in> B - {(a, n)}" for c m using heap_invD(8) [OF inv] that by blast
    show "c = e \<and> m = k" if "(c, m) \<in> B - {(a, n)}" "(e, k) \<in> B - {(a, n)}" "pages c m \<inter> pages e k \<noteq> {}" for c m e k
      using heap_invD(9) [OF inv, of c m e k] that by blast
  qed
  moreover have "live A (B - {(a, n)}) fl s' = live A B fl s - {(a + sizeof_arena, PGSIZE * n - 12)}"
  proof -
    have "x \<in> A \<and> owner (arenas s' x) = Some d \<and> P \<longleftrightarrow> x \<in> A \<and> owner (arenas s x) = Some d \<and> P" for x d P
      using s'(4) [OF A, of x] by (cases "x \<in> A") simp_all
    then have l: "live A (B - {(a, n)}) fl s' = live A (B - {(a, n)}) fl s" unfolding live_def by (simp only:)
    have "insert (a, n) (B - {(a, n)}) = B" using b by blast
    then have i: "live A B fl s = insert (a + sizeof_arena, PGSIZE * n - 12) (live A (B - {(a, n)}) fl s)"
      using live_insert_big [of A a n "B - {(a, n)}" fl s] by simp
    have "(a + sizeof_arena, PGSIZE * n - 12) \<notin> live A (B - {(a, n)}) fl s"
    proof
      assume "(a + sizeof_arena, PGSIZE * n - 12) \<in> live A (B - {(a, n)}) fl s"
      then consider (s) x d k where "x \<in> A" "owner (arenas s x) = Some d" "k < bpa d" "a + sizeof_arena = blk x d k"
        | (b) x m where "(x, m) \<in> B - {(a, n)}" "a + sizeof_arena = x + sizeof_arena" unfolding live_def by blast
      then show False
      proof cases
        case s
        have "d < 7" using heap_invD(6) [OF inv s(1)] s(2) by (auto simp: arena_ok_def)
        then have "x = a" using blk_facts(2) [OF arena_pageD(1) [OF inv s(1)] _ s(3)] s(4) pg(2) by simp
        then show False using A [OF s(1)] bp(1) by blast
      next
        case b
        then have "x = a" by simp
        then show False using B [OF b(1)] bp(1) big_pages(1) [OF inv, of x m] b(1) by blast
      qed
    qed
    then show ?thesis unfolding l i by blast
  qed
  moreover have "same_contents (live A (B - {(a, n)}) fl s') (phys_mem (mram s)) (phys_mem (mram s'))"
    unfolding s'(1) mem
  proof (rule memset_keeps)
    have lt: "unat a + 4096 * n < 2 ^ 32"
    proof -
      have "(a + sizeof_arena, PGSIZE * n - 12) \<in> live A B fl s" unfolding live_def using b by blast
      from live_cases [OF inv this] show ?thesis
      proof cases
        case (1 x d k)
        then have "x = a" using blk_facts(2) [OF 1(8,3,4)] pg(2) by simp
        then show ?thesis using A [OF 1(1)] bp(1) by blast
      next
        case (2 x m)
        then have "x = a" by simp
        then have "pages x m \<inter> pages a n \<noteq> {}" using big_pages(1) [OF inv 2(1)] bp(1) by blast
        from heap_invD(9) [OF inv 2(1) b this] show ?thesis using 2(7) by simp
      qed
    qed
    then show "unat a + PGSIZE * n \<le> 2 ^ 32" by (simp add: PGSIZE_def)
    show "unat q + m \<le> 2 ^ 32 \<and> (unat q + m \<le> unat a \<or> unat a + PGSIZE * n \<le> unat q)"
      if q: "(q, m) \<in> live A (B - {(a, n)}) fl s'" for q m
    proof -
      have "unat q + m \<le> unat a \<or> unat a + 4096 * n \<le> unat q"
        by (rule live_outside [OF \<open>heap_ok A (B - {(a, n)}) fl s'\<close> bp(6) lt bp(3) _ _ q]) (use A B in blast)+
      then show ?thesis using live_range(1) [OF \<open>heap_ok A (B - {(a, n)}) fl s'\<close> q] by (simp add: PGSIZE_def)
    qed
  qed
  ultimately show ?thesis using run by metis
qed


lemma free_cases:
  assumes inv: "heap_ok A B fl s" and l: "(p, m) \<in> live A B fl s"
  shows "\<exists>s' A' B' fl'. free p s = Some s' \<and> heap_ok A' B' fl' s' \<and> live A' B' fl' s' = live A B fl s - {(p, m)} \<and>
    same_contents (live A B fl s - {(p, m)}) (phys_mem (mram s)) (phys_mem (mram s'))"
proof (cases rule: live_cases [OF inv l])
  case (1 a d k)
  show ?thesis using free_small [OF inv 1(3,1,2,4,5)] unfolding 1(6,7) by blast
next
  case (2 b n)
  show ?thesis using free_big [OF inv 2(1)] unfolding 2(2,3) by blast
qed

lemma malloc_block_size_live:
  assumes inv: "heap_ok A B fl s" and l: "(p, m) \<in> live A B fl s"
  shows "\<exists>z. malloc_block_size p s = Some z \<and> unat z = m"
proof (cases rule: live_cases [OF inv l])
  case (1 a d k)
  obtain d0 where "arena_ok fl s a d0" using heap_invD(6) [OF inv 1(1)] by blast
  then have ao: "arena_ok fl s a d" using 1(2) by (simp add: arena_ok_def)
  have "block_to_arena p s = Some a"
    unfolding 1(6) by (rule block_to_arena_blk [OF heap_invD(2) [OF inv] ao arena_pageD(1,2) [OF inv 1(1)] 1(4)])
  then show ?thesis using 1(2,3,7) descs_okD(2) [OF heap_invD(2) [OF inv] 1(3)] by (simp add: malloc_block_size_def)
next
  case (2 a n)
  note bp = big_pages [OF inv 2(1)]
  have h: "arenas s a = \<lparr>magic = ARENA_MAGIC, owner = None, free_cnt = of_nat n\<rparr>" using heap_invD(7) [OF inv 2(1)] by (simp add: big_ok_def)
  have pa: "a \<noteq> 0" by (rule page_usedD(2) [OF heap_invD(1) [OF inv] bp(2) [OF bp(1)]])
  have pg: "pg_ofs p = sizeof_arena" "pg_round_down p = a"
    unfolding 2(2) using page_plus [OF bp(6), of sizeof_arena] by (simp_all add: sizeof_arena_def)
  then have "block_to_arena p s = Some a" using pa h by (simp add: block_to_arena_def Let_def)
  then have "malloc_block_size p s = Some (of_nat PGSIZE * of_nat n - sizeof_arena)" using h pg by (simp add: malloc_block_size_def)
  moreover have "(of_nat PGSIZE * of_nat n - sizeof_arena :: u32) = of_nat m"
  proof -
    have "(of_nat (4096 * n - 12) :: u32) = of_nat (4096 * n) - of_nat 12" using 2(8) by (intro of_nat_diff) simp
    then show ?thesis by (simp add: 2(3) PGSIZE_def sizeof_arena_def)
  qed
  moreover have "unat (of_nat m :: u32) = m" using 2(6,7) by (simp add: unat_of_nat take_bit_nat_eq_self)
  ultimately show ?thesis by simp
qed

lemma copy_block_copies:
  assumes "unat dst + n \<le> 2 ^ 32" "i < n"
  shows "copy_block dst src n m (dst + of_nat i) = m (src + of_nat i)"
  using block_address [OF assms] assms by (simp add: copy_block_def unat_of_nat take_bit_nat_eq_self)

lemma copy_block_outside:
  assumes "unat dst + n \<le> 2 ^ 32"
    and "\<And>q n'. (q, n') \<in> L \<Longrightarrow> unat q + n' \<le> 2 ^ 32 \<and> (unat q + n' \<le> unat dst \<or> unat dst + n \<le> unat q)"
  shows "same_contents L m (copy_block dst src n m)"
proof (rule same_contentsI)
  fix q n' i assume q: "(q, n') \<in> L" and i: "i < n'"
  have "unat (q + of_nat i) = unat q + i" using block_address assms(2) [OF q] i by blast
  then have "unat (q + of_nat i) < unat dst \<or> unat dst + n \<le> unat (q + of_nat i)" using assms(2) [OF q] i by linarith
  from outside_offset [OF assms(1) this] show "copy_block dst src n m (q + of_nat i) = m (q + of_nat i)" by (simp add: copy_block_def)
qed

lemma realloc_cases:
  assumes inv: "heap_ok A B fl s" and l: "(p, m) \<in> live A B fl s" and n: "n \<noteq> 0" "unat n + 11 < 2 ^ 32" and p: "p \<noteq> 0"
  shows "\<exists>q s' A' B' fl'. realloc p n s = Some (q, s') \<and> heap_ok A' B' fl' s' \<and>
    same_contents (live A B fl s - {(p, m)}) (phys_mem (mram s)) (phys_mem (mram s')) \<and>
    (q = 0 \<and> live A' B' fl' s' = live A B fl s \<and> no_run ((unat n + 4107) div 4096) s \<and> phys_mem (mram s') = phys_mem (mram s) \<or>
     q \<noteq> 0 \<and> (\<exists>k \<ge> unat n. live A' B' fl' s' = insert (q, k) (live A B fl s - {(p, m)}) \<and>
       disjoint_from q k (live A B fl s) \<and>
       (\<forall>i < min (unat n) m. phys_mem (mram s') (q + of_nat i) = phys_mem (mram s) (p + of_nat i))))"
proof -
  let ?L = "live A B fl s"
  obtain q s1 A1 B1 fl1 where m1: "malloc n s = Some (q, s1)" "heap_ok A1 B1 fl1 s1" "phys_mem (mram s1) = phys_mem (mram s)"
    and c: "q = 0 \<and> live A1 B1 fl1 s1 = ?L \<and> no_run ((unat n + 4107) div 4096) s \<or>
      q \<noteq> 0 \<and> (\<exists>k \<ge> unat n. live A1 B1 fl1 s1 = insert (q, k) ?L \<and> disjoint_from q k ?L)"
    using malloc_cases [OF inv n(2)] n(1) by blast
  from c show ?thesis
  proof
    assume q: "q = 0 \<and> live A1 B1 fl1 s1 = ?L \<and> no_run ((unat n + 4107) div 4096) s"
    then have "realloc p n s = Some (q, s1)" using n(1) m1(1) by (simp add: realloc_def)
    then show ?thesis using q m1(2,3) same_contents_refl by metis
  next
    assume "q \<noteq> 0 \<and> (\<exists>k \<ge> unat n. live A1 B1 fl1 s1 = insert (q, k) ?L \<and> disjoint_from q k ?L)"
    then obtain k where q: "q \<noteq> 0" "unat n \<le> k" "live A1 B1 fl1 s1 = insert (q, k) ?L" "disjoint_from q k ?L" by blast
    have lp: "(p, m) \<in> live A1 B1 fl1 s1" and lq: "(q, k) \<in> live A1 B1 fl1 s1" using l q(3) by blast+
    obtain z where z: "malloc_block_size p s1 = Some z" "unat z = m" using malloc_block_size_live [OF m1(2) lp] by blast
    define w where "w = min (unat n) m"
    have w: "unat (if n < z then n else z) = w" using z(2) by (auto simp: w_def word_less_nat_alt)
    define s2 where "s2 = s1\<lparr>mram := (mram s1)\<lparr>phys_mem := copy_block q p w (phys_mem (mram s1))\<rparr>\<rparr>"
    have inv2: "heap_ok A1 B1 fl1 s2" and live2: "live A1 B1 fl1 s2 = live A1 B1 fl1 s1"
      unfolding s2_def
      using heap_inv_mram [OF m1(2), of "(mram s1)\<lparr>phys_mem := copy_block q p w (phys_mem (mram s1))\<rparr>"] heap_invD(1) [OF m1(2)]
      by simp_all
    obtain s3 A3 B3 fl3 where f: "free p s2 = Some s3" "heap_ok A3 B3 fl3 s3" "live A3 B3 fl3 s3 = live A1 B1 fl1 s2 - {(p, m)}"
      "same_contents (live A1 B1 fl1 s2 - {(p, m)}) (phys_mem (mram s2)) (phys_mem (mram s3))"
      using free_cases [OF inv2 lp [folded live2]] by blast
    have run: "realloc p n s = Some (q, s3)" using n(1) m1(1) q(1) p z(1) w f(1) by (simp add: realloc_def Let_def s2_def)
    have ne: "(q, k) \<noteq> (p, m)" "(q, k) \<notin> ?L"
    proof -
      show "(q, k) \<notin> ?L" using q(4) live_range(2) [OF m1(2) lq] by (auto simp: disjoint_from_def)
      then show "(q, k) \<noteq> (p, m)" using l by blast
    qed
    have L3: "live A3 B3 fl3 s3 = insert (q, k) (?L - {(p, m)})" unfolding f(3) live2 q(3) using ne by blast
    have wk: "w \<le> k" using q(2) by (simp add: w_def)
    have rq: "unat q + k \<le> 2 ^ 32" by (rule live_range(1) [OF m1(2) lq])
    have c2: "same_contents ?L (phys_mem (mram s)) (phys_mem (mram s2))"
    proof -
      have "same_contents ?L (phys_mem (mram s1)) (copy_block q p w (phys_mem (mram s1)))"
      proof (rule copy_block_outside)
        show "unat q + w \<le> 2 ^ 32" using rq wk by simp
        show "unat x + y \<le> 2 ^ 32 \<and> (unat x + y \<le> unat q \<or> unat q + w \<le> unat x)" if "(x, y) \<in> ?L" for x y
        proof -
          have "unat q + k \<le> unat x \<or> unat x + y \<le> unat q" using q(4) that unfolding disjoint_from_def by blast
          then show ?thesis using live_range(1) [OF inv that] wk by linarith
        qed
      qed
      then show ?thesis by (simp add: s2_def m1(3))
    qed
    have "same_contents (?L - {(p, m)}) (phys_mem (mram s)) (phys_mem (mram s3))"
      by (rule same_contents_trans [OF same_contents_mono [OF c2] same_contents_mono [OF f(4)]]) (auto simp: live2 q(3))
    moreover have "phys_mem (mram s3) (q + of_nat i) = phys_mem (mram s) (p + of_nat i)" if i: "i < w" for i
    proof -
      have "(q, k) \<in> live A1 B1 fl1 s2 - {(p, m)}" using lq ne unfolding live2 by blast
      then have "phys_mem (mram s3) (q + of_nat i) = phys_mem (mram s2) (q + of_nat i)"
        using same_contentsD [OF f(4)] i wk by simp
      also have "\<dots> = phys_mem (mram s) (p + of_nat i)"
        using copy_block_copies [of q w i] rq wk i by (simp add: s2_def m1(3))
      finally show ?thesis .
    qed
    ultimately show ?thesis using run f(2) q(1,2,4) L3 unfolding w_def by blast
  qed
qed


section \<open>Start-up\<close>

definition init_desc :: "(nat \<Rightarrow> klist) \<Rightarrow> nat \<Rightarrow> desc" where
  "init_desc hdr d = \<lparr>desc_block_size = of_nat (bsz d), blocks_per_arena = of_nat (bpa d), free_list = hdr d\<rparr>"

lemma init_loop_step:
  assumes "d < 7" "length ds = d"
  shows "init_loop hdr (bsz d) ds lk = init_loop hdr (bsz (Suc d)) (ds @ [init_desc hdr d]) (list_init (hdr d) lk)"
proof -
  have "bsz d < PGSIZE div 2" using bsz_bounds(2) [OF assms(1)] by (simp add: PGSIZE_def)
  moreover have "(of_nat PGSIZE - sizeof_arena) div of_nat (bsz d) = (of_nat (bpa d) :: u32)"
    using less_7 [OF assms(1)] by (auto simp: bsz_def bpa_def PGSIZE_def sizeof_arena_def)
  ultimately show ?thesis
    using assms by (subst init_loop.simps) (simp add: init_desc_def bsz_def mult.commute)
qed

lemma init_loop_end: "init_loop hdr (bsz 7) ds lk = Some (ds, lk)"
  by (subst init_loop.simps) (simp add: bsz_def PGSIZE_def)

lemma init_loop_run:
  assumes "d \<le> 7" "length ds = d"
  shows "init_loop hdr (bsz d) ds lk = Some (ds @ map (init_desc hdr) [d..<7], fold (\<lambda>d. list_init (hdr d)) [d..<7] lk)"
  using assms
proof (induction "7 - d" arbitrary: d ds lk)
  case 0
  then have "d = 7" by simp
  then show ?case by (simp add: init_loop_end)
next
  case (Suc x)
  then have d: "d < 7" by simp
  have "init_loop hdr (bsz (Suc d)) (ds @ [init_desc hdr d]) (list_init (hdr d) lk) =
      Some ((ds @ [init_desc hdr d]) @ map (init_desc hdr) [Suc d..<7], fold (\<lambda>d. list_init (hdr d)) [Suc d..<7] (list_init (hdr d) lk))"
    by (rule Suc.hyps(1)) (use Suc.hyps(2) Suc.prems d in auto)
  then show ?case using init_loop_step [OF d Suc.prems(2)] d by (simp add: upt_conv_Cons)
qed

lemma init_lists:
  assumes "distinct ds" "\<And>d. d \<in> set ds \<Longrightarrow> head (hdr d) \<noteq> tail (hdr d) \<and> head (hdr d) \<noteq> NULL \<and> tail (hdr d) \<noteq> NULL"
    and "\<And>d d'. d \<in> set ds \<Longrightarrow> d' \<in> set ds \<Longrightarrow> d \<noteq> d' \<Longrightarrow> {head (hdr d), tail (hdr d)} \<inter> {head (hdr d'), tail (hdr d')} = {}"
    and "d \<in> set ds"
  shows "list_rep (fold (\<lambda>d. list_init (hdr d)) ds lk) (hdr d) []"
  using assms
proof (induction ds arbitrary: lk rule: rev_induct)
  case (snoc e es)
  note i = list_init_rep [of "hdr e" "fold (\<lambda>d. list_init (hdr d)) es lk"]
  show ?case
  proof (cases "d = e")
    case True
    then show ?thesis using i snoc.prems(2) [of e] by simp
  next
    case False
    then have d: "d \<in> set es" using snoc.prems(4) by simp
    have "list_rep (fold (\<lambda>d. list_init (hdr d)) es lk) (hdr d) []"
      by (rule snoc.IH) (use snoc.prems d in auto)
    then show ?thesis
      using list_rep_same_outside [of "fold (\<lambda>d. list_init (hdr d)) es lk" "hdr d" "[]" "{head (hdr e), tail (hdr e)}"]
        i snoc.prems(2) [of e] snoc.prems(3) [of e d] d False by (simp add: cells_def)
  qed
qed simp

text \<open>The elements at the ends of the lists as the linker places them: distinct, not null, and below
  the pages of the kernel pool.\<close>

definition headers_placed :: "(nat \<Rightarrow> klist) \<Rightarrow> phys \<Rightarrow> bool" where
  "headers_placed hdr r \<longleftrightarrow>
     (\<forall>d < 7. head (hdr d) \<noteq> tail (hdr d) \<and> head (hdr d) \<noteq> NULL \<and> tail (hdr d) \<noteq> NULL \<and>
       head (hdr d) < unat (pool_base (kernel_pool r)) \<and> tail (hdr d) < unat (pool_base (kernel_pool r))) \<and>
     (\<forall>d < 7. \<forall>d' < 7. d \<noteq> d' \<longrightarrow> {head (hdr d), tail (hdr d)} \<inter> {head (hdr d'), tail (hdr d')} = {})"

lemma malloc_init_ok:
  assumes "phys_ok (mram s)" "descs s = []" "headers_placed hdr (mram s)"
  shows "\<exists>s'. malloc_init hdr s = Some s' \<and> heap_ok {} {} (\<lambda>_. []) s' \<and> mram s' = mram s"
proof -
  define lk where "lk = fold (\<lambda>d. list_init (hdr d)) [0..<7] (elems s)"
  define s' where "s' = s\<lparr>descs := map (init_desc hdr) [0..<7], elems := lk\<rparr>"
  have "init_loop hdr 16 (descs s) (elems s) = Some (map (init_desc hdr) [0..<7], lk)"
    using init_loop_run [of 0 "[]" hdr "elems s"] by (simp add: lk_def bsz_def assms(2))
  then have run: "malloc_init hdr s = Some s'" by (simp add: malloc_init_def s'_def)
  have desc: "descs s' ! d = init_desc hdr d" if "d < 7" for d using that by (simp add: s'_def)
  have "heap_ok {} {} (\<lambda>_. []) s'"
  proof (rule heap_invI)
    show "phys_ok (mram s')" using assms(1) by (simp add: s'_def)
    show "descs_ok s'" using desc by (simp add: descs_ok_def init_desc_def) (simp add: s'_def)
    show "headers_ok s'" using assms(3) desc unfolding headers_ok_def headers_placed_def
      by (simp add: init_desc_def) (simp add: s'_def)
    have "list_rep lk (hdr d) []" if "d < 7" for d
      unfolding lk_def by (rule init_lists) (use assms(3) that in \<open>auto simp: headers_placed_def\<close>)
    then show "lists_ok {} (\<lambda>_. []) s'" unfolding lists_ok_def using desc by (simp add: init_desc_def) (simp add: s'_def)
  qed simp_all
  then show ?thesis using run by (auto simp: s'_def)
qed


section \<open>Properties\<close>

text \<open>\<open>L\<close> is what the clients of the allocator hold.\<close>

definition heap_holds :: "mstate \<Rightarrow> (u32 \<times> nat) set \<Rightarrow> bool" where
  "heap_holds s L \<longleftrightarrow> (\<exists>A B fl. heap_ok A B fl s \<and> L = live A B fl s)"

lemma heap_holdsI: "heap_ok A B fl s \<Longrightarrow> L = live A B fl s \<Longrightarrow> heap_holds s L"
  by (auto simp: heap_holds_def)

lemma malloc_init_holds:
  assumes "phys_ok (mram s)" "descs s = []" "headers_placed hdr (mram s)"
  shows "\<exists>s'. malloc_init hdr s = Some s' \<and> heap_holds s' {} \<and> mram s' = mram s"
proof -
  obtain s' where s': "malloc_init hdr s = Some s'" "heap_ok {} {} (\<lambda>_. []) s'" "mram s' = mram s" using malloc_init_ok [OF assms] by blast
  have "live {} {} (\<lambda>_. []) s' = {}" by (simp add: live_def)
  then show ?thesis using s' heap_holdsI [OF s'(2)] by simp
qed

definition sample_hdr :: "nat \<Rightarrow> klist" where "sample_hdr d = \<lparr>head = 16 * d + 16, tail = 16 * d + 24\<rparr>"

definition sample_mstate :: mstate where
  "sample_mstate = \<lparr>mram = sample_phys, descs = [], arenas = (\<lambda>_. \<lparr>magic = 0, owner = None, free_cnt = 0\<rparr>),
     elems = \<lparr>nextp = (\<lambda>_. 0), prevp = (\<lambda>_. 0)\<rparr>\<rparr>"

lemma sample_heap:
  "\<exists>s. malloc_init sample_hdr sample_mstate = Some s \<and> heap_holds s {} \<and> mram s = sample_phys"
proof -
  have "headers_placed sample_hdr sample_phys"
    unfolding headers_placed_def sample_hdr_def sample_phys_def sample_pool_def by auto
  then show ?thesis using malloc_init_holds [of sample_mstate sample_hdr] sample_phys_ok by (simp add: sample_mstate_def)
qed

lemma sample_not_full: "mram s = sample_phys \<Longrightarrow> \<not> no_run 1 s"
proof -
  assume s: "mram s = sample_phys"
  have "{2..<2 + 1} = {2 :: nat}" by auto
  then have "{2..<2 + 1} \<inter> marked (used_map (kernel_pool (mram s))) = {}"
    by (simp add: s sample_phys_def sample_pool_def marked_rep [OF sample_bitmap_rep])
  moreover have "2 + 1 \<le> bit_cnt (used_map (kernel_pool (mram s)))"
    by (simp add: s sample_phys_def sample_pool_def sample_bitmap_def)
  ultimately show "\<not> no_run 1 s" unfolding no_run_def by blast
qed

text \<open>A block of 128 bytes in a heap that was empty.\<close>

lemma sample_block:
  "\<exists>s p m. heap_holds s {(p, m)} \<and> p \<noteq> 0 \<and> 100 \<le> m"
proof -
  obtain s where s: "heap_holds s {}" "mram s = sample_phys" using sample_heap by blast
  obtain A B fl where h: "heap_ok A B fl s" "{} = live A B fl s" using s(1) unfolding heap_holds_def by blast
  have "unat (100 :: u32) + 11 < 2 ^ 32" by simp
  from malloc_cases [OF h(1) this] obtain p s' A' B' fl' where "heap_ok A' B' fl' s'"
    and "p = 0 \<and> live A' B' fl' s' = live A B fl s \<and> ((100 :: u32) = 0 \<or> no_run ((unat (100 :: u32) + 4107) div 4096) s) \<or>
     p \<noteq> 0 \<and> (\<exists>m \<ge> unat (100 :: u32). live A' B' fl' s' = insert (p, m) (live A B fl s) \<and> disjoint_from p m (live A B fl s))"
    by (elim exE conjE) (rule that)
  then obtain m where "p \<noteq> 0" "100 \<le> m" "live A' B' fl' s' = {(p, m)}"
    using sample_not_full [OF s(2)] h(2) [symmetric] by auto
  then show ?thesis using heap_holdsI [OF \<open>heap_ok A' B' fl' s'\<close>] by blast
qed

text \<open>C9: \<^verbatim>\<open>malloc\<close> always returns, and either it changes nothing that is allocated and
  returns the null pointer, because 0 bytes were asked for or the kernel pool has no run of pages that
  holds them; or it returns the address of a new block, of at least the size asked for, that overlaps no
  block in use. In no case is the contents of memory changed. The size must leave room for the rounding:
  the next theorem is the other case.\<close>

theorem malloc_returns_fresh_block:
  assumes "heap_holds s L" "unat n + 11 < 2 ^ 32"
  shows "\<exists>p s' L'. malloc n s = Some (p, s') \<and> heap_holds s' L' \<and> phys_mem (mram s') = phys_mem (mram s) \<and>
    (p = 0 \<and> L' = L \<and> (n = 0 \<or> no_run ((unat n + 4107) div 4096) s) \<or>
     p \<noteq> 0 \<and> (\<exists>m \<ge> unat n. L' = insert (p, m) L \<and> disjoint_from p m L))"
proof -
  obtain A B fl where "heap_ok A B fl s" "L = live A B fl s" using assms(1) unfolding heap_holds_def by blast
  then show ?thesis using malloc_cases [OF _ assms(2)] heap_holdsI by metis
qed

theorem malloc_returns_fresh_block_witness:
  "\<exists>s p s' L'. malloc_init sample_hdr sample_mstate = Some s \<and> malloc 100 s = Some (p, s') \<and> heap_holds s' L' \<and>
     (p \<noteq> 0 \<longrightarrow> (\<exists>m \<ge> 100. L' = {(p, m)}))"
proof -
  obtain s where s: "malloc_init sample_hdr sample_mstate = Some s" "heap_holds s {}" using sample_heap by blast
  show ?thesis using malloc_returns_fresh_block [OF s(2), of 100] s(1) by (simp; metis)
qed

text \<open>C12: \<^verbatim>\<open>free\<close> of a block in use always returns. It makes the block unused, and no other; the
  contents of the blocks that stay in use do not change, even when the arena of the block, or the pages of
  a big block, go back to the page allocator.\<close>

theorem free_releases_only_its_block:
  assumes "heap_holds s L" "(p, m) \<in> L"
  shows "\<exists>s'. free p s = Some s' \<and> heap_holds s' (L - {(p, m)}) \<and>
    same_contents (L - {(p, m)}) (phys_mem (mram s)) (phys_mem (mram s'))"
proof -
  obtain A B fl where "heap_ok A B fl s" "L = live A B fl s" using assms(1) unfolding heap_holds_def by blast
  then show ?thesis using free_cases [of A B fl s p m] assms(2) heap_holdsI by metis
qed

theorem free_releases_only_its_block_witness:
  "\<exists>s p m s'. heap_holds s {(p, m)} \<and> free p s = Some s' \<and> heap_holds s' {}"
proof -
  obtain s p m where s: "heap_holds s {(p, m)}" using sample_block by blast
  show ?thesis using free_releases_only_its_block [OF s, of p m] s by auto
qed

text \<open>C20: \<^verbatim>\<open>realloc\<close> of a block in use always returns. When it fails, everything is as before. Otherwise
  the new block has at least the new size, overlaps no block that was in use, and starts with the
  contents of the old one up to the smaller of both sizes; the old block is unused, and the other blocks
  keep their contents.\<close>

theorem realloc_keeps_contents:
  assumes "heap_holds s L" "(p, m) \<in> L" "n \<noteq> 0" "unat n + 11 < 2 ^ 32" "p \<noteq> 0"
  shows "\<exists>q s' L'. realloc p n s = Some (q, s') \<and> heap_holds s' L' \<and>
    same_contents (L - {(p, m)}) (phys_mem (mram s)) (phys_mem (mram s')) \<and>
    (q = 0 \<and> L' = L \<and> no_run ((unat n + 4107) div 4096) s \<and> phys_mem (mram s') = phys_mem (mram s) \<or>
     q \<noteq> 0 \<and> (\<exists>k \<ge> unat n. L' = insert (q, k) (L - {(p, m)}) \<and> disjoint_from q k L \<and>
       (\<forall>i < min (unat n) m. phys_mem (mram s') (q + of_nat i) = phys_mem (mram s) (p + of_nat i))))"
proof -
  obtain A B fl where "heap_ok A B fl s" "L = live A B fl s" using assms(1) unfolding heap_holds_def by blast
  then show ?thesis using realloc_cases [of A B fl s p m n] assms(2-5) heap_holdsI by metis
qed

theorem realloc_keeps_contents_witness:
  "\<exists>s p m q s'. heap_holds s {(p, m)} \<and> 100 \<le> m \<and> realloc p 200 s = Some (q, s') \<and>
     (q \<noteq> 0 \<longrightarrow> phys_mem (mram s') (q + of_nat 99) = phys_mem (mram s) (p + of_nat 99))"
proof -
  obtain s p m where s: "heap_holds s {(p, m)}" "p \<noteq> 0" "100 \<le> m" using sample_block by blast
  have "\<exists>q s'. realloc p 200 s = Some (q, s') \<and>
     (q \<noteq> 0 \<longrightarrow> phys_mem (mram s') (q + of_nat 99) = phys_mem (mram s) (p + of_nat 99))"
    using realloc_keeps_contents [OF s(1) _ _ _ s(2), of m 200] s(3) by (simp del: of_nat_numeral; elim exE conjE disjE; auto simp del: of_nat_numeral)
  then show ?thesis using s by blast
qed

text \<open>For the sizes that the theorem on \<^verbatim>\<open>malloc\<close> leaves out, the number of pages wraps around to one:
  a block of 4084 bytes is returned for a request of 4 GB.\<close>

lemma malloc_huge_runs:
  assumes inv: "heap_ok A B fl s" and n: "2 ^ 32 \<le> unat n + 11" and free: "\<not> no_run 1 s"
  shows "\<exists>p s' B'. malloc n s = Some (p, s') \<and> p \<noteq> 0 \<and> heap_ok A B' fl s' \<and>
    live A B' fl s' = insert (p, 4084) (live A B fl s)"
proof -
  have d: "find_desc (descs s) n = length (descs s)" "n \<noteq> 0" using find_desc_fits(1) [OF heap_invD(2) [OF inv], of n] n by auto
  have "(of_nat (unat n + 4107 - 2 ^ 32) :: u32) = of_nat (unat n + 4107) - of_nat (2 ^ 32)" using n by (intro of_nat_diff) simp
  then have "n + sizeof_arena + of_nat PGSIZE - 1 = (of_nat (unat n + 4107 - 2 ^ 32) :: u32)"
    by (simp add: sizeof_arena_def PGSIZE_def)
  then have "unat (n + sizeof_arena + of_nat PGSIZE - 1) = unat n + 4107 - 2 ^ 32"
    using u32_bound [of n] by (simp add: unat_of_nat take_bit_nat_eq_self)
  moreover have "(unat n + 4107 - 2 ^ 32) div 4096 = 1" using n u32_bound [of n] by simp
  ultimately have k: "unat (DIV_ROUND_UP (n + sizeof_arena) (of_nat PGSIZE)) = 1"
    by (simp add: DIV_ROUND_UP_def unat_div PGSIZE_def)
  then have ck: "DIV_ROUND_UP (n + sizeof_arena) (of_nat PGSIZE) = of_nat 1" by (simp add: word_unat_eq_iff)
  have z: "(0 :: u32) AND PAL_ASSERT = 0" "False = ((0 :: u32) AND PAL_USER \<noteq> 0)" by simp_all
  show ?thesis
  proof (rule palloc_get_pages [OF heap_invD(1) [OF inv] zero_less_one z])
    assume "\<forall>i. i + 1 \<le> bit_cnt (used_map (get_pool False (mram s))) \<longrightarrow> {i..<i + 1} \<inter> marked (used_map (get_pool False (mram s))) \<noteq> {}"
    then show ?thesis using free by (simp add: no_run_def get_pool_def)
  next
    fix a r assume found: "palloc_get_multiple 0 1 (mram s) = Some (a, r)" "phys_ok r" "a \<noteq> 0"
      "run_used False r a 1" "\<forall>q \<in> pages a 1. \<not> page_used False (mram s) q"
      "\<forall>v q. page_used v r q \<longleftrightarrow> page_used v (mram s) q \<or> v = False \<and> q \<in> pages a 1"
      "\<forall>v q m. run_used v (mram s) q m \<longrightarrow> run_used v r q m"
      "\<forall>v. pool_base (get_pool v r) = pool_base (get_pool v (mram s))"
    let ?s = "set_arena a \<lparr>magic = ARENA_MAGIC, owner = None, free_cnt = of_nat 1\<rparr> (s\<lparr>mram := r\<rparr>)"
    have base: "pool_base (kernel_pool r) = pool_base (kernel_pool (mram s))"
      using spec [OF found(8), of False] by (simp add: get_pool_def)
    have "malloc n s = Some (a + sizeof_arena, ?s)"
      using d found(1,3) k ck by (simp add: malloc_def Let_def)
    moreover note add_big [OF inv zero_less_one found(5,4,2) _ _ base refl]
    ultimately show ?thesis using found(6,7) by (simp add: PGSIZE_def) blast
  qed
qed

text \<open>\<^verbatim>\<open>malloc\<close> of one of the eleven greatest sizes, whose sum with the size of the header
  and the rounding wraps around, does not fail as it should: it returns a block of 4084 bytes.\<close>

theorem malloc_size_wraps:
  assumes "heap_holds s L" "2 ^ 32 \<le> unat n + 11" "\<not> no_run 1 s"
  shows "\<exists>p s'. malloc n s = Some (p, s') \<and> p \<noteq> 0 \<and> heap_holds s' (insert (p, 4084) L)"
proof -
  obtain A B fl where "heap_ok A B fl s" "L = live A B fl s" using assms(1) unfolding heap_holds_def by blast
  then show ?thesis using malloc_huge_runs [OF _ assms(2,3)] heap_holdsI by metis
qed

theorem malloc_size_wraps_witness:
  "\<exists>s p s'. malloc 0xFFFFFFFF s = Some (p, s') \<and> heap_holds s' {(p, 4084)}"
proof -
  obtain s where s: "heap_holds s {}" "mram s = sample_phys" using sample_heap by blast
  show ?thesis using malloc_size_wraps [OF s(1) _ sample_not_full [OF s(2)], where n = "0xFFFFFFFF"] by auto
qed

text \<open>The test of \<^verbatim>\<open>calloc\<close> does not notice every product that wraps around.\<close>

lemma calloc_product_wraps:
  "calloc 0x10001 0x10001 s = do {
     (p, s) \<leftarrow> malloc 0x20001 s;
     Some (p, if p \<noteq> 0 then s\<lparr>mram := (mram s)\<lparr>phys_mem := memset (phys_mem (mram s)) p 0 0x20001\<rparr>\<rparr> else s) }"
proof -
  have e: "(0x10001 * 0x10001 :: u32) = 0x20001" by code_simp
  show ?thesis unfolding calloc_def e by (simp cong: if_cong)
qed

end
