(* ===== verification/Fileman.thy ===== *)
theory Fileman
  imports Prelude
begin

text \<open>
  The file manager, \<^verbatim>\<open>Assignment6/fileman.c\<close>, on a file system that is a map from names to bytes and
  a tree of directories. A stream that is read is the list of its remaining bytes. \<^verbatim>\<open>fgetc\<close> returns an
  \<^verbatim>\<open>int\<close>, which the program stores in a \<^verbatim>\<open>char\<close>: \<open>as_char\<close> is that conversion. \<open>None\<close> is undefined
  behaviour: a null stream, or an access outside of an array.
\<close>

type_synonym size = "64 word"

text \<open>\<open>creatable\<close> tells which names \<^verbatim>\<open>fopen\<close> can create or truncate.\<close>

record cfiles =
  contents :: "string \<Rightarrow> byte list option"
  creatable :: "string \<Rightarrow> bool"

section \<open>What the program uses of the C library\<close>

definition EOF :: int where "EOF = -1"

fun fgetc :: "byte list \<Rightarrow> int \<times> byte list" where
  "fgetc [] = (EOF, [])"
| "fgetc (b # r) = (uint b, r)"

definition as_char :: "int \<Rightarrow> int" where "as_char i = sint (word_of_int i :: byte)"

text \<open>Writing at an offset fills the gap before it with zeros; writing nothing leaves the file as it is.\<close>

definition fwrite_at :: "nat \<Rightarrow> byte list \<Rightarrow> byte list \<Rightarrow> byte list" where
  "fwrite_at pos bs f = (if bs = [] then f
     else take pos (f @ replicate (pos - length f) 0) @ bs @ drop (pos + length bs) f)"

section \<open>Files\<close>

text \<open>The first loop of \<^verbatim>\<open>fileman_read\<close>, given the rounds that are left.\<close>

fun skip_loop :: "nat \<Rightarrow> int \<Rightarrow> byte list \<Rightarrow> int \<times> byte list" where
  "skip_loop 0 c r = (c, r)"
| "skip_loop (Suc n) c r = (if c = EOF then (c, r) else (let (i, r) = fgetc r in skip_loop n (as_char i) r))"

fun fetch_loop :: "nat \<Rightarrow> nat \<Rightarrow> nat \<Rightarrow> int \<Rightarrow> byte list \<Rightarrow> byte list \<Rightarrow> (nat \<times> byte list) option" where
  "fetch_loop 0 ind boffset c r buf = Some (ind, buf)"
| "fetch_loop (Suc n) ind boffset c r buf =
     (if c = EOF then Some (ind, buf)
      else do {
        kassert (boffset + ind < length buf);
        let (i, r') = fgetc r in
          fetch_loop n (Suc ind) boffset (as_char i) r' (buf[boffset + ind := word_of_int c]) })"

definition fileman_read :: "string \<Rightarrow> nat \<Rightarrow> byte list \<Rightarrow> nat \<Rightarrow> nat \<Rightarrow> cfiles \<Rightarrow> (size \<times> byte list) option" where
  "fileman_read fname foffset buf boffset sz st = (case contents st fname of
     None \<Rightarrow> Some (-1, buf)
   | Some f \<Rightarrow> do {
       let (i, r) = fgetc f;
       let (c, r) = skip_loop foffset (as_char i) r;
       (ind, buf) \<leftarrow> fetch_loop sz 0 boffset c r buf;
       Some (of_nat ind, buf) })"

text \<open>An offset that is no \<^verbatim>\<open>long\<close> makes \<^verbatim>\<open>fseek\<close> fail.\<close>

definition fileman_write :: "string \<Rightarrow> nat \<Rightarrow> byte list \<Rightarrow> nat \<Rightarrow> nat \<Rightarrow> cfiles \<Rightarrow> (size \<times> cfiles) option" where
  "fileman_write fname foffset buf boffset sz st =
     (if contents st fname \<noteq> None then Some (-1, st)
      else do {
        kassert (creatable st fname);
        let st = st\<lparr>contents := (contents st)(fname \<mapsto> [])\<rparr>;
        if foffset \<ge> 2 ^ 63 then Some (-1, st)
        else do {
          kassert (boffset + sz \<le> length buf);
          let bs = take sz (drop boffset buf);
          Some (of_nat (length bs), st\<lparr>contents := (contents st)(fname \<mapsto> fwrite_at foffset bs [])\<rparr>) } })"

definition fileman_append :: "string \<Rightarrow> byte list \<Rightarrow> nat \<Rightarrow> cfiles \<Rightarrow> (size \<times> cfiles) option" where
  "fileman_append fname buf sz st = (case contents st fname of
     None \<Rightarrow> Some (-1, st)
   | Some f \<Rightarrow> do {
       kassert (sz \<le> length buf);
       let bs = take sz buf;
       Some (of_nat (length bs), st\<lparr>contents := (contents st)(fname \<mapsto> fwrite_at (length f) bs f)\<rparr>) })"

text \<open>The loop of \<^verbatim>\<open>fileman_copy\<close>: what it writes and what is left of the source.\<close>

function copy_loop :: "int \<Rightarrow> byte list \<Rightarrow> byte list \<times> byte list" where
  "copy_loop c r = (if c = EOF then ([], r)
     else (let (i, r) = fgetc r; (w, r) = copy_loop (as_char i) r in (word_of_int c # w, r)))"
  by pat_completeness auto

lemma as_char_EOF [simp]: "as_char EOF = EOF"
  by (simp add: as_char_def EOF_def)

termination copy_loop
proof (relation "measure (\<lambda>(c, r). length r + (if c = EOF then 0 else 1))")
  fix c r x i r' assume "c \<noteq> EOF" "x = fgetc r" "(i, r') = x"
  then show "((as_char i, r'), c, r) \<in> measure (\<lambda>(c, r). length r + (if c = EOF then 0 else 1))"
    by (cases r) auto
qed simp

declare copy_loop.simps [simp del]

definition fileman_copy :: "string \<Rightarrow> string \<Rightarrow> cfiles \<Rightarrow> (size \<times> cfiles) option" where
  "fileman_copy fsrc fdest st = (case contents st fsrc of
     None \<Rightarrow> Some (-1, st)
   | Some f \<Rightarrow>
       if contents st fdest \<noteq> None then Some (-1, st)
       else do {
         kassert (creatable st fdest);
         let (i, r) = fgetc f;
         let (w, r) = copy_loop (as_char i) r;
         let g = length f - length r;
         Some (of_nat g, st\<lparr>contents := (contents st)(fdest \<mapsto> w)\<rparr>) })"

section \<open>Directories\<close>

text \<open>\<open>scan path\<close> is the sorted array of \<^verbatim>\<open>scandir\<close>, or \<open>None\<close> for its error. The loops run until they
  find a null pointer after the last entry, although no word of the array is one: \<open>null_after path\<close>
  tells whether the word of memory there happens to be null.\<close>

record dirs =
  scan :: "string \<Rightarrow> string list option"
  null_after :: "string \<Rightarrow> bool"

text \<open>The body of a loop for each element, with the state that it changes.\<close>

primrec each :: "('a \<Rightarrow> 's \<Rightarrow> 's option) \<Rightarrow> 'a list \<Rightarrow> 's \<Rightarrow> 's option" where
  "each f [] s = Some s"
| "each f (x # xs) s = f x s \<bind> each f xs"

lemma each_mono [partial_function_mono]:
  assumes "\<And>x s. mono_option (\<lambda>f. B f x s)"
  shows "mono_option (\<lambda>f. each (B f) xs s)"
proof (induction xs arbitrary: s)
  case Nil
  show ?case by (simp add: option.const_mono)
next
  case (Cons x xs)
  show ?case unfolding each.simps by (rule bind_mono [OF assms Cons.IH])
qed

definition TEE :: string where "TEE = [CHR 0xE2, CHR 0x94, CHR 0x9C]"
definition HOR :: string where "HOR = [CHR 0xE2, CHR 0x94, CHR 0x80]"
definition VER :: string where "VER = [CHR 0xE2, CHR 0x94, CHR 0x82]"
definition ELB :: string where "ELB = [CHR 0xE2, CHR 0x94, CHR 0x94]"
definition spaces :: string where "spaces = ''    ''"
definition newl :: string where "newl = [CHR 0x0A]"

definition PATH_SIZE :: nat where "PATH_SIZE = 4096"

text \<open>The path of a directory entry, in an array of \<open>PATH_SIZE\<close> bytes.\<close>

definition entry_path :: "string \<Rightarrow> nat \<Rightarrow> string \<Rightarrow> string option" where
  "entry_path prev deep dname = do {
     let thiscp = prev @ (if deep \<noteq> 0 then ''/'' else '''') @ dname;
     kassert (length thiscp < PATH_SIZE);
     Some thiscp }"

partial_function (option) file_rec :: "dirs \<Rightarrow> string \<Rightarrow> nat \<Rightarrow> string \<Rightarrow> string \<Rightarrow> string option" where
  "file_rec d dname deep prev out = do {
     let out = out @ concat (replicate deep spaces) @ dname @ newl;
     thiscp \<leftarrow> entry_path prev deep dname;
     case scan d thiscp of
       None \<Rightarrow> Some out
     | Some dir_ls \<Rightarrow> do {
         kassert (2 \<le> length dir_ls \<and> null_after d thiscp);
         each (\<lambda>ind out. file_rec d (dir_ls ! ind) (deep + 1) thiscp out) [2..<length dir_ls] out } }"

definition fileman_dir :: "dirs \<Rightarrow> string \<Rightarrow> string option" where
  "fileman_dir d dname = file_rec d dname 0 '''' ''''"

text \<open>The three labels of \<^verbatim>\<open>fileman_tree\<close> are global arrays.\<close>

record labels =
  cap :: string
  end_label :: string
  spaces2 :: string

definition indent :: "labels \<Rightarrow> nat list \<Rightarrow> nat \<Rightarrow> string" where
  "indent lb dn deep = concat (map (\<lambda>i. if dn ! i = 0 then spaces2 lb else spaces) [0..<deep - 1])"

partial_function (option) file_rec2 ::
    "dirs \<Rightarrow> labels \<Rightarrow> string \<Rightarrow> nat \<Rightarrow> string \<Rightarrow> nat \<Rightarrow> string \<times> nat list \<Rightarrow> (string \<times> nat list) option" where
  "file_rec2 d lb dname deep prev cap_type s = do {
     let (out, dn) = s;
     kassert (deep - 1 \<le> length dn);
     let out = out @ indent lb dn deep @ (if deep > 0 then if cap_type = 0 then cap lb else end_label lb else '''') @ dname @ newl;
     thiscp \<leftarrow> entry_path prev deep dname;
     case scan d thiscp of
       None \<Rightarrow> Some (out, dn)
     | Some dir_ls \<Rightarrow> do {
         kassert (2 \<le> length dir_ls \<and> null_after d thiscp);
         each (\<lambda>ind (out, dn). do {
           kassert (deep < length dn);
           let is_last = (if ind + 1 = length dir_ls then 1 else 0);
           file_rec2 d lb (dir_ls ! ind) (deep + 1) thiscp is_last (out, dn[deep := is_last]) }) [2..<length dir_ls] (out, dn) } }"

text \<open>\<^verbatim>\<open>strcpy\<close> and \<^verbatim>\<open>strcat\<close> into an array of the given size; \<open>dn\<close> is the array of a thousand flags,
  which has no initial values.\<close>

definition str_put :: "nat \<Rightarrow> string \<Rightarrow> string option" where
  "str_put n s = do { kassert (length s < n); Some s }"

definition fileman_tree :: "dirs \<Rightarrow> nat list \<Rightarrow> string \<Rightarrow> string option" where
  "fileman_tree d dn dname = do {
     c \<leftarrow> str_put 10 TEE;
     c \<leftarrow> str_put 10 (c @ HOR);
     c \<leftarrow> str_put 10 (c @ HOR);
     c \<leftarrow> str_put 10 (c @ '' '');
     e \<leftarrow> str_put 10 ELB;
     e \<leftarrow> str_put 10 (e @ HOR);
     e \<leftarrow> str_put 10 (e @ HOR);
     e \<leftarrow> str_put 10 (e @ '' '');
     v \<leftarrow> str_put 6 VER;
     v \<leftarrow> str_put 6 (v @ ''   '');
     (out, dn) \<leftarrow> file_rec2 d \<lparr>cap = c, end_label = e, spaces2 = v\<rparr> dname 0 '''' 0 ('''', dn);
     Some out }"

section \<open>What the operations do to the contents\<close>

text \<open>The byte \<open>0xff\<close> is read as the end of the file. \<open>readable\<close> is what is left of a file.\<close>

definition readable :: "byte list \<Rightarrow> byte list" where "readable f = takeWhile (\<lambda>b. b \<noteq> 0xFF) f"

lemma char_of_byte: "as_char (uint b) = sint (b :: byte)"
  by (simp add: as_char_def)

lemma char_is_EOF: "sint (b :: byte) = EOF \<longleftrightarrow> b = 0xFF"
proof
  assume "sint b = EOF"
  then have "word_of_int (sint b) = (word_of_int (- 1) :: byte)" by (simp add: EOF_def)
  then show "b = 0xFF" by simp
qed (simp add: EOF_def)

text \<open>The variable \<open>c\<close> holds the next byte of the file or the end mark.\<close>

definition next_char :: "byte list \<Rightarrow> int" where "next_char f = as_char (fst (fgetc f))"

lemma next_char_simps [simp]: "next_char [] = EOF" "next_char (b # f) = sint b"
  by (simp_all add: next_char_def char_of_byte)

text \<open>Each loop reads the next character as its last action.\<close>

lemma fgetc_next:
  obtains i where "fgetc f = (i, tl f)" "as_char i = next_char f"
  by (cases f) (simp_all add: next_char_def)

lemma next_char_EOF: "next_char f = EOF \<longleftrightarrow> readable f = []"
  by (cases f) (auto simp: readable_def char_is_EOF)

lemma skip_loop_run:
  "\<exists>f'. skip_loop n (next_char f) (tl f) = (next_char f', tl f') \<and> readable f' = drop n (readable f)"
proof (induction n arbitrary: f)
  case 0
  then show ?case by (intro exI [of _ f]) simp
next
  case (Suc n)
  show ?case
  proof (cases f)
    case Nil
    then show ?thesis by (intro exI [of _ "[]"]) (simp add: readable_def)
  next
    case (Cons b g)
    show ?thesis
    proof (cases "b = 0xFF")
      case True
      then show ?thesis using Cons by (intro exI [of _ f]) (simp add: readable_def EOF_def)
    next
      case False
      have "skip_loop (Suc n) (next_char f) (tl f) = skip_loop n (next_char g) (tl g)"
        using False Cons by (rule_tac fgetc_next [of g]) (simp add: char_is_EOF)
      then show ?thesis using Suc.IH [of g] False Cons by (simp add: readable_def)
    qed
  qed
qed

lemma fetch_loop_run:
  assumes "boffset + ind + length (take n (readable f)) \<le> length buf"
  shows "fetch_loop n ind boffset (next_char f) (tl f) buf =
    Some (ind + length (take n (readable f)),
      take (boffset + ind) buf @ take n (readable f) @ drop (boffset + ind + length (take n (readable f))) buf)"
  using assms
proof (induction n arbitrary: ind f buf)
  case (Suc n)
  show ?case
  proof (cases "readable f = []")
    case True
    then show ?thesis using next_char_EOF [of f] by simp
  next
    case False
    then obtain b g where f: "f = b # g" "b \<noteq> 0xFF" by (cases f) (auto simp: readable_def split: if_splits)
    then have rd: "readable f = b # readable g" by (simp add: readable_def)
    let ?buf = "buf[boffset + ind := b]"
    have len: "boffset + Suc ind + length (take n (readable g)) \<le> length ?buf" using Suc.prems rd by simp
    have lt: "boffset + ind < length buf" using Suc.prems rd by simp
    obtain i where i: "fgetc g = (i, tl g)" "as_char i = next_char g" by (rule fgetc_next)
    have "fetch_loop (Suc n) ind boffset (next_char f) (tl f) buf = fetch_loop n (Suc ind) boffset (next_char g) (tl g) ?buf"
      using f lt i by (simp add: char_is_EOF)
    also note Suc.IH [OF len]
    also have "take (boffset + Suc ind) ?buf = take (boffset + ind) buf @ [b]"
      using lt by (simp add: take_Suc_conv_app_nth)
    finally show ?thesis using rd by (simp add: drop_update_cancel)
  qed
qed simp

lemma copy_loop_run:
  "copy_loop (next_char f) (tl f) = (readable f, drop (Suc (length (readable f))) f)"
proof (induction f)
  case Nil
  then show ?case by (subst copy_loop.simps) (simp add: readable_def)
next
  case (Cons b g)
  show ?case
  proof (cases "b = 0xFF")
    case True
    then show ?thesis by (subst copy_loop.simps) (simp add: readable_def EOF_def)
  next
    case False
    obtain i where "fgetc g = (i, tl g)" "as_char i = next_char g" by (rule fgetc_next)
    then show ?thesis using Cons False by (subst copy_loop.simps) (simp add: readable_def char_is_EOF)
  qed
qed

lemma fileman_read_readable:
  assumes "contents st fname = Some f" "boffset + length (take sz (drop foffset (readable f))) \<le> length buf"
  defines "bs \<equiv> take sz (drop foffset (readable f))"
  shows "fileman_read fname foffset buf boffset sz st =
    Some (of_nat (length bs), take boffset buf @ bs @ drop (boffset + length bs) buf)"
proof -
  obtain f' where f': "skip_loop foffset (next_char f) (tl f) = (next_char f', tl f')" "readable f' = drop foffset (readable f)"
    using skip_loop_run by blast
  have "fetch_loop sz 0 boffset (next_char f') (tl f') buf = Some (length bs, take boffset buf @ bs @ drop (boffset + length bs) buf)"
    using fetch_loop_run [of boffset 0 sz f' buf] assms(2) by (simp add: f'(2) bs_def)
  moreover obtain i where "fgetc f = (i, tl f)" "as_char i = next_char f" by (rule fgetc_next)
  ultimately show ?thesis using assms(1) f'(1) by (simp add: fileman_read_def Let_def)
qed


section \<open>What the directory listings print\<close>

text \<open>A directory as a tree, and the tree as the program finds it below a path.\<close>

datatype node = Reg | Dir "(string \<times> node) list"

lemma node_size [termination_simp]: "e \<in> set es \<Longrightarrow> size (snd e) < Suc (size_list (\<lambda>x. Suc (size (snd x))) es)"
  by (induction es) auto

fun reflects :: "dirs \<Rightarrow> string \<Rightarrow> node \<Rightarrow> bool" where
  "reflects d path Reg \<longleftrightarrow> length path < PATH_SIZE \<and> scan d path = None"
| "reflects d path (Dir es) \<longleftrightarrow> length path < PATH_SIZE \<and> scan d path = Some (''.'' # ''..'' # map fst es) \<and> null_after d path \<and>
     (\<forall>e \<in> set es. reflects d (path @ ''/'' @ fst e) (snd e))"

fun listing :: "nat \<Rightarrow> string \<Rightarrow> node \<Rightarrow> string" where
  "listing deep name Reg = concat (replicate deep spaces) @ name @ newl"
| "listing deep name (Dir es) = concat (replicate deep spaces) @ name @ newl @
     concat (map (\<lambda>e. listing (Suc deep) (fst e) (snd e)) es)"

lemma each_append: "each f (xs @ ys) s = each f xs s \<bind> each f ys"
  by (induction xs arbitrary: s) (simp_all split: Option.bind_split)

text \<open>The loops over the entries behind the first two.\<close>

lemma each_entries:
  assumes "\<And>i s. i < length es \<Longrightarrow> f (i + 2) (g i s) = Some (g (Suc i) s)"
  shows "each f [2..<length (a # b # map fst es)] (g 0 s) = Some (g (length es) s)"
proof -
  have "each f (map (\<lambda>i. i + 2) [0..<m]) (g 0 s) = Some (g m s)" if "m \<le> length es" for m
    using that
  proof (induction m)
    case (Suc m)
    then show ?case using assms [of m s] by (simp add: each_append)
  qed simp
  moreover have "[2..<length (a # b # map fst es)] = map (\<lambda>i. i + 2) [0..<length es]"
    using map_add_upt [of 2 "length es"] by (simp del: upt_Suc)
  ultimately show ?thesis by (simp del: upt_Suc)
qed

lemma file_rec_listing:
  "reflects d path t \<Longrightarrow> path = prev @ (if deep \<noteq> 0 then ''/'' else '''') @ name \<Longrightarrow>
   file_rec d name deep prev out = Some (out @ listing deep name t)"
proof (induction t arbitrary: path name deep prev out)
  case Reg
  then show ?case by (subst file_rec.simps) (simp add: entry_path_def)
next
  case (Dir es)
  let ?g = "\<lambda>i out. out @ concat (map (\<lambda>e. listing (Suc deep) (fst e) (snd e)) (take i es))"
  have step: "file_rec d ((''.'' # ''..'' # map fst es) ! (i + 2)) (deep + 1) path (?g i s) = Some (?g (Suc i) s)"
    if i: "i < length es" for i s
  proof -
    have e: "es ! i \<in> set es" "(fst (es ! i), snd (es ! i)) \<in> set es" using i by simp_all
    have "reflects d (path @ ''/'' @ fst (es ! i)) (snd (es ! i))" using Dir.prems(1) e(1) by simp
    from Dir.IH [OF e(1) _ this] have "file_rec d (fst (es ! i)) (deep + 1) path (?g i s) =
      Some (?g i s @ listing (deep + 1) (fst (es ! i)) (snd (es ! i)))" by (simp add: snds.intros)
    then show ?thesis using i by (simp add: take_Suc_conv_app_nth)
  qed
  have "each (\<lambda>ind out. file_rec d ((''.'' # ''..'' # map fst es) ! ind) (deep + 1) path out)
      [2..<length (''.'' # ''..'' # map fst es)] (?g 0 s) = Some (?g (length es) s)" for s
    by (rule each_entries [where g = ?g]) (rule step)
  then show ?case using Dir.prems by (subst file_rec.simps) (simp add: entry_path_def del: upt_Suc)
qed


text \<open>The drawing of a tree, as one recursion: \<open>fl\<close> says for every directory above whether the entry on
  the way is its last one.\<close>

definition prefix_of :: "labels \<Rightarrow> bool list \<Rightarrow> string" where
  "prefix_of lb fl = concat (map (\<lambda>l. if l then spaces else spaces2 lb) (butlast fl)) @
     (if fl = [] then '''' else if last fl then end_label lb else cap lb)"

lemma node_size_nth [termination_simp]: "i < length es \<Longrightarrow> size (snd (es ! i)) < Suc (size_list (\<lambda>x. Suc (size (snd x))) es)"
  by (rule node_size) simp

fun drawing :: "labels \<Rightarrow> bool list \<Rightarrow> string \<Rightarrow> node \<Rightarrow> string" where
  "drawing lb fl name Reg = prefix_of lb fl @ name @ newl"
| "drawing lb fl name (Dir es) = prefix_of lb fl @ name @ newl @
     concat (map (\<lambda>i. drawing lb (fl @ [i + 1 = length es]) (fst (es ! i)) (snd (es ! i))) [0..<length es])"

text \<open>The tree is not deeper than the array of flags.\<close>

fun fits :: "nat \<Rightarrow> nat \<Rightarrow> node \<Rightarrow> bool" where
  "fits n deep Reg \<longleftrightarrow> deep \<le> n"
| "fits n deep (Dir es) \<longleftrightarrow> deep \<le> n \<and> (\<forall>e \<in> set es. fits n (Suc deep) (snd e))"

lemma fitsD: "fits n deep t \<Longrightarrow> deep \<le> n"
  by (cases t) simp_all

definition flags_in :: "bool list \<Rightarrow> nat list \<Rightarrow> bool" where
  "flags_in fl dn \<longleftrightarrow> length fl \<le> length dn \<and> (\<forall>i < length fl. dn ! i = (if fl ! i then 1 else 0))"

lemma indent_flags:
  assumes "flags_in fl dn"
  shows "indent lb dn (length fl) = concat (map (\<lambda>l. if l then spaces else spaces2 lb) (butlast fl))"
proof -
  have "map (\<lambda>i. if dn ! i = 0 then spaces2 lb else spaces) [0..<length fl - 1] =
      map (\<lambda>l. if l then spaces else spaces2 lb) (butlast fl)"
    using assms by (intro nth_equalityI) (auto simp: flags_in_def nth_butlast)
  then show ?thesis by (simp add: indent_def)
qed

lemma file_rec2_drawing:
  "reflects d path t \<Longrightarrow> path = prev @ (if deep \<noteq> 0 then ''/'' else '''') @ name \<Longrightarrow> fits (length dn) deep t \<Longrightarrow>
   length fl = deep \<Longrightarrow> flags_in fl dn \<Longrightarrow> cap_type = (if fl \<noteq> [] \<and> last fl then 1 else 0) \<Longrightarrow>
   \<exists>dn'. file_rec2 d lb name deep prev cap_type (out, dn) = Some (out @ drawing lb fl name t, dn') \<and>
     length dn' = length dn \<and> flags_in fl dn'"
proof (induction t arbitrary: path name deep prev out dn fl cap_type)
  case Reg
  then show ?case
    using indent_flags [of fl dn lb] by (subst file_rec2.simps) (auto simp: entry_path_def prefix_of_def)
next
  case (Dir es)
  define line where "line = out @ prefix_of lb fl @ name @ newl"
  define body where "body = (\<lambda>ind (out, dn). do {
           kassert (deep < length dn);
           let is_last = (if ind + 1 = length (''.'' # ''..'' # map fst es) then 1 else 0);
           file_rec2 d lb ((''.'' # ''..'' # map fst es) ! ind) (deep + 1) path is_last (out, dn[deep := is_last]) })"
  let ?g = "\<lambda>m. concat (map (\<lambda>i. drawing lb (fl @ [i + 1 = length es]) (fst (es ! i)) (snd (es ! i))) [0..<m])"
  have loop: "\<exists>dn'. each body (map (\<lambda>i. i + 2) [0..<m]) (line, dn) = Some (line @ ?g m, dn') \<and> length dn' = length dn \<and> flags_in fl dn'"
    if "m \<le> length es" for m
    using that
  proof (induction m)
    case 0
    then show ?case using Dir.prems(5) by simp
  next
    case (Suc m)
    then obtain dn1 where d1: "each body (map (\<lambda>i. i + 2) [0..<m]) (line, dn) = Some (line @ ?g m, dn1)"
      "length dn1 = length dn" "flags_in fl dn1" by auto
    have e: "es ! m \<in> set es" using Suc.prems by simp
    define is_last :: nat where "is_last = (if m + 1 = length es then 1 else 0)"
    have ft: "fits (length dn) (Suc deep) (snd (es ! m))" using Dir.prems(3) e by simp
    then have deep: "deep < length dn" using fitsD by fastforce
    have rf: "reflects d (path @ ''/'' @ fst (es ! m)) (snd (es ! m))" using Dir.prems(1) e by simp
    have fi: "flags_in (fl @ [m + 1 = length es]) (dn1[deep := is_last])"
      using d1(2,3) Dir.prems(4) deep by (auto simp: flags_in_def is_last_def nth_append nth_list_update)
    have "\<exists>dn'. file_rec2 d lb (fst (es ! m)) (deep + 1) path is_last (line @ ?g m, dn1[deep := is_last]) =
        Some ((line @ ?g m) @ drawing lb (fl @ [m + 1 = length es]) (fst (es ! m)) (snd (es ! m)), dn') \<and>
        length dn' = length (dn1[deep := is_last]) \<and> flags_in (fl @ [m + 1 = length es]) dn'"
      by (rule Dir.IH [OF e _ rf]) (use ft fi d1(2) Dir.prems(4) in \<open>simp_all add: snds.intros is_last_def\<close>)
    then obtain dn2 where d2: "file_rec2 d lb (fst (es ! m)) (deep + 1) path is_last (line @ ?g m, dn1[deep := is_last]) =
        Some ((line @ ?g m) @ drawing lb (fl @ [m + 1 = length es]) (fst (es ! m)) (snd (es ! m)), dn2)"
        "length dn2 = length (dn1[deep := is_last])" "flags_in (fl @ [m + 1 = length es]) dn2" by blast
    have "body (m + 2) (line @ ?g m, dn1) =
        file_rec2 d lb (fst (es ! m)) (deep + 1) path is_last (line @ ?g m, dn1[deep := is_last])"
      using deep d1(2) Suc.prems by (simp add: body_def is_last_def)
    then have "each body (map (\<lambda>i. i + 2) [0..<Suc m]) (line, dn) = Some (line @ ?g (Suc m), dn2)"
      using d1(1) d2(1) by (simp add: each_append)
    moreover have "flags_in fl dn2" using d2(3) by (auto simp: flags_in_def nth_append split: if_splits)
    ultimately show ?case using d1(2) d2(2) by auto
  qed
  have idx: "[2..<length (''.'' # ''..'' # map fst es)] = map (\<lambda>i. i + 2) [0..<length es]"
    using map_add_upt [of 2 "length es"] by (simp del: upt_Suc)
  obtain dn' where dn': "each body [2..<length (''.'' # ''..'' # map fst es)] (line, dn) = Some (line @ ?g (length es), dn')"
    "length dn' = length dn" "flags_in fl dn'" unfolding idx using loop [OF order_refl] by blast
  have "file_rec2 d lb name deep prev cap_type (out, dn) = each body [2..<length (''.'' # ''..'' # map fst es)] (line, dn)"
    using Dir.prems indent_flags [OF Dir.prems(5), of lb] unfolding body_def line_def
    by (subst file_rec2.simps) (auto simp: entry_path_def prefix_of_def simp del: upt_Suc)
  then show ?case using dn' by (simp add: line_def)
qed

section \<open>Properties\<close>

text \<open>What \<^verbatim>\<open>fileman_write\<close> puts into a new file, \<^verbatim>\<open>fileman_read\<close> at the same
  offset returns, provided that no byte is \<open>0xff\<close>. Bytes of the buffer outside of the range stay.\<close>

theorem fileman_write_read_roundtrip:
  assumes "contents st fname = None" "creatable st fname" "off < 2 ^ 63"
    and "boff + sz \<le> length buf" "0 < sz" "0xFF \<notin> set (take sz (drop boff buf))" "b + sz \<le> length buf2"
  shows "\<exists>st'. fileman_write fname off buf boff sz st = Some (of_nat sz, st') \<and>
    fileman_read fname off buf2 b sz st' = Some (of_nat sz, take b buf2 @ take sz (drop boff buf) @ drop (b + sz) buf2)"
proof -
  let ?bs = "take sz (drop boff buf)"
  let ?f = "replicate off 0 @ ?bs"
  let ?st = "st\<lparr>contents := (contents st)(fname \<mapsto> ?f)\<rparr>"
  have ne: "?bs \<noteq> []" and len: "length ?bs = sz" using assms(4,5) by auto
  have w: "fileman_write fname off buf boff sz st = Some (of_nat sz, ?st)"
    using assms(1-4) ne len by (simp add: fileman_write_def Let_def fwrite_at_def)
  have rd: "readable ?f = ?f" unfolding readable_def takeWhile_eq_all_conv using assms(6) by (auto dest: in_set_takeD in_set_dropD)
  have "take sz (drop off (readable ?f)) = ?bs" unfolding rd using len by simp
  moreover have "fileman_read fname off buf2 b sz ?st =
     Some (of_nat (length (take sz (drop off (readable ?f)))),
       take b buf2 @ take sz (drop off (readable ?f)) @ drop (b + length (take sz (drop off (readable ?f)))) buf2)"
    by (rule fileman_read_readable) (use assms(7) in auto)
  ultimately show ?thesis using w len by auto
qed

theorem fileman_write_read_roundtrip_witness:
  "\<exists>st'. fileman_write ''f'' 3 [1, 2, 3] 1 2 \<lparr>contents = (\<lambda>_. None), creatable = (\<lambda>_. True)\<rparr> = Some (2, st') \<and>
     fileman_read ''f'' 3 [0, 0, 0] 0 2 st' = Some (2, [2, 3, 0])"
  using fileman_write_read_roundtrip [of "\<lparr>contents = (\<lambda>_. None), creatable = (\<lambda>_. True)\<rparr>" "''f''" 3 1 2 "[1, 2, 3]" 0 "[0, 0, 0]"]
  by simp

text \<open>\<^verbatim>\<open>fileman_copy\<close> into a new file writes the bytes of the source up to the first
  \<open>0xff\<close>, which it takes for the end of the file. It returns the size of the source when there is no such
  byte, and otherwise one more than the number of bytes that it wrote. No other file changes.\<close>

theorem fileman_copy_stops_at_FF:
  assumes "contents st fsrc = Some f" "contents st fdest = None" "creatable st fdest"
  shows "\<exists>st'. fileman_copy fsrc fdest st = Some (of_nat (if 0xFF \<in> set f then Suc (length (readable f)) else length f), st') \<and>
    contents st' = (contents st)(fdest \<mapsto> readable f) \<and> (0xFF \<notin> set f \<longrightarrow> readable f = f)"
proof -
  obtain i where i: "fgetc f = (i, tl f)" "as_char i = next_char f" by (rule fgetc_next)
  have all: "readable f = f" if "0xFF \<notin> set f" unfolding readable_def takeWhile_eq_all_conv using that by auto
  have lt: "length (readable f) < length f" if "0xFF \<in> set f"
    unfolding readable_def using that by (induction f) auto
  have "length f - length (drop (Suc (length (readable f))) f) = (if 0xFF \<in> set f then Suc (length (readable f)) else length f)"
    using all lt by auto
  then show ?thesis using assms all i copy_loop_run [of f] by (simp add: fileman_copy_def Let_def)
qed

theorem fileman_copy_stops_at_FF_witness:
  "\<exists>st'. fileman_copy ''a'' ''b'' \<lparr>contents = [''a'' \<mapsto> [1, 0xFF, 2]], creatable = (\<lambda>_. True)\<rparr> = Some (2, st') \<and>
     contents st' ''b'' = Some [1]"
  using fileman_copy_stops_at_FF [of "\<lparr>contents = [''a'' \<mapsto> [1, 0xFF, 2]], creatable = (\<lambda>_. True)\<rparr>" "''a''" "[1, 0xFF, 2]" "''b''"]
  by (auto simp: readable_def)

text \<open>On a directory tree whose scans begin with the entries for itself and its parent, and end with a null word,
  \<^verbatim>\<open>file_rec2\<close> draws the tree: before each name, a bar for every directory above that has entries to
  come, then the corner or the branch. \<open>drawing\<close> is that picture as one recursion over the tree, without
  the array of flags that the code passes along.\<close>

theorem file_rec2_draws_tree:
  assumes "reflects d name t" "fits (length dn) 0 t"
  shows "\<exists>dn'. file_rec2 d lb name 0 '''' 0 (out, dn) = Some (out @ drawing lb [] name t, dn')"
  using file_rec2_drawing [of d name t "''''" 0 name dn "[]" 0 lb out] assms by (auto simp: flags_in_def)

definition sample_dirs :: dirs where
  "sample_dirs = \<lparr>scan = [''w'' \<mapsto> [''.'', ''..'', ''eu'', ''usa''], ''w/eu'' \<mapsto> [''.'', ''..'', ''uk'']], null_after = (\<lambda>_. True)\<rparr>"

theorem file_rec2_draws_tree_witness:
  "\<exists>dn'. file_rec2 sample_dirs \<lparr>cap = ''+- '', end_label = ''L- '', spaces2 = ''|  ''\<rparr> ''w'' 0 '''' 0 ('''', replicate 1000 0) =
     Some (''w'' @ newl @ ''+- eu'' @ newl @ ''|  L- uk'' @ newl @ ''L- usa'' @ newl, dn')"
proof -
  let ?t = "Dir [(''eu'', Dir [(''uk'', Reg)]), (''usa'', Reg)]"
  have r: "reflects sample_dirs ''w'' ?t" by (simp add: sample_dirs_def PATH_SIZE_def)
  have f: "fits (length (replicate 1000 0)) 0 ?t" by simp
  have d: "drawing \<lparr>cap = ''+- '', end_label = ''L- '', spaces2 = ''|  ''\<rparr> [] ''w'' ?t =
     ''w'' @ newl @ ''+- eu'' @ newl @ ''|  L- uk'' @ newl @ ''L- usa'' @ newl"
    by (simp add: prefix_of_def upt_rec)
  show ?thesis using file_rec2_draws_tree [OF r f, of "\<lparr>cap = ''+- '', end_label = ''L- '', spaces2 = ''|  ''\<rparr>" "''''"]
    unfolding d by simp
qed

text \<open>The simpler listing of \<^verbatim>\<open>fileman_dir\<close>.\<close>

theorem fileman_dir_lists_tree:
  assumes "reflects d name t"
  shows "fileman_dir d name = Some (listing 0 name t)"
  using file_rec_listing [of d name t "''''" 0 name "''''"] assms by (simp add: fileman_dir_def)

text \<open>\<^verbatim>\<open>fileman_tree\<close> always writes outside of an array: the label needs eleven bytes and
  its array has ten.\<close>

theorem fileman_tree_overflows: "fileman_tree d dn dname = None"
  by (simp add: fileman_tree_def str_put_def TEE_def HOR_def)

end
