(* ===== verification/Arithmetic.thy ===== *)
theory Arithmetic
  imports Prelude "HOL-Library.Signed_Division"
begin

text \<open>
  The 64-bit division routines of \<^verbatim>\<open>lib/arithmetic.c\<close>, which the compiler calls. The instruction
  \<^verbatim>\<open>divl\<close> traps, and the model is \<open>None\<close>, when the quotient does not fit in 32 bits.
\<close>

definition divl :: "u64 \<Rightarrow> u32 \<Rightarrow> u32 option" where
  "divl n d = do {
     kassert (d \<noteq> 0 \<and> unat n div unat d < 2 ^ 32);
     Some (of_nat (unat n div unat d)) }"

definition nlz :: "u32 \<Rightarrow> nat" where
  "nlz x =
     (let n = 0;
          (n, x) = (if x \<le> 0x0000FFFF then (n + 16, push_bit 16 x) else (n, x));
          (n, x) = (if x \<le> 0x00FFFFFF then (n + 8, push_bit 8 x) else (n, x));
          (n, x) = (if x \<le> 0x0FFFFFFF then (n + 4, push_bit 4 x) else (n, x));
          (n, x) = (if x \<le> 0x3FFFFFFF then (n + 2, push_bit 2 x) else (n, x))
      in if x \<le> 0x7FFFFFFF then n + 1 else n)"

definition udiv64 :: "u64 \<Rightarrow> u64 \<Rightarrow> u64 option" where
  "udiv64 n d =
     (if drop_bit 32 d = 0
      then do {
        let b = (push_bit 32 1 :: u64);
        let n1 = (ucast (drop_bit 32 n) :: u32);
        let n0 = (ucast n :: u32);
        let d0 = (ucast d :: u32);
        kassert (d0 \<noteq> 0);
        q \<leftarrow> divl (b * ucast (n1 mod d0) + ucast n0) d0;
        Some (ucast q + b * ucast (n1 div d0)) }
      else if n < d then Some 0
      else do {
        let d1 = (ucast (drop_bit 32 d) :: u32);
        let s = nlz d1;
        q \<leftarrow> divl (drop_bit 1 n) (ucast (drop_bit 32 (push_bit s d)));
        let q = (ucast (drop_bit (31 - s) q) :: u64);
        Some (if n - (q - 1) * d < d then q - 1 else q) })"

definition umod64 :: "u64 \<Rightarrow> u64 \<Rightarrow> u32 option" where
  "umod64 n d = do { q \<leftarrow> udiv64 n d; Some (ucast (n - d * q)) }"

text \<open>Signed numbers are words whose sign is that of \<^verbatim>\<open>sint\<close>.\<close>

definition sdiv64 :: "u64 \<Rightarrow> u64 \<Rightarrow> u64 option" where
  "sdiv64 n d = do {
     let n_abs = (if 0 \<le> sint n then n else - n);
     let d_abs = (if 0 \<le> sint d then d else - d);
     q_abs \<leftarrow> udiv64 n_abs d_abs;
     Some (if (sint n < 0) = (sint d < 0) then q_abs else - q_abs) }"

definition smod64 :: "u64 \<Rightarrow> u64 \<Rightarrow> u32 option" where
  "smod64 n d = do { q \<leftarrow> sdiv64 n d; Some (ucast (n - d * q)) }"

text \<open>The routines that the compiler calls: the remainders are widened again.\<close>

definition divdi3 :: "u64 \<Rightarrow> u64 \<Rightarrow> u64 option" where "divdi3 n d = sdiv64 n d"
definition moddi3 :: "u64 \<Rightarrow> u64 \<Rightarrow> u64 option" where "moddi3 n d = map_option scast (smod64 n d)"
definition udivdi3 :: "u64 \<Rightarrow> u64 \<Rightarrow> u64 option" where "udivdi3 n d = udiv64 n d"
definition umoddi3 :: "u64 \<Rightarrow> u64 \<Rightarrow> u64 option" where "umoddi3 n d = map_option ucast (umod64 n d)"

section \<open>Leading zeros\<close>

lemma unat_push_bit:
  fixes x :: "'a :: len word"
  assumes "unat x * 2 ^ k < 2 ^ LENGTH('a)"
  shows "unat (push_bit k x) = unat x * 2 ^ k"
proof -
  have "unat (push_bit k x) = take_bit LENGTH('a) (push_bit k (unat x))" by (rule unsigned_push_bit_eq)
  also have "push_bit k (unat x) = unat x * 2 ^ k" by (rule push_bit_eq_mult)
  finally show ?thesis using assms by (simp only: take_bit_nat_eq_self)
qed

lemma unat_drop_bit: "unat (drop_bit k x) = unat x div 2 ^ k"
  unfolding unat_drop_bit_eq by (rule drop_bit_eq_div)

text \<open>One step of the search: a number below \<open>2 ^ (32 - k)\<close> has \<open>k\<close> more leading zeros.\<close>

definition nlz_step :: "nat \<Rightarrow> nat \<times> u32 \<Rightarrow> nat \<times> u32" where
  "nlz_step k nx = (if unat (snd nx) < 2 ^ (32 - k) then (fst nx + k, push_bit k (snd nx)) else nx)"

lemma nlz_steps: "nlz x = fst (nlz_step 1 (nlz_step 2 (nlz_step 4 (nlz_step 8 (nlz_step 16 (0, x))))))"
proof -
  have c: "x \<le> 0xFFFF \<longleftrightarrow> unat x < 2 ^ (32 - 16)" "x \<le> 0xFFFFFF \<longleftrightarrow> unat x < 2 ^ (32 - 8)"
    "x \<le> 0xFFFFFFF \<longleftrightarrow> unat x < 2 ^ (32 - 4)" "x \<le> 0x3FFFFFFF \<longleftrightarrow> unat x < 2 ^ (32 - 2)"
    "x \<le> 0x7FFFFFFF \<longleftrightarrow> unat x < 2 ^ (32 - 1)" for x :: u32
    by (auto simp: word_le_nat_alt)
  have step: "(if x \<le> c then (n + k, push_bit k x) else (n, x)) = nlz_step k (n, x)"
    if "x \<le> c \<longleftrightarrow> unat x < 2 ^ (32 - k)" for n k c x using that by (simp add: nlz_step_def)
  have last: "(if x \<le> 0x7FFFFFFF then n + 1 else n) = fst (nlz_step 1 (n, x))" for n x
    using c(5) [of x] by (simp add: nlz_step_def)
  show ?thesis
    unfolding nlz_def Let_def by (simp only: step [OF c(1)] step [OF c(2)] step [OF c(3)] step [OF c(4)] last split_beta prod.collapse)
qed

text \<open>\<open>nlz_inv x j nx\<close>: the zeros counted so far are leading zeros, and at most \<open>j\<close> are left.\<close>

definition nlz_inv :: "u32 \<Rightarrow> nat \<Rightarrow> nat \<times> u32 \<Rightarrow> bool" where
  "nlz_inv x j nx \<longleftrightarrow> unat (snd nx) = unat x * 2 ^ fst nx \<and> unat (snd nx) < 2 ^ 32 \<and> 2 ^ (32 - j) \<le> unat (snd nx)"

lemma nlz_step_inv:
  assumes "nlz_inv x (2 * k) nx" "2 * k \<le> 32"
  shows "nlz_inv x k (nlz_step k nx)"
proof (cases "unat (snd nx) < 2 ^ (32 - k)")
  case True
  have "2 ^ k * 2 ^ (32 - k) = (2 :: nat) ^ 32" using assms(2) by (simp flip: power_add)
  then have "unat (snd nx) * 2 ^ k < 2 ^ 32" using True mult_less_mono2 [of "unat (snd nx)" "2 ^ (32 - k)" "2 ^ k"] by (simp add: mult.commute)
  then have p: "unat (push_bit k (snd nx)) = unat (snd nx) * 2 ^ k" "unat (snd nx) * 2 ^ k < 2 ^ 32"
    using unat_push_bit [of "snd nx" k] by simp_all
  have "2 ^ (32 - k) = (2 :: nat) ^ (32 - 2 * k) * 2 ^ k" using assms(2) by (simp flip: power_add)
  then have "2 ^ (32 - k) \<le> unat (snd nx) * 2 ^ k" using assms(1) by (simp add: nlz_inv_def)
  then show ?thesis using assms(1) True p by (simp add: nlz_inv_def nlz_step_def power_add mult.assoc)
qed (use assms in \<open>simp add: nlz_inv_def nlz_step_def\<close>)

lemma nlz_normalises:
  assumes "x \<noteq> 0"
  shows "2 ^ 31 \<le> unat x * 2 ^ nlz x" "unat x * 2 ^ nlz x < 2 ^ 32" "nlz x \<le> 31"
proof -
  have "0 < unat x" using assms by (simp add: unat_gt_0)
  then have "nlz_inv x (2 * 16) (0, x)" using unsigned_less [of x] by (simp add: nlz_inv_def)
  then have "nlz_inv x 16 (nlz_step 16 (0, x))" by (rule nlz_step_inv) simp
  then have "nlz_inv x (2 * 8) (nlz_step 16 (0, x))" by simp
  then have "nlz_inv x 8 (nlz_step 8 (nlz_step 16 (0, x)))" by (rule nlz_step_inv) simp
  then have "nlz_inv x (2 * 4) (nlz_step 8 (nlz_step 16 (0, x)))" by simp
  then have "nlz_inv x 4 (nlz_step 4 (nlz_step 8 (nlz_step 16 (0, x))))" by (rule nlz_step_inv) simp
  then have "nlz_inv x (2 * 2) (nlz_step 4 (nlz_step 8 (nlz_step 16 (0, x))))" by simp
  then have "nlz_inv x 2 (nlz_step 2 (nlz_step 4 (nlz_step 8 (nlz_step 16 (0, x)))))" by (rule nlz_step_inv) simp
  then have "nlz_inv x (2 * 1) (nlz_step 2 (nlz_step 4 (nlz_step 8 (nlz_step 16 (0, x)))))" by simp
  then have i: "nlz_inv x 1 (nlz_step 1 (nlz_step 2 (nlz_step 4 (nlz_step 8 (nlz_step 16 (0, x))))))"
    by (rule nlz_step_inv) simp
  then show b: "2 ^ 31 \<le> unat x * 2 ^ nlz x" "unat x * 2 ^ nlz x < 2 ^ 32" by (simp_all add: nlz_inv_def nlz_steps)
  have "2 ^ nlz x \<le> unat x * 2 ^ nlz x" using \<open>0 < unat x\<close> by simp
  then have "(2 :: nat) ^ nlz x < 2 ^ 32" using b(2) by (rule le_less_trans)
  then have "nlz x < 32" by (rule power_less_imp_less_exp [rotated]) simp
  then show "nlz x \<le> 31" by simp
qed

section \<open>The estimate of the quotient\<close>

text \<open>Dividing by the leading 32 bits of \<open>d\<close> gives the quotient or one more.\<close>

lemma estimate:
  fixes n d v s :: nat
  assumes n: "n < 2 ^ 64" and s: "s \<le> 31" and v: "2 ^ 31 \<le> v"
    and d: "v * 2 ^ (32 - s) \<le> d" "d < (v + 1) * 2 ^ (32 - s)"
  shows "n div 2 div v div 2 ^ (31 - s) = n div d \<or> n div 2 div v div 2 ^ (31 - s) = n div d + 1"
proof -
  define e where "e = v * 2 ^ (32 - s)"
  have pw: "(2 :: nat) ^ (32 - s) = 2 * 2 ^ (31 - s)" using s by (simp add: Suc_diff_le flip: power_Suc)
  have q: "n div 2 div v div 2 ^ (31 - s) = n div e"
    unfolding e_def pw by (simp add: div_mult2_eq [symmetric] mult.assoc mult.commute mult.left_commute)
  have e: "0 < e" "e \<le> d" "d - e < 2 ^ (32 - s)" using v d by (simp_all add: e_def)
  have big: "2 ^ (63 - s) \<le> e"
  proof -
    have "63 - s = 31 + (32 - s)" using s by simp
    then have "(2 :: nat) ^ (63 - s) = 2 ^ 31 * 2 ^ (32 - s)" by (simp only: power_add)
    then show ?thesis using v by (simp add: e_def)
  qed
  have small: "n * (d - e) < d * e"
  proof (cases "d = e")
    case True
    then show ?thesis using e(1) by simp
  next
    case False
    then have "0 < d - e" using e(2) by simp
    then have "n * (d - e) < 2 ^ 64 * (d - e)" using n by simp
    also have "\<dots> \<le> 2 ^ 64 * (2 ^ (32 - s) - 1)" using e(3) by (intro mult_left_mono) simp_all
    also have "\<dots> \<le> 2 ^ (63 - s) * 2 ^ (63 - s)"
    proof (cases "s = 31")
      case False
      have "2 ^ 64 * (2 ^ (32 - s) - 1) \<le> (2 :: nat) ^ 64 * 2 ^ (32 - s)" by simp
      also have "\<dots> = 2 ^ (64 + (32 - s))" by (simp only: power_add)
      also have "\<dots> \<le> 2 ^ ((63 - s) + (63 - s))" using s False by (intro power_increasing) simp_all
      finally show ?thesis by (simp only: power_add)
    qed simp
    also have "\<dots> \<le> d * e" using big e(2) by (intro mult_mono) simp_all
    finally show ?thesis .
  qed
  have "n div e - 1 \<le> n div d"
  proof -
    let ?m = "n div e"
    have me: "?m * e \<le> n" by simp
    have "?m * (d - e) * e = ?m * e * (d - e)" by (simp add: ac_simps)
    also have "\<dots> \<le> n * (d - e)" by (intro mult_right_mono me) simp
    finally have "?m * (d - e) * e < d * e" using small by linarith
    then have "?m * (d - e) < d" by simp
    moreover have "?m * d = ?m * e + ?m * (d - e)" using e(2) by (simp flip: distrib_left)
    ultimately have "?m * d - d \<le> n" using me by linarith
    then have "(?m - 1) * d \<le> n" by (simp add: diff_mult_distrib)
    then show ?thesis using e by (simp add: less_eq_div_iff_mult_less_eq)
  qed
  moreover have "n div d \<le> n div e" using e by (intro div_le_mono2) simp_all
  ultimately show ?thesis unfolding q by linarith
qed


section \<open>Unsigned division\<close>

lemma divl_eq: "d \<noteq> 0 \<Longrightarrow> unat n div unat d < 2 ^ 32 \<Longrightarrow> divl n d = Some (of_nat (unat n div unat d))"
  by (simp add: divl_def)

lemma unat_of_nat32: "k < 2 ^ 32 \<Longrightarrow> unat (of_nat k :: u32) = k"
  by (simp add: unat_of_nat take_bit_nat_eq_self)

lemma unat_low [simp]: "unat (ucast (n :: u64) :: u32) = unat n mod 2 ^ 32"
  by (simp add: unsigned_ucast_eq take_bit_eq_mod)

lemma unat_high: "unat (ucast (drop_bit 32 (n :: u64)) :: u32) = unat n div 2 ^ 32"
proof -
  have "unat n div 2 ^ 32 < 2 ^ 32" using u64_bound [of n] by (simp add: div_less_iff_less_mult)
  then show ?thesis by (simp only: unat_low unat_drop_bit mod_less)
qed

lemma unat_wide [simp]: "unat (ucast (q :: u32) :: u64) = unat q"
  using u32_bound [of q] by (simp add: unsigned_ucast_eq take_bit_nat_eq_self)

lemma wide_of_nat: "k < 2 ^ 32 \<Longrightarrow> (ucast (of_nat k :: u32) :: u64) = of_nat k"
  by (simp add: word_unat_eq_iff unat_of_nat32) (simp add: unat_of_nat take_bit_nat_eq_self)

lemma small_divisor:
  assumes "d \<noteq> 0" "drop_bit 32 d = 0"
  shows "udiv64 n d = Some (n div d)"
proof -
  let ?n1 = "unat n div 2 ^ 32" and ?n0 = "unat n mod 2 ^ 32"
  have "unat d div 2 ^ 32 = 0" using assms(2) unat_drop_bit [of 32 d] by simp
  then have d: "unat d < 2 ^ 32" "0 < unat d" using assms(1) by (simp_all add: div_eq_0_iff unat_gt_0)
  define d0 where "d0 = (ucast d :: u32)"
  have d0: "unat d0 = unat d" "d0 \<noteq> 0" using d by (simp_all add: d0_def unat_eq_0 [symmetric])
  have n1: "?n1 < 2 ^ 32" using u64_bound [of n] by (simp add: div_less_iff_less_mult)
  have m: "?n1 mod unat d < 2 ^ 32" "?n1 div unat d < 2 ^ 32"
    using mod_less_divisor [OF d(2), of ?n1] d(1) n1 div_le_dividend [of ?n1 "unat d"] by linarith+
  have words: "ucast (ucast (drop_bit 32 n) mod d0 :: u32) = (of_nat (?n1 mod unat d) :: u64)"
    "ucast (ucast (drop_bit 32 n) div d0 :: u32) = (of_nat (?n1 div unat d) :: u64)"
    "ucast (ucast n :: u32) = (of_nat ?n0 :: u64)"
  proof -
    have "ucast (drop_bit 32 n) mod d0 = (of_nat (?n1 mod unat d) :: u32)"
      "ucast (drop_bit 32 n) div d0 = (of_nat (?n1 div unat d) :: u32)"
      by (simp_all only: word_unat_eq_iff unat_mod unat_div unat_high d0(1) unat_of_nat32 [OF m(1)] unat_of_nat32 [OF m(2)])
    then show "ucast (ucast (drop_bit 32 n) mod d0 :: u32) = (of_nat (?n1 mod unat d) :: u64)"
      "ucast (ucast (drop_bit 32 n) div d0 :: u32) = (of_nat (?n1 div unat d) :: u64)"
      by (simp_all only: wide_of_nat [OF m(1)] wide_of_nat [OF m(2)])
    have "(ucast n :: u32) = of_nat ?n0" by (simp only: word_unat_eq_iff unat_low) (simp add: unat_of_nat32)
    then show "ucast (ucast n :: u32) = (of_nat ?n0 :: u64)" by (simp only:) (simp add: wide_of_nat)
  qed
  define a where "a = (push_bit 32 1 :: u64) * ucast (ucast (drop_bit 32 n) mod d0) + ucast (ucast n :: u32)"
  have b32: "(push_bit 32 1 :: u64) = of_nat (2 ^ 32)" by simp
  have bnd: "2 ^ 32 * (?n1 mod unat d) + ?n0 < 2 ^ 32 * Suc (?n1 mod unat d)" by simp
  also have "\<dots> \<le> 2 ^ 32 * unat d" using mod_less_divisor [OF d(2), of ?n1] by (intro mult_left_mono) simp_all
  finally have lt: "2 ^ 32 * (?n1 mod unat d) + ?n0 < 2 ^ 32 * unat d" .
  have "a = of_nat (2 ^ 32 * (?n1 mod unat d) + ?n0)" unfolding a_def words b32 by (simp only: of_nat_add of_nat_mult)
  moreover have "2 ^ 32 * (?n1 mod unat d) + ?n0 < 2 ^ 64" using lt d(1) by simp
  ultimately have ua: "unat a = 2 ^ 32 * (?n1 mod unat d) + ?n0" by (simp only: unat_of_nat) (simp add: take_bit_nat_eq_self)
  have q: "unat a div unat d < 2 ^ 32" using lt d(2) unfolding ua by (simp add: div_less_iff_less_mult)
  have "unat n div unat d = unat a div unat d + 2 ^ 32 * (?n1 div unat d)"
  proof -
    have "c * x = y * (c * (x div y)) + c * (x mod y)" for c x y :: nat
    proof -
      have "c * (y * (x div y) + x mod y) = y * (c * (x div y)) + c * (x mod y)" by (simp only: distrib_left mult.left_commute)
      then show ?thesis by (simp only: mult_div_mod_eq)
    qed
    then have "2 ^ 32 * ?n1 = unat d * (2 ^ 32 * (?n1 div unat d)) + 2 ^ 32 * (?n1 mod unat d)" .
    moreover have "unat n = 2 ^ 32 * ?n1 + ?n0" by (rule mult_div_mod_eq [symmetric])
    ultimately have "unat n = unat a + unat d * (2 ^ 32 * (?n1 div unat d))" unfolding ua by linarith
    then have "unat n div unat d = (unat a + unat d * (2 ^ 32 * (?n1 div unat d))) div unat d" by (rule arg_cong)
    then show ?thesis using d(2) by (simp only: div_mult_self2 neq0_conv add.commute)
  qed
  moreover have "udiv64 n d = Some (ucast (of_nat (unat a div unat d) :: u32) + push_bit 32 1 * ucast (ucast (drop_bit 32 n) div d0))"
    using assms(2) d0(2) divl_eq [of d0 a] q d0(1) by (simp add: udiv64_def Let_def a_def d0_def)
  then have "udiv64 n d = Some (of_nat (unat a div unat d + 2 ^ 32 * (?n1 div unat d)))"
    unfolding words wide_of_nat [OF q] b32 by (simp only: of_nat_add of_nat_mult)
  ultimately have "udiv64 n d = Some (of_nat (unat n div unat d))" by simp
  moreover have "(of_nat (unat n div unat d) :: u64) = n div d" unfolding unat_div [symmetric] by simp
  ultimately show ?thesis by simp
qed


lemma large_divisor:
  assumes "drop_bit 32 d \<noteq> 0"
  shows "udiv64 n d = Some (n div d)"
proof (cases "n < d")
  case True
  then have "unat (n div d) = 0" by (simp add: unat_div word_less_nat_alt)
  then show ?thesis using True assms by (simp add: udiv64_def unat_eq_0)
next
  case False
  define d1 where "d1 = (ucast (drop_bit 32 d) :: u32)"
  define s where "s = nlz d1"
  have ud1: "unat d1 = unat d div 2 ^ 32" by (simp only: d1_def unat_high)
  have d1: "d1 \<noteq> 0"
  proof
    assume "d1 = 0"
    then have "unat (drop_bit 32 d) = 0" using ud1 unfolding unat_drop_bit by simp
    then show False using assms by (simp add: unat_eq_0)
  qed
  note nl = nlz_normalises [OF d1, folded s_def, unfolded ud1]
  have dpos: "0 < unat d" using d1 ud1 by (cases "unat d") (simp_all add: unat_eq_0 [symmetric])
  have shifted: "unat d * 2 ^ s < 2 ^ 64"
  proof -
    have "unat d < 2 ^ 32 * Suc (unat d div 2 ^ 32)"
      using mult_div_mod_eq [of "2 ^ 32" "unat d"] mod_less_divisor [of "2 ^ 32" "unat d"] by simp
    then have "unat d * 2 ^ s < 2 ^ 32 * Suc (unat d div 2 ^ 32) * 2 ^ s" by simp
    also have "\<dots> = 2 ^ 32 * (unat d div 2 ^ 32 * 2 ^ s + 2 ^ s)" by (simp only: mult_Suc_right distrib_left distrib_right ac_simps)
    also have "\<dots> \<le> 2 ^ 32 * 2 ^ 32"
    proof (intro mult_left_mono)
      have pw: "(2 :: nat) ^ 32 = 2 ^ (32 - s) * 2 ^ s" using nl(3) by (simp flip: power_add)
      have "unat d div 2 ^ 32 * 2 ^ s < 2 ^ (32 - s) * 2 ^ s" using nl(2) by (simp only: pw [symmetric])
      then have "Suc (unat d div 2 ^ 32) \<le> 2 ^ (32 - s)" by simp
      then have "Suc (unat d div 2 ^ 32) * 2 ^ s \<le> 2 ^ (32 - s) * 2 ^ s" by (rule mult_right_mono) simp
      also have "\<dots> = 2 ^ 32" by (rule pw [symmetric])
      finally show "unat d div 2 ^ 32 * 2 ^ s + 2 ^ s \<le> 2 ^ 32" by simp
    qed simp
    finally show ?thesis by simp
  qed
  define v where "v = unat d * 2 ^ s div 2 ^ 32"
  have uv: "unat (ucast (drop_bit 32 (push_bit s d)) :: u32) = v"
  proof -
    have "unat (push_bit s d) = unat d * 2 ^ s" by (rule unat_push_bit) (use shifted in simp)
    then show ?thesis by (simp only: unat_high v_def)
  qed
  have pw: "(2 :: nat) ^ 32 = 2 ^ (32 - s) * 2 ^ s"
  proof -
    show ?thesis using nl(3) by (simp flip: power_add)
  qed
  have vd: "v * 2 ^ 32 \<le> unat d * 2 ^ s" "unat d * 2 ^ s < (v + 1) * 2 ^ 32"
    unfolding v_def using div_times_less_eq_dividend [of "unat d * 2 ^ s" "2 ^ 32"] dividend_less_div_times [of "2 ^ 32" "unat d * 2 ^ s"]
    by (simp_all only: distrib_right mult_1 zero_less_power zero_less_numeral add.commute)
  have v: "2 ^ 31 \<le> v" "v < 2 ^ 32"
  proof -
    have "unat d div 2 ^ 32 * 2 ^ s * 2 ^ 32 \<le> unat d * 2 ^ s"
      using mult_div_mod_eq [of "2 ^ 32" "unat d"] mult_right_mono [of "unat d div 2 ^ 32 * 2 ^ 32" "unat d" "2 ^ s"]
      by (simp add: ac_simps)
    then have "unat d div 2 ^ 32 * 2 ^ s \<le> v" unfolding v_def by (simp add: less_eq_div_iff_mult_less_eq)
    then show "2 ^ 31 \<le> v" using nl(1) by simp
    show "v < 2 ^ 32" using shifted unfolding v_def by (simp add: div_less_iff_less_mult)
  qed
  have e1: "v * 2 ^ (32 - s) \<le> unat d" using vd(1) unfolding pw by (simp add: mult.assoc [symmetric])
  have e2: "unat d < (v + 1) * 2 ^ (32 - s)" using vd(2) unfolding pw mult.assoc [symmetric] by simp
  define q where "q = unat n div 2 div v div 2 ^ (31 - s)"
  have q: "q = unat n div unat d \<or> q = unat n div unat d + 1"
    unfolding q_def by (rule estimate [OF u64_bound nl(3) v(1) e1 e2])
  define q1 where "q1 = unat n div 2 div v"
  have q1: "q1 < 2 ^ 32"
  proof -
    have "unat n div 2 < 2 ^ 63" using u64_bound [of n] by simp
    also have "\<dots> \<le> 2 ^ 32 * v" using v(1) by simp
    finally show ?thesis using v(1) unfolding q1_def by (simp add: div_less_iff_less_mult)
  qed
  have dv: "divl (drop_bit 1 n) (ucast (drop_bit 32 (push_bit s d))) = Some (of_nat q1)"
  proof -
    have "ucast (drop_bit 32 (push_bit s d)) \<noteq> (0 :: u32)" using uv v(1) by (auto simp: unat_eq_0 [symmetric])
    then show ?thesis using divl_eq [of "ucast (drop_bit 32 (push_bit s d))" "drop_bit 1 n"] q1
      unfolding uv unat_drop_bit q1_def by simp
  qed
  have uq: "ucast (drop_bit (31 - s) (of_nat q1 :: u32)) = (of_nat q :: u64)"
  proof -
    have "unat (drop_bit (31 - s) (of_nat q1 :: u32)) = q" by (simp only: unat_drop_bit q_def q1_def unat_of_nat32 [OF q1 [unfolded q1_def]])
    moreover have "q < 2 ^ 32" using q1 div_le_dividend [of q1 "2 ^ (31 - s)"] unfolding q_def q1_def by linarith
    ultimately show ?thesis
      by (simp only: word_unat_eq_iff unat_wide) (simp add: unat_of_nat take_bit_nat_eq_self)
  qed
  let ?Q = "unat n div unat d"
  have run: "udiv64 n d = Some (if n - (of_nat q - 1) * d < d then of_nat q - 1 else of_nat q)"
    using assms False dv uq unfolding udiv64_def Let_def d1_def [symmetric] s_def [symmetric] by simp
  have Q: "1 \<le> ?Q" using False dpos by (simp add: word_less_nat_alt less_eq_div_iff_mult_less_eq)
  have rest: "unat (n - of_nat k * d) = unat n - k * unat d" if "k \<le> ?Q" for k
  proof -
    have "k * unat d \<le> ?Q * unat d" using that by (rule mult_right_mono) simp
    then have le: "k * unat d \<le> unat n" using div_times_less_eq_dividend [of "unat n" "unat d"] by linarith
    have "of_nat k * d = of_nat (k * unat d)" by simp
    moreover have "unat (of_nat (k * unat d) :: u64) = k * unat d"
      using le u64_bound [of n] by (simp only: unat_of_nat) (simp add: take_bit_nat_eq_self)
    ultimately have "unat (of_nat k * d) = k * unat d" by simp
    then show ?thesis using le by (simp add: unat_sub word_le_nat_alt)
  qed
  have div: "(of_nat ?Q :: u64) = n div d" unfolding unat_div [symmetric] by simp
  from q show ?thesis
  proof
    assume e: "q = ?Q"
    have "(of_nat q - 1 :: u64) = of_nat (q - 1)" using Q e by simp
    moreover have "unat d \<le> unat n - (q - 1) * unat d"
    proof -
      have "(q - 1) * unat d + unat d = ?Q * unat d" using Q e by (simp add: mult_eq_if)
      then show ?thesis using div_times_less_eq_dividend [of "unat n" "unat d"] by linarith
    qed
    ultimately have "\<not> n - (of_nat q - 1) * d < d" using rest [of "q - 1"] e by (simp add: word_less_nat_alt)
    then show ?thesis using run e div by simp
  next
    assume e: "q = ?Q + 1"
    have 1: "(of_nat q - 1 :: u64) = of_nat ?Q" using e by simp
    have "unat n - ?Q * unat d < unat d" using dpos by (simp add: minus_div_mult_eq_mod)
    then have "n - of_nat ?Q * d < d" using rest [of ?Q] by (simp add: word_less_nat_alt)
    then show ?thesis using run div unfolding 1 by simp
  qed
qed

lemma udiv64_div: "d \<noteq> 0 \<Longrightarrow> udiv64 n d = Some (n div d)"
  using small_divisor large_divisor by blast

section \<open>Signed division and remainders\<close>

lemma word_of_sint: "word_of_int (sint (n :: u64)) = n"
  by simp

lemma sint_range: "- (2 ^ 63) \<le> sint (n :: u64)" "sint n < 2 ^ 63"
  using sint_ge [of n] sint_lt [of n] by simp_all

lemma uint_abs: "uint (if 0 \<le> sint n then n else - n :: u64) = \<bar>sint n\<bar>"
proof (cases "0 \<le> sint n")
  case True
  then show ?thesis using sint_range(2) [of n] by (simp add: uint_sint take_bit_int_eq_self)
next
  case False
  have "- n = word_of_int (- sint n)" by simp
  then have "uint (- n) = take_bit 64 (- sint n)" by (simp only: uint_word_of_int) (simp add: take_bit_eq_mod)
  also have "\<dots> = - sint n" using False sint_range(1) [of n] by (intro take_bit_int_eq_self) simp_all
  finally show ?thesis using False by simp
qed

lemma sdiv64_sdiv:
  assumes "d \<noteq> 0"
  shows "sdiv64 n d = Some (word_of_int (sint n sdiv sint d))"
proof -
  let ?a = "if 0 \<le> sint n then n else - n" and ?b = "if 0 \<le> sint d then d else - d"
  have "?b \<noteq> 0" using assms by simp
  then have u: "udiv64 ?a ?b = Some (word_of_int (\<bar>sint n\<bar> div \<bar>sint d\<bar>))"
    by (simp only: udiv64_div word_div_def uint_abs simp_thms)
  have "sdiv64 n d = Some (if (sint n < 0) = (sint d < 0) then word_of_int (\<bar>sint n\<bar> div \<bar>sint d\<bar>)
      else - word_of_int (\<bar>sint n\<bar> div \<bar>sint d\<bar>))"
    unfolding sdiv64_def Let_def u by simp
  also have "\<dots> = Some (word_of_int (sint n sdiv sint d))"
    by (cases "sint n" "0 :: int" rule: linorder_cases; cases "sint d" "0 :: int" rule: linorder_cases)
      (simp_all add: signed_divide_int_def sgn_if)
  finally show ?thesis .
qed

text \<open>C33: The division routines that the compiler calls are division: the unsigned one for all
  numbers, in particular the instruction \<^verbatim>\<open>divl\<close> never traps, and the signed one rounds towards zero. Only the
  quotient of the least number by -1, which is no 64-bit number, wraps around.\<close>

theorem division_is_correct:
  assumes "d \<noteq> 0"
  shows "udivdi3 n d = Some (n div d) \<and> divdi3 n d = Some (word_of_int (sint n sdiv sint d))"
  using udiv64_div sdiv64_sdiv assms by (simp add: udivdi3_def divdi3_def)

theorem division_is_correct_witness:
  "udivdi3 0xFFFFFFFFFFFFFFFF 0x100000001 = Some 0xFFFFFFFF \<and> divdi3 (- 7) 2 = Some (- 3)"
proof -
  have "(0x100000001 :: u64) \<noteq> 0" "(2 :: u64) \<noteq> 0" by simp_all
  note c = division_is_correct [OF this(1), of "0xFFFFFFFFFFFFFFFF"] division_is_correct [OF this(2), of "- 7"]
  have "(0xFFFFFFFFFFFFFFFF :: u64) div 0x100000001 = 0xFFFFFFFF" by simp
  moreover have "sint (- 7 :: u64) sdiv sint (2 :: u64) = - 3" by code_simp
  ultimately show ?thesis using c by simp
qed

text \<open>The remainders pass through 32 bits: of the remainder of a division only the
  low 32 bits are returned, and the signed one is extended from bit 31.\<close>

theorem remainder_is_truncated:
  assumes "d \<noteq> 0"
  shows "umoddi3 n d = Some (of_nat (unat (n mod d) mod 2 ^ 32)) \<and>
    moddi3 n d = Some (word_of_int (signed_take_bit 31 (sint n smod sint d)))"
proof -
  have "umod64 n d = Some (ucast (n mod d))"
    using assms by (simp add: umod64_def udiv64_div minus_mult_div_eq_mod)
  moreover have "ucast (ucast (n mod d) :: u32) = (of_nat (unat (n mod d) mod 2 ^ 32) :: u64)"
  proof -
    have "(ucast (n mod d) :: u32) = of_nat (unat (n mod d) mod 2 ^ 32)"
      by (simp only: word_unat_eq_iff unat_low) (simp add: unat_of_nat32)
    then show ?thesis by (simp only:) (simp add: wide_of_nat)
  qed
  ultimately have u: "umoddi3 n d = Some (of_nat (unat (n mod d) mod 2 ^ 32))" by (simp add: umoddi3_def)
  have "n - d * word_of_int (sint n sdiv sint d) = word_of_int (sint n) - word_of_int (sint d) * word_of_int (sint n sdiv sint d)"
    by (simp only: word_of_sint)
  also have "\<dots> = word_of_int (sint n smod sint d)"
    by (simp only: minus_mult_sdiv_eq_smod [symmetric] of_int_diff of_int_mult)
  finally have "smod64 n d = Some (ucast (word_of_int (sint n smod sint d) :: u64))"
    using assms by (simp add: smod64_def sdiv64_sdiv)
  moreover have "(ucast (word_of_int k :: u64) :: u32) = word_of_int k" for k
    by (rule bit_word_eqI) (simp add: bit_simps)
  ultimately have "moddi3 n d = Some (scast (word_of_int (sint n smod sint d) :: u32))" by (simp add: moddi3_def)
  then show ?thesis using u by (simp add: scast_eq sint_sbintrunc')
qed

theorem remainder_is_truncated_witness:
  "umoddi3 0x100000000 0x200000000 = Some 0 \<and> (0x100000000 :: u64) mod 0x200000000 = 0x100000000"
proof -
  have "(0x200000000 :: u64) \<noteq> 0" by simp
  from remainder_is_truncated [OF this, of "0x100000000"] show ?thesis by simp
qed

end
