(* ===== verification/Rc4.thy ===== *)
theory Rc4
  imports Prelude
begin

text \<open>
  The random numbers of \<^verbatim>\<open>lib/random.c\<close>: the RC4 generator. Its table stays a permutation of the bytes,
  and asking for bytes in several calls gives the same stream as asking in one.
\<close>

record rc4 =
  tab :: "byte list"
  s_i :: byte
  s_j :: byte
  inited :: bool

definition swap_byte :: "nat \<Rightarrow> nat \<Rightarrow> byte list \<Rightarrow> byte list" where
  "swap_byte a b s = s[a := s ! b, b := s ! a]"

text \<open>The second loop of \<^verbatim>\<open>random_init\<close>, given the positions that are left.\<close>

fun key_loop :: "byte list \<Rightarrow> nat list \<Rightarrow> byte \<Rightarrow> byte list \<Rightarrow> byte list" where
  "key_loop seedp [] j s = s"
| "key_loop seedp (i # is) j s = (let j = j + (s ! i + seedp ! (i mod 4)) in key_loop seedp is j (swap_byte i (unat j) s))"

definition random_init :: "u32 \<Rightarrow> rc4" where
  "random_init seed = \<lparr>tab = key_loop (encode32 seed) [0..<256] 0 (map of_nat [0..<256]), s_i = 0, s_j = 0, inited = True\<rparr>"

fun bytes_loop :: "nat \<Rightarrow> rc4 \<Rightarrow> byte list \<times> rc4" where
  "bytes_loop 0 st = ([], st)"
| "bytes_loop (Suc sz) st =
     (let i = s_i st + 1;
          j = s_j st + tab st ! unat i;
          s = swap_byte (unat i) (unat j) (tab st);
          k = s ! unat i + s ! unat j;
          (bs, st) = bytes_loop sz (st\<lparr>tab := s, s_i := i, s_j := j\<rparr>)
      in (s ! unat k # bs, st))"

definition random_bytes :: "nat \<Rightarrow> rc4 \<Rightarrow> byte list \<times> rc4" where
  "random_bytes sz st = bytes_loop sz (if inited st then st else random_init 0)"

definition random_ulong :: "rc4 \<Rightarrow> u32 \<times> rc4" where
  "random_ulong st = (let (bs, st) = random_bytes 4 st in (decode32 bs, st))"

section \<open>The table\<close>

definition is_permutation :: "byte list \<Rightarrow> bool" where
  "is_permutation s \<longleftrightarrow> distinct s \<and> length s = 256"

lemma byte_bound: "unat (b :: byte) < 256"
  using unsigned_less [of b] by simp

lemma swap_byte_permutation:
  assumes "is_permutation s" "a < 256" "b < 256"
  shows "is_permutation (swap_byte a b s)"
  using assms by (simp add: is_permutation_def swap_byte_def distinct_swap)

lemma key_loop_permutation:
  "is_permutation s \<Longrightarrow> \<forall>i \<in> set is. i < 256 \<Longrightarrow> is_permutation (key_loop seedp is j s)"
proof (induction "is" arbitrary: j s)
  case (Cons i "is")
  then show ?case by (simp add: Let_def swap_byte_permutation byte_bound)
qed simp

lemma start_permutation: "is_permutation (map of_nat [0..<256])"
proof -
  have "inj_on (of_nat :: nat \<Rightarrow> byte) {0..<256}"
  proof (rule inj_onI)
    fix x y :: nat assume "x \<in> {0..<256}" "y \<in> {0..<256}" "(of_nat x :: byte) = of_nat y"
    then have "unat (of_nat x :: byte) = unat (of_nat y :: byte)" "x < 2 ^ 8" "y < 2 ^ 8" by simp_all
    then show "x = y" by (simp add: unat_of_nat take_bit_nat_eq_self)
  qed
  then show ?thesis by (simp add: is_permutation_def distinct_map del: upt_Suc)
qed

definition rc4_ok :: "rc4 \<Rightarrow> bool" where
  "rc4_ok st \<longleftrightarrow> inited st \<longrightarrow> is_permutation (tab st)"

lemma random_init_ok: "rc4_ok (random_init seed)" "inited (random_init seed)"
  unfolding rc4_ok_def random_init_def
  by (simp_all add: key_loop_permutation start_permutation del: upt_Suc)

lemma bytes_loop_ok:
  "bytes_loop n st = (bs, st') \<Longrightarrow> is_permutation (tab st) \<Longrightarrow>
   length bs = n \<and> is_permutation (tab st') \<and> inited st' = inited st"
proof (induction n arbitrary: st bs)
  case (Suc n)
  define s where "s = swap_byte (unat (s_i st + 1)) (unat (s_j st + tab st ! unat (s_i st + 1))) (tab st)"
  define st1 where "st1 = st\<lparr>tab := s, s_i := s_i st + 1, s_j := s_j st + tab st ! unat (s_i st + 1)\<rparr>"
  obtain bs1 where l: "bytes_loop n st1 = (bs1, st')" and bs: "length bs = Suc (length bs1)"
    using Suc.prems(1) by (auto simp: Let_def s_def st1_def split: prod.splits)
  have "is_permutation (tab st1)" using Suc.prems(2) by (simp add: st1_def s_def swap_byte_permutation byte_bound)
  from Suc.IH [OF l this] show ?case using bs by (simp add: st1_def)
qed simp

lemma bytes_loop_add:
  "bytes_loop (m + n) st = (let (a, st1) = bytes_loop m st; (b, st2) = bytes_loop n st1 in (a @ b, st2))"
proof (induction m arbitrary: st)
  case (Suc m)
  show ?case by (simp add: Suc.IH Let_def split_beta)
qed (simp add: split_beta)

text \<open>The generator gives one stream of bytes, however they are asked for: the bytes
  of two calls are those of one call for both. Its table stays a permutation of all 256 bytes, also
  through the first call, which initialises it.\<close>

theorem random_bytes_stream:
  assumes "rc4_ok st"
  shows "\<exists>a st1 b st2. random_bytes m st = (a, st1) \<and> random_bytes n st1 = (b, st2) \<and>
    random_bytes (m + n) st = (a @ b, st2) \<and> length a = m \<and> length b = n \<and> is_permutation (tab st2) \<and> inited st2"
proof -
  define st0 where "st0 = (if inited st then st else random_init 0)"
  have st0: "is_permutation (tab st0)" "inited st0"
    using assms random_init_ok [of 0] by (simp_all add: st0_def rc4_ok_def)
  obtain a st1 where a: "bytes_loop m st0 = (a, st1)" by fastforce
  obtain b st2 where b: "bytes_loop n st1 = (b, st2)" by fastforce
  note oa = bytes_loop_ok [OF a st0(1)]
  note ob = bytes_loop_ok [OF b conjunct1 [OF conjunct2 [OF oa]]]
  have "bytes_loop (m + n) st0 = (a @ b, st2)" using a b by (simp add: bytes_loop_add)
  then show ?thesis using a b oa ob st0(2) by (simp add: random_bytes_def flip: st0_def)
qed

theorem random_bytes_stream_witness:
  "\<exists>a st1 b st2. random_bytes 2 (random_init 1) = (a, st1) \<and> random_bytes 3 st1 = (b, st2) \<and>
     random_bytes 5 (random_init 1) = (a @ b, st2)"
  using random_bytes_stream [OF random_init_ok(1) [of 1], of 2 3] by auto

end
