(* ===== verification/Intq.thy ===== *)
theory Intq
  imports Prelude
begin

text \<open>
  The interrupt queues of \<^verbatim>\<open>devices/intq.c\<close>: a ring of 64 bytes between threads and interrupt handlers.
  The functions run with interrupts off, so what a thread does until it blocks or returns is one step.
  \<open>qstep\<close> is every interleaving of such steps by any number of readers and writers, with the lock that
  lets one thread wait at a time, and of handlers. \<open>None\<close> is a failed assertion.
\<close>

definition INTQ_BUFSIZE :: nat where "INTQ_BUFSIZE = 64"

record intq =
  not_full :: addr
  not_empty :: addr
  buf :: "byte list"
  hd_pos :: nat
  tl_pos :: nat

definition intq_init :: "byte list \<Rightarrow> intq" where
  "intq_init junk = \<lparr>not_full = NULL, not_empty = NULL, buf = junk, hd_pos = 0, tl_pos = 0\<rparr>"

definition next_pos :: "nat \<Rightarrow> nat" where "next_pos p = (p + 1) mod INTQ_BUFSIZE"
definition intq_empty :: "intq \<Rightarrow> bool" where "intq_empty q \<longleftrightarrow> hd_pos q = tl_pos q"
definition intq_full :: "intq \<Rightarrow> bool" where "intq_full q \<longleftrightarrow> next_pos (hd_pos q) = tl_pos q"

text \<open>What a thread wants of the queue, and whether it has to wait for it.\<close>

datatype op = Get | Put byte

definition blocked :: "op \<Rightarrow> intq \<Rightarrow> bool" where
  "blocked p q = (case p of Get \<Rightarrow> intq_empty q | Put _ \<Rightarrow> intq_full q)"

text \<open>\<^verbatim>\<open>signal\<close>: the thread to unblock, if any, and the queue without it.\<close>

definition signal_full :: "intq \<Rightarrow> (addr \<times> intq) option" where
  "signal_full q = do { kassert (\<not> intq_full q); Some (not_full q, q\<lparr>not_full := NULL\<rparr>) }"

definition signal_empty :: "intq \<Rightarrow> (addr \<times> intq) option" where
  "signal_empty q = do { kassert (\<not> intq_empty q); Some (not_empty q, q\<lparr>not_empty := NULL\<rparr>) }"

text \<open>The functions after their loops.\<close>

definition intq_getc :: "intq \<Rightarrow> (byte \<times> addr \<times> intq) option" where
  "intq_getc q = do {
     let b = buf q ! tl_pos q;
     (w, q) \<leftarrow> signal_full (q\<lparr>tl_pos := next_pos (tl_pos q)\<rparr>);
     Some (b, w, q) }"

definition intq_putc :: "byte \<Rightarrow> intq \<Rightarrow> (addr \<times> intq) option" where
  "intq_putc b q = signal_empty (q\<lparr>buf := (buf q)[hd_pos q := b], hd_pos := next_pos (hd_pos q)\<rparr>)"

text \<open>\<^verbatim>\<open>wait\<close>, before the thread blocks.\<close>

definition wait_on :: "op \<Rightarrow> addr \<Rightarrow> intq \<Rightarrow> intq option" where
  "wait_on p t q = do {
     kassert (blocked p q);
     Some (case p of Get \<Rightarrow> q\<lparr>not_empty := t\<rparr> | Put _ \<Rightarrow> q\<lparr>not_full := t\<rparr>) }"

section \<open>Threads and handlers\<close>

datatype qpc = Idle | At_lock op | Asleep op | Woken op

record qsys =
  que :: intq
  lock_of :: addr
  pc :: "addr \<Rightarrow> qpc"
  sent :: "byte list"
  received :: "byte list"

text \<open>\<^verbatim>\<open>thread_unblock\<close> of the thread that was asleep, unless the pointer is null.\<close>

definition unblock :: "addr \<Rightarrow> qsys \<Rightarrow> qsys" where
  "unblock w s = (if w = NULL then s
     else s\<lparr>pc := (pc s)(w := (case pc s w of Asleep p \<Rightarrow> Woken p | x \<Rightarrow> x))\<rparr>)"

definition perform :: "op \<Rightarrow> qsys \<Rightarrow> qsys option" where
  "perform p s = (case p of
     Get \<Rightarrow> do {
       (b, w, q) \<leftarrow> intq_getc (que s);
       Some (unblock w (s\<lparr>que := q, received := received s @ [b]\<rparr>)) }
   | Put b \<Rightarrow> do {
       (w, q) \<leftarrow> intq_putc b (que s);
       Some (unblock w (s\<lparr>que := q, sent := sent s @ [b]\<rparr>)) })"

text \<open>A thread with the lock goes to sleep.\<close>

definition sleep :: "op \<Rightarrow> addr \<Rightarrow> qsys \<Rightarrow> qsys option" where
  "sleep p t s = do {
     q \<leftarrow> wait_on p t (que s);
     Some (s\<lparr>que := q, lock_of := t, pc := (pc s)(t := Asleep p)\<rparr>) }"

text \<open>The head of the loop.\<close>

definition enter :: "op \<Rightarrow> addr \<Rightarrow> qsys \<Rightarrow> qsys option" where
  "enter p t s =
     (if blocked p (que s)
      then if lock_of s = NULL then sleep p t s else Some (s\<lparr>pc := (pc s)(t := At_lock p)\<rparr>)
      else perform p (s\<lparr>pc := (pc s)(t := Idle)\<rparr>))"

inductive qstep :: "qsys \<Rightarrow> qsys option \<Rightarrow> bool" where
  call: "t \<noteq> NULL \<Longrightarrow> pc s t = Idle \<Longrightarrow> qstep s (enter p t s)"
| locked: "pc s t = At_lock p \<Longrightarrow> lock_of s = NULL \<Longrightarrow> qstep s (sleep p t s)"
| resume: "pc s t = Woken p \<Longrightarrow> qstep s (enter p t (s\<lparr>lock_of := NULL\<rparr>))"
| handler: "\<not> blocked p (que s) \<Longrightarrow> qstep s (perform p s)"

inductive qreach :: "qsys \<Rightarrow> bool" where
  start: "length junk = INTQ_BUFSIZE \<Longrightarrow>
    qreach \<lparr>que = intq_init junk, lock_of = NULL, pc = (\<lambda>_. Idle), sent = [], received = []\<rparr>"
| step: "qreach s \<Longrightarrow> qstep s (Some s') \<Longrightarrow> qreach s'"

section \<open>The ring as a queue\<close>

text \<open>\<open>holds q xs\<close>: the queue has the bytes \<open>xs\<close>, the oldest first.\<close>

definition holds :: "intq \<Rightarrow> byte list \<Rightarrow> bool" where
  "holds q xs \<longleftrightarrow> length (buf q) = 64 \<and> tl_pos q < 64 \<and> length xs < 64 \<and> hd_pos q = (tl_pos q + length xs) mod 64 \<and>
     (\<forall>i < length xs. xs ! i = buf q ! ((tl_pos q + i) mod 64))"

lemma ring_inj:
  assumes "i < 64" "j < 64" "(a + i) mod 64 = (a + j) mod (64 :: nat)"
  shows "i = j"
proof (cases "i \<le> j")
  case True
  then have "64 dvd j - i" using assms(3) mod_eq_dvd_iff_nat [of "a + i" "a + j" 64] by simp
  then show ?thesis using True assms(1,2) by (auto dest: dvd_imp_le)
next
  case False
  then have "64 dvd i - j" using assms(3) mod_eq_dvd_iff_nat [of "a + j" "a + i" 64] by simp
  then show ?thesis using False assms(1,2) by (auto dest: dvd_imp_le)
qed

lemma holds_empty:
  assumes "holds q xs"
  shows "intq_empty q \<longleftrightarrow> xs = []"
proof
  assume "intq_empty q"
  then have e: "tl_pos q = (tl_pos q + length xs) mod 64" "tl_pos q < 64" "length xs < 64"
    using assms by (simp_all add: holds_def intq_empty_def)
  then show "xs = []" using ring_inj [of 0 "length xs" "tl_pos q"] by simp
qed (use assms in \<open>simp add: holds_def intq_empty_def\<close>)

lemma holds_full:
  assumes "holds q xs"
  shows "intq_full q \<longleftrightarrow> length xs = 63"
proof -
  have e: "next_pos (hd_pos q) = (tl_pos q + Suc (length xs)) mod 64" "tl_pos q < 64" "length xs < 64"
    using assms by (simp_all add: holds_def next_pos_def INTQ_BUFSIZE_def mod_simps)
  show ?thesis
  proof (cases "tl_pos q + Suc (length xs) < 64")
    case True
    then show ?thesis using e by (simp add: intq_full_def)
  next
    case False
    then have "(tl_pos q + Suc (length xs)) mod 64 = tl_pos q + Suc (length xs) - 64" using e(2,3) by (simp add: mod_if)
    then show ?thesis using e False by (auto simp: intq_full_def)
  qed
qed

lemma holds_unsignal: "holds (q\<lparr>not_full := a\<rparr>) xs = holds q xs" "holds (q\<lparr>not_empty := a\<rparr>) xs = holds q xs"
  by (simp_all add: holds_def)

lemma getc_holds:
  assumes h: "holds q xs" and ne: "\<not> intq_empty q"
  shows "\<exists>q'. intq_getc q = Some (hd xs, not_full q, q') \<and> holds q' (tl xs) \<and> not_full q' = NULL \<and> not_empty q' = not_empty q \<and> xs \<noteq> []"
proof -
  obtain x ys where xs: "xs = x # ys" using ne holds_empty [OF h] by (cases xs) auto
  let ?q = "q\<lparr>tl_pos := next_pos (tl_pos q)\<rparr>"
  have "holds ?q ys"
    unfolding holds_def
  proof (intro conjI allI impI)
    show "length (buf ?q) = 64" "tl_pos ?q < 64" "length ys < 64"
      using h xs by (simp_all add: holds_def next_pos_def INTQ_BUFSIZE_def)
    show "hd_pos ?q = (tl_pos ?q + length ys) mod 64"
      using h xs by (simp add: holds_def next_pos_def INTQ_BUFSIZE_def mod_simps)
    fix i assume i: "i < length ys"
    have "\<forall>i < length xs. xs ! i = buf q ! ((tl_pos q + i) mod 64)" using h by (simp add: holds_def)
    then have "ys ! i = buf q ! ((tl_pos q + Suc i) mod 64)" using i xs by force
    then show "ys ! i = buf ?q ! ((tl_pos ?q + i) mod 64)" by (simp add: next_pos_def INTQ_BUFSIZE_def mod_simps)
  qed
  moreover have "buf q ! tl_pos q = x" using h xs by (auto simp: holds_def)
  moreover have "length ys < 63" using h xs by (simp add: holds_def)
  ultimately show ?thesis
    using holds_full [of ?q ys] xs by (simp add: intq_getc_def signal_full_def Let_def holds_unsignal)
qed

lemma putc_holds:
  assumes h: "holds q xs" and nf: "\<not> intq_full q"
  shows "\<exists>q'. intq_putc b q = Some (not_empty q, q') \<and> holds q' (xs @ [b]) \<and> not_empty q' = NULL \<and> not_full q' = not_full q"
proof -
  let ?q = "q\<lparr>buf := (buf q)[hd_pos q := b], hd_pos := next_pos (hd_pos q)\<rparr>"
  have len: "length xs < 63" using holds_full [OF h] nf h by (auto simp: holds_def)
  have hp: "hd_pos q = (tl_pos q + length xs) mod 64" "hd_pos q < 64" "tl_pos q < 64" "length (buf q) = 64"
    using h by (simp_all add: holds_def)
  have ne: "(tl_pos q + i) mod 64 \<noteq> hd_pos q" if "i < length xs" for i
    using ring_inj [of i "length xs" "tl_pos q"] that len unfolding hp(1) by auto
  have "holds ?q (xs @ [b])"
    unfolding holds_def
  proof (intro conjI allI impI)
    show "length (buf ?q) = 64" "tl_pos ?q < 64" "length (xs @ [b]) < 64" using hp len by simp_all
    show "hd_pos ?q = (tl_pos ?q + length (xs @ [b])) mod 64"
      using hp(1) by (simp add: next_pos_def INTQ_BUFSIZE_def mod_simps)
    fix i assume i: "i < length (xs @ [b])"
    show "(xs @ [b]) ! i = buf ?q ! ((tl_pos ?q + i) mod 64)"
    proof (cases "i < length xs")
      case True
      then show ?thesis using h ne [OF True] by (simp add: holds_def nth_append)
    next
      case False
      then have "i = length xs" using i by simp
      then show ?thesis using hp by simp
    qed
  qed
  then show ?thesis using holds_empty [of ?q "xs @ [b]"] by (simp add: intq_putc_def signal_empty_def holds_unsignal)
qed


section \<open>Every interleaving\<close>

definition qinv :: "byte list \<Rightarrow> qsys \<Rightarrow> bool" where
  "qinv xs s \<longleftrightarrow> holds (que s) xs \<and> sent s = received s @ xs \<and> pc s NULL = Idle \<and>
     (\<forall>t p. pc s t = Asleep p \<longrightarrow> blocked p (que s) \<and> lock_of s = t \<and>
        (case p of Get \<Rightarrow> not_empty (que s) = t | Put _ \<Rightarrow> not_full (que s) = t)) \<and>
     (\<forall>t p. pc s t = Woken p \<longrightarrow> lock_of s = t) \<and>
     (not_empty (que s) \<noteq> NULL \<longrightarrow> pc s (not_empty (que s)) = Asleep Get) \<and>
     (not_full (que s) \<noteq> NULL \<longrightarrow> (\<exists>b. pc s (not_full (que s)) = Asleep (Put b)))"

lemma qinvD:
  assumes "qinv xs s"
  shows "holds (que s) xs" "sent s = received s @ xs" "pc s NULL = Idle"
    "pc s t = Asleep p \<Longrightarrow> blocked p (que s)" "pc s t = Asleep p \<Longrightarrow> lock_of s = t"
    "pc s t = Asleep Get \<Longrightarrow> not_empty (que s) = t" "pc s t = Asleep (Put b) \<Longrightarrow> not_full (que s) = t"
    "pc s t = Woken p \<Longrightarrow> lock_of s = t"
    "not_empty (que s) \<noteq> NULL \<Longrightarrow> pc s (not_empty (que s)) = Asleep Get"
    "not_full (que s) \<noteq> NULL \<Longrightarrow> \<exists>b. pc s (not_full (que s)) = Asleep (Put b)"
  using assms unfolding qinv_def by fastforce+

lemma sleep_inv:
  assumes inv: "qinv xs s" and t: "t \<noteq> NULL" "pc s t = Idle \<or> pc s t = At_lock p" "lock_of s = NULL" and s': "sleep p t s = Some s'"
  shows "qinv xs s'"
proof -
  have free: "pc s u \<noteq> Asleep r" "pc s u \<noteq> Woken r" for u r
    using qinvD(3,5,8) [OF inv] t(3) by (metis qpc.distinct(3,5))+
  then have none: "not_empty (que s) = NULL" "not_full (que s) = NULL" using qinvD(9,10) [OF inv] by blast+
  have bl: "blocked p (que s)" using s' by (simp add: sleep_def wait_on_def kassert_bind_Some_iff split: if_splits)
  show ?thesis
  proof (cases p)
    case Get
    then have "s' = s\<lparr>que := (que s)\<lparr>not_empty := t\<rparr>, lock_of := t, pc := (pc s)(t := Asleep p)\<rparr>"
      using s' bl by (simp add: sleep_def wait_on_def)
    then show ?thesis using qinvD(1-3) [OF inv] free none t(1) bl Get
      by (auto simp: qinv_def holds_unsignal blocked_def intq_empty_def split: op.splits)
  next
    case (Put b)
    then have "s' = s\<lparr>que := (que s)\<lparr>not_full := t\<rparr>, lock_of := t, pc := (pc s)(t := Asleep p)\<rparr>"
      using s' bl by (simp add: sleep_def wait_on_def)
    then show ?thesis using qinvD(1-3) [OF inv] free none t(1) bl Put
      by (auto simp: qinv_def holds_unsignal blocked_def intq_full_def split: op.splits)
  qed
qed

lemma perform_inv:
  assumes inv: "qinv xs s" and nb: "\<not> blocked p (que s)"
  shows "\<exists>s' xs'. perform p s = Some s' \<and> qinv xs' s' \<and> lock_of s' = lock_of s"
proof (cases p)
  case Get
  obtain q' where q': "intq_getc (que s) = Some (hd xs, not_full (que s), q')" "holds q' (tl xs)" "not_full q' = NULL"
    "not_empty q' = not_empty (que s)" "xs \<noteq> []"
    using getc_holds [OF qinvD(1) [OF inv]] nb Get by (auto simp: blocked_def)
  let ?w = "not_full (que s)"
  let ?s = "unblock ?w (s\<lparr>que := q', received := received s @ [hd xs]\<rparr>)"
  have noget: "pc s t \<noteq> Asleep Get" for t using qinvD(4) [OF inv, of t Get] nb Get by blast
  then have ne: "not_empty (que s) = NULL" using qinvD(9) [OF inv] by blast
  have noput: "t = ?w \<and> ?w \<noteq> NULL" if "pc s t = Asleep (Put b)" for t b
    using qinvD(7) [OF inv that] qinvD(3) [OF inv] that by (cases "t = NULL") simp_all
  have log: "sent s = (received s @ [hd xs]) @ tl xs" using qinvD(2) [OF inv] q'(5) by simp
  have "qinv (tl xs) ?s"
  proof (cases "?w = NULL")
    case True
    then show ?thesis using noget noput q' ne log qinvD(3,8) [OF inv] unfolding qinv_def unblock_def
      by (auto split: op.splits)
  next
    case False
    obtain b where b: "pc s ?w = Asleep (Put b)" using qinvD(10) [OF inv False] by blast
    have lk: "lock_of s = ?w" by (rule qinvD(5) [OF inv b])
    have pcs: "pc ?s = (pc s)(?w := Woken (Put b))" using False b by (simp add: unblock_def)
    have "pc ?s t \<noteq> Asleep r" for t r using noget noput unfolding pcs by (cases r) auto
    moreover have "pc ?s t = Woken r \<Longrightarrow> lock_of ?s = t" for t r
      unfolding pcs using lk qinvD(8) [OF inv] False by (auto simp: unblock_def split: if_splits)
    moreover have "pc ?s NULL = Idle" unfolding pcs using False qinvD(3) [OF inv] by simp
    moreover have "que ?s = q'" "sent ?s = received ?s @ tl xs" using log False by (simp_all add: unblock_def)
    ultimately show ?thesis using q' ne unfolding qinv_def by simp
  qed
  then show ?thesis using Get q'(1) by (auto simp: perform_def unblock_def)
next
  case (Put c)
  obtain q' where q': "intq_putc c (que s) = Some (not_empty (que s), q')" "holds q' (xs @ [c])" "not_empty q' = NULL"
    "not_full q' = not_full (que s)"
    using putc_holds [OF qinvD(1) [OF inv]] nb Put by (auto simp: blocked_def)
  let ?w = "not_empty (que s)"
  let ?s = "unblock ?w (s\<lparr>que := q', sent := sent s @ [c]\<rparr>)"
  have noput: "pc s t \<noteq> Asleep (Put b)" for t b
    using qinvD(4) [OF inv, of t "Put b"] nb Put by (auto simp: blocked_def)
  then have nf: "not_full (que s) = NULL" using qinvD(10) [OF inv] by blast
  have noget: "t = ?w \<and> ?w \<noteq> NULL" if "pc s t = Asleep Get" for t
    using qinvD(6) [OF inv that] qinvD(3) [OF inv] that by (cases "t = NULL") simp_all
  have log: "sent s @ [c] = received s @ (xs @ [c])" using qinvD(2) [OF inv] by simp
  have "qinv (xs @ [c]) ?s"
  proof (cases "?w = NULL")
    case True
    then show ?thesis using noget noput q' nf log qinvD(3,8) [OF inv] unfolding qinv_def unblock_def
      by (auto split: op.splits)
  next
    case False
    have b: "pc s ?w = Asleep Get" by (rule qinvD(9) [OF inv False])
    have lk: "lock_of s = ?w" by (rule qinvD(5) [OF inv b])
    have pcs: "pc ?s = (pc s)(?w := Woken Get)" using False b by (simp add: unblock_def)
    have "pc ?s t \<noteq> Asleep r" for t r using noget noput unfolding pcs by (cases r) auto
    moreover have "pc ?s t = Woken r \<Longrightarrow> lock_of ?s = t" for t r
      unfolding pcs using lk qinvD(8) [OF inv] False by (auto simp: unblock_def split: if_splits)
    moreover have "pc ?s NULL = Idle" unfolding pcs using False qinvD(3) [OF inv] by simp
    moreover have "que ?s = q'" "sent ?s = received ?s @ (xs @ [c])" using log False by (simp_all add: unblock_def)
    ultimately show ?thesis using q' nf unfolding qinv_def by simp
  qed
  then show ?thesis using Put q'(1) by (auto simp: perform_def unblock_def)
qed

text \<open>What \<open>enter\<close> does does not depend on where the thread was.\<close>

lemma enter_idle: "enter p t s = enter p t (s\<lparr>pc := (pc s)(t := Idle)\<rparr>)"
  by (simp add: enter_def sleep_def)

lemma enter_inv:
  assumes inv: "qinv xs s" and t: "t \<noteq> NULL" "pc s t = Idle"
  shows "\<exists>s' xs'. enter p t s = Some s' \<and> qinv xs' s'"
proof (cases "blocked p (que s)")
  case True
  show ?thesis
  proof (cases "lock_of s = NULL")
    case lk: True
    have "\<exists>s'. sleep p t s = Some s'" using True by (simp add: sleep_def wait_on_def)
    then show ?thesis using True lk sleep_inv [OF inv t(1) disjI1 [OF t(2)] lk] by (auto simp: enter_def)
  next
    case False
    define f where "f = (pc s)(t := At_lock p)"
    have "f u = Asleep r \<longleftrightarrow> pc s u = Asleep r" "f u = Woken r \<longleftrightarrow> pc s u = Woken r" "f NULL = pc s NULL" for u r
      using t by (simp_all add: f_def)
    then have "qinv xs (s\<lparr>pc := (pc s)(t := At_lock p)\<rparr>)" using inv unfolding qinv_def f_def [symmetric] by (simp cong: op.case_cong)
    then show ?thesis using True False by (auto simp: enter_def)
  qed
next
  case False
  have e: "s\<lparr>pc := (pc s)(t := Idle)\<rparr> = s" using t(2) by (simp add: fun_upd_idem)
  show ?thesis using perform_inv [OF inv False] False unfolding enter_def e by auto
qed

lemma resume_inv:
  assumes inv: "qinv xs s" and t: "pc s t = Woken p"
  shows "qinv xs (s\<lparr>lock_of := NULL, pc := (pc s)(t := Idle)\<rparr>)"
proof -
  have lk: "lock_of s = t" by (rule qinvD(8) [OF inv t])
  have tn: "t \<noteq> NULL" using t qinvD(3) [OF inv] by (cases "t = NULL") simp_all
  have as: "pc s u \<noteq> Asleep r" for u r using qinvD(5) [OF inv, of u r] lk t by auto
  have wo: "pc s u = Woken r \<Longrightarrow> u = t" for u r using qinvD(8) [OF inv, of u r] lk by simp
  have "not_empty (que s) = NULL" "not_full (que s) = NULL" using qinvD(9,10) [OF inv] as by blast+
  then show ?thesis using qinvD(1-3) [OF inv] as wo tn unfolding qinv_def by auto
qed

lemma qstep_inv:
  assumes inv: "qinv xs s" and st: "qstep s r"
  shows "(\<exists>s' xs'. r = Some s' \<and> qinv xs' s') \<or> (r = None \<and> (\<exists>t p. pc s t = At_lock p \<and> lock_of s = NULL \<and> \<not> blocked p (que s)))"
  using st
proof (cases rule: qstep.cases)
  case (call t p)
  then show ?thesis using enter_inv [OF inv] by blast
next
  case (locked t p)
  have tn: "t \<noteq> NULL" using locked(2) qinvD(3) [OF inv] by (cases "t = NULL") simp_all
  show ?thesis
  proof (cases "blocked p (que s)")
    case True
    then obtain s' where "sleep p t s = Some s'" by (auto simp: sleep_def wait_on_def)
    then show ?thesis using sleep_inv [OF inv tn disjI2 [OF locked(2)] locked(3)] locked(1) by blast
  next
    case False
    then have "sleep p t s = None" by (simp add: sleep_def wait_on_def)
    then show ?thesis using locked False by blast
  qed
next
  case (resume t p)
  have tn: "t \<noteq> NULL" using resume(2) qinvD(3) [OF inv] by (cases "t = NULL") simp_all
  have "pc (s\<lparr>lock_of := NULL, pc := (pc s)(t := Idle)\<rparr>) t = Idle" by simp
  from enter_inv [OF resume_inv [OF inv resume(2)] tn this, of p]
  show ?thesis using resume(1) enter_idle [of p t "s\<lparr>lock_of := NULL\<rparr>"] by auto
next
  case (handler p)
  then show ?thesis using perform_inv [OF inv handler(2)] by blast
qed

lemma qreach_inv: "qreach s \<Longrightarrow> \<exists>xs. qinv xs s"
proof (induction rule: qreach.induct)
  case (start junk)
  have "holds (intq_init junk) []" using start by (simp add: holds_def intq_init_def INTQ_BUFSIZE_def)
  then show ?case by (intro exI [of _ "[]"]) (simp add: qinv_def, simp add: intq_init_def)
next
  case (step s s')
  then show ?case using qstep_inv by blast
qed


text \<open>C38: Under every interleaving of readers, writers and interrupt handlers, the bytes
  that were received are a prefix of those that were sent, and the rest, at most 63 bytes, is in the
  ring in order: no byte is lost, doubled or reordered. No wake-up is lost: a thread that sleeps in a read
  is registered as the waiting reader and the queue is empty, and one that sleeps in a write is the waiting
  writer and the queue is full.\<close>

theorem intq_fifo:
  assumes "qreach s"
  shows "\<exists>xs. sent s = received s @ xs \<and> length xs \<le> 63 \<and> holds (que s) xs \<and>
    (\<forall>t. pc s t = Asleep Get \<longrightarrow> xs = [] \<and> not_empty (que s) = t) \<and>
    (\<forall>t b. pc s t = Asleep (Put b) \<longrightarrow> length xs = 63 \<and> not_full (que s) = t)"
proof -
  obtain xs where inv: "qinv xs s" using qreach_inv [OF assms] by blast
  note h = qinvD(1) [OF inv]
  have "length xs \<le> 63" using h by (simp add: holds_def)
  moreover have "xs = [] \<and> not_empty (que s) = t" if "pc s t = Asleep Get" for t
    using qinvD(4,6) [OF inv that] qinvD(6) [OF inv] that holds_empty [OF h] by (simp add: blocked_def)
  moreover have "length xs = 63 \<and> not_full (que s) = t" if "pc s t = Asleep (Put b)" for t b
    using qinvD(4) [OF inv that] qinvD(7) [OF inv that] holds_full [OF h] by (simp add: blocked_def)
  ultimately show ?thesis using h qinvD(2) [OF inv] by blast
qed

definition qstart :: qsys where
  "qstart = \<lparr>que = intq_init (replicate 64 0), lock_of = NULL, pc = (\<lambda>_. Idle), sent = [], received = []\<rparr>"

lemma qstart_reach: "qreach qstart"
  unfolding qstart_def by (rule qreach.start) (simp add: INTQ_BUFSIZE_def)

theorem intq_fifo_witness:
  "\<exists>s xs. enter (Put 7) 1 qstart = Some s \<and> sent s = [7] \<and> sent s = received s @ xs \<and> holds (que s) xs"
proof -
  have "\<exists>s. enter (Put 7) 1 qstart = Some s \<and> sent s = [7]"
    by (simp add: enter_def blocked_def perform_def intq_putc_def signal_empty_def qstart_def intq_init_def intq_full_def
        intq_empty_def next_pos_def INTQ_BUFSIZE_def unblock_def)
  then obtain s where s: "enter (Put 7) 1 qstart = Some s" "sent s = [7]" by blast
  have "qstep qstart (enter (Put 7) 1 qstart)" by (rule qstep.call) (simp_all add: qstart_def)
  then have "qreach s" using qreach.step [OF qstart_reach] s(1) by simp
  from intq_fifo [OF this] s show ?thesis by blast
qed

text \<open>The only assertion that can fail is that of \<^verbatim>\<open>wait\<close>, in a thread that had to wait for the lock.\<close>

lemma qstep_panics:
  assumes "qreach s" "qstep s None"
  shows "\<exists>t p. pc s t = At_lock p \<and> lock_of s = NULL \<and> \<not> blocked p (que s)"
  using qreach_inv [OF assms(1)] qstep_inv [OF _ assms(2)] by blast

text \<open>It does fail: two threads read the empty queue, so the second waits for the lock;
  two bytes arrive; the first thread wakes up, gives the lock back and takes a byte. The second thread gets
  the lock and asserts that the queue is empty, but one byte is left in it.\<close>

theorem intq_wait_assertion_fails: "\<exists>s. qreach s \<and> qstep s None"
proof -
  define q0 where "q0 = intq_init (replicate 64 0)"
  define q1 where "q1 = q0\<lparr>not_empty := 1\<rparr>"
  define s1 where "s1 = qstart\<lparr>que := q1, lock_of := 1, pc := (\<lambda>_. Idle)(1 := Asleep Get)\<rparr>"
  define s2 where "s2 = s1\<lparr>pc := (pc s1)(2 := At_lock Get)\<rparr>"
  define q3 where "q3 = q0\<lparr>buf := (buf q0)[0 := 5], hd_pos := 1\<rparr>"
  define s3 where "s3 = s2\<lparr>que := q3, sent := [5], pc := (pc s2)(1 := Woken Get)\<rparr>"
  define q4 where "q4 = q3\<lparr>buf := (buf q3)[1 := 6], hd_pos := 2\<rparr>"
  define s4 where "s4 = s3\<lparr>que := q4, sent := [5, 6]\<rparr>"
  define s5 where "s5 = s4\<lparr>que := q4\<lparr>tl_pos := 1\<rparr>, lock_of := NULL, pc := (pc s4)(1 := Idle), received := [5]\<rparr>"
  note q = q0_def q1_def q3_def q4_def intq_init_def intq_empty_def intq_full_def next_pos_def INTQ_BUFSIZE_def
  note f = blocked_def wait_on_def sleep_def enter_def perform_def intq_putc_def intq_getc_def signal_empty_def signal_full_def
  have "enter Get 1 qstart = Some s1" by (simp add: f s1_def qstart_def q)
  then have "qstep qstart (Some s1)" using qstep.call [of 1 qstart Get] by (simp add: qstart_def)
  then have r1: "qreach s1" by (rule qreach.step [OF qstart_reach])
  have "enter Get 2 s1 = Some s2" by (simp add: f s2_def s1_def q)
  then have "qstep s1 (Some s2)" using qstep.call [of 2 s1 Get] by (simp add: s1_def)
  then have r2: "qreach s2" by (rule qreach.step [OF r1])
  have "perform (Put 5) s2 = Some s3" "\<not> blocked (Put 5) (que s2)"
    by (simp_all add: f s3_def s2_def s1_def qstart_def q unblock_def)
  then have "qstep s2 (Some s3)" using qstep.handler [of "Put 5" s2] by simp
  then have r3: "qreach s3" by (rule qreach.step [OF r2])
  have "perform (Put 6) s3 = Some s4" "\<not> blocked (Put 6) (que s3)"
    by (simp_all add: f s4_def s3_def q unblock_def numeral_2_eq_2)
  then have "qstep s3 (Some s4)" using qstep.handler [of "Put 6" s3] by simp
  then have r4: "qreach s4" by (rule qreach.step [OF r3])
  have "enter Get 1 (s4\<lparr>lock_of := NULL\<rparr>) = Some s5"
    by (simp add: f s5_def s4_def s3_def s2_def s1_def qstart_def q unblock_def)
  then have "qstep s4 (Some s5)" using qstep.resume [of s4 1 Get] by (simp add: s4_def s3_def)
  then have r5: "qreach s5" by (rule qreach.step [OF r4])
  have "sleep Get 2 s5 = None" by (simp add: f s5_def q)
  moreover have "pc s5 2 = At_lock Get" "lock_of s5 = NULL" by (simp_all add: s5_def s4_def s3_def s2_def)
  ultimately have "qstep s5 None" using qstep.locked [of s5 2 Get] by simp
  then show ?thesis using r5 by blast
qed

end
