(* ===== verification/Stdio.thy ===== *)
theory Stdio
  imports Stdlib
begin

text \<open>
  Formatted output, \<^verbatim>\<open>lib/stdio.c\<close>. The function \<^verbatim>\<open>output\<close> that the code passes along is called for one
  character after the other, so the model returns them as a string. The arguments are a list; taking
  one of another width than the conversion asks for is undefined, and so is reading behind the end of
  the format, an \<^verbatim>\<open>int\<close> that overflows, and a write outside of the array of digits: the model is \<open>None\<close>.
\<close>

datatype varg = A32 u32 | A64 u64 | AStr "string option"

fun va32 :: "varg list \<Rightarrow> (u32 \<times> varg list) option" where
  "va32 (A32 w # as) = Some (w, as)" | "va32 _ = None"

fun va64 :: "varg list \<Rightarrow> (u64 \<times> varg list) option" where
  "va64 (A64 w # as) = Some (w, as)" | "va64 _ = None"

fun vastr :: "varg list \<Rightarrow> (string option \<times> varg list) option" where
  "vastr (AStr s # as) = Some (s, as)" | "vastr _ = None"

section \<open>Conversions\<close>

definition MINUS :: u32 where "MINUS = 1"
definition PLUS :: u32 where "PLUS = 2"
definition SPACE :: u32 where "SPACE = 4"
definition POUND :: u32 where "POUND = 8"
definition ZERO :: u32 where "ZERO = 16"
definition GROUP :: u32 where "GROUP = 32"

lemmas flag_defs = MINUS_def PLUS_def SPACE_def POUND_def ZERO_def GROUP_def

datatype arg_type = CHAR_t | SHORT | INT_t | INTMAX | LONG | LONGLONG | PTRDIFFT | SIZET

record printf_conversion =
  flags :: u32
  width :: int
  precision :: int
  arg_type :: arg_type

record integer_base =
  base :: nat
  digits :: string
  x_char :: "char option"
  group :: nat

definition base_d :: integer_base where
  "base_d = \<lparr>base = 10, digits = ''0123456789'', x_char = None, group = 3\<rparr>"
definition base_o :: integer_base where
  "base_o = \<lparr>base = 8, digits = ''01234567'', x_char = None, group = 3\<rparr>"
definition base_x :: integer_base where
  "base_x = \<lparr>base = 16, digits = ''0123456789abcdef'', x_char = Some (CHR ''x''), group = 4\<rparr>"
definition base_X :: integer_base where
  "base_X = \<lparr>base = 16, digits = ''0123456789ABCDEF'', x_char = Some (CHR ''X''), group = 4\<rparr>"

definition flag_of :: "char \<Rightarrow> u32 option" where
  "flag_of ch = (if ch = CHR ''-'' then Some MINUS else if ch = CHR ''+'' then Some PLUS else if ch = CHR '' '' then Some SPACE
     else if ch = CHR ''#'' then Some POUND else if ch = CHR ''0'' then Some ZERO else if ch = CHR 0x27 then Some GROUP else None)"

fun parse_flags :: "u32 \<Rightarrow> string \<Rightarrow> u32 \<times> string" where
  "parse_flags fl [] = (fl, [])"
| "parse_flags fl (ch # s) = (case flag_of ch of Some f \<Rightarrow> parse_flags (fl OR f) s | None \<Rightarrow> (fl, ch # s))"

fun parse_number :: "int \<Rightarrow> string \<Rightarrow> (int \<times> string) option" where
  "parse_number n [] = Some (n, [])"
| "parse_number n (ch # s) =
     (if isdigit ch
      then do {
        kassert (n * 10 + int (of_char ch) < 2 ^ 31);
        parse_number (n * 10 + int (of_char ch) - 48) s }
      else Some (n, ch # s))"

definition parse_width :: "string \<Rightarrow> varg list \<Rightarrow> (int \<times> string \<times> varg list) option" where
  "parse_width s as = (case s of
     CHR ''*'' # s \<Rightarrow> do { (w, as) \<leftarrow> va32 as; Some (sint w, s, as) }
   | _ \<Rightarrow> do { (w, s) \<leftarrow> parse_number 0 s; Some (w, s, as) })"

definition parse_precision :: "string \<Rightarrow> varg list \<Rightarrow> (int \<times> string \<times> varg list) option" where
  "parse_precision s as = (case s of
     CHR ''.'' # s \<Rightarrow> do { (p, s, as) \<leftarrow> parse_width s as; Some (if p < 0 then -1 else p, s, as) }
   | _ \<Rightarrow> Some (-1, s, as))"

definition parse_type :: "string \<Rightarrow> arg_type \<times> string" where
  "parse_type s = (case s of
     CHR ''h'' # CHR ''h'' # s \<Rightarrow> (CHAR_t, s)
   | CHR ''h'' # s \<Rightarrow> (SHORT, s)
   | CHR ''j'' # s \<Rightarrow> (INTMAX, s)
   | CHR ''l'' # CHR ''l'' # s \<Rightarrow> (LONGLONG, s)
   | CHR ''l'' # s \<Rightarrow> (LONG, s)
   | CHR ''t'' # s \<Rightarrow> (PTRDIFFT, s)
   | CHR ''z'' # s \<Rightarrow> (SIZET, s)
   | _ \<Rightarrow> (INT_t, s))"

text \<open>The conversion, the rest of the format from the conversion character on, and the arguments left.\<close>

definition parse_conversion :: "string \<Rightarrow> varg list \<Rightarrow> (printf_conversion \<times> string \<times> varg list) option" where
  "parse_conversion s as = do {
     let (fl, s) = parse_flags 0 s;
     let fl = (if fl AND MINUS \<noteq> 0 then fl AND NOT ZERO else fl);
     let fl = (if fl AND PLUS \<noteq> 0 then fl AND NOT SPACE else fl);
     (w, s, as) \<leftarrow> parse_width s as;
     kassert (w \<noteq> - (2 ^ 31));
     let (w, fl) = (if w < 0 then (- w, fl OR MINUS) else (w, fl));
     (p, s, as) \<leftarrow> parse_precision s as;
     let fl = (if 0 \<le> p then fl AND NOT ZERO else fl);
     let (t, s) = parse_type s;
     Some (\<lparr>flags = fl, width = w, precision = p, arg_type = t\<rparr>, s, as) }"

section \<open>Integers and strings\<close>

text \<open>The digits of a number, the least first, as they are stored in an array of 64 characters.\<close>

definition store :: "string \<Rightarrow> char \<Rightarrow> string option" where
  "store buf ch = do { kassert (length buf < 64); Some (buf @ [ch]) }"

partial_function (option) digits_loop :: "integer_base \<Rightarrow> bool \<Rightarrow> nat \<Rightarrow> nat \<Rightarrow> string \<Rightarrow> string option" where
  "digits_loop b grp v cnt buf =
     (if v > 0
      then do {
        buf \<leftarrow> (if grp \<and> cnt > 0 \<and> cnt mod group b = 0 then store buf (CHR '','') else Some buf);
        buf \<leftarrow> store buf (digits b ! (v mod base b));
        digits_loop b grp (v div base b) (cnt + 1) buf }
      else Some buf)"

definition output_dup :: "char \<Rightarrow> int \<Rightarrow> string" where "output_dup ch cnt = replicate (nat cnt) ch"

definition format_integer :: "nat \<Rightarrow> bool \<Rightarrow> bool \<Rightarrow> integer_base \<Rightarrow> printf_conversion \<Rightarrow> string option" where
  "format_integer v is_signed negative b c = do {
     let sign = (if is_signed
       then if flags c AND PLUS \<noteq> 0 then if negative then ''-'' else ''+''
            else if flags c AND SPACE \<noteq> 0 then if negative then ''-'' else '' ''
            else if negative then ''-'' else ''''
       else '''');
     let x = (if flags c AND POUND \<noteq> 0 \<and> v \<noteq> 0 then x_char b else None);
     buf \<leftarrow> digits_loop b (flags c AND GROUP \<noteq> 0) v 0 '''';
     let prec = (if precision c < 0 then 1 else precision c);
     let buf = buf @ replicate (nat (min prec 63 - int (length buf))) (CHR ''0'');
     buf \<leftarrow> (if flags c AND POUND \<noteq> 0 \<and> base b = 8 \<and> (buf = '''' \<or> last buf \<noteq> CHR ''0'')
              then store buf (CHR ''0'') else Some buf);
     let pad_cnt = width c - int (length buf) - (if x \<noteq> None then 2 else 0) - (if sign \<noteq> '''' then 1 else 0);
     let pad_cnt = (if pad_cnt < 0 then 0 else pad_cnt);
     Some ((if flags c AND (MINUS OR ZERO) = 0 then output_dup (CHR '' '') pad_cnt else '''') @ sign @
       (case x of Some ch \<Rightarrow> [CHR ''0'', ch] | None \<Rightarrow> '''') @
       (if flags c AND ZERO \<noteq> 0 then output_dup (CHR ''0'') pad_cnt else '''') @ rev buf @
       (if flags c AND MINUS \<noteq> 0 then output_dup (CHR '' '') pad_cnt else '''')) }"

definition format_string :: "string \<Rightarrow> printf_conversion \<Rightarrow> string" where
  "format_string s c =
     (if width c > int (length s) \<and> flags c AND MINUS = 0 then output_dup (CHR '' '') (width c - int (length s)) else '''') @ s @
     (if width c > int (length s) \<and> flags c AND MINUS \<noteq> 0 then output_dup (CHR '' '') (width c - int (length s)) else '''')"

definition signed_arg :: "arg_type \<Rightarrow> varg list \<Rightarrow> (int \<times> varg list) option" where
  "signed_arg t as = (case t of
     CHAR_t \<Rightarrow> do { (w, as) \<leftarrow> va32 as; Some (sint (ucast w :: 8 word), as) }
   | SHORT \<Rightarrow> do { (w, as) \<leftarrow> va32 as; Some (sint (ucast w :: 16 word), as) }
   | INTMAX \<Rightarrow> do { (w, as) \<leftarrow> va64 as; Some (sint w, as) }
   | LONGLONG \<Rightarrow> do { (w, as) \<leftarrow> va64 as; Some (sint w, as) }
   | SIZET \<Rightarrow> do { (w, as) \<leftarrow> va32 as; Some (if uint w > 0x7FFFFFFF then uint w - 0xFFFFFFFF - 1 else uint w, as) }
   | _ \<Rightarrow> do { (w, as) \<leftarrow> va32 as; Some (sint w, as) })"

definition unsigned_arg :: "arg_type \<Rightarrow> varg list \<Rightarrow> (nat \<times> varg list) option" where
  "unsigned_arg t as = (case t of
     CHAR_t \<Rightarrow> do { (w, as) \<leftarrow> va32 as; Some (unat (ucast w :: 8 word), as) }
   | SHORT \<Rightarrow> do { (w, as) \<leftarrow> va32 as; Some (unat (ucast w :: 16 word), as) }
   | INTMAX \<Rightarrow> do { (w, as) \<leftarrow> va64 as; Some (unat w, as) }
   | LONGLONG \<Rightarrow> do { (w, as) \<leftarrow> va64 as; Some (unat w, as) }
   | PTRDIFFT \<Rightarrow> do { (w, as) \<leftarrow> va32 as; Some (unat ((scast w :: u64) AND 0xFFFFFFFF), as) }
   | _ \<Rightarrow> do { (w, as) \<leftarrow> va32 as; Some (unat w, as) })"

text \<open>A precision of -1 is the greatest \<^verbatim>\<open>size_t\<close>.\<close>

definition strnlen_prefix :: "string \<Rightarrow> int \<Rightarrow> string" where
  "strnlen_prefix s p = (if p < 0 then s else take (nat p) s)"

section \<open>Formats\<close>

definition do_conversion :: "char \<Rightarrow> printf_conversion \<Rightarrow> varg list \<Rightarrow> (string \<times> varg list) option" where
  "do_conversion ch c as =
     (if ch \<in> set ''di''
      then do {
        (v, as) \<leftarrow> signed_arg (arg_type c) as;
        out \<leftarrow> format_integer (nat \<bar>v\<bar>) True (v < 0) base_d c;
        Some (out, as) }
      else if ch \<in> set ''ouxX''
      then do {
        (v, as) \<leftarrow> unsigned_arg (arg_type c) as;
        let b = (if ch = CHR ''o'' then base_o else if ch = CHR ''u'' then base_d else if ch = CHR ''x'' then base_x else base_X);
        out \<leftarrow> format_integer v False False b c;
        Some (out, as) }
      else if ch = CHR ''c''
      then do { (w, as) \<leftarrow> va32 as; Some (format_string [char_of (unat w)] c, as) }
      else if ch = CHR ''s''
      then do {
        (s, as) \<leftarrow> vastr as;
        Some (format_string (strnlen_prefix (case s of None \<Rightarrow> ''(null)'' | Some s \<Rightarrow> s) (precision c)) c, as) }
      else do {
        (p, as) \<leftarrow> va32 as;
        out \<leftarrow> format_integer (unat p) False False base_x (c\<lparr>flags := POUND\<rparr>);
        Some (out, as) })"

partial_function (option) vprintf :: "string \<Rightarrow> varg list \<Rightarrow> string option" where
  "vprintf fmt as = (case fmt of
     [] \<Rightarrow> Some ''''
   | f # fmt \<Rightarrow>
       if f \<noteq> CHR ''%'' then do { out \<leftarrow> vprintf fmt as; Some (f # out) }
       else if fmt \<noteq> '''' \<and> hd fmt = CHR ''%'' then do { out \<leftarrow> vprintf (tl fmt) as; Some (CHR ''%'' # out) }
       else do {
         (c, fmt, as) \<leftarrow> parse_conversion fmt as;
         (case fmt of
            [] \<Rightarrow> None
          | ch # fmt \<Rightarrow> do {
              (out, as) \<leftarrow>
                (if ch \<in> set ''diouxXcsp'' then do_conversion ch c as
                 else do {
                   out \<leftarrow> vprintf (if ch \<in> set ''feEgGn'' then ''<<no %%%c in kernel>>'' else ''<<no %%%c conversion>>'') [A32 (of_nat (of_char ch))];
                   Some (out, as) });
              rest \<leftarrow> vprintf fmt as;
              Some (out @ rest) }) })"

text \<open>\<^verbatim>\<open>vsnprintf_helper\<close> for each character: the buffer, the position in it and the length so far.\<close>

fun vsnprintf_helper :: "nat \<Rightarrow> string \<Rightarrow> string \<times> nat \<times> nat \<Rightarrow> string \<times> nat \<times> nat" where
  "vsnprintf_helper max_length [] s = s"
| "vsnprintf_helper max_length (ch # out) (buf, p, len) =
     vsnprintf_helper max_length out (if len < max_length then (buf[p := ch], p + 1, len + 1) else (buf, p, len + 1))"

definition vsnprintf :: "string \<Rightarrow> nat \<Rightarrow> string \<Rightarrow> varg list \<Rightarrow> (nat \<times> string) option" where
  "vsnprintf buffer buf_size fmt as = do {
     kassert (buf_size \<le> length buffer);
     out \<leftarrow> vprintf fmt as;
     let (buf, p, len) = vsnprintf_helper (if buf_size > 0 then buf_size - 1 else 0) out (buffer, 0, 0);
     Some (len, if buf_size > 0 then buf[p := CHR 0x00] else buf) }"

definition snprintf :: "string \<Rightarrow> nat \<Rightarrow> string \<Rightarrow> varg list \<Rightarrow> (nat \<times> string) option" where
  "snprintf buffer buf_size fmt as = vsnprintf buffer buf_size fmt as"


section \<open>The digits\<close>

function rev_digits :: "integer_base \<Rightarrow> nat \<Rightarrow> string" where
  "rev_digits b v = (if v = 0 \<or> base b \<le> 1 then '''' else digits b ! (v mod base b) # rev_digits b (v div base b))"
  by pat_completeness auto
termination by (relation "measure snd") (auto simp: div_less_dividend)

declare rev_digits.simps [simp del]

lemma digits_loop_run:
  "v < base b ^ n \<Longrightarrow> 1 < base b \<Longrightarrow> length buf + n \<le> 64 \<Longrightarrow> digits_loop b False v cnt buf = Some (buf @ rev_digits b v)"
proof (induction n arbitrary: v cnt buf)
  case 0
  then show ?case by (subst digits_loop.simps) (simp add: rev_digits.simps)
next
  case (Suc n)
  show ?case
  proof (cases "v = 0")
    case False
    have "v div base b < base b ^ n" using Suc.prems(1,2) by (simp add: div_less_iff_less_mult mult.commute)
    from Suc.IH [OF this Suc.prems(2), of "buf @ [digits b ! (v mod base b)]" "cnt + 1"] Suc.prems(2,3)
    show ?thesis using False by (subst digits_loop.simps, subst rev_digits.simps) (simp add: store_def)
  qed (subst digits_loop.simps, simp add: rev_digits.simps)
qed

lemma rev_digits_length:
  "v < base b ^ n \<Longrightarrow> length (rev_digits b v) \<le> n"
proof (induction n arbitrary: v)
  case (Suc n)
  show ?case
  proof (cases "v = 0 \<or> base b \<le> 1")
    case False
    then have "v div base b < base b ^ n" using Suc.prems by (simp add: div_less_iff_less_mult mult.commute)
    from Suc.IH [OF this] show ?thesis using False by (subst rev_digits.simps) simp
  qed (simp add: rev_digits.simps)
qed (simp add: rev_digits.simps)

lemma digit_chars_d: "d < 10 \<Longrightarrow> digits base_d ! d = char_of (48 + d)"
proof -
  assume "d < 10"
  then have "d = 0 \<or> d = 1 \<or> d = 2 \<or> d = 3 \<or> d = 4 \<or> d = 5 \<or> d = 6 \<or> d = 7 \<or> d = 8 \<or> d = 9" by arith
  then show ?thesis by (elim disjE) (simp_all add: base_d_def char_of_def bit_0)
qed

lemma digit_chars_o: "d < 8 \<Longrightarrow> digits base_o ! d = char_of (48 + d)"
proof -
  assume "d < 8"
  then have "d = 0 \<or> d = 1 \<or> d = 2 \<or> d = 3 \<or> d = 4 \<or> d = 5 \<or> d = 6 \<or> d = 7" by arith
  then show ?thesis by (elim disjE) (simp_all add: base_o_def char_of_def bit_0)
qed

lemmas digit_chars = digit_chars_d digit_chars_o

lemma rev_digits_decimal: "0 < v \<Longrightarrow> rev (rev_digits base_d v) = show_nat v"
proof (induction v rule: less_induct)
  case (less v)
  have b: "base base_d = 10" by (simp add: base_d_def)
  show ?case
  proof (cases "v < 10")
    case True
    then show ?thesis using less.prems
      by (subst rev_digits.simps, subst show_nat.simps) (simp add: b digit_chars rev_digits.simps)
  next
    case False
    then have "0 < v div 10" "v div 10 < v" by auto
    from less.IH [OF this(2,1)] show ?thesis using False
      by (subst rev_digits.simps, subst show_nat.simps) (simp add: b digit_chars)
  qed
qed

text \<open>An unsigned number below the greatest has room in the array for any base, without commas.\<close>

lemma format_plain:
  assumes "v < base b ^ 62" "1 < base b" "flags c AND GROUP = 0" "flags c AND POUND = 0" "precision c = -1"
    and "flags c AND PLUS = 0" "flags c AND SPACE = 0"
  shows "format_integer v sg neg b c =
    (let sign = (if sg \<and> neg then ''-'' else ''''); ds = (if v = 0 then ''0'' else rev (rev_digits b v));
         pad = width c - int (length sign + length ds) in
     Some ((if flags c AND (MINUS OR ZERO) = 0 then output_dup (CHR '' '') pad else '''') @ sign @
       (if flags c AND ZERO \<noteq> 0 then output_dup (CHR ''0'') pad else '''') @ ds @
       (if flags c AND MINUS \<noteq> 0 then output_dup (CHR '' '') pad else '''')))"
proof -
  define buf where "buf = (if v = 0 then ''0'' else rev (rev_digits b v))"
  have l: "digits_loop b False v 0 '''' = Some (rev_digits b v)"
    using digits_loop_run [OF assms(1,2), of "''''" 0] by simp
  have nz: "rev_digits b v \<noteq> ''''" if "v \<noteq> 0" using that assms(2) by (subst rev_digits.simps) simp
  have rep: "rev (rev_digits b v @ replicate (nat (min 1 63 - int (length (rev_digits b v)))) (CHR ''0'')) = buf"
    using nz by (cases "v = 0") (simp_all add: rev_digits.simps Suc_le_eq buf_def)
  then have len: "length (rev_digits b v @ replicate (nat (min 1 63 - int (length (rev_digits b v)))) (CHR ''0'')) = length buf"
    by (metis length_rev)
  have dup: "output_dup ch (if p < 0 then 0 else p) = output_dup ch p" for ch p by (simp add: output_dup_def)
  have neg: "precision c < 0" "(if precision c < 0 then 1 else precision c) = 1" using assms(5) by simp_all
  show ?thesis
    unfolding format_integer_def Let_def neg assms(3,4,6,7) l simp_thms if_False bind.bind_lunit len rep dup buf_def [symmetric]
      if_True not_True_eq_False HOL.simp_thms
    by (cases sg; cases neg) (simp_all add: diff_diff_eq add.commute cong: if_cong split del: if_split)
qed

section \<open>The buffer of \<^verbatim>\<open>vsnprintf\<close>\<close>

lemma vsnprintf_helper_full:
  "m \<le> len \<Longrightarrow> vsnprintf_helper m out (buf, p, len) = (buf, p, len + length out)"
  by (induction out arbitrary: len) auto

lemma vsnprintf_helper_run:
  "p \<le> m \<Longrightarrow> m \<le> length buf \<Longrightarrow> vsnprintf_helper m out (buf, p, p) =
     (take p buf @ take (m - p) out @ drop (min m (p + length out)) buf, min m (p + length out), p + length out)"
proof (induction out arbitrary: buf p)
  case Nil
  then show ?case by (simp add: min_def)
next
  case (Cons ch out)
  show ?case
  proof (cases "p < m")
    case True
    have "take (Suc p) (buf[p := ch]) = take p buf @ [ch]" using True Cons.prems(2) by (simp add: take_Suc_conv_app_nth)
    moreover have "take (m - p) (ch # out) = ch # take (m - Suc p) out" using True by (simp add: take_Cons')
    moreover have "drop (min m (Suc p + length out)) (buf[p := ch]) = drop (min m (Suc p + length out)) buf"
      using True by (simp add: min_def)
    ultimately show ?thesis using True Cons.IH [of "p + 1" "buf[p := ch]"] Cons.prems(2) by simp
  next
    case False
    then show ?thesis using Cons.prems by (simp add: vsnprintf_helper_full)
  qed
qed

lemma vsnprintf_run:
  assumes "buf_size \<le> length buffer" and "vprintf fmt as = Some out"
  shows "vsnprintf buffer buf_size fmt as = Some (length out,
    if buf_size = 0 then buffer
    else take (buf_size - 1) out @ CHR 0x00 # drop (min (buf_size - 1) (length out) + 1) buffer)"
proof (cases "buf_size = 0")
  case True
  then show ?thesis using assms by (simp add: vsnprintf_def vsnprintf_helper_full)
next
  case False
  let ?k = "min (buf_size - 1) (length out)"
  have h: "vsnprintf_helper (buf_size - 1) out (buffer, 0, 0) = (take (buf_size - 1) out @ drop ?k buffer, ?k, length out)"
    using vsnprintf_helper_run [of 0 "buf_size - 1" buffer out] assms(1) by simp
  have k: "length (take (buf_size - 1) out) = ?k" "?k < length buffer" using False assms(1) by auto
  have "(take (buf_size - 1) out @ drop ?k buffer)[?k := CHR 0x00] = take (buf_size - 1) out @ CHR 0x00 # drop (?k + 1) buffer"
    using k by (simp add: list_update_append Cons_nth_drop_Suc [symmetric] del: length_take)
  then show ?thesis using False assms h by (simp add: vsnprintf_def)
qed

text \<open>\<^verbatim>\<open>vsnprintf\<close> returns the length of the whole output, stores as much of it as fits with a terminator behind it, and
  writes nothing else: nothing at all into a buffer of no bytes.
\<close>

theorem vsnprintf_is_bounded:
  assumes "buf_size \<le> length buffer" and "vprintf fmt as = Some out"
  shows "vsnprintf buffer buf_size fmt as = Some (length out,
    if buf_size = 0 then buffer
    else take (buf_size - 1) out @ CHR 0x00 # drop (min (buf_size - 1) (length out) + 1) buffer)"
  by (rule vsnprintf_run [OF assms])

section \<open>Conversions of a whole format\<close>

lemma vprintf_nil [simp]: "vprintf '''' as = Some ''''"
  by (subst vprintf.simps) simp

lemma vprintf_plain: "f \<noteq> CHR ''%'' \<Longrightarrow> vprintf (f # fmt) as = do { out \<leftarrow> vprintf fmt as; Some (f # out) }"
  by (subst vprintf.simps) simp

lemma vprintf_percent: "vprintf (CHR ''%'' # CHR ''%'' # fmt) as = do { out \<leftarrow> vprintf fmt as; Some (CHR ''%'' # out) }"
  by (subst vprintf.simps) simp

lemma vprintf_conversion:
  assumes "fmt = '''' \<or> hd fmt \<noteq> CHR ''%''" and "parse_conversion fmt as = Some (c, ch # rest, as')"
    and "ch \<in> set ''diouxXcsp''"
  shows "vprintf (CHR ''%'' # fmt) as = do { (out, as') \<leftarrow> do_conversion ch c as'; out' \<leftarrow> vprintf rest as'; Some (out @ out') }"
  using assms by (subst vprintf.simps) auto

text \<open>A format that ends in a single percent sign makes \<^verbatim>\<open>__vprintf\<close> read behind its end.\<close>

theorem percent_at_end_overruns:
  assumes "\<forall>ch \<in> set plain. ch \<noteq> CHR ''%''"
  shows "vprintf (plain @ ''%'') as = None"
  using assms
proof (induction plain)
  case Nil
  have "parse_conversion '''' as = Some (\<lparr>flags = 0, width = 0, precision = -1, arg_type = INT_t\<rparr>, '''', as)"
    by (simp add: parse_conversion_def parse_width_def parse_precision_def parse_type_def)
  then show ?case by (subst append_Nil, subst vprintf.simps) simp
next
  case (Cons ch plain)
  then show ?case by (simp add: vprintf_plain)
qed

section \<open>Decimal numbers\<close>

lemma parse_conversion_plain:
  "ch \<in> set ''diouxXcsp'' \<Longrightarrow> parse_conversion (ch # fmt) as = Some (\<lparr>flags = 0, width = 0, precision = -1, arg_type = INT_t\<rparr>, ch # fmt, as)"
  by (elim set_ConsD [elim_format] disjE; simp add: parse_conversion_def parse_width_def parse_precision_def parse_type_def flag_of_def isdigit_def)

lemma u32_below_digits: "1 < (b :: nat) \<Longrightarrow> v < 2 ^ 32 \<Longrightarrow> v < b ^ 62"
proof -
  assume "1 < b" "v < 2 ^ 32"
  moreover have "2 ^ 62 \<le> b ^ 62" using \<open>1 < b\<close> by (intro power_mono) auto
  ultimately show ?thesis by simp
qed

lemma format_decimal:
  assumes "\<bar>v\<bar> < 2 ^ 32"
  shows "format_integer (nat \<bar>v\<bar>) True (v < 0) base_d \<lparr>flags = 0, width = 0, precision = -1, arg_type = t\<rparr> = Some (show_int v)"
proof -
  have b: "nat \<bar>v\<bar> < base base_d ^ 62" "1 < base base_d"
    using assms u32_below_digits [of "base base_d" "nat \<bar>v\<bar>"] by (simp_all add: base_d_def)
  have z: "show_nat 0 = ''0''" by (subst show_nat.simps) (simp add: char_of_def bit_0)
  show ?thesis
    using rev_digits_decimal [of "nat \<bar>v\<bar>"] z
    by (subst format_plain [OF b]) (auto simp: show_int_def output_dup_def Let_def)
qed

lemma vprintf_int: "vprintf (CHR ''%'' # CHR ''d'' # fmt) (A32 w # as) = do { out \<leftarrow> vprintf fmt as; Some (show_int (sint w) @ out) }"
proof -
  have "\<bar>sint w\<bar> < 2 ^ 32" using sint_greater_eq [of w] sint_less [of w] by simp
  then show ?thesis
    by (subst vprintf_conversion [OF _ parse_conversion_plain])
      (simp_all add: do_conversion_def signed_arg_def format_decimal)
qed

text \<open>\<^verbatim>\<open>snprintf\<close> with the format \<^verbatim>\<open>%d\<close> and \<^verbatim>\<open>atoi\<close> are inverse: every \<^verbatim>\<open>int\<close> printed into a buffer with room for it is read
  back, whatever the buffer held.
\<close>

theorem snprintf_atoi_roundtrip:
  assumes "length (show_int (sint w)) < buf_size" "buf_size \<le> length buffer"
  shows "\<exists>buf. snprintf buffer buf_size ''%d'' [A32 w] = Some (length (show_int (sint w)), buf) \<and> length buf = length buffer \<and>
    atoi buf = Some (sint w)"
proof -
  let ?s = "show_int (sint w)"
  have o: "vprintf ''%d'' [A32 w] = Some ?s" by (simp add: vprintf_int)
  have "vsnprintf buffer buf_size ''%d'' [A32 w] = Some (length ?s, ?s @ CHR 0x00 # drop (length ?s + 1) buffer)"
    using vsnprintf_run [OF assms(2) o] assms(1) by simp
  moreover have "atoi ('''' @ ?s @ CHR 0x00 # drop (length ?s + 1) buffer) = Some (sint w)"
    using atoi_reads_decimal [of "''''" "CHR 0x00 # drop (length ?s + 1) buffer" "sint w"] sint_greater_eq [of w] sint_less [of w]
    by (simp add: isdigit_def)
  ultimately show ?thesis using assms by (simp add: snprintf_def)
qed

theorem snprintf_atoi_roundtrip_witness:
  "\<exists>buf. snprintf (replicate 8 CHR ''9'') 8 ''%d'' [A32 (- 70)] = Some (3, buf) \<and> atoi buf = Some (- 70)"
proof -
  have "show_int (sint (- 70 :: u32)) = ''-70''"
    by (simp add: show_int_def show_nat.simps char_of_def bit_0)
  then show ?thesis using snprintf_atoi_roundtrip [of "- 70" 8 "replicate 8 CHR ''9''"] by auto
qed

theorem vsnprintf_is_bounded_witness:
  "vsnprintf ''????'' 4 ''%d'' [A32 12345] = Some (5, ''123'' @ [CHR 0x00]) \<and> vsnprintf ''????'' 0 ''%d'' [A32 12345] = Some (5, ''????'')"
proof -
  have "vprintf ''%d'' [A32 12345] = Some ''12345''"
    by (simp add: vprintf_int show_int_def show_nat.simps char_of_def bit_0)
  from vsnprintf_is_bounded [OF _ this, of 4 "''????''"] vsnprintf_is_bounded [OF _ this, of 0 "''????''"]
  show ?thesis by (simp add: numeral_eq_Suc)
qed

end
