(* ===== verification/Ustar.thy ===== *)
theory Ustar
  imports Stdio
begin

text \<open>
  Headers of tar archives, \<^verbatim>\<open>lib/ustar.c\<close>. A header is the string of its 512 bytes, on which the code lays
  \<^verbatim>\<open>struct ustar_header\<close>; a field is given by its offset and its size. A file name is a C string without
  the null byte that ends it. Numbers are written by \<^verbatim>\<open>snprintf\<close> of theory Stdio.
\<close>

section \<open>Fields\<close>

datatype ustar_type = USTAR_REGULAR | USTAR_DIRECTORY | USTAR_EOF

definition NUL :: char where "NUL = CHR 0x00"
definition USTAR_HEADER_SIZE :: nat where "USTAR_HEADER_SIZE = 512"

definition h_name :: "nat \<times> nat" where "h_name = (0, 100)"
definition h_mode :: "nat \<times> nat" where "h_mode = (100, 8)"
definition h_uid :: "nat \<times> nat" where "h_uid = (108, 8)"
definition h_gid :: "nat \<times> nat" where "h_gid = (116, 8)"
definition h_size :: "nat \<times> nat" where "h_size = (124, 12)"
definition h_mtime :: "nat \<times> nat" where "h_mtime = (136, 12)"
definition h_chksum :: "nat \<times> nat" where "h_chksum = (148, 8)"
definition h_typeflag :: "nat \<times> nat" where "h_typeflag = (156, 1)"
definition h_magic :: "nat \<times> nat" where "h_magic = (257, 6)"
definition h_version :: "nat \<times> nat" where "h_version = (263, 2)"
definition h_uname :: "nat \<times> nat" where "h_uname = (265, 32)"
definition h_gname :: "nat \<times> nat" where "h_gname = (297, 32)"
definition h_prefix :: "nat \<times> nat" where "h_prefix = (345, 155)"

lemmas field_defs = h_name_def h_mode_def h_uid_def h_gid_def h_size_def h_mtime_def h_chksum_def
  h_typeflag_def h_magic_def h_version_def h_uname_def h_gname_def h_prefix_def

definition fld :: "string \<Rightarrow> nat \<times> nat \<Rightarrow> string" where
  "fld h f = take (snd f) (drop (fst f) h)"

definition put :: "nat \<times> nat \<Rightarrow> string \<Rightarrow> string \<Rightarrow> string" where
  "put f bs h = take (fst f) h @ bs @ drop (fst f + length bs) h"

text \<open>\<^verbatim>\<open>strlcpy\<close> and \<^verbatim>\<open>snprintf\<close> into a field, with the size of the field.\<close>

definition strlcpy_field :: "nat \<times> nat \<Rightarrow> string \<Rightarrow> string \<Rightarrow> string" where
  "strlcpy_field f s h = put f (take (snd f - 1) s @ [NUL]) h"

definition snprintf_field :: "nat \<times> nat \<Rightarrow> string \<Rightarrow> varg list \<Rightarrow> string \<Rightarrow> string option" where
  "snprintf_field f fmt as h = do {
     (n, b) \<leftarrow> snprintf (drop (fst f) h) (snd f) fmt as;
     Some (take (fst f) h @ b) }"

definition type_char :: "ustar_type \<Rightarrow> char" where
  "type_char t = (case t of USTAR_REGULAR \<Rightarrow> CHR ''0'' | USTAR_DIRECTORY \<Rightarrow> CHR ''5'' | USTAR_EOF \<Rightarrow> CHR 0xFF)"

section \<open>The code\<close>

definition calculate_chksum :: "string \<Rightarrow> u32" where
  "calculate_chksum h =
     foldl (\<lambda>chksum i.
       let in_chksum_field = fst h_chksum \<le> i \<and> i < fst h_chksum + snd h_chksum in
       chksum + (if in_chksum_field then of_char CHR '' '' else of_char (h ! i))) 0 [0..<USTAR_HEADER_SIZE]"

definition antisocial :: "string \<Rightarrow> bool" where
  "antisocial s \<longleftrightarrow> take 1 s = ''/'' \<or> take 2 s = ''./'' \<or> take 3 s = ''../''"

function strip_loop :: "string \<Rightarrow> string" where
  "strip_loop s = (if antisocial s then strip_loop (tl (dropWhile (\<lambda>c. c \<noteq> CHR ''/'') s)) else s)"
  by pat_completeness auto
termination
proof (relation "measure length")
  fix s assume "antisocial s"
  then have "dropWhile (\<lambda>c. c \<noteq> CHR ''/'') s \<noteq> []" "length (dropWhile (\<lambda>c. c \<noteq> CHR ''/'') s) \<le> length s"
    by (cases s; cases "tl s"; cases "tl (tl s)"; auto simp: antisocial_def length_dropWhile_le)+
  then show "(tl (dropWhile (\<lambda>c. c \<noteq> CHR ''/'') s), s) \<in> measure length"
    by (cases "dropWhile (\<lambda>c. c \<noteq> CHR ''/'') s") auto
qed simp

declare strip_loop.simps [simp del]

definition strip_antisocial_prefixes :: "string \<Rightarrow> string" where
  "strip_antisocial_prefixes file_name =
     (let s = strip_loop file_name in if s = '''' \<or> s = ''..'' then ''.'' else s)"

definition ustar_make_header :: "string \<Rightarrow> ustar_type \<Rightarrow> u32 \<Rightarrow> string \<Rightarrow> (bool \<times> string) option" where
  "ustar_make_header file_name type fsize h = do {
     kassert (type = USTAR_REGULAR \<or> type = USTAR_DIRECTORY);
     let file_name = strip_antisocial_prefixes file_name;
     if length file_name > 99 then Some (False, h)
     else do {
       let h = put (0, USTAR_HEADER_SIZE) (replicate USTAR_HEADER_SIZE NUL) h;
       let h = strlcpy_field h_name file_name h;
       h \<leftarrow> snprintf_field h_mode ''%07o'' [A32 (if type = USTAR_REGULAR then 420 else 493)] h;
       let h = strlcpy_field h_uid ''0000000'' h;
       let h = strlcpy_field h_gid ''0000000'' h;
       h \<leftarrow> snprintf_field h_size ''%011o'' [A32 fsize] h;
       h \<leftarrow> snprintf_field h_mtime ''%011o'' [A32 1136102400] h;
       let h = put h_typeflag [type_char type] h;
       let h = strlcpy_field h_magic ''ustar'' h;
       let h = put h_version ''00'' h;
       let h = strlcpy_field h_gname ''root'' h;
       let h = strlcpy_field h_uname ''root'' h;
       h \<leftarrow> snprintf_field h_chksum ''%07o'' [A32 (calculate_chksum h)] h;
       Some (True, h) } }"

text \<open>The bytes of the field from the offset \<open>ofs\<close> on.\<close>

fun parse_octal_loop :: "nat \<Rightarrow> u32 \<Rightarrow> string \<Rightarrow> u32 option" where
  "parse_octal_loop ofs value [] = None"
| "parse_octal_loop ofs value (c # s) =
     (if 48 \<le> (of_char c :: nat) \<and> (of_char c :: nat) \<le> 55
      then if value > 0xFFFFFFFF div 8 then None else parse_octal_loop (ofs + 1) (of_char c - 48 + value * 8) s
      else if c = CHR '' '' \<or> c = NUL then (if ofs > 0 then Some value else None)
      else None)"

definition parse_octal_field :: "string \<Rightarrow> u32 option" where
  "parse_octal_field s = parse_octal_loop 0 0 s"

fun is_all_zeros :: "string \<Rightarrow> bool" where
  "is_all_zeros [] = True"
| "is_all_zeros (c # s) = (if c \<noteq> NUL then False else is_all_zeros s)"

definition ustar_parse_header :: "string \<Rightarrow> string + (string option \<times> ustar_type \<times> u32)" where
  "ustar_parse_header h =
     (if is_all_zeros h then Inr (None, USTAR_EOF, 0)
      else if fld h h_magic \<noteq> ''ustar'' @ [NUL] then Inl ''not a ustar archive''
      else if fld h h_version \<noteq> ''00'' then Inl ''invalid ustar version''
      else (case parse_octal_field (fld h h_chksum) of
        None \<Rightarrow> Inl ''corrupt chksum field''
      | Some chksum \<Rightarrow>
          if chksum \<noteq> calculate_chksum h then Inl ''checksum mismatch''
          else if fld h h_name ! 99 \<noteq> NUL \<or> fld h h_prefix ! 0 \<noteq> NUL then Inl ''file name too long''
          else if fld h h_typeflag \<noteq> [type_char USTAR_REGULAR] \<and> fld h h_typeflag \<noteq> [type_char USTAR_DIRECTORY]
          then Inl ''unimplemented file type''
          else
            let name = strip_antisocial_prefixes (takeWhile (\<lambda>c. c \<noteq> NUL) (fld h h_name)) in
            if fld h h_typeflag = [type_char USTAR_REGULAR]
            then (case parse_octal_field (fld h h_size) of
              None \<Rightarrow> Inl ''corrupt file size field''
            | Some sz \<Rightarrow>
                if sz > 0x7FFFFFFF then Inl ''file too large'' else Inr (Some name, USTAR_REGULAR, sz))
            else Inr (Some name, USTAR_DIRECTORY, 0)))"

section \<open>Reading and writing of fields\<close>

lemma field_sel:
  "fst h_name = 0" "snd h_name = 100"
  "fst h_mode = 100" "snd h_mode = 8"
  "fst h_uid = 108" "snd h_uid = 8"
  "fst h_gid = 116" "snd h_gid = 8"
  "fst h_size = 124" "snd h_size = 12"
  "fst h_mtime = 136" "snd h_mtime = 12"
  "fst h_chksum = 148" "snd h_chksum = 8"
  "fst h_typeflag = 156" "snd h_typeflag = 1"
  "fst h_magic = 257" "snd h_magic = 6"
  "fst h_version = 263" "snd h_version = 2"
  "fst h_uname = 265" "snd h_uname = 32"
  "fst h_gname = 297" "snd h_gname = 32"
  "fst h_prefix = 345" "snd h_prefix = 155"
  by (simp_all add: field_defs)

lemma length_put: "fst f + length bs \<le> length h \<Longrightarrow> length (put f bs h) = length h"
  by (simp add: put_def)

lemma fld_put_same: "length bs = snd f \<Longrightarrow> fst f + snd f \<le> length h \<Longrightarrow> fld (put f bs h) f = bs"
  by (simp add: fld_def put_def)

lemma fld_put_shorter:
  "length bs \<le> snd f \<Longrightarrow> fst f + snd f \<le> length h \<Longrightarrow> fld (put f bs h) f = bs @ drop (length bs) (fld h f)"
  by (simp add: fld_def put_def drop_take add.commute)

lemma nth_put:
  "fst f + length bs \<le> length h \<Longrightarrow>
   put f bs h ! i = (if fst f \<le> i \<and> i < fst f + length bs then bs ! (i - fst f) else h ! i)"
  by (auto simp: put_def nth_append)

lemma fld_put_other:
  "fst g + snd g \<le> fst f \<or> fst f + length bs \<le> fst g \<Longrightarrow> fst f + length bs \<le> length h \<Longrightarrow> fld (put f bs h) g = fld h g"
  by (rule nth_equalityI) (auto simp: fld_def length_put nth_put)

section \<open>Octal numbers\<close>

lemma rev_octal: "rev_digits base_o v = (if v = 0 then '''' else char_of (48 + v mod 8) # rev_digits base_o (v div 8))"
proof -
  have "base base_o = 8" by (simp add: base_o_def)
  then show ?thesis by (subst rev_digits.simps) (simp add: digit_chars)
qed

lemma octal_digits: "rev (rev_digits base_o v) = (if v = 0 then '''' else rev (rev_digits base_o (v div 8)) @ [char_of (48 + v mod 8)])"
  by (subst rev_octal) simp

lemma octal_char: "d < 8 \<Longrightarrow> (of_char (char_of (48 + d :: nat)) :: nat) = 48 + d"
  by simp

lemma octal_char_word: "d < 8 \<Longrightarrow> (of_char (char_of (48 + d :: nat)) :: u32) = 48 + of_nat d"
proof -
  assume "d < 8"
  then have "d = 0 \<or> d = 1 \<or> d = 2 \<or> d = 3 \<or> d = 4 \<or> d = 5 \<or> d = 6 \<or> d = 7" by arith
  then show ?thesis by (elim disjE) (simp_all add: char_of_def bit_0)
qed

lemma parse_octal_digits:
  "v < 2 ^ 32 \<Longrightarrow> \<exists>k. parse_octal_loop ofs 0 (rev (rev_digits base_o v) @ s) = parse_octal_loop (ofs + k) (of_nat v) s \<and> (0 < v \<longrightarrow> 0 < k)"
proof (induction v arbitrary: s rule: less_induct)
  case (less v)
  show ?case
  proof (cases "v = 0")
    case True
    then show ?thesis by (intro exI [of _ 0]) (simp add: rev_digits.simps)
  next
    case False
    let ?c = "char_of (48 + v mod 8) :: char"
    have d: "(of_char ?c :: nat) = 48 + v mod 8" "(of_char ?c :: u32) = 48 + of_nat (v mod 8)"
      by (intro octal_char octal_char_word, simp)+
    have small: "\<not> 0xFFFFFFFF div 8 < (of_nat (v div 8) :: u32)"
      using less.prems by (simp add: word_less_nat_alt unat_of_nat take_bit_nat_eq_self)
    have val: "(48 + of_nat (v mod 8) - 48 + of_nat (v div 8) * 8 :: u32) = of_nat v"
    proof -
      have "(of_nat (v mod 8) + of_nat (v div 8) * 8 :: u32) = of_nat (v mod 8 + v div 8 * 8)"
        by (simp only: of_nat_add of_nat_mult of_nat_numeral)
      then show ?thesis by (simp only: mod_div_mult_eq add_diff_cancel_left')
    qed
    obtain k where k: "parse_octal_loop ofs 0 (rev (rev_digits base_o (v div 8)) @ ?c # s) = parse_octal_loop (ofs + k) (of_nat (v div 8)) (?c # s)"
    proof -
      have "v div 8 < v" "v div 8 < 2 ^ 32" using less.prems False by auto
      from less.IH [OF this, of "?c # s"] show ?thesis using that by blast
    qed
    have step: "parse_octal_loop (ofs + k) (of_nat (v div 8)) (?c # s) = parse_octal_loop (ofs + k + 1) (of_nat v) s"
    proof -
      have "v mod 8 \<le> 7" using mod_less_divisor [of 8 v] by linarith
      then show ?thesis using small val d by simp
    qed
    show ?thesis
      by (rule exI [of _ "k + 1"]) (use False octal_digits [of v] k step in simp)
  qed
qed

lemma parse_octal_zeros:
  "parse_octal_loop ofs 0 (replicate n (CHR ''0'') @ s) = parse_octal_loop (ofs + n) 0 s"
  by (induction n arbitrary: ofs) simp_all

definition octal_text :: "nat \<Rightarrow> u32 \<Rightarrow> string" where
  "octal_text n w = (let ds = (if w = 0 then ''0'' else rev (rev_digits base_o (unat w))) in replicate (n - length ds) (CHR ''0'') @ ds)"

lemma parse_octal_text: "0 < n \<Longrightarrow> parse_octal_field (octal_text n w @ NUL # s) = Some w"
proof (cases "w = 0")
  case True
  then show ?thesis by (simp add: parse_octal_field_def octal_text_def parse_octal_zeros NUL_def)
next
  case False
  define m where "m = n - length (rev_digits base_o (unat w))"
  obtain k where "parse_octal_loop m 0 (rev (rev_digits base_o (unat w)) @ NUL # s) = parse_octal_loop (m + k) (of_nat (unat w)) (NUL # s)"
    and "0 < k"
    using parse_octal_digits [of "unat w" m "NUL # s"] False unsigned_less [of w] by (auto simp: unat_gt_0)
  then show ?thesis using False
    by (simp add: parse_octal_field_def octal_text_def parse_octal_zeros NUL_def m_def)
qed

lemma length_octal_text: "unat w < 8 ^ n \<Longrightarrow> 0 < n \<Longrightarrow> length (octal_text n w) = n"
  using rev_digits_length [of "unat w" base_o n] by (simp add: octal_text_def base_o_def)

lemma octal_text_no_nul: "NUL \<notin> set (octal_text n w)"
proof -
  have "NUL \<notin> set (rev_digits base_o v)" for v
  proof (induction v rule: less_induct)
    case (less v)
    have "(of_char NUL :: nat) \<noteq> of_char (char_of (48 + v mod 8) :: char)" by (simp only: octal_char) (simp add: NUL_def)
    then have "NUL \<noteq> char_of (48 + v mod 8)" by metis
    then show ?case using less.IH [of "v div 8"] by (subst rev_octal) auto
  qed
  then show ?thesis by (auto simp: octal_text_def NUL_def Let_def)
qed

lemma vprintf_octal:
  assumes "parse_conversion fmt [A32 w] = Some (\<lparr>flags = ZERO, width = int n, precision = -1, arg_type = INT_t\<rparr>, ''o'', [A32 w])"
    and "hd fmt \<noteq> CHR ''%''"
  shows "vprintf (CHR ''%'' # fmt) [A32 w] = Some (octal_text n w)"
proof -
  have b: "unat w < base base_o ^ 62" "1 < base base_o"
    using u32_bound [of w] u32_below_digits [of "base base_o" "unat w"] by (simp_all add: base_o_def)
  have "format_integer (unat w) False False base_o \<lparr>flags = ZERO, width = int n, precision = -1, arg_type = INT_t\<rparr> = Some (octal_text n w)"
    by (subst format_plain [OF b])
      (simp_all add: flag_defs output_dup_def octal_text_def Let_def unat_eq_zero nat_diff_distrib' nat_minus_as_int [symmetric])
  then show ?thesis
    using vprintf_conversion [OF _ assms(1)] assms(2) by (simp add: do_conversion_def unsigned_arg_def)
qed

lemma vprintf_octals: "vprintf ''%07o'' [A32 w] = Some (octal_text 7 w)" "vprintf ''%011o'' [A32 w] = Some (octal_text 11 w)"
  by (rule vprintf_octal;
      simp add: parse_conversion_def parse_width_def parse_precision_def parse_type_def flag_of_def isdigit_def flag_defs)+

lemma snprintf_field_run:
  assumes "vprintf fmt as = Some out" "length out < snd f" "fst f + snd f \<le> length h"
  shows "snprintf_field f fmt as h = Some (put f (out @ [NUL]) h)"
  using assms vsnprintf_run [OF _ assms(1), of "snd f" "drop (fst f) h"]
  by (simp add: snprintf_field_def snprintf_def put_def NUL_def min_absorb2 add.commute)

lemma snprintf_octals:
  "unat w < 8 ^ 7 \<Longrightarrow> snd f = 8 \<Longrightarrow> fst f + 8 \<le> length h \<Longrightarrow> snprintf_field f ''%07o'' [A32 w] h = Some (put f (octal_text 7 w @ [NUL]) h)"
  "snd f = 12 \<Longrightarrow> fst f + 12 \<le> length h \<Longrightarrow> snprintf_field f ''%011o'' [A32 w] h = Some (put f (octal_text 11 w @ [NUL]) h)"
proof -
  have w: "unat w < 8 ^ 11" using u32_bound [of w] by simp
  show "unat w < 8 ^ 7 \<Longrightarrow> snd f = 8 \<Longrightarrow> fst f + 8 \<le> length h \<Longrightarrow> snprintf_field f ''%07o'' [A32 w] h = Some (put f (octal_text 7 w @ [NUL]) h)"
    by (intro snprintf_field_run vprintf_octals) (simp_all add: length_octal_text)
  show "snd f = 12 \<Longrightarrow> fst f + 12 \<le> length h \<Longrightarrow> snprintf_field f ''%011o'' [A32 w] h = Some (put f (octal_text 11 w @ [NUL]) h)"
    using length_octal_text [OF w] by (intro snprintf_field_run vprintf_octals) simp_all
qed

section \<open>The checksum\<close>

definition chksum_byte :: "string \<Rightarrow> nat \<Rightarrow> nat" where
  "chksum_byte h i = (if 148 \<le> i \<and> i < 156 then 32 else of_char (h ! i))"

lemma chksum_sum: "calculate_chksum h = of_nat (\<Sum>i<512. chksum_byte h i)"
proof -
  have "foldl (\<lambda>chksum i. chksum + (if 148 \<le> i \<and> i < 156 then of_char CHR '' '' else of_char (h ! i) :: u32)) 0 [0..<n] =
      of_nat (\<Sum>i<n. chksum_byte h i)" for n
    by (induction n) (simp_all add: chksum_byte_def of_nat_of_char)
  then show ?thesis by (simp add: calculate_chksum_def h_chksum_def USTAR_HEADER_SIZE_def Let_def)
qed

lemma chksum_bound: "unat (calculate_chksum h) < 8 ^ 7"
proof -
  have "(of_char c :: nat) < 256" for c using of_char_of [where ?'a = nat] by simp
  then have "chksum_byte h i \<le> 255" for i by (simp add: chksum_byte_def less_Suc_eq_le [symmetric])
  then have "(\<Sum>i<512. chksum_byte h i) \<le> 512 * 255" using sum_bounded_above [of "{..<512}" "chksum_byte h" 255] by simp
  then show ?thesis by (simp add: chksum_sum unat_of_nat take_bit_nat_eq_self del: of_nat_sum)
qed

lemma chksum_cong:
  "(\<And>i. i < 512 \<Longrightarrow> \<not> (148 \<le> i \<and> i < 156) \<Longrightarrow> h ! i = h' ! i) \<Longrightarrow> calculate_chksum h = calculate_chksum h'"
  by (auto simp: chksum_sum chksum_byte_def intro!: arg_cong [where f = of_nat] sum.cong)

lemma chksum_put: "length bs = 8 \<Longrightarrow> length h = 512 \<Longrightarrow> calculate_chksum (put h_chksum bs h) = calculate_chksum h"
  by (rule chksum_cong) (auto simp: nth_put h_chksum_def)

section \<open>File names\<close>

lemma strip_loop_social: "\<not> antisocial (strip_loop s)"
proof (induction s rule: strip_loop.induct)
  case (1 s)
  then show ?case by (subst strip_loop.simps) simp
qed

lemma strip_loop_suffix: "\<exists>p. s = p @ strip_loop s"
proof (induction s rule: strip_loop.induct)
  case (1 s)
  show ?case
  proof (cases "antisocial s")
    case True
    then obtain p where p: "tl (dropWhile (\<lambda>c. c \<noteq> CHR ''/'') s) = p @ strip_loop (tl (dropWhile (\<lambda>c. c \<noteq> CHR ''/'') s))"
      using 1 by blast
    have "tl (dropWhile (\<lambda>c. c \<noteq> CHR ''/'') s) = drop (length (takeWhile (\<lambda>c. c \<noteq> CHR ''/'') s) + 1) s"
      by (simp add: dropWhile_eq_drop tl_drop drop_Suc)
    then have "\<exists>q. s = q @ tl (dropWhile (\<lambda>c. c \<noteq> CHR ''/'') s)" by (metis append_take_drop_id)
    then show ?thesis using p True by (metis append.assoc strip_loop.simps)
  next
    case False
    then show ?thesis by (subst strip_loop.simps) (intro exI [of _ "''''"], simp)
  qed
qed

definition safe_name :: "string \<Rightarrow> bool" where
  "safe_name s \<longleftrightarrow> \<not> antisocial s \<and> s \<noteq> '''' \<and> s \<noteq> ''..''"

lemma strip_safe: "safe_name (strip_antisocial_prefixes s)"
  using strip_loop_social [of s] by (auto simp: safe_name_def strip_antisocial_prefixes_def Let_def antisocial_def)

lemma strip_id: "safe_name s \<Longrightarrow> strip_antisocial_prefixes s = s"
  by (simp add: safe_name_def strip_antisocial_prefixes_def strip_loop.simps)

lemma strip_no_nul: "NUL \<notin> set s \<Longrightarrow> NUL \<notin> set (strip_antisocial_prefixes s)"
proof -
  assume "NUL \<notin> set s"
  then have "NUL \<notin> set (strip_loop s)" using strip_loop_suffix [of s] by (metis Un_iff set_append)
  then show ?thesis by (simp add: strip_antisocial_prefixes_def Let_def NUL_def)
qed

section \<open>Round trip\<close>

text \<open>The header before its checksum, as a sequence of writes.\<close>

definition header_body :: "string \<Rightarrow> ustar_type \<Rightarrow> u32 \<Rightarrow> string" where
  "header_body name t w =
     put h_uname (''root'' @ [NUL]) (put h_gname (''root'' @ [NUL]) (put h_version ''00'' (put h_magic (''ustar'' @ [NUL])
       (put h_typeflag [type_char t] (put h_mtime (octal_text 11 1136102400 @ [NUL]) (put h_size (octal_text 11 w @ [NUL])
         (put h_gid (''0000000'' @ [NUL]) (put h_uid (''0000000'' @ [NUL])
           (put h_mode (octal_text 7 (if t = USTAR_REGULAR then 420 else 493) @ [NUL])
             (put h_name (name @ [NUL]) (replicate 512 NUL)))))))))))"

lemma length_octal_fields [simp]:
  "length (octal_text 11 w) = 11" "length (octal_text 7 420) = 7" "length (octal_text 7 493) = 7"
  "length (octal_text 7 (calculate_chksum h)) = 7"
  using u32_bound [of w] chksum_bound [of h] by (simp_all add: length_octal_text)

lemma length_header_body [simp]: "length name \<le> 99 \<Longrightarrow> length (header_body name t w) = 512"
  by (simp add: header_body_def length_put field_defs)

lemma make_header_run:
  assumes "t \<noteq> USTAR_EOF" "length (strip_antisocial_prefixes file_name) \<le> 99" "length h = 512"
  shows "ustar_make_header file_name t w h =
    (let b = header_body (strip_antisocial_prefixes file_name) t w in
     Some (True, put h_chksum (octal_text 7 (calculate_chksum b) @ [NUL]) b))"
proof -
  let ?n = "strip_antisocial_prefixes file_name"
  have t: "t = USTAR_REGULAR \<or> t = USTAR_DIRECTORY" using assms(1) by (cases t) auto
  have z: "put (0, 512) (replicate 512 NUL) h = replicate 512 NUL" using assms(3) by (simp add: put_def)
  have name: "strlcpy_field h_name ?n x = put h_name (?n @ [NUL]) x" for x
    using assms(2) by (simp add: strlcpy_field_def h_name_def)
  have lits: "strlcpy_field h_uid ''0000000'' x = put h_uid (''0000000'' @ [NUL]) x"
    "strlcpy_field h_gid ''0000000'' x = put h_gid (''0000000'' @ [NUL]) x"
    "strlcpy_field h_magic ''ustar'' x = put h_magic (''ustar'' @ [NUL]) x"
    "strlcpy_field h_gname ''root'' x = put h_gname (''root'' @ [NUL]) x"
    "strlcpy_field h_uname ''root'' x = put h_uname (''root'' @ [NUL]) x" for x
    by (simp_all add: strlcpy_field_def field_defs)
  have o7: "snprintf_field h_mode ''%07o'' [A32 (if t = USTAR_REGULAR then 420 else 493)] x =
      Some (put h_mode (octal_text 7 (if t = USTAR_REGULAR then 420 else 493) @ [NUL]) x)" if "length x = 512" for x
    using that by (intro snprintf_octals) (simp_all add: h_mode_def)
  have o11: "snprintf_field h_size ''%011o'' [A32 v] x = Some (put h_size (octal_text 11 v @ [NUL]) x)"
    "snprintf_field h_mtime ''%011o'' [A32 v] x = Some (put h_mtime (octal_text 11 v @ [NUL]) x)" if "length x = 512" for x v
    using that by (simp_all add: snprintf_octals h_size_def h_mtime_def)
  have ck: "snprintf_field h_chksum ''%07o'' [A32 (calculate_chksum x)] x =
      Some (put h_chksum (octal_text 7 (calculate_chksum x) @ [NUL]) x)" if "length x = 512" for x
    using that chksum_bound [of x] by (intro snprintf_octals) (simp_all add: h_chksum_def)
  have m: "length (octal_text 7 (if t = USTAR_REGULAR then 420 else 493)) = 7" by simp
  have b: "length (header_body ?n t w) = 512" using assms(2) by simp
  show ?thesis
    using assms(2) t ck [OF b]
    by (simp add: ustar_make_header_def USTAR_HEADER_SIZE_def z name lits o7 o11 m length_put field_sel Let_def header_body_def split del: if_split)
qed

lemma chksum_field_other:
  "length b = 512 \<Longrightarrow> length bs = 8 \<Longrightarrow> fst g + snd g \<le> 148 \<or> 156 \<le> fst g \<Longrightarrow> fld (put h_chksum bs b) g = fld b g"
  by (rule fld_put_other) (auto simp: h_chksum_def)

lemma body_fields:
  assumes "length name \<le> 99"
  shows "fld (header_body name t w) h_magic = ''ustar'' @ [NUL]" "fld (header_body name t w) h_version = ''00''"
    "fld (header_body name t w) h_typeflag = [type_char t]" "fld (header_body name t w) h_size = octal_text 11 w @ [NUL]"
    "fld (header_body name t w) h_name = name @ replicate (100 - length name) NUL"
    "fld (header_body name t w) h_prefix = replicate 155 NUL"
proof -
  have "NUL # replicate (99 - length name) NUL = replicate (100 - length name) NUL"
    using assms by (simp add: Suc_diff_le flip: replicate_Suc)
  then show "fld (header_body name t w) h_magic = ''ustar'' @ [NUL]" "fld (header_body name t w) h_version = ''00''"
    "fld (header_body name t w) h_typeflag = [type_char t]" "fld (header_body name t w) h_size = octal_text 11 w @ [NUL]"
    "fld (header_body name t w) h_name = name @ replicate (100 - length name) NUL"
    "fld (header_body name t w) h_prefix = replicate 155 NUL"
  using assms
  by (simp_all add: header_body_def field_sel fld_put_other fld_put_same length_put fld_put_shorter)
    (simp_all add: fld_def field_sel)
qed

lemma not_all_zeros: "c \<in> set h \<Longrightarrow> c \<noteq> NUL \<Longrightarrow> \<not> is_all_zeros h"
  by (induction h) auto

lemma parse_body:
  assumes "length name \<le> 99" "NUL \<notin> set name" "safe_name name" "t \<noteq> USTAR_EOF"
    and h: "h = put h_chksum (octal_text 7 (calculate_chksum (header_body name t w)) @ [NUL]) (header_body name t w)"
  shows "ustar_parse_header h =
    (if t = USTAR_DIRECTORY then Inr (Some name, USTAR_DIRECTORY, 0)
     else if w > 0x7FFFFFFF then Inl ''file too large'' else Inr (Some name, USTAR_REGULAR, w))"
proof -
  let ?b = "header_body name t w"
  have other: "fld h g = fld ?b g" if "fst g + snd g \<le> 148 \<or> 156 \<le> fst g" for g
    unfolding h by (rule chksum_field_other) (use assms(1) that in simp_all)
  have f: "fld h h_magic = ''ustar'' @ [NUL]" "fld h h_version = ''00''" "fld h h_typeflag = [type_char t]"
    "fld h h_size = octal_text 11 w @ [NUL]" "fld h h_name = name @ replicate (100 - length name) NUL"
    "fld h h_prefix = replicate 155 NUL"
    by (subst other; simp add: body_fields [OF assms(1)] field_sel)+
  have ck: "fld h h_chksum = octal_text 7 (calculate_chksum ?b) @ [NUL]"
    unfolding h using assms(1) by (intro fld_put_same) (simp_all add: field_sel)
  have sum: "calculate_chksum h = calculate_chksum ?b" unfolding h using assms(1) by (intro chksum_put) simp_all
  have "CHR ''u'' \<in> set (fld h h_magic)" by (simp add: f)
  then have "CHR ''u'' \<in> set h" unfolding fld_def by (meson in_set_dropD in_set_takeD)
  then have z: "\<not> is_all_zeros h" by (rule not_all_zeros) (simp add: NUL_def)
  have o: "parse_octal_field (octal_text 11 w @ [NUL]) = Some w"
    "parse_octal_field (octal_text 7 (calculate_chksum ?b) @ [NUL]) = Some (calculate_chksum ?b)"
    by (simp_all add: parse_octal_text)
  have n: "takeWhile (\<lambda>c. c \<noteq> NUL) (name @ replicate k NUL) = name" for k
    using assms(2) by (auto simp: takeWhile_append takeWhile_replicate)
  have "\<not> length name > 99" using assms(1) by simp
  then have last: "(name @ replicate (100 - length name) NUL) ! 99 = NUL" by (simp add: nth_append)
  have t: "t = USTAR_REGULAR \<or> t = USTAR_DIRECTORY" using assms(4) by (cases t) auto
  show ?thesis
    unfolding ustar_parse_header_def f ck sum n o last strip_id [OF assms(3)] using z t
    by (auto simp: type_char_def Let_def)
qed

lemma ustar_make_parse:
  assumes "NUL \<notin> set file_name" "length (strip_antisocial_prefixes file_name) \<le> 99" "t \<noteq> USTAR_EOF" "length h = 512"
  shows "\<exists>h'. ustar_make_header file_name t w h = Some (True, h') \<and> length h' = 512 \<and>
    ustar_parse_header h' = (if t = USTAR_DIRECTORY then Inr (Some (strip_antisocial_prefixes file_name), USTAR_DIRECTORY, 0)
      else if w > 0x7FFFFFFF then Inl ''file too large'' else Inr (Some (strip_antisocial_prefixes file_name), USTAR_REGULAR, w))"
  using make_header_run [OF assms(3,2,4)] parse_body [OF assms(2) strip_no_nul [OF assms(1)] strip_safe assms(3) refl, of w]
  by (simp add: Let_def length_put field_sel assms(2))

text \<open>C31: A header made for a file or a directory is read back: the name without its dangerous prefixes, the type, and the
  size, zero for a directory; a size that was negative is refused when it is read.
\<close>

theorem ustar_roundtrip:
  assumes "NUL \<notin> set file_name" "length (strip_antisocial_prefixes file_name) \<le> 99" "t \<noteq> USTAR_EOF" "length h = 512"
  shows "\<exists>h'. ustar_make_header file_name t w h = Some (True, h') \<and> length h' = 512 \<and>
    ustar_parse_header h' = (if t = USTAR_DIRECTORY then Inr (Some (strip_antisocial_prefixes file_name), USTAR_DIRECTORY, 0)
      else if w > 0x7FFFFFFF then Inl ''file too large'' else Inr (Some (strip_antisocial_prefixes file_name), USTAR_REGULAR, w))"
  by (rule ustar_make_parse [OF assms])

theorem ustar_roundtrip_witness:
  "\<exists>h'. ustar_make_header ''/../etc/passwd'' USTAR_REGULAR 77 (replicate 512 CHR ''?'') = Some (True, h') \<and>
    ustar_parse_header h' = Inr (Some ''etc/passwd'', USTAR_REGULAR, 77)"
proof -
  have s: "strip_antisocial_prefixes ''/../etc/passwd'' = ''etc/passwd''"
    by (simp add: strip_antisocial_prefixes_def strip_loop.simps antisocial_def)
  show ?thesis
    using ustar_roundtrip [of "''/../etc/passwd''" USTAR_REGULAR "replicate 512 CHR ''?''" 77] by (auto simp: s NUL_def)
qed

lemma strip_length: "length s \<le> 99 \<Longrightarrow> length (strip_antisocial_prefixes s) \<le> 99"
proof -
  assume "length s \<le> 99"
  moreover have "length (strip_loop s) \<le> length s" using strip_loop_suffix [of s] by (metis le_add2 length_append)
  ultimately show ?thesis by (simp add: strip_antisocial_prefixes_def Let_def)
qed

lemma takeWhile_field:
  "length s = Suc n \<Longrightarrow> s ! n = NUL \<Longrightarrow> NUL \<notin> set (takeWhile (\<lambda>c. c \<noteq> NUL) s) \<and> length (takeWhile (\<lambda>c. c \<noteq> NUL) s) \<le> n"
proof (intro conjI)
  assume n: "length s = Suc n" "s ! n = NUL"
  show "NUL \<notin> set (takeWhile (\<lambda>c. c \<noteq> NUL) s)" by (metis (mono_tags) set_takeWhileD)
  show "length (takeWhile (\<lambda>c. c \<noteq> NUL) s) \<le> n"
  proof (rule ccontr)
    assume "\<not> ?thesis"
    then have "takeWhile (\<lambda>c. c \<noteq> NUL) s = s" using n(1) length_takeWhile_le [of "\<lambda>c. c \<noteq> NUL" s]
      by (metis le_SucE le_antisym not_less_eq_eq takeWhile_eq_take take_all_iff)
    then have "s ! n \<noteq> NUL" using n(1) by (metis (mono_tags) lessI nth_mem set_takeWhileD)
    then show False using n(2) by simp
  qed
qed

text \<open>Whatever the bytes of an archive are, a name that is read from it is not empty, begins neither with a slash nor
  with a dot or two dots before a slash, is not the parent directory, and is a C string of less than 100 bytes; the
  checksum of its header is right and its size is not negative.
\<close>

theorem ustar_parse_is_safe:
  assumes "ustar_parse_header h = Inr (Some name, t, n)" "length h = 512"
  shows "safe_name name \<and> NUL \<notin> set name \<and> length name \<le> 99 \<and> t \<noteq> USTAR_EOF \<and> n \<le> 0x7FFFFFFF \<and>
    parse_octal_field (fld h h_chksum) = Some (calculate_chksum h)"
proof -
  let ?s = "takeWhile (\<lambda>c. c \<noteq> NUL) (fld h h_name)"
  have "name = strip_antisocial_prefixes ?s \<and> t \<noteq> USTAR_EOF \<and> \<not> 0x7FFFFFFF < n \<and> fld h h_name ! 99 = NUL \<and>
      parse_octal_field (fld h h_chksum) = Some (calculate_chksum h)"
    using assms(1) unfolding ustar_parse_header_def Let_def
    by (simp split: if_splits option.splits)
  moreover have "length (fld h h_name) = Suc 99" using assms(2) by (simp add: fld_def field_sel)
  ultimately show ?thesis
    using strip_safe [of ?s] strip_no_nul [of ?s] strip_length [of ?s] takeWhile_field [of "fld h h_name" 99] by (simp add: not_less)
qed

theorem ustar_parse_is_safe_witness:
  "\<exists>h. ustar_parse_header h = Inr (Some ''etc/passwd'', USTAR_DIRECTORY, 0) \<and> safe_name ''etc/passwd''"
proof -
  have s: "strip_antisocial_prefixes ''etc/passwd'' = ''etc/passwd''"
    by (simp add: strip_antisocial_prefixes_def strip_loop.simps antisocial_def)
  obtain h where h: "length h = 512" "ustar_parse_header h = Inr (Some ''etc/passwd'', USTAR_DIRECTORY, 0)"
    using ustar_make_parse [of "''etc/passwd''" USTAR_DIRECTORY "replicate 512 NUL" 0] by (auto simp: s NUL_def)
  show ?thesis using ustar_parse_is_safe [OF h(2,1)] h(2) by blast
qed

end
