(* ===== verification/Paging.thy ===== *)
theory Paging
  imports Vm Swap AddressSpace Inode
begin

text \<open>
  Demand paging: the rest of \<^verbatim>\<open>vm/frame.c\<close> and \<^verbatim>\<open>vm/page.c\<close>, on the page directories of theory Pagedir, the
  pools of Palloc, the swap table of Swap, the files of Inode and the clock of Vm. The two kinds of hash tables
  are the finite maps that theory Vm shows them to be; the clock's list keeps its pointers. A
  thread is its address. Results of \<^verbatim>\<open>malloc\<close> are arguments. An entry that \<^verbatim>\<open>free\<close> gets back loses its
  pointers, so that following them is a failed assertion. \<open>None\<close> is a failed assertion or a panic.
\<close>

section \<open>State\<close>

datatype page_status = ALL_ZERO | ON_FRAME | ON_SWAP | FROM_FILESYS

record spte =
  spte_kpage :: u32
  status :: page_status
  spte_dirty :: bool
  swap_index :: nat
  spte_file :: addr
  file_offset :: int
  read_bytes :: u32
  zero_bytes :: u32
  spte_writable :: bool

text \<open>\<open>fr_t\<close> and \<open>fr_kpage\<close> are members of the frame entries beside those of \<open>frames\<close>, \<open>kframes\<close> is the
  frame map, \<open>supt t\<close> the supplemental page table of the thread \<open>t\<close> and \<open>pagedir t\<close> its page directory.\<close>

record vm = frames +
  fr_kpage :: "addr \<Rightarrow> u32"
  fr_t :: "addr \<Rightarrow> addr"
  kframes :: "u32 \<Rightarrow> addr option"
  mm :: mmu
  swp :: "byte list swap"
  fsys :: fs
  supt :: "addr \<Rightarrow> u32 \<Rightarrow> spte option"
  pagedir :: "addr \<Rightarrow> u32"
  cur :: addr

section \<open>Bytes of a page\<close>

definition bytes_at :: "u32 \<Rightarrow> nat \<Rightarrow> (u32 \<Rightarrow> byte) \<Rightarrow> byte list" where
  "bytes_at p n mem = map (\<lambda>i. mem (p + of_nat i)) [0..<n]"

definition put_bytes :: "u32 \<Rightarrow> byte list \<Rightarrow> (u32 \<Rightarrow> byte) \<Rightarrow> u32 \<Rightarrow> byte" where
  "put_bytes p bs mem = (\<lambda>a. if unat (a - p) < length bs then bs ! unat (a - p) else mem a)"

text \<open>The sectors that the swap code writes and reads, in order.\<close>

definition page_sectors :: "u32 \<Rightarrow> (u32 \<Rightarrow> byte) \<Rightarrow> byte list list" where
  "page_sectors p mem = map (\<lambda>j. bytes_at (p + of_nat (512 * j)) 512 mem) [0..<SECTORS_PER_PAGE]"

abbreviation mem_of :: "vm \<Rightarrow> u32 \<Rightarrow> byte" where
  "mem_of s \<equiv> phys_mem (ram (mm s))"

definition set_mem :: "((u32 \<Rightarrow> byte) \<Rightarrow> u32 \<Rightarrow> byte) \<Rightarrow> vm \<Rightarrow> vm" where
  "set_mem f s = s\<lparr>mm := (mm s)\<lparr>ram := (ram (mm s))\<lparr>phys_mem := f (mem_of s)\<rparr>\<rparr>\<rparr>"

section \<open>Frames\<close>

definition vm_frame_init :: "klist \<Rightarrow> vm \<Rightarrow> vm" where
  "vm_frame_init l s = s\<lparr>kframes := Map.empty, frame_list := l, fr_links := list_init l (fr_links s), clock_ptr := NULL\<rparr>"

definition vm_frame_do_free :: "u32 \<Rightarrow> bool \<Rightarrow> vm \<Rightarrow> vm option" where
  "vm_frame_do_free kpage page_too s = do {
     kassert (is_kernel_vaddr kpage);
     kassert (pg_ofs kpage = 0);
     f \<leftarrow> kframes s kpage;
     (_, h) \<leftarrow> list_remove f (fr_links s);
     m \<leftarrow> (if page_too then free_page kpage (mm s) else Some (mm s));
     Some (s\<lparr>kframes := (kframes s)(kpage := None), fr_links := set_next f NULL (set_prev f NULL h), mm := m\<rparr>) }"

definition vm_frame_free :: "u32 \<Rightarrow> vm \<Rightarrow> vm option" where
  "vm_frame_free kpage s = vm_frame_do_free kpage True s"

definition vm_frame_remove_entry :: "u32 \<Rightarrow> vm \<Rightarrow> vm option" where
  "vm_frame_remove_entry kpage s = vm_frame_do_free kpage False s"

definition vm_frame_pin :: "u32 \<Rightarrow> vm \<Rightarrow> vm option" where
  "vm_frame_pin kpage s = vm_frame_set_pinned (kframes s) kpage True s"

definition vm_frame_unpin :: "u32 \<Rightarrow> vm \<Rightarrow> vm option" where
  "vm_frame_unpin kpage s = vm_frame_set_pinned (kframes s) kpage False s"

text \<open>The loop of \<^verbatim>\<open>pick_frame_to_evict\<close> on the page directory itself.\<close>

fun pick_loop :: "nat \<Rightarrow> u32 \<Rightarrow> vm \<Rightarrow> (addr \<times> vm) option" where
  "pick_loop 0 pd s = None"
| "pick_loop (Suc k) pd s = do {
     (e, s) \<leftarrow> clock_frame_next s;
     if fr_pinned s e then pick_loop k pd s
     else do {
       accessed \<leftarrow> pagedir_is_accessed pd (fr_upage s e) (mm s);
       if accessed
       then do { m \<leftarrow> pagedir_set_accessed pd (fr_upage s e) False (mm s); pick_loop k pd (s\<lparr>mm := m\<rparr>) }
       else Some (e, s) } }"

definition pick_frame :: "u32 \<Rightarrow> vm \<Rightarrow> (addr \<times> vm) option" where
  "pick_frame pd s = (let n = card (dom (kframes s)) in do { kassert (n \<noteq> 0); pick_loop (n + n + 1) pd s })"

section \<open>Supplemental page tables\<close>

definition set_spte :: "addr \<Rightarrow> u32 \<Rightarrow> spte option \<Rightarrow> vm \<Rightarrow> vm" where
  "set_spte t upage e s = s\<lparr>supt := (supt s)(t := (supt s t)(upage := e))\<rparr>"

definition vm_supt_create :: "bool \<Rightarrow> addr \<Rightarrow> vm \<Rightarrow> vm option" where
  "vm_supt_create mal t s = do { kassert mal; Some (s\<lparr>supt := (supt s)(t := Map.empty)\<rparr>) }"

definition vm_supt_lookup :: "addr \<Rightarrow> u32 \<Rightarrow> vm \<Rightarrow> spte option" where
  "vm_supt_lookup t page s = supt s t page"

definition vm_supt_has_entry :: "addr \<Rightarrow> u32 \<Rightarrow> vm \<Rightarrow> bool" where
  "vm_supt_has_entry t page s \<longleftrightarrow> vm_supt_lookup t page s \<noteq> None"

text \<open>\<open>junk\<close>: what a new entry holds where the code does not write it.\<close>

definition vm_supt_install_frame :: "bool \<Rightarrow> spte \<Rightarrow> addr \<Rightarrow> u32 \<Rightarrow> u32 \<Rightarrow> vm \<Rightarrow> (bool \<times> vm) option" where
  "vm_supt_install_frame mal junk t upage kpage s = do {
     kassert mal;
     let spte = junk\<lparr>spte_kpage := kpage, status := ON_FRAME, spte_dirty := False, swap_index := 2 ^ 32 - 1\<rparr>;
     if supt s t upage = None then Some (True, set_spte t upage (Some spte) s) else Some (False, s) }"

definition vm_supt_install_zeropage :: "bool \<Rightarrow> spte \<Rightarrow> addr \<Rightarrow> u32 \<Rightarrow> vm \<Rightarrow> (bool \<times> vm) option" where
  "vm_supt_install_zeropage mal junk t upage s = do {
     kassert mal;
     let spte = junk\<lparr>spte_kpage := 0, status := ALL_ZERO, spte_dirty := False\<rparr>;
     kassert (supt s t upage = None);
     Some (True, set_spte t upage (Some spte) s) }"

definition vm_supt_set_swap :: "addr \<Rightarrow> u32 \<Rightarrow> nat \<Rightarrow> vm \<Rightarrow> bool \<times> vm" where
  "vm_supt_set_swap t page idx s = (case vm_supt_lookup t page s of
     None \<Rightarrow> (False, s)
   | Some spte \<Rightarrow> (True, set_spte t page (Some (spte\<lparr>status := ON_SWAP, spte_kpage := 0, swap_index := idx\<rparr>)) s))"

definition vm_supt_install_filesys ::
  "bool \<Rightarrow> spte \<Rightarrow> addr \<Rightarrow> u32 \<Rightarrow> addr \<Rightarrow> int \<Rightarrow> u32 \<Rightarrow> u32 \<Rightarrow> bool \<Rightarrow> vm \<Rightarrow> (bool \<times> vm) option" where
  "vm_supt_install_filesys mal junk t upage f offset rd zero writable s = do {
     kassert mal;
     let spte = junk\<lparr>spte_kpage := 0, status := FROM_FILESYS, spte_dirty := False, spte_file := f, file_offset := offset,
       read_bytes := rd, zero_bytes := zero, spte_writable := writable\<rparr>;
     kassert (supt s t upage = None);
     Some (True, set_spte t upage (Some spte) s) }"

definition vm_supt_set_dirty :: "addr \<Rightarrow> u32 \<Rightarrow> bool \<Rightarrow> vm \<Rightarrow> vm option" where
  "vm_supt_set_dirty t page v s = do {
     spte \<leftarrow> vm_supt_lookup t page s;
     Some (set_spte t page (Some (spte\<lparr>spte_dirty := spte_dirty spte \<or> v\<rparr>)) s) }"

section \<open>Allocating a frame\<close>

definition get_frame :: "u32 \<Rightarrow> vm \<Rightarrow> (u32 \<times> vm) option" where
  "get_frame flags s = do {
     (p, r) \<leftarrow> palloc_get_page (PAL_USER OR flags) (ram (mm s));
     Some (p, s\<lparr>mm := (mm s)\<lparr>ram := r\<rparr>\<rparr>) }"

text \<open>The part of \<^verbatim>\<open>vm_frame_allocate\<close> that is reached when no page is free.\<close>

definition evict_frame :: "u32 \<Rightarrow> vm \<Rightarrow> (u32 \<times> vm) option" where
  "evict_frame flags s = do {
     (e, s) \<leftarrow> pick_frame (pagedir s (cur s)) s;
     let t = fr_t s e;
     kassert (e \<noteq> NULL \<and> t \<noteq> NULL);
     kassert (pagedir s t \<noteq> 0xcccccccc);
     m \<leftarrow> pagedir_clear_page (pagedir s t) (fr_upage s e) (mm s);
     let s = s\<lparr>mm := m\<rparr>;
     d1 \<leftarrow> pagedir_is_dirty (pagedir s t) (fr_upage s e) (mm s);
     d2 \<leftarrow> (if d1 then Some True else pagedir_is_dirty (pagedir s t) (fr_kpage s e) (mm s));
     (idx, sw) \<leftarrow> vm_swap_out (fr_kpage s e) (page_sectors (fr_kpage s e) (mem_of s)) (swp s);
     let s = s\<lparr>swp := sw\<rparr>;
     let (_, s) = vm_supt_set_swap t (fr_upage s e) idx s;
     s \<leftarrow> vm_supt_set_dirty t (fr_upage s e) d2 s;
     s \<leftarrow> vm_frame_do_free (fr_kpage s e) True s;
     (p, s) \<leftarrow> get_frame flags s;
     kassert (p \<noteq> 0);
     Some (p, s) }"

definition add_frame :: "addr \<Rightarrow> u32 \<Rightarrow> u32 \<Rightarrow> vm \<Rightarrow> vm option" where
  "add_frame frame upage p s = do {
     let s = s\<lparr>fr_t := (fr_t s)(frame := cur s), fr_upage := (fr_upage s)(frame := upage),
       fr_kpage := (fr_kpage s)(frame := p), fr_pinned := (fr_pinned s)(frame := True)\<rparr>;
     let s = s\<lparr>kframes := (if kframes s p = None then (kframes s)(p \<mapsto> frame) else kframes s)\<rparr>;
     h \<leftarrow> list_push_back (frame_list s) frame (fr_links s);
     Some (s\<lparr>fr_links := h\<rparr>) }"

definition vm_frame_allocate :: "addr \<Rightarrow> u32 \<Rightarrow> u32 \<Rightarrow> vm \<Rightarrow> (u32 \<times> vm) option" where
  "vm_frame_allocate frame flags upage s = do {
     (p, s) \<leftarrow> get_frame flags s;
     (p, s) \<leftarrow> (if p = 0 then evict_frame flags s else Some (p, s));
     if frame = NULL then Some (0, s)
     else do { s \<leftarrow> add_frame frame upage p s; Some (p, s) } }"

section \<open>Loading a page\<close>

definition vm_load_page_from_filesys :: "bool \<Rightarrow> spte \<Rightarrow> u32 \<Rightarrow> vm \<Rightarrow> (bool \<times> vm) option" where
  "vm_load_page_from_filesys mem spte kpage s = do {
     f \<leftarrow> file_seek (spte_file spte) (file_offset spte) (fsys s);
     (bs, f) \<leftarrow> file_read mem (spte_file spte) (sint (read_bytes spte)) f;
     let s = set_mem (put_bytes kpage bs) (s\<lparr>fsys := f\<rparr>);
     if int (length bs) \<noteq> sint (read_bytes spte) then Some (False, s)
     else do {
       kassert (read_bytes spte + zero_bytes spte = of_nat PGSIZE);
       Some (True, set_mem (\<lambda>m. memset m (kpage + of_nat (length bs)) 0 (unat (zero_bytes spte))) s) } }"

text \<open>The contents, by the status of the entry: whether they could be read, and whether the page is writable.\<close>

definition fetch_page :: "bool \<Rightarrow> spte \<Rightarrow> u32 \<Rightarrow> vm \<Rightarrow> (bool \<times> bool \<times> vm) option" where
  "fetch_page mem spte p s = (case status spte of
     ALL_ZERO \<Rightarrow> Some (True, True, set_mem (\<lambda>m. memset m p 0 PGSIZE) s)
   | ON_FRAME \<Rightarrow> Some (True, True, s)
   | ON_SWAP \<Rightarrow> do {
       (secs, sw) \<leftarrow> vm_swap_in (swap_index spte) p (swp s);
       Some (True, True, set_mem (put_bytes p (concat secs)) (s\<lparr>swp := sw\<rparr>)) }
   | FROM_FILESYS \<Rightarrow> do {
       (ok, s) \<leftarrow> vm_load_page_from_filesys mem spte p s;
       Some (ok, spte_writable spte, s) })"

definition vm_load_page :: "bool \<Rightarrow> addr \<Rightarrow> addr \<Rightarrow> u32 \<Rightarrow> u32 \<Rightarrow> vm \<Rightarrow> (bool \<times> vm) option" where
  "vm_load_page mem frame t pd upage s = (case vm_supt_lookup t upage s of
     None \<Rightarrow> Some (False, s)
   | Some spte \<Rightarrow>
       if status spte = ON_FRAME then Some (True, s)
       else do {
         (p, s) \<leftarrow> vm_frame_allocate frame PAL_USER upage s;
         spte \<leftarrow> vm_supt_lookup t upage s;
         if p = 0 then Some (False, s)
         else do {
           (ok, writable, s) \<leftarrow> fetch_page mem spte p s;
           if \<not> ok then do { s \<leftarrow> vm_frame_free p s; Some (False, s) }
           else do {
             (ok, m) \<leftarrow> pagedir_set_page pd upage p writable (mm s);
             let s = s\<lparr>mm := m\<rparr>;
             if \<not> ok then do { s \<leftarrow> vm_frame_free p s; Some (False, s) }
             else do {
               spte \<leftarrow> vm_supt_lookup t upage s;
               let s = set_spte t upage (Some (spte\<lparr>spte_kpage := p, status := ON_FRAME\<rparr>)) s;
               m \<leftarrow> pagedir_set_dirty pd p False (mm s);
               s \<leftarrow> vm_frame_unpin p (s\<lparr>mm := m\<rparr>);
               Some (True, s) } } } })"

definition vm_pin_page :: "addr \<Rightarrow> u32 \<Rightarrow> vm \<Rightarrow> vm option" where
  "vm_pin_page t page s = (case vm_supt_lookup t page s of
     None \<Rightarrow> Some s
   | Some spte \<Rightarrow> do { kassert (status spte = ON_FRAME); vm_frame_pin (spte_kpage spte) s })"

definition vm_unpin_page :: "addr \<Rightarrow> u32 \<Rightarrow> vm \<Rightarrow> vm option" where
  "vm_unpin_page t page s = do {
     spte \<leftarrow> vm_supt_lookup t page s;
     if status spte = ON_FRAME then vm_frame_unpin (spte_kpage spte) s else Some s }"

section \<open>Releasing pages\<close>

text \<open>What a user address reads: the bytes of the frame to which the directory maps its page.\<close>

definition user_bytes :: "u32 \<Rightarrow> u32 \<Rightarrow> nat \<Rightarrow> vm \<Rightarrow> byte list option" where
  "user_bytes pd upage n s = do {
     k \<leftarrow> pagedir_get_page pd upage (mm s);
     kassert (k \<noteq> 0);
     Some (bytes_at k n (mem_of s)) }"

definition vm_supt_mm_unmap :: "bool \<Rightarrow> addr \<Rightarrow> u32 \<Rightarrow> u32 \<Rightarrow> addr \<Rightarrow> int \<Rightarrow> nat \<Rightarrow> vm \<Rightarrow> (bool \<times> vm) option" where
  "vm_supt_mm_unmap mem t pd page f offset bytes s = do {
     spte \<leftarrow> vm_supt_lookup t page s;
     s \<leftarrow> (if status spte = ON_FRAME then do { kassert (spte_kpage spte \<noteq> 0); vm_frame_pin (spte_kpage spte) s } else Some s);
     s \<leftarrow> (case status spte of
       ON_FRAME \<Rightarrow> do {
         kassert (spte_kpage spte \<noteq> 0);
         d1 \<leftarrow> (if spte_dirty spte then Some True else pagedir_is_dirty pd page (mm s));
         d2 \<leftarrow> (if d1 then Some True else pagedir_is_dirty pd (spte_kpage spte) (mm s));
         s \<leftarrow> (if d2
            then do {
              bs \<leftarrow> user_bytes pd page bytes s;
              (n, fl) \<leftarrow> file_write_at mem f bs (int bytes) offset (fsys s);
              Some (s\<lparr>fsys := fl\<rparr>) }
            else Some s);
         s \<leftarrow> vm_frame_free (spte_kpage spte) s;
         m \<leftarrow> pagedir_clear_page pd page (mm s);
         Some (s\<lparr>mm := m\<rparr>) }
     | ON_SWAP \<Rightarrow> do {
         d1 \<leftarrow> (if spte_dirty spte then Some True else pagedir_is_dirty pd page (mm s));
         if d1
         then do {
           (tmp_page, r) \<leftarrow> palloc_get_page 0 (ram (mm s));
           let s = s\<lparr>mm := (mm s)\<lparr>ram := r\<rparr>\<rparr>;
           (secs, sw) \<leftarrow> vm_swap_in (swap_index spte) tmp_page (swp s);
           let s = set_mem (put_bytes tmp_page (concat secs)) (s\<lparr>swp := sw\<rparr>);
           (n, fl) \<leftarrow> file_write_at mem f (bytes_at tmp_page PGSIZE (mem_of s)) (int PGSIZE) offset (fsys s);
           m \<leftarrow> free_page tmp_page (mm s);
           Some (s\<lparr>fsys := fl, mm := m\<rparr>) }
         else do { sw \<leftarrow> vm_swap_free (swap_index spte) (swp s); Some (s\<lparr>swp := sw\<rparr>) } }
     | FROM_FILESYS \<Rightarrow> Some s
     | ALL_ZERO \<Rightarrow> None);
     Some (True, set_spte t page None s) }"

definition spte_destroy_func :: "spte \<Rightarrow> vm \<Rightarrow> vm option" where
  "spte_destroy_func entry s =
     (if spte_kpage entry \<noteq> 0 then do { kassert (status entry = ON_FRAME); vm_frame_remove_entry (spte_kpage entry) s }
      else if status entry = ON_SWAP then do { sw \<leftarrow> vm_swap_free (swap_index entry) (swp s); Some (s\<lparr>swp := sw\<rparr>) }
      else Some s)"

text \<open>\<open>order\<close>: the pages of the table in the order in which \<^verbatim>\<open>hash_destroy\<close> reaches their entries.\<close>

fun destroy_entries :: "addr \<Rightarrow> u32 list \<Rightarrow> vm \<Rightarrow> vm option" where
  "destroy_entries t [] s = Some s"
| "destroy_entries t (u # order) s = do {
     entry \<leftarrow> supt s t u;
     s \<leftarrow> spte_destroy_func entry s;
     destroy_entries t order (set_spte t u None s) }"

definition vm_supt_destroy :: "addr \<Rightarrow> u32 list \<Rightarrow> vm \<Rightarrow> vm option" where
  "vm_supt_destroy t order s = do {
     kassert (distinct order \<and> set order = dom (supt s t));
     destroy_entries t order s }"

end
