(* ===== verification/PagingData.thy ===== *)
theory PagingData
  imports Paging
begin

text \<open>
  What the operations on page directories leave alone, for theory Paging: the frames of user pages
  (\<open>keeps_user\<close>) and the kernel's half of every directory (\<open>keeps_tables\<close>, \<open>khalf_ok\<close>), through which the code looks
  up kernel addresses; and what allocating, releasing and filling a frame leaves alone, the page tables.
\<close>

section \<open>User pages and page tables are apart\<close>

definition keeps_user :: "mmu \<Rightarrow> mmu \<Rightarrow> bool" where
  "keeps_user st st' \<longleftrightarrow> used_page True st' = used_page True st \<and>
     (\<forall>p k. used_page True st p \<and> unat k < 4096 \<longrightarrow> phys_mem (ram st') (p + k) = phys_mem (ram st) (p + k)) \<and>
     init_page_dir st' = init_page_dir st \<and> init_ram_pages st' = init_ram_pages st \<and>
     (\<forall>u. pool_base (get_pool u (ram st')) = pool_base (get_pool u (ram st)))"

definition keeps_tables :: "u32 set \<Rightarrow> mmu \<Rightarrow> mmu \<Rightarrow> bool" where
  "keeps_tables R st st' \<longleftrightarrow>
     (\<forall>q \<in> R. \<forall>i. 768 \<le> unat i \<and> unat i < 1024 \<longrightarrow> pde_at st' q i = pde_at st q i) \<and>
     (\<forall>p. used_page False st p \<longrightarrow> used_page False st' p) \<and>
     (\<forall>q \<in> R. \<forall>i. unat i < 768 \<and> pde_at st' q i \<noteq> 0 \<longrightarrow>
        pde_at st q i \<noteq> 0 \<and> pt_at st' q i = pt_at st q i \<or> \<not> used_page False st (pt_at st' q i))"

text \<open>The kernel's half of the directories: its tables are pages of the kernel, and none is a directory or a user table.\<close>

definition khalf_ok :: "u32 set \<Rightarrow> mmu \<Rightarrow> bool" where
  "khalf_ok R st \<longleftrightarrow> (\<forall>pd \<in> R. \<forall>i. 768 \<le> unat i \<and> unat i < 1024 \<and> pde_at st pd i \<noteq> 0 \<longrightarrow>
     pde_at st pd i AND PTE_P \<noteq> 0 \<and> pde_at st pd i AND PTE_ADDR < 0x40000000 \<and> used_page False st (pt_at st pd i) \<and>
     pt_at st pd i \<notin> R \<and> (\<forall>q \<in> R. \<forall>j. unat j < 768 \<and> pde_at st q j \<noteq> 0 \<longrightarrow> pt_at st q j \<noteq> pt_at st pd i))"

lemma keeps_user_refl [simp]: "keeps_user st st"
  by (simp add: keeps_user_def)

lemma keeps_user_trans: "keeps_user a b \<Longrightarrow> keeps_user b c \<Longrightarrow> keeps_user a c"
  by (simp add: keeps_user_def)

lemma keeps_tables_refl [simp]: "keeps_tables R st st"
  by (simp add: keeps_tables_def)

lemma keeps_tables_trans: "keeps_tables R a b \<Longrightarrow> keeps_tables R b c \<Longrightarrow> keeps_tables R a c"
  unfolding keeps_tables_def by (metis (no_types, lifting))

lemma khalf_ok_keeps: "khalf_ok R st \<Longrightarrow> keeps_tables R st st' \<Longrightarrow> khalf_ok R st'"
  unfolding khalf_ok_def keeps_tables_def pt_at_def by (metis (no_types, lifting))

lemma keeps_tlb [simp]:
  "keeps_user st (st'\<lparr>tlb := t\<rparr>) = keeps_user st st'" "keeps_tables R st (st'\<lparr>tlb := t\<rparr>) = keeps_tables R st st'"
  by (simp_all add: keeps_user_def keeps_tables_def used_page_def fun_eq_iff pde_at_def pt_at_def load_entry_def)

lemma user_kernel_apart:
  assumes "phys_ok (ram st)" "used_page True st p" "used_page False st T" "unat i < 4096" "unat j < 4096"
  shows "p + i \<noteq> T + j"
proof
  assume e: "p + i = T + j"
  note p = page_usedD(1) [OF assms(1) assms(2) [unfolded used_page_def]] and T = page_usedD(1) [OF assms(1) assms(3) [unfolded used_page_def]]
  have "p = T" using same_page [OF p T, of "unat i" "unat j"] e assms(4,5) unat_page_plus [OF p] unat_page_plus [OF T] by metis
  then show False using page_used_other_pool [OF assms(1)] assms(2,3) by (auto simp: used_page_def)
qed

lemma store32_other: "b \<noteq> a \<Longrightarrow> b \<noteq> a + 1 \<Longrightarrow> b \<noteq> a + 2 \<Longrightarrow> b \<noteq> a + 3 \<Longrightarrow> store32 a w mem b = mem b"
  by (simp add: store32_def Let_def)

lemma keeps_user_store:
  assumes ok: "phys_ok (ram st)" and T: "used_page False st T" and j: "unat j < 1024"
  shows "keeps_user st (store_entry (T + 4 * j) w st)"
proof -
  have "phys_mem (ram (store_entry (T + 4 * j) w st)) (p + k) = phys_mem (ram st) (p + k)"
    if p: "used_page True st p" "unat k < 4096" for p k
  proof -
    have "p + k \<noteq> T + (4 * j + i)" if "unat i < 4" for i
      by (rule user_kernel_apart [OF ok p(1) T p(2) entry_bytes [OF j that]])
    from this [of 0] this [of 1] this [of 2] this [of 3] show ?thesis
      by (simp add: store_entry_def store32_other add.assoc)
  qed
  then show ?thesis by (simp add: keeps_user_def used_page_def fun_eq_iff page_used_def get_pool_def)
qed

lemma used_page_store [simp]: "used_page u (store_entry a w st) = used_page u st"
  by (simp add: used_page_def fun_eq_iff page_used_def store_entry_def)

text \<open>A write into a table that is not a directory leaves all directories alone.\<close>

lemma keeps_tables_store:
  assumes ok: "dirs_ok R st" and T: "used_page False st T" "T \<notin> R" and j: "unat j < 1024"
  shows "keeps_tables R st (store_entry (T + 4 * j) w st)"
proof -
  have "pde_at (store_entry (T + 4 * j) w st) q i = pde_at st q i" if "q \<in> R" "unat i < 1024" for q i
    unfolding pde_at_def
    using load_store_entry [OF table_pageD(1) [OF ok] table_pageD(1) [OF ok dirs_okD(5) [OF ok that(1)]] j that(2), of T w]
      T that(1) by (auto simp: table_page_used)
  then show ?thesis by (auto simp: keeps_tables_def pt_at_def)
qed

section \<open>Operations on user addresses\<close>

lemma keeps_store_pte:
  assumes ok: "dirs_ok R st" and pd: "pd \<in> R" and v: "is_user_vaddr v" and p: "pte_addr st pd v \<noteq> 0"
  shows "keeps_user st (store_entry (pte_addr st pd v) w st)" "keeps_tables R st (store_entry (pte_addr st pd v) w st)"
proof -
  have nz: "pde_at st pd (pd_no v) \<noteq> 0" using p by (auto simp: pte_addr_def split: if_splits)
  note t = table_okD [OF dirs_okD(6) [OF ok pd pd_no_bound [OF v] nz]]
  have a: "pte_addr st pd v = pt_at st pd (pd_no v) + 4 * pt_no v" using nz by (simp add: pte_addr_def)
  show "keeps_user st (store_entry (pte_addr st pd v) w st)" "keeps_tables R st (store_entry (pte_addr st pd v) w st)"
    unfolding a using keeps_user_store [OF dirs_okD(1) [OF ok]] keeps_tables_store [OF ok] t(3,4) by (simp_all add: table_page_used)
qed

lemma keeps_invalidate:
  assumes "tlb_ok R st" "pd \<noteq> 0" "invalidate_pagedir pd (store_entry a w st) = Some st'"
    and "keeps_user st (store_entry a w st)" "keeps_tables R st (store_entry a w st)"
  shows "keeps_user st st' \<and> keeps_tables R st st'"
proof -
  have t: "cr3 st < 0x40000000" using tlb_okD(1) [OF assms(1)] .
  have "st' = store_entry a w st \<or> st' = (store_entry a w st)\<lparr>tlb := Map.empty\<rparr>"
    using assms(2,3) ptov_low [OF t] by (auto simp: invalidate_pagedir_def active_pd_def pagedir_activate_def split: if_splits)
  then show ?thesis using assms(4,5) by auto
qed

lemma clear_page_keeps:
  assumes ok: "dirs_ok R st" "tlb_ok R st" and pd: "pd \<in> R" and v: "is_user_vaddr v" "pg_ofs v = 0"
    and run: "pagedir_clear_page pd v st = Some st'"
  shows "keeps_user st st' \<and> keeps_tables R st st'"
proof (cases "pte_addr st pd v \<noteq> 0 \<and> load_entry st (pte_addr st pd v) AND PTE_P \<noteq> 0")
  case True
  have pd0: "pd \<noteq> 0" using table_pageD(2) dirs_okD(5) ok(1) pd by blast
  have "invalidate_pagedir pd (store_entry (pte_addr st pd v) (load_entry st (pte_addr st pd v) AND NOT PTE_P) st) = Some st'"
    using run True lookup_page_eq(1) [OF ok(1) pd v(1)] v by (simp add: pagedir_clear_page_def)
  from keeps_invalidate [OF ok(2) pd0 this] keeps_store_pte [OF ok(1) pd v(1)] True show ?thesis by blast
next
  case False
  then have "st' = st" using run lookup_page_eq(1) [OF ok(1) pd v(1)] v by (auto simp: pagedir_clear_page_def)
  then show ?thesis by simp
qed

lemma set_accessed_keeps:
  assumes ok: "dirs_ok R st" "tlb_ok R st" and pd: "pd \<in> R" and v: "is_user_vaddr v"
  shows "\<exists>st'. pagedir_set_accessed pd v False st = Some st' \<and> dirs_ok R st' \<and> tlb_ok R st' \<and>
    keeps_user st st' \<and> keeps_tables R st st' \<and>
    (\<forall>q \<in> R. \<forall>v'. is_user_vaddr v' \<longrightarrow> user_pte st' q v' =
       (if q = pd \<and> pg_round_down v' = pg_round_down v \<and> pte_addr st pd v \<noteq> 0 then user_pte st pd v AND NOT PTE_A else user_pte st q v'))"
proof (cases "pte_addr st pd v = 0")
  case True
  then have "pagedir_set_accessed pd v False st = Some st" using set_dirty_eq(2) [OF ok(1) pd v] by simp
  then show ?thesis using ok True by simp
next
  case False
  have pd0: "pd \<noteq> 0" using table_pageD(2) dirs_okD(5) ok(1) pd by blast
  have fo: "frame_ok (user_pte st pd v AND NOT PTE_A)"
    using frame_ok_flag [OF user_pte_frame_ok [OF ok(1) pd v], of PTE_A False] by (simp add: set_flag_def)
  have run: "pagedir_set_accessed pd v False st = invalidate_pagedir pd (store_entry (pte_addr st pd v) (user_pte st pd v AND NOT PTE_A) st)"
    using set_dirty_eq(2) [OF ok(1) pd v] False by simp
  obtain st' where st': "invalidate_pagedir pd (store_entry (pte_addr st pd v) (user_pte st pd v AND NOT PTE_A) st) = Some st'"
    "dirs_ok R st'" "tlb_ok R st'" "\<forall>q \<in> R. \<forall>v'. is_user_vaddr v' \<longrightarrow>
       user_pte st' q v' = (if q = pd \<and> pg_round_down v' = pg_round_down v then user_pte st pd v AND NOT PTE_A else user_pte st q v')"
    using store_invalidate [OF ok pd v fo False] by (elim exE conjE) (rule that)
  from keeps_invalidate [OF ok(2) pd0 st'(1)] keeps_store_pte [OF ok(1) pd v False] have "keeps_user st st' \<and> keeps_tables R st st'" by blast
  then show ?thesis using run st' False by (intro exI [of _ st']) simp
qed

section \<open>Mapping a page\<close>

lemma new_page_keeps:
  assumes ok: "dirs_ok R st" and pd: "pd \<in> R" and v: "is_user_vaddr v"
    and r: "palloc_get_page PAL_ZERO (ram st) = Some (pt, r)" "pt \<noteq> 0"
    and e: "(e AND PTE_ADDR) + PHYS_BASE = pt"
  shows "keeps_user st (store_entry (pd + 4 * pd_no v) e (st\<lparr>ram := r\<rparr>))"
    and "keeps_tables R st (store_entry (pd + 4 * pd_no v) e (st\<lparr>ram := r\<rparr>))"
    and "used_page False (st\<lparr>ram := r\<rparr>) pt"
proof -
  let ?s = "st\<lparr>ram := r\<rparr>"
  have fl: "PAL_ZERO AND PAL_ASSERT = 0" "False = (PAL_ZERO AND PAL_USER \<noteq> 0)" "PAL_ZERO AND PAL_ZERO \<noteq> 0"
    by (simp_all add: PAL_ZERO_def PAL_USER_def PAL_ASSERT_def)
  note ph = dirs_okD(1) [OF ok]
  have p: "phys_ok r" "pg_ofs pt = 0" "phys_mem r = memset (phys_mem (ram st)) pt 0 PGSIZE"
    "\<not> used_page False st pt" "\<And>v q. used_page v ?s q \<longleftrightarrow> used_page v st q \<or> v = False \<and> q = pt"
    "\<And>v. pool_base (get_pool v r) = pool_base (get_pool v (ram st))"
    using palloc_get_pages [OF ph zero_less_one fl(1,2)] r fl(3) unfolding palloc_get_page_def
    by (auto simp: used_page_def)
  show new: "used_page False ?s pt" using p(5) by simp
  have i: "unat (pd_no v) < 768" using v by (rule pd_no_bound)
  have tp: "used_page False st q" if "q \<in> R" for q using dirs_okD(5) [OF ok that] by (simp add: table_page_used)
  have al: "pg_ofs q = 0" if "used_page False st q" for q using page_usedD(1) [OF ph] that by (simp add: used_page_def)
  have "phys_mem r (q + k) = phys_mem (ram st) (q + k)" if q: "used_page True st q" "unat k < 4096" for q k
  proof -
    have "q \<noteq> pt" using p(5) [of True q] new page_used_other_pool [OF p(1), of True q False] q(1) by (auto simp: used_page_def)
    moreover have "pg_ofs q = 0" using page_usedD(1) [OF ph q(1) [unfolded used_page_def]] .
    ultimately show ?thesis using page_offset [OF p(2) _ q(2)] by (auto simp: p(3) memset_def PGSIZE_def)
  qed
  then have ku: "keeps_user st ?s" using p(5,6) by (auto simp: keeps_user_def fun_eq_iff)
  have "used_page False ?s pd" using p(5) tp [OF pd] by simp
  from keeps_user_store [OF _ this, of "pd_no v" e] p(1) i have "keeps_user ?s (store_entry (pd + 4 * pd_no v) e ?s)" by simp
  with ku show "keeps_user st (store_entry (pd + 4 * pd_no v) e ?s)" by (rule keeps_user_trans)
  have pde: "pde_at (store_entry (pd + 4 * pd_no v) e ?s) q j = (if q = pd \<and> j = pd_no v then e else pde_at st q j)"
    if q: "q \<in> R" "unat j < 1024" for q j
  proof -
    have ne: "q \<noteq> pt" using tp [OF q(1)] p(4) by blast
    have "pde_at (store_entry (pd + 4 * pd_no v) e ?s) q j = (if pd = q \<and> pd_no v = j then e else pde_at ?s q j)"
      unfolding pde_at_def using i q(2) by (intro load_store_entry al tp pd q(1)) simp_all
    moreover have "pde_at ?s q j = pde_at st q j"
      using load_memset [OF p(2) al [OF tp [OF q(1)]] q(2), of "phys_mem (ram st)" 0] ne by (simp add: pde_at_def load_entry_def p(3))
    ultimately show ?thesis by auto
  qed
  have "pde_at st q j \<noteq> 0 \<and> pt_at (store_entry (pd + 4 * pd_no v) e ?s) q j = pt_at st q j \<or>
      \<not> used_page False st (pt_at (store_entry (pd + 4 * pd_no v) e ?s) q j)"
    if q: "q \<in> R" "unat j < 768" "pde_at (store_entry (pd + 4 * pd_no v) e ?s) q j \<noteq> 0" for q j
    using pde [OF q(1), of j] q(2,3) e p(4) by (cases "q = pd \<and> j = pd_no v") (simp_all add: pt_at_def)
  moreover have "pde_at (store_entry (pd + 4 * pd_no v) e ?s) q j = pde_at st q j" if "q \<in> R" "768 \<le> unat j" "unat j < 1024" for q j
    using pde [OF that(1,3)] that(2) i by auto
  ultimately show "keeps_tables R st (store_entry (pd + 4 * pd_no v) e ?s)"
    using p(5) unfolding keeps_tables_def by simp
qed

lemma full_page_keeps:
  assumes ok: "dirs_ok R st" and r: "palloc_get_page PAL_ZERO (ram st) = Some (0, r)"
  shows "keeps_user st (st\<lparr>ram := r\<rparr>) \<and> keeps_tables R st (st\<lparr>ram := r\<rparr>)"
proof -
  have fl: "PAL_ZERO AND PAL_ASSERT = 0" "False = (PAL_ZERO AND PAL_USER \<noteq> 0)"
    by (simp_all add: PAL_ZERO_def PAL_USER_def PAL_ASSERT_def)
  have m: "phys_mem r = phys_mem (ram st)" "\<And>v. page_used v r = page_used v (ram st)"
    "\<And>v. pool_base (get_pool v r) = pool_base (get_pool v (ram st))"
    using palloc_get_pages [OF dirs_okD(1) [OF ok] zero_less_one fl] r unfolding palloc_get_page_def by auto
  have "used_page v (st\<lparr>ram := r\<rparr>) = used_page v st" for v by (rule ext) (simp add: used_page_def m(2))
  then show ?thesis by (simp add: keeps_user_def keeps_tables_def m(1,3) pde_at_def pt_at_def load_entry_def)
qed

lemma lookup_create_keeps:
  assumes ok: "dirs_ok R st" and pd: "pd \<in> R" and v: "is_user_vaddr v"
    and run: "lookup_page pd v True st = Some (pte, st')"
  shows "keeps_user st st' \<and> keeps_tables R st st'"
proof (cases "pde_at st pd (pd_no v) = 0")
  case False
  then have "lookup_page pd v True st = lookup_page pd v False st" using v by (simp add: lookup_page_def pde_at_def)
  then show ?thesis using run lookup_page_eq(1) [OF ok pd v] by simp
next
  case True
  have pd0: "pd \<noteq> 0" using table_pageD(2) dirs_okD(5) ok pd by blast
  obtain pt r where r: "palloc_get_page PAL_ZERO (ram st) = Some (pt, r)"
    using run True pd0 v by (auto simp: lookup_page_def pde_at_def Let_def split: bind_splits)
  show ?thesis
  proof (cases "pt = 0")
    case z: True
    then have "st' = st\<lparr>ram := r\<rparr>" using run True pd0 v r by (simp add: lookup_page_def pde_at_def)
    then show ?thesis using full_page_keeps [OF ok] r z by simp
  next
    case False
    have fl: "PAL_ZERO AND PAL_USER = 0" "PAL_ZERO AND PAL_ASSERT = 0" by (simp_all add: PAL_ZERO_def PAL_USER_def PAL_ASSERT_def)
    have "pg_ofs pt = 0 \<and> PHYS_BASE \<le> pt" by (rule get_table_page [OF ok fl]) (use r False in simp_all)
    then have p: "pg_ofs pt = 0" "PHYS_BASE \<le> pt" by simp_all
    obtain e where e: "pde_create pt = Some e" "(e AND PTE_ADDR) + PHYS_BASE = pt" using pde_create_ok [OF p] by blast
    have "st' = store_entry (pd + 4 * pd_no v) e (st\<lparr>ram := r\<rparr>)"
      using run True pd0 v r False e(1) by (auto simp: lookup_page_def pde_at_def Let_def split: bind_splits)
    then show ?thesis using new_page_keeps [OF ok pd v r False e(2)] by simp
  qed
qed

lemma set_page_keeps:
  assumes ok: "dirs_ok R st" and pd: "pd \<in> R" "pd \<noteq> init_page_dir st" and u: "is_user_vaddr upage" "pg_ofs upage = 0"
    and run: "pagedir_set_page pd upage kpage w st = Some (r, st')"
  shows "keeps_user st st' \<and> keeps_tables R st st'"
proof -
  obtain pte s1 where l: "lookup_page pd upage True st = Some (pte, s1)" "dirs_ok R s1"
    "if pte = 0 then kernel_full st else pde_at s1 pd (pd_no upage) \<noteq> 0 \<and> pte = pte_addr s1 pd upage"
    using lookup_create [OF ok pd u(1)] by blast
  have k: "keeps_user st s1" "keeps_tables R st s1" using lookup_create_keeps [OF ok pd(1) u(1) l(1)] by simp_all
  show ?thesis
  proof (cases "pte = 0")
    case True
    then have "st' = s1" using run l(1) by (auto simp: pagedir_set_page_def kassert_bind_Some_iff split: bind_splits)
    then show ?thesis using k by simp
  next
    case False
    then obtain e where st': "st' = store_entry (pte_addr s1 pd upage) e s1"
      using run l(1,3) by (auto simp: pagedir_set_page_def kassert_bind_Some_iff split: bind_splits)
    have "pte_addr s1 pd upage \<noteq> 0" using False l(3) by simp
    from keeps_store_pte [OF l(2) pd(1) u(1) this] k show ?thesis
      unfolding st' by (blast intro: keeps_user_trans keeps_tables_trans)
  qed
qed

section \<open>Kernel addresses\<close>

definition same_dirs :: "u32 set \<Rightarrow> mmu \<Rightarrow> mmu \<Rightarrow> bool" where
  "same_dirs R st st' \<longleftrightarrow> dirs_ok R st' \<and> tlb_ok R st' \<and> keeps_tables R st st' \<and>
     (\<forall>q \<in> R. \<forall>v. is_user_vaddr v \<longrightarrow> user_pte st' q v = user_pte st q v)"

lemma kernel_pd_no: "\<not> is_user_vaddr v \<Longrightarrow> 768 \<le> unat (pd_no v)" "unat (pd_no v) < 1024"
proof -
  have "unat v < 2 ^ 32" by (rule u32_bound)
  then show "unat (pd_no v) < 1024" by (simp add: unat_pd_no div_mult2_eq [symmetric] div_less_iff_less_mult)
  assume "\<not> is_user_vaddr v"
  then have "0xC0000000 \<le> unat v" by (simp add: is_user_vaddr_def PHYS_BASE_def word_less_nat_alt)
  then have "0xC0000000 div 0x400000 \<le> unat v div 0x400000" by (rule div_le_mono)
  then show "768 \<le> unat (pd_no v)" by (simp add: unat_pd_no div_mult2_eq [symmetric])
qed

lemma khalf_okD:
  assumes "khalf_ok R st" "pd \<in> R" "\<not> is_user_vaddr v" "pde_at st pd (pd_no v) \<noteq> 0"
  shows "pde_at st pd (pd_no v) AND PTE_P \<noteq> 0" "pde_at st pd (pd_no v) AND PTE_ADDR < 0x40000000"
    "used_page False st (pt_at st pd (pd_no v))" "pt_at st pd (pd_no v) \<notin> R"
    "q \<in> R \<Longrightarrow> unat j < 768 \<Longrightarrow> pde_at st q j \<noteq> 0 \<Longrightarrow> pt_at st q j \<noteq> pt_at st pd (pd_no v)"
  using assms kernel_pd_no [of v] unfolding khalf_ok_def by blast+

lemma lookup_kernel:
  assumes ok: "dirs_ok R st" "khalf_ok R st" and pd: "pd \<in> R" and v: "\<not> is_user_vaddr v"
  shows "lookup_page pd v False st = Some (pte_addr st pd v, st)"
proof -
  have pd0: "pd \<noteq> 0" using table_pageD(2) dirs_okD(5) ok pd by blast
  show ?thesis
  proof (cases "pde_at st pd (pd_no v) = 0")
    case True
    then show ?thesis using pd0 by (simp add: lookup_page_def pte_addr_def pde_at_def)
  next
    case False
    note k = khalf_okD [OF ok(2) pd v False]
    then show ?thesis using pd0 False by (simp add: lookup_page_def pte_addr_def pde_at_def [symmetric] pde_get_pt_def ptov_low pt_at_def Let_def)
  qed
qed

lemma is_dirty_kernel:
  assumes "dirs_ok R st" "khalf_ok R st" "pd \<in> R" "\<not> is_user_vaddr v"
  shows "\<exists>b. pagedir_is_dirty pd v st = Some b"
  by (simp add: pagedir_is_dirty_def lookup_kernel [OF assms])

lemma set_dirty_kernel:
  assumes ok: "dirs_ok R st" "tlb_ok R st" "khalf_ok R st" and pd: "pd \<in> R" and v: "\<not> is_user_vaddr v"
  shows "\<exists>st'. pagedir_set_dirty pd v False st = Some st' \<and> keeps_user st st' \<and> same_dirs R st st'"
proof (cases "pte_addr st pd v = 0")
  case True
  then show ?thesis using ok by (simp add: pagedir_set_dirty_def lookup_kernel [OF ok(1,3) pd v] same_dirs_def)
next
  case False
  let ?w = "load_entry st (pte_addr st pd v) AND NOT PTE_D" and ?T = "pt_at st pd (pd_no v)"
  let ?s = "store_entry (pte_addr st pd v) ?w st"
  have pd0: "pd \<noteq> 0" using table_pageD(2) dirs_okD(5) ok pd by blast
  have nz: "pde_at st pd (pd_no v) \<noteq> 0" using False by (auto simp: pte_addr_def split: if_splits)
  note k = khalf_okD [OF ok(3) pd v nz]
  have a: "pte_addr st pd v = ?T + 4 * pt_no v" using nz by (simp add: pte_addr_def)
  have T: "pg_ofs ?T = 0" using table_pageD(1) [OF ok(1)] k(3) by (simp add: table_page_used)
  have ks: "keeps_user st ?s" "keeps_tables R st ?s"
    unfolding a using keeps_user_store [OF dirs_okD(1) [OF ok(1)] k(3)] keeps_tables_store [OF ok(1) k(3,4)] by simp_all
  have load: "load_entry ?s (q + 4 * j) = load_entry st (q + 4 * j)" if "pg_ofs q = 0" "unat j < 1024" "q \<noteq> ?T" for q j
    unfolding a using load_store_entry [OF T that(1) _ that(2), of "pt_no v"] that(3) by simp
  have pde: "pde_at ?s q j = pde_at st q j" if "q \<in> R" "unat j < 1024" for q j
    unfolding pde_at_def using load [OF table_pageD(1) [OF ok(1) dirs_okD(5) [OF ok(1) that(1)]] that(2)] k(4) that(1) by auto
  have pte: "load_entry ?s (pt_at st q j + 4 * i) = load_entry st (pt_at st q j + 4 * i)"
    if "q \<in> R" "unat j < 768" "pde_at st q j \<noteq> 0" "unat i < 1024" for q j i
    by (rule load [OF table_pageD(1) [OF ok(1) table_page_pt [OF ok(1) that(1-3)]] that(4) k(5) [OF that(1-3)]])
  have d: "dirs_ok R ?s"
  proof (rule dirs_ok_same [OF ok(1)])
    fix q j i assume q: "q \<in> R" "unat j < 768" "pde_at st q j \<noteq> 0" "unat (i :: u32) < 1024"
    show "frame_ok (load_entry ?s (pt_at st q j + 4 * i))" using pte [OF q] table_okD(5) [OF dirs_okD(6) [OF ok(1) q(1-3)] q(4)] by simp
  qed (use dirs_okD(1,5) [OF ok(1)] table_page_pt [OF ok(1)] pde in \<open>simp_all\<close>)
  have u: "user_pte ?s q v' = user_pte st q v'" if "q \<in> R" "is_user_vaddr v'" for q v'
    using pde [OF that(1), of "pd_no v'"] pte [OF that(1), of "pd_no v'" "pt_no v'"] pd_no_bound [OF that(2)]
    by (simp add: user_pte_def pt_at_def)
  have t: "tlb_ok R ?s" by (rule tlb_ok_same [OF ok(2)]) (use u tlb_okD(2) [OF ok(2)] in simp_all)
  have run: "pagedir_set_dirty pd v False st = invalidate_pagedir pd ?s"
    using False by (simp add: pagedir_set_dirty_def lookup_kernel [OF ok(1,3) pd v])
  have inv: "invalidate_pagedir pd ?s = Some (if cr3 ?s + PHYS_BASE = pd then ?s\<lparr>tlb := Map.empty\<rparr> else ?s)"
    by (rule invalidate_pagedir_eq [OF t pd0])
  have "tlb_ok R (?s\<lparr>tlb := Map.empty\<rparr>)" using tlb_okD(1,2) [OF t] by (simp add: tlb_ok_def)
  then show ?thesis using run inv ks d t u by (simp add: same_dirs_def)
qed

section \<open>Frames\<close>

text \<open>Changes outside of the kernel's pages leave the page tables alone.\<close>

lemma same_dirs_ram:
  assumes ok: "dirs_ok R st" "tlb_ok R st" and r: "phys_ok r" "\<And>u. pool_base (get_pool u r) = pool_base (get_pool u (ram st))"
    and used: "\<And>q. page_used False r q \<longleftrightarrow> used_page False st q"
    and mem: "\<And>T k. used_page False st T \<Longrightarrow> unat k < 4096 \<Longrightarrow> phys_mem r (T + k) = phys_mem (ram st) (T + k)"
  shows "same_dirs R st (st\<lparr>ram := r\<rparr>)"
proof -
  let ?s = "st\<lparr>ram := r\<rparr>"
  have tp: "table_page ?s q = used_page False st q" for q using used by (simp add: table_page_def)
  have load: "load_entry ?s (T + 4 * i) = load_entry st (T + 4 * i)" if "used_page False st T" "unat i < 1024" for T i
    unfolding load_entry_def using that(2) by (intro load_page_cong) (simp_all add: mem [OF that(1)])
  have R: "used_page False st q" if "q \<in> R" for q using dirs_okD(5) [OF ok(1) that] by (simp add: table_page_used)
  have pde: "pde_at ?s q j = pde_at st q j" if "q \<in> R" "unat j < 1024" for q j
    unfolding pde_at_def by (rule load [OF R [OF that(1)] that(2)])
  have T: "used_page False st (pt_at st q j)" if "q \<in> R" "unat j < 768" "pde_at st q j \<noteq> 0" for q j
    using table_page_pt [OF ok(1) that] by (simp add: table_page_used)
  have d: "dirs_ok R ?s"
  proof (rule dirs_ok_same [OF ok(1)])
    fix q j i assume q: "q \<in> R" "unat j < 768" "pde_at st q j \<noteq> 0" "unat (i :: u32) < 1024"
    show "frame_ok (load_entry ?s (pt_at st q j + 4 * i))"
      using load [OF T [OF q(1-3)] q(4)] table_okD(5) [OF dirs_okD(6) [OF ok(1) q(1-3)] q(4)] by simp
  qed (use r(1) r(2) [of False] R T tp pde in \<open>simp_all add: get_pool_def\<close>)
  have u: "user_pte ?s q v = user_pte st q v" if "q \<in> R" "is_user_vaddr v" for q v
    using pde [OF that(1), of "pd_no v"] load [OF T [OF that(1)], of "pd_no v" "pt_no v"] pd_no_bound [OF that(2)]
    by (simp add: user_pte_def pt_at_def)
  have t: "tlb_ok R ?s" by (rule tlb_ok_same [OF ok(2)]) (use u tlb_okD(2) [OF ok(2)] in simp_all)
  have "keeps_tables R st ?s"
    using pde tp unfolding keeps_tables_def by (auto simp: pt_at_def used_page_def table_page_def)
  then show ?thesis using d t u by (simp add: same_dirs_def)
qed

lemma same_dirs_trans: "same_dirs R a b \<Longrightarrow> same_dirs R b c \<Longrightarrow> same_dirs R a c"
  unfolding same_dirs_def using keeps_tables_trans by (metis (no_types, lifting))

text \<open>A page of the user pool is obtained without being written.\<close>

lemma palloc_user:
  assumes ok: "dirs_ok R st" "tlb_ok R st" and fl: "flags AND PAL_ASSERT = 0" "flags AND PAL_ZERO = 0" "flags AND PAL_USER \<noteq> 0"
    and run: "palloc_get_page flags (ram st) = Some (p, r)"
  shows "same_dirs R st (st\<lparr>ram := r\<rparr>) \<and> phys_mem r = phys_mem (ram st) \<and>
    (\<forall>u. pool_base (get_pool u r) = pool_base (get_pool u (ram st))) \<and>
    (\<forall>q. used_page True (st\<lparr>ram := r\<rparr>) q \<longleftrightarrow> used_page True st q \<or> p \<noteq> 0 \<and> q = p) \<and> (p \<noteq> 0 \<longrightarrow> \<not> used_page True st p)"
proof -
  have u: "True = (flags AND PAL_USER \<noteq> 0)" using fl(3) by simp
  have "phys_ok r \<and> phys_mem r = phys_mem (ram st) \<and> (\<forall>u. pool_base (get_pool u r) = pool_base (get_pool u (ram st))) \<and>
    (\<forall>v q. page_used v r q \<longleftrightarrow> page_used v (ram st) q \<or> v = True \<and> p \<noteq> 0 \<and> q = p) \<and> (p \<noteq> 0 \<longrightarrow> \<not> page_used True (ram st) p)"
    by (rule palloc_get_pages [OF dirs_okD(1) [OF ok(1)] zero_less_one fl(1) u])
      (use run fl(2) in \<open>simp_all add: palloc_get_page_def\<close>)
  then have r: "phys_ok r" "phys_mem r = phys_mem (ram st)" "\<And>u. pool_base (get_pool u r) = pool_base (get_pool u (ram st))"
    "\<And>v q. page_used v r q \<longleftrightarrow> page_used v (ram st) q \<or> v = True \<and> p \<noteq> 0 \<and> q = p" "p \<noteq> 0 \<longrightarrow> \<not> page_used True (ram st) p"
    by simp_all
  have "same_dirs R st (st\<lparr>ram := r\<rparr>)" by (rule same_dirs_ram [OF ok r(1,3)]) (simp_all add: r used_page_def)
  then show ?thesis using r by (simp add: used_page_def)
qed

lemma free_user:
  assumes ok: "dirs_ok R st" "tlb_ok R st" and p: "used_page True st p"
  shows "\<exists>st'. free_page p st = Some st' \<and> same_dirs R st st' \<and> st' = st\<lparr>ram := ram st'\<rparr> \<and>
    (\<forall>q. used_page True st' q \<longleftrightarrow> used_page True st q \<and> q \<noteq> p) \<and>
    (\<forall>u. pool_base (get_pool u (ram st')) = pool_base (get_pool u (ram st))) \<and>
    (\<forall>q k. used_page True st q \<and> q \<noteq> p \<and> unat k < 4096 \<longrightarrow> phys_mem (ram st') (q + k) = phys_mem (ram st) (q + k))"
proof -
  note ph = dirs_okD(1) [OF ok(1)]
  have p': "page_used True (ram st) p" using p by (simp add: used_page_def)
  obtain r where r: "palloc_free_multiple p 1 (ram st) = Some r" "phys_ok r"
    "phys_mem r = memset (phys_mem (ram st)) p 0xCC (PGSIZE * 1)"
    "\<forall>v q. page_used v r q \<longleftrightarrow> page_used v (ram st) q \<and> \<not> (v = True \<and> q \<in> pages p 1)"
    "\<forall>v. pool_base (get_pool v r) = pool_base (get_pool v (ram st))"
    using palloc_free_pages [OF ph zero_less_one p' [unfolded page_used_run]] by blast
  have mem: "phys_mem r (q + k) = phys_mem (ram st) (q + k)" if "pg_ofs q = 0" "q \<noteq> p" "unat k < 4096" for q k
    using page_offset [OF page_usedD(1) [OF ph p'] that(1,3)] that(2) by (auto simp: r(3) memset_def PGSIZE_def)
  have T: "T \<noteq> p \<and> pg_ofs T = 0" if "used_page False st T" for T
    using page_used_other_pool [OF ph p', of False] page_usedD(1) [OF ph] that by (auto simp: used_page_def)
  have "same_dirs R st (st\<lparr>ram := r\<rparr>)"
    by (rule same_dirs_ram [OF ok r(2)]) (use r(4,5) mem T in \<open>auto simp: used_page_def\<close>)
  moreover have "free_page p st = Some (st\<lparr>ram := r\<rparr>)" using r(1) by (simp add: free_page_def palloc_free_page_def)
  moreover have "phys_mem r (q + k) = phys_mem (ram st) (q + k)" if "used_page True st q" "q \<noteq> p" "unat k < 4096" for q k
    using mem page_usedD(1) [OF ph that(1) [unfolded used_page_def]] that by blast
  ultimately show ?thesis using r(4,5) by (intro exI [of _ "st\<lparr>ram := r\<rparr>"]) (auto simp: used_page_def)
qed

text \<open>Bytes written within a page of the user pool.\<close>

lemma write_user:
  assumes ok: "dirs_ok R st" "tlb_ok R st" and p: "used_page True st p"
    and m: "\<And>a. m a \<noteq> phys_mem (ram st) a \<Longrightarrow> unat (a - p) < 4096"
  shows "same_dirs R st (st\<lparr>ram := (ram st)\<lparr>phys_mem := m\<rparr>\<rparr>)"
    and "used_page True st q \<Longrightarrow> q \<noteq> p \<Longrightarrow> unat k < 4096 \<Longrightarrow> m (q + k) = phys_mem (ram st) (q + k)"
proof -
  note ph = dirs_okD(1) [OF ok(1)]
  have p': "page_used True (ram st) p" using p by (simp add: used_page_def)
  have mem: "m (q + k) = phys_mem (ram st) (q + k)" if "pg_ofs q = 0" "q \<noteq> p" "unat k < 4096" for q k
    using page_offset [OF page_usedD(1) [OF ph p'] that(1,3)] that(2) m [of "q + k"] by auto
  have T: "T \<noteq> p \<and> pg_ofs T = 0" if "used_page False st T" for T
    using page_used_other_pool [OF ph p', of False] page_usedD(1) [OF ph] that by (auto simp: used_page_def)
  show "same_dirs R st (st\<lparr>ram := (ram st)\<lparr>phys_mem := m\<rparr>\<rparr>)"
    by (rule same_dirs_ram [OF ok]) (use ph mem T in \<open>auto simp: used_page_def get_pool_def\<close>)
  show "used_page True st q \<Longrightarrow> q \<noteq> p \<Longrightarrow> unat k < 4096 \<Longrightarrow> m (q + k) = phys_mem (ram st) (q + k)"
    using mem page_usedD(1) [OF ph] by (simp add: used_page_def)
qed

section \<open>The bytes of a page\<close>

lemma length_bytes_at [simp]: "length (bytes_at p n mem) = n"
  by (simp add: bytes_at_def)

lemma bytes_at_append: "bytes_at p m mem @ bytes_at (p + of_nat m) n mem = bytes_at p (m + n) mem"
  by (rule nth_equalityI) (auto simp: bytes_at_def nth_append add.assoc simp flip: of_nat_add)

lemma concat_sectors: "concat (page_sectors p mem) = bytes_at p 4096 mem"
proof -
  have "concat (map (\<lambda>j. bytes_at (p + of_nat (512 * j)) 512 mem) [0..<n]) = bytes_at p (512 * n) mem" for n
  proof (induction n)
    case (Suc n)
    have "concat (map (\<lambda>j. bytes_at (p + of_nat (512 * j)) 512 mem) [0..<Suc n]) = bytes_at p (512 * n) mem @ bytes_at (p + of_nat (512 * n)) 512 mem"
      using Suc.IH by simp
    also have "\<dots> = bytes_at p (512 * Suc n) mem" unfolding bytes_at_append by (simp add: add.commute)
    finally show ?case .
  qed (simp add: bytes_at_def)
  from this [of 8] show ?thesis by (simp add: page_sectors_def SECTORS_PER_PAGE_def)
qed

lemma length_page_sectors [simp]: "length (page_sectors p mem) = SECTORS_PER_PAGE" "sec \<in> set (page_sectors p mem) \<Longrightarrow> length sec = 512"
  by (auto simp: page_sectors_def)

lemma bytes_at_put: "length bs = n \<Longrightarrow> n \<le> 4096 \<Longrightarrow> bytes_at p n (put_bytes p bs mem) = bs"
  by (rule nth_equalityI) (auto simp: bytes_at_def put_bytes_def unat_of_nat take_bit_nat_eq_self)

lemma bytes_at_cong: "(\<And>k. unat k < 4096 \<Longrightarrow> mem (p + k) = mem' (p + k)) \<Longrightarrow> n \<le> 4096 \<Longrightarrow> bytes_at p n mem = bytes_at p n mem'"
  by (auto simp: bytes_at_def unat_of_nat take_bit_nat_eq_self)

lemma page_sectors_cong: "(\<And>k. unat k < 4096 \<Longrightarrow> mem (p + k) = mem' (p + k)) \<Longrightarrow> page_sectors p mem = page_sectors p mem'"
proof -
  assume m: "\<And>k. unat k < 4096 \<Longrightarrow> mem (p + k) = mem' (p + k)"
  have "mem (p + of_nat (512 * j) + of_nat i) = mem' (p + of_nat (512 * j) + of_nat i)" if "j < 8" "i < 512" for i j
  proof -
    have "unat (of_nat (512 * j + i) :: u32) = 512 * j + i" using that by (subst unat_of_nat) (simp add: take_bit_nat_eq_self)
    then have "unat (of_nat (512 * j + i) :: u32) < 4096" using that by simp
    from m [OF this] show ?thesis by (simp add: add.assoc)
  qed
  then show ?thesis by (auto simp: page_sectors_def bytes_at_def SECTORS_PER_PAGE_def)
qed

section \<open>Memory after a release\<close>

lemma get_after_free:
  assumes ok: "phys_ok s" and p: "page_used True s p" and free: "palloc_free_page p s = Some r"
    and fl: "flags AND PAL_ASSERT = 0" "flags AND PAL_USER \<noteq> 0"
  shows "\<exists>q r'. palloc_get_page flags r = Some (q, r') \<and> q \<noteq> 0"
proof -
  let ?p = "get_pool True s"
  obtain i where i: "p = page_addr ?p i" "i + 1 \<le> bit_cnt (used_map ?p)" "{i..<i + 1} \<subseteq> marked (used_map ?p)"
    using p unfolding page_used_run run_used_def by blast
  obtain m where m: "r = put_pool True (?p\<lparr>used_map := m\<rparr>) (s\<lparr>phys_mem := memset (phys_mem s) p 0xCC (PGSIZE * 1)\<rparr>)"
    "bit_cnt m = bit_cnt (used_map ?p)" "marked m = marked (used_map ?p) - {i..<i + 1}"
    using palloc_free_release [OF ok zero_less_one i(2,3)] i(1) free by (auto simp: palloc_free_page_def)
  have pool: "used_map (get_pool True r) = m" by (simp add: m(1))
  have "phys_ok r"
  proof -
    obtain r' where "palloc_free_multiple p 1 s = Some r'" "phys_ok r'"
      using palloc_free_pages [OF ok zero_less_one p [unfolded page_used_run]] by blast
    then show ?thesis using free by (simp add: palloc_free_page_def)
  qed
  have u: "True = (flags AND PAL_USER \<noteq> 0)" using fl(2) by simp
  show ?thesis
  proof (rule palloc_get_pages [OF \<open>phys_ok r\<close> zero_less_one fl(1) u])
    assume "\<forall>j. j + 1 \<le> bit_cnt (used_map (get_pool True r)) \<longrightarrow> {j..<j + 1} \<inter> marked (used_map (get_pool True r)) \<noteq> {}"
    then have False using i(2) m(2,3) pool by (metis Diff_disjoint inf_commute)
    then show ?thesis ..
  qed (auto simp: palloc_get_page_def)
qed

text \<open>The flags of an entry without its present bit, or up to its accessed bit.\<close>

lemma clear_flags:
  "(e AND NOT PTE_P) AND PTE_P = 0" "(e AND NOT PTE_P) AND PTE_D = e AND PTE_D"
  "e AND NOT PTE_A = e' AND NOT PTE_A \<Longrightarrow> e AND PTE_D = e' AND PTE_D"
proof -
  show "(e AND NOT PTE_P) AND PTE_P = 0" by (simp add: and.assoc)
  have "NOT PTE_P AND PTE_D = PTE_D" "NOT PTE_A AND PTE_D = PTE_D" by (simp_all add: PTE_P_def PTE_D_def PTE_A_def)
  then show "(e AND NOT PTE_P) AND PTE_D = e AND PTE_D" "e AND NOT PTE_A = e' AND NOT PTE_A \<Longrightarrow> e AND PTE_D = e' AND PTE_D"
    by (metis and.assoc)+
qed

lemma get_none_same:
  assumes ok: "phys_ok s" and n: "0 < n" and run: "palloc_get_multiple flags n s = Some (0, r)"
  shows "r = s"
proof -
  let ?u = "flags AND PAL_USER \<noteq> 0"
  let ?b = "used_map (get_pool ?u s)"
  note pok = phys_ok_pool [OF ok, of ?u]
  have good: "bitmap_good ?b" using pok by (simp add: pool_ok_def)
  obtain x m where al: "bitmap_alloc n ?b = Some (x, m)" using bm.alloc_not_stuck [OF good] by blast
  note get = palloc_get_alloc [OF pok refl n al, unfolded run]
  have "x = None"
  proof (cases x)
    case (Some i)
    have "i + n \<le> bit_cnt ?b" using bm.alloc_SomeD [OF good al [unfolded Some]] by simp
    then have "page_addr (get_pool ?u s) i \<noteq> 0" using page_addr_aligned(2) [OF pok, of i] by simp
    then show ?thesis using get Some by (simp add: Let_def)
  qed
  then obtain idx where idx: "bitmap_scan_and_flip ?b 0 n False = Some (idx, m)" "idx = BITMAP_ERROR"
    using al by (auto simp: bitmap_alloc_def split: bind_splits if_splits)
  then have "m = ?b" by (auto simp: bitmap_scan_and_flip_def split: bind_splits if_splits)
  then have "r = put_pool ?u ((get_pool ?u s)\<lparr>used_map := ?b\<rparr>) s" using get \<open>x = None\<close> by (simp add: Let_def split: if_splits)
  then show ?thesis by (simp add: put_pool_def get_pool_def)
qed

end
