(* ===== verification/PagingRun.thy ===== *)
theory PagingRun
  imports PagingData
begin

text \<open>
  Evicting a frame and loading a page: what \<^verbatim>\<open>vm_frame_allocate\<close> and \<^verbatim>\<open>vm_load_page\<close> do to the
  contents of pages, to the page tables and to the two kinds of tables.
\<close>

section \<open>Well-formed states\<close>

text \<open>\<open>R\<close>: the page directories; \<open>fs\<close>: the entries of the frame list in order.\<close>

definition mem_ok :: "u32 set \<Rightarrow> vm \<Rightarrow> bool" where
  "mem_ok R s \<longleftrightarrow> dirs_ok R (mm s) \<and> tlb_ok R (mm s) \<and> khalf_ok R (mm s) \<and>
     PHYS_BASE \<le> pool_base (get_pool True (ram (mm s)))"

definition swap_good :: "vm \<Rightarrow> bool" where
  "swap_good s \<longleftrightarrow> swap_ok (swp s) \<and> (\<forall>k \<in> slots (swp s). \<forall>x \<in> set (slot_data (swp s) k). length x = 512)"

definition frames_ok :: "u32 set \<Rightarrow> addr list \<Rightarrow> vm \<Rightarrow> bool" where
  "frames_ok R fs s \<longleftrightarrow> list_rep (fr_links s) (frame_list s) fs \<and>
     (\<forall>k f. kframes s k = Some f \<longleftrightarrow> f \<in> set fs \<and> fr_kpage s f = k) \<and>
     (\<forall>f \<in> set fs. used_page True (mm s) (fr_kpage s f) \<and> fr_t s f \<noteq> NULL \<and> pagedir s (fr_t s f) \<in> R \<and>
        pagedir s (fr_t s f) \<noteq> 0xcccccccc \<and> is_user_vaddr (fr_upage s f) \<and> pg_ofs (fr_upage s f) = 0 \<and>
        supt s (fr_t s f) (fr_upage s f) \<noteq> None)"

definition vm_ok :: "u32 set \<Rightarrow> addr list \<Rightarrow> vm \<Rightarrow> bool" where
  "vm_ok R fs s \<longleftrightarrow> mem_ok R s \<and> swap_good s \<and> frames_ok R fs s"

lemma mem_okD:
  assumes "mem_ok R s"
  shows "dirs_ok R (mm s)" "tlb_ok R (mm s)" "khalf_ok R (mm s)" "PHYS_BASE \<le> pool_base (get_pool True (ram (mm s)))"
  using assms by (simp_all add: mem_ok_def)

lemma frames_okD:
  assumes "frames_ok R fs s"
  shows "list_rep (fr_links s) (frame_list s) fs" "kframes s k = Some f \<longleftrightarrow> f \<in> set fs \<and> fr_kpage s f = k"
    "f \<in> set fs \<Longrightarrow> used_page True (mm s) (fr_kpage s f)" "f \<in> set fs \<Longrightarrow> fr_t s f \<noteq> NULL"
    "f \<in> set fs \<Longrightarrow> pagedir s (fr_t s f) \<in> R" "f \<in> set fs \<Longrightarrow> pagedir s (fr_t s f) \<noteq> 0xcccccccc"
    "f \<in> set fs \<Longrightarrow> is_user_vaddr (fr_upage s f)" "f \<in> set fs \<Longrightarrow> pg_ofs (fr_upage s f) = 0"
    "f \<in> set fs \<Longrightarrow> \<exists>e. supt s (fr_t s f) (fr_upage s f) = Some e"
  using assms unfolding frames_ok_def by blast+

text \<open>A page of the user pool is an aligned kernel address.\<close>

lemma user_pageD:
  assumes "mem_ok R s" "used_page True (mm s) p"
  shows "pg_ofs p = 0" "p \<noteq> 0" "PHYS_BASE \<le> p" "is_kernel_vaddr p" "\<not> is_user_vaddr p"
proof -
  note u = page_usedD [OF dirs_okD(1) [OF mem_okD(1) [OF assms(1)]] assms(2) [unfolded used_page_def]]
  show "pg_ofs p = 0" "p \<noteq> 0" using u(1,2) by simp_all
  show "PHYS_BASE \<le> p" using u(3) mem_okD(4) [OF assms(1)] by (simp add: word_le_nat_alt)
  then show "is_kernel_vaddr p" "\<not> is_user_vaddr p" by (auto simp: is_kernel_vaddr_def is_user_vaddr_def)
qed

lemma mem_ok_step:
  assumes "mem_ok R s" "dirs_ok R m" "tlb_ok R m" "keeps_tables R (mm s) m"
    and "\<And>u. pool_base (get_pool u (ram m)) = pool_base (get_pool u (ram (mm s)))" "mm s' = m"
  shows "mem_ok R s'"
  using assms khalf_ok_keeps [OF mem_okD(3) [OF assms(1)] assms(4)] by (simp add: mem_ok_def)

lemma mem_ok_same_dirs:
  assumes "mem_ok R s" "same_dirs R (mm s) (mm s')" "\<And>u. pool_base (get_pool u (ram (mm s'))) = pool_base (get_pool u (ram (mm s)))"
  shows "mem_ok R s'"
  using assms(2) by (intro mem_ok_step [OF assms(1) _ _ _ assms(3) refl]) (simp_all add: same_dirs_def)

lemma mem_ok_upd [simp]:
  "mem_ok R (s\<lparr>clock_ptr := p\<rparr>) = mem_ok R s" "mem_ok R (s\<lparr>swp := w\<rparr>) = mem_ok R s" "mem_ok R (set_spte t u e s) = mem_ok R s"
  "mem_ok R (s\<lparr>fr_links := h\<rparr>) = mem_ok R s" "mem_ok R (s\<lparr>kframes := f\<rparr>) = mem_ok R s" "mem_ok R (s\<lparr>fsys := d\<rparr>) = mem_ok R s"
  by (simp_all add: mem_ok_def set_spte_def)

section \<open>Choosing the victim\<close>

text \<open>The search changes nothing but the hand and accessed bits of the directory it looks at.\<close>

definition searched :: "u32 set \<Rightarrow> vm \<Rightarrow> vm \<Rightarrow> bool" where
  "searched R s s' \<longleftrightarrow> (\<exists>p m. s' = s\<lparr>clock_ptr := p, mm := m\<rparr>) \<and> mem_ok R s' \<and> keeps_user (mm s) (mm s') \<and>
     keeps_tables R (mm s) (mm s') \<and>
     (\<forall>q \<in> R. \<forall>v. is_user_vaddr v \<longrightarrow> user_pte (mm s') q v AND NOT PTE_A = user_pte (mm s) q v AND NOT PTE_A)"

lemma searched_refl: "mem_ok R s \<Longrightarrow> searched R s s"
  unfolding searched_def by (intro conjI exI [of _ "clock_ptr s"] exI [of _ "mm s"]) simp_all

lemma searched_trans: "searched R a b \<Longrightarrow> searched R b c \<Longrightarrow> searched R a c"
proof -
  assume ab: "searched R a b" and bc: "searched R b c"
  obtain p m where b: "b = a\<lparr>clock_ptr := p, mm := m\<rparr>" using ab by (auto simp: searched_def)
  obtain q n where c: "c = b\<lparr>clock_ptr := q, mm := n\<rparr>" using bc by (auto simp: searched_def)
  have "c = a\<lparr>clock_ptr := q, mm := n\<rparr>" using b c by simp
  moreover have "keeps_user (mm a) (mm c)" "keeps_tables R (mm a) (mm c)"
    using ab bc unfolding searched_def by (blast intro: keeps_user_trans keeps_tables_trans)+
  ultimately show ?thesis using ab bc unfolding searched_def by (metis (no_types, lifting))
qed

lemma pick_loop_run:
  "mem_ok R s \<Longrightarrow> pd \<in> R \<Longrightarrow> clock_ok s fs \<Longrightarrow> fs \<noteq> [] \<Longrightarrow>
   \<forall>f \<in> insert (tail (frame_list s)) (set fs). is_user_vaddr (fr_upage s f) \<Longrightarrow> pick_loop k pd s = Some (e, s') \<Longrightarrow>
   searched R s s' \<and> clock_ptr s' = e \<and> e \<in> insert (tail (frame_list s)) (set fs) \<and> \<not> fr_pinned s e \<and>
   user_pte (mm s') pd (fr_upage s e) AND PTE_A = 0"
proof (induction k arbitrary: s)
  case (Suc k)
  obtain p where p: "clock_frame_next s = Some (p, s\<lparr>clock_ptr := p\<rparr>)"
    "p \<in> insert (tail (frame_list s)) (set fs)" "clock_ok (s\<lparr>clock_ptr := p\<rparr>) fs"
    using clock_frame_next_step [OF Suc.prems(3,4)] by blast
  let ?s = "s\<lparr>clock_ptr := p\<rparr>"
  note m = mem_okD [OF Suc.prems(1)]
  have u: "is_user_vaddr (fr_upage s p)" using Suc.prems(5) p(2) by blast
  have ok: "mem_ok R ?s" using Suc.prems(1) by simp
  have s1: "searched R s ?s" unfolding searched_def using Suc.prems(1) by (intro conjI exI [of _ p] exI [of _ "mm s"]) simp_all
  have up: "\<forall>f \<in> insert (tail (frame_list s)) (set fs). is_user_vaddr (fr_upage ?s f)" using Suc.prems(5) by simp
  have acc: "pagedir_is_accessed pd (fr_upage s p) (mm s) = Some (user_pte (mm s) pd (fr_upage s p) AND PTE_A \<noteq> 0)"
    by (rule is_dirty_eq(2) [OF m(1) Suc.prems(2) u])
  consider "fr_pinned s p" | "\<not> fr_pinned s p" "user_pte (mm s) pd (fr_upage s p) AND PTE_A \<noteq> 0"
    | "\<not> fr_pinned s p" "user_pte (mm s) pd (fr_upage s p) AND PTE_A = 0" by blast
  then show ?case
  proof cases
    case 1
    then have "pick_loop k pd ?s = Some (e, s')" using Suc.prems(6) p(1) by simp
    from Suc.IH [OF ok Suc.prems(2) p(3) Suc.prems(4) _ this] up s1 show ?thesis by (auto intro: searched_trans)
  next
    case 2
    obtain m' where m': "pagedir_set_accessed pd (fr_upage s p) False (mm s) = Some m'" "dirs_ok R m'" "tlb_ok R m'"
      "keeps_user (mm s) m'" "keeps_tables R (mm s) m'" "\<forall>q \<in> R. \<forall>v'. is_user_vaddr v' \<longrightarrow> user_pte m' q v' =
       (if q = pd \<and> pg_round_down v' = pg_round_down (fr_upage s p) \<and> pte_addr (mm s) pd (fr_upage s p) \<noteq> 0
        then user_pte (mm s) pd (fr_upage s p) AND NOT PTE_A else user_pte (mm s) q v')"
      using set_accessed_keeps [OF m(1,2) Suc.prems(2) u] by (elim exE conjE) (rule that)
    let ?s2 = "s\<lparr>clock_ptr := p, mm := m'\<rparr>"
    have ok2: "mem_ok R ?s2"
      by (rule mem_ok_step [OF Suc.prems(1) m'(2,3,5)]) (use m'(4) in \<open>simp_all add: keeps_user_def\<close>)
    have pte: "user_pte m' q v AND NOT PTE_A = user_pte (mm s) q v AND NOT PTE_A" if "q \<in> R" "is_user_vaddr v" for q v
    proof (cases "q = pd \<and> pg_round_down v = pg_round_down (fr_upage s p) \<and> pte_addr (mm s) pd (fr_upage s p) \<noteq> 0")
      case True
      then have "user_pte (mm s) pd v = user_pte (mm s) pd (fr_upage s p)" by (simp add: user_pte_def same_vpage)
      then show ?thesis using m'(6) that True by (simp add: and.assoc)
    qed (use m'(6) that in auto)
    have s2: "searched R s ?s2" unfolding searched_def using ok2 m'(4,5) pte by auto
    have "pick_loop k pd ?s2 = Some (e, s')" using Suc.prems(6) p(1) 2 acc m'(1) by simp
    from Suc.IH [OF ok2 Suc.prems(2) _ Suc.prems(4) _ this] p(3) up s2 show ?thesis
      by (auto intro: searched_trans simp: clock_ok_def)
  next
    case 3
    then show ?thesis using Suc.prems(6) p acc s1 by auto
  qed
qed simp

section \<open>Releasing a frame\<close>

lemma do_free_run:
  assumes m: "mem_ok R s" and fr: "frames_ok R fs s" and f: "f \<in> set fs"
  shows "\<exists>h m. vm_frame_do_free (fr_kpage s f) True s =
      Some (s\<lparr>kframes := (kframes s)(fr_kpage s f := None), fr_links := h, mm := m\<rparr>) \<and>
    same_dirs R (mm s) m \<and> mem_ok R (s\<lparr>mm := m\<rparr>) \<and>
    (\<forall>q. used_page True m q \<longleftrightarrow> used_page True (mm s) q \<and> q \<noteq> fr_kpage s f) \<and>
    (\<forall>q k. used_page True (mm s) q \<and> q \<noteq> fr_kpage s f \<and> unat k < 4096 \<longrightarrow> phys_mem (ram m) (q + k) = mem_of s (q + k)) \<and>
    frames_ok R (remove1 f fs) (s\<lparr>kframes := (kframes s)(fr_kpage s f := None), fr_links := h, mm := m\<rparr>) \<and> nextp h f = NULL \<and>
    free_page (fr_kpage s f) (mm s) = Some m"
proof -
  note d = frames_okD [OF fr]
  let ?k = "fr_kpage s f"
  note p = user_pageD [OF m d(3) [OF f]]
  obtain xs ys where fs: "fs = xs @ f # ys" "f \<notin> set xs" using f split_list_first by metis
  have rm: "remove1 f fs = xs @ ys" using fs by (simp add: remove1_append)
  obtain h where h: "list_remove f (fr_links s) = Some (hd (ys @ [tail (frame_list s)]), h)" "list_rep h (frame_list s) (xs @ ys)"
    using list_remove_rep [of "fr_links s" "frame_list s" xs f ys] d(1) fs(1) by auto
  have ds: "distinct (cells (frame_list s) fs)" using d(1) by (simp add: list_rep_def)
  then have out: "f \<notin> set (cells (frame_list s) (xs @ ys))" using fs(1) by (auto simp: cells_def)
  have "same_outside {f} h (set_next f NULL (set_prev f NULL h))" by (simp add: same_outside_def)
  then have rep: "list_rep (set_next f NULL (set_prev f NULL h)) (frame_list s) (xs @ ys)"
    using list_rep_same_outside [OF h(2)] out by auto
  obtain m' where m': "free_page ?k (mm s) = Some m'" "same_dirs R (mm s) m'"
    "\<forall>q. used_page True m' q \<longleftrightarrow> used_page True (mm s) q \<and> q \<noteq> ?k"
    "\<forall>u. pool_base (get_pool u (ram m')) = pool_base (get_pool u (ram (mm s)))"
    "\<forall>q k. used_page True (mm s) q \<and> q \<noteq> ?k \<and> unat k < 4096 \<longrightarrow> phys_mem (ram m') (q + k) = phys_mem (ram (mm s)) (q + k)"
    using free_user [OF mem_okD(1,2) [OF m] d(3) [OF f]] by (elim exE conjE) (rule that)
  have kf: "kframes s ?k = Some f" using d(2) f by simp
  have run: "vm_frame_do_free ?k True s =
      Some (s\<lparr>kframes := (kframes s)(?k := None), fr_links := set_next f NULL (set_prev f NULL h), mm := m'\<rparr>)"
    using p(1,4) kf h(1) m'(1) by (simp add: vm_frame_do_free_def)
  have ok: "mem_ok R (s\<lparr>mm := m'\<rparr>)" using mem_ok_same_dirs [OF m, of "s\<lparr>mm := m'\<rparr>"] m'(2,4) by simp
  have other: "fr_kpage s g \<noteq> ?k \<and> g \<in> set fs" if "g \<in> set (xs @ ys)" for g
  proof -
    have g: "g \<in> set fs" "g \<noteq> f" using that ds fs by (auto simp: cells_def)
    then have "kframes s (fr_kpage s g) = Some g" using d(2) by simp
    then show ?thesis using kf g by auto
  qed
  have "((kframes s)(?k := None)) k = Some g \<longleftrightarrow> g \<in> set (xs @ ys) \<and> fr_kpage s g = k" for k g
    using d(2) [of k g] other [of g] fs by auto
  then have "frames_ok R (remove1 f fs) (s\<lparr>kframes := (kframes s)(?k := None), fr_links := set_next f NULL (set_prev f NULL h), mm := m'\<rparr>)"
    unfolding frames_ok_def rm using rep other d(3-9) m'(3) by auto
  then show ?thesis using run m' ok by (intro exI [of _ "set_next f NULL (set_prev f NULL h)"] exI [of _ m']) simp
qed

section \<open>Eviction\<close>

lemma frames_ok_mm: "frames_ok R fs s \<Longrightarrow> (\<And>q. used_page True (mm s) q \<Longrightarrow> used_page True m q) \<Longrightarrow> frames_ok R fs (s\<lparr>mm := m\<rparr>)"
  by (auto simp: frames_ok_def)

lemma frames_ok_upd:
  "frames_ok R fs (s\<lparr>clock_ptr := p\<rparr>) = frames_ok R fs s" "frames_ok R fs (s\<lparr>swp := w\<rparr>) = frames_ok R fs s"
  "frames_ok R fs (s\<lparr>fsys := d\<rparr>) = frames_ok R fs s" "frames_ok R fs s \<Longrightarrow> frames_ok R fs (set_spte t u (Some e) s)"
  by (auto simp: frames_ok_def set_spte_def)

text \<open>What an eviction of the entry \<open>e\<close> does between the states \<open>s\<close> and \<open>s'\<close>; \<open>p\<close> is the page obtained.\<close>

definition evicted :: "u32 set \<Rightarrow> addr list \<Rightarrow> addr \<Rightarrow> u32 \<Rightarrow> vm \<Rightarrow> vm \<Rightarrow> bool" where
  "evicted R fs e p s s' \<longleftrightarrow>
     (let t = fr_t s e; u = fr_upage s e; k = fr_kpage s e in
      \<exists>spte idx d. supt s t u = Some spte \<and>
        supt s' = (supt s)(t := (supt s t)(u \<mapsto> spte\<lparr>status := ON_SWAP, spte_kpage := 0, swap_index := idx, spte_dirty := d\<rparr>)) \<and>
        (spte_dirty spte \<or> user_pte (mm s) (pagedir s t) u AND PTE_D \<noteq> 0 \<longrightarrow> d) \<and>
        idx \<notin> slots (swp s) \<and> slots (swp s') = insert idx (slots (swp s)) \<and>
        slot_data (swp s') idx = page_sectors k (mem_of s) \<and> (\<forall>j. j \<noteq> idx \<longrightarrow> slot_data (swp s') j = slot_data (swp s) j)) \<and>
     mem_ok R s' \<and> swap_good s' \<and> frames_ok R (remove1 e fs) s' \<and>
     (\<forall>v. is_user_vaddr v \<and> pg_round_down v = fr_upage s e \<longrightarrow> user_pte (mm s') (pagedir s (fr_t s e)) v AND PTE_P = 0) \<and>
     (\<forall>q \<in> R. \<forall>v. is_user_vaddr v \<and> (q \<noteq> pagedir s (fr_t s e) \<or> pg_round_down v \<noteq> fr_upage s e) \<longrightarrow>
        user_pte (mm s') q v AND NOT PTE_A = user_pte (mm s) q v AND NOT PTE_A) \<and>
     p \<noteq> 0 \<and> (\<forall>q. used_page True (mm s') q \<longleftrightarrow> used_page True (mm s) q \<and> q \<noteq> fr_kpage s e \<or> q = p) \<and>
     (p = fr_kpage s e \<or> \<not> used_page True (mm s) p) \<and>
     (\<forall>q k. used_page True (mm s) q \<and> q \<noteq> fr_kpage s e \<and> unat k < 4096 \<longrightarrow> mem_of s' (q + k) = mem_of s (q + k)) \<and>
     init_page_dir (mm s') = init_page_dir (mm s) \<and>
     clock_ptr s' = e \<and> nextp (fr_links s') e = NULL \<and> cur s' = cur s \<and> pagedir s' = pagedir s \<and> fsys s' = fsys s \<and>
     frame_list s' = frame_list s \<and> fr_pinned s' = fr_pinned s \<and> fr_upage s' = fr_upage s \<and> fr_kpage s' = fr_kpage s \<and> fr_t s' = fr_t s"

lemma swap_good_out:
  assumes ok: "swap_good s" and k: "PHYS_BASE \<le> k" and free: "slots (swp s) \<noteq> {..<swap_size (swp s)}"
  shows "\<exists>idx w. vm_swap_out k (page_sectors k (mem_of s)) (swp s) = Some (idx, w) \<and> idx \<notin> slots (swp s) \<and>
    slots w = insert idx (slots (swp s)) \<and> slot_data w idx = page_sectors k (mem_of s) \<and>
    (\<forall>j. j \<noteq> idx \<longrightarrow> slot_data w j = slot_data (swp s) j) \<and> swap_ok w \<and> (\<forall>j \<in> slots w. \<forall>x \<in> set (slot_data w j). length x = 512)"
proof -
  obtain idx w where w: "vm_swap_out k (page_sectors k (mem_of s)) (swp s) = Some (idx, w)" "idx \<notin> slots (swp s)"
    "slots w = insert idx (slots (swp s))" "swap_ok w" "slot_data w idx = page_sectors k (mem_of s)"
    "\<forall>j. j \<noteq> idx \<longrightarrow> slot_data w j = slot_data (swp s) j"
    using vm_swap_out_spec [of "swp s" k "page_sectors k (mem_of s)"] ok k free by (auto simp: swap_good_def)
  moreover have "length x = 512" if "j \<in> slots w" "x \<in> set (slot_data w j)" for j x
    using that w(3,5,6) ok by (cases "j = idx") (auto simp: swap_good_def)
  ultimately show ?thesis by blast
qed

lemma evict_frame_run:
  assumes ok: "vm_ok R fs s" and pick: "pick_frame (pagedir s (cur s)) s = Some (e, s1)"
    and se: "searched R s s1" "clock_ptr s1 = e" "e \<in> set fs" and free: "slots (swp s) \<noteq> {..<swap_size (swp s)}"
    and fl: "(PAL_USER OR flags) AND PAL_ASSERT = 0" "(PAL_USER OR flags) AND PAL_ZERO = 0" "(PAL_USER OR flags) AND PAL_USER \<noteq> 0"
  shows "\<exists>p s'. evict_frame flags s = Some (p, s') \<and> evicted R fs e p s s'"
proof -
  have m: "mem_ok R s" and sw: "swap_good s" and fr: "frames_ok R fs s" using ok by (simp_all add: vm_ok_def)
  define t where "t = fr_t s e"
  define u where "u = fr_upage s e"
  define k where "k = fr_kpage s e"
  define pd where "pd = pagedir s t"
  note f = frames_okD(3-9) [OF fr se(3), folded t_def u_def k_def, folded pd_def]
  note kp = user_pageD [OF m f(1)]
  obtain m1 where s1: "s1 = s\<lparr>clock_ptr := e, mm := m1\<rparr>" using se(1,2) unfolding searched_def by force
  have m1: "mem_ok R s1" "keeps_user (mm s) m1" "keeps_tables R (mm s) m1"
    "\<And>q v. q \<in> R \<Longrightarrow> is_user_vaddr v \<Longrightarrow> user_pte m1 q v AND NOT PTE_A = user_pte (mm s) q v AND NOT PTE_A"
    using se(1) by (simp_all add: searched_def s1)
  note d1 = mem_okD(1-3) [OF m1(1), unfolded s1, simplified]
  obtain m2 where m2: "pagedir_clear_page pd u m1 = Some m2" "dirs_ok R m2" "tlb_ok R m2"
    "\<And>q v. q \<in> R \<Longrightarrow> is_user_vaddr v \<Longrightarrow> user_pte m2 q v = (if q = pd \<and> pg_round_down v = u then user_pte m1 q v AND NOT PTE_P else user_pte m1 q v)"
    using clear_page_eq [OF d1(1,2) f(3,5,6)] by blast
  have k2: "keeps_user m1 m2" "keeps_tables R m1 m2" using clear_page_keeps [OF d1(1,2) f(3,5,6) m2(1)] by simp_all
  have ku: "keeps_user (mm s) m2" by (rule keeps_user_trans [OF m1(2) k2(1)])
  have kt: "keeps_tables R (mm s) m2" by (rule keeps_tables_trans [OF m1(3) k2(2)])
  have kh: "khalf_ok R m2" by (rule khalf_ok_keeps [OF mem_okD(3) [OF m] kt])
  have ruu: "pg_round_down u = u" by (rule pg_round_down_aligned [OF f(6)])
  have dirty: "pagedir_is_dirty pd u m2 = Some (user_pte (mm s) pd u AND PTE_D \<noteq> 0)"
    unfolding is_dirty_eq(1) [OF m2(2) f(3,5)] m2(4) [OF f(3,5)]
    using clear_flags(2) [of "user_pte m1 pd u"] clear_flags(3) [OF m1(4) [OF f(3,5)]] ruu by simp
  obtain kd where kd: "pagedir_is_dirty pd k m2 = Some kd" using is_dirty_kernel [OF m2(2) kh f(3) kp(5)] by blast
  define d2 where "d2 = (user_pte (mm s) pd u AND PTE_D \<noteq> 0 \<or> kd)"
  have mem2: "page_sectors k (phys_mem (ram m2)) = page_sectors k (mem_of s)"
    by (rule page_sectors_cong) (use ku f(1) in \<open>auto simp: keeps_user_def\<close>)
  obtain idx w where w: "vm_swap_out k (page_sectors k (mem_of s)) (swp s) = Some (idx, w)" "idx \<notin> slots (swp s)"
    "slots w = insert idx (slots (swp s))" "slot_data w idx = page_sectors k (mem_of s)"
    "\<forall>j. j \<noteq> idx \<longrightarrow> slot_data w j = slot_data (swp s) j" "swap_ok w" "\<forall>j \<in> slots w. \<forall>x \<in> set (slot_data w j). length x = 512"
    using swap_good_out [OF sw kp(3) free] by (elim exE conjE) (rule that)
  obtain spte where spte: "supt s t u = Some spte" using f(7) by blast
  let ?e2 = "spte\<lparr>status := ON_SWAP, spte_kpage := 0, swap_index := idx, spte_dirty := spte_dirty spte \<or> d2\<rparr>"
  define s3 where "s3 = s\<lparr>clock_ptr := e, mm := m2, swp := w, supt := (supt s)(t := (supt s t)(u \<mapsto> ?e2))\<rparr>"
  have m3: "mem_ok R s3"
    by (rule mem_ok_step [OF m m2(2,3) kt]) (use ku in \<open>simp_all add: keeps_user_def s3_def\<close>)
  have fr3: "frames_ok R fs s3"
    using fr ku unfolding frames_ok_def by (auto simp: s3_def keeps_user_def)
  obtain h m4 where run4: "vm_frame_do_free k True s3 = Some (s3\<lparr>kframes := (kframes s)(k := None), fr_links := h, mm := m4\<rparr>)"
    and m4: "same_dirs R m2 m4" "\<forall>q. used_page True m4 q \<longleftrightarrow> used_page True m2 q \<and> q \<noteq> k"
    "\<forall>q i. used_page True m2 q \<and> q \<noteq> k \<and> unat i < 4096 \<longrightarrow> phys_mem (ram m4) (q + i) = phys_mem (ram m2) (q + i)"
    "frames_ok R (remove1 e fs) (s3\<lparr>kframes := (kframes s)(k := None), fr_links := h, mm := m4\<rparr>)" "nextp h e = NULL"
    "mem_ok R (s3\<lparr>mm := m4\<rparr>)" "free_page k m2 = Some m4"
    using do_free_run [OF m3 fr3 se(3)] by (auto simp: s3_def k_def)
  define s4 where "s4 = s3\<lparr>kframes := (kframes s)(k := None), fr_links := h, mm := m4\<rparr>"
  have free4: "palloc_free_page k (ram m2) = Some (ram m4) \<and> init_page_dir m4 = init_page_dir m2"
    using m4(7) by (auto simp: free_page_def split: bind_splits)
  have "used_page True m2 k" using f(1) ku by (simp add: keeps_user_def)
  then have k2u: "page_used True (ram m2) k" by (simp add: used_page_def)
  obtain p r where p: "palloc_get_page (PAL_USER OR flags) (ram m4) = Some (p, r)" "p \<noteq> 0"
    using get_after_free [OF dirs_okD(1) [OF m2(2)] k2u conjunct1 [OF free4] fl(1,3)] by blast
  have d4: "dirs_ok R m4" "tlb_ok R m4" using m4(1) by (simp_all add: same_dirs_def)
  define m5 where "m5 = m4\<lparr>ram := r\<rparr>"
  have g: "same_dirs R m4 m5" "phys_mem r = phys_mem (ram m4)" "\<forall>v. pool_base (get_pool v r) = pool_base (get_pool v (ram m4))"
    "\<forall>q. used_page True m5 q \<longleftrightarrow> used_page True m4 q \<or> q = p" "\<not> used_page True m4 p"
    using palloc_user [OF d4 fl p(1)] p(2) by (simp_all add: m5_def)
  define s' where "s' = s4\<lparr>mm := m5\<rparr>"
  have dd: "(if user_pte (mm s) pd u AND PTE_D \<noteq> 0 then Some True else Some kd) = Some d2" by (simp add: d2_def)
  have "NULL \<notin> set fs" using frames_okD(1) [OF fr] by (simp add: list_rep_def cells_def)
  then have e0: "e \<noteq> NULL" using se(3) by metis
  have run: "evict_frame flags s = Some (p, s')"
    using pick e0 f(2,4) m2(1) dirty kd w(1) mem2 spte run4 p
    by (simp add: evict_frame_def s1 t_def [symmetric] u_def [symmetric] k_def [symmetric] pd_def [symmetric] dd
      vm_supt_set_swap_def vm_supt_lookup_def vm_supt_set_dirty_def set_spte_def get_frame_def s3_def s4_def s'_def m5_def Let_def
      cong: if_cong split del: if_split)
  have sd: "same_dirs R m2 m5" by (rule same_dirs_trans [OF m4(1) g(1)])
  have ok': "mem_ok R s'"
    using sd khalf_ok_keeps [OF kh, of m5] m4(6) g(3) by (simp add: mem_ok_def same_dirs_def s'_def m5_def)
  have used: "used_page True m5 q \<longleftrightarrow> used_page True (mm s) q \<and> q \<noteq> k \<or> q = p" for q
    using g(4) m4(2) ku by (simp add: keeps_user_def)
  have fr': "frames_ok R (remove1 e fs) s'"
    unfolding s'_def by (rule frames_ok_mm) (use m4(4) g(4) in \<open>simp_all add: s4_def\<close>)
  have fresh: "p = k \<or> \<not> used_page True (mm s) p" using g(5) m4(2) ku by (auto simp: keeps_user_def)
  have bytes: "phys_mem (ram m5) (q + i) = mem_of s (q + i)" if "used_page True (mm s) q" "q \<noteq> k" "unat i < 4096" for q i
    using that m4(3) ku g(2) by (simp add: keeps_user_def m5_def)
  have pte: "user_pte m5 q v = user_pte m2 q v" if "q \<in> R" "is_user_vaddr v" for q v using sd that by (simp add: same_dirs_def)
  have gone: "user_pte m5 pd v AND PTE_P = 0" if "is_user_vaddr v" "pg_round_down v = u" for v
    using pte [OF f(3) that(1)] m2(4) [OF f(3) that(1)] that(2) clear_flags(1) by simp
  have kept: "user_pte m5 q v AND NOT PTE_A = user_pte (mm s) q v AND NOT PTE_A"
    if "q \<in> R" "is_user_vaddr v" "q \<noteq> pd \<or> pg_round_down v \<noteq> u" for q v
    using pte [OF that(1,2)] m2(4) [OF that(1,2)] m1(4) [OF that(1,2)] that(3) by auto
  have ini: "init_page_dir m5 = init_page_dir (mm s)" using free4 ku by (simp add: keeps_user_def m5_def)
  have "evicted R fs e p s s'"
    unfolding evicted_def Let_def t_def [symmetric] u_def [symmetric] k_def [symmetric] pd_def [symmetric]
    apply (intro conjI)
    subgoal using spte w by (intro exI [of _ spte] exI [of _ idx] exI [of _ "spte_dirty spte \<or> d2"])
        (simp add: s'_def s4_def s3_def d2_def)
    subgoal by (rule ok')
    subgoal using w by (simp add: swap_good_def s'_def s4_def s3_def)
    subgoal by (rule fr')
    subgoal using gone by (simp add: s'_def)
    subgoal using kept by (simp add: s'_def)
    using p(2) used fresh bytes ini m4(5) by (simp_all add: s'_def s4_def s3_def)
  then show ?thesis using run by blast
qed

section \<open>Allocation\<close>

text \<open>\<open>resident s t u\<close>: some entry of the frame list is for the page \<open>u\<close> of the thread \<open>t\<close>. \<open>new_frame\<close>: what
  \<^verbatim>\<open>vm_frame_allocate\<close> is called with; \<open>frame\<close> is the new entry.\<close>

definition resident :: "addr list \<Rightarrow> vm \<Rightarrow> addr \<Rightarrow> u32 \<Rightarrow> bool" where
  "resident fs s t u \<longleftrightarrow> (\<exists>f \<in> set fs. fr_t s f = t \<and> fr_upage s f = u)"

definition new_frame :: "u32 set \<Rightarrow> addr list \<Rightarrow> addr \<Rightarrow> u32 \<Rightarrow> vm \<Rightarrow> bool" where
  "new_frame R fs frame u s \<longleftrightarrow> frame \<noteq> NULL \<and> frame \<notin> set (cells (frame_list s) fs) \<and> cur s \<noteq> NULL \<and>
     pagedir s (cur s) \<in> R \<and> pagedir s (cur s) \<noteq> 0xcccccccc \<and> is_user_vaddr u \<and> pg_ofs u = 0 \<and> supt s (cur s) u \<noteq> None"

lemma add_frame_run:
  assumes fr: "frames_ok R fs s" and nf: "new_frame R fs frame u s" and p: "used_page True (mm s) p" "p \<notin> fr_kpage s ` set fs"
  shows "\<exists>h. add_frame frame u p s = Some (s\<lparr>fr_t := (fr_t s)(frame := cur s), fr_upage := (fr_upage s)(frame := u),
       fr_kpage := (fr_kpage s)(frame := p), fr_pinned := (fr_pinned s)(frame := True), kframes := (kframes s)(p \<mapsto> frame), fr_links := h\<rparr>) \<and>
    frames_ok R (fs @ [frame]) (s\<lparr>fr_t := (fr_t s)(frame := cur s), fr_upage := (fr_upage s)(frame := u),
       fr_kpage := (fr_kpage s)(frame := p), fr_pinned := (fr_pinned s)(frame := True), kframes := (kframes s)(p \<mapsto> frame), fr_links := h\<rparr>)
    \<and> same_outside (insert frame (set (cells (frame_list s) fs))) (fr_links s) h"
proof -
  note d = frames_okD [OF fr]
  obtain h where h: "list_push_back (frame_list s) frame (fr_links s) = Some h" "list_rep h (frame_list s) (fs @ [frame])"
    "same_outside (insert frame (set (cells (frame_list s) fs))) (fr_links s) h"
    using list_push_back_rep [OF d(1)] nf by (auto simp: new_frame_def)
  have no: "kframes s p = None"
  proof (cases "kframes s p")
    case (Some g)
    then show ?thesis using d(2) [of p g] p(2) by auto
  qed
  have fresh: "frame \<notin> set fs" using nf by (auto simp: new_frame_def cells_def)
  have "((kframes s)(p \<mapsto> frame)) k = Some g \<longleftrightarrow> g \<in> set (fs @ [frame]) \<and> ((fr_kpage s)(frame := p)) g = k" for k g
    using d(2) [of k g] p(2) fresh by auto
  moreover have "used_page True (mm s) (((fr_kpage s)(frame := p)) f) \<and> ((fr_t s)(frame := cur s)) f \<noteq> NULL \<and>
      pagedir s (((fr_t s)(frame := cur s)) f) \<in> R \<and> pagedir s (((fr_t s)(frame := cur s)) f) \<noteq> 0xcccccccc \<and>
      is_user_vaddr (((fr_upage s)(frame := u)) f) \<and> pg_ofs (((fr_upage s)(frame := u)) f) = 0 \<and>
      supt s (((fr_t s)(frame := cur s)) f) (((fr_upage s)(frame := u)) f) \<noteq> None" if "f \<in> set (fs @ [frame])" for f
    using that d(3-9) [of f] nf p(1) by (auto simp: new_frame_def)
  ultimately show ?thesis using h no by (intro exI [of _ h]) (simp add: add_frame_def frames_ok_def)
qed

text \<open>The state after a successful allocation of the page \<open>p\<close>, for both ways it can go.\<close>

definition allocated :: "u32 set \<Rightarrow> addr list \<Rightarrow> addr \<Rightarrow> u32 \<Rightarrow> u32 \<Rightarrow> vm \<Rightarrow> vm \<Rightarrow> bool" where
  "allocated R fs frame u p s s' \<longleftrightarrow> p \<noteq> 0 \<and>
     (\<exists>fs'. vm_ok R (fs' @ [frame]) s' \<and> set fs' \<subseteq> set fs \<and> frame \<notin> set fs' \<and> p \<notin> fr_kpage s' ` set fs' \<and>
        (\<forall>f \<in> set fs'. fr_t s' f = fr_t s f \<and> fr_upage s' f = fr_upage s f \<and> fr_kpage s' f = fr_kpage s f) \<and>
        (\<forall>f \<in> set fs'. bytes_at (fr_kpage s f) 4096 (mem_of s') = bytes_at (fr_kpage s f) 4096 (mem_of s))) \<and>
     fr_t s' frame = cur s \<and> fr_upage s' frame = u \<and> fr_kpage s' frame = p \<and> fr_pinned s' frame \<and>
     slots (swp s) \<subseteq> slots (swp s') \<and> (\<forall>k \<in> slots (swp s). slot_data (swp s') k = slot_data (swp s) k) \<and>
     (\<forall>t v. \<not> resident fs s t v \<longrightarrow> supt s' t v = supt s t v) \<and> cur s' = cur s \<and> pagedir s' = pagedir s \<and>
     init_page_dir (mm s') = init_page_dir (mm s) \<and>
     (\<forall>q \<in> R. \<forall>v. is_user_vaddr v \<and> user_pte (mm s) q v AND PTE_P = 0 \<longrightarrow> user_pte (mm s') q v AND PTE_P = 0)"

lemma pte_absent: "e AND NOT PTE_A = e' AND NOT PTE_A \<Longrightarrow> e AND PTE_P = e' AND PTE_P"
proof -
  have "NOT PTE_A AND PTE_P = PTE_P" by (simp add: PTE_P_def PTE_A_def)
  then show "e AND NOT PTE_A = e' AND NOT PTE_A \<Longrightarrow> e AND PTE_P = e' AND PTE_P" by (metis and.assoc)
qed

lemma user_flags: "(PAL_USER OR PAL_USER) AND PAL_ASSERT = 0" "(PAL_USER OR PAL_USER) AND PAL_ZERO = 0" "(PAL_USER OR PAL_USER) AND PAL_USER \<noteq> 0"
  by (simp_all add: PAL_USER_def PAL_ASSERT_def PAL_ZERO_def)

lemma allocate_free_page:
  assumes ok: "vm_ok R fs s" and nf: "new_frame R fs frame u s" and g: "get_frame PAL_USER s = Some (p, s1)" "p \<noteq> 0"
  shows "\<exists>s'. vm_frame_allocate frame PAL_USER u s = Some (p, s') \<and> allocated R fs frame u p s s'"
proof -
  have m: "mem_ok R s" and sw: "swap_good s" and fr: "frames_ok R fs s" using ok by (simp_all add: vm_ok_def)
  obtain r where r: "palloc_get_page (PAL_USER OR PAL_USER) (ram (mm s)) = Some (p, r)" "s1 = s\<lparr>mm := (mm s)\<lparr>ram := r\<rparr>\<rparr>"
    using g(1) by (auto simp: get_frame_def split: bind_splits)
  define m1 where "m1 = (mm s)\<lparr>ram := r\<rparr>"
  have q: "same_dirs R (mm s) m1" "phys_mem r = mem_of s" "\<forall>v. pool_base (get_pool v r) = pool_base (get_pool v (ram (mm s)))"
    "\<forall>q. used_page True m1 q \<longleftrightarrow> used_page True (mm s) q \<or> q = p" "\<not> used_page True (mm s) p"
    using palloc_user [OF mem_okD(1,2) [OF m] user_flags r(1)] g(2) by (simp_all add: m1_def)
  have s1: "s1 = s\<lparr>mm := m1\<rparr>" using r(2) by (simp add: m1_def)
  have m1ok: "mem_ok R s1" by (rule mem_ok_same_dirs [OF m]) (use q(1,3) in \<open>simp_all add: s1 m1_def\<close>)
  have fr1: "frames_ok R fs s1" unfolding s1 by (rule frames_ok_mm [OF fr]) (use q(4) in simp)
  have nf1: "new_frame R fs frame u s1" using nf by (simp add: new_frame_def s1)
  have p1: "used_page True (mm s1) p" "p \<notin> fr_kpage s1 ` set fs"
    using q(4,5) frames_okD(3) [OF fr] by (auto simp: s1)
  have fresh: "frame \<notin> set fs" using nf by (auto simp: new_frame_def cells_def)
  obtain h where h: "add_frame frame u p s1 = Some (s1\<lparr>fr_t := (fr_t s1)(frame := cur s1), fr_upage := (fr_upage s1)(frame := u),
       fr_kpage := (fr_kpage s1)(frame := p), fr_pinned := (fr_pinned s1)(frame := True), kframes := (kframes s1)(p \<mapsto> frame), fr_links := h\<rparr>)"
    "frames_ok R (fs @ [frame]) (s1\<lparr>fr_t := (fr_t s1)(frame := cur s1), fr_upage := (fr_upage s1)(frame := u),
       fr_kpage := (fr_kpage s1)(frame := p), fr_pinned := (fr_pinned s1)(frame := True), kframes := (kframes s1)(p \<mapsto> frame), fr_links := h\<rparr>)"
    using add_frame_run [OF fr1 nf1 p1] by (elim exE conjE) (rule that)
  define s' where "s' = s1\<lparr>fr_t := (fr_t s1)(frame := cur s1), fr_upage := (fr_upage s1)(frame := u),
       fr_kpage := (fr_kpage s1)(frame := p), fr_pinned := (fr_pinned s1)(frame := True), kframes := (kframes s1)(p \<mapsto> frame), fr_links := h\<rparr>"
  have "vm_ok R (fs @ [frame]) s'"
    using h(2) m1ok sw by (simp add: vm_ok_def s'_def [symmetric]) (simp add: s'_def s1 mem_ok_def swap_good_def)
  moreover have "user_pte m1 q v = user_pte (mm s) q v" if "q \<in> R" "is_user_vaddr v" for q v using q(1) that by (simp add: same_dirs_def)
  ultimately have "allocated R fs frame u p s s'"
    unfolding allocated_def using fresh p1 g(2) q(2)
    by (intro conjI exI [of _ fs]) (auto simp: s'_def s1 m1_def)
  moreover have "vm_frame_allocate frame PAL_USER u s = Some (p, s')"
    using g nf h(1) by (simp add: vm_frame_allocate_def s'_def new_frame_def)
  ultimately show ?thesis by blast
qed

lemma get_frame_none:
  assumes ok: "vm_ok R fs s" and g: "get_frame PAL_USER s = Some (0, s0)"
  shows "s0 = s"
proof -
  have ph: "phys_ok (ram (mm s))" using ok dirs_okD(1) by (simp add: vm_ok_def mem_ok_def) blast
  obtain r where r: "palloc_get_page (PAL_USER OR PAL_USER) (ram (mm s)) = Some (0, r)" "s0 = s\<lparr>mm := (mm s)\<lparr>ram := r\<rparr>\<rparr>"
    using g by (auto simp: get_frame_def split: bind_splits)
  show ?thesis using get_none_same [OF ph zero_less_one r(1) [unfolded palloc_get_page_def]] r(2) by simp
qed

lemma allocate_evicting:
  assumes ok: "vm_ok R fs s" and nf: "new_frame R fs frame u s" and g: "get_frame PAL_USER s = Some (0, s)"
    and pick: "pick_frame (pagedir s (cur s)) s = Some (e, s1)" "searched R s s1" "clock_ptr s1 = e" "e \<in> set fs"
    and free: "slots (swp s) \<noteq> {..<swap_size (swp s)}"
  shows "\<exists>p s2 s'. evict_frame PAL_USER s = Some (p, s2) \<and> evicted R fs e p s s2 \<and>
    vm_frame_allocate frame PAL_USER u s = Some (p, s') \<and> allocated R fs frame u p s s' \<and>
    clock_ptr s' = e \<and> (frame \<noteq> e \<longrightarrow> nextp (fr_links s') e = NULL) \<and> supt s' = supt s2 \<and> swp s' = swp s2 \<and> mm s' = mm s2 \<and>
    vm_ok R (remove1 e fs @ [frame]) s' \<and> frame_list s' = frame_list s"
proof -
  have m: "mem_ok R s" and fr: "frames_ok R fs s" using ok by (simp_all add: vm_ok_def)
  obtain p s2 where ev: "evict_frame PAL_USER s = Some (p, s2)" "evicted R fs e p s s2"
    using evict_frame_run [OF ok pick free user_flags] by blast
  note v = ev(2) [unfolded evicted_def Let_def]
  define fs' where "fs' = remove1 e fs"
  have dist: "distinct (cells (frame_list s) fs)" using frames_okD(1) [OF fr] by (simp add: list_rep_def)
  then have sub: "set fs' \<subseteq> set fs" "e \<notin> set fs'" unfolding fs'_def by (auto simp: cells_def set_remove1_subset)
  have fresh: "frame \<notin> set fs" using nf by (auto simp: new_frame_def cells_def)
  have s2: "p \<noteq> 0" "mem_ok R s2" "swap_good s2" "frames_ok R fs' s2" "cur s2 = cur s" "pagedir s2 = pagedir s" "frame_list s2 = frame_list s"
    "fr_pinned s2 = fr_pinned s" "fr_upage s2 = fr_upage s" "fr_kpage s2 = fr_kpage s" "fr_t s2 = fr_t s"
    "init_page_dir (mm s2) = init_page_dir (mm s)" "clock_ptr s2 = e" "nextp (fr_links s2) e = NULL"
    "\<And>q. used_page True (mm s2) q \<longleftrightarrow> used_page True (mm s) q \<and> q \<noteq> fr_kpage s e \<or> q = p"
    "p = fr_kpage s e \<or> \<not> used_page True (mm s) p"
    "\<And>q k. used_page True (mm s) q \<Longrightarrow> q \<noteq> fr_kpage s e \<Longrightarrow> unat k < 4096 \<Longrightarrow> mem_of s2 (q + k) = mem_of s (q + k)"
    using v by (simp_all add: fs'_def)
  obtain spte idx d where sp: "supt s (fr_t s e) (fr_upage s e) = Some spte"
    "supt s2 = (supt s)(fr_t s e := (supt s (fr_t s e))(fr_upage s e \<mapsto> spte\<lparr>status := ON_SWAP, spte_kpage := 0, swap_index := idx, spte_dirty := d\<rparr>))"
    "slots (swp s2) = insert idx (slots (swp s))" "idx \<notin> slots (swp s)" "\<forall>j. j \<noteq> idx \<longrightarrow> slot_data (swp s2) j = slot_data (swp s) j"
    using v by (elim conjE exE) (rule that)
  have nf2: "new_frame R fs' frame u s2"
    using nf sub sp by (auto simp: new_frame_def s2(5,6,7) cells_def)
  have kp: "fr_kpage s f \<noteq> fr_kpage s e \<and> used_page True (mm s) (fr_kpage s f)" if "f \<in> set fs'" for f
  proof -
    have "f \<in> set fs" "f \<noteq> e" using that sub by auto
    then show ?thesis using frames_okD(2) [OF fr, of "fr_kpage s f"] pick(4) frames_okD(3) [OF fr] by (metis option.inject)
  qed
  have p2: "used_page True (mm s2) p" "p \<notin> fr_kpage s2 ` set fs'" using s2(15,16) kp by (auto simp: s2(10))
  obtain h where h: "add_frame frame u p s2 = Some (s2\<lparr>fr_t := (fr_t s2)(frame := cur s2), fr_upage := (fr_upage s2)(frame := u),
       fr_kpage := (fr_kpage s2)(frame := p), fr_pinned := (fr_pinned s2)(frame := True), kframes := (kframes s2)(p \<mapsto> frame), fr_links := h\<rparr>)"
    "frames_ok R (fs' @ [frame]) (s2\<lparr>fr_t := (fr_t s2)(frame := cur s2), fr_upage := (fr_upage s2)(frame := u),
       fr_kpage := (fr_kpage s2)(frame := p), fr_pinned := (fr_pinned s2)(frame := True), kframes := (kframes s2)(p \<mapsto> frame), fr_links := h\<rparr>)"
    "same_outside (insert frame (set (cells (frame_list s2) fs'))) (fr_links s2) h"
    using add_frame_run [OF s2(4) nf2 p2] by (elim exE conjE) (rule that)
  define s' where "s' = s2\<lparr>fr_t := (fr_t s2)(frame := cur s2), fr_upage := (fr_upage s2)(frame := u),
       fr_kpage := (fr_kpage s2)(frame := p), fr_pinned := (fr_pinned s2)(frame := True), kframes := (kframes s2)(p \<mapsto> frame), fr_links := h\<rparr>"
  have vm: "vm_ok R (fs' @ [frame]) s'"
    using h(2) s2(2,3) by (simp add: vm_ok_def s'_def [symmetric]) (simp add: s'_def mem_ok_def swap_good_def)
  have res: "supt s' t v = supt s t v" if "\<not> resident fs s t v" for t v
    using that pick(4) by (auto simp: s'_def sp(2) resident_def)
  have absent: "user_pte (mm s') q v AND PTE_P = 0" if "q \<in> R" "is_user_vaddr v" "user_pte (mm s) q v AND PTE_P = 0" for q v
  proof (cases "q = pagedir s (fr_t s e) \<and> pg_round_down v = fr_upage s e")
    case True
    then have "user_pte (mm s2) q v AND PTE_P = 0" using v that(2) by blast
    then show ?thesis by (simp add: s'_def)
  next
    case False
    then have "user_pte (mm s2) q v AND NOT PTE_A = user_pte (mm s) q v AND NOT PTE_A" using v that(1,2) by blast
    from pte_absent [OF this] that(3) show ?thesis by (simp add: s'_def)
  qed
  have bytes: "bytes_at (fr_kpage s f) 4096 (mem_of s') = bytes_at (fr_kpage s f) 4096 (mem_of s)" if "f \<in> set fs'" for f
    by (rule bytes_at_cong) (use kp [OF that] s2(17) in \<open>simp_all add: s'_def\<close>)
  have fs: "fr_t s' f = fr_t s f \<and> fr_upage s' f = fr_upage s f \<and> fr_kpage s' f = fr_kpage s f" if "f \<in> set fs'" for f
    using that sub fresh by (auto simp: s'_def s2)
  have pn: "p \<notin> fr_kpage s' ` set fs'" using p2(2) fs by (auto simp: s2(10))
  have sl: "slots (swp s) \<subseteq> slots (swp s')" "\<forall>k \<in> slots (swp s). slot_data (swp s') k = slot_data (swp s) k"
    using sp(3-5) by (auto simp: s'_def)
  have "allocated R fs frame u p s s'"
    unfolding allocated_def
    apply (intro conjI exI [of _ fs'])
    using s2(1) vm sub fresh pn fs bytes sl res absent s2 by (auto simp: s'_def)
  moreover have "vm_frame_allocate frame PAL_USER u s = Some (p, s')"
    using g ev(1) nf h(1) by (simp add: vm_frame_allocate_def s'_def new_frame_def)
  moreover have "clock_ptr s' = e" "supt s' = supt s2" "swp s' = swp s2" "mm s' = mm s2" by (simp_all add: s'_def s2(13))
  moreover have "vm_ok R (remove1 e fs @ [frame]) s'" "frame_list s' = frame_list s" using vm by (simp_all add: fs'_def s'_def s2(7))
  moreover have "nextp (fr_links s') e = NULL" if "frame \<noteq> e"
  proof -
    have "e \<notin> set (cells (frame_list s2) fs')" using dist pick(4) sub by (auto simp: cells_def s2(7))
    then show ?thesis using h(3) that s2(14) by (auto simp: same_outside_def s'_def)
  qed
  ultimately show ?thesis using ev by blast
qed

text \<open>An eviction is possible: the hand is in the list, the search finds an entry, and a slot is left.\<close>

definition can_evict :: "addr list \<Rightarrow> vm \<Rightarrow> addr \<Rightarrow> bool" where
  "can_evict fs s e \<longleftrightarrow> clock_ptr s \<in> {NULL, tail (frame_list s)} \<union> set fs \<and>
     (\<forall>f \<in> insert (tail (frame_list s)) (set fs). is_user_vaddr (fr_upage s f)) \<and>
     (\<exists>s1. pick_frame (pagedir s (cur s)) s = Some (e, s1)) \<and> e \<noteq> tail (frame_list s) \<and>
     slots (swp s) \<noteq> {..<swap_size (swp s)}"

lemma can_evict_pick:
  assumes ok: "vm_ok R fs s" and pd: "pagedir s (cur s) \<in> R" and ce: "can_evict fs s e"
  shows "\<exists>s1. pick_frame (pagedir s (cur s)) s = Some (e, s1) \<and> searched R s s1 \<and> clock_ptr s1 = e \<and> e \<in> set fs \<and> \<not> fr_pinned s e"
proof -
  have fr: "frames_ok R fs s" "mem_ok R s" using ok by (simp_all add: vm_ok_def)
  obtain s1 where s1: "pick_frame (pagedir s (cur s)) s = Some (e, s1)" using ce by (auto simp: can_evict_def)
  have ck: "clock_ok s fs" using ce frames_okD(1) [OF fr(1)] by (auto simp: clock_ok_def can_evict_def)
  have "dom (kframes s) \<noteq> {}" using s1 by (auto simp: pick_frame_def Let_def kassert_bind_Some_iff card_eq_0_iff)
  then obtain k f where "kframes s k = Some f" by (auto simp: dom_def)
  then have ne: "fs \<noteq> []" using frames_okD(2) [OF fr(1), of k f] by auto
  have run: "pick_loop (card (dom (kframes s)) + card (dom (kframes s)) + 1) (pagedir s (cur s)) s = Some (e, s1)"
    using s1 by (simp add: pick_frame_def Let_def kassert_bind_Some_iff)
  have "\<forall>f \<in> insert (tail (frame_list s)) (set fs). is_user_vaddr (fr_upage s f)" "e \<noteq> tail (frame_list s)"
    using ce by (simp_all add: can_evict_def)
  with pick_loop_run [OF fr(2) pd ck ne _ run] s1 show ?thesis by auto
qed

lemma hand_fails:
  assumes "frames_ok R fs s" "fs \<noteq> []" "clock_ptr s \<noteq> NULL" "clock_ptr s \<noteq> tail (frame_list s)" "nextp (fr_links s) (clock_ptr s) = NULL"
  shows "clock_frame_next s = None"
  using assms(2-5) list_rep_empty [OF frames_okD(1) [OF assms(1)]]
  by (simp add: clock_frame_next_def list_end_def list_next_def is_head_def is_interior_def)

section \<open>Loading a page\<close>

lemma set_mem_user:
  assumes m: "mem_ok R s" and p: "used_page True (mm s) p" and f: "\<And>a. f (mem_of s) a \<noteq> mem_of s a \<Longrightarrow> unat (a - p) < 4096"
  shows "mem_ok R (set_mem f s)" "same_dirs R (mm s) (mm (set_mem f s))" "used_page True (mm (set_mem f s)) = used_page True (mm s)"
    and "used_page True (mm s) q \<Longrightarrow> q \<noteq> p \<Longrightarrow> unat k < 4096 \<Longrightarrow> mem_of (set_mem f s) (q + k) = mem_of s (q + k)"
proof -
  note w = write_user [OF mem_okD(1,2) [OF m] p, of "f (mem_of s)", OF f]
  have e: "mm (set_mem f s) = (mm s)\<lparr>ram := (ram (mm s))\<lparr>phys_mem := f (mem_of s)\<rparr>\<rparr>" by (simp add: set_mem_def)
  show sd: "same_dirs R (mm s) (mm (set_mem f s))" unfolding e by (rule w(1))
  show "mem_ok R (set_mem f s)" by (rule mem_ok_same_dirs [OF m sd]) (simp add: e get_pool_def)
  show "used_page True (mm (set_mem f s)) = used_page True (mm s)" by (rule ext) (simp add: e used_page_def)
  show "used_page True (mm s) q \<Longrightarrow> q \<noteq> p \<Longrightarrow> unat k < 4096 \<Longrightarrow> mem_of (set_mem f s) (q + k) = mem_of s (q + k)"
    using w(2) by (simp add: e)
qed

lemma set_mem_simps [simp]:
  "swp (set_mem f s) = swp s" "supt (set_mem f s) = supt s" "kframes (set_mem f s) = kframes s" "cur (set_mem f s) = cur s"
  "pagedir (set_mem f s) = pagedir s" "mem_of (set_mem f s) = f (mem_of s)" "init_page_dir (mm (set_mem f s)) = init_page_dir (mm s)"
  "init_ram_pages (mm (set_mem f s)) = init_ram_pages (mm s)" "fr_pinned (set_mem f s) = fr_pinned s"
  by (simp_all add: set_mem_def)

text \<open>The contents that loading a page must give, for a page of zeros and for one on the swap device.\<close>

definition saved_contents :: "spte \<Rightarrow> vm \<Rightarrow> byte list option" where
  "saved_contents spte s = (case status spte of
     ALL_ZERO \<Rightarrow> Some (replicate 4096 0)
   | ON_SWAP \<Rightarrow> if swap_index spte \<in> slots (swp s) then Some (concat (slot_data (swp s) (swap_index spte))) else None
   | _ \<Rightarrow> None)"

lemma frames_ok_set_mem: "frames_ok R fs s \<Longrightarrow> used_page True (mm (set_mem f s)) = used_page True (mm s) \<Longrightarrow> frames_ok R fs (set_mem f s)"
  by (simp add: frames_ok_def set_mem_def)

lemma swap_good_set_mem [simp]: "swap_good (set_mem f s) = swap_good s"
  by (simp add: swap_good_def)

lemma fetch_run:
  assumes ok: "vm_ok R fs s" and p: "used_page True (mm s) p" and c: "saved_contents spte s = Some bs"
  shows "\<exists>s'. fetch_page mem spte p s = Some (True, True, s') \<and> vm_ok R fs s' \<and> bytes_at p 4096 (mem_of s') = bs \<and>
    same_dirs R (mm s) (mm s') \<and> used_page True (mm s') = used_page True (mm s) \<and>
    (\<forall>q k. used_page True (mm s) q \<and> q \<noteq> p \<and> unat k < 4096 \<longrightarrow> mem_of s' (q + k) = mem_of s (q + k)) \<and>
    slots (swp s') = slots (swp s) - (if status spte = ON_SWAP then {swap_index spte} else {}) \<and>
    supt s' = supt s \<and> kframes s' = kframes s \<and> pagedir s' = pagedir s \<and> cur s' = cur s \<and>
    init_page_dir (mm s') = init_page_dir (mm s) \<and> init_ram_pages (mm s') = init_ram_pages (mm s)"
proof -
  have m: "mem_ok R s" and sw: "swap_good s" and fr: "frames_ok R fs s" using ok by (simp_all add: vm_ok_def)
  show ?thesis
  proof (cases "status spte")
    case ALL_ZERO
    let ?s = "set_mem (\<lambda>m. memset m p 0 PGSIZE) s"
    have ch: "memset (mem_of s) p 0 PGSIZE a \<noteq> mem_of s a \<Longrightarrow> unat (a - p) < 4096" for a
      by (simp add: memset_def PGSIZE_def split: if_splits)
    note w = set_mem_user [OF m p, of "\<lambda>m. memset m p 0 PGSIZE", OF ch]
    have "bytes_at p 4096 (memset (mem_of s) p 0 PGSIZE) = replicate 4096 0"
      by (rule nth_equalityI) (simp_all add: bytes_at_def memset_def PGSIZE_def unat_of_nat take_bit_nat_eq_self)
    then show ?thesis
      using ALL_ZERO c w sw frames_ok_set_mem [OF fr w(3)]
      by (intro exI [of _ ?s]) (simp add: fetch_page_def saved_contents_def vm_ok_def)
  next
    case ON_SWAP
    then have i: "swap_index spte \<in> slots (swp s)" "bs = concat (slot_data (swp s) (swap_index spte))"
      using c by (auto simp: saved_contents_def split: if_splits)
    obtain w where w: "vm_swap_in (swap_index spte) p (swp s) = Some (slot_data (swp s) (swap_index spte), w)" "swap_ok w"
      "slots w = slots (swp s) - {swap_index spte}" "\<forall>j. slot_data w j = slot_data (swp s) j"
      using vm_swap_in_spec [OF _ user_pageD(3) [OF m p] i(1)] sw unfolding swap_good_def by blast
    have "\<forall>x \<in> set (slot_data (swp s) (swap_index spte)). length x = 512" using sw i(1) by (simp add: swap_good_def)
    moreover have "length (slot_data (swp s) (swap_index spte)) = 8" by (simp add: slot_data_def SECTORS_PER_PAGE_def)
    ultimately have len: "length bs = 4096" unfolding i(2) length_concat by (simp cong: map_cong add: sum_list_triv)
    let ?z = "s\<lparr>swp := w\<rparr>"
    let ?s = "set_mem (put_bytes p bs) ?z"
    have ch: "put_bytes p bs (mem_of ?z) a \<noteq> mem_of ?z a \<Longrightarrow> unat (a - p) < 4096" for a
      by (simp add: put_bytes_def len split: if_splits)
    have m0: "mem_ok R ?z" "used_page True (mm ?z) p" using m p by simp_all
    note u = set_mem_user [OF m0, of "put_bytes p bs", OF ch]
    have fr0: "frames_ok R fs ?z" using fr by (simp add: frames_ok_upd)
    have sw0: "swap_good ?z" using sw w(2-4) unfolding swap_good_def by auto
    show ?thesis
      using ON_SWAP w(1,3) u sw0 frames_ok_set_mem [OF fr0 u(3)] bytes_at_put [OF len] i(2)
      by (intro exI [of _ ?s]) (simp add: fetch_page_def vm_ok_def)
  qed (use c in \<open>simp_all add: saved_contents_def\<close>)
qed

text \<open>The rest of \<^verbatim>\<open>vm_load_page\<close>, from the mapping of the frame on.\<close>

definition finish_load :: "addr \<Rightarrow> u32 \<Rightarrow> u32 \<Rightarrow> u32 \<Rightarrow> bool \<Rightarrow> vm \<Rightarrow> (bool \<times> vm) option" where
  "finish_load t pd upage p writable s = do {
     (ok, m) \<leftarrow> pagedir_set_page pd upage p writable (mm s);
     let s = s\<lparr>mm := m\<rparr>;
     if \<not> ok then do { s \<leftarrow> vm_frame_free p s; Some (False, s) }
     else do {
       spte \<leftarrow> vm_supt_lookup t upage s;
       let s = set_spte t upage (Some (spte\<lparr>spte_kpage := p, status := ON_FRAME\<rparr>)) s;
       m \<leftarrow> pagedir_set_dirty pd p False (mm s);
       s \<leftarrow> vm_frame_unpin p (s\<lparr>mm := m\<rparr>);
       Some (True, s) } }"

lemma finish_load_run:
  assumes ok: "vm_ok R (fs @ [frame]) s" and p: "fr_kpage s frame = p" and spte: "supt s t u = Some spte"
    and pd: "pd \<in> R" "pd \<noteq> init_page_dir (mm s)" and u: "is_user_vaddr u" "pg_ofs u = 0"
    and absent: "user_pte (mm s) pd u AND PTE_P = 0" and inram: "drop_bit PTSHIFT (p - PHYS_BASE) < init_ram_pages (mm s)"
  shows "\<exists>ok s'. finish_load t pd u p w s = Some (ok, s') \<and> swp s' = swp s \<and>
    (\<forall>q. used_page True (mm s) q \<and> q \<noteq> p \<longrightarrow> bytes_at q 4096 (mem_of s') = bytes_at q 4096 (mem_of s)) \<and>
    (ok \<longrightarrow> (\<forall>v. is_user_vaddr v \<and> pg_round_down v = u \<longrightarrow> pagedir_get_page pd v (mm s') = Some (p + pg_ofs v)) \<and>
       bytes_at p 4096 (mem_of s') = bytes_at p 4096 (mem_of s) \<and> kframes s' = kframes s \<and> \<not> fr_pinned s' frame \<and>
       supt s' t u = Some (spte\<lparr>spte_kpage := p, status := ON_FRAME\<rparr>)) \<and>
    (\<not> ok \<longrightarrow> kernel_full (mm s) \<and> supt s' = supt s \<and> kframes s' = (kframes s)(p := None) \<and> \<not> used_page True (mm s') p)"
proof -
  have m: "mem_ok R s" and sw: "swap_good s" and fr: "frames_ok R (fs @ [frame]) s" using ok by (simp_all add: vm_ok_def)
  have used: "used_page True (mm s) p" using frames_okD(3) [OF fr, of frame] p by simp
  note a = user_pageD [OF m used] and d = mem_okD [OF m]
  have kf: "kframes s p = Some frame" using frames_okD(2) [OF fr] p by simp
  obtain ok e m1 where m1: "pagedir_set_page pd u p w (mm s) = Some (ok, m1)" "dirs_ok R m1" "m1 = (mm s)\<lparr>ram := ram m1\<rparr>"
    "e AND PTE_P \<noteq> 0" "(e AND PTE_ADDR) + PHYS_BASE = p" "\<not> ok \<longrightarrow> kernel_full (mm s)"
    "\<forall>q \<in> R. \<forall>v. is_user_vaddr v \<longrightarrow> user_pte m1 q v = (if ok \<and> q = pd \<and> pg_round_down v = u then e else user_pte (mm s) q v)"
    using set_page_eq [OF d(1) pd u a(1,3) inram absent, of w] by (elim exE conjE) (rule that)
  have k1: "keeps_user (mm s) m1" "keeps_tables R (mm s) m1" using set_page_keeps [OF d(1) pd u m1(1)] by simp_all
  have t1: "tlb_ok R m1" by (rule set_page_tlb [OF d(1,2) pd(1) absent u m1(3,7)])
  have kh: "khalf_ok R m1" by (rule khalf_ok_keeps [OF d(3) k1(2)])
  have b1: "bytes_at q 4096 (phys_mem (ram m1)) = bytes_at q 4096 (mem_of s)" if "used_page True (mm s) q" for q
    by (rule bytes_at_cong) (use that k1(1) in \<open>simp_all add: keeps_user_def\<close>)
  have ok1: "mem_ok R (s\<lparr>mm := m1\<rparr>)" by (rule mem_ok_step [OF m m1(2) t1 k1(2)]) (use k1(1) in \<open>simp_all add: keeps_user_def\<close>)
  have fr1: "frames_ok R (fs @ [frame]) (s\<lparr>mm := m1\<rparr>)" by (rule frames_ok_mm [OF fr]) (use k1(1) in \<open>simp add: keeps_user_def\<close>)
  show ?thesis
  proof (cases ok)
    case False
    obtain h m2 where f: "vm_frame_do_free p True (s\<lparr>mm := m1\<rparr>) = Some (s\<lparr>kframes := (kframes s)(p := None), fr_links := h, mm := m2\<rparr>)"
      "\<forall>q. used_page True m2 q \<longleftrightarrow> used_page True m1 q \<and> q \<noteq> p"
      "\<forall>q k. used_page True m1 q \<and> q \<noteq> p \<and> unat k < 4096 \<longrightarrow> phys_mem (ram m2) (q + k) = phys_mem (ram m1) (q + k)"
      using do_free_run [OF ok1 fr1, of frame] p by auto
    have "bytes_at q 4096 (phys_mem (ram m2)) = bytes_at q 4096 (mem_of s)" if "used_page True (mm s) q" "q \<noteq> p" for q
      using b1 [OF that(1)] bytes_at_cong [of "phys_mem (ram m2)" q "phys_mem (ram m1)" 4096] f(3) that k1(1) by (simp add: keeps_user_def)
    then show ?thesis using False m1(1,6) f(1,2) by (intro exI [of _ False]) (simp add: finish_load_def vm_frame_free_def)
  next
    case True
    obtain m2 where m2: "pagedir_set_dirty pd p False m1 = Some m2" "keeps_user m1 m2" "same_dirs R m1 m2"
      using set_dirty_kernel [OF m1(2) t1 kh pd(1) a(5)] by blast
    have b2: "bytes_at q 4096 (phys_mem (ram m2)) = bytes_at q 4096 (mem_of s)" if "used_page True (mm s) q" for q
      using b1 [OF that] bytes_at_cong [of "phys_mem (ram m2)" q "phys_mem (ram m1)" 4096] m2(2) that k1(1) by (simp add: keeps_user_def)
    have map: "pagedir_get_page pd v m2 = Some (p + pg_ofs v)" if "is_user_vaddr v" "pg_round_down v = u" for v
    proof -
      have "user_pte m2 pd v = e" using m2(3) m1(7) pd(1) that True by (simp add: same_dirs_def)
      moreover have "dirs_ok R m2" using m2(3) by (simp add: same_dirs_def)
      ultimately show ?thesis using get_page_eq [OF _ pd(1) that(1), of m2] m1(4,5) by simp
    qed
    then show ?thesis using True m1(1) m2(1) kf spte b2 used
      by (intro exI [of _ True]) (simp add: finish_load_def vm_supt_lookup_def set_spte_def vm_frame_unpin_def vm_frame_set_pinned_def)
  qed
qed


lemma vm_load_page_eq:
  "vm_load_page mem frame t pd u s = (case vm_supt_lookup t u s of
     None \<Rightarrow> Some (False, s)
   | Some spte \<Rightarrow>
       if status spte = ON_FRAME then Some (True, s)
       else do {
         (p, s) \<leftarrow> vm_frame_allocate frame PAL_USER u s;
         spte \<leftarrow> vm_supt_lookup t u s;
         if p = 0 then Some (False, s)
         else do {
           (ok, w, s) \<leftarrow> fetch_page mem spte p s;
           if \<not> ok then do { s \<leftarrow> vm_frame_free p s; Some (False, s) } else finish_load t pd u p w s } })"
  by (simp only: vm_load_page_def finish_load_def)

text \<open>Both ways of obtaining a frame.\<close>

lemma allocate_run:
  assumes ok: "vm_ok R fs s" and nf: "new_frame R fs frame u s"
    and g: "get_frame PAL_USER s = Some (q, s0)" "q \<noteq> 0 \<or> can_evict fs s e"
  shows "\<exists>p s1. vm_frame_allocate frame PAL_USER u s = Some (p, s1) \<and> allocated R fs frame u p s s1"
proof (cases "q = 0")
  case False
  then show ?thesis using allocate_free_page [OF ok nf g(1)] by blast
next
  case True
  have pd: "pagedir s (cur s) \<in> R" using nf by (simp add: new_frame_def)
  have ce: "can_evict fs s e" using g(2) True by simp
  obtain s1 where s1: "pick_frame (pagedir s (cur s)) s = Some (e, s1)" "searched R s s1" "clock_ptr s1 = e" "e \<in> set fs"
    using can_evict_pick [OF ok pd ce] by blast
  have "get_frame PAL_USER s = Some (0, s)" using g(1) True get_frame_none [OF ok] by metis
  moreover have "slots (swp s) \<noteq> {..<swap_size (swp s)}" using ce by (simp add: can_evict_def)
  ultimately show ?thesis using allocate_evicting [OF ok nf _ s1] by blast
qed

lemma saved_contents_allocated:
  assumes "allocated R fs frame u p s s1" "saved_contents spte s = Some bs"
  shows "saved_contents spte s1 = Some bs"
proof -
  have "slots (swp s) \<subseteq> slots (swp s1)" "\<forall>k \<in> slots (swp s). slot_data (swp s1) k = slot_data (swp s) k"
    using assms(1) by (simp_all add: allocated_def)
  then show ?thesis using assms(2) by (auto simp: saved_contents_def split: page_status.splits if_splits)
qed

end
