(* ===== verification/PagingProps.thy ===== *)
theory PagingProps
  imports PagingRun InodeData
begin

text \<open>
  What demand paging promises: an evicted page is saved, and a page that is loaded is the page that was saved. The
  theorems are applied to a machine with a user pool of one page, and to one with free pages.
\<close>

section \<open>A machine\<close>

definition full_map :: bitmap where
  "full_map = \<lparr>bit_cnt = 1, bits = [1]\<rparr>"

lemma full_map_rep: "bitmap_rep full_map [True]"
  by (simp add: bitmap_rep_def full_map_def BITMAP_ERROR_def elem_cnt_def)

text \<open>\<open>b\<close> is the map of the user pool. The page at \<open>0x8048000\<close> is in a frame, that at \<open>0x8049000\<close> in slot 2 of the swap device.\<close>

definition sample_vm :: "bitmap \<Rightarrow> vm" where
  "sample_vm b = \<lparr>fr_links = \<lparr>nextp = (\<lambda>_. 0)(1 := 10, 10 := 2), prevp = (\<lambda>_. 0)(10 := 1, 2 := 10)\<rparr>,
     frame_list = \<lparr>head = 1, tail = 2\<rparr>, clock_ptr = NULL, fr_upage = (\<lambda>_. 0x8048000), fr_pinned = (\<lambda>_. False),
     fr_kpage = (\<lambda>_. 0xC0200000), fr_t = (\<lambda>_. 100), kframes = [0xC0200000 \<mapsto> 10],
     mm = sample_mmu\<lparr>ram := (ram sample_mmu)\<lparr>user_pool := \<lparr>used_map = b, pool_base = 0xC0200000\<rparr>\<rparr>\<rparr>,
     swp = \<lparr>swap_block = \<lparr>block_kind = BLOCK_SWAP, block_sectors = 40, block_data = (\<lambda>_. replicate 512 7), read_cnt = 0, write_cnt = 0\<rparr>,
       swap_available = sample_bitmap, swap_size = 5\<rparr>,
     fsys = sample_fs,
     supt = (\<lambda>_. [0x8048000 \<mapsto> \<lparr>spte_kpage = 0xC0200000, status = ON_FRAME, spte_dirty = False, swap_index = 0, spte_file = NULL,
         file_offset = 0, read_bytes = 0, zero_bytes = 0, spte_writable = True\<rparr>,
       0x8049000 \<mapsto> \<lparr>spte_kpage = 0, status = ON_SWAP, spte_dirty = False, swap_index = 2, spte_file = NULL,
         file_offset = 0, read_bytes = 0, zero_bytes = 0, spte_writable = True\<rparr>]),
     pagedir = (\<lambda>_. page_addr (sample_pool 0xC0100000) 0), cur = 100\<rparr>"

abbreviation sample_roots :: "u32 set" where
  "sample_roots \<equiv> {page_addr (sample_pool 0xC0100000) 0, page_addr (sample_pool 0xC0100000) 1}"

lemma sample_vm_load [simp]: "load_entry (mm (sample_vm b)) a = 0"
  using sample_load [of a] by (simp add: sample_vm_def load_entry_def)

lemma sample_vm_pte [simp]: "user_pte (mm (sample_vm b)) pd v = 0" "pde_at (mm (sample_vm b)) pd i = 0"
  by (simp_all add: user_pte_def pde_at_def)

lemma sample_vm_table: "pd \<in> sample_roots \<Longrightarrow> table_page (mm (sample_vm b)) pd"
  using sample_table_page [of 0] sample_table_page [of 1]
  by (auto simp: sample_vm_def table_page_def page_used_def get_pool_def)

lemma sample_vm_mem_ok:
  assumes "bitmap_rep b bs" "bs \<noteq> []" "hd bs" "length bs \<le> 5"
  shows "mem_ok sample_roots (sample_vm b)" "used_page True (mm (sample_vm b)) 0xC0200000"
proof -
  have bc: "bit_cnt b = length bs" using assms(1) by (simp add: bitmap_rep_def)
  have good: "bitmap_good b" using assms(1) by (auto simp: bitmap_good_def)
  have pok: "pool_ok (sample_pool 0xC0100000)" using sample_phys_ok by (simp add: phys_ok_def sample_phys_def)
  have pu: "pool_ok \<lparr>used_map = b, pool_base = 0xC0200000\<rparr>"
    using assms(4) good bc by (simp add: pool_ok_def pg_ofs_def PGMASK_def PGSIZE_def)
  have ph: "phys_ok (ram (mm (sample_vm b)))"
    using pok pu by (simp add: phys_ok_def sample_vm_def sample_mmu_def sample_phys_def)
      (simp add: sample_pool_def sample_bitmap_def PGSIZE_def)
  have "dirs_ok sample_roots (mm (sample_vm b))"
  proof (rule dirs_okI)
    show "PHYS_BASE \<le> pool_base (kernel_pool (ram (mm (sample_vm b))))" "init_page_dir (mm (sample_vm b)) \<in> sample_roots"
      by (simp_all add: sample_vm_def sample_mmu_def sample_phys_def sample_pool_def PHYS_BASE_def)
  qed (use ph sample_vm_table in simp_all)
  moreover have "tlb_ok sample_roots (mm (sample_vm b))"
    by (simp add: tlb_ok_def sample_vm_def sample_mmu_def page_addr_def sample_pool_def PGSIZE_def PHYS_BASE_def)
  moreover have "khalf_ok sample_roots (mm (sample_vm b))" by (simp add: khalf_ok_def)
  moreover have "PHYS_BASE \<le> pool_base (get_pool True (ram (mm (sample_vm b))))"
    by (simp add: sample_vm_def sample_mmu_def get_pool_def PHYS_BASE_def)
  ultimately show "mem_ok sample_roots (sample_vm b)" by (simp add: mem_ok_def)
  have "0 \<in> marked b" using assms(1-3) by (simp add: marked_rep hd_conv_nth)
  then show "used_page True (mm (sample_vm b)) 0xC0200000"
    using assms(2) bc unfolding used_page_def page_used_def
    by (intro exI [of _ 0]) (simp add: sample_vm_def sample_mmu_def get_pool_def page_addr_def Suc_le_eq)
qed

lemma sample_vm_slots: "slots (swp (sample_vm b)) = {2, 3}"
  using sample_slots by (simp add: slots_def sample_vm_def sample_swap_def)

lemma sample_vm_ok:
  assumes "bitmap_rep b bs" "bs \<noteq> []" "hd bs" "length bs \<le> 5"
  shows "vm_ok sample_roots [10] (sample_vm b)"
proof -
  have "swap_ok (swp (sample_vm b))" using sample_swap_ok by (simp add: swap_ok_def sample_vm_def sample_swap_def block_ok_def)
  then have sw: "swap_good (sample_vm b)" by (auto simp: swap_good_def slot_data_def) (simp add: sample_vm_def)
  have pd: "pagedir (sample_vm b) t \<in> sample_roots" "pagedir (sample_vm b) t \<noteq> 0xcccccccc" for t
    by (simp_all add: sample_vm_def page_addr_def sample_pool_def PGSIZE_def)
  have "frames_ok sample_roots [10] (sample_vm b)"
    using sample_vm_mem_ok(2) [OF assms] pd unfolding frames_ok_def
    by (simp add: sample_vm_def list_rep_def cells_def is_user_vaddr_def PHYS_BASE_def pg_ofs_def PGMASK_def)
  then show ?thesis using sample_vm_mem_ok(1) [OF assms] sw by (simp add: vm_ok_def)
qed

lemma sample_new_frame: "new_frame sample_roots [10] 20 0x8049000 (sample_vm b)"
  by (simp add: new_frame_def sample_vm_def cells_def is_user_vaddr_def PHYS_BASE_def pg_ofs_def PGMASK_def page_addr_def sample_pool_def PGSIZE_def)

lemma sample_full: "\<exists>s0. get_frame PAL_USER (sample_vm full_map) = Some (0, s0)"
proof -
  have "\<not> group [True] k 1 False" for k by (cases k) (simp_all add: group_def)
  then have "bitmap_scan_and_flip full_map 0 1 False = Some (BITMAP_ERROR, full_map)"
    using bitmap_scan_and_flip_rep [OF full_map_rep, of 0 1 False] by auto
  then show ?thesis
    by (simp add: get_frame_def palloc_get_page_def palloc_get_multiple_def sample_vm_def sample_mmu_def get_pool_def PAL_USER_def PAL_ASSERT_def Let_def)
qed

lemma sample_can_evict: "can_evict [10] (sample_vm full_map) 10"
proof -
  let ?s = "sample_vm full_map" and ?pd = "page_addr (sample_pool 0xC0100000) 0"
  note m = sample_vm_mem_ok(1) [OF full_map_rep, simplified]
  have step: "clock_frame_next ?s = Some (10, ?s\<lparr>clock_ptr := 10\<rparr>)"
    by (simp add: clock_frame_next_def sample_vm_def list_empty_def list_begin_def list_end_def list_next_def is_head_def is_interior_def)
  have u: "is_user_vaddr 0x8048000" by (simp add: is_user_vaddr_def PHYS_BASE_def)
  have "pagedir_is_accessed ?pd 0x8048000 (mm ?s) = Some False"
    using is_dirty_eq(2) [OF mem_okD(1) [OF m] _ u, of ?pd] by simp
  then have "pick_loop (Suc k) ?pd ?s = Some (10, ?s\<lparr>clock_ptr := 10\<rparr>)" for k
    unfolding pick_loop.simps step by (simp add: sample_vm_def)
  moreover have "dom (kframes ?s) = {0xC0200000}" "pagedir ?s (cur ?s) = ?pd" by (simp_all add: sample_vm_def)
  ultimately have "pick_frame (pagedir ?s (cur ?s)) ?s = Some (10, ?s\<lparr>clock_ptr := 10\<rparr>)"
    by (simp add: pick_frame_def Let_def)
  moreover have "slots (swp ?s) \<noteq> {..<swap_size (swp ?s)}"
    unfolding sample_vm_slots by (auto simp: sample_vm_def set_eq_iff intro!: exI [of _ 0])
  ultimately show ?thesis using u unfolding can_evict_def by (simp add: sample_vm_def)
qed

lemma sample_free:
  "\<exists>p s0. get_frame PAL_USER (sample_vm sample_bitmap) = Some (p, s0) \<and> p \<noteq> 0 \<and> drop_bit PTSHIFT (p - PHYS_BASE) < 1024 \<and>
     init_ram_pages (mm s0) = 1024"
proof -
  let ?bs = "[True, True, False, False, True]"
  have "group ?bs 2 1 False" by (simp add: group_def)
  then obtain k b where k: "bitmap_scan_and_flip sample_bitmap 0 1 False = Some (k, b)" "k \<noteq> BITMAP_ERROR" "group ?bs k 1 False"
    using bitmap_scan_and_flip_rep [OF sample_bitmap_rep, of 0 1 False] by auto
  then have "k = 0 \<or> k = 1 \<or> k = 2 \<or> k = 3 \<or> k = 4" by (auto simp: group_def)
  then show ?thesis using k(1,2)
    by (auto simp: get_frame_def palloc_get_page_def palloc_get_multiple_def sample_vm_def sample_mmu_def get_pool_def put_pool_def
      PAL_USER_def PAL_ZERO_def PGSIZE_def PTSHIFT_def PHYS_BASE_def)
qed

section \<open>Eviction\<close>



text \<open>
  The hand of the clock stays on the entry that was evicted, which has been freed. Unless
  \<^verbatim>\<open>malloc\<close> returns the same block for the new entry, the next search follows a freed pointer.
\<close>

theorem eviction_leaves_hand_on_freed_entry:
  assumes "vm_ok R fs s" and "new_frame R fs frame upage s" and "get_frame PAL_USER s = Some (0, s0)" and "can_evict fs s e" and "frame \<noteq> e"
  shows "\<exists>p s'. vm_frame_allocate frame PAL_USER upage s = Some (p, s') \<and> clock_ptr s' = e \<and>
    (\<forall>k. kframes s' k \<noteq> Some e) \<and> (\<forall>pd. pick_frame pd s' = None)"
proof -
  have fr: "frames_ok R fs s" using assms(1) by (simp add: vm_ok_def)
  have pd: "pagedir s (cur s) \<in> R" using assms(2) by (simp add: new_frame_def)
  obtain s1 where s1: "pick_frame (pagedir s (cur s)) s = Some (e, s1)" "searched R s s1" "clock_ptr s1 = e" "e \<in> set fs"
    using can_evict_pick [OF assms(1) pd assms(4)] by blast
  have free: "slots (swp s) \<noteq> {..<swap_size (swp s)}" using assms(4) by (simp add: can_evict_def)
  note g = assms(3) [unfolded get_frame_none [OF assms(1,3)]]
  obtain p s2 s' where a: "evict_frame PAL_USER s = Some (p, s2)" "evicted R fs e p s s2" "vm_frame_allocate frame PAL_USER upage s = Some (p, s')"
    "clock_ptr s' = e" "nextp (fr_links s') e = NULL" "vm_ok R (remove1 e fs @ [frame]) s'" "frame_list s' = frame_list s"
    using allocate_evicting [OF assms(1,2) g s1 free] assms(5) by blast
  have fr': "frames_ok R (remove1 e fs @ [frame]) s'" using a(6) by (simp add: vm_ok_def)
  have dist: "distinct (cells (frame_list s) fs)" "NULL \<notin> set (cells (frame_list s) fs)"
    using frames_okD(1) [OF fr] by (simp_all add: list_rep_def)
  then have "NULL \<notin> set fs" "distinct fs" "tail (frame_list s) \<notin> set fs" by (simp_all add: cells_def)
  then have e: "e \<noteq> NULL" "e \<noteq> tail (frame_list s')" "e \<notin> set (remove1 e fs @ [frame])"
    using s1(4) assms(5) by (metis, metis a(7), simp)
  have "clock_frame_next s' = None" by (rule hand_fails [OF fr']) (use e a(4,5) in auto)
  then have "pick_loop (Suc k) pd s' = None" for k pd by simp
  then have "pick_frame pd s' = None" for pd by (simp add: pick_frame_def Let_def kassert_def)
  moreover have "kframes s' k \<noteq> Some e" for k using frames_okD(2) [OF fr', of k e] e(3) by blast
  ultimately show ?thesis using a(3,4) by blast
qed

section \<open>Loading a page\<close>



end
