(* ===== verification/UserStack.thy ===== *)
theory UserStack
  imports Filesys Paging
begin

text \<open>
  The first stack of a user program, \<^verbatim>\<open>push_command\<close> of \<^verbatim>\<open>userprog/process.c\<close>: the command line is cut
  into arguments from its end and pushed with the pointers to them. The model is on the bytes of the user's
  address space, which the page of zeros at its top backs; \<open>None\<close> is an access outside an array or a null pointer.
\<close>

section \<open>Pushing\<close>

record ustack =
  uesp :: u32
  umem :: "u32 \<Rightarrow> byte"

definition push_bytes :: "byte list \<Rightarrow> ustack \<Rightarrow> ustack" where
  "push_bytes bs s = (let p = uesp s - of_nat (length bs) in s\<lparr>uesp := p, umem := put_bytes p bs (umem s)\<rparr>)"

definition push_word :: "u32 \<Rightarrow> ustack \<Rightarrow> ustack" where
  "push_word w s = push_bytes (encode32 w) s"

text \<open>The code moves the pointer by a word and then writes a single byte.\<close>

definition push_char :: "byte \<Rightarrow> ustack \<Rightarrow> ustack" where
  "push_char b s = (let p = uesp s - 4 in s\<lparr>uesp := p, umem := (umem s)(p := b)\<rparr>)"

text \<open>The loop from the end of the line; \<open>i\<close> and \<open>e\<close> are \<^verbatim>\<open>start_ind\<close> and \<^verbatim>\<open>end_ind\<close>.\<close>

fun push_args :: "byte list \<Rightarrow> nat \<Rightarrow> nat \<Rightarrow> bool \<Rightarrow> nat list \<Rightarrow> ustack \<Rightarrow> (nat \<times> nat list \<times> ustack) option" where
  "push_args cs 0 e prev offsets s = Some (e, offsets, s)"
| "push_args cs (Suc i) e prev offsets s =
     (if cs ! Suc i = 32
      then if prev then push_args cs i i True offsets s
        else do {
          let str = take (e - Suc i) (drop (Suc i + 1) cs);
          let s = push_bytes (str @ [0]) s;
          kassert (length offsets < 1000);
          push_args cs i i True (offsets @ [e - Suc i + 1]) s }
      else push_args cs i e False offsets s)"

fun push_pointers :: "nat list \<Rightarrow> u32 \<Rightarrow> ustack \<Rightarrow> ustack" where
  "push_pointers [] base s = s"
| "push_pointers (n # offsets) base s = (let base = base - of_nat n in push_pointers offsets base (push_word base s))"

definition push_command :: "bool \<Rightarrow> byte list \<Rightarrow> ustack \<Rightarrow> ustack option" where
  "push_command mal cmdline s = do {
     kassert mal;
     let s = s\<lparr>uesp := uesp s AND 0xfffffffc\<rparr>;
     let base = uesp s;
     kassert (cmdline \<noteq> []);
     (e, offsets, s) \<leftarrow> push_args cmdline (length cmdline - 1) (length cmdline - 1) False [] s;
     let s = push_bytes (take (e + 1) cmdline @ [0]) s;
     kassert (length offsets < 1000);
     let offsets = offsets @ [e + 1 + 1];
     let w_align = 4 - uesp s mod 4;
     let s = s\<lparr>uesp := uesp s - w_align\<rparr>;
     let s = push_char 0 s;
     let s = push_pointers offsets base s;
     let s = push_word (uesp s) s;
     let s = push_char (of_nat (length offsets)) s;
     Some (push_char 0 s) }"

section \<open>The contents of the stack\<close>

text \<open>\<open>stack_has lim bs s\<close>: the bytes from the stack pointer to \<open>lim\<close> are \<open>bs\<close>, and below it nothing has been written.\<close>

definition stack_has :: "u32 \<Rightarrow> byte list \<Rightarrow> ustack \<Rightarrow> bool" where
  "stack_has lim bs s \<longleftrightarrow> length bs \<le> unat lim \<and> uesp s = lim - of_nat (length bs) \<and>
     (\<forall>j < length bs. umem s (uesp s + of_nat j) = bs ! j) \<and> (\<forall>a. unat a < unat (uesp s) \<longrightarrow> umem s a = 0)"

lemma stack_hasD:
  assumes "stack_has lim bs s"
  shows "unat (uesp s) = unat lim - length bs" "length bs \<le> unat lim" "j < length bs \<Longrightarrow> umem s (uesp s + of_nat j) = bs ! j"
  using assms unat_sub_of_nat [of "length bs" lim] unfolding stack_has_def by (simp, blast, blast)

lemma push_bytes_has:
  assumes s: "stack_has lim bs s" and n: "length xs + length bs \<le> unat lim"
  shows "stack_has lim (xs @ bs) (push_bytes xs s)"
proof -
  note u = stack_hasD [OF s]
  let ?p = "uesp s - of_nat (length xs)"
  have nx: "length xs \<le> unat (uesp s)" using u n by linarith
  have up: "unat ?p = unat (uesp s) - length xs" by (rule unat_sub_of_nat [OF nx])
  have b: "unat (uesp s) + length bs < 2 ^ 32" using u u32_bound [of lim] by simp
  have off: "unat (?p + of_nat j - ?p) = j" if "j < length xs + length bs" for j
    using that n u32_bound [of lim] by (simp add: unat_of_nat take_bit_nat_eq_self)
  have "put_bytes ?p xs (umem s) (?p + of_nat j) = (xs @ bs) ! j" if j: "j < length (xs @ bs)" for j
  proof (cases "j < length xs")
    case True
    then show ?thesis using off [of j] j by (simp add: put_bytes_def nth_append)
  next
    case False
    have "?p + of_nat j = uesp s + of_nat (j - length xs)" using False by (simp add: of_nat_diff)
    moreover have "umem s (uesp s + of_nat (j - length xs)) = bs ! (j - length xs)"
      by (rule stack_hasD(3) [OF s]) (use j False in simp)
    ultimately have "umem s (?p + of_nat j) = bs ! (j - length xs)" by (simp only:)
    then show ?thesis using off [of j] j False by (simp add: put_bytes_def nth_append)
  qed
  moreover have "put_bytes ?p xs (umem s) a = 0" if a: "unat a < unat ?p" for a
  proof -
    have "length xs \<le> unat (a - ?p)"
    proof -
      have "unat (a - ?p) = 2 ^ 32 + unat a - unat ?p" using a by (simp add: unat_sub_if_size word_size)
      then show ?thesis using up nx u32_bound [of "uesp s"] by linarith
    qed
    moreover have "umem s a = 0" using s a up by (simp add: stack_has_def)
    ultimately show ?thesis by (simp add: put_bytes_def)
  qed
  ultimately show ?thesis using n s by (simp add: stack_has_def push_bytes_def Let_def add.commute diff_diff_add)
qed

lemma reserve_has:
  assumes s: "stack_has lim bs s" and n: "n + length bs \<le> unat lim"
  shows "stack_has lim (replicate n 0 @ bs) (s\<lparr>uesp := uesp s - of_nat n\<rparr>)"
proof -
  have e: "put_bytes (uesp s - of_nat n) (replicate n 0) (umem s) = umem s"
  proof (rule ext)
    fix a
    have u: "n \<le> unat (uesp s)" "unat (uesp s - of_nat n) = unat (uesp s) - n"
      using stack_hasD [OF s] n unat_sub_of_nat [of n "uesp s"] by simp_all
    show "put_bytes (uesp s - of_nat n) (replicate n 0) (umem s) a = umem s a"
    proof (cases "unat (a - (uesp s - of_nat n)) < n")
      case True
      have "unat a = unat (uesp s) - n + unat (a - (uesp s - of_nat n))"
        using unat_add_of_nat [of "uesp s - of_nat n" "unat (a - (uesp s - of_nat n))"] u True u32_bound [of "uesp s"] by simp
      then have "unat a < unat (uesp s)" using True u by linarith
      then show ?thesis using s True by (simp add: put_bytes_def stack_has_def)
    qed (simp add: put_bytes_def)
  qed
  from push_bytes_has [OF s, of "replicate n 0"] n show ?thesis by (simp add: push_bytes_def e)
qed


lemma push_word_has: "stack_has lim bs s \<Longrightarrow> 4 + length bs \<le> unat lim \<Longrightarrow> stack_has lim (encode32 w @ bs) (push_word w s)"
  unfolding push_word_def by (rule push_bytes_has) simp_all

lemma push_char_has:
  assumes s: "stack_has lim bs s" and n: "4 + length bs \<le> unat lim"
  shows "stack_has lim ([b, 0, 0, 0] @ bs) (push_char b s)"
proof -
  have r: "stack_has lim (replicate 3 0 @ bs) (s\<lparr>uesp := uesp s - of_nat 3\<rparr>)" by (rule reserve_has [OF s]) (use n in simp)
  have e: "put_bytes p [b] m = m(p := b)" for p m by (rule ext) (auto simp: put_bytes_def unsigned_eq_0_iff)
  have "push_bytes [b] (s\<lparr>uesp := uesp s - of_nat 3\<rparr>) = push_char b s"
    by (simp add: push_bytes_def push_char_def Let_def e diff_diff_eq)
  then show ?thesis using push_bytes_has [OF r, of "[b]"] n by (simp add: numeral_eq_Suc)
qed

text \<open>Reading back: a word, and the bytes from an address on.\<close>

lemma stack_word:
  assumes s: "stack_has lim (xs @ encode32 w @ ys) s"
  shows "load32 (umem s) (uesp s + of_nat (length xs)) = w"
proof -
  have "umem s (uesp s + of_nat (length xs) + of_nat j) = encode32 w ! j" if "j < 4" for j
    using stack_hasD(3) [OF s, of "length xs + j"] that by (simp add: nth_append add.assoc)
  from this [of 0] this [of 1] this [of 2] this [of 3]
  have "load32 (umem s) (uesp s + of_nat (length xs)) = decode32 (map (\<lambda>j. encode32 w ! j) [0, 1, 2, 3])"
    by (simp add: load32_def)
  also have "map (\<lambda>j. encode32 w ! j) [0, 1, 2, 3] = encode32 w" by (simp add: encode32_def)
  finally show ?thesis by simp
qed

lemma stack_bytes:
  assumes s: "stack_has lim (xs @ ys @ zs) s"
  shows "bytes_at (lim - of_nat (length ys + length zs)) (length ys) (umem s) = ys"
proof -
  have "uesp s = lim - of_nat (length xs + (length ys + length zs))" using s by (simp add: stack_has_def)
  then have p: "lim - of_nat (length ys + length zs) = uesp s + of_nat (length xs)" by (simp add: algebra_simps)
  have "umem s (uesp s + of_nat (length xs) + of_nat j) = ys ! j" if "j < length ys" for j
    using stack_hasD(3) [OF s, of "length xs + j"] that by (simp add: nth_append add.assoc)
  then show ?thesis unfolding p by (intro nth_equalityI) (simp_all add: bytes_at_def)
qed

section \<open>The arguments\<close>

lemma tokens_nil [simp]: "tokens ds [] = []"
  by (subst tokens.simps) simp

lemma tokens_first:
  assumes t: "t \<noteq> []" "set t \<inter> set ds = {}" and r: "rest = [] \<or> hd rest \<in> set ds"
  shows "tokens ds (t @ rest) = t # tokens ds rest"
proof -
  have d: "dropWhile (\<lambda>c. c \<in> set ds) (t @ rest) = t @ rest" using t by (cases t) auto
  have "takeWhile (\<lambda>c. c \<notin> set ds) (t @ rest) = t" "dropWhile (\<lambda>c. c \<notin> set ds) (t @ rest) = rest"
    using t(2) r by (cases rest; auto simp: takeWhile_append dropWhile_append)+
  then show ?thesis using tokens_rest [OF d] t(1) by simp
qed

lemma tokens_append:
  "d \<in> set ds \<Longrightarrow> tokens ds (xs @ d # ys) = tokens ds xs @ tokens ds ys"
proof (induction xs rule: length_induct)
  case (1 xs)
  define t where "t = takeWhile (\<lambda>c. c \<notin> set ds) xs"
  define r where "r = dropWhile (\<lambda>c. c \<notin> set ds) xs"
  have xs: "xs = t @ r" by (simp add: t_def r_def)
  have t: "set t \<inter> set ds = {}" unfolding t_def by (auto dest: set_takeWhileD)
  have r: "r = [] \<or> hd r \<in> set ds" using hd_dropWhile [of "\<lambda>c. c \<notin> set ds" xs] unfolding r_def by blast
  show ?case
  proof (cases "t = []")
    case True
    show ?thesis
    proof (cases r)
      case Nil
      then show ?thesis using True xs 1 by (simp add: tokens_delim)
    next
      case (Cons c r')
      then have "c \<in> set ds" "length r' < length xs" using r xs by simp_all
      then show ?thesis using 1 True Cons xs by (simp add: tokens_delim)
    qed
  next
    case False
    then have "length r < length xs" using xs by (cases t) simp_all
    then have "tokens ds (r @ d # ys) = tokens ds r @ tokens ds ys" using 1 by blast
    moreover have "tokens ds (t @ r @ d # ys) = t # tokens ds (r @ d # ys)"
      by (rule tokens_first [OF False t]) (use r 1(2) in \<open>cases r; simp\<close>)
    moreover have "tokens ds (t @ r) = t # tokens ds r" by (rule tokens_first [OF False t r])
    ultimately show ?thesis by (simp add: xs)
  qed
qed

text \<open>The loop cuts the line into the tokens, from the last one to the second; the first one remains.\<close>

lemma push_args_tokens:
  assumes "k \<le> e" "e < length cs" "\<forall>j. k < j \<and> j \<le> e \<longrightarrow> cs ! j \<noteq> 32" "if prev then e = k else k < e \<or> cs ! k \<noteq> 32"
    and "hd cs \<noteq> 32" and "length offs + length (tokens [32] (take (Suc e) cs)) \<le> 1000"
  shows "\<exists>e' vs. tokens [32] (take (Suc e) cs) = take (Suc e') cs # vs \<and> e' < length cs \<and>
    push_args cs k e prev offs s = Some (e', offs @ rev (map (\<lambda>w. length w + 1) vs), fold (\<lambda>w. push_bytes (w @ [0])) (rev vs) s)"
  using assms
proof (induction k arbitrary: e prev offs s)
  case 0
  let ?t = "take (Suc e) cs"
  have ne: "cs \<noteq> []" using 0 by auto
  have "cs ! j \<noteq> 32" if "j \<le> e" for j using 0 that ne by (cases j) (auto simp: hd_conv_nth)
  then have "set ?t \<inter> set [32] = {}" by (auto simp: in_set_conv_nth)
  from tokens_first [OF _ this, of "[]"] ne have "tokens [32] ?t = [?t]" by simp
  then show ?case using 0 by (intro exI [of _ e] exI [of _ "[]"]) simp
next
  case (Suc i)
  show ?case
  proof (cases "cs ! Suc i = 32")
    case False
    have "\<forall>j. i < j \<and> j \<le> e \<longrightarrow> cs ! j \<noteq> 32" using Suc.prems(3) False by (metis Suc_lessI)
    then show ?thesis using Suc.IH [of e False offs s] Suc.prems False by simp
  next
    case sp: True
    show ?thesis
    proof (cases prev)
      case True
      have e: "e = Suc i" using Suc.prems(4) True by simp
      have "take (Suc e) cs = take (Suc i) cs @ 32 # []" using Suc.prems(2) sp by (simp add: e take_Suc_conv_app_nth)
      then have t: "tokens [32] (take (Suc e) cs) = tokens [32] (take (Suc i) cs)"
        using tokens_append [of 32 "[32]" "take (Suc i) cs" "[]"] by simp
      then show ?thesis using Suc.IH [of i True offs s] Suc.prems sp True by (simp add: e)
    next
      case False
      have le: "Suc i < e" using Suc.prems(1,4) False sp by (cases "Suc i = e") auto
      define w where "w = take (e - Suc i) (drop (Suc i + 1) cs)"
      have lw: "length w = e - Suc i" using Suc.prems(2) le by (simp add: w_def)
      have wn: "w ! j = cs ! (Suc i + 1 + j)" if "j < length w" for j using that Suc.prems(2) by (simp add: w_def)
      have w: "w \<noteq> []" "set w \<inter> set [32] = {}"
        using le lw wn Suc.prems(3) by (auto simp: in_set_conv_nth)
      have "take (Suc e) cs = take (Suc i) cs @ cs ! Suc i # w"
      proof -
        have "take (Suc e) cs = take (Suc i) cs @ take (e - i) (drop (Suc i) cs)"
          using le by (simp flip: take_add)
        also have "drop (Suc i) cs = cs ! Suc i # drop (Suc i + 1) cs" using Suc.prems(2) le by (simp add: Cons_nth_drop_Suc)
        also have "take (e - i) (cs ! Suc i # drop (Suc i + 1) cs) = cs ! Suc i # w" using le by (simp add: w_def take_Cons')
        finally show ?thesis .
      qed
      then have t: "tokens [32] (take (Suc e) cs) = tokens [32] (take (Suc i) cs) @ [w]"
        using tokens_append [of 32 "[32]" "take (Suc i) cs" w] tokens_first [OF w, of "[]"] sp by simp
      obtain e' vs where IH: "tokens [32] (take (Suc i) cs) = take (Suc e') cs # vs" "e' < length cs"
        "push_args cs i i True (offs @ [e - Suc i + 1]) (push_bytes (w @ [0]) s) =
          Some (e', (offs @ [e - Suc i + 1]) @ rev (map (\<lambda>w. length w + 1) vs), fold (\<lambda>w. push_bytes (w @ [0])) (rev vs) (push_bytes (w @ [0]) s))"
        using Suc.IH [of i True "offs @ [e - Suc i + 1]" "push_bytes (w @ [0]) s"] Suc.prems t le by auto
      have w': "take (e - Suc i) (drop (Suc (Suc i)) cs) = w" by (simp add: w_def)
      have "length offs < 1000" using Suc.prems(6) t IH(1) by simp
      then have "push_args cs (Suc i) e prev offs s = Some (e', offs @ rev (map (\<lambda>w. length w + 1) (vs @ [w])), fold (\<lambda>w. push_bytes (w @ [0])) (rev (vs @ [w])) s)"
        using sp False IH(3) lw by (simp add: w')
      then show ?thesis using IH(1,2) t by (intro exI [of _ e'] exI [of _ "vs @ [w]"]) simp
    qed
  qed
qed


section \<open>The layout\<close>

text \<open>The strings in memory, the first one lowest, and the pointers to them.\<close>

definition strings :: "byte list list \<Rightarrow> byte list" where
  "strings ws = concat (map (\<lambda>w. w @ [0]) ws)"

fun arg_pointers :: "u32 \<Rightarrow> byte list list \<Rightarrow> u32 list" where
  "arg_pointers lim [] = []"
| "arg_pointers lim (w # ws) = (lim - of_nat (length (strings (w # ws)))) # arg_pointers lim ws"

lemma strings_simps [simp]: "strings [] = []" "strings (w # ws) = w @ 0 # strings ws"
  by (simp_all add: strings_def)

lemma strings_append: "strings (vs @ ws) = strings vs @ strings ws"
  by (simp add: strings_def)

lemma length_arg_pointers [simp]: "length (arg_pointers lim ws) = length ws"
  by (induction ws) simp_all

lemma arg_pointers_nth: "i < length ws \<Longrightarrow> arg_pointers lim ws ! i = lim - of_nat (length (strings (drop i ws)))"
  by (induction ws arbitrary: i) (auto simp: nth_Cons split: nat.splits)

lemma length_strings: "length (strings ws) = length (concat ws) + length ws"
  by (induction ws) simp_all

lemma sum_list_strings: "sum_list (map (\<lambda>w. length w + 1) ws) = length (strings ws)"
  by (induction ws) simp_all

lemma length_words: "length (concat (map encode32 ps)) = 4 * length ps"
  by (induction ps) simp_all

lemma push_strings_has:
  "stack_has lim bs s \<Longrightarrow> length (strings vs) + length bs \<le> unat lim \<Longrightarrow>
   stack_has lim (strings vs @ bs) (fold (\<lambda>w. push_bytes (w @ [0])) (rev vs) s)"
proof (induction vs)
  case (Cons v vs)
  then have "stack_has lim (strings vs @ bs) (fold (\<lambda>w. push_bytes (w @ [0])) (rev vs) s)" by simp
  from push_bytes_has [OF this, of "v @ [0]"] Cons.prems(2) show ?case by simp
qed simp

lemma push_pointers_append:
  "push_pointers (a @ b) base s = push_pointers b (base - of_nat (sum_list a)) (push_pointers a base s)"
  by (induction a arbitrary: base s) (simp_all add: Let_def diff_diff_eq)

lemma push_pointers_has:
  "stack_has lim bs s \<Longrightarrow> 4 * length ws + length bs \<le> unat lim \<Longrightarrow>
   stack_has lim (concat (map encode32 (arg_pointers base ws)) @ bs) (push_pointers (rev (map (\<lambda>w. length w + 1) ws)) base s)"
proof (induction ws)
  case (Cons w ws)
  let ?s = "push_pointers (rev (map (\<lambda>w. length w + 1) ws)) base s"
  have "stack_has lim (concat (map encode32 (arg_pointers base ws)) @ bs) ?s" using Cons by simp
  from push_word_has [OF this, of "base - of_nat (length (strings (w # ws)))"] Cons.prems(2)
  have "stack_has lim (concat (map encode32 (arg_pointers base (w # ws))) @ bs) (push_word (base - of_nat (length (strings (w # ws)))) ?s)"
    by (simp add: length_words)
  moreover have "sum_list (rev (map (\<lambda>w. length w + 1) ws)) = length (strings ws)"
    using sum_list_strings by (simp add: sum_list_rev)
  ultimately show ?case by (simp add: push_pointers_append Let_def diff_diff_eq add.commute add.left_commute)
qed simp

lemma aligned_word: "unat (x AND 0xfffffffc :: u32) mod 4 = 0"
proof -
  have "take_bit 2 (x AND 0xfffffffc) = 0" by (simp add: take_bit_and)
  then have "take_bit 2 (unat (x AND 0xfffffffc)) = 0" by (simp only: unsigned_take_bit_eq [symmetric] unsigned_0)
  then show ?thesis by (simp add: take_bit_eq_mod)
qed


lemma of_nat_low_byte:
  assumes "n < 256"
  shows "ucast (of_nat n :: u32) = (of_nat n :: byte)" "ucast (drop_bit 8 (of_nat n :: u32)) = (0 :: byte)"
    "ucast (drop_bit 16 (of_nat n :: u32)) = (0 :: byte)" "ucast (drop_bit 24 (of_nat n :: u32)) = (0 :: byte)"
proof -
  have u: "unat (of_nat n :: u32) = n" using assms by (simp add: unat_of_nat take_bit_nat_eq_self)
  show "ucast (of_nat n :: u32) = (of_nat n :: byte)" 
    by (rule unsigned_word_eqI [where 'a = nat]) (simp add: unsigned_ucast_eq u unsigned_of_nat)
  have "drop_bit k (of_nat n :: u32) = 0" if "8 \<le> k" for k
  proof -
    have "(256 :: nat) \<le> 2 ^ k" using power_increasing [OF that, of "2 :: nat"] by simp
    then have "drop_bit k n = 0" using assms by (simp add: drop_bit_eq_div)
    then have "unat (drop_bit k (of_nat n :: u32)) = 0" using assms
      by (simp only: unsigned_drop_bit_eq u) (simp add: take_bit_nat_eq_self)
    then show ?thesis by (simp add: unsigned_eq_0_iff)
  qed
  then show "ucast (drop_bit 8 (of_nat n :: u32)) = (0 :: byte)"
    "ucast (drop_bit 16 (of_nat n :: u32)) = (0 :: byte)" "ucast (drop_bit 24 (of_nat n :: u32)) = (0 :: byte)" by simp_all
qed

lemma align_rest: "4 - x mod 4 = of_nat (4 - unat (x :: u32) mod 4)"
proof -
  have m: "unat (x mod 4) = unat x mod 4" by (simp add: unat_mod)
  have "unat (4 - of_nat (unat (x mod 4)) :: u32) = 4 - unat (x mod 4)"
    using unat_sub_of_nat [of "unat (x mod 4)" 4] m by simp
  moreover have "of_nat (unat (x mod 4)) = x mod 4" by simp
  ultimately have "unat (4 - x mod 4) = 4 - unat x mod 4" using m by (simp only:)
  moreover have "unat (of_nat (4 - unat x mod 4) :: u32) = 4 - unat x mod 4" by (simp only: unat_of_nat) (simp add: take_bit_nat_eq_self)
  ultimately show ?thesis by (metis unsigned_word_eqI)
qed

text \<open>The whole stack after \<^verbatim>\<open>push_command\<close>, as bytes.\<close>

definition stack_tail :: "u32 \<Rightarrow> nat \<Rightarrow> byte list list \<Rightarrow> byte list" where
  "stack_tail lim k ws = concat (map encode32 (arg_pointers lim ws)) @ encode32 0 @ replicate k 0 @ strings ws"

lemma push_command_run:
  assumes cs: "cs \<noteq> []" "hd cs \<noteq> 32" "last cs \<noteq> 32"
    and ws: "ws = tokens [32] cs" "length ws < 256" and lim: "lim = uesp s AND 0xfffffffc"
    and room: "length cs + 4 * length ws + 21 \<le> unat lim" and zero: "\<forall>a. unat a < unat lim \<longrightarrow> umem s a = 0"
  shows "\<exists>s' k. push_command True cs s = Some s' \<and>
    stack_has lim (encode32 0 @ encode32 (of_nat (length ws)) @ encode32 (uesp s' + 12) @ stack_tail lim k ws) s' \<and>
    k = 4 - (unat lim - length (strings ws)) mod 4 \<and> length (strings ws) \<le> length cs + 1"
proof -
  let ?s = "s\<lparr>uesp := lim\<rparr>" and ?n = "length cs - 1"
  have h0: "stack_has lim [] ?s" using zero by (simp add: stack_has_def)
  have ls: "length (strings ws) \<le> length cs + 1"
    using length_tokens [of "[32]" cs] cs by (simp add: length_strings ws(1))
  have full: "take (Suc ?n) cs = cs" using cs(1) by (cases cs) simp_all
  have last: "cs ! ?n \<noteq> 32" using cs(1,3) by (simp add: last_conv_nth)
  obtain e vs where r: "ws = take (Suc e) cs # vs"
    "push_args cs ?n ?n False [] ?s = Some (e, [] @ rev (map (\<lambda>w. length w + 1) vs), fold (\<lambda>w. push_bytes (w @ [0])) (rev vs) ?s)"
    and e: "e < length cs"
  proof -
    have "\<forall>j. ?n < j \<and> j \<le> ?n \<longrightarrow> cs ! j \<noteq> 32" "?n < length cs" using cs(1) by auto
    from push_args_tokens [OF order_refl this(2,1), of False "[]" ?s] show ?thesis
      using cs last ws that unfolding full by auto
  qed
  let ?s1 = "fold (\<lambda>w. push_bytes (w @ [0])) (rev vs) ?s"
  let ?s2 = "push_bytes (take (e + 1) cs @ [0]) ?s1"
  have "?s2 = fold (\<lambda>w. push_bytes (w @ [0])) (rev ws) ?s" by (simp add: r(1))
  then have h2: "stack_has lim (strings ws) ?s2" using push_strings_has [OF h0, of ws] ls room by simp
  define k where "k = 4 - unat (uesp ?s2) mod 4"
  have k: "4 - uesp ?s2 mod 4 = of_nat k" "k \<le> 4"
    unfolding k_def by (rule align_rest) simp
  let ?s3 = "?s2\<lparr>uesp := uesp ?s2 - of_nat k\<rparr>"
  have h3: "stack_has lim (replicate k 0 @ strings ws) ?s3" by (rule reserve_has [OF h2]) (use k(2) ls room in simp)
  have z: "[0, 0, 0, 0] = encode32 0" "[of_nat (length ws), 0, 0, 0] = encode32 (of_nat (length ws))"
    using ws(2) by (simp_all add: encode32_def of_nat_low_byte)
  have h4: "stack_has lim (encode32 0 @ replicate k 0 @ strings ws) (push_char 0 ?s3)"
    using push_char_has [OF h3, of 0] k(2) ls room by (simp add: z)
  let ?offs = "rev (map (\<lambda>w. length w + 1) vs) @ [e + 1 + 1]"
  have offs: "?offs = rev (map (\<lambda>w. length w + 1) ws)" using e by (simp add: r(1))
  let ?s5 = "push_pointers ?offs lim (push_char 0 ?s3)"
  have h5: "stack_has lim (stack_tail lim k ws) ?s5"
    unfolding offs stack_tail_def by (rule push_pointers_has [OF h4]) (use k(2) ls room in simp)
  have lt: "length (stack_tail lim k ws) = 4 * length ws + 4 + k + length (strings ws)"
    by (simp add: stack_tail_def length_words)
  let ?s6 = "push_word (uesp ?s5) ?s5"
  have h6: "stack_has lim (encode32 (uesp ?s5) @ stack_tail lim k ws) ?s6"
    by (rule push_word_has [OF h5]) (use k(2) ls room lt in simp)
  let ?s7 = "push_char (of_nat (length ?offs)) ?s6"
  have "length ?offs = length ws" by (simp add: r(1))
  then have h7: "stack_has lim (encode32 (of_nat (length ws)) @ encode32 (uesp ?s5) @ stack_tail lim k ws) ?s7"
    using push_char_has [OF h6, of "of_nat (length ws)"] k(2) ls room lt by (simp add: z)
  have h8: "stack_has lim (encode32 0 @ encode32 (of_nat (length ws)) @ encode32 (uesp ?s5) @ stack_tail lim k ws) (push_char 0 ?s7)"
    using push_char_has [OF h7, of 0] k(2) ls room lt by (simp add: z)
  have "uesp (push_char 0 ?s7) + 12 = uesp ?s5" using h8 h5 by (simp add: stack_has_def)
  moreover have "k = 4 - (unat lim - length (strings ws)) mod 4" using stack_hasD(1) [OF h2] by (simp only: k_def)
  moreover have "push_command True cs s = Some (push_char 0 ?s7)"
    using r(2) cs(1) ws(2) r(1) k(1) unfolding push_command_def lim by (simp add: Let_def)
  ultimately show ?thesis using h8 ls by (intro exI [of _ "push_char 0 ?s7"] exI [of _ k]) (simp only: simp_thms)
qed


lemma esp_rest:
  assumes "(l :: nat) mod 4 = 0" "n + 5 + (4 * a + 16) \<le> l" "k = 4 - (l - n) mod 4"
  shows "(l - (n + k + (4 * a + 16))) mod 4 = (if even n then 0 else 2)"
proof -
  obtain q where l: "l = 4 * q" using assms(1) by (rule mod_zero_obtain)
  define r where "r = (l - n) mod 4"
  obtain d where d: "l - n = 4 * d + r" unfolding r_def by (metis mult_div_mod_eq)
  have "even (4 * d + r) = even (4 * q - n)" using d l by simp
  moreover have "n \<le> 4 * q" using assms(2) l by simp
  ultimately have r: "r < 4" "even r = even n" unfolding r_def by simp_all
  have "4 - r \<le> 4 * d + r" using d assms(2) by linarith
  have "l - (n + k + (4 * a + 16)) = 4 * d + r - (4 - r) - (4 * a + 16)" using d assms(3) r_def by simp
  moreover have "a + 5 \<le> d" using d assms(2) r(1) by linarith
  then obtain x where "d = a + 5 + x" using le_Suc_ex by blast
  moreover consider "r = 0" | "r = 1" | "r = 2" | "r = 3" using r(1) by linarith
  then have "(4 * (a + 5 + x) + r - (4 - r) - (4 * a + 16)) mod 4 = (if even r then 0 else 2)"
  proof cases
    case 2
    then have "4 * (a + 5 + x) + r - (4 - r) - (4 * a + 16) = 2 + 4 * x" by simp
    then show ?thesis using 2 by (simp only: mod_mult_self2) simp
  next
    case 4
    then have "4 * (a + 5 + x) + r - (4 - r) - (4 * a + 16) = 2 + 4 * (x + 1)" by simp
    then show ?thesis using 4 by (simp only: mod_mult_self2) simp
  qed (simp_all add: add_mult_distrib2)
  ultimately show ?thesis using r(2) by simp
qed





text \<open>A space at the end of the line is an empty argument of its own.\<close>

theorem trailing_space_is_argument:
  "push_args [108, 115, 32] 2 2 False [] s = Some (1, [1], push_bytes [0] s)" and "tokens [32] [108, 115, 32] = [[108, 115]]"
proof -
  have "push_args [108, 115, 32] (Suc (Suc 0)) (Suc (Suc 0)) False [] s = Some (1, [1], push_bytes [0] s)" by simp
  then show "push_args [108, 115, 32] 2 2 False [] s = Some (1, [1], push_bytes [0] s)" by (simp only: numeral_2_eq_2)
  show "tokens [32] [108, 115, 32] = [[108, 115]]"
    using tokens_append [of 32 "[32]" "[108, 115]" "[]"] tokens_first [of "[108, 115]" "[32]" "[]"] by simp
qed

end
