(* ===== verification/Elf.thy ===== *)
theory Elf
  imports PagingData Filesys
begin

text \<open>
  Loading a program, \<^verbatim>\<open>userprog/elf.c\<close> as it is built without \<^verbatim>\<open>VM\<close>, and leaving it,
  \<^verbatim>\<open>process_exit\<close> and \<^verbatim>\<open>process_activate\<close> of \<^verbatim>\<open>userprog/process.c\<close>: files of theory Inode are read into pages of
  Palloc and mapped in directories of Pagedir. \<open>None\<close> is a failed assertion, or a loop that does not end.
\<close>

section \<open>Headers\<close>

type_synonym u16 = "16 word"

definition half_at :: "byte list \<Rightarrow> nat \<Rightarrow> u16" where
  "half_at bs k = ucast (bs ! k) OR push_bit 8 (ucast (bs ! (k + 1)))"

definition long_at :: "byte list \<Rightarrow> nat \<Rightarrow> u32" where
  "long_at bs k = decode32 (take 4 (drop k bs))"

record elf32_ehdr =
  e_ident :: "byte list"
  e_type :: u16
  e_machine :: u16
  e_version :: u32
  e_entry :: u32
  e_phoff :: u32
  e_shoff :: u32
  e_flags :: u32
  e_ehsize :: u16
  e_phentsize :: u16
  e_phnum :: u16
  e_shentsize :: u16
  e_shnum :: u16
  e_shstrndx :: u16

definition sizeof_ehdr :: nat where "sizeof_ehdr = 52"

definition decode_ehdr :: "byte list \<Rightarrow> elf32_ehdr" where
  "decode_ehdr bs = \<lparr>e_ident = take 16 bs, e_type = half_at bs 16, e_machine = half_at bs 18, e_version = long_at bs 20,
     e_entry = long_at bs 24, e_phoff = long_at bs 28, e_shoff = long_at bs 32, e_flags = long_at bs 36, e_ehsize = half_at bs 40,
     e_phentsize = half_at bs 42, e_phnum = half_at bs 44, e_shentsize = half_at bs 46, e_shnum = half_at bs 48, e_shstrndx = half_at bs 50\<rparr>"

record elf32_phdr =
  p_type :: u32
  p_offset :: u32
  p_vaddr :: u32
  p_paddr :: u32
  p_filesz :: u32
  p_memsz :: u32
  p_flags :: u32
  p_align :: u32

definition sizeof_phdr :: nat where "sizeof_phdr = 32"

definition decode_phdr :: "byte list \<Rightarrow> elf32_phdr" where
  "decode_phdr bs = \<lparr>p_type = long_at bs 0, p_offset = long_at bs 4, p_vaddr = long_at bs 8, p_paddr = long_at bs 12,
     p_filesz = long_at bs 16, p_memsz = long_at bs 20, p_flags = long_at bs 24, p_align = long_at bs 28\<rparr>"

definition PT_LOAD :: u32 where "PT_LOAD = 1"
definition PT_DYNAMIC :: u32 where "PT_DYNAMIC = 2"
definition PT_INTERP :: u32 where "PT_INTERP = 3"
definition PT_SHLIB :: u32 where "PT_SHLIB = 5"
definition PF_W :: u32 where "PF_W = 2"

definition ehdr_ok :: "elf32_ehdr \<Rightarrow> bool" where
  "ehdr_ok h \<longleftrightarrow> \<not> (take 7 (e_ident h) \<noteq> [0x7f, 0x45, 0x4c, 0x46, 1, 1, 1] \<or> e_type h \<noteq> 2 \<or> e_machine h \<noteq> 3 \<or> e_version h \<noteq> 1 \<or>
     e_phentsize h \<noteq> of_nat sizeof_phdr \<or> e_phnum h > 1024)"

section \<open>Pages\<close>

text \<open>\<open>ppd\<close> is the page directory of the running thread.\<close>

record proc =
  pmm :: mmu
  pfs :: dfs
  ppd :: u32

definition with_fs :: "fs \<Rightarrow> proc \<Rightarrow> proc" where
  "with_fs f s = s\<lparr>pfs := (pfs s)\<lparr>dfs.fsys := f\<rparr>\<rparr>"

definition with_mem :: "((u32 \<Rightarrow> byte) \<Rightarrow> u32 \<Rightarrow> byte) \<Rightarrow> proc \<Rightarrow> proc" where
  "with_mem f s = s\<lparr>pmm := (pmm s)\<lparr>ram := (ram (pmm s))\<lparr>phys_mem := f (phys_mem (ram (pmm s)))\<rparr>\<rparr>\<rparr>"

definition proc_free_page :: "u32 \<Rightarrow> proc \<Rightarrow> proc option" where
  "proc_free_page p s = do { m \<leftarrow> free_page p (pmm s); Some (s\<lparr>pmm := m\<rparr>) }"

definition install_page :: "u32 \<Rightarrow> u32 \<Rightarrow> bool \<Rightarrow> proc \<Rightarrow> (bool \<times> proc) option" where
  "install_page upage kpage writable s = do {
     k \<leftarrow> pagedir_get_page (ppd s) upage (pmm s);
     if k = 0 then do {
       (ok, m) \<leftarrow> pagedir_set_page (ppd s) upage kpage writable (pmm s);
       Some (ok, s\<lparr>pmm := m\<rparr>) }
     else Some (False, s) }"

definition validate_segment :: "elf32_phdr \<Rightarrow> addr \<Rightarrow> fs \<Rightarrow> bool option" where
  "validate_segment phdr f s = (
     if p_offset phdr AND PGMASK \<noteq> p_vaddr phdr AND PGMASK then Some False
     else do {
       len \<leftarrow> file_length f s;
       Some (\<not> (p_offset phdr > word_of_int len \<or> p_memsz phdr < p_filesz phdr \<or> p_memsz phdr = 0 \<or>
         \<not> is_user_vaddr (p_vaddr phdr) \<or> \<not> is_user_vaddr (p_vaddr phdr + p_memsz phdr) \<or>
         p_vaddr phdr + p_memsz phdr < p_vaddr phdr \<or> p_vaddr phdr < of_nat PGSIZE)) })"

text \<open>The loop of \<^verbatim>\<open>load_segment\<close>.\<close>

partial_function (option) load_pages :: "bool \<Rightarrow> addr \<Rightarrow> u32 \<Rightarrow> u32 \<Rightarrow> u32 \<Rightarrow> bool \<Rightarrow> proc \<Rightarrow> (bool \<times> proc) option" where
  "load_pages mem file upage rd zr writable s =
     (if \<not> (rd > 0 \<or> zr > 0) then Some (True, s)
      else do {
        let page_rd = (if rd < of_nat PGSIZE then rd else of_nat PGSIZE);
        let page_zr = of_nat PGSIZE - page_rd;
        (kpage, r) \<leftarrow> palloc_get_page PAL_USER (ram (pmm s));
        let s = s\<lparr>pmm := (pmm s)\<lparr>ram := r\<rparr>\<rparr>;
        if kpage = 0 then Some (False, s)
        else do {
          (bs, f) \<leftarrow> file_read mem file (uint page_rd) (dfs.fsys (pfs s));
          let s = with_mem (put_bytes kpage bs) (with_fs f s);
          if int (length bs) \<noteq> uint page_rd then do { s \<leftarrow> proc_free_page kpage s; Some (False, s) }
          else do {
            let s = with_mem (\<lambda>m. Palloc.memset m (kpage + page_rd) 0 (unat page_zr)) s;
            (ok, s) \<leftarrow> install_page upage kpage writable s;
            if \<not> ok then do { s \<leftarrow> proc_free_page kpage s; Some (False, s) }
            else load_pages mem file (upage + of_nat PGSIZE) (rd - page_rd) (zr - page_zr) writable s } } })"

definition load_segment :: "bool \<Rightarrow> addr \<Rightarrow> int \<Rightarrow> u32 \<Rightarrow> u32 \<Rightarrow> u32 \<Rightarrow> bool \<Rightarrow> proc \<Rightarrow> (bool \<times> proc) option" where
  "load_segment mem file ofs upage rd zr writable s = do {
     kassert ((rd + zr) mod of_nat PGSIZE = 0);
     kassert (pg_ofs upage = 0);
     kassert (ofs mod int PGSIZE = 0);
     f \<leftarrow> file_seek file ofs (dfs.fsys (pfs s));
     load_pages mem file upage rd zr writable (with_fs f s) }"

definition setup_stack :: "proc \<Rightarrow> (u32 option \<times> proc) option" where
  "setup_stack s = do {
     (kpage, r) \<leftarrow> palloc_get_page (PAL_USER OR PAL_ZERO) (ram (pmm s));
     let s = s\<lparr>pmm := (pmm s)\<lparr>ram := r\<rparr>\<rparr>;
     if kpage \<noteq> 0
     then do {
       (ok, s) \<leftarrow> install_page (PHYS_BASE - of_nat PGSIZE) kpage True s;
       if ok then Some (Some PHYS_BASE, s)
       else do { s \<leftarrow> proc_free_page kpage s; Some (None, s) } }
     else Some (None, s) }"

section \<open>Programs\<close>

definition ROUND_UP :: "u32 \<Rightarrow> u32 \<Rightarrow> u32" where
  "ROUND_UP x step = (x + step - 1) div step * step"

text \<open>What \<^verbatim>\<open>elf_load\<close> computes for a segment: the offset in the file, the first page, and the bytes to read and to clear.\<close>

definition segment_args :: "elf32_phdr \<Rightarrow> u32 \<times> u32 \<times> u32 \<times> u32" where
  "segment_args phdr = (
     let file_page = p_offset phdr AND NOT PGMASK;
         mem_page = p_vaddr phdr AND NOT PGMASK;
         page_offset = p_vaddr phdr AND PGMASK in
     if p_filesz phdr > 0
     then let rd = page_offset + p_filesz phdr in
       (file_page, mem_page, rd, ROUND_UP (page_offset + p_memsz phdr) (of_nat PGSIZE) - rd)
     else (file_page, mem_page, 0, ROUND_UP (page_offset + p_memsz phdr) (of_nat PGSIZE)))"

text \<open>The loop over the \<open>n\<close> program headers that are left, from \<open>file_ofs\<close> on.\<close>

fun load_phdrs :: "bool \<Rightarrow> addr \<Rightarrow> nat \<Rightarrow> int \<Rightarrow> proc \<Rightarrow> (bool \<times> proc) option" where
  "load_phdrs mem file 0 file_ofs s = Some (True, s)"
| "load_phdrs mem file (Suc n) file_ofs s = do {
     len \<leftarrow> file_length file (dfs.fsys (pfs s));
     if file_ofs < 0 \<or> file_ofs > len then Some (False, s)
     else do {
       f \<leftarrow> file_seek file file_ofs (dfs.fsys (pfs s));
       (bs, f) \<leftarrow> file_read mem file (int sizeof_phdr) f;
       let s = with_fs f s;
       if length bs \<noteq> sizeof_phdr then Some (False, s)
       else do {
         let file_ofs = file_ofs + int sizeof_phdr;
         let phdr = decode_phdr bs;
         if p_type phdr = PT_DYNAMIC \<or> p_type phdr = PT_INTERP \<or> p_type phdr = PT_SHLIB then Some (False, s)
         else if p_type phdr = PT_LOAD then do {
           valid \<leftarrow> validate_segment phdr file (dfs.fsys (pfs s));
           if valid then do {
             let writable = (p_flags phdr AND PF_W \<noteq> 0);
             let (file_page, mem_page, rd, zr) = segment_args phdr;
             (ok, s) \<leftarrow> load_segment mem file (sint file_page) mem_page rd zr writable s;
             if \<not> ok then Some (False, s) else load_phdrs mem file n file_ofs s }
           else Some (False, s) }
         else load_phdrs mem file n file_ofs s } } }"

definition process_activate :: "proc \<Rightarrow> proc option" where
  "process_activate s = do { m \<leftarrow> pagedir_activate (ppd s) (pmm s); Some (s\<lparr>pmm := m\<rparr>) }"

text \<open>The result is the start address and the stack pointer.\<close>

definition elf_load :: "bool \<Rightarrow> dir_entry \<Rightarrow> byte list \<Rightarrow> proc \<Rightarrow> ((u32 \<times> u32) option \<times> proc) option" where
  "elf_load mem junk file_name s = do {
     (pd, m) \<leftarrow> pagedir_create (pmm s);
     let s = s\<lparr>pmm := m, ppd := pd\<rparr>;
     if ppd s = 0 then Some (None, s)
     else do {
       s \<leftarrow> process_activate s;
       (file, d) \<leftarrow> filesys_open mem junk file_name (pfs s);
       let s = s\<lparr>pfs := d\<rparr>;
       if file = NULL then Some (None, s)
       else do {
         (bs, f) \<leftarrow> file_read mem file (int sizeof_ehdr) (dfs.fsys (pfs s));
         let s = with_fs f s;
         if length bs \<noteq> sizeof_ehdr \<or> \<not> ehdr_ok (decode_ehdr bs) then Some (None, s)
         else do {
           let ehdr = decode_ehdr bs;
           (ok, s) \<leftarrow> load_phdrs mem file (unat (e_phnum ehdr)) (sint (e_phoff ehdr)) s;
           if \<not> ok then Some (None, s)
           else do {
             (esp, s) \<leftarrow> setup_stack s;
             case esp of None \<Rightarrow> Some (None, s)
             | Some esp \<Rightarrow> do {
                 f \<leftarrow> file_deny_write file (dfs.fsys (pfs s));
                 Some (Some (e_entry ehdr, esp), with_fs f s) } } } } } }"

definition process_exit :: "proc \<Rightarrow> proc option" where
  "process_exit s = (let pd = ppd s in
     if pd \<noteq> 0 then do {
       let s = s\<lparr>ppd := 0\<rparr>;
       m \<leftarrow> pagedir_activate 0 (pmm s);
       m \<leftarrow> pagedir_destroy pd m;
       Some (s\<lparr>pmm := m\<rparr>) }
     else Some s)"


section \<open>Valid segments\<close>

lemma unat_ROUND_UP:
  assumes "unat x + 4095 < 2 ^ 32"
  shows "unat (ROUND_UP x (of_nat PGSIZE)) = (unat x + 4095) div 4096 * 4096"
proof -
  have p: "(of_nat PGSIZE :: u32) = 4096" by (simp add: PGSIZE_def)
  have "x + of_nat PGSIZE - 1 = x + of_nat 4095" unfolding p by simp
  then have "unat (x + of_nat PGSIZE - 1) = unat x + 4095" using unat_add_of_nat [OF assms] by (simp only:)
  then have q: "unat ((x + of_nat PGSIZE - 1) div of_nat PGSIZE) = (unat x + 4095) div 4096"
    unfolding p by (simp only: unat_div) simp
  have le: "(unat x + 4095) div 4096 * 4096 \<le> unat x + 4095" by simp
  then have "(unat x + 4095) div 4096 * 4096 < 2 ^ 32" using assms by linarith
  then show ?thesis
    unfolding ROUND_UP_def using q by (simp add: unat_word_ariths p)
qed

text \<open>What is known of a segment that \<^verbatim>\<open>validate_segment\<close> accepts, in numbers.\<close>

lemma validatedD:
  assumes "validate_segment ph f s = Some True" "file_length f s = Some len" "0 \<le> len" "len < 2 ^ 31"
  shows "pg_ofs (p_offset ph) = pg_ofs (p_vaddr ph)" "unat (p_offset ph) \<le> nat len" "p_filesz ph \<le> p_memsz ph"
    "0 < unat (p_memsz ph)" "unat (p_vaddr ph + p_memsz ph) = unat (p_vaddr ph) + unat (p_memsz ph)"
    "unat (p_vaddr ph) + unat (p_memsz ph) < 0xC0000000" "4096 \<le> unat (p_vaddr ph)"
proof -
  have v: "pg_ofs (p_offset ph) = pg_ofs (p_vaddr ph)" "\<not> p_offset ph > word_of_int len" "\<not> p_memsz ph < p_filesz ph" "p_memsz ph \<noteq> 0"
    "is_user_vaddr (p_vaddr ph + p_memsz ph)" "\<not> p_vaddr ph + p_memsz ph < p_vaddr ph" "\<not> p_vaddr ph < of_nat PGSIZE"
    using assms(1,2) by (auto simp: validate_segment_def pg_ofs_def split: if_splits)
  show "pg_ofs (p_offset ph) = pg_ofs (p_vaddr ph)" by (rule v(1))
  show "p_filesz ph \<le> p_memsz ph" "0 < unat (p_memsz ph)" "4096 \<le> unat (p_vaddr ph)"
    using v(3,4,7) by (simp_all add: not_less unat_gt_0 PGSIZE_def word_le_nat_alt)
  have "unat (word_of_int len :: u32) = nat len" using assms(3,4) by (simp add: unsigned_of_int take_bit_int_eq_self)
  then show "unat (p_offset ph) \<le> nat len" using v(2) assms(3) by (simp add: not_less word_le_nat_alt)
  have nw: "unat (p_vaddr ph) \<le> unat (p_vaddr ph + p_memsz ph)" using v(6) by (simp add: not_less word_le_nat_alt)
  show e: "unat (p_vaddr ph + p_memsz ph) = unat (p_vaddr ph) + unat (p_memsz ph)"
    using nw u32_bound [of "p_vaddr ph"] u32_bound [of "p_memsz ph"] by (simp add: unat_plus_if' split: if_splits)
  show "unat (p_vaddr ph) + unat (p_memsz ph) < 0xC0000000"
    using v(5) e by (simp add: is_user_vaddr_def PHYS_BASE_def word_less_nat_alt)
qed


lemma mem_page_unat: "unat (a AND NOT PGMASK) = unat a div 4096 * 4096" "unat (a AND PGMASK) = unat a mod 4096"
  using unat_pg_round_down [of a] pg_ofs_mod [of a] by (simp_all add: pg_round_down_def pg_ofs_def)

lemma round_up_le: "x \<le> (x + 4095) div 4096 * (4096 :: nat)"
proof -
  have "(x + 4095) mod 4096 < (4096 :: nat)" by simp
  then show ?thesis using div_mult_mod_eq [of "x + 4095" 4096] by linarith
qed

lemma round_up_sum:
  fixes v m :: nat
  assumes "v + m < 4096 * k"
  shows "v div 4096 * 4096 + (v mod 4096 + m + 4095) div 4096 * 4096 \<le> 4096 * k"
    and "v + m \<le> v div 4096 * 4096 + (v mod 4096 + m + 4095) div 4096 * 4096"
proof -
  have v: "v = v div 4096 * 4096 + v mod 4096" by simp
  have "v mod 4096 + m < 4096 * (k - v div 4096)" using assms v by (simp add: diff_mult_distrib2 less_diff_conv)
  then have "(v mod 4096 + m + 4095) div 4096 < k - v div 4096 + 1" by (simp add: less_eq_div_iff_mult_less_eq div_less_iff_less_mult)
  moreover have "v div 4096 \<le> k" using assms v by linarith
  ultimately show "v div 4096 * 4096 + (v mod 4096 + m + 4095) div 4096 * 4096 \<le> 4096 * k" by linarith
  from round_up_le [of "v mod 4096 + m"] show "v + m \<le> v div 4096 * 4096 + (v mod 4096 + m + 4095) div 4096 * 4096" using v by linarith
qed

lemma segment_args_run:
  assumes "validate_segment ph f s = Some True" "file_length f s = Some len" "0 \<le> len" "len < 2 ^ 31"
    and "segment_args ph = (file_page, mem_page, rd, zr)"
  shows "unat rd + unat zr = (unat (p_vaddr ph) mod 4096 + unat (p_memsz ph) + 4095) div 4096 * 4096"
    "unat rd = (if p_filesz ph = 0 then 0 else unat (p_vaddr ph) mod 4096 + unat (p_filesz ph))"
    "unat mem_page = unat (p_vaddr ph) div 4096 * 4096" "unat file_page = unat (p_offset ph) div 4096 * 4096"
proof -
  note d = validatedD [OF assms(1-4)]
  let ?po = "p_vaddr ph AND PGMASK"
  have po: "unat ?po = unat (p_vaddr ph) mod 4096" by (rule mem_page_unat)
  have pom: "unat ?po + unat (p_memsz ph) < 0xC0000000" using d(6) unfolding po by (meson add_le_cancel_right le_less_trans mod_less_eq_dividend)
  have x: "unat (?po + p_memsz ph) = unat (p_vaddr ph) mod 4096 + unat (p_memsz ph)"
    using unat_plus_small [of ?po "p_memsz ph"] pom po by simp
  have r: "unat (ROUND_UP (?po + p_memsz ph) (of_nat PGSIZE)) = (unat (p_vaddr ph) mod 4096 + unat (p_memsz ph) + 4095) div 4096 * 4096"
    using unat_ROUND_UP [of "?po + p_memsz ph"] x pom po by simp
  have fs: "unat (p_filesz ph) \<le> unat (p_memsz ph)" using d(3) by (simp add: word_le_nat_alt)
  have rd: "unat (?po + p_filesz ph) = unat (p_vaddr ph) mod 4096 + unat (p_filesz ph)"
    using unat_plus_small [of ?po "p_filesz ph"] pom po fs by simp
  from round_up_le [of "unat (p_vaddr ph) mod 4096 + unat (p_memsz ph)"] have le: "?po + p_filesz ph \<le> ROUND_UP (?po + p_memsz ph) (of_nat PGSIZE)" using rd r fs by (simp add: word_le_nat_alt)
  show "unat mem_page = unat (p_vaddr ph) div 4096 * 4096" "unat file_page = unat (p_offset ph) div 4096 * 4096"
    "unat rd = (if p_filesz ph = 0 then 0 else unat (p_vaddr ph) mod 4096 + unat (p_filesz ph))"
    using assms(5) rd mem_page_unat by (auto simp: segment_args_def Let_def word_neq_0_conv split: if_splits)
  show "unat rd + unat zr = (unat (p_vaddr ph) mod 4096 + unat (p_memsz ph) + 4095) div 4096 * 4096"
    using assms(5) r le rd by (auto simp: segment_args_def Let_def unat_sub word_le_nat_alt split: if_splits)
qed

end
