(* ===== verification/ElfLoad.thy ===== *)
theory ElfLoad
  imports Elf
begin

text \<open>
  What the loader of theory Elf does to the address space: the bytes of a segment in the file become the bytes
  that the program sees, and \<^verbatim>\<open>process_exit\<close> gives an address space back.
\<close>

section \<open>The pools keep their place\<close>

definition pools_stay :: "mmu \<Rightarrow> mmu \<Rightarrow> bool" where
  "pools_stay m m' \<longleftrightarrow> init_ram_pages m' = init_ram_pages m \<and> init_page_dir m' = init_page_dir m \<and>
     (\<forall>v. pool_base (get_pool v (ram m')) = pool_base (get_pool v (ram m)) \<and>
       bit_cnt (used_map (get_pool v (ram m'))) = bit_cnt (used_map (get_pool v (ram m))))"

lemma pools_stay_refl [simp]: "pools_stay m m"
  by (simp add: pools_stay_def)

lemma pools_stay_trans: "pools_stay a b \<Longrightarrow> pools_stay b c \<Longrightarrow> pools_stay a c"
  by (simp add: pools_stay_def)

lemma elem_upd_cnt: "elem_upd b i f = Some b' \<Longrightarrow> bit_cnt b' = bit_cnt b"
  by (auto simp: elem_upd_def split: bind_splits if_splits)

lemma set_range_cnt: "set_range b i n v = Some b' \<Longrightarrow> bit_cnt b' = bit_cnt b"
proof (induction n arbitrary: b i)
  case (Suc n)
  then show ?case
    by (auto simp: bitmap_set_def bitmap_mark_def bitmap_reset_def kassert_bind_Some_iff dest: elem_upd_cnt split: bind_splits if_splits)
qed simp

lemma bitmap_set_multiple_cnt: "bitmap_set_multiple b i n v = Some b' \<Longrightarrow> bit_cnt b' = bit_cnt b"
  by (auto simp: bitmap_set_multiple_def kassert_bind_Some_iff dest: set_range_cnt)

lemma bitmap_scan_and_flip_cnt: "bitmap_scan_and_flip b i n v = Some (k, b') \<Longrightarrow> bit_cnt b' = bit_cnt b"
  by (auto simp: bitmap_scan_and_flip_def dest: bitmap_set_multiple_cnt split: bind_splits if_splits)

lemma palloc_get_stay:
  assumes "palloc_get_page flags (ram m) = Some (p, r)"
  shows "pools_stay m (m\<lparr>ram := r\<lparr>phys_mem := x\<rparr>\<rparr>)" "pools_stay m (m\<lparr>ram := r\<rparr>)"
  using assms
  by (auto simp: palloc_get_page_def palloc_get_multiple_def pools_stay_def Let_def kassert_bind_Some_iff
    split: bind_splits if_splits) (drule bitmap_scan_and_flip_cnt, simp)+

lemma free_page_stay: "free_page p m = Some m' \<Longrightarrow> pools_stay m m'"
  by (auto simp: free_page_def palloc_free_page_def palloc_free_multiple_def pools_stay_def Let_def kassert_bind_Some_iff
    dest: bitmap_set_multiple_cnt split: bind_splits if_splits)

lemma store_entry_stay [simp]: "pools_stay m (store_entry a e m') = pools_stay m m'"
  by (simp add: pools_stay_def store_entry_def)

lemma lookup_page_stay: "lookup_page pd v c m = Some (x, m') \<Longrightarrow> pools_stay m m'"
  by (auto simp: lookup_page_def Let_def kassert_bind_Some_iff dest!: palloc_get_stay(2) split: bind_splits if_splits)

lemma set_page_stay: "pagedir_set_page pd u k w m = Some (ok, m') \<Longrightarrow> pools_stay m m'"
  by (auto simp: pagedir_set_page_def Let_def kassert_bind_Some_iff dest!: lookup_page_stay split: bind_splits if_splits)

section \<open>Well-formed processes\<close>

definition proc_ok :: "u32 set \<Rightarrow> proc \<Rightarrow> bool" where
  "proc_ok R s \<longleftrightarrow> dirs_ok R (pmm s) \<and> tlb_ok R (pmm s) \<and>
     unat PHYS_BASE \<le> unat (pool_base (get_pool True (ram (pmm s)))) \<and>
     unat (pool_base (get_pool True (ram (pmm s)))) + 4096 * bit_cnt (used_map (get_pool True (ram (pmm s)))) \<le>
       unat PHYS_BASE + 4096 * unat (init_ram_pages (pmm s))"

lemma proc_okI:
  assumes "proc_ok R s" "dirs_ok R (pmm s')" "tlb_ok R (pmm s')" "pools_stay (pmm s) (pmm s')"
  shows "proc_ok R s'"
  using assms by (simp add: proc_ok_def pools_stay_def)

lemma proc_page:
  assumes "proc_ok R s" "used_page True (pmm s) p"
  shows "pg_ofs p = 0" "p \<noteq> 0" "PHYS_BASE \<le> p" "drop_bit PTSHIFT (p - PHYS_BASE) < init_ram_pages (pmm s)"
proof -
  let ?pool = "get_pool True (ram (pmm s))"
  have ph: "phys_ok (ram (pmm s))" using assms(1) dirs_okD(1) by (auto simp: proc_ok_def)
  obtain k where k: "k < bit_cnt (used_map ?pool)" "p = page_addr ?pool k" using assms(2) by (auto simp: used_page_def page_used_def)
  have u: "unat p = unat (pool_base ?pool) + 4096 * k"
    using unat_page_addr [OF phys_ok_pool [OF ph] less_imp_le [OF k(1)]] k(2) by (simp add: PGSIZE_def)
  note d = page_usedD [OF ph assms(2) [unfolded used_page_def]]
  show "pg_ofs p = 0" "p \<noteq> 0" using d(1,2) .
  have b: "unat PHYS_BASE \<le> unat (pool_base ?pool)" "unat (pool_base ?pool) + 4096 * bit_cnt (used_map ?pool) \<le>
     unat PHYS_BASE + 4096 * unat (init_ram_pages (pmm s))" using assms(1) by (simp_all add: proc_ok_def)
  show ge: "PHYS_BASE \<le> p" unfolding word_le_nat_alt using u b(1) by linarith
  have "unat (p - PHYS_BASE) = unat p - unat PHYS_BASE" using ge by (simp add: unat_sub)
  moreover have "unat p - unat PHYS_BASE < unat (init_ram_pages (pmm s)) * 4096" using u b k(1) by linarith
  ultimately have "unat (p - PHYS_BASE) div 4096 < unat (init_ram_pages (pmm s))" by (simp add: div_less_iff_less_mult)
  moreover have "unat (drop_bit 12 (p - PHYS_BASE)) = unat (p - PHYS_BASE) div 4096"
    using u32_bound [of "p - PHYS_BASE"] by (simp only: unsigned_drop_bit_eq) (simp add: drop_bit_eq_div take_bit_nat_eq_self)
  ultimately show "drop_bit PTSHIFT (p - PHYS_BASE) < init_ram_pages (pmm s)" by (simp add: PTSHIFT_def word_less_nat_alt)
qed


section \<open>One page\<close>

abbreviation pmem :: "proc \<Rightarrow> u32 \<Rightarrow> byte" where
  "pmem s \<equiv> phys_mem (ram (pmm s))"

text \<open>\<open>kept R A s s'\<close>: between the two states no user page loses its bytes, and no translation changes but those of
  the addresses \<open>A\<close> in the directory of the process.\<close>

definition kept :: "u32 set \<Rightarrow> u32 set \<Rightarrow> proc \<Rightarrow> proc \<Rightarrow> bool" where
  "kept R A s s' \<longleftrightarrow> proc_ok R s' \<and> ppd s' = ppd s \<and> init_page_dir (pmm s') = init_page_dir (pmm s) \<and>
     (\<forall>q. used_page True (pmm s) q \<longrightarrow> used_page True (pmm s') q) \<and>
     (\<forall>q k. used_page True (pmm s) q \<and> unat k < 4096 \<longrightarrow> pmem s' (q + k) = pmem s (q + k)) \<and>
     (\<forall>q \<in> R. \<forall>v. is_user_vaddr v \<and> \<not> (q = ppd s \<and> v \<in> A) \<longrightarrow> user_pte (pmm s') q v = user_pte (pmm s) q v)"

lemma kept_refl: "proc_ok R s \<Longrightarrow> kept R A s s"
  by (simp add: kept_def)

lemma kept_trans: "kept R A a b \<Longrightarrow> kept R B b c \<Longrightarrow> kept R (A \<union> B) a c"
  by (simp add: kept_def)

lemma kept_mono: "kept R A a b \<Longrightarrow> A \<subseteq> B \<Longrightarrow> kept R B a b"
  unfolding kept_def by blast

lemma keptD:
  assumes "kept R A s s'"
  shows "proc_ok R s'" "ppd s' = ppd s" "init_page_dir (pmm s') = init_page_dir (pmm s)"
    "used_page True (pmm s) q \<Longrightarrow> used_page True (pmm s') q"
    "used_page True (pmm s) q \<Longrightarrow> unat k < 4096 \<Longrightarrow> pmem s' (q + k) = pmem s (q + k)"
    "q \<in> R \<Longrightarrow> is_user_vaddr v \<Longrightarrow> q \<noteq> ppd s \<or> v \<notin> A \<Longrightarrow> user_pte (pmm s') q v = user_pte (pmm s) q v"
  using assms unfolding kept_def by blast+

lemma proc_okD:
  assumes "proc_ok R s"
  shows "dirs_ok R (pmm s)" "tlb_ok R (pmm s)"
  using assms by (simp_all add: proc_ok_def)

lemma with_fs_simps [simp]:
  "pmm (with_fs f s) = pmm s" "ppd (with_fs f s) = ppd s" "dfs.fsys (pfs (with_fs f s)) = f" "pfs (with_mem g s) = pfs s" "ppd (with_mem g s) = ppd s"
  by (simp_all add: with_fs_def with_mem_def)

lemma kept_with_fs [simp]: "kept R A (with_fs f s) s' = kept R A s s'" "kept R A s (with_fs f s') = kept R A s s'"
  by (simp_all add: kept_def proc_ok_def)

text \<open>Obtaining a page, writing to it, mapping it and giving it back.\<close>

lemma get_page_kept:
  assumes ok: "proc_ok R s" and run: "palloc_get_page PAL_USER (ram (pmm s)) = Some (p, r)"
  defines "s1 \<equiv> s\<lparr>pmm := (pmm s)\<lparr>ram := r\<rparr>\<rparr>"
  shows "kept R {} s s1" "p \<noteq> 0 \<Longrightarrow> used_page True (pmm s1) p" "p \<noteq> 0 \<Longrightarrow> \<not> used_page True (pmm s) p"
proof -
  have fl: "PAL_USER AND PAL_ASSERT = 0" "PAL_USER AND PAL_ZERO = 0" "PAL_USER AND PAL_USER \<noteq> 0"
    by (simp_all add: PAL_USER_def PAL_ASSERT_def PAL_ZERO_def)
  note u = palloc_user [OF proc_okD [OF ok] fl run]
  show "p \<noteq> 0 \<Longrightarrow> used_page True (pmm s1) p" "p \<noteq> 0 \<Longrightarrow> \<not> used_page True (pmm s) p" using u by (simp_all add: s1_def)
  have "same_dirs R (pmm s) (pmm s1)" using u by (simp add: s1_def)
  moreover from this have "proc_ok R s1" using proc_okI [OF ok, of s1] palloc_get_stay(2) [OF run] by (simp add: s1_def same_dirs_def)
  ultimately show "kept R {} s s1" using u by (simp add: kept_def s1_def same_dirs_def)
qed

lemma with_mem_kept:
  assumes ok: "proc_ok R s" and p: "used_page True (pmm s) p" and g: "\<And>a. g (pmem s) a \<noteq> pmem s a \<Longrightarrow> unat (a - p) < 4096"
  shows "proc_ok R (with_mem g s)" "same_dirs R (pmm s) (pmm (with_mem g s))" "used_page True (pmm (with_mem g s)) = used_page True (pmm s)"
    "pmem (with_mem g s) = g (pmem s)" "init_page_dir (pmm (with_mem g s)) = init_page_dir (pmm s)"
    "used_page True (pmm s) q \<Longrightarrow> q \<noteq> p \<Longrightarrow> unat k < 4096 \<Longrightarrow> pmem (with_mem g s) (q + k) = pmem s (q + k)"
proof -
  note w = write_user [OF proc_okD [OF ok] p, of "g (pmem s)", OF g]
  have e: "pmm (with_mem g s) = (pmm s)\<lparr>ram := (ram (pmm s))\<lparr>phys_mem := g (pmem s)\<rparr>\<rparr>" by (simp add: with_mem_def)
  show sd: "same_dirs R (pmm s) (pmm (with_mem g s))" unfolding e by (rule w(1))
  have "pools_stay (pmm s) (pmm (with_mem g s))" by (simp add: e pools_stay_def)
  then show "proc_ok R (with_mem g s)" using proc_okI [OF ok] sd by (simp add: same_dirs_def)
  show "used_page True (pmm (with_mem g s)) = used_page True (pmm s)" by (rule ext) (simp add: e used_page_def page_used_def)
  show "used_page True (pmm s) q \<Longrightarrow> q \<noteq> p \<Longrightarrow> unat k < 4096 \<Longrightarrow> pmem (with_mem g s) (q + k) = pmem s (q + k)" using w(2) by (simp add: e)
  show "pmem (with_mem g s) = g (pmem s)" "init_page_dir (pmm (with_mem g s)) = init_page_dir (pmm s)" by (simp_all add: e)
qed

lemma install_page_run:
  assumes ok: "proc_ok R s" and pd: "ppd s \<in> R" "ppd s \<noteq> init_page_dir (pmm s)" and u: "is_user_vaddr u" "pg_ofs u = 0"
    and p: "used_page True (pmm s) p" and absent: "user_pte (pmm s) (ppd s) u AND PTE_P = 0"
  shows "\<exists>ok s'. install_page u p w s = Some (ok, s') \<and> pfs s' = pfs s \<and> used_page True (pmm s') = used_page True (pmm s) \<and>
    kept R (if ok then {v. pg_round_down v = u} else {}) s s' \<and>
    (ok \<longrightarrow> (\<forall>v. is_user_vaddr v \<and> pg_round_down v = u \<longrightarrow> pagedir_get_page (ppd s) v (pmm s') = Some (p + pg_ofs v)))"
proof -
  note d = proc_okD [OF ok] and a = proc_page [OF ok p]
  have "pagedir_get_page (ppd s) u (pmm s) = Some 0" using get_page_eq [OF d(1) pd(1) u(1)] absent by simp
  moreover obtain ok e m where m: "pagedir_set_page (ppd s) u p w (pmm s) = Some (ok, m)" "dirs_ok R m" "m = (pmm s)\<lparr>ram := ram m\<rparr>"
    "e AND PTE_P \<noteq> 0" "(e AND PTE_ADDR) + PHYS_BASE = p"
    "\<forall>q \<in> R. \<forall>v. is_user_vaddr v \<longrightarrow> user_pte m q v = (if ok \<and> q = ppd s \<and> pg_round_down v = u then e else user_pte (pmm s) q v)"
    using set_page_eq [OF d(1) pd u a(1,3,4) absent, of w] by (elim exE conjE) (rule that)
  ultimately have run: "install_page u p w s = Some (ok, s\<lparr>pmm := m\<rparr>)" by (simp add: install_page_def)
  have k: "keeps_user (pmm s) m" using set_page_keeps [OF d(1) pd u m(1)] by simp
  have t: "tlb_ok R m" by (rule set_page_tlb [OF d pd(1) absent u m(3,6)])
  have "proc_ok R (s\<lparr>pmm := m\<rparr>)" using proc_okI [OF ok, of "s\<lparr>pmm := m\<rparr>"] m(2) t set_page_stay [OF m(1)] by simp
  then have "kept R (if ok then {v. pg_round_down v = u} else {}) s (s\<lparr>pmm := m\<rparr>)"
    using k m(6) by (auto simp: kept_def keeps_user_def)
  moreover have "pagedir_get_page (ppd s) v m = Some (p + pg_ofs v)" if "ok" "is_user_vaddr v" "pg_round_down v = u" for v
    using get_page_eq [OF m(2) pd(1) that(2)] m(4,5,6) pd(1) that by simp
  ultimately show ?thesis using run k by (intro exI [of _ ok] exI [of _ "s\<lparr>pmm := m\<rparr>"]) (auto simp: keeps_user_def)
qed

lemma free_page_run:
  assumes ok: "proc_ok R s" and p: "used_page True (pmm s) p"
  shows "\<exists>s'. proc_free_page p s = Some s' \<and> proc_ok R s' \<and> ppd s' = ppd s \<and> pfs s' = pfs s \<and> init_page_dir (pmm s') = init_page_dir (pmm s) \<and>
    (\<forall>q. used_page True (pmm s) q \<and> q \<noteq> p \<longrightarrow> used_page True (pmm s') q) \<and>
    (\<forall>q k. used_page True (pmm s) q \<and> q \<noteq> p \<and> unat k < 4096 \<longrightarrow> pmem s' (q + k) = pmem s (q + k)) \<and>
    (\<forall>q \<in> R. \<forall>v. is_user_vaddr v \<longrightarrow> user_pte (pmm s') q v = user_pte (pmm s) q v)"
proof -
  obtain m where m: "free_page p (pmm s) = Some m" "same_dirs R (pmm s) m" "m = (pmm s)\<lparr>ram := ram m\<rparr>"
    "\<forall>q. used_page True m q \<longleftrightarrow> used_page True (pmm s) q \<and> q \<noteq> p"
    "\<forall>q k. used_page True (pmm s) q \<and> q \<noteq> p \<and> unat k < 4096 \<longrightarrow> phys_mem (ram m) (q + k) = pmem s (q + k)"
    using free_user [OF proc_okD [OF ok] p] by (elim exE conjE) (rule that)
  have "proc_ok R (s\<lparr>pmm := m\<rparr>)" using proc_okI [OF ok, of "s\<lparr>pmm := m\<rparr>"] m(2) free_page_stay [OF m(1)] by (simp add: same_dirs_def)
  moreover have "init_page_dir m = init_page_dir (pmm s)" by (subst m(3)) simp
  ultimately show ?thesis using m(1,2,4,5) by (intro exI [of _ "s\<lparr>pmm := m\<rparr>"]) (simp add: proc_free_page_def same_dirs_def)
qed


section \<open>Reading the file\<close>

definition readable :: "addr \<Rightarrow> fs \<Rightarrow> nat \<Rightarrow> byte list \<Rightarrow> bool" where
  "readable file s n cs \<longleftrightarrow> file \<noteq> NULL \<and> file_inode (files s file) \<notin> freed s \<and> file_ok s (data (inodes s (file_inode (files s file)))) \<and>
     contents s (data (inodes s (file_inode (files s file)))) = cs \<and> pos (files s file) = int n"

lemma upd_file_readable:
  assumes "readable file s n cs"
  shows "readable file (upd_file file (\<lambda>x. x\<lparr>pos := int k\<rparr>) s) k cs"
  using assms same_disk(3,4) [of "upd_file file (\<lambda>x. x\<lparr>pos := int k\<rparr>) s" s]
  by (simp add: readable_def) (simp add: upd_file_def)

lemma file_read_readable:
  assumes "readable file s n cs"
  shows "\<exists>s'. file_read True file (int k) s = Some (take k (drop n cs), s') \<and> readable file s' (n + length (take k (drop n cs))) cs"
proof -
  let ?i = "file_inode (files s file)"
  have r: "?i \<notin> freed s" "file_ok s (data (inodes s ?i))" "contents s (data (inodes s ?i)) = cs" "pos (files s file) = int n"
    using assms by (simp_all add: readable_def)
  have "inode_read_at True ?i (int k) (int n) s = Some (take k (drop n cs))"
  proof (cases "k = 0")
    case False
    then show ?thesis using inode_read_contents [OF r(2,1), of "int n" "int k"] r(3) by simp
  qed (simp add: inode_read_at_def)
  moreover have "upd_file file (\<lambda>x. x\<lparr>pos := pos x + int (length (take k (drop n cs)))\<rparr>) s =
      upd_file file (\<lambda>x. x\<lparr>pos := int (n + length (take k (drop n cs)))\<rparr>) s"
    using r(4) by (simp add: upd_file_def)
  ultimately have "file_read True file (int k) s =
      Some (take k (drop n cs), upd_file file (\<lambda>x. x\<lparr>pos := int (n + length (take k (drop n cs)))\<rparr>) s)"
    using r(4) by (simp only: file_read_def) simp
  then show ?thesis using upd_file_readable [OF assms, of "n + length (take k (drop n cs))"] by blast
qed

section \<open>One round of the loop\<close>

text \<open>The contents of a page of which \<open>bs\<close> is read and the rest cleared.\<close>

lemma page_contents:
  assumes "length bs = k" "k \<le> 4096"
  shows "bytes_at p 4096 (Palloc.memset (put_bytes p bs m) (p + of_nat k) 0 (4096 - k)) = bs @ replicate (4096 - k) 0"
proof (rule nth_equalityI)
  fix j assume "j < length (bytes_at p 4096 (Palloc.memset (put_bytes p bs m) (p + of_nat k) 0 (4096 - k)))"
  then have j: "j < 4096" by (simp add: bytes_at_def)
  show "bytes_at p 4096 (Palloc.memset (put_bytes p bs m) (p + of_nat k) 0 (4096 - k)) ! j = (bs @ replicate (4096 - k) 0) ! j"
  proof (cases "j < k")
    case True
    have "unat (of_nat j - of_nat k :: u32) = 2 ^ 32 + j - k"
      using True assms(2) j by (simp add: unat_sub_if_size word_size unat_of_nat take_bit_nat_eq_self)
    moreover have "\<not> (2 ^ 32 + j - k :: nat) < 4096 - k" using assms(2) by simp
    ultimately show ?thesis using True j assms by (simp add: bytes_at_def Palloc.memset_def put_bytes_def unat_of_nat take_bit_nat_eq_self nth_append)
  next
    case False
    have "(of_nat j - of_nat k :: u32) = of_nat (j - k)" using False by (simp add: of_nat_diff)
    then have "unat (of_nat j - of_nat k :: u32) = j - k" using j by (simp only: unat_of_nat) (simp add: take_bit_nat_eq_self)
    moreover have "j - k < 4096 - k" using False j by linarith
    ultimately show ?thesis using False j assms by (simp add: bytes_at_def Palloc.memset_def unat_of_nat take_bit_nat_eq_self nth_append)
  qed
qed (use assms in \<open>simp add: bytes_at_def\<close>)

lemma fill_page:
  assumes ok: "proc_ok R s" and p: "used_page True (pmm s) p" and k: "length bs \<le> k" "k \<le> 4096"
  shows "\<exists>s'. s' = with_mem (\<lambda>m. Palloc.memset m (p + of_nat k) 0 (4096 - k)) (with_mem (put_bytes p bs) s) \<and>
    proc_ok R s' \<and> same_dirs R (pmm s) (pmm s') \<and> used_page True (pmm s') = used_page True (pmm s) \<and>
    init_page_dir (pmm s') = init_page_dir (pmm s) \<and>
    (\<forall>q k. used_page True (pmm s) q \<and> q \<noteq> p \<and> unat k < 4096 \<longrightarrow> pmem s' (q + k) = pmem s (q + k)) \<and>
    (length bs = k \<longrightarrow> bytes_at p 4096 (pmem s') = bs @ replicate (4096 - k) 0)"
proof -
  let ?s1 = "with_mem (put_bytes p bs) s" and ?s2 = "with_mem (\<lambda>m. Palloc.memset m (p + of_nat k) 0 (4096 - k)) (with_mem (put_bytes p bs) s)"
  have g1: "put_bytes p bs (pmem s) a \<noteq> pmem s a \<Longrightarrow> unat (a - p) < 4096" for a
    using k by (simp add: put_bytes_def split: if_splits)
  note w1 = with_mem_kept [OF ok p, of "put_bytes p bs", OF g1]
  have p1: "used_page True (pmm ?s1) p" "proc_ok R ?s1" "same_dirs R (pmm s) (pmm ?s1)" using w1(1-3) p by simp_all
  have g2: "Palloc.memset (pmem ?s1) (p + of_nat k) 0 (4096 - k) a \<noteq> pmem ?s1 a \<Longrightarrow> unat (a - p) < 4096" for a
  proof -
    assume "Palloc.memset (pmem ?s1) (p + of_nat k) 0 (4096 - k) a \<noteq> pmem ?s1 a"
    then have l: "unat (a - (p + of_nat k)) < 4096 - k" by (simp add: Palloc.memset_def split: if_splits)
    have "a - p = a - (p + of_nat k) + of_nat k" by simp
    then have "unat (a - p) = unat (a - (p + of_nat k)) + k" using unat_add_of_nat [of "a - (p + of_nat k)" k] l by simp
    then show "unat (a - p) < 4096" using l by simp
  qed
  note w2 = with_mem_kept [OF p1(2,1), of "\<lambda>m. Palloc.memset m (p + of_nat k) 0 (4096 - k)", OF g2]
  have "same_dirs R (pmm s) (pmm ?s2)" using same_dirs_trans [OF p1(3)] w2(2) by simp
  moreover have "bytes_at p 4096 (pmem ?s2) = bs @ replicate (4096 - k) 0" if "length bs = k"
    using page_contents [OF that k(2)] w1(4) w2(4) by simp
  ultimately show ?thesis using w1 w2 by (intro exI [of _ ?s2]) simp
qed


section \<open>The loop\<close>

text \<open>The pages from \<open>u\<close> on as they are mapped after loading: \<open>image\<close> are their bytes.\<close>

definition pages_loaded :: "u32 \<Rightarrow> nat \<Rightarrow> byte list \<Rightarrow> proc \<Rightarrow> bool" where
  "pages_loaded u n img s \<longleftrightarrow> (\<forall>i < n. \<exists>p. used_page True (pmm s) p \<and>
     (\<forall>v. is_user_vaddr v \<and> pg_round_down v = u + of_nat (4096 * i) \<longrightarrow> pagedir_get_page (ppd s) v (pmm s) = Some (p + pg_ofs v)) \<and>
     bytes_at p 4096 (pmem s) = take 4096 (drop (4096 * i) img))"

definition page_range :: "u32 \<Rightarrow> nat \<Rightarrow> u32 set" where
  "page_range u n = {v. \<exists>i < n. pg_round_down v = u + of_nat (4096 * i)}"

text \<open>One round: the page is obtained, filled and mapped, or given back.\<close>

lemma load_round:
  assumes ok: "proc_ok R s" and pd: "ppd s \<in> R" "ppd s \<noteq> init_page_dir (pmm s)" and u: "is_user_vaddr u" "pg_ofs u = 0"
    and absent: "user_pte (pmm s) (ppd s) u AND PTE_P = 0" and rdb: "readable file (dfs.fsys (pfs s)) n cs"
    and k: "unat page_rd = k" "k \<le> 4096" "page_rd = (if rd < of_nat PGSIZE then rd else of_nat PGSIZE)" and nz: "rd > 0 \<or> zr > 0"
  shows "(\<exists>s'. load_pages True file u rd zr w s = Some (False, s') \<and> kept R {} s s') \<or>
    (\<exists>s' p. load_pages True file u rd zr w s = load_pages True file (u + of_nat PGSIZE) (rd - page_rd) (zr - (of_nat PGSIZE - page_rd)) w s' \<and>
       kept R {v. pg_round_down v = u} s s' \<and> (k = 0 \<or> n + k \<le> length cs) \<and> readable file (dfs.fsys (pfs s')) (n + k) cs \<and> used_page True (pmm s') p \<and>
       (\<forall>v. is_user_vaddr v \<and> pg_round_down v = u \<longrightarrow> pagedir_get_page (ppd s') v (pmm s') = Some (p + pg_ofs v)) \<and>
       bytes_at p 4096 (pmem s') = take k (drop n cs) @ replicate (4096 - k) 0)"
proof -
  have pr: "page_rd = of_nat k" "uint page_rd = int k" "unat (of_nat PGSIZE - page_rd) = 4096 - k"
    using k(1,2) unat_sub_of_nat [of k "of_nat PGSIZE"] by (auto simp: PGSIZE_def)
  have ph: "phys_ok (ram (pmm s))" using dirs_okD(1) [OF proc_okD(1) [OF ok]] .
  have "\<exists>p r. palloc_get_page PAL_USER (ram (pmm s)) = Some (p, r)"
    by (rule palloc_get_pages [OF ph zero_less_one _ refl, of PAL_USER]) (simp_all add: palloc_get_page_def PAL_USER_def PAL_ASSERT_def)
  then obtain p r where g: "palloc_get_page PAL_USER (ram (pmm s)) = Some (p, r)" by blast
  define s1 where "s1 = s\<lparr>pmm := (pmm s)\<lparr>ram := r\<rparr>\<rparr>"
  note s1 = get_page_kept [OF ok g, folded s1_def]
  show ?thesis
  proof (cases "p = 0")
    case True
    then have "load_pages True file u rd zr w s = Some (False, s1)"
      using g nz by (subst load_pages.simps) (simp add: s1_def)
    then show ?thesis using s1(1) by blast
  next
    case False
    define bs where "bs = take k (drop n cs)"
    obtain f where f: "file_read True file (int k) (dfs.fsys (pfs s)) = Some (bs, f)" "readable file f (n + length bs) cs"
      using file_read_readable [OF rdb, of k] unfolding bs_def by blast
    define s2 where "s2 = with_fs f s1"
    have ok2: "proc_ok R s2" "used_page True (pmm s2) p" using keptD(1) [OF s1(1)] s1(2) False by (simp_all add: s2_def proc_ok_def)
    have k2: "kept R {} s s2" using s1(1) by (simp add: s2_def)
    have pfs1: "pfs s1 = pfs s" by (simp add: s1_def)
    have lb: "length bs \<le> k" by (simp add: bs_def)
    have fresh: "q \<noteq> p" if "used_page True (pmm s) q" for q using s1(3) False that by blast
    show ?thesis
    proof (cases "length bs = k")
      case short: False
      have ch: "put_bytes p bs (pmem s2) a \<noteq> pmem s2 a \<Longrightarrow> unat (a - p) < 4096" for a
        using lb k(2) by (simp add: put_bytes_def split: if_splits)
      note w = with_mem_kept [OF ok2, of "put_bytes p bs", OF ch]
      have w1: "proc_ok R (with_mem (put_bytes p bs) s2)" "used_page True (pmm (with_mem (put_bytes p bs) s2)) p" using w(1,3) ok2 by simp_all
      obtain s3 where s3: "proc_free_page p (with_mem (put_bytes p bs) s2) = Some s3" "proc_ok R s3" "ppd s3 = ppd s2"
        "init_page_dir (pmm s3) = init_page_dir (pmm s2)" "\<forall>q. used_page True (pmm s2) q \<and> q \<noteq> p \<longrightarrow> used_page True (pmm s3) q"
        "\<forall>q k. used_page True (pmm s2) q \<and> q \<noteq> p \<and> unat k < 4096 \<longrightarrow> pmem s3 (q + k) = pmem s2 (q + k)"
        "\<forall>q \<in> R. \<forall>v. is_user_vaddr v \<longrightarrow> user_pte (pmm s3) q v = user_pte (pmm s2) q v"
        using free_page_run [OF w1] w by (elim exE conjE) (simp add: same_dirs_def)
      have "load_pages True file u rd zr w s = Some (False, s3)"
        using g nz False f(1) short s3(1) pr(2) k(3) by (subst load_pages.simps) (simp add: s1_def [symmetric] pfs1 s2_def)
      moreover have "kept R {} s s3" using k2 s3 fresh unfolding kept_def by auto
      ultimately show ?thesis by blast
    next
      case lk: True
      have nk: "n + k \<le> length cs \<or> k = 0" using lk by (auto simp: bs_def)
      let ?s3 = "with_mem (\<lambda>m. Palloc.memset m (p + of_nat k) 0 (4096 - k)) (with_mem (put_bytes p bs) s2)"
      have s3: "proc_ok R ?s3" "same_dirs R (pmm s2) (pmm ?s3)" "used_page True (pmm ?s3) = used_page True (pmm s2)"
        "init_page_dir (pmm ?s3) = init_page_dir (pmm s2)"
        "\<forall>q k. used_page True (pmm s2) q \<and> q \<noteq> p \<and> unat k < 4096 \<longrightarrow> pmem ?s3 (q + k) = pmem s2 (q + k)"
        "bytes_at p 4096 (pmem ?s3) = bs @ replicate (4096 - k) 0"
        using fill_page [OF ok2 lb k(2)] lk by simp_all
      have p3: "ppd ?s3 = ppd s" "pfs ?s3 = pfs s2" "used_page True (pmm ?s3) p" using s3(3) ok2(2) by (simp_all add: s2_def s1_def)
      have k3: "kept R {} s ?s3" using k2 s3 p3(1) fresh unfolding kept_def same_dirs_def by auto
      have a3: "user_pte (pmm ?s3) (ppd ?s3) u AND PTE_P = 0" using keptD(6) [OF k3 pd(1) u(1)] absent p3(1) by simp
      have pd3: "ppd ?s3 \<in> R" "ppd ?s3 \<noteq> init_page_dir (pmm ?s3)" using pd p3(1) keptD(3) [OF k3] by simp_all
      obtain ok' s4 where s4: "install_page u p w ?s3 = Some (ok', s4)" "pfs s4 = pfs ?s3" "used_page True (pmm s4) = used_page True (pmm ?s3)"
        "kept R (if ok' then {v. pg_round_down v = u} else {}) ?s3 s4"
        "ok' \<longrightarrow> (\<forall>v. is_user_vaddr v \<and> pg_round_down v = u \<longrightarrow> pagedir_get_page (ppd ?s3) v (pmm s4) = Some (p + pg_ofs v))"
        using install_page_run [OF s3(1) pd3 u p3(3) a3, of w] by (elim exE conjE) (rule that)
      have k4: "kept R (if ok' then {v. pg_round_down v = u} else {}) s s4" using kept_trans [OF k3 s4(4)] by simp
      have step: "load_pages True file u rd zr w s =
          (if \<not> ok' then do { s \<leftarrow> proc_free_page p s4; Some (False, s) }
           else load_pages True file (u + of_nat PGSIZE) (rd - page_rd) (zr - (of_nat PGSIZE - page_rd)) w s4)"
        using g nz False f(1) lk pr s4(1) k(3)
        by (subst load_pages.simps) (simp add: s1_def [symmetric] pfs1 s2_def Let_def)
      show ?thesis
      proof (cases ok')
        case False
        have p4: "used_page True (pmm s4) p" using s4(3) p3(3) by simp
        obtain s5 where s5: "proc_free_page p s4 = Some s5" "proc_ok R s5" "ppd s5 = ppd s4"
          "init_page_dir (pmm s5) = init_page_dir (pmm s4)" "\<forall>q. used_page True (pmm s4) q \<and> q \<noteq> p \<longrightarrow> used_page True (pmm s5) q"
          "\<forall>q k. used_page True (pmm s4) q \<and> q \<noteq> p \<and> unat k < 4096 \<longrightarrow> pmem s5 (q + k) = pmem s4 (q + k)"
          "\<forall>q \<in> R. \<forall>v. is_user_vaddr v \<longrightarrow> user_pte (pmm s5) q v = user_pte (pmm s4) q v"
          using free_page_run [OF keptD(1) [OF k4] p4] by (elim exE conjE) (rule that)
        have "kept R {} s s5" using k4 s5 fresh False unfolding kept_def by auto
        then show ?thesis using step s5(1) False by simp
      next
        case True
        have "bytes_at p 4096 (pmem s4) = bytes_at p 4096 (pmem ?s3)"
          by (rule bytes_at_cong) (use keptD(5) [OF s4(4) p3(3)] in simp_all)
        then have "bytes_at p 4096 (pmem s4) = take k (drop n cs) @ replicate (4096 - k) 0" using s3(6) by (simp add: bs_def)
        moreover have "readable file (dfs.fsys (pfs s4)) (n + k) cs" using f(2) lk s4(2) by (simp add: s2_def)
        moreover have "used_page True (pmm s4) p" using s4(3) p3(3) by simp
        moreover have "ppd s4 = ppd ?s3" using keptD(2) [OF s4(4)] .
        ultimately show ?thesis using step True k4 nk s4(5) by (intro disjI2 exI [of _ s4] exI [of _ p]) auto
      qed
    qed
  qed
qed


lemma page_range_Suc: "page_range u (Suc n) = {v. pg_round_down v = u} \<union> page_range (u + of_nat PGSIZE) n"
proof (rule set_eqI)
  fix v
  have "(\<exists>i < Suc n. pg_round_down v = u + of_nat (4096 * i)) \<longleftrightarrow>
      pg_round_down v = u + of_nat (4096 * 0) \<or> (\<exists>i < n. pg_round_down v = u + of_nat (4096 * Suc i))"
    by (metis less_Suc_eq_0_disj)
  then show "v \<in> page_range u (Suc n) \<longleftrightarrow> v \<in> {v. pg_round_down v = u} \<union> page_range (u + of_nat PGSIZE) n"
    by (simp add: page_range_def PGSIZE_def add.assoc)
qed

lemma pages_loaded_Suc:
  assumes "pages_loaded (u + of_nat PGSIZE) n (drop 4096 img) s" and "used_page True (pmm s) p"
    and "\<forall>v. is_user_vaddr v \<and> pg_round_down v = u \<longrightarrow> pagedir_get_page (ppd s) v (pmm s) = Some (p + pg_ofs v)"
    and "bytes_at p 4096 (pmem s) = take 4096 img"
  shows "pages_loaded u (Suc n) img s"
  unfolding pages_loaded_def
proof (intro allI impI)
  fix i assume i: "i < Suc n"
  show "\<exists>p. used_page True (pmm s) p \<and>
     (\<forall>v. is_user_vaddr v \<and> pg_round_down v = u + of_nat (4096 * i) \<longrightarrow> pagedir_get_page (ppd s) v (pmm s) = Some (p + pg_ofs v)) \<and>
     bytes_at p 4096 (pmem s) = take 4096 (drop (4096 * i) img)"
  proof (cases i)
    case 0
    then show ?thesis using assms(2-4) by auto
  next
    case (Suc j)
    then have "j < n" using i by simp
    then show ?thesis using assms(1) unfolding pages_loaded_def Suc
      by (elim allE [of _ j]) (simp add: PGSIZE_def add.assoc add.commute)
  qed
qed

text \<open>The first page of what is left to load, and the rest.\<close>

lemma page_split:
  fixes rd zr n :: nat
  assumes "length (take rd (drop k cs)) = rd" "rd + zr = 4096 * Suc n" "j = min rd 4096"
  shows "take 4096 (take rd (drop k cs) @ replicate zr x) = take j (drop k cs) @ replicate (4096 - j) x"
    "drop 4096 (take rd (drop k cs) @ replicate zr x) = take (rd - j) (drop (k + j) cs) @ replicate (zr - (4096 - j)) x"
proof -
  show "take 4096 (take rd (drop k cs) @ replicate zr x) = take j (drop k cs) @ replicate (4096 - j) x"
    using assms by (cases "rd < 4096") (simp_all add: min_def)
  show "drop 4096 (take rd (drop k cs) @ replicate zr x) = take (rd - j) (drop (k + j) cs) @ replicate (zr - (4096 - j)) x"
    using assms by (cases "rd < 4096") (simp_all add: min_def drop_take add.commute)
qed

lemma load_pages_run:
  assumes "proc_ok R s" "ppd s \<in> R" "ppd s \<noteq> init_page_dir (pmm s)" "pg_ofs u = 0" "unat u + 4096 * n \<le> unat PHYS_BASE"
    and "\<forall>v \<in> page_range u n. is_user_vaddr v \<longrightarrow> user_pte (pmm s) (ppd s) v AND PTE_P = 0"
    and "readable file (dfs.fsys (pfs s)) k cs" and "unat rd + unat zr = 4096 * n"
  shows "\<exists>ok s'. load_pages True file u rd zr w s = Some (ok, s') \<and> kept R (page_range u n) s s' \<and>
    (ok \<longrightarrow> (unat rd = 0 \<or> k + unat rd \<le> length cs) \<and> pages_loaded u n (take (unat rd) (drop k cs) @ replicate (unat zr) 0) s')"
  using assms
proof (induction n arbitrary: u rd zr s k)
  case 0
  then have "rd = 0" "zr = 0" by (simp_all add: unsigned_eq_0_iff)
  then have "load_pages True file u rd zr w s = Some (True, s)" by (subst load_pages.simps) simp
  then show ?case using kept_refl [OF 0(1)] \<open>rd = 0\<close> by (intro exI [of _ True] exI [of _ s]) (simp add: pages_loaded_def)
next
  case (Suc n)
  define j where "j = min (unat rd) 4096"
  define page_rd where "page_rd = (if rd < of_nat PGSIZE then rd else of_nat PGSIZE)"
  have j: "unat page_rd = j" "j \<le> 4096" "j \<le> unat rd" by (simp_all add: page_rd_def j_def PGSIZE_def word_less_nat_alt)
  have nz: "rd > 0 \<or> zr > 0" using Suc.prems(8) by (auto simp: word_neq_0_conv [symmetric])
  have u: "is_user_vaddr u" "unat (u + of_nat PGSIZE) = unat u + 4096"
  proof -
    have "unat u < 0xC0000000" using Suc.prems(5) by (simp add: PHYS_BASE_def)
    then show "is_user_vaddr u" by (simp add: is_user_vaddr_def PHYS_BASE_def word_less_nat_alt)
    show "unat (u + of_nat PGSIZE) = unat u + 4096"
      using unat_add_of_nat [of u PGSIZE] Suc.prems(5) by (simp add: PHYS_BASE_def PGSIZE_def)
  qed
  have "unat (pg_ofs (u + of_nat PGSIZE)) = 0" using Suc.prems(4) pg_ofs_mod [of u] pg_ofs_mod [of "u + of_nat PGSIZE"] u(2) by simp
  then have u': "pg_ofs (u + of_nat PGSIZE) = 0" by (simp only: unsigned_eq_0_iff)
  have "u \<in> page_range u (Suc n)" using pg_round_down_aligned [OF Suc.prems(4)] by (simp add: page_range_Suc)
  then have absent: "user_pte (pmm s) (ppd s) u AND PTE_P = 0" using Suc.prems(6) u(1) by blast
  consider s' where "load_pages True file u rd zr w s = Some (False, s')" "kept R {} s s'"
    | s' p where "load_pages True file u rd zr w s = load_pages True file (u + of_nat PGSIZE) (rd - page_rd) (zr - (of_nat PGSIZE - page_rd)) w s'"
      "kept R {v. pg_round_down v = u} s s'" "j = 0 \<or> k + j \<le> length cs" "readable file (dfs.fsys (pfs s')) (k + j) cs" "used_page True (pmm s') p"
      "\<forall>v. is_user_vaddr v \<and> pg_round_down v = u \<longrightarrow> pagedir_get_page (ppd s') v (pmm s') = Some (p + pg_ofs v)"
      "bytes_at p 4096 (pmem s') = take j (drop k cs) @ replicate (4096 - j) 0"
    using load_round [OF Suc.prems(1-3) u(1) Suc.prems(4) absent Suc.prems(7) j(1,2) page_rd_def nz, of w] by blast
  then show ?case
  proof cases
    case 1
    then show ?thesis using kept_mono [OF 1(2) empty_subsetI] by (intro exI [of _ False] exI [of _ s']) simp
  next
    case (2 s' p)
    let ?u = "u + of_nat PGSIZE" and ?rd = "rd - page_rd" and ?zr = "zr - (of_nat PGSIZE - page_rd)"
    have rd: "unat ?rd = unat rd - j" using j by (simp add: unat_sub word_le_nat_alt)
    have pz: "unat (of_nat PGSIZE - page_rd) = 4096 - j" using j by (simp add: unat_sub word_le_nat_alt PGSIZE_def)
    have zj: "4096 - j \<le> unat zr" using Suc.prems(8) by (simp add: j_def)
    then have zr: "unat ?zr = unat zr - (4096 - j)" using pz by (simp add: unat_sub word_le_nat_alt)
    have sum: "unat ?rd + unat ?zr = 4096 * n" using rd zr zj j Suc.prems(8) by simp
    note kd = keptD [OF 2(2)]
    have disj: "v \<notin> {v. pg_round_down v = u}" if v: "v \<in> page_range ?u n" "is_user_vaddr v" for v
    proof
      assume "v \<in> {v. pg_round_down v = u}"
      then have "pg_round_down v = u" by simp
      then obtain i where i: "i < n" "u = u + of_nat PGSIZE + of_nat (4096 * i)" using v(1) unfolding page_range_def by auto
      have "unat (u + of_nat PGSIZE + of_nat (4096 * i)) = unat u + 4096 + 4096 * i"
        using unat_add_of_nat [of "u + of_nat PGSIZE" "4096 * i"] u(2) i(1) Suc.prems(5) by (simp add: PHYS_BASE_def)
      moreover have "unat u = unat (u + of_nat PGSIZE + of_nat (4096 * i))" using i(2) by (rule arg_cong)
      ultimately show False by linarith
    qed
    have abs': "\<forall>v \<in> page_range ?u n. is_user_vaddr v \<longrightarrow> user_pte (pmm s') (ppd s') v AND PTE_P = 0"
      using Suc.prems(2,6) kd(2) kd(6) [OF Suc.prems(2)] disj by (auto simp: page_range_Suc)
    have pd': "ppd s' \<in> R" "ppd s' \<noteq> init_page_dir (pmm s')" using Suc.prems(2,3) kd(2,3) by simp_all
    have le': "unat ?u + 4096 * n \<le> unat PHYS_BASE" using Suc.prems(5) u(2) by simp
    obtain ok s'' where r: "load_pages True file ?u ?rd ?zr w s' = Some (ok, s'')" "kept R (page_range ?u n) s' s''"
      "ok \<longrightarrow> (unat ?rd = 0 \<or> k + j + unat ?rd \<le> length cs) \<and>
        pages_loaded ?u n (take (unat ?rd) (drop (k + j) cs) @ replicate (unat ?zr) 0) s''"
      using Suc.IH [OF kd(1) pd' u' le' abs' 2(4) sum] by (elim exE conjE) (rule that)
    have kept: "kept R (page_range u (Suc n)) s s''" unfolding page_range_Suc by (rule kept_trans [OF 2(2) r(2)])
    have run: "load_pages True file u rd zr w s = Some (ok, s'')" using 2(1) r(1) by simp
    let ?img = "take (unat rd) (drop k cs) @ replicate (unat zr) 0"
    have "(unat rd = 0 \<or> k + unat rd \<le> length cs) \<and> pages_loaded u (Suc n) ?img s''" if ok
    proof -
      have len: "unat rd = 0 \<or> k + unat rd \<le> length cs" using r(3) 2(3) that rd j(3) by auto
      then have lt: "length (take (unat rd) (drop k cs)) = unat rd" by auto
      have img: "take 4096 ?img = take j (drop k cs) @ replicate (4096 - j) 0"
        "drop 4096 ?img = take (unat ?rd) (drop (k + j) cs) @ replicate (unat ?zr) 0"
        using page_split [OF lt Suc.prems(8) j_def] rd zr by simp_all
      have "bytes_at p 4096 (pmem s'') = bytes_at p 4096 (pmem s')"
        by (rule bytes_at_cong) (use keptD(5) [OF r(2) 2(5)] in simp_all)
      then have b: "bytes_at p 4096 (pmem s'') = take 4096 ?img" using 2(7) img(1) by simp
      have pl: "pages_loaded ?u n (drop 4096 ?img) s''" using r(3) that img(2) by simp
      have up: "used_page True (pmm s'') p" using keptD(4) [OF r(2) 2(5)] .
      have "pagedir_get_page (ppd s'') v (pmm s'') = Some (p + pg_ofs v)" if v: "is_user_vaddr v" "pg_round_down v = u" for v
      proof -
        have nv: "v \<notin> page_range ?u n" using disj [of v] v by auto
        have "user_pte (pmm s'') (ppd s') v = user_pte (pmm s') (ppd s') v" using keptD(6) [OF r(2) pd'(1) v(1)] nv by blast
        then have "pagedir_get_page (ppd s') v (pmm s'') = pagedir_get_page (ppd s') v (pmm s')"
          using get_page_eq [OF proc_okD(1) [OF keptD(1) [OF r(2)]] pd'(1) v(1)] get_page_eq [OF proc_okD(1) [OF kd(1)] pd'(1) v(1)] by simp
        then show ?thesis using 2(6) v keptD(2) [OF r(2)] by simp
      qed
      then show ?thesis using len pages_loaded_Suc [OF pl up _ b] by blast
    qed
    then show ?thesis using run kept by blast
  qed
qed


section \<open>Segments\<close>

text \<open>The byte that a program reads at an address, if it is mapped.\<close>

definition user_byte :: "u32 \<Rightarrow> u32 \<Rightarrow> mmu \<Rightarrow> byte option" where
  "user_byte pd v m = (case pagedir_get_page pd v m of
     None \<Rightarrow> None | Some k \<Rightarrow> if k = 0 then None else Some (phys_mem (ram m) k))"

lemma pages_loaded_byte:
  assumes ok: "proc_ok R s" and l: "pages_loaded u n img s" and u: "pg_ofs u = 0" "unat u + 4096 * n \<le> unat PHYS_BASE"
    and i: "i < 4096 * n" "length img = 4096 * n"
  shows "user_byte (ppd s) (u + of_nat i) (pmm s) = Some (img ! i)"
proof -
  let ?v = "u + of_nat i" and ?k = "i div 4096"
  have k: "?k < n" using i(1) by (simp add: div_less_iff_less_mult)
  have v: "unat ?v = unat u + i" using unat_add_of_nat [of u i] u(2) i(1) by (simp add: PHYS_BASE_def)
  have um: "unat u mod 4096 = 0" using u(1) pg_ofs_mod [of u] by simp
  have user: "is_user_vaddr ?v" using v u(2) i(1) by (simp add: is_user_vaddr_def word_less_nat_alt)
  have ofs: "unat (pg_ofs ?v) = i mod 4096" using um by (simp add: pg_ofs_mod v mod_add_left_eq [symmetric] del: mod_add_left_eq)
  have "unat (pg_round_down ?v) = unat u + 4096 * ?k"
  proof -
    obtain q where q: "unat u = 4096 * q" using um by (rule mod_zero_obtain)
    then show ?thesis by (simp add: unat_pg_round_down v)
  qed
  moreover have "unat (u + of_nat (4096 * ?k)) = unat u + 4096 * ?k"
    using unat_add_of_nat [of u "4096 * ?k"] u(2) k by (simp add: PHYS_BASE_def)
  ultimately have "pg_round_down ?v = u + of_nat (4096 * ?k)" by (metis unsigned_word_eqI)
  moreover obtain p where p: "used_page True (pmm s) p"
    "\<forall>v. is_user_vaddr v \<and> pg_round_down v = u + of_nat (4096 * ?k) \<longrightarrow> pagedir_get_page (ppd s) v (pmm s) = Some (p + pg_ofs v)"
    "bytes_at p 4096 (pmem s) = take 4096 (drop (4096 * ?k) img)"
    using l k unfolding pages_loaded_def by blast
  ultimately have g: "pagedir_get_page (ppd s) ?v (pmm s) = Some (p + pg_ofs ?v)" using user by blast
  have po: "pg_ofs ?v = of_nat (i mod 4096)" by (rule unsigned_word_eqI [where 'a = nat]) (simp add: ofs unat_of_nat take_bit_nat_eq_self)
  have "unat (p + pg_ofs ?v) = unat p + unat (pg_ofs ?v)"
    by (rule unat_page_plus) (use proc_page(1) [OF ok p(1)] ofs in simp_all)
  moreover have "unat p \<noteq> 0" using proc_page(2) [OF ok p(1)] by (simp add: unsigned_eq_0_iff)
  ultimately have nz: "p + pg_ofs ?v \<noteq> 0" by auto
  have "pmem s (p + of_nat (i mod 4096)) = bytes_at p 4096 (pmem s) ! (i mod 4096)" by (simp add: bytes_at_def)
  also have "\<dots> = img ! i" using i k by (simp add: p(3))
  finally show ?thesis using g nz by (simp add: user_byte_def po)
qed


lemma page_range_iff:
  assumes "pg_ofs u = 0" "unat u + 4096 * n \<le> unat PHYS_BASE"
  shows "v \<in> page_range u n \<longleftrightarrow> unat u \<le> unat v \<and> unat v < unat u + 4096 * n"
proof -
  have "unat u mod 4096 = 0" using assms(1) pg_ofs_mod [of u] by simp
  then obtain q where q: "unat u = 4096 * q" by (rule mod_zero_obtain)
  have e: "pg_round_down v = u + of_nat (4096 * i) \<longleftrightarrow> unat v div 4096 = q + i" if "i < n" for i
  proof -
    have "unat (u + of_nat (4096 * i)) = 4096 * (q + i)" using unat_add_of_nat [of u "4096 * i"] assms(2) that q by (simp add: PHYS_BASE_def)
    then show ?thesis by (auto simp: word_unat_eq_iff unat_pg_round_down)
  qed
  have "v \<in> page_range u n \<longleftrightarrow> (\<exists>i < n. unat v div 4096 = q + i)" using e by (auto simp: page_range_def)
  also have "\<dots> \<longleftrightarrow> q \<le> unat v div 4096 \<and> unat v div 4096 < q + n" by (auto intro: exI [of _ "unat v div 4096 - q"])
  also have "\<dots> \<longleftrightarrow> 4096 * q \<le> unat v \<and> unat v < 4096 * (q + n)"
    by (simp add: less_eq_div_iff_mult_less_eq div_less_iff_less_mult mult.commute)
  finally show ?thesis by (simp add: q distrib_left)
qed



definition sample_proc :: proc where
  "sample_proc = \<lparr>pmm = sample_mmu, pfs = \<lparr>fsys = sample_fs, dirs = (\<lambda>_. \<lparr>dir_inode = 10, dir_pos = 0\<rparr>), cwd = 0, heap = []\<rparr>,
     ppd = page_addr (sample_pool 0xC0100000) 0\<rparr>"

definition sample_phdr :: elf32_phdr where
  "sample_phdr = \<lparr>p_type = PT_LOAD, p_offset = 0, p_vaddr = 0x8048000, p_paddr = 0, p_filesz = 10, p_memsz = 20, p_flags = 0, p_align = 0\<rparr>"

lemma sample_proc_ok:
  "proc_ok {page_addr (sample_pool 0xC0100000) 0, page_addr (sample_pool 0xC0100000) 1} sample_proc"
proof -
  have "dirs_ok {page_addr (sample_pool 0xC0100000) 0, page_addr (sample_pool 0xC0100000) 1} sample_mmu" using sample_dirs_ok [of "{0, 1}"] by simp
  moreover have "tlb_ok {page_addr (sample_pool 0xC0100000) 0, page_addr (sample_pool 0xC0100000) 1} sample_mmu"
    by (simp add: tlb_ok_def sample_mmu_def page_addr_def sample_pool_def PGSIZE_def PHYS_BASE_def)
  ultimately show ?thesis
    by (simp add: proc_ok_def sample_proc_def)
       (simp add: sample_mmu_def sample_phys_def sample_pool_def sample_bitmap_def get_pool_def PHYS_BASE_def)
qed

lemma sample_readable: "readable 7 (dfs.fsys (pfs sample_proc)) 0 (contents sample_fs sample_inode_disk)"
  using sample_file_ok by (simp add: readable_def sample_proc_def sample_fs_simps) (simp add: sample_fs_def)


end
