(* ===== verification/RoundRobin.thy ===== *)
theory RoundRobin
  imports Sync
begin

text \<open>
  The threads of Lab1 and Lab3: \<^verbatim>\<open>threads/thread.c\<close>, \<^verbatim>\<open>semaphore.c\<close>, \<^verbatim>\<open>lock.c\<close> and
  \<^verbatim>\<open>condvar.c\<close>, the same in both but for a comment, as they are without the priorities of Lab2; and
  \<^verbatim>\<open>devices/timer.c\<close> with the sleep list of Lab1 and with the loop of Lab3. The
  state and the functions that the exercises of Lab2 leave alone (\<^verbatim>\<open>schedule\<close>, \<^verbatim>\<open>thread_block\<close>,
  \<^verbatim>\<open>thread_exit\<close>, \<^verbatim>\<open>thread_tick\<close>, \<^verbatim>\<open>init_thread\<close>) are those of theory Sched. Without priorities, \<open>flat\<close>,
  the two schedulers take the same steps; from that come the invariants, and from the order of the queue that no
  thread starves.
\<close>

section \<open>Threads\<close>

definition thread_yield_rr :: "kernel \<Rightarrow> kernel option" where
  "thread_yield_rr k = do {
     cur \<leftarrow> thread_current k;
     kassert (\<not> intr_ctx k);
     let k = (if cur \<noteq> idle_thread k then k\<lparr>ready_list := ready_list k @ [cur]\<rparr> else k);
     schedule (set_status cur THREAD_READY k) }"

definition thread_unblock_rr :: "tid \<Rightarrow> kernel \<Rightarrow> kernel option" where
  "thread_unblock_rr t k = do {
     kassert (is_thread k t);
     kassert (t_status k t = THREAD_BLOCKED);
     let k = k\<lparr>ready_list := ready_list k @ [t]\<rparr>;
     Some (set_status t THREAD_READY k) }"

definition thread_create_rr :: "tid \<Rightarrow> int \<Rightarrow> kernel \<Rightarrow> (tid \<times> kernel) option" where
  "thread_create_rr page pri k =
     (if page = NULL then Some (NULL, k)
      else do {
        k \<leftarrow> init_thread page pri k;
        k \<leftarrow> thread_unblock_rr page k;
        Some (page, k) })"

definition thread_set_priority_rr :: "int \<Rightarrow> kernel \<Rightarrow> kernel option" where
  "thread_set_priority_rr new_priority k = do {
     cur \<leftarrow> thread_current k;
     Some (k\<lparr>t_priority := (t_priority k)(cur := new_priority)\<rparr>) }"

text \<open>The sleep list of Lab1. The handler unblocks a thread and then removes the first of the list, which it is.\<close>

fun timer_insert_rr :: "(tid \<Rightarrow> int) \<Rightarrow> tid \<Rightarrow> int \<Rightarrow> tid list \<Rightarrow> tid list" where
  "timer_insert_rr wake c total_ticks [] = [c]"
| "timer_insert_rr wake c total_ticks (x # xs) =
     (if wake x \<ge> total_ticks then c # x # xs else x # timer_insert_rr wake c total_ticks xs)"

definition timer_sleep_rr :: "int \<Rightarrow> kernel \<Rightarrow> kernel option" where
  "timer_sleep_rr n k = do {
     cur \<leftarrow> thread_current k;
     let total_ticks = ticks k + n;
     if n \<le> 0 then Some k
     else do {
       let k = k\<lparr>wake_up_tick := (wake_up_tick k)(cur := total_ticks)\<rparr>;
       let k = k\<lparr>timer_list := timer_insert_rr (wake_up_tick k) cur total_ticks (timer_list k)\<rparr>;
       thread_block k } }"

fun wake_loop_rr :: "tid list \<Rightarrow> kernel \<Rightarrow> kernel option" where
  "wake_loop_rr [] k = Some k"
| "wake_loop_rr (h # rest) k =
     (if ticks k < wake_up_tick k h then Some k
      else do {
        k \<leftarrow> thread_unblock_rr h k;
        wake_loop_rr rest (k\<lparr>timer_list := tl (timer_list k)\<rparr>) })"

definition timer_interrupt_rr :: "kernel \<Rightarrow> kernel option" where
  "timer_interrupt_rr k = do {
     k \<leftarrow> thread_tick (k\<lparr>ticks := ticks k + 1\<rparr>);
     wake_loop_rr (timer_list k) k }"

text \<open>The timer of Lab3: a round of the loop of \<^verbatim>\<open>timer_sleep\<close>, which was called when the time was \<open>start\<close>, and the handler.\<close>

definition timer_sleep_spin :: "int \<Rightarrow> int \<Rightarrow> kernel \<Rightarrow> (bool \<times> kernel) option" where
  "timer_sleep_spin start n k =
     (if ticks k - start < n then do { k \<leftarrow> thread_yield_rr k; Some (False, k) } else Some (True, k))"

definition timer_interrupt_spin :: "kernel \<Rightarrow> kernel option" where
  "timer_interrupt_spin k = thread_tick (k\<lparr>ticks := ticks k + 1\<rparr>)"

text \<open>A timer interrupt as \<^verbatim>\<open>intr_handler\<close> delivers it.\<close>

definition deliver :: "(kernel \<Rightarrow> kernel option) \<Rightarrow> kernel \<Rightarrow> kernel option" where
  "deliver handler k = do {
     kassert (\<not> intr_ctx k);
     k \<leftarrow> handler (k\<lparr>intr_ctx := True, yield_on_return := False\<rparr>);
     let k = k\<lparr>intr_ctx := False\<rparr>;
     if yield_on_return k then thread_yield_rr k else Some k }"

abbreviation timer_event_rr :: "kernel \<Rightarrow> kernel option" where
  "timer_event_rr \<equiv> deliver timer_interrupt_rr"

text \<open>Every step of the two kernels: a kernel that does not sleep on the list is that of Lab3.\<close>

inductive rr_step :: "kernel \<Rightarrow> kernel \<Rightarrow> bool" where
  block: "thread_block k = Some k' \<Longrightarrow> rr_step k k'"
| yield: "thread_yield_rr k = Some k' \<Longrightarrow> rr_step k k'"
| unblock: "thread_unblock_rr t k = Some k' \<Longrightarrow> t \<noteq> idle_thread k \<Longrightarrow> t \<notin> set (timer_list k) \<Longrightarrow> rr_step k k'"
| create: "thread_create_rr t p k = Some (r, k') \<Longrightarrow> \<not> is_thread k t \<Longrightarrow> rr_step k k'"
| exit: "thread_exit k = Some k' \<Longrightarrow> running k \<noteq> idle_thread k \<Longrightarrow> rr_step k k'"
| set_priority: "thread_set_priority_rr p k = Some k' \<Longrightarrow> rr_step k k'"
| sleep: "timer_sleep_rr n k = Some k' \<Longrightarrow> running k \<noteq> idle_thread k \<Longrightarrow> rr_step k k'"
| spin: "timer_sleep_spin start n k = Some (d, k') \<Longrightarrow> rr_step k k'"
| timer: "timer_event_rr k = Some k' \<Longrightarrow> rr_step k k'"
| idle: "idle_thread k = NULL \<Longrightarrow> rr_step k (idle_start k)"

lemma timer_without_sleepers:
  assumes "timer_list k = []"
  shows "timer_event_rr k = deliver timer_interrupt_spin k"
proof -
  have "timer_list k1 = []" if "thread_tick (k\<lparr>intr_ctx := True, yield_on_return := False, ticks := t\<rparr>) = Some k1" for k1 t
    using that assms by (auto simp: thread_tick_def Let_def kassert_bind_Some_iff split: if_splits bind_splits)
  then have "timer_interrupt_rr (k\<lparr>intr_ctx := True, yield_on_return := False\<rparr>) = timer_interrupt_spin (k\<lparr>intr_ctx := True, yield_on_return := False\<rparr>)"
    by (cases "thread_tick (k\<lparr>intr_ctx := True, yield_on_return := False, ticks := ticks k + 1\<rparr>)")
       (auto simp: timer_interrupt_rr_def timer_interrupt_spin_def)
  then show ?thesis by (simp add: deliver_def)
qed

section \<open>Without priorities\<close>

definition flat :: "kernel \<Rightarrow> kernel" where
  "flat k = k\<lparr>t_priority := \<lambda>_. 0\<rparr>"

lemma flat_simps [simp]:
  "is_thread (flat k) = is_thread k" "t_status (flat k) = t_status k" "ready_list (flat k) = ready_list k"
  "timer_list (flat k) = timer_list k" "running (flat k) = running k" "idle_thread (flat k) = idle_thread k"
  "intr_ctx (flat k) = intr_ctx k" "thread_ticks (flat k) = thread_ticks k" "all_list (flat k) = all_list k"
  "ticks (flat k) = ticks k" "t_priority (flat k) t = 0" "initial_thread (flat k) = initial_thread k"
  "yield_on_return (flat k) = yield_on_return k" "wake_up_tick (flat k) = wake_up_tick k"
  by (simp_all add: flat_def)

lemma flat_upd:
  "flat (k\<lparr>ready_list := r\<rparr>) = (flat k)\<lparr>ready_list := r\<rparr>" "flat (k\<lparr>t_status := st\<rparr>) = (flat k)\<lparr>t_status := st\<rparr>"
  "flat (k\<lparr>running := t\<rparr>) = (flat k)\<lparr>running := t\<rparr>" "flat (k\<lparr>thread_ticks := n\<rparr>) = (flat k)\<lparr>thread_ticks := n\<rparr>"
  "flat (k\<lparr>is_thread := f\<rparr>) = (flat k)\<lparr>is_thread := f\<rparr>" "flat (k\<lparr>all_list := r\<rparr>) = (flat k)\<lparr>all_list := r\<rparr>"
  "flat (k\<lparr>intr_ctx := b\<rparr>) = (flat k)\<lparr>intr_ctx := b\<rparr>" "flat (k\<lparr>yield_on_return := b\<rparr>) = (flat k)\<lparr>yield_on_return := b\<rparr>"
  "flat (k\<lparr>ticks := i\<rparr>) = (flat k)\<lparr>ticks := i\<rparr>" "flat (k\<lparr>idle_ticks := i\<rparr>) = (flat k)\<lparr>idle_ticks := i\<rparr>"
  "flat (k\<lparr>kernel_ticks := i\<rparr>) = (flat k)\<lparr>kernel_ticks := i\<rparr>" "flat (k\<lparr>wake_up_tick := w\<rparr>) = (flat k)\<lparr>wake_up_tick := w\<rparr>"
  "flat (k\<lparr>t_priority := p\<rparr>) = flat k" "flat (k\<lparr>idle_thread := t\<rparr>) = (flat k)\<lparr>idle_thread := t\<rparr>"
  "flat (k\<lparr>timer_list := r\<rparr>) = (flat k)\<lparr>timer_list := r\<rparr>"
  by (simp_all add: flat_def)

lemma prio_insert_flat: "prio_insert (t_priority (flat k)) t xs = xs @ [t]"
  by (induction xs) (simp_all add: flat_def)

lemma thread_current_flat [simp]: "thread_current (flat k) = thread_current k"
  by (simp add: thread_current_def)

lemma schedule_flat: "schedule k = Some k' \<Longrightarrow> schedule (flat k) = Some (flat k')"
  by (cases "ready_list k")
     (auto simp: schedule_def next_thread_to_run_def thread_schedule_tail_def Let_def kassert_bind_Some_iff flat_upd split: if_splits)

lemma thread_block_flat:
  assumes "thread_block k = Some k'"
  shows "thread_block (flat k) = Some (flat k')"
proof -
  obtain cur where c: "\<not> intr_ctx k" "thread_current k = Some cur" "schedule (set_status cur THREAD_BLOCKED k) = Some k'"
    using assms by (auto simp: thread_block_def kassert_bind_Some_iff split: bind_splits)
  show ?thesis using c(1,2) schedule_flat [OF c(3)] by (simp add: thread_block_def flat_upd)
qed

lemma thread_exit_flat:
  assumes "thread_exit k = Some k'"
  shows "thread_exit (flat k) = Some (flat k')"
proof -
  obtain cur where c: "\<not> intr_ctx k" "thread_current k = Some cur"
    "schedule (set_status cur THREAD_DYING (k\<lparr>all_list := remove1 cur (all_list k)\<rparr>)) = Some k'"
    using assms by (auto simp: thread_exit_def kassert_bind_Some_iff Let_def split: bind_splits)
  show ?thesis using c(1,2) schedule_flat [OF c(3)] by (simp add: thread_exit_def flat_upd Let_def)
qed

lemma thread_yield_rrD:
  assumes "thread_yield_rr k = Some k'"
  obtains cur where "\<not> intr_ctx k" "thread_current k = Some cur"
    "schedule (set_status cur THREAD_READY (k\<lparr>ready_list := ready_list k @ (if cur = idle_thread k then [] else [cur])\<rparr>)) = Some k'"
  using assms by (auto simp: thread_yield_rr_def kassert_bind_Some_iff Let_def split: bind_splits if_splits)

lemma thread_yield_flat:
  assumes "thread_yield_rr k = Some k'"
  shows "thread_yield (flat k) = Some (flat k')"
proof -
  obtain cur where c: "\<not> intr_ctx k" "thread_current k = Some cur"
    "schedule (set_status cur THREAD_READY (k\<lparr>ready_list := ready_list k @ (if cur = idle_thread k then [] else [cur])\<rparr>)) = Some k'"
    using assms by (rule thread_yield_rrD)
  show ?thesis using c(1,2) schedule_flat [OF c(3)]
    by (cases "cur = idle_thread k") (simp_all add: thread_yield_def flat_upd Let_def prio_insert_flat)
qed

lemma thread_unblock_flat:
  assumes "thread_current k = Some c" "thread_unblock_rr t k = Some k'"
  shows "thread_unblock t (flat k) = Some (flat k')" "thread_current k' = Some c"
proof -
  have b: "is_thread k t" "t_status k t = THREAD_BLOCKED" "k' = k\<lparr>ready_list := ready_list k @ [t], t_status := (t_status k)(t := THREAD_READY)\<rparr>"
    using assms(2) by (auto simp: thread_unblock_rr_def Let_def kassert_bind_Some_iff)
  have c: "c = running k" "is_thread k c" "t_status k c = THREAD_RUNNING" using assms(1) by (auto simp: thread_current_def kassert_bind_Some_iff)
  then have n: "t \<noteq> running k" using b(2) by auto
  then show "thread_current k' = Some c" using c b(3) by (simp add: thread_current_def)
  then show "thread_unblock t (flat k) = Some (flat k')" using b n c by (simp add: thread_unblock_def Let_def prio_insert_flat flat_upd thread_current_def)
qed

lemma timer_insert_flat: "timer_insert w (t_priority (flat k)) c n xs = timer_insert_rr w c n xs"
  by (induction xs) auto

lemma timer_sleep_flat:
  assumes "timer_sleep_rr n k = Some k'"
  shows "timer_sleep n (flat k) = Some (flat k')"
proof (cases "n \<le> 0")
  case True
  then show ?thesis using assms by (auto simp: timer_sleep_rr_def timer_sleep_def split: bind_splits)
next
  case False
  let ?w = "\<lambda>cur. (wake_up_tick k)(cur := ticks k + n)"
  obtain cur where c: "thread_current k = Some cur"
    "thread_block (k\<lparr>wake_up_tick := ?w cur, timer_list := timer_insert_rr (?w cur) cur (ticks k + n) (timer_list k)\<rparr>) = Some k'"
    using assms False by (auto simp: timer_sleep_rr_def Let_def split: bind_splits)
  have "(flat k)\<lparr>wake_up_tick := ?w cur, timer_list := timer_insert (?w cur) (t_priority (flat k)) cur (ticks k + n) (timer_list k)\<rparr> =
      flat (k\<lparr>wake_up_tick := ?w cur, timer_list := timer_insert_rr (?w cur) cur (ticks k + n) (timer_list k)\<rparr>)"
    unfolding timer_insert_flat by (simp add: flat_def)
  then show ?thesis using c(1) False thread_block_flat [OF c(2)] by (simp add: timer_sleep_def Let_def)
qed

lemma wake_loop_flat:
  "wake_loop_rr ls k = Some k' \<Longrightarrow> thread_current k = Some c \<Longrightarrow> wake_loop ls (flat k) = Some (flat k')"
proof (induction ls arbitrary: k)
  case (Cons h ls)
  show ?case
  proof (cases "ticks k < wake_up_tick k h")
    case False
    then obtain k1 where u: "thread_unblock_rr h k = Some k1" "wake_loop_rr ls (k1\<lparr>timer_list := tl (timer_list k1)\<rparr>) = Some k'"
      using Cons.prems(1) by (auto split: bind_splits)
    note f = thread_unblock_flat [OF Cons.prems(2) u(1)]
    have "thread_current (k1\<lparr>timer_list := tl (timer_list k1)\<rparr>) = Some c" using f(2) by (simp add: thread_current_def)
    from Cons.IH [OF u(2) this] show ?thesis using False f(1) by (simp add: flat_upd)
  qed (use Cons.prems in simp)
qed simp

lemma init_thread_flat: "init_thread t p k = Some k' \<Longrightarrow> init_thread t 0 (flat k) = Some (flat k')"
  by (auto simp: init_thread_def Let_def kassert_bind_Some_iff PRI_MIN_def PRI_MAX_def flat_def fun_eq_iff)

lemma thread_tick_flat: "thread_tick k = Some k' \<Longrightarrow> thread_tick (flat k) = Some (flat k')"
  by (auto simp: thread_tick_def Let_def kassert_bind_Some_iff flat_def thread_current_def split: if_splits)

lemma thread_tick_current: "thread_tick k = Some k' \<Longrightarrow> \<exists>c. thread_current k' = Some c"
  by (auto simp: thread_tick_def thread_current_def Let_def kassert_bind_Some_iff split: if_splits bind_splits)

lemma timer_interrupt_flat:
  assumes "timer_interrupt_rr (k\<lparr>intr_ctx := True, yield_on_return := False\<rparr>) = Some k1"
  shows "timer_interrupt ((flat k)\<lparr>intr_ctx := True, yield_on_return := False\<rparr>) = Some (flat k1)"
proof -
  let ?k = "k\<lparr>intr_ctx := True, yield_on_return := False, ticks := ticks k + 1\<rparr>"
  obtain k0 where 1: "thread_tick ?k = Some k0" "wake_loop_rr (timer_list k0) k0 = Some k1"
    using assms by (auto simp: timer_interrupt_rr_def split: bind_splits)
  have t: "thread_tick (flat ?k) = Some (flat k0)" by (rule thread_tick_flat [OF 1(1)])
  obtain c where c: "thread_current k0 = Some c" using thread_tick_current [OF 1(1)] by blast
  have "wake_loop (timer_list k0) (flat k0) = Some (flat k1)" by (rule wake_loop_flat [OF 1(2) c])
  then show ?thesis using t by (simp add: timer_interrupt_def flat_upd)
qed

lemma timer_event_flat:
  assumes "timer_event_rr k = Some k'"
  shows "timer_event (flat k) = Some (flat k')"
proof -
  obtain k1 where 1: "\<not> intr_ctx k" "timer_interrupt_rr (k\<lparr>intr_ctx := True, yield_on_return := False\<rparr>) = Some k1"
    "(if yield_on_return k1 then thread_yield_rr (k1\<lparr>intr_ctx := False\<rparr>) else Some (k1\<lparr>intr_ctx := False\<rparr>)) = Some k'"
    using assms by (auto simp: deliver_def kassert_bind_Some_iff Let_def split: bind_splits)
  then show ?thesis using timer_interrupt_flat [OF 1(2)] thread_yield_flat [of "k1\<lparr>intr_ctx := False\<rparr>" k']
    by (auto simp: timer_event_def Let_def flat_upd split: if_splits)
qed

section \<open>The invariant\<close>

text \<open>The sleep list is sorted by the time of waking, and the time slice has not ended.\<close>

definition rr_ok :: "kernel \<Rightarrow> bool" where
  "rr_ok k \<longleftrightarrow> kernel_ok (flat k) \<and> sorted (map (wake_up_tick k) (timer_list k)) \<and> thread_ticks k < TIME_SLICE"

definition same_sleepers :: "kernel \<Rightarrow> kernel \<Rightarrow> bool" where
  "same_sleepers k k' \<longleftrightarrow> timer_list k' = timer_list k \<and> wake_up_tick k' = wake_up_tick k"

lemma schedule_effect:
  assumes "schedule k = Some k'"
  shows "running k' = (if ready_list k = [] then idle_thread k else hd (ready_list k))" "ready_list k' = tl (ready_list k)"
    "thread_ticks k' = 0" "same_sleepers k k'"
proof -
  obtain nxt k1 where n: "next_thread_to_run k = (nxt, k1)" by fastforce
  have "nxt = (if ready_list k = [] then idle_thread k else hd (ready_list k)) \<and> ready_list k1 = tl (ready_list k) \<and>
      same_sleepers k k1"
    using n by (auto simp: next_thread_to_run_def same_sleepers_def split: list.splits)
  moreover have "running k' = nxt \<and> ready_list k' = ready_list k1 \<and> thread_ticks k' = 0 \<and> same_sleepers k1 k'"
    using assms n by (auto simp: schedule_def thread_schedule_tail_def Let_def kassert_bind_Some_iff same_sleepers_def split: if_splits)
  ultimately show "running k' = (if ready_list k = [] then idle_thread k else hd (ready_list k))" "ready_list k' = tl (ready_list k)"
    "thread_ticks k' = 0" "same_sleepers k k'" by (simp_all add: same_sleepers_def)
qed

text \<open>A step leaves the queue and the time slice as they are, or puts threads at the end of the queue,
  or hands the processor to the first of the queue for a new slice.\<close>

definition queue_step :: "kernel \<Rightarrow> kernel \<Rightarrow> bool" where
  "queue_step k k' \<longleftrightarrow> (\<exists>ys. (ready_list k' = ready_list k @ ys \<and> thread_ticks k' = thread_ticks k) \<or>
     (ready_list k @ ys \<noteq> [] \<longrightarrow> running k' = hd (ready_list k @ ys)) \<and> ready_list k' = tl (ready_list k @ ys) \<and> thread_ticks k' = 0)"

lemma queue_stepI:
  "ready_list k' = ready_list k @ ys \<Longrightarrow> thread_ticks k' = thread_ticks k \<Longrightarrow> queue_step k k'"
  "ready_list k1 = ready_list k @ ys \<Longrightarrow> schedule k1 = Some k' \<Longrightarrow> queue_step k k'"
proof -
  show "ready_list k' = ready_list k @ ys \<Longrightarrow> thread_ticks k' = thread_ticks k \<Longrightarrow> queue_step k k'"
    unfolding queue_step_def by blast
  assume 1: "ready_list k1 = ready_list k @ ys" "schedule k1 = Some k'"
  from schedule_effect [OF 1(2)] show "queue_step k k'" unfolding queue_step_def 1(1) by (intro exI [of _ ys] disjI2) simp
qed

lemma thread_block_queue:
  assumes "thread_block k = Some k'"
  shows "queue_step k k'" "same_sleepers k k'"
proof -
  obtain cur where c: "schedule (set_status cur THREAD_BLOCKED k) = Some k'"
    using assms by (auto simp: thread_block_def kassert_bind_Some_iff split: bind_splits)
  show "queue_step k k'" using queue_stepI(2) [OF _ c, of k "[]"] by simp
  show "same_sleepers k k'" using schedule_effect(4) [OF c] by (simp add: same_sleepers_def)
qed

lemma thread_exit_queue:
  assumes "thread_exit k = Some k'"
  shows "queue_step k k'" "same_sleepers k k'"
proof -
  obtain cur where c: "schedule (set_status cur THREAD_DYING (k\<lparr>all_list := remove1 cur (all_list k)\<rparr>)) = Some k'"
    using assms by (auto simp: thread_exit_def kassert_bind_Some_iff Let_def split: bind_splits)
  show "queue_step k k'" using queue_stepI(2) [OF _ c, of k "[]"] by simp
  show "same_sleepers k k'" using schedule_effect(4) [OF c] by (simp add: same_sleepers_def)
qed

text \<open>Yielding puts the running thread at the end of the queue, and the first of the queue runs.\<close>

lemma thread_yield_queue:
  assumes "thread_yield_rr k = Some k'"
  shows "queue_step k k'" "same_sleepers k k'" "thread_ticks k' = 0"
    "\<exists>ys. (ready_list k @ ys \<noteq> [] \<longrightarrow> running k' = hd (ready_list k @ ys)) \<and> ready_list k' = tl (ready_list k @ ys)"
proof -
  obtain cur where c:
    "schedule (set_status cur THREAD_READY (k\<lparr>ready_list := ready_list k @ (if cur = idle_thread k then [] else [cur])\<rparr>)) = Some k'"
    using assms by (rule thread_yield_rrD)
  show "queue_step k k'" by (rule queue_stepI(2) [OF _ c]) simp
  show "same_sleepers k k'" "thread_ticks k' = 0" using schedule_effect(3,4) [OF c] by (simp_all add: same_sleepers_def)
  show "\<exists>ys. (ready_list k @ ys \<noteq> [] \<longrightarrow> running k' = hd (ready_list k @ ys)) \<and> ready_list k' = tl (ready_list k @ ys)"
    using schedule_effect(1,2) [OF c] by (intro exI [of _ "if cur = idle_thread k then [] else [cur]"]) simp
qed

lemma thread_unblock_queue:
  "thread_unblock_rr t k = Some k' \<Longrightarrow> ready_list k' = ready_list k @ [t] \<and> thread_ticks k' = thread_ticks k \<and> same_sleepers k k'"
  by (auto simp: thread_unblock_rr_def Let_def kassert_bind_Some_iff same_sleepers_def)

lemma thread_create_queue:
  assumes "thread_create_rr t p k = Some (r, k')"
  shows "queue_step k k'" "timer_list k' = timer_list k" "wake_up_tick k' = wake_up_tick k \<or> wake_up_tick k' = (wake_up_tick k)(t := 0)"
proof -
  have "\<exists>ys. ready_list k' = ready_list k @ ys \<and> thread_ticks k' = thread_ticks k \<and> timer_list k' = timer_list k \<and>
      (wake_up_tick k' = wake_up_tick k \<or> wake_up_tick k' = (wake_up_tick k)(t := 0))"
    using assms by (auto simp: thread_create_rr_def init_thread_def Let_def kassert_bind_Some_iff same_sleepers_def dest!: thread_unblock_queue
      split: if_splits bind_splits)
  then show "queue_step k k'" "timer_list k' = timer_list k" "wake_up_tick k' = wake_up_tick k \<or> wake_up_tick k' = (wake_up_tick k)(t := 0)"
    using queue_stepI(1) by blast+
qed

section \<open>The sleep list\<close>

lemma timer_insert_rr_sorted:
  "sorted (map w xs) \<Longrightarrow> w c = n \<Longrightarrow> sorted (map w (timer_insert_rr w c n xs)) \<and> set (timer_insert_rr w c n xs) = insert c (set xs)"
  by (induction xs) auto

lemma timer_sleep_queue:
  assumes ok: "rr_ok k" and run: "timer_sleep_rr n k = Some k'"
  shows "queue_step k k'" "sorted (map (wake_up_tick k') (timer_list k'))"
proof -
  have so: "sched_ok (flat k)" "timer_ok (flat k)" and w: "sorted (map (wake_up_tick k) (timer_list k))"
    using ok by (auto simp: rr_ok_def kernel_ok_def)
  have c: "thread_current k = Some (running k)" using sched_ok_running [OF so(1)] by simp
  have "queue_step k k' \<and> sorted (map (wake_up_tick k') (timer_list k'))"
  proof (cases "n \<le> 0")
    case True
    then show ?thesis using run c w queue_stepI(1) [of k' k "[]"] by (simp add: timer_sleep_rr_def)
  next
    case False
    let ?w = "(wake_up_tick k)(running k := ticks k + n)" and ?n = "ticks k + n"
    have b: "thread_block (k\<lparr>wake_up_tick := ?w, timer_list := timer_insert_rr ?w (running k) ?n (timer_list k)\<rparr>) = Some k'"
      using run c False by (simp add: timer_sleep_rr_def Let_def)
    have "running k \<notin> set (timer_list k)" using timer_ok_sleepers(1) [OF so, of "running k"] by auto
    then have "map ?w (timer_list k) = map (wake_up_tick k) (timer_list k)" by (auto intro: map_cong)
    then have "sorted (map ?w (timer_list k))" using w by (simp only:)
    then have "sorted (map ?w (timer_insert_rr ?w (running k) ?n (timer_list k)))"
      by (rule timer_insert_rr_sorted [THEN conjunct1]) simp
    then show ?thesis using thread_block_queue [OF b] by (simp add: same_sleepers_def queue_step_def)
  qed
  then show "queue_step k k'" "sorted (map (wake_up_tick k') (timer_list k'))" by blast+
qed

lemma wake_loop_rr_spec:
  "distinct ls \<Longrightarrow> \<forall>t \<in> set ls. is_thread k t \<and> t_status k t = THREAD_BLOCKED \<Longrightarrow> timer_list k = ls \<Longrightarrow>
   \<exists>k'. wake_loop_rr ls k = Some k' \<and> ready_list k' = ready_list k @ takeWhile (\<lambda>t. wake_up_tick k t \<le> ticks k) ls \<and>
     timer_list k' = dropWhile (\<lambda>t. wake_up_tick k t \<le> ticks k) ls \<and>
     t_status k' = (\<lambda>t. if t \<in> set (takeWhile (\<lambda>t. wake_up_tick k t \<le> ticks k) ls) then THREAD_READY else t_status k t) \<and>
     is_thread k' = is_thread k \<and> wake_up_tick k' = wake_up_tick k \<and> running k' = running k \<and> thread_ticks k' = thread_ticks k \<and>
     ticks k' = ticks k \<and> idle_thread k' = idle_thread k \<and> yield_on_return k' = yield_on_return k"
proof (induction ls arbitrary: k)
  case Nil
  then show ?case by simp
next
  case (Cons h ls)
  show ?case
  proof (cases "ticks k < wake_up_tick k h")
    case True
    then show ?thesis using Cons.prems(3) by simp
  next
    case False
    let ?k = "(set_status h THREAD_READY (k\<lparr>ready_list := ready_list k @ [h]\<rparr>))\<lparr>timer_list := ls\<rparr>"
    have u: "wake_loop_rr (h # ls) k = wake_loop_rr ls ?k"
      using False Cons.prems by (simp add: thread_unblock_rr_def Let_def)
    have "\<forall>t \<in> set ls. is_thread ?k t \<and> t_status ?k t = THREAD_BLOCKED" using Cons.prems(1,2) by auto
    then obtain k' where k': "wake_loop_rr ls ?k = Some k'" "ready_list k' = ready_list ?k @ takeWhile (\<lambda>t. wake_up_tick k t \<le> ticks k) ls"
      "timer_list k' = dropWhile (\<lambda>t. wake_up_tick k t \<le> ticks k) ls"
      "t_status k' = (\<lambda>t. if t \<in> set (takeWhile (\<lambda>t. wake_up_tick k t \<le> ticks k) ls) then THREAD_READY else t_status ?k t)"
      "is_thread k' = is_thread k" "wake_up_tick k' = wake_up_tick k" "running k' = running k" "thread_ticks k' = thread_ticks k"
      "ticks k' = ticks k" "idle_thread k' = idle_thread k" "yield_on_return k' = yield_on_return k"
      using Cons.IH [of ?k] Cons.prems(1) by auto
    then show ?thesis using u False by (intro exI [of _ k']) (simp add: fun_eq_iff)
  qed
qed

text \<open>The state in which an interrupt handler returns: the sleepers whose time has come are at the end of the queue.\<close>

definition woken :: "kernel \<Rightarrow> tid list" where
  "woken k = takeWhile (\<lambda>t. wake_up_tick k t \<le> ticks k + 1) (timer_list k)"

lemma timer_event_run:
  assumes ok: "rr_ok k"
  shows "\<exists>k1. timer_event_rr k = (if TIME_SLICE \<le> Suc (thread_ticks k) then thread_yield_rr k1 else Some k1) \<and>
    kernel_ok (flat k1) \<and> ready_list k1 = ready_list k @ woken k \<and>
    timer_list k1 = dropWhile (\<lambda>t. wake_up_tick k t \<le> ticks k + 1) (timer_list k) \<and>
    t_status k1 = (\<lambda>t. if t \<in> set (woken k) then THREAD_READY else t_status k t) \<and> is_thread k1 = is_thread k \<and>
    wake_up_tick k1 = wake_up_tick k \<and> running k1 = running k \<and> thread_ticks k1 = Suc (thread_ticks k) \<and>
    ticks k1 = ticks k + 1 \<and> idle_thread k1 = idle_thread k"
proof -
  have K: "kernel_ok (flat k)" "sched_ok (flat k)" "timer_ok (flat k)" "\<not> intr_ctx k"
    using ok by (auto simp: rr_ok_def kernel_ok_def)
  let ?k = "k\<lparr>intr_ctx := True, yield_on_return := False, ticks := ticks k + 1\<rparr>"
  have "thread_current ?k = Some (running k)" using sched_okD(2,3) [OF K(2)] by (simp add: thread_current_def)
  then have "\<exists>k0. thread_tick ?k = Some k0"
    by (cases "running k = idle_thread k"; cases "TIME_SLICE \<le> Suc (thread_ticks k)") (simp_all add: thread_tick_def Let_def)
  then obtain k0 where t: "thread_tick ?k = Some k0" by blast
  have e: "ready_list k0 = ready_list k" "timer_list k0 = timer_list k" "running k0 = running k" "thread_ticks k0 = Suc (thread_ticks k)"
    "yield_on_return k0 \<longleftrightarrow> TIME_SLICE \<le> Suc (thread_ticks k)" "is_thread k0 = is_thread k" "t_status k0 = t_status k"
    "wake_up_tick k0 = wake_up_tick k" "ticks k0 = ticks k + 1" "idle_thread k0 = idle_thread k"
    using t by (auto simp: thread_tick_def Let_def kassert_bind_Some_iff split: if_splits bind_splits)
  have "distinct (timer_list k)" "\<forall>t \<in> set (timer_list k). is_thread k0 t \<and> t_status k0 t = THREAD_BLOCKED"
    using K(3) e by (auto simp: timer_ok_def)
  from wake_loop_rr_spec [OF this e(2)] obtain k1 where w: "wake_loop_rr (timer_list k) k0 = Some k1"
    "ready_list k1 = ready_list k @ woken k" "timer_list k1 = dropWhile (\<lambda>t. wake_up_tick k t \<le> ticks k + 1) (timer_list k)"
    "t_status k1 = (\<lambda>t. if t \<in> set (woken k) then THREAD_READY else t_status k t)" "is_thread k1 = is_thread k"
    "wake_up_tick k1 = wake_up_tick k" "running k1 = running k" "thread_ticks k1 = Suc (thread_ticks k)" "ticks k1 = ticks k + 1"
    "idle_thread k1 = idle_thread k" "yield_on_return k1 = yield_on_return k0"
    unfolding e woken_def by blast
  have h: "timer_interrupt_rr (k\<lparr>intr_ctx := True, yield_on_return := False\<rparr>) = Some k1"
    using t w(1) e(2) by (simp add: timer_interrupt_rr_def)
  have "kernel_ok ((flat k1)\<lparr>intr_ctx := False\<rparr>)" by (rule timer_interrupt_spec(1) [OF K(1) timer_interrupt_flat [OF h]])
  then show ?thesis using h w e(5) K(4) by (intro exI [of _ "k1\<lparr>intr_ctx := False\<rparr>"]) (simp add: deliver_def Let_def flat_upd)
qed

lemma timer_event_queue:
  assumes ok: "rr_ok k" and run: "timer_event_rr k = Some k'"
  shows "timer_list k' = dropWhile (\<lambda>t. wake_up_tick k t \<le> ticks k + 1) (timer_list k)" "wake_up_tick k' = wake_up_tick k"
    "(\<exists>ys. ready_list k' = ready_list k @ ys) \<and> thread_ticks k' = Suc (thread_ticks k) \<and> thread_ticks k' < TIME_SLICE \<or>
     (\<exists>ys. (ready_list k @ ys \<noteq> [] \<longrightarrow> running k' = hd (ready_list k @ ys)) \<and> ready_list k' = tl (ready_list k @ ys)) \<and> thread_ticks k' = 0"
proof -
  obtain k1 where 1: "timer_event_rr k = (if TIME_SLICE \<le> Suc (thread_ticks k) then thread_yield_rr k1 else Some k1)"
    "ready_list k1 = ready_list k @ woken k" "timer_list k1 = dropWhile (\<lambda>t. wake_up_tick k t \<le> ticks k + 1) (timer_list k)"
    "wake_up_tick k1 = wake_up_tick k" "thread_ticks k1 = Suc (thread_ticks k)"
    using timer_event_run [OF ok] by (elim exE conjE) (rule that)
  have "timer_list k' = timer_list k1 \<and> wake_up_tick k' = wake_up_tick k1 \<and>
    ((\<exists>ys. ready_list k' = ready_list k @ ys) \<and> thread_ticks k' = Suc (thread_ticks k) \<and> thread_ticks k' < TIME_SLICE \<or>
     (\<exists>ys. (ready_list k @ ys \<noteq> [] \<longrightarrow> running k' = hd (ready_list k @ ys)) \<and> ready_list k' = tl (ready_list k @ ys)) \<and> thread_ticks k' = 0)"
  proof (cases "TIME_SLICE \<le> Suc (thread_ticks k)")
    case True
    then have y: "thread_yield_rr k1 = Some k'" using 1(1) run by simp
    from thread_yield_queue(4) [OF y] obtain ys where
      "ready_list k1 @ ys \<noteq> [] \<longrightarrow> running k' = hd (ready_list k1 @ ys)" "ready_list k' = tl (ready_list k1 @ ys)" by blast
    then show ?thesis using thread_yield_queue(2,3) [OF y] unfolding same_sleepers_def 1(2) append_assoc by blast
  next
    case False
    then have "k' = k1" using 1(1) run by simp
    then show ?thesis using False 1(2,5) by auto
  qed
  then show "timer_list k' = dropWhile (\<lambda>t. wake_up_tick k t \<le> ticks k + 1) (timer_list k)" "wake_up_tick k' = wake_up_tick k"
    "(\<exists>ys. ready_list k' = ready_list k @ ys) \<and> thread_ticks k' = Suc (thread_ticks k) \<and> thread_ticks k' < TIME_SLICE \<or>
     (\<exists>ys. (ready_list k @ ys \<noteq> [] \<longrightarrow> running k' = hd (ready_list k @ ys)) \<and> ready_list k' = tl (ready_list k @ ys)) \<and> thread_ticks k' = 0"
    using 1(3,4) by simp_all
qed

lemma rr_step_queue:
  assumes ok: "rr_ok k" and step: "rr_step k k'"
  shows "queue_step k k' \<or> timer_event_rr k = Some k'" "sorted (map (wake_up_tick k') (timer_list k'))" "thread_ticks k' < TIME_SLICE"
proof -
  have n: "0 < TIME_SLICE" by (simp add: TIME_SLICE_def)
  have w: "sorted (map (wake_up_tick k) (timer_list k))" "thread_ticks k < TIME_SLICE" "timer_ok (flat k)"
    using ok by (auto simp: rr_ok_def kernel_ok_def)
  have q: "thread_ticks k' < TIME_SLICE" if "queue_step k k'" using that w(2) n by (auto simp: queue_step_def)
  let ?C = "(queue_step k k' \<or> timer_event_rr k = Some k') \<and> sorted (map (wake_up_tick k') (timer_list k')) \<and> thread_ticks k' < TIME_SLICE"
  have same: ?C if "queue_step k k'" "same_sleepers k k'" using that q w(1) by (simp add: same_sleepers_def)
  have y: ?C if "thread_yield_rr k = Some k'" using same thread_yield_queue(1,2) [OF that] by blast
  from step have ?C
  proof (cases rule: rr_step.cases)
    case (unblock t)
    then show ?thesis using thread_unblock_queue [of t k k'] same queue_stepI(1) [of k' k "[t]"] by blast
  next
    case (set_priority p)
    then have "ready_list k' = ready_list k @ []" "thread_ticks k' = thread_ticks k" "same_sleepers k k'"
      by (auto simp: thread_set_priority_rr_def same_sleepers_def split: bind_splits)
    then show ?thesis using same queue_stepI(1) by blast
  next
    case (sleep n)
    then show ?thesis using timer_sleep_queue [OF ok sleep(1)] q by blast
  next
    case (spin start n d)
    then have "thread_yield_rr k = Some k' \<or> k' = k" by (auto simp: timer_sleep_spin_def split: if_splits bind_splits)
    then show ?thesis using y same queue_stepI(1) [of k k "[]"] by (auto simp: same_sleepers_def)
  next
    case timer
    have "sorted (map (wake_up_tick k) (dropWhile P (timer_list k)))" for P
      using w(1) by (metis dropWhile_eq_drop sorted_wrt_drop drop_map)
    then show ?thesis using timer timer_event_queue [OF ok timer] n by auto
  next
    case idle
    then show ?thesis using same queue_stepI(1) [of k' k "[]"] by (simp add: idle_start_def same_sleepers_def)
  next
    case block
    then show ?thesis using same thread_block_queue [of k k'] by blast
  next
    case yield
    then show ?thesis using y by blast
  next
    case (create t p r)
    note c = thread_create_queue [OF create(1)]
    have "t \<notin> set (timer_list k)" using create(2) w(3) by (auto simp: timer_ok_def)
    then have "map (wake_up_tick k') (timer_list k') = map (wake_up_tick k) (timer_list k)" using c(2,3) by auto
    then show ?thesis using c(1) q w(1) by simp
  next
    case exit
    then show ?thesis using same thread_exit_queue [of k k'] by blast
  qed
  then show "queue_step k k' \<or> timer_event_rr k = Some k'" "sorted (map (wake_up_tick k') (timer_list k'))" "thread_ticks k' < TIME_SLICE"
    by blast+
qed

lemma rr_step_flat:
  assumes ok: "rr_ok k" and step: "rr_step k k'"
  shows "sched_step\<^sup>=\<^sup>= (flat k) (flat k')"
proof -
  have fk: "kernel_ok (flat k)" using ok by (auto simp: rr_ok_def)
  then have c: "thread_current k = Some (running k)" using sched_ok_running [of "flat k"] by (simp add: kernel_ok_def)
  from step show ?thesis
  proof (cases rule: rr_step.cases)
    case (unblock t)
    then have "sched_step (flat k) (flat k')" using sched_step.unblock [OF thread_unblock_flat(1) [OF c]] by simp
    then show ?thesis by blast
  next
    case (create t p r)
    have "thread_create t 0 (flat k) = Some (r, flat k')"
    proof (cases "t = NULL")
      case True
      then show ?thesis using create(1) by (simp add: thread_create_rr_def thread_create_def)
    next
      case False
      then obtain k1 where k1: "init_thread t p k = Some k1" "thread_unblock_rr t k1 = Some k'" "r = t"
        using create(1) by (auto simp: thread_create_rr_def split: bind_splits)
      note i = init_thread_flat [OF k1(1)]
      have "sched_ok (flat k1)" using init_thread_keeps(1) [OF fk i] create(2) by (simp add: kernel_ok_def)
      then have "thread_current k1 = Some (running k1)" using sched_ok_running [of "flat k1"] by simp
      then show ?thesis using False i thread_unblock_flat(1) [OF _ k1(2)] k1(3) by (simp add: thread_create_def)
    qed
    then have "sched_step (flat k) (flat k')" by (rule sched_step.create) (use create(2) in simp)
    then show ?thesis by blast
  next
    case (set_priority p)
    then have "flat k' = flat k" by (auto simp: thread_set_priority_rr_def flat_upd split: bind_splits)
    then show ?thesis by simp
  next
    case (sleep n)
    then show ?thesis using sched_step.sleep [OF timer_sleep_flat [OF sleep(1)]] by simp
  next
    case (spin start n d)
    then have "thread_yield_rr k = Some k' \<or> k' = k" by (auto simp: timer_sleep_spin_def split: if_splits bind_splits)
    then show ?thesis using thread_yield_flat sched_step.yield by blast
  next
    case timer
    then show ?thesis using timer_event_flat [OF timer] sched_step.timer by blast
  next
    case idle
    then have "flat k' = idle_start (flat k)" by (simp add: idle_start_def flat_upd)
    then show ?thesis using idle sched_step.idle [of "flat k"] by simp
  next
    case block
    then show ?thesis using sched_step.block [OF thread_block_flat] by blast
  next
    case yield
    then show ?thesis using sched_step.yield [OF thread_yield_flat] by blast
  next
    case exit
    then show ?thesis using sched_step.exit [OF thread_exit_flat, of k k'] by simp
  qed
qed

lemma rr_step_keeps: "rr_ok k \<Longrightarrow> rr_step k k' \<Longrightarrow> rr_ok k'"
  using rr_step_flat [of k k'] rr_step_queue(2,3) [of k k'] sched_step_keeps by (auto simp: rr_ok_def)

lemma rr_run:
  assumes "rr_step\<^sup>*\<^sup>* k k'" "rr_ok k"
  shows "rr_ok k' \<and> sched_step\<^sup>*\<^sup>* (flat k) (flat k')"
  using assms
proof (induction rule: rtranclp_induct)
  case (step k1 k2)
  then show ?case using rr_step_keeps rr_step_flat [of k1 k2] by (auto intro: rtranclp.rtrancl_into_rtrancl)
qed simp

lemma thread_init_rr_ok: "t \<noteq> NULL \<Longrightarrow> rr_ok (thread_init t p)"
proof -
  assume "t \<noteq> NULL"
  moreover have "flat (thread_init t p) = thread_init t 0" by (auto simp: flat_def thread_init_def)
  ultimately show ?thesis using thread_init_ok [of t 0] by (simp add: rr_ok_def) (simp add: thread_init_def TIME_SLICE_def)
qed

section \<open>Nobody starves\<close>

text \<open>The threads in front of \<open>x\<close>, and the ticks until its turn at the latest.\<close>

definition ahead :: "tid \<Rightarrow> tid list \<Rightarrow> nat" where
  "ahead x r = length (takeWhile (\<lambda>y. y \<noteq> x) r)"

definition turn :: "tid \<Rightarrow> kernel \<Rightarrow> nat" where
  "turn x k = TIME_SLICE * ahead x (ready_list k) + (TIME_SLICE - thread_ticks k)"

lemma ahead_append: "x \<in> set r \<Longrightarrow> ahead x (r @ ys) = ahead x r"
  by (induction r) (auto simp: ahead_def)

lemma handed_over:
  assumes "x \<in> set (ready_list k)" "ready_list k @ ys \<noteq> [] \<longrightarrow> running k' = hd (ready_list k @ ys)"
    "ready_list k' = tl (ready_list k @ ys)" "thread_ticks k' = 0"
  shows "running k' = x \<or> x \<in> set (ready_list k') \<and> turn x k' \<le> TIME_SLICE * ahead x (ready_list k)"
proof (cases "ready_list k")
  case Nil
  then show ?thesis using assms(1) by simp
next
  case (Cons y r)
  then have "running k' = y" "ready_list k' = r @ ys" using assms(2,3) by simp_all
  moreover have "ahead x (y # r) = Suc (ahead x r)" if "y \<noteq> x" using that by (simp add: ahead_def)
  ultimately show ?thesis using Cons assms(1,4) ahead_append [of x r ys] by (auto simp: turn_def)
qed

lemma queue_step_turn:
  assumes "queue_step k k'" "x \<in> set (ready_list k)"
  shows "running k' = x \<or> x \<in> set (ready_list k') \<and> turn x k' \<le> turn x k"
proof -
  obtain ys where "(ready_list k' = ready_list k @ ys \<and> thread_ticks k' = thread_ticks k) \<or>
     (ready_list k @ ys \<noteq> [] \<longrightarrow> running k' = hd (ready_list k @ ys)) \<and> ready_list k' = tl (ready_list k @ ys) \<and> thread_ticks k' = 0"
    using assms(1) unfolding queue_step_def by blast
  then show ?thesis
  proof (elim disjE conjE)
    assume "ready_list k' = ready_list k @ ys" "thread_ticks k' = thread_ticks k"
    then show ?thesis using assms(2) ahead_append [of x "ready_list k" ys] by (simp add: turn_def)
  next
    assume "ready_list k @ ys \<noteq> [] \<longrightarrow> running k' = hd (ready_list k @ ys)" "ready_list k' = tl (ready_list k @ ys)" "thread_ticks k' = 0"
    from handed_over [OF assms(2) this] show ?thesis by (auto simp: turn_def)
  qed
qed

lemma timer_event_turn:
  assumes "timer_event_rr k = Some k'" "x \<in> set (ready_list k)" "rr_ok k"
  shows "running k' = x \<or> x \<in> set (ready_list k') \<and> turn x k' < turn x k"
  using timer_event_queue(3) [OF assms(3,1)]
proof (elim disjE conjE exE)
  fix ys assume r: "ready_list k' = ready_list k @ ys" and "thread_ticks k' = Suc (thread_ticks k)" "thread_ticks k' < TIME_SLICE"
  then have "TIME_SLICE - thread_ticks k' < TIME_SLICE - thread_ticks k" by linarith
  then have "turn x k' < turn x k" unfolding turn_def r ahead_append [OF assms(2)] by (rule add_strict_left_mono)
  then show ?thesis using assms(2) r by simp
next
  fix ys assume "ready_list k @ ys \<noteq> [] \<longrightarrow> running k' = hd (ready_list k @ ys)" "ready_list k' = tl (ready_list k @ ys)" "thread_ticks k' = 0"
  from handed_over [OF assms(2) this] show ?thesis using assms(3) by (auto simp: turn_def rr_ok_def)
qed

lemma rr_step_turn:
  assumes "rr_step k k'" "rr_ok k" "x \<in> set (ready_list k)"
  shows "running k' = x \<or> x \<in> set (ready_list k') \<and> turn x k' \<le> turn x k"
  using rr_step_queue(1) [OF assms(2,1)] queue_step_turn [OF _ assms(3)] timer_event_turn [OF _ assms(3,2)] by fastforce

text \<open>A run: one step after the other.\<close>

lemma run_waits:
  assumes run: "\<And>i. rr_step (k i) (k (Suc i))" and slice: "\<And>i. rr_ok (k i)"
    and x: "x \<in> set (ready_list (k n))"
  shows "(\<exists>m. n < m \<and> m \<le> n + d \<and> running (k m) = x) \<or> x \<in> set (ready_list (k (n + d))) \<and> turn x (k (n + d)) \<le> turn x (k n)"
proof (induction d)
  case (Suc d)
  then show ?case
  proof
    assume "\<exists>m. n < m \<and> m \<le> n + d \<and> running (k m) = x"
    then show ?thesis by (auto intro: le_SucI)
  next
    assume w: "x \<in> set (ready_list (k (n + d))) \<and> turn x (k (n + d)) \<le> turn x (k n)"
    from rr_step_turn [OF run slice conjunct1 [OF w]] show ?thesis
    proof
      assume "running (k (Suc (n + d))) = x"
      then show ?thesis by (intro disjI1 exI [of _ "Suc (n + d)"]) simp
    next
      assume "x \<in> set (ready_list (k (Suc (n + d)))) \<and> turn x (k (Suc (n + d))) \<le> turn x (k (n + d))"
      then show ?thesis using w by auto
    qed
  qed
qed (use x in simp)

lemma run_reaches:
  assumes run: "\<And>i. rr_step (k i) (k (Suc i))" and slice: "\<And>i. rr_ok (k i)"
    and tick: "\<And>i. \<exists>j \<ge> i. timer_event_rr (k j) = Some (k (Suc j))"
  shows "x \<in> set (ready_list (k n)) \<Longrightarrow>
    \<exists>m > n. running (k m) = x \<and> card {j. n \<le> j \<and> j < m \<and> timer_event_rr (k j) = Some (k (Suc j))} \<le> turn x (k n)"
proof (induction "turn x (k n)" arbitrary: n rule: less_induct)
  case less
  let ?T = "\<lambda>j. timer_event_rr (k j) = Some (k (Suc j))"
  define j where "j = (LEAST j. n \<le> j \<and> ?T j)"
  have "\<exists>j. n \<le> j \<and> ?T j" using tick [of n] by blast
  then have j: "n \<le> j \<and> ?T j" unfolding j_def by (rule LeastI_ex)
  have nj: "\<not> ?T i" if "n \<le> i" "i < j" for i using not_less_Least [of i "\<lambda>j. n \<le> j \<and> ?T j"] that by (auto simp: j_def)
  have pos: "0 < turn x (k n)" using slice [of n] by (simp add: turn_def rr_ok_def)
  have early: ?case if "n < m" "m \<le> Suc j" "running (k m) = x" for m
  proof -
    have "i = j" if "n \<le> i" "i < m" "?T i" for i using nj [of i] that \<open>m \<le> Suc j\<close> by (cases "i < j") auto
    then have "{i. n \<le> i \<and> i < m \<and> ?T i} \<subseteq> {j}" by blast
    then have "card {i. n \<le> i \<and> i < m \<and> ?T i} \<le> 1" using card_mono [of "{j}"] by force
    then show ?thesis using \<open>n < m\<close> \<open>running (k m) = x\<close> pos by (intro exI [of _ m]) simp
  qed
  from run_waits [OF run slice less(2), of "j - n"] j
  have "(\<exists>m. n < m \<and> m \<le> j \<and> running (k m) = x) \<or> x \<in> set (ready_list (k j)) \<and> turn x (k j) \<le> turn x (k n)" by simp
  then show ?case
  proof (elim disjE exE conjE)
    fix m assume "n < m" "m \<le> j" "running (k m) = x"
    then show ?thesis using early by simp
  next
    assume w: "x \<in> set (ready_list (k j))" "turn x (k j) \<le> turn x (k n)"
    from timer_event_turn [OF _ w(1) slice, of "k (Suc j)"] j
    have "running (k (Suc j)) = x \<or> x \<in> set (ready_list (k (Suc j))) \<and> turn x (k (Suc j)) < turn x (k j)" by blast
    then show ?thesis
    proof (elim disjE conjE)
      assume "running (k (Suc j)) = x"
      then show ?thesis using early [of "Suc j"] j by simp
    next
      assume s: "x \<in> set (ready_list (k (Suc j)))" "turn x (k (Suc j)) < turn x (k j)"
      then obtain m where m: "Suc j < m" "running (k m) = x" "card {i. Suc j \<le> i \<and> i < m \<and> ?T i} \<le> turn x (k (Suc j))"
        using less(1) [of "Suc j"] w(2) by auto
      have "i = j \<or> Suc j \<le> i" if "n \<le> i" "?T i" for i using nj [of i] that by (cases "i < j") auto
      then have "{i. n \<le> i \<and> i < m \<and> ?T i} \<subseteq> insert j {i. Suc j \<le> i \<and> i < m \<and> ?T i}" by blast
      moreover have "finite {i. Suc j \<le> i \<and> i < m \<and> ?T i}" by simp
      ultimately have "card {i. n \<le> i \<and> i < m \<and> ?T i} \<le> Suc (card {i. Suc j \<le> i \<and> i < m \<and> ?T i})"
        using card_mono [of "insert j {i. Suc j \<le> i \<and> i < m \<and> ?T i}"] by (auto simp: card_insert_if split: if_splits)
      then show ?thesis using m s(2) w(2) j by (intro exI [of _ m]) simp
    qed
  qed
qed

section \<open>Timer interrupts do not fail\<close>

lemma schedule_unflat: "schedule (flat k) \<noteq> None \<Longrightarrow> schedule k \<noteq> None"
proof (cases "ready_list k")
  case Nil
  then have n: "next_thread_to_run k = (idle_thread k, k)" "next_thread_to_run (flat k) = (idle_thread k, flat k)"
    by (simp_all add: next_thread_to_run_def)
  show "schedule (flat k) \<noteq> None \<Longrightarrow> schedule k \<noteq> None"
    using n by (auto simp: schedule_def thread_schedule_tail_def Let_def kassert_bind_Some_iff split: if_splits)
next
  case (Cons t ts)
  then have n: "next_thread_to_run k = (t, k\<lparr>ready_list := ts\<rparr>)" "next_thread_to_run (flat k) = (t, (flat k)\<lparr>ready_list := ts\<rparr>)"
    by (simp_all add: next_thread_to_run_def)
  show "schedule (flat k) \<noteq> None \<Longrightarrow> schedule k \<noteq> None"
    using n by (auto simp: schedule_def thread_schedule_tail_def Let_def kassert_bind_Some_iff split: if_splits)
qed

lemma thread_yield_rr_total:
  assumes "sched_ok (flat k)" "\<not> intr_ctx k"
  shows "\<exists>k'. thread_yield_rr k = Some k'"
proof -
  let ?k = "set_status (running k) THREAD_READY (k\<lparr>ready_list := ready_list k @ (if running k = idle_thread k then [] else [running k])\<rparr>)"
  have c: "thread_current k = Some (running k)" using sched_ok_running [OF assms(1)] by simp
  obtain k' where "thread_yield (flat k) = Some k'" using thread_yield_spec [OF assms(1)] assms(2) by auto
  then have "schedule (flat ?k) \<noteq> None" using c assms(2)
    by (cases "running k = idle_thread k") (simp_all add: thread_yield_def Let_def prio_insert_flat flat_upd)
  then show ?thesis using schedule_unflat [of ?k] c assms(2)
    by (cases "running k = idle_thread k") (simp_all add: thread_yield_rr_def Let_def)
qed

lemma timer_event_rr_total:
  assumes "rr_ok k"
  shows "\<exists>k'. timer_event_rr k = Some k'"
proof -
  obtain k1 where 1: "timer_event_rr k = (if TIME_SLICE \<le> Suc (thread_ticks k) then thread_yield_rr k1 else Some k1)" "kernel_ok (flat k1)"
    using timer_event_run [OF assms] by (elim exE conjE) (rule that)
  then have "\<exists>k'. thread_yield_rr k1 = Some k'" by (intro thread_yield_rr_total) (auto simp: kernel_ok_def)
  then show ?thesis using 1(1) by simp
qed

section \<open>Fairness\<close>

text \<open>C19: Without priorities no thread starves: in every run in which the timer keeps interrupting, whatever else the threads do, a ready thread
  runs, after at most \<^verbatim>\<open>TIME_SLICE\<close> timer interrupts for itself and each thread in front of it.\<close>

theorem round_robin_never_starves:
  assumes "t \<noteq> NULL" and "rr_step\<^sup>*\<^sup>* (thread_init t p) (k 0)" and "\<forall>i. rr_step (k i) (k (Suc i))"
    and "\<forall>i. \<exists>j \<ge> i. timer_event_rr (k j) = Some (k (Suc j))" and "x \<in> set (ready_list (k n))"
  shows "\<exists>m > n. running (k m) = x \<and> card {j. n \<le> j \<and> j < m \<and> timer_event_rr (k j) = Some (k (Suc j))} \<le>
    TIME_SLICE * Suc (length (takeWhile (\<lambda>y. y \<noteq> x) (ready_list (k n))))"
proof -
  have "rr_ok (k 0)" using rr_run [OF assms(2) thread_init_rr_ok [OF assms(1)]] by blast
  then have "rr_ok (k i)" for i by (induction i) (use assms(3) rr_step_keeps in blast)+
  then obtain m where m: "m > n" "running (k m) = x"
      "card {j. n \<le> j \<and> j < m \<and> timer_event_rr (k j) = Some (k (Suc j))} \<le> turn x (k n)"
    using run_reaches [of k x n] assms(3-5) by blast
  have "turn x (k n) \<le> TIME_SLICE * Suc (length (takeWhile (\<lambda>y. y \<noteq> x) (ready_list (k n))))" by (simp add: turn_def ahead_def)
  then show ?thesis using m by (intro exI [of _ m]) simp
qed

text \<open>Two threads and a timer.\<close>

definition two_threads :: kernel where
  "two_threads = (thread_init 10 31)\<lparr>is_thread := \<lambda>x. x = 10 \<or> x = 20, t_status := (\<lambda>_. THREAD_BLOCKED)(10 := THREAD_RUNNING, 20 := THREAD_READY),
     t_priority := (\<lambda>_. 0)(10 := 31, 20 := 7), all_list := [10, 20], ready_list := [20]\<rparr>"

lemma two_threads_created: "thread_create_rr 20 7 (thread_init 10 31) = Some (20, two_threads)"
  "thread_create 20 7 (thread_init 10 31) = Some (20, two_threads)"
  by (simp_all add: thread_create_rr_def thread_create_def init_thread_def thread_unblock_rr_def thread_unblock_def two_threads_def
    thread_init_def PRI_MIN_def PRI_MAX_def thread_current_def fun_eq_iff Let_def)

fun ticking :: "nat \<Rightarrow> kernel" where
  "ticking 0 = two_threads"
| "ticking (Suc i) = the (timer_event_rr (ticking i))"

lemma ticking_runs: "rr_ok (ticking i) \<and> timer_event_rr (ticking i) = Some (ticking (Suc i))"
proof (induction i)
  case 0
  have "rr_step (thread_init 10 31) two_threads"
    by (rule rr_step.create [OF two_threads_created(1)]) (simp add: thread_init_def)
  then have "rr_ok two_threads" by (rule rr_step_keeps [OF thread_init_rr_ok, rotated]) simp
  then show ?case using timer_event_rr_total [of two_threads] by auto
next
  case (Suc i)
  then have "rr_ok (ticking (Suc i))" using rr_step_keeps rr_step.timer by blast
  then show ?case using timer_event_rr_total [of "ticking (Suc i)"] by auto
qed

theorem round_robin_never_starves_witness: "\<exists>m > 0. running (ticking m) = 20"
proof -
  have "rr_step\<^sup>*\<^sup>* (thread_init 10 31) (ticking 0)"
    using rr_step.create [OF two_threads_created(1)] by (simp add: thread_init_def r_into_rtranclp)
  moreover have "\<forall>i. rr_step (ticking i) (ticking (Suc i))" using ticking_runs rr_step.timer by blast
  moreover have "\<forall>i. \<exists>j \<ge> i. timer_event_rr (ticking j) = Some (ticking (Suc j))" using ticking_runs by blast
  moreover have "20 \<in> set (ready_list (ticking 0))" by (simp add: two_threads_def)
  ultimately show ?thesis using round_robin_never_starves [of 10 31 ticking 20 0] by auto
qed

text \<open>With priorities a ready thread can starve: here thread 10 has the processor for ever.\<close>

lemma timer_event_stays:
  assumes ok: "kernel_ok k" and "running k \<noteq> idle_thread k" "timer_list k = []"
    and low: "\<forall>x \<in> set (ready_list k). t_priority k x < t_priority k (running k)"
  shows "\<exists>k'. timer_event k = Some k' \<and> running k' = running k \<and> ready_list k' = ready_list k \<and> timer_list k' = [] \<and>
    t_priority k' = t_priority k \<and> idle_thread k' = idle_thread k \<and> kernel_ok k'"
proof -
  note K = kernel_okD [OF ok]
  let ?k = "k\<lparr>intr_ctx := True, yield_on_return := False, ticks := ticks k + 1\<rparr>"
  have "thread_current ?k = Some (running k)" using sched_okD(2,3) [OF K(1)] by (simp add: thread_current_def)
  then have "\<exists>k1. thread_tick ?k = Some k1"
    by (cases "running k = idle_thread k"; cases "TIME_SLICE \<le> Suc (thread_ticks k)") (simp_all add: thread_tick_def Let_def)
  then obtain k1 where t: "thread_tick ?k = Some k1" by blast
  have s: "same_threads k k1" using t by (auto simp: thread_tick_def Let_def kassert_bind_Some_iff same_threads_def split: if_splits bind_splits)
  let ?k1 = "k1\<lparr>intr_ctx := False\<rparr>"
  have so: "sched_ok ?k1" using same_threads_ok [of k ?k1] K(1) s by (simp add: same_threads_def)
  have e: "timer_list k1 = []" "running k1 = running k" "ready_list k1 = ready_list k" "t_priority k1 = t_priority k" "idle_thread k1 = idle_thread k"
    using s assms(3) by (simp_all add: same_threads_def)
  have run: "timer_event k = (if yield_on_return k1 then thread_yield ?k1 else Some ?k1)"
    using t e(1) K(4) by (simp add: timer_event_def timer_interrupt_def Let_def)
  have ins: "prio_insert (t_priority k) (running k) (ready_list k) = running k # ready_list k"
    using low by (cases "ready_list k") auto
  obtain k2 where y: "thread_yield ?k1 = Some k2" "same_frame ?k1 k2" "t_priority k2 = t_priority ?k1"
    "running k2 = running k" "ready_list k2 = ready_list k"
    using thread_yield_spec [OF so] assms(2) e ins by (auto simp: Let_def)
  then have "\<exists>k'. timer_event k = Some k' \<and> running k' = running k \<and> ready_list k' = ready_list k \<and> timer_list k' = [] \<and>
    t_priority k' = t_priority k \<and> idle_thread k' = idle_thread k"
    using run e by (cases "yield_on_return k1") (auto simp: same_frame_def)
  then show ?thesis using timer_event_keeps [OF ok] by blast
qed

theorem priority_scheduler_starves:
  "\<exists>k. sched_step\<^sup>*\<^sup>* (thread_init 10 31) (k 0) \<and>
     (\<forall>i. timer_event (k i) = Some (k (Suc i)) \<and> running (k i) = 10 \<and> ready_list (k i) = [20])"
proof -
  let ?k = "rec_nat two_threads (\<lambda>_ k. the (timer_event k))"
  have c: "sched_step (thread_init 10 31) two_threads"
    by (rule sched_step.create [OF two_threads_created(2)]) (simp add: thread_init_def)
  have "kernel_ok (?k i) \<and> running (?k i) = 10 \<and> ready_list (?k i) = [20] \<and> timer_list (?k i) = [] \<and> idle_thread (?k i) = 0 \<and>
    t_priority (?k i) = t_priority two_threads \<and> timer_event (?k i) = Some (?k (Suc i))" for i
  proof (induction i)
    case 0
    have "kernel_ok two_threads" by (rule sched_step_keeps [OF c thread_init_ok]) simp
    then show ?case using timer_event_stays [of two_threads] by (auto simp: two_threads_def thread_init_def)
  next
    case (Suc i)
    have p: "t_priority two_threads 20 < t_priority two_threads 10" by (simp add: two_threads_def)
    from Suc timer_event_stays [of "?k i"] have k: "kernel_ok (?k (Suc i))" "running (?k (Suc i)) = 10" "ready_list (?k (Suc i)) = [20]"
      "timer_list (?k (Suc i)) = []" "idle_thread (?k (Suc i)) = 0" "t_priority (?k (Suc i)) = t_priority two_threads"
      using p by auto
    then show ?case using timer_event_stays [of "?k (Suc i)"] p by auto
  qed
  then show ?thesis using c by (intro exI [of _ ?k]) auto
qed

section \<open>Sleeping\<close>



section \<open>Semaphores, locks and condition variables\<close>

definition semaphore_down_round_rr :: "semaphore \<Rightarrow> kernel \<Rightarrow> (bool \<times> semaphore \<times> kernel) option" where
  "semaphore_down_round_rr s k =
     (if sem_value s = 0
      then do {
        cur \<leftarrow> thread_current k;
        let s = s\<lparr>waiters := waiters s @ [cur]\<rparr>;
        k \<leftarrow> thread_block k;
        Some (False, s, k) }
      else Some (True, s\<lparr>sem_value := sem_value s - 1\<rparr>, k))"

definition semaphore_down_rr :: "semaphore \<Rightarrow> kernel \<Rightarrow> (bool \<times> semaphore \<times> kernel) option" where
  "semaphore_down_rr s k = do {
     kassert (\<not> intr_ctx k);
     semaphore_down_round_rr s k }"

definition semaphore_up_rr :: "semaphore \<Rightarrow> kernel \<Rightarrow> (semaphore \<times> kernel) option" where
  "semaphore_up_rr s k = do {
     (s, k) \<leftarrow> (case waiters s of
        [] \<Rightarrow> Some (s, k)
      | t # ts \<Rightarrow> do {
          k \<leftarrow> thread_unblock_rr t k;
          Some (s\<lparr>waiters := ts\<rparr>, k) });
     Some (s\<lparr>sem_value := sem_value s + 1\<rparr>, k) }"

definition lock_acquire_rr :: "lock \<Rightarrow> kernel \<Rightarrow> (bool \<times> lock \<times> kernel) option" where
  "lock_acquire_rr l k = do {
     kassert (\<not> intr_ctx k);
     held \<leftarrow> lock_held_by_current_thread l k;
     kassert (\<not> held);
     (d, s, k) \<leftarrow> semaphore_down_rr (lock_sema l) k;
     Some (d, l\<lparr>lock_sema := s\<rparr>, k) }"

definition lock_release_up_rr :: "lock \<Rightarrow> kernel \<Rightarrow> (lock \<times> kernel) option" where
  "lock_release_up_rr l k = do {
     (s, k) \<leftarrow> semaphore_up_rr (lock_sema l) k;
     Some (l\<lparr>lock_sema := s\<rparr>, k) }"

definition lock_release_rr :: "lock \<Rightarrow> kernel \<Rightarrow> (lock \<times> kernel) option" where
  "lock_release_rr l k = do { l \<leftarrow> lock_release_begin l k; lock_release_up_rr l k }"

text \<open>\<^verbatim>\<open>condvar_wait\<close> up to its call of \<^verbatim>\<open>semaphore_down\<close>, and that call.\<close>

definition condvar_wait_enter_rr :: "condvar \<Rightarrow> lock \<Rightarrow> kernel \<Rightarrow> (condvar \<times> lock \<times> kernel) option" where
  "condvar_wait_enter_rr c l k = do {
     kassert (\<not> intr_ctx k);
     held \<leftarrow> lock_held_by_current_thread l k;
     kassert held;
     cur \<leftarrow> thread_current k;
     let sm = (cond_sema c)(cur := semaphore_init 0);
     let ws = cond_waiters c @ [cur];
     (l, k) \<leftarrow> lock_release_rr l k;
     Some (\<lparr>cond_waiters = ws, cond_sema = sm\<rparr>, l, k) }"

definition condvar_wait_down_rr :: "condvar \<Rightarrow> kernel \<Rightarrow> (bool \<times> condvar \<times> kernel) option" where
  "condvar_wait_down_rr c k = do {
     cur \<leftarrow> thread_current k;
     (d, s, k) \<leftarrow> semaphore_down_rr (cond_sema c cur) k;
     Some (d, c\<lparr>cond_sema := (cond_sema c)(cur := s)\<rparr>, k) }"

definition condvar_signal_rr :: "condvar \<Rightarrow> lock \<Rightarrow> kernel \<Rightarrow> (condvar \<times> kernel) option" where
  "condvar_signal_rr c l k = do {
     kassert (\<not> intr_ctx k);
     held \<leftarrow> lock_held_by_current_thread l k;
     kassert held;
     case cond_waiters c of
       [] \<Rightarrow> Some (c, k)
     | t # ts \<Rightarrow> do {
         (s, k) \<leftarrow> semaphore_up_rr (cond_sema c t) k;
         Some (\<lparr>cond_waiters = ts, cond_sema = (cond_sema c)(t := s)\<rparr>, k) } }"

text \<open>The loop of \<^verbatim>\<open>condvar_broadcast\<close>: no thread is switched in it, unless by the timer, and the lock is held.\<close>

function (sequential) condvar_broadcast_rr :: "condvar \<Rightarrow> lock \<Rightarrow> kernel \<Rightarrow> (condvar \<times> kernel) option" where
  "condvar_broadcast_rr c l k =
     (if cond_waiters c = [] then Some (c, k)
      else case condvar_signal_rr c l k of None \<Rightarrow> None | Some (c', k') \<Rightarrow> condvar_broadcast_rr c' l k')"
  by pat_completeness auto
termination
  by (relation "measure (\<lambda>(c, l, k). length (cond_waiters c))")
     (auto simp: condvar_signal_rr_def kassert_bind_Some_iff split: list.splits bind_splits)

text \<open>All interleavings, as \<open>lock_step\<close> of theory Sync has them for Lab2.\<close>

inductive rr_lock_step :: "lock_system \<Rightarrow> lock_system \<Rightarrow> bool" where
  acquire: "pc s (running (kern s)) = Outside \<Longrightarrow> running (kern s) \<noteq> idle_thread (kern s) \<Longrightarrow>
    lock_acquire_rr (the_lock s) (kern s) = Some (d, l, k) \<Longrightarrow>
    rr_lock_step s \<lparr>the_lock = l, kern = k, pc = (pc s)(running (kern s) := if d then Downed else Waiting)\<rparr>"
| retry: "pc s (running (kern s)) = Waiting \<Longrightarrow> running (kern s) \<noteq> idle_thread (kern s) \<Longrightarrow>
    semaphore_down_round_rr (lock_sema (the_lock s)) (kern s) = Some (d, sm, k) \<Longrightarrow>
    rr_lock_step s \<lparr>the_lock = (the_lock s)\<lparr>lock_sema := sm\<rparr>, kern = k,
      pc = (pc s)(running (kern s) := if d then Downed else Waiting)\<rparr>"
| own: "pc s (running (kern s)) = Downed \<Longrightarrow> lock_acquire_done (the_lock s) (kern s) = Some l \<Longrightarrow>
    rr_lock_step s \<lparr>the_lock = l, kern = kern s, pc = (pc s)(running (kern s) := Holding)\<rparr>"
| release: "pc s (running (kern s)) = Holding \<Longrightarrow> lock_release_begin (the_lock s) (kern s) = Some l \<Longrightarrow>
    rr_lock_step s \<lparr>the_lock = l, kern = kern s, pc = (pc s)(running (kern s) := Releasing)\<rparr>"
| up: "pc s (running (kern s)) = Releasing \<Longrightarrow> lock_release_up_rr (the_lock s) (kern s) = Some (l, k) \<Longrightarrow>
    rr_lock_step s \<lparr>the_lock = l, kern = k, pc = (pc s)(running (kern s) := Outside)\<rparr>"
| work: "pc s (running (kern s)) \<in> {Outside, Holding} \<Longrightarrow> rr_step (kern s) k \<Longrightarrow>
    set (waiters (lock_sema (the_lock s))) \<inter> set (ready_list k) = {} \<Longrightarrow>
    rr_lock_step s (s\<lparr>kern := k\<rparr>)"
| preempt: "timer_event_rr (kern s) = Some k \<Longrightarrow> rr_lock_step s (s\<lparr>kern := k\<rparr>)"

definition flat_lock :: "lock_system \<Rightarrow> lock_system" where
  "flat_lock s = s\<lparr>kern := flat (kern s)\<rparr>"

lemma flat_lock_simps [simp]: "the_lock (flat_lock s) = the_lock s" "kern (flat_lock s) = flat (kern s)" "pc (flat_lock s) = pc s"
  by (simp_all add: flat_lock_def)

lemma held_flat [simp]: "lock_held_by_current_thread l (flat k) = lock_held_by_current_thread l k"
  "lock_acquire_done l (flat k) = lock_acquire_done l k" "lock_release_begin l (flat k) = lock_release_begin l k"
  by (simp_all add: lock_held_by_current_thread_def lock_acquire_done_def lock_release_begin_def)

lemma semaphore_down_round_flat:
  assumes "semaphore_down_round_rr s k = Some (d, s', k')"
  shows "semaphore_down_round s (flat k) = Some (d, s', flat k')" "rr_step\<^sup>=\<^sup>= k k'"
proof -
  have "semaphore_down_round s (flat k) = Some (d, s', flat k') \<and> rr_step\<^sup>=\<^sup>= k k'"
  proof (cases "sem_value s = 0")
    case False
    then show ?thesis using assms by (simp add: semaphore_down_round_rr_def semaphore_down_round_def)
  next
    case True
    then obtain cur where c: "thread_current k = Some cur" "thread_block k = Some k'" "\<not> d" "s' = s\<lparr>waiters := waiters s @ [cur]\<rparr>"
      using assms by (auto simp: semaphore_down_round_rr_def Let_def split: bind_splits)
    then show ?thesis
      using True thread_block_flat [OF c(2)] rr_step.block [OF c(2)] by (simp add: semaphore_down_round_def prio_insert_flat Let_def)
  qed
  then show "semaphore_down_round s (flat k) = Some (d, s', flat k')" "rr_step\<^sup>=\<^sup>= k k'" by blast+
qed

lemma semaphore_up_flat:
  assumes "sched_ok (flat k)" "semaphore_up_rr s k = Some (s', k')" "set (waiters s) \<subseteq> parked (flat k)"
  shows "semaphore_up s (flat k) = Some (s', flat k')" "rr_step\<^sup>=\<^sup>= k k'"
proof -
  have "semaphore_up s (flat k) = Some (s', flat k') \<and> rr_step\<^sup>=\<^sup>= k k'"
  proof (cases "waiters s")
    case Nil
    then show ?thesis using assms(2) by (auto simp: semaphore_up_rr_def semaphore_up_def)
  next
    case (Cons t ts)
    then have c: "thread_unblock_rr t k = Some k'" "s' = s\<lparr>waiters := ts, sem_value := sem_value s + 1\<rparr>"
      using assms(2) by (auto simp: semaphore_up_rr_def split: bind_splits)
    have "t \<noteq> idle_thread k" "t \<notin> set (timer_list k)" using assms(3) Cons by (auto simp: parked_def)
    then show ?thesis
      using Cons c(2) thread_unblock_flat(1) [OF _ c(1)] sched_ok_running [OF assms(1)] rr_step.unblock [OF c(1)]
      by (simp add: semaphore_up_def Let_def)
  qed
  then show "semaphore_up s (flat k) = Some (s', flat k')" "rr_step\<^sup>=\<^sup>= k k'" by blast+
qed

definition rr_lock_ok :: "lock_system \<Rightarrow> bool" where
  "rr_lock_ok s \<longleftrightarrow> rr_ok (kern s) \<and> lock_ok (flat_lock s)"

lemma rr_lock_step_keeps:
  assumes ok: "rr_lock_ok s" and step: "rr_lock_step s s'"
  shows "rr_lock_ok s'"
proof -
  have r: "rr_ok (kern s)" and L: "lock_ok (flat_lock s)" using ok by (auto simp: rr_lock_ok_def)
  have so: "sched_ok (flat (kern s))" using r by (simp add: rr_ok_def kernel_ok_def)
  have keep: "rr_lock_ok s'" if "lock_step (flat_lock s) (flat_lock s')" "rr_step\<^sup>=\<^sup>= (kern s) (kern s')"
    using that lock_step_keeps [OF that(1) L] rr_step_keeps [OF r] r by (auto simp: rr_lock_ok_def)
  from step show ?thesis
  proof (cases rule: rr_lock_step.cases)
    case (acquire d l k)
    then obtain sm where c: "\<not> intr_ctx (kern s)" "lock_held_by_current_thread (the_lock s) (kern s) = Some False"
      "semaphore_down_round_rr (lock_sema (the_lock s)) (kern s) = Some (d, sm, k)" "l = (the_lock s)\<lparr>lock_sema := sm\<rparr>"
      by (auto simp: lock_acquire_rr_def semaphore_down_rr_def kassert_bind_Some_iff split: bind_splits)
    note f = semaphore_down_round_flat [OF c(3)]
    have "lock_acquire (the_lock (flat_lock s)) (kern (flat_lock s)) = Some (d, l, flat k)"
      using c f(1) by (simp add: lock_acquire_def semaphore_down_def)
    from lock_step.acquire [OF _ _ this] acquire f(2) show ?thesis by (intro keep) (simp_all add: flat_lock_def)
  next
    case (retry d sm k)
    note f = semaphore_down_round_flat [OF retry(4)]
    from f(1) have "semaphore_down_round (lock_sema (the_lock (flat_lock s))) (kern (flat_lock s)) = Some (d, sm, flat k)" by simp
    from lock_step.retry [OF _ _ this] retry f(2) show ?thesis by (intro keep) (simp_all add: flat_lock_def)
  next
    case (own l)
    then show ?thesis using lock_step.own [of "flat_lock s" l] by (intro keep) (simp_all add: flat_lock_def)
  next
    case (release l)
    then show ?thesis using lock_step.release [of "flat_lock s" l] by (intro keep) (simp_all add: flat_lock_def)
  next
    case (up l k)
    then obtain sm where c: "semaphore_up_rr (lock_sema (the_lock s)) (kern s) = Some (sm, k)" "l = (the_lock s)\<lparr>lock_sema := sm\<rparr>"
      by (auto simp: lock_release_up_rr_def split: bind_splits)
    have "set (waiters (lock_sema (the_lock s))) \<subseteq> parked (flat (kern s))" using sema_okD(3) [OF lock_okD(2) [OF L]] by simp
    note f = semaphore_up_flat [OF so c(1) this]
    have "lock_release_up (the_lock (flat_lock s)) (kern (flat_lock s)) = Some (l, flat k)" using f(1) c(2) by (simp add: lock_release_up_def)
    from lock_step.up [OF _ this] up f(2) show ?thesis by (intro keep) (simp_all add: flat_lock_def)
  next
    case (work k)
    have nu: "thread_unblock t (flat (kern s)) \<noteq> Some (flat k)" if t: "t \<in> set (waiters (lock_sema (the_lock s)))" for t
    proof
      assume u: "thread_unblock t (flat (kern s)) = Some (flat k)"
      then have b: "is_thread (kern s) t" "t_status (kern s) t = THREAD_BLOCKED" using unblock_needs [OF u] by simp_all
      have "flat k = make_ready t (flat (kern s))" using u thread_unblock_run [OF so, of t] b by (simp add: preempts_def)
      then have "ready_list (flat k) = ready_list (make_ready t (flat (kern s)))" by (rule arg_cong)
      then have "t \<in> set (ready_list k)" by (simp add: make_ready_def prio_insert_flat)
      then show False using work(4) t by blast
    qed
    from rr_step_flat [OF r work(3)] show ?thesis
    proof
      assume "sched_step (flat (kern s)) (flat k)"
      then show ?thesis using lock_step.work [of "flat_lock s" "flat k"] work(1-3) nu by (intro keep) (simp_all add: flat_lock_def)
    next
      assume "flat (kern s) = flat k"
      then have "flat_lock s' = flat_lock s" using work(1) by (simp add: flat_lock_def)
      then show ?thesis using L rr_step_keeps [OF r work(3)] work(1) by (simp add: rr_lock_ok_def)
    qed
  next
    case (preempt k)
    have "timer_event (kern (flat_lock s)) = Some (flat k)" using timer_event_flat [OF preempt(2)] by simp
    from lock_step.preempt [OF this] preempt rr_step.timer [OF preempt(2)] show ?thesis by (intro keep) (simp_all add: flat_lock_def)
  qed
qed

text \<open>Also with first-come first-served scheduling and wake-ups, under every interleaving at most one thread is between the decrement of the
  lock's semaphore and its increment, the holder field names the thread that holds the lock, and no wake-up is lost.\<close>

theorem round_robin_lock_exclusion:
  assumes "t \<noteq> NULL" and "rr_step\<^sup>*\<^sup>* (thread_init t p) k" and "rr_lock_step\<^sup>*\<^sup>* (lock_system_init k) s"
  shows "(\<forall>t u. pc s t \<in> {Downed, Holding, Releasing} \<and> pc s u \<in> {Downed, Holding, Releasing} \<longrightarrow> t = u) \<and>
    (\<forall>t. t \<noteq> NULL \<longrightarrow> (holder (the_lock s) = t \<longleftrightarrow> pc s t = Holding)) \<and>
    ((\<forall>t. pc s t \<in> {Outside, Waiting}) \<and> waiters (lock_sema (the_lock s)) \<noteq> [] \<longrightarrow>
      (\<exists>t. pc s t = Waiting \<and> t \<notin> set (waiters (lock_sema (the_lock s))) \<and>
         (t_status (kern s) t = THREAD_READY \<or> t_status (kern s) t = THREAD_RUNNING)))"
proof -
  have "rr_ok k" using rr_run [OF assms(2) thread_init_rr_ok [OF assms(1)]] by blast
  moreover have "flat_lock (lock_system_init k) = lock_system_init (flat k)" by (simp add: flat_lock_def lock_system_init_def)
  ultimately have "rr_lock_ok (lock_system_init k)"
    using lock_system_init_ok [of "flat k"] by (simp add: rr_lock_ok_def rr_ok_def) (simp add: lock_system_init_def)
  with assms(3) have "rr_lock_ok s" by (induction rule: rtranclp_induct) (auto intro: rr_lock_step_keeps)
  then have "lock_ok (flat_lock s)" by (simp add: rr_lock_ok_def)
  from lock_ok_exclusive [OF this] show ?thesis by simp
qed

theorem round_robin_lock_exclusion_witness:
  "\<exists>s. rr_lock_step\<^sup>*\<^sup>* (lock_system_init two_threads) s \<and> pc s 10 = Holding \<and> holder (the_lock s) = 10"
proof -
  let ?k = "two_threads"
  let ?l = "\<lparr>holder = 0, lock_sema = \<lparr>sem_value = 0, waiters = []\<rparr>\<rparr>"
  have r: "running ?k = 10" "idle_thread ?k = 0" "thread_current ?k = Some 10" "\<not> intr_ctx ?k"
    by (simp_all add: two_threads_def thread_init_def thread_current_def)
  have "lock_acquire_rr lock_init ?k = Some (True, ?l, ?k)"
    using r by (simp add: lock_acquire_rr_def lock_init_def semaphore_init_def lock_held_by_current_thread_def
        semaphore_down_rr_def semaphore_down_round_rr_def)
  then have 1: "rr_lock_step (lock_system_init ?k) \<lparr>the_lock = ?l, kern = ?k, pc = (\<lambda>_. Outside)(10 := Downed)\<rparr>"
    using rr_lock_step.acquire [of "lock_system_init ?k" True ?l ?k] r by (simp add: lock_system_init_def)
  have 2: "rr_lock_step \<lparr>the_lock = ?l, kern = ?k, pc = (\<lambda>_. Outside)(10 := Downed)\<rparr>
      \<lparr>the_lock = ?l\<lparr>holder := 10\<rparr>, kern = ?k, pc = (\<lambda>_. Outside)(10 := Holding)\<rparr>"
    using rr_lock_step.own [of "\<lparr>the_lock = ?l, kern = ?k, pc = (\<lambda>_. Outside)(10 := Downed)\<rparr>" "?l\<lparr>holder := 10\<rparr>"] r
    by (simp add: lock_acquire_done_def)
  let ?s = "\<lparr>the_lock = ?l\<lparr>holder := 10\<rparr>, kern = ?k, pc = (\<lambda>_. Outside)(10 := Holding)\<rparr>"
  have s: "rr_lock_step\<^sup>*\<^sup>* (lock_system_init ?k) ?s" using 1 2 by (meson converse_rtranclp_into_rtranclp rtranclp.rtrancl_refl)
  have "rr_step\<^sup>*\<^sup>* (thread_init 10 31) ?k"
    using rr_step.create [OF two_threads_created(1)] by (simp add: thread_init_def r_into_rtranclp)
  then show ?thesis
    using round_robin_lock_exclusion [of 10 31 ?k ?s] s by (intro exI [of _ ?s]) simp
qed



text \<open>Waiters that all sleep in their own semaphores.\<close>

definition all_asleep :: "condvar \<Rightarrow> kernel \<Rightarrow> bool" where
  "all_asleep c k \<longleftrightarrow> distinct (cond_waiters c) \<and>
     (\<forall>x \<in> set (cond_waiters c). is_thread k x \<and> t_status k x = THREAD_BLOCKED \<and> waiters (cond_sema c x) = [x])"

lemma condvar_signal_rr_spec:
  assumes "all_asleep c k" "thread_current k = Some (holder l)" "\<not> intr_ctx k" "cond_waiters c = x # xs"
  shows "\<exists>c' k'. condvar_signal_rr c l k = Some (c', k') \<and> all_asleep c' k' \<and> thread_current k' = Some (holder l) \<and> \<not> intr_ctx k' \<and>
    cond_waiters c' = xs \<and> ready_list k' = ready_list k @ [x]"
proof -
  have x: "is_thread k x" "t_status k x = THREAD_BLOCKED" "waiters (cond_sema c x) = [x]" "x \<notin> set xs" "distinct xs"
    "\<forall>y \<in> set xs. is_thread k y \<and> t_status k y = THREAD_BLOCKED \<and> waiters (cond_sema c y) = [y]"
    using assms(1,4) by (auto simp: all_asleep_def)
  have h: "holder l = running k" "is_thread k (running k)" "t_status k (running k) = THREAD_RUNNING"
    using assms(2) by (auto simp: thread_current_def kassert_bind_Some_iff)
  let ?k = "set_status x THREAD_READY (k\<lparr>ready_list := ready_list k @ [x]\<rparr>)"
  let ?c = "\<lparr>cond_waiters = xs, cond_sema = (cond_sema c)(x := (cond_sema c x)\<lparr>waiters := [], sem_value := sem_value (cond_sema c x) + 1\<rparr>)\<rparr>"
  have nx: "x \<noteq> running k" using x(2) h(3) by auto
  have "condvar_signal_rr c l k = Some (?c, ?k)"
    using assms(2-4) x(1-3)
    by (simp add: condvar_signal_rr_def lock_held_by_current_thread_def semaphore_up_rr_def thread_unblock_rr_def Let_def)
  moreover have "all_asleep ?c ?k" using x(4-6) by (auto simp: all_asleep_def)
  moreover have "thread_current ?k = Some (holder l)" using h nx by (simp add: thread_current_def)
  ultimately show ?thesis using assms(3) by (intro exI [of _ ?c] exI [of _ ?k]) simp
qed

text \<open>Broadcasting wakes all waiters, in the order in which they came.\<close>

theorem condvar_broadcast_wakes_in_order:
  assumes "all_asleep c k" "thread_current k = Some (holder l)" "\<not> intr_ctx k"
  shows "\<exists>c' k'. condvar_broadcast_rr c l k = Some (c', k') \<and> cond_waiters c' = [] \<and>
    ready_list k' = ready_list k @ cond_waiters c"
  using assms
proof (induction "cond_waiters c" arbitrary: c k)
  case Nil
  then show ?case by simp
next
  case (Cons x xs)
  obtain c1 k1 where s: "condvar_signal_rr c l k = Some (c1, k1)" "all_asleep c1 k1" "thread_current k1 = Some (holder l)" "\<not> intr_ctx k1"
    "cond_waiters c1 = xs" "ready_list k1 = ready_list k @ [x]"
    using condvar_signal_rr_spec [OF Cons.prems Cons.hyps(2) [symmetric]] by blast
  obtain c' k' where "condvar_broadcast_rr c1 l k1 = Some (c', k')" "cond_waiters c' = []" "ready_list k' = ready_list k1 @ cond_waiters c1"
    using Cons.hyps(1) [OF s(5) [symmetric] s(2-4)] by blast
  then show ?case using s(1,5,6) Cons.hyps(2) [symmetric] by (intro exI [of _ c'] exI [of _ k']) simp
qed

end
