(* ===== verification/Partition.thy ===== *)
theory Partition
  imports Stdio Block
begin

text \<open>
  The block devices of the kernel, the rest of \<^verbatim>\<open>devices/block.c\<close>, the partitions on them,
  \<^verbatim>\<open>devices/partition.c\<close>, and the choice of a device for each role in \<^verbatim>\<open>threads/init.c\<close>.
  \<open>all_blocks\<close> is a sequence, as theory KList justifies. A device is the address of its structure; what it
  reads is a sector of a disk or of the device that it is a partition of. Panics are \<open>None\<close>, and so is a scan that does not end.
\<close>

section \<open>Devices\<close>

text \<open>The member \<^verbatim>\<open>ops\<close> of a device with its \<^verbatim>\<open>aux\<close>: a driver, or a \<^verbatim>\<open>struct partition\<close>.\<close>

datatype dev_ops = Disk | Part addr u32

record device =
  dev_name :: string
  dev_type :: block_type
  dev_size :: u32
  dev_aux :: dev_ops
  dev_reads :: nat
  dev_writes :: nat

text \<open>\<open>dmem\<close> are the blocks that \<^verbatim>\<open>malloc\<close> returns next; it has none left when it returns null.\<close>

record devices =
  all_blocks :: "addr list"
  devs :: "addr \<Rightarrow> device"
  disk_data :: "addr \<Rightarrow> u32 \<Rightarrow> byte list"
  by_role :: "block_type \<Rightarrow> addr option"
  dmem :: "addr list"

definition kmalloc :: "devices \<Rightarrow> (addr \<times> devices) option" where
  "kmalloc s = (case dmem s of [] \<Rightarrow> None | a # as \<Rightarrow> Some (a, s\<lparr>dmem := as\<rparr>))"

definition kfree :: "addr \<Rightarrow> devices \<Rightarrow> devices" where
  "kfree a s = s\<lparr>dmem := a # dmem s\<rparr>"

abbreviation upd_dev :: "addr \<Rightarrow> (device \<Rightarrow> device) \<Rightarrow> devices \<Rightarrow> devices" where
  "upd_dev b f s \<equiv> s\<lparr>devs := (devs s)(b := f (devs s b))\<rparr>"

text \<open>\<^verbatim>\<open>block_read\<close> and \<^verbatim>\<open>block_write\<close>, through \<^verbatim>\<open>partition_read\<close> and \<^verbatim>\<open>partition_write\<close> where the device is a partition.\<close>

partial_function (option) dev_read :: "addr \<Rightarrow> u32 \<Rightarrow> devices \<Rightarrow> (byte list \<times> devices) option" where
  "dev_read b sector s =
     (if sector \<ge> dev_size (devs s b) then None
      else do {
        (buffer, s) \<leftarrow> (case dev_aux (devs s b) of Disk \<Rightarrow> Some (disk_data s b sector, s) | Part p start \<Rightarrow> dev_read p (start + sector) s);
        Some (buffer, upd_dev b (\<lambda>d. d\<lparr>dev_reads := dev_reads d + 1\<rparr>) s) })"

partial_function (option) dev_write :: "addr \<Rightarrow> u32 \<Rightarrow> byte list \<Rightarrow> devices \<Rightarrow> devices option" where
  "dev_write b sector buffer s =
     (if sector \<ge> dev_size (devs s b) \<or> dev_type (devs s b) = BLOCK_FOREIGN then None
      else do {
        s \<leftarrow> (case dev_aux (devs s b) of
          Disk \<Rightarrow> Some (s\<lparr>disk_data := (disk_data s)(b := (disk_data s b)(sector := buffer))\<rparr>)
        | Part p start \<Rightarrow> dev_write p (start + sector) buffer s);
        Some (upd_dev b (\<lambda>d. d\<lparr>dev_writes := dev_writes d + 1\<rparr>) s) })"

definition block_register :: "string \<Rightarrow> block_type \<Rightarrow> u32 \<Rightarrow> dev_ops \<Rightarrow> devices \<Rightarrow> (addr \<times> devices) option" where
  "block_register name type sz ops s = do {
     (b, s) \<leftarrow> kmalloc s;
     Some (b, s\<lparr>all_blocks := all_blocks s @ [b],
       devs := (devs s)(b := \<lparr>dev_name = take 15 name, dev_type = type, dev_size = sz, dev_aux = ops, dev_reads = 0, dev_writes = 0\<rparr>)\<rparr>) }"

definition block_first :: "devices \<Rightarrow> addr option" where
  "block_first s = (case all_blocks s of [] \<Rightarrow> None | b # _ \<Rightarrow> Some b)"

definition block_next :: "addr \<Rightarrow> devices \<Rightarrow> addr option" where
  "block_next b s = (case tl (dropWhile (\<lambda>x. x \<noteq> b) (all_blocks s)) of [] \<Rightarrow> None | c # _ \<Rightarrow> Some c)"

definition block_get_by_name :: "string \<Rightarrow> devices \<Rightarrow> addr option" where
  "block_get_by_name name s = find (\<lambda>b. name = dev_name (devs s b)) (all_blocks s)"

section \<open>Partition tables\<close>

record partition_table_entry =
  pt_type :: byte
  pt_offset :: u32
  pt_size :: u32

definition decode_pt_entry :: "byte list \<Rightarrow> partition_table_entry" where
  "decode_pt_entry bs = \<lparr>pt_type = bs ! 4, pt_offset = decode32 (take 4 (drop 8 bs)), pt_size = decode32 (take 4 (drop 12 bs))\<rparr>"

definition pt_partitions :: "byte list \<Rightarrow> partition_table_entry list" where
  "pt_partitions pt = map (\<lambda>i. decode_pt_entry (take 16 (drop (446 + 16 * i) pt))) [0..<4]"

definition pt_signed :: "byte list \<Rightarrow> bool" where
  "pt_signed pt \<longleftrightarrow> pt ! 510 = 0x55 \<and> pt ! 511 = 0xaa"

definition empty_entry :: "partition_table_entry \<Rightarrow> bool" where
  "empty_entry e \<longleftrightarrow> pt_size e = 0 \<or> pt_type e = 0"

definition extended_entry :: "partition_table_entry \<Rightarrow> bool" where
  "extended_entry e \<longleftrightarrow> pt_type e = 0x05 \<or> pt_type e = 0x0f \<or> pt_type e = 0x85 \<or> pt_type e = 0xc5"

definition partition_kind :: "byte \<Rightarrow> block_type" where
  "partition_kind part_type = (if part_type = 0x20 then BLOCK_KERNEL else if part_type = 0x21 then BLOCK_FILESYS
     else if part_type = 0x22 then BLOCK_SCRATCH else if part_type = 0x23 then BLOCK_SWAP else BLOCK_FOREIGN)"

text \<open>The \<^verbatim>\<open>struct partition\<close> at \<open>p\<close> does not change, so it is kept in the device.\<close>

definition found_partition :: "addr \<Rightarrow> byte \<Rightarrow> u32 \<Rightarrow> u32 \<Rightarrow> nat \<Rightarrow> devices \<Rightarrow> devices option" where
  "found_partition b part_type start sz part_nr s =
     (if start \<ge> dev_size (devs s b) then Some s
      else if start + sz < start \<or> start + sz > dev_size (devs s b) then Some s
      else do {
        (p, s) \<leftarrow> kmalloc s;
        (n, name) \<leftarrow> snprintf (replicate 16 CHR 0x00) 16 ''%s%d'' [AStr (Some (dev_name (devs s b))), A32 (of_nat part_nr)];
        (d, s) \<leftarrow> block_register (takeWhile (\<lambda>c. c \<noteq> CHR 0x00) name) (partition_kind part_type) sz (Part b start) s;
        Some s })"

text \<open>\<^verbatim>\<open>read_partition_table\<close> up to its loop: the table is read from sector 0, whatever \<open>sector\<close> is.\<close>

definition open_table :: "addr \<Rightarrow> u32 \<Rightarrow> devices \<Rightarrow> ((addr \<times> partition_table_entry list) option \<times> devices) option" where
  "open_table b sector s =
     (if sector \<ge> dev_size (devs s b) then Some (None, s)
      else do {
        (pt, s) \<leftarrow> kmalloc s;
        (buffer, s) \<leftarrow> dev_read b 0 s;
        if \<not> pt_signed buffer then Some (None, kfree pt s) else Some (Some (pt, pt_partitions buffer), s) })"

text \<open>The loop over the entries that are left of the table at \<open>pt\<close>.\<close>

partial_function (option) scan_entries ::
  "addr \<Rightarrow> u32 \<Rightarrow> u32 \<Rightarrow> addr \<Rightarrow> partition_table_entry list \<Rightarrow> nat \<Rightarrow> devices \<Rightarrow> (nat \<times> devices) option" where
  "scan_entries b sector primary pt es part_nr s = (case es of
     [] \<Rightarrow> Some (part_nr, kfree pt s)
   | e # es \<Rightarrow> do {
       (part_nr, s) \<leftarrow>
         (if empty_entry e then Some (part_nr, s)
          else if extended_entry e then do {
            let sector' = (if sector = 0 then pt_offset e else pt_offset e + primary);
            let primary' = (if sector = 0 then pt_offset e else primary);
            (t, s) \<leftarrow> open_table b sector' s;
            (case t of None \<Rightarrow> Some (part_nr, s) | Some (pt', es') \<Rightarrow> scan_entries b sector' primary' pt' es' part_nr s) }
          else do {
            s \<leftarrow> found_partition b (pt_type e) (pt_offset e + sector) (pt_size e) (part_nr + 1) s;
            Some (part_nr + 1, s) });
       scan_entries b sector primary pt es part_nr s })"

definition read_partition_table :: "addr \<Rightarrow> u32 \<Rightarrow> u32 \<Rightarrow> nat \<Rightarrow> devices \<Rightarrow> (nat \<times> devices) option" where
  "read_partition_table b sector primary part_nr s = do {
     (t, s) \<leftarrow> open_table b sector s;
     case t of None \<Rightarrow> Some (part_nr, s) | Some (pt, es) \<Rightarrow> scan_entries b sector primary pt es part_nr s }"

definition partition_scan :: "addr \<Rightarrow> devices \<Rightarrow> devices option" where
  "partition_scan b s = do { (part_nr, s) \<leftarrow> read_partition_table b 0 0 0 s; Some s }"

section \<open>Roles\<close>

definition set_role :: "block_type \<Rightarrow> addr \<Rightarrow> devices \<Rightarrow> devices option" where
  "set_role role b s = do { r \<leftarrow> block_set_role role (Some b) (by_role s); Some (s\<lparr>by_role := r\<rparr>) }"

definition locate_block_device :: "block_type \<Rightarrow> string option \<Rightarrow> devices \<Rightarrow> devices option" where
  "locate_block_device role name s =
     (case name of
        Some name \<Rightarrow> (case block_get_by_name name s of None \<Rightarrow> None | Some b \<Rightarrow> set_role role b s)
      | None \<Rightarrow> (case find (\<lambda>b. dev_type (devs s b) = role) (all_blocks s) of None \<Rightarrow> Some s | Some b \<Rightarrow> set_role role b s))"

text \<open>\<open>vm\<close> says whether the kernel is built with \<^verbatim>\<open>VM\<close>.\<close>

definition locate_block_devices :: "bool \<Rightarrow> string option \<Rightarrow> string option \<Rightarrow> string option \<Rightarrow> devices \<Rightarrow> devices option" where
  "locate_block_devices vm filesys_bdev_name scratch_bdev_name swap_bdev_name s = do {
     s \<leftarrow> locate_block_device BLOCK_FILESYS filesys_bdev_name s;
     s \<leftarrow> locate_block_device BLOCK_SCRATCH scratch_bdev_name s;
     if vm then locate_block_device BLOCK_SWAP swap_bdev_name s else Some s }"


section \<open>Sectors of a partition\<close>

text \<open>\<open>d\<close> is a partition that lies on the disk \<open>b\<close>, from sector \<open>st\<close> on.\<close>

definition part_ok :: "addr \<Rightarrow> addr \<Rightarrow> u32 \<Rightarrow> devices \<Rightarrow> bool" where
  "part_ok d b st s \<longleftrightarrow> d \<noteq> b \<and> dev_aux (devs s b) = Disk \<and> dev_aux (devs s d) = Part b st \<and>
     unat st + unat (dev_size (devs s d)) \<le> unat (dev_size (devs s b)) \<and>
     dev_type (devs s b) \<noteq> BLOCK_FOREIGN \<and> dev_type (devs s d) \<noteq> BLOCK_FOREIGN"

definition part_sector :: "addr \<Rightarrow> u32 \<Rightarrow> devices \<Rightarrow> nat \<Rightarrow> byte list" where
  "part_sector b st s k = disk_data s b (st + of_nat k)"

definition part_valid :: "addr \<Rightarrow> devices \<Rightarrow> nat \<Rightarrow> bool" where
  "part_valid d s k \<longleftrightarrow> k < unat (dev_size (devs s d))"

definition part_read :: "addr \<Rightarrow> nat \<Rightarrow> devices \<Rightarrow> (byte list \<times> devices) option" where
  "part_read d k = dev_read d (of_nat k)"

definition part_write :: "addr \<Rightarrow> nat \<Rightarrow> byte list \<Rightarrow> devices \<Rightarrow> devices option" where
  "part_write d k = dev_write d (of_nat k)"

lemma part_sector_number:
  assumes "part_ok d b st s" "part_valid d s k"
  shows "unat (of_nat k :: u32) = k" "unat (st + of_nat k) = unat st + k" "st + of_nat k < dev_size (devs s b)" "of_nat k < dev_size (devs s d)"
proof -
  have k: "k < unat (dev_size (devs s d))" "unat st + unat (dev_size (devs s d)) \<le> unat (dev_size (devs s b))"
    using assms by (auto simp: part_ok_def part_valid_def)
  show u: "unat (of_nat k :: u32) = k" using k(1) u32_bound [of "dev_size (devs s d)"] by (simp add: unat_of_nat take_bit_nat_eq_self)
  show v: "unat (st + of_nat k) = unat st + k" using unat_add_of_nat [of st k] k u32_bound [of "dev_size (devs s b)"] by simp
  show "st + of_nat k < dev_size (devs s b)" using v k by (simp add: word_less_nat_alt)
  show "of_nat k < dev_size (devs s d)" using u k(1) by (simp add: word_less_nat_alt)
qed

lemma part_read_run:
  assumes "part_ok d b st s" "part_valid d s k"
  shows "part_read d k s = Some (part_sector b st s k,
    upd_dev d (\<lambda>x. x\<lparr>dev_reads := dev_reads x + 1\<rparr>) (upd_dev b (\<lambda>x. x\<lparr>dev_reads := dev_reads x + 1\<rparr>) s))"
proof -
  note n = part_sector_number [OF assms]
  have "dev_read b (st + of_nat k) s = Some (part_sector b st s k, upd_dev b (\<lambda>x. x\<lparr>dev_reads := dev_reads x + 1\<rparr>) s)"
    using assms(1) n(3) by (subst dev_read.simps) (simp add: part_ok_def part_sector_def not_le)
  then show ?thesis using assms(1) n(4) unfolding part_read_def by (subst dev_read.simps) (simp add: part_ok_def not_le)
qed

lemma part_write_run:
  assumes "part_ok d b st s" "part_valid d s k"
  shows "part_write d k c s = Some (upd_dev d (\<lambda>x. x\<lparr>dev_writes := dev_writes x + 1\<rparr>) (upd_dev b (\<lambda>x. x\<lparr>dev_writes := dev_writes x + 1\<rparr>)
    (s\<lparr>disk_data := (disk_data s)(b := (disk_data s b)(st + of_nat k := c))\<rparr>)))"
proof -
  note n = part_sector_number [OF assms]
  let ?s = "upd_dev b (\<lambda>x. x\<lparr>dev_writes := dev_writes x + 1\<rparr>) (s\<lparr>disk_data := (disk_data s)(b := (disk_data s b)(st + of_nat k := c))\<rparr>)"
  have "dev_write b (st + of_nat k) c s = Some ?s"
    using assms(1) n(3) by (subst dev_write.simps) (simp add: part_ok_def not_le)
  then show ?thesis using assms(1) n(4) unfolding part_write_def by (subst dev_write.simps) (simp add: part_ok_def not_le)
qed

lemma part_sector_inj:
  assumes "part_ok d b st s" "part_valid d s k" "part_valid d s j"
  shows "st + of_nat k = st + of_nat j \<longleftrightarrow> k = j"
  using part_sector_number(2) [OF assms(1,2)] part_sector_number(2) [OF assms(1,3)] by (metis add_left_cancel)

text \<open>A partition keeps the contract of a sector store, so its users need not know that it is one.\<close>

interpretation part: sector_store "part_ok d b st" "part_valid d" "\<lambda>s k. if part_valid d s k then part_sector b st s k else []"
  "part_read d" "part_write d" for d b st
proof
  fix s k c assume ok: "part_ok d b st s" and v: "part_valid d s k"
  let ?c = "\<lambda>s k. if part_valid d s k then part_sector b st s k else []"
  show "\<exists>s'. part_read d k s = Some (?c s k, s') \<and> part_ok d b st s' \<and> ?c s' = ?c s \<and> part_valid d s' = part_valid d s"
    using part_read_run [OF ok v] ok v
    by (intro exI conjI, simp) (auto simp: part_ok_def part_valid_def part_sector_def fun_eq_iff)
  let ?s = "upd_dev d (\<lambda>x. x\<lparr>dev_writes := dev_writes x + 1\<rparr>) (upd_dev b (\<lambda>x. x\<lparr>dev_writes := dev_writes x + 1\<rparr>)
    (s\<lparr>disk_data := (disk_data s)(b := (disk_data s b)(st + of_nat k := c))\<rparr>))"
  have val: "part_valid d ?s = part_valid d s" using ok by (auto simp: part_valid_def part_ok_def fun_eq_iff)
  have "?c ?s j = ((?c s)(k := c)) j" for j
    using part_sector_inj [OF ok v, of j] v unfolding val by (auto simp: part_sector_def)
  moreover have "part_ok d b st ?s" using ok by (auto simp: part_ok_def)
  ultimately show "\<exists>s'. part_write d k c s = Some s' \<and> part_ok d b st s' \<and> ?c s' = (?c s)(k := c) \<and> part_valid d s' = part_valid d s"
    using part_write_run [OF ok v, of c] val by (intro exI [of _ ?s]) (simp add: fun_eq_iff)
qed

definition same_layout :: "devices \<Rightarrow> devices \<Rightarrow> bool" where
  "same_layout s s' \<longleftrightarrow> (\<forall>x. dev_aux (devs s' x) = dev_aux (devs s x) \<and> dev_size (devs s' x) = dev_size (devs s x) \<and>
     dev_type (devs s' x) = dev_type (devs s x))"

lemma same_layout_ok: "same_layout s s' \<Longrightarrow> part_ok d b st s' = part_ok d b st s" "same_layout s s' \<Longrightarrow> part_valid d s' k = part_valid d s k"
  by (simp_all add: same_layout_def part_ok_def part_valid_def)

lemma part_write_frame:
  assumes "part_ok d b st s" "part_valid d s k" "part_write d k c s = Some s'"
  shows "same_layout s s'" "x \<noteq> st + of_nat k \<Longrightarrow> disk_data s' b x = disk_data s b x"
  using part_write_run [OF assms(1,2), of c] assms(3) by (auto simp: same_layout_def)

lemma part_run_frame:
  "part.wr_run d k cs s = Some s' \<Longrightarrow> part_ok d b st s \<Longrightarrow> \<forall>i \<in> {k..<k + length cs}. part_valid d s i \<Longrightarrow>
   \<forall>i \<in> {k..<k + length cs}. x \<noteq> st + of_nat i \<Longrightarrow> same_layout s s' \<and> disk_data s' b x = disk_data s b x"
proof (induction cs arbitrary: k s)
  case Nil
  then show ?case by (simp add: same_layout_def)
next
  case (Cons c cs)
  obtain s1 where 1: "part_write d k c s = Some s1" "part.wr_run d (k + 1) cs s1 = Some s'"
    using Cons.prems(1) by (auto split: bind_splits)
  have v: "part_valid d s k" using Cons.prems(3) by simp
  note f = part_write_frame [OF Cons.prems(2) v 1(1)]
  have "same_layout s1 s' \<and> disk_data s' b x = disk_data s1 b x"
    by (rule Cons.IH [OF 1(2)]) (use Cons.prems(2-4) same_layout_ok [OF f(1)] in auto)
  then show ?case using f Cons.prems(4) by (simp add: same_layout_def)
qed

text \<open>C34: A partition behaves like a disk of its own: the sectors that are written through it are read back, and partitions of a disk that do not
  overlap do not affect each other.\<close>

theorem partitions_are_separate:
  assumes "part_ok d b st s" and "part_ok d' b st' s" and "\<forall>i \<in> {k..<k + length cs}. part_valid d s i"
    and "unat st + unat (dev_size (devs s d)) \<le> unat st' \<or> unat st' + unat (dev_size (devs s d')) \<le> unat st"
  shows "\<exists>s1 s2. part.wr_run d k cs s = Some s1 \<and> part.rd_run d k (length cs) s1 = Some (cs, s2) \<and>
    (\<forall>j. part_valid d' s j \<longrightarrow> (\<exists>s3. part_read d' j s1 = Some (disk_data s b (st' + of_nat j), s3)))"
proof -
  obtain s1 s2 where r: "part.wr_run d k cs s = Some s1" "part.rd_run d k (length cs) s1 = Some (cs, s2)"
    using part.run_roundtrip [OF assms(1,3)] by blast
  have "\<exists>s3. part_read d' j s1 = Some (disk_data s b (st' + of_nat j), s3)" if v: "part_valid d' s j" for j
  proof -
    have "st' + of_nat j \<noteq> st + of_nat i" if i: "i \<in> {k..<k + length cs}" for i
    proof -
      have vi: "part_valid d s i" using assms(3) i by blast
      have "unat st + i \<noteq> unat st' + j" using assms(4) vi v by (auto simp: part_valid_def)
      then show ?thesis using part_sector_number(2) [OF assms(1) vi] part_sector_number(2) [OF assms(2) v] by metis
    qed
    then have f: "same_layout s s1" "disk_data s1 b (st' + of_nat j) = disk_data s b (st' + of_nat j)"
      using part_run_frame [OF r(1) assms(1,3)] by blast+
    have "part_ok d' b st' s1" "part_valid d' s1 j" using same_layout_ok [OF f(1)] assms(2) v by blast+
    from part_read_run [OF this] f(2) show ?thesis by (simp add: part_sector_def)
  qed
  then show ?thesis using r by blast
qed

text \<open>A disk with two partitions.\<close>

definition two_partitions :: devices where
  "two_partitions = \<lparr>all_blocks = [1, 2, 3],
     devs = (\<lambda>x. \<lparr>dev_name = ''hda'', dev_type = BLOCK_RAW, dev_size = 100, dev_aux = Disk, dev_reads = 0, dev_writes = 0\<rparr>)
       (2 := \<lparr>dev_name = ''hda1'', dev_type = BLOCK_FILESYS, dev_size = 20, dev_aux = Part 1 10, dev_reads = 0, dev_writes = 0\<rparr>,
        3 := \<lparr>dev_name = ''hda2'', dev_type = BLOCK_SWAP, dev_size = 30, dev_aux = Part 1 30, dev_reads = 0, dev_writes = 0\<rparr>),
     disk_data = (\<lambda>_ _. [0]), by_role = Map.empty, dmem = []\<rparr>"

theorem partitions_are_separate_witness:
  "\<exists>s1 s2 s3. part.wr_run 2 18 [[7], [8]] two_partitions = Some s1 \<and> part.rd_run 2 18 2 s1 = Some ([[7], [8]], s2) \<and>
     part_read 3 0 s1 = Some ([0], s3)"
proof -
  have "part_ok 2 1 10 two_partitions" "part_ok 3 1 30 two_partitions" by (simp_all add: part_ok_def two_partitions_def)
  moreover have "\<forall>i \<in> {18..<18 + length [[7], [8 :: byte]]}. part_valid 2 two_partitions i"
    by (simp add: part_valid_def two_partitions_def)
  moreover have "unat (10 :: u32) + unat (dev_size (devs two_partitions 2)) \<le> unat (30 :: u32) \<or>
    unat (30 :: u32) + unat (dev_size (devs two_partitions 3)) \<le> unat (10 :: u32)" by (simp add: two_partitions_def)
  moreover have "part_valid 3 two_partitions 0" "disk_data two_partitions 1 (30 + of_nat 0) = [0]"
    by (simp_all add: part_valid_def two_partitions_def)
  ultimately obtain s1 s2 where "part.wr_run 2 18 [[7], [8]] two_partitions = Some s1"
    "part.rd_run 2 18 (length [[7], [8 :: byte]]) s1 = Some ([[7], [8]], s2)"
    "\<forall>j. part_valid 3 two_partitions j \<longrightarrow> (\<exists>s3. part_read 3 j s1 = Some (disk_data two_partitions 1 (30 + of_nat j), s3))"
    using partitions_are_separate [of 2 1 10 two_partitions 3 30 18 "[[7], [8]]"] by blast
  moreover from this(3) obtain s3 where "part_read 3 0 s1 = Some ([0], s3)"
    using \<open>part_valid 3 two_partitions 0\<close> \<open>disk_data two_partitions 1 (30 + of_nat 0) = [0]\<close> by metis
  ultimately show ?thesis by (auto simp: numeral_2_eq_2)
qed

section \<open>Scanning\<close>

lemma found_partition_keeps:
  assumes "found_partition b t st sz n s = Some s'" "b \<notin> set (dmem s)"
  shows "devs s' b = devs s b" "disk_data s' = disk_data s" "set (dmem s') \<subseteq> set (dmem s)"
  using assms by (auto simp: found_partition_def block_register_def kmalloc_def split: if_splits bind_splits list.splits)

lemma read_table_run:
  assumes "dev_aux (devs s b) = Disk" "0 < dev_size (devs s b)"
  shows "dev_read b 0 s = Some (disk_data s b 0, upd_dev b (\<lambda>d. d\<lparr>dev_reads := dev_reads d + 1\<rparr>) s)"
  using assms by (subst dev_read.simps) (simp add: not_le)

lemma open_table_run:
  assumes "dev_aux (devs s b) = Disk" "sector < dev_size (devs s b)" "dmem s = p # as"
  shows "open_table b sector s = Some (if pt_signed (disk_data s b 0)
    then (Some (p, pt_partitions (disk_data s b 0)), upd_dev b (\<lambda>d. d\<lparr>dev_reads := dev_reads d + 1\<rparr>) (s\<lparr>dmem := as\<rparr>))
    else (None, upd_dev b (\<lambda>d. d\<lparr>dev_reads := dev_reads d + 1\<rparr>) s))"
proof -
  have n: "\<not> dev_size (devs s b) \<le> sector" "0 < dev_size (devs s b)" using assms(2) by (simp_all add: word_less_nat_alt word_le_nat_alt)
  then show ?thesis using read_table_run [of "s\<lparr>dmem := as\<rparr>" b] assms(1,3) by (simp add: open_table_def kmalloc_def kfree_def)
qed

lemma open_table_needs: "open_table b sector s = Some r \<Longrightarrow> sector < dev_size (devs s b) \<Longrightarrow> \<exists>p as. dmem s = p # as"
  by (cases "dmem s") (simp_all add: open_table_def kmalloc_def not_le [symmetric])

text \<open>An extended partition in the first half of the disk: the scan reads the same table again for it, and does not end.\<close>

lemma extended_stuck:
  assumes "es = gs @ e # hs" "\<forall>g \<in> set gs. empty_entry g \<or> \<not> extended_entry g"
    and "extended_entry e" "\<not> empty_entry e" "pt_offset e < sz" "pt_offset e + pt_offset e < sz" "0 < sz"
    and "scan_entries b sector primary pt fs n s = Some r"
  shows "dev_aux (devs s b) = Disk \<Longrightarrow> dev_size (devs s b) = sz \<Longrightarrow> pt_signed (disk_data s b 0) \<Longrightarrow> pt_partitions (disk_data s b 0) = es \<Longrightarrow>
    fs = gs' @ e # hs \<Longrightarrow> set gs' \<subseteq> set gs \<Longrightarrow> sector = 0 \<or> primary = pt_offset e \<Longrightarrow> b \<notin> set (dmem s) \<Longrightarrow> False"
  using assms(8)
proof (induction arbitrary: gs' rule: scan_entries.raw_induct [rotated, consumes 1])
  case (1 scan b sector primary pt fs n s r)
  show ?case
  proof (cases gs')
    case Nil
    let ?t = "if sector = 0 then pt_offset e else pt_offset e + primary"
    have t: "?t < sz" using 1(9) assms(5,6) by auto
    obtain x s' where o: "open_table b ?t s = Some (x, s')"
      "(case x of None \<Rightarrow> Some (n, s') | Some (pt', es') \<Rightarrow> scan b ?t (if sector = 0 then pt_offset e else primary) pt' es' n s') \<noteq> None"
      using 1(2) assms(3,4) Nil 1(7) by (auto simp: Let_def split: bind_splits option.splits)
    obtain p as where m: "dmem s = p # as" using open_table_needs [OF o(1)] t 1(4) by blast
    have x: "x = Some (p, es)" "devs s' b = (devs s b)\<lparr>dev_reads := dev_reads (devs s b) + 1\<rparr>" "disk_data s' = disk_data s" "dmem s' = as"
      using o(1) open_table_run [OF 1(3) _ m, of ?t] t 1(4-6) by auto
    then obtain r' where "scan b ?t (if sector = 0 then pt_offset e else primary) p es n s' = Some r'" using o(2) by auto
    from 1(1) [OF this, of gs] show ?thesis using x 1(3-6,9,10) assms(1) m by auto
  next
    case (Cons g gs2)
    have g: "g \<in> set gs" "set gs2 \<subseteq> set gs" using Cons 1(8) by auto
    show ?thesis
    proof (cases "empty_entry g")
      case True
      then have "scan b sector primary pt (gs2 @ e # hs) n s = Some r" using 1(2,7) Cons by simp
      from 1(1) [OF this, of gs2] show ?thesis using 1(3-10) g by blast
    next
      case False
      then have "\<not> extended_entry g" using assms(2) g by blast
      then obtain s' where f: "found_partition b (pt_type g) (pt_offset g + sector) (pt_size g) (n + 1) s = Some s'"
        "scan b sector primary pt (gs2 @ e # hs) (n + 1) s' = Some r"
        using 1(2,7) Cons False by (auto split: bind_splits)
      note k = found_partition_keeps [OF f(1) 1(10)]
      from 1(1) [OF f(2), of gs2] show ?thesis using 1(3-10) g k by auto
    qed
  qed
qed

text \<open>C37: The scan of a disk whose first extended partition begins in the first half of the disk does not complete: the table is read again
  from sector 0 for the extended partition, and again for what is then taken as the partition inside it.\<close>

theorem extended_partition_recurses:
  assumes "dev_aux (devs s b) = Disk" "b \<notin> set (dmem s)" "pt_signed (disk_data s b 0)"
    and "pt_partitions (disk_data s b 0) = gs @ e # hs" "\<forall>g \<in> set gs. empty_entry g \<or> \<not> extended_entry g"
    and "extended_entry e" "\<not> empty_entry e" "2 * unat (pt_offset e) < unat (dev_size (devs s b))"
  shows "partition_scan b s = None"
proof (rule ccontr)
  assume "partition_scan b s \<noteq> None"
  then obtain t s' where o: "open_table b 0 s = Some (t, s')"
    "(case t of None \<Rightarrow> Some (0, s') | Some (pt, es) \<Rightarrow> scan_entries b 0 0 pt es 0 s') \<noteq> None"
    by (auto simp: partition_scan_def read_partition_table_def split: bind_splits)
  have sz: "pt_offset e < dev_size (devs s b)" "pt_offset e + pt_offset e < dev_size (devs s b)" "0 < dev_size (devs s b)"
    using assms(8) u32_bound [of "dev_size (devs s b)"] unat_plus_small [of "pt_offset e" "pt_offset e"]
    by (simp_all add: word_less_nat_alt)
  obtain p as where m: "dmem s = p # as" using open_table_needs [OF o(1) sz(3)] by blast
  have x: "t = Some (p, gs @ e # hs)" "devs s' b = (devs s b)\<lparr>dev_reads := dev_reads (devs s b) + 1\<rparr>" "disk_data s' = disk_data s" "dmem s' = as"
    using o(1) open_table_run [OF assms(1) sz(3) m] assms(3,4) by auto
  then obtain r where "scan_entries b 0 0 p (gs @ e # hs) 0 s' = Some r" using o(2) by auto
  from extended_stuck [OF refl assms(5-7) sz this] show False using x assms(1-4) m by auto
qed

text \<open>A disk of 100 sectors with an extended partition from sector 10 on.\<close>

definition mbr :: "byte list \<Rightarrow> byte list" where
  "mbr es = replicate 446 0 @ es @ replicate (64 - length es) 0 @ [0x55, 0xaa]"

definition one_disk :: "byte list \<Rightarrow> devices" where
  "one_disk table = two_partitions\<lparr>all_blocks := [1], disk_data := (\<lambda>_ _. table), dmem := [200..<300]\<rparr>"

lemma mbr_signed: "length es \<le> 64 \<Longrightarrow> pt_signed (mbr es)"
  by (auto simp: pt_signed_def mbr_def nth_append)

lemma mbr_partitions:
  assumes "length es \<le> 64"
  shows "pt_partitions (mbr es) = map (\<lambda>i. decode_pt_entry (take 16 (drop (16 * i) (es @ replicate (64 - length es) 0)))) [0..<4]"
proof -
  have "take 16 (drop (446 + 16 * i) (mbr es)) = take 16 (drop (16 * i) (es @ replicate (64 - length es) 0))" if "i < 4" for i
  proof -
    let ?t = "es @ replicate (64 - length es) (0 :: byte)"
    have "drop (446 + 16 * i) (mbr es) = drop (16 * i) (?t @ [0x55, 0xaa])"
      unfolding mbr_def by (simp add: drop_append)
    moreover have "16 * i + 16 \<le> length ?t" using that assms by simp
    ultimately show ?thesis by (simp add: take_append drop_append)
  qed
  then show ?thesis by (simp add: pt_partitions_def)
qed

theorem extended_partition_recurses_witness:
  "partition_scan 1 (one_disk (mbr [0, 0, 0, 0, 5, 0, 0, 0, 10, 0, 0, 0, 50, 0, 0, 0])) = None"
proof -
  let ?es = "[0, 0, 0, 0, 5, 0, 0, 0, 10, 0, 0, 0, 50, 0, 0, 0] :: byte list"
  let ?s = "one_disk (mbr ?es)"
  have d: "dev_aux (devs ?s 1) = Disk" "1 \<notin> set (dmem ?s)" "dev_size (devs ?s 1) = 100" "disk_data ?s 1 0 = mbr ?es"
    by (simp_all add: one_disk_def two_partitions_def)
  have "pt_partitions (mbr ?es) = map (\<lambda>i. decode_pt_entry (take 16 (drop (16 * i) (?es @ replicate 48 0)))) [0..<4]"
    using mbr_partitions [of ?es] by simp
  moreover have "[0..<4] = (0 :: nat) # [1..<4]" by (simp add: upt_conv_Cons)
  ultimately obtain es where p: "pt_partitions (mbr ?es) = [] @ decode_pt_entry ?es # es" by simp
  have e: "extended_entry (decode_pt_entry ?es)" "\<not> empty_entry (decode_pt_entry ?es)" "pt_offset (decode_pt_entry ?es) = 10"
    by (simp_all add: decode_pt_entry_def extended_entry_def empty_entry_def decode32_def)
  show ?thesis
    using extended_partition_recurses [of ?s 1 "[]" "decode_pt_entry ?es" es] d e p mbr_signed [of ?es] by simp
qed

section \<open>The partitions found\<close>

lemma vprintf_str: "vprintf (CHR ''%'' # CHR ''s'' # fmt) (AStr (Some n) # as) = do { out \<leftarrow> vprintf fmt as; Some (n @ out) }"
  by (subst vprintf_conversion [OF _ parse_conversion_plain])
     (simp_all add: do_conversion_def strnlen_prefix_def format_string_def)

text \<open>The numbers and entries of a table that become devices, on a disk of \<open>sz\<close> sectors.\<close>

fun wanted :: "u32 \<Rightarrow> nat \<Rightarrow> partition_table_entry list \<Rightarrow> (nat \<times> partition_table_entry) list" where
  "wanted sz n [] = []"
| "wanted sz n (e # es) = (if empty_entry e then wanted sz n es
     else (if unat (pt_offset e) + unat (pt_size e) \<le> unat sz then [(n + 1, e)] else []) @ wanted sz (n + 1) es)"

definition partition_device :: "addr \<Rightarrow> string \<Rightarrow> nat \<times> partition_table_entry \<Rightarrow> device" where
  "partition_device b name x = \<lparr>dev_name = take 15 (name @ show_int (int (fst x))), dev_type = partition_kind (pt_type (snd x)),
     dev_size = pt_size (snd x), dev_aux = Part b (pt_offset (snd x)), dev_reads = 0, dev_writes = 0\<rparr>"

lemma no_nul_digits: "CHR 0x00 \<notin> set (show_int i)"
proof -
  have c: "char_of (48 + d) \<noteq> CHR 0x00" if "d < 10" for d :: nat
  proof
    assume "char_of (48 + d) = CHR 0x00"
    then have "(of_char (char_of (48 + d)) :: nat) = of_char (CHR 0x00)" by (rule arg_cong)
    then show False using digit_char_nat [OF that] by simp
  qed
  have "CHR 0x00 \<notin> set (show_nat n)" for n
  proof (induction n rule: show_nat.induct)
    case (1 n)
    then show ?case using c [of n] c [of "n mod 10"] by (subst show_nat.simps) (auto split: if_splits)
  qed
  then show ?thesis by (simp add: show_int_def)
qed

lemma snprintf_into:
  assumes "vprintf fmt as = Some out" "0 < n" "n \<le> length buf"
  shows "\<exists>x. snprintf buf n fmt as = Some (length out, take (n - 1) out @ CHR 0x00 # x)"
  unfolding snprintf_def vsnprintf_run [OF assms(3,1)] using assms(2) by (intro exI) simp

lemma fifteen: "15 + 1 = (16 :: nat)" by simp

lemma partition_name:
  assumes "CHR 0x00 \<notin> set name" "n < 2 ^ 31"
  shows "\<exists>len buf. snprintf (replicate 16 CHR 0x00) 16 ''%s%d'' [AStr (Some name), A32 (of_nat n)] = Some (len, buf) \<and>
    takeWhile (\<lambda>c. c \<noteq> CHR 0x00) buf = take 15 (name @ show_int (int n))"
proof -
  let ?o = "name @ show_int (int n)"
  have i: "sint (of_nat n :: u32) = int n" using assms(2) sint_small [of "of_nat n"] by (simp add: unat_of_nat take_bit_nat_eq_self)
  have v: "vprintf ''%s%d'' [AStr (Some name), A32 (of_nat n)] = Some ?o" by (simp add: vprintf_str vprintf_int i)
  have l: "0 < (15 + 1 :: nat)" "(15 :: nat) + 1 \<le> length (replicate 16 CHR 0x00)" by simp_all
  obtain x where
    r: "snprintf (replicate 16 CHR 0x00) (15 + 1) ''%s%d'' [AStr (Some name), A32 (of_nat n)] = Some (length ?o, take 15 ?o @ CHR 0x00 # x)"
    by (rule exE [OF snprintf_into [OF v l, unfolded add_diff_cancel_right']])
  have "CHR 0x00 \<notin> set (take 15 ?o)" using assms(1) no_nul_digits [of "int n"] by (intro notI) (drule in_set_takeD, simp)
  then have "\<And>c. c \<in> set (take 15 ?o) \<Longrightarrow> c \<noteq> CHR 0x00" by blast
  from takeWhile_append2 [OF this, where ys = "CHR 0x00 # x"]
  have "takeWhile (\<lambda>c. c \<noteq> CHR 0x00) (take 15 ?o @ CHR 0x00 # x) = take 15 ?o"
    by (simp only: takeWhile.simps not_True_eq_False if_False append_Nil2 simp_thms)
  then show ?thesis using r unfolding fifteen by blast
qed

lemma found_partition_run:
  assumes "dmem s = p # d # as" "b \<noteq> d" "CHR 0x00 \<notin> set (dev_name (devs s b))" "n + 1 < 2 ^ 31" "\<not> empty_entry e"
  shows "found_partition b (pt_type e) (pt_offset e) (pt_size e) (n + 1) s =
    Some (if unat (pt_offset e) + unat (pt_size e) \<le> unat (dev_size (devs s b))
      then s\<lparr>dmem := as, all_blocks := all_blocks s @ [d], devs := (devs s)(d := partition_device b (dev_name (devs s b)) (n + 1, e))\<rparr> else s)"
proof (cases "unat (pt_offset e) + unat (pt_size e) \<le> unat (dev_size (devs s b))")
  case True
  have z: "0 < unat (pt_size e)" using assms(5) by (simp add: empty_entry_def unat_gt_0)
  have u: "unat (pt_offset e + pt_size e) = unat (pt_offset e) + unat (pt_size e)"
    using True u32_bound [of "dev_size (devs s b)"] by (intro unat_plus_small) simp
  have c: "\<not> pt_offset e \<ge> dev_size (devs s b)" "\<not> (pt_offset e + pt_size e < pt_offset e \<or> pt_offset e + pt_size e > dev_size (devs s b))"
    using True z u by (simp_all add: word_less_nat_alt word_le_nat_alt)
  obtain len buf where r: "snprintf (replicate 16 CHR 0x00) 16 ''%s%d'' [AStr (Some (dev_name (devs s b))), A32 (of_nat (n + 1))] = Some (len, buf)"
    "takeWhile (\<lambda>c. c \<noteq> CHR 0x00) buf = take 15 (dev_name (devs s b) @ show_int (int (n + 1)))"
    using partition_name [OF assms(3,4)] by (elim exE conjE) (rule that)
  have m: "kmalloc s = Some (p, s\<lparr>dmem := d # as\<rparr>)" using assms(1) by (simp add: kmalloc_def)
  show ?thesis using True c r(1) unfolding found_partition_def
    by (simp only: if_False if_True m bind.bind_lunit split_conv devices.simps)
       (simp add: r(2) block_register_def kmalloc_def partition_device_def min_def)
next
  case False
  have "unat (pt_offset e + pt_size e) = unat (pt_offset e) + unat (pt_size e)" if "\<not> pt_offset e + pt_size e < pt_offset e"
    using that by (simp add: not_less unat_plus_simple)
  then have "pt_offset e + pt_size e < pt_offset e \<or> pt_offset e + pt_size e > dev_size (devs s b)"
    using False by (cases "pt_offset e + pt_size e < pt_offset e") (simp_all add: word_less_nat_alt)
  then show ?thesis using False by (simp only: found_partition_def if_True if_False if_cancel)
qed

text \<open>From \<open>s\<close> to \<open>s'\<close> exactly the devices \<open>ds\<close> are registered, in this order, for the entries \<open>xs\<close> of the disk \<open>b\<close>.\<close>

definition registers :: "addr \<Rightarrow> (nat \<times> partition_table_entry) list \<Rightarrow> addr list \<Rightarrow> devices \<Rightarrow> devices \<Rightarrow> bool" where
  "registers b xs ds s s' \<longleftrightarrow> all_blocks s' = all_blocks s @ ds \<and> map (devs s') ds = map (partition_device b (dev_name (devs s b))) xs \<and>
     distinct ds \<and> set ds \<subseteq> set (dmem s) \<and> disk_data s' = disk_data s \<and> by_role s' = by_role s \<and> (\<forall>x. x \<notin> set ds \<longrightarrow> devs s' x = devs s x)"

lemma registers_none: "registers b [] [] s (s\<lparr>dmem := as\<rparr>)"
  by (simp add: registers_def)

lemma registers_one:
  assumes "dmem s = p # d # as" "distinct (dmem s)" "b \<notin> set (dmem s)"
    and "registers b xs ds (s\<lparr>dmem := as, all_blocks := all_blocks s @ [d],
      devs := (devs s)(d := partition_device b (dev_name (devs s b)) x)\<rparr>) s'"
  shows "registers b (x # xs) (d # ds) s s'"
proof -
  have "b \<noteq> d" "d \<notin> set ds" using assms by (auto simp: registers_def)
  then show ?thesis using assms by (auto simp: registers_def)
qed

lemma scan_plain:
  assumes "\<forall>e \<in> set es. empty_entry e \<or> \<not> extended_entry e" "b \<notin> set (dmem s)" "distinct (dmem s)" "2 * length es \<le> length (dmem s)"
    and "CHR 0x00 \<notin> set (dev_name (devs s b))" "n + length es < 2 ^ 31"
  shows "\<exists>n' s' ds. scan_entries b 0 primary pt es n s = Some (n', s') \<and> registers b (wanted (dev_size (devs s b)) n es) ds s s'"
  using assms
proof (induction es arbitrary: n s)
  case Nil
  then show ?case using registers_none [of b s "pt # dmem s"] by (auto simp: scan_entries.simps [of b 0 primary pt "[]"] kfree_def)
next
  case (Cons e es)
  note sc = scan_entries.simps [of b 0 primary pt "e # es" n s]
  show ?case
  proof (cases "empty_entry e")
    case True
    then have "scan_entries b 0 primary pt (e # es) n s = scan_entries b 0 primary pt es n s" using sc by simp
    then show ?thesis using Cons.IH [of s n] Cons.prems True by simp
  next
    case False
    obtain p d as where m: "dmem s = p # d # as" using Cons.prems(4) by (cases "dmem s"; cases "tl (dmem s)") auto
    have bd: "b \<noteq> d" "n + 1 < 2 ^ 31" using m Cons.prems(2,6) by auto
    note f = found_partition_run [OF m bd(1) Cons.prems(5) bd(2) False]
    let ?fits = "unat (pt_offset e) + unat (pt_size e) \<le> unat (dev_size (devs s b))"
    let ?s = "s\<lparr>dmem := as, all_blocks := all_blocks s @ [d], devs := (devs s)(d := partition_device b (dev_name (devs s b)) (n + 1, e))\<rparr>"
    have step: "scan_entries b 0 primary pt (e # es) n s = scan_entries b 0 primary pt es (n + 1) (if ?fits then ?s else s)"
      using sc False Cons.prems(1) f by simp
    show ?thesis
    proof (cases ?fits)
      case True
      obtain n' s' ds where r: "scan_entries b 0 primary pt es (n + 1) ?s = Some (n', s')"
        "registers b (wanted (dev_size (devs ?s b)) (n + 1) es) ds ?s s'"
        using Cons.IH [of ?s "n + 1"] Cons.prems m bd by auto
      have "registers b ((n + 1, e) # wanted (dev_size (devs s b)) (n + 1) es) (d # ds) s s'"
        by (rule registers_one [OF m Cons.prems(3,2)]) (use r(2) bd(1) in simp)
      then show ?thesis using step r(1) True False by auto
    next
      case no: False
      then show ?thesis using Cons.IH [of s "n + 1"] Cons.prems step False by simp
    qed
  qed
qed

text \<open>C28: Scanning a disk whose table has no extended partition registers one device for each entry that is not empty and lies on the disk, in the
  order of the table: its name is that of the disk with the number of the entry among those that are not empty, its type, first sector
  and size are those of the entry, and no other device and no sector of the disk changes.\<close>

theorem partition_scan_registers:
  assumes "dev_aux (devs s b) = Disk" "0 < dev_size (devs s b)" "pt_signed (disk_data s b 0)"
    and "\<forall>e \<in> set (pt_partitions (disk_data s b 0)). empty_entry e \<or> \<not> extended_entry e"
    and "b \<notin> set (dmem s)" "distinct (dmem s)" "9 \<le> length (dmem s)" "CHR 0x00 \<notin> set (dev_name (devs s b))"
  shows "\<exists>s' ds. partition_scan b s = Some s' \<and> all_blocks s' = all_blocks s @ ds \<and> distinct ds \<and> disk_data s' = disk_data s \<and>
    map (devs s') ds = map (partition_device b (dev_name (devs s b))) (wanted (dev_size (devs s b)) 0 (pt_partitions (disk_data s b 0))) \<and>
    (\<forall>x. x \<notin> set ds \<longrightarrow> x \<noteq> b \<longrightarrow> devs s' x = devs s x)"
proof -
  let ?es = "pt_partitions (disk_data s b 0)"
  obtain p as where m: "dmem s = p # as" using assms(7) by (cases "dmem s") auto
  let ?s = "upd_dev b (\<lambda>d. d\<lparr>dev_reads := dev_reads d + 1\<rparr>) (s\<lparr>dmem := as\<rparr>)"
  have o: "open_table b 0 s = Some (Some (p, ?es), ?s)" using open_table_run [OF assms(1,2) m] assms(3) by simp
  have "length ?es = 4" by (simp add: pt_partitions_def)
  then obtain n' s' ds where r: "scan_entries b 0 0 p ?es 0 ?s = Some (n', s')" "registers b (wanted (dev_size (devs ?s b)) 0 ?es) ds ?s s'"
    using scan_plain [of ?es b ?s 0 0 p] assms(4-8) m by auto
  have "partition_scan b s = Some s'" using o r(1) by (simp add: partition_scan_def read_partition_table_def)
  then show ?thesis using r(2) by (intro exI [of _ s'] exI [of _ ds]) (auto simp: registers_def)
qed

theorem partition_scan_registers_witness:
  "\<exists>s' d. partition_scan 1 (one_disk (mbr [0, 0, 0, 0, 0x21, 0, 0, 0, 10, 0, 0, 0, 50, 0, 0, 0, 0, 0, 0, 0, 0x23, 0, 0, 0, 70, 0, 0, 0, 50, 0, 0, 0])) = Some s' \<and>
     all_blocks s' = [1, d] \<and> devs s' d = \<lparr>dev_name = ''hda1'', dev_type = BLOCK_FILESYS, dev_size = 50, dev_aux = Part 1 10, dev_reads = 0, dev_writes = 0\<rparr>"
proof -
  let ?es = "[0, 0, 0, 0, 0x21, 0, 0, 0, 10, 0, 0, 0, 50, 0, 0, 0, 0, 0, 0, 0, 0x23, 0, 0, 0, 70, 0, 0, 0, 50, 0, 0, 0] :: byte list"
  let ?s = "one_disk (mbr ?es)"
  have d: "dev_aux (devs ?s 1) = Disk" "1 \<notin> set (dmem ?s)" "dev_size (devs ?s 1) = 100" "disk_data ?s 1 0 = mbr ?es"
    "distinct (dmem ?s)" "9 \<le> length (dmem ?s)" "dev_name (devs ?s 1) = ''hda''" "all_blocks ?s = [1]"
    by (simp_all add: one_disk_def two_partitions_def)
  let ?n = "\<lparr>pt_type = 0, pt_offset = 0, pt_size = 0\<rparr>"
  have p: "pt_partitions (mbr ?es) = [\<lparr>pt_type = 0x21, pt_offset = 10, pt_size = 50\<rparr>, \<lparr>pt_type = 0x23, pt_offset = 70, pt_size = 50\<rparr>, ?n, ?n]"
  proof -
    have "[0..<4] = [0, 1, 2, 3 :: nat]" by (simp add: upt_conv_Cons)
    then show ?thesis by (subst mbr_partitions) (simp_all add: decode_pt_entry_def decode32_def)
  qed
  have w: "wanted 100 0 (pt_partitions (mbr ?es)) = [(1, \<lparr>pt_type = 0x21, pt_offset = 10, pt_size = 50\<rparr>)]"
    by (simp add: p empty_entry_def)
  have s: "show_int 1 = ''1''" by code_simp
  have h: "\<forall>e \<in> set (pt_partitions (disk_data ?s 1 0)). empty_entry e \<or> \<not> extended_entry e" "pt_signed (disk_data ?s 1 0)"
    "0 < dev_size (devs ?s 1)" "CHR 0x00 \<notin> set (dev_name (devs ?s 1))"
    using p mbr_signed [of ?es] d by (simp_all add: empty_entry_def extended_entry_def)
  obtain s' ds where r: "partition_scan 1 ?s = Some s'" "all_blocks s' = [1] @ ds"
    "map (devs s') ds = [partition_device 1 ''hda'' (1, \<lparr>pt_type = 0x21, pt_offset = 10, pt_size = 50\<rparr>)]"
    using partition_scan_registers [OF d(1) h(3,2,1) d(2,5,6) h(4), unfolded d w list.map] by (elim exE conjE) (rule that)
  then show ?thesis by (auto simp: partition_device_def partition_kind_def s map_eq_Cons_conv)
qed

end
