(* ===== verification/Spec2Isabelle.thy ===== *)
theory Spec2Isabelle
  imports KListSort Bitmap Hash Palloc Swap Vm Sched Sync Cache MergeSort Monitors CpuSched Pager Stdlib InodeData Cstring Filesys AddressSpace MallocFree Fileman Arithmetic Rc4 Intq Stdio Ustar PagingProps UserStack ElfLoad RoundRobin Partition
begin

text \<open>
  A verification library for the operating system kernel, its library routines and the programming
  assignments of this repository. Paths are given below \<^verbatim>\<open>src/\<close>; a path without a first
  directory of its own is below \<^verbatim>\<open>Lab3/pintos/src/\<close>, the last state of the kernel.

  \<^bold>\<open>The program.\<close> The repository holds three states of the Pintos teaching kernel (Lab1, Lab2 and
  Lab3) and seven user programs (Assignment1 to Assignment6). The kernel's libraries are intrusive
  lists, bitmaps and hash tables. Above them stand the page allocator, the virtual memory (frame
  table, supplemental page table, swap table) and the file system (block devices, buffer cache,
  free map, inodes, open files, directories, path names). The exercises of Lab2 add priorities to
  the scheduler, a sleep list to the timer and semaphores, locks and condition variables that wake
  by priority. The assignments are merge sorts with two processes and with four threads, two
  monitors over supplied simulators, a CPU scheduler and a pager driven by supplied simulators.

  \<^bold>\<open>Conventions.\<close> A routine that can fail an assertion, panic, leave an array, or loop for ever is
  a function into \<open>option\<close>, and \<open>None\<close> means that it does not return to its caller
  (\<open>kassert\<close> of theory Prelude). Every theorem that such a routine works states that the value is
  \<open>Some\<close>, so that it returns is part of it. Loops over pointers are \<open>partial_function\<close>s, whose
  value is \<open>None\<close> when they do not end; no definition runs on fuel. Results of \<^verbatim>\<open>malloc\<close>
  and \<^verbatim>\<open>calloc\<close> are arguments, so that both outcomes are covered, and so is what memory holds before it is
  first written. Machine words are \<open>32 word\<close> and \<open>8 word\<close> where their width matters (bitmaps,
  hash values, addresses, disk structures); counts, priorities and times are \<open>nat\<close> and \<open>int\<close>.

  \<^bold>\<open>Containers.\<close>
  \<^item> KList, \<^verbatim>\<open>lib/kernel/list.c\<close>: the two pointers of each element are a heap; \<open>list_rep\<close>
    relates it to the sequence of elements, and each operation to one on sequences.
  \<^item> KListSort, the rest of \<^verbatim>\<open>list.c\<close>: \<^verbatim>\<open>list_sort\<close> and its helpers, ordered insertion,
    \<^verbatim>\<open>list_unique\<close>, \<^verbatim>\<open>list_max\<close>, \<^verbatim>\<open>list_min\<close>. Locale \<open>less_func\<close> is the contract of a
    client's comparison; from it follow the sorted, stable result (C1, \<^verbatim>\<open>list_unique_splits\<close>, \<^verbatim>\<open>list_insert_ordered_sorted\<close>).
  \<^item> Bitmap, \<^verbatim>\<open>lib/kernel/bitmap.c\<close>: an array of words as a list of booleans (C15), and locale
    \<open>slot_alloc\<close>, what an allocator of numbered slots promises, interpreted by a bitmap.
  \<^item> Hash, \<^verbatim>\<open>lib/kernel/hash.c\<close>, on the list heap; locales \<open>hash_client\<close> and
    \<open>keyed_client\<close> are the contracts of the client's comparison and hash (C6, \<^verbatim>\<open>hash_iteration_complete\<close>).
  \<^item> Cstring, \<^verbatim>\<open>lib/string.c\<close>, on bytes in memory: \<^verbatim>\<open>strtok_r\<close> enumerates the tokens of a string
    (C22), \<^verbatim>\<open>memmove\<close> copies blocks that overlap (\<^verbatim>\<open>memmove_moves_any_block\<close>), and the bounded copies end what they write (\<^verbatim>\<open>strlcpy_strlcat_bounded\<close>).
  \<^item> Arithmetic, \<^verbatim>\<open>lib/arithmetic.c\<close>: the estimate of a 64-bit quotient from its leading 32 bits (C33, \<^verbatim>\<open>remainder_is_truncated\<close>).
  \<^item> Rc4, \<^verbatim>\<open>lib/random.c\<close>: the RC4 generator (\<^verbatim>\<open>random_bytes_stream\<close>).
  \<^item> Stdlib, \<^verbatim>\<open>lib/stdlib.c\<close>: heap sort, binary search, \<^verbatim>\<open>atoi\<close> (C23, \<^verbatim>\<open>binary_search_finds\<close>, \<^verbatim>\<open>atoi_reads_decimal\<close>).
  \<^item> Stdio, \<^verbatim>\<open>lib/stdio.c\<close>: conversions, integers and strings with their flags, and the output to a buffer
    (\<^verbatim>\<open>vsnprintf_is_bounded\<close>, \<^verbatim>\<open>snprintf_atoi_roundtrip\<close>, \<^verbatim>\<open>percent_at_end_overruns\<close>).
  \<^item> Ustar, \<^verbatim>\<open>lib/ustar.c\<close>: tar headers as 512 bytes, made by Stdio and read again (C31, \<^verbatim>\<open>ustar_parse_is_safe\<close>).

  \<^bold>\<open>Memory.\<close>
  \<^item> Palloc, \<^verbatim>\<open>threads/vaddr.h\<close> and \<^verbatim>\<open>threads/palloc.c\<close>: two pools, each a bitmap of theory
    Bitmap; what is obtained is fresh, and freeing undoes obtaining (C21, \<^verbatim>\<open>palloc_free_undoes_get\<close>).
    PallocPages says the same in terms of the addresses in use, for the two clients that follow.
  \<^item> Pagedir, \<^verbatim>\<open>threads/pte.h\<close> and \<^verbatim>\<open>userprog/pagedir.c\<close>: directories and page tables as words in the
    memory of Palloc. PagedirData has the invariant \<open>dirs_ok\<close>, by which every address space is a finite map,
    and AddressSpace the operations on it: C5, C17, and C8 by rule induction over
    every sequence of operations.
  \<^item> Malloc, \<^verbatim>\<open>threads/malloc.c\<close>: arenas on Palloc, free lists on KList. MallocData has the invariant
    \<open>heap_ok\<close> and what it means to take, put back and release; MallocFree the operations on the set
    \<open>live\<close> of the blocks in use (C9, C12, C20) and the sizes that wrap around (\<^verbatim>\<open>malloc_size_wraps\<close>).
  \<^item> Vm, \<^verbatim>\<open>vm/frame.c\<close> and \<^verbatim>\<open>vm/page.c\<close>: the comparison and hash functions interpret
    \<open>keyed_client\<close>, so both tables are finite maps keyed by page (C10, \<^verbatim>\<open>frame_delete_lookup\<close>); the clock that chooses
    the frame to evict (\<^verbatim>\<open>pick_frame_to_evict_victim\<close>), and the state in which its hand leaves the list (\<^verbatim>\<open>clock_hand_leaves_the_frames\<close>).
  \<^item> Swap, \<^verbatim>\<open>vm/swap.c\<close>: slots from \<open>slot_alloc\<close> over a device of theory Block (C25).
  \<^item> Paging, all of \<^verbatim>\<open>vm/frame.c\<close> and \<^verbatim>\<open>vm/page.c\<close> on one state \<open>vm\<close>: the clock's list, the directories and pools of
    Pagedir, the swap table, the files and the supplemental tables. PagingData says which operations keep the bytes of
    frames and the other address spaces; PagingRun has the invariant \<open>vm_ok\<close> and what an eviction and a load do to it, and
    PagingProps the results, on a concrete machine too: C13, C14, \<^verbatim>\<open>eviction_leaves_hand_on_freed_entry\<close>.

  \<^bold>\<open>File system.\<close>
  \<^item> Block, \<^verbatim>\<open>devices/block.c\<close>: locale \<open>sector_store\<close>, the contract of anything that stores
    sectors; a block device is its first instance.
  \<^item> Partition, the list of devices of \<^verbatim>\<open>devices/block.c\<close>, \<^verbatim>\<open>devices/partition.c\<close> and the choice of devices in
    \<^verbatim>\<open>threads/init.c\<close>: what a scan registers (C28) or never returns from (C37); a
    partition is another instance of \<open>sector_store\<close> (C34).
  \<^item> Cache, \<^verbatim>\<open>filesys/cache.c\<close>: 64 entries replaced by the clock algorithm; the second instance
    of \<open>sector_store\<close>, hence invisible to its users (C29).
  \<^item> Inode, \<^verbatim>\<open>filesys/inode.c\<close>, \<^verbatim>\<open>free-map.c\<close>, \<^verbatim>\<open>file.c\<close>: all their operations on the state
    \<open>fs\<close>, an array of sectors (which Cache justifies) with the open inodes and files. What the
    disk holds before it is first written, the free memory of the kernel and the order in which it is handed
    out are parts of the state (\<open>junk\<close>, \<open>mem\<close>, \<open>heap\<close>, \<open>freed\<close>).
  \<^item> InodeData: the encodings of the disk structures (\<^verbatim>\<open>inode_disk_roundtrip\<close>), files as arrays of bytes (C4), and two
    inputs on which the code does what it does not mean to (\<^verbatim>\<open>empty_write_truncates\<close>, \<^verbatim>\<open>full_disk_erases_free_map_inode\<close>).
  \<^item> InodeGrow: writing past the end of a file (C11) and giving its sectors back (\<^verbatim>\<open>inode_close_returns_sectors\<close>).
  \<^item> Directory, \<^verbatim>\<open>filesys/directory.c\<close>, and DirectoryData: a directory is a map from names to
    sectors (C7, C26, \<^verbatim>\<open>dir_readdir_lists_names\<close>), and what removing a directory reads (\<^verbatim>\<open>dir_remove_directory_uses_freed_inode\<close>).
  \<^item> Filesys, \<^verbatim>\<open>filesys/filesys.c\<close>: paths (\<^verbatim>\<open>split_path_filename_correct\<close>, \<^verbatim>\<open>parent_slot_loses_name\<close>) and the entry points (C2).

  \<^bold>\<open>Programs.\<close>
  \<^item> Elf, \<^verbatim>\<open>userprog/elf.c\<close>: the headers, and loading segments from a file of Inode into pages of Palloc that
    Pagedir maps; with \<^verbatim>\<open>process_activate\<close> and \<^verbatim>\<open>process_exit\<close>. It is the code as built without
    \<^verbatim>\<open>VM\<close>: with it, \<^verbatim>\<open>struct thread\<close> lacks a member and the kernel does not compile.
  \<^item> ElfLoad: the loader's loop keeps the other address spaces, and what the program then reads (C18).
  \<^item> UserStack, \<^verbatim>\<open>push_command\<close> of \<^verbatim>\<open>userprog/process.c\<close>: the arguments of a program on its stack
    (C27, \<^verbatim>\<open>trailing_space_is_argument\<close>).

  \<^bold>\<open>Threads.\<close>
  \<^item> Sched, \<^verbatim>\<open>Lab2/pintos/src/threads/thread.c\<close> and the sleep list of \<^verbatim>\<open>devices/timer.c\<close>: each
    primitive is one step, as it runs with interrupts off. \<open>sched_step\<close> is every step of the
    kernel; the invariant of the ready list is by rule induction (C16). Priority insertion is shown
    on the pointer heap of KList (\<^verbatim>\<open>insert_ordered_thread_priority_fifo\<close>); waking and sleeping are \<^verbatim>\<open>timer_interrupt_wakes_expired\<close>, \<^verbatim>\<open>timer_interrupt_preemption_panics\<close> and \<^verbatim>\<open>timer_sleep_order\<close>.
  \<^item> Sync, \<^verbatim>\<open>semaphore.c\<close>, \<^verbatim>\<open>lock.c\<close>, \<^verbatim>\<open>condvar.c\<close> of Lab2 on Sched: \<open>lock_step\<close> interleaves
    the threads' programs with every step of the scheduler (C3); wake-ups by priority (\<^verbatim>\<open>semaphore_up_wakes_highest\<close>, \<^verbatim>\<open>condvar_signal_wakes_highest\<close>)
    and the race of \<^verbatim>\<open>condvar_wait\<close> (\<^verbatim>\<open>condvar_wait_race\<close>).
  \<^item> RoundRobin, the same files of Lab1 and Lab3, which differ from each other in the timer only: their scheduler is that of Sched for
    threads of one priority (C30), and first-come first-served, so nobody starves
    (C19), which under priorities happens (\<^verbatim>\<open>priority_scheduler_starves\<close>); the sleep list of Lab1
    (C24), locks (\<^verbatim>\<open>round_robin_lock_exclusion\<close>) and condition variables (\<^verbatim>\<open>condvar_broadcast_wakes_in_order\<close>).
  \<^item> Intq, \<^verbatim>\<open>devices/intq.c\<close>: the ring between threads and interrupt handlers, as steps of any number of both
    (C38), and the assertion that two readers violate (\<^verbatim>\<open>intq_wait_assertion_fails\<close>).

  \<^bold>\<open>Assignments.\<close>
  \<^item> MergeSort, \<^verbatim>\<open>Assignment1/psort.c\<close>, \<^verbatim>\<open>usort.c\<close>, \<^verbatim>\<open>Assignment2/sort.c\<close>: \<^verbatim>\<open>merge\<close> is an
    object file, the argument \<open>mrg\<close> with the hypothesis \<open>merge_ok\<close> (\<^verbatim>\<open>two_process_sorts_range\<close>); the four threads run
    under an arbitrary schedule (C32).
  \<^item> Monitors, \<^verbatim>\<open>Assignment3/cartman.c\<close> and \<^verbatim>\<open>manpage.c\<close>: step relations with spurious wake-ups
    (C35, \<^verbatim>\<open>manpage_in_order\<close>).
  \<^item> Queue, CpuSched, Pager, \<^verbatim>\<open>Assignment4/scheduler.c\<close> and \<^verbatim>\<open>Assignment5/pager.c\<close>: the queue
    library is an object file, the argument \<open>ql\<close> with the hypothesis \<open>queue_ok\<close>. C36 and \<^verbatim>\<open>tick_runs_highest\<close> are
    about the scheduler; C39, C40 and \<^verbatim>\<open>lfu_evicts_least_used\<close> compare the pager with the policies of its comments.
  \<^item> Fileman, \<^verbatim>\<open>Assignment6/fileman.c\<close>: files as bytes, where \<open>0xff\<close> reads as the end (\<^verbatim>\<open>fileman_write_read_roundtrip\<close>, \<^verbatim>\<open>fileman_copy_stops_at_FF\<close>),
    and directory listings as a recursion over the tree (\<^verbatim>\<open>file_rec2_draws_tree\<close>, \<^verbatim>\<open>fileman_dir_lists_tree\<close>, \<^verbatim>\<open>fileman_tree_overflows\<close>).

  \<^bold>\<open>Bounds.\<close> The only bounds are those of the code: 64 cache entries, 123 direct blocks, 128
  entries in an index block, a million pages in the pager. Termination of the loops is proved
  where a property needs the result: by computation induction for those over lists, by a measure
  for those over numbers.

  \<^bold>\<open>Simplifications.\<close> Interrupts off, or a lock held, make a section of code one step; the locks
  themselves are modelled only in Sync. The free map's file has had its final size since
  \<^verbatim>\<open>free_map_create\<close>, which \<open>free_map_write\<close> asserts. An operation on an inode that has been
  given back to \<^verbatim>\<open>free\<close> is \<open>None\<close>. Priorities, ticks and element counts do not overflow.

  \<^bold>\<open>Not modelled.\<close> The console and debugging output, device drivers, interrupt descriptors,
  start-up, assembly, exceptions, segment descriptors and system call dispatch: what they do is input, output and
  hardware. The calibrated busy waits of the timer are left out of the parts named above. The files of Lab1 that RoundRobin does not name are the same as those of Lab3, the directories
  \<^verbatim>\<open>.pintos\<close> are the sources as handed out, and \<^verbatim>\<open>Assignment3_1\<close> is an earlier copy of
  \<^verbatim>\<open>Assignment3\<close>. Tests and host tools are not part of the kernel.
\<close>

end
